(* ===== verification/Prelude.thy ===== *)
theory Prelude
  imports Main "HOL-Library.Word"
begin

text \<open>
  Shared vocabulary of the MiniWin development: the kernel's integer types (io.h's u8, u16,
  u32, u64) as words of their width, the collections of simplification rules the component
  theories fill, and generic lemmas on lists, bounded searches and bytes.
\<close>

unbundle bit_operations_syntax

type_synonym u8 = "8 word"
type_synonym u16 = "16 word"
type_synonym u32 = "32 word"
type_synonym u64 = "64 word"
type_synonym bytes = "u8 list"

named_theorems length_simps \<open>lengths of the buffers the operations return\<close>
named_theorems inv_intros \<open>preservation lemmas of component invariants\<close>
named_theorems frame_simps \<open>what an operation leaves unchanged\<close>

subsection \<open>Lists used as C arrays\<close>

text \<open>A block write: overwrite the elements of a buffer from an offset on.\<close>

definition blit :: "'a list \<Rightarrow> nat \<Rightarrow> 'a list \<Rightarrow> 'a list" where
  "blit dst off src = take off dst @ src @ drop (off + length src) dst"

definition slice :: "nat \<Rightarrow> nat \<Rightarrow> 'a list \<Rightarrow> 'a list" where
  "slice off n xs = take n (drop off xs)"

lemma length_blit [simp, length_simps]:
  "off + length src \<le> length dst \<Longrightarrow> length (blit dst off src) = length dst"
  by (simp add: blit_def)

lemma length_slice [simp, length_simps]:
  "off + n \<le> length xs \<Longrightarrow> length (slice off n xs) = n"
  by (simp add: slice_def)

lemma nth_slice [simp]:
  "i < n \<Longrightarrow> off + n \<le> length xs \<Longrightarrow> slice off n xs ! i = xs ! (off + i)"
  by (simp add: slice_def)

lemma nth_blit:
  "off + length src \<le> length dst \<Longrightarrow> i < length dst \<Longrightarrow>
   blit dst off src ! i = (if off \<le> i \<and> i < off + length src then src ! (i - off) else dst ! i)"
  by (auto simp: blit_def nth_append min_def)

lemma slice_blit_same [simp]:
  "off + length src \<le> length dst \<Longrightarrow> n = length src \<Longrightarrow> slice off n (blit dst off src) = src"
  by (simp add: slice_def blit_def)

lemma slice_blit_other:
  "off + length src \<le> length dst \<Longrightarrow> a + n \<le> length dst \<Longrightarrow> a + n \<le> off \<or> off + length src \<le> a \<Longrightarrow>
   slice a n (blit dst off src) = slice a n dst"
  by (rule nth_equalityI) (auto simp: nth_blit)

lemma slice_all [simp]: "n = length xs \<Longrightarrow> slice 0 n xs = xs"
  by (simp add: slice_def)

lemma slice_append_left [simp]: "n = length xs \<Longrightarrow> slice 0 n (xs @ ys) = xs"
  by (simp add: slice_def)

subsection \<open>Bytes and words\<close>

lemma unat_u8_lt: "unat (b :: u8) < 256"
  using unsigned_less [of b, where ?'a = nat] by simp

lemma unat_u16_lt: "unat (b :: u16) < 65536"
  using unsigned_less [of b, where ?'a = nat] by simp

lemma unat_u32_lt: "unat (b :: u32) < 4294967296"
  using unsigned_less [of b, where ?'a = nat] by simp

lemma less_8: "(j::nat) < 8 \<longleftrightarrow> j = 0 \<or> j = 1 \<or> j = 2 \<or> j = 3 \<or> j = 4 \<or> j = 5 \<or> j = 6 \<or> j = 7"
  by presburger
lemma less_16: "(j::nat) < 16 \<Longrightarrow> j = 0 \<or> j = 1 \<or> j = 2 \<or> j = 3 \<or> j = 4 \<or> j = 5 \<or> j = 6 \<or> j = 7 \<or> j = 8 \<or> j = 9 \<or>
    j = 10 \<or> j = 11 \<or> j = 12 \<or> j = 13 \<or> j = 14 \<or> j = 15"
  by presburger

lemma u8_eqI: "(\<And>n. n \<in> {0,1,2,3,4,5,6,7} \<Longrightarrow> bit a n = bit b n) \<Longrightarrow> a = b" for a b :: u8
  by (rule bit_word_eqI) (simp add: less_8)

lemma and_0F_int: "x AND 15 = take_bit 4 (x::int)" by (simp add: take_bit_eq_mask mask_eq_exp_minus_1)
lemma and_3F_int: "x AND 63 = take_bit 6 (x::int)" by (simp add: take_bit_eq_mask mask_eq_exp_minus_1)
lemma and_0F_u8: "x AND 15 = take_bit 4 (x::u8)" by (simp add: take_bit_eq_mask mask_eq_exp_minus_1)
lemma and_3F_u8: "x AND 63 = take_bit 6 (x::u8)" by (simp add: take_bit_eq_mask mask_eq_exp_minus_1)


lemma unat_ucast_up [simp]: "unat (ucast (a :: u8) :: u32) = unat a" "unat (ucast (a :: u8) :: u16) = unat a"
    "unat (ucast (b :: u16) :: u32) = unat b"
  using unat_u8_lt [of a] unat_u16_lt [of b]
  by (simp_all add: unsigned_ucast_eq take_bit_nat_eq_self_iff)

lemma unat_not_u16: "unat (NOT x) = 65535 - unat x" for x :: u16
proof -
  have "NOT x = - 1 - x" by (simp add: not_eq_complement)
  moreover have "unat (- 1 - x) = unat (- 1 :: u16) - unat x"
    by (rule unat_sub) simp
  moreover have "unat (- 1 :: u16) = 65535" by (simp add: unsigned_minus_1_eq_mask mask_eq_exp_minus_1)
  ultimately show ?thesis by simp
qed

lemma unat_of_nat_u16: "n < 65536 \<Longrightarrow> unat (of_nat n :: u16) = n"
  by (simp add: unat_of_nat take_bit_nat_eq_self)

lemma unat_of_nat_u32: "n < 4294967296 \<Longrightarrow> unat (of_nat n :: u32) = n"
  by (simp add: unat_of_nat take_bit_nat_eq_self)

lemma length_6E:
  assumes "length xs = 6"
  obtains a b c d e f where "xs = [a, b, c, d, e, f]"
  using assms by (auto simp: length_Suc_conv eval_nat_numeral)

end
