(* ===== verification/Hangul.thy ===== *)
theory Hangul
  imports Prelude "HOL-Library.Char_ord"
begin

text \<open>
  hangul\_ime.h with the composition formula and the UTF-8 helpers of font\_ko.h: the 2-beolsik
  keyboard tables, the composition state machine (an initial, a medial and a final jamo index,
  -1 for "none") and the text buffer it flushes finished syllables into. The buffer is the
  list of the bytes written so far; maxlen is the caller's capacity.

  The abstract specification is the spelling of the keys typed: their jamo in order, with a silent ieung
  exactly where a vowel has nothing to attach to. Decomposing the text written and the syllable in progress
  gives back that spelling.
\<close>

subsection \<open>Tables\<close>

definition ko_consonant_table :: "(char \<times> int) list" where
  "ko_consonant_table =
    [(CHR ''r'', 0), (CHR ''R'', 1), (CHR ''s'', 2), (CHR ''e'', 3), (CHR ''E'', 4),
     (CHR ''f'', 5), (CHR ''a'', 6), (CHR ''q'', 7), (CHR ''Q'', 8), (CHR ''t'', 9),
     (CHR ''T'', 10), (CHR ''d'', 11), (CHR ''w'', 12), (CHR ''W'', 13), (CHR ''c'', 14),
     (CHR ''z'', 15), (CHR ''x'', 16), (CHR ''v'', 17), (CHR ''g'', 18)]"

definition ko_consonant_index_for_letter :: "char \<Rightarrow> int" where
  "ko_consonant_index_for_letter c =
     (case map_of ko_consonant_table c of Some i \<Rightarrow> i | None \<Rightarrow> -1)"

definition ko_vowel_table :: "(char \<times> int) list" where
  "ko_vowel_table =
    [(CHR ''k'', 0), (CHR ''o'', 1), (CHR ''i'', 2), (CHR ''O'', 3), (CHR ''j'', 4),
     (CHR ''p'', 5), (CHR ''u'', 6), (CHR ''P'', 7), (CHR ''h'', 8), (CHR ''y'', 12),
     (CHR ''n'', 13), (CHR ''b'', 17), (CHR ''m'', 18), (CHR ''l'', 20)]"

definition ko_vowel_index_for_letter :: "char \<Rightarrow> int" where
  "ko_vowel_index_for_letter c =
     (case map_of ko_vowel_table c of Some i \<Rightarrow> i | None \<Rightarrow> -1)"

definition ko_combine_medial :: "int \<Rightarrow> int \<Rightarrow> int" where
  "ko_combine_medial base add =
     (if base = 8 \<and> add = 0 then 9
      else if base = 8 \<and> add = 1 then 10
      else if base = 8 \<and> add = 20 then 11
      else if base = 13 \<and> add = 4 then 14
      else if base = 13 \<and> add = 5 then 15
      else if base = 13 \<and> add = 20 then 16
      else if base = 18 \<and> add = 20 then 19
      else -1)"

definition ko_initial_to_simple_final :: "int list" where
  "ko_initial_to_simple_final =
     [1, 2, 4, 7, -1, 8, 16, 17, -1, 19, 20, 21, 22, -1, 23, 24, 25, 26, 27]"

definition ko_combine_final :: "int \<Rightarrow> int \<Rightarrow> int" where
  "ko_combine_final base_final add =
     (if base_final = 1 \<and> add = 9 then 3
      else if base_final = 4 \<and> add = 12 then 5
      else if base_final = 4 \<and> add = 18 then 6
      else if base_final = 8 \<and> add = 0 then 9
      else if base_final = 8 \<and> add = 6 then 10
      else if base_final = 8 \<and> add = 7 then 11
      else if base_final = 8 \<and> add = 9 then 12
      else if base_final = 8 \<and> add = 16 then 13
      else if base_final = 8 \<and> add = 17 then 14
      else if base_final = 8 \<and> add = 18 then 15
      else if base_final = 17 \<and> add = 9 then 18
      else -1)"

text \<open>The result is the final that stays and the initial handed to the next syllable.\<close>

definition ko_split_table :: "(int \<times> int \<times> int) list" where
  "ko_split_table =
    [(1, 0, 0), (2, 0, 1), (3, 1, 9), (4, 0, 2), (5, 4, 12), (6, 4, 18), (7, 0, 3), (8, 0, 5),
     (9, 8, 0), (10, 8, 6), (11, 8, 7), (12, 8, 9), (13, 8, 16), (14, 8, 17), (15, 8, 18),
     (16, 0, 6), (17, 0, 7), (18, 17, 9), (19, 0, 9), (20, 0, 10), (21, 0, 11), (22, 0, 12),
     (23, 0, 14), (24, 0, 15), (25, 0, 16), (26, 0, 17), (27, 0, 18)]"

definition ko_split_final_for_handback :: "int \<Rightarrow> int \<times> int" where
  "ko_split_final_for_handback final_idx =
     (case map_of ko_split_table final_idx of Some r \<Rightarrow> r | None \<Rightarrow> (0, -1))"

definition KO_INITIAL_IEUNG :: int where "KO_INITIAL_IEUNG = 11"
definition KO_SYLLABLE_BASE :: int where "KO_SYLLABLE_BASE = 0xAC00"

definition ko_compose_codepoint :: "int \<Rightarrow> int \<Rightarrow> int \<Rightarrow> int" where
  "ko_compose_codepoint initial medial final =
     (if initial < 0 \<or> initial > 18 then -1
      else if medial < 0 \<or> medial > 20 then -1
      else if final < 0 \<or> final > 27 then -1
      else KO_SYLLABLE_BASE + (initial * 21 + medial) * 28 + final)"

definition ko_jamo_cp_for_initial :: "int list" where
  "ko_jamo_cp_for_initial =
    [0x3131, 0x3132, 0x3134, 0x3137, 0x3138, 0x3139, 0x3141, 0x3142, 0x3143,
     0x3145, 0x3146, 0x3147, 0x3148, 0x3149, 0x314A, 0x314B, 0x314C, 0x314D, 0x314E]"

subsection \<open>UTF-8 helpers\<close>

definition ko_utf8_char_len :: "u8 \<Rightarrow> nat" where
  "ko_utf8_char_len lead = (if lead AND 0xF0 = 0xE0 then 3 else 1)"

definition ko_utf8_decode3 :: "u8 \<Rightarrow> u8 \<Rightarrow> u8 \<Rightarrow> int" where
  "ko_utf8_decode3 b0 b1 b2 =
     (push_bit 12 (uint (b0 AND 0x0F))) OR (push_bit 6 (uint (b1 AND 0x3F))) OR uint (b2 AND 0x3F)"

definition ko_utf8_last_char_len :: "bytes \<Rightarrow> nat" where
  "ko_utf8_last_char_len buf =
     (let len = length buf in
      if len \<ge> 3 \<and> (buf ! (len - 1)) AND 0xC0 = 0x80
         \<and> (buf ! (len - 2)) AND 0xC0 = 0x80
         \<and> (buf ! (len - 3)) AND 0xF0 = 0xE0 then 3 else 1)"

subsection \<open>The composition state\<close>

record ime =
  ko_cur_initial :: int
  ko_cur_medial :: int
  ko_cur_final :: int

definition ko_ime_reset :: ime where
  "ko_ime_reset = \<lparr>ko_cur_initial = -1, ko_cur_medial = -1, ko_cur_final = -1\<rparr>"

definition ko_ime_is_composing :: "ime \<Rightarrow> bool" where
  "ko_ime_is_composing s = (ko_cur_initial s \<noteq> -1)"

definition ko_ime_preview_codepoint :: "ime \<Rightarrow> int" where
  "ko_ime_preview_codepoint s =
     (if ko_cur_initial s = -1 then -1
      else if ko_cur_medial s = -1 then ko_jamo_cp_for_initial ! nat (ko_cur_initial s)
      else let f = (if ko_cur_final s = -1 then 0 else ko_cur_final s)
           in ko_compose_codepoint (ko_cur_initial s) (ko_cur_medial s) f)"

definition ko_emit_utf8 :: "bytes \<Rightarrow> nat \<Rightarrow> int \<Rightarrow> bytes" where
  "ko_emit_utf8 buf maxlen cp =
     (if cp < 0 then buf
      else if (length buf + 3) mod 2 ^ 32 > maxlen then buf
      else buf @ [word_of_int (0xE0 OR drop_bit 12 cp),
                  word_of_int (0x80 OR (drop_bit 6 cp AND 0x3F)),
                  word_of_int (0x80 OR (cp AND 0x3F))])"

definition ko_ime_commit :: "nat \<Rightarrow> ime \<times> bytes \<Rightarrow> ime \<times> bytes" where
  "ko_ime_commit maxlen = (\<lambda>(s, buf).
     if ko_cur_initial s = -1 then (s, buf)
     else let f = (if ko_cur_final s = -1 then 0 else ko_cur_final s) in
       (ko_ime_reset,
        if ko_cur_medial s = -1
        then ko_emit_utf8 buf maxlen (ko_jamo_cp_for_initial ! nat (ko_cur_initial s))
        else ko_emit_utf8 buf maxlen (ko_compose_codepoint (ko_cur_initial s) (ko_cur_medial s) f)))"

definition ko_feed_consonant :: "nat \<Rightarrow> int \<Rightarrow> ime \<times> bytes \<Rightarrow> ime \<times> bytes" where
  "ko_feed_consonant maxlen cons = (\<lambda>(s, buf).
     if ko_cur_initial s = -1 then
       (s\<lparr>ko_cur_initial := cons, ko_cur_medial := -1, ko_cur_final := -1\<rparr>, buf)
     else if ko_cur_medial s = -1 then
       (let (s', buf') = ko_ime_commit maxlen (s, buf) in (s'\<lparr>ko_cur_initial := cons\<rparr>, buf'))
     else if ko_cur_final s = -1 then
       (let simple = ko_initial_to_simple_final ! nat cons in
        if simple < 0 then
          (let (s', buf') = ko_ime_commit maxlen (s, buf)
           in (s'\<lparr>ko_cur_initial := cons, ko_cur_medial := -1, ko_cur_final := -1\<rparr>, buf'))
        else (s\<lparr>ko_cur_final := simple\<rparr>, buf))
     else
       (let combined = ko_combine_final (ko_cur_final s) cons in
        if combined \<ge> 0 then (s\<lparr>ko_cur_final := combined\<rparr>, buf)
        else
          (let (s', buf') = ko_ime_commit maxlen (s, buf)
           in (s'\<lparr>ko_cur_initial := cons, ko_cur_medial := -1, ko_cur_final := -1\<rparr>, buf'))))"

definition ko_feed_vowel :: "nat \<Rightarrow> int \<Rightarrow> ime \<times> bytes \<Rightarrow> ime \<times> bytes" where
  "ko_feed_vowel maxlen vow = (\<lambda>(s, buf).
     if ko_cur_initial s = -1 then
       (s\<lparr>ko_cur_initial := KO_INITIAL_IEUNG, ko_cur_medial := vow, ko_cur_final := -1\<rparr>, buf)
     else if ko_cur_medial s = -1 then (s\<lparr>ko_cur_medial := vow\<rparr>, buf)
     else if ko_cur_final s = -1 then
       (let combined = ko_combine_medial (ko_cur_medial s) vow in
        if combined \<ge> 0 then (s\<lparr>ko_cur_medial := combined\<rparr>, buf)
        else
          (let (s', buf') = ko_ime_commit maxlen (s, buf)
           in (s'\<lparr>ko_cur_initial := KO_INITIAL_IEUNG, ko_cur_medial := vow, ko_cur_final := -1\<rparr>, buf')))
     else
       (let (kept_final, new_initial) = ko_split_final_for_handback (ko_cur_final s);
            s1 = s\<lparr>ko_cur_final := (if kept_final = 0 then -1 else kept_final)\<rparr>;
            (s', buf') = ko_ime_commit maxlen (s1, buf)
        in (s'\<lparr>ko_cur_initial := new_initial, ko_cur_medial := vow, ko_cur_final := -1\<rparr>, buf')))"

text \<open>The result's flag says whether the key was consumed.\<close>

definition ko_ime_feed_key :: "char \<Rightarrow> nat \<Rightarrow> ime \<times> bytes \<Rightarrow> bool \<times> ime \<times> bytes" where
  "ko_ime_feed_key c maxlen st =
     (let cons = ko_consonant_index_for_letter c; vow = ko_vowel_index_for_letter c in
      if cons < 0 \<and> vow < 0 then (False, ko_ime_commit maxlen st)
      else if cons \<ge> 0 then (True, ko_feed_consonant maxlen cons st)
      else (True, ko_feed_vowel maxlen vow st))"

definition ko_ime_backspace :: "ime \<Rightarrow> bool \<times> ime" where
  "ko_ime_backspace s =
     (if ko_cur_final s \<noteq> -1 then (True, s\<lparr>ko_cur_final := -1\<rparr>)
      else if ko_cur_medial s \<noteq> -1 then (True, s\<lparr>ko_cur_medial := -1\<rparr>)
      else if ko_cur_initial s \<noteq> -1 then (True, s\<lparr>ko_cur_initial := -1\<rparr>)
      else (False, s))"

lemma utf8_assemble:
  fixes cp :: int
  assumes "0 \<le> cp" "cp < 0x10000"
  shows "push_bit 12 (take_bit 4 (drop_bit 12 cp)) OR (push_bit 6 (take_bit 6 (drop_bit 6 cp)) OR take_bit 6 cp) = cp"
proof -
  have cp: "take_bit 16 cp = cp" using assms by (simp add: take_bit_int_eq_self_iff)
  have "push_bit 12 (take_bit 4 (drop_bit 12 cp)) OR (push_bit 6 (take_bit 6 (drop_bit 6 cp)) OR take_bit 6 cp) = take_bit 16 cp"
    by (rule bit_eqI, rename_tac n, case_tac "n < 12") (auto simp: bit_simps)
  thus ?thesis using cp by simp
qed
lemma or_take4: "take_bit 4 (0xE0 OR y) = take_bit 4 (y::int)"
  by (simp)
lemma or_take6: "take_bit 6 (0x80 OR y) = take_bit 6 (y::int)"
  by (simp)
lemma lead_byte_payload: "uint (word_of_int (0xE0 OR y) AND 0x0F :: u8) = take_bit 4 y"
  unfolding and_0F_u8 by (simp add: unsigned_take_bit_eq take_bit_of_int or_take4 unsigned_of_int)
lemma cont_byte_payload: "uint (word_of_int (0x80 OR (y AND 0x3F)) AND 0x3F :: u8) = take_bit 6 y"
  unfolding and_3F_u8  by (simp add: unsigned_take_bit_eq take_bit_of_int or_take6 and_3F_int unsigned_of_int)
lemma lead_byte_mark: "(word_of_int (0xE0 OR drop_bit 12 cp) :: u8) AND 0xF0 = 0xE0" if "0 \<le> cp" "cp < 0x10000"
proof -
  have cp: "take_bit 16 cp = cp" using that by (simp add: take_bit_int_eq_self_iff)
  have "(word_of_int (0xE0 OR drop_bit 12 (take_bit 16 cp)) :: u8) AND 0xF0 = 0xE0"
  by (rule u8_eqI) (auto simp: bit_simps)
  thus ?thesis using cp by simp
  qed
lemma cont_byte_mark: "(word_of_int (0x80 OR (y AND 0x3F)) :: u8) AND 0xC0 = 0x80" 
  by (rule u8_eqI) (auto simp: bit_simps)
subsection \<open>Specification: the jamo a text stands for\<close>

datatype jamo = Consonant int | Vowel int

definition medial_jamo :: "int \<Rightarrow> jamo list" where
  "medial_jamo m =
     (case map_of [(9, 8, 0), (10, 8, 1), (11, 8, 20), (14, 13, 4), (15, 13, 5), (16, 13, 20), (19, 18, 20)] m of
        Some (b, a) \<Rightarrow> [Vowel b, Vowel a] | None \<Rightarrow> [Vowel m])"

definition final_jamo :: "int \<Rightarrow> jamo list" where
  "final_jamo f = (if f \<le> 0 then [] else
     (let (kept, handed) = ko_split_final_for_handback f in
      (if kept = 0 then [] else [Consonant (snd (ko_split_final_for_handback kept))]) @ [Consonant handed]))"

fun index_of :: "int \<Rightarrow> int list \<Rightarrow> int" where
  "index_of x [] = 0"
| "index_of x (y # ys) = (if x = y then 0 else 1 + index_of x ys)"

definition cp_jamo :: "int \<Rightarrow> jamo list" where
  "cp_jamo cp =
     (if cp < KO_SYLLABLE_BASE then [Consonant (index_of cp ko_jamo_cp_for_initial)]
      else let i = cp - KO_SYLLABLE_BASE in
        Consonant (i div 588) # medial_jamo (i mod 588 div 28) @ final_jamo (i mod 28))"

fun text_jamo :: "bytes \<Rightarrow> jamo list" where
  "text_jamo (a # b # c # rest) = cp_jamo (ko_utf8_decode3 a b c) @ text_jamo rest"
| "text_jamo _ = []"

definition state_jamo :: "ime \<Rightarrow> jamo list" where
  "state_jamo s = (if ko_cur_initial s = -1 then [] else
     Consonant (ko_cur_initial s) #
     (if ko_cur_medial s = -1 then [] else medial_jamo (ko_cur_medial s) @ final_jamo (ko_cur_final s)))"

definition key_jamo :: "char \<Rightarrow> jamo list" where
  "key_jamo c = (if ko_consonant_index_for_letter c \<ge> 0 then [Consonant (ko_consonant_index_for_letter c)]
     else if ko_vowel_index_for_letter c \<ge> 0 then [Vowel (ko_vowel_index_for_letter c)] else [])"

text \<open>The spelling of a sequence of keys. A vowel attaches to a consonant typed just before it, or makes a complex vowel with
  a simple vowel typed just before it; otherwise it starts a syllable of its own, which is written with a silent ieung. A key
  that is no jamo ends the syllable. prev is what the next vowel may attach to.\<close>

definition complex_vowels :: "(int \<times> int) list" where
  "complex_vowels = [(8, 0), (8, 1), (8, 20), (13, 4), (13, 5), (13, 20), (18, 20)]"

fun attach :: "jamo option \<Rightarrow> jamo \<Rightarrow> jamo list \<times> jamo option" where
  "attach prev (Consonant k) = ([Consonant k], Some (Consonant k))"
| "attach (Some (Consonant k)) (Vowel v) = ([Vowel v], Some (Vowel v))"
| "attach (Some (Vowel u)) (Vowel v) =
     (if (u, v) \<in> set complex_vowels then ([Vowel v], None) else ([Consonant KO_INITIAL_IEUNG, Vowel v], Some (Vowel v)))"
| "attach None (Vowel v) = ([Consonant KO_INITIAL_IEUNG, Vowel v], Some (Vowel v))"

definition spell_key :: "jamo option \<Rightarrow> char \<Rightarrow> jamo list \<times> jamo option" where
  "spell_key prev c = (case key_jamo c of [] \<Rightarrow> ([], None) | j # _ \<Rightarrow> attach prev j)"

fun spelling :: "jamo option \<Rightarrow> char list \<Rightarrow> jamo list" where
  "spelling prev [] = []"
| "spelling prev (c # cs) = (let (js, prev') = spell_key prev c in js @ spelling prev' cs)"

text \<open>What the state says of prev.\<close>

fun attaches :: "jamo option \<Rightarrow> ime \<Rightarrow> bool" where
  "attaches (Some (Consonant k)) s \<longleftrightarrow> ko_cur_initial s \<noteq> -1 \<and> (ko_cur_medial s = -1 \<or> ko_cur_final s \<noteq> -1)"
| "attaches (Some (Vowel u)) s \<longleftrightarrow> ko_cur_initial s \<noteq> -1 \<and> ko_cur_medial s = u \<and> u \<noteq> -1 \<and> ko_cur_final s = -1"
| "attaches None s \<longleftrightarrow> ko_cur_initial s = -1 \<or>
     (ko_cur_medial s \<noteq> -1 \<and> ko_cur_final s = -1 \<and> (\<forall>v. ko_combine_medial (ko_cur_medial s) v < 0))"

lemma cp_jamo_compose:
  assumes "0 \<le> i" "i \<le> 18" "0 \<le> m" "m \<le> 20" "0 \<le> f" "f \<le> 27"
  shows "cp_jamo (ko_compose_codepoint i m f) = Consonant i # medial_jamo m @ final_jamo f"
proof -
  have r: "(i * 21 + m) * 28 + f = (m * 28 + f) + i * 588" by simp
  have small: "0 \<le> m * 28 + f" "m * 28 + f < 588" using assms by simp_all
  have a: "((i * 21 + m) * 28 + f) div 588 = i"
    unfolding r using small by (simp add: div_pos_pos_trivial)
  have b: "((i * 21 + m) * 28 + f) mod 588 div 28 = m"
    unfolding r using small assms by (simp add: mod_pos_pos_trivial)
  have c: "((i * 21 + m) * 28 + f) mod 28 = f"
    unfolding mod_mult_self3 using assms by (simp add: mod_pos_pos_trivial)
  have d: "\<not> KO_SYLLABLE_BASE + (i * 21 + m) * 28 + f < KO_SYLLABLE_BASE" using assms by simp
  have e: "ko_compose_codepoint i m f = KO_SYLLABLE_BASE + ((i * 21 + m) * 28 + f)"
    using assms by (simp add: ko_compose_codepoint_def)
  have n: "\<not> KO_SYLLABLE_BASE + ((i * 21 + m) * 28 + f) < KO_SYLLABLE_BASE" using d by simp
  show ?thesis unfolding e cp_jamo_def Let_def if_not_P [OF n] add_diff_cancel_left' a b c by (rule refl)
qed
lemma upto_18: "{0..18::int} = {0,1,2,3,4,5,6,7,8,9,10,11,12,13,14,15,16,17,18}"
  by (simp only: set_eq_iff atLeastAtMost_iff insert_iff empty_iff) presburger
lemma bare_jamo_table: "\<forall>i\<in>{0..18}. 0x800 \<le> ko_jamo_cp_for_initial ! nat i \<and> ko_jamo_cp_for_initial ! nat i < 0x10000
  \<and> cp_jamo (ko_jamo_cp_for_initial ! nat i) = [Consonant i]"
  unfolding upto_18 by (simp add: ko_jamo_cp_for_initial_def cp_jamo_def KO_SYLLABLE_BASE_def)

lemma text_jamo_append: "length xs mod 3 = 0 \<Longrightarrow> text_jamo (xs @ ys) = text_jamo xs @ text_jamo ys"
  by (induction xs rule: text_jamo.induct) auto

lemma combine_medial_jamo: "0 \<le> ko_combine_medial b a \<Longrightarrow> medial_jamo (ko_combine_medial b a) = medial_jamo b @ [Vowel a]"
  by (simp add: ko_combine_medial_def medial_jamo_def split: if_splits)
lemma combine_final_split:
  "0 \<le> ko_combine_final b a \<Longrightarrow>
      ko_split_final_for_handback (ko_combine_final b a) = (b, a)"
  by (auto simp: ko_combine_final_def ko_split_final_for_handback_def ko_split_table_def split: if_splits)
lemma combine_final_jamo: "0 \<le> ko_combine_final b a \<Longrightarrow> final_jamo (ko_combine_final b a) = final_jamo b @ [Consonant a]"
  by (auto simp: ko_combine_final_def final_jamo_def ko_split_final_for_handback_def ko_split_table_def split: if_splits)
lemma handback_jamo: "\<forall>f\<in>{1..27}. case ko_split_final_for_handback f of (k, i) \<Rightarrow>
   final_jamo f = final_jamo k @ [Consonant i] \<and> 0 \<le> k \<and> k \<le> 17 \<and> 0 \<le> i \<and> i \<le> 18" by code_simp
lemma simple_final_jamo: "\<forall>i\<in>{0..18}. 0 \<le> ko_initial_to_simple_final ! nat i \<longrightarrow>
   final_jamo (ko_initial_to_simple_final ! nat i) = [Consonant i] \<and> 1 \<le> ko_initial_to_simple_final ! nat i
     \<and> ko_initial_to_simple_final ! nat i \<le> 27" by code_simp

subsection \<open>The invariant and the refinement of each operation\<close>

definition ime_ok :: "ime \<Rightarrow> bool" where
  "ime_ok s \<longleftrightarrow>
     -1 \<le> ko_cur_initial s \<and> ko_cur_initial s \<le> 18 \<and>
     -1 \<le> ko_cur_medial s \<and> ko_cur_medial s \<le> 20 \<and>
     (ko_cur_final s = -1 \<or> 1 \<le> ko_cur_final s \<and> ko_cur_final s \<le> 27) \<and>
     (ko_cur_initial s = -1 \<longrightarrow> ko_cur_medial s = -1) \<and>
     (ko_cur_medial s = -1 \<longrightarrow> ko_cur_final s = -1)"

lemma ko_consonant_range:
  "-1 \<le> ko_consonant_index_for_letter c" "ko_consonant_index_for_letter c \<le> 18"
  by (simp_all add: ko_consonant_index_for_letter_def ko_consonant_table_def)

lemma ko_vowel_range:
  "-1 \<le> ko_vowel_index_for_letter c" "ko_vowel_index_for_letter c \<le> 20"
  by (simp_all add: ko_vowel_index_for_letter_def ko_vowel_table_def)

lemma ko_combine_medial_range: "ko_combine_medial b a \<le> 20"
  by (simp add: ko_combine_medial_def)

lemma ko_combine_final_range: "0 \<le> ko_combine_final b a \<Longrightarrow> 1 \<le> ko_combine_final b a"
  "ko_combine_final b a \<le> 27"
  by (simp_all add: ko_combine_final_def split: if_splits)

definition roomy :: "nat \<Rightarrow> bytes \<Rightarrow> bool" where
  "roomy maxlen buf \<longleftrightarrow> length buf + 3 \<le> maxlen \<and> maxlen < 2 ^ 32 \<and> length buf mod 3 = 0"

lemma emit_jamo:
  assumes "roomy maxlen buf" "0x800 \<le> cp" "cp < 0x10000"
  shows "text_jamo (ko_emit_utf8 buf maxlen cp) = text_jamo buf @ cp_jamo cp"
    and "length (ko_emit_utf8 buf maxlen cp) = length buf + 3"
  using assms
  by (auto simp: roomy_def ko_emit_utf8_def text_jamo_append ko_utf8_decode3_def lead_byte_payload cont_byte_payload utf8_assemble)

lemma state_cp_bounds:
  assumes "ime_ok s" "ko_cur_initial s \<noteq> -1"
  shows "0x800 \<le> ko_ime_preview_codepoint s \<and> ko_ime_preview_codepoint s < 0x10000
    \<and> cp_jamo (ko_ime_preview_codepoint s) = state_jamo s"
proof (cases "ko_cur_medial s = -1")
  case True
  with assms bare_jamo_table show ?thesis
    by (auto simp: ime_ok_def ko_ime_preview_codepoint_def state_jamo_def)
next
  case False
  define f where "f = (if ko_cur_final s = -1 then 0 else ko_cur_final s)"
  have f: "0 \<le> f" "f \<le> 27" and ff: "final_jamo f = final_jamo (ko_cur_final s)"
    using assms by (auto simp: ime_ok_def f_def final_jamo_def)
  have r: "0 \<le> ko_cur_initial s" "ko_cur_initial s \<le> 18" "0 \<le> ko_cur_medial s" "ko_cur_medial s \<le> 20"
    using assms False by (auto simp: ime_ok_def)
  have p: "ko_ime_preview_codepoint s = ko_compose_codepoint (ko_cur_initial s) (ko_cur_medial s) f"
    using assms False by (simp add: ko_ime_preview_codepoint_def f_def Let_def)
  have "cp_jamo (ko_ime_preview_codepoint s) = state_jamo s"
    unfolding p using cp_jamo_compose [OF r f] assms False by (simp add: state_jamo_def ff)
  moreover have "0x800 \<le> ko_ime_preview_codepoint s \<and> ko_ime_preview_codepoint s < 0x10000"
    unfolding p using r f by (simp add: ko_compose_codepoint_def KO_SYLLABLE_BASE_def)
  ultimately show ?thesis by simp
qed

lemma commit_preview:
  "ko_ime_commit maxlen (s, buf) =
     (if ko_cur_initial s = -1 then (s, buf)
      else (ko_ime_reset, ko_emit_utf8 buf maxlen (ko_ime_preview_codepoint s)))"
  by (simp add: ko_ime_commit_def ko_ime_preview_codepoint_def Let_def)

lemma commit_jamo:
  assumes "ime_ok s" "roomy maxlen buf" "ko_ime_commit maxlen (s, buf) = (s', buf')"
  shows "text_jamo buf' = text_jamo buf @ state_jamo s \<and> length buf' \<le> length buf + 3
    \<and> length buf' mod 3 = 0 \<and> ime_ok s' \<and> s' = (if ko_cur_initial s = -1 then s else ko_ime_reset)"
  using assms state_cp_bounds [of s] emit_jamo [of maxlen buf "ko_ime_preview_codepoint s"]
  by (auto simp: commit_preview roomy_def state_jamo_def ime_ok_def ko_ime_reset_def split: if_splits)

definition feed_ok :: "ime \<times> bytes \<Rightarrow> jamo list \<times> jamo option \<Rightarrow> ime \<times> bytes \<Rightarrow> bool" where
  "feed_ok st r st' \<longleftrightarrow>
     text_jamo (snd st') @ state_jamo (fst st') = text_jamo (snd st) @ state_jamo (fst st) @ fst r \<and>
     length (snd st') \<le> length (snd st) + 3 \<and> length (snd st') mod 3 = 0 \<and> ime_ok (fst st') \<and> attaches (snd r) (fst st')"

lemmas feed_simps = feed_ok_def state_jamo_def ime_ok_def roomy_def ko_ime_reset_def Let_def

lemma final_jamo_none [simp]: "final_jamo (-1) = []" "final_jamo 0 = []"
  by (simp_all add: final_jamo_def)

lemma combine_complex: "0 \<le> ko_combine_medial u v \<longleftrightarrow> (u, v) \<in> set complex_vowels"
  by (simp add: ko_combine_medial_def complex_vowels_def)

lemma combine_once: "0 \<le> ko_combine_medial u v \<Longrightarrow> ko_combine_medial (ko_combine_medial u v) w < 0"
  by (simp add: ko_combine_medial_def split: if_splits)

lemma feed_consonant_ok:
  assumes "ime_ok s" "roomy maxlen buf" "0 \<le> cons" "cons \<le> 18"
  shows "feed_ok (s, buf) ([Consonant cons], Some (Consonant cons)) (ko_feed_consonant maxlen cons (s, buf))"
proof -
  obtain s1 b1 where c: "ko_ime_commit maxlen (s, buf) = (s1, b1)" by fastforce
  note cj = commit_jamo [OF assms(1,2) c]
  have sf: "0 \<le> ko_initial_to_simple_final ! nat cons \<Longrightarrow>
     final_jamo (ko_initial_to_simple_final ! nat cons) = [Consonant cons] \<and> 1 \<le> ko_initial_to_simple_final ! nat cons
     \<and> ko_initial_to_simple_final ! nat cons \<le> 27"
    using simple_final_jamo assms by simp
  consider (empty) "ko_cur_initial s = -1" | (bare) "ko_cur_initial s \<noteq> -1" "ko_cur_medial s = -1"
    | (open_syll) "ko_cur_initial s \<noteq> -1" "ko_cur_medial s \<noteq> -1" "ko_cur_final s = -1"
    | (closed) "ko_cur_initial s \<noteq> -1" "ko_cur_medial s \<noteq> -1" "ko_cur_final s \<noteq> -1" by blast
  thus ?thesis
  proof cases
    case empty
    thus ?thesis using assms by (simp add: ko_feed_consonant_def feed_simps)
  next
    case bare
    thus ?thesis using assms cj c by (simp add: ko_feed_consonant_def feed_simps)
  next
    case open_syll
    thus ?thesis using assms cj c sf by (simp add: ko_feed_consonant_def feed_simps)
  next
    case closed
    thus ?thesis using assms cj c ko_combine_final_range [of "ko_cur_final s" cons]
      by (simp add: ko_feed_consonant_def feed_simps combine_final_jamo)
  qed
qed

lemma feed_vowel_ok:
  assumes "ime_ok s" "roomy maxlen buf" "0 \<le> vow" "vow \<le> 20" "medial_jamo vow = [Vowel vow]" "attaches prev s"
  shows "feed_ok (s, buf) (attach prev (Vowel vow)) (ko_feed_vowel maxlen vow (s, buf))"
proof -
  consider (empty) "ko_cur_initial s = -1" | (bare) "ko_cur_initial s \<noteq> -1" "ko_cur_medial s = -1"
    | (open_syll) "ko_cur_initial s \<noteq> -1" "ko_cur_medial s \<noteq> -1" "ko_cur_final s = -1"
    | (closed) "ko_cur_initial s \<noteq> -1" "ko_cur_medial s \<noteq> -1" "ko_cur_final s \<noteq> -1" by blast
  thus ?thesis
  proof cases
    case empty
    hence "prev = None" using assms(6) by (cases prev; cases "the prev") auto
    thus ?thesis using empty assms by (simp add: ko_feed_vowel_def feed_simps KO_INITIAL_IEUNG_def)
  next
    case bare
    then obtain k where "prev = Some (Consonant k)" using assms(6) by (cases prev; cases "the prev") auto
    thus ?thesis using bare assms by (simp add: ko_feed_vowel_def feed_simps)
  next
    case open_syll
    obtain s1 b1 where c: "ko_ime_commit maxlen (s, buf) = (s1, b1)" by fastforce
    note cj = commit_jamo [OF assms(1,2) c]
    have p: "attach prev (Vowel vow) = (if 0 \<le> ko_combine_medial (ko_cur_medial s) vow then ([Vowel vow], None)
        else ([Consonant KO_INITIAL_IEUNG, Vowel vow], Some (Vowel vow)))"
    proof (cases prev)
      case None thus ?thesis using open_syll assms(6) by (simp add: not_le [symmetric])
    next
      case (Some j) thus ?thesis using open_syll assms(6) combine_complex [of "ko_cur_medial s" vow] by (cases j) auto
    qed
    show ?thesis using open_syll assms(1-5) cj c ko_combine_medial_range [of "ko_cur_medial s" vow] combine_once [of "ko_cur_medial s" vow]
      by (simp add: p ko_feed_vowel_def feed_simps combine_medial_jamo KO_INITIAL_IEUNG_def)
  next
    case closed
    then obtain j where j: "prev = Some (Consonant j)" using assms(6) by (cases prev; cases "the prev") auto
    obtain k i where ki: "ko_split_final_for_handback (ko_cur_final s) = (k, i)" by fastforce
    have h: "final_jamo (ko_cur_final s) = final_jamo k @ [Consonant i]" "0 \<le> k" "k \<le> 17" "0 \<le> i" "i \<le> 18"
      using bspec [OF handback_jamo, of "ko_cur_final s"] ki closed assms(1)
      by (simp_all add: ime_ok_def)
    define s2 where "s2 = s\<lparr>ko_cur_final := (if k = 0 then -1 else k)\<rparr>"
    obtain s1 b1 where c: "ko_ime_commit maxlen (s2, buf) = (s1, b1)" by fastforce
    have "ime_ok s2" using assms(1) h closed by (simp add: ime_ok_def s2_def)
    note cj = commit_jamo [OF this assms(2) c]
    have fk: "final_jamo (ko_cur_final s2) = final_jamo k" by (simp add: s2_def)
    have s2s: "ko_cur_initial s2 = ko_cur_initial s" "ko_cur_medial s2 = ko_cur_medial s" by (simp_all add: s2_def)
    show ?thesis using closed j assms(1-5) cj c h fk s2s
      by (simp add: ko_feed_vowel_def feed_simps ki s2_def [symmetric])
  qed
qed

lemma vowel_key_simple: "medial_jamo (ko_vowel_index_for_letter c) = [Vowel (ko_vowel_index_for_letter c)]"
  by (simp add: ko_vowel_index_for_letter_def ko_vowel_table_def medial_jamo_def)

lemma feed_key_ok:
  assumes "ime_ok s" "roomy maxlen buf" "attaches prev s"
  shows "feed_ok (s, buf) (spell_key prev c) (snd (ko_ime_feed_key c maxlen (s, buf)))"
proof -
  obtain s1 b1 where cm: "ko_ime_commit maxlen (s, buf) = (s1, b1)" by fastforce
  have "feed_ok (s, buf) ([], None) (ko_ime_commit maxlen (s, buf))"
    using commit_jamo [OF assms(1,2) cm] cm by (auto simp: feed_simps)
  thus ?thesis
    using feed_consonant_ok [OF assms(1,2), of "ko_consonant_index_for_letter c"]
      feed_vowel_ok [OF assms(1,2), of "ko_vowel_index_for_letter c" prev]
      ko_consonant_range [of c] ko_vowel_range [of c] vowel_key_simple [of c] assms(3)
    by (simp add: ko_ime_feed_key_def key_jamo_def spell_key_def Let_def)
qed

primrec ko_type :: "nat \<Rightarrow> char list \<Rightarrow> ime \<times> bytes \<Rightarrow> ime \<times> bytes" where
  "ko_type maxlen [] st = st"
| "ko_type maxlen (c # cs) st = ko_type maxlen cs (snd (ko_ime_feed_key c maxlen st))"

lemma ko_type_jamo:
  assumes "ime_ok s" "length buf + 3 * length cs \<le> maxlen" "maxlen < 2 ^ 32" "length buf mod 3 = 0" "attaches prev s"
    "ko_type maxlen cs (s, buf) = (s', buf')"
  shows "text_jamo buf' @ state_jamo s' = text_jamo buf @ state_jamo s @ spelling prev cs"
  using assms
proof (induction cs arbitrary: s buf prev)
  case (Cons c cs)
  obtain s1 b1 where f: "snd (ko_ime_feed_key c maxlen (s, buf)) = (s1, b1)" by fastforce
  obtain js prev' where k: "spell_key prev c = (js, prev')" by fastforce
  have "roomy maxlen buf" using Cons.prems by (simp add: roomy_def)
  from feed_key_ok [OF Cons.prems(1) this Cons.prems(5), of c]
  have fk: "feed_ok (s, buf) (js, prev') (s1, b1)" by (simp add: f k)
  hence "text_jamo buf' @ state_jamo s' = text_jamo b1 @ state_jamo s1 @ spelling prev' cs"
    using Cons.prems f by (intro Cons.IH) (auto simp: feed_ok_def)
  thus ?case using fk by (simp add: feed_ok_def k)
qed auto

lemma commit_state: "fst (ko_ime_commit maxlen (s, buf)) = (if ko_cur_initial s = -1 then s else ko_ime_reset)"
  by (simp add: commit_preview)

lemma emit_length_le:
  "length buf \<le> maxlen \<Longrightarrow> maxlen + 3 < 2 ^ 32 \<Longrightarrow> length (ko_emit_utf8 buf maxlen cp) \<le> maxlen"
  by (simp add: ko_emit_utf8_def)

lemma commit_length_le:
  "length buf \<le> maxlen \<Longrightarrow> maxlen + 3 < 2 ^ 32 \<Longrightarrow> length (snd (ko_ime_commit maxlen (s, buf))) \<le> maxlen"
  by (simp add: commit_preview emit_length_le)

lemma feed_state_indep:
  "fst (snd (ko_ime_feed_key c maxlen (s, buf))) = fst (snd (ko_ime_feed_key c 3 (s, [])))"
  by (simp add: ko_ime_feed_key_def ko_feed_consonant_def ko_feed_vowel_def commit_preview Let_def
      split: prod.splits)

lemma feed_length_le:
  "length buf \<le> maxlen \<Longrightarrow> maxlen + 3 < 2 ^ 32 \<Longrightarrow>
   length (snd (snd (ko_ime_feed_key c maxlen (s, buf)))) \<le> maxlen"
  by (simp add: ko_ime_feed_key_def ko_feed_consonant_def ko_feed_vowel_def commit_preview Let_def
       emit_length_le split: prod.splits)

lemma feed_ime_ok: "ime_ok s \<Longrightarrow> ime_ok (fst (snd (ko_ime_feed_key c maxlen (s, buf))))"
proof -
  assume s: "ime_ok s"
  have "\<exists>prev. attaches prev s"
  proof (cases "ko_cur_initial s = -1 \<or> ko_cur_medial s = -1 \<or> ko_cur_final s \<noteq> -1")
    case True
    hence "attaches None s \<or> attaches (Some (Consonant 0)) s" by auto
    thus ?thesis by blast
  next
    case False
    hence "attaches (Some (Vowel (ko_cur_medial s))) s" by simp
    thus ?thesis by blast
  qed
  thus ?thesis using feed_key_ok [of s 3 "[]" _ c] s by (auto simp: feed_state_indep [of c maxlen] feed_ok_def roomy_def)
qed

lemma backspace_ime_ok: "ime_ok s \<Longrightarrow> ime_ok (snd (ko_ime_backspace s))"
  by (auto simp: ime_ok_def ko_ime_backspace_def)

lemma emit_decode:
  assumes "0x800 \<le> cp" "cp < 0x10000" "length buf + 3 \<le> maxlen" "maxlen < 2 ^ 32"
  shows "\<exists>a b c. ko_emit_utf8 buf maxlen cp = buf @ [a, b, c] \<and> ko_utf8_char_len a = 3
     \<and> ko_utf8_decode3 a b c = cp \<and> ko_utf8_last_char_len (buf @ [a, b, c]) = 3"
  using assms 
  by (auto simp: ko_emit_utf8_def ko_utf8_char_len_def ko_utf8_last_char_len_def nth_append lead_byte_mark cont_byte_mark
     ko_utf8_decode3_def lead_byte_payload cont_byte_payload utf8_assemble Let_def)

subsection \<open>Properties\<close>

text \<open>Claim C24. Whatever is typed on the 2-beolsik layout into a buffer with 3 bytes of room per key, the text flushed to the
  buffer followed by the syllable in progress spells exactly the jamo typed, in order, with a silent ieung in front of a vowel
  exactly when neither a consonant nor a vowel it combines with comes just before it. No keystroke is lost, doubled or moved - a
  typed ieung neither - including across complex vowels, complex finals and the hand-back of a final.\<close>

theorem ko_type_keeps_keys:
  assumes "3 * length cs \<le> maxlen" "maxlen < 2 ^ 32"
  shows "text_jamo (snd (ko_type maxlen cs (ko_ime_reset, []))) @ state_jamo (fst (ko_type maxlen cs (ko_ime_reset, []))) = spelling None cs"
proof -
  obtain s buf where t: "ko_type maxlen cs (ko_ime_reset, []) = (s, buf)" by fastforce
  have "ime_ok ko_ime_reset" "attaches None ko_ime_reset" by (simp_all add: ime_ok_def ko_ime_reset_def)
  moreover have "state_jamo ko_ime_reset = []" by (simp add: state_jamo_def ko_ime_reset_def)
  ultimately show ?thesis using ko_type_jamo [OF _ _ assms(2) _ _ t] assms(1) by (simp add: t)
qed

theorem ko_type_keeps_keys_witness:
  "text_jamo (snd (ko_type 100 ''dhksdlld'' (ko_ime_reset, []))) @ state_jamo (fst (ko_type 100 ''dhksdlld'' (ko_ime_reset, []))) =
     [Consonant 11, Vowel 8, Vowel 0, Consonant 2, Consonant 11, Vowel 20, Consonant 11, Vowel 20, Consonant 11]"
  by (subst ko_type_keeps_keys)
    (simp_all add: key_jamo_def spell_key_def complex_vowels_def ko_consonant_index_for_letter_def
       ko_consonant_table_def ko_vowel_index_for_letter_def ko_vowel_table_def KO_INITIAL_IEUNG_def)

text \<open>The bytes of a first syllable, once a second one has begun.\<close>

lemma ko_type_bytes: "snd (ko_type 100 ''dhksrkt'' (ko_ime_reset, [])) = [0xEC, 0x99, 0x84]"
  by (simp add: ko_ime_reset_def ko_ime_feed_key_def ko_feed_consonant_def ko_feed_vowel_def
       ko_ime_commit_def ko_consonant_index_for_letter_def ko_consonant_table_def
       ko_vowel_index_for_letter_def ko_vowel_table_def KO_INITIAL_IEUNG_def ko_combine_medial_def
       ko_initial_to_simple_final_def ko_combine_final_def ko_split_final_for_handback_def
       ko_split_table_def ko_compose_codepoint_def KO_SYLLABLE_BASE_def ko_emit_utf8_def)

text \<open>Claim C25. Every key and every backspace keeps the composition state well formed (indices in range,
  a medial only with an initial, a final only with a medial), for any buffer, and a key never
  writes past the buffer's capacity.\<close>

theorem ime_invariant:
  assumes "ime_ok s" "length buf \<le> maxlen" "maxlen + 3 < 2 ^ 32"
  shows "ime_ok (fst (snd (ko_ime_feed_key c maxlen (s, buf)))) \<and>
         length (snd (snd (ko_ime_feed_key c maxlen (s, buf)))) \<le> maxlen \<and>
         ime_ok (snd (ko_ime_backspace s))"
  using assms by (simp add: feed_ime_ok feed_length_le backspace_ime_ok)

theorem ime_invariant_witness:
  "ime_ok (fst (snd (ko_ime_feed_key (CHR ''k'') 4
     (\<lparr>ko_cur_initial = 2, ko_cur_medial = 0, ko_cur_final = 12\<rparr>, [0x41, 0x42]))))"
  by (rule ime_invariant [THEN conjunct1]) (simp_all add: ime_ok_def)

text \<open>A flushed syllable reads back: the three bytes ko\_emit\_utf8 appends are recognised as one
  3-byte character by ko\_utf8\_char\_len and by the backward scan of ko\_utf8\_last\_char\_len
  and decode to the code point emitted.\<close>

theorem ko_emit_reads_back:
  assumes "0x800 \<le> cp" "cp < 0x10000" "length buf + 3 \<le> maxlen" "maxlen < 2 ^ 32"
  shows "\<exists>a b c. ko_emit_utf8 buf maxlen cp = buf @ [a, b, c] \<and> ko_utf8_char_len a = 3
     \<and> ko_utf8_decode3 a b c = cp \<and> ko_utf8_last_char_len (buf @ [a, b, c]) = 3"
  using assms by (rule emit_decode)

theorem ko_emit_reads_back_witness:
  "\<exists>a b c. ko_emit_utf8 [0x41] 4 0xD55C = [0x41] @ [a, b, c] \<and> ko_utf8_char_len a = 3
     \<and> ko_utf8_decode3 a b c = 0xD55C \<and> ko_utf8_last_char_len ([0x41] @ [a, b, c]) = 3"
  by (rule ko_emit_reads_back) simp_all

end
