(* ===== verification/Rtc.thy ===== *)
theory Rtc
  imports Prelude
begin

text \<open>
  rtc.h: reading the CMOS real-time clock, the day of the week, the DOS/FAT time stamp and the
  whole-hour time zone offset. The CMOS chip is a parameter: cmos t reg stands for the byte
  register reg answers at the t-th port read, so the busy wait on the update flag and the
  seven reads after it are reads at successive times. The C ints of rtc_time_t are int;
  the dates handled are non-negative, where C's division agrees with div and mod.
\<close>

subsection \<open>Reading the chip\<close>

type_synonym cmos = "nat \<Rightarrow> u8 \<Rightarrow> u8"

record rtc_time_t =
  second :: int
  minute :: int
  hour :: int
  day :: int
  month :: int
  year :: int
  weekday :: int

definition cmos_update_in_progress :: "cmos \<Rightarrow> nat \<Rightarrow> bool" where
  "cmos_update_in_progress cmos t = (cmos t 0x0A AND 0x80 \<noteq> 0)"

definition bcd_to_bin :: "u8 \<Rightarrow> u8" where
  "bcd_to_bin v = (v AND 0x0F) + drop_bit 4 v * 10"

definition weekday_table :: "int list" where
  "weekday_table = [0, 3, 2, 5, 0, 3, 5, 1, 4, 6, 2, 4]"

definition compute_weekday :: "int \<Rightarrow> int \<Rightarrow> int \<Rightarrow> int" where
  "compute_weekday y0 m d =
     (let y = (if m < 3 then y0 - 1 else y0)
      in (y + y div 4 - y div 100 + y div 400 + weekday_table ! nat (m - 1) + d) mod 7)"

text \<open>The busy wait: the loop counter i and the number of port reads so far.\<close>

function rtc_wait :: "cmos \<Rightarrow> nat \<Rightarrow> nat \<Rightarrow> nat" where
  "rtc_wait cmos i t =
     (if i < 1000000 then
        (if cmos_update_in_progress cmos t then rtc_wait cmos (i + 1) (t + 1) else t + 1)
      else t)"
  by pat_completeness auto
termination by (relation "measure (\<lambda>(_, i, _). 1000000 - i)") auto

declare rtc_wait.simps [simp del]

definition rtc_read :: "cmos \<Rightarrow> nat \<Rightarrow> rtc_time_t" where
  "rtc_read cmos t0 =
     (let t = rtc_wait cmos 0 t0;
          sec = cmos t 0x00; mi = cmos (t + 1) 0x02; hr = cmos (t + 2) 0x04;
          da = cmos (t + 3) 0x07; mo = cmos (t + 4) 0x08; yr = cmos (t + 5) 0x09;
          status_b = cmos (t + 6) 0x0B;
          is_binary = (status_b AND 0x04 \<noteq> 0);
          is_24hr = (status_b AND 0x02 \<noteq> 0);
          pm = (hr AND 0x80 \<noteq> 0);
          hr = hr AND 0x7F;
          conv = (if is_binary then (\<lambda>v. v) else bcd_to_bin);
          sec = conv sec; mi = conv mi; hr = conv hr; da = conv da; mo = conv mo; yr = conv yr;
          hr = (if is_24hr then hr else (if pm then (hr mod 12) + 12 else hr mod 12));
          y = 2000 + uint yr
      in \<lparr>second = uint sec, minute = uint mi, hour = uint hr, day = uint da, month = uint mo,
          year = y, weekday = compute_weekday y (uint mo) (uint da)\<rparr>)"

subsection \<open>Stamps and offsets\<close>

definition dos_pack :: "rtc_time_t \<Rightarrow> u32" where
  "dos_pack t =
     (if year t < 2000 \<or> year t > 2107 \<or> month t < 1 \<or> month t > 12 \<or> day t < 1 \<or> day t > 31 then 0
      else push_bit 25 (word_of_int (year t - 1980)) OR push_bit 21 (word_of_int (month t)) OR
           push_bit 16 (word_of_int (day t)) OR push_bit 11 (word_of_int (hour t)) OR
           push_bit 5 (word_of_int (minute t)) OR drop_bit 1 (word_of_int (second t)))"

definition rtc_dos_stamp :: "cmos \<Rightarrow> nat \<Rightarrow> u32" where
  "rtc_dos_stamp cmos t0 = dos_pack (rtc_read cmos t0)"

definition rtc_is_leap_year :: "int \<Rightarrow> bool" where
  "rtc_is_leap_year y = ((y mod 4 = 0 \<and> y mod 100 \<noteq> 0) \<or> y mod 400 = 0)"

definition days_table :: "int list" where
  "days_table = [31, 28, 31, 30, 31, 30, 31, 31, 30, 31, 30, 31]"

definition rtc_days_in_month :: "int \<Rightarrow> int \<Rightarrow> int" where
  "rtc_days_in_month y m =
     (if m = 2 \<and> rtc_is_leap_year y then 29 else days_table ! nat (m - 1))"

definition next_day :: "rtc_time_t \<Rightarrow> rtc_time_t" where
  "next_day t =
     (let t = t\<lparr>day := day t + 1\<rparr> in
      if day t > rtc_days_in_month (year t) (month t) then
        let t = t\<lparr>day := 1, month := month t + 1\<rparr> in
        if month t > 12 then t\<lparr>month := 1, year := year t + 1\<rparr> else t
      else t)"

definition prev_day :: "rtc_time_t \<Rightarrow> rtc_time_t" where
  "prev_day t =
     (let t = t\<lparr>day := day t - 1\<rparr> in
      if day t < 1 then
        let t = t\<lparr>month := month t - 1\<rparr>;
            t = (if month t < 1 then t\<lparr>month := 12, year := year t - 1\<rparr> else t)
        in t\<lparr>day := rtc_days_in_month (year t) (month t)\<rparr>
      else t)"

definition rtc_apply_offset :: "rtc_time_t \<Rightarrow> int \<Rightarrow> rtc_time_t" where
  "rtc_apply_offset t offset_hours =
     (let h = hour t + offset_hours;
          (h, t) = (if h \<ge> 24 then (h - 24, next_day t)
                    else if h < 0 then (h + 24, prev_day t) else (h, t));
          t = t\<lparr>hour := h\<rparr>
      in t\<lparr>weekday := compute_weekday (year t) (month t) (day t)\<rparr>)"

text \<open>The fields MiniFiles shows for a stamp: year, month, day, hour, minute.\<close>

definition fx_stamp_fields :: "u32 \<Rightarrow> int \<times> int \<times> int \<times> int \<times> int" where
  "fx_stamp_fields st =
     (uint (drop_bit 25 st) + 1980, uint (drop_bit 21 st AND 15), uint (drop_bit 16 st AND 31),
      uint (drop_bit 11 st AND 31), uint (drop_bit 5 st AND 63))"

subsection \<open>Calendar facts\<close>

definition date_ok :: "rtc_time_t \<Rightarrow> bool" where
  "date_ok t \<longleftrightarrow> 1 \<le> year t \<and> 1 \<le> month t \<and> month t \<le> 12 \<and> 1 \<le> day t \<and>
     day t \<le> rtc_days_in_month (year t) (month t)"

definition weekday_of :: "rtc_time_t \<Rightarrow> int" where
  "weekday_of t = compute_weekday (year t) (month t) (day t)"

definition time_ok :: "rtc_time_t \<Rightarrow> bool" where
  "time_ok t \<longleftrightarrow> date_ok t \<and> 0 \<le> hour t \<and> hour t < 24 \<and> weekday t = weekday_of t"

lemma month_cases:
  "1 \<le> m \<Longrightarrow> m \<le> 12 \<Longrightarrow> m = 1 \<or> m = 2 \<or> m = 3 \<or> m = 4 \<or> m = 5 \<or> m = 6 \<or> m = 7 \<or> m = 8 \<or>
     m = 9 \<or> m = 10 \<or> m = 11 \<or> m = (12 :: int)"
  by presburger

lemma div_Suc:
  fixes y n :: int
  assumes "0 < n"
  shows "(y + 1) div n = y div n + (if (y + 1) mod n = 0 then 1 else 0)"
proof (cases "y mod n = n - 1")
  case True
  have eq: "y + 1 = n * (y div n + 1) + 0"
    using True mult_div_mod_eq [of n y] by (simp add: distrib_left)
  show ?thesis
    using int_div_pos_eq [OF eq] int_mod_pos_eq [OF eq] assms by simp
next
  case False
  have eq: "y + 1 = n * (y div n) + (y mod n + 1)" using mult_div_mod_eq [of n y] by linarith
  have "0 \<le> y mod n" "y mod n + 1 < n"
    using False assms pos_mod_bound [of n y] pos_mod_sign [of n y] by linarith+
  thus ?thesis
    using int_div_pos_eq [OF eq] int_mod_pos_eq [OF eq] by simp
qed

lemma leap_step:
  "(y + 1) div 4 - (y + 1) div 100 + (y + 1) div 400 =
     y div 4 - y div 100 + y div 400 + (if rtc_is_leap_year (y + 1) then 1 else 0)"
proof -
  have "(y + 1) mod 100 = 0 \<Longrightarrow> (y + 1) mod 4 = 0" "(y + 1) mod 400 = 0 \<Longrightarrow> (y + 1) mod 100 = 0"
    unfolding mod_eq_0_iff_dvd by (erule dvd_trans [rotated], simp)+
  thus ?thesis
    by (simp add: div_Suc rtc_is_leap_year_def)
qed

text \<open>Sakamoto's formula without the year's contribution of the days already gone.\<close>

definition year_offset :: "int \<Rightarrow> int" where
  "year_offset y = y + y div 4 - y div 100 + y div 400"

lemma year_offset_step:
  "year_offset y = year_offset (y - 1) + 1 + (if rtc_is_leap_year y then 1 else 0)"
  using leap_step [of "y - 1"] by (simp add: year_offset_def)

lemma compute_weekday_offset:
  "compute_weekday y m d = (year_offset (if m < 3 then y - 1 else y) + weekday_table ! nat (m - 1) + d) mod 7"
  by (simp add: compute_weekday_def year_offset_def Let_def)

lemma month_end_7:
  assumes "1 \<le> m" "m < 12"
  shows "7 dvd (year_offset (if m + 1 < 3 then y - 1 else y) + weekday_table ! nat m + 1) -
               (year_offset (if m < 3 then y - 1 else y) + weekday_table ! nat (m - 1) +
                rtc_days_in_month y m + 1)"
proof -
  have "m = 1 \<or> m = 2 \<or> m = 3 \<or> m = 4 \<or> m = 5 \<or> m = 6 \<or> m = 7 \<or> m = 8 \<or> m = 9 \<or> m = 10 \<or> m = 11"
    using assms by presburger
  thus ?thesis
    by (elim disjE)
      (simp_all add: weekday_table_def rtc_days_in_month_def days_table_def year_offset_step [of y])
qed

lemma year_end_7:
  "7 dvd (year_offset y + weekday_table ! 0 + 1) -
         (year_offset y + weekday_table ! 11 + rtc_days_in_month y 12 + 1)"
  by (simp add: weekday_table_def rtc_days_in_month_def days_table_def)

lemma weekday_next_day:
  assumes "date_ok t"
  shows "weekday_of (next_day t) = (weekday_of t + 1) mod 7"
proof -
  have succ: "(weekday_of t + 1) mod 7 =
      (year_offset (if month t < 3 then year t - 1 else year t) + weekday_table ! nat (month t - 1)
       + day t + 1) mod 7"
    by (simp add: weekday_of_def compute_weekday_offset mod_simps)
  consider (within) "day t + 1 \<le> rtc_days_in_month (year t) (month t)"
    | (month_end) "day t = rtc_days_in_month (year t) (month t)" "month t < 12"
    | (year_end) "day t = rtc_days_in_month (year t) (month t)" "month t = 12"
    using assms by (fastforce simp: date_ok_def)
  thus ?thesis
  proof cases
    case within
    thus ?thesis unfolding succ
      by (simp add: next_day_def weekday_of_def compute_weekday_offset add_ac)
  next
    case month_end
    have "1 \<le> month t" using assms by (simp add: date_ok_def)
    from month_end_7 [OF this month_end(2), of "year t"] show ?thesis
      unfolding succ using month_end
      by (simp add: next_day_def weekday_of_def compute_weekday_offset mod_eq_dvd_iff add_ac)
  next
    case year_end
    from year_end_7 [of "year t"] show ?thesis unfolding succ using year_end
      by (simp add: next_day_def weekday_of_def compute_weekday_offset mod_eq_dvd_iff add_ac)
  qed
qed

lemma weekday_anchor: "compute_weekday 2000 1 1 = 6"
  by (simp add: compute_weekday_def weekday_table_def)

lemma days_in_month_bounds:
  "1 \<le> m \<Longrightarrow> m \<le> 12 \<Longrightarrow> 28 \<le> rtc_days_in_month y m \<and> rtc_days_in_month y m \<le> 31"
  by (drule month_cases, assumption) (elim disjE; simp add: rtc_days_in_month_def days_table_def)

lemma prev_next_day: "date_ok t \<Longrightarrow> prev_day (next_day t) = t"
  using days_in_month_bounds [of "month t" "year t"]
  by (auto simp: date_ok_def prev_day_def next_day_def Let_def)

lemma next_prev_day: "date_ok t \<Longrightarrow> next_day (prev_day t) = t"
  using days_in_month_bounds [of "month t" "year t"]
  by (auto simp: date_ok_def prev_day_def next_day_def Let_def)

lemma date_ok_next: "date_ok t \<Longrightarrow> date_ok (next_day t)"
  using days_in_month_bounds [of "month t + 1" "year t"] days_in_month_bounds [of 1 "year t + 1"]
  by (auto simp: date_ok_def next_day_def Let_def)

lemma date_ok_prev: "date_ok t \<Longrightarrow> 2 \<le> year t \<Longrightarrow> date_ok (prev_day t)"
  using days_in_month_bounds [of "month t - 1" "year t"] days_in_month_bounds [of 12 "year t - 1"]
  by (auto simp: date_ok_def prev_day_def Let_def)


lemma apply_offset_cases:
  assumes "0 \<le> hour t" "hour t < 24" "-24 \<le> off" "off \<le> 24"
  shows "rtc_apply_offset t off =
     (let t' = (if hour t + off \<ge> 24 then next_day t else if hour t + off < 0 then prev_day t else t)
      in t'\<lparr>hour := (hour t + off) mod 24, weekday := weekday_of t'\<rparr>)"
proof -
  have "(hour t + off) mod 24 = (if hour t + off \<ge> 24 then hour t + off - 24
       else if hour t + off < 0 then hour t + off + 24 else hour t + off)"
    using assms by (simp add: mod_pos_pos_trivial) (smt (verit) mod_add_self2 mod_pos_pos_trivial minus_mod_self2)
  thus ?thesis by (simp add: rtc_apply_offset_def Let_def weekday_of_def)
qed

lemma day_frame [frame_simps]:
  "hour (next_day t) = hour t" "hour (prev_day t) = hour t"
  "next_day (t\<lparr>hour := h, weekday := w\<rparr>) = (next_day t)\<lparr>hour := h, weekday := w\<rparr>"
  "prev_day (t\<lparr>hour := h, weekday := w\<rparr>) = (prev_day t)\<lparr>hour := h, weekday := w\<rparr>"
  "weekday_of (t\<lparr>hour := h, weekday := w\<rparr>) = weekday_of t"
  "date_ok (t\<lparr>hour := h, weekday := w\<rparr>) = date_ok t"
  by (simp_all add: next_day_def prev_day_def weekday_of_def date_ok_def Let_def)

lemma apply_offset_ok:
  assumes "time_ok t" "2 \<le> year t" "-24 \<le> off" "off \<le> 24"
  shows "time_ok (rtc_apply_offset t off)"
  using assms apply_offset_cases [of t off]
  by (simp add: time_ok_def Let_def frame_simps date_ok_next date_ok_prev)

lemma apply_offset_inverse:
  assumes t: "time_ok t" "2 \<le> year t" and off: "-24 \<le> off" "off \<le> 24"
  shows "rtc_apply_offset (rtc_apply_offset t off) (- off) = t"
proof -
  have h: "0 \<le> hour t" "hour t < 24" and d: "date_ok t" and w: "weekday t = weekday_of t"
    using t by (auto simp: time_ok_def)
  have self: "t\<lparr>hour := hour t, weekday := weekday_of t\<rparr> = t" using w by simp
  consider (up) "hour t + off \<ge> 24" "(hour t + off) mod 24 = hour t + off - 24"
    | (down) "hour t + off < 0" "(hour t + off) mod 24 = hour t + off + 24"
    | (same) "0 \<le> hour t + off" "hour t + off < 24" "(hour t + off) mod 24 = hour t + off"
    using h off by (smt (verit) mod_add_self2 mod_pos_pos_trivial minus_mod_self2)
  thus ?thesis
  proof cases
    case up
    hence e: "rtc_apply_offset t off =
        (next_day t)\<lparr>hour := hour t + off - 24, weekday := weekday_of (next_day t)\<rparr>"
      using apply_offset_cases [OF h off] by (simp add: Let_def)
    have "rtc_apply_offset (rtc_apply_offset t off) (- off) =
        t\<lparr>hour := (hour t - 24) mod 24, weekday := weekday_of t\<rparr>"
      unfolding e using up(1) h off
      by (subst apply_offset_cases) (simp_all add: frame_simps Let_def prev_next_day [OF d])
    thus ?thesis using h self by (simp add: mod_pos_pos_trivial)
  next
    case down
    hence e: "rtc_apply_offset t off =
        (prev_day t)\<lparr>hour := hour t + off + 24, weekday := weekday_of (prev_day t)\<rparr>"
      using apply_offset_cases [OF h off] by (simp add: Let_def)
    have "rtc_apply_offset (rtc_apply_offset t off) (- off) =
        t\<lparr>hour := (hour t + 24) mod 24, weekday := weekday_of t\<rparr>"
      unfolding e using down(1) h off
      by (subst apply_offset_cases) (simp_all add: frame_simps Let_def next_prev_day [OF d])
    thus ?thesis using h self by (simp add: mod_pos_pos_trivial)
  next
    case same
    hence e: "rtc_apply_offset t off = t\<lparr>hour := hour t + off, weekday := weekday_of t\<rparr>"
      using apply_offset_cases [OF h off] by (simp add: Let_def)
    have "rtc_apply_offset (rtc_apply_offset t off) (- off) =
        t\<lparr>hour := hour t mod 24, weekday := weekday_of t\<rparr>"
      unfolding e using same(1,2) h off
      by (subst apply_offset_cases) (simp_all add: frame_simps Let_def)
    thus ?thesis using h self by (simp add: mod_pos_pos_trivial)
  qed
qed

subsection \<open>The packed stamp\<close>

lemma pack_fields:
  fixes y mo d h mi s :: u32
  defines "w \<equiv> push_bit 25 y OR push_bit 21 (take_bit 4 mo) OR push_bit 16 (take_bit 5 d) OR
     push_bit 11 (take_bit 5 h) OR push_bit 5 (take_bit 6 mi) OR drop_bit 1 (take_bit 6 s)"
  shows "drop_bit 25 w = take_bit 7 y" "take_bit 4 (drop_bit 21 w) = take_bit 4 mo"
    "take_bit 5 (drop_bit 16 w) = take_bit 5 d" "take_bit 5 (drop_bit 11 w) = take_bit 5 h"
    "take_bit 6 (drop_bit 5 w) = take_bit 6 mi" "take_bit 5 w = drop_bit 1 (take_bit 6 s)"
  unfolding w_def
  apply (rule bit_word_eqI, force simp: bit_simps)
  apply (rule bit_word_eqI, force simp: bit_simps)
  apply (rule bit_word_eqI, force simp: bit_simps)
  apply (rule bit_word_eqI, force simp: bit_simps)
  apply (rule bit_word_eqI, force simp: bit_simps)
  apply (rule bit_word_eqI, force simp: bit_simps)
  done


lemma take_bit_field: "0 \<le> x \<Longrightarrow> x < 2 ^ n \<Longrightarrow> n \<le> 32 \<Longrightarrow> take_bit n (word_of_int x :: u32) = word_of_int x"
  by (simp add: take_bit_of_int take_bit_int_eq_self min_def)

lemma uint_field: "0 \<le> x \<Longrightarrow> x < 2 ^ 32 \<Longrightarrow> uint (word_of_int x :: u32) = x"
  by (simp add: unsigned_of_int take_bit_int_eq_self)

lemma and_mask_fields: "w AND 15 = take_bit 4 w" "w AND 31 = take_bit 5 w" "w AND 63 = take_bit 6 w" for w :: u32
  by (simp_all add: take_bit_eq_mask mask_eq_exp_minus_1)

lemma stamp_fields:
  assumes "2000 \<le> year t" "year t \<le> 2107" "1 \<le> month t" "month t \<le> 12" "1 \<le> day t" "day t \<le> 31"
    "0 \<le> hour t" "hour t < 24" "0 \<le> minute t" "minute t < 60" "0 \<le> second t" "second t < 60"
  shows "fx_stamp_fields (dos_pack t) = (year t, month t, day t, hour t, minute t)"
proof -
  let ?y = "word_of_int (year t - 1980) :: u32" and ?mo = "word_of_int (month t) :: u32"
    and ?d = "word_of_int (day t) :: u32" and ?h = "word_of_int (hour t) :: u32"
    and ?mi = "word_of_int (minute t) :: u32" and ?s = "word_of_int (second t) :: u32"
  have tb: "take_bit 7 ?y = ?y" "take_bit 4 ?mo = ?mo" "take_bit 5 ?d = ?d" "take_bit 5 ?h = ?h"
    "take_bit 6 ?mi = ?mi" "take_bit 6 ?s = ?s"
    using assms by (simp_all add: take_bit_field del: of_int_diff)
  have "dos_pack t = push_bit 25 ?y OR push_bit 21 ?mo OR push_bit 16 ?d OR push_bit 11 ?h OR
     push_bit 5 ?mi OR drop_bit 1 ?s"
    using assms by (simp add: dos_pack_def)
  with pack_fields [of ?y ?mo ?d ?h ?mi ?s] tb
  have "drop_bit 25 (dos_pack t) = ?y" "take_bit 4 (drop_bit 21 (dos_pack t)) = ?mo"
    "take_bit 5 (drop_bit 16 (dos_pack t)) = ?d" "take_bit 5 (drop_bit 11 (dos_pack t)) = ?h"
    "take_bit 6 (drop_bit 5 (dos_pack t)) = ?mi"
    by simp_all
  thus ?thesis
    using assms by (simp add: fx_stamp_fields_def and_mask_fields uint_field del: of_int_diff)
qed

subsection \<open>Reading back what a chip encodes\<close>

definition to_bcd :: "int \<Rightarrow> u8" where
  "to_bcd v = word_of_int (16 * (v div 10) + v mod 10)"

text \<open>The register bytes of a chip that holds the given time, in each of the four modes.\<close>

definition cmos_byte :: "bool \<Rightarrow> int \<Rightarrow> u8" where
  "cmos_byte binary v = (if binary then word_of_int v else to_bcd v)"

definition cmos_hour :: "bool \<Rightarrow> bool \<Rightarrow> int \<Rightarrow> u8" where
  "cmos_hour binary h24 h =
     (if h24 then cmos_byte binary h
      else cmos_byte binary (if h mod 12 = 0 then 12 else h mod 12) OR (if h \<ge> 12 then 0x80 else 0))"

definition chip :: "bool \<Rightarrow> bool \<Rightarrow> rtc_time_t \<Rightarrow> u8 \<Rightarrow> u8" where
  "chip binary h24 t reg =
     (if reg = 0x00 then cmos_byte binary (second t) else if reg = 0x02 then cmos_byte binary (minute t)
      else if reg = 0x04 then cmos_hour binary h24 (hour t) else if reg = 0x07 then cmos_byte binary (day t)
      else if reg = 0x08 then cmos_byte binary (month t) else if reg = 0x09 then cmos_byte binary (year t - 2000)
      else if reg = 0x0B then (if binary then 4 else 0) OR (if h24 then 2 else 0) else 0)"

lemma bcd_all: "\<forall>v \<in> {0..99}. bcd_to_bin (to_bcd v) = word_of_int v"
  by code_simp

lemma hour_all:
  "\<forall>h \<in> {0..23}. \<forall>b \<in> {True, False}.
     (cmos_hour b True h AND 0x7F = cmos_byte b h) \<and>
     (cmos_hour b False h AND 0x80 \<noteq> 0) = (h \<ge> 12) \<and>
     (let x = cmos_hour b False h AND 0x7F; v = (if b then x else bcd_to_bin x) in
       (if h \<ge> 12 then v mod 12 + 12 else v mod 12) = word_of_int h)"
  by code_simp


lemma rtc_wait_ready:
  assumes "cmos t0 0x0A AND 0x80 = 0"
  shows "rtc_wait cmos 0 t0 = t0 + 1"
  by (subst rtc_wait.simps) (simp add: cmos_update_in_progress_def assms)

lemma conv_byte:
  "0 \<le> v \<Longrightarrow> v \<le> 99 \<Longrightarrow> (if b then cmos_byte b v else bcd_to_bin (cmos_byte b v)) = word_of_int v"
  using bcd_all by (simp add: cmos_byte_def)

lemma uint_byte: "0 \<le> v \<Longrightarrow> v < 256 \<Longrightarrow> uint (word_of_int v :: u8) = v"
  by (simp add: unsigned_of_int take_bit_int_eq_self)

lemma conv_hour:
  assumes "0 \<le> h" "h \<le> 23"
  shows "(let hr = cmos_hour b h24 h; x = hr AND 0x7F; v = (if b then x else bcd_to_bin x) in
     if h24 then v else if hr AND 0x80 \<noteq> 0 then v mod 12 + 12 else v mod 12) = word_of_int h"
proof (cases h24)
  case True
  have "cmos_hour b True h AND 0x7F = cmos_byte b h"
    using bspec [OF bspec [OF hour_all, of h], of b] assms by simp
  thus ?thesis using True conv_byte [of h b] assms by (cases b) (simp_all add: Let_def)
next
  case False
  thus ?thesis using bspec [OF bspec [OF hour_all, of h], of b] assms
    by (cases b; cases "12 \<le> h") (simp_all add: Let_def)
qed

lemma chip_status:
  "(chip b h24 t 0x0B AND 0x04 \<noteq> 0) = b" "(chip b h24 t 0x0B AND 0x02 \<noteq> 0) = h24"
  by (auto simp: chip_def)

lemma rtc_read_chip:
  assumes "time_ok t" "2000 \<le> year t" "year t \<le> 2099" "0 \<le> minute t" "minute t < 60"
    "0 \<le> second t" "second t < 60"
  shows "rtc_read (\<lambda>_. chip b h24 t) t0 = t"
proof -
  have d: "1 \<le> day t" "day t \<le> 31" "1 \<le> month t" "month t \<le> 12" "0 \<le> hour t" "hour t \<le> 23"
    using assms(1) days_in_month_bounds [of "month t" "year t"] by (auto simp: time_ok_def date_ok_def)
  have w: "compute_weekday (year t) (month t) (day t) = weekday t"
    using assms(1) by (simp add: time_ok_def weekday_of_def)
  have regs: "chip b h24 t 0 = cmos_byte b (second t)" "chip b h24 t 2 = cmos_byte b (minute t)"
     "chip b h24 t 4 = cmos_hour b h24 (hour t)" "chip b h24 t 7 = cmos_byte b (day t)"
     "chip b h24 t 8 = cmos_byte b (month t)" "chip b h24 t 9 = cmos_byte b (year t - 2000)"
    by (simp_all add: chip_def)
  have cv: "(if b then (\<lambda>v. v) else bcd_to_bin) x = (if b then x else bcd_to_bin x)" for x by simp
  note hr = conv_hour [OF d(5,6), of b h24, unfolded Let_def]
  show ?thesis
    unfolding rtc_read_def Let_def regs chip_status cv hr using d assms
    by (simp add: conv_byte uint_byte w del: of_int_diff)
qed

subsection \<open>Properties\<close>

text \<open>Applying a whole-hour zone offset to a valid time gives a valid time with the
  right weekday, and applying the opposite offset gives the original reading back, across
  midnight, month ends, leap days and year ends.\<close>

theorem rtc_offset_roundtrip:
  assumes "time_ok t" "2 \<le> year t" "-24 \<le> off" "off \<le> 24"
  shows "time_ok (rtc_apply_offset t off) \<and>
         rtc_apply_offset (rtc_apply_offset t off) (- off) = t"
  using apply_offset_ok [OF assms] apply_offset_inverse [OF assms] by simp

theorem rtc_offset_roundtrip_witness:
  "rtc_apply_offset (rtc_apply_offset \<lparr>second = 5, minute = 30, hour = 20, day = 29, month = 2,
     year = 2024, weekday = 4\<rparr> 9) (-9) =
   \<lparr>second = 5, minute = 30, hour = 20, day = 29, month = 2, year = 2024, weekday = 4\<rparr>"
  by (rule rtc_offset_roundtrip [THEN conjunct2])
    (simp_all add: time_ok_def date_ok_def weekday_of_def compute_weekday_def weekday_table_def
       rtc_days_in_month_def rtc_is_leap_year_def days_table_def)

text \<open>The weekday formula is right for every date: it gives Saturday for 1 January
  2000 and advances by exactly one, modulo 7, from any valid date to the next day of the
  calendar.\<close>

theorem weekday_correct:
  "compute_weekday 2000 1 1 = 6 \<and>
   (date_ok t \<longrightarrow> weekday_of (next_day t) = (weekday_of t + 1) mod 7)"
  using weekday_anchor weekday_next_day by blast

theorem weekday_correct_witness:
  "weekday_of (next_day \<lparr>second = 0, minute = 0, hour = 0, day = 28, month = 2,
     year = 1900, weekday = 3\<rparr>) =
   (weekday_of \<lparr>second = 0, minute = 0, hour = 0, day = 28, month = 2, year = 1900, weekday = 3\<rparr> + 1) mod 7"
  by (rule weekday_correct [THEN conjunct2, rule_format])
    (simp add: date_ok_def rtc_days_in_month_def rtc_is_leap_year_def days_table_def)

text \<open>A chip that holds a valid time of this century, in binary or BCD and in 24-hour
  or 12-hour mode with its PM bit, is read back as that time, and the packed stamp of the
  reading shows the same date, hour and minute.\<close>

theorem rtc_reads_chip:
  assumes "time_ok t" "2000 \<le> year t" "year t \<le> 2099" "0 \<le> minute t" "minute t < 60"
    "0 \<le> second t" "second t < 60"
  shows "rtc_read (\<lambda>_. chip b h24 t) t0 = t \<and>
    fx_stamp_fields (rtc_dos_stamp (\<lambda>_. chip b h24 t) t0) = (year t, month t, day t, hour t, minute t)"
proof -
  have "1 \<le> day t" "day t \<le> 31" "1 \<le> month t" "month t \<le> 12" "0 \<le> hour t" "hour t < 24"
    using assms(1) days_in_month_bounds [of "month t" "year t"] by (auto simp: time_ok_def date_ok_def)
  thus ?thesis
    using rtc_read_chip [OF assms] stamp_fields [of t] assms by (simp add: rtc_dos_stamp_def)
qed

theorem rtc_reads_chip_witness:
  "rtc_read (\<lambda>_. chip False False \<lparr>second = 59, minute = 7, hour = 12, day = 29, month = 2,
     year = 2024, weekday = 4\<rparr>) 0 =
     \<lparr>second = 59, minute = 7, hour = 12, day = 29, month = 2, year = 2024, weekday = 4\<rparr>"
  by (rule rtc_reads_chip [THEN conjunct1])
    (simp_all add: time_ok_def date_ok_def weekday_of_def compute_weekday_def weekday_table_def
       rtc_days_in_month_def rtc_is_leap_year_def days_table_def)

end
