(* ===== verification/Net.thy ===== *)
theory Net
  imports Prelude
begin

text \<open>
  net.h and nic.h: byte order, the Internet checksum, and the global state the network stack
  shares. A C buffer with its length is a list of bytes, so net_put16_be is the two bytes it
  stores and net_get16_be reads at an offset. The card driver (the send function pointer of
  nic_t) is a parameter: given the number of frames tried so far and the frame, it answers
  whether the hardware took it; accepted frames are logged in order.
\<close>

subsection \<open>Byte order\<close>

definition net_htons :: "u16 \<Rightarrow> u16" where
  "net_htons v = push_bit 8 v OR drop_bit 8 v"

definition net_ntohs :: "u16 \<Rightarrow> u16" where
  "net_ntohs v = net_htons v"

definition net_htonl :: "u32 \<Rightarrow> u32" where
  "net_htonl v = push_bit 24 (v AND 0xFF) OR push_bit 8 (v AND 0xFF00) OR
     drop_bit 8 (v AND 0xFF0000) OR drop_bit 24 (v AND 0xFF000000)"

definition net_ntohl :: "u32 \<Rightarrow> u32" where
  "net_ntohl v = net_htonl v"

definition net_put16_be :: "u16 \<Rightarrow> bytes" where
  "net_put16_be v = [ucast (drop_bit 8 v), ucast (v AND 0xFF)]"

definition net_put32_be :: "u32 \<Rightarrow> bytes" where
  "net_put32_be v = [ucast (drop_bit 24 v), ucast (drop_bit 16 v), ucast (drop_bit 8 v), ucast (v AND 0xFF)]"

definition net_get16_be :: "bytes \<Rightarrow> nat \<Rightarrow> u16" where
  "net_get16_be p i = push_bit 8 (ucast (p ! i)) OR ucast (p ! (i + 1))"

definition net_get32_be :: "bytes \<Rightarrow> nat \<Rightarrow> u32" where
  "net_get32_be p i = push_bit 24 (ucast (p ! i)) OR push_bit 16 (ucast (p ! (i + 1))) OR
     push_bit 8 (ucast (p ! (i + 2))) OR ucast (p ! (i + 3))"

definition NET_IP4 :: "u8 \<Rightarrow> u8 \<Rightarrow> u8 \<Rightarrow> u8 \<Rightarrow> u32" where
  "NET_IP4 a b c d = push_bit 24 (ucast a) OR push_bit 16 (ucast b) OR push_bit 8 (ucast c) OR ucast d"

definition NET_IP4_BROADCAST :: u32 where
  "NET_IP4_BROADCAST = NET_IP4 255 255 255 255"

subsection \<open>The Internet checksum\<close>

fun net_checksum_add :: "u32 \<Rightarrow> bytes \<Rightarrow> u32" where
  "net_checksum_add s (a # b # data) = net_checksum_add (s + (push_bit 8 (ucast a) OR ucast b)) data"
| "net_checksum_add s [a] = s + push_bit 8 (ucast a)"
| "net_checksum_add s [] = s"

lemma unat_and_FFFF: "unat (s AND 0xFFFF) = unat s mod 65536" for s :: u32
proof -
  have "s AND 0xFFFF = take_bit 16 s" by (simp add: take_bit_eq_mask mask_eq_exp_minus_1)
  hence "unat (s AND 0xFFFF) = take_bit 16 (unat s)" by (simp only: unsigned_take_bit_eq)
  thus ?thesis by (simp add: take_bit_eq_mod)
qed

lemma unat_drop_bit: "unat (drop_bit n s) = unat s div 2 ^ n" for s :: "'a::len word"
  by (subst unsigned_drop_bit_eq) (simp add: drop_bit_eq_div take_bit_nat_eq_self)

lemma unat_drop_16: "unat (drop_bit 16 s) = unat s div 65536" for s :: u32
  using unat_drop_bit [of 16 s] by simp

lemma fold_step:
  "unat ((s AND 0xFFFF) + drop_bit 16 s) = unat s mod 65536 + unat s div 65536" for s :: u32
proof -
  have "unat s mod 65536 + unat s div 65536 < 4294967296"
    using unat_u32_lt [of s] by linarith
  thus ?thesis by (simp add: unat_word_ariths unat_and_FFFF unat_drop_16)
qed

lemma fold_decreases:
  assumes "drop_bit 16 (s :: u32) \<noteq> 0"
  shows "unat ((s AND 0xFFFF) + drop_bit 16 s) < unat s"
proof -
  have "unat s div 65536 \<noteq> 0" using assms unat_drop_16 by (metis unat_eq_zero)
  moreover have "unat s = 65536 * (unat s div 65536) + unat s mod 65536" by simp
  ultimately show ?thesis unfolding fold_step by linarith
qed

function net_checksum_fold :: "u32 \<Rightarrow> u32" where
  "net_checksum_fold s =
     (if drop_bit 16 s \<noteq> 0 then net_checksum_fold ((s AND 0xFFFF) + drop_bit 16 s) else s)"
  by pat_completeness auto
termination by (relation "measure unat") (auto intro: fold_decreases)

declare net_checksum_fold.simps [simp del]

definition net_checksum_finish :: "u32 \<Rightarrow> u16" where
  "net_checksum_finish s = ucast (NOT (net_checksum_fold s) AND 0xFFFF)"

definition net_checksum :: "bytes \<Rightarrow> u16" where
  "net_checksum data = net_checksum_finish (net_checksum_add 0 data)"

subsection \<open>Constants and the shared state\<close>

definition ETHERTYPE_IPV4 :: u16 where "ETHERTYPE_IPV4 = 0x0800"
definition ETHERTYPE_ARP :: u16 where "ETHERTYPE_ARP = 0x0806"
definition IP_PROTO_ICMP :: u8 where "IP_PROTO_ICMP = 1"
definition IP_PROTO_TCP :: u8 where "IP_PROTO_TCP = 6"
definition IP_PROTO_UDP :: u8 where "IP_PROTO_UDP = 17"
definition ETH_HDR_LEN :: nat where "ETH_HDR_LEN = 14"
definition ETH_MTU :: nat where "ETH_MTU = 1500"
definition NET_BUF_SIZE :: nat where "NET_BUF_SIZE = 1600"

record net_config =
  my_ip :: u32
  netmask :: u32
  gateway_ip :: u32
  dns_ip :: u32
  ready :: bool

type_synonym driver = "nat \<Rightarrow> bytes \<Rightarrow> bool"

datatype arp_entry_state = ARP_ENTRY_EMPTY | ARP_ENTRY_PENDING | ARP_ENTRY_RESOLVED

record arp_entry =
  arp_ip :: u32
  arp_mac :: bytes
  arp_state :: arp_entry_state
  arp_age :: u16

record ip_pending_t =
  pending :: bool
  pend_dst_ip :: u32
  pend_proto :: u8
  pend_payload :: bytes

record net =
  nic_present :: bool
  nic_mac :: bytes
  tx_tries :: nat
  tx_log :: "bytes list"
  net_cfg :: net_config
  net_ticks :: u32
  arp_cache :: "arp_entry list"
  ip_pending :: ip_pending_t

definition nic_send :: "driver \<Rightarrow> bytes \<Rightarrow> net \<Rightarrow> bool \<times> net" where
  "nic_send drv f s =
     (let ok = drv (tx_tries s) f in
      (ok, s\<lparr>tx_tries := tx_tries s + 1, tx_log := (if ok then tx_log s @ [f] else tx_log s)\<rparr>))"

definition net_stack_tick :: "net \<Rightarrow> net" where
  "net_stack_tick s = s\<lparr>net_ticks := net_ticks s + 1\<rparr>"

subsection \<open>Byte order lemmas\<close>

lemma length_put_be [simp, length_simps]: "length (net_put16_be v) = 2" "length (net_put32_be w) = 4"
  by (simp_all add: net_put16_be_def net_put32_be_def)

lemma and_FF: "v AND 0xFF = take_bit 8 v" for v :: "'a::len word"
  by (simp add: take_bit_eq_mask mask_eq_exp_minus_1)

lemma word16_split: "push_bit 8 (ucast (ucast (drop_bit 8 v) :: u8)) OR ucast (ucast (v AND 0xFF) :: u8) = (v :: u16)"
  unfolding and_FF by (rule bit_word_eqI) (auto simp: bit_simps)

lemma word32_split:
  "push_bit 24 (ucast (ucast (drop_bit 24 v) :: u8)) OR push_bit 16 (ucast (ucast (drop_bit 16 v) :: u8)) OR
   push_bit 8 (ucast (ucast (drop_bit 8 v) :: u8)) OR ucast (ucast (v AND 0xFF) :: u8) = (v :: u32)"
  unfolding and_FF
  apply (rule bit_word_eqI, rename_tac n)
  apply (case_tac "n < 8"; case_tac "n < 16"; case_tac "n < 24")
  apply (auto simp: bit_simps)
  done

lemma get_put16 [simp]:
  "i + 2 \<le> length p \<Longrightarrow> slice i 2 p = net_put16_be v \<Longrightarrow> net_get16_be p i = v"
proof -
  assume a: "i + 2 \<le> length p" and b: "slice i 2 p = net_put16_be v"
  have "p ! i = net_put16_be v ! 0" "p ! (i + 1) = net_put16_be v ! 1"
    using a nth_slice [of 0 2 i p] nth_slice [of 1 2 i p] by (simp_all flip: b)
  thus ?thesis by (simp add: net_get16_be_def net_put16_be_def word16_split)
qed

lemma get_put32 [simp]:
  "i + 4 \<le> length p \<Longrightarrow> slice i 4 p = net_put32_be v \<Longrightarrow> net_get32_be p i = v"
proof -
  assume a: "i + 4 \<le> length p" and b: "slice i 4 p = net_put32_be v"
  have "p ! i = net_put32_be v ! 0" "p ! (i + 1) = net_put32_be v ! 1"
    "p ! (i + 2) = net_put32_be v ! 2" "p ! (i + 3) = net_put32_be v ! 3"
    using a nth_slice [of 0 4 i p] nth_slice [of 1 4 i p] nth_slice [of 2 4 i p] nth_slice [of 3 4 i p]
    by (simp_all flip: b)
  hence "p ! i = ucast (drop_bit 24 v)" "p ! (i + 1) = ucast (drop_bit 16 v)"
    "p ! (i + 2) = ucast (drop_bit 8 v)" "p ! (i + 3) = ucast (v AND 0xFF)"
    by (simp_all add: net_put32_be_def)
  thus ?thesis by (simp only: net_get32_be_def word32_split)
qed

lemma htons_involution: "net_htons (net_htons v) = v"
  unfolding net_htons_def by (rule bit_word_eqI) (auto simp: bit_simps)

subsection \<open>What the checksum verifies\<close>

text \<open>The arithmetic value of the 16-bit words of a buffer.\<close>

fun words_sum :: "bytes \<Rightarrow> nat" where
  "words_sum (a # b # data) = unat a * 256 + unat b + words_sum data"
| "words_sum [a] = unat a * 256"
| "words_sum [] = 0"

lemma unat_byte_pair: "unat (push_bit 8 (ucast a) OR ucast b :: u32) = unat a * 256 + unat b" for a b :: u8
proof -
  have "(push_bit 8 (ucast a) OR ucast b :: u32) = push_bit 8 (ucast a) + ucast b"
    by (rule disjunctive_add [symmetric]) (auto simp: bit_simps dest: bit_imp_le_length)
  moreover have "unat (push_bit 8 (ucast a :: u32)) = unat a * 256"
    using unat_u8_lt [of a]
    by (simp add: push_bit_eq_mult unat_word_ariths)
  moreover have "unat (ucast b :: u32) = unat b"
    by simp
  ultimately show ?thesis
    using unat_u8_lt [of a] unat_u8_lt [of b] by (simp add: unat_word_ariths)
qed

lemma unat_byte_high: "unat (push_bit 8 (ucast a) :: u32) = unat a * 256" for a :: u8
  using unat_byte_pair [of a 0] by simp

lemma words_sum_bound: "words_sum d \<le> 65535 * ((length d + 1) div 2)"
proof (induction d rule: words_sum.induct)
  case (1 a b data)
  thus ?case using unat_u8_lt [of a] unat_u8_lt [of b] by simp
next
  case (2 a)
  thus ?case using unat_u8_lt [of a] by simp
qed simp

lemma words_sum_append: "even (length xs) \<Longrightarrow> words_sum (xs @ ys) = words_sum xs + words_sum ys"
  by (induction xs rule: words_sum.induct) auto

lemma unat_checksum_add:
  "unat s + words_sum d < 2 ^ 32 \<Longrightarrow> unat (net_checksum_add s d) = unat s + words_sum d"
proof (induction s d rule: net_checksum_add.induct)
  case (1 s a b data)
  have "unat (s + (push_bit 8 (ucast a) OR ucast b)) = unat s + (unat a * 256 + unat b)"
    using 1 by (simp add: unat_word_ariths unat_byte_pair)
  thus ?case using 1 by simp
qed (simp_all add: unat_word_ariths unat_byte_high)

lemma net_checksum_add_append:
  "even (length xs) \<Longrightarrow> net_checksum_add s (xs @ ys) = net_checksum_add (net_checksum_add s xs) ys"
  by (induction s xs rule: net_checksum_add.induct) auto

lemma fold_value:
  "unat (net_checksum_fold s) < 65536 \<and> unat (net_checksum_fold s) mod 65535 = unat s mod 65535 \<and>
   (unat (net_checksum_fold s) = 0 \<longleftrightarrow> unat s = 0)"
proof (induction s rule: net_checksum_fold.induct)
  case (1 s)
  show ?case
  proof (cases "drop_bit 16 s = 0")
    case True
    hence "unat s div 65536 = 0" using unat_drop_16 [of s] by simp
    hence "unat s < 65536" by (simp add: div_eq_0_iff)
    thus ?thesis using True by (simp add: net_checksum_fold.simps [of s])
  next
    case False
    let ?f = "(s AND 0xFFFF) + drop_bit 16 s"
    have split: "unat s = unat s mod 65536 + unat s div 65536 + 65535 * (unat s div 65536)"
      by (simp add: mod_div_mult_eq [symmetric] add.commute)
    hence "unat ?f mod 65535 = unat s mod 65535"
      unfolding fold_step by (metis mod_mult_self2)
    moreover have "unat ?f = 0 \<longleftrightarrow> unat s = 0"
      unfolding fold_step using split by (metis add_is_0 mult_is_0)
    ultimately show ?thesis
      using 1 [OF False] False by (simp add: net_checksum_fold.simps [of s])
  qed
qed


lemma unat_finish: "unat (net_checksum_finish s) = 65535 - unat (net_checksum_fold s)"
proof -
  let ?f = "net_checksum_fold s"
  have lt: "unat ?f < 65536" using fold_value by blast
  have m: "NOT ?f AND 0xFFFF = take_bit 16 (NOT ?f)" by (simp add: take_bit_eq_mask mask_eq_exp_minus_1)
  have e: "ucast (NOT ?f AND 0xFFFF) = (NOT (ucast ?f) :: u16)"
    unfolding m by (rule bit_word_eqI) (auto simp: bit_simps)
  have "unat (ucast ?f :: u16) = unat ?f" using lt by (simp add: unsigned_ucast_eq take_bit_nat_eq_self)
  thus ?thesis unfolding net_checksum_finish_def e by (simp add: unat_not_u16)
qed

lemma finish_zero_iff: "net_checksum_finish s = 0 \<longleftrightarrow> unat s \<noteq> 0 \<and> unat s mod 65535 = 0"
proof -
  let ?f = "net_checksum_fold s"
  note fv = fold_value [of s]
  have "net_checksum_finish s = 0 \<longleftrightarrow> unat (net_checksum_finish s) = 0" by (simp add: unat_eq_zero)
  also have "\<dots> \<longleftrightarrow> unat ?f = 65535" unfolding unat_finish using fv by linarith
  also have "\<dots> \<longleftrightarrow> unat s \<noteq> 0 \<and> unat s mod 65535 = 0"
  proof
    assume "unat ?f = 65535" thus "unat s \<noteq> 0 \<and> unat s mod 65535 = 0" using fv by auto
  next
    assume "unat s \<noteq> 0 \<and> unat s mod 65535 = 0"
    hence "unat ?f \<noteq> 0" "unat ?f mod 65535 = 0" using fv by auto
    thus "unat ?f = 65535" using fv by (cases "unat ?f < 65535") auto
  qed
  finally show ?thesis .
qed

lemma finish_mod: "(unat s + unat (net_checksum_finish s)) mod 65535 = 0"
    "unat s + unat (net_checksum_finish s) \<noteq> 0"
proof -
  have f: "unat s mod 65535 = unat (net_checksum_fold s) mod 65535"
     "unat (net_checksum_fold s) < 65536" "(unat (net_checksum_fold s) = 0) = (unat s = 0)"
    using fold_value [of s] by auto
  have "(unat s + unat (net_checksum_finish s)) mod 65535 =
      (unat (net_checksum_fold s) + (65535 - unat (net_checksum_fold s))) mod 65535"
    unfolding unat_finish using f(1) by (metis mod_add_left_eq)
  also have "\<dots> = 0" using f(2) by simp
  finally show "(unat s + unat (net_checksum_finish s)) mod 65535 = 0" .
  show "unat s + unat (net_checksum_finish s) \<noteq> 0"
    unfolding unat_finish using f by auto
qed

lemma words_sum_put16: "words_sum (net_put16_be v) = unat v"
proof -
  have "unat v = unat (push_bit 8 (ucast (ucast (drop_bit 8 v) :: u8)) OR ucast (ucast (v AND 0xFF) :: u8) :: u16)"
    by (simp only: word16_split)
  also have "\<dots> = unat (ucast (push_bit 8 (ucast (ucast (drop_bit 8 v) :: u8)) OR ucast (ucast (v AND 0xFF) :: u8) :: u16) :: u32)"
    by simp
  also have "(ucast (push_bit 8 (ucast (ucast (drop_bit 8 v) :: u8)) OR ucast (ucast (v AND 0xFF) :: u8) :: u16) :: u32)
     = push_bit 8 (ucast (ucast (drop_bit 8 v) :: u8)) OR ucast (ucast (v AND 0xFF) :: u8)"
    unfolding and_FF by (rule bit_word_eqI) (auto simp: bit_simps)
  finally show ?thesis by (simp add: unat_byte_pair net_put16_be_def)
qed
text \<open>Putting the computed checksum in place of the zeroed field makes the buffer verify.\<close>

lemma checksum_verifies:
  assumes "even (length pre)" "length pre + 2 + length post \<le> 65535"
    and sum0: "unat s0 \<le> 65536 * 6"
    and c: "unat c mod 65535 = unat (net_checksum_finish (net_checksum_add s0 (pre @ [0, 0] @ post))) mod 65535"
    and nz: "c \<noteq> 0 \<or> words_sum (pre @ [0,0] @ post) \<noteq> 0"
  shows "net_checksum_finish (net_checksum_add s0 (pre @ net_put16_be c @ post)) = 0"
proof -
  let ?z = "pre @ [0, 0] @ post" and ?d = "pre @ net_put16_be c @ post"
  have ws: "words_sum ?d = words_sum ?z + unat c"
    using assms(1) words_sum_append [of pre "net_put16_be c @ post"] words_sum_append [of "net_put16_be c" post]
      words_sum_append [of pre "0 # 0 # post"] words_sum_put16 [of c] by simp
  have b: "words_sum ?z \<le> 65535 * 32768"
    using words_sum_bound [of ?z] assms(2) by (auto intro: order_trans)
  have cb: "unat c < 65536" by (rule unat_u16_lt)
  have z: "unat (net_checksum_add s0 ?z) = unat s0 + words_sum ?z"
    by (rule unat_checksum_add) (use b sum0 in simp)
  have d: "unat (net_checksum_add s0 ?d) = unat s0 + words_sum ?z + unat c"
    by (subst unat_checksum_add) (use b sum0 ws cb in simp)+
  have "(unat s0 + words_sum ?z + unat c) mod 65535 = 0"
    using finish_mod(1) [of "net_checksum_add s0 ?z"] c unfolding z by (metis mod_add_right_eq)
  moreover have "unat s0 + words_sum ?z + unat c \<noteq> 0"
    using nz by (auto simp: unat_eq_zero)
  ultimately show ?thesis unfolding finish_zero_iff d by simp
qed

end
