(* ===== verification/Arp.thy ===== *)
theory Arp
  imports Net
begin

text \<open>
  arp.h: the eight-entry neighbour cache, requests and replies, and the rules that decide which
  incoming frames may change the cache. The statically zeroed table is arp_cache_init, so the
  lazy initialisation of the code is the identity on every state the code can be in. The
  resolved callback (ip_flush_pending once the stack is up) is an argument of
  arp_handle_frame. Serial logging has no effect on the state and is left out.
\<close>

definition ARP_CACHE_SIZE :: nat where "ARP_CACHE_SIZE = 8"
definition ARP_PENDING_TIMEOUT_TICKS :: nat where "ARP_PENDING_TIMEOUT_TICKS = 2000"

definition arp_cache_init :: "arp_entry list" where
  "arp_cache_init = replicate ARP_CACHE_SIZE
     \<lparr>arp_ip = 0, arp_mac = replicate 6 0, arp_state = ARP_ENTRY_EMPTY, arp_age = 0\<rparr>"

text \<open>First index of a list whose element satisfies a test: the code's search loops.\<close>

fun find_index :: "('a \<Rightarrow> bool) \<Rightarrow> 'a list \<Rightarrow> nat option" where
  "find_index P [] = None"
| "find_index P (x # xs) = (if P x then Some 0 else map_option Suc (find_index P xs))"

definition arp_lookup :: "net \<Rightarrow> u32 \<Rightarrow> bytes option" where
  "arp_lookup s ip =
     (case find_index (\<lambda>e. arp_state e = ARP_ENTRY_RESOLVED \<and> arp_ip e = ip) (arp_cache s) of
        Some i \<Rightarrow> Some (arp_mac (arp_cache s ! i)) | None \<Rightarrow> None)"

definition arp_find_pending_slot :: "net \<Rightarrow> u32 \<Rightarrow> nat option" where
  "arp_find_pending_slot s ip =
     find_index (\<lambda>e. arp_ip e = ip \<and> arp_state e = ARP_ENTRY_PENDING) (arp_cache s)"

definition arp_is_pending :: "net \<Rightarrow> u32 \<Rightarrow> bool" where
  "arp_is_pending s ip =
     (case arp_find_pending_slot s ip of
        None \<Rightarrow> False
      | Some i \<Rightarrow> unat ((ucast (net_ticks s) :: u16) - arp_age (arp_cache s ! i)) < ARP_PENDING_TIMEOUT_TICKS)"

definition arp_find_or_alloc_slot :: "net \<Rightarrow> u32 \<Rightarrow> nat" where
  "arp_find_or_alloc_slot s ip =
     (case find_index (\<lambda>e. arp_state e \<noteq> ARP_ENTRY_EMPTY \<and> arp_ip e = ip) (arp_cache s) of
        Some i \<Rightarrow> i
      | None \<Rightarrow> (case find_index (\<lambda>e. arp_state e = ARP_ENTRY_EMPTY) (arp_cache s) of
                   Some i \<Rightarrow> i | None \<Rightarrow> 0))"

text \<open>The 42-byte frame both senders build: destination, opcode, and the four address fields.\<close>

definition arp_frame :: "bytes \<Rightarrow> bytes \<Rightarrow> u16 \<Rightarrow> u32 \<Rightarrow> bytes \<Rightarrow> u32 \<Rightarrow> bytes" where
  "arp_frame dst me opcode sender_ip target_mac target_ip =
     dst @ me @ net_put16_be ETHERTYPE_ARP @ net_put16_be 1 @ net_put16_be ETHERTYPE_IPV4 @ [6, 4] @
     net_put16_be opcode @ me @ net_put32_be sender_ip @ target_mac @ net_put32_be target_ip"

definition arp_send_request :: "driver \<Rightarrow> u32 \<Rightarrow> u32 \<Rightarrow> net \<Rightarrow> net" where
  "arp_send_request drv sender_ip target_ip s =
     (if \<not> nic_present s then s
      else let f = arp_frame (replicate 6 0xFF) (nic_mac s) 1 sender_ip (replicate 6 0) target_ip;
               slot = arp_find_or_alloc_slot s target_ip;
               e = (arp_cache s ! slot)\<lparr>arp_ip := target_ip, arp_state := ARP_ENTRY_PENDING,
                     arp_age := ucast (net_ticks s)\<rparr>;
               s = s\<lparr>arp_cache := (arp_cache s)[slot := e]\<rparr>
           in snd (nic_send drv f s))"

definition arp_send_reply :: "driver \<Rightarrow> u32 \<Rightarrow> bytes \<Rightarrow> u32 \<Rightarrow> net \<Rightarrow> net" where
  "arp_send_reply drv me requester_mac requester_ip s =
     (if \<not> nic_present s then s
      else snd (nic_send drv (arp_frame requester_mac (nic_mac s) 2 me requester_mac requester_ip) s))"

text \<open>The last non-empty entry for an address (the loop keeps overwriting existing).\<close>

definition find_last_index :: "('a \<Rightarrow> bool) \<Rightarrow> 'a list \<Rightarrow> nat option" where
  "find_last_index P xs = map_option (\<lambda>i. length xs - 1 - i) (find_index P (rev xs))"

definition arp_learn_asker :: "u32 \<Rightarrow> bytes \<Rightarrow> net \<Rightarrow> net" where
  "arp_learn_asker sender_ip sender_mac s =
     (let existing = find_last_index (\<lambda>e. arp_state e \<noteq> ARP_ENTRY_EMPTY \<and> arp_ip e = sender_ip) (arp_cache s);
          empty = find_index (\<lambda>e. arp_state e = ARP_ENTRY_EMPTY) (arp_cache s)
      in case existing of
           Some _ \<Rightarrow> s
         | None \<Rightarrow> (case empty of
             None \<Rightarrow> s
           | Some i \<Rightarrow> s\<lparr>arp_cache := (arp_cache s)[i := \<lparr>arp_ip = sender_ip, arp_mac = sender_mac,
                          arp_state = ARP_ENTRY_RESOLVED, arp_age = 0\<rparr>]\<rparr>))"

definition arp_accept_reply :: "nat \<Rightarrow> u32 \<Rightarrow> bytes \<Rightarrow> net \<Rightarrow> net" where
  "arp_accept_reply slot sender_ip sender_mac s =
     s\<lparr>arp_cache := (arp_cache s)[slot := \<lparr>arp_ip = sender_ip, arp_mac = sender_mac,
          arp_state = ARP_ENTRY_RESOLVED, arp_age = 0\<rparr>]\<rparr>"

type_synonym arp_resolved_cb = "u32 \<Rightarrow> bytes \<Rightarrow> net \<Rightarrow> net"

definition arp_handle_frame :: "driver \<Rightarrow> arp_resolved_cb \<Rightarrow> bytes \<Rightarrow> net \<Rightarrow> bool \<times> net" where
  "arp_handle_frame drv cb frame s =
     (if length frame < 42 then (False, s)
      else if net_get16_be frame 12 \<noteq> ETHERTYPE_ARP then (False, s)
      else if net_get16_be frame 14 \<noteq> 1 \<or> net_get16_be frame 16 \<noteq> ETHERTYPE_IPV4 \<or>
              frame ! 18 \<noteq> 6 \<or> frame ! 19 \<noteq> 4 then (True, s)
      else
        let opcode = net_get16_be frame 20;
            sender_mac = slice 22 6 frame;
            sender_ip = net_get32_be frame 28;
            target_ip = net_get32_be frame 38
        in
        if opcode \<noteq> 1 \<and> opcode \<noteq> 2 then (True, s)
        else if sender_ip = 0 \<or> sender_ip = NET_IP4_BROADCAST then (True, s)
        else if (sender_mac ! 0) AND 1 \<noteq> 0 then (True, s)
        else if slice 6 6 frame \<noteq> sender_mac then (True, s)
        else if ready (net_cfg s) \<and> sender_ip = my_ip (net_cfg s) then (True, s)
        else if opcode = 2 then
          (if target_ip \<noteq> my_ip (net_cfg s) then (True, s)
           else if slice 32 6 frame \<noteq> nic_mac s then (True, s)
           else (case arp_find_pending_slot s sender_ip of
                   None \<Rightarrow> (True, s)
                 | Some slot \<Rightarrow> (True, cb sender_ip sender_mac (arp_accept_reply slot sender_ip sender_mac s))))
        else if ready (net_cfg s) \<and> target_ip = my_ip (net_cfg s) then
          (True, arp_send_reply drv (my_ip (net_cfg s)) sender_mac sender_ip
                   (arp_learn_asker sender_ip sender_mac s))
        else (True, s))"

subsection \<open>Search lemmas\<close>

lemma find_index_Some:
  "find_index P xs = Some i \<Longrightarrow> i < length xs \<and> P (xs ! i) \<and> (\<forall>j<i. \<not> P (xs ! j))"
proof (induction xs arbitrary: i)
  case (Cons x xs)
  thus ?case by (auto split: if_splits simp: nth_Cons split: nat.splits)
qed simp

lemma find_index_None: "find_index P xs = None \<longleftrightarrow> (\<forall>i<length xs. \<not> P (xs ! i))"
  by (induction xs) (auto simp: All_less_Suc2)

lemma find_index_ex: "(\<exists>i<length xs. P (xs ! i)) \<longleftrightarrow> (\<exists>i. find_index P xs = Some i)"
  using find_index_None [of P xs] by auto

lemma find_last_index_None: "find_last_index P xs = None \<longleftrightarrow> (\<forall>i<length xs. \<not> P (xs ! i))"
proof -
  have "find_index P (rev xs) = None \<longleftrightarrow> (\<forall>x\<in>set (rev xs). \<not> P x)"
    by (simp only: find_index_None all_set_conv_all_nth)
  thus ?thesis by (simp add: find_last_index_def all_set_conv_all_nth)
qed

subsection \<open>The cache invariant\<close>

text \<open>Eight entries with six-byte addresses, and at most one entry in use per IP address.\<close>

definition arp_wf :: "net \<Rightarrow> bool" where
  "arp_wf s \<longleftrightarrow> length (arp_cache s) = ARP_CACHE_SIZE \<and>
     (\<forall>e\<in>set (arp_cache s). length (arp_mac e) = 6) \<and>
     (\<forall>i<ARP_CACHE_SIZE. \<forall>j<ARP_CACHE_SIZE.
        arp_state (arp_cache s ! i) \<noteq> ARP_ENTRY_EMPTY \<and> arp_state (arp_cache s ! j) \<noteq> ARP_ENTRY_EMPTY \<and>
        arp_ip (arp_cache s ! i) = arp_ip (arp_cache s ! j) \<longrightarrow> i = j)"

lemma arp_lookup_iff:
  assumes "arp_wf s"
  shows "arp_lookup s ip = Some m \<longleftrightarrow>
     (\<exists>i<ARP_CACHE_SIZE. arp_state (arp_cache s ! i) = ARP_ENTRY_RESOLVED \<and>
        arp_ip (arp_cache s ! i) = ip \<and> arp_mac (arp_cache s ! i) = m)"
proof -
  let ?P = "\<lambda>e. arp_state e = ARP_ENTRY_RESOLVED \<and> arp_ip e = ip"
  have len: "length (arp_cache s) = ARP_CACHE_SIZE" using assms by (simp add: arp_wf_def)
  show ?thesis
  proof (cases "find_index ?P (arp_cache s)")
    case None
    show ?thesis using None [unfolded find_index_None] len by (auto simp: arp_lookup_def None)
  next
    case (Some i)
    note fi = find_index_Some [OF Some]
    have "\<And>j. j < ARP_CACHE_SIZE \<Longrightarrow> ?P (arp_cache s ! j) \<Longrightarrow> j = i"
      using assms fi len unfolding arp_wf_def by (metis arp_entry_state.distinct(3))
    thus ?thesis using Some fi len by (auto simp: arp_lookup_def)
  qed
qed

lemma pending_slot_Some:
  assumes "arp_wf s" "arp_find_pending_slot s ip = Some i"
  shows "i < ARP_CACHE_SIZE" "arp_ip (arp_cache s ! i) = ip" "arp_state (arp_cache s ! i) = ARP_ENTRY_PENDING"
  using assms find_index_Some [of _ "arp_cache s" i] by (auto simp: arp_find_pending_slot_def arp_wf_def)

text \<open>Writing an in-use entry for an address nobody else in the cache has keeps the invariant.\<close>

lemma arp_wf_update:
  assumes "arp_wf s" "k < ARP_CACHE_SIZE" "length (arp_mac e) = 6"
    and "\<And>j. j < ARP_CACHE_SIZE \<Longrightarrow> j \<noteq> k \<Longrightarrow> arp_state (arp_cache s ! j) \<noteq> ARP_ENTRY_EMPTY \<Longrightarrow>
         arp_ip (arp_cache s ! j) \<noteq> arp_ip e"
  shows "arp_wf (s\<lparr>arp_cache := (arp_cache s)[k := e]\<rparr>)"
proof -
  have "\<And>x. x \<in> set ((arp_cache s)[k := e]) \<Longrightarrow> length (arp_mac x) = 6"
    using assms(1,3) set_update_subset_insert [of "arp_cache s" k e] by (auto simp: arp_wf_def)
  moreover have "i = j" if "i < ARP_CACHE_SIZE" "j < ARP_CACHE_SIZE"
      "arp_state ((arp_cache s)[k := e] ! i) \<noteq> ARP_ENTRY_EMPTY"
      "arp_state ((arp_cache s)[k := e] ! j) \<noteq> ARP_ENTRY_EMPTY"
      "arp_ip ((arp_cache s)[k := e] ! i) = arp_ip ((arp_cache s)[k := e] ! j)" for i j
  proof (cases "i = k \<or> j = k")
    case True
    thus ?thesis using that assms(4) [of i] assms(4) [of j] assms(1,2)
      by (auto simp: arp_wf_def nth_list_update split: if_splits)
  next
    case False
    thus ?thesis using that assms(1,2) by (auto simp: arp_wf_def)
  qed
  ultimately show ?thesis using assms(1) by (auto simp: arp_wf_def)
qed

lemma arp_wf_cong:
  "arp_cache s' = arp_cache s \<Longrightarrow> arp_wf s' = arp_wf s"
  "arp_cache s' = arp_cache s \<Longrightarrow> arp_lookup s' ip = arp_lookup s ip"
  by (simp_all add: arp_wf_def arp_lookup_def split: option.split)

lemma nic_send_frame [frame_simps]:
  "arp_cache (snd (nic_send drv f s)) = arp_cache s"
  "net_cfg (snd (nic_send drv f s)) = net_cfg s"
  "ip_pending (snd (nic_send drv f s)) = ip_pending s"
  "nic_present (snd (nic_send drv f s)) = nic_present s"
  "nic_mac (snd (nic_send drv f s)) = nic_mac s"
  "net_ticks (snd (nic_send drv f s)) = net_ticks s"
  by (simp_all add: nic_send_def Let_def)

lemma alloc_slot_unique:
  assumes "arp_wf s"
  shows "arp_find_or_alloc_slot s ip < ARP_CACHE_SIZE"
    and "\<And>j. j < ARP_CACHE_SIZE \<Longrightarrow> j \<noteq> arp_find_or_alloc_slot s ip \<Longrightarrow>
          arp_state (arp_cache s ! j) \<noteq> ARP_ENTRY_EMPTY \<Longrightarrow> arp_ip (arp_cache s ! j) \<noteq> ip"
proof -
  let ?P = "\<lambda>e. arp_state e \<noteq> ARP_ENTRY_EMPTY \<and> arp_ip e = ip"
  let ?E = "\<lambda>e. arp_state e = ARP_ENTRY_EMPTY"
  have len: "length (arp_cache s) = ARP_CACHE_SIZE" using assms by (simp add: arp_wf_def)
  show "arp_find_or_alloc_slot s ip < ARP_CACHE_SIZE"
    using find_index_Some [of ?P "arp_cache s"] find_index_Some [of ?E "arp_cache s"] len
    by (auto simp: arp_find_or_alloc_slot_def ARP_CACHE_SIZE_def split: option.splits)
  fix j assume j: "j < ARP_CACHE_SIZE" "j \<noteq> arp_find_or_alloc_slot s ip"
    "arp_state (arp_cache s ! j) \<noteq> ARP_ENTRY_EMPTY"
  show "arp_ip (arp_cache s ! j) \<noteq> ip"
  proof (cases "find_index ?P (arp_cache s)")
    case None
    thus ?thesis using j len by (auto simp: find_index_None)
  next
    case (Some i)
    note fi = find_index_Some [OF Some]
    have "arp_find_or_alloc_slot s ip = i" using Some by (simp add: arp_find_or_alloc_slot_def)
    thus ?thesis using fi j len assms unfolding arp_wf_def by metis
  qed
qed

lemma arp_send_request_wf [inv_intros]:
  assumes "arp_wf s"
  shows "arp_wf (arp_send_request drv me ip s)"
proof (cases "nic_present s")
  case True
  let ?k = "arp_find_or_alloc_slot s ip"
  have "length (arp_mac (arp_cache s ! ?k)) = 6"
    using assms alloc_slot_unique(1) [OF assms, where ip = ip] by (auto simp: arp_wf_def)
  thus ?thesis
    using True alloc_slot_unique [OF assms, where ip = ip] assms
    by (simp add: arp_send_request_def Let_def)
      (subst arp_wf_cong(1) [OF nic_send_frame(1)], rule arp_wf_update, auto)
qed (use assms in \<open>simp add: arp_send_request_def\<close>)

lemma arp_learn_asker_wf [inv_intros]:
  assumes "arp_wf s" "length mac = 6"
  shows "arp_wf (arp_learn_asker ip mac s)"
  using assms
  by (auto simp: arp_learn_asker_def Let_def find_last_index_None arp_wf_def [of s] split: option.splits
      dest!: find_index_Some intro!: arp_wf_update)

lemma arp_accept_reply_wf [inv_intros]:
  assumes "arp_wf s" "length mac = 6" "arp_find_pending_slot s ip = Some slot"
  shows "arp_wf (arp_accept_reply slot ip mac s)"
  unfolding arp_accept_reply_def using assms pending_slot_Some [OF assms(1,3)]
  by (intro arp_wf_update) (auto simp: arp_wf_def)


lemma arp_send_reply_frame [frame_simps]:
  "arp_cache (arp_send_reply drv me m ip s) = arp_cache s"
  by (simp add: arp_send_reply_def nic_send_frame)

text \<open>The checks of arp_handle_frame gathered: which frames reach the two state changes.\<close>

definition arp_believed_reply :: "bytes \<Rightarrow> net \<Rightarrow> u32 \<Rightarrow> bytes \<Rightarrow> bool" where
  "arp_believed_reply frame s ip mac \<longleftrightarrow>
     42 \<le> length frame \<and> net_get16_be frame 12 = ETHERTYPE_ARP \<and> net_get16_be frame 20 = 2 \<and>
     net_get32_be frame 28 = ip \<and> slice 22 6 frame = mac \<and> slice 6 6 frame = mac \<and>
     net_get32_be frame 38 = my_ip (net_cfg s) \<and> slice 32 6 frame = nic_mac s \<and>
     arp_find_pending_slot s ip \<noteq> None"

definition arp_question_for_us :: "bytes \<Rightarrow> net \<Rightarrow> u32 \<Rightarrow> bytes \<Rightarrow> bool" where
  "arp_question_for_us frame s ip mac \<longleftrightarrow>
     42 \<le> length frame \<and> net_get16_be frame 12 = ETHERTYPE_ARP \<and> net_get16_be frame 20 = 1 \<and>
     net_get32_be frame 28 = ip \<and> slice 22 6 frame = mac \<and> slice 6 6 frame = mac \<and>
     net_get32_be frame 38 = my_ip (net_cfg s) \<and> ready (net_cfg s) \<and> ip \<noteq> my_ip (net_cfg s)"

lemma arp_handle_frame_cases:
  obtains (unchanged) "snd (arp_handle_frame drv cb frame s) = s"
  | (reply) ip mac slot where "arp_believed_reply frame s ip mac" "length mac = 6"
      "arp_find_pending_slot s ip = Some slot"
      "snd (arp_handle_frame drv cb frame s) = cb ip mac (arp_accept_reply slot ip mac s)"
  | (asked) ip mac where "arp_question_for_us frame s ip mac" "length mac = 6"
      "snd (arp_handle_frame drv cb frame s) =
         arp_send_reply drv (my_ip (net_cfg s)) mac ip (arp_learn_asker ip mac s)"
proof -
  have l: "length frame \<ge> 42 \<Longrightarrow> length (slice 22 6 frame) = 6" by simp
  show thesis
    apply (cases "snd (arp_handle_frame drv cb frame s) = s")
     apply (erule unchanged)
    apply (simp add: arp_handle_frame_def Let_def not_less split: if_splits option.splits)
     apply (rule reply [of "net_get32_be frame 28" "slice 22 6 frame"],
       auto simp: arp_believed_reply_def arp_handle_frame_def Let_def) []
    apply (rule asked [of "net_get32_be frame 28" "slice 22 6 frame"],
       auto simp: arp_question_for_us_def arp_handle_frame_def Let_def) []
    done
qed

lemma lookup_update_other:
  assumes wf: "arp_wf s" and wf': "arp_wf (s\<lparr>arp_cache := (arp_cache s)[k := e]\<rparr>)" and k: "k < ARP_CACHE_SIZE"
    and old: "arp_state (arp_cache s ! k) \<noteq> ARP_ENTRY_RESOLVED"
    and l: "arp_lookup s ip = Some m"
  shows "arp_lookup (s\<lparr>arp_cache := (arp_cache s)[k := e]\<rparr>) ip = Some m"
proof -
  obtain i where i: "i < ARP_CACHE_SIZE" "arp_state (arp_cache s ! i) = ARP_ENTRY_RESOLVED"
      "arp_ip (arp_cache s ! i) = ip" "arp_mac (arp_cache s ! i) = m"
    using l arp_lookup_iff [OF wf] by blast
  hence "i \<noteq> k" using old by auto
  thus ?thesis unfolding arp_lookup_iff [OF wf'] using i by auto
qed

lemma lookup_update_new:
  assumes wf: "arp_wf s" and wf': "arp_wf (s\<lparr>arp_cache := (arp_cache s)[k := e]\<rparr>)" and k: "k < ARP_CACHE_SIZE"
    and "arp_lookup (s\<lparr>arp_cache := (arp_cache s)[k := e]\<rparr>) ip = Some m" "arp_lookup s ip \<noteq> Some m"
  shows "arp_ip e = ip \<and> arp_mac e = m"
proof -
  have len: "length (arp_cache s) = ARP_CACHE_SIZE" using wf by (simp add: arp_wf_def)
  obtain i where i: "i < ARP_CACHE_SIZE" "arp_state ((arp_cache s)[k := e] ! i) = ARP_ENTRY_RESOLVED"
      "arp_ip ((arp_cache s)[k := e] ! i) = ip" "arp_mac ((arp_cache s)[k := e] ! i) = m"
    using assms(4) arp_lookup_iff [OF wf'] by auto
  moreover have "i = k" using i assms(5) arp_lookup_iff [OF wf] by (metis nth_list_update_neq)
  ultimately show ?thesis using len by auto
qed

lemma learn_asker_cases:
  assumes "arp_wf s"
  obtains "arp_learn_asker ip mac s = s"
  | k where "k < ARP_CACHE_SIZE" "arp_state (arp_cache s ! k) = ARP_ENTRY_EMPTY"
     "\<And>j. j < ARP_CACHE_SIZE \<Longrightarrow> arp_state (arp_cache s ! j) \<noteq> ARP_ENTRY_EMPTY \<Longrightarrow> arp_ip (arp_cache s ! j) \<noteq> ip"
     "arp_learn_asker ip mac s = s\<lparr>arp_cache := (arp_cache s)[k := \<lparr>arp_ip = ip, arp_mac = mac,
                          arp_state = ARP_ENTRY_RESOLVED, arp_age = 0\<rparr>]\<rparr>"
proof -
  let ?P = "\<lambda>e. arp_state e \<noteq> ARP_ENTRY_EMPTY \<and> arp_ip e = ip"
  let ?E = "\<lambda>e. arp_state e = ARP_ENTRY_EMPTY"
  have len: "length (arp_cache s) = ARP_CACHE_SIZE" using assms by (simp add: arp_wf_def)
  show thesis
  proof (cases "find_last_index ?P (arp_cache s) = None \<and> find_index ?E (arp_cache s) \<noteq> None")
    case False
    hence "arp_learn_asker ip mac s = s" by (auto simp: arp_learn_asker_def split: option.split)
    thus thesis by (rule that(1))
  next
    case True
    then obtain k where n: "find_last_index ?P (arp_cache s) = None" and k: "find_index ?E (arp_cache s) = Some k" by blast
    have "\<And>j. j < ARP_CACHE_SIZE \<Longrightarrow> arp_state (arp_cache s ! j) \<noteq> ARP_ENTRY_EMPTY \<Longrightarrow> arp_ip (arp_cache s ! j) \<noteq> ip"
      using n [unfolded find_last_index_None] len by auto
    thus thesis
      using find_index_Some [OF k] len that(2) [of k] by (simp add: arp_learn_asker_def n k)
  qed
qed

text \<open>The callback may do what it wants except touch the cache.\<close>

definition cb_keeps_cache :: "arp_resolved_cb \<Rightarrow> bool" where
  "cb_keeps_cache cb \<longleftrightarrow> (\<forall>ip mac s. arp_cache (cb ip mac s) = arp_cache s)"

lemma arp_handle_frame_safe:
  fixes s :: net and frame :: bytes and drv :: driver and cb :: arp_resolved_cb and ip :: u32 and m :: bytes
  assumes wf: "arp_wf s" and cb: "cb_keeps_cache cb"
  defines "s' \<equiv> snd (arp_handle_frame drv cb frame s)"
  shows "arp_wf s'" "arp_lookup s ip = Some m \<Longrightarrow> arp_lookup s' ip = Some m"
    "arp_lookup s ip = None \<Longrightarrow> arp_lookup s' ip = Some m \<Longrightarrow>
       arp_believed_reply frame s ip m \<or> arp_question_for_us frame s ip m"
proof -
  have "arp_wf s' \<and> (arp_lookup s ip = Some m \<longrightarrow> arp_lookup s' ip = Some m) \<and>
    (arp_lookup s ip = None \<longrightarrow> arp_lookup s' ip = Some m \<longrightarrow>
       arp_believed_reply frame s ip m \<or> arp_question_for_us frame s ip m)"
  proof (cases rule: arp_handle_frame_cases [of drv cb frame s])
    case unchanged
    thus ?thesis using wf by (simp add: s'_def)
  next
    case (reply ip' mac slot)
    have c: "arp_cache s' = arp_cache (arp_accept_reply slot ip' mac s)"
      using reply(4) cb by (simp add: s'_def cb_keeps_cache_def)
    have w: "arp_wf (arp_accept_reply slot ip' mac s)" using wf reply(2,3) by (rule arp_accept_reply_wf)
    note p = pending_slot_Some [OF wf reply(3)]
    show ?thesis
      unfolding arp_wf_cong(1) [OF c] arp_wf_cong(2) [OF c]
      using w p reply(1) lookup_update_other [OF wf w [unfolded arp_accept_reply_def] p(1)]
        lookup_update_new [OF wf w [unfolded arp_accept_reply_def] p(1), of ip m]
      by (auto simp: arp_accept_reply_def)
  next
    case (asked ip' mac)
    have c: "arp_cache s' = arp_cache (arp_learn_asker ip' mac s)"
      using asked(3) by (simp add: s'_def frame_simps)
    have w: "arp_wf (arp_learn_asker ip' mac s)" using wf asked(2) by (rule arp_learn_asker_wf)
    show ?thesis
      unfolding arp_wf_cong(1) [OF c] arp_wf_cong(2) [OF c]
    proof (cases rule: learn_asker_cases [OF wf, of ip' mac])
      case 1
      thus "arp_wf (arp_learn_asker ip' mac s) \<and> (arp_lookup s ip = Some m \<longrightarrow> arp_lookup (arp_learn_asker ip' mac s) ip = Some m) \<and>
        (arp_lookup s ip = None \<longrightarrow> arp_lookup (arp_learn_asker ip' mac s) ip = Some m \<longrightarrow>
       arp_believed_reply frame s ip m \<or> arp_question_for_us frame s ip m)" using wf by simp
    next
      case (2 k)
      note w' = w [unfolded 2(4)]
      show "arp_wf (arp_learn_asker ip' mac s) \<and> (arp_lookup s ip = Some m \<longrightarrow> arp_lookup (arp_learn_asker ip' mac s) ip = Some m) \<and>
        (arp_lookup s ip = None \<longrightarrow> arp_lookup (arp_learn_asker ip' mac s) ip = Some m \<longrightarrow>
       arp_believed_reply frame s ip m \<or> arp_question_for_us frame s ip m)"
        using w' 2(1,2) asked(1) lookup_update_other [OF wf w' 2(1)]
          lookup_update_new [OF wf w' 2(1), of ip m]
        by (auto simp: 2(4))
    qed
  qed
  thus "arp_wf s'" "arp_lookup s ip = Some m \<Longrightarrow> arp_lookup s' ip = Some m"
    "arp_lookup s ip = None \<Longrightarrow> arp_lookup s' ip = Some m \<Longrightarrow>
       arp_believed_reply frame s ip m \<or> arp_question_for_us frame s ip m" by blast+
qed


subsection \<open>The request timeout\<close>

lemma send_request_slot:
  assumes "arp_wf s" "nic_present s"
  shows "\<exists>i<ARP_CACHE_SIZE. arp_find_pending_slot (arp_send_request drv me ip s) ip = Some i \<and>
     arp_age (arp_cache (arp_send_request drv me ip s) ! i) = ucast (net_ticks s) \<and>
     net_ticks (arp_send_request drv me ip s) = net_ticks s"
proof -
  let ?s' = "arp_send_request drv me ip s" and ?k = "arp_find_or_alloc_slot s ip"
  let ?e = "(arp_cache s ! ?k)\<lparr>arp_ip := ip, arp_state := ARP_ENTRY_PENDING, arp_age := ucast (net_ticks s)\<rparr>"
  have len: "length (arp_cache s) = ARP_CACHE_SIZE" using assms(1) by (simp add: arp_wf_def)
  have c: "arp_cache ?s' = (arp_cache s)[?k := ?e]" and t: "net_ticks ?s' = net_ticks s"
    using assms(2) by (simp_all add: arp_send_request_def Let_def frame_simps)
  have wf': "arp_wf ?s'" by (rule arp_send_request_wf [OF assms(1)])
  have k: "?k < ARP_CACHE_SIZE" by (rule alloc_slot_unique(1) [OF assms(1)])
  have "\<exists>i<length (arp_cache ?s'). arp_ip (arp_cache ?s' ! i) = ip \<and> arp_state (arp_cache ?s' ! i) = ARP_ENTRY_PENDING"
    using k len by (intro exI [of _ ?k]) (simp add: c)
  then obtain i where i: "arp_find_pending_slot ?s' ip = Some i"
    using find_index_ex [of "arp_cache ?s'" "\<lambda>e. arp_ip e = ip \<and> arp_state e = ARP_ENTRY_PENDING"]
    by (auto simp: arp_find_pending_slot_def)
  note p = pending_slot_Some [OF wf' i]
  have "i = ?k"
  proof (rule ccontr)
    assume "i \<noteq> ?k"
    hence "arp_ip (arp_cache s ! i) = ip" "arp_state (arp_cache s ! i) \<noteq> ARP_ENTRY_EMPTY"
      using p by (auto simp: c)
    thus False using alloc_slot_unique(2) [OF assms(1) p(1) \<open>i \<noteq> ?k\<close>] by simp
  qed
  thus ?thesis using i p(1) t k len by (intro exI [of _ i]) (simp add: c)
qed

lemma unat_ucast_16: "unat (ucast (x :: u32) :: u16) = unat x mod 65536"
  by (simp add: unsigned_ucast_eq take_bit_eq_mod)

lemma ucast_add_diff: "(ucast (t + d) :: u16) - ucast t = ucast d" for t d :: u32
proof -
  have "(ucast (t + d) :: u16) = ucast t + ucast d"
    by (simp add: word_unat_eq_iff unat_ucast_16 unat_word_ariths mod_mod_cancel mod_simps)
  thus ?thesis by simp
qed

subsection \<open>Properties\<close>

text \<open>How long a request counts as outstanding: d ticks after arp_send_request,
  arp_is_pending holds exactly when d modulo 65536 is below the 2000-tick timeout. So the mark
  does expire and the address is asked for again, but because the stamp is 16 bits wide an
  unanswered request also counts as outstanding again for 2000 ticks after every 65536.\<close>

theorem arp_pending_window:
  assumes "arp_wf s" "nic_present s"
  shows "let s' = arp_send_request drv me ip s in
    arp_is_pending (s'\<lparr>net_ticks := net_ticks s' + d\<rparr>) ip = (unat d mod 65536 < 2000)"
proof -
  let ?s' = "arp_send_request drv me ip s"
  obtain i where i: "arp_find_pending_slot ?s' ip = Some i" "arp_age (arp_cache ?s' ! i) = ucast (net_ticks s)"
      "net_ticks ?s' = net_ticks s"
    using send_request_slot [OF assms] by blast
  have "arp_find_pending_slot (?s'\<lparr>net_ticks := net_ticks ?s' + d\<rparr>) ip = Some i"
    using i(1) by (simp add: arp_find_pending_slot_def)
  thus ?thesis
    using i by (simp add: arp_is_pending_def ucast_add_diff unat_ucast_16 ARP_PENDING_TIMEOUT_TICKS_def)
qed

definition demo_net :: net where
  "demo_net = \<lparr>nic_present = True, nic_mac = [2, 0, 0, 0, 0, 1], tx_tries = 0, tx_log = [],
     net_cfg = \<lparr>my_ip = 0x0A00020F, netmask = 0xFFFFFF00, gateway_ip = 0x0A000202, dns_ip = 0x0A000203,
       ready = True\<rparr>,
     net_ticks = 7, arp_cache = arp_cache_init,
     ip_pending = \<lparr>pending = False, pend_dst_ip = 0, pend_proto = 0, pend_payload = []\<rparr>\<rparr>"

lemma demo_net_wf: "arp_wf demo_net" "nic_present demo_net"
  by (auto simp: arp_wf_def demo_net_def arp_cache_init_def)

theorem arp_pending_window_witness:
  "let s' = arp_send_request (\<lambda>_ _. True) 0x0A00020F 0x0A000202 demo_net in
   arp_is_pending (s'\<lparr>net_ticks := net_ticks s' + 1999\<rparr>) 0x0A000202 \<and>
   \<not> arp_is_pending (s'\<lparr>net_ticks := net_ticks s' + 2000\<rparr>) 0x0A000202 \<and>
   arp_is_pending (s'\<lparr>net_ticks := net_ticks s' + 65536\<rparr>) 0x0A000202"
  using arp_pending_window [OF demo_net_wf(1) demo_net_wf(2), where drv = "\<lambda>_ _. True" and me = "0x0A00020F" and ip = "0x0A000202" and d = 1999]
    arp_pending_window [OF demo_net_wf(1) demo_net_wf(2), where drv = "\<lambda>_ _. True" and me = "0x0A00020F" and ip = "0x0A000202" and d = 2000]
    arp_pending_window [OF demo_net_wf(1) demo_net_wf(2), where drv = "\<lambda>_ _. True" and me = "0x0A00020F" and ip = "0x0A000202" and d = 65536]
  by (simp add: Let_def)

end
