(* ===== verification/Ip.thy ===== *)
theory Ip
  imports Arp
begin

text \<open>
  ip.h: building and parsing IPv4 headers, the one-line routing decision, and ip_send with its
  one-packet parking slot for datagrams whose next hop is not resolved yet. The parsed payload
  is the list of its bytes instead of a pointer and a length.
\<close>

subsection \<open>Headers\<close>

definition IP_HDR_LEN :: nat where "IP_HDR_LEN = 20"
definition IP_TTL_DEFAULT :: u8 where "IP_TTL_DEFAULT = 64"

record ip_packet_t =
  ip_version_ihl :: u8
  ip_proto :: u8
  ip_total_len :: u16
  ip_src_ip :: u32
  ip_dst_ip :: u32
  ip_payload :: bytes

text \<open>The header with a given value in its checksum field.\<close>

definition ip_header_fields :: "u32 \<Rightarrow> u32 \<Rightarrow> u8 \<Rightarrow> nat \<Rightarrow> bytes \<Rightarrow> bytes" where
  "ip_header_fields src dst proto payload_len csum =
     ([0x45, 0x00] @ net_put16_be (of_nat (IP_HDR_LEN + payload_len)) @ net_put16_be 0 @
      net_put16_be 0x4000 @ [IP_TTL_DEFAULT, proto]) @ csum @ (net_put32_be src @ net_put32_be dst)"

definition ip_build_header :: "u32 \<Rightarrow> u32 \<Rightarrow> u8 \<Rightarrow> nat \<Rightarrow> bytes" where
  "ip_build_header src dst proto payload_len =
     (let out = ip_header_fields src dst proto payload_len (net_put16_be 0);
          csum = net_checksum out
      in ip_header_fields src dst proto payload_len (net_put16_be csum))"

definition ip_parse :: "bytes \<Rightarrow> ip_packet_t option" where
  "ip_parse data =
     (if length data < IP_HDR_LEN then None
      else if drop_bit 4 (data ! 0) \<noteq> 4 then None
      else
        let ihl_bytes = unat (data ! 0 AND 0x0F) * 4 in
        if ihl_bytes < IP_HDR_LEN \<or> ihl_bytes > length data then None
        else if net_checksum (take ihl_bytes data) \<noteq> 0 then None
        else
          let total = net_get16_be data 2 in
          if unat total < ihl_bytes \<or> unat total > length data then None
          else Some \<lparr>ip_version_ihl = data ! 0, ip_proto = data ! 9, ip_total_len = total,
                      ip_src_ip = net_get32_be data 12, ip_dst_ip = net_get32_be data 16,
                      ip_payload = slice ihl_bytes (unat total - ihl_bytes) data\<rparr>)"

subsection \<open>Sending\<close>

definition IP_PENDING_MAX_PAYLOAD :: nat where "IP_PENDING_MAX_PAYLOAD = 512"

datatype ip_send_result = IP_SEND_FAILED | IP_SEND_SENT | IP_SEND_QUEUED

definition ip_next_hop :: "net_config \<Rightarrow> u32 \<Rightarrow> u32" where
  "ip_next_hop cfg dst_ip =
     (if dst_ip = NET_IP4_BROADCAST then NET_IP4_BROADCAST
      else if netmask cfg \<noteq> 0 \<and> dst_ip AND netmask cfg = my_ip cfg AND netmask cfg then dst_ip
      else gateway_ip cfg)"

definition ip_frame :: "net \<Rightarrow> u32 \<Rightarrow> u8 \<Rightarrow> bytes \<Rightarrow> bytes \<Rightarrow> bytes" where
  "ip_frame s dst_ip proto payload dst_mac =
     dst_mac @ nic_mac s @ net_put16_be ETHERTYPE_IPV4 @
     ip_build_header (my_ip (net_cfg s)) dst_ip proto (length payload) @ payload"

definition ip_send_now :: "driver \<Rightarrow> u32 \<Rightarrow> u8 \<Rightarrow> bytes \<Rightarrow> bytes \<Rightarrow> net \<Rightarrow> ip_send_result \<times> net" where
  "ip_send_now drv dst_ip proto payload dst_mac s =
     (let (ok, s) = nic_send drv (ip_frame s dst_ip proto payload dst_mac) s
      in (if ok then IP_SEND_SENT else IP_SEND_FAILED, s))"

definition ip_send :: "driver \<Rightarrow> u32 \<Rightarrow> u8 \<Rightarrow> bytes \<Rightarrow> net \<Rightarrow> ip_send_result \<times> net" where
  "ip_send drv dst_ip proto payload s =
     (if \<not> nic_present s then (IP_SEND_FAILED, s)
      else if \<not> ready (net_cfg s) \<and> dst_ip \<noteq> NET_IP4_BROADCAST then (IP_SEND_FAILED, s)
      else if length payload > ETH_MTU - IP_HDR_LEN then (IP_SEND_FAILED, s)
      else
        let next_hop = ip_next_hop (net_cfg s) dst_ip in
        if next_hop = NET_IP4_BROADCAST then ip_send_now drv dst_ip proto payload (replicate 6 0xFF) s
        else case arp_lookup s next_hop of
          Some mac \<Rightarrow> ip_send_now drv dst_ip proto payload mac s
        | None \<Rightarrow>
            let s = (if arp_is_pending s next_hop then s
                     else arp_send_request drv (my_ip (net_cfg s)) next_hop s)
            in if length payload \<le> IP_PENDING_MAX_PAYLOAD
               then (IP_SEND_QUEUED, s\<lparr>ip_pending := \<lparr>pending = True, pend_dst_ip = dst_ip,
                       pend_proto = proto, pend_payload = payload\<rparr>\<rparr>)
               else (IP_SEND_FAILED, s))"

definition ip_flush_pending :: "driver \<Rightarrow> arp_resolved_cb" where
  "ip_flush_pending drv resolved_ip mac s =
     (let p = ip_pending s in
      if \<not> pending p then s
      else if ip_next_hop (net_cfg s) (pend_dst_ip p) \<noteq> resolved_ip then s
      else snd (ip_send_now drv (pend_dst_ip p) (pend_proto p) (pend_payload p) mac
                  (s\<lparr>ip_pending := p\<lparr>pending := False\<rparr>\<rparr>)))"

subsection \<open>A built header parses\<close>

lemma length_ip_header_fields [simp, length_simps]:
  "length csum = 2 \<Longrightarrow> length (ip_header_fields src dst proto n csum) = 20"
  by (simp add: ip_header_fields_def)

lemma length_ip_build_header [simp, length_simps]: "length (ip_build_header src dst proto n) = 20"
  by (simp add: ip_build_header_def Let_def)

lemma put16_zero: "net_put16_be 0 = [0, 0]"
  by (simp add: net_put16_be_def)

lemma ip_header_checksum: "net_checksum (ip_build_header src dst proto n) = 0"
proof -
  define pre where "pre = [0x45, 0x00] @ net_put16_be (of_nat (IP_HDR_LEN + n)) @ net_put16_be 0 @
      net_put16_be 0x4000 @ [IP_TTL_DEFAULT, proto]"
  define post where "post = net_put32_be src @ net_put32_be dst"
  have f: "ip_header_fields src dst proto n c = pre @ c @ post" for c
    by (simp add: ip_header_fields_def pre_def post_def)
  have nz: "words_sum (pre @ [0, 0] @ post) \<noteq> 0" by (simp add: pre_def)
  have l: "length pre = 10" "length post = 8" by (simp_all add: pre_def post_def)
  show ?thesis
    unfolding ip_build_header_def Let_def f put16_zero net_checksum_def
    by (rule checksum_verifies) (use nz l in simp_all)
qed

lemma ip_header_bytes:
  "ip_header_fields src dst proto n (net_put16_be c) =
    [0x45, 0, ucast (drop_bit 8 (of_nat (20 + n) :: u16)), ucast (of_nat (20 + n) AND 0xFF :: u16), 0, 0, 0x40, 0, 64, proto,
     ucast (drop_bit 8 c), ucast (c AND 0xFF),
     ucast (drop_bit 24 src), ucast (drop_bit 16 src), ucast (drop_bit 8 src), ucast (src AND 0xFF),
     ucast (drop_bit 24 dst), ucast (drop_bit 16 dst), ucast (drop_bit 8 dst), ucast (dst AND 0xFF)]"
  by (simp add: ip_header_fields_def net_put16_be_def net_put32_be_def IP_HDR_LEN_def IP_TTL_DEFAULT_def)

lemma ip_header_get:
  fixes rest :: bytes and src dst :: u32 and proto :: u8 and n :: nat
  defines "d \<equiv> ip_build_header src dst proto n @ rest"
  shows "d ! 0 = 0x45" "d ! 9 = proto" "net_get16_be d 2 = of_nat (20 + n)"
    "net_get32_be d 12 = src" "net_get32_be d 16 = dst"
proof -
  obtain c where c: "ip_build_header src dst proto n = ip_header_fields src dst proto n (net_put16_be c)"
    by (auto simp: ip_build_header_def Let_def)
  have s: "Suc 15 = 16" by simp
  show "d ! 0 = 0x45" "d ! 9 = proto"
    unfolding d_def c ip_header_bytes by simp_all
  show "net_get16_be d 2 = of_nat (20 + n)"
    unfolding d_def c ip_header_bytes net_get16_be_def
    using word16_split [of "of_nat (20 + n)"] by simp
  show "net_get32_be d 12 = src"
    unfolding d_def c ip_header_bytes net_get32_be_def
    using word32_split [of src] by simp
  show "net_get32_be d 16 = dst"
    unfolding d_def c ip_header_bytes net_get32_be_def
    using word32_split [of dst] by simp
qed

lemma ip_parse_build:
  assumes "length payload + 20 < 65536"
  shows "ip_parse (ip_build_header src dst proto (length payload) @ payload @ padding) =
    Some \<lparr>ip_version_ihl = 0x45, ip_proto = proto, ip_total_len = of_nat (20 + length payload),
      ip_src_ip = src, ip_dst_ip = dst, ip_payload = payload\<rparr>"
proof -
  let ?n = "length payload"
  let ?d = "ip_build_header src dst proto ?n @ payload @ padding"
  have u: "unat (of_nat (20 + ?n) :: u16) = 20 + ?n"
    by (rule unat_of_nat_u16) (use assms in simp)
  have t: "take 20 ?d = ip_build_header src dst proto ?n" by simp
  have p: "slice 20 ?n ?d = payload" by (simp add: slice_def)
  have z: "drop_bit 4 (0x45 :: u8) = 4" "unat ((0x45 :: u8) AND 0x0F) * 4 = 20" by simp_all
  show ?thesis
    unfolding ip_parse_def ip_header_get Let_def z IP_HDR_LEN_def t ip_header_checksum u
    using assms p by simp
qed

subsection \<open>What ip_send promises\<close>

lemma ip_send_now_frame [frame_simps]:
  "arp_cache (snd (ip_send_now drv dst proto payload mac s)) = arp_cache s"
  "net_cfg (snd (ip_send_now drv dst proto payload mac s)) = net_cfg s"
  "ip_pending (snd (ip_send_now drv dst proto payload mac s)) = ip_pending s"
  "nic_present (snd (ip_send_now drv dst proto payload mac s)) = nic_present s"
  "nic_mac (snd (ip_send_now drv dst proto payload mac s)) = nic_mac s"
  "net_ticks (snd (ip_send_now drv dst proto payload mac s)) = net_ticks s"
  by (simp_all add: ip_send_now_def Let_def frame_simps split_beta)

lemma arp_send_request_frame [frame_simps]:
  "net_cfg (arp_send_request drv me ip s) = net_cfg s"
  "ip_pending (arp_send_request drv me ip s) = ip_pending s"
  "nic_present (arp_send_request drv me ip s) = nic_present s"
  "nic_mac (arp_send_request drv me ip s) = nic_mac s"
  "net_ticks (arp_send_request drv me ip s) = net_ticks s"
  by (simp_all add: arp_send_request_def Let_def frame_simps)

lemma flush_keeps_cache: "cb_keeps_cache (ip_flush_pending drv)"
  by (simp add: cb_keeps_cache_def ip_flush_pending_def Let_def frame_simps)

lemma ip_send_wf [inv_intros]: "arp_wf s \<Longrightarrow> arp_wf (snd (ip_send drv dst proto payload s))"
proof -
  assume wf: "arp_wf s"
  have "arp_wf (snd (ip_send_now drv dst proto payload mac s))" for mac
    using wf arp_wf_cong(1) [OF ip_send_now_frame(1)] by simp
  moreover have "arp_wf (arp_send_request drv a b s\<lparr>ip_pending := q\<rparr>)" for a b q
    using arp_send_request_wf [OF wf, of drv a b] by (simp add: arp_wf_def)
  moreover have "arp_wf (s\<lparr>ip_pending := q\<rparr>)" for q using wf by (simp add: arp_wf_def)
  ultimately show ?thesis
    using wf arp_send_request_wf [OF wf] by (auto simp: ip_send_def Let_def split: option.splits)
qed

lemma ip_send_queued:
  assumes wf: "arp_wf s" and q: "ip_send drv dst proto payload s = (IP_SEND_QUEUED, s1)"
  shows "ip_pending s1 = \<lparr>pending = True, pend_dst_ip = dst, pend_proto = proto, pend_payload = payload\<rparr>"
    "arp_find_pending_slot s1 (ip_next_hop (net_cfg s) dst) \<noteq> None"
    "net_cfg s1 = net_cfg s" "nic_mac s1 = nic_mac s" "nic_present s1" "length payload \<le> 512"
    "arp_lookup s (ip_next_hop (net_cfg s) dst) = None" "arp_wf s1"
proof -
  let ?nh = "ip_next_hop (net_cfg s) dst"
  let ?s = "if arp_is_pending s ?nh then s else arp_send_request drv (my_ip (net_cfg s)) ?nh s"
  have now: "fst (ip_send_now drv dst proto payload mac s) \<noteq> IP_SEND_QUEUED" for mac
    by (simp add: ip_send_now_def split_beta)
  hence nowq: "ip_send_now drv dst proto payload mac s \<noteq> (IP_SEND_QUEUED, s1)" for mac
    by (metis fst_conv)
  from q have np: "nic_present s" and l: "arp_lookup s ?nh = None" and len: "length payload \<le> 512"
    and s1: "s1 = ?s\<lparr>ip_pending := \<lparr>pending = True, pend_dst_ip = dst, pend_proto = proto, pend_payload = payload\<rparr>\<rparr>"
    using nowq by (auto simp: ip_send_def Let_def IP_PENDING_MAX_PAYLOAD_def split: if_splits option.splits)
  have "arp_find_pending_slot ?s ?nh \<noteq> None"
    using send_request_slot [OF wf np, of drv "my_ip (net_cfg s)" ?nh]
    by (auto simp: arp_is_pending_def split: option.splits)
  thus "arp_find_pending_slot s1 ?nh \<noteq> None"
    unfolding s1 arp_find_pending_slot_def by simp
  show "ip_pending s1 = \<lparr>pending = True, pend_dst_ip = dst, pend_proto = proto, pend_payload = payload\<rparr>"
    "net_cfg s1 = net_cfg s" "nic_mac s1 = nic_mac s" "nic_present s1" "length payload \<le> 512"
    "arp_lookup s ?nh = None"
    using np len l by (simp_all add: s1 frame_simps)
  show "arp_wf s1" using ip_send_wf [OF wf, of drv dst proto payload] q by simp
qed

subsection \<open>A reply flushes the parked packet\<close>

lemma arp_frame_get:
  fixes dst me tm :: bytes and op :: u16 and sip tip :: u32
  assumes "length dst = 6" "length me = 6" "length tm = 6"
  defines "f \<equiv> arp_frame dst me op sip tm tip"
  shows "length f = 42" "net_get16_be f 12 = ETHERTYPE_ARP" "net_get16_be f 14 = 1"
    "net_get16_be f 16 = ETHERTYPE_IPV4" "f ! 18 = 6" "f ! 19 = 4" "net_get16_be f 20 = op"
    "slice 22 6 f = me" "slice 6 6 f = me" "slice 32 6 f = tm"
    "net_get32_be f 28 = sip" "net_get32_be f 38 = tip"
proof -
  obtain d0 d1 d2 d3 d4 d5 where d: "dst = [d0, d1, d2, d3, d4, d5]" using assms(1) by (rule length_6E)
  obtain m0 m1 m2 m3 m4 m5 where m: "me = [m0, m1, m2, m3, m4, m5]" using assms(2) by (rule length_6E)
  obtain t0 t1 t2 t3 t4 t5 where t: "tm = [t0, t1, t2, t3, t4, t5]" using assms(3) by (rule length_6E)
  note e = f_def arp_frame_def d m t net_put16_be_def net_put32_be_def
  show "length f = 42" "f ! 18 = 6" "f ! 19 = 4" "slice 22 6 f = me" "slice 6 6 f = me" "slice 32 6 f = tm"
    unfolding e by (simp_all add: slice_def)
  show "net_get16_be f 12 = ETHERTYPE_ARP" "net_get16_be f 14 = 1" "net_get16_be f 16 = ETHERTYPE_IPV4"
    unfolding e net_get16_be_def using word16_split by simp_all
  show "net_get16_be f 20 = op"
    unfolding e net_get16_be_def using word16_split [of op] by simp
  show "net_get32_be f 28 = sip" unfolding e net_get32_be_def using word32_split [of sip] by simp
  show "net_get32_be f 38 = tip" unfolding e net_get32_be_def using word32_split [of tip] by simp
qed

lemma believed_reply_handled:
  assumes wf: "arp_wf s" and macs: "length (nic_mac s) = 6" "length mac = 6" "mac ! 0 AND 1 = 0"
    and ip: "ip \<noteq> 0" "ip \<noteq> NET_IP4_BROADCAST" "\<not> (ready (net_cfg s) \<and> ip = my_ip (net_cfg s))"
  shows "arp_handle_frame drv cb (arp_frame (nic_mac s) mac 2 ip (nic_mac s) (my_ip (net_cfg s))) s =
    (True, case arp_find_pending_slot s ip of None \<Rightarrow> s
           | Some slot \<Rightarrow> cb ip mac (arp_accept_reply slot ip mac s))"
  unfolding arp_handle_frame_def Let_def arp_frame_get [OF macs(1,2,1)]
  using macs ip by (auto split: option.split)

lemma accept_reply_lookup:
  assumes "arp_wf s" "length mac = 6" "arp_find_pending_slot s ip = Some slot"
  shows "arp_lookup (arp_accept_reply slot ip mac s) ip = Some mac"
    "arp_find_pending_slot (arp_accept_reply slot ip mac s) ip = None"
proof -
  let ?s = "arp_accept_reply slot ip mac s"
  have wf: "arp_wf ?s" using assms by (rule arp_accept_reply_wf)
  note p = pending_slot_Some [OF assms(1,3)]
  have c: "arp_cache ?s ! slot = \<lparr>arp_ip = ip, arp_mac = mac, arp_state = ARP_ENTRY_RESOLVED, arp_age = 0\<rparr>"
    using p(1) assms(1) by (simp add: arp_accept_reply_def arp_wf_def)
  show "arp_lookup ?s ip = Some mac"
    unfolding arp_lookup_iff [OF wf] using p(1) c by (intro exI [of _ slot]) simp
  show "arp_find_pending_slot ?s ip = None"
  proof (rule ccontr)
    assume "arp_find_pending_slot ?s ip \<noteq> None"
    then obtain i where i: "arp_find_pending_slot ?s ip = Some i" by blast
    have "i = slot"
      using wf pending_slot_Some [OF wf i] p(1) c unfolding arp_wf_def
      by (metis arp_entry.select_convs(1,3) arp_entry_state.distinct(1,3))
    thus False using pending_slot_Some(3) [OF wf i] c by simp
  qed
qed

text \<open>What may come between ip_send and the answer: any frames at the ARP layer and the passing of time. The packet p waits for
  the neighbour nh of the machine as it was in s.\<close>

datatype arp_event = Arp_Frame bytes | Arp_Tick

fun arp_event_step :: "driver \<Rightarrow> arp_event \<Rightarrow> net \<Rightarrow> net" where
  "arp_event_step drv (Arp_Frame f) s = snd (arp_handle_frame drv (ip_flush_pending drv) f s)"
| "arp_event_step drv Arp_Tick s = net_stack_tick s"

definition waits :: "net \<Rightarrow> u32 \<Rightarrow> ip_pending_t \<Rightarrow> net \<Rightarrow> bool" where
  "waits s nh p t \<longleftrightarrow> arp_wf t \<and> net_cfg t = net_cfg s \<and> nic_mac t = nic_mac s \<and>
     (pending (ip_pending t) \<longrightarrow> ip_pending t = p \<and> arp_find_pending_slot t nh \<noteq> None)"

lemma pending_slot_iff:
  "arp_wf s \<Longrightarrow> arp_find_pending_slot s nh \<noteq> None \<longleftrightarrow>
     (\<exists>i < ARP_CACHE_SIZE. arp_ip (arp_cache s ! i) = nh \<and> arp_state (arp_cache s ! i) = ARP_ENTRY_PENDING)"
  by (simp add: arp_find_pending_slot_def find_index_ex [symmetric] arp_wf_def)

lemma pending_slot_update:
  assumes "arp_wf s" "arp_find_pending_slot s nh \<noteq> None" "k < ARP_CACHE_SIZE"
    and k: "arp_ip (arp_cache s ! k) \<noteq> nh \<or> arp_state (arp_cache s ! k) = ARP_ENTRY_EMPTY" and w: "arp_wf (s\<lparr>arp_cache := (arp_cache s)[k := e]\<rparr>)"
  shows "arp_find_pending_slot (s\<lparr>arp_cache := (arp_cache s)[k := e]\<rparr>) nh \<noteq> None"
proof -
  obtain i where i: "i < ARP_CACHE_SIZE" "arp_ip (arp_cache s ! i) = nh" "arp_state (arp_cache s ! i) = ARP_ENTRY_PENDING"
    using assms(2) pending_slot_iff [OF assms(1)] by blast
  hence "i \<noteq> k" using k by auto
  thus ?thesis unfolding pending_slot_iff [OF w] using i by auto
qed

lemma waits_flush:
  assumes w: "waits s nh p t" and nh: "ip_next_hop (net_cfg s) (pend_dst_ip p) = nh" and m: "length mac = 6" and k: "arp_find_pending_slot t ip = Some k"
  shows "waits s nh p (ip_flush_pending drv ip mac (arp_accept_reply k ip mac t))"
proof -
  let ?a = "arp_accept_reply k ip mac t"
  have wf: "arp_wf t" and c: "net_cfg t = net_cfg s" "nic_mac t = nic_mac s" using w by (simp_all add: waits_def)
  have wa: "arp_wf ?a" by (rule arp_accept_reply_wf [OF wf m k])
  have a: "ip_pending ?a = ip_pending t" "net_cfg ?a = net_cfg s" "nic_mac ?a = nic_mac s" using c by (simp_all add: arp_accept_reply_def)
  show ?thesis
  proof (cases "pending (ip_pending t)")
    case False thus ?thesis using wa a by (simp add: ip_flush_pending_def waits_def)
  next
    case True
    hence p: "ip_pending t = p" "arp_find_pending_slot t nh \<noteq> None" using w by (simp_all add: waits_def)
    show ?thesis
    proof (cases "ip = nh")
      case eq: True
      have "pending (ip_pending ?a)" "ip_next_hop (net_cfg ?a) (pend_dst_ip (ip_pending ?a)) = ip" using True p(1) a nh eq by simp_all
      hence "ip_flush_pending drv ip mac ?a = snd (ip_send_now drv (pend_dst_ip (ip_pending ?a)) (pend_proto (ip_pending ?a))
          (pend_payload (ip_pending ?a)) mac (?a\<lparr>ip_pending := (ip_pending ?a)\<lparr>pending := False\<rparr>\<rparr>))"
        by (simp add: ip_flush_pending_def Let_def)
      thus ?thesis using wa a(2,3) arp_wf_cong(1) [OF ip_send_now_frame(1)] by (simp add: waits_def frame_simps arp_wf_def)
    next
      case False
      have e: "ip_flush_pending drv ip mac ?a = ?a" using False nh a p(1) by (simp add: ip_flush_pending_def Let_def)
      have "arp_find_pending_slot ?a nh \<noteq> None" unfolding arp_accept_reply_def
        by (rule pending_slot_update [OF wf p(2)]) (use pending_slot_Some [OF wf k] False wa in \<open>auto simp: arp_accept_reply_def\<close>)
      thus ?thesis unfolding e using wa a p(1) by (simp add: waits_def)
    qed
  qed
qed

lemma waits_asked:
  assumes w: "waits s nh p t" and m: "length mac = 6"
  shows "waits s nh p (arp_send_reply drv me mac ip (arp_learn_asker ip mac t))"
proof -
  let ?l = "arp_learn_asker ip mac t"
  have wf: "arp_wf t" using w by (simp add: waits_def)
  have wl: "arp_wf ?l" by (rule arp_learn_asker_wf [OF wf m])
  have f: "ip_pending ?l = ip_pending t" "net_cfg ?l = net_cfg t" "nic_mac ?l = nic_mac t"
    by (simp_all add: arp_learn_asker_def Let_def split: option.split)
  have r: "ip_pending (arp_send_reply drv me mac ip u) = ip_pending u" "net_cfg (arp_send_reply drv me mac ip u) = net_cfg u"
    "nic_mac (arp_send_reply drv me mac ip u) = nic_mac u" for u by (simp_all add: arp_send_reply_def frame_simps)
  have "arp_find_pending_slot ?l nh \<noteq> None" if "arp_find_pending_slot t nh \<noteq> None"
  proof (cases "?l = t")
    case False
    then obtain k e where k: "find_index (\<lambda>e. arp_state e = ARP_ENTRY_EMPTY) (arp_cache t) = Some k" "?l = t\<lparr>arp_cache := (arp_cache t)[k := e]\<rparr>"
      by (auto simp: arp_learn_asker_def Let_def split: option.splits)
    note K = find_index_Some [OF k(1)]
    show ?thesis unfolding k(2)
      by (rule pending_slot_update [OF wf that]) (use K wf wl k(2) in \<open>auto simp: arp_wf_def [of t]\<close>)
  qed (use that in simp)
  moreover have "arp_find_pending_slot (arp_send_reply drv me mac ip ?l) nh = arp_find_pending_slot ?l nh"
    by (simp add: arp_find_pending_slot_def frame_simps)
  moreover have "arp_wf (arp_send_reply drv me mac ip ?l)" using wl arp_wf_cong(1) [OF arp_send_reply_frame] by simp
  ultimately show ?thesis using w f r by (simp add: waits_def)
qed

lemma waits_step: "waits s nh p t \<Longrightarrow> ip_next_hop (net_cfg s) (pend_dst_ip p) = nh \<Longrightarrow> waits s nh p (arp_event_step drv ev t)"
proof (cases ev)
  case (Arp_Frame f)
  assume w: "waits s nh p t" "ip_next_hop (net_cfg s) (pend_dst_ip p) = nh"
  show ?thesis unfolding Arp_Frame arp_event_step.simps
    by (cases rule: arp_handle_frame_cases [where drv = drv and cb = "ip_flush_pending drv" and frame = f and s = t])
      (use w waits_flush waits_asked in auto)
next
  case Arp_Tick
  assume w: "waits s nh p t"
  thus ?thesis unfolding Arp_Tick by (simp add: waits_def net_stack_tick_def arp_wf_def arp_find_pending_slot_def)
qed

lemma waits_events: "waits s nh p t \<Longrightarrow> ip_next_hop (net_cfg s) (pend_dst_ip p) = nh \<Longrightarrow> waits s nh p (fold (arp_event_step drv) evs t)"
  by (induction evs arbitrary: t) (simp_all add: waits_step)

lemma parked_packet_sent:
  assumes wf: "arp_wf s" and q: "ip_send drv dst proto payload s = (IP_SEND_QUEUED, s1)"
    and nh: "nh = ip_next_hop (net_cfg s) dst" "nh \<noteq> 0" "nh \<noteq> NET_IP4_BROADCAST" "nh \<noteq> my_ip (net_cfg s)"
    and macs: "length (nic_mac s) = 6" "length mac = 6" "mac ! 0 AND 1 = 0"
    and t: "t = fold (arp_event_step drv) evs s1" "pending (ip_pending t)"
    and reply: "reply = arp_frame (nic_mac s) mac 2 nh (nic_mac s) (my_ip (net_cfg s))"
    and s2: "s2 = snd (arp_handle_frame drv (ip_flush_pending drv) reply t)"
  shows "tx_tries s2 = tx_tries t + 1"
    "tx_log s2 = tx_log t @ (if drv (tx_tries t) (ip_frame s dst proto payload mac) then [ip_frame s dst proto payload mac] else [])"
    "\<not> pending (ip_pending s2)" "arp_lookup s2 nh = Some mac"
    "snd (arp_handle_frame drv (ip_flush_pending drv) reply s2) = s2"
proof -
  note qd = ip_send_queued [OF wf q]
  let ?p = "\<lparr>pending = True, pend_dst_ip = dst, pend_proto = proto, pend_payload = payload\<rparr>"
  have "waits s nh ?p s1" using qd nh(1) by (simp add: waits_def)
  hence "waits s nh ?p t" unfolding t(1) by (rule waits_events) (simp add: nh(1))
  hence wt: "arp_wf t" and ct: "net_cfg t = net_cfg s" "nic_mac t = nic_mac s" and pt: "ip_pending t = ?p" "arp_find_pending_slot t nh \<noteq> None"
    using t(2) by (simp_all add: waits_def)
  obtain slot where slot: "arp_find_pending_slot t nh = Some slot" using pt(2) by blast
  have r1: "reply = arp_frame (nic_mac t) mac 2 nh (nic_mac t) (my_ip (net_cfg t))" using reply ct by simp
  let ?a = "arp_accept_reply slot nh mac t"
  have "s2 = ip_flush_pending drv nh mac ?a"
    unfolding s2 r1
    by (subst believed_reply_handled) (use ct wt macs nh slot in simp_all)
  moreover have "net_cfg ?a = net_cfg s" "ip_pending ?a = ip_pending t" "nic_mac ?a = nic_mac s"
    "tx_log ?a = tx_log t" "tx_tries ?a = tx_tries t"
    using ct by (simp_all add: arp_accept_reply_def)
  ultimately have s2e: "s2 = snd (ip_send_now drv dst proto payload mac
      (?a\<lparr>ip_pending := (ip_pending t)\<lparr>pending := False\<rparr>\<rparr>))"
    using pt(1) nh(1) by (simp add: ip_flush_pending_def)
  show "tx_tries s2 = tx_tries t + 1"
    "tx_log s2 = tx_log t @ (if drv (tx_tries t) (ip_frame s dst proto payload mac) then [ip_frame s dst proto payload mac] else [])"
    using ct by (simp_all add: s2e ip_send_now_def nic_send_def Let_def ip_frame_def arp_accept_reply_def)
  show "\<not> pending (ip_pending s2)" by (simp add: s2e frame_simps)
  have c: "arp_cache s2 = arp_cache ?a" by (simp add: s2e frame_simps)
  show "arp_lookup s2 nh = Some mac"
    using accept_reply_lookup(1) [OF wt macs(2) slot] arp_wf_cong(2) [OF c] by simp
  have "arp_find_pending_slot s2 nh = None"
    using accept_reply_lookup(2) [OF wt macs(2) slot] c by (simp add: arp_find_pending_slot_def)
  moreover have "arp_wf s2"
    using arp_accept_reply_wf [OF wt macs(2) slot] arp_wf_cong(1) [OF c] by simp
  moreover have f2: "net_cfg s2 = net_cfg s" "nic_mac s2 = nic_mac s"
    using ct by (simp_all add: s2e frame_simps arp_accept_reply_def)
  ultimately show "snd (arp_handle_frame drv (ip_flush_pending drv) reply s2) = s2"
    unfolding reply f2 [symmetric]
    by (subst believed_reply_handled) (use macs nh f2 in simp_all)
qed

subsection \<open>Properties\<close>

text \<open>Every header ip_build_header makes is accepted by ip_parse, checksum included, and
  gives back the addresses, the protocol and exactly the payload, whatever padding the link
  appended after the datagram.\<close>

theorem ip_header_roundtrip:
  assumes "length payload + 20 < 65536"
  shows "ip_parse (ip_build_header src dst proto (length payload) @ payload @ padding) =
    Some \<lparr>ip_version_ihl = 0x45, ip_proto = proto, ip_total_len = of_nat (20 + length payload),
      ip_src_ip = src, ip_dst_ip = dst, ip_payload = payload\<rparr>"
  using assms by (rule ip_parse_build)

theorem ip_header_roundtrip_witness:
  "ip_parse (ip_build_header 0x0A00020F 0x0A000202 17 (length [1, 2, 3 :: u8]) @ [1, 2, 3] @ [0, 0]) =
    Some \<lparr>ip_version_ihl = 0x45, ip_proto = 17, ip_total_len = of_nat (20 + length [1, 2, 3 :: u8]),
      ip_src_ip = 0x0A00020F, ip_dst_ip = 0x0A000202, ip_payload = [1, 2, 3]\<rparr>"
  by (rule ip_header_roundtrip) simp

text \<open>Claim C23. A datagram ip_send queued goes out when the awaited neighbour answers. Between the two any ARP frames may have
  come and any time may have passed, as long as the datagram is still in the slot (no answer yet, and no later ip_send of ours
  that took the slot): then the reply of the next hop hands exactly one frame to the card, to the answering address and with the
  queued protocol and payload; it is on the wire if the card takes it, and lost if the card refuses it, since the slot is empty
  afterwards in either case. The neighbour is resolved, and a replayed reply changes nothing.\<close>

theorem queued_packet_flushed:
  assumes "arp_wf s" "ip_send drv dst proto payload s = (IP_SEND_QUEUED, s1)"
    and "nh = ip_next_hop (net_cfg s) dst" "nh \<noteq> 0" "nh \<noteq> NET_IP4_BROADCAST" "nh \<noteq> my_ip (net_cfg s)"
    and "length (nic_mac s) = 6" "length mac = 6" "mac ! 0 AND 1 = 0"
    and "t = fold (arp_event_step drv) evs s1" "pending (ip_pending t)"
    and "reply = arp_frame (nic_mac s) mac 2 nh (nic_mac s) (my_ip (net_cfg s))"
    and "s2 = snd (arp_handle_frame drv (ip_flush_pending drv) reply t)"
  shows "tx_tries s2 = tx_tries t + 1 \<and>
    tx_log s2 = tx_log t @ (if drv (tx_tries t) (ip_frame s dst proto payload mac) then [ip_frame s dst proto payload mac] else []) \<and>
    \<not> pending (ip_pending s2) \<and> arp_lookup s2 nh = Some mac \<and>
    snd (arp_handle_frame drv (ip_flush_pending drv) reply s2) = s2"
  using parked_packet_sent [OF assms] by blast

definition demo_queued :: net where
  "demo_queued = snd (ip_send (\<lambda>_ _. True) 0x08080808 17 [1, 2, 3] demo_net)"

theorem queued_packet_flushed_witness:
  "let reply = arp_frame (nic_mac demo_net) [2, 0, 0, 0, 0, 9] 2 0x0A000202 (nic_mac demo_net) 0x0A00020F;
       t = fold (arp_event_step (\<lambda>_ _. True)) [Arp_Tick, Arp_Frame (replicate 60 0xFF), Arp_Tick] demo_queued;
       s2 = snd (arp_handle_frame (\<lambda>_ _. True) (ip_flush_pending (\<lambda>_ _. True)) reply t)
   in tx_log s2 = tx_log t @ [ip_frame demo_net 0x08080808 17 [1, 2, 3] [2, 0, 0, 0, 0, 9]] \<and>
      arp_lookup s2 0x0A000202 = Some [2, 0, 0, 0, 0, 9]"
proof -
  have nh: "0x0A000202 = ip_next_hop (net_cfg demo_net) 0x08080808"
    by (simp add: ip_next_hop_def demo_net_def NET_IP4_BROADCAST_def NET_IP4_def)
  have q: "ip_send (\<lambda>_ _. True) 0x08080808 17 [1, 2, 3] demo_net = (IP_SEND_QUEUED, demo_queued)"
    unfolding demo_queued_def by code_simp
  have p: "pending (ip_pending (fold (arp_event_step (\<lambda>_ _. True)) [Arp_Tick, Arp_Frame (replicate 60 0xFF), Arp_Tick] demo_queued))"
    unfolding demo_queued_def by code_simp
  show ?thesis
    using queued_packet_flushed [OF demo_net_wf(1) q nh, where mac = "[2, 0, 0, 0, 0, 9]", OF _ _ _ _ _ _ refl p refl refl]
    by (simp add: demo_net_def NET_IP4_BROADCAST_def NET_IP4_def Let_def)
qed

text \<open>Claim C22. No incoming frame can rewrite a neighbour's address: whatever bytes arrive, the cache
  stays well formed and every resolved mapping keeps its hardware address; a new mapping
  appears only from a reply addressed to us for an address with an outstanding request of
  ours, or from the sender of a question about our own address, and in both cases only with
  the frame's own Ethernet source as the address.\<close>

theorem arp_cache_not_poisoned:
  assumes "arp_wf s"
  shows "let s' = snd (arp_handle_frame drv (ip_flush_pending drv) frame s) in
    arp_wf s' \<and>
    (\<forall>ip m. arp_lookup s ip = Some m \<longrightarrow> arp_lookup s' ip = Some m) \<and>
    (\<forall>ip m. arp_lookup s ip = None \<and> arp_lookup s' ip = Some m \<longrightarrow>
       arp_believed_reply frame s ip m \<or> arp_question_for_us frame s ip m)"
proof -
  note safe = arp_handle_frame_safe [where cb = "ip_flush_pending drv" and drv = drv and frame = frame,
      OF assms flush_keeps_cache]
  show ?thesis unfolding Let_def using safe by blast
qed

theorem arp_cache_not_poisoned_witness:
  "arp_wf (snd (arp_handle_frame (\<lambda>_ _. True) (ip_flush_pending (\<lambda>_ _. True))
     (replicate 60 0xFF) demo_queued))"
  using arp_cache_not_poisoned [OF ip_send_wf [OF demo_net_wf(1)]]
  by (simp add: Let_def demo_queued_def)

end
