(* ===== verification/Icmp_Udp.thy ===== *)
theory Icmp_Udp
  imports Ip
begin

text \<open>
  icmp.h and udp.h: echo requests and replies, and datagrams with their pseudo-header checksum
  and the table of port listeners. A listener's handler is any value; udp_handle_packet
  answers which handler the code calls and with what arguments, if any.
\<close>

subsection \<open>ICMP\<close>

definition ICMP_HDR_LEN :: nat where "ICMP_HDR_LEN = 8"
definition ICMP_TYPE_ECHO_REPLY :: u8 where "ICMP_TYPE_ECHO_REPLY = 0"
definition ICMP_TYPE_ECHO_REQUEST :: u8 where "ICMP_TYPE_ECHO_REQUEST = 8"

definition icmp_request_packet :: "u16 \<Rightarrow> u16 \<Rightarrow> bytes" where
  "icmp_request_packet ident sq =
     (let filler = List.map (\<lambda>i. of_nat (97 + i mod 23)) [0..<32];
          pkt = [ICMP_TYPE_ECHO_REQUEST, 0] @ net_put16_be 0 @ net_put16_be ident @ net_put16_be sq @ filler
      in blit pkt 2 (net_put16_be (net_checksum pkt)))"

definition icmp_send_echo_request :: "driver \<Rightarrow> u32 \<Rightarrow> u16 \<Rightarrow> u16 \<Rightarrow> net \<Rightarrow> ip_send_result \<times> net" where
  "icmp_send_echo_request drv dst_ip ident sq s =
     ip_send drv dst_ip IP_PROTO_ICMP (icmp_request_packet ident sq) s"

definition icmp_reply_packet :: "bytes \<Rightarrow> bytes" where
  "icmp_reply_packet req =
     (let pkt = blit (req[0 := ICMP_TYPE_ECHO_REPLY]) 2 (net_put16_be 0)
      in blit pkt 2 (net_put16_be (net_checksum pkt)))"

definition icmp_send_echo_reply :: "driver \<Rightarrow> u32 \<Rightarrow> bytes \<Rightarrow> net \<Rightarrow> net" where
  "icmp_send_echo_reply drv dst_ip req s =
     (if length req > NET_BUF_SIZE - IP_HDR_LEN then s
      else snd (ip_send drv dst_ip IP_PROTO_ICMP (icmp_reply_packet req) s))"

definition icmp_handle_packet :: "driver \<Rightarrow> ip_packet_t \<Rightarrow> net \<Rightarrow> net" where
  "icmp_handle_packet drv ip s =
     (if length (ip_payload ip) < ICMP_HDR_LEN then s
      else if ip_payload ip ! 0 = ICMP_TYPE_ECHO_REQUEST
           then icmp_send_echo_reply drv (ip_src_ip ip) (ip_payload ip) s
      else s)"

subsection \<open>UDP\<close>

definition UDP_HDR_LEN :: nat where "UDP_HDR_LEN = 8"
definition UDP_MAX_LISTENERS :: nat where "UDP_MAX_LISTENERS = 4"

text \<open>A slot of the table: None while inactive, otherwise the port and its handler.\<close>

type_synonym 'h udp_listeners = "(u16 \<times> 'h) option list"

definition udp_init :: "'h udp_listeners" where
  "udp_init = replicate UDP_MAX_LISTENERS None"

definition udp_listen :: "u16 \<Rightarrow> 'h \<Rightarrow> 'h udp_listeners \<Rightarrow> bool \<times> 'h udp_listeners" where
  "udp_listen port handler ls =
     (case find_index (\<lambda>l. l = None) ls of
        Some i \<Rightarrow> (True, ls[i := Some (port, handler)])
      | None \<Rightarrow> (False, ls))"

definition udp_pseudo :: "u32 \<Rightarrow> u32 \<Rightarrow> u16 \<Rightarrow> bytes" where
  "udp_pseudo src dst udp_len =
     net_put32_be src @ net_put32_be dst @ [0, IP_PROTO_UDP] @ net_put16_be udp_len"

definition udp_checksum :: "u32 \<Rightarrow> u32 \<Rightarrow> bytes \<Rightarrow> u16" where
  "udp_checksum src dst pkt =
     net_checksum_finish (net_checksum_add (net_checksum_add 0 (udp_pseudo src dst (of_nat (length pkt)))) pkt)"

definition udp_header :: "u16 \<Rightarrow> u16 \<Rightarrow> nat \<Rightarrow> u16 \<Rightarrow> bytes" where
  "udp_header src_port dst_port payload_len csum =
     net_put16_be src_port @ net_put16_be dst_port @ net_put16_be (of_nat (UDP_HDR_LEN + payload_len)) @
     net_put16_be csum"

definition udp_datagram :: "u32 \<Rightarrow> u16 \<Rightarrow> u32 \<Rightarrow> u16 \<Rightarrow> bytes \<Rightarrow> bytes" where
  "udp_datagram src_ip src_port dst_ip dst_port payload =
     (let n = length payload;
          csum = udp_checksum src_ip dst_ip (udp_header src_port dst_port n 0 @ payload);
          csum = (if csum = 0 then 0xFFFF else csum)
      in udp_header src_port dst_port n csum @ payload)"

definition udp_send ::
  "driver \<Rightarrow> u32 \<Rightarrow> u16 \<Rightarrow> u32 \<Rightarrow> u16 \<Rightarrow> bytes \<Rightarrow> net \<Rightarrow> ip_send_result \<times> net" where
  "udp_send drv src_ip src_port dst_ip dst_port payload s =
     (if UDP_HDR_LEN + length payload > NET_BUF_SIZE then (IP_SEND_FAILED, s)
      else ip_send drv dst_ip IP_PROTO_UDP (udp_datagram src_ip src_port dst_ip dst_port payload) s)"

text \<open>The handler called, with the source address, the source port and the data.\<close>

definition udp_handle_packet ::
  "'h udp_listeners \<Rightarrow> ip_packet_t \<Rightarrow> ('h \<times> u32 \<times> u16 \<times> bytes) option" where
  "udp_handle_packet ls ip =
     (let p = ip_payload ip in
      if length p < UDP_HDR_LEN then None
      else
        let src_port = net_get16_be p 0; dst_port = net_get16_be p 2;
            udp_len = unat (net_get16_be p 4)
        in
        if udp_len < UDP_HDR_LEN \<or> udp_len > length p then None
        else if net_get16_be p 6 \<noteq> 0 \<and> udp_checksum (ip_src_ip ip) (ip_dst_ip ip) (take udp_len p) \<noteq> 0 then None
        else
          let data = slice UDP_HDR_LEN (udp_len - UDP_HDR_LEN) p in
          case find_index (\<lambda>l. case l of Some (port, _) \<Rightarrow> port = dst_port | None \<Rightarrow> False) ls of
            Some i \<Rightarrow> (case ls ! i of Some (_, h) \<Rightarrow> Some (h, ip_src_ip ip, src_port, data) | None \<Rightarrow> None)
          | None \<Rightarrow> None)"

subsection \<open>Checksums of built packets\<close>

lemma length_udp_header [simp, length_simps]: "length (udp_header sp dp n c) = 8"
  by (simp add: udp_header_def)

lemma length_udp_datagram [simp, length_simps]: "length (udp_datagram s sp d dp payload) = 8 + length payload"
  by (simp add: udp_datagram_def Let_def)

lemma length_udp_pseudo [simp]: "length (udp_pseudo s d n) = 12"
  by (simp add: udp_pseudo_def)

lemma checksum_start_bound: "length d \<le> 12 \<Longrightarrow> unat (net_checksum_add 0 d) \<le> 65536 * 6"
proof -
  assume "length d \<le> 12"
  hence "(length d + 1) div 2 \<le> 6" by linarith
  hence b: "words_sum d \<le> 65535 * 6" using words_sum_bound [of d] by linarith
  thus ?thesis by (subst unat_checksum_add) simp_all
qed

lemma checksum_verifies_exact:
  assumes "even (length pre)" "length pre + 2 + length post \<le> 65535"
  shows "net_checksum (pre @ net_put16_be (net_checksum (pre @ [0, 0] @ post)) @ post) = 0"
proof -
  let ?z = "pre @ [0, 0] @ post"
  have "(length ?z + 1) div 2 \<le> 32768" using assms(2) by simp
  hence b: "words_sum ?z < 2 ^ 32" using words_sum_bound [of ?z] by simp
  have "unat (net_checksum_add 0 ?z) = words_sum ?z" using unat_checksum_add [of 0 ?z] b by simp
  hence "net_checksum ?z \<noteq> 0 \<or> words_sum ?z \<noteq> 0"
    using finish_mod(2) [of "net_checksum_add 0 ?z"] by (auto simp: net_checksum_def unat_eq_zero)
  thus ?thesis
    unfolding net_checksum_def
    by (intro checksum_verifies) (use assms in \<open>simp_all add: net_checksum_def\<close>)
qed

lemma udp_checksum_datagram:
  assumes "length payload \<le> 65000"
  shows "udp_checksum s d (udp_datagram s sp d dp payload) = 0"
proof -
  let ?n = "length payload"
  define pre where "pre = net_put16_be sp @ net_put16_be dp @ net_put16_be (of_nat (8 + ?n))"
  define c0 where "c0 = udp_checksum s d (udp_header sp dp ?n 0 @ payload)"
  define c where "c = (if c0 = 0 then 0xFFFF else c0)"
  have h: "udp_header sp dp ?n x @ payload = pre @ net_put16_be x @ payload" for x
    by (simp add: udp_header_def pre_def UDP_HDR_LEN_def)
  have dg: "udp_datagram s sp d dp payload = pre @ net_put16_be c @ payload"
    by (simp add: udp_datagram_def h c_def c0_def Let_def)
  have z: "net_put16_be 0 = [0, 0]" by (rule put16_zero)
  have lp: "length pre = 6" by (simp add: pre_def)
  have m: "unat c mod 65535 = unat c0 mod 65535" by (simp add: c_def)
  have pb: "unat (net_checksum_add 0 (udp_pseudo s d l)) \<le> 393216" for l
    using checksum_start_bound [of "udp_pseudo s d l"] by simp
  have "c \<noteq> 0" by (simp add: c_def)
  thus ?thesis
    unfolding udp_checksum_def dg
    by (intro checksum_verifies)
      (use m lp assms in \<open>simp_all add: c0_def udp_checksum_def h z pb\<close>)
qed

lemma udp_datagram_get:
  assumes "length payload \<le> 65000"
  obtains c where "c \<noteq> 0" "udp_datagram s sp d dp payload = udp_header sp dp (length payload) c @ payload"
    "\<And>rest. net_get16_be (udp_header sp dp (length payload) c @ rest) 0 = sp"
    "\<And>rest. net_get16_be (udp_header sp dp (length payload) c @ rest) 2 = dp"
    "\<And>rest. unat (net_get16_be (udp_header sp dp (length payload) c @ rest) 4) = 8 + length payload"
    "\<And>rest. net_get16_be (udp_header sp dp (length payload) c @ rest) 6 = c"
proof -
  let ?n = "length payload"
  obtain c where c: "c \<noteq> 0" "udp_datagram s sp d dp payload = udp_header sp dp ?n c @ payload"
  proof
    let ?c0 = "udp_checksum s d (udp_header sp dp ?n 0 @ payload)"
    show "(if ?c0 = 0 then 0xFFFF else ?c0) \<noteq> 0" by simp
    show "udp_datagram s sp d dp payload = udp_header sp dp ?n (if ?c0 = 0 then 0xFFFF else ?c0) @ payload"
      by (simp add: udp_datagram_def Let_def)
  qed
  have u: "unat (of_nat (8 + ?n) :: u16) = 8 + ?n" by (rule unat_of_nat_u16) (use assms in simp)
  note e = udp_header_def UDP_HDR_LEN_def net_put16_be_def net_get16_be_def
  show thesis
  proof (rule that [OF c])
    fix rest
    show "net_get16_be (udp_header sp dp ?n c @ rest) 0 = sp" unfolding e using word16_split [of sp] by simp
    show "net_get16_be (udp_header sp dp ?n c @ rest) 2 = dp" unfolding e using word16_split [of dp] by simp
    show "net_get16_be (udp_header sp dp ?n c @ rest) 6 = c" unfolding e using word16_split [of c] by simp
    have "net_get16_be (udp_header sp dp ?n c @ rest) 4 = of_nat (8 + ?n)"
      unfolding e using word16_split [of "of_nat (8 + ?n)"] by simp
    thus "unat (net_get16_be (udp_header sp dp ?n c @ rest) 4) = 8 + ?n" using u by simp
  qed
qed

text \<open>The packet a datagram arrives in: the IP layer's view with some trailing bytes.\<close>

definition udp_packet :: "u32 \<Rightarrow> u32 \<Rightarrow> bytes \<Rightarrow> ip_packet_t" where
  "udp_packet src dst p = \<lparr>ip_version_ihl = 0x45, ip_proto = IP_PROTO_UDP,
     ip_total_len = of_nat (20 + length p), ip_src_ip = src, ip_dst_ip = dst, ip_payload = p\<rparr>"

lemma udp_deliver:
  assumes "length payload \<le> 65000"
    and "find_index (\<lambda>l. case l of Some (port, _) \<Rightarrow> port = dp | None \<Rightarrow> False) ls = Some i" "ls ! i = Some (dp, h)"
  shows "udp_handle_packet ls (udp_packet s d (udp_datagram s sp d dp payload @ extra)) = Some (h, s, sp, payload)"
proof -
  obtain c where c: "c \<noteq> 0" "udp_datagram s sp d dp payload = udp_header sp dp (length payload) c @ payload"
    and get: "\<And>rest. net_get16_be (udp_header sp dp (length payload) c @ rest) 0 = sp"
    "\<And>rest. net_get16_be (udp_header sp dp (length payload) c @ rest) 2 = dp"
    "\<And>rest. unat (net_get16_be (udp_header sp dp (length payload) c @ rest) 4) = 8 + length payload"
    "\<And>rest. net_get16_be (udp_header sp dp (length payload) c @ rest) 6 = c"
    using udp_datagram_get [OF assms(1), of s sp d dp] by metis
  have ck: "udp_checksum s d (udp_header sp dp (length payload) c @ payload) = 0"
    using udp_checksum_datagram [OF assms(1), of s d sp dp] c(2) by simp
  have sl: "slice 8 (length payload) (udp_header sp dp (length payload) c @ payload @ extra) = payload"
    by (simp add: slice_def)
  show ?thesis
    unfolding udp_handle_packet_def udp_packet_def Let_def c(2)
    using ck sl assms(2,3) by (simp add: get UDP_HDR_LEN_def)
qed

subsection \<open>Corruption\<close>

lemma words_sum_update:
  "i < length xs \<Longrightarrow>
   words_sum (xs[i := b]) + (if even i then 256 else 1) * unat (xs ! i) =
   words_sum xs + (if even i then 256 else 1) * unat b"
proof (induction xs arbitrary: i rule: words_sum.induct)
  case (1 a c data)
  show ?case
  proof (cases "i < 2")
    case True
    hence "i = 0 \<or> i = 1" by linarith
    thus ?thesis by auto
  next
    case False
    then obtain j where j: "i = Suc (Suc j)" by (metis add_2_eq_Suc le_add_diff_inverse not_less)
    show ?thesis using 1(1) [of j] 1(2) by (simp add: j)
  qed
qed auto

lemma byte_change_detected:
  assumes "unat s0 + words_sum xs < 2 ^ 31" "length xs \<le> 65535" "i < length xs" "b \<noteq> xs ! i"
    and ok: "net_checksum_finish (net_checksum_add s0 xs) = 0"
  shows "net_checksum_finish (net_checksum_add s0 (xs[i := b])) \<noteq> 0"
proof -
  let ?w = "if even i then 256 else 1 :: nat" and ?ys = "xs[i := b]"
  have u: "words_sum ?ys + ?w * unat (xs ! i) = words_sum xs + ?w * unat b"
    using assms(3) by (rule words_sum_update)
  have bnd: "?w * unat (xs ! i) < 65536" "?w * unat b < 65536"
    using unat_u8_lt [of "xs ! i"] unat_u8_lt [of b] by auto
  have x: "unat (net_checksum_add s0 xs) = unat s0 + words_sum xs"
    by (rule unat_checksum_add) (use assms(1) in simp)
  have y: "unat (net_checksum_add s0 ?ys) = unat s0 + words_sum ?ys"
  proof (rule unat_checksum_add)
    have "words_sum ?ys < words_sum xs + 65536" using u bnd(2) by linarith
    thus "unat s0 + words_sum ?ys < 2 ^ 32" using assms(1) by simp
  qed
  have ne: "?w * unat (xs ! i) \<noteq> ?w * unat b" using assms(4) by (auto simp: word_unat_eq_iff)
  have small: "?w * unat (xs ! i) \<le> 65280" "?w * unat b \<le> 65280"
    using unat_u8_lt [of "xs ! i"] unat_u8_lt [of b] by auto
  show ?thesis
  proof
    assume "net_checksum_finish (net_checksum_add s0 ?ys) = 0"
    hence a: "(unat s0 + words_sum ?ys) mod 65535 = 0" by (simp add: finish_zero_iff y)
    have b: "(unat s0 + words_sum xs) mod 65535 = 0" using ok by (simp add: finish_zero_iff x)
    have "(unat s0 + words_sum ?ys + ?w * unat (xs ! i)) mod 65535 = (?w * unat (xs ! i)) mod 65535"
      using a by (metis mod_add_left_eq add_0)
    moreover have "(unat s0 + words_sum xs + ?w * unat b) mod 65535 = (?w * unat b) mod 65535"
      using b by (metis mod_add_left_eq add_0)
    ultimately have "(?w * unat (xs ! i)) mod 65535 = (?w * unat b) mod 65535"
      using u by (simp only: add.assoc)
    thus False using ne small by simp
  qed
qed

lemma udp_corruption:
  assumes "length payload \<le> 65000" "i < length payload" "b \<noteq> payload ! i"
  shows "udp_handle_packet ls (udp_packet s d ((udp_datagram s sp d dp payload)[8 + i := b])) = None"
proof -
  let ?n = "length payload"
  obtain c where c: "c \<noteq> 0" "udp_datagram s sp d dp payload = udp_header sp dp ?n c @ payload"
    and get: "\<And>rest. net_get16_be (udp_header sp dp ?n c @ rest) 0 = sp"
    "\<And>rest. net_get16_be (udp_header sp dp ?n c @ rest) 2 = dp"
    "\<And>rest. unat (net_get16_be (udp_header sp dp ?n c @ rest) 4) = 8 + ?n"
    "\<And>rest. net_get16_be (udp_header sp dp ?n c @ rest) 6 = c"
    using udp_datagram_get [OF assms(1), of s sp d dp] by metis
  let ?x = "udp_header sp dp ?n c @ payload" and ?s0 = "net_checksum_add 0 (udp_pseudo s d (of_nat (8 + ?n)))"
  have ck: "net_checksum_finish (net_checksum_add ?s0 ?x) = 0"
    using udp_checksum_datagram [OF assms(1), of s d sp dp] c(2) by (simp add: udp_checksum_def)
  have up: "?x[8 + i := b] = udp_header sp dp ?n c @ payload[i := b]"
    by (simp add: list_update_append)
  have wb: "words_sum ?x \<le> 65535 * 32600"
  proof -
    have "(length ?x + 1) div 2 \<le> 32600" using assms(1) by simp
    thus ?thesis using words_sum_bound [of ?x] by linarith
  qed
  have "net_checksum_finish (net_checksum_add ?s0 (?x[8 + i := b])) \<noteq> 0"
  proof (rule byte_change_detected [OF _ _ _ _ ck])
    have "unat ?s0 \<le> 393216" using checksum_start_bound [of "udp_pseudo s d (of_nat (8 + ?n))"] by simp
    thus "unat ?s0 + words_sum ?x < 2 ^ 31" using wb by simp
  qed (use assms in \<open>simp_all add: nth_append\<close>)
  hence "udp_checksum s d (?x[8 + i := b]) \<noteq> 0" by (simp add: udp_checksum_def)
  thus ?thesis
    unfolding udp_handle_packet_def udp_packet_def Let_def c(2) up
    using c(1) by (simp add: get UDP_HDR_LEN_def)
qed

subsection \<open>Echo replies\<close>

lemma icmp_reply_shape:
  assumes "8 \<le> length req"
  shows "icmp_reply_packet req = [0, req ! 1] @ net_put16_be (net_checksum ([0, req ! 1] @ [0, 0] @ drop 4 req)) @ drop 4 req"
proof -
  obtain a b c d rest where r: "req = a # b # c # d # rest"
    using assms by (cases req; cases "tl req"; cases "tl (tl req)"; cases "tl (tl (tl req))") auto
  show ?thesis
    by (simp add: r icmp_reply_packet_def blit_def put16_zero Let_def ICMP_TYPE_ECHO_REPLY_def)
qed

lemma icmp_reply_ok:
  assumes "8 \<le> length req" "length req \<le> 65535"
  shows "net_checksum (icmp_reply_packet req) = 0" "length (icmp_reply_packet req) = length req"
    "drop 4 (icmp_reply_packet req) = drop 4 req" "icmp_reply_packet req ! 0 = ICMP_TYPE_ECHO_REPLY"
    "icmp_reply_packet req ! 1 = req ! 1"
proof -
  note s = icmp_reply_shape [OF assms(1)]
  show "net_checksum (icmp_reply_packet req) = 0"
    unfolding s by (rule checksum_verifies_exact) (use assms in simp_all)
  show "length (icmp_reply_packet req) = length req" "drop 4 (icmp_reply_packet req) = drop 4 req"
    "icmp_reply_packet req ! 0 = ICMP_TYPE_ECHO_REPLY" "icmp_reply_packet req ! 1 = req ! 1"
    using assms by (simp_all add: s ICMP_TYPE_ECHO_REPLY_def)
qed

subsection \<open>Properties\<close>

text \<open>A datagram udp_send built is delivered: whatever follows it in the IP payload, it
  passes the length and checksum tests and the first listener on its destination port gets
  exactly the data, with the sender's address and port.\<close>

theorem udp_roundtrip:
  assumes "length payload \<le> 65000"
    and "find_index (\<lambda>l. case l of Some (port, _) \<Rightarrow> port = dp | None \<Rightarrow> False) ls = Some i"
    and "ls ! i = Some (dp, h)"
  shows "udp_handle_packet ls (udp_packet s d (udp_datagram s sp d dp payload @ extra)) = Some (h, s, sp, payload)"
  using assms by (rule udp_deliver)

theorem udp_roundtrip_witness:
  "udp_handle_packet (snd (udp_listen 68 True (snd (udp_listen 53 False udp_init))))
     (udp_packet 1 2 (udp_datagram 1 67 2 68 [9, 8, 7] @ [0, 0])) = Some (True, 1, 67, [9, 8, 7])"
proof -
  have "snd (udp_listen 68 True (snd (udp_listen 53 False udp_init))) = [Some (53, False), Some (68, True), None, None]"
    by code_simp
  thus ?thesis
    using udp_roundtrip [of "[9, 8, 7]" 68 "[Some (53, False), Some (68, True), None, None]" 1 True 1 2 67 "[0, 0]"]
    by simp
qed

text \<open>The checksum protects the data: changing any single byte of the payload of a datagram
  udp_send built, to any other value, makes the receiver drop it.\<close>

theorem udp_detects_corruption:
  assumes "length payload \<le> 65000" "i < length payload" "b \<noteq> payload ! i"
  shows "udp_handle_packet ls (udp_packet s d ((udp_datagram s sp d dp payload)[8 + i := b])) = None"
  using assms by (rule udp_corruption)

theorem udp_detects_corruption_witness:
  "udp_handle_packet [Some (68, True)]
     (udp_packet 1 2 ((udp_datagram 1 67 2 68 [9, 8, 7])[8 + 1 := 0xF7])) = None"
  by (rule udp_detects_corruption) simp_all

text \<open>An echo request is answered with one ICMP datagram to its sender that carries the
  request's code, identifier, sequence number and payload unchanged, has type echo reply and a
  checksum that verifies; an ICMP message of any other type sends nothing.\<close>

theorem icmp_echo_answered:
  assumes "8 \<le> length (ip_payload ip)" "length (ip_payload ip) \<le> 1480"
  shows "icmp_handle_packet drv ip s =
      (if ip_payload ip ! 0 = ICMP_TYPE_ECHO_REQUEST
       then snd (ip_send drv (ip_src_ip ip) IP_PROTO_ICMP (icmp_reply_packet (ip_payload ip)) s) else s) \<and>
    net_checksum (icmp_reply_packet (ip_payload ip)) = 0 \<and>
    icmp_reply_packet (ip_payload ip) ! 0 = ICMP_TYPE_ECHO_REPLY \<and>
    icmp_reply_packet (ip_payload ip) ! 1 = ip_payload ip ! 1 \<and>
    drop 4 (icmp_reply_packet (ip_payload ip)) = drop 4 (ip_payload ip)"
  using icmp_reply_ok [of "ip_payload ip"] assms
  by (simp add: icmp_handle_packet_def icmp_send_echo_reply_def ICMP_HDR_LEN_def NET_BUF_SIZE_def IP_HDR_LEN_def)

theorem icmp_echo_answered_witness:
  "net_checksum (icmp_reply_packet [8, 0, 0x12, 0x34, 0, 1, 0, 2, 97, 98, 99]) = 0"
  using icmp_echo_answered [of "udp_packet 1 2 [8, 0, 0x12, 0x34, 0, 1, 0, 2, 97, 98, 99]"]
  by (simp add: udp_packet_def)

end
