(* ===== verification/Tcp.thy ===== *)
theory Tcp
  imports Ip
begin

text \<open>
  tcp.h with the wall clock of netclock.h: the one TCP connection of the kernel, active open,
  stop-and-wait sending from a queue, and in-order receiving into a bounded buffer. The
  buffers TCP_SEND_BUF and TCP_RECV_BUF with their fill counts are the lists of the bytes
  in use. The layer below is an argument: every operation takes the function it hands its
  segments to, which in the kernel is ip_send; what TCP relies on of it is the locale
  datagram_layer. The seconds of the day net_wall_seconds reads from the RTC are the field
  wall, advanced by the environment between operations.
\<close>

subsection \<open>Constants and state\<close>

definition TCP_HDR_LEN_MIN :: nat where "TCP_HDR_LEN_MIN = 20"
definition TCP_SYN_HDR_LEN :: nat where "TCP_SYN_HDR_LEN = 24"
definition TCP_FLAG_FIN :: u8 where "TCP_FLAG_FIN = 0x01"
definition TCP_FLAG_SYN :: u8 where "TCP_FLAG_SYN = 0x02"
definition TCP_FLAG_RST :: u8 where "TCP_FLAG_RST = 0x04"
definition TCP_FLAG_PSH :: u8 where "TCP_FLAG_PSH = 0x08"
definition TCP_FLAG_ACK :: u8 where "TCP_FLAG_ACK = 0x10"
definition TCP_RECV_MSS :: nat where "TCP_RECV_MSS = 1400"
definition TCP_SEND_MSS :: nat where "TCP_SEND_MSS = 1200"
definition TCP_MSS_DEFAULT :: nat where "TCP_MSS_DEFAULT = 536"
definition TCP_RECV_BUF_SIZE :: nat where "TCP_RECV_BUF_SIZE = 0x8000"
definition TCP_SEND_BUF_SIZE :: nat where "TCP_SEND_BUF_SIZE = 0x5000"
definition TCP_MAX_RETRIES :: nat where "TCP_MAX_RETRIES = 5"
definition TCP_TX_FAIL_BACKOFF_TICKS :: u32 where "TCP_TX_FAIL_BACKOFF_TICKS = 100"
definition TCP_TX_FAIL_GIVEUP_SECS :: u32 where "TCP_TX_FAIL_GIVEUP_SECS = 8"
definition TCP_ZERO_WINDOW_PROBE_SECS :: u32 where "TCP_ZERO_WINDOW_PROBE_SECS = 2"
definition TCP_ZERO_WINDOW_GIVEUP_SECS :: u32 where "TCP_ZERO_WINDOW_GIVEUP_SECS = 30"
definition TCP_TX_FAIL_MIN_COUNT :: nat where "TCP_TX_FAIL_MIN_COUNT = 3"
definition TCP_TX_FAIL_BACKSTOP :: nat where "TCP_TX_FAIL_BACKSTOP = 4000"
definition TCP_RETRANSMIT_TICKS :: u32 where "TCP_RETRANSMIT_TICKS = 800"
definition TCP_ADV_WINDOW_MAX :: nat where "TCP_ADV_WINDOW_MAX = 20480"

datatype tcp_state_t =
  TCP_CLOSED | TCP_SYN_SENT | TCP_ESTABLISHED | TCP_FIN_WAIT_1 | TCP_FIN_WAIT_2 | TCP_TIME_WAIT

record tcp_conn_t =
  tcp_state :: tcp_state_t
  remote_ip :: u32
  remote_port :: u16
  local_port :: u16
  snd_una :: u32
  snd_nxt :: u32
  rcv_nxt :: u32
  peer_mss :: nat
  send_buf :: bytes
  fin_pending :: bool
  retx_len :: nat
  retx_flags :: u8
  retx_pending :: bool
  retx_tick_sent :: u32
  retx_count :: nat
  tx_fail_count :: nat
  tx_next_tick :: u32
  tx_first_fail_wall :: u32
  peer_wnd :: nat
  wl1 :: u32
  wl2 :: u32
  wl_valid :: bool
  zero_wnd_active :: bool
  zero_wnd_first_wall :: u32
  zero_wnd_probe_wall :: u32
  recv_buf :: bytes
  peer_fin_seen :: bool

text \<open>The connection, the stack below it, the next local port and the wall clock.\<close>

record tcp =
  conn :: tcp_conn_t
  nt :: net
  tcp_next_port :: u16
  wall :: u32

type_synonym sender = "u32 \<Rightarrow> u8 \<Rightarrow> bytes \<Rightarrow> net \<Rightarrow> ip_send_result \<times> net"

definition upd :: "(tcp_conn_t \<Rightarrow> tcp_conn_t) \<Rightarrow> tcp \<Rightarrow> tcp" where
  "upd f s = s\<lparr>conn := f (conn s)\<rparr>"

definition net_wall_elapsed :: "tcp \<Rightarrow> u32 \<Rightarrow> u32" where
  "net_wall_elapsed s since = (wall s + 86400 - since) mod 86400"

definition tcp_recv_window :: "tcp_conn_t \<Rightarrow> nat" where
  "tcp_recv_window c =
     (let room = TCP_RECV_BUF_SIZE - length (recv_buf c)
      in if room > TCP_ADV_WINDOW_MAX then TCP_ADV_WINDOW_MAX else room)"

definition tcp_send_space :: "tcp_conn_t \<Rightarrow> nat" where
  "tcp_send_space c = TCP_SEND_BUF_SIZE - length (send_buf c)"

subsection \<open>Segments\<close>

definition tcp_pseudo :: "u32 \<Rightarrow> u32 \<Rightarrow> nat \<Rightarrow> bytes" where
  "tcp_pseudo src dst seg_len =
     net_put32_be src @ net_put32_be dst @ [0, IP_PROTO_TCP] @ net_put16_be (of_nat seg_len)"

text \<open>Everything before and after the checksum field of the segment.\<close>

definition tcp_seg_pre :: "tcp_conn_t \<Rightarrow> u8 \<Rightarrow> bytes" where
  "tcp_seg_pre c flags =
     (let hdr_len = (if flags AND TCP_FLAG_SYN \<noteq> 0 then TCP_SYN_HDR_LEN else TCP_HDR_LEN_MIN) in
      net_put16_be (local_port c) @ net_put16_be (remote_port c) @ net_put32_be (snd_nxt c) @
      net_put32_be (if flags AND TCP_FLAG_ACK \<noteq> 0 then rcv_nxt c else 0) @
      [push_bit 4 (of_nat (hdr_len div 4)), flags] @ net_put16_be (of_nat (tcp_recv_window c)))"

definition tcp_seg_post :: "u8 \<Rightarrow> bytes \<Rightarrow> bytes" where
  "tcp_seg_post flags data =
     net_put16_be 0 @
     (if flags AND TCP_FLAG_SYN \<noteq> 0 then [2, 4] @ net_put16_be (of_nat TCP_RECV_MSS) else []) @ data"

definition tcp_segment :: "tcp_conn_t \<Rightarrow> u32 \<Rightarrow> u8 \<Rightarrow> bytes \<Rightarrow> bytes" where
  "tcp_segment c me flags data =
     (let seg = tcp_seg_pre c flags @ net_put16_be 0 @ tcp_seg_post flags data;
          csum = net_checksum_finish
            (net_checksum_add (net_checksum_add 0 (tcp_pseudo me (remote_ip c) (length seg))) seg)
      in tcp_seg_pre c flags @ net_put16_be csum @ tcp_seg_post flags data)"

definition tcp_send_segment :: "sender \<Rightarrow> u8 \<Rightarrow> bytes \<Rightarrow> tcp \<Rightarrow> ip_send_result \<times> tcp" where
  "tcp_send_segment send flags data s =
     (let c = conn s;
          seg = tcp_segment c (my_ip (net_cfg (nt s))) flags (take TCP_SEND_MSS data);
          (r, n) = send (remote_ip c) IP_PROTO_TCP seg (nt s)
      in (r, s\<lparr>nt := n\<rparr>))"

definition send_ack :: "sender \<Rightarrow> tcp \<Rightarrow> tcp" where
  "send_ack send s = snd (tcp_send_segment send TCP_FLAG_ACK [] s)"

definition tcp_arm_retransmit :: "u8 \<Rightarrow> nat \<Rightarrow> tcp \<Rightarrow> tcp" where
  "tcp_arm_retransmit flags data_len s =
     upd (\<lambda>c. c\<lparr>retx_flags := flags, retx_len := data_len, retx_pending := True,
               retx_tick_sent := net_ticks (nt s), retx_count := 0\<rparr>) s"

definition tcp_clear_retransmit :: "tcp_conn_t \<Rightarrow> tcp_conn_t" where
  "tcp_clear_retransmit c = c\<lparr>retx_pending := False, retx_len := 0, retx_count := 0\<rparr>"

subsection \<open>Opening\<close>

definition tcp_connect :: "sender \<Rightarrow> u32 \<Rightarrow> u16 \<Rightarrow> tcp \<Rightarrow> tcp" where
  "tcp_connect send ip port s =
     (let lp = tcp_next_port s;
          np = (if lp + 1 > 60000 then 49152 else lp + 1);
          isn = 0x1000 + push_bit 8 (net_ticks (nt s)) + push_bit 16 (ucast lp);
          s = s\<lparr>tcp_next_port := np\<rparr>;
          s = upd (\<lambda>c. tcp_clear_retransmit (c\<lparr>tcp_state := TCP_SYN_SENT, remote_ip := ip, remote_port := port,
                local_port := lp, snd_una := isn, snd_nxt := isn, rcv_nxt := 0, recv_buf := [],
                send_buf := [], fin_pending := False, peer_mss := TCP_MSS_DEFAULT, peer_fin_seen := False,
                tx_fail_count := 0, tx_next_tick := 0, peer_wnd := 0, wl_valid := False,
                zero_wnd_active := False\<rparr>)) s;
          (r, s) = tcp_send_segment send TCP_FLAG_SYN [] s
      in if r = IP_SEND_FAILED then upd (\<lambda>c. c\<lparr>tcp_state := TCP_CLOSED\<rparr>) s
         else upd (\<lambda>c. c\<lparr>snd_nxt := snd_nxt c + 1\<rparr>) (tcp_arm_retransmit TCP_FLAG_SYN 0 s))"

subsection \<open>Sending\<close>

definition tcp_give_up :: "tcp \<Rightarrow> tcp" where
  "tcp_give_up s = upd (\<lambda>c. tcp_clear_retransmit (c\<lparr>tcp_state := TCP_CLOSED\<rparr>)) s"

definition tcp_tx_refused :: "tcp \<Rightarrow> tcp" where
  "tcp_tx_refused s =
     (let s = (if tx_fail_count (conn s) = 0 then upd (\<lambda>c. c\<lparr>tx_first_fail_wall := wall s\<rparr>) s else s);
          s = upd (\<lambda>c. c\<lparr>tx_fail_count := tx_fail_count c + 1,
                        tx_next_tick := net_ticks (nt s) + TCP_TX_FAIL_BACKOFF_TICKS\<rparr>) s
      in if (tx_fail_count (conn s) \<ge> TCP_TX_FAIL_MIN_COUNT \<and>
             net_wall_elapsed s (tx_first_fail_wall (conn s)) \<ge> TCP_TX_FAIL_GIVEUP_SECS) \<or>
            tx_fail_count (conn s) \<ge> TCP_TX_FAIL_BACKSTOP
         then tcp_give_up s else s)"

definition tcp_update_peer_window :: "bytes \<Rightarrow> u32 \<Rightarrow> u32 \<Rightarrow> tcp_conn_t \<Rightarrow> tcp_conn_t" where
  "tcp_update_peer_window seg sq ack c =
     (if ack - snd_una c > snd_nxt c - snd_una c then c
      else if \<not> wl_valid c \<or> sint (sq - wl1 c) > 0 \<or> (sq = wl1 c \<and> sint (ack - wl2 c) \<ge> 0)
           then c\<lparr>peer_wnd := unat (net_get16_be seg 14), wl1 := sq, wl2 := ack, wl_valid := True\<rparr>
      else c)"

definition tcp_zero_window_wait :: "sender \<Rightarrow> tcp \<Rightarrow> tcp" where
  "tcp_zero_window_wait send s =
     (let now = wall s in
      if \<not> zero_wnd_active (conn s) then
        upd (\<lambda>c. c\<lparr>zero_wnd_active := True, zero_wnd_first_wall := now, zero_wnd_probe_wall := now\<rparr>) s
      else if net_wall_elapsed s (zero_wnd_first_wall (conn s)) \<ge> TCP_ZERO_WINDOW_GIVEUP_SECS
      then tcp_give_up s
      else if net_wall_elapsed s (zero_wnd_probe_wall (conn s)) \<ge> TCP_ZERO_WINDOW_PROBE_SECS then
        (let s = upd (\<lambda>c. c\<lparr>zero_wnd_probe_wall := now, snd_nxt := snd_nxt c - 1\<rparr>) s;
             s = send_ack send s
         in upd (\<lambda>c. c\<lparr>snd_nxt := snd_nxt c + 1\<rparr>) s)
      else s)"

text \<open>How many bytes the next segment takes off the queue.\<close>

definition tcp_pump_len :: "tcp_conn_t \<Rightarrow> nat" where
  "tcp_pump_len c =
     (let n = length (send_buf c);
          cap = (if peer_mss c < TCP_SEND_MSS then peer_mss c else TCP_SEND_MSS);
          cap = (if cap > peer_wnd c then peer_wnd c else cap)
      in if n > cap then cap else n)"

definition tcp_pump_data :: "sender \<Rightarrow> tcp \<Rightarrow> tcp" where
  "tcp_pump_data send s =
     (let s = upd (\<lambda>c. c\<lparr>zero_wnd_active := False\<rparr>) s;
          n = tcp_pump_len (conn s);
          (r, s) = tcp_send_segment send (TCP_FLAG_ACK OR TCP_FLAG_PSH) (take n (send_buf (conn s))) s
      in if r = IP_SEND_FAILED then tcp_tx_refused s
         else upd (\<lambda>c. c\<lparr>snd_nxt := snd_nxt c + of_nat n\<rparr>)
                (tcp_arm_retransmit (TCP_FLAG_ACK OR TCP_FLAG_PSH) n (upd (\<lambda>c. c\<lparr>tx_fail_count := 0\<rparr>) s)))"

definition tcp_pump_fin :: "sender \<Rightarrow> tcp \<Rightarrow> tcp" where
  "tcp_pump_fin send s =
     (let (r, s) = tcp_send_segment send (TCP_FLAG_FIN OR TCP_FLAG_ACK) [] s
      in if r = IP_SEND_FAILED then tcp_tx_refused s
         else upd (\<lambda>c. c\<lparr>snd_nxt := snd_nxt c + 1, tcp_state := TCP_FIN_WAIT_1\<rparr>)
                (tcp_arm_retransmit (TCP_FLAG_FIN OR TCP_FLAG_ACK) 0
                  (upd (\<lambda>c. c\<lparr>tx_fail_count := 0, fin_pending := False\<rparr>) s)))"

definition tcp_pump_send :: "sender \<Rightarrow> tcp \<Rightarrow> tcp" where
  "tcp_pump_send send s =
     (let c = conn s in
      if tcp_state c \<noteq> TCP_ESTABLISHED then s
      else if retx_pending c then s
      else if send_buf c = [] \<and> \<not> fin_pending c then s
      else if tx_fail_count c > 0 \<and> net_ticks (nt s) < tx_next_tick c then s
      else if send_buf c \<noteq> [] then
        (if peer_wnd c = 0 then tcp_zero_window_wait send s else tcp_pump_data send s)
      else tcp_pump_fin send s)"

definition tcp_send_data :: "sender \<Rightarrow> bytes \<Rightarrow> tcp \<Rightarrow> bool \<times> tcp" where
  "tcp_send_data send data s =
     (if tcp_state (conn s) \<noteq> TCP_ESTABLISHED \<or> fin_pending (conn s) then (False, s)
      else if length data > tcp_send_space (conn s) then (False, s)
      else (True, tcp_pump_send send (upd (\<lambda>c. c\<lparr>send_buf := send_buf c @ data\<rparr>) s)))"

definition tcp_close :: "sender \<Rightarrow> tcp \<Rightarrow> tcp" where
  "tcp_close send s =
     (if tcp_state (conn s) \<noteq> TCP_ESTABLISHED then s
      else tcp_pump_send send (upd (\<lambda>c. c\<lparr>fin_pending := True\<rparr>) s))"

definition tcp_poll_recv :: "sender \<Rightarrow> nat \<Rightarrow> tcp \<Rightarrow> bytes \<times> tcp" where
  "tcp_poll_recv send maxlen s =
     (let buf = recv_buf (conn s);
          n = (if length buf < maxlen then length buf else maxlen);
          was_full_ish = (TCP_RECV_BUF_SIZE - length buf < TCP_RECV_MSS);
          s = upd (\<lambda>c. c\<lparr>recv_buf := drop n buf\<rparr>) s
      in (take n buf,
          if n > 0 \<and> was_full_ish \<and> tcp_state (conn s) = TCP_ESTABLISHED then send_ack send s else s))"

subsection \<open>Receiving\<close>

function tcp_parse_syn_options :: "bytes \<Rightarrow> nat \<Rightarrow> nat \<Rightarrow> nat \<Rightarrow> nat" where
  "tcp_parse_syn_options seg hdr_len i mss0 =
     (if i \<ge> hdr_len then mss0
      else if seg ! i = 0 then mss0
      else if seg ! i = 1 then tcp_parse_syn_options seg hdr_len (i + 1) mss0
      else if i + 1 \<ge> hdr_len then mss0
      else
        let olen = unat (seg ! (i + 1)) in
        if olen < 2 \<or> i + olen > hdr_len then mss0
        else
          let mss = unat (net_get16_be seg (i + 2));
              mss1 = (if seg ! i = 2 \<and> olen = 4 \<and> mss \<ge> 64 then mss else mss0)
          in tcp_parse_syn_options seg hdr_len (i + olen) mss1)"
  by pat_completeness auto
termination by (relation "measure (\<lambda>(_, hdr_len, i, _). hdr_len - i)") auto

declare tcp_parse_syn_options.simps [simp del]

definition tcp_checksum_ok :: "ip_packet_t \<Rightarrow> bool" where
  "tcp_checksum_ok ip =
     (net_checksum_finish (net_checksum_add
        (net_checksum_add 0 (tcp_pseudo (ip_src_ip ip) (ip_dst_ip ip) (length (ip_payload ip)))) (ip_payload ip)) = 0)"

text \<open>The fields of a segment the handler works with.\<close>

record tcp_seg =
  sg_bytes :: bytes
  sg_seq :: u32
  sg_ack :: u32
  sg_flags :: u8
  sg_hdr_len :: nat
  sg_data :: bytes

definition has :: "tcp_seg \<Rightarrow> u8 \<Rightarrow> bool" where
  "has g f = (sg_flags g AND f \<noteq> 0)"

definition tcp_in_rst :: "sender \<Rightarrow> tcp_seg \<Rightarrow> tcp \<Rightarrow> tcp" where
  "tcp_in_rst send g s =
     (let c = conn s in
      if tcp_state c = TCP_SYN_SENT then
        (if \<not> has g TCP_FLAG_ACK \<or> sg_ack g \<noteq> snd_nxt c then s else tcp_give_up s)
      else if sg_seq g \<noteq> rcv_nxt c then
        (let wnd = (if tcp_recv_window c = 0 then 1 else tcp_recv_window c)
         in if unat (sg_seq g - rcv_nxt c) < wnd then send_ack send s else s)
      else tcp_give_up s)"

definition tcp_in_ack :: "tcp_seg \<Rightarrow> tcp_conn_t \<Rightarrow> tcp_conn_t" where
  "tcp_in_ack g c =
     (if has g TCP_FLAG_ACK \<and> sg_ack g = snd_nxt c \<and> retx_pending c then
        (let acked = retx_len c;
             c = tcp_clear_retransmit (c\<lparr>snd_una := sg_ack g\<rparr>)
         in if acked > 0 then c\<lparr>send_buf := drop acked (send_buf c)\<rparr> else c)
      else c)"

definition tcp_in_syn_sent :: "sender \<Rightarrow> tcp_seg \<Rightarrow> tcp \<Rightarrow> tcp" where
  "tcp_in_syn_sent send g s =
     (if has g TCP_FLAG_SYN \<and> has g TCP_FLAG_ACK \<and> sg_ack g = snd_nxt (conn s) then
        send_ack send (upd (\<lambda>c. c\<lparr>rcv_nxt := sg_seq g + 1,
            peer_mss := tcp_parse_syn_options (sg_bytes g) (sg_hdr_len g) TCP_HDR_LEN_MIN (peer_mss c),
            peer_wnd := unat (net_get16_be (sg_bytes g) 14), wl1 := sg_seq g, wl2 := sg_ack g,
            wl_valid := True, tcp_state := TCP_ESTABLISHED\<rparr>) s)
      else s)"

definition tcp_accept_data :: "tcp_seg \<Rightarrow> tcp_conn_t \<Rightarrow> tcp_conn_t" where
  "tcp_accept_data g c =
     (let already = rcv_nxt c - sg_seq g in
      if sint already \<ge> 0 \<and> unat already < length (sg_data g) then
        (let fresh = drop (unat already) (sg_data g) in
         if length fresh \<le> TCP_RECV_BUF_SIZE - length (recv_buf c)
         then c\<lparr>recv_buf := recv_buf c @ fresh, rcv_nxt := rcv_nxt c + of_nat (length fresh)\<rparr>
         else c)
      else c)"

definition tcp_accept_fin :: "tcp_seg \<Rightarrow> tcp_conn_t \<Rightarrow> tcp_conn_t" where
  "tcp_accept_fin g c =
     c\<lparr>rcv_nxt := sg_seq g + of_nat (length (sg_data g)) + 1, peer_fin_seen := True\<rparr>"

definition tcp_in_established :: "sender \<Rightarrow> tcp_seg \<Rightarrow> tcp \<Rightarrow> tcp" where
  "tcp_in_established send g s =
     (let s = (if has g TCP_FLAG_ACK
               then upd (tcp_update_peer_window (sg_bytes g) (sg_seq g) (sg_ack g)) s else s);
          s = (if sg_data g \<noteq> [] then send_ack send (upd (tcp_accept_data g) s) else s);
          stop = sg_seq g + of_nat (length (sg_data g));
          s = (if has g TCP_FLAG_FIN \<and> stop = rcv_nxt (conn s) then send_ack send (upd (tcp_accept_fin g) s)
               else if has g TCP_FLAG_FIN \<and> stop + 1 = rcv_nxt (conn s) then send_ack send s
               else s)
      in tcp_pump_send send s)"

definition tcp_take_tail :: "sender \<Rightarrow> tcp_seg \<Rightarrow> tcp \<Rightarrow> tcp" where
  "tcp_take_tail send g s =
     (if sg_data g \<noteq> [] \<and> sg_seq g = rcv_nxt (conn s) then
        send_ack send (upd (\<lambda>c.
          if length (sg_data g) \<le> TCP_RECV_BUF_SIZE - length (recv_buf c)
          then c\<lparr>recv_buf := recv_buf c @ sg_data g, rcv_nxt := rcv_nxt c + of_nat (length (sg_data g))\<rparr>
          else c) s)
      else s)"

definition tcp_in_fin_wait_1 :: "sender \<Rightarrow> tcp_seg \<Rightarrow> tcp \<Rightarrow> tcp" where
  "tcp_in_fin_wait_1 send g s =
     (let s = (if has g TCP_FLAG_ACK \<and> sg_ack g = snd_nxt (conn s)
               then upd (\<lambda>c. c\<lparr>tcp_state := (if peer_fin_seen c then TCP_CLOSED else TCP_FIN_WAIT_2)\<rparr>) s else s);
          s = tcp_take_tail send g s
      in if has g TCP_FLAG_FIN \<and> sg_seq g + of_nat (length (sg_data g)) = rcv_nxt (conn s) then
           (let s = send_ack send (upd (tcp_accept_fin g) s)
            in if tcp_state (conn s) = TCP_FIN_WAIT_2 then upd (\<lambda>c. c\<lparr>tcp_state := TCP_CLOSED\<rparr>) s else s)
         else s)"

definition tcp_in_fin_wait_2 :: "sender \<Rightarrow> tcp_seg \<Rightarrow> tcp \<Rightarrow> tcp" where
  "tcp_in_fin_wait_2 send g s =
     (let s = tcp_take_tail send g s
      in if has g TCP_FLAG_FIN \<and> sg_seq g + of_nat (length (sg_data g)) = rcv_nxt (conn s)
         then upd (\<lambda>c. c\<lparr>tcp_state := TCP_CLOSED\<rparr>) (send_ack send (upd (tcp_accept_fin g) s))
         else s)"

definition tcp_dispatch :: "sender \<Rightarrow> tcp_seg \<Rightarrow> tcp \<Rightarrow> tcp" where
  "tcp_dispatch send g s =
     (if has g TCP_FLAG_RST then tcp_in_rst send g s
      else
        let s = upd (tcp_in_ack g) s in
        case tcp_state (conn s) of
          TCP_SYN_SENT \<Rightarrow> tcp_in_syn_sent send g s
        | TCP_ESTABLISHED \<Rightarrow> tcp_in_established send g s
        | TCP_FIN_WAIT_1 \<Rightarrow> tcp_in_fin_wait_1 send g s
        | TCP_FIN_WAIT_2 \<Rightarrow> tcp_in_fin_wait_2 send g s
        | _ \<Rightarrow> s)"

definition tcp_parse_seg :: "bytes \<Rightarrow> tcp_seg option" where
  "tcp_parse_seg seg =
     (let hdr_len = unat (drop_bit 4 (seg ! 12)) * 4 in
      if hdr_len < TCP_HDR_LEN_MIN \<or> hdr_len > length seg then None
      else Some \<lparr>sg_bytes = seg, sg_seq = net_get32_be seg 4, sg_ack = net_get32_be seg 8,
                 sg_flags = seg ! 13, sg_hdr_len = hdr_len, sg_data = drop hdr_len seg\<rparr>)"

definition tcp_handle_packet :: "sender \<Rightarrow> ip_packet_t \<Rightarrow> tcp \<Rightarrow> tcp" where
  "tcp_handle_packet send ip s =
     (let seg = ip_payload ip; c = conn s in
      if length seg < TCP_HDR_LEN_MIN then s
      else if tcp_state c = TCP_CLOSED then s
      else if ip_src_ip ip \<noteq> remote_ip c \<or> net_get16_be seg 0 \<noteq> remote_port c \<or>
              net_get16_be seg 2 \<noteq> local_port c then s
      else if \<not> tcp_checksum_ok ip then s
      else case tcp_parse_seg seg of None \<Rightarrow> s | Some g \<Rightarrow> tcp_dispatch send g s)"

text \<open>Resending: the segment of the retransmit slot with the old sequence number.\<close>

definition tcp_resend :: "sender \<Rightarrow> tcp \<Rightarrow> tcp" where
  "tcp_resend send s =
     (let saved = snd_nxt (conn s);
          s = upd (\<lambda>c. c\<lparr>snd_nxt := snd_una c\<rparr>) s;
          s = snd (tcp_send_segment send (retx_flags (conn s)) (take (retx_len (conn s)) (send_buf (conn s))) s)
      in upd (\<lambda>c. c\<lparr>snd_nxt := saved, retx_tick_sent := net_ticks (nt s), retx_count := retx_count c + 1\<rparr>) s)"

definition tcp_poll_retransmit :: "sender \<Rightarrow> tcp \<Rightarrow> tcp" where
  "tcp_poll_retransmit send s0 =
     (let s = tcp_pump_send send s0 in
      if \<not> retx_pending (conn s) then s
      else if net_ticks (nt s) - retx_tick_sent (conn s) < TCP_RETRANSMIT_TICKS then s
      else if retx_count (conn s) \<ge> TCP_MAX_RETRIES then tcp_give_up s
      else tcp_resend send s)"

subsection \<open>What TCP needs of the layer below\<close>

text \<open>The contract of the datagram sender: it leaves the interface configuration and the tick
  counter alone and keeps the neighbour cache well formed.\<close>

locale datagram_layer =
  fixes send :: sender
  assumes send_cfg: "net_cfg (snd (send d p b n)) = net_cfg n"
    and send_ticks: "net_ticks (snd (send d p b n)) = net_ticks n"
    and send_arp: "arp_wf n \<Longrightarrow> arp_wf (snd (send d p b n))"

lemma ip_send_keeps:
  "net_cfg (snd (ip_send drv d p b n)) = net_cfg n"
  "net_ticks (snd (ip_send drv d p b n)) = net_ticks n"
  by (simp_all add: ip_send_def Let_def frame_simps split: option.split)

subsection \<open>Frames\<close>

lemma conn_upd [simp]: "conn (upd f s) = f (conn s)" "nt (upd f s) = nt s" "wall (upd f s) = wall s"
    "tcp_next_port (upd f s) = tcp_next_port s"
  by (simp_all add: upd_def)

lemma conn_send [simp]: "conn (snd (tcp_send_segment send fl d s)) = conn s"
    "wall (snd (tcp_send_segment send fl d s)) = wall s"
  by (simp_all add: tcp_send_segment_def Let_def split_beta)

lemma conn_send_ack [simp]: "conn (send_ack send s) = conn s" "wall (send_ack send s) = wall s"
  by (simp_all add: send_ack_def)

subsection \<open>The connection invariant\<close>

text \<open>Buffers within their capacity; while a segment is in flight it is the front of the queue (or
  a SYN or FIN, which takes one sequence number) and the sequence numbers cover exactly it;
  otherwise nothing is outstanding; once our FIN is out the queue is empty.\<close>

definition tcp_ok :: "tcp_conn_t \<Rightarrow> bool" where
  "tcp_ok c \<longleftrightarrow>
     length (send_buf c) \<le> TCP_SEND_BUF_SIZE \<and> length (recv_buf c) \<le> TCP_RECV_BUF_SIZE \<and>
     retx_len c \<le> length (send_buf c) \<and> retx_len c \<le> TCP_SEND_MSS \<and> 64 \<le> peer_mss c \<and>
     retx_count c \<le> TCP_MAX_RETRIES \<and>
     (retx_pending c \<longrightarrow> snd_nxt c = snd_una c + (if retx_len c = 0 then 1 else of_nat (retx_len c))) \<and>
     (\<not> retx_pending c \<and> tcp_state c \<noteq> TCP_CLOSED \<longrightarrow> snd_nxt c = snd_una c \<and> retx_len c = 0) \<and>
     (tcp_state c \<in> {TCP_SYN_SENT, TCP_FIN_WAIT_1, TCP_FIN_WAIT_2} \<longrightarrow> send_buf c = []) \<and>
     tcp_state c \<noteq> TCP_TIME_WAIT"

lemma tcp_ok_clear: "tcp_ok c \<Longrightarrow> tcp_ok (tcp_clear_retransmit (c\<lparr>tcp_state := TCP_CLOSED\<rparr>))"
  by (simp add: tcp_ok_def tcp_clear_retransmit_def)

lemma give_up_ok [inv_intros]: "tcp_ok (conn s) \<Longrightarrow> tcp_ok (conn (tcp_give_up s))"
  by (simp add: tcp_give_up_def tcp_ok_clear)

lemma tx_refused_ok [inv_intros]: "tcp_ok (conn s) \<Longrightarrow> tcp_ok (conn (tcp_tx_refused s))"
  by (simp add: tcp_tx_refused_def Let_def tcp_give_up_def tcp_ok_def tcp_clear_retransmit_def)

lemma update_window_ok [inv_intros]: "tcp_ok c \<Longrightarrow> tcp_ok (tcp_update_peer_window seg sq ack c)"
  by (simp add: tcp_update_peer_window_def tcp_ok_def)

lemma zero_window_ok [inv_intros]: "tcp_ok (conn s) \<Longrightarrow> tcp_ok (conn (tcp_zero_window_wait send s))"
  by (simp add: tcp_zero_window_wait_def Let_def tcp_give_up_def tcp_ok_def tcp_clear_retransmit_def)

lemma pump_len_bounds:
  "tcp_pump_len c \<le> length (send_buf c)" "tcp_pump_len c \<le> TCP_SEND_MSS" "tcp_pump_len c \<le> peer_wnd c"
  "tcp_pump_len c \<le> peer_mss c"
  by (auto simp: tcp_pump_len_def Let_def)

lemma pump_len_pos:
  "tcp_ok c \<Longrightarrow> send_buf c \<noteq> [] \<Longrightarrow> peer_wnd c \<noteq> 0 \<Longrightarrow> 0 < tcp_pump_len c"
  by (auto simp: tcp_pump_len_def Let_def tcp_ok_def TCP_SEND_MSS_def)

lemma pump_data_conn:
  obtains s1 where "conn s1 = (conn s)\<lparr>zero_wnd_active := False\<rparr>" "tcp_pump_data send s = tcp_tx_refused s1"
  | t where "conn (tcp_pump_data send s) = (conn s)\<lparr>zero_wnd_active := False, tx_fail_count := 0,
       retx_flags := TCP_FLAG_ACK OR TCP_FLAG_PSH, retx_len := tcp_pump_len (conn s), retx_pending := True,
       retx_tick_sent := t, retx_count := 0, snd_nxt := snd_nxt (conn s) + of_nat (tcp_pump_len (conn s))\<rparr>"
proof -
  have l: "tcp_pump_len ((conn s)\<lparr>zero_wnd_active := False\<rparr>) = tcp_pump_len (conn s)"
    by (simp add: tcp_pump_len_def Let_def)
  let ?r = "tcp_send_segment send (TCP_FLAG_ACK OR TCP_FLAG_PSH) (take (tcp_pump_len (conn s)) (send_buf (conn s)))
      (upd (\<lambda>c. c\<lparr>zero_wnd_active := False\<rparr>) s)"
  show thesis
  proof (cases "fst ?r = IP_SEND_FAILED")
    case True
    show thesis by (rule that(1) [of "snd ?r"]) (use True in \<open>simp_all add: tcp_pump_data_def Let_def split_beta l\<close>)
  next
    case False
    show thesis by (rule that(2) [of "net_ticks (nt (snd ?r))"])
      (use False in \<open>simp add: tcp_pump_data_def Let_def split_beta l tcp_arm_retransmit_def\<close>)
  qed
qed

lemma pump_data_ok [inv_intros]:
  assumes "tcp_ok (conn s)" "tcp_state (conn s) = TCP_ESTABLISHED" "\<not> retx_pending (conn s)"
    "send_buf (conn s) \<noteq> []" "peer_wnd (conn s) \<noteq> 0"
  shows "tcp_ok (conn (tcp_pump_data send s))"
proof (cases rule: pump_data_conn [of s send])
  case (1 s1)
  have "tcp_ok (conn s1)" using assms(1) by (simp add: 1(1) tcp_ok_def)
  thus ?thesis using 1(2) tx_refused_ok by simp
next
  case (2 t)
  note b = pump_len_bounds [of "conn s"] pump_len_pos [OF assms(1,4,5)]
  show ?thesis unfolding 2 using assms b by (simp add: tcp_ok_def)
qed

lemma pump_fin_ok [inv_intros]:
  assumes "tcp_ok (conn s)" "tcp_state (conn s) = TCP_ESTABLISHED" "\<not> retx_pending (conn s)"
    "send_buf (conn s) = []"
  shows "tcp_ok (conn (tcp_pump_fin send s))"
  using assms tx_refused_ok [of "snd (tcp_send_segment send fl d s)" for fl d]
  by (simp add: tcp_pump_fin_def Let_def split_beta tcp_arm_retransmit_def) (simp add: tcp_ok_def)

lemma pump_send_ok [inv_intros]: "tcp_ok (conn s) \<Longrightarrow> tcp_ok (conn (tcp_pump_send send s))"
  by (simp add: tcp_pump_send_def Let_def inv_intros)

lemma send_data_ok [inv_intros]:
  assumes "tcp_ok (conn s)"
  shows "tcp_ok (conn (snd (tcp_send_data send data s)))"
proof (cases "tcp_state (conn s) \<noteq> TCP_ESTABLISHED \<or> fin_pending (conn s) \<or> length data > tcp_send_space (conn s)")
  case False
  hence "tcp_ok (conn (upd (\<lambda>c. c\<lparr>send_buf := send_buf c @ data\<rparr>) s))"
    using assms by (auto simp: tcp_ok_def tcp_send_space_def)
  from pump_send_ok [OF this, of send] show ?thesis using False by (simp add: tcp_send_data_def)
qed (use assms in \<open>auto simp: tcp_send_data_def\<close>)

lemma close_ok [inv_intros]:
  assumes "tcp_ok (conn s)"
  shows "tcp_ok (conn (tcp_close send s))"
proof -
  have "tcp_ok (conn (upd (\<lambda>c. c\<lparr>fin_pending := True\<rparr>) s))" using assms by (simp add: tcp_ok_def)
  from pump_send_ok [OF this, of send] show ?thesis using assms by (simp add: tcp_close_def)
qed

lemma poll_recv_ok [inv_intros]: "tcp_ok (conn s) \<Longrightarrow> tcp_ok (conn (snd (tcp_poll_recv send n s)))"
  by (auto simp: tcp_poll_recv_def Let_def tcp_ok_def)

lemma syn_options_mss: "64 \<le> m \<Longrightarrow> 64 \<le> tcp_parse_syn_options seg h i m"
proof (induction seg h i m rule: tcp_parse_syn_options.induct)
  case (1 seg h i m)
  show ?case
    using 1 by (subst tcp_parse_syn_options.simps) (simp add: Let_def)
qed

lemma in_ack_ok [inv_intros]:
  assumes "tcp_ok c"
  shows "tcp_ok (tcp_in_ack g c)"
proof (cases "has g TCP_FLAG_ACK \<and> sg_ack g = snd_nxt c \<and> retx_pending c")
  case True
  hence "tcp_in_ack g c = (tcp_clear_retransmit (c\<lparr>snd_una := snd_nxt c\<rparr>))\<lparr>send_buf := drop (retx_len c) (send_buf c)\<rparr>"
    by (cases c) (simp add: tcp_in_ack_def tcp_clear_retransmit_def Let_def)
  moreover have "length (send_buf c) - retx_len c \<le> TCP_SEND_BUF_SIZE" using assms by (auto simp: tcp_ok_def)
  ultimately show ?thesis using assms by (simp add: tcp_ok_def tcp_clear_retransmit_def)
qed (use assms in \<open>auto simp: tcp_in_ack_def\<close>)

lemma accept_data_ok [inv_intros]: "tcp_ok c \<Longrightarrow> tcp_ok (tcp_accept_data g c)"
  by (auto simp: tcp_accept_data_def Let_def tcp_ok_def)

lemma accept_fin_ok [inv_intros]: "tcp_ok c \<Longrightarrow> tcp_ok (tcp_accept_fin g c)"
  by (simp add: tcp_accept_fin_def tcp_ok_def)

lemma in_established_ok [inv_intros]: "tcp_ok (conn s) \<Longrightarrow> tcp_ok (conn (tcp_in_established send g s))"
  by (simp add: tcp_in_established_def Let_def inv_intros)

lemma take_tail_ok [inv_intros]: "tcp_ok (conn s) \<Longrightarrow> tcp_ok (conn (tcp_take_tail send g s))"
  by (auto simp: tcp_take_tail_def tcp_ok_def)

lemma take_tail_state [simp]: "tcp_state (conn (tcp_take_tail send g s)) = tcp_state (conn s)"
  by (simp add: tcp_take_tail_def)


lemma tcp_ok_state:
  assumes "tcp_ok c" "tcp_state c \<noteq> TCP_CLOSED" "st \<noteq> TCP_TIME_WAIT" "send_buf c = []"
  shows "tcp_ok (c\<lparr>tcp_state := st\<rparr>)"
  using assms unfolding tcp_ok_def by simp

lemma in_fin_wait_1_ok [inv_intros]:
  assumes "tcp_ok (conn s)" "tcp_state (conn s) = TCP_FIN_WAIT_1"
    "\<not> (has g TCP_FLAG_ACK \<and> sg_ack g = snd_nxt (conn s) \<and> retx_pending (conn s))"
  shows "tcp_ok (conn (tcp_in_fin_wait_1 send g s))"
proof -
  let ?s1 = "if has g TCP_FLAG_ACK \<and> sg_ack g = snd_nxt (conn s)
     then upd (\<lambda>c. c\<lparr>tcp_state := (if peer_fin_seen c then TCP_CLOSED else TCP_FIN_WAIT_2)\<rparr>) s else s"
  have "send_buf (conn s) = []" using assms(1,2) by (simp add: tcp_ok_def)
  hence s1: "tcp_ok (conn ?s1)" using tcp_ok_state [OF assms(1)] assms(1,2) by simp
  hence t: "tcp_ok (conn (tcp_take_tail send g ?s1))" by (rule take_tail_ok)
  hence "tcp_ok (tcp_accept_fin g (conn (tcp_take_tail send g ?s1)))" by (rule accept_fin_ok)
  moreover from this have "tcp_ok ((tcp_accept_fin g (conn (tcp_take_tail send g ?s1)))\<lparr>tcp_state := TCP_CLOSED\<rparr>)"
    by (simp add: tcp_ok_def)
  ultimately show ?thesis using t by (simp add: tcp_in_fin_wait_1_def Let_def del: take_tail_state)
qed

lemma in_fin_wait_2_ok [inv_intros]:
  assumes "tcp_ok (conn s)"
  shows "tcp_ok (conn (tcp_in_fin_wait_2 send g s))"
proof -
  have t: "tcp_ok (conn (tcp_take_tail send g s))" by (rule take_tail_ok [OF assms])
  moreover have "tcp_ok ((tcp_accept_fin g (conn (tcp_take_tail send g s)))\<lparr>tcp_state := TCP_CLOSED\<rparr>)"
    using accept_fin_ok [OF t] by (simp add: tcp_ok_def)
  ultimately show ?thesis by (simp add: tcp_in_fin_wait_2_def Let_def del: take_tail_state)
qed

lemma in_syn_sent_ok [inv_intros]:
  assumes "tcp_ok (conn s)" "tcp_state (conn s) = TCP_SYN_SENT"
  shows "tcp_ok (conn (tcp_in_syn_sent send g s))"
proof -
  have "64 \<le> tcp_parse_syn_options (sg_bytes g) (sg_hdr_len g) TCP_HDR_LEN_MIN (peer_mss (conn s))"
    by (rule syn_options_mss) (use assms in \<open>simp add: tcp_ok_def\<close>)
  moreover have "retx_len (conn s) = 0" using assms by (auto simp: tcp_ok_def)
  ultimately show ?thesis using assms by (simp add: tcp_in_syn_sent_def tcp_ok_def)
qed

lemma in_rst_ok [inv_intros]: "tcp_ok (conn s) \<Longrightarrow> tcp_ok (conn (tcp_in_rst send g s))"
  by (simp add: tcp_in_rst_def Let_def give_up_ok)

lemma in_ack_facts:
  "tcp_state (tcp_in_ack g c) = tcp_state c" "snd_nxt (tcp_in_ack g c) = snd_nxt c"
  "has g TCP_FLAG_ACK \<and> sg_ack g = snd_nxt c \<Longrightarrow> \<not> retx_pending (tcp_in_ack g c)"
  "rcv_nxt (tcp_in_ack g c) = rcv_nxt c" "recv_buf (tcp_in_ack g c) = recv_buf c"
  "peer_fin_seen (tcp_in_ack g c) = peer_fin_seen c"
  by (simp_all add: tcp_in_ack_def Let_def tcp_clear_retransmit_def)

lemma dispatch_ok [inv_intros]:
  assumes "tcp_ok (conn s)"
  shows "tcp_ok (conn (tcp_dispatch send g s))"
proof -
  have a: "tcp_ok (conn (upd (tcp_in_ack g) s))" using in_ack_ok [OF assms] by simp
  have "tcp_state (conn s) = TCP_FIN_WAIT_1 \<Longrightarrow> tcp_ok (conn (tcp_in_fin_wait_1 send g (upd (tcp_in_ack g) s)))"
    by (rule in_fin_wait_1_ok [OF a]) (auto simp: in_ack_facts)
  moreover have "tcp_state (conn s) = TCP_SYN_SENT \<Longrightarrow> tcp_ok (conn (tcp_in_syn_sent send g (upd (tcp_in_ack g) s)))"
    by (rule in_syn_sent_ok [OF a]) (simp add: in_ack_facts)
  ultimately show ?thesis
    using assms a in_established_ok [OF a, of send g] in_fin_wait_2_ok [OF a, of send g] in_rst_ok [OF assms, of send g]
    by (simp add: tcp_dispatch_def Let_def in_ack_facts split: tcp_state_t.split)
qed

lemma handle_packet_ok [inv_intros]: "tcp_ok (conn s) \<Longrightarrow> tcp_ok (conn (tcp_handle_packet send ip s))"
  by (simp add: tcp_handle_packet_def Let_def dispatch_ok split: option.split)

lemma resend_conn:
  "conn (tcp_resend send s) = (conn s)\<lparr>retx_tick_sent := retx_tick_sent (conn (tcp_resend send s)),
     retx_count := retx_count (conn s) + 1\<rparr>"
  by (simp add: tcp_resend_def Let_def)

lemma poll_retransmit_ok [inv_intros]:
  assumes "tcp_ok (conn s)"
  shows "tcp_ok (conn (tcp_poll_retransmit send s))"
proof -
  let ?p = "tcp_pump_send send s"
  have p: "tcp_ok (conn ?p)" by (rule pump_send_ok [OF assms])
  have "retx_count (conn ?p) < TCP_MAX_RETRIES \<Longrightarrow> tcp_ok (conn (tcp_resend send ?p))"
    using p by (subst resend_conn) (simp add: tcp_ok_def)
  thus ?thesis using p give_up_ok [OF p] by (simp add: tcp_poll_retransmit_def Let_def)
qed

lemma connect_ok [inv_intros]: "tcp_ok (conn (tcp_connect send ip port s))"
  by (simp add: tcp_connect_def Let_def split_beta tcp_arm_retransmit_def)
    (simp add: tcp_ok_def tcp_clear_retransmit_def TCP_MSS_DEFAULT_def)


subsection \<open>The received stream\<close>

text \<open>What of the connection the receive side consists of.\<close>

definition rview :: "tcp_conn_t \<Rightarrow> bytes \<times> u32 \<times> bool" where
  "rview c = (recv_buf c, rcv_nxt c, peer_fin_seen c)"

definition live :: "tcp_conn_t \<Rightarrow> bool" where
  "live c \<longleftrightarrow> tcp_state c \<noteq> TCP_SYN_SENT"

lemma give_up_view [simp]: "rview (conn (tcp_give_up s)) = rview (conn s)" "live (conn (tcp_give_up s))"
  by (simp_all add: tcp_give_up_def tcp_clear_retransmit_def rview_def live_def)

lemma tx_refused_view [simp]: "rview (conn (tcp_tx_refused s)) = rview (conn s)"
    "live (conn s) \<Longrightarrow> live (conn (tcp_tx_refused s))"
  by (simp_all add: tcp_tx_refused_def Let_def rview_def live_def tcp_give_up_def tcp_clear_retransmit_def)

lemma zero_window_view [simp]: "rview (conn (tcp_zero_window_wait send s)) = rview (conn s)"
    "live (conn s) \<Longrightarrow> live (conn (tcp_zero_window_wait send s))"
  by (simp_all add: tcp_zero_window_wait_def Let_def rview_def live_def tcp_give_up_def tcp_clear_retransmit_def)

lemma pump_data_view [simp]: "rview (conn (tcp_pump_data send s)) = rview (conn s)"
    "live (conn s) \<Longrightarrow> live (conn (tcp_pump_data send s))"
proof -
  have "rview (conn (tcp_pump_data send s)) = rview (conn s) \<and>
      (live (conn s) \<longrightarrow> live (conn (tcp_pump_data send s)))"
  proof (cases rule: pump_data_conn [of s send])
    case (1 s1)
    have "rview (conn s1) = rview (conn s)" "live (conn s1) = live (conn s)"
      by (simp_all add: 1(1) rview_def live_def)
    thus ?thesis using 1(2) by simp
  next
    case (2 t)
    show ?thesis unfolding 2 by (simp add: rview_def live_def)
  qed
  thus "rview (conn (tcp_pump_data send s)) = rview (conn s)"
    "live (conn s) \<Longrightarrow> live (conn (tcp_pump_data send s))" by blast+
qed

lemma pump_fin_view [simp]: "rview (conn (tcp_pump_fin send s)) = rview (conn s)"
    "live (conn s) \<Longrightarrow> live (conn (tcp_pump_fin send s))"
proof -
  have "rview (conn (tcp_pump_fin send s)) = rview (conn s) \<and>
      (live (conn s) \<longrightarrow> live (conn (tcp_pump_fin send s)))"
  proof (cases "fst (tcp_send_segment send (TCP_FLAG_FIN OR TCP_FLAG_ACK) [] s) = IP_SEND_FAILED")
    case True
    thus ?thesis by (simp add: tcp_pump_fin_def split_beta)
  next
    case False
    thus ?thesis by (simp add: tcp_pump_fin_def split_beta tcp_arm_retransmit_def)
      (simp add: rview_def live_def)
  qed
  thus "rview (conn (tcp_pump_fin send s)) = rview (conn s)"
    "live (conn s) \<Longrightarrow> live (conn (tcp_pump_fin send s))" by blast+
qed

lemma pump_send_view [simp]: "rview (conn (tcp_pump_send send s)) = rview (conn s)"
    "live (conn s) \<Longrightarrow> live (conn (tcp_pump_send send s))"
  by (simp_all add: tcp_pump_send_def Let_def)

lemma in_rst_view [simp]: "rview (conn (tcp_in_rst send g s)) = rview (conn s)"
    "live (conn s) \<Longrightarrow> live (conn (tcp_in_rst send g s))"
  by (simp_all add: tcp_in_rst_def Let_def)

lemma in_ack_view [simp]: "rview (tcp_in_ack g c) = rview c" "live (tcp_in_ack g c) = live c"
  by (simp_all add: rview_def live_def in_ack_facts)

lemma update_window_view [simp]: "rview (tcp_update_peer_window seg sq ack c) = rview c"
    "live (tcp_update_peer_window seg sq ack c) = live c"
  by (simp_all add: tcp_update_peer_window_def rview_def live_def)

lemma resend_view [simp]: "rview (conn (tcp_resend send s)) = rview (conn s)"
    "live (conn (tcp_resend send s)) = live (conn s)"
  by (simp_all add: tcp_resend_def Let_def rview_def live_def)

lemma poll_retransmit_view [simp]: "rview (conn (tcp_poll_retransmit send s)) = rview (conn s)"
    "live (conn s) \<Longrightarrow> live (conn (tcp_poll_retransmit send s))"
  by (simp_all add: tcp_poll_retransmit_def Let_def)

text \<open>The specification: S is everything the peer has to say, base the sequence number of its first
  byte, dlv what the application has read so far.\<close>

definition recv_inv :: "bytes \<Rightarrow> u32 \<Rightarrow> bytes \<Rightarrow> tcp_conn_t \<Rightarrow> bool" where
  "recv_inv S base dlv c \<longleftrightarrow>
     (let n = length dlv + length (recv_buf c) in
      n \<le> length S \<and> dlv @ recv_buf c = take n S \<and>
      rcv_nxt c = base + of_nat (if peer_fin_seen c then n + 1 else n) \<and>
      (peer_fin_seen c \<longrightarrow> n = length S))"

text \<open>A segment an honest peer may send at any time: any piece of its stream at its place, the FIN at
  the end of it.\<close>

definition honest :: "bytes \<Rightarrow> u32 \<Rightarrow> tcp_seg \<Rightarrow> bool" where
  "honest S base g \<longleftrightarrow> has g TCP_FLAG_RST \<or>
     (sg_data g = [] \<and> \<not> has g TCP_FLAG_FIN) \<or>
     (\<exists>off. off + length (sg_data g) \<le> length S \<and> sg_seq g = base + of_nat off \<and>
        sg_data g = slice off (length (sg_data g)) S \<and>
        (has g TCP_FLAG_FIN \<longrightarrow> off + length (sg_data g) = length S))"

lemma recv_inv_cong: "rview c = rview c' \<Longrightarrow> recv_inv S base dlv c = recv_inv S base dlv c'"
  by (simp add: recv_inv_def rview_def Let_def)

lemma sint_small: "- (2 ^ 31) \<le> x \<Longrightarrow> x < 2 ^ 31 \<Longrightarrow> sint (word_of_int x :: u32) = x"
  by (simp add: int_word_sint mod_pos_pos_trivial)

lemma of_nat_diff_small:
  fixes base :: u32
  assumes "a < 2 ^ 31" "b < 2 ^ 31"
  shows "b \<le> a \<Longrightarrow> unat (base + of_nat a - (base + of_nat b)) = a - b"
    "sint (base + of_nat a - (base + of_nat b)) = int a - int b"
    "base + of_nat a = base + of_nat b \<longleftrightarrow> a = b"
proof -
  have d: "base + of_nat a - (base + of_nat b) = word_of_int (int a - int b)" by simp
  show "sint (base + of_nat a - (base + of_nat b)) = int a - int b"
    unfolding d by (rule sint_small) (use assms in auto)
  show "unat (base + of_nat a - (base + of_nat b)) = a - b" if "b \<le> a"
  proof -
    have "base + of_nat a - (base + of_nat b) = (of_nat (a - b) :: u32)" using that by (simp add: of_nat_diff)
    moreover have "unat (of_nat (a - b) :: u32) = a - b" by (rule unat_of_nat_u32) (use assms in auto)
    ultimately show ?thesis by simp
  qed
  have "unat (of_nat a :: u32) = a" "unat (of_nat b :: u32) = b"
    by (rule unat_of_nat_u32; use assms in auto)+
  thus "base + of_nat a = base + of_nat b \<longleftrightarrow> a = b" by (metis add_left_cancel)
qed

lemma accept_data_inv:
  assumes inv: "recv_inv S base dlv c" and len: "length S < 2 ^ 31 - 1"
    and off: "off + length (sg_data g) \<le> length S" "sg_seq g = base + of_nat off"
      "sg_data g = slice off (length (sg_data g)) S"
  shows "recv_inv S base dlv (tcp_accept_data g c)"
proof -
  define n where "n = length dlv + length (recv_buf c)"
  define m where "m = (if peer_fin_seen c then n + 1 else n)"
  define d where "d = length (sg_data g)"
  have i: "n \<le> length S" "dlv @ recv_buf c = take n S" "rcv_nxt c = base + of_nat m"
    "peer_fin_seen c \<longrightarrow> n = length S"
    using inv by (simp_all add: recv_inv_def Let_def n_def m_def)
  have small: "m < 2 ^ 31" "off < 2 ^ 31" using i(1) len off(1) by (auto simp: m_def)
  let ?al = "rcv_nxt c - sg_seq g"
  have al: "sint ?al = int m - int off" "off \<le> m \<Longrightarrow> unat ?al = m - off"
    unfolding i(3) off(2) using of_nat_diff_small [OF small] by auto
  show ?thesis
  proof (cases "off \<le> m \<and> m - off < d \<and> d - (m - off) \<le> TCP_RECV_BUF_SIZE - length (recv_buf c)")
    case True
    have nofin: "\<not> peer_fin_seen c" using True i(4) off(1) by (auto simp: m_def d_def)
    hence mn: "m = n" by (simp add: m_def)
    have e: "sg_data g = take d (drop off S)" using off(3) by (simp add: d_def slice_def)
    have fresh: "drop (n - off) (sg_data g) = slice n (off + d - n) S"
      by (subst e) (use True mn in \<open>simp add: slice_def drop_take add.commute\<close>)
    have lf: "length (slice n (off + d - n) S) = off + d - n"
      by (rule length_slice) (use True mn off(1) in \<open>auto simp: d_def\<close>)
    have room: "off + d - n \<le> TCP_RECV_BUF_SIZE - length (recv_buf c)" using True mn by auto
    have c': "tcp_accept_data g c = c\<lparr>recv_buf := recv_buf c @ slice n (off + d - n) S,
        rcv_nxt := rcv_nxt c + of_nat (off + d - n)\<rparr>"
      using True mn al fresh off(1) lf room by (simp add: tcp_accept_data_def Let_def d_def)
    have nd: "n + (off + d - n) = off + d" using True mn by auto
    have "dlv @ recv_buf c @ slice n (off + d - n) S = take (off + d) S"
      using i(2) by (simp add: slice_def nd flip: append_assoc take_add)
    moreover have "length dlv + length (recv_buf c @ slice n (off + d - n) S) = off + d"
      using lf nd by (simp add: n_def)
    moreover have "rcv_nxt c + of_nat (off + d - n) = base + of_nat (off + d)"
      unfolding i(3) mn add.assoc of_nat_add [symmetric] nd by (rule refl)
    ultimately show ?thesis
      using off(1) nofin by (simp add: recv_inv_def Let_def c' d_def)
  next
    case False
    hence "tcp_accept_data g c = c"
      using al by (auto simp: tcp_accept_data_def Let_def d_def)
    thus ?thesis using inv by simp
  qed
qed

lemma accept_fin_inv:
  assumes inv: "recv_inv S base dlv c" and len: "length S < 2 ^ 31 - 1"
    and off: "off + length (sg_data g) = length S" "sg_seq g = base + of_nat off"
    and at: "sg_seq g + of_nat (length (sg_data g)) = rcv_nxt c"
  shows "recv_inv S base dlv (tcp_accept_fin g c)"
proof -
  define n where "n = length dlv + length (recv_buf c)"
  define m where "m = (if peer_fin_seen c then n + 1 else n)"
  have i: "n \<le> length S" "dlv @ recv_buf c = take n S" "rcv_nxt c = base + of_nat m"
    "peer_fin_seen c \<longrightarrow> n = length S"
    using inv by (simp_all add: recv_inv_def Let_def n_def m_def)
  have small: "m < 2 ^ 31" "length S < 2 ^ 31" using i(1) len by (auto simp: m_def)
  have e: "sg_seq g + of_nat (length (sg_data g)) = base + of_nat (length S)"
    using off by (simp flip: off(1))
  hence "m = length S" using at i(3) of_nat_diff_small(3) [OF small] by metis
  hence "n = length S" using i(4) by (auto simp: m_def split: if_splits)
  thus ?thesis using i(2) e by (simp add: recv_inv_def Let_def tcp_accept_fin_def n_def add.assoc)
qed

lemma take_tail_inv:
  assumes inv: "recv_inv S base dlv (conn s)" and len: "length S < 2 ^ 31 - 1"
    and off: "sg_data g \<noteq> [] \<Longrightarrow> \<exists>off. off + length (sg_data g) \<le> length S \<and> sg_seq g = base + of_nat off \<and>
      sg_data g = slice off (length (sg_data g)) S"
  shows "recv_inv S base dlv (conn (tcp_take_tail send g s))"
proof (cases "sg_data g \<noteq> [] \<and> sg_seq g = rcv_nxt (conn s)")
  case True
  then obtain off where o: "off + length (sg_data g) \<le> length S" "sg_seq g = base + of_nat off"
      "sg_data g = slice off (length (sg_data g)) S" using off by blast
  have "conn (tcp_take_tail send g s) = tcp_accept_data g (conn s)"
    using True by (simp add: tcp_take_tail_def tcp_accept_data_def Let_def)
  thus ?thesis using accept_data_inv [OF inv len o] by simp
qed (use inv in \<open>auto simp: tcp_take_tail_def\<close>)


lemma honest_data:
  "honest S base g \<Longrightarrow> \<not> has g TCP_FLAG_RST \<Longrightarrow> sg_data g \<noteq> [] \<Longrightarrow>
   \<exists>off. off + length (sg_data g) \<le> length S \<and> sg_seq g = base + of_nat off \<and>
      sg_data g = slice off (length (sg_data g)) S"
  by (auto simp: honest_def)

lemma honest_fin:
  "honest S base g \<Longrightarrow> \<not> has g TCP_FLAG_RST \<Longrightarrow> has g TCP_FLAG_FIN \<Longrightarrow>
   \<exists>off. off + length (sg_data g) = length S \<and> sg_seq g = base + of_nat off"
  by (auto simp: honest_def)

lemma accept_fin_inv':
  assumes "recv_inv S base dlv c" "length S < 2 ^ 31 - 1" "honest S base g" "\<not> has g TCP_FLAG_RST"
    "has g TCP_FLAG_FIN" "sg_seq g + of_nat (length (sg_data g)) = rcv_nxt c"
  shows "recv_inv S base dlv (tcp_accept_fin g c)"
  using honest_fin [OF assms(3-5)] accept_fin_inv [OF assms(1,2) _ _ assms(6)] by blast

lemma accept_data_inv':
  assumes "recv_inv S base dlv c" "length S < 2 ^ 31 - 1" "honest S base g" "\<not> has g TCP_FLAG_RST"
    "sg_data g \<noteq> []"
  shows "recv_inv S base dlv (tcp_accept_data g c)"
  using honest_data [OF assms(3-5)] accept_data_inv [OF assms(1,2)] by blast

lemma take_tail_inv':
  assumes "recv_inv S base dlv (conn s)" "length S < 2 ^ 31 - 1" "honest S base g" "\<not> has g TCP_FLAG_RST"
  shows "recv_inv S base dlv (conn (tcp_take_tail send g s))"
  using honest_data [OF assms(3,4)] take_tail_inv [OF assms(1,2)] by blast

lemma recv_inv_state [simp]: "recv_inv S base dlv (c\<lparr>tcp_state := st\<rparr>) = recv_inv S base dlv c"
  by (rule recv_inv_cong) (simp add: rview_def)

lemma live_accept [simp]: "live (tcp_accept_data g c) = live c" "live (tcp_accept_fin g c) = live c"
    "live (conn (tcp_take_tail send g s)) = live (conn s)"
  by (simp_all add: live_def tcp_accept_data_def tcp_accept_fin_def tcp_take_tail_def Let_def)

lemma in_established_inv:
  assumes "recv_inv S base dlv (conn s)" "length S < 2 ^ 31 - 1" "honest S base g" "\<not> has g TCP_FLAG_RST"
    "live (conn s)"
  shows "recv_inv S base dlv (conn (tcp_in_established send g s)) \<and> live (conn (tcp_in_established send g s))"
proof -
  define s1 where "s1 = (if has g TCP_FLAG_ACK
      then upd (tcp_update_peer_window (sg_bytes g) (sg_seq g) (sg_ack g)) s else s)"
  define s2 where "s2 = (if sg_data g \<noteq> [] then send_ack send (upd (tcp_accept_data g) s1) else s1)"
  define s3 where "s3 = (if has g TCP_FLAG_FIN \<and> sg_seq g + of_nat (length (sg_data g)) = rcv_nxt (conn s2)
     then send_ack send (upd (tcp_accept_fin g) s2)
     else if has g TCP_FLAG_FIN \<and> sg_seq g + of_nat (length (sg_data g)) + 1 = rcv_nxt (conn s2) then send_ack send s2 else s2)"
  have e: "tcp_in_established send g s = tcp_pump_send send s3"
    unfolding tcp_in_established_def Let_def s1_def s2_def s3_def by (rule refl)
  have v: "rview (conn s1) = rview (conn s)" "live (conn s1)" using assms(5) by (simp_all add: s1_def)
  have i1: "recv_inv S base dlv (conn s1)" using recv_inv_cong [OF v(1)] assms(1) by simp
  have i2: "recv_inv S base dlv (conn s2)" "live (conn s2)"
    using accept_data_inv' [OF i1 assms(2-4)] i1 v(2) by (simp_all add: s2_def)
  have i3: "recv_inv S base dlv (conn s3)" "live (conn s3)"
    using accept_fin_inv' [OF i2(1) assms(2-4)] i2 by (simp_all add: s3_def)
  show ?thesis
    unfolding e using recv_inv_cong [OF pump_send_view(1)] i3 by simp
qed

lemma in_fin_wait_inv:
  assumes "recv_inv S base dlv (conn s)" "length S < 2 ^ 31 - 1" "honest S base g" "\<not> has g TCP_FLAG_RST"
    "live (conn s)"
  shows "recv_inv S base dlv (conn (tcp_in_fin_wait_1 send g s)) \<and> live (conn (tcp_in_fin_wait_1 send g s))"
    "recv_inv S base dlv (conn (tcp_in_fin_wait_2 send g s)) \<and> live (conn (tcp_in_fin_wait_2 send g s))"
proof -
  have l: "live (c\<lparr>tcp_state := TCP_CLOSED\<rparr>)" "live (c\<lparr>tcp_state := TCP_FIN_WAIT_2\<rparr>)" for c
    by (simp_all add: live_def)
  define s1 where "s1 = (if has g TCP_FLAG_ACK \<and> sg_ack g = snd_nxt (conn s)
     then upd (\<lambda>c. c\<lparr>tcp_state := (if peer_fin_seen c then TCP_CLOSED else TCP_FIN_WAIT_2)\<rparr>) s else s)"
  have i1: "recv_inv S base dlv (conn s1)" "live (conn s1)" using assms(1,5) by (simp_all add: s1_def l)
  define s2 where "s2 = tcp_take_tail send g s1"
  have i2: "recv_inv S base dlv (conn s2)" "live (conn s2)"
    using take_tail_inv' [OF i1(1) assms(2-4), of send] i1(2) by (simp_all add: s2_def)
  have e: "tcp_in_fin_wait_1 send g s =
     (if has g TCP_FLAG_FIN \<and> sg_seq g + of_nat (length (sg_data g)) = rcv_nxt (conn s2) then
       (if tcp_state (conn (send_ack send (upd (tcp_accept_fin g) s2))) = TCP_FIN_WAIT_2
        then upd (\<lambda>c. c\<lparr>tcp_state := TCP_CLOSED\<rparr>) (send_ack send (upd (tcp_accept_fin g) s2))
        else send_ack send (upd (tcp_accept_fin g) s2)) else s2)"
    unfolding tcp_in_fin_wait_1_def Let_def s1_def s2_def by (rule refl)
  show "recv_inv S base dlv (conn (tcp_in_fin_wait_1 send g s)) \<and> live (conn (tcp_in_fin_wait_1 send g s))"
    unfolding e using accept_fin_inv' [OF i2(1) assms(2-4)] i2 by (simp add: l)
  define t where "t = tcp_take_tail send g s"
  have it: "recv_inv S base dlv (conn t)" "live (conn t)"
    using take_tail_inv' [OF assms(1-4), of send] assms(5) by (simp_all add: t_def)
  show "recv_inv S base dlv (conn (tcp_in_fin_wait_2 send g s)) \<and> live (conn (tcp_in_fin_wait_2 send g s))"
    using accept_fin_inv' [OF it(1) assms(2-4)] it by (simp add: tcp_in_fin_wait_2_def Let_def t_def [symmetric] l)
qed

lemma dispatch_inv:
  assumes "recv_inv S base dlv (conn s)" "length S < 2 ^ 31 - 1" "honest S base g" "live (conn s)"
  shows "recv_inv S base dlv (conn (tcp_dispatch send g s)) \<and> live (conn (tcp_dispatch send g s))"
proof (cases "has g TCP_FLAG_RST")
  case True
  thus ?thesis using assms recv_inv_cong [OF in_rst_view(1)] by (simp add: tcp_dispatch_def)
next
  case False
  let ?s = "upd (tcp_in_ack g) s"
  have i: "recv_inv S base dlv (conn ?s)" "live (conn ?s)"
    using assms(1,4) recv_inv_cong [OF in_ack_view(1)] by simp_all
  have "tcp_state (conn ?s) \<noteq> TCP_SYN_SENT" using i(2) by (simp add: live_def)
  thus ?thesis
    using False i in_established_inv [OF i(1) assms(2,3) False i(2), of send]
      in_fin_wait_inv [OF i(1) assms(2,3) False i(2), of send]
    by (simp add: tcp_dispatch_def Let_def split: tcp_state_t.split)
qed

subsection \<open>Runs of a connection\<close>

text \<open>Everything that can happen to an established connection: an IP packet arrives, the application
  reads, queues or closes, or the main loop polls at a later tick and wall-clock second.\<close>

datatype tcp_event = Packet ip_packet_t | Read nat | Queue bytes | Close | Poll u32 u32

definition tcp_step :: "sender \<Rightarrow> tcp_event \<Rightarrow> bytes \<times> tcp \<Rightarrow> bytes \<times> tcp" where
  "tcp_step send e = (\<lambda>(dlv, s). case e of
     Packet ip \<Rightarrow> (dlv, tcp_handle_packet send ip s)
   | Read n \<Rightarrow> (let (d, s) = tcp_poll_recv send n s in (dlv @ d, s))
   | Queue d \<Rightarrow> (dlv, snd (tcp_send_data send d s))
   | Close \<Rightarrow> (dlv, tcp_close send s)
   | Poll t w \<Rightarrow> (dlv, tcp_poll_retransmit send (s\<lparr>nt := (nt s)\<lparr>net_ticks := t\<rparr>, wall := w\<rparr>)))"

definition tcp_run :: "sender \<Rightarrow> tcp_event list \<Rightarrow> bytes \<times> tcp \<Rightarrow> bytes \<times> tcp" where
  "tcp_run send es st = fold (tcp_step send) es st"

definition honest_event :: "bytes \<Rightarrow> u32 \<Rightarrow> tcp_event \<Rightarrow> bool" where
  "honest_event S base e = (case e of
     Packet ip \<Rightarrow> (case tcp_parse_seg (ip_payload ip) of Some g \<Rightarrow> honest S base g | None \<Rightarrow> True)
   | _ \<Rightarrow> True)"

lemma handle_packet_inv:
  assumes "recv_inv S base dlv (conn s)" "length S < 2 ^ 31 - 1" "honest_event S base (Packet ip)" "live (conn s)"
  shows "recv_inv S base dlv (conn (tcp_handle_packet send ip s)) \<and> live (conn (tcp_handle_packet send ip s))"
  using assms dispatch_inv [OF assms(1,2) _ assms(4), of _ send]
  by (auto simp: tcp_handle_packet_def honest_event_def Let_def split: option.splits)

lemma poll_recv_inv:
  assumes "recv_inv S base dlv (conn s)" "live (conn s)"
  shows "recv_inv S base (dlv @ fst (tcp_poll_recv send n s)) (conn (snd (tcp_poll_recv send n s)))
    \<and> live (conn (snd (tcp_poll_recv send n s)))"
proof -
  let ?k = "if length (recv_buf (conn s)) < n then length (recv_buf (conn s)) else n"
  have e: "conn (snd (tcp_poll_recv send n s)) = (conn s)\<lparr>recv_buf := drop ?k (recv_buf (conn s))\<rparr>"
    "fst (tcp_poll_recv send n s) = take ?k (recv_buf (conn s))"
    by (simp_all add: tcp_poll_recv_def Let_def)
  have "length (dlv @ take ?k (recv_buf (conn s))) + length (drop ?k (recv_buf (conn s))) =
      length dlv + length (recv_buf (conn s))" by simp
  moreover have "(dlv @ take ?k (recv_buf (conn s))) @ drop ?k (recv_buf (conn s)) = dlv @ recv_buf (conn s)"
    by (simp del: append_take_drop_id add: append_take_drop_id)
  ultimately show ?thesis
    using assms unfolding e recv_inv_def Let_def live_def by (simp del: append_assoc)
qed

lemma step_inv:
  assumes "recv_inv S base dlv (conn s)" "length S < 2 ^ 31 - 1" "honest_event S base e" "live (conn s)"
    "tcp_step send e (dlv, s) = (dlv', s')"
  shows "recv_inv S base dlv' (conn s') \<and> live (conn s')"
proof (cases e)
  case (Packet ip)
  thus ?thesis using assms handle_packet_inv [OF assms(1,2) _ assms(4)] by (auto simp: tcp_step_def)
next
  case (Read n)
  thus ?thesis using assms poll_recv_inv [OF assms(1,4), of send n]
    by (auto simp: tcp_step_def split_beta Let_def)
next
  case (Queue d)
  have v: "rview (conn (snd (tcp_send_data send d s))) = rview (conn s)" "live (conn (snd (tcp_send_data send d s)))"
    using assms(4) pump_send_view [where send = send and s = "upd (\<lambda>c. c\<lparr>send_buf := send_buf c @ d\<rparr>) s"]
    by (simp_all add: tcp_send_data_def rview_def live_def)
  thus ?thesis using assms Queue recv_inv_cong [OF v(1)] by (auto simp: tcp_step_def)
next
  case Close
  have v: "rview (conn (tcp_close send s)) = rview (conn s)" "live (conn (tcp_close send s))"
    using assms(4) pump_send_view [where send = send and s = "upd (\<lambda>c. c\<lparr>fin_pending := True\<rparr>) s"]
    by (simp_all add: tcp_close_def rview_def live_def)
  thus ?thesis using assms Close recv_inv_cong [OF v(1)] by (auto simp: tcp_step_def)
next
  case (Poll t w)
  let ?s = "s\<lparr>nt := (nt s)\<lparr>net_ticks := t\<rparr>, wall := w\<rparr>"
  have v: "rview (conn (tcp_poll_retransmit send ?s)) = rview (conn s)" "live (conn (tcp_poll_retransmit send ?s))"
    using assms(4) by simp_all
  thus ?thesis using assms Poll recv_inv_cong [OF v(1)] by (auto simp: tcp_step_def)
qed

lemma run_inv:
  assumes "recv_inv S base dlv (conn s)" "length S < 2 ^ 31 - 1" "\<forall>e\<in>set es. honest_event S base e" "live (conn s)"
    "tcp_run send es (dlv, s) = (dlv', s')"
  shows "recv_inv S base dlv' (conn s') \<and> live (conn s')"
  using assms
proof (induction es arbitrary: dlv s)
  case (Cons e es)
  obtain d1 s1 where st: "tcp_step send e (dlv, s) = (d1, s1)" by fastforce
  have "recv_inv S base d1 (conn s1) \<and> live (conn s1)"
    using step_inv [OF Cons.prems(1,2) _ Cons.prems(4) st] Cons.prems(3) by simp
  thus ?case using Cons.IH [of d1 s1] Cons.prems st by (simp add: tcp_run_def)
qed (auto simp: tcp_run_def)

lemma step_ok: "tcp_ok (conn s) \<Longrightarrow> tcp_ok (conn (snd (tcp_step send e (dlv, s))))"
proof (cases e)
  case (Poll t w)
  assume "tcp_ok (conn s)"
  hence "tcp_ok (conn (s\<lparr>nt := (nt s)\<lparr>net_ticks := t\<rparr>, wall := w\<rparr>))" by simp
  from poll_retransmit_ok [OF this] show ?thesis by (simp add: Poll tcp_step_def)
qed (simp_all add: tcp_step_def split_beta Let_def handle_packet_ok poll_recv_ok send_data_ok close_ok)

lemma run_ok: "tcp_ok (conn (snd st)) \<Longrightarrow> tcp_ok (conn (snd (tcp_run send es st)))"
proof (induction es arbitrary: st)
  case (Cons e es)
  have "tcp_ok (conn (snd (tcp_step send e st)))" using step_ok [of "snd st" send e "fst st"] Cons.prems by simp
  thus ?case using Cons.IH by (simp add: tcp_run_def)
qed (simp add: tcp_run_def)

lemma dispatch_rst:
  assumes "has g TCP_FLAG_RST" "conn (tcp_dispatch send g s) \<noteq> conn s"
  shows "if tcp_state (conn s) = TCP_SYN_SENT then has g TCP_FLAG_ACK \<and> sg_ack g = snd_nxt (conn s)
         else sg_seq g = rcv_nxt (conn s)"
  using assms by (auto simp: tcp_dispatch_def tcp_in_rst_def Let_def split: if_splits)

subsection \<open>Silence ends a connection\<close>

text \<open>Polls at least TCP_RETRANSMIT_TICKS apart, the first that long after the given tick.\<close>

fun spaced :: "u32 \<Rightarrow> (u32 \<times> u32) list \<Rightarrow> bool" where
  "spaced t [] = True"
| "spaced t ((t', w) # ps) = (t' - t \<ge> TCP_RETRANSMIT_TICKS \<and> spaced t' ps)"

definition polls :: "(u32 \<times> u32) list \<Rightarrow> tcp_event list" where
  "polls ps = List.map (\<lambda>(t, w). Poll t w) ps"

lemma pump_idle:
  "retx_pending (conn s) \<Longrightarrow> tcp_pump_send send s = s"
  "tcp_state (conn s) \<noteq> TCP_ESTABLISHED \<Longrightarrow> tcp_pump_send send s = s"
  by (simp_all add: tcp_pump_send_def Let_def)

lemma closed_stays: "tcp_state (conn s) = TCP_CLOSED \<Longrightarrow> \<not> retx_pending (conn s) \<Longrightarrow>
   tcp_state (conn (snd (tcp_run send (polls ps) (dlv, s)))) = TCP_CLOSED"
  by (induction ps arbitrary: s)
    (auto simp: polls_def tcp_run_def tcp_step_def tcp_poll_retransmit_def Let_def pump_idle)

context datagram_layer begin

lemma send_segment_ticks: "net_ticks (nt (snd (tcp_send_segment send fl d s))) = net_ticks (nt s)"
  by (simp add: tcp_send_segment_def Let_def split_beta send_ticks)

lemma resend_facts:
  "retx_tick_sent (conn (tcp_resend send s)) = net_ticks (nt s)"
  "retx_count (conn (tcp_resend send s)) = retx_count (conn s) + 1"
  "retx_pending (conn (tcp_resend send s)) = retx_pending (conn s)"
  by (simp_all add: tcp_resend_def Let_def send_segment_ticks)

lemma silence_closes:
  assumes "retx_pending (conn s)" "spaced (retx_tick_sent (conn s)) ps"
    "length ps + retx_count (conn s) > TCP_MAX_RETRIES"
    "retx_count (conn s) \<le> TCP_MAX_RETRIES"
  shows "tcp_state (conn (snd (tcp_run send (polls ps) (dlv, s)))) = TCP_CLOSED"
  using assms
proof (induction ps arbitrary: s)
  case (Cons p ps)
  obtain t w where p: "p = (t, w)" by fastforce
  let ?s = "s\<lparr>nt := (nt s)\<lparr>net_ticks := t\<rparr>, wall := w\<rparr>"
  have late: "\<not> t - retx_tick_sent (conn s) < TCP_RETRANSMIT_TICKS" using Cons.prems(2) by (auto simp: p not_less)
  have pend: "retx_pending (conn ?s)" using Cons.prems(1) by simp
  have step: "tcp_run send (polls (p # ps)) (dlv, s) =
      tcp_run send (polls ps) (dlv, tcp_poll_retransmit send ?s)"
    by (simp add: polls_def p tcp_run_def tcp_step_def)
  show ?case
  proof (cases "retx_count (conn s) \<ge> TCP_MAX_RETRIES")
    case True
    hence e: "tcp_poll_retransmit send ?s = tcp_give_up ?s"
      using late pend by (simp add: tcp_poll_retransmit_def pump_idle)
    show ?thesis unfolding step e
      by (rule closed_stays) (simp_all add: tcp_give_up_def tcp_clear_retransmit_def)
  next
    case False
    hence e: "tcp_poll_retransmit send ?s = tcp_resend send ?s"
      using late pend by (simp add: tcp_poll_retransmit_def pump_idle)
    show ?thesis unfolding step e
      by (rule Cons.IH) (use Cons.prems False in \<open>simp_all add: resend_facts p\<close>)
  qed
qed simp

end

interpretation ip_layer: datagram_layer "ip_send drv" for drv
  by unfold_locales (simp_all add: ip_send_keeps ip_send_wf)

subsection \<open>A segment as its receiver sees it\<close>

lemma length_tcp_seg_pre [simp]: "length (tcp_seg_pre c fl) = 16"
  by (simp add: tcp_seg_pre_def Let_def)

lemma length_tcp_seg_post: "length (tcp_seg_post fl d) = (if fl AND TCP_FLAG_SYN \<noteq> 0 then 6 else 2) + length d"
  by (simp add: tcp_seg_post_def)

definition tcp_packet :: "u32 \<Rightarrow> u32 \<Rightarrow> bytes \<Rightarrow> ip_packet_t" where
  "tcp_packet src dst p = \<lparr>ip_version_ihl = 0x45, ip_proto = IP_PROTO_TCP,
     ip_total_len = of_nat (20 + length p), ip_src_ip = src, ip_dst_ip = dst, ip_payload = p\<rparr>"

lemma tcp_segment_checksum:
  assumes "length d \<le> 1200"
  shows "tcp_checksum_ok (tcp_packet me (remote_ip c) (tcp_segment c me fl d))"
proof -
  define pre where "pre = tcp_seg_pre c fl"
  define post where "post = tcp_seg_post fl d"
  have l: "length pre = 16" "length post \<le> 1206" using assms by (simp_all add: pre_def post_def length_tcp_seg_post)
  define n where "n = 18 + length post"
  define s0 where "s0 = net_checksum_add 0 (tcp_pseudo me (remote_ip c) n)"
  have s0: "unat s0 \<le> 65536 * 6"
  proof -
    have "length (tcp_pseudo me (remote_ip c) n) \<le> 12" by (simp add: tcp_pseudo_def)
    hence "(length (tcp_pseudo me (remote_ip c) n) + 1) div 2 \<le> 6" by linarith
    hence b: "words_sum (tcp_pseudo me (remote_ip c) n) \<le> 65535 * 6"
      using words_sum_bound [of "tcp_pseudo me (remote_ip c) n"] by linarith
    thus ?thesis unfolding s0_def by (subst unat_checksum_add) simp_all
  qed
  define cs where "cs = net_checksum_finish (net_checksum_add s0 (pre @ [0, 0] @ post))"
  have seg: "tcp_segment c me fl d = pre @ net_put16_be cs @ post"
    by (simp add: tcp_segment_def Let_def cs_def s0_def n_def pre_def post_def put16_zero)
  have "cs \<noteq> 0 \<or> words_sum (pre @ [0, 0] @ post) \<noteq> 0"
  proof (rule ccontr)
    assume a: "\<not> ?thesis"
    have "words_sum (pre @ [0, 0] @ post) = words_sum pre + words_sum ([0, 0] @ post)"
      by (rule words_sum_append) (simp add: l)
    moreover have "words_sum pre \<noteq> 0"
      by (simp add: pre_def tcp_seg_pre_def Let_def words_sum_append words_sum_put16 net_put32_be_def
          TCP_SYN_HDR_LEN_def TCP_HDR_LEN_MIN_def unat_eq_zero)
    ultimately show False using a by simp
  qed
  hence "net_checksum_finish (net_checksum_add s0 (pre @ net_put16_be cs @ post)) = 0"
    by (intro checksum_verifies) (use l s0 in \<open>simp_all add: cs_def\<close>)
  thus ?thesis
    by (simp add: tcp_checksum_ok_def tcp_packet_def seg s0_def n_def l)
qed

lemma tcp_segment_bytes:
  obtains cs where "tcp_segment c me fl d = tcp_seg_pre c fl @ net_put16_be cs @ tcp_seg_post fl d"
  by (auto simp: tcp_segment_def Let_def)

lemma tcp_segment_parses:
  assumes "fl AND TCP_FLAG_ACK \<noteq> 0"
  shows "\<exists>g. tcp_parse_seg (tcp_segment c me fl d) = Some g \<and> sg_seq g = snd_nxt c \<and> sg_ack g = rcv_nxt c \<and>
     sg_flags g = fl \<and> sg_data g = d \<and>
     net_get16_be (tcp_segment c me fl d) 0 = local_port c \<and>
     net_get16_be (tcp_segment c me fl d) 2 = remote_port c \<and>
     unat (net_get16_be (tcp_segment c me fl d) 14) = tcp_recv_window c"
proof -
  define h where "h = (if fl AND TCP_FLAG_SYN \<noteq> 0 then TCP_SYN_HDR_LEN else TCP_HDR_LEN_MIN)"
  obtain cs where "tcp_segment c me fl d = tcp_seg_pre c fl @ net_put16_be cs @ tcp_seg_post fl d"
    by (rule tcp_segment_bytes)
  then obtain seg where seg: "tcp_segment c me fl d = seg" "seg = tcp_seg_pre c fl @ net_put16_be cs @ tcp_seg_post fl d"
    by blast
  note e = seg(2) tcp_seg_pre_def Let_def net_put16_be_def net_put32_be_def
  have hv: "unat (drop_bit 4 (push_bit 4 (of_nat (h div 4)) :: u8)) * 4 = h" "h = 24 \<or> h = 20"
    by (simp_all add: h_def TCP_SYN_HDR_LEN_def TCP_HDR_LEN_MIN_def)
  have b12: "seg ! 12 = push_bit 4 (of_nat (h div 4))" "seg ! 13 = fl"
    unfolding e by (simp_all add: h_def)
  have dr: "drop h seg = d" "h \<le> length seg"
    unfolding seg(2) h_def by (simp_all add: TCP_SYN_HDR_LEN_def TCP_HDR_LEN_MIN_def tcp_seg_post_def length_tcp_seg_post)
  have g4: "net_get32_be seg 4 = snd_nxt c" unfolding e net_get32_be_def using word32_split [of "snd_nxt c"] by simp
  have g8: "net_get32_be seg 8 = rcv_nxt c" unfolding e net_get32_be_def using word32_split [of "rcv_nxt c"] assms by simp
  have g0: "net_get16_be seg 0 = local_port c" unfolding e net_get16_be_def using word16_split [of "local_port c"] by simp
  have g2: "net_get16_be seg 2 = remote_port c" unfolding e net_get16_be_def using word16_split [of "remote_port c"] by simp
  have g14: "net_get16_be seg 14 = of_nat (tcp_recv_window c)"
    unfolding e net_get16_be_def using word16_split [of "of_nat (tcp_recv_window c)"] by simp
  have w: "tcp_recv_window c < 65536" by (simp add: tcp_recv_window_def TCP_ADV_WINDOW_MAX_def TCP_RECV_BUF_SIZE_def Let_def)
  have "unat (net_get16_be seg 14) = tcp_recv_window c" unfolding g14 by (rule unat_of_nat_u16 [OF w])
  moreover have "tcp_parse_seg seg = Some \<lparr>sg_bytes = seg, sg_seq = net_get32_be seg 4, sg_ack = net_get32_be seg 8,
                 sg_flags = seg ! 13, sg_hdr_len = h, sg_data = drop h seg\<rparr>"
    using hv dr(2) by (auto simp: tcp_parse_seg_def b12 TCP_HDR_LEN_MIN_def)
  ultimately show ?thesis
    unfolding seg(1) using g4 g8 g0 g2 b12(2) dr(1) by simp
qed

subsection \<open>Properties\<close>

text \<open>Claim C1. The application reads exactly what the peer sent, in order: from an established
  connection, whatever the order, loss and repetition of honest segments, resets included, and
  whatever the application reads, queues, closes and polls in between, the bytes read
  followed by the bytes buffered are a prefix of the peer's stream, and all of it once the
  FIN has been accepted.\<close>

theorem tcp_receives_in_order:
  assumes "tcp_state (conn s) = TCP_ESTABLISHED" "recv_buf (conn s) = []" "rcv_nxt (conn s) = base"
    "\<not> peer_fin_seen (conn s)" "length S < 2 ^ 31 - 1" "\<forall>e\<in>set es. honest_event S base e"
    "tcp_run send es ([], s) = (dlv, s')"
  shows "dlv @ recv_buf (conn s') = take (length dlv + length (recv_buf (conn s'))) S \<and>
    (peer_fin_seen (conn s') \<longrightarrow> dlv @ recv_buf (conn s') = S)"
proof -
  have "recv_inv S base [] (conn s)" "live (conn s)"
    using assms(1-4) by (simp_all add: recv_inv_def live_def Let_def)
  hence "recv_inv S base dlv (conn s')" using run_inv [OF _ assms(5,6) _ assms(7)] by blast
  thus ?thesis by (auto simp: recv_inv_def Let_def)
qed

text \<open>Claim C3. Whatever arrives and whatever the application does, after any connect the connection keeps
  its invariant: the send queue within 20480 bytes, the receive buffer within 32768, at most one
  segment in flight, which is the front of the queue and of at most 1200 bytes, with the
  sequence numbers covering exactly it, nothing queued once the FIN is out, and the state
  TCP_TIME_WAIT never entered.\<close>

theorem tcp_invariant:
  "tcp_ok (conn (snd (tcp_run send es (dlv, tcp_connect send ip port s))))"
  by (rule run_ok) (simp add: connect_ok)

text \<open>Claim C5. A reset changes the connection only when it proves it comes from the peer: during the
  handshake it must acknowledge exactly our SYN, afterwards its sequence number must be
  exactly the next one expected; any other reset leaves every field as it was.\<close>

theorem tcp_reset_only_exact:
  assumes "has g TCP_FLAG_RST"
    and "if tcp_state (conn s) = TCP_SYN_SENT then \<not> (has g TCP_FLAG_ACK \<and> sg_ack g = snd_nxt (conn s))
         else sg_seq g \<noteq> rcv_nxt (conn s)"
  shows "conn (tcp_dispatch send g s) = conn s"
  using dispatch_rst [OF assms(1), of send s] assms(2) by (auto split: if_splits)

text \<open>Claim C6. A silent peer cannot hang a connection: once a segment is in flight and nothing arrives,
  polls of the main loop at least 800 ticks apart close the connection after the remaining
  retries, sending through ip_send.\<close>

theorem tcp_silence_closes:
  assumes "retx_pending (conn s)" "spaced (retx_tick_sent (conn s)) ps"
    "length ps + retx_count (conn s) > TCP_MAX_RETRIES" "retx_count (conn s) \<le> TCP_MAX_RETRIES"
  shows "tcp_state (conn (snd (tcp_run (ip_send drv) (polls ps) (dlv, s)))) = TCP_CLOSED"
  using assms by (rule ip_layer.silence_closes)

text \<open>Every segment TCP builds with an ACK passes the receiver's checksum and parses back to the
  connection's ports, sequence and acknowledgement numbers, the flags and the data, and advertises
  exactly the room of the receive buffer, capped at 20480.\<close>

theorem tcp_segment_roundtrip:
  assumes "length d \<le> 1200" "fl AND TCP_FLAG_ACK \<noteq> 0"
  shows "tcp_checksum_ok (tcp_packet me (remote_ip c) (tcp_segment c me fl d)) \<and>
    (\<exists>g. tcp_parse_seg (tcp_segment c me fl d) = Some g \<and> sg_seq g = snd_nxt c \<and> sg_ack g = rcv_nxt c \<and>
     sg_flags g = fl \<and> sg_data g = d \<and>
     net_get16_be (tcp_segment c me fl d) 0 = local_port c \<and>
     net_get16_be (tcp_segment c me fl d) 2 = remote_port c \<and>
     unat (net_get16_be (tcp_segment c me fl d) 14) = tcp_recv_window c)"
  using tcp_segment_checksum [OF assms(1)] tcp_segment_parses [OF assms(2)] by blast

text \<open>A bare ACK loses the handshake: in SYN_SENT a segment without SYN or RST whose ACK number is
  the expected one empties the retransmit slot but does not complete the connection, and from then
  on no poll ever sends the SYN again or leaves SYN_SENT.\<close>

theorem tcp_bare_ack_strands_syn:
  assumes "tcp_state (conn s) = TCP_SYN_SENT" "retx_pending (conn s)" "has g TCP_FLAG_ACK"
    "\<not> has g TCP_FLAG_SYN" "\<not> has g TCP_FLAG_RST" "sg_ack g = snd_nxt (conn s)"
  shows "let s1 = tcp_dispatch send g s; s2 = snd (tcp_run send (polls ps) (dlv, s1)) in
    tcp_state (conn s2) = TCP_SYN_SENT \<and> \<not> retx_pending (conn s2) \<and> tx_tries (nt s2) = tx_tries (nt s)"
proof -
  let ?s1 = "upd (tcp_in_ack g) s"
  have d: "tcp_dispatch send g s = ?s1"
    using assms by (simp add: tcp_dispatch_def Let_def in_ack_facts tcp_in_syn_sent_def)
  have idle: "tcp_state (conn t) = TCP_SYN_SENT \<Longrightarrow> \<not> retx_pending (conn t) \<Longrightarrow>
      tcp_state (conn (snd (tcp_run send (polls ps) (dlv, t)))) = TCP_SYN_SENT \<and>
      \<not> retx_pending (conn (snd (tcp_run send (polls ps) (dlv, t)))) \<and>
      tx_tries (nt (snd (tcp_run send (polls ps) (dlv, t)))) = tx_tries (nt t)" for t
  proof (induction ps arbitrary: t)
    case (Cons p ps)
    obtain tk w where p: "p = (tk, w)" by fastforce
    let ?t = "t\<lparr>nt := (nt t)\<lparr>net_ticks := tk\<rparr>, wall := w\<rparr>"
    have "tcp_poll_retransmit send ?t = ?t"
      using Cons.prems by (simp add: tcp_poll_retransmit_def pump_idle)
    hence "tcp_run send (polls (p # ps)) (dlv, t) = tcp_run send (polls ps) (dlv, ?t)"
      by (simp add: polls_def p tcp_run_def tcp_step_def)
    thus ?case using Cons.IH [of ?t] Cons.prems by simp
  qed (simp add: polls_def tcp_run_def)
  show ?thesis unfolding d Let_def using idle [of ?s1] assms by (simp add: in_ack_facts)
qed

definition demo_conn :: tcp_conn_t where
  "demo_conn = \<lparr>tcp_state = TCP_ESTABLISHED, remote_ip = 0x08080808, remote_port = 80, local_port = 49152,
     snd_una = 100, snd_nxt = 103, rcv_nxt = 500, peer_mss = 536, send_buf = [1, 2, 3], fin_pending = False,
     retx_len = 3, retx_flags = 0x18, retx_pending = True, retx_tick_sent = 7, retx_count = 4,
     tx_fail_count = 0, tx_next_tick = 0, tx_first_fail_wall = 0, peer_wnd = 1000, wl1 = 0, wl2 = 0,
     wl_valid = True, zero_wnd_active = False, zero_wnd_first_wall = 0, zero_wnd_probe_wall = 0,
     recv_buf = [], peer_fin_seen = False\<rparr>"

definition demo_tcp :: tcp where
  "demo_tcp = \<lparr>conn = demo_conn, nt = demo_net, tcp_next_port = 49153, wall = 0\<rparr>"

definition demo_rst :: tcp_seg where
  "demo_rst = \<lparr>sg_bytes = [], sg_seq = 501, sg_ack = 0, sg_flags = 4, sg_hdr_len = 20, sg_data = []\<rparr>"

theorem tcp_receives_in_order_witness:
  "let (dlv, s') = tcp_run (ip_send (\<lambda>_ _. True))
     [Packet (tcp_packet 0x08080808 0x0A00020F
        (tcp_segment (demo_conn\<lparr>local_port := 80, remote_port := 49152, remote_ip := 0x0A00020F,
           snd_nxt := 500, rcv_nxt := 103\<rparr>) 0x08080808 TCP_FLAG_ACK [104, 105])), Read 100] ([], demo_tcp)
   in dlv @ recv_buf (conn s') = take (length dlv + length (recv_buf (conn s'))) [104, 105]"
proof -
  let ?c = "demo_conn\<lparr>local_port := 80, remote_port := 49152, remote_ip := 0x0A00020F, snd_nxt := 500, rcv_nxt := 103\<rparr>"
  let ?seg = "tcp_segment ?c 0x08080808 TCP_FLAG_ACK [104, 105]"
  let ?es = "[Packet (tcp_packet 0x08080808 0x0A00020F ?seg), Read 100]"
  obtain g where g: "tcp_parse_seg ?seg = Some g" "sg_seq g = 500" "sg_flags g = TCP_FLAG_ACK" "sg_data g = [104, 105]"
    using tcp_segment_parses [of TCP_FLAG_ACK ?c] by (auto simp: TCP_FLAG_ACK_def)
  have "honest [104, 105] 500 g"
    by (auto simp: honest_def g has_def TCP_FLAG_ACK_def TCP_FLAG_FIN_def TCP_FLAG_RST_def intro!: exI [of _ 0])
  hence h: "\<forall>e\<in>set ?es. honest_event [104, 105] 500 e"
    by (simp add: honest_event_def tcp_packet_def g)
  obtain dlv s' where r: "tcp_run (ip_send (\<lambda>_ _. True)) ?es ([], demo_tcp) = (dlv, s')" by fastforce
  have d: "tcp_state (conn demo_tcp) = TCP_ESTABLISHED" "recv_buf (conn demo_tcp) = []"
    "rcv_nxt (conn demo_tcp) = 500" "\<not> peer_fin_seen (conn demo_tcp)" "length [104, 105 :: u8] < 2 ^ 31 - 1"
    by (simp_all add: demo_tcp_def demo_conn_def)
  show ?thesis
    unfolding r prod.case Let_def using tcp_receives_in_order [OF d h r] by blast
qed

theorem tcp_reset_only_exact_witness:
  "conn (tcp_dispatch (ip_send (\<lambda>_ _. True)) demo_rst demo_tcp) = demo_conn"
  using tcp_reset_only_exact [of demo_rst demo_tcp]
  by (simp add: demo_rst_def demo_tcp_def demo_conn_def has_def TCP_FLAG_RST_def)

theorem tcp_silence_closes_witness:
  "tcp_state (conn (snd (tcp_run (ip_send (\<lambda>_ _. True)) (polls [(900, 0), (1800, 1)]) ([], demo_tcp)))) = TCP_CLOSED"
  by (rule tcp_silence_closes)
    (simp_all add: demo_tcp_def demo_conn_def TCP_RETRANSMIT_TICKS_def TCP_MAX_RETRIES_def)

theorem tcp_segment_roundtrip_witness:
  "tcp_checksum_ok (tcp_packet 1 0x08080808 (tcp_segment demo_conn 1 TCP_FLAG_ACK [9, 9, 9]))"
  using tcp_segment_roundtrip [of "[9, 9, 9]" TCP_FLAG_ACK 1 demo_conn]
  by (simp add: TCP_FLAG_ACK_def demo_conn_def)

theorem tcp_bare_ack_strands_syn_witness:
  "let s = demo_tcp\<lparr>conn := demo_conn\<lparr>tcp_state := TCP_SYN_SENT\<rparr>\<rparr>;
       g = demo_rst\<lparr>sg_flags := 0x10, sg_ack := 103\<rparr>;
       s2 = snd (tcp_run (ip_send (\<lambda>_ _. True)) (polls [(5000, 9), (90000, 60)]) ([], tcp_dispatch (ip_send (\<lambda>_ _. True)) g s))
   in tcp_state (conn s2) = TCP_SYN_SENT \<and> \<not> retx_pending (conn s2)"
proof -
  let ?s = "demo_tcp\<lparr>conn := demo_conn\<lparr>tcp_state := TCP_SYN_SENT\<rparr>\<rparr>"
  let ?g = "demo_rst\<lparr>sg_flags := 0x10, sg_ack := 103\<rparr>"
  have "tcp_state (conn ?s) = TCP_SYN_SENT" "retx_pending (conn ?s)" "has ?g TCP_FLAG_ACK"
    "\<not> has ?g TCP_FLAG_SYN" "\<not> has ?g TCP_FLAG_RST" "sg_ack ?g = snd_nxt (conn ?s)"
    by (simp_all add: demo_conn_def demo_rst_def has_def TCP_FLAG_ACK_def TCP_FLAG_SYN_def TCP_FLAG_RST_def)
  from tcp_bare_ack_strands_syn [OF this, of "ip_send (\<lambda>_ _. True)" "[(5000, 9), (90000, 60)]" "[]"]
  show ?thesis by (simp add: Let_def)
qed

end
