(* ===== verification/Dns.thy ===== *)
theory Dns
  imports Icmp_Udp
begin

text \<open>
  dns.h: the resolver, one question at a time. Names as text are C strings, lists of bytes without the final 0; a buffer
  that is read as a C string is cut at its first 0 (cstr). Positions in a datagram are naturals: a datagram has at most
  NET_BUF_SIZE bytes and a label at most 255, so that the u16 sums of the code do not wrap. The log lines are left out.
  The wall clock, net_wall_seconds of netclock.h, is an argument.
\<close>

subsection \<open>Constants and state\<close>

definition DNS_SERVER_PORT :: u16 where "DNS_SERVER_PORT = 53"
definition DNS_CLIENT_PORT :: u16 where "DNS_CLIENT_PORT = 53000"
definition DNS_TYPE_A :: u16 where "DNS_TYPE_A = 1"
definition DNS_TYPE_CNAME :: u16 where "DNS_TYPE_CNAME = 5"
definition DNS_CLASS_IN :: u16 where "DNS_CLASS_IN = 1"
definition DNS_ATTEMPT_SECONDS :: u32 where "DNS_ATTEMPT_SECONDS = 3"
definition DNS_MAX_ATTEMPTS :: nat where "DNS_MAX_ATTEMPTS = 4"
definition DNS_TICK_BACKSTOP :: u32 where "DNS_TICK_BACKSTOP = 200000"
definition DNS_MAX_NAME :: nat where "DNS_MAX_NAME = 128"
definition DNS_FAIL_SIZE :: nat where "DNS_FAIL_SIZE = 96"

datatype dns_state_t = DNS_IDLE | DNS_QUERYING | DNS_RESOLVED | DNS_FAILED

record dns_client_t =
  dns_state :: dns_state_t
  query_id :: u16
  query_tick :: u32
  result_ip :: u32
  query_wall :: u32
  servers :: "u32 list"
  attempt :: nat
  nattempts :: nat
  dns_fail :: bytes
  hostname :: bytes

subsection \<open>Names\<close>

definition DOT_CH :: u8 where "DOT_CH = 0x2E"

definition cstr :: "bytes \<Rightarrow> bytes" where "cstr b = takeWhile (\<lambda>c. c \<noteq> 0) b"

definition dns_lower :: "u8 \<Rightarrow> u8" where "dns_lower c = (if 0x41 \<le> c \<and> c \<le> 0x5A then c + 32 else c)"

text \<open>The loop of dns_encode_name, the bytes of the label being written in lab.\<close>

fun dns_encode_from :: "bytes \<Rightarrow> bytes \<Rightarrow> bytes" where
  "dns_encode_from lab [] = of_nat (length lab) # lab @ [0]"
| "dns_encode_from lab (c # host) =
     (if c = DOT_CH then (of_nat (length lab) # lab) @ dns_encode_from [] host else dns_encode_from (lab @ [c]) host)"

definition dns_encode_name :: "bytes \<Rightarrow> bytes" where "dns_encode_name host = dns_encode_from [] host"

text \<open>while (pos < len) ...: the bytes consumed since offset, or 0.\<close>

function dns_skip_from :: "bytes \<Rightarrow> nat \<Rightarrow> nat \<Rightarrow> nat" where
  "dns_skip_from data offset pos =
     (if \<not> pos < length data then 0
      else let b = data ! pos in
        if b AND 0xC0 = 0xC0 then (if pos + 2 > length data then 0 else pos + 2 - offset)
        else if b = 0 then pos + 1 - offset
        else dns_skip_from data offset (pos + 1 + unat b))"
  by pat_completeness auto

termination by (relation "measure (\<lambda>(data, offset, pos). length data - pos)") auto

definition dns_skip_name :: "bytes \<Rightarrow> nat \<Rightarrow> nat" where "dns_skip_name data offset = dns_skip_from data offset offset"

text \<open>for (;;) of dns_decode_name: the read position, the pointers followed, the text so far.\<close>

function dns_decode_from :: "bytes \<Rightarrow> nat \<Rightarrow> nat \<Rightarrow> nat \<Rightarrow> bytes \<Rightarrow> bytes option" where
  "dns_decode_from data cap p hops out =
     (if p \<ge> length data then None
      else let b = data ! p in
        if b AND 0xC0 = 0xC0 then
          (if p + 1 \<ge> length data then None
           else let ptr = unat (push_bit 8 (ucast (b AND 0x3F) :: u16) OR ucast (data ! (p + 1))) in
             if ptr \<ge> p \<or> hops + 1 > 16 then None else dns_decode_from data cap ptr (hops + 1) out)
        else if b AND 0xC0 \<noteq> 0 then None
        else if b = 0 then Some out
        else if p + 1 + unat b > length data then None
        else if out \<noteq> [] \<and> length out + 1 \<ge> cap then None
        else let out = (if out \<noteq> [] then out @ [DOT_CH] else out) in
          if length out + unat b \<ge> cap then None
          else dns_decode_from data cap (p + 1 + unat b) hops (out @ map dns_lower (slice (p + 1) (unat b) data)))"
  by pat_completeness auto

termination
  by (relation "measures [\<lambda>(data, cap, p, hops, out). 16 - hops, \<lambda>(data, cap, p, hops, out). length data - p]") auto

declare dns_skip_from.simps [simp del] dns_decode_from.simps [simp del]

definition dns_decode_name :: "bytes \<Rightarrow> nat \<Rightarrow> nat \<Rightarrow> bytes option" where
  "dns_decode_name data pos cap = dns_decode_from data cap pos 0 []"

definition dns_at_end :: "bytes \<Rightarrow> bool" where "dns_at_end s \<longleftrightarrow> s = [] \<or> s = [DOT_CH]"

fun dns_name_eq :: "bytes \<Rightarrow> bytes \<Rightarrow> bool" where
  "dns_name_eq a b =
     (if dns_at_end a \<and> dns_at_end b then True
      else case a of [] \<Rightarrow> False
        | x # xs \<Rightarrow> (case b of [] \<Rightarrow> False | y # ys \<Rightarrow> dns_lower x = dns_lower y \<and> dns_name_eq xs ys))"

declare dns_name_eq.simps [simp del]

subsection \<open>Messages\<close>

fun dns_dec :: "nat \<Rightarrow> bytes" where
  "dns_dec n = (if n < 10 then [of_nat (48 + n)] else dns_dec (n div 10) @ [of_nat (48 + n mod 10)])"

declare dns_dec.simps [simp del]

definition dns_ip_str :: "u32 \<Rightarrow> bytes" where
  "dns_ip_str ip =
     (let oct = \<lambda>sh. dns_dec (unat (drop_bit sh ip AND 0xFF)) in oct 24 @ [DOT_CH] @ oct 16 @ [DOT_CH] @ oct 8 @ [DOT_CH] @ oct 0)"

definition dns_ascii :: "string \<Rightarrow> bytes" where "dns_ascii s = map (\<lambda>c. of_nat (of_char c)) s"

definition dns_fail_append :: "bytes \<Rightarrow> dns_client_t \<Rightarrow> dns_client_t" where
  "dns_fail_append text d = d\<lparr>dns_fail := dns_fail d @ take (DNS_FAIL_SIZE - 1 - length (dns_fail d)) text\<rparr>"

subsection \<open>Asking\<close>

text \<open>The question as it goes out; the array it is built in has 12 + DNS_MAX_NAME + 4 bytes.\<close>

definition dns_query :: "u16 \<Rightarrow> bytes \<Rightarrow> bytes" where
  "dns_query qid host =
     net_put16_be qid @ net_put16_be 0x0100 @ net_put16_be 1 @ net_put16_be 0 @ net_put16_be 0 @ net_put16_be 0 @
     dns_encode_name host @ net_put16_be DNS_TYPE_A @ net_put16_be DNS_CLASS_IN"

definition dns_send_attempt :: "driver \<Rightarrow> u32 \<Rightarrow> dns_client_t \<Rightarrow> net \<Rightarrow> dns_client_t \<times> net" where
  "dns_send_attempt drv now d s =
     (let server = servers d ! attempt d;
          d = d\<lparr>query_tick := net_ticks s, query_wall := now\<rparr>
      in (d, snd (udp_send drv (my_ip (net_cfg s)) DNS_CLIENT_PORT server DNS_SERVER_PORT (dns_query (query_id d) (hostname d)) s)))"

definition dns_next_attempt_or_fail :: "driver \<Rightarrow> u32 \<Rightarrow> bytes \<Rightarrow> dns_client_t \<Rightarrow> net \<Rightarrow> dns_client_t \<times> net" where
  "dns_next_attempt_or_fail drv now why d s =
     (if attempt d + 1 < nattempts d then dns_send_attempt drv now (d\<lparr>attempt := attempt d + 1\<rparr>) s
      else
        let d = dns_fail_append (dns_ascii '' Tried:'') (dns_fail_append why (d\<lparr>dns_fail := []\<rparr>));
            d = fold (\<lambda>i d. if \<exists>k<i. servers d ! k = servers d ! i then d
                  else dns_fail_append (dns_ip_str (servers d ! i)) (dns_fail_append (dns_ascii '' '') d)) [0..<nattempts d] d
        in (d\<lparr>dns_state := DNS_FAILED\<rparr>, s))"

definition dns_resolve :: "driver \<Rightarrow> u32 \<Rightarrow> bytes \<Rightarrow> dns_client_t \<Rightarrow> net \<Rightarrow> dns_client_t \<times> net" where
  "dns_resolve drv now host d s =
     (let cfg = net_cfg s;
          want = [dns_ip cfg, dns_ip cfg, gateway_ip cfg, 0x08080808, 0x01010101];
          list = take DNS_MAX_ATTEMPTS (filter (\<lambda>w. w \<noteq> 0) want)
      in dns_send_attempt drv now
           (d\<lparr>dns_state := DNS_QUERYING, query_id := ucast (drop_bit 16 (net_ticks s * 2654435761)), result_ip := 0, dns_fail := [],
              attempt := 0, nattempts := length list, servers := blit (servers d) 0 list,
              hostname := take (DNS_MAX_NAME - 1) host\<rparr>) s)"

subsection \<open>Answers\<close>

text \<open>What the walk over the answer records comes to: a record that runs past the datagram, the address, or the end of the
  records with the flag saw_foreign.\<close>

datatype dns_walk = Dns_Malformed | Dns_Found u32 | Dns_End bool

fun dns_answers :: "bytes \<Rightarrow> nat \<Rightarrow> nat \<Rightarrow> bytes \<Rightarrow> bool \<Rightarrow> dns_walk" where
  "dns_answers data 0 pos want saw_foreign = Dns_End saw_foreign"
| "dns_answers data (Suc n) pos want saw_foreign =
     (let nlen = dns_skip_name data pos in
      if nlen = 0 \<or> pos + nlen + 10 > length data then Dns_Malformed
      else
        let owner_ok = (case dns_decode_name data pos 256 of None \<Rightarrow> False | Some owner \<Rightarrow> dns_name_eq (cstr owner) want);
            saw_foreign = (saw_foreign \<or> \<not> owner_ok);
            pos = pos + nlen;
            rtype = net_get16_be data pos;
            rclass = net_get16_be data (pos + 2);
            rdlength = unat (net_get16_be data (pos + 8));
            pos = pos + 10
        in
        if pos + rdlength > length data then Dns_Malformed
        else if owner_ok \<and> rtype = DNS_TYPE_CNAME \<and> rclass = DNS_CLASS_IN then
          dns_answers data n (pos + rdlength) (case dns_decode_name data pos 256 of None \<Rightarrow> want | Some target \<Rightarrow> cstr target) saw_foreign
        else if owner_ok \<and> rtype = DNS_TYPE_A \<and> rclass = DNS_CLASS_IN \<and> rdlength = 4 then Dns_Found (net_get32_be data pos)
        else dns_answers data n (pos + rdlength) want saw_foreign)"

declare dns_answers.simps(2) [simp del]

text \<open>The part of dns_handle_reply after the question has been matched, at the position pos and with the code rcode.\<close>

definition dns_take_answer :: "driver \<Rightarrow> u32 \<Rightarrow> u32 \<Rightarrow> bytes \<Rightarrow> u16 \<Rightarrow> nat \<Rightarrow> dns_client_t \<Rightarrow> net \<Rightarrow> dns_client_t \<times> net" where
  "dns_take_answer drv now src_ip data rcode pos d s =
     (if rcode \<noteq> 0 then
        (if rcode = 3 then
           ((dns_fail_append (dns_ascii '' says it does not exist).'') (dns_fail_append (dns_ip_str src_ip)
              (dns_fail_append (dns_ascii ''No such host (server '') (d\<lparr>dns_fail := []\<rparr>))))\<lparr>dns_state := DNS_FAILED\<rparr>, s)
         else dns_next_attempt_or_fail drv now (dns_ascii ''Server error '' @ [of_nat (48 + unat rcode mod 10)]) d s)
      else
        (case dns_answers data (unat (net_get16_be data 6)) pos (map dns_lower (hostname d)) False of
           Dns_Malformed \<Rightarrow> (d\<lparr>dns_state := DNS_FAILED\<rparr>, s)
         | Dns_Found ip \<Rightarrow> (d\<lparr>result_ip := ip, dns_state := DNS_RESOLVED\<rparr>, s)
         | Dns_End saw_foreign \<Rightarrow>
             (if saw_foreign then (d, s)
              else ((dns_fail_append (dns_ascii ''The name exists but has no IPv4 address (A record).'') (d\<lparr>dns_fail := []\<rparr>))
                     \<lparr>dns_state := DNS_FAILED\<rparr>, s))))"

definition dns_handle_reply :: "driver \<Rightarrow> u32 \<Rightarrow> u32 \<Rightarrow> u16 \<Rightarrow> bytes \<Rightarrow> dns_client_t \<Rightarrow> net \<Rightarrow> dns_client_t \<times> net" where
  "dns_handle_reply drv now src_ip src_port data d s =
     (if dns_state d \<noteq> DNS_QUERYING then (d, s)
      else if src_port \<noteq> DNS_SERVER_PORT then (d, s)
      else if \<not> (\<exists>k\<in>set [0..<nattempts d]. k \<le> attempt d \<and> servers d ! k = src_ip) then (d, s)
      else if length data < 12 then (d, s)
      else if net_get16_be data 0 \<noteq> query_id d then (d, s)
      else
        let flags = net_get16_be data 2 in
        if flags AND 0x8000 = 0 then (d, s)
        else if drop_bit 11 flags AND 0x0F \<noteq> 0 then (d, s)
        else
          let rcode = flags AND 0x0F; qdcount = net_get16_be data 4; pos = 12 in
          if qdcount > 1 then (d, s)
          else if qdcount = 1 then
            (case dns_decode_name data pos 256 of
               None \<Rightarrow> (d, s)
             | Some qname \<Rightarrow>
                 let nlen = dns_skip_name data pos in
                 if nlen = 0 \<or> pos + nlen + 4 > length data then (d, s)
                 else if \<not> dns_name_eq (cstr qname) (hostname d) \<or> net_get16_be data (pos + nlen) \<noteq> DNS_TYPE_A \<or>
                         net_get16_be data (pos + nlen + 2) \<noteq> DNS_CLASS_IN then (d, s)
                 else dns_take_answer drv now src_ip data rcode (pos + nlen + 4) d s)
          else if rcode = 0 \<or> rcode = 3 then (d, s)
          else dns_take_answer drv now src_ip data rcode pos d s)"

subsection \<open>Starting and waiting\<close>

definition dns_init :: "'h \<Rightarrow> 'h udp_listeners \<Rightarrow> dns_client_t \<Rightarrow> 'h udp_listeners \<times> dns_client_t" where
  "dns_init handler ls d = (snd (udp_listen DNS_CLIENT_PORT handler ls), d\<lparr>dns_state := DNS_IDLE\<rparr>)"

definition dns_poll :: "driver \<Rightarrow> u32 \<Rightarrow> dns_client_t \<Rightarrow> net \<Rightarrow> dns_client_t \<times> net" where
  "dns_poll drv now d s =
     (if dns_state d \<noteq> DNS_QUERYING then (d, s)
      else
        let waited = (now + 86400 - query_wall d) mod 86400 in
        if waited \<ge> DNS_ATTEMPT_SECONDS \<or> net_ticks s - query_tick d > DNS_TICK_BACKSTOP
        then dns_next_attempt_or_fail drv now (dns_ascii ''No reply from the DNS server.'') d s
        else (d, s))"

subsection \<open>Host names and their wire form\<close>

text \<open>A host name by its labels: the text with the dots between them, and the wire form.\<close>

fun dns_text :: "bytes list \<Rightarrow> bytes" where
  "dns_text [] = []"
| "dns_text [l] = l"
| "dns_text (l # ls) = l @ DOT_CH # dns_text ls"

definition dns_wire :: "bytes list \<Rightarrow> bytes" where "dns_wire ls = concat (map (\<lambda>l. of_nat (length l) # l) ls) @ [0]"

definition dns_label :: "bytes \<Rightarrow> bool" where "dns_label l \<longleftrightarrow> l \<noteq> [] \<and> length l \<le> 63 \<and> DOT_CH \<notin> set l \<and> 0 \<notin> set l"

lemma encode_from_label: "DOT_CH \<notin> set l \<Longrightarrow> dns_encode_from lab (l @ rest) = dns_encode_from (lab @ l) rest"
  by (induction l arbitrary: lab) auto

lemma encode_text: "ls \<noteq> [] \<Longrightarrow> \<forall>l\<in>set ls. DOT_CH \<notin> set l \<Longrightarrow> dns_encode_name (dns_text ls) = dns_wire ls"
proof (induction ls rule: dns_text.induct)
  case (2 l)
  thus ?case using encode_from_label [of l "[]" "[]"] by (simp add: dns_encode_name_def dns_wire_def)
next
  case (3 l k ls)
  thus ?case using encode_from_label [of l "[]" "DOT_CH # dns_text (k # ls)"] by (simp add: dns_encode_name_def dns_wire_def)
qed simp

lemma length_encode_from: "length (dns_encode_from lab host) = length lab + length host + 2"
  by (induction lab host rule: dns_encode_from.induct) simp_all

lemma length_encode_name: "length (dns_encode_name host) = length host + 2"
  by (simp add: dns_encode_name_def length_encode_from)

lemma label_byte:
  assumes "n \<le> 63"
  shows "(of_nat n :: u8) AND 0xC0 = 0" "unat (of_nat n :: u8) = n" "(of_nat n :: u8) = 0 \<longleftrightarrow> n = 0"
proof -
  show u: "unat (of_nat n :: u8) = n" using assms by (simp add: unat_of_nat take_bit_nat_eq_self)
  show "(of_nat n :: u8) = 0 \<longleftrightarrow> n = 0" using u by (metis unat_eq_zero)
  have "n < 2 ^ 6" using assms by simp
  hence t: "take_bit 6 (of_nat n :: u8) = of_nat n" using u by (simp add: word_unat_eq_iff unsigned_take_bit_eq take_bit_nat_eq_self)
  have "take_bit 6 w AND 0xC0 = 0" for w :: u8 by (rule u8_eqI) (auto simp: bit_simps)
  from this [of "of_nat n"] show "(of_nat n :: u8) AND 0xC0 = 0" unfolding t .
qed

text \<open>The two readers on a name in wire form, label by label.\<close>

lemma wire_Cons: "dns_wire (l # ls) = (of_nat (length l) # l) @ dns_wire ls"
  by (simp add: dns_wire_def)

lemma c0_bytes: "(0 :: u8) \<noteq> 0xC0" by simp

lemma skip_step:
  "pos < length data \<Longrightarrow> data ! pos AND 0xC0 = 0 \<Longrightarrow> data ! pos \<noteq> 0 \<Longrightarrow>
   dns_skip_from data off pos = dns_skip_from data off (pos + 1 + unat (data ! pos))"
  using c0_bytes by (subst dns_skip_from.simps) (simp only: Let_def if_False if_True simp_thms)

lemma skip_wire:
  assumes "\<forall>l\<in>set ls. dns_label l" "off \<le> length pre"
  shows "dns_skip_from (pre @ dns_wire ls @ post) off (length pre) = length pre + length (dns_wire ls) - off"
  using assms
proof (induction ls arbitrary: pre)
  case Nil
  show ?case by (subst dns_skip_from.simps) (simp add: dns_wire_def)
next
  case (Cons l ls)
  let ?c = "of_nat (length l) :: u8"
  have l: "length l \<le> 63" "l \<noteq> []" using Cons.prems by (auto simp: dns_label_def)
  note b = label_byte [OF l(1)]
  have "dns_skip_from ((pre @ ?c # l) @ dns_wire ls @ post) off (length (pre @ ?c # l)) =
      length (pre @ ?c # l) + length (dns_wire ls) - off"
    by (rule Cons.IH) (use Cons.prems in auto)
  moreover have "dns_skip_from (pre @ dns_wire (l # ls) @ post) off (length pre) =
      dns_skip_from (pre @ dns_wire (l # ls) @ post) off (length pre + 1 + length l)"
    using skip_step [of "length pre" "pre @ dns_wire (l # ls) @ post" off] b l(2) by (simp add: wire_Cons)
  ultimately show ?case by (simp add: wire_Cons)
qed

lemma decode_step:
  assumes "p < length data" "data ! p AND 0xC0 = 0" "data ! p \<noteq> 0" "p + 1 + unat (data ! p) \<le> length data"
    "out' = (if out \<noteq> [] then out @ [DOT_CH] else out)" "length out' + unat (data ! p) < cap"
  shows "dns_decode_from data cap p hops out =
    dns_decode_from data cap (p + 1 + unat (data ! p)) hops (out' @ map dns_lower (slice (p + 1) (unat (data ! p)) data))"
proof -
  have "\<not> p \<ge> length data" "\<not> p + 1 + unat (data ! p) > length data" using assms(1,4) by linarith+
  moreover have "\<not> (out \<noteq> [] \<and> length out + 1 \<ge> cap)" "\<not> length out' + unat (data ! p) \<ge> cap" using assms(5,6) by auto
  ultimately show ?thesis
    by (subst dns_decode_from.simps) (simp only: Let_def if_False if_True simp_thms c0_bytes assms(2,3) assms(5) [symmetric])
qed

text \<open>Appending labels to a text that may be empty, as dns_decode_name does.\<close>

definition dns_join :: "bytes \<Rightarrow> bytes list \<Rightarrow> bytes" where
  "dns_join out ls = (if ls = [] then out else if out = [] then dns_text ls else out @ DOT_CH # dns_text ls)"

lemma text_Cons: "dns_text (l # ls) = dns_join l ls" if "l \<noteq> []"
  using that by (cases ls) (simp_all add: dns_join_def)

lemma join_Cons: "l \<noteq> [] \<Longrightarrow> dns_join out (l # ls) = dns_join ((if out \<noteq> [] then out @ [DOT_CH] else out) @ l) ls"
  by (cases ls) (auto simp: dns_join_def)

lemma length_join: "length out \<le> length (dns_join out ls)"
  by (auto simp: dns_join_def)

lemma length_lower_text: "dns_text (map (map f) ls) = map f (dns_text ls)" if "f DOT_CH = DOT_CH"
  using that by (induction ls rule: dns_text.induct) simp_all

lemma decode_wire:
  assumes "\<forall>l\<in>set ls. dns_label l" "length (dns_join out (map (map dns_lower) ls)) < cap"
  shows "dns_decode_from (pre @ dns_wire ls @ post) cap (length pre) hops out = Some (dns_join out (map (map dns_lower) ls))"
  using assms
proof (induction ls arbitrary: pre out)
  case Nil
  show ?case by (subst dns_decode_from.simps) (simp add: dns_wire_def dns_join_def)
next
  case (Cons l ls)
  let ?c = "of_nat (length l) :: u8"
  let ?out = "(if out \<noteq> [] then out @ [DOT_CH] else out) @ map dns_lower l"
  have l: "length l \<le> 63" "l \<noteq> []" using Cons.prems by (auto simp: dns_label_def)
  note b = label_byte [OF l(1)]
  have j: "dns_join out (map (map dns_lower) (l # ls)) = dns_join ?out (map (map dns_lower) ls)"
    using join_Cons [of "map dns_lower l" out "map (map dns_lower) ls"] l by simp
  have len: "length ?out < cap" using Cons.prems(2) length_join [of ?out "map (map dns_lower) ls"] unfolding j by linarith
  have ih: "dns_decode_from ((pre @ ?c # l) @ dns_wire ls @ post) cap (length (pre @ ?c # l)) hops ?out =
      Some (dns_join ?out (map (map dns_lower) ls))"
    by (rule Cons.IH) (use Cons.prems(1) Cons.prems(2) [unfolded j] in simp_all)
  have sl: "slice (length pre + 1) (length l) (pre @ ?c # l @ dns_wire ls @ post) = l" by (simp add: slice_def)
  have n0: "?c \<noteq> 0" using b(3) l(2) by simp
  let ?d = "pre @ dns_wire (l # ls) @ post"
  have at: "?d ! length pre = ?c" by (simp add: wire_Cons)
  have "dns_decode_from ?d cap (length pre) hops out = dns_decode_from ?d cap (length pre + 1 + unat (?d ! length pre)) hops
      ((if out \<noteq> [] then out @ [DOT_CH] else out) @ map dns_lower (slice (length pre + 1) (unat (?d ! length pre)) ?d))"
    by (rule decode_step [OF _ _ _ _ refl]) (use at b n0 len in \<open>auto simp: wire_Cons\<close>)
  also have "\<dots> = Some (dns_join ?out (map (map dns_lower) ls))" using ih sl unfolding at b(2) by (simp add: wire_Cons)
  finally show ?case unfolding j .
qed

subsection \<open>Comparing names\<close>

lemma lower_unat: "unat (dns_lower c) = (if 65 \<le> unat c \<and> unat c \<le> 90 then unat c + 32 else unat c)"
  by (simp add: dns_lower_def word_le_nat_alt unat_word_ariths)

lemma lower_dot: "dns_lower DOT_CH = DOT_CH" "dns_lower c = DOT_CH \<longleftrightarrow> c = DOT_CH"
proof -
  have d: "unat DOT_CH = 46" by (simp add: DOT_CH_def)
  show "dns_lower DOT_CH = DOT_CH" "dns_lower c = DOT_CH \<longleftrightarrow> c = DOT_CH"
    by (auto simp: word_unat_eq_iff lower_unat d)
qed

lemma lower_lower [simp]: "dns_lower (dns_lower c) = dns_lower c"
  by (auto simp: word_unat_eq_iff lower_unat)

lemma lower_zero: "dns_lower c = 0 \<longleftrightarrow> c = 0"
  by (auto simp: word_unat_eq_iff lower_unat)

lemma name_eq_iff:
  "dns_name_eq a b \<longleftrightarrow> (let x = map dns_lower a; y = map dns_lower b in x = y \<or> x = y @ [DOT_CH] \<or> y = x @ [DOT_CH])"
proof (induction a b rule: dns_name_eq.induct)
  case (1 a b)
  show ?case
  proof (cases "dns_at_end a \<and> dns_at_end b")
    case True
    thus ?thesis by (subst dns_name_eq.simps) (auto simp: dns_at_end_def lower_dot)
  next
    case False
    show ?thesis
    proof (cases "a = [] \<or> b = []")
      case True
      thus ?thesis using False by (subst dns_name_eq.simps) (auto simp: dns_at_end_def lower_dot split: list.splits)
    next
      case n: False
      then obtain x xs y ys where e: "a = x # xs" "b = y # ys" by (auto simp: neq_Nil_conv)
      show ?thesis using 1 [OF False e] False unfolding e
        by (subst dns_name_eq.simps) (auto simp: dns_at_end_def lower_dot Let_def)
    qed
  qed
qed

lemma name_eq_lower: "map dns_lower a = map dns_lower b \<Longrightarrow> dns_name_eq a b"
  by (simp add: name_eq_iff)

subsection \<open>Fields\<close>

lemma get16_at: "i = length pre \<Longrightarrow> net_get16_be (pre @ net_put16_be v @ post) i = v"
  by (rule get_put16) (simp_all add: slice_def)

lemma get32_at: "i = length pre \<Longrightarrow> net_get32_be (pre @ net_put32_be v @ post) i = v"
  by (rule get_put32) (simp_all add: slice_def)

subsection \<open>What an answer must be\<close>

text \<open>An answer record of a datagram by its position: that it lies inside, who it is about, its type and class, its data and the
  record after it.\<close>

definition rr_fixed :: "bytes \<Rightarrow> nat \<Rightarrow> nat" where "rr_fixed data pos = pos + dns_skip_name data pos"
definition rr_len :: "bytes \<Rightarrow> nat \<Rightarrow> nat" where "rr_len data pos = unat (net_get16_be data (rr_fixed data pos + 8))"
definition rr_body :: "bytes \<Rightarrow> nat \<Rightarrow> nat" where "rr_body data pos = rr_fixed data pos + 10"
definition rr_next :: "bytes \<Rightarrow> nat \<Rightarrow> nat" where "rr_next data pos = rr_body data pos + rr_len data pos"
definition rr_inside :: "bytes \<Rightarrow> nat \<Rightarrow> bool" where
  "rr_inside data pos \<longleftrightarrow> dns_skip_name data pos \<noteq> 0 \<and> rr_body data pos \<le> length data \<and> rr_next data pos \<le> length data"
definition rr_kind :: "bytes \<Rightarrow> nat \<Rightarrow> u16 \<Rightarrow> bool" where
  "rr_kind data pos ty \<longleftrightarrow> net_get16_be data (rr_fixed data pos) = ty \<and> net_get16_be data (rr_fixed data pos + 2) = DNS_CLASS_IN"
definition rr_about :: "bytes \<Rightarrow> nat \<Rightarrow> bytes \<Rightarrow> bool" where
  "rr_about data pos want \<longleftrightarrow> (\<exists>owner. dns_decode_name data pos 256 = Some owner \<and> dns_name_eq (cstr owner) want)"

lemmas rr_defs = rr_fixed_def rr_len_def rr_body_def rr_next_def rr_inside_def rr_kind_def rr_about_def

text \<open>The n records from pos on give the name the address: an A record of the name itself, or of the name its CNAME record
  points to, and records that do not apply are passed over.\<close>

inductive dns_gives :: "bytes \<Rightarrow> nat \<Rightarrow> nat \<Rightarrow> bytes \<Rightarrow> u32 \<Rightarrow> bool" for data :: bytes where
  address: "rr_inside data pos \<Longrightarrow> rr_about data pos want \<Longrightarrow> rr_kind data pos DNS_TYPE_A \<Longrightarrow> rr_len data pos = 4 \<Longrightarrow>
    dns_gives data (Suc n) pos want (net_get32_be data (rr_body data pos))"
| cname: "rr_inside data pos \<Longrightarrow> rr_about data pos want \<Longrightarrow> rr_kind data pos DNS_TYPE_CNAME \<Longrightarrow>
    dns_decode_name data (rr_body data pos) 256 = Some target \<Longrightarrow> dns_gives data n (rr_next data pos) (cstr target) ip \<Longrightarrow>
    dns_gives data (Suc n) pos want ip"
| other: "rr_inside data pos \<Longrightarrow>
    \<not> (rr_about data pos want \<and> rr_kind data pos DNS_TYPE_A \<and> rr_len data pos = 4) \<Longrightarrow>
    \<not> (rr_about data pos want \<and> rr_kind data pos DNS_TYPE_CNAME \<and> dns_decode_name data (rr_body data pos) 256 \<noteq> None) \<Longrightarrow>
    dns_gives data n (rr_next data pos) want ip \<Longrightarrow> dns_gives data (Suc n) pos want ip"

inductive_simps gives_0: "dns_gives data 0 pos want ip"
inductive_simps gives_Suc: "dns_gives data (Suc n) pos want ip"

lemma type_distinct: "rr_kind data pos DNS_TYPE_A \<Longrightarrow> \<not> rr_kind data pos DNS_TYPE_CNAME"
  by (simp add: rr_kind_def DNS_TYPE_A_def DNS_TYPE_CNAME_def)

lemma answers_Suc:
  "dns_answers data (Suc n) pos want f =
    (if \<not> rr_inside data pos then Dns_Malformed
     else if rr_about data pos want \<and> rr_kind data pos DNS_TYPE_CNAME then
       dns_answers data n (rr_next data pos) (case dns_decode_name data (rr_body data pos) 256 of None \<Rightarrow> want | Some t \<Rightarrow> cstr t) (f \<or> \<not> rr_about data pos want)
     else if rr_about data pos want \<and> rr_kind data pos DNS_TYPE_A \<and> rr_len data pos = 4 then Dns_Found (net_get32_be data (rr_body data pos))
     else dns_answers data n (rr_next data pos) want (f \<or> \<not> rr_about data pos want))"
proof -
  have o: "(case dns_decode_name data pos 256 of None \<Rightarrow> False | Some owner \<Rightarrow> dns_name_eq (cstr owner) want) = rr_about data pos want"
    by (auto simp: rr_about_def split: option.splits)
  show ?thesis
    unfolding dns_answers.simps(2) Let_def o
    by (auto simp: rr_fixed_def rr_len_def rr_body_def rr_next_def rr_inside_def rr_kind_def not_le)
qed

lemma answers_gives: "dns_answers data n pos want f = Dns_Found ip \<longleftrightarrow> dns_gives data n pos want ip"
proof (induction n arbitrary: pos want f)
  case 0
  show ?case by (simp add: gives_0)
next
  case (Suc n)
  show ?case unfolding answers_Suc gives_Suc using type_distinct [of data pos]
    by (auto simp: Suc split: option.splits)
qed

lemma next_attempt_state: "dns_state (fst (dns_next_attempt_or_fail drv now why d s)) = (if attempt d + 1 < nattempts d then dns_state d else DNS_FAILED)"
  by (simp add: dns_next_attempt_or_fail_def dns_send_attempt_def Let_def)

subsection \<open>A server's answer\<close>

text \<open>The message of a server that knows the address: the question repeated, with any ttl, and one record that names its owner
  by a pointer to the question.\<close>

definition server_reply :: "u16 \<Rightarrow> bytes list \<Rightarrow> u32 \<Rightarrow> u32 \<Rightarrow> bytes" where
  "server_reply qid ls ttl ip =
     net_put16_be qid @ net_put16_be 0x8180 @ net_put16_be 1 @ net_put16_be 1 @ net_put16_be 0 @ net_put16_be 0 @
     dns_wire ls @ net_put16_be DNS_TYPE_A @ net_put16_be DNS_CLASS_IN @
     net_put16_be 0xC00C @ net_put16_be DNS_TYPE_A @ net_put16_be DNS_CLASS_IN @ net_put32_be ttl @ net_put16_be 4 @ net_put32_be ip"

lemma reply_fields:
  defines "n \<equiv> \<lambda>ls. 12 + length (dns_wire ls)"
  shows "length (server_reply qid ls ttl ip) = n ls + 20"
    "net_get16_be (server_reply qid ls ttl ip) 0 = qid" "net_get16_be (server_reply qid ls ttl ip) 2 = 0x8180"
    "net_get16_be (server_reply qid ls ttl ip) 4 = 1" "net_get16_be (server_reply qid ls ttl ip) 6 = 1"
    "net_get16_be (server_reply qid ls ttl ip) (n ls) = DNS_TYPE_A" "net_get16_be (server_reply qid ls ttl ip) (n ls + 2) = DNS_CLASS_IN"
    "net_get16_be (server_reply qid ls ttl ip) (n ls + 6) = DNS_TYPE_A" "net_get16_be (server_reply qid ls ttl ip) (n ls + 8) = DNS_CLASS_IN"
    "net_get16_be (server_reply qid ls ttl ip) (n ls + 14) = 4" "net_get32_be (server_reply qid ls ttl ip) (n ls + 16) = ip"
    "server_reply qid ls ttl ip ! (n ls + 4) = 0xC0" "server_reply qid ls ttl ip ! (n ls + 5) = 0x0C"
    "\<exists>pre post. length pre = 12 \<and> server_reply qid ls ttl ip = pre @ dns_wire ls @ post"
proof -
  let ?h = "net_put16_be qid @ net_put16_be 0x8180 @ net_put16_be 1 @ net_put16_be 1 @ net_put16_be 0 @ net_put16_be 0"
  let ?r = "server_reply qid ls ttl ip" and ?w = "dns_wire ls"
  show "length ?r = n ls + 20" by (simp add: server_reply_def n_def)
  have g16: "net_get16_be ?r i = v" if "?r = pre @ net_put16_be v @ post" "i = length pre" for pre v post i
    using that get16_at by simp
  show "net_get16_be ?r 0 = qid" by (rule g16 [of "[]"]) (simp_all add: server_reply_def)
  show "net_get16_be ?r 2 = 0x8180" by (rule g16 [of "net_put16_be qid"]) (simp_all add: server_reply_def)
  show "net_get16_be ?r 4 = 1" by (rule g16 [of "net_put16_be qid @ net_put16_be 0x8180"]) (simp_all add: server_reply_def)
  show "net_get16_be ?r 6 = 1" by (rule g16 [of "net_put16_be qid @ net_put16_be 0x8180 @ net_put16_be 1"]) (simp_all add: server_reply_def)
  show "net_get16_be ?r (n ls) = DNS_TYPE_A" by (rule g16 [of "?h @ ?w"]) (simp_all add: server_reply_def n_def)
  show "net_get16_be ?r (n ls + 2) = DNS_CLASS_IN"
    by (rule g16 [of "?h @ ?w @ net_put16_be DNS_TYPE_A"]) (simp_all add: server_reply_def n_def)
  let ?q = "?h @ ?w @ net_put16_be DNS_TYPE_A @ net_put16_be DNS_CLASS_IN"
  show "net_get16_be ?r (n ls + 6) = DNS_TYPE_A"
    by (rule g16 [of "?q @ net_put16_be 0xC00C"]) (simp_all add: server_reply_def n_def)
  show "net_get16_be ?r (n ls + 8) = DNS_CLASS_IN"
    by (rule g16 [of "?q @ net_put16_be 0xC00C @ net_put16_be DNS_TYPE_A"]) (simp_all add: server_reply_def n_def)
  show "net_get16_be ?r (n ls + 14) = 4"
    by (rule g16 [of "?q @ net_put16_be 0xC00C @ net_put16_be DNS_TYPE_A @ net_put16_be DNS_CLASS_IN @ net_put32_be ttl"])
      (simp_all add: server_reply_def n_def)
  let ?p = "?q @ net_put16_be 0xC00C @ net_put16_be DNS_TYPE_A @ net_put16_be DNS_CLASS_IN @ net_put32_be ttl @ net_put16_be 4"
  have "?r = ?p @ net_put32_be ip @ []" by (simp add: server_reply_def)
  moreover have "n ls + 16 = length ?p" by (simp add: n_def)
  ultimately show "net_get32_be ?r (n ls + 16) = ip" using get32_at [of "n ls + 16" ?p ip "[]"] by simp
  have "?r = ?q @ 0xC0 # 0x0C # net_put16_be DNS_TYPE_A @ net_put16_be DNS_CLASS_IN @ net_put32_be ttl @ net_put16_be 4 @ net_put32_be ip"
    by (simp add: server_reply_def net_put16_be_def)
  moreover have q: "length ?q = n ls + 4" by (simp add: n_def)
  ultimately show "?r ! (n ls + 4) = 0xC0" "?r ! (n ls + 5) = 0x0C" by (simp_all only: nth_append q) simp_all
  show "\<exists>pre post. length pre = 12 \<and> ?r = pre @ ?w @ post" 
    by (intro exI [of _ ?h] exI [of _ "net_put16_be DNS_TYPE_A @ net_put16_be DNS_CLASS_IN @ net_put16_be 0xC00C @ net_put16_be DNS_TYPE_A @
        net_put16_be DNS_CLASS_IN @ net_put32_be ttl @ net_put16_be 4 @ net_put32_be ip"]) (simp add: server_reply_def)
qed

lemma cstr_all: "0 \<notin> set b \<Longrightarrow> cstr b = b"
  unfolding cstr_def by (rule takeWhile_eq_all_conv [THEN iffD2]) auto

lemma text_set: "set (dns_text ls) \<subseteq> insert DOT_CH (\<Union> (set ` set ls))"
  by (induction ls rule: dns_text.induct) auto

lemma length_wire: "ls \<noteq> [] \<Longrightarrow> length (dns_wire ls) = length (dns_text ls) + 2"
  by (induction ls rule: dns_text.induct) (auto simp: dns_wire_def)

lemma skip_pointer:
  assumes "pos + 2 \<le> length data" "data ! pos = 0xC0"
  shows "dns_skip_name data pos = 2"
  using assms by (simp add: dns_skip_name_def dns_skip_from.simps [of data])

lemma decode_pointer:
  assumes "pos + 1 < length data" "data ! pos = 0xC0" "data ! (pos + 1) = 0x0C" "12 < pos"
  shows "dns_decode_name data pos cap = dns_decode_from data cap 12 1 []"
  using assms by (simp add: dns_decode_name_def dns_decode_from.simps [of data cap pos] Let_def)

lemma reply_taken:
  assumes "dns_state d = DNS_QUERYING" "hostname d = dns_text ls" "ls \<noteq> []" "\<forall>l\<in>set ls. dns_label l"
    "length (hostname d) < 128" "k < nattempts d" "k \<le> attempt d" "servers d ! k = src"
  shows "dns_handle_reply drv now src DNS_SERVER_PORT (server_reply (query_id d) ls ttl ip) d s =
    (d\<lparr>result_ip := ip, dns_state := DNS_RESOLVED\<rparr>, s)"
proof -
  let ?r = "server_reply (query_id d) ls ttl ip" and ?n = "12 + length (dns_wire ls)"
  note f = reply_fields [of "query_id d" ls ttl ip]
  obtain pre post where r: "length pre = 12" "?r = pre @ dns_wire ls @ post" using f(14) by blast
  let ?name = "map dns_lower (dns_text ls)"
  have lt: "dns_text (map (map dns_lower) ls) = ?name" by (rule length_lower_text) (rule lower_dot)
  have dec: "dns_decode_from ?r 256 12 h [] = Some ?name" for h
    using decode_wire [of ls "[]" 256 pre post h] assms(2-5) r lt by (simp add: dns_join_def)
  have z: "0 \<notin> set ?name" using text_set [of ls] assms(4) by (auto simp: dns_label_def lower_zero DOT_CH_def)
  have ne: "dns_name_eq (cstr ?name) (hostname d)" "dns_name_eq (cstr ?name) (map dns_lower (hostname d))"
    unfolding cstr_all [OF z] using assms(2) by (simp_all add: name_eq_iff o_def)
  have sk: "dns_skip_name ?r 12 = length (dns_wire ls)"
    using skip_wire [OF assms(4), of 12 pre post] r by (simp add: dns_skip_name_def)
  have w: "length (dns_wire ls) \<noteq> 0" by (simp add: dns_wire_def)
  have sp: "dns_skip_name ?r (?n + 4) = 2" by (rule skip_pointer) (use f(1,12) in simp_all)
  have dp: "dns_decode_name ?r (?n + 4) 256 = Some ?name"
    using decode_pointer [of "?n + 4" ?r 256] f(1,12,13) dec by simp
  have rr: "rr_fixed ?r (?n + 4) = ?n + 6" "rr_len ?r (?n + 4) = 4" "rr_body ?r (?n + 4) = ?n + 16" "rr_next ?r (?n + 4) = ?n + 20"
    using sp f(10) by (simp_all add: rr_defs)
  have rr2: "rr_inside ?r (?n + 4)" "rr_about ?r (?n + 4) (map dns_lower (hostname d))"
    "rr_kind ?r (?n + 4) DNS_TYPE_A" "\<not> rr_kind ?r (?n + 4) DNS_TYPE_CNAME"
  proof -
    have "?n + 4 + 2 = ?n + 6" "?n + 6 + 2 = ?n + 8" by simp_all
    thus "rr_inside ?r (?n + 4)" "rr_about ?r (?n + 4) (map dns_lower (hostname d))"
      "rr_kind ?r (?n + 4) DNS_TYPE_A" "\<not> rr_kind ?r (?n + 4) DNS_TYPE_CNAME"
      using rr sp dp ne(2) f(1,8,9) by (simp_all add: rr_inside_def rr_about_def rr_kind_def DNS_TYPE_A_def DNS_TYPE_CNAME_def)
  qed
  have ans: "dns_answers ?r (Suc 0) (?n + 4) (map dns_lower (hostname d)) False = Dns_Found ip"
    unfolding answers_Suc using rr rr2 f(11) by simp
  have asked: "\<exists>k\<in>set [0..<nattempts d]. k \<le> attempt d \<and> servers d ! k = src" using assms(6-8) by auto
  have fl: "(0x8180 :: u16) AND 0x8000 \<noteq> 0" "drop_bit 11 (0x8180 :: u16) AND 0x0F = 0" "(0x8180 :: u16) AND 0x0F = 0" by simp_all
  have d0: "dns_decode_name ?r 12 256 = Some ?name" using dec by (simp add: dns_decode_name_def)
  have len: "\<not> length ?r < 12" "\<not> 12 + length (dns_wire ls) + 4 > length ?r" using f(1) by simp_all
  have ta: "dns_take_answer drv now src ?r 0 (?n + 4) d s = (d\<lparr>result_ip := ip, dns_state := DNS_RESOLVED\<rparr>, s)"
    using ans f(5) by (simp add: dns_take_answer_def)
  have u: "\<not> (1 :: u16) < 1" by simp
  show ?thesis
    unfolding dns_handle_reply_def Let_def f(2-4) d0 sk using assms(1) asked len fl w ne(1) f(6,7) ta u
    by (simp only: if_False if_True simp_thms option.case)
qed

lemma pypi_labels: "\<forall>l\<in>set [[0x70, 0x79, 0x70, 0x69], [0x6F, 0x72, 0x67]]. dns_label l"
  by (simp add: dns_label_def DOT_CH_def)

text \<open>A lookup of pypi.org that has just been sent to 8.8.8.8.\<close>

definition demo_dns :: dns_client_t where
  "demo_dns = \<lparr>dns_state = DNS_QUERYING, query_id = 7, query_tick = 0, result_ip = 0, query_wall = 0, servers = [0x08080808, 0, 0, 0],
     attempt = 0, nattempts = 1, dns_fail = [], hostname = dns_text [[0x70, 0x79, 0x70, 0x69], [0x6F, 0x72, 0x67]]\<rparr>"

lemma demo_dns_taken:
  "dns_handle_reply (\<lambda>_ _. True) 0 0x08080808 DNS_SERVER_PORT (server_reply 7 [[0x70, 0x79, 0x70, 0x69], [0x6F, 0x72, 0x67]] 60 0x9765C0DF) demo_dns s =
   (demo_dns\<lparr>result_ip := 0x9765C0DF, dns_state := DNS_RESOLVED\<rparr>, s)" "dns_state demo_dns = DNS_QUERYING"
proof -
  let ?ls = "[[0x70, 0x79, 0x70, 0x69], [0x6F, 0x72, 0x67]] :: bytes list"
  have h: "dns_state demo_dns = DNS_QUERYING" "hostname demo_dns = dns_text ?ls" "length (hostname demo_dns) < 128" "0 < nattempts demo_dns"
    "0 \<le> attempt demo_dns" "servers demo_dns ! 0 = 0x08080808" "query_id demo_dns = 7"
    by (simp_all add: demo_dns_def)
  show "dns_handle_reply (\<lambda>_ _. True) 0 0x08080808 DNS_SERVER_PORT (server_reply 7 ?ls 60 0x9765C0DF) demo_dns s =
      (demo_dns\<lparr>result_ip := 0x9765C0DF, dns_state := DNS_RESOLVED\<rparr>, s)"
    using reply_taken [OF h(1,2) _ pypi_labels h(3-6), where drv = "\<lambda>_ _. True" and now = 0 and ttl = 60 and ip = "0x9765C0DF" and s = s] h(7) by simp
  show "dns_state demo_dns = DNS_QUERYING" by (rule h(1))
qed

subsection \<open>How long a lookup can last\<close>

datatype dns_event = Dns_Datagram u32 u32 u16 bytes | Dns_Poll u32 u32

definition dns_step :: "driver \<Rightarrow> dns_event \<Rightarrow> dns_client_t \<times> net \<Rightarrow> dns_client_t \<times> net" where
  "dns_step drv e = (\<lambda>(d, s). case e of
     Dns_Datagram now src port data \<Rightarrow> dns_handle_reply drv now src port data d s
   | Dns_Poll t now \<Rightarrow> dns_poll drv now d (s\<lparr>net_ticks := t\<rparr>))"

text \<open>A poll that finds the time of the attempt in flight used up.\<close>

definition dns_expires :: "dns_event \<Rightarrow> dns_client_t \<Rightarrow> bool" where
  "dns_expires e d \<longleftrightarrow> dns_state d = DNS_QUERYING \<and> (case e of
     Dns_Datagram _ _ _ _ \<Rightarrow> False
   | Dns_Poll t now \<Rightarrow> (now + 86400 - query_wall d) mod 86400 \<ge> DNS_ATTEMPT_SECONDS \<or> t - query_tick d > DNS_TICK_BACKSTOP)"

fun dns_timeouts :: "driver \<Rightarrow> dns_event list \<Rightarrow> dns_client_t \<times> net \<Rightarrow> nat" where
  "dns_timeouts drv [] ds = 0"
| "dns_timeouts drv (e # es) ds = of_bool (dns_expires e (fst ds)) + dns_timeouts drv es (dns_step drv e ds)"

text \<open>The arrays of the client hold what is in them, and the attempt in flight is one of the list.\<close>

definition dns_ok :: "dns_client_t \<Rightarrow> bool" where
  "dns_ok d \<longleftrightarrow> length (servers d) = DNS_MAX_ATTEMPTS \<and> nattempts d \<le> DNS_MAX_ATTEMPTS \<and>
     (dns_state d = DNS_QUERYING \<longrightarrow> attempt d < nattempts d) \<and> length (dns_fail d) < DNS_FAIL_SIZE \<and> length (hostname d) < DNS_MAX_NAME"

lemma fail_append_frame [frame_simps]:
  "servers (dns_fail_append t d) = servers d" "nattempts (dns_fail_append t d) = nattempts d" "attempt (dns_fail_append t d) = attempt d"
  "dns_state (dns_fail_append t d) = dns_state d" "hostname (dns_fail_append t d) = hostname d"
  "length (dns_fail d) < DNS_FAIL_SIZE \<Longrightarrow> length (dns_fail (dns_fail_append t d)) < DNS_FAIL_SIZE"
  by (auto simp: dns_fail_append_def)

lemma send_attempt_frame [frame_simps]:
  "servers (fst (dns_send_attempt drv now d s)) = servers d" "nattempts (fst (dns_send_attempt drv now d s)) = nattempts d"
  "attempt (fst (dns_send_attempt drv now d s)) = attempt d" "dns_state (fst (dns_send_attempt drv now d s)) = dns_state d"
  "hostname (fst (dns_send_attempt drv now d s)) = hostname d" "dns_fail (fst (dns_send_attempt drv now d s)) = dns_fail d"
  by (simp_all add: dns_send_attempt_def Let_def)

lemma tried_frame:
  "let d' = fold (\<lambda>i d. if \<exists>k<i. servers d ! k = servers d ! i then d
        else dns_fail_append (dns_ip_str (servers d ! i)) (dns_fail_append t d)) is d
   in servers d' = servers d \<and> nattempts d' = nattempts d \<and> hostname d' = hostname d \<and>
      (length (dns_fail d) < DNS_FAIL_SIZE \<longrightarrow> length (dns_fail d') < DNS_FAIL_SIZE)"
  by (induction "is" arbitrary: d) (auto simp: Let_def frame_simps)

lemma next_attempt_ok:
  assumes "dns_ok d" "dns_state d = DNS_QUERYING"
  shows "dns_ok (fst (dns_next_attempt_or_fail drv now why d s)) \<and>
    nattempts (fst (dns_next_attempt_or_fail drv now why d s)) = nattempts d \<and>
    (dns_state (fst (dns_next_attempt_or_fail drv now why d s)) = DNS_QUERYING \<longrightarrow>
       attempt (fst (dns_next_attempt_or_fail drv now why d s)) = attempt d + 1)"
proof (cases "attempt d + 1 < nattempts d")
  case True
  thus ?thesis using assms by (auto simp: dns_next_attempt_or_fail_def dns_ok_def frame_simps)
next
  case False
  let ?d = "dns_fail_append (dns_ascii '' Tried:'') (dns_fail_append why (d\<lparr>dns_fail := []\<rparr>))"
  have l: "length (dns_fail ?d) < DNS_FAIL_SIZE" by (intro fail_append_frame(6)) (simp add: DNS_FAIL_SIZE_def)
  show ?thesis using False assms tried_frame [of "dns_ascii '' ''" "[0..<nattempts d]" ?d] l
    by (auto simp: dns_next_attempt_or_fail_def dns_ok_def Let_def frame_simps)
qed

lemma take_answer_ok:
  assumes "dns_ok d" "dns_state d = DNS_QUERYING"
  shows "dns_ok (fst (dns_take_answer drv now src data r pos d s)) \<and>
    nattempts (fst (dns_take_answer drv now src data r pos d s)) = nattempts d \<and>
    (dns_state (fst (dns_take_answer drv now src data r pos d s)) = DNS_QUERYING \<longrightarrow>
       attempt d \<le> attempt (fst (dns_take_answer drv now src data r pos d s)))"
proof -
  note n = next_attempt_ok [OF assms, of drv now "dns_ascii ''Server error '' @ [of_nat (48 + unat r mod 10)]" s]
  have f: "length (dns_fail (dns_fail_append t (d\<lparr>dns_fail := []\<rparr>))) < DNS_FAIL_SIZE" for t
    by (rule fail_append_frame(6)) (simp add: DNS_FAIL_SIZE_def)
  have f3: "length (dns_fail (dns_fail_append t3 (dns_fail_append t2 (dns_fail_append t (d\<lparr>dns_fail := []\<rparr>))))) < DNS_FAIL_SIZE" for t t2 t3
    by (intro fail_append_frame(6)) (simp add: DNS_FAIL_SIZE_def)
  consider "r = 3" | "r \<noteq> 0" "r \<noteq> 3" | "r = 0" by blast
  thus ?thesis
  proof cases
    case 1
    thus ?thesis using assms f3 by (simp add: dns_take_answer_def dns_ok_def frame_simps)
  next
    case 2
    thus ?thesis using n by (simp add: dns_take_answer_def)
  next
    case 3
    thus ?thesis using assms f by (auto simp: dns_take_answer_def dns_ok_def frame_simps split: dns_walk.splits)
  qed
qed

lemma reply_cases:
  assumes "P (d, s)" "\<And>r pos. P (dns_take_answer drv now src data r pos d s)"
  shows "P (dns_handle_reply drv now src port data d s)"
  using assms by (simp add: dns_handle_reply_def Let_def split: option.split)

lemma dns_step_ok:
  assumes "dns_ok (fst ds)"
  shows "dns_ok (fst (dns_step drv e ds)) \<and>
    (if dns_state (fst ds) = DNS_QUERYING
     then nattempts (fst (dns_step drv e ds)) = nattempts (fst ds) \<and>
       (dns_state (fst (dns_step drv e ds)) = DNS_QUERYING \<longrightarrow>
          attempt (fst ds) + of_bool (dns_expires e (fst ds)) \<le> attempt (fst (dns_step drv e ds)))
     else dns_state (fst (dns_step drv e ds)) \<noteq> DNS_QUERYING \<and> \<not> dns_expires e (fst ds))"
proof -
  obtain d s where ds: "ds = (d, s)" by (cases ds)
  show ?thesis
  proof (cases "dns_state d = DNS_QUERYING")
    case False
    thus ?thesis using assms unfolding ds
      by (cases e) (simp_all add: dns_step_def dns_handle_reply_def dns_poll_def dns_expires_def)
  next
    case q: True
    have ok: "dns_ok d" using assms ds by simp
    show ?thesis
    proof (cases e)
      case (Dns_Poll t now)
      show ?thesis using q ok next_attempt_ok [OF ok q] unfolding ds Dns_Poll
        by (auto simp: dns_step_def dns_poll_def dns_expires_def Let_def)
    next
      case (Dns_Datagram now src port data)
      let ?d' = "fst (dns_handle_reply drv now src port data d s)"
      have "?d' = d \<or> (\<exists>r pos. ?d' = fst (dns_take_answer drv now src data r pos d s))"
        by (rule reply_cases [where P = "\<lambda>x. fst x = d \<or> (\<exists>r pos. fst x = fst (dns_take_answer drv now src data r pos d s))"]) auto
      thus ?thesis using q ok take_answer_ok [OF ok q] unfolding ds Dns_Datagram
        by (auto simp: dns_step_def dns_expires_def)
    qed
  qed
qed

lemma timeouts_bound:
  assumes "dns_ok (fst ds)"
  shows "(if dns_state (fst ds) = DNS_QUERYING then dns_timeouts drv es ds + attempt (fst ds) \<le> nattempts (fst ds) else dns_timeouts drv es ds = 0) \<and>
    (dns_state (fst (fold (dns_step drv) es ds)) = DNS_QUERYING \<longrightarrow>
       dns_state (fst ds) = DNS_QUERYING \<and> dns_timeouts drv es ds + attempt (fst ds) < nattempts (fst ds)) \<and>
    dns_ok (fst (fold (dns_step drv) es ds))"
  using assms
proof (induction es arbitrary: ds)
  case Nil
  thus ?case by (auto simp: dns_ok_def)
next
  case (Cons e es)
  note st = dns_step_ok [OF Cons.prems, of drv e]
  note ih = Cons.IH [OF conjunct1 [OF st]]
  have "attempt (fst ds) < nattempts (fst ds)" if "dns_state (fst ds) = DNS_QUERYING" using Cons.prems that by (simp add: dns_ok_def)
  thus ?case using st ih
    by (cases "dns_state (fst ds) = DNS_QUERYING"; cases "dns_state (fst (dns_step drv e ds)) = DNS_QUERYING"; cases "dns_expires e (fst ds)") auto
qed

lemma resolve_ok:
  assumes "length (servers d) = DNS_MAX_ATTEMPTS"
  shows "dns_ok (fst (dns_resolve drv now host d s)) \<and> dns_state (fst (dns_resolve drv now host d s)) = DNS_QUERYING \<and>
    attempt (fst (dns_resolve drv now host d s)) = 0"
proof -
  let ?l = "take DNS_MAX_ATTEMPTS (filter (\<lambda>w. w \<noteq> 0) [dns_ip (net_cfg s), dns_ip (net_cfg s), gateway_ip (net_cfg s), 0x08080808, 0x01010101])"
  have "0 < length ?l" "length ?l \<le> DNS_MAX_ATTEMPTS" by (simp_all add: DNS_MAX_ATTEMPTS_def)
  thus ?thesis using assms by (simp add: dns_resolve_def Let_def frame_simps dns_ok_def DNS_FAIL_SIZE_def DNS_MAX_NAME_def)
qed

subsection \<open>The question as it goes out\<close>

lemma encode_dot: "dns_encode_name (host @ [DOT_CH]) = dns_encode_name host @ [0]"
proof -
  have "dns_encode_from lab (host @ [DOT_CH]) = dns_encode_from lab host @ [0]" for lab
    by (induction lab host rule: dns_encode_from.induct) simp_all
  thus ?thesis by (simp add: dns_encode_name_def)
qed

lemma length_query: "length (dns_query qid host) = 18 + length host"
  by (simp add: dns_query_def length_encode_name)

lemma question_reads:
  assumes "ls \<noteq> []" "\<forall>l\<in>set ls. dns_label l" "length (dns_text ls) < 128" "dns_encode_name host = dns_wire ls @ extra"
  shows "dns_decode_name (dns_query qid host) 12 256 = Some (map dns_lower (dns_text ls))"
    "dns_skip_name (dns_query qid host) 12 = length (dns_wire ls)"
    "slice (12 + length (dns_wire ls)) (length extra + 4) (dns_query qid host) = extra @ [0, 1, 0, 1]"
proof -
  let ?h = "net_put16_be qid @ net_put16_be 0x0100 @ net_put16_be 1 @ net_put16_be 0 @ net_put16_be 0 @ net_put16_be 0"
  let ?t = "extra @ net_put16_be DNS_TYPE_A @ net_put16_be DNS_CLASS_IN"
  have q: "dns_query qid host = ?h @ dns_wire ls @ ?t" using assms(4) by (simp add: dns_query_def)
  have h: "length ?h = 12" by simp
  have lt: "dns_text (map (map dns_lower) ls) = map dns_lower (dns_text ls)" by (rule length_lower_text) (rule lower_dot)
  show "dns_decode_name (dns_query qid host) 12 256 = Some (map dns_lower (dns_text ls))"
    using decode_wire [of ls "[]" 256 ?h ?t 0] assms(1-3) lt unfolding q h by (simp add: dns_join_def dns_decode_name_def)
  show "dns_skip_name (dns_query qid host) 12 = length (dns_wire ls)"
    using skip_wire [OF assms(2), of 12 ?h ?t] unfolding q h by (simp add: dns_skip_name_def)
  have "net_put16_be DNS_TYPE_A @ net_put16_be DNS_CLASS_IN = [0, 1, 0, 1]"
    by (simp add: net_put16_be_def DNS_TYPE_A_def DNS_CLASS_IN_def)
  thus "slice (12 + length (dns_wire ls)) (length extra + 4) (dns_query qid host) = extra @ [0, 1, 0, 1]"
    unfolding q slice_def using h by simp
qed

lemma dot_label: "\<forall>l\<in>set ls. dns_label l \<Longrightarrow> \<forall>l\<in>set ls. DOT_CH \<notin> set l"
  by (simp add: dns_label_def)

subsection \<open>The properties\<close>

text \<open>Claim C13. The resolver believes exactly the answers to its own question: a datagram turns a waiting lookup into a resolved
  one if and only if it comes from port 53 of a server the lookup has asked, is a response with the id of the query and
  no error code, repeats the one question asked (the host name, type A, class IN), and its records give the host name the
  address, through CNAME records at most; then that address is the result.\<close>

theorem dns_believes_exactly:
  assumes "dns_state d = DNS_QUERYING" "dns_handle_reply drv now src port data d s = (d', s')"
  shows "dns_state d' = DNS_RESOLVED \<longleftrightarrow>
    port = DNS_SERVER_PORT \<and> (\<exists>k<nattempts d. k \<le> attempt d \<and> servers d ! k = src) \<and> 12 \<le> length data \<and>
    net_get16_be data 0 = query_id d \<and> net_get16_be data 2 AND 0x8000 \<noteq> 0 \<and> drop_bit 11 (net_get16_be data 2) AND 0x0F = 0 \<and>
    net_get16_be data 2 AND 0x0F = 0 \<and> net_get16_be data 4 = 1 \<and>
    (\<exists>qname q. dns_decode_name data 12 256 = Some qname \<and> dns_name_eq (cstr qname) (hostname d) \<and>
       q = 12 + dns_skip_name data 12 \<and> 12 < q \<and> q + 4 \<le> length data \<and>
       net_get16_be data q = DNS_TYPE_A \<and> net_get16_be data (q + 2) = DNS_CLASS_IN \<and>
       dns_gives data (unat (net_get16_be data 6)) (q + 4) (map dns_lower (hostname d)) (result_ip d'))"
proof -
  have t: "dns_state (fst (dns_take_answer drv now src data r pos d s)) = DNS_RESOLVED \<longleftrightarrow>
      r = 0 \<and> dns_gives data (unat (net_get16_be data 6)) pos (map dns_lower (hostname d)) (result_ip (fst (dns_take_answer drv now src data r pos d s)))"
    for r pos
    using assms(1) answers_gives [of data "unat (net_get16_be data 6)" pos "map dns_lower (hostname d)" False]
    by (auto simp: dns_take_answer_def next_attempt_state split: dns_walk.splits if_splits)
  define A where "A \<longleftrightarrow> (\<exists>k<nattempts d. k \<le> attempt d \<and> servers d ! k = src)"
  define hd where "hd \<longleftrightarrow> port = DNS_SERVER_PORT \<and> A \<and> 12 \<le> length data \<and>
    net_get16_be data 0 = query_id d \<and> net_get16_be data 2 AND 0x8000 \<noteq> 0 \<and> drop_bit 11 (net_get16_be data 2) AND 0x0F = 0"
  have asked: "(\<exists>k\<in>set [0..<nattempts d]. k \<le> attempt d \<and> servers d ! k = src) = A" by (auto simp: A_def)
  show ?thesis
  proof (cases hd)
    case False
    hence "d' = d" using assms unfolding dns_handle_reply_def asked hd_def Let_def
      by (cases "port = DNS_SERVER_PORT"; cases A; cases "length data < 12"; cases "net_get16_be data 0 = query_id d";
          cases "net_get16_be data 2 AND 0x8000 = 0"; simp)
    thus ?thesis using False assms(1) unfolding hd_def A_def by auto
  next
    case True
    let ?r = "net_get16_be data 2 AND 0x0F" and ?q = "12 + dns_skip_name data 12"
    have h: "dns_handle_reply drv now src port data d s =
       (if net_get16_be data 4 > 1 then (d, s)
        else if net_get16_be data 4 = 1 then
          (case dns_decode_name data 12 256 of None \<Rightarrow> (d, s)
           | Some qname \<Rightarrow> if dns_skip_name data 12 = 0 \<or> ?q + 4 > length data then (d, s)
               else if \<not> dns_name_eq (cstr qname) (hostname d) \<or> net_get16_be data ?q \<noteq> DNS_TYPE_A \<or>
                       net_get16_be data (?q + 2) \<noteq> DNS_CLASS_IN then (d, s)
               else dns_take_answer drv now src data ?r (?q + 4) d s)
        else if ?r = 0 \<or> ?r = 3 then (d, s) else dns_take_answer drv now src data ?r 12 d s)"
      using True assms(1) unfolding dns_handle_reply_def asked Let_def hd_def by simp
    have d': "d' = fst (dns_handle_reply drv now src port data d s)" using assms(2) by simp
    show ?thesis
    proof (cases "net_get16_be data 4 = 1")
      case one: True
      show ?thesis
      proof (cases "dns_decode_name data 12 256")
        case None
        thus ?thesis using d' h one assms(1) by simp
      next
        case (Some qname)
        show ?thesis using True t [of ?r "?q + 4"] assms(1) one Some unfolding hd_def A_def d' h by (auto simp: not_less)
      qed
    next
      case False
      thus ?thesis using d' h assms(1) t [of ?r 12] by auto
    qed
  qed
qed

lemma dns_believes_exactly_witness:
  "\<exists>q. dns_gives (server_reply 7 [[0x70, 0x79, 0x70, 0x69], [0x6F, 0x72, 0x67]] 60 0x9765C0DF)
     (unat (net_get16_be (server_reply 7 [[0x70, 0x79, 0x70, 0x69], [0x6F, 0x72, 0x67]] 60 0x9765C0DF) 6)) q
     (dns_text [[0x70, 0x79, 0x70, 0x69], [0x6F, 0x72, 0x67]]) 0x9765C0DF"
proof -
  have "map dns_lower (hostname demo_dns) = dns_text [[0x70, 0x79, 0x70, 0x69], [0x6F, 0x72, 0x67]]"
    by (simp add: demo_dns_def dns_lower_def DOT_CH_def)
  thus ?thesis using dns_believes_exactly [OF demo_dns_taken(2) demo_dns_taken(1) [of undefined]] by auto
qed

text \<open>Claim C14. A genuine answer is taken: while the lookup of a host name of well-formed labels is waiting, the message of a server
  it has asked that repeats the question and gives one A record, whose owner is a compression pointer to the question,
  resolves the lookup to that record's address.\<close>

theorem dns_answer_taken:
  assumes "dns_state d = DNS_QUERYING" "hostname d = dns_text ls" "ls \<noteq> []" "\<forall>l\<in>set ls. dns_label l"
    "length (hostname d) < 128" "k < nattempts d" "k \<le> attempt d" "servers d ! k = src"
  shows "dns_handle_reply drv now src DNS_SERVER_PORT (server_reply (query_id d) ls ttl ip) d s =
    (d\<lparr>result_ip := ip, dns_state := DNS_RESOLVED\<rparr>, s)"
  by (rule reply_taken [OF assms])

lemma dns_answer_taken_witness:
  "result_ip (fst (dns_handle_reply (\<lambda>_ _. False) 5 0x08080808 DNS_SERVER_PORT (server_reply 7 [[0x61], [0x62, 0x63]] 1 0x01020304)
     (demo_dns\<lparr>hostname := dns_text [[0x61], [0x62, 0x63]]\<rparr>) undefined)) = 0x01020304"
proof -
  let ?d = "demo_dns\<lparr>hostname := dns_text [[0x61], [0x62, 0x63]]\<rparr>"
  have h: "dns_state ?d = DNS_QUERYING" "hostname ?d = dns_text [[0x61], [0x62, 0x63]]" "[[0x61], [0x62, 0x63]] \<noteq> []"
    "\<forall>l\<in>set [[0x61], [0x62, 0x63]]. dns_label l" "length (hostname ?d) < 128" "0 < nattempts ?d" "0 \<le> attempt ?d"
    "servers ?d ! 0 = 0x08080808" "query_id ?d = 7"
    by (simp_all add: demo_dns_def dns_label_def DOT_CH_def)
  show ?thesis using dns_answer_taken [OF h(1-8), where drv = "\<lambda>_ _. False" and now = 5 and ttl = 1 and ip = "0x01020304" and s = undefined] h(9)
    by simp
qed

text \<open>Claim C15. Every lookup ends: whatever datagrams arrive and whenever the resolver is polled, at most four polls of a
  lookup find the time of an attempt used up, and once as many have as the lookup has attempts it is no longer waiting; the
  attempt in flight is always one of the list, and the failure text and the host name stay inside their arrays (the packet a
  question is built in does not: dns_query_overruns).\<close>

theorem dns_lookup_ends:
  assumes "length (servers d) = DNS_MAX_ATTEMPTS" "dns_resolve drv now host d s = (d0, s0)"
  shows "dns_timeouts drv es (d0, s0) \<le> nattempts d0 \<and> nattempts d0 \<le> 4 \<and>
    (dns_timeouts drv es (d0, s0) = nattempts d0 \<longrightarrow> dns_state (fst (fold (dns_step drv) es (d0, s0))) \<noteq> DNS_QUERYING) \<and>
    dns_ok (fst (fold (dns_step drv) es (d0, s0)))"
proof -
  have r: "dns_ok d0" "dns_state d0 = DNS_QUERYING" "attempt d0 = 0"
    using resolve_ok [OF assms(1), of drv now host s] unfolding assms(2) by simp_all
  have "nattempts d0 \<le> 4" using r(1) by (simp add: dns_ok_def DNS_MAX_ATTEMPTS_def)
  thus ?thesis using timeouts_bound [of "(d0, s0)" drv es] r by auto
qed

lemma dns_lookup_ends_witness:
  "dns_ok (fst (fold (dns_step (\<lambda>_ _. False)) [Dns_Poll 1 3, Dns_Poll 2 7] (dns_resolve (\<lambda>_ _. False) 0 [0x61] demo_dns undefined)))"
proof -
  obtain d0 s0 where r: "dns_resolve (\<lambda>_ _. False) 0 [0x61] demo_dns undefined = (d0, s0)" by (cases "dns_resolve (\<lambda>_ _. False) 0 [0x61] demo_dns undefined")
  have "length (servers demo_dns) = DNS_MAX_ATTEMPTS" by (simp add: demo_dns_def DNS_MAX_ATTEMPTS_def)
  from dns_lookup_ends [OF this r, of "[Dns_Poll 1 3, Dns_Poll 2 7]"] show ?thesis unfolding r by blast
qed

text \<open>The question reads back: for a host name of well-formed labels the message dns_send_attempt builds is a name that
  dns_decode_name reads as the host name in lower case, and the four bytes after it ask for type A and class IN. With a
  trailing dot on the host name, which dns_name_eq accepts on either side, the encoder writes a second empty label: the name is
  the same, but the four bytes after it read type 0 and class 0x100, and one byte is left over.\<close>

theorem dns_question_asked:
  assumes "ls \<noteq> []" "\<forall>l\<in>set ls. dns_label l" "length (dns_text ls) < 128"
  shows "(let q = dns_query qid (dns_text ls) in
      dns_decode_name q 12 256 = Some (map dns_lower (dns_text ls)) \<and> drop (12 + dns_skip_name q 12) q = [0, 1, 0, 1]) \<and>
    (let q = dns_query qid (dns_text ls @ [DOT_CH]) in
      dns_decode_name q 12 256 = Some (map dns_lower (dns_text ls)) \<and> drop (12 + dns_skip_name q 12) q = [0, 0, 1, 0, 1])"
proof -
  have e: "dns_encode_name (dns_text ls) = dns_wire ls @ []" "dns_encode_name (dns_text ls @ [DOT_CH]) = dns_wire ls @ [0]"
    using encode_text [OF assms(1) dot_label [OF assms(2)]] by (simp_all add: encode_dot)
  show ?thesis using question_reads [OF assms e(1), of qid] question_reads [OF assms e(2), of qid]
    by (simp add: slice_def length_query length_wire [OF assms(1)])
qed

lemma dns_question_asked_witness:
  "drop (12 + dns_skip_name (dns_query 9 [0x61, 0x62, DOT_CH]) 12) (dns_query 9 [0x61, 0x62, DOT_CH]) = [0, 0, 1, 0, 1]"
proof -
  have "\<forall>l\<in>set [[0x61, 0x62]]. dns_label l" "length (dns_text [[0x61, 0x62]]) < 128" by (simp_all add: dns_label_def DOT_CH_def)
  from dns_question_asked [OF _ this, of 9] show ?thesis by (simp add: Let_def)
qed

text \<open>The array the question is built in, 12 + DNS_MAX_NAME + 4 bytes, is one byte too small for the longest host name that
  dns_resolve keeps: the message is 18 bytes longer than the name, so that it leaves the array exactly for a name of
  DNS_MAX_NAME - 1 bytes or more.\<close>

theorem dns_query_overruns:
  "(case dns_resolve drv now host d s of (d', s') \<Rightarrow>
     12 + DNS_MAX_NAME + 4 < length (dns_query (query_id d') (hostname d'))) \<longleftrightarrow> DNS_MAX_NAME - 1 \<le> length host"
proof -
  have "hostname (fst (dns_resolve drv now host d s)) = take (DNS_MAX_NAME - 1) host"
    by (simp add: dns_resolve_def Let_def frame_simps)
  thus ?thesis by (auto simp: case_prod_beta length_query DNS_MAX_NAME_def min_def)
qed

end
