(* ===== verification/Dhcp.thy ===== *)
theory Dhcp
  imports Icmp_Udp
begin

text \<open>
  dhcp.h: the four-packet conversation that gives the machine its address, and the lease that follows it. The statics of the
  file are the fields of dhcp_t; the address itself is net_cfg of net.h. The wall clock (net_wall_seconds) and the timestamp
  counter of the processor (rdtsc) are arguments: clk k is the k-th value a call reads from the clock, now the only one of a call
  that reads it once; the log lines and the test hook that loses
  packets are left out.
\<close>

subsection \<open>Constants and state\<close>

definition DHCP_CLIENT_PORT :: u16 where "DHCP_CLIENT_PORT = 68"
definition DHCP_SERVER_PORT :: u16 where "DHCP_SERVER_PORT = 67"
definition DHCP_OP_REQUEST :: u8 where "DHCP_OP_REQUEST = 1"
definition DHCP_OP_REPLY :: u8 where "DHCP_OP_REPLY = 2"
definition DHCP_HTYPE_ETH :: u8 where "DHCP_HTYPE_ETH = 1"
definition DHCP_MSG_DISCOVER :: u8 where "DHCP_MSG_DISCOVER = 1"
definition DHCP_MSG_OFFER :: u8 where "DHCP_MSG_OFFER = 2"
definition DHCP_MSG_REQUEST :: u8 where "DHCP_MSG_REQUEST = 3"
definition DHCP_MSG_ACK :: u8 where "DHCP_MSG_ACK = 5"
definition DHCP_MSG_NAK :: u8 where "DHCP_MSG_NAK = 6"
definition DHCP_MAGIC_COOKIE :: u32 where "DHCP_MAGIC_COOKIE = 0x63825363"
definition DHCP_OPT_PAD :: u8 where "DHCP_OPT_PAD = 0"
definition DHCP_OPT_SUBNET_MASK :: u8 where "DHCP_OPT_SUBNET_MASK = 1"
definition DHCP_OPT_ROUTER :: u8 where "DHCP_OPT_ROUTER = 3"
definition DHCP_OPT_DNS :: u8 where "DHCP_OPT_DNS = 6"
definition DHCP_OPT_REQUESTED_IP :: u8 where "DHCP_OPT_REQUESTED_IP = 50"
definition DHCP_OPT_LEASE_TIME :: u8 where "DHCP_OPT_LEASE_TIME = 51"
definition DHCP_OPT_MSG_TYPE :: u8 where "DHCP_OPT_MSG_TYPE = 53"
definition DHCP_OPT_SERVER_ID :: u8 where "DHCP_OPT_SERVER_ID = 54"
definition DHCP_OPT_PARAM_REQ :: u8 where "DHCP_OPT_PARAM_REQ = 55"
definition DHCP_OPT_END :: u8 where "DHCP_OPT_END = 255"
definition DHCP_FIXED_LEN :: nat where "DHCP_FIXED_LEN = 236"

lemmas dhcp_consts = DHCP_CLIENT_PORT_def DHCP_SERVER_PORT_def DHCP_OP_REQUEST_def DHCP_OP_REPLY_def DHCP_HTYPE_ETH_def
  DHCP_MSG_DISCOVER_def DHCP_MSG_OFFER_def DHCP_MSG_REQUEST_def DHCP_MSG_ACK_def DHCP_MSG_NAK_def DHCP_MAGIC_COOKIE_def
  DHCP_OPT_PAD_def DHCP_OPT_SUBNET_MASK_def DHCP_OPT_ROUTER_def DHCP_OPT_DNS_def DHCP_OPT_REQUESTED_IP_def
  DHCP_OPT_LEASE_TIME_def DHCP_OPT_MSG_TYPE_def DHCP_OPT_SERVER_ID_def DHCP_OPT_PARAM_REQ_def DHCP_OPT_END_def DHCP_FIXED_LEN_def

datatype dhcp_state_t =
  DHCP_STATE_IDLE | DHCP_STATE_DISCOVER_SENT | DHCP_STATE_REQUEST_SENT | DHCP_STATE_BOUND | DHCP_STATE_RENEWING | DHCP_STATE_REBINDING

record dhcp_t =
  dhcp_state :: dhcp_state_t
  dhcp_offered_ip :: u32
  dhcp_server_id :: u32
  dhcp_last_sent_wall :: u32
  dhcp_last_sent_tick :: u32
  dhcp_tries :: nat
  dhcp_started :: bool
  dhcp_xid :: u32
  dhcp_lease_secs :: u32
  dhcp_lease_age :: u32
  dhcp_lease_mark :: u32
  dhcp_lease_tick_mark :: u32
  dhcp_ciaddr :: u32

definition dhcp_boot :: dhcp_t where
  "dhcp_boot = \<lparr>dhcp_state = DHCP_STATE_IDLE, dhcp_offered_ip = 0, dhcp_server_id = 0, dhcp_last_sent_wall = 0, dhcp_last_sent_tick = 0,
     dhcp_tries = 0, dhcp_started = False, dhcp_xid = 0x1234ABCD, dhcp_lease_secs = 0, dhcp_lease_age = 0, dhcp_lease_mark = 0,
     dhcp_lease_tick_mark = 0, dhcp_ciaddr = 0\<rparr>"

definition dhcp_wall_elapsed :: "u32 \<Rightarrow> u32 \<Rightarrow> u32" where "dhcp_wall_elapsed now since = (now + 86400 - since) mod 86400"

definition dhcp_new_xid :: "u64 \<Rightarrow> u32 \<Rightarrow> dhcp_t \<Rightarrow> net \<Rightarrow> u32" where
  "dhcp_new_xid tsc now d s =
     (let lo = ucast tsc; hi = ucast (drop_bit 32 tsc);
          x = lo XOR (hi * 0x9E3779B1) XOR (net_ticks s * 2654435761) XOR (now * 40503) XOR (dhcp_xid d * 1664525 + 1013904223);
          x = fold (\<lambda>i x. (push_bit 7 x OR drop_bit 25 x) XOR (ucast (nic_mac s ! i) * 0x01000193)) [0..<6] x;
          x = x XOR push_bit 13 x;
          x = x XOR drop_bit 17 x;
          x = x XOR push_bit 5 x
      in if x = 0 then 0xA5A5A5A5 else x)"

subsection \<open>Packets\<close>

definition dhcp_build_packet :: "u8 \<Rightarrow> u32 \<Rightarrow> u32 \<Rightarrow> dhcp_t \<Rightarrow> net \<Rightarrow> bytes" where
  "dhcp_build_packet msg_type requested_ip server_id d s =
     [DHCP_OP_REQUEST, DHCP_HTYPE_ETH, 6, 0] @ net_put32_be (dhcp_xid d) @ net_put16_be 0 @
     net_put16_be (if dhcp_ciaddr d \<noteq> 0 then 0x0000 else 0x8000) @ net_put32_be (dhcp_ciaddr d) @ replicate 12 0 @
     map (\<lambda>i. nic_mac s ! i) [0..<6] @ replicate (DHCP_FIXED_LEN - 34) 0 @
     net_put32_be DHCP_MAGIC_COOKIE @
     [DHCP_OPT_MSG_TYPE, 1, msg_type] @
     (if requested_ip \<noteq> 0 then [DHCP_OPT_REQUESTED_IP, 4] @ net_put32_be requested_ip else []) @
     (if server_id \<noteq> 0 then [DHCP_OPT_SERVER_ID, 4] @ net_put32_be server_id else []) @
     [DHCP_OPT_PARAM_REQ, 3, DHCP_OPT_SUBNET_MASK, DHCP_OPT_ROUTER, DHCP_OPT_DNS, DHCP_OPT_END]"

definition dhcp_sent :: "u32 \<Rightarrow> net \<Rightarrow> dhcp_t \<Rightarrow> dhcp_t" where
  "dhcp_sent now s d = d\<lparr>dhcp_last_sent_wall := now, dhcp_last_sent_tick := net_ticks s\<rparr>"

definition dhcp_send_discover :: "driver \<Rightarrow> u32 \<Rightarrow> dhcp_t \<Rightarrow> net \<Rightarrow> dhcp_t \<times> net" where
  "dhcp_send_discover drv now d s =
     (let pkt = dhcp_build_packet DHCP_MSG_DISCOVER 0 0 d s;
          s = snd (udp_send drv 0 DHCP_CLIENT_PORT NET_IP4_BROADCAST DHCP_SERVER_PORT pkt s)
      in (dhcp_sent now s (d\<lparr>dhcp_state := DHCP_STATE_DISCOVER_SENT\<rparr>), s))"

definition dhcp_send_request :: "driver \<Rightarrow> u32 \<Rightarrow> u32 \<Rightarrow> u32 \<Rightarrow> dhcp_t \<Rightarrow> net \<Rightarrow> dhcp_t \<times> net" where
  "dhcp_send_request drv now requested_ip server_id d s =
     (let pkt = dhcp_build_packet DHCP_MSG_REQUEST requested_ip server_id d s;
          s = snd (udp_send drv 0 DHCP_CLIENT_PORT NET_IP4_BROADCAST DHCP_SERVER_PORT pkt s)
      in (dhcp_sent now s (d\<lparr>dhcp_state := DHCP_STATE_REQUEST_SENT\<rparr>), s))"

text \<open>The options from the read position on; the value of an option is its first four bytes at most. The 16-bit index of the C
  loop does not wrap: a UDP datagram leaves less than 65276 bytes for the options, and an option is at most 257 bytes long.\<close>

function dhcp_find_option :: "bytes \<Rightarrow> u8 \<Rightarrow> u32 option" where
  "dhcp_find_option opts want_opt =
     (case opts of [] \<Rightarrow> None
      | opt # r \<Rightarrow>
          if opt = DHCP_OPT_END then None
          else if opt = DHCP_OPT_PAD then dhcp_find_option r want_opt
          else (case r of [] \<Rightarrow> None
                | opt_len # body \<Rightarrow>
                    if unat opt_len > length body then None
                    else if opt = want_opt
                    then Some (foldl (\<lambda>v b. push_bit 8 v OR ucast b) 0 (take 4 (take (unat opt_len) body)))
                    else dhcp_find_option (drop (unat opt_len) body) want_opt))"
  by pat_completeness auto

termination by (relation "measure (\<lambda>(opts, want_opt). length opts)") auto

declare dhcp_find_option.simps [simp del]

definition opt_or_0 :: "u32 option \<Rightarrow> u32" where "opt_or_0 v = (case v of None \<Rightarrow> 0 | Some x \<Rightarrow> x)"

subsection \<open>Replies\<close>

definition dhcp_drop_lease :: "u32 \<Rightarrow> dhcp_t \<Rightarrow> net \<Rightarrow> dhcp_t \<times> net" where
  "dhcp_drop_lease now d s =
     (let s = s\<lparr>net_cfg := \<lparr>my_ip = 0, netmask = 0, gateway_ip = 0, dns_ip = 0, ready = False\<rparr>\<rparr>
      in (dhcp_sent now s (d\<lparr>dhcp_lease_secs := 0, dhcp_ciaddr := 0, dhcp_tries := 0, dhcp_state := DHCP_STATE_IDLE\<rparr>), s))"

text \<open>The tests at the start of dhcp_handle_reply.\<close>

definition dhcp_for_us :: "u16 \<Rightarrow> bytes \<Rightarrow> dhcp_t \<Rightarrow> net \<Rightarrow> bool" where
  "dhcp_for_us src_port data d s \<longleftrightarrow>
     src_port = DHCP_SERVER_PORT \<and> \<not> length data < DHCP_FIXED_LEN + 4 \<and>
     \<not> (data ! 0 \<noteq> DHCP_OP_REPLY \<or> data ! 1 \<noteq> DHCP_HTYPE_ETH \<or> data ! 2 \<noteq> 6) \<and>
     net_get32_be data DHCP_FIXED_LEN = DHCP_MAGIC_COOKIE \<and> net_get32_be data 4 = dhcp_xid d \<and>
     \<not> (\<exists>i\<in>set [0..<6]. data ! (28 + i) \<noteq> nic_mac s ! i)"

definition dhcp_take_offer :: "driver \<Rightarrow> u32 \<Rightarrow> u32 \<Rightarrow> u32 \<Rightarrow> u32 option \<Rightarrow> dhcp_t \<Rightarrow> net \<Rightarrow> dhcp_t \<times> net" where
  "dhcp_take_offer drv now src_ip offered_ip sid d s =
     (if offered_ip = 0 \<or> offered_ip = NET_IP4_BROADCAST then (d, s)
      else
        let server_id = (case sid of None \<Rightarrow> src_ip | Some v \<Rightarrow> v)
        in dhcp_send_request drv now offered_ip server_id (d\<lparr>dhcp_offered_ip := offered_ip, dhcp_server_id := server_id\<rparr>) s)"

text \<open>Whether a reply names a server that is not the one of the conversation.\<close>

definition dhcp_wrong_server :: "u32 option \<Rightarrow> dhcp_t \<Rightarrow> bool" where
  "dhcp_wrong_server sid d \<longleftrightarrow>
     dhcp_state d \<noteq> DHCP_STATE_REBINDING \<and> sid \<noteq> None \<and> dhcp_server_id d \<noteq> 0 \<and> opt_or_0 sid \<noteq> dhcp_server_id d"

definition dhcp_take_ack :: "u32 \<Rightarrow> u32 \<Rightarrow> bytes \<Rightarrow> u32 option \<Rightarrow> dhcp_t \<Rightarrow> net \<Rightarrow> dhcp_t \<times> net" where
  "dhcp_take_ack now offered_ip opts sid d s =
     (let renewing = (dhcp_state d \<noteq> DHCP_STATE_REQUEST_SENT) in
      if dhcp_wrong_server sid d then (d, s)
      else
        let cfg = net_cfg s; expect_ip = (if renewing then my_ip cfg else dhcp_offered_ip d) in
        if offered_ip = 0 \<or> expect_ip \<noteq> 0 \<and> offered_ip \<noteq> expect_ip then (d, s)
        else
          let mask = dhcp_find_option opts DHCP_OPT_SUBNET_MASK;
              router = dhcp_find_option opts DHCP_OPT_ROUTER;
              dns = dhcp_find_option opts DHCP_OPT_DNS;
              lease = dhcp_find_option opts DHCP_OPT_LEASE_TIME;
              cfg = cfg\<lparr>my_ip := offered_ip,
                netmask := (if \<not> renewing \<or> mask \<noteq> None then opt_or_0 mask else netmask cfg),
                gateway_ip := (if \<not> renewing \<or> router \<noteq> None then opt_or_0 router else gateway_ip cfg),
                dns_ip := (if \<not> renewing \<or> dns \<noteq> None then opt_or_0 dns else dns_ip cfg),
                ready := True\<rparr>
          in (d\<lparr>dhcp_server_id := (if sid \<noteq> None then opt_or_0 sid else dhcp_server_id d), dhcp_state := DHCP_STATE_BOUND,
                dhcp_tries := 0, dhcp_ciaddr := 0, dhcp_lease_secs := (if lease \<noteq> None then opt_or_0 lease else 0), dhcp_lease_age := 0,
                dhcp_lease_mark := now, dhcp_lease_tick_mark := net_ticks s\<rparr>, s\<lparr>net_cfg := cfg\<rparr>))"

definition dhcp_take_nak :: "u32 \<Rightarrow> u32 option \<Rightarrow> dhcp_t \<Rightarrow> net \<Rightarrow> dhcp_t \<times> net" where
  "dhcp_take_nak now sid d s =
     (if dhcp_wrong_server sid d then (d, s)
      else if dhcp_state d = DHCP_STATE_REQUEST_SENT then (dhcp_sent now s (d\<lparr>dhcp_state := DHCP_STATE_IDLE\<rparr>), s)
      else dhcp_drop_lease now d s)"

definition dhcp_asking :: "dhcp_state_t \<Rightarrow> bool" where
  "dhcp_asking st \<longleftrightarrow> st = DHCP_STATE_REQUEST_SENT \<or> st = DHCP_STATE_RENEWING \<or> st = DHCP_STATE_REBINDING"

definition dhcp_handle_reply :: "driver \<Rightarrow> u32 \<Rightarrow> u32 \<Rightarrow> u16 \<Rightarrow> bytes \<Rightarrow> dhcp_t \<Rightarrow> net \<Rightarrow> dhcp_t \<times> net" where
  "dhcp_handle_reply drv now src_ip src_port data d s =
     (if \<not> dhcp_for_us src_port data d s then (d, s)
      else
        let offered_ip = net_get32_be data 16;
            opts = drop (DHCP_FIXED_LEN + 4) data;
            msg_type = opt_or_0 (dhcp_find_option opts DHCP_OPT_MSG_TYPE);
            sid = dhcp_find_option opts DHCP_OPT_SERVER_ID
        in
        if msg_type = ucast DHCP_MSG_OFFER \<and> dhcp_state d = DHCP_STATE_DISCOVER_SENT then dhcp_take_offer drv now src_ip offered_ip sid d s
        else if msg_type = ucast DHCP_MSG_ACK \<and> dhcp_asking (dhcp_state d) then dhcp_take_ack now offered_ip opts sid d s
        else if msg_type = ucast DHCP_MSG_NAK \<and> dhcp_asking (dhcp_state d) then dhcp_take_nak now sid d s
        else (d, s))"

subsection \<open>Starting, renewing and repeating\<close>

definition dhcp_start :: "driver \<Rightarrow> u64 \<Rightarrow> (nat \<Rightarrow> u32) \<Rightarrow> 'h \<Rightarrow> 'h udp_listeners \<Rightarrow> dhcp_t \<Rightarrow> net \<Rightarrow> 'h udp_listeners \<times> dhcp_t \<times> net" where
  "dhcp_start drv tsc clk handler ls d s =
     (let d = d\<lparr>dhcp_started := True\<rparr>
      in (snd (udp_listen DHCP_CLIENT_PORT handler ls), dhcp_send_discover drv (clk 1) (d\<lparr>dhcp_xid := dhcp_new_xid tsc (clk 0) d s\<rparr>) s))"

definition dhcp_send_extension :: "driver \<Rightarrow> u32 \<Rightarrow> bool \<Rightarrow> dhcp_t \<Rightarrow> net \<Rightarrow> dhcp_t \<times> net" where
  "dhcp_send_extension drv now broadcast d s =
     (let me = my_ip (net_cfg s);
          pkt = dhcp_build_packet DHCP_MSG_REQUEST 0 0 (d\<lparr>dhcp_ciaddr := me\<rparr>) s;
          dst = (if broadcast \<or> dhcp_server_id d = 0 then NET_IP4_BROADCAST else dhcp_server_id d);
          s = snd (udp_send drv me DHCP_CLIENT_PORT dst DHCP_SERVER_PORT pkt s)
      in (dhcp_sent now s (d\<lparr>dhcp_ciaddr := 0\<rparr>), s))"

text \<open>The clock is read for the seconds since the last sample (clk 0) and again for the mark of this one (clk 1); what comes after
  reads it again.\<close>

definition dhcp_lease_tick :: "driver \<Rightarrow> u64 \<Rightarrow> (nat \<Rightarrow> u32) \<Rightarrow> dhcp_t \<Rightarrow> net \<Rightarrow> dhcp_t \<times> net" where
  "dhcp_lease_tick drv tsc clk d s =
     (if dhcp_lease_secs d = 0 \<or> dhcp_lease_secs d = 0xFFFFFFFF then (d, s)
      else if net_ticks s - dhcp_lease_tick_mark d < 64 then (d, s)
      else
        let d = d\<lparr>dhcp_lease_tick_mark := net_ticks s\<rparr>; el = dhcp_wall_elapsed (clk 0) (dhcp_lease_mark d) in
        if el = 0 then (d, s)
        else
          let d = d\<lparr>dhcp_lease_age := dhcp_lease_age d + el, dhcp_lease_mark := clk 1\<rparr>;
              t1 = dhcp_lease_secs d div 2;
              t2 = dhcp_lease_secs d - dhcp_lease_secs d div 8
          in
          if dhcp_lease_age d \<ge> dhcp_lease_secs d then dhcp_drop_lease (clk 2) d s
          else if dhcp_state d = DHCP_STATE_BOUND \<and> dhcp_lease_age d \<ge> t1 then
            (let d = d\<lparr>dhcp_state := DHCP_STATE_RENEWING\<rparr>
             in dhcp_send_extension drv (clk 3) False (d\<lparr>dhcp_xid := dhcp_new_xid tsc (clk 2) d s\<rparr>) s)
          else if dhcp_state d = DHCP_STATE_RENEWING \<and> dhcp_lease_age d \<ge> t2 then
            (let d = d\<lparr>dhcp_state := DHCP_STATE_REBINDING\<rparr>
             in dhcp_send_extension drv (clk 3) True (d\<lparr>dhcp_xid := dhcp_new_xid tsc (clk 2) d s\<rparr>) s)
          else if (dhcp_state d = DHCP_STATE_RENEWING \<or> dhcp_state d = DHCP_STATE_REBINDING) \<and>
                  dhcp_wall_elapsed (clk 2) (dhcp_last_sent_wall d) \<ge> 30
          then dhcp_send_extension drv (clk 3) (dhcp_state d = DHCP_STATE_REBINDING) d s
          else (d, s))"

definition dhcp_held :: "dhcp_state_t \<Rightarrow> bool" where
  "dhcp_held st \<longleftrightarrow> st = DHCP_STATE_BOUND \<or> st = DHCP_STATE_RENEWING \<or> st = DHCP_STATE_REBINDING"

definition dhcp_poll :: "driver \<Rightarrow> u64 \<Rightarrow> (nat \<Rightarrow> u32) \<Rightarrow> dhcp_t \<Rightarrow> net \<Rightarrow> dhcp_t \<times> net" where
  "dhcp_poll drv tsc clk d s =
     (if \<not> dhcp_started d then (d, s)
      else if dhcp_held (dhcp_state d) then dhcp_lease_tick drv tsc clk d s
      else
        let waited = dhcp_wall_elapsed (clk 0) (dhcp_last_sent_wall d);
            tick_stale = net_ticks s - dhcp_last_sent_tick d > 200000
        in
        if dhcp_state d = DHCP_STATE_IDLE then
          (if waited \<ge> 1 \<or> tick_stale
           then dhcp_send_discover drv (clk 2) (d\<lparr>dhcp_xid := dhcp_new_xid tsc (clk 1) d s, dhcp_tries := 0\<rparr>) s else (d, s))
        else
          let interval = (if dhcp_tries d < 2 then 3 else if dhcp_tries d < 4 then 6 else 12) in
          if waited < interval \<and> \<not> tick_stale then (d, s)
          else
            let d = d\<lparr>dhcp_tries := dhcp_tries d + 1\<rparr> in
            if dhcp_state d = DHCP_STATE_DISCOVER_SENT then dhcp_send_discover drv (clk 1) d s
            else if dhcp_tries d \<ge> 3
            then dhcp_send_discover drv (clk 2) (d\<lparr>dhcp_xid := dhcp_new_xid tsc (clk 1) d s, dhcp_tries := 0\<rparr>) s
            else dhcp_send_request drv (clk 1) (dhcp_offered_ip d) (dhcp_server_id d) d s)"

subsection \<open>What sending leaves alone\<close>

lemma udp_send_keeps [frame_simps]:
  "net_cfg (snd (udp_send drv a b c e f s)) = net_cfg s" "net_ticks (snd (udp_send drv a b c e f s)) = net_ticks s"
  "nic_mac (snd (udp_send drv a b c e f s)) = nic_mac s" "nic_present (snd (udp_send drv a b c e f s)) = nic_present s"
  by (simp_all add: udp_send_def ip_send_def Let_def frame_simps split: option.split)

lemma udp_send_wf: "arp_wf s \<Longrightarrow> arp_wf (snd (udp_send drv a b c e f s))"
  by (simp add: udp_send_def ip_send_wf)

lemmas dhcp_send_defs = dhcp_send_discover_def dhcp_send_request_def dhcp_send_extension_def dhcp_sent_def Let_def

lemma dhcp_send_net [frame_simps]:
  "net_cfg (snd (dhcp_send_discover drv now d s)) = net_cfg s" "net_ticks (snd (dhcp_send_discover drv now d s)) = net_ticks s"
  "nic_mac (snd (dhcp_send_discover drv now d s)) = nic_mac s"
  "net_cfg (snd (dhcp_send_request drv now a b d s)) = net_cfg s" "net_ticks (snd (dhcp_send_request drv now a b d s)) = net_ticks s"
  "nic_mac (snd (dhcp_send_request drv now a b d s)) = nic_mac s"
  "net_cfg (snd (dhcp_send_extension drv now c d s)) = net_cfg s" "net_ticks (snd (dhcp_send_extension drv now c d s)) = net_ticks s"
  "nic_mac (snd (dhcp_send_extension drv now c d s)) = nic_mac s"
  by (simp_all add: dhcp_send_defs frame_simps)

subsection \<open>The state of the conversation\<close>

text \<open>The machine has an address exactly while the lease is held, it is never the address 0, a finite lease has not run out, a
  request is only out for an offered address, and ciaddr is only set while a packet is built.\<close>

definition dhcp_ok :: "dhcp_t \<Rightarrow> net \<Rightarrow> bool" where
  "dhcp_ok d s \<longleftrightarrow>
     (ready (net_cfg s) \<longleftrightarrow> dhcp_held (dhcp_state d)) \<and> (ready (net_cfg s) \<longleftrightarrow> my_ip (net_cfg s) \<noteq> 0) \<and>
     (dhcp_held (dhcp_state d) \<and> dhcp_lease_secs d \<noteq> 0 \<longrightarrow> dhcp_lease_age d < dhcp_lease_secs d) \<and>
     (dhcp_state d = DHCP_STATE_REQUEST_SENT \<longrightarrow> dhcp_offered_ip d \<noteq> 0) \<and> dhcp_ciaddr d = 0 \<and>
     (\<not> dhcp_started d \<longrightarrow> dhcp_state d = DHCP_STATE_IDLE)"

datatype dhcp_event = Dhcp_Start u64 "nat \<Rightarrow> u32" | Dhcp_Datagram u32 u32 u16 bytes | Dhcp_Poll u32 u64 "nat \<Rightarrow> u32"

definition dhcp_step :: "driver \<Rightarrow> dhcp_event \<Rightarrow> dhcp_t \<times> net \<Rightarrow> dhcp_t \<times> net" where
  "dhcp_step drv e = (\<lambda>(d, s). case e of
     Dhcp_Start tsc clk \<Rightarrow> if dhcp_started d then (d, s) else snd (dhcp_start drv tsc clk () udp_init d s)
   | Dhcp_Datagram now src port data \<Rightarrow> dhcp_handle_reply drv now src port data d s
   | Dhcp_Poll t tsc clk \<Rightarrow> dhcp_poll drv tsc clk d (s\<lparr>net_ticks := t\<rparr>))"

lemma discover_ok: "dhcp_ok d s \<Longrightarrow> dhcp_started d \<Longrightarrow> \<not> dhcp_held (dhcp_state d) \<Longrightarrow> dhcp_ok (fst (dhcp_send_discover drv now d s)) (snd (dhcp_send_discover drv now d s))"
  by (auto simp: dhcp_ok_def dhcp_send_defs frame_simps dhcp_held_def)

lemma request_ok:
  "dhcp_ok d s \<Longrightarrow> dhcp_started d \<Longrightarrow> \<not> dhcp_held (dhcp_state d) \<Longrightarrow> dhcp_offered_ip d \<noteq> 0 \<Longrightarrow>
   dhcp_ok (fst (dhcp_send_request drv now a b d s)) (snd (dhcp_send_request drv now a b d s))"
  by (auto simp: dhcp_ok_def dhcp_send_defs frame_simps dhcp_held_def)

lemma extension_ok: "dhcp_ok d s \<Longrightarrow> dhcp_ok (fst (dhcp_send_extension drv now c d s)) (snd (dhcp_send_extension drv now c d s))"
  by (auto simp: dhcp_ok_def dhcp_send_defs frame_simps)

lemma drop_ok: "dhcp_ok (fst (dhcp_drop_lease now d s)) (snd (dhcp_drop_lease now d s))"
  by (simp add: dhcp_ok_def dhcp_drop_lease_def dhcp_sent_def Let_def dhcp_held_def)

lemma ack_ok: "dhcp_ok d s \<Longrightarrow> dhcp_started d \<Longrightarrow> dhcp_ok (fst (dhcp_take_ack now ip opts sid d s)) (snd (dhcp_take_ack now ip opts sid d s))"
  by (auto simp: dhcp_ok_def dhcp_take_ack_def Let_def dhcp_held_def word_neq_0_conv)

lemma nak_ok: "dhcp_ok d s \<Longrightarrow> dhcp_ok (fst (dhcp_take_nak now sid d s)) (snd (dhcp_take_nak now sid d s))"
  using drop_ok [of now d s] by (auto simp: dhcp_take_nak_def dhcp_sent_def) (auto simp: dhcp_ok_def dhcp_held_def)

lemma reply_ok:
  assumes "dhcp_ok d s"
  shows "dhcp_ok (fst (dhcp_handle_reply drv now src port data d s)) (snd (dhcp_handle_reply drv now src port data d s))"
proof -
  have o: "dhcp_ok (fst (dhcp_take_offer drv now src ip sid d s)) (snd (dhcp_take_offer drv now src ip sid d s))"
    if "dhcp_state d = DHCP_STATE_DISCOVER_SENT" for ip sid
  proof (cases "ip = 0 \<or> ip = NET_IP4_BROADCAST")
    case True
    thus ?thesis using assms by (simp add: dhcp_take_offer_def)
  next
    case False
    have "dhcp_ok (d\<lparr>dhcp_offered_ip := ip, dhcp_server_id := v\<rparr>) s \<and> dhcp_started d" for v
      using assms that by (auto simp: dhcp_ok_def)
    thus ?thesis using False that by (auto simp: dhcp_take_offer_def Let_def dhcp_held_def intro!: request_ok)
  qed
  have "dhcp_started d" if "dhcp_asking (dhcp_state d)" using that assms by (auto simp: dhcp_ok_def dhcp_asking_def)
  thus ?thesis using assms o ack_ok [OF assms] nak_ok [OF assms] by (simp add: dhcp_handle_reply_def Let_def)
qed

lemma lease_tick_ok:
  assumes "dhcp_ok d s" "dhcp_held (dhcp_state d)"
  shows "dhcp_ok (fst (dhcp_lease_tick drv tsc clk d s)) (snd (dhcp_lease_tick drv tsc clk d s))"
proof -
  have g: "dhcp_ok (d\<lparr>dhcp_lease_tick_mark := t, dhcp_lease_age := a, dhcp_lease_mark := m, dhcp_state := st, dhcp_xid := x\<rparr>) s"
    "dhcp_ok (d\<lparr>dhcp_lease_tick_mark := t, dhcp_lease_age := a, dhcp_lease_mark := m\<rparr>) s"
    if "dhcp_held st" "\<not> dhcp_lease_secs d \<le> a" for t a m st x
    using that assms by (auto simp: dhcp_ok_def dhcp_held_def)
  have "dhcp_ok (d\<lparr>dhcp_lease_tick_mark := t\<rparr>) s" for t using assms by (auto simp: dhcp_ok_def)
  thus ?thesis using assms(1) g
    by (simp add: dhcp_lease_tick_def Let_def) (auto intro!: extension_ok drop_ok g simp: dhcp_held_def)
qed

lemma poll_ok:
  assumes "dhcp_ok d s"
  shows "dhcp_ok (fst (dhcp_poll drv tsc clk d s)) (snd (dhcp_poll drv tsc clk d s))"
proof (cases "dhcp_started d \<and> \<not> dhcp_held (dhcp_state d)")
  case False
  thus ?thesis using assms lease_tick_ok [OF assms] by (auto simp: dhcp_poll_def)
next
  case True
  have g: "dhcp_ok (d\<lparr>dhcp_xid := x, dhcp_tries := n\<rparr>) s" "dhcp_ok (d\<lparr>dhcp_tries := n\<rparr>) s" "dhcp_ok (d\<lparr>dhcp_tries := n, dhcp_xid := x, dhcp_tries := m\<rparr>) s"
    for x n m using assms by (auto simp: dhcp_ok_def)
  have r: "dhcp_offered_ip d \<noteq> 0" if "dhcp_state d \<noteq> DHCP_STATE_IDLE" "dhcp_state d \<noteq> DHCP_STATE_DISCOVER_SENT"
    using that True assms by (cases "dhcp_state d") (auto simp: dhcp_ok_def dhcp_held_def)
  show ?thesis using True assms r
    by (simp add: dhcp_poll_def Let_def) (auto intro!: discover_ok request_ok g)
qed

lemma dhcp_step_ok:
  assumes "dhcp_ok (fst ds) (snd ds)"
  shows "dhcp_ok (fst (dhcp_step drv e ds)) (snd (dhcp_step drv e ds))"
proof -
  obtain d s where ds: "ds = (d, s)" by (cases ds)
  have t: "dhcp_ok d (s\<lparr>net_ticks := t\<rparr>)" for t using assms by (auto simp: ds dhcp_ok_def)
  show ?thesis
  proof (cases e)
    case (Dhcp_Start tsc now)
    have "dhcp_ok (d\<lparr>dhcp_started := True, dhcp_xid := x\<rparr>) s" for x using assms by (auto simp: ds dhcp_ok_def)
    moreover have "\<not> dhcp_held (dhcp_state d)" if "\<not> dhcp_started d" using that assms by (simp add: ds dhcp_ok_def dhcp_held_def)
    ultimately show ?thesis using assms by (auto simp: ds Dhcp_Start dhcp_step_def dhcp_start_def Let_def intro!: discover_ok)
  next
    case (Dhcp_Datagram now src port data)
    thus ?thesis using assms reply_ok by (simp add: ds dhcp_step_def)
  next
    case (Dhcp_Poll tk tsc now)
    thus ?thesis using t poll_ok by (simp add: ds dhcp_step_def)
  qed
qed

lemma dhcp_run_ok: "dhcp_ok (fst ds) (snd ds) \<Longrightarrow> dhcp_ok (fst (fold (dhcp_step drv) es ds)) (snd (fold (dhcp_step drv) es ds))"
  by (induction es arbitrary: ds) (simp_all add: dhcp_step_ok)

subsection \<open>Options and messages\<close>

text \<open>Options by tag and value, and their wire form; the number an option's value stands for.\<close>

definition dhcp_tlv :: "(u8 \<times> bytes) list \<Rightarrow> bytes" where
  "dhcp_tlv os = concat (map (\<lambda>(t, v). t # of_nat (length v) # v) os) @ [DHCP_OPT_END]"

definition opts_ok :: "(u8 \<times> bytes) list \<Rightarrow> bool" where
  "opts_ok os \<longleftrightarrow> (\<forall>(t, v)\<in>set os. t \<noteq> DHCP_OPT_PAD \<and> t \<noteq> DHCP_OPT_END \<and> length v < 256)"

definition opt_num :: "bytes \<Rightarrow> u32" where "opt_num v = foldl (\<lambda>v b. push_bit 8 v OR ucast b) 0 (take 4 v)"

lemma find_tlv: "opts_ok os \<Longrightarrow> dhcp_find_option (dhcp_tlv os @ rest) t = map_option opt_num (map_of os t)"
proof (induction os)
  case Nil
  show ?case by (simp add: dhcp_tlv_def dhcp_find_option.simps)
next
  case (Cons o' os)
  obtain k v where o: "o' = (k, v)" by (cases o')
  have k: "k \<noteq> DHCP_OPT_PAD" "k \<noteq> DHCP_OPT_END" "length v < 256" using Cons.prems by (simp_all add: opts_ok_def o)
  have l: "unat (of_nat (length v) :: u8) = length v" using k(3) by (simp add: unat_of_nat take_bit_nat_eq_self)
  have e: "dhcp_tlv (o' # os) @ rest = k # of_nat (length v) # v @ dhcp_tlv os @ rest" by (simp add: dhcp_tlv_def o)
  have "opts_ok os" using Cons.prems by (simp add: opts_ok_def)
  thus ?case using Cons.IH k l unfolding e by (subst dhcp_find_option.simps) (simp add: o opt_num_def [symmetric])
qed

lemma opt_num_put32: "opt_num (net_put32_be x) = x"
proof -
  have "opt_num (net_put32_be x) = net_get32_be (net_put32_be x) 0"
    by (simp add: opt_num_def net_get32_be_def net_put32_be_def push_bit_or push_bit_push_bit or.assoc)
  also have "\<dots> = x" by (rule get_put32) (simp_all add: slice_def)
  finally show ?thesis .
qed

lemma opt_num_byte: "opt_num [b] = ucast b"
  by (simp add: opt_num_def)

text \<open>A server's message to the machine with the given hardware address.\<close>

definition server_message :: "u32 \<Rightarrow> u32 \<Rightarrow> bytes \<Rightarrow> (u8 \<times> bytes) list \<Rightarrow> bytes" where
  "server_message xid yiaddr mac os =
     [DHCP_OP_REPLY, DHCP_HTYPE_ETH, 6, 0] @ net_put32_be xid @ replicate 8 0 @ net_put32_be yiaddr @ replicate 8 0 @ mac @
     replicate 202 0 @ net_put32_be DHCP_MAGIC_COOKIE @ dhcp_tlv os"

lemma get32_in: "i = length pre \<Longrightarrow> net_get32_be (pre @ net_put32_be v @ post) i = v"
  by (rule get_put32) (simp_all add: slice_def)

lemma message_fields:
  assumes "length mac = 6"
  shows "length (server_message xid ip mac os) = 240 + length (dhcp_tlv os)"
    "server_message xid ip mac os ! 0 = DHCP_OP_REPLY" "server_message xid ip mac os ! 1 = DHCP_HTYPE_ETH" "server_message xid ip mac os ! 2 = 6"
    "net_get32_be (server_message xid ip mac os) 4 = xid" "net_get32_be (server_message xid ip mac os) 16 = ip"
    "net_get32_be (server_message xid ip mac os) 236 = DHCP_MAGIC_COOKIE" "i < 6 \<Longrightarrow> server_message xid ip mac os ! (28 + i) = mac ! i"
    "drop 240 (server_message xid ip mac os) = dhcp_tlv os"
proof -
  let ?m = "server_message xid ip mac os" and ?a = "[DHCP_OP_REPLY, DHCP_HTYPE_ETH, 6, 0]"
  let ?b = "?a @ net_put32_be xid @ replicate 8 0"
  let ?c = "?b @ net_put32_be ip @ replicate 8 0"
  let ?d = "?c @ mac @ replicate 202 0"
  have m: "?m = ?a @ net_put32_be xid @ replicate 8 0 @ net_put32_be ip @ replicate 8 0 @ mac @ replicate 202 0 @ net_put32_be DHCP_MAGIC_COOKIE @ dhcp_tlv os"
    "?m = ?b @ net_put32_be ip @ replicate 8 0 @ mac @ replicate 202 0 @ net_put32_be DHCP_MAGIC_COOKIE @ dhcp_tlv os"
    "?m = ?c @ mac @ replicate 202 0 @ net_put32_be DHCP_MAGIC_COOKIE @ dhcp_tlv os"
    "?m = ?d @ net_put32_be DHCP_MAGIC_COOKIE @ dhcp_tlv os"
    "?m = (?d @ net_put32_be DHCP_MAGIC_COOKIE) @ dhcp_tlv os"
    by (simp_all only: server_message_def append_assoc)
  have l: "length ?b = 16" "length ?c = 28" "length ?d = 236" "length (?d @ net_put32_be DHCP_MAGIC_COOKIE) = 240" using assms by simp_all
  show "length ?m = 240 + length (dhcp_tlv os)" using l(4) unfolding m(5) length_append by simp
  show "?m ! 0 = DHCP_OP_REPLY" "?m ! 1 = DHCP_HTYPE_ETH" "?m ! 2 = 6" unfolding m(1) by simp_all
  show "net_get32_be ?m 4 = xid" unfolding m(1) by (rule get32_in) simp
  show "net_get32_be ?m 16 = ip" unfolding m(2) by (rule get32_in) (rule l(1) [symmetric])
  show "net_get32_be ?m 236 = DHCP_MAGIC_COOKIE" unfolding m(4) by (rule get32_in) (rule l(3) [symmetric])
  show "i < 6 \<Longrightarrow> ?m ! (28 + i) = mac ! i" unfolding m(3) nth_append l(2) using assms by simp
  show "drop 240 ?m = dhcp_tlv os" unfolding m(5) using l(4) by (simp only: append_eq_conv_conj drop_append) simp
qed

lemma message_for_us:
  "length (nic_mac s) = 6 \<Longrightarrow> dhcp_for_us DHCP_SERVER_PORT (server_message (dhcp_xid d) ip (nic_mac s) os) d s"
  by (simp add: dhcp_for_us_def DHCP_FIXED_LEN_def message_fields del: One_nat_def)

lemma handle_message:
  assumes "length (nic_mac s) = 6" "opts_ok os"
  shows "dhcp_handle_reply drv now src DHCP_SERVER_PORT (server_message (dhcp_xid d) ip (nic_mac s) os) d s =
    (let num = \<lambda>t. map_option opt_num (map_of os t); ty = opt_or_0 (num DHCP_OPT_MSG_TYPE); sid = num DHCP_OPT_SERVER_ID in
     if ty = ucast DHCP_MSG_OFFER \<and> dhcp_state d = DHCP_STATE_DISCOVER_SENT then dhcp_take_offer drv now src ip sid d s
     else if ty = ucast DHCP_MSG_ACK \<and> dhcp_asking (dhcp_state d) then dhcp_take_ack now ip (dhcp_tlv os) sid d s
     else if ty = ucast DHCP_MSG_NAK \<and> dhcp_asking (dhcp_state d) then dhcp_take_nak now sid d s
     else (d, s))"
proof -
  let ?m = "server_message (dhcp_xid d) ip (nic_mac s) os"
  have f: "dhcp_for_us DHCP_SERVER_PORT ?m d s" by (rule message_for_us [OF assms(1)])
  have o: "drop (DHCP_FIXED_LEN + 4) ?m = dhcp_tlv os" "net_get32_be ?m 16 = ip"
    using message_fields [OF assms(1)] by (simp_all add: DHCP_FIXED_LEN_def)
  have t: "dhcp_find_option (dhcp_tlv os) t = map_option opt_num (map_of os t)" for t using find_tlv [OF assms(2), of "[]"] by simp
  show ?thesis unfolding dhcp_handle_reply_def Let_def o t using f by (simp only: simp_thms if_False)
qed

text \<open>What the client sends, as a server reads it: its transaction id and address, and the options of the message; it fits the
  array of 300 bytes.\<close>

lemma request_reads:
  "length (dhcp_build_packet ty rip sid d s) \<le> 300" "net_get32_be (dhcp_build_packet ty rip sid d s) 4 = dhcp_xid d"
  "net_get32_be (dhcp_build_packet ty rip sid d s) 12 = dhcp_ciaddr d"
  "dhcp_find_option (drop 240 (dhcp_build_packet ty rip sid d s)) DHCP_OPT_MSG_TYPE = Some (ucast ty)"
  "dhcp_find_option (drop 240 (dhcp_build_packet ty rip sid d s)) DHCP_OPT_REQUESTED_IP = (if rip = 0 then None else Some rip)"
  "dhcp_find_option (drop 240 (dhcp_build_packet ty rip sid d s)) DHCP_OPT_SERVER_ID = (if sid = 0 then None else Some sid)"
proof -
  let ?p = "dhcp_build_packet ty rip sid d s"
  let ?os = "[(DHCP_OPT_MSG_TYPE, [ty])] @ (if rip \<noteq> 0 then [(DHCP_OPT_REQUESTED_IP, net_put32_be rip)] else []) @
    (if sid \<noteq> 0 then [(DHCP_OPT_SERVER_ID, net_put32_be sid)] else []) @
    [(DHCP_OPT_PARAM_REQ, [DHCP_OPT_SUBNET_MASK, DHCP_OPT_ROUTER, DHCP_OPT_DNS])]"
  let ?a = "[DHCP_OP_REQUEST, DHCP_HTYPE_ETH, 6, 0]"
  let ?b = "?a @ net_put32_be (dhcp_xid d) @ net_put16_be 0 @ net_put16_be (if dhcp_ciaddr d \<noteq> 0 then 0x0000 else 0x8000)"
  let ?c = "replicate 12 0 @ map (\<lambda>i. nic_mac s ! i) [0..<6] @ replicate (DHCP_FIXED_LEN - 34) 0 @ net_put32_be DHCP_MAGIC_COOKIE"
  have p: "?p = ?b @ net_put32_be (dhcp_ciaddr d) @ ?c @ dhcp_tlv ?os" by (simp add: dhcp_build_packet_def dhcp_tlv_def)
  have pa: "?p = ?a @ net_put32_be (dhcp_xid d) @ net_put16_be 0 @ net_put16_be (if dhcp_ciaddr d \<noteq> 0 then 0x0000 else 0x8000) @
      net_put32_be (dhcp_ciaddr d) @ ?c @ dhcp_tlv ?os" unfolding p by simp
  have l: "length ?b = 12" "length ?c = 224" by (simp_all add: DHCP_FIXED_LEN_def)
  have t: "length (dhcp_tlv ?os) \<le> 21" by (simp add: dhcp_tlv_def)
  have "length ?p = length ?b + (4 + (length ?c + length (dhcp_tlv ?os)))" unfolding p by (simp only: length_append length_put_be)
  thus "length ?p \<le> 300" using t unfolding l by linarith
  show "net_get32_be ?p 4 = dhcp_xid d" unfolding pa by (rule get32_in) simp
  show "net_get32_be ?p 12 = dhcp_ciaddr d" unfolding p by (rule get32_in) (rule l(1) [symmetric])
  have "?p = (?b @ net_put32_be (dhcp_ciaddr d) @ ?c) @ dhcp_tlv ?os" by (simp only: p append_assoc)
  moreover have "length (?b @ net_put32_be (dhcp_ciaddr d) @ ?c) = 240" by (simp add: DHCP_FIXED_LEN_def)
  ultimately have dr: "drop 240 ?p = dhcp_tlv ?os" by (metis append_eq_conv_conj)
  have ok: "opts_ok ?os" by (auto simp: opts_ok_def dhcp_consts)
  have f: "dhcp_find_option (drop 240 ?p) k = map_option opt_num (map_of ?os k)" for k
    unfolding dr using find_tlv [OF ok, of "[]"] by simp
  show "dhcp_find_option (drop 240 ?p) DHCP_OPT_MSG_TYPE = Some (ucast ty)"
    "dhcp_find_option (drop 240 ?p) DHCP_OPT_REQUESTED_IP = (if rip = 0 then None else Some rip)"
    "dhcp_find_option (drop 240 ?p) DHCP_OPT_SERVER_ID = (if sid = 0 then None else Some sid)"
    unfolding f by (simp_all add: opt_num_byte opt_num_put32 dhcp_consts)
qed

subsection \<open>The clock of the lease\<close>

lemma elapsed_val:
  assumes "T0 \<le> T" "T < T0 + 86400"
  shows "dhcp_wall_elapsed (of_nat (T mod 86400)) (of_nat (T0 mod 86400)) = of_nat (T - T0)"
proof -
  let ?a = "T mod 86400" and ?b = "T0 mod 86400"
  have lt: "?a < 86400" "?b < 86400" by simp_all
  have u: "unat (of_nat ?a :: u32) = ?a" "unat (of_nat ?b :: u32) = ?b" using lt by (simp_all add: unat_of_nat_u32)
  have w: "(of_nat ?a + 86400 - of_nat ?b :: u32) = of_nat (?a + 86400 - ?b)" using lt by (simp add: of_nat_diff)
  have "unat (of_nat (?a + 86400 - ?b) :: u32) = ?a + 86400 - ?b" using lt by (intro unat_of_nat_u32) linarith
  hence "unat (dhcp_wall_elapsed (of_nat ?a) (of_nat ?b)) = (?a + 86400 - ?b) mod 86400"
    unfolding dhcp_wall_elapsed_def w by (simp add: unat_mod)
  also have "\<dots> = T - T0"
  proof -
    have "int ((?a + 86400 - ?b) mod 86400) = (int T - int T0) mod 86400"
    proof -
      have "int ((?a + 86400 - ?b) mod 86400) = (int T mod 86400 + 86400 - int T0 mod 86400) mod 86400"
        using lt by (simp add: of_nat_mod of_nat_diff)
      also have "int T mod 86400 + 86400 - int T0 mod 86400 = (int T mod 86400 - int T0 mod 86400) + 86400" by simp
      also have "\<dots> mod 86400 = (int T mod 86400 - int T0 mod 86400) mod 86400" by (rule mod_add_self2)
      also have "\<dots> = (int T - int T0) mod 86400" by (rule mod_diff_eq)
      finally show ?thesis .
    qed
    also have "\<dots> = int T - int T0" using assms by (intro mod_pos_pos_trivial) linarith+
    finally show ?thesis using assms by linarith
  qed
  also have "\<dots> = unat (of_nat (T - T0) :: u32)" by (rule unat_of_nat_u32 [symmetric]) (use assms in linarith)
  finally show ?thesis by (simp only: word_unat_eq_iff)
qed

text \<open>The lease granted at the second Tg for L seconds, as the client sees it: its last sample was at the tick tk and its mark is
  the second Tm, and of the seconds in between it has not counted miss.\<close>

definition lease_at :: "nat \<Rightarrow> u32 \<Rightarrow> u32 \<Rightarrow> nat \<Rightarrow> nat \<Rightarrow> dhcp_t \<Rightarrow> net \<Rightarrow> bool" where
  "lease_at Tg L tk Tm miss d s \<longleftrightarrow> dhcp_started d \<and> dhcp_held (dhcp_state d) \<and> ready (net_cfg s) \<and> dhcp_lease_secs d = L \<and>
     Tg + miss \<le> Tm \<and> Tm < Tg + miss + unat L \<and> dhcp_lease_age d = of_nat (Tm - Tg - miss) \<and> dhcp_lease_mark d = of_nat (Tm mod 86400) \<and>
     dhcp_lease_tick_mark d = tk"

definition lease_gone :: "dhcp_t \<Rightarrow> net \<Rightarrow> bool" where
  "lease_gone d s \<longleftrightarrow> \<not> dhcp_held (dhcp_state d) \<and>
     net_cfg s = \<lparr>my_ip = 0, netmask = 0, gateway_ip = 0, dns_ip = 0, ready = False\<rparr>"

lemma extension_frame [frame_simps]:
  "dhcp_state (fst (dhcp_send_extension drv now c d s)) = dhcp_state d" "dhcp_started (fst (dhcp_send_extension drv now c d s)) = dhcp_started d"
  "dhcp_lease_secs (fst (dhcp_send_extension drv now c d s)) = dhcp_lease_secs d"
  "dhcp_lease_age (fst (dhcp_send_extension drv now c d s)) = dhcp_lease_age d"
  "dhcp_lease_mark (fst (dhcp_send_extension drv now c d s)) = dhcp_lease_mark d"
  "dhcp_lease_tick_mark (fst (dhcp_send_extension drv now c d s)) = dhcp_lease_tick_mark d"
  by (simp_all add: dhcp_send_defs)

text \<open>A poll that comes less than 64 ticks after the last sample does nothing; one that samples counts the seconds since the mark,
  and the new mark is the second of its second reading.\<close>

definition day_clock :: "(nat \<Rightarrow> nat) \<Rightarrow> nat \<Rightarrow> u32" where "day_clock r k = of_nat (r k mod 86400)"


lemma poll_samples:
  assumes "lease_at Tg L tk Tm miss d s" "L \<noteq> 0xFFFFFFFF" "unat L + 86400 < 4294967296"
    and t: "64 \<le> net_ticks s - tk" "Tm \<le> r 0" "r 0 < Tm + 86400" "r 0 \<le> r 1"
    and p: "dhcp_poll drv tsc (day_clock r) d s = (d', s')"
  shows "if Tg + miss + unat L \<le> r 0 then lease_gone d' s'
    else if r 0 = Tm then lease_at Tg L (net_ticks s) Tm miss d' s' else lease_at Tg L (net_ticks s) (r 1) (miss + (r 1 - r 0)) d' s'"
proof -
  let ?T = "r 0"
  have l: "dhcp_started d" "dhcp_held (dhcp_state d)" "ready (net_cfg s)" "dhcp_lease_secs d = L" "Tg + miss \<le> Tm" "Tm < Tg + miss + unat L"
    "dhcp_lease_age d = of_nat (Tm - Tg - miss)" "dhcp_lease_mark d = of_nat (Tm mod 86400)" "dhcp_lease_tick_mark d = tk"
    using assms(1) by (auto simp: lease_at_def)
  have L: "L \<noteq> 0" using l(5,6) by auto
  have el: "dhcp_wall_elapsed (day_clock r 0) (dhcp_lease_mark d) = of_nat (?T - Tm)" unfolding l(8) day_clock_def by (rule elapsed_val [OF t(2,3)])
  have e0: "(of_nat (?T - Tm) :: u32) = 0 \<longleftrightarrow> ?T = Tm"
  proof -
    have "unat (of_nat (?T - Tm) :: u32) = ?T - Tm" using t(3) by (intro unat_of_nat_u32) linarith
    hence "(of_nat (?T - Tm) :: u32) = 0 \<longleftrightarrow> ?T - Tm = 0" by (metis unat_eq_zero)
    thus ?thesis using t(2) by auto
  qed
  have "Tm - Tg - miss + (?T - Tm) = ?T - Tg - miss" using l(5) t(2) by linarith
  hence age: "dhcp_lease_age d + of_nat (?T - Tm) = of_nat (?T - Tg - miss)" unfolding l(7) by (simp flip: of_nat_add)
  have ua: "unat (of_nat (?T - Tg - miss) :: u32) = ?T - Tg - miss" using l(5,6) t(2,3) assms(3) by (intro unat_of_nat_u32) linarith
  have cmp: "(L \<le> of_nat (?T - Tg - miss)) = (Tg + miss + unat L \<le> ?T)" using l(5) t(2) unfolding word_le_nat_alt ua by linarith
  have q: "dhcp_poll drv tsc (day_clock r) d s = dhcp_lease_tick drv tsc (day_clock r) d s"
    using l(1,2) by (simp add: dhcp_poll_def)
  have nt: "\<not> net_ticks s - dhcp_lease_tick_mark d < 64" using t(1) l(9) by (simp add: not_less)
  show ?thesis
  proof (cases "?T = Tm")
    case True
    have "d' = d\<lparr>dhcp_lease_tick_mark := net_ticks s\<rparr>" "s' = s"
      using p nt el e0 True L assms(2) l(4) unfolding q by (auto simp: dhcp_lease_tick_def)
    thus ?thesis using True l by (simp add: lease_at_def)
  next
    case False
    let ?c = "day_clock r"
    let ?d = "d\<lparr>dhcp_lease_tick_mark := net_ticks s, dhcp_lease_age := of_nat (?T - Tg - miss), dhcp_lease_mark := ?c 1\<rparr>"
    let ?m = "miss + (r 1 - r 0)"
    show ?thesis
    proof (cases "Tg + miss + unat L \<le> ?T")
      case True
      have "dhcp_lease_tick drv tsc ?c d s = dhcp_drop_lease (?c 2) ?d s"
        using nt el e0 False L assms(2) l(4) True cmp age by (simp add: dhcp_lease_tick_def Let_def)
      thus ?thesis using p True unfolding q by (simp add: dhcp_drop_lease_def Let_def dhcp_sent_def lease_gone_def dhcp_held_def)
    next
      case g: False
      have m: "r 1 - Tg - ?m = ?T - Tg - miss" "Tg + ?m \<le> r 1" "r 1 < Tg + ?m + unat L" using l(5) t(2,4) g by linarith+
      have b: "lease_at Tg L (net_ticks s) (r 1) ?m ?d s" using l m by (simp add: lease_at_def day_clock_def)
      have c: "(d', s') = (?d, s) \<or> (\<exists>b st x. dhcp_held st \<and> (d', s') = dhcp_send_extension drv (?c 3) b (?d\<lparr>dhcp_state := st, dhcp_xid := x\<rparr>) s) \<or>
          (\<exists>b. (d', s') = dhcp_send_extension drv (?c 3) b ?d s)"
        using p [symmetric] nt el e0 False L assms(2) l(4) g cmp age unfolding q
        by (simp add: dhcp_lease_tick_def Let_def dhcp_held_def) blast
      have x: "lease_at Tg L k T n (fst (dhcp_send_extension drv now b e s)) (snd (dhcp_send_extension drv now b e s))"
        if "lease_at Tg L k T n e s" for k T n e b now using that by (simp add: lease_at_def frame_simps)
      have y: "lease_at Tg L k T n (e\<lparr>dhcp_state := st, dhcp_xid := v\<rparr>) s" if "lease_at Tg L k T n e s" "dhcp_held st" for k T n e st v
        using that by (simp add: lease_at_def)
      have "lease_at Tg L (net_ticks s) (r 1) ?m d' s'" using c
      proof (elim disjE exE conjE)
        fix f st v assume "dhcp_held st" "(d', s') = dhcp_send_extension drv (?c 3) f (?d\<lparr>dhcp_state := st, dhcp_xid := v\<rparr>) s"
        thus ?thesis using x [OF y [OF b, of st v], of "?c 3" f] by (metis fst_conv snd_conv)
      next
        fix f assume "(d', s') = dhcp_send_extension drv (?c 3) f ?d s"
        thus ?thesis using x [OF b, of "?c 3" f] by (metis fst_conv snd_conv)
      qed (use b in simp)
      thus ?thesis using g False by simp
    qed
  qed
qed


text \<open>Polls: the tick and the timestamp counter at each, and the seconds its readings of the clock find. Time does not run
  backwards, and two polls that sample, 64 ticks or more apart, are less than a day apart. tk and Tp are the tick and the second of
  the last sample, now the last second read.\<close>

fun dhcp_polls :: "driver \<Rightarrow> (u32 \<times> u64 \<times> (nat \<Rightarrow> nat)) list \<Rightarrow> dhcp_t \<times> net \<Rightarrow> dhcp_t \<times> net" where
  "dhcp_polls drv [] ds = ds"
| "dhcp_polls drv ((t, tsc, r) # ps) ds = dhcp_polls drv ps (dhcp_step drv (Dhcp_Poll t tsc (day_clock r)) ds)"



definition slipped :: "(u32 \<times> u64 \<times> (nat \<Rightarrow> nat)) list \<Rightarrow> nat" where "slipped ps = sum_list (map (\<lambda>(t, tsc, r). r 1 - r 0) ps)"

lemma slipped_simps [simp]: "slipped [] = 0" "slipped ((t, tsc, r) # ps) = r 1 - r 0 + slipped ps" by (simp_all add: slipped_def)





subsection \<open>A conversation\<close>

lemma lease_obtained:
  assumes "length (nic_mac s) = 6" "dhcp_state d = DHCP_STATE_DISCOVER_SENT" "dhcp_started d" "ip \<noteq> 0" "ip \<noteq> NET_IP4_BROADCAST"
    and os: "opts_ok os1" "opts_ok os2" "map_of os1 DHCP_OPT_MSG_TYPE = Some [DHCP_MSG_OFFER]" "map_of os2 DHCP_OPT_MSG_TYPE = Some [DHCP_MSG_ACK]"
      "map_of os1 DHCP_OPT_SERVER_ID = map_of os2 DHCP_OPT_SERVER_ID"
    and r1: "dhcp_handle_reply drv now1 src1 DHCP_SERVER_PORT (server_message (dhcp_xid d) ip (nic_mac s) os1) d s = (d1, s1)"
    and r2: "dhcp_handle_reply drv (of_nat (Tg mod 86400)) src2 DHCP_SERVER_PORT (server_message (dhcp_xid d) ip (nic_mac s) os2) d1 s1 = (d2, s2)"
  defines "num \<equiv> \<lambda>t. opt_or_0 (map_option opt_num (map_of os2 t))"
  shows "net_cfg s2 = \<lparr>my_ip = ip, netmask = num DHCP_OPT_SUBNET_MASK, gateway_ip = num DHCP_OPT_ROUTER, dns_ip = num DHCP_OPT_DNS, ready = True\<rparr> \<and>
    dhcp_state d2 = DHCP_STATE_BOUND \<and> dhcp_lease_secs d2 = num DHCP_OPT_LEASE_TIME \<and>
    (num DHCP_OPT_LEASE_TIME \<noteq> 0 \<longrightarrow> lease_at Tg (num DHCP_OPT_LEASE_TIME) (net_ticks s) Tg 0 d2 s2)"
proof -
  let ?sid = "map_option opt_num (map_of os2 DHCP_OPT_SERVER_ID)"
  define sv where "sv = (case ?sid of None \<Rightarrow> src1 | Some v \<Rightarrow> v)"
  have o: "(d1, s1) = dhcp_send_request drv now1 ip sv (d\<lparr>dhcp_offered_ip := ip, dhcp_server_id := sv\<rparr>) s"
    using r1 assms(2,4,5) os(3,5) unfolding handle_message [OF assms(1) os(1)]
    by (simp add: Let_def opt_or_0_def opt_num_byte dhcp_take_offer_def sv_def)
  have d1: "dhcp_state d1 = DHCP_STATE_REQUEST_SENT" "dhcp_offered_ip d1 = ip" "dhcp_server_id d1 = sv" "dhcp_xid d1 = dhcp_xid d" "dhcp_started d1"
    "nic_mac s1 = nic_mac s" "net_ticks s1 = net_ticks s"
    using o assms(3) by (simp_all add: dhcp_send_request_def dhcp_sent_def Let_def frame_simps)
  have m: "length (nic_mac s1) = 6" using d1(6) assms(1) by simp
  have sid: "\<not> dhcp_wrong_server ?sid d1" using d1(3) by (auto simp: dhcp_wrong_server_def sv_def opt_or_0_def)
  have dis: "ucast DHCP_MSG_ACK \<noteq> (ucast DHCP_MSG_OFFER :: u32)" by (simp add: dhcp_consts)
  have "(d2, s2) = dhcp_take_ack (of_nat (Tg mod 86400)) ip (dhcp_tlv os2) ?sid d1 s1"
    using r2 d1(1) os(4) dis unfolding d1(4) [symmetric] d1(6) [symmetric] handle_message [OF m os(2)]
    by (simp add: Let_def opt_or_0_def opt_num_byte dhcp_asking_def)
  moreover have "dhcp_find_option (dhcp_tlv os2) t = map_option opt_num (map_of os2 t)" for t using find_tlv [OF os(2), of "[]"] by simp
  moreover have "opt_or_0 None = 0" by (simp add: opt_or_0_def)
  ultimately show ?thesis using sid d1(1,2,5,7) assms(4)
    by (auto simp: dhcp_take_ack_def Let_def num_def lease_at_def dhcp_held_def word_neq_0_conv word_gt_0_no unat_gt_0)
qed

text \<open>A conversation: a server at 10.0.2.2 offers 10.0.2.15 for an hour.\<close>

definition demo_d :: dhcp_t where "demo_d = dhcp_boot\<lparr>dhcp_state := DHCP_STATE_DISCOVER_SENT, dhcp_started := True\<rparr>"

definition demo_s :: net where
  "demo_s = demo_net\<lparr>net_cfg := \<lparr>my_ip = 0, netmask = 0, gateway_ip = 0, dns_ip = 0, ready = False\<rparr>, net_ticks := 5\<rparr>"

definition demo_opts :: "u8 \<Rightarrow> (u8 \<times> bytes) list" where
  "demo_opts ty = [(DHCP_OPT_MSG_TYPE, [ty]), (DHCP_OPT_SERVER_ID, net_put32_be 0x0A000202), (DHCP_OPT_SUBNET_MASK, net_put32_be 0xFFFFFF00),
     (DHCP_OPT_ROUTER, net_put32_be 0x0A000202), (DHCP_OPT_DNS, net_put32_be 0x0A000203), (DHCP_OPT_LEASE_TIME, net_put32_be 3600)]"

lemma demo_hyps:
  "length (nic_mac demo_s) = 6" "dhcp_state demo_d = DHCP_STATE_DISCOVER_SENT" "dhcp_started demo_d" "(0x0A00020F :: u32) \<noteq> 0" "0x0A00020F \<noteq> NET_IP4_BROADCAST"
  "opts_ok (demo_opts DHCP_MSG_OFFER)" "opts_ok (demo_opts DHCP_MSG_ACK)"
  "map_of (demo_opts DHCP_MSG_OFFER) DHCP_OPT_MSG_TYPE = Some [DHCP_MSG_OFFER]" "map_of (demo_opts DHCP_MSG_ACK) DHCP_OPT_MSG_TYPE = Some [DHCP_MSG_ACK]"
  "map_of (demo_opts DHCP_MSG_OFFER) DHCP_OPT_SERVER_ID = map_of (demo_opts DHCP_MSG_ACK) DHCP_OPT_SERVER_ID"
  by (simp_all add: demo_s_def demo_d_def demo_net_def demo_opts_def opts_ok_def dhcp_consts NET_IP4_BROADCAST_def NET_IP4_def)

lemma demo_nums:
  "opt_or_0 (map_option opt_num (map_of (demo_opts ty) DHCP_OPT_SUBNET_MASK)) = 0xFFFFFF00"
  "opt_or_0 (map_option opt_num (map_of (demo_opts ty) DHCP_OPT_ROUTER)) = 0x0A000202"
  "opt_or_0 (map_option opt_num (map_of (demo_opts ty) DHCP_OPT_DNS)) = 0x0A000203"
  "opt_or_0 (map_option opt_num (map_of (demo_opts ty) DHCP_OPT_LEASE_TIME)) = 3600"
  by (simp_all add: demo_opts_def dhcp_consts opt_or_0_def opt_num_put32)

definition demo_offered :: "dhcp_t \<times> net" where
  "demo_offered = dhcp_handle_reply (\<lambda>_ _. True) 99 0x0A000202 DHCP_SERVER_PORT
     (server_message (dhcp_xid demo_d) 0x0A00020F (nic_mac demo_s) (demo_opts DHCP_MSG_OFFER)) demo_d demo_s"

definition demo_bound :: "dhcp_t \<times> net" where
  "demo_bound = dhcp_handle_reply (\<lambda>_ _. True) (of_nat (100 mod 86400)) 0x0A000202 DHCP_SERVER_PORT
     (server_message (dhcp_xid demo_d) 0x0A00020F (nic_mac demo_s) (demo_opts DHCP_MSG_ACK)) (fst demo_offered) (snd demo_offered)"

lemma demo_steps:
  "dhcp_handle_reply (\<lambda>_ _. True) 99 0x0A000202 DHCP_SERVER_PORT
     (server_message (dhcp_xid demo_d) 0x0A00020F (nic_mac demo_s) (demo_opts DHCP_MSG_OFFER)) demo_d demo_s = (fst demo_offered, snd demo_offered)"
  "dhcp_handle_reply (\<lambda>_ _. True) (of_nat (100 mod 86400)) 0x0A000202 DHCP_SERVER_PORT
     (server_message (dhcp_xid demo_d) 0x0A00020F (nic_mac demo_s) (demo_opts DHCP_MSG_ACK)) (fst demo_offered) (snd demo_offered) =
   (fst demo_bound, snd demo_bound)"
  by (simp_all only: demo_offered_def demo_bound_def prod.collapse)

lemma demo_ok: "dhcp_ok demo_d demo_s" "dhcp_ok (fst demo_offered) (snd demo_offered)" "my_ip (net_cfg (snd demo_offered)) = 0"
proof -
  show d: "dhcp_ok demo_d demo_s" by (simp add: dhcp_ok_def demo_d_def demo_s_def dhcp_boot_def dhcp_held_def)
  show o: "dhcp_ok (fst demo_offered) (snd demo_offered)" unfolding demo_offered_def by (rule reply_ok [OF d])
  have "net_cfg (snd demo_offered) = net_cfg demo_s"
    unfolding demo_offered_def handle_message [OF demo_hyps(1,6)] using demo_hyps(2,5,8)
    by (simp add: Let_def opt_or_0_def opt_num_byte dhcp_take_offer_def frame_simps)
  thus "my_ip (net_cfg (snd demo_offered)) = 0" by (simp add: demo_s_def)
qed

subsection \<open>The properties\<close>

text \<open>Whatever datagrams arrive and whenever it is polled, the client keeps its state: the machine has an address, and
  not the address 0, exactly while the client holds a lease, a lease with an end has not reached it, and a request is only out
  for an address that was offered.\<close>

theorem dhcp_invariant:
  assumes "\<not> ready (net_cfg s)" "my_ip (net_cfg s) = 0" "fold (dhcp_step drv) es (dhcp_boot, s) = (d', s')"
  shows "dhcp_ok d' s'"
proof -
  have "dhcp_ok dhcp_boot s" using assms(1,2) by (simp add: dhcp_ok_def dhcp_boot_def dhcp_held_def)
  thus ?thesis using dhcp_run_ok [of "(dhcp_boot, s)" drv es] assms(3) by simp
qed

lemma dhcp_invariant_witness:
  "case fold (dhcp_step (\<lambda>_ _. True)) [Dhcp_Start 7 (\<lambda>_. 100), Dhcp_Poll 90 8 (\<lambda>_. 104)] (dhcp_boot, demo_s) of (d', s') \<Rightarrow> dhcp_ok d' s'"
proof -
  have "\<not> ready (net_cfg demo_s)" "my_ip (net_cfg demo_s) = 0" by (simp_all add: demo_s_def)
  thus ?thesis unfolding case_prod_beta by (rule dhcp_invariant [OF _ _ prod.collapse [symmetric]])
qed

text \<open>The checks of dhcp_handle_reply as bytes of the datagram.\<close>

lemma for_us_bytes:
  assumes "dhcp_for_us port data d s" "length (nic_mac s) = 6"
  shows "port = 67" "240 \<le> length data" "take 3 data = [2, 1, 6]" "net_get32_be data 236 = 0x63825363" "net_get32_be data 4 = dhcp_xid d"
    "take 6 (drop 28 data) = nic_mac s"
proof -
  show "port = 67" "net_get32_be data 236 = 0x63825363" "net_get32_be data 4 = dhcp_xid d" using assms(1) by (simp_all add: dhcp_for_us_def dhcp_consts)
  show l: "240 \<le> length data" using assms(1) by (simp add: dhcp_for_us_def dhcp_consts)
  have b: "data ! 0 = 2" "data ! 1 = 1" "data ! 2 = 6" using assms(1) by (simp_all add: dhcp_for_us_def dhcp_consts)
  show "take 3 data = [2, 1, 6]"
  proof (rule nth_equalityI)
    fix i assume "i < length (take 3 data)"
    hence "i \<in> {0, 1, 2}" using l by auto
    thus "take 3 data ! i = [2, 1, 6] ! i" using b by auto
  qed (use l in simp)
  have "\<forall>i \<in> {0..<6}. data ! (28 + i) = nic_mac s ! i" using assms(1) by (simp add: dhcp_for_us_def del: upt_rec_numeral)
  thus "take 6 (drop 28 data) = nic_mac s" using l assms(2) by (intro nth_equalityI) auto
qed

lemma configured_by:
  assumes "dhcp_ok d s" "dhcp_handle_reply drv now src port data d s = (d', s')" "net_cfg s' \<noteq> net_cfg s"
  shows "dhcp_for_us port data d s \<and> dhcp_asking (dhcp_state d) \<and>
    \<not> dhcp_wrong_server (dhcp_find_option (drop 240 data) DHCP_OPT_SERVER_ID) d \<and>
    (let ty = opt_or_0 (dhcp_find_option (drop 240 data) DHCP_OPT_MSG_TYPE); ip = net_get32_be data 16 in
     ty = ucast DHCP_MSG_ACK \<and> ip \<noteq> 0 \<and> ip = (if dhcp_state d = DHCP_STATE_REQUEST_SENT then dhcp_offered_ip d else my_ip (net_cfg s)) \<and>
       my_ip (net_cfg s') = ip \<and> ready (net_cfg s') \<and> dhcp_state d' = DHCP_STATE_BOUND \<or>
     ty = ucast DHCP_MSG_NAK \<and> dhcp_state d \<noteq> DHCP_STATE_REQUEST_SENT \<and> dhcp_state d' = DHCP_STATE_IDLE \<and>
       net_cfg s' = \<lparr>my_ip = 0, netmask = 0, gateway_ip = 0, dns_ip = 0, ready = False\<rparr>)"
proof -
  let ?o = "drop 240 data"
  let ?sid = "dhcp_find_option ?o DHCP_OPT_SERVER_ID" and ?ty = "opt_or_0 (dhcp_find_option ?o DHCP_OPT_MSG_TYPE)" and ?ip = "net_get32_be data 16"
  have us: "dhcp_for_us port data d s" using assms(2,3) by (auto simp: dhcp_handle_reply_def split: if_splits)
  have off: "net_cfg (snd (dhcp_take_offer drv now src ip sid d s)) = net_cfg s" for ip sid
    by (simp add: dhcp_take_offer_def Let_def frame_simps)
  have dis: "ucast DHCP_MSG_ACK \<noteq> (ucast DHCP_MSG_OFFER :: u32)" "ucast DHCP_MSG_NAK \<noteq> (ucast DHCP_MSG_OFFER :: u32)"
    "ucast DHCP_MSG_NAK \<noteq> (ucast DHCP_MSG_ACK :: u32)" by (simp_all add: dhcp_consts)
  have e: "DHCP_FIXED_LEN + 4 = 240" by (simp add: DHCP_FIXED_LEN_def)
  have h: "(d', s') = (if ?ty = ucast DHCP_MSG_OFFER \<and> dhcp_state d = DHCP_STATE_DISCOVER_SENT then dhcp_take_offer drv now src ?ip ?sid d s
      else if ?ty = ucast DHCP_MSG_ACK \<and> dhcp_asking (dhcp_state d) then dhcp_take_ack now ?ip ?o ?sid d s
      else if ?ty = ucast DHCP_MSG_NAK \<and> dhcp_asking (dhcp_state d) then dhcp_take_nak now ?sid d s
      else (d, s))"
    using us unfolding assms(2) [symmetric] dhcp_handle_reply_def Let_def e by (simp only: simp_thms if_False)
  have as: "dhcp_asking (dhcp_state d)" and ty: "?ty = ucast DHCP_MSG_ACK \<or> ?ty = ucast DHCP_MSG_NAK"
    using h assms(3) off [of ?ip ?sid] by (metis prod.inject snd_conv)+
  have nd: "dhcp_state d \<noteq> DHCP_STATE_DISCOVER_SENT" using as by (auto simp: dhcp_asking_def)
  show ?thesis
  proof (cases "?ty = ucast DHCP_MSG_ACK")
    case True
    have a: "(d', s') = dhcp_take_ack now ?ip ?o ?sid d s" using h True as nd by simp
    have ex: "(if dhcp_state d \<noteq> DHCP_STATE_REQUEST_SENT then my_ip (net_cfg s) else dhcp_offered_ip d) \<noteq> 0"
      using assms(1) as by (auto simp: dhcp_ok_def dhcp_asking_def dhcp_held_def)
    have "\<not> dhcp_wrong_server ?sid d" "?ip \<noteq> 0" "?ip = (if dhcp_state d \<noteq> DHCP_STATE_REQUEST_SENT then my_ip (net_cfg s) else dhcp_offered_ip d)"
      "my_ip (net_cfg s') = ?ip \<and> ready (net_cfg s') \<and> dhcp_state d' = DHCP_STATE_BOUND"
      using a assms(3) ex by (auto simp: dhcp_take_ack_def Let_def split: if_splits)
    thus ?thesis using us as True by (simp add: Let_def split: if_splits)
  next
    case False
    have n: "?ty = ucast DHCP_MSG_NAK" using ty False by simp
    have a: "(d', s') = dhcp_take_nak now ?sid d s" using h n as nd dis by simp
    have "\<not> dhcp_wrong_server ?sid d" "dhcp_state d \<noteq> DHCP_STATE_REQUEST_SENT" "dhcp_state d' = DHCP_STATE_IDLE \<and> net_cfg s' = \<lparr>my_ip = 0, netmask = 0, gateway_ip = 0, dns_ip = 0, ready = False\<rparr>"
      using a assms(3) by (auto simp: dhcp_take_nak_def dhcp_drop_lease_def dhcp_sent_def Let_def split: if_splits)
    thus ?thesis using us as n by (simp add: Let_def)
  qed
qed

text \<open>Claim C19. Only the server's answer to the request in flight configures the machine. If a datagram changes the address, netmask,
  gateway or resolver, then it came from port 67, is at least 240 bytes long, and is a BOOTP reply over Ethernet with the DHCP
  cookie, our transaction id and our hardware address; a request of ours was out; it names no server, or the server of the
  conversation, or the client was rebinding or knew no server; and it is either an acknowledgement (message type 5) of exactly the
  address requested or held, which is not 0 and becomes the machine's address, or a refusal (type 6) of a renewal, after which
  the machine has no address, netmask, gateway and resolver.\<close>

theorem dhcp_configures_only:
  assumes "dhcp_ok d s" "length (nic_mac s) = 6" "dhcp_handle_reply drv now src port data d s = (d', s')" "net_cfg s' \<noteq> net_cfg s"
  shows "port = 67 \<and> 240 \<le> length data \<and> take 3 data = [2, 1, 6] \<and> net_get32_be data 236 = 0x63825363 \<and> net_get32_be data 4 = dhcp_xid d \<and>
    take 6 (drop 28 data) = nic_mac s \<and> dhcp_state d \<in> {DHCP_STATE_REQUEST_SENT, DHCP_STATE_RENEWING, DHCP_STATE_REBINDING} \<and>
    (\<forall>v. dhcp_find_option (drop 240 data) 54 = Some v \<longrightarrow> v = dhcp_server_id d \<or> dhcp_state d = DHCP_STATE_REBINDING \<or> dhcp_server_id d = 0) \<and>
    (dhcp_find_option (drop 240 data) 53 = Some 5 \<and> net_get32_be data 16 \<noteq> 0 \<and>
       net_get32_be data 16 = (if dhcp_state d = DHCP_STATE_REQUEST_SENT then dhcp_offered_ip d else my_ip (net_cfg s)) \<and>
       my_ip (net_cfg s') = net_get32_be data 16 \<and> ready (net_cfg s') \<and> dhcp_state d' = DHCP_STATE_BOUND \<or>
     dhcp_find_option (drop 240 data) 53 = Some 6 \<and> dhcp_state d \<noteq> DHCP_STATE_REQUEST_SENT \<and>
       net_cfg s' = \<lparr>my_ip = 0, netmask = 0, gateway_ip = 0, dns_ip = 0, ready = False\<rparr> \<and> dhcp_state d' = DHCP_STATE_IDLE)"
proof -
  note C = configured_by [OF assms(1,3,4)]
  note B = for_us_bytes [OF conjunct1 [OF C] assms(2)]
  have st: "dhcp_state d \<in> {DHCP_STATE_REQUEST_SENT, DHCP_STATE_RENEWING, DHCP_STATE_REBINDING}" using C by (auto simp: dhcp_asking_def)
  have sid: "\<forall>v. dhcp_find_option (drop 240 data) 54 = Some v \<longrightarrow> v = dhcp_server_id d \<or> dhcp_state d = DHCP_STATE_REBINDING \<or> dhcp_server_id d = 0"
    using C by (auto simp: dhcp_wrong_server_def dhcp_consts opt_or_0_def)
  have ty: "opt_or_0 (dhcp_find_option (drop 240 data) 53) = v \<longleftrightarrow> dhcp_find_option (drop 240 data) 53 = Some v" if "v \<noteq> 0" for v
    using that by (simp add: opt_or_0_def split: option.split)
  have m: "DHCP_OPT_MSG_TYPE = 53" "ucast DHCP_MSG_ACK = (5 :: u32)" "ucast DHCP_MSG_NAK = (6 :: u32)" by (simp_all add: dhcp_consts)
  have "dhcp_find_option (drop 240 data) 53 = Some 5 \<and> net_get32_be data 16 \<noteq> 0 \<and>
       net_get32_be data 16 = (if dhcp_state d = DHCP_STATE_REQUEST_SENT then dhcp_offered_ip d else my_ip (net_cfg s)) \<and>
       my_ip (net_cfg s') = net_get32_be data 16 \<and> ready (net_cfg s') \<and> dhcp_state d' = DHCP_STATE_BOUND \<or>
     dhcp_find_option (drop 240 data) 53 = Some 6 \<and> dhcp_state d \<noteq> DHCP_STATE_REQUEST_SENT \<and>
       net_cfg s' = \<lparr>my_ip = 0, netmask = 0, gateway_ip = 0, dns_ip = 0, ready = False\<rparr> \<and> dhcp_state d' = DHCP_STATE_IDLE"
    using C [unfolded m Let_def] ty [of 5] ty [of 6] by auto
  thus ?thesis using st sid B by blast
qed

lemma dhcp_configures_only_witness:
  "dhcp_find_option (drop 240 (server_message (dhcp_xid demo_d) 0x0A00020F (nic_mac demo_s) (demo_opts DHCP_MSG_ACK))) 53 = Some 5 \<and>
    dhcp_offered_ip (fst demo_offered) = 0x0A00020F \<and> dhcp_xid (fst demo_offered) = dhcp_xid demo_d"
proof -
  let ?m = "server_message (dhcp_xid demo_d) 0x0A00020F (nic_mac demo_s) (demo_opts DHCP_MSG_ACK)"
  have b: "my_ip (net_cfg (snd demo_bound)) = 0x0A00020F" using lease_obtained [OF demo_hyps demo_steps] by simp
  hence n: "net_cfg (snd demo_bound) \<noteq> net_cfg (snd demo_offered)" using demo_ok(3) by auto
  have mac: "length (nic_mac (snd demo_offered)) = 6"
    unfolding demo_offered_def handle_message [OF demo_hyps(1,6)] using demo_hyps(1)
    by (simp add: Let_def dhcp_take_offer_def dhcp_take_ack_def dhcp_take_nak_def dhcp_drop_lease_def frame_simps)
  note c = dhcp_configures_only [OF demo_ok(2) mac demo_steps(2) n]
  have f: "net_get32_be ?m 16 = 0x0A00020F" "net_get32_be ?m 4 = dhcp_xid demo_d" by (rule message_fields [OF demo_hyps(1)])+
  moreover have "\<not> dhcp_held (dhcp_state (fst demo_offered))" using demo_ok(2,3) by (auto simp: dhcp_ok_def)
  ultimately show ?thesis using c b by (auto simp: dhcp_held_def)
qed

text \<open>Claim C21. The conversation gives the machine its address: a client whose discovery is out and that receives an offer of an
  address and then, with the same server identifier or none, the acknowledgement of it, is bound to that address with the
  netmask, gateway, resolver and lease time of the acknowledgement's options, and its lease clock starts then.\<close>

theorem dhcp_obtains_lease:
  assumes "length (nic_mac s) = 6" "dhcp_state d = DHCP_STATE_DISCOVER_SENT" "dhcp_started d" "ip \<noteq> 0" "ip \<noteq> NET_IP4_BROADCAST"
    and os: "opts_ok os1" "opts_ok os2" "map_of os1 DHCP_OPT_MSG_TYPE = Some [DHCP_MSG_OFFER]" "map_of os2 DHCP_OPT_MSG_TYPE = Some [DHCP_MSG_ACK]"
      "map_of os1 DHCP_OPT_SERVER_ID = map_of os2 DHCP_OPT_SERVER_ID"
    and r1: "dhcp_handle_reply drv now1 src1 DHCP_SERVER_PORT (server_message (dhcp_xid d) ip (nic_mac s) os1) d s = (d1, s1)"
    and r2: "dhcp_handle_reply drv (of_nat (Tg mod 86400)) src2 DHCP_SERVER_PORT (server_message (dhcp_xid d) ip (nic_mac s) os2) d1 s1 = (d2, s2)"
  defines "num \<equiv> \<lambda>t. opt_or_0 (map_option opt_num (map_of os2 t))"
  shows "net_cfg s2 = \<lparr>my_ip = ip, netmask = num DHCP_OPT_SUBNET_MASK, gateway_ip = num DHCP_OPT_ROUTER, dns_ip = num DHCP_OPT_DNS, ready = True\<rparr> \<and>
    dhcp_state d2 = DHCP_STATE_BOUND \<and> dhcp_lease_secs d2 = num DHCP_OPT_LEASE_TIME \<and>
    (num DHCP_OPT_LEASE_TIME \<noteq> 0 \<longrightarrow> lease_at Tg (num DHCP_OPT_LEASE_TIME) (net_ticks s) Tg 0 d2 s2)"
  unfolding num_def by (rule lease_obtained [OF assms(1-12)])

lemma dhcp_obtains_lease_witness:
  "my_ip (net_cfg (snd demo_bound)) = 0x0A00020F \<and> gateway_ip (net_cfg (snd demo_bound)) = 0x0A000202 \<and> dhcp_lease_secs (fst demo_bound) = 3600"
  using dhcp_obtains_lease [OF demo_hyps demo_steps] by (simp add: demo_nums)


lemma demo_lease: "lease_at 100 3600 5 100 0 (fst demo_bound) (snd demo_bound)"
  using lease_obtained [OF demo_hyps demo_steps] by (simp add: demo_nums demo_s_def)


text \<open>The seconds are really lost: with one second between the two readings of a poll, the same client still has its address when
  the hour is over.\<close>

lemma dhcp_lease_late:
  "case dhcp_polls (\<lambda>_ _. True) [(1005, 0, \<lambda>k. 2000 + k), (2005, 0, \<lambda>_. 3700)] demo_bound of (d', s') \<Rightarrow> ready (net_cfg s') \<and> 100 + unat (dhcp_lease_secs d') = 3700"
proof -
  let ?r = "\<lambda>k. 2000 + k :: nat" and ?q = "\<lambda>_. 3700 :: nat"
  obtain d1 s1 where 1: "dhcp_poll (\<lambda>_ _. True) 0 (day_clock ?r) (fst demo_bound) ((snd demo_bound)\<lparr>net_ticks := 1005\<rparr>) = (d1, s1)" by fastforce
  obtain d2 s2 where 2: "dhcp_poll (\<lambda>_ _. True) 0 (day_clock ?q) d1 (s1\<lparr>net_ticks := 2005\<rparr>) = (d2, s2)" by fastforce
  have "lease_at 100 3600 5 100 0 (fst demo_bound) ((snd demo_bound)\<lparr>net_ticks := 1005\<rparr>)" using demo_lease by (simp add: lease_at_def)
  from poll_samples [OF this _ _ _ _ _ _ 1] have "lease_at 100 3600 1005 2001 1 d1 s1" by simp
  hence "lease_at 100 3600 1005 2001 1 d1 (s1\<lparr>net_ticks := 2005\<rparr>)" by (simp add: lease_at_def)
  from poll_samples [OF this _ _ _ _ _ _ 2] have "lease_at 100 3600 2005 3700 1 d2 s2" by simp
  moreover have "dhcp_polls (\<lambda>_ _. True) [(1005, 0, ?r), (2005, 0, ?q)] demo_bound = (d2, s2)"
    using 1 2 by (simp add: dhcp_step_def case_prod_beta)
  ultimately show ?thesis by (simp add: lease_at_def)
qed

end
