(* ===== verification/Net_Stack.thy ===== *)
theory Net_Stack
  imports Tcp Dns Dhcp
begin

text \<open>
  net_stack.h: the layers put together. net_stack is the state of them all: the connection with the tables below it (tcp),
  the listeners of UDP, the resolver and the DHCP client. A frame goes to ARP first, then by protocol to ICMP, to the UDP
  listener on its port or to TCP; the poll of the main loop drains the card and runs the timers. The frames the card
  delivers, the clock and the timestamp counter are arguments of the poll; clk are the readings of the clock the DHCP client makes.
\<close>

subsection \<open>The stack\<close>

text \<open>The two functions the kernel registers with udp_listen.\<close>

datatype net_handler = Dns_Handle_Reply | Dhcp_Handle_Reply

record net_stack =
  ns_tcp :: tcp
  ns_udp :: "net_handler udp_listeners"
  ns_dns :: dns_client_t
  ns_dhcp :: dhcp_t
  ns_flush :: bool

abbreviation ns_net :: "net_stack \<Rightarrow> net" where "ns_net n \<equiv> nt (ns_tcp n)"
abbreviation ns_wall :: "net_stack \<Rightarrow> u32" where "ns_wall n \<equiv> wall (ns_tcp n)"

definition with_net :: "net \<Rightarrow> net_stack \<Rightarrow> net_stack" where "with_net s n = n\<lparr>ns_tcp := (ns_tcp n)\<lparr>nt := s\<rparr>\<rparr>"

text \<open>What arp.h calls when an address is resolved: nothing before arp_set_resolved_callback, then ip_flush_pending.\<close>

definition ns_callback :: "driver \<Rightarrow> net_stack \<Rightarrow> arp_resolved_cb" where
  "ns_callback drv n = (if ns_flush n then ip_flush_pending drv else (\<lambda>ip mac s. s))"

definition net_stack_init :: "driver \<Rightarrow> u64 \<Rightarrow> (nat \<Rightarrow> u32) \<Rightarrow> net_stack \<Rightarrow> net_stack" where
  "net_stack_init drv tsc clk n =
     (let s = ns_net n;
          s = s\<lparr>arp_cache := arp_cache_init, net_cfg := (net_cfg s)\<lparr>ready := False\<rparr>\<rparr>;
          t = upd (\<lambda>c. c\<lparr>tcp_state := TCP_CLOSED\<rparr>) (ns_tcp n);
          (ls, dns) = dns_init Dns_Handle_Reply udp_init (ns_dns n);
          (ls, dhcp, s) = dhcp_start drv tsc clk Dhcp_Handle_Reply ls (ns_dhcp n) s
      in \<lparr>ns_tcp = t\<lparr>nt := s\<rparr>, ns_udp = ls, ns_dns = dns, ns_dhcp = dhcp, ns_flush = True\<rparr>)"

definition net_udp_call :: "driver \<Rightarrow> net_handler \<Rightarrow> u32 \<Rightarrow> u16 \<Rightarrow> bytes \<Rightarrow> net_stack \<Rightarrow> net_stack" where
  "net_udp_call drv h src port data n =
     (case h of
        Dns_Handle_Reply \<Rightarrow> (let (d, s) = dns_handle_reply drv (ns_wall n) src port data (ns_dns n) (ns_net n) in with_net s (n\<lparr>ns_dns := d\<rparr>))
      | Dhcp_Handle_Reply \<Rightarrow> (let (d, s) = dhcp_handle_reply drv (ns_wall n) src port data (ns_dhcp n) (ns_net n) in with_net s (n\<lparr>ns_dhcp := d\<rparr>)))"

definition net_stack_deliver :: "driver \<Rightarrow> ip_packet_t \<Rightarrow> net_stack \<Rightarrow> net_stack" where
  "net_stack_deliver drv ip n =
     (if ip_proto ip = IP_PROTO_ICMP then with_net (icmp_handle_packet drv ip (ns_net n)) n
      else if ip_proto ip = IP_PROTO_UDP then
        (case udp_handle_packet (ns_udp n) ip of None \<Rightarrow> n | Some (h, src, port, data) \<Rightarrow> net_udp_call drv h src port data n)
      else if ip_proto ip = IP_PROTO_TCP then n\<lparr>ns_tcp := tcp_handle_packet (ip_send drv) ip (ns_tcp n)\<rparr>
      else n)"

definition net_stack_handle_frame :: "driver \<Rightarrow> bytes \<Rightarrow> net_stack \<Rightarrow> net_stack" where
  "net_stack_handle_frame drv frame n =
     (let (taken, s) = arp_handle_frame drv (ns_callback drv n) frame (ns_net n); n = with_net s n in
      if taken then n
      else if length frame < ETH_HDR_LEN then n
      else if net_get16_be frame 12 \<noteq> ETHERTYPE_IPV4 then n
      else case ip_parse (drop ETH_HDR_LEN frame) of
          None \<Rightarrow> n
        | Some ip \<Rightarrow>
            if ready (net_cfg (ns_net n)) \<and> ip_dst_ip ip \<noteq> my_ip (net_cfg (ns_net n)) \<and> ip_dst_ip ip \<noteq> NET_IP4_BROADCAST then n
            else net_stack_deliver drv ip n)"

definition net_stack_poll :: "driver \<Rightarrow> u64 \<Rightarrow> (nat \<Rightarrow> u32) \<Rightarrow> bytes list \<Rightarrow> net_stack \<Rightarrow> net_stack" where
  "net_stack_poll drv tsc clk frames n =
     (let n = with_net (net_stack_tick (ns_net n)) n in
      if \<not> nic_present (ns_net n) then n
      else
        let n = fold (net_stack_handle_frame drv) frames n;
            (dh, s) = dhcp_poll drv tsc clk (ns_dhcp n) (ns_net n);
            n = with_net s (n\<lparr>ns_dhcp := dh\<rparr>);
            n = n\<lparr>ns_tcp := tcp_poll_retransmit (ip_send drv) (ns_tcp n)\<rparr>;
            (dn, s) = dns_poll drv (ns_wall n) (ns_dns n) (ns_net n)
        in with_net s (n\<lparr>ns_dns := dn\<rparr>))"

subsection \<open>TCP and the configuration below it\<close>

text \<open>What a TCP operation does to the layers below it: it leaves the configuration and the ticks alone and keeps the cache
  well-formed.\<close>

definition calm :: "net \<Rightarrow> net \<Rightarrow> bool" where
  "calm s s' \<longleftrightarrow> net_cfg s' = net_cfg s \<and> net_ticks s' = net_ticks s \<and> (arp_wf s \<longrightarrow> arp_wf s')"

lemma calm_refl [simp, intro!]: "calm s s"
  by (simp add: calm_def)

lemma calm_trans: "calm s s' \<Longrightarrow> calm s' s'' \<Longrightarrow> calm s s''"
  by (simp add: calm_def)

context datagram_layer begin

lemma segment_calm: "calm s (nt t) \<Longrightarrow> calm s (nt (snd (tcp_send_segment send fl d t)))"
  by (simp add: tcp_send_segment_def Let_def split_beta calm_def send_cfg send_ticks send_arp)

lemma ack_calm: "calm s (nt t) \<Longrightarrow> calm s (nt (send_ack send t))"
  by (simp add: send_ack_def segment_calm)

lemma give_up_calm: "calm s (nt t) \<Longrightarrow> calm s (nt (tcp_give_up t))"
  by (simp add: tcp_give_up_def)

lemma refused_calm: "calm s (nt t) \<Longrightarrow> calm s (nt (tcp_tx_refused t))"
  by (simp add: tcp_tx_refused_def Let_def give_up_calm)

lemma upd_calm: "calm s (nt t) \<Longrightarrow> calm s (nt (upd f t))"
  by simp

lemma if_calm: "calm s (nt t) \<Longrightarrow> calm s (nt t') \<Longrightarrow> calm s (nt (if b then t else t'))"
  by simp

lemmas calm_steps = segment_calm ack_calm give_up_calm refused_calm upd_calm if_calm

lemma pump_calm: "calm s (nt t) \<Longrightarrow> calm s (nt (tcp_pump_send send t))"
  unfolding tcp_pump_send_def tcp_zero_window_wait_def tcp_pump_data_def tcp_pump_fin_def tcp_arm_retransmit_def Let_def split_beta
  by (intro calm_steps) simp_all

lemma tail_calm: "calm s (nt t) \<Longrightarrow> calm s (nt (tcp_take_tail send g t))"
  unfolding tcp_take_tail_def Let_def by (intro calm_steps) simp_all

lemma in_calm:
  "calm s (nt t) \<Longrightarrow> calm s (nt (tcp_in_rst send g t))" "calm s (nt t) \<Longrightarrow> calm s (nt (tcp_in_syn_sent send g t))"
  "calm s (nt t) \<Longrightarrow> calm s (nt (tcp_in_established send g t))" "calm s (nt t) \<Longrightarrow> calm s (nt (tcp_in_fin_wait_1 send g t))"
  "calm s (nt t) \<Longrightarrow> calm s (nt (tcp_in_fin_wait_2 send g t))"
  unfolding tcp_in_rst_def tcp_in_syn_sent_def tcp_in_established_def tcp_in_fin_wait_1_def tcp_in_fin_wait_2_def Let_def
  by (intro calm_steps pump_calm tail_calm; simp)+

lemma dispatch_calm: "calm s (nt t) \<Longrightarrow> calm s (nt (tcp_dispatch send g t))"
  unfolding tcp_dispatch_def Let_def by (cases "tcp_state (conn (upd (tcp_in_ack g) t))") (auto intro!: in_calm)

lemma tcp_calm:
  "calm (nt t) (nt (tcp_handle_packet send ip t))" "calm (nt t) (nt (tcp_poll_retransmit send t))"
  "calm (nt t) (nt (snd (tcp_poll_recv send n t)))" "calm (nt t) (nt (snd (tcp_send_data send d t)))" "calm (nt t) (nt (tcp_close send t))"
  "calm (nt t) (nt (tcp_connect send a p t))"
proof -
  show "calm (nt t) (nt (tcp_handle_packet send ip t))"
    by (auto simp: tcp_handle_packet_def Let_def split: option.split intro!: dispatch_calm)
  show "calm (nt t) (nt (tcp_poll_retransmit send t))"
    by (auto simp: tcp_poll_retransmit_def tcp_resend_def Let_def intro!: calm_steps pump_calm)
  show "calm (nt t) (nt (snd (tcp_poll_recv send n t)))"
    by (auto simp: tcp_poll_recv_def Let_def intro!: calm_steps)
  show "calm (nt t) (nt (snd (tcp_send_data send d t)))" by (auto simp: tcp_send_data_def intro!: pump_calm)
  show "calm (nt t) (nt (tcp_close send t))" by (auto simp: tcp_close_def intro!: pump_calm)
  show "calm (nt t) (nt (tcp_connect send a p t))"
    by (auto simp: tcp_connect_def tcp_arm_retransmit_def Let_def split_beta intro!: calm_steps)
qed

end

subsection \<open>What the other layers leave alone\<close>

lemma callback_keeps: "arp_cache (ns_callback drv n ip mac s) = arp_cache s" "net_cfg (ns_callback drv n ip mac s) = net_cfg s"
  "net_ticks (ns_callback drv n ip mac s) = net_ticks s"
  by (simp_all add: ns_callback_def ip_flush_pending_def Let_def frame_simps)

lemma arp_frame_calm: "calm s (snd (arp_handle_frame drv (ns_callback drv n) frame s))"
proof -
  have cb: "cb_keeps_cache (ns_callback drv n)" by (simp add: cb_keeps_cache_def callback_keeps)
  have w: "arp_wf s \<longrightarrow> arp_wf (snd (arp_handle_frame drv (ns_callback drv n) frame s))"
    using arp_handle_frame_safe [OF _ cb] by blast
  have k: "net_cfg (arp_learn_asker ip mac t) = net_cfg t" "net_ticks (arp_learn_asker ip mac t) = net_ticks t"
    "net_cfg (arp_accept_reply i ip mac t) = net_cfg t" "net_ticks (arp_accept_reply i ip mac t) = net_ticks t"
    "net_cfg (arp_send_reply drv a mac ip t) = net_cfg t" "net_ticks (arp_send_reply drv a mac ip t) = net_ticks t" for ip mac t i a
    by (simp_all add: arp_learn_asker_def arp_accept_reply_def arp_send_reply_def Let_def frame_simps split: option.split)
  show ?thesis
    by (cases rule: arp_handle_frame_cases [of drv "ns_callback drv n" frame s]) (use w in \<open>simp_all add: calm_def callback_keeps k\<close>)
qed

lemma icmp_calm: "calm s (icmp_handle_packet drv ip s)"
  by (simp add: calm_def icmp_handle_packet_def icmp_send_echo_reply_def ip_send_keeps ip_send_wf)

lemma udp_send_calm: "calm s (snd (udp_send drv a b c e f s))"
  by (simp add: calm_def udp_send_keeps udp_send_wf)

lemma next_attempt_calm: "calm s (snd (dns_next_attempt_or_fail drv now why d s))"
  by (simp add: dns_next_attempt_or_fail_def dns_send_attempt_def Let_def udp_send_calm)

lemma dns_calm:
  "calm s (snd (dns_handle_reply drv now src port data d s))" "calm s (snd (dns_poll drv now d s))" "calm s (snd (dns_resolve drv now host d s))"
proof -
  show "calm s (snd (dns_handle_reply drv now src port data d s))"
    by (rule reply_cases [where P = "\<lambda>x. calm s (snd x)"])
      (auto simp: dns_take_answer_def next_attempt_calm split: dns_walk.split)
  show "calm s (snd (dns_poll drv now d s))" by (simp add: dns_poll_def Let_def next_attempt_calm)
  show "calm s (snd (dns_resolve drv now host d s))" by (simp add: dns_resolve_def dns_send_attempt_def Let_def udp_send_calm)
qed

lemma dhcp_wf:
  "arp_wf s \<Longrightarrow> arp_wf (snd (dhcp_handle_reply drv now src port data d s))" "arp_wf s \<Longrightarrow> arp_wf (snd (dhcp_poll drv tsc clk d s))"
  "arp_wf s \<Longrightarrow> arp_wf (snd (dhcp_send_discover drv now d s))"
proof -
  assume w: "arp_wf s"
  have c: "arp_wf (t\<lparr>net_cfg := c\<rparr>) = arp_wf t" for t c by (simp add: arp_wf_def)
  have sd: "arp_wf (snd (dhcp_send_discover drv now e s))" "arp_wf (snd (dhcp_send_request drv now a b e s))"
    "arp_wf (snd (dhcp_send_extension drv now x e s))" for e a b x now
    using w by (simp_all add: dhcp_send_defs udp_send_wf)
  have dl: "arp_wf (snd (dhcp_drop_lease now e s))" for e now using w by (simp add: dhcp_drop_lease_def Let_def c)
  show "arp_wf (snd (dhcp_send_discover drv now d s))" by (rule sd)
  show "arp_wf (snd (dhcp_handle_reply drv now src port data d s))"
    using w sd dl by (simp add: dhcp_handle_reply_def dhcp_take_offer_def dhcp_take_ack_def dhcp_take_nak_def Let_def c)
  show "arp_wf (snd (dhcp_poll drv tsc clk d s))"
    using w sd dl by (simp add: dhcp_poll_def dhcp_lease_tick_def Let_def)
qed

lemma dhcp_ok_cong: "net_cfg s' = net_cfg s \<Longrightarrow> dhcp_ok d s' = dhcp_ok d s"
  by (simp add: dhcp_ok_def)

lemma started_keeps:
  "dhcp_started (fst (dhcp_handle_reply drv now src port data d s)) = dhcp_started d" "dhcp_started (fst (dhcp_poll drv tsc clk d s)) = dhcp_started d"
  by (simp_all add: dhcp_handle_reply_def dhcp_take_offer_def dhcp_take_ack_def dhcp_take_nak_def dhcp_poll_def dhcp_lease_tick_def
      dhcp_drop_lease_def dhcp_send_defs)

subsection \<open>Everything that can happen\<close>

text \<open>A connection before the first tcp_connect.\<close>

definition tcp_unused :: "tcp_conn_t \<Rightarrow> bool" where
  "tcp_unused c \<longleftrightarrow> tcp_state c = TCP_CLOSED \<and> \<not> retx_pending c \<and> recv_buf c = []"

text \<open>The statics as the kernel starts with them.\<close>

definition net_powered :: "net_stack \<Rightarrow> bool" where
  "net_powered n \<longleftrightarrow> ns_dhcp n = dhcp_boot \<and> \<not> ready (net_cfg (ns_net n)) \<and> my_ip (net_cfg (ns_net n)) = 0 \<and> tcp_unused (conn (ns_tcp n)) \<and>
     length (servers (ns_dns n)) = DNS_MAX_ATTEMPTS \<and> nattempts (ns_dns n) = 0 \<and> dns_fail (ns_dns n) = [] \<and> hostname (ns_dns n) = []"

text \<open>The states of the stack: it is brought up, polled with any frames at any time, and used by the applications.\<close>

inductive net_run :: "driver \<Rightarrow> net_stack \<Rightarrow> bool" for drv where
  boot: "net_powered n \<Longrightarrow> net_run drv (net_stack_init drv tsc clk n)"
| poll: "net_run drv n \<Longrightarrow> net_run drv (net_stack_poll drv tsc clk frames (n\<lparr>ns_tcp := (ns_tcp n)\<lparr>wall := w\<rparr>\<rparr>))"
| connect: "net_run drv n \<Longrightarrow> net_run drv (n\<lparr>ns_tcp := tcp_connect (ip_send drv) ip port (ns_tcp n)\<rparr>)"
| send: "net_run drv n \<Longrightarrow> net_run drv (n\<lparr>ns_tcp := snd (tcp_send_data (ip_send drv) data (ns_tcp n))\<rparr>)"
| recv: "net_run drv n \<Longrightarrow> net_run drv (n\<lparr>ns_tcp := snd (tcp_poll_recv (ip_send drv) k (ns_tcp n))\<rparr>)"
| close: "net_run drv n \<Longrightarrow> net_run drv (n\<lparr>ns_tcp := tcp_close (ip_send drv) (ns_tcp n)\<rparr>)"
| resolve: "net_run drv n \<Longrightarrow> dns_resolve drv (ns_wall n) host (ns_dns n) (ns_net n) = (d, s) \<Longrightarrow> net_run drv (with_net s (n\<lparr>ns_dns := d\<rparr>))"

text \<open>What holds of all of them: the invariants of the components side by side.\<close>

definition net_ok :: "net_stack \<Rightarrow> bool" where
  "net_ok n \<longleftrightarrow> arp_wf (ns_net n) \<and> dhcp_ok (ns_dhcp n) (ns_net n) \<and> dhcp_started (ns_dhcp n) \<and> dns_ok (ns_dns n) \<and>
     (tcp_ok (conn (ns_tcp n)) \<or> tcp_unused (conn (ns_tcp n))) \<and>
     ns_udp n = [Some (DNS_CLIENT_PORT, Dns_Handle_Reply), Some (DHCP_CLIENT_PORT, Dhcp_Handle_Reply), None, None] \<and> ns_flush n"

lemma net_ok_calm: "net_ok n \<Longrightarrow> calm (ns_net n) s \<Longrightarrow> net_ok (with_net s n)"
  using dhcp_ok_cong [of s "ns_net n" "ns_dhcp n"] by (simp add: net_ok_def with_net_def calm_def)

lemma net_ok_tcp:
  "net_ok n \<Longrightarrow> calm (ns_net n) (nt t) \<Longrightarrow> tcp_ok (conn t) \<or> tcp_unused (conn t) \<Longrightarrow> net_ok (n\<lparr>ns_tcp := t\<rparr>)"
  using dhcp_ok_cong [of "nt t" "ns_net n" "ns_dhcp n"] by (simp add: net_ok_def calm_def)

lemma unused_steps:
  assumes "tcp_unused (conn t)"
  shows "tcp_handle_packet send ip t = t" "tcp_poll_retransmit send t = t" "snd (tcp_send_data send d t) = t" "tcp_close send t = t"
    "tcp_unused (conn (snd (tcp_poll_recv send k t)))"
  using assms by (simp_all add: tcp_unused_def tcp_handle_packet_def tcp_poll_retransmit_def tcp_pump_send_def tcp_send_data_def tcp_close_def tcp_poll_recv_def Let_def)

lemma tcp_step_ok:
  assumes "tcp_ok (conn t) \<or> tcp_unused (conn t)"
  shows "tcp_ok (conn (tcp_handle_packet send ip t)) \<or> tcp_unused (conn (tcp_handle_packet send ip t))"
    "tcp_ok (conn (tcp_poll_retransmit send t)) \<or> tcp_unused (conn (tcp_poll_retransmit send t))"
    "tcp_ok (conn (snd (tcp_poll_recv send k t))) \<or> tcp_unused (conn (snd (tcp_poll_recv send k t)))"
    "tcp_ok (conn (snd (tcp_send_data send d t))) \<or> tcp_unused (conn (snd (tcp_send_data send d t)))"
    "tcp_ok (conn (tcp_close send t)) \<or> tcp_unused (conn (tcp_close send t))"
  using assms handle_packet_ok poll_retransmit_ok poll_recv_ok send_data_ok close_ok unused_steps by metis+

lemma udp_call_ok: "net_ok n \<Longrightarrow> net_ok (net_udp_call drv h src port data n)"
proof (cases h)
  case Dns_Handle_Reply
  assume n: "net_ok n"
  let ?r = "dns_handle_reply drv (ns_wall n) src port data (ns_dns n) (ns_net n)"
  have "dns_ok (fst ?r)" using dns_step_ok [of "(ns_dns n, ns_net n)" drv "Dns_Datagram (ns_wall n) src port data"] n
    by (simp add: net_ok_def dns_step_def)
  moreover have "calm (ns_net n) (snd ?r)" by (rule dns_calm)
  ultimately have "net_ok (with_net (snd ?r) (n\<lparr>ns_dns := fst ?r\<rparr>))" using n by (intro net_ok_calm) (simp_all add: net_ok_def)
  thus ?thesis by (simp add: net_udp_call_def Dns_Handle_Reply case_prod_beta)
next
  case Dhcp_Handle_Reply
  assume n: "net_ok n"
  let ?r = "dhcp_handle_reply drv (ns_wall n) src port data (ns_dhcp n) (ns_net n)"
  have "dhcp_ok (fst ?r) (snd ?r)" "arp_wf (snd ?r)" "dhcp_started (fst ?r)"
    using n reply_ok dhcp_wf(1) started_keeps(1) by (simp_all add: net_ok_def)
  hence "net_ok (with_net (snd ?r) (n\<lparr>ns_dhcp := fst ?r\<rparr>))" using n by (simp add: net_ok_def with_net_def)
  thus ?thesis by (simp add: net_udp_call_def Dhcp_Handle_Reply case_prod_beta)
qed

lemma deliver_ok:
  assumes "net_ok n"
  shows "net_ok (net_stack_deliver drv ip n)"
proof -
  have "net_ok (with_net (icmp_handle_packet drv ip (ns_net n)) n)" by (rule net_ok_calm [OF assms icmp_calm])
  moreover have "net_ok (n\<lparr>ns_tcp := tcp_handle_packet (ip_send drv) ip (ns_tcp n)\<rparr>)"
    using assms by (intro net_ok_tcp ip_layer.tcp_calm tcp_step_ok) (simp_all add: net_ok_def)
  ultimately show ?thesis using assms udp_call_ok [OF assms]
    by (auto simp: net_stack_deliver_def split: option.split)
qed

lemma frame_ok:
  assumes "net_ok n"
  shows "net_ok (net_stack_handle_frame drv frame n)"
proof -
  have "net_ok (with_net (snd (arp_handle_frame drv (ns_callback drv n) frame (ns_net n))) n)"
    by (rule net_ok_calm [OF assms arp_frame_calm])
  thus ?thesis using deliver_ok by (simp add: net_stack_handle_frame_def Let_def case_prod_beta split: option.split)
qed

lemma frames_ok: "net_ok n \<Longrightarrow> net_ok (fold (net_stack_handle_frame drv) frames n)"
  by (induction frames arbitrary: n) (simp_all add: frame_ok)

lemma poll_stack_ok:
  assumes "net_ok n"
  shows "net_ok (net_stack_poll drv tsc clk frames n)"
proof -
  let ?n0 = "with_net (net_stack_tick (ns_net n)) n"
  have w: "net_cfg (net_stack_tick s) = net_cfg s" "arp_wf (net_stack_tick s) = arp_wf s" for s by (simp_all add: net_stack_tick_def arp_wf_def)
  have 0: "net_ok ?n0" using assms w dhcp_ok_cong [OF w(1), of "ns_dhcp n" "ns_net n"] by (simp add: net_ok_def with_net_def)
  define n1 where "n1 = fold (net_stack_handle_frame drv) frames ?n0"
  have 1: "net_ok n1" unfolding n1_def by (rule frames_ok [OF 0])
  define r where "r = dhcp_poll drv tsc clk (ns_dhcp n1) (ns_net n1)"
  define n2 where "n2 = with_net (snd r) (n1\<lparr>ns_dhcp := fst r\<rparr>)"
  have 2: "net_ok n2" using 1 poll_ok dhcp_wf(2) started_keeps(2) by (simp add: net_ok_def n2_def with_net_def r_def)
  define n3 where "n3 = n2\<lparr>ns_tcp := tcp_poll_retransmit (ip_send drv) (ns_tcp n2)\<rparr>"
  have 3: "net_ok n3" unfolding n3_def using 2 by (intro net_ok_tcp ip_layer.tcp_calm tcp_step_ok) (simp_all add: net_ok_def)
  define q where "q = dns_poll drv (ns_wall n3) (ns_dns n3) (ns_net n3)"
  have "dns_ok (fst q)" using dns_step_ok [of "(ns_dns n3, ns_net n3)" drv "Dns_Poll (net_ticks (ns_net n3)) (ns_wall n3)"] 3
    by (simp add: net_ok_def dns_step_def q_def)
  hence "net_ok (with_net (snd q) (n3\<lparr>ns_dns := fst q\<rparr>))" using 3 dns_calm(2)
    by (intro net_ok_calm) (simp_all add: net_ok_def q_def)
  thus ?thesis using 0
    unfolding net_stack_poll_def Let_def case_prod_beta unfolding n1_def [symmetric] unfolding r_def [symmetric] unfolding n2_def [symmetric]
    unfolding n3_def [symmetric] unfolding q_def [symmetric] by simp
qed

lemma listeners: "snd (udp_listen DHCP_CLIENT_PORT b (snd (udp_listen DNS_CLIENT_PORT a udp_init))) =
    [Some (DNS_CLIENT_PORT, a), Some (DHCP_CLIENT_PORT, b), None, None]"
  by (simp add: udp_listen_def udp_init_def UDP_MAX_LISTENERS_def numeral_eq_Suc)

lemma stack_init_ok:
  assumes "net_powered n"
  shows "net_ok (net_stack_init drv tsc clk n)"
proof -
  let ?s = "(ns_net n)\<lparr>arp_cache := arp_cache_init, net_cfg := (net_cfg (ns_net n))\<lparr>ready := False\<rparr>\<rparr>"
  let ?d = "dhcp_boot\<lparr>dhcp_started := True, dhcp_xid := dhcp_new_xid tsc (clk 0) (dhcp_boot\<lparr>dhcp_started := True\<rparr>) ?s\<rparr>"
  let ?r = "dhcp_send_discover drv (clk 1) ?d ?s"
  have b: "ns_dhcp n = dhcp_boot" "my_ip (net_cfg (ns_net n)) = 0" using assms by (simp_all add: net_powered_def)
  have "dhcp_ok ?d ?s" using b by (simp add: dhcp_ok_def dhcp_boot_def dhcp_held_def)
  hence k: "dhcp_ok (fst ?r) (snd ?r)" by (rule discover_ok) (simp_all add: dhcp_boot_def dhcp_held_def)
  have st: "dhcp_started (fst ?r)" by (simp add: dhcp_send_defs)
  have "arp_wf ?s" by (auto simp: arp_wf_def arp_cache_init_def)
  hence w: "arp_wf (snd ?r)" by (rule dhcp_wf)
  have e: "net_stack_init drv tsc clk n = \<lparr>ns_tcp = (upd (\<lambda>c. c\<lparr>tcp_state := TCP_CLOSED\<rparr>) (ns_tcp n))\<lparr>nt := snd ?r\<rparr>,
      ns_udp = [Some (DNS_CLIENT_PORT, Dns_Handle_Reply), Some (DHCP_CLIENT_PORT, Dhcp_Handle_Reply), None, None],
      ns_dns = (ns_dns n)\<lparr>dns_state := DNS_IDLE\<rparr>, ns_dhcp = fst ?r, ns_flush = True\<rparr>"
    unfolding net_stack_init_def dns_init_def dhcp_start_def Let_def case_prod_beta fst_conv snd_conv listeners b(1) ..
  have "dns_ok ((ns_dns n)\<lparr>dns_state := DNS_IDLE\<rparr>)" using assms by (simp add: net_powered_def dns_ok_def DNS_FAIL_SIZE_def DNS_MAX_NAME_def)
  moreover have "tcp_unused ((conn (ns_tcp n))\<lparr>tcp_state := TCP_CLOSED\<rparr>)" using assms by (simp add: net_powered_def tcp_unused_def)
  ultimately show ?thesis unfolding e using k st w by (simp add: net_ok_def)
qed

lemma net_run_ok: "net_run drv n \<Longrightarrow> net_ok n"
proof (induction rule: net_run.induct)
  case (boot n tsc clk)
  thus ?case by (rule stack_init_ok)
next
  case (poll n tsc clk frames w)
  have "net_ok (n\<lparr>ns_tcp := (ns_tcp n)\<lparr>wall := w\<rparr>\<rparr>)" using poll.IH by (simp add: net_ok_def)
  thus ?case by (rule poll_stack_ok)
next
  case (connect n ip port)
  thus ?case by (intro net_ok_tcp ip_layer.tcp_calm) (simp_all add: connect_ok)
next
  case (resolve n host d s)
  have "length (servers (ns_dns n)) = DNS_MAX_ATTEMPTS" using resolve.IH by (simp add: net_ok_def dns_ok_def)
  hence "dns_ok d" using resolve_ok [of "ns_dns n" drv "ns_wall n" host "ns_net n"] resolve(2) by simp
  moreover have "calm (ns_net n) s" using dns_calm(3) [of "ns_net n" drv "ns_wall n" host "ns_dns n"] resolve(2) by simp
  ultimately show ?case using resolve.IH by (intro net_ok_calm) (simp_all add: net_ok_def)
qed (intro net_ok_tcp ip_layer.tcp_calm tcp_step_ok; simp add: net_ok_def)+

subsection \<open>A datagram in a frame\<close>

text \<open>An Ethernet frame with an IPv4 packet with a UDP datagram, and what the card may leave after it.\<close>

definition udp_frame :: "bytes \<Rightarrow> u32 \<Rightarrow> u16 \<Rightarrow> u32 \<Rightarrow> u16 \<Rightarrow> bytes \<Rightarrow> bytes \<Rightarrow> bytes" where
  "udp_frame macs src sp dst dp payload pad =
     macs @ net_put16_be ETHERTYPE_IPV4 @
     ip_build_header src dst IP_PROTO_UDP (length (udp_datagram src sp dst dp payload)) @ udp_datagram src sp dst dp payload @ pad"

lemma frame_delivered:
  assumes "net_ok n" "length macs = 12" "length payload \<le> 65000" "\<not> ready (net_cfg (ns_net n)) \<or> dst = my_ip (net_cfg (ns_net n)) \<or> dst = NET_IP4_BROADCAST"
  shows "net_stack_handle_frame drv (udp_frame macs src sp dst dp payload pad) n =
    (if dp = DNS_CLIENT_PORT then net_udp_call drv Dns_Handle_Reply src sp payload n
     else if dp = DHCP_CLIENT_PORT then net_udp_call drv Dhcp_Handle_Reply src sp payload n else n)"
proof -
  let ?u = "udp_datagram src sp dst dp payload"
  let ?f = "udp_frame macs src sp dst dp payload pad"
  let ?ip = "\<lparr>ip_version_ihl = 0x45, ip_proto = IP_PROTO_UDP, ip_total_len = of_nat (20 + length ?u), ip_src_ip = src, ip_dst_ip = dst, ip_payload = ?u\<rparr>"
  have ty: "net_get16_be ?f 12 = ETHERTYPE_IPV4" unfolding udp_frame_def by (rule get16_at) (simp add: assms(2))
  have len: "\<not> length ?f < 42" "\<not> length ?f < ETH_HDR_LEN" using assms(2) by (simp_all add: udp_frame_def ETH_HDR_LEN_def)
  have a: "arp_handle_frame drv cb ?f s = (False, s)" for cb s
    using len ty by (simp add: arp_handle_frame_def ETHERTYPE_IPV4_def ETHERTYPE_ARP_def)
  have d: "drop ETH_HDR_LEN ?f = ip_build_header src dst IP_PROTO_UDP (length ?u) @ ?u @ pad"
    using assms(2) by (simp add: udp_frame_def ETH_HDR_LEN_def)
  have p: "ip_parse (drop ETH_HDR_LEN ?f) = Some ?ip" unfolding d by (rule ip_parse_build) (use assms(3) in simp)
  have ls: "ns_udp n = [Some (DNS_CLIENT_PORT, Dns_Handle_Reply), Some (DHCP_CLIENT_PORT, Dhcp_Handle_Reply), None, None]"
    using assms(1) by (simp add: net_ok_def)
  have "net_stack_deliver drv ?ip n = (if dp = DNS_CLIENT_PORT then net_udp_call drv Dns_Handle_Reply src sp payload n
     else if dp = DHCP_CLIENT_PORT then net_udp_call drv Dhcp_Handle_Reply src sp payload n else n)"
  proof -
    let ?P = "\<lambda>l. case l of Some (port, _) \<Rightarrow> port = dp | None \<Rightarrow> False"
    have ip: "?ip = udp_packet src dst (?u @ [])" by (simp add: udp_packet_def)
    have g: "net_get16_be ?u 2 = dp"
      using udp_datagram_get [OF assms(3), of src sp dst dp] by metis
    have dist: "DNS_CLIENT_PORT \<noteq> DHCP_CLIENT_PORT" by (simp add: DNS_CLIENT_PORT_def DHCP_CLIENT_PORT_def)
    consider "dp = DNS_CLIENT_PORT" | "dp = DHCP_CLIENT_PORT" | "dp \<noteq> DNS_CLIENT_PORT" "dp \<noteq> DHCP_CLIENT_PORT" by blast
    thus ?thesis
    proof cases
      case 1
      have "find_index ?P (ns_udp n) = Some 0" "ns_udp n ! 0 = Some (dp, Dns_Handle_Reply)" using 1 by (simp_all add: ls)
      from udp_deliver [OF assms(3) this, of src dst sp "[]"] show ?thesis using 1 unfolding ip by (simp add: net_stack_deliver_def udp_packet_def IP_PROTO_UDP_def IP_PROTO_ICMP_def)
    next
      case 2
      have "find_index ?P (ns_udp n) = Some 1" "ns_udp n ! 1 = Some (dp, Dhcp_Handle_Reply)" using 2 dist by (simp_all add: ls)
      from udp_deliver [OF assms(3) this, of src dst sp "[]"] show ?thesis using 2 dist unfolding ip
        by (simp add: net_stack_deliver_def udp_packet_def IP_PROTO_UDP_def IP_PROTO_ICMP_def)
    next
      case 3
      have "find_index ?P (ns_udp n) = None" using 3 by (auto simp: ls)
      hence "udp_handle_packet (ns_udp n) ?ip = None" using g by (simp add: udp_handle_packet_def Let_def)
      thus ?thesis using 3 by (simp add: net_stack_deliver_def IP_PROTO_UDP_def IP_PROTO_ICMP_def)
    qed
  qed
  thus ?thesis unfolding net_stack_handle_frame_def a Let_def prod.case using len ty p assms(4) by (auto simp: with_net_def)
qed

text \<open>A machine just switched on, and the messages of the server of theory Dhcp in frames.\<close>

definition demo_off :: net_stack where
  "demo_off = \<lparr>ns_tcp = \<lparr>conn = \<lparr>tcp_state = TCP_CLOSED, remote_ip = 0, remote_port = 0, local_port = 0, snd_una = 0, snd_nxt = 0, rcv_nxt = 0,
       peer_mss = 0, send_buf = [], fin_pending = False, retx_len = 0, retx_flags = 0, retx_pending = False, retx_tick_sent = 0, retx_count = 0,
       tx_fail_count = 0, tx_next_tick = 0, tx_first_fail_wall = 0, peer_wnd = 0, wl1 = 0, wl2 = 0, wl_valid = False, zero_wnd_active = False,
       zero_wnd_first_wall = 0, zero_wnd_probe_wall = 0, recv_buf = [], peer_fin_seen = False\<rparr>, nt = demo_s, tcp_next_port = 49152, wall = 100\<rparr>,
     ns_udp = [], ns_dns = \<lparr>dns_state = DNS_IDLE, query_id = 0, query_tick = 0, result_ip = 0, query_wall = 0, servers = [0, 0, 0, 0],
       attempt = 0, nattempts = 0, dns_fail = [], hostname = []\<rparr>, ns_dhcp = dhcp_boot, ns_flush = False\<rparr>"

definition demo_on :: net_stack where "demo_on = net_stack_init (\<lambda>_ _. True) 12345 (\<lambda>_. 100) demo_off"

lemma demo_run: "net_run (\<lambda>_ _. True) demo_on" "\<not> ready (net_cfg (ns_net demo_on))" "dhcp_state (ns_dhcp demo_on) = DHCP_STATE_DISCOVER_SENT"
  "dhcp_started (ns_dhcp demo_on)" "length (nic_mac (ns_net demo_on)) = 6" "ns_wall demo_on = of_nat (100 mod 86400)"
proof -
  have "net_powered demo_off"
    by (simp add: net_powered_def demo_off_def demo_s_def tcp_unused_def DNS_MAX_ATTEMPTS_def)
  thus "net_run (\<lambda>_ _. True) demo_on" unfolding demo_on_def by (rule net_run.boot)
  show "\<not> ready (net_cfg (ns_net demo_on))" "dhcp_state (ns_dhcp demo_on) = DHCP_STATE_DISCOVER_SENT"
    "dhcp_started (ns_dhcp demo_on)" "length (nic_mac (ns_net demo_on)) = 6" "ns_wall demo_on = of_nat (100 mod 86400)"
    by (simp_all add: demo_on_def net_stack_init_def dhcp_start_def Let_def case_prod_beta dhcp_send_defs frame_simps demo_off_def demo_s_def demo_net_def)
qed

subsection \<open>The properties\<close>

text \<open>Claim C16. The layers keep each other's invariants: from the moment the stack is brought up, whatever frames arrive, whatever
  the card refuses to send, whenever it is polled and whatever the applications do, the address cache stays well-formed, the
  DHCP client, the resolver and the connection keep their invariants against the one configuration they share, and the two
  listeners stay registered.\<close>

theorem net_stack_invariant:
  assumes "net_run drv n"
  shows "net_ok n"
  by (rule net_run_ok [OF assms])

lemma net_stack_invariant_witness:
  "net_ok (net_stack_poll (\<lambda>_ _. True) 7 (\<lambda>k. 200 + of_nat k) [[1, 2, 3], replicate 60 0xFF] (demo_on\<lparr>ns_tcp := (ns_tcp demo_on)\<lparr>wall := 200\<rparr>\<rparr>))"
  by (rule net_stack_invariant [OF net_run.poll [OF demo_run(1)]])

text \<open>Claim C18. A datagram finds its listener and no one else: in every reachable state a frame with a UDP datagram to the machine
  (to its address, to everyone, or to any address while it has none) hands the data, with the sender's address and port, to the
  resolver if it is for port 53000 and to the DHCP client if it is for port 68; for any other port nothing changes.\<close>

theorem net_stack_delivers_udp:
  assumes "net_run drv n" "length macs = 12" "length payload \<le> 65000"
    "\<not> ready (net_cfg (ns_net n)) \<or> dst = my_ip (net_cfg (ns_net n)) \<or> dst = NET_IP4_BROADCAST"
  shows "net_stack_handle_frame drv (udp_frame macs src sp dst dp payload pad) n =
    (if dp = 53000 then
       (let (d, s) = dns_handle_reply drv (ns_wall n) src sp payload (ns_dns n) (ns_net n) in with_net s (n\<lparr>ns_dns := d\<rparr>))
     else if dp = 68 then
       (let (d, s) = dhcp_handle_reply drv (ns_wall n) src sp payload (ns_dhcp n) (ns_net n) in with_net s (n\<lparr>ns_dhcp := d\<rparr>))
     else n)"
  using frame_delivered [OF net_run_ok [OF assms(1)] assms(2-4)]
  by (simp add: net_udp_call_def DNS_CLIENT_PORT_def DHCP_CLIENT_PORT_def)

lemma net_stack_delivers_udp_witness:
  "net_stack_handle_frame (\<lambda>_ _. True) (udp_frame (replicate 12 1) 5 53 6 1234 [1, 2] [0]) demo_on = demo_on"
  using net_stack_delivers_udp [OF demo_run(1), of "replicate 12 1" "[1, 2]" 6 5 53 1234 "[0]"] demo_run(2) by simp

text \<open>Claim C17. From the wire to the configuration: when the stack has sent its discovery, the frame of a server's offer and then
  the frame of its acknowledgement give the machine the address offered with the netmask, gateway and resolver of the
  acknowledgement, through every layer.\<close>

theorem net_stack_gets_address:
  assumes "net_run drv n" "dhcp_state (ns_dhcp n) = DHCP_STATE_DISCOVER_SENT" "length (nic_mac (ns_net n)) = 6"
    and ip: "ip \<noteq> 0" "ip \<noteq> NET_IP4_BROADCAST" and clock: "ns_wall n = of_nat (T mod 86400)"
    and os: "opts_ok os1" "opts_ok os2" "map_of os1 DHCP_OPT_MSG_TYPE = Some [DHCP_MSG_OFFER]" "map_of os2 DHCP_OPT_MSG_TYPE = Some [DHCP_MSG_ACK]"
      "map_of os1 DHCP_OPT_SERVER_ID = map_of os2 DHCP_OPT_SERVER_ID" "length (dhcp_tlv os1) \<le> 1000" "length (dhcp_tlv os2) \<le> 1000"
    and len: "length macs = 12"
  defines "msg \<equiv> \<lambda>os. server_message (dhcp_xid (ns_dhcp n)) ip (nic_mac (ns_net n)) os"
    and "num \<equiv> \<lambda>t. opt_or_0 (map_option opt_num (map_of os2 t))"
  shows "net_cfg (ns_net (fold (net_stack_handle_frame drv)
      [udp_frame macs srv 67 NET_IP4_BROADCAST 68 (msg os1) pada, udp_frame macs srv 67 NET_IP4_BROADCAST 68 (msg os2) padb] n)) =
    \<lparr>my_ip = ip, netmask = num DHCP_OPT_SUBNET_MASK, gateway_ip = num DHCP_OPT_ROUTER, dns_ip = num DHCP_OPT_DNS, ready = True\<rparr>"
proof -
  have ok: "net_ok n" by (rule net_run_ok [OF assms(1)])
  have l: "length (msg os1) \<le> 65000" "length (msg os2) \<le> 65000" using os(6,7) by (simp_all add: msg_def message_fields(1) [OF assms(3)])
  have ports: "(68 :: u16) = DHCP_CLIENT_PORT" "(68 :: u16) \<noteq> DNS_CLIENT_PORT" "(67 :: u16) = DHCP_SERVER_PORT"
    by (simp_all add: DHCP_CLIENT_PORT_def DNS_CLIENT_PORT_def DHCP_SERVER_PORT_def)
  obtain d1 s1 where r1: "dhcp_handle_reply drv (ns_wall n) srv DHCP_SERVER_PORT (msg os1) (ns_dhcp n) (ns_net n) = (d1, s1)" by fastforce
  define n1 where "n1 = with_net s1 (n\<lparr>ns_dhcp := d1\<rparr>)"
  have f1: "net_stack_handle_frame drv (udp_frame macs srv 67 NET_IP4_BROADCAST 68 (msg os1) pada) n = n1"
    using frame_delivered [OF ok len l(1), of NET_IP4_BROADCAST drv srv 67 68 pada] ports r1 by (simp add: net_udp_call_def n1_def)
  hence ok1: "net_ok n1" using frame_ok [OF ok, of drv] by metis
  obtain d2 s2 where r2: "dhcp_handle_reply drv (ns_wall n) srv DHCP_SERVER_PORT (msg os2) d1 s1 = (d2, s2)" by fastforce
  have g1: "ns_dhcp n1 = d1" "ns_net n1 = s1" "ns_wall n1 = ns_wall n" by (simp_all add: n1_def with_net_def)
  have f2: "net_stack_handle_frame drv (udp_frame macs srv 67 NET_IP4_BROADCAST 68 (msg os2) padb) n1 = with_net s2 (n1\<lparr>ns_dhcp := d2\<rparr>)"
    using frame_delivered [OF ok1 len l(2), of NET_IP4_BROADCAST drv srv 67 68 padb] ports r2 g1 by (simp add: net_udp_call_def)
  have st: "dhcp_started (ns_dhcp n)" using ok by (simp add: net_ok_def)
  have "net_cfg s2 = \<lparr>my_ip = ip, netmask = num DHCP_OPT_SUBNET_MASK, gateway_ip = num DHCP_OPT_ROUTER, dns_ip = num DHCP_OPT_DNS, ready = True\<rparr>"
    using lease_obtained [OF assms(3,2) st ip os(1-5) r1 [unfolded msg_def] r2 [unfolded msg_def clock]] by (simp add: num_def)
  thus ?thesis using f1 f2 by (simp add: with_net_def)
qed

lemma got_address:
  "net_cfg (ns_net (fold h [f1, f2] n)) = \<lparr>my_ip = a, netmask = m, gateway_ip = g, dns_ip = d, ready = r\<rparr> \<Longrightarrow>
    \<exists>f1 f2. my_ip (net_cfg (ns_net (fold h [f1, f2] n))) = a"
  by (intro exI [of _ f1] exI [of _ f2]) simp

lemma net_stack_gets_address_witness:
  "\<exists>f1 f2. my_ip (net_cfg (ns_net (fold (net_stack_handle_frame (\<lambda>_ _. True)) [f1, f2] demo_on))) = 0x0A00020F"
proof -
  have l: "length (dhcp_tlv (demo_opts DHCP_MSG_OFFER)) \<le> 1000" "length (dhcp_tlv (demo_opts DHCP_MSG_ACK)) \<le> 1000"
    by (simp_all add: dhcp_tlv_def demo_opts_def)
  have m: "length (replicate 12 (0xFF :: u8)) = 12" by simp
  show ?thesis by (rule got_address [OF net_stack_gets_address [OF demo_run(1,3,5) demo_hyps(4,5) demo_run(6) demo_hyps(6-10) l m,
    where srv = "0x0A000202" and pada = "[]" and padb = "[]"]])
qed

end
