(* ===== verification/Mm.thy ===== *)
theory Mm
  imports Prelude
begin

text \<open>
  mm.h, the page-frame allocator: the managed range, its allocation bitmap (which lives in the first
  pages of the range itself), first-fit allocation from a rolling hint, and freeing. Memory is a
  function from addresses to bytes and pointers are addresses, 0 being NULL; u32 counters that
  can wrap are written modulo 2 ^ 32. The heap on top of the pages is theory Heap.
\<close>

definition MM_PAGE :: nat where "MM_PAGE = 4096"
definition MM_CHUNK_MAX :: nat where "MM_CHUNK_MAX = 16"
definition MM_MAX_TOP :: nat where "MM_MAX_TOP = 0x40000000"
definition MW_MM_FIRST_ADDR :: nat where "MW_MM_FIRST_ADDR = 0x00900000"

record mm =
  mem :: "nat \<Rightarrow> u8"
  mm_base :: nat
  mm_npages :: nat
  mm_bitmap_pages :: nat
  mm_hint :: nat
  mm_free_pg :: nat
  mm_chunks :: "(nat \<times> nat) list"
  mm_stat_allocs :: nat
  mm_stat_frees :: nat
  mm_stat_bad_frees :: nat
  mm_stat_failed :: nat

subsection \<open>The bitmap\<close>

text \<open>mm_bitmap is mm_base: bit p is in the byte p / 8 of the range.\<close>

definition mm_bit :: "mm \<Rightarrow> nat \<Rightarrow> bool" where
  "mm_bit s p = (drop_bit (p mod 8) (mem s (mm_base s + p div 8)) AND 1 \<noteq> 0)"

definition mm_bit_set :: "nat \<Rightarrow> mm \<Rightarrow> mm" where
  "mm_bit_set p s =
     (let a = mm_base s + p div 8
      in s\<lparr>mem := (mem s)(a := mem s a OR push_bit (p mod 8) 1)\<rparr>)"

definition mm_bit_clr :: "nat \<Rightarrow> mm \<Rightarrow> mm" where
  "mm_bit_clr p s =
     (let a = mm_base s + p div 8
      in s\<lparr>mem := (mem s)(a := mem s a AND NOT (push_bit (p mod 8) 1))\<rparr>)"

text \<open>for (q = first; q < stop; q++) mm_bit_set(q), and the same with mm_bit_clr.\<close>

definition mm_set_range :: "nat \<Rightarrow> nat \<Rightarrow> mm \<Rightarrow> mm" where
  "mm_set_range first stop s = fold mm_bit_set [first..<stop] s"

definition mm_clr_range :: "nat \<Rightarrow> nat \<Rightarrow> mm \<Rightarrow> mm" where
  "mm_clr_range first stop s = fold mm_bit_clr [first..<stop] s"

definition mem_zero :: "nat \<Rightarrow> nat \<Rightarrow> mm \<Rightarrow> mm" where
  "mem_zero a n s = s\<lparr>mem := (\<lambda>x. if a \<le> x \<and> x < a + n then 0 else mem s x)\<rparr>"

definition mm_init_region :: "nat \<Rightarrow> nat \<Rightarrow> mm \<Rightarrow> bool \<times> mm" where
  "mm_init_region base len s =
     (let n = len div MM_PAGE in
      if base = 0 \<or> n < 8 \<or> base mod MM_PAGE \<noteq> 0 then (False, s)
      else
        let bp = (n div 8 + MM_PAGE - 1) div MM_PAGE;
            s = s\<lparr>mm_base := base, mm_npages := n, mm_bitmap_pages := bp\<rparr>;
            s = mem_zero base (bp * MM_PAGE) s;
            s = mm_set_range 0 bp s
        in (True, s\<lparr>mm_free_pg := n - bp, mm_hint := bp,
                     mm_chunks := replicate MM_CHUNK_MAX (0, 0), mm_stat_allocs := 0, mm_stat_frees := 0,
                     mm_stat_bad_frees := 0, mm_stat_failed := 0\<rparr>))"

definition mm_init_boot :: "nat \<Rightarrow> mm \<Rightarrow> bool \<times> mm" where
  "mm_init_boot total_kb s =
     (let top = (if total_kb \<ge> MM_MAX_TOP div 1024 then MM_MAX_TOP else total_kb * 1024) in
      if top \<le> MW_MM_FIRST_ADDR + 64 * 1024 then (False, s)
      else mm_init_region MW_MM_FIRST_ADDR (top - MW_MM_FIRST_ADDR) s)"

subsection \<open>Allocating\<close>

text \<open>One pass of the search: from p to stop, with the length of the free run so far; the result
  is the last page of the first free run of n pages.\<close>

function mm_scan :: "(nat \<Rightarrow> bool) \<Rightarrow> nat \<Rightarrow> nat \<Rightarrow> nat \<Rightarrow> nat \<Rightarrow> nat option" where
  "mm_scan used n p stop run =
     (if p \<ge> stop then None
      else if used p then mm_scan used n (p + 1) stop 0
      else if run + 1 = n then Some p
      else mm_scan used n (p + 1) stop (run + 1))"
  by pat_completeness auto
termination by (relation "measure (\<lambda>(_, _, p, stop, _). stop - p)") auto

declare mm_scan.simps [simp del]

definition mm_take_run :: "nat \<Rightarrow> bool \<Rightarrow> nat \<Rightarrow> mm \<Rightarrow> nat \<times> mm" where
  "mm_take_run n zero p s =
     (let first = p + 1 - n;
          s = mm_set_range first (p + 1) s;
          s = s\<lparr>mm_free_pg := mm_free_pg s - n,
                mm_hint := (if p + 1 < mm_npages s then p + 1 else mm_bitmap_pages s)\<rparr>;
          r = mm_base s + first * MM_PAGE
      in (r, if zero then mem_zero r (n * MM_PAGE) s else s))"

definition mm_pages_alloc_z :: "nat \<Rightarrow> bool \<Rightarrow> mm \<Rightarrow> nat \<times> mm" where
  "mm_pages_alloc_z n zero s =
     (if mm_base s = 0 \<or> n = 0 \<or> n > mm_free_pg s then (0, s\<lparr>mm_stat_failed := (mm_stat_failed s + 1) mod 2 ^ 32\<rparr>)
      else
        case mm_scan (mm_bit s) n (mm_hint s) (mm_npages s) 0 of
          Some p \<Rightarrow> mm_take_run n zero p s
        | None \<Rightarrow>
            let stop = (mm_hint s + n) mod 2 ^ 32;
                stop = (if stop > mm_npages s then mm_npages s else stop)
            in (case mm_scan (mm_bit s) n (mm_bitmap_pages s) stop 0 of
                  Some p \<Rightarrow> mm_take_run n zero p s
                | None \<Rightarrow> (0, s\<lparr>mm_stat_failed := (mm_stat_failed s + 1) mod 2 ^ 32\<rparr>)))"

definition mm_pages_alloc :: "nat \<Rightarrow> mm \<Rightarrow> nat \<times> mm" where
  "mm_pages_alloc n = mm_pages_alloc_z n False"

definition mm_page_alloc :: "mm \<Rightarrow> nat \<times> mm" where
  "mm_page_alloc = mm_pages_alloc_z 1 True"

subsection \<open>Freeing\<close>

definition mm_bad_free :: "mm \<Rightarrow> bool \<times> mm" where
  "mm_bad_free s = (False, s\<lparr>mm_stat_bad_frees := (mm_stat_bad_frees s + 1) mod 2 ^ 32\<rparr>)"

definition mm_pages_free :: "nat \<Rightarrow> nat \<Rightarrow> mm \<Rightarrow> bool \<times> mm" where
  "mm_pages_free p n s =
     (if mm_base s = 0 \<or> p < mm_base s \<or> (p - mm_base s) mod MM_PAGE \<noteq> 0 \<or> n = 0 then mm_bad_free s
      else
        let first = (p - mm_base s) div MM_PAGE;
            stop = (first + n) mod 2 ^ 32
        in if first < mm_bitmap_pages s \<or> stop > mm_npages s then mm_bad_free s
           else if \<not> (\<forall>q\<in>set [first..<stop]. mm_bit s q) then mm_bad_free s
           else
             let s = mm_clr_range first stop s;
                 s = s\<lparr>mm_free_pg := (mm_free_pg s + n) mod 2 ^ 32\<rparr>
             in (True, if first < mm_hint s then s\<lparr>mm_hint := first\<rparr> else s))"

subsection \<open>Bits\<close>

lemma mm_bit_bit: "mm_bit s p = bit (mem s (mm_base s + p div 8)) (p mod 8)"
proof -
  have "drop_bit (p mod 8) w AND 1 \<noteq> 0 \<longleftrightarrow> bit w (p mod 8)" for w :: u8
    by (simp add: bit_iff_odd_drop_bit and_one_eq odd_iff_mod_2_eq_one)
  thus ?thesis by (simp add: mm_bit_def)
qed

lemma same_byte: "p div 8 = q div 8 \<and> p mod 8 = q mod 8 \<longleftrightarrow> p = (q :: nat)"
  by (metis div_mult_mod_eq)

lemma mm_bit_set_frame [simp]:
  "mm_base (mm_bit_set p s) = mm_base s" "mm_npages (mm_bit_set p s) = mm_npages s"
  "mm_bitmap_pages (mm_bit_set p s) = mm_bitmap_pages s" "mm_hint (mm_bit_set p s) = mm_hint s"
  "mm_free_pg (mm_bit_set p s) = mm_free_pg s"
  "mm_base (mm_bit_clr p s) = mm_base s" "mm_npages (mm_bit_clr p s) = mm_npages s"
  "mm_bitmap_pages (mm_bit_clr p s) = mm_bitmap_pages s" "mm_hint (mm_bit_clr p s) = mm_hint s"
  "mm_free_pg (mm_bit_clr p s) = mm_free_pg s"
  by (simp_all add: mm_bit_set_def mm_bit_clr_def Let_def)

lemma mm_bit_set_bit: "mm_bit (mm_bit_set p s) q \<longleftrightarrow> q = p \<or> mm_bit s q"
proof -
  have m: "q mod 8 < LENGTH(8)" "p mod 8 < LENGTH(8)" by simp_all
  show ?thesis
    using same_byte [of q p] m by (auto simp: mm_bit_bit mm_bit_set_def Let_def bit_simps)
qed

lemma mm_bit_clr_bit: "mm_bit (mm_bit_clr p s) q \<longleftrightarrow> q \<noteq> p \<and> mm_bit s q"
proof -
  have m: "q mod 8 < LENGTH(8)" "p mod 8 < LENGTH(8)" by simp_all
  show ?thesis
    using same_byte [of q p] m by (auto simp: mm_bit_bit mm_bit_clr_def Let_def bit_simps)
qed

lemma set_range_frame [simp]:
  "mm_base (fold mm_bit_set ps s) = mm_base s" "mm_npages (fold mm_bit_set ps s) = mm_npages s"
  "mm_bitmap_pages (fold mm_bit_set ps s) = mm_bitmap_pages s" "mm_hint (fold mm_bit_set ps s) = mm_hint s"
  "mm_free_pg (fold mm_bit_set ps s) = mm_free_pg s"
  "mm_base (fold mm_bit_clr ps s) = mm_base s" "mm_npages (fold mm_bit_clr ps s) = mm_npages s"
  "mm_bitmap_pages (fold mm_bit_clr ps s) = mm_bitmap_pages s" "mm_hint (fold mm_bit_clr ps s) = mm_hint s"
  "mm_free_pg (fold mm_bit_clr ps s) = mm_free_pg s"
  by (induction ps arbitrary: s) simp_all

lemma set_range_bit: "mm_bit (mm_set_range a b s) q \<longleftrightarrow> a \<le> q \<and> q < b \<or> mm_bit s q"
proof -
  have "mm_bit (fold mm_bit_set ps s) q \<longleftrightarrow> q \<in> set ps \<or> mm_bit s q" for ps
    by (induction ps arbitrary: s) (auto simp: mm_bit_set_bit)
  thus ?thesis by (auto simp: mm_set_range_def)
qed

lemma clr_range_bit: "mm_bit (mm_clr_range a b s) q \<longleftrightarrow> \<not> (a \<le> q \<and> q < b) \<and> mm_bit s q"
proof -
  have "mm_bit (fold mm_bit_clr ps s) q \<longleftrightarrow> q \<notin> set ps \<and> mm_bit s q" for ps
    by (induction ps arbitrary: s) (auto simp: mm_bit_clr_bit)
  thus ?thesis by (auto simp: mm_clr_range_def)
qed

lemma range_frame [simp]:
  "mm_base (mm_set_range a b s) = mm_base s" "mm_npages (mm_set_range a b s) = mm_npages s"
  "mm_bitmap_pages (mm_set_range a b s) = mm_bitmap_pages s" "mm_hint (mm_set_range a b s) = mm_hint s"
  "mm_free_pg (mm_set_range a b s) = mm_free_pg s"
  "mm_base (mm_clr_range a b s) = mm_base s" "mm_npages (mm_clr_range a b s) = mm_npages s"
  "mm_bitmap_pages (mm_clr_range a b s) = mm_bitmap_pages s" "mm_hint (mm_clr_range a b s) = mm_hint s"
  "mm_free_pg (mm_clr_range a b s) = mm_free_pg s"
  by (simp_all add: mm_set_range_def mm_clr_range_def)

text \<open>Only bytes of the bitmap change: those below the end of the last page's byte.\<close>

lemma set_range_mem:
  "x < mm_base s \<or> mm_base s + (b - 1) div 8 < x \<Longrightarrow> mem (mm_set_range a b s) x = mem s x"
proof -
  assume x: "x < mm_base s \<or> mm_base s + (b - 1) div 8 < x"
  have "(\<forall>p\<in>set ps. p < b) \<Longrightarrow> x < mm_base s \<or> mm_base s + (b - 1) div 8 < x \<Longrightarrow>
    mem (fold mm_bit_set ps s) x = mem s x" for ps s
  proof (induction ps arbitrary: s)
    case (Cons p ps)
    have "p div 8 \<le> (b - 1) div 8" using Cons.prems(1) by (intro div_le_mono) auto
    hence "mem (mm_bit_set p s) x = mem s x" using Cons.prems(2) by (auto simp: mm_bit_set_def Let_def)
    thus ?case using Cons by simp
  qed simp
  thus ?thesis using x by (simp add: mm_set_range_def)
qed

subsection \<open>The search\<close>

lemma scan_Some:
  assumes "mm_scan used n p stop run = Some q" "run < n" "run \<le> p" "\<forall>i. p - run \<le> i \<and> i < p \<longrightarrow> \<not> used i"
  shows "q < stop \<and> p \<le> q \<and> p - run + n \<le> q + 1 \<and> n \<le> q + 1 \<and> (\<forall>i. q + 1 - n \<le> i \<and> i \<le> q \<longrightarrow> \<not> used i)"
  using assms
proof (induction used n p stop run rule: mm_scan.induct)
  case (1 used n p stop run)
  from 1(3) have lt: "p < stop" by (subst (asm) mm_scan.simps) (auto split: if_splits)
  show ?case
  proof (cases "used p")
    case True
    have "mm_scan used n (p + 1) stop 0 = Some q" using 1(3) lt True by (subst (asm) mm_scan.simps) simp
    moreover have "\<forall>i. p + 1 - 0 \<le> i \<and> i < p + 1 \<longrightarrow> \<not> used i" by auto
    ultimately show ?thesis using 1(1) [OF _ True] lt 1(4) by fastforce
  next
    case False
    show ?thesis
    proof (cases "run + 1 = n")
      case True
      have "q = p" using 1(3) lt False True by (subst (asm) mm_scan.simps) simp
      moreover have "\<not> used i" if "p + 1 - n \<le> i" "i \<le> p" for i
        using that True False 1(6) by (cases "i = p") auto
      ultimately show ?thesis using lt True 1(5) by auto
    next
      case neq: False
      have "mm_scan used n (p + 1) stop (run + 1) = Some q"
        using 1(3) lt False neq by (subst (asm) mm_scan.simps) simp
      moreover have "\<forall>i. p + 1 - (run + 1) \<le> i \<and> i < p + 1 \<longrightarrow> \<not> used i"
        using 1(6) False by (auto simp: less_Suc_eq)
      moreover have "\<not> p \<ge> stop" "run + 1 < n" "run + 1 \<le> p + 1" using lt 1(4,5) neq by simp_all
      ultimately have "q < stop \<and> p + 1 \<le> q \<and> p + 1 - (run + 1) + n \<le> q + 1 \<and> n \<le> q + 1 \<and>
          (\<forall>i. q + 1 - n \<le> i \<and> i \<le> q \<longrightarrow> \<not> used i)"
        using 1(2) [OF _ False neq] by blast
      thus ?thesis by simp
    qed
  qed
qed

lemma no_i: "\<forall>i. p - 0 \<le> i \<and> i < p \<longrightarrow> \<not> used i" for p :: nat by auto

lemma scan_None:
  assumes "mm_scan used n p stop run = None" "run < n" "run \<le> p" "p - run \<le> f" "f + n \<le> stop"
  shows "\<exists>i. f \<le> i \<and> i < f + n \<and> used i"
  using assms
proof (induction used n p stop run rule: mm_scan.induct)
  case (1 used n p stop run)
  have lt: "p < stop" using 1(4-7) by linarith
  show ?case
  proof (cases "used p")
    case True
    have n: "mm_scan used n (p + 1) stop 0 = None" using 1(3) lt True by (subst (asm) mm_scan.simps) simp
    show ?thesis
    proof (cases "f \<le> p")
      case True
      thus ?thesis using \<open>used p\<close> 1(4,5,6) by (intro exI [of _ p]) linarith
    next
      case False
      thus ?thesis using 1(1) [OF _ True n] lt 1(4,7) by simp
    qed
  next
    case False
    have neq: "run + 1 \<noteq> n" using 1(3) lt False by (subst (asm) mm_scan.simps) (auto split: if_splits)
    have n: "mm_scan used n (p + 1) stop (run + 1) = None"
      using 1(3) lt False neq by (subst (asm) mm_scan.simps) simp
    show ?thesis using 1(2) [OF _ False neq n] lt 1(4-7) neq by simp
  qed
qed

subsection \<open>The invariant\<close>

text \<open>The allocator's invariant: an aligned range whose bitmap has room for every page, the bitmap's own
  pages marked used, the hint inside the managed pages and the free counter exact.\<close>

definition free_set :: "mm \<Rightarrow> nat set" where
  "free_set s = {p. mm_bitmap_pages s \<le> p \<and> p < mm_npages s \<and> \<not> mm_bit s p}"

definition mm_ok :: "mm \<Rightarrow> bool" where
  "mm_ok s \<longleftrightarrow> 0 < mm_base s \<and> mm_base s mod MM_PAGE = 0 \<and>
     mm_npages s \<le> 2 ^ 20 \<and> mm_bitmap_pages s < mm_npages s \<and>
     mm_npages s \<le> 8 * MM_PAGE * mm_bitmap_pages s \<and>
     (\<forall>p < mm_bitmap_pages s. mm_bit s p) \<and>
     mm_bitmap_pages s \<le> mm_hint s \<and> mm_hint s < mm_npages s \<and>
     mm_free_pg s = card (free_set s)"

lemma finite_free_set [simp]: "finite (free_set s)"
  by (rule finite_subset [of _ "{..<mm_npages s}"]) (auto simp: free_set_def)

lemma free_pg_le: "mm_ok s \<Longrightarrow> mm_free_pg s \<le> 2 ^ 20"
proof -
  assume ok: "mm_ok s"
  have "card (free_set s) \<le> card {..<mm_npages s}" by (rule card_mono) (auto simp: free_set_def)
  thus ?thesis using ok by (simp add: mm_ok_def)
qed

text \<open>Zeroing memory above the bitmap does not change the bits.\<close>

lemma mm_bit_zero:
  "mm_base s + (p div 8) < a \<Longrightarrow> mm_bit (mem_zero a n s) p = mm_bit s p"
  by (simp add: mm_bit_bit mem_zero_def)

lemma mem_zero_frame [simp]:
  "mm_base (mem_zero a n s) = mm_base s" "mm_npages (mem_zero a n s) = mm_npages s"
  "mm_bitmap_pages (mem_zero a n s) = mm_bitmap_pages s" "mm_hint (mem_zero a n s) = mm_hint s"
  "mm_free_pg (mem_zero a n s) = mm_free_pg s"
  by (simp_all add: mem_zero_def)

lemma take_run_result:
  fixes zero :: bool and n q :: nat and s :: mm
  assumes ok: "mm_ok s" and q: "q < mm_npages s" "n \<le> q + 1" "mm_bitmap_pages s \<le> q + 1 - n" "0 < n"
    and free: "\<forall>i. q + 1 - n \<le> i \<and> i \<le> q \<longrightarrow> \<not> mm_bit s i"
  defines "first \<equiv> q + 1 - n"
  defines "s' \<equiv> snd (mm_take_run n zero q s)"
  shows "fst (mm_take_run n zero q s) = mm_base s + first * MM_PAGE"
    "\<And>p. p < mm_npages s \<Longrightarrow> mm_bit s' p = (mm_bit s p \<or> first \<le> p \<and> p < first + n)"
    "mm_npages s' = mm_npages s" "mm_bitmap_pages s' = mm_bitmap_pages s" "mm_base s' = mm_base s"
    "mm_ok s'"
proof -
  let ?a = "mm_base s + first * MM_PAGE"
  have f: "first + n = q + 1" using q(2) by (simp add: first_def)
  show r: "fst (mm_take_run n zero q s) = mm_base s + first * MM_PAGE"
    by (simp add: mm_take_run_def Let_def first_def)
  show fr: "mm_npages s' = mm_npages s" "mm_bitmap_pages s' = mm_bitmap_pages s" "mm_base s' = mm_base s"
    by (simp_all add: s'_def mm_take_run_def Let_def)
  have below: "mm_base s + p div 8 < ?a" if "p < mm_npages s" for p
  proof -
    have "p div 8 < MM_PAGE * mm_bitmap_pages s"
      using that ok by (simp add: mm_ok_def less_mult_imp_div_less mult.commute mult.left_commute)
    also have "\<dots> \<le> first * MM_PAGE" using q(3) by (simp add: first_def mult.commute)
    finally show ?thesis by simp
  qed
  show bits: "mm_bit s' p = (mm_bit s p \<or> first \<le> p \<and> p < first + n)" if "p < mm_npages s" for p
  proof -
    have upd: "mm_bit (t\<lparr>mm_free_pg := a, mm_hint := b\<rparr>) p = mm_bit t p" for t a b
      by (simp add: mm_bit_def)
    define t where "t = (mm_set_range first (q + 1) s)\<lparr>mm_free_pg := mm_free_pg (mm_set_range first (q + 1) s) - n,
        mm_hint := (if q + 1 < mm_npages (mm_set_range first (q + 1) s) then q + 1
                    else mm_bitmap_pages (mm_set_range first (q + 1) s))\<rparr>"
    have e: "s' = (if zero then mem_zero (mm_base t + first * MM_PAGE) (n * MM_PAGE) t else t)"
      unfolding s'_def mm_take_run_def Let_def first_def t_def snd_conv by (rule refl)
    have "mm_base t = mm_base s" by (simp add: t_def)
    hence "mm_bit s' p = mm_bit t p"
      using below [OF that] mm_bit_zero [of t p ?a "n * MM_PAGE"] by (simp add: e)
    hence "mm_bit s' p = mm_bit (mm_set_range first (q + 1) s) p" by (simp add: t_def upd)
    thus ?thesis using f by (auto simp: set_range_bit)
  qed
  have nb: "\<not> mm_bit s i" if "first \<le> i" "i < first + n" for i
    using free that f unfolding first_def by auto
  have sub: "{first..<first + n} \<subseteq> free_set s"
    using nb q(1,3) f by (auto simp: free_set_def first_def)
  have "free_set s' = free_set s - {first..<first + n}"
    using bits by (auto simp: free_set_def fr)
  hence "card (free_set s') = card (free_set s) - n" using card_Diff_subset [OF _ sub] by simp
  moreover have "mm_free_pg s' = mm_free_pg s - n"
    by (simp add: s'_def mm_take_run_def Let_def)
  moreover have "mm_hint s' = (if q + 1 < mm_npages s then q + 1 else mm_bitmap_pages s)"
    by (simp add: s'_def mm_take_run_def Let_def)
  moreover have "\<forall>p<mm_bitmap_pages s. mm_bit s' p"
    using ok bits by (simp add: mm_ok_def)
  moreover have "mm_bitmap_pages s \<le> q + 1" using q(3) by linarith
  ultimately show "mm_ok s'"
    using ok q by (simp add: mm_ok_def fr)
qed

lemma take_run_zeroed:
  assumes "r \<le> x" "x < r + n * MM_PAGE" "r = fst (mm_take_run n True q s)"
  shows "mem (snd (mm_take_run n True q s)) x = 0"
  using assms by (simp add: mm_take_run_def Let_def mem_zero_def)

definition free_run :: "mm \<Rightarrow> nat \<Rightarrow> nat \<Rightarrow> bool" where
  "free_run s n f \<longleftrightarrow> mm_bitmap_pages s \<le> f \<and> f + n \<le> mm_npages s \<and> (\<forall>i. f \<le> i \<and> i < f + n \<longrightarrow> \<not> mm_bit s i)"

lemma free_run_card: "mm_ok s \<Longrightarrow> free_run s n f \<Longrightarrow> n \<le> mm_free_pg s"
proof -
  assume a: "mm_ok s" "free_run s n f"
  have "{f..<f + n} \<subseteq> free_set s" using a(2) by (auto simp: free_run_def free_set_def)
  from card_mono [OF finite_free_set this] show ?thesis using a(1) by (simp add: mm_ok_def)
qed

lemma alloc_cases:
  assumes ok: "mm_ok s" and n: "0 < n"
  obtains (fail) "mm_pages_alloc_z n zero s = (0, s\<lparr>mm_stat_failed := (mm_stat_failed s + 1) mod 2 ^ 32\<rparr>)" "\<And>f. \<not> free_run s n f"
  | (found) q where "mm_pages_alloc_z n zero s = mm_take_run n zero q s" "q < mm_npages s" "n \<le> q + 1"
      "mm_bitmap_pages s \<le> q + 1 - n" "\<forall>i. q + 1 - n \<le> i \<and> i \<le> q \<longrightarrow> \<not> mm_bit s i"
proof (cases "n > mm_free_pg s")
  case True
  thus thesis using fail free_run_card [OF ok] by (fastforce simp: mm_pages_alloc_z_def)
next
  case le: False
  have b: "mm_base s \<noteq> 0" using ok by (simp add: mm_ok_def)
  have "mm_free_pg s \<le> mm_npages s"
    using ok card_mono [of "{..<mm_npages s}" "free_set s"] by (auto simp: mm_ok_def free_set_def)
  hence nw: "(mm_hint s + n) mod 2 ^ 32 = mm_hint s + n" using ok le by (auto simp: mm_ok_def)
  let ?stop = "if mm_hint s + n > mm_npages s then mm_npages s else mm_hint s + n"
  show thesis
  proof (cases "mm_scan (mm_bit s) n (mm_hint s) (mm_npages s) 0")
    case (Some q)
    have "q < mm_npages s" "n \<le> q + 1" "mm_hint s + n \<le> q + 1" "\<forall>i. q + 1 - n \<le> i \<and> i \<le> q \<longrightarrow> \<not> mm_bit s i"
      using scan_Some [OF Some n le0 no_i] by auto
    moreover have "mm_pages_alloc_z n zero s = mm_take_run n zero q s"
      using b n le Some by (simp add: mm_pages_alloc_z_def)
    ultimately show thesis using ok by (intro found) (auto simp: mm_ok_def)
  next
    case n0: None
    show thesis
    proof (cases "mm_scan (mm_bit s) n (mm_bitmap_pages s) ?stop 0")
      case (Some q)
      have "q < ?stop" "n \<le> q + 1" "mm_bitmap_pages s + n \<le> q + 1"
        "\<forall>i. q + 1 - n \<le> i \<and> i \<le> q \<longrightarrow> \<not> mm_bit s i"
        using scan_Some [OF Some n le0 no_i] by auto
      moreover have "mm_pages_alloc_z n zero s = mm_take_run n zero q s"
        using b n le n0 Some nw by (simp add: mm_pages_alloc_z_def Let_def)
      ultimately show thesis using ok by (intro found) (auto simp: mm_ok_def split: if_splits)
    next
      case n1: None
      have "\<not> free_run s n f" for f
      proof
        assume fr: "free_run s n f"
        show False
        proof (cases "mm_hint s \<le> f")
          case True
          from scan_None [OF n0 n, of f] True fr show False by (auto simp: free_run_def)
        next
          case False
          hence "f + n \<le> ?stop" using fr by (auto simp: free_run_def)
          from scan_None [OF n1 n, of f] this fr show False by (auto simp: free_run_def)
        qed
      qed
      moreover have "mm_pages_alloc_z n zero s = (0, s\<lparr>mm_stat_failed := (mm_stat_failed s + 1) mod 2 ^ 32\<rparr>)"
        using b n le n0 n1 nw by (simp add: mm_pages_alloc_z_def Let_def)
      ultimately show thesis by (rule fail [rotated])
    qed
  qed
qed

lemma mm_ok_stats [simp]:
  "mm_bit (s\<lparr>mm_stat_failed := a\<rparr>) p = mm_bit s p" "mm_ok (s\<lparr>mm_stat_failed := a\<rparr>) = mm_ok s"
  "mm_bit (s\<lparr>mm_stat_bad_frees := a\<rparr>) p = mm_bit s p" "mm_ok (s\<lparr>mm_stat_bad_frees := a\<rparr>) = mm_ok s"
  by (simp_all add: mm_ok_def mm_bit_def free_set_def)

subsection \<open>Freeing\<close>

definition all_used :: "mm \<Rightarrow> nat \<Rightarrow> nat \<Rightarrow> bool" where
  "all_used s first n \<longleftrightarrow> mm_bitmap_pages s \<le> first \<and> 0 < n \<and> first + n \<le> mm_npages s \<and>
     (\<forall>i. first \<le> i \<and> i < first + n \<longrightarrow> mm_bit s i)"

lemma free_ok_result:
  assumes ok: "mm_ok s" and u: "all_used s first n"
  defines "s' \<equiv> snd (mm_pages_free (mm_base s + first * MM_PAGE) n s)"
  shows "fst (mm_pages_free (mm_base s + first * MM_PAGE) n s)"
    "\<And>p. mm_bit s' p = (mm_bit s p \<and> \<not> (first \<le> p \<and> p < first + n))"
    "mm_npages s' = mm_npages s" "mm_bitmap_pages s' = mm_bitmap_pages s" "mm_base s' = mm_base s"
    "mm_ok s'"
proof -
  have pg: "(mm_base s + first * MM_PAGE - mm_base s) mod MM_PAGE = 0"
    "(mm_base s + first * MM_PAGE - mm_base s) div MM_PAGE = first" by (simp_all add: MM_PAGE_def)
  have nw: "(first + n) mod 2 ^ 32 = first + n" using ok u by (auto simp: mm_ok_def all_used_def)
  have sub: "{first..<first + n} \<inter> free_set s = {}" using u by (auto simp: all_used_def free_set_def)
  have "card (free_set s \<union> {first..<first + n}) = card (free_set s) + n"
    using sub by (subst card_Un_disjoint) auto
  moreover have "free_set s \<union> {first..<first + n} \<subseteq> {..<mm_npages s}"
    using u by (auto simp: all_used_def free_set_def)
  hence "card (free_set s \<union> {first..<first + n}) \<le> mm_npages s"
    using card_mono [of "{..<mm_npages s}"] by fastforce
  ultimately have fw: "(mm_free_pg s + n) mod 2 ^ 32 = card (free_set s \<union> {first..<first + n})"
    using ok by (simp add: mm_ok_def)
  let ?t = "(mm_clr_range first (first + n) s)\<lparr>mm_free_pg := card (free_set s \<union> {first..<first + n})\<rparr>"
  have e: "mm_pages_free (mm_base s + first * MM_PAGE) n s =
      (True, if first < mm_hint s then ?t\<lparr>mm_hint := first\<rparr> else ?t)"
  proof -
    have g: "\<not> (mm_base s = 0 \<or> mm_base s + first * MM_PAGE < mm_base s \<or>
        (mm_base s + first * MM_PAGE - mm_base s) mod MM_PAGE \<noteq> 0 \<or> n = 0)"
      using ok u pg(1) by (simp add: mm_ok_def all_used_def)
    have h: "\<not> (first < mm_bitmap_pages s \<or> first + n > mm_npages s)"
      "\<not> \<not> (\<forall>q\<in>set [first..<first + n]. mm_bit s q)" using u by (auto simp: all_used_def)
    show ?thesis
      unfolding mm_pages_free_def Let_def if_not_P [OF g] pg(2) nw if_not_P [OF h(1)] if_not_P [OF h(2)]
      by (simp add: fw [simplified])
  qed
  show "fst (mm_pages_free (mm_base s + first * MM_PAGE) n s)" by (simp add: e)
  have hb: "mm_bit (t\<lparr>mm_hint := h\<rparr>) p = mm_bit t p" "mm_bit (t\<lparr>mm_free_pg := h\<rparr>) p = mm_bit t p" for t h p
    by (simp_all add: mm_bit_def)
  show bits: "mm_bit s' p = (mm_bit s p \<and> \<not> (first \<le> p \<and> p < first + n))" for p
    by (auto simp: s'_def e hb clr_range_bit)
  show fr: "mm_npages s' = mm_npages s" "mm_bitmap_pages s' = mm_bitmap_pages s" "mm_base s' = mm_base s"
    by (simp_all add: s'_def e)
  have "free_set s' = free_set s \<union> {first..<first + n}"
    using u bits by (auto simp: free_set_def fr all_used_def)
  moreover have "mm_free_pg s' = card (free_set s \<union> {first..<first + n})"
    "mm_hint s' = (if first < mm_hint s then first else mm_hint s)" by (simp_all add: s'_def e)
  moreover have "\<forall>p<mm_bitmap_pages s. mm_bit s' p" using ok u bits by (auto simp: mm_ok_def all_used_def)
  ultimately show "mm_ok s'" using ok u by (simp add: mm_ok_def fr all_used_def)
qed

lemma free_accepts_sum:
  assumes ok: "mm_ok s" and nw: "(p - mm_base s) div MM_PAGE + n < 2 ^ 32" and a: "fst (mm_pages_free p n s)"
  obtains first where "p = mm_base s + first * MM_PAGE" "all_used s first n"
proof -
  let ?first = "(p - mm_base s) div MM_PAGE"
  have g: "mm_base s \<le> p" "(p - mm_base s) mod MM_PAGE = 0" "n \<noteq> 0" "mm_bitmap_pages s \<le> ?first"
    "(?first + n) mod 2 ^ 32 \<le> mm_npages s" "\<forall>q\<in>set [?first..<(?first + n) mod 2 ^ 32]. mm_bit s q"
    using a by (auto simp: mm_pages_free_def mm_bad_free_def Let_def not_less split: if_splits)
  have w: "(?first + n) mod 2 ^ 32 = ?first + n" using nw by simp
  have "p = mm_base s + ?first * MM_PAGE" using g(1,2) by (simp add: mod_0_imp_dvd)
  moreover have "all_used s ?first n" using g(3-6) unfolding w by (auto simp: all_used_def)
  ultimately show thesis by (rule that)
qed

lemma free_accepts:
  assumes ok: "mm_ok s" and p: "p < 2 ^ 32" and n: "n \<le> 2 ^ 31" and a: "fst (mm_pages_free p n s)"
  obtains first where "p = mm_base s + first * MM_PAGE" "all_used s first n"
proof (rule free_accepts_sum [OF ok _ a])
  have "(p - mm_base s) div MM_PAGE < 2 ^ 20" using p by (simp add: MM_PAGE_def less_mult_imp_div_less)
  thus "(p - mm_base s) div MM_PAGE + n < 2 ^ 32" using n by simp
qed

subsection \<open>What the page allocator promises\<close>

text \<open>Claim C29. Allocation is complete and exact: with the invariant, a request for n > 0 pages succeeds if and
  only if some n consecutive managed pages are free; the address returned is that of such a run, exactly its bits
  become set, the pages are cleared when asked for, and the invariant (exact free counter included) holds after.\<close>

theorem mm_alloc_exact:
  assumes "mm_ok s" "0 < n" "mm_pages_alloc_z n zero s = (r, s')"
  shows "(r \<noteq> 0 \<longleftrightarrow> (\<exists>f. free_run s n f)) \<and> mm_ok s' \<and>
    (if r = 0 then mem s' = mem s
     else \<exists>f. r = mm_base s + f * MM_PAGE \<and> free_run s n f \<and>
       (\<forall>p < mm_npages s. mm_bit s' p = (mm_bit s p \<or> f \<le> p \<and> p < f + n)) \<and>
       (\<forall>x. zero \<and> r \<le> x \<and> x < r + n * MM_PAGE \<longrightarrow> mem s' x = 0))"
using assms(1,2)
proof (cases rule: alloc_cases [where zero = zero])
  case fail
  thus ?thesis using assms(1,3) by auto
next
  case (found q)
  let ?f = "q + 1 - n"
  note t = take_run_result [OF assms(1) found(2,3,4) assms(2) found(5), where zero = zero]
  have e: "mm_take_run n zero q s = (r, s')" using assms(3) found(1) by simp
  have r: "r = mm_base s + ?f * MM_PAGE" using t(1) unfolding e by simp
  have ok: "mm_ok s'" using t(6) unfolding e by simp
  have b: "\<forall>p < mm_npages s. mm_bit s' p = (mm_bit s p \<or> ?f \<le> p \<and> p < ?f + n)"
    using t(2) unfolding e snd_conv by blast
  have fr: "free_run s n ?f" using found(2-5) by (auto simp: free_run_def)
  have r0: "r \<noteq> 0" using r assms(1) by (simp add: mm_ok_def)
  have z: "\<forall>x. zero \<and> r \<le> x \<and> x < r + n * MM_PAGE \<longrightarrow> mem s' x = 0"
  proof (intro allI impI)
    fix x assume x: "zero \<and> r \<le> x \<and> x < r + n * MM_PAGE"
    hence e': "mm_take_run n True q s = (r, s')" using e by simp
    have "mem (snd (mm_take_run n True q s)) x = 0" by (rule take_run_zeroed [of r]) (use x e' in simp_all)
    thus "mem s' x = 0" by (simp add: e')
  qed
  have "\<exists>f. r = mm_base s + f * MM_PAGE \<and> free_run s n f \<and>
       (\<forall>p < mm_npages s. mm_bit s' p = (mm_bit s p \<or> f \<le> p \<and> p < f + n)) \<and>
       (\<forall>x. zero \<and> r \<le> x \<and> x < r + n * MM_PAGE \<longrightarrow> mem s' x = 0)"
    using r fr b z by blast
  thus ?thesis using r0 fr ok by (auto simp only: if_not_P if_False)
qed

text \<open>A count with which the sum first + n wraps: nothing is looked at and nothing cleared.\<close>

lemma free_wrapped:
  assumes "2 ^ 32 \<le> (p - mm_base s) div MM_PAGE + n" "p < 2 ^ 32" "n < 2 ^ 32" "mm_pages_free p n s = (True, s')"
  shows "mm_bit s' q = mm_bit s q \<and> mm_free_pg s' = (mm_free_pg s + n) mod 2 ^ 32"
proof -
  let ?first = "(p - mm_base s) div MM_PAGE"
  have "?first < 2 ^ 20" using assms(2) by (simp add: MM_PAGE_def less_mult_imp_div_less)
  hence st: "(?first + n) mod 2 ^ 32 = ?first + n - 2 ^ 32" using assms(1,3) by (simp add: mod_if [of "?first + n"])
  hence "(?first + n) mod 2 ^ 32 \<le> ?first" using assms(3) by linarith
  hence c: "mm_clr_range ?first ((?first + n) mod 2 ^ 32) t = t" for t by (simp add: mm_clr_range_def)
  show ?thesis using assms(4) unfolding mm_pages_free_def Let_def c by (auto simp: mm_bad_free_def mm_bit_def split: if_splits)
qed

text \<open>Claim C30. Freeing accepts exactly the allocated runs: for any address and any count with which the 32-bit sum of first
  page and count does not wrap, the call succeeds if and only if the address is the start of a page of the range, beyond the
  bitmap, with n > 0 pages all allocated and inside the range; then exactly their bits are cleared, and otherwise only the
  bad-free counter moves (so a double free, or one across the end, frees nothing), and the invariant holds after either way.
  A count with which the sum wraps either moves only the bad-free counter too, or is wrongly reported as freed, and then no bit
  changes but the count is added to the free-page counter.\<close>

theorem mm_free_exact:
  assumes "mm_ok s" "p < 2 ^ 32" "n < 2 ^ 32" "mm_pages_free p n s = (ok, s')"
  shows "if (p - mm_base s) div MM_PAGE + n < 2 ^ 32
    then (ok \<longleftrightarrow> (\<exists>f. p = mm_base s + f * MM_PAGE \<and> all_used s f n)) \<and> mm_ok s' \<and>
      (if ok then \<forall>q. mm_bit s' q = (mm_bit s q \<and> \<not> ((p - mm_base s) div MM_PAGE \<le> q \<and> q < (p - mm_base s) div MM_PAGE + n))
       else s' = s\<lparr>mm_stat_bad_frees := (mm_stat_bad_frees s + 1) mod 2 ^ 32\<rparr>)
    else if ok then (\<forall>q. mm_bit s' q = mm_bit s q) \<and> mm_free_pg s' = (mm_free_pg s + n) mod 2 ^ 32
    else s' = s\<lparr>mm_stat_bad_frees := (mm_stat_bad_frees s + 1) mod 2 ^ 32\<rparr>"
proof -
  have bad: "s' = s\<lparr>mm_stat_bad_frees := (mm_stat_bad_frees s + 1) mod 2 ^ 32\<rparr>" if "\<not> ok"
    using assms(4) that by (auto simp: mm_pages_free_def mm_bad_free_def Let_def split: if_splits)
  show ?thesis
  proof (cases "(p - mm_base s) div MM_PAGE + n < 2 ^ 32")
    case False thus ?thesis using bad free_wrapped [of p s n s'] assms(2-4) by (auto simp: not_less)
  next
    case nw: True
    show ?thesis
    proof (cases ok)
      case True
      then obtain f where f: "p = mm_base s + f * MM_PAGE" "all_used s f n"
        using free_accepts_sum [OF assms(1) nw] unfolding assms(4) fst_conv by metis
      note t = free_ok_result [OF assms(1) f(2)]
      have d: "(p - mm_base s) div MM_PAGE = f" by (simp add: f(1) MM_PAGE_def)
      have e: "snd (mm_pages_free (mm_base s + f * MM_PAGE) n s) = s'" using assms(4) f(1) by simp
      have "mm_ok s'" "\<forall>q. mm_bit s' q = (mm_bit s q \<and> \<not> (f \<le> q \<and> q < f + n))" using t(2,6) unfolding e by simp_all
      thus ?thesis using True f nw unfolding d by auto
    next
      case False
      have "\<not> (\<exists>f. p = mm_base s + f * MM_PAGE \<and> all_used s f n)"
        using free_ok_result(1) [OF assms(1)] False unfolding fst_conv assms(4) by (metis assms(4) fst_conv)
      thus ?thesis using False bad nw assms(1) by auto
    qed
  qed
qed

text \<open>What an allocation takes, freeing gives back: after a successful allocation of n pages, freeing
  the returned address with the same n succeeds and every page is free again exactly if it was free before.\<close>

theorem mm_alloc_free_roundtrip:
  assumes "mm_ok s" "0 < n" "mm_pages_alloc_z n zero s = (r, s')" "r \<noteq> 0"
  shows "fst (mm_pages_free r n s') \<and> free_set (snd (mm_pages_free r n s')) = free_set s"
using assms(1,2)
proof (cases rule: alloc_cases [where zero = zero])
  case fail
  thus ?thesis using assms(3,4) by auto
next
  case (found q)
  let ?f = "q + 1 - n"
  note t = take_run_result [OF assms(1) found(2,3,4) assms(2) found(5), where zero = zero]
  have e: "mm_take_run n zero q s = (r, s')" using assms(3) found(1) by simp
  have r: "r = mm_base s' + ?f * MM_PAGE" and ok: "mm_ok s'"
    and fr: "mm_npages s' = mm_npages s" "mm_bitmap_pages s' = mm_bitmap_pages s" "mm_base s' = mm_base s"
    and b: "\<And>p. p < mm_npages s \<Longrightarrow> mm_bit s' p = (mm_bit s p \<or> ?f \<le> p \<and> p < ?f + n)"
    using t unfolding e by auto
  have u: "all_used s' ?f n" using found(2-5) assms(2) b by (auto simp: all_used_def fr)
  note g = free_ok_result [OF ok u, folded r]
  have "free_set (snd (mm_pages_free r n s')) = free_set s"
    using g(2) b found(2-5) by (auto simp: free_set_def g(3,4) fr)
  thus ?thesis using g(1) by simp
qed

text \<open>The 32-bit bound check of mm_pages_free wraps: for any page f of the range beyond the bitmap, a
  count of 2 ^ 32 - f passes the check first + n > mm_npages, and the call reports success without clearing a
  single bit while the free counter drops by f, so the invariant is lost.\<close>

theorem mm_pages_free_wraps:
  assumes "mm_ok s" "mm_bitmap_pages s \<le> f" "0 < f" "f < mm_npages s"
    "mm_pages_free (mm_base s + f * MM_PAGE) (2 ^ 32 - f) s = (ok, s')"
  shows "ok \<and> (\<forall>p. mm_bit s' p = mm_bit s p) \<and> \<not> mm_ok s'"
proof -
  have pg: "(mm_base s + f * MM_PAGE - mm_base s) mod MM_PAGE = 0"
    "(mm_base s + f * MM_PAGE - mm_base s) div MM_PAGE = f" by (simp_all add: MM_PAGE_def)
  have fl: "f < 2 ^ 32" "mm_free_pg s \<le> 2 ^ 20"
    using assms(1,4) free_pg_le [OF assms(1)] by (simp_all add: mm_ok_def)
  have w: "(f + (2 ^ 32 - f)) mod 2 ^ 32 = (0 :: nat)" using fl by simp
  have g: "\<not> (mm_base s = 0 \<or> mm_base s + f * MM_PAGE < mm_base s \<or>
      (mm_base s + f * MM_PAGE - mm_base s) mod MM_PAGE \<noteq> 0 \<or> 2 ^ 32 - f = 0)"
    using assms(1) fl(1) pg(1) by (simp add: mm_ok_def)
  have h: "\<not> (f < mm_bitmap_pages s \<or> 0 > mm_npages s)"
    "\<not> \<not> (\<forall>q\<in>set [f..<0]. mm_bit s q)" using assms(2) by auto
  let ?c = "(mm_free_pg s + (2 ^ 32 - f)) mod 2 ^ 32"
  have c0: "mm_clr_range f 0 s = s" by (simp add: mm_clr_range_def)
  have e: "mm_pages_free (mm_base s + f * MM_PAGE) (2 ^ 32 - f) s =
      (True, if f < mm_hint s then s\<lparr>mm_free_pg := ?c, mm_hint := f\<rparr> else s\<lparr>mm_free_pg := ?c\<rparr>)"
    unfolding mm_pages_free_def Let_def if_not_P [OF g] pg(2) w if_not_P [OF h(1)] if_not_P [OF h(2)] c0
    by simp
  have ok: "ok" and s': "s' = (if f < mm_hint s then s\<lparr>mm_free_pg := ?c, mm_hint := f\<rparr> else s\<lparr>mm_free_pg := ?c\<rparr>)"
    using assms(5) unfolding e by auto
  have bits: "mm_bit s' p = mm_bit s p" for p by (simp add: s' mm_bit_def)
  have "?c \<noteq> mm_free_pg s"
  proof (cases "f \<le> mm_free_pg s")
    case True
    have "mm_free_pg s + (2 ^ 32 - f) = (mm_free_pg s - f) + 2 ^ 32" using True fl by simp
    hence "?c = (mm_free_pg s - f) mod 2 ^ 32" by (simp only: mod_add_self2)
    also have "\<dots> = mm_free_pg s - f" by (rule mod_less) (use fl(2) in simp)
    finally have "?c = mm_free_pg s - f" .
    thus ?thesis using True assms(3) by linarith
  next
    case False
    thus ?thesis using fl by simp
  qed
  moreover have "free_set s' = free_set s" using bits by (simp add: free_set_def s')
  moreover have "mm_free_pg s' = ?c" by (simp add: s')
  ultimately have "\<not> mm_ok s'" using assms(1) by (simp add: mm_ok_def)
  thus ?thesis using ok bits by blast
qed

lemma alloc_nonzero:
  assumes "mm_ok s" "0 < n" "free_run s n f"
  shows "fst (mm_pages_alloc_z n zero s) \<noteq> 0"
  using assms(1,2)
proof (cases rule: alloc_cases [where zero = zero])
  case fail
  thus ?thesis using assms(3) by blast
next
  case (found q)
  thus ?thesis using take_run_result(1) [OF assms(1) found(2,3,4) assms(2) found(5), of zero] assms(1)
    by (simp add: mm_ok_def)
qed

subsection \<open>Starting up\<close>

lemma bitmap_room: "(n :: nat) \<le> 8 * MM_PAGE * ((n div 8 + MM_PAGE - 1) div MM_PAGE) \<longleftrightarrow> n mod 32768 = 0 \<or> 8 \<le> n mod 32768"
proof -
  define a b where "a = n div 32768" and "b = n mod 32768"
  have n: "n = 32768 * a + b" and b: "b < 32768" by (simp_all add: a_def b_def)
  have "n div 8 + MM_PAGE - 1 = a * 4096 + (b div 8 + 4095)" by (simp add: n MM_PAGE_def)
  hence "(n div 8 + MM_PAGE - 1) div MM_PAGE = a + (b div 8 + 4095) div 4096" by (simp add: MM_PAGE_def)
  moreover have "(b div 8 + 4095) div 4096 = (if 8 \<le> b then 1 else 0)" using b by auto
  ultimately show ?thesis using n b unfolding b_def [symmetric] by (simp add: MM_PAGE_def)
qed

lemma init_state:
  assumes "mm_init_region base len s = (True, s')"
  shows "mm_base s' = base" "mm_npages s' = len div MM_PAGE" "mm_bitmap_pages s' = (len div MM_PAGE div 8 + MM_PAGE - 1) div MM_PAGE"
    "mm_hint s' = mm_bitmap_pages s'" "mm_free_pg s' = mm_npages s' - mm_bitmap_pages s'"
    "base \<noteq> 0" "8 \<le> len div MM_PAGE" "base mod MM_PAGE = 0"
    "q div 8 < mm_bitmap_pages s' * MM_PAGE \<Longrightarrow> mm_bit s' q = (q < mm_bitmap_pages s')"
proof -
  let ?bp = "(len div MM_PAGE div 8 + MM_PAGE - 1) div MM_PAGE"
  let ?z = "mem_zero base (?bp * MM_PAGE) (s\<lparr>mm_base := base, mm_npages := len div MM_PAGE, mm_bitmap_pages := ?bp\<rparr>)"
  have s': "s' = (mm_set_range 0 ?bp ?z)\<lparr>mm_free_pg := len div MM_PAGE - ?bp, mm_hint := ?bp,
      mm_chunks := replicate MM_CHUNK_MAX (0, 0), mm_stat_allocs := 0, mm_stat_frees := 0,
      mm_stat_bad_frees := 0, mm_stat_failed := 0\<rparr>"
    and g: "base \<noteq> 0" "8 \<le> len div MM_PAGE" "base mod MM_PAGE = 0"
    using assms by (auto simp: mm_init_region_def Let_def split: if_splits)
  show "mm_base s' = base" "mm_npages s' = len div MM_PAGE" "mm_bitmap_pages s' = ?bp"
    "mm_hint s' = mm_bitmap_pages s'" "mm_free_pg s' = mm_npages s' - mm_bitmap_pages s'"
    "base \<noteq> 0" "8 \<le> len div MM_PAGE" "base mod MM_PAGE = 0"
    using g by (simp_all add: s')
  show "mm_bit s' q = (q < mm_bitmap_pages s')" if "q div 8 < mm_bitmap_pages s' * MM_PAGE"
  proof -
    have "mm_bit s' q = mm_bit (mm_set_range 0 ?bp ?z) q" by (simp add: s' mm_bit_def)
    also have "\<dots> = (q < ?bp \<or> mm_bit ?z q)" by (simp add: set_range_bit)
    also have "mm_bit ?z q = False" using that by (simp add: mm_bit_def mem_zero_def s')
    finally show ?thesis by (simp add: s')
  qed
qed

lemma init_ok:
  assumes i: "mm_init_region base len s = (True, s')" and n: "len div MM_PAGE \<le> 2 ^ 20"
  shows "mm_ok s' \<longleftrightarrow> len div MM_PAGE mod 32768 = 0 \<or> 8 \<le> len div MM_PAGE mod 32768"
proof -
  note st = init_state [OF i]
  let ?n = "len div MM_PAGE"
  let ?bp = "mm_bitmap_pages s'"
  have lt: "?bp < ?n" using st(7) by (simp add: st(3) MM_PAGE_def)
  have room: "?n \<le> 8 * MM_PAGE * ?bp \<longleftrightarrow> ?n mod 32768 = 0 \<or> 8 \<le> ?n mod 32768"
    unfolding st(3) by (rule bitmap_room)
  have "mm_ok s'" if r: "?n \<le> 8 * MM_PAGE * ?bp"
  proof -
    have q: "q div 8 < ?bp * MM_PAGE" if "q < ?n" for q
      using that r by (simp add: less_mult_imp_div_less ac_simps)
    have "free_set s' = {?bp..<?n}" using st(9) q by (auto simp: free_set_def st(2))
    hence "card (free_set s') = ?n - ?bp" by simp
    moreover have "\<forall>p<?bp. mm_bit s' p" using st(9) q lt by auto
    ultimately show ?thesis using st(1,2,4-8) lt r n by (simp add: mm_ok_def)
  qed
  moreover have "?n \<le> 8 * MM_PAGE * ?bp" if "mm_ok s'" using that by (simp add: mm_ok_def st(2))
  ultimately show ?thesis unfolding room [symmetric] by (rule iffI [rotated])
qed

text \<open>Setting up a range establishes the invariant, all pages beyond the bitmap free, except when the
  page count is 1 to 7 above a multiple of 32768: n / 8 is rounded down before the division by the page size, so
  the bitmap then has one page too few and its last bits lie in the first page that can be handed out.\<close>

theorem mm_init_region_ok:
  assumes "mm_init_region base len s = (True, s')" "len div MM_PAGE \<le> 2 ^ 20"
  shows "(mm_ok s' \<longleftrightarrow> len div MM_PAGE mod 32768 = 0 \<or> 8 \<le> len div MM_PAGE mod 32768) \<and>
    (\<not> mm_ok s' \<longrightarrow> mm_base s' + (mm_npages s' - 1) div 8 \<ge> mm_base s' + mm_bitmap_pages s' * MM_PAGE) \<and>
    (mm_ok s' \<longrightarrow> card (free_set s') = len div MM_PAGE - mm_bitmap_pages s')"
proof -
  note st = init_state [OF assms(1)]
  have "mm_bitmap_pages s' * MM_PAGE \<le> (mm_npages s' - 1) div 8" if "\<not> mm_ok s'"
  proof -
    have "\<not> len div MM_PAGE \<le> 8 * MM_PAGE * mm_bitmap_pages s'"
      using that init_ok [OF assms] bitmap_room by (simp add: st(3))
    thus ?thesis unfolding st(2) by (simp add: less_eq_div_iff_mult_less_eq MM_PAGE_def)
  qed
  moreover have "card (free_set s') = len div MM_PAGE - mm_bitmap_pages s'" if "mm_ok s'"
    using that st(2,5) by (simp add: mm_ok_def)
  ultimately show ?thesis using init_ok [OF assms] by simp
qed

definition mm_zero :: mm where
  "mm_zero = \<lparr>mem = (\<lambda>_. 0), mm_base = 0, mm_npages = 0, mm_bitmap_pages = 0, mm_hint = 0, mm_free_pg = 0,
     mm_chunks = [], mm_stat_allocs = 0, mm_stat_frees = 0, mm_stat_bad_frees = 0, mm_stat_failed = 0\<rparr>"

definition mm_demo :: mm where "mm_demo = snd (mm_init_region 4096 32768 mm_zero)"

lemma mm_demo_eq: "mm_init_region 4096 32768 mm_zero = (True, mm_demo)"
  by (simp add: mm_demo_def mm_init_region_def MM_PAGE_def Let_def)

lemma mm_demo_ok: "mm_ok mm_demo"
  using init_ok [OF mm_demo_eq] by (simp add: MM_PAGE_def)

lemma mm_demo_state: "mm_base mm_demo = 4096" "mm_npages mm_demo = 8" "mm_bitmap_pages mm_demo = 1"
  "mm_hint mm_demo = 1" "mm_free_pg mm_demo = 7"
  using init_state(1-5) [OF mm_demo_eq] by (simp_all add: MM_PAGE_def)

lemma mm_demo_bit: "q < 8 \<Longrightarrow> mm_bit mm_demo q = (q = 0)"
  using init_state(9) [OF mm_demo_eq, of q] by (simp add: mm_demo_state MM_PAGE_def)

lemma mm_demo_run: "free_run mm_demo 3 2"
  by (auto simp: free_run_def mm_demo_state mm_demo_bit)

lemma mm_init_region_ok_witness:
  "(\<exists>s'. mm_init_region 0x900000 (32769 * 4096) mm_zero = (True, s') \<and> \<not> mm_ok s') \<and>
   card (free_set mm_demo) = 7"
proof
  let ?s = "snd (mm_init_region 0x900000 (32769 * 4096) mm_zero)"
  have e: "mm_init_region 0x900000 (32769 * 4096) mm_zero = (True, ?s)"
    by (simp add: mm_init_region_def MM_PAGE_def Let_def)
  show "\<exists>s'. mm_init_region 0x900000 (32769 * 4096) mm_zero = (True, s') \<and> \<not> mm_ok s'"
    using mm_init_region_ok [OF e] e by (auto simp: MM_PAGE_def)
  show "card (free_set mm_demo) = 7"
    using mm_init_region_ok [OF mm_demo_eq] mm_demo_ok by (simp add: mm_demo_state MM_PAGE_def)
qed

lemma mm_alloc_exact_witness:
  "\<exists>r s'. mm_pages_alloc_z 3 True mm_demo = (r, s') \<and> r \<noteq> 0 \<and> mm_ok s' \<and> mem s' r = 0"
proof -
  obtain r s' where e: "mm_pages_alloc_z 3 True mm_demo = (r, s')" by fastforce
  have a: "r \<noteq> 0" "mm_ok s'" using mm_alloc_exact [OF mm_demo_ok _ e] mm_demo_run by auto
  have "mem s' r = 0" using mm_alloc_exact [OF mm_demo_ok _ e] a(1) by (auto simp: MM_PAGE_def)
  thus ?thesis using e a by blast
qed

lemma mm_free_exact_witness:
  "\<exists>s'. mm_pages_free 8192 2 mm_demo = (False, s') \<and> mm_ok s' \<and> mm_stat_bad_frees s' = 1"
proof -
  obtain ok s' where e: "mm_pages_free 8192 2 mm_demo = (ok, s')" by fastforce
  have nu: "\<not> (\<exists>f. 8192 = mm_base mm_demo + f * MM_PAGE \<and> all_used mm_demo f 2)"
    using mm_demo_bit [of 1] by (auto simp: mm_demo_state MM_PAGE_def all_used_def)
  have "mm_stat_bad_frees mm_demo = 0" by (simp add: mm_demo_def mm_init_region_def MM_PAGE_def Let_def)
  moreover have nw: "(8192 - mm_base mm_demo) div MM_PAGE + 2 < 2 ^ 32" by (simp add: mm_demo_state MM_PAGE_def)
  have "ok = False \<and> mm_ok s' \<and> s' = mm_demo\<lparr>mm_stat_bad_frees := (mm_stat_bad_frees mm_demo + 1) mod 2 ^ 32\<rparr>"
    using mm_free_exact [OF mm_demo_ok _ _ e] nu unfolding if_P [OF nw] by auto
  ultimately show ?thesis using e by auto
qed

lemma mm_alloc_free_roundtrip_witness:
  "\<exists>r s'. mm_pages_alloc_z 3 False mm_demo = (r, s') \<and> free_set (snd (mm_pages_free r 3 s')) = free_set mm_demo"
proof -
  obtain r s' where e: "mm_pages_alloc_z 3 False mm_demo = (r, s')" by fastforce
  have "r \<noteq> 0" using alloc_nonzero [OF mm_demo_ok _ mm_demo_run, of False] e by simp
  thus ?thesis using mm_alloc_free_roundtrip [OF mm_demo_ok _ e] e by auto
qed

lemma mm_pages_free_wraps_witness:
  "\<exists>s'. mm_pages_free 8192 0xFFFFFFFF mm_demo = (True, s') \<and> \<not> mm_ok s'"
proof -
  obtain ok s' where e: "mm_pages_free 8192 0xFFFFFFFF mm_demo = (ok, s')" by fastforce
  have "mm_pages_free (mm_base mm_demo + 1 * MM_PAGE) (2 ^ 32 - 1) mm_demo = (ok, s')"
    using e by (simp add: mm_demo_state MM_PAGE_def)
  from mm_pages_free_wraps [OF mm_demo_ok _ _ _ this] show ?thesis using e by (auto simp: mm_demo_state)
qed
end
