(* ===== verification/Heap.thy ===== *)
theory Heap
  imports Mm
begin

text \<open>
  mm.h, the heap on top of the page allocator: chunks of pages divided into blocks with a 16-byte header of four
  little-endian u32 words (size, size of the block before, magic, padding) in memory itself. Pointers are addresses,
  0 is NULL; u32 sums that can wrap are written modulo 2 ^ 32. The walks over headers need not end when a header is
  damaged, so they take fuel and give None when it is used up.
\<close>

definition MM_CHUNK_MIN_PG :: nat where "MM_CHUNK_MIN_PG = 16"
definition MM_HDR :: nat where "MM_HDR = 16"
definition MM_MAGIC_USED :: nat where "MM_MAGIC_USED = 0xA110C8ED"
definition MM_MAGIC_FREE :: nat where "MM_MAGIC_FREE = 0xF4EEB10C"

subsection \<open>Headers in memory\<close>

definition ld32 :: "(nat \<Rightarrow> u8) \<Rightarrow> nat \<Rightarrow> nat" where
  "ld32 m a = unat (m a) + 2 ^ 8 * unat (m (a + 1)) + 2 ^ 16 * unat (m (a + 2)) + 2 ^ 24 * unat (m (a + 3))"

definition mst32 :: "nat \<Rightarrow> nat \<Rightarrow> (nat \<Rightarrow> u8) \<Rightarrow> nat \<Rightarrow> u8" where
  "mst32 a v m = m(a := of_nat v, a + 1 := of_nat (v div 2 ^ 8), a + 2 := of_nat (v div 2 ^ 16), a + 3 := of_nat (v div 2 ^ 24))"

definition st32 :: "nat \<Rightarrow> nat \<Rightarrow> mm \<Rightarrow> mm" where "st32 a v s = s\<lparr>mem := mst32 a v (mem s)\<rparr>"

abbreviation hdr_size :: "mm \<Rightarrow> nat \<Rightarrow> nat" where "hdr_size s h \<equiv> ld32 (mem s) h"
abbreviation hdr_prev :: "mm \<Rightarrow> nat \<Rightarrow> nat" where "hdr_prev s h \<equiv> ld32 (mem s) (h + 4)"
abbreviation hdr_magic :: "mm \<Rightarrow> nat \<Rightarrow> nat" where "hdr_magic s h \<equiv> ld32 (mem s) (h + 8)"

definition hdr_write :: "nat \<Rightarrow> nat \<Rightarrow> nat \<Rightarrow> nat \<Rightarrow> mm \<Rightarrow> mm" where
  "hdr_write h sz prev magic s = st32 (h + 12) 0 (st32 (h + 8) magic (st32 (h + 4) prev (st32 h sz s)))"

type_synonym chunk = "nat \<times> nat"

definition mm_next :: "mm \<Rightarrow> chunk \<Rightarrow> nat \<Rightarrow> nat" where
  "mm_next s c h = (let n = (h + hdr_size s h) mod 2 ^ 32 in if n \<ge> fst c + snd c then 0 else n)"

definition mm_prev :: "mm \<Rightarrow> chunk \<Rightarrow> nat \<Rightarrow> nat" where
  "mm_prev s c h = (if h = fst c then 0 else (h + 2 ^ 32 - hdr_prev s h) mod 2 ^ 32)"

definition mm_round :: "nat \<Rightarrow> nat" where "mm_round n = (n + 15) mod 2 ^ 32 div 16 * 16"

subsection \<open>Chunks\<close>

definition mm_chunk_of :: "mm \<Rightarrow> nat \<Rightarrow> nat option" where
  "mm_chunk_of s p =
     find (\<lambda>i. let (base, bytes) = mm_chunks s ! i in base \<noteq> 0 \<and> p \<ge> base + MM_HDR \<and> p < base + bytes) [0..<MM_CHUNK_MAX]"

definition mm_chunk_add :: "nat \<Rightarrow> mm \<Rightarrow> nat option \<times> mm" where
  "mm_chunk_add need_block s =
     (case find (\<lambda>i. fst (mm_chunks s ! i) = 0) [0..<MM_CHUNK_MAX] of
        None \<Rightarrow> (None, s)
      | Some i \<Rightarrow>
        let pages = (need_block + MM_PAGE - 1) mod 2 ^ 32 div MM_PAGE;
            pages = (if pages < MM_CHUNK_MIN_PG then MM_CHUNK_MIN_PG else pages);
            (b, s) = mm_pages_alloc_z pages False s
        in if b = 0 then (None, s)
           else let bytes = pages * MM_PAGE mod 2 ^ 32;
                    s = s\<lparr>mm_chunks := (mm_chunks s)[i := (b, bytes)]\<rparr>;
                    s = hdr_write b bytes 0 MM_MAGIC_FREE s
                in (Some i, s))"

subsection \<open>Allocating\<close>

definition mm_carve :: "chunk \<Rightarrow> nat \<Rightarrow> nat \<Rightarrow> mm \<Rightarrow> nat \<times> mm" where
  "mm_carve c h need s =
     (let s = (if hdr_size s h \<ge> (need + MM_HDR + 16) mod 2 ^ 32
               then let r = h + need;
                        s = hdr_write r ((hdr_size s h + 2 ^ 32 - need) mod 2 ^ 32) need MM_MAGIC_FREE s;
                        after = mm_next s c r;
                        s = (if after \<noteq> 0 then st32 (after + 4) (hdr_size s r) s else s)
                    in st32 h need s
               else s);
          s = st32 (h + 8) MM_MAGIC_USED s
      in (h + MM_HDR, s))"

datatype find_result = Fit nat nat | Smashed | Nothing

text \<open>The inner loop over the blocks of chunk number i, from block h.\<close>

fun mm_find_block :: "nat \<Rightarrow> mm \<Rightarrow> nat \<Rightarrow> nat \<Rightarrow> nat \<Rightarrow> find_result option" where
  "mm_find_block 0 s need i h = None"
| "mm_find_block (Suc fuel) s need i h =
     (if h = 0 then Some Nothing
      else if hdr_magic s h \<noteq> MM_MAGIC_FREE \<and> hdr_magic s h \<noteq> MM_MAGIC_USED then Some Smashed
      else if hdr_magic s h = MM_MAGIC_FREE \<and> hdr_size s h \<ge> need then Some (Fit i h)
      else if hdr_size s h < MM_HDR then Some Nothing
      else mm_find_block fuel s need i (mm_next s (mm_chunks s ! i) h))"

text \<open>One pass over the chunks.\<close>

fun mm_find_pass :: "nat \<Rightarrow> mm \<Rightarrow> nat \<Rightarrow> nat list \<Rightarrow> find_result option" where
  "mm_find_pass fuel s need [] = Some Nothing"
| "mm_find_pass fuel s need (i # is) =
     (if fst (mm_chunks s ! i) = 0 then mm_find_pass fuel s need is
      else case mm_find_block fuel s need i (fst (mm_chunks s ! i)) of
        None \<Rightarrow> None
      | Some Nothing \<Rightarrow> mm_find_pass fuel s need is
      | Some r \<Rightarrow> Some r)"

text \<open>What a pass does with its result; Inl returns from kmalloc.\<close>

definition kmalloc_pass :: "nat \<Rightarrow> nat \<Rightarrow> mm \<Rightarrow> ((nat \<times> mm) option) option" where
  "kmalloc_pass fuel need s =
     (case mm_find_pass fuel s need [0..<MM_CHUNK_MAX] of
        None \<Rightarrow> None
      | Some Smashed \<Rightarrow> Some (Some (0, s\<lparr>mm_stat_bad_frees := (mm_stat_bad_frees s + 1) mod 2 ^ 32\<rparr>))
      | Some (Fit i h) \<Rightarrow>
          Some (Some (mm_carve (mm_chunks s ! i) h need (s\<lparr>mm_stat_allocs := (mm_stat_allocs s + 1) mod 2 ^ 32\<rparr>)))
      | Some Nothing \<Rightarrow> Some None)"

definition mm_fail :: "mm \<Rightarrow> mm" where "mm_fail s = s\<lparr>mm_stat_failed := (mm_stat_failed s + 1) mod 2 ^ 32\<rparr>"

definition kmalloc :: "nat \<Rightarrow> nat \<Rightarrow> mm \<Rightarrow> (nat \<times> mm) option" where
  "kmalloc fuel n s =
     (if n = 0 \<or> n > MM_MAX_TOP div 2 then Some (0, mm_fail s)
      else let need = mm_round n + MM_HDR in
        case kmalloc_pass fuel need s of
          None \<Rightarrow> None
        | Some (Some r) \<Rightarrow> Some r
        | Some None \<Rightarrow>
          (case mm_chunk_add need s of
             (None, s) \<Rightarrow> Some (0, mm_fail s)
           | (Some _, s) \<Rightarrow>
             (case kmalloc_pass fuel need s of
                None \<Rightarrow> None
              | Some (Some r) \<Rightarrow> Some r
              | Some None \<Rightarrow> Some (0, mm_fail s))))"

definition kzalloc :: "nat \<Rightarrow> nat \<Rightarrow> mm \<Rightarrow> (nat \<times> mm) option" where
  "kzalloc fuel n s = map_option (\<lambda>(p, s). (p, if p \<noteq> 0 then mem_zero p (mm_round n) s else s)) (kmalloc fuel n s)"

subsection \<open>Freeing\<close>

definition mm_usable :: "mm \<Rightarrow> nat \<Rightarrow> nat" where
  "mm_usable s p =
     (case mm_chunk_of s p of None \<Rightarrow> 0
      | Some i \<Rightarrow> if (p - fst (mm_chunks s ! i)) mod 16 \<noteq> 0 then 0
          else let h = p - MM_HDR in if hdr_magic s h = MM_MAGIC_USED then (hdr_size s h + 2 ^ 32 - MM_HDR) mod 2 ^ 32 else 0)"

text \<open>The two merges, and the chunk that is one free block given back to the page allocator.\<close>

definition kfree_merge_next :: "chunk \<Rightarrow> nat \<Rightarrow> mm \<Rightarrow> mm" where
  "kfree_merge_next c h s =
     (let n = mm_next s c h in
      if n \<noteq> 0 \<and> hdr_magic s n = MM_MAGIC_FREE
      then let s = st32 h ((hdr_size s h + hdr_size s n) mod 2 ^ 32) s;
               s = st32 (n + 8) 0 s;
               n = mm_next s c h
           in if n \<noteq> 0 then st32 (n + 4) (hdr_size s h) s else s
      else s)"

definition kfree_merge_prev :: "chunk \<Rightarrow> nat \<Rightarrow> mm \<Rightarrow> nat \<times> mm" where
  "kfree_merge_prev c h s =
     (let pr = mm_prev s c h in
      if pr \<noteq> 0 \<and> hdr_magic s pr = MM_MAGIC_FREE
      then let s = st32 pr ((hdr_size s pr + hdr_size s h) mod 2 ^ 32) s;
               s = st32 (h + 8) 0 s;
               n = mm_next s c pr
           in (pr, if n \<noteq> 0 then st32 (n + 4) (hdr_size s pr) s else s)
      else (h, s))"

definition kfree_release :: "nat \<Rightarrow> nat \<Rightarrow> mm \<Rightarrow> mm" where
  "kfree_release i h s =
     (let (b, bytes) = mm_chunks s ! i in
      if hdr_size s h = bytes \<and> i \<noteq> 0
      then let pages = bytes div MM_PAGE; s = s\<lparr>mm_chunks := (mm_chunks s)[i := (0, 0)]\<rparr> in snd (mm_pages_free b pages s)
      else s)"

definition kfree :: "nat \<Rightarrow> mm \<Rightarrow> bool \<times> mm" where
  "kfree p s =
     (if p = 0 then (True, s)
      else case mm_chunk_of s p of
        None \<Rightarrow> mm_bad_free s
      | Some i \<Rightarrow>
        let c = mm_chunks s ! i in
        if (p - fst c) mod 16 \<noteq> 0 then mm_bad_free s
        else let h = p - MM_HDR in
          if hdr_magic s h \<noteq> MM_MAGIC_USED \<or> hdr_size s h < MM_HDR + 16 \<or> (h + hdr_size s h) mod 2 ^ 32 > fst c + snd c
          then mm_bad_free s
          else let s = st32 (h + 8) MM_MAGIC_FREE s;
                   s = s\<lparr>mm_stat_frees := (mm_stat_frees s + 1) mod 2 ^ 32\<rparr>;
                   s = kfree_merge_next c h s;
                   (h, s) = kfree_merge_prev c h s
               in (True, kfree_release i h s))"

definition krealloc :: "nat \<Rightarrow> nat \<Rightarrow> nat \<Rightarrow> mm \<Rightarrow> (nat \<times> mm) option" where
  "krealloc fuel p n s =
     (if p = 0 then kmalloc fuel n s
      else if n = 0 then Some (0, snd (kfree p s))
      else let avail = mm_usable s p in
        if avail = 0 then Some (0, snd (mm_bad_free s))
        else if n \<le> avail then Some (p, s)
        else case kmalloc fuel n s of
          None \<Rightarrow> None
        | Some (q, s) \<Rightarrow>
          if q = 0 then Some (0, s)
          else let s = fold (\<lambda>i s. s\<lparr>mem := (mem s)(q + i := mem s (p + i))\<rparr>) [0..<avail] s
               in Some (q, snd (kfree p s)))"

subsection \<open>Numbers and checks\<close>

record mm_stats_t =
  total_pages :: nat
  free_pages :: nat
  used_pages :: nat
  heap_chunks :: nat
  heap_bytes :: nat
  heap_used :: nat
  heap_free :: nat
  heap_largest_free :: nat
  allocs :: nat
  frees :: nat
  bad_frees :: nat
  failed_allocs :: nat

fun mm_stats_blocks :: "nat \<Rightarrow> mm \<Rightarrow> chunk \<Rightarrow> nat \<Rightarrow> mm_stats_t \<Rightarrow> mm_stats_t option" where
  "mm_stats_blocks 0 s c h t = None"
| "mm_stats_blocks (Suc fuel) s c h t =
     (if h = 0 then Some t
      else if hdr_size s h < MM_HDR then Some t
      else if hdr_magic s h = MM_MAGIC_USED
        then mm_stats_blocks fuel s c (mm_next s c h) (t\<lparr>heap_used := (heap_used t + hdr_size s h) mod 2 ^ 32\<rparr>)
      else if hdr_magic s h = MM_MAGIC_FREE
        then mm_stats_blocks fuel s c (mm_next s c h)
               (let t = t\<lparr>heap_free := (heap_free t + hdr_size s h) mod 2 ^ 32\<rparr>
                in if hdr_size s h - MM_HDR > heap_largest_free t then t\<lparr>heap_largest_free := hdr_size s h - MM_HDR\<rparr> else t)
      else Some t)"

fun mm_stats_chunks :: "nat \<Rightarrow> mm \<Rightarrow> nat list \<Rightarrow> mm_stats_t \<Rightarrow> mm_stats_t option" where
  "mm_stats_chunks fuel s [] t = Some t"
| "mm_stats_chunks fuel s (i # is) t =
     (let c = mm_chunks s ! i in
      if fst c = 0 then mm_stats_chunks fuel s is t
      else case mm_stats_blocks fuel s c (fst c) (t\<lparr>heap_chunks := heap_chunks t + 1, heap_bytes := (heap_bytes t + snd c) mod 2 ^ 32\<rparr>) of
        None \<Rightarrow> None | Some t \<Rightarrow> mm_stats_chunks fuel s is t)"

definition mm_stats :: "nat \<Rightarrow> mm \<Rightarrow> mm_stats_t option" where
  "mm_stats fuel s =
     (let total0 = mm_npages s - mm_bitmap_pages s in
      mm_stats_chunks fuel s [0..<MM_CHUNK_MAX]
        \<lparr>total_pages = total0, free_pages = mm_free_pg s, used_pages = total0 - mm_free_pg s,
         heap_chunks = 0, heap_bytes = 0, heap_used = 0, heap_free = 0, heap_largest_free = 0,
         allocs = mm_stat_allocs s, frees = mm_stat_frees s, bad_frees = mm_stat_bad_frees s, failed_allocs = mm_stat_failed s\<rparr>)"

text \<open>The walk over one chunk: the problems found so far, and seen when the loop ends.\<close>

fun mm_check_blocks :: "nat \<Rightarrow> mm \<Rightarrow> chunk \<Rightarrow> nat \<Rightarrow> nat \<Rightarrow> nat \<Rightarrow> bool \<Rightarrow> nat \<Rightarrow> (nat \<times> nat) option" where
  "mm_check_blocks 0 s c h seen prev prev_free bad = None"
| "mm_check_blocks (Suc fuel) s c h seen prev prev_free bad =
     (if h = 0 then Some (bad, seen)
      else if hdr_magic s h \<noteq> MM_MAGIC_USED \<and> hdr_magic s h \<noteq> MM_MAGIC_FREE then Some (bad + 1, seen)
      else if hdr_size s h < MM_HDR + 16 \<or> hdr_size s h mod 16 \<noteq> 0 \<or> (seen + hdr_size s h) mod 2 ^ 32 > snd c
        then Some (bad + 1, seen)
      else let bad = (if hdr_prev s h \<noteq> prev then bad + 1 else bad);
               fr = (hdr_magic s h = MM_MAGIC_FREE);
               bad = (if fr \<and> prev_free then bad + 1 else bad)
           in mm_check_blocks fuel s c (mm_next s c h) ((seen + hdr_size s h) mod 2 ^ 32) (hdr_size s h) fr bad)"

fun mm_check_chunks :: "nat \<Rightarrow> mm \<Rightarrow> nat list \<Rightarrow> nat \<Rightarrow> nat option" where
  "mm_check_chunks fuel s [] bad = Some bad"
| "mm_check_chunks fuel s (i # is) bad =
     (let c = mm_chunks s ! i in
      if fst c = 0 then mm_check_chunks fuel s is bad
      else case mm_check_blocks fuel s c (fst c) 0 0 False bad of
        None \<Rightarrow> None
      | Some (bad, seen) \<Rightarrow> mm_check_chunks fuel s is (if seen \<noteq> snd c then bad + 1 else bad))"

definition mm_check :: "nat \<Rightarrow> mm \<Rightarrow> nat option" where
  "mm_check fuel s =
     map_option (\<lambda>bad.
       let clear = length (filter (\<lambda>p. \<not> mm_bit s p) [mm_bitmap_pages s..<mm_npages s])
       in if clear \<noteq> mm_free_pg s then bad + 1 else bad)
     (mm_check_chunks fuel s [0..<MM_CHUNK_MAX] 0)"

subsection \<open>Loads and stores\<close>

lemma ld32_lt: "ld32 m a < 2 ^ 32"
  using unat_u8_lt [of "m a"] unat_u8_lt [of "m (a + 1)"] unat_u8_lt [of "m (a + 2)"] unat_u8_lt [of "m (a + 3)"]
  by (simp add: ld32_def)

lemma ld32_st32_same [simp]: "v < 2 ^ 32 \<Longrightarrow> ld32 (mst32 a v m) a = v"
proof -
  assume v: "v < 2 ^ 32"
  have b: "unat (of_nat n :: u8) = n mod 256" for n by (simp add: unat_of_nat take_bit_eq_mod)
  have "v div 16777216 < 256" using v by (simp add: div_less_iff_less_mult)
  hence "v div 16777216 mod 256 = v div 16777216" by simp
  moreover have "v div 65536 = 256 * (v div 16777216) + v div 65536 mod 256"
    using div_mult2_eq [of v 65536 256] mult_div_mod_eq [of 256 "v div 65536"] by simp
  moreover have "v div 256 = 256 * (v div 65536) + v div 256 mod 256"
    using div_mult2_eq [of v 256 256] mult_div_mod_eq [of 256 "v div 256"] by simp
  moreover have "v = 256 * (v div 256) + v mod 256" by simp
  ultimately have "v mod 256 + 256 * (v div 256 mod 256) + 65536 * (v div 65536 mod 256) + 16777216 * (v div 16777216 mod 256) = v"
    by linarith
  moreover have "ld32 (mst32 a v m) a = v mod 256 + 2 ^ 8 * (v div 2 ^ 8 mod 256) + 2 ^ 16 * (v div 2 ^ 16 mod 256) + 2 ^ 24 * (v div 2 ^ 24 mod 256)"
    by (simp only: ld32_def mst32_def) (simp add: b)
  ultimately show ?thesis by (simp only: power_numeral Num.pow.simps Num.sqr.simps Num.mult_num_simps num.inject)
qed

lemma mst32_other [simp]: "x < a \<or> a + 4 \<le> x \<Longrightarrow> mst32 a v m x = m x"
  by (auto simp: mst32_def)

lemma ld32_cong: "(\<And>x. a \<le> x \<Longrightarrow> x < a + 4 \<Longrightarrow> m' x = m x) \<Longrightarrow> ld32 m' a = ld32 m a"
  by (simp add: ld32_def)

lemma ld32_st32_other [simp]: "a + 4 \<le> b \<or> b + 4 \<le> a \<Longrightarrow> ld32 (mst32 a v m) b = ld32 m b"
  by (rule ld32_cong) auto

lemma mem_st32 [simp]: "mem (st32 a v s) = mst32 a v (mem s)"
  by (simp add: st32_def)

lemma st32_frame [simp]:
  "mm_base (st32 a v s) = mm_base s" "mm_npages (st32 a v s) = mm_npages s" "mm_bitmap_pages (st32 a v s) = mm_bitmap_pages s"
  "mm_hint (st32 a v s) = mm_hint s" "mm_free_pg (st32 a v s) = mm_free_pg s" "mm_chunks (st32 a v s) = mm_chunks s"
  by (simp_all add: st32_def)

subsection \<open>Blocks\<close>

text \<open>The abstract view of a chunk: its blocks as (size, used) from the left. layout says that memory from a on holds
  exactly these headers, the block before having size p.\<close>

fun layout :: "(nat \<Rightarrow> u8) \<Rightarrow> nat \<Rightarrow> nat \<Rightarrow> (nat \<times> bool) list \<Rightarrow> bool" where
  "layout m a p [] = True"
| "layout m a p ((z, u) # bs) =
     (ld32 m a = z \<and> ld32 m (a + 4) = p \<and> ld32 m (a + 8) = (if u then MM_MAGIC_USED else MM_MAGIC_FREE) \<and>
      32 \<le> z \<and> z mod 16 = 0 \<and> layout m (a + z) z bs)"

definition extent :: "(nat \<times> bool) list \<Rightarrow> nat" where "extent bs = sum_list (map fst bs)"

fun before :: "nat \<Rightarrow> (nat \<times> bool) list \<Rightarrow> nat" where
  "before p [] = p"
| "before p ((z, u) # bs) = before z bs"

lemma extent_simps [simp]: "extent [] = 0" "extent ((z, u) # bs) = z + extent bs" "extent (xs @ ys) = extent xs + extent ys"
  by (simp_all add: extent_def)

lemma before_append [simp]: "before p (xs @ (z, u) # ys) = before z ys"
  by (induction xs arbitrary: p) auto

lemma layout_append [simp]: "layout m a p (xs @ ys) \<longleftrightarrow> layout m a p xs \<and> layout m (a + extent xs) (before p xs) ys"
  by (induction xs arbitrary: a p) (auto simp: add.assoc)

lemma layout_cong:
  "layout m a p bs \<Longrightarrow> (\<And>x. a \<le> x \<Longrightarrow> x < a + extent bs \<Longrightarrow> m' x = m x) \<Longrightarrow> layout m' a p bs"
proof (induction bs arbitrary: a p)
  case (Cons b bs)
  obtain z u where b: "b = (z, u)" by (cases b)
  have z: "32 \<le> z" using Cons.prems(1) b by simp
  have l: "ld32 m' (a + k) = ld32 m (a + k)" if "k \<le> 8" for k
    using that z b by (intro ld32_cong Cons.prems(2)) auto
  have "layout m' (a + z) z bs" using Cons.prems b by (intro Cons.IH) auto
  thus ?case using l [of 0] l [of 4] l [of 8] Cons.prems(1) b by simp
qed simp

lemma layout_set_prev:
  assumes "layout m a p ((z, u) # bs)"
  shows "layout (mst32 (a + 4) q m) a q ((z, u) # bs) \<longleftrightarrow> q < 2 ^ 32"
proof
  assume l: "layout (mst32 (a + 4) q m) a q ((z, u) # bs)"
  hence "ld32 (mst32 (a + 4) q m) (a + 4) = q" by simp
  thus "q < 2 ^ 32" using ld32_lt [of "mst32 (a + 4) q m" "a + 4"] by simp
next
  assume q: "q < 2 ^ 32"
  have l: "layout m (a + z) z bs" and z: "32 \<le> z" using assms by simp_all
  have "layout (mst32 (a + 4) q m) (a + z) z bs" by (rule layout_cong [OF l]) (use z in auto)
  thus "layout (mst32 (a + 4) q m) a q ((z, u) # bs)" using assms q by simp
qed

lemma layout_extent_pos: "layout m a p bs \<Longrightarrow> bs \<noteq> [] \<Longrightarrow> 32 \<le> extent bs"
  by (cases bs) auto

lemma layout_lt: "layout m a p (xs @ (z, u) # ys) \<Longrightarrow> z < 2 ^ 32"
  using ld32_lt [of m "a + extent xs"] by auto

lemma layout_extent_16: "layout m a p bs \<Longrightarrow> extent bs mod 16 = 0"
proof (induction bs arbitrary: a p)
  case (Cons b bs)
  obtain z u where b: "b = (z, u)" by (cases b)
  have "layout m (a + z) z bs" and z: "16 dvd z" using Cons.prems unfolding b by auto
  hence "16 dvd extent bs" using Cons.IH by (simp only: dvd_eq_mod_eq_0)
  hence "16 dvd z + extent bs" using z by (rule dvd_add [rotated])
  thus ?case unfolding b extent_simps by (simp only: dvd_eq_mod_eq_0)
qed simp

text \<open>The next block, by number of bytes left in the chunk.\<close>

lemma next_at:
  assumes "layout (mem s) b p (xs @ (z, u) # ys)" "snd c = extent (xs @ (z, u) # ys)" "fst c = b" "b + snd c < 2 ^ 32"
  shows "mm_next s c (b + extent xs) = (if ys = [] then 0 else b + extent xs + z)"
proof -
  have z: "ld32 (mem s) (b + extent xs) = z" using assms(1) by simp
  have lt: "b + extent xs + z < 2 ^ 32" using assms(2,4) by simp
  have "ys \<noteq> [] \<Longrightarrow> 32 \<le> extent ys" using assms(1) by (intro layout_extent_pos) auto
  thus ?thesis using assms(2,3) lt by (auto simp: mm_next_def z Let_def)
qed

text \<open>The blocks of a chunk, and that no two neighbours are free.\<close>

definition blocks :: "(nat \<Rightarrow> u8) \<Rightarrow> chunk \<Rightarrow> (nat \<times> bool) list \<Rightarrow> bool" where
  "blocks m c bs \<longleftrightarrow> fst c \<noteq> 0 \<and> fst c + snd c < 2 ^ 32 \<and> snd c = extent bs \<and> layout m (fst c) 0 bs"

fun merged :: "(nat \<times> bool) list \<Rightarrow> bool" where
  "merged ((z, u) # (w, v) # bs) = ((u \<or> v) \<and> merged ((w, v) # bs))"
| "merged _ = True"

lemma merged_append: "merged (xs @ ys) \<longleftrightarrow> merged xs \<and> merged ys \<and> (xs \<noteq> [] \<and> ys \<noteq> [] \<longrightarrow> snd (last xs) \<or> snd (hd ys))"
proof (induction xs rule: merged.induct, goal_cases)
  case (3 v)
  thus ?case by (cases v; cases ys) auto
qed auto

lemma layout_new_prev:
  assumes l: "layout m a p ys" and q: "q < 2 ^ 32"
    and x: "\<And>x. ys \<noteq> [] \<Longrightarrow> a \<le> x \<Longrightarrow> x < a + extent ys \<Longrightarrow> m' x = mst32 (a + 4) q m x"
  shows "layout m' a q ys"
proof (cases ys)
  case (Cons b bs)
  obtain z u where b: "b = (z, u)" by (cases b)
  have "layout (mst32 (a + 4) q m) a q ys" using layout_set_prev [of m a p z u bs q] l q Cons b by simp
  thus ?thesis by (rule layout_cong) (use x Cons in auto)
qed simp

text \<open>Replacing one block by one or two: everything to the left keeps its bytes, the headers of the new blocks are in
  place, and the block to the right has its new neighbour's size.\<close>

lemma layout_replace:
  assumes l: "layout m a 0 (xs @ mid @ rest)"
    and left: "\<And>x. x < a + extent xs \<Longrightarrow> m' x = m x"
    and new: "layout m' (a + extent xs) (before 0 xs) new" "new \<noteq> []" "mid \<noteq> []" "extent new = extent mid"
    and right: "\<And>x. rest \<noteq> [] \<Longrightarrow> a + extent xs + extent mid \<le> x \<Longrightarrow>
      m' x = mst32 (a + extent xs + extent mid + 4) (before 0 new) m x"
  shows "layout m' a 0 (xs @ new @ rest)"
proof -
  have "layout m' a 0 xs" by (rule layout_cong [of m]) (use l left in auto)
  moreover have "before 0 new < 2 ^ 32"
  proof -
    obtain ws w v where n: "new = ws @ [(w, v)]" using new(2) by (metis old.prod.exhaust rev_exhaust)
    have "w < 2 ^ 32" using layout_lt [of m' "a + extent xs" "before 0 xs" ws w v "[]"] new(1) n by simp
    thus ?thesis using n by simp
  qed
  moreover have "layout m' (a + extent xs + extent new) (before 0 new) rest"
  proof (rule layout_new_prev)
    show "layout m (a + extent xs + extent new) (before (before 0 xs) mid) rest" using l new(4) by simp
  qed (use calculation(2) right new(4) in auto)
  moreover have "before (before 0 xs) new = before 0 new" using new(2) by (cases new) auto
  ultimately show ?thesis using new(1) by simp
qed

lemma hdr_write_mem [simp]:
  "mem (hdr_write h sz prev magic s) = mst32 (h + 12) 0 (mst32 (h + 8) magic (mst32 (h + 4) prev (mst32 h sz (mem s))))"
  by (simp add: hdr_write_def)

text \<open>Only memory changes.\<close>

definition only_mem :: "mm \<Rightarrow> mm \<Rightarrow> bool" where "only_mem s s' \<longleftrightarrow> s'\<lparr>mem := mem s\<rparr> = s"

lemma only_mem [simp]:
  "only_mem s s" "only_mem s (st32 a v t) = only_mem s t" "only_mem s (hdr_write h sz prev magic t) = only_mem s t"
  by (simp_all add: only_mem_def st32_def hdr_write_def)

lemma mst32_val: "m x = m2 x \<Longrightarrow> mst32 a v m x = mst32 a v m2 x"
  by (simp add: mst32_def)

lemma mst32_id: "ld32 m a = v \<Longrightarrow> mst32 a v m = m"
proof -
  assume v: "ld32 m a = v"
  have b: "(of_nat (unat w + 256 * k) :: u8) = w" for w :: u8 and k
  proof -
    have "(256 :: u8) = 0" by simp
    thus ?thesis by (simp only: of_nat_add of_nat_mult of_nat_numeral) simp
  qed
  have d: "(unat (w :: u8) + 256 * k) div 256 = k" for w k using unat_u8_lt [of w] by simp
  let ?b = "\<lambda>i. unat (m (a + i))"
  have e: "v = unat (m a) + 256 * (?b 1 + 256 * (?b 2 + 256 * ?b 3))" using v by (simp add: ld32_def)
  have s: "v div 2 ^ 8 = ?b 1 + 256 * (?b 2 + 256 * ?b 3)" using d [of "m a"] e by simp
  have s2: "v div 2 ^ 16 = ?b 2 + 256 * ?b 3" using d [of "m (a + 1)"] s div_mult2_eq [of v "2 ^ 8" "2 ^ 8"] by simp
  have s3: "v div 2 ^ 24 = ?b 3 + 256 * 0" using d [of "m (a + 2)"] s2 div_mult2_eq [of v "2 ^ 16" "2 ^ 8"] by simp
  show ?thesis unfolding mst32_def s3 b unfolding s2 b unfolding s b unfolding e b by auto
qed

lemma magic_lt: "MM_MAGIC_USED < 2 ^ 32" "MM_MAGIC_FREE < 2 ^ 32" "MM_MAGIC_USED \<noteq> MM_MAGIC_FREE"
  by (simp_all add: MM_MAGIC_USED_def MM_MAGIC_FREE_def)

definition carved :: "nat \<Rightarrow> nat \<Rightarrow> (nat \<times> bool) list" where
  "carved need z = (if z \<ge> need + 32 then [(need, True), (z - need, False)] else [(z, True)])"

text \<open>The memory mm_carve leaves when it splits.\<close>

lemma mm_carve_mem:
  assumes z: "ld32 (mem s) h = z" "h + z + e < 2 ^ 32" "fst c + snd c = h + z + e" and n: "need + 32 \<le> z" and e: "e = 0 \<or> 32 \<le> e"
    and pos: "0 < h"
  shows "only_mem s (snd (mm_carve c h need s)) \<and> mem (snd (mm_carve c h need s)) =
    mst32 (h + 8) MM_MAGIC_USED (mst32 h need ((if e = 0 then id else mst32 (h + z + 4) (z - need))
      (mem (hdr_write (h + need) (z - need) need MM_MAGIC_FREE s))))"
proof -
  let ?r = "h + need" and ?s = "hdr_write (h + need) (z - need) need MM_MAGIC_FREE s"
  have zl: "z < 2 ^ 32" using z(2) by linarith
  have "z + 2 ^ 32 - need = (z - need) + 2 ^ 32" using n by simp
  moreover have "(z - need + 2 ^ 32) mod 2 ^ 32 = z - need" using zl by (simp only: mod_add_self2) simp
  ultimately have m1: "(z + 2 ^ 32 - need) mod 2 ^ 32 = z - need" by (simp only:)
  have nm: "(need + MM_HDR + 16) mod 2 ^ 32 = need + 32" using n zl by (simp add: MM_HDR_def)
  have r: "ld32 (mem ?s) ?r = z - need" using zl by simp
  have nx: "mm_next ?s c ?r = (if e = 0 then 0 else h + z)"
    using z(2,3) n e by (simp add: mm_next_def r Let_def)
  have e: "snd (mm_carve c h need s) = st32 (h + 8) MM_MAGIC_USED (st32 h need
      (if (if e = 0 then 0 else h + z) \<noteq> 0 then st32 ((if e = 0 then 0 else h + z) + 4) (z - need) ?s else ?s))"
    unfolding mm_carve_def Let_def z(1) m1 nm nx r snd_conv if_P [OF n] ..
  show ?thesis unfolding e using pos by (cases "e = 0") simp_all
qed

lemma mm_carve_blocks:
  assumes b: "blocks (mem s) c (xs @ (z, False) # ys)" and n: "32 \<le> need" "need \<le> z" "need mod 16 = 0" "need + 32 < 2 ^ 32"
  defines "h \<equiv> fst c + extent xs"
  shows "fst (mm_carve c h need s) = h + 16"
    "only_mem s (snd (mm_carve c h need s))"
    "blocks (mem (snd (mm_carve c h need s))) c (xs @ carved need z @ ys)"
    "\<And>x. x < h \<or> (h + 16 \<le> x \<and> x < h + need) \<or> h + z + 16 \<le> x \<or> fst c + snd c \<le> x \<Longrightarrow> mem (snd (mm_carve c h need s)) x = mem s x"
proof -
  have l: "layout (mem s) (fst c) 0 (xs @ [(z, False)] @ ys)" and ex: "snd c = extent xs + z + extent ys" "fst c + snd c < 2 ^ 32" "fst c \<noteq> 0"
    using b by (simp_all add: blocks_def)
  have hz: "ld32 (mem s) h = z" "ld32 (mem s) (h + 4) = before 0 xs" "32 \<le> z" "z mod 16 = 0" "layout (mem s) (h + z) z ys"
    using l by (simp_all add: h_def)
  have nm: "(need + MM_HDR + 16) mod 2 ^ 32 = need + 32" using n(4) by (simp add: MM_HDR_def)
  show "fst (mm_carve c h need s) = h + 16" by (simp add: mm_carve_def MM_HDR_def Let_def)
  have "only_mem s (snd (mm_carve c h need s)) \<and>
    blocks (mem (snd (mm_carve c h need s))) c (xs @ carved need z @ ys) \<and>
    (\<forall>x. x < h \<or> (h + 16 \<le> x \<and> x < h + need) \<or> h + z + 16 \<le> x \<or> fst c + snd c \<le> x \<longrightarrow> mem (snd (mm_carve c h need s)) x = mem s x)"
  proof (cases "z \<ge> need + 32")
    case False
    have e: "snd (mm_carve c h need s) = st32 (h + 8) MM_MAGIC_USED s"
      using False unfolding mm_carve_def Let_def hz(1) nm by simp
    have "layout (mst32 (h + 8) MM_MAGIC_USED (mem s)) (fst c) 0 (xs @ [(z, True)] @ ys)"
    proof (rule layout_replace [OF l])
      show "layout (mst32 (h + 8) MM_MAGIC_USED (mem s)) (fst c + extent xs) (before 0 xs) [(z, True)]"
        using hz magic_lt by (simp add: h_def)
      fix x assume x: "ys \<noteq> []" "fst c + extent xs + extent [(z, False)] \<le> x"
      obtain w v ws where ys: "ys = (w, v) # ws" using x(1) by (cases ys) auto
      have "ld32 (mem s) (h + z + 4) = z" using hz(5) ys by simp
      thus "mst32 (h + 8) MM_MAGIC_USED (mem s) x =
          mst32 (fst c + extent xs + extent [(z, False)] + 4) (before 0 [(z, True)]) (mem s) x"
        using x(2) hz(3) by (simp add: h_def [symmetric] add.assoc [symmetric] mst32_id)
    qed (use l hz in \<open>auto simp: h_def\<close>)
    thus ?thesis unfolding e using ex False hz(3) by (auto simp: blocks_def carved_def h_def)
  next
    case True
    let ?e = "extent ys"
    have E: "?e = 0 \<longleftrightarrow> ys = []" "?e = 0 \<or> 32 \<le> ?e" using layout_extent_pos [OF hz(5)] by (cases ys; auto)+
    define m' where "m' = mem (snd (mm_carve c h need s))"
    have cc: "only_mem s (snd (mm_carve c h need s))" and m': "m' = mst32 (h + 8) MM_MAGIC_USED (mst32 h need ((if ?e = 0 then id else mst32 (h + z + 4) (z - need))
      (mem (hdr_write (h + need) (z - need) need MM_MAGIC_FREE s))))"
      using mm_carve_mem [of s h z ?e c need, OF hz(1) _ _ True E(2)] ex by (simp_all add: h_def m'_def)
    have zl: "z < 2 ^ 32" "need < 2 ^ 32" using ex n(4) by linarith+
    have sz: "(z - need) mod 16 = 0" using hz(4) n(3) True by (metis mod_0 mod_diff_eq diff_zero mod_mod_trivial mod_diff_cong dvd_diff_nat dvd_eq_mod_eq_0)
    have "layout m' (fst c) 0 (xs @ [(need, True), (z - need, False)] @ ys)"
    proof (rule layout_replace [OF l])
      show "layout m' (fst c + extent xs) (before 0 xs) [(need, True), (z - need, False)]"
      proof -
        have "32 \<le> z - need" using True by simp
        thus ?thesis using hz magic_lt n True zl sz by (simp add: m' h_def)
      qed
      fix x
      show "m' x = mem s x" if "x < fst c + extent xs" using that by (simp add: m' h_def)
      assume x: "ys \<noteq> []" "fst c + extent xs + extent [(z, False)] \<le> x"
      have "mem (hdr_write (h + need) (z - need) need MM_MAGIC_FREE s) x = mem s x" using x(2) True n(1) by (simp add: h_def)
      hence "mst32 (h + z + 4) (z - need) (mem (hdr_write (h + need) (z - need) need MM_MAGIC_FREE s)) x =
          mst32 (h + z + 4) (z - need) (mem s) x" by (rule mst32_val)
      moreover have "m' x = mst32 (h + z + 4) (z - need) (mem (hdr_write (h + need) (z - need) need MM_MAGIC_FREE s)) x"
        using x E(1) True n(1) unfolding m' by (simp add: h_def del: hdr_write_mem)
      ultimately show "m' x = mst32 (fst c + extent xs + extent [(z, False)] + 4) (before 0 [(need, True), (z - need, False)]) (mem s) x"
        by (simp add: h_def del: hdr_write_mem)
    qed (use True in simp_all)
    moreover have "m' x = mem s x" if "x < h \<or> (h + 16 \<le> x \<and> x < h + need) \<or> h + z + 16 \<le> x \<or> fst c + snd c \<le> x" for x
      using that True n E ex by (auto simp: m' h_def)
    ultimately show ?thesis using ex True n cc by (auto simp: m'_def [symmetric] blocks_def carved_def)
  qed
  thus "only_mem s (snd (mm_carve c h need s))"
    "blocks (mem (snd (mm_carve c h need s))) c (xs @ carved need z @ ys)"
    "\<And>x. x < h \<or> (h + 16 \<le> x \<and> x < h + need) \<or> h + z + 16 \<le> x \<or> fst c + snd c \<le> x \<Longrightarrow> mem (snd (mm_carve c h need s)) x = mem s x"
    by blast+
qed

subsection \<open>Merging\<close>

definition merge_right :: "nat \<Rightarrow> (nat \<times> bool) list \<Rightarrow> nat \<times> (nat \<times> bool) list" where
  "merge_right z ys = (case ys of (w, u) # ys' \<Rightarrow> if u then (z, ys) else (z + w, ys') | [] \<Rightarrow> (z, ys))"

lemma merge_next_blocks:
  assumes b: "blocks (mem s) c (xs @ (z, False) # ys)" and h: "h = fst c + extent xs" and r: "merge_right z ys = (z', ys')"
  shows "only_mem s (kfree_merge_next c h s)" "blocks (mem (kfree_merge_next c h s)) c (xs @ (z', False) # ys')"
    "\<And>x. x < h \<or> h + z' + 16 \<le> x \<or> fst c + snd c \<le> x \<Longrightarrow> mem (kfree_merge_next c h s) x = mem s x"
proof -
  have l: "layout (mem s) (fst c) 0 (xs @ (z, False) # ys)" and ex: "snd c = extent xs + z + extent ys" "fst c + snd c < 2 ^ 32" "fst c \<noteq> 0"
    using b by (simp_all add: blocks_def)
  have nx: "mm_next s c h = (if ys = [] then 0 else h + z)"
    using next_at [OF l, of c] ex by (simp add: h)
  have "only_mem s (kfree_merge_next c h s) \<and> blocks (mem (kfree_merge_next c h s)) c (xs @ (z', False) # ys') \<and>
    (\<forall>x. x < h \<or> h + z' + 16 \<le> x \<or> fst c + snd c \<le> x \<longrightarrow> mem (kfree_merge_next c h s) x = mem s x)"
  proof (cases "\<exists>w ys2. ys = (w, False) # ys2")
    case False
    hence e: "(z', ys') = (z, ys)" using r by (auto simp: merge_right_def split: list.splits prod.splits if_splits)
    have "kfree_merge_next c h s = s"
    proof (cases ys)
      case Nil
      thus ?thesis by (simp add: kfree_merge_next_def nx)
    next
      case (Cons y ys2)
      obtain w where y: "y = (w, True)" using False Cons by (cases y) auto
      have "ld32 (mem s) (h + z + 8) = MM_MAGIC_USED" using l Cons y by (simp add: h)
      thus ?thesis using magic_lt Cons by (simp add: kfree_merge_next_def nx)
    qed
    thus ?thesis using e b by simp
  next
    case True
    then obtain w where ys: "ys = (w, False) # ys'" and z': "z' = z + w" using r by (auto simp: merge_right_def)
    have hz: "ld32 (mem s) h = z" "ld32 (mem s) (h + 4) = before 0 xs" "ld32 (mem s) (h + 8) = MM_MAGIC_FREE" "32 \<le> z" "z mod 16 = 0"
      "ld32 (mem s) (h + z) = w" "ld32 (mem s) (h + z + 8) = MM_MAGIC_FREE" "32 \<le> w" "w mod 16 = 0" "layout (mem s) (h + z + w) w ys'"
      using l by (simp_all add: h ys)
    have zw: "z + w < 2 ^ 32" using ex ys by simp
    have sz: "z' mod 16 = 0" using hz(5,9) unfolding z' by (metis add_0 mod_add_eq mod_0)
    let ?m1 = "mst32 (h + z + 8) 0 (mst32 h z' (mem s))"
    let ?s1 = "st32 (h + z + 8) 0 (st32 h z' s)"
    have E: "extent ys' = 0 \<longleftrightarrow> ys' = []" "ys' \<noteq> [] \<Longrightarrow> 32 \<le> extent ys'" using layout_extent_pos [OF hz(10)] by (cases ys'; auto)+
    have s1: "ld32 (mem ?s1) h = z'" using zw hz(4) by (simp add: z')
    have lt: "h + z' + extent ys' < 2 ^ 32" "fst c + snd c = h + z' + extent ys'" using ex by (simp_all add: h ys z')
    have nx1: "mm_next ?s1 c h = (if ys' = [] then 0 else h + z')"
      unfolding mm_next_def s1 Let_def lt(2) using lt(1) E by auto
    define m' where "m' = (if ys' = [] then ?m1 else mst32 (h + z' + 4) z' ?m1)"
    have e: "kfree_merge_next c h s = (if ys' = [] then ?s1 else st32 (h + z' + 4) z' ?s1)"
    proof -
      have A: "mm_next s c h = h + z" using nx ys by simp
      have C: "(ld32 (mem s) h + ld32 (mem s) (h + z)) mod 2 ^ 32 = z'" using zw hz by (simp add: z')
      have "h \<noteq> 0" using ex(3) by (simp add: h)
      thus ?thesis unfolding kfree_merge_next_def Let_def A C nx1 s1 by (simp add: hz(7) del: mem_st32)
    qed
    have m': "mem (kfree_merge_next c h s) = m'" by (simp add: e m'_def)
    have "layout m' (fst c) 0 (xs @ [(z', False)] @ ys')"
    proof (rule layout_replace [where mid = "[(z, False), (w, False)]"])
      show "layout (mem s) (fst c) 0 (xs @ [(z, False), (w, False)] @ ys')" using l ys by simp
      show "layout m' (fst c + extent xs) (before 0 xs) [(z', False)]"
        using hz zw sz unfolding h [symmetric] by (auto simp: m'_def z')
      fix x
      show "m' x = mem s x" if "x < fst c + extent xs" using that by (simp add: m'_def h)
      assume x: "ys' \<noteq> []" "fst c + extent xs + extent [(z, False), (w, False)] \<le> x"
      have "?m1 x = mem s x" using x(2) hz(4,8) by (simp add: h)
      hence "mst32 (h + z' + 4) z' ?m1 x = mst32 (h + z' + 4) z' (mem s) x" by (rule mst32_val)
      thus "m' x = mst32 (fst c + extent xs + extent [(z, False), (w, False)] + 4) (before 0 [(z', False)]) (mem s) x"
        using x(1) by (simp add: m'_def h z')
    qed (simp_all add: z')
    moreover have "m' x = mem s x" if "x < h \<or> h + z' + 16 \<le> x \<or> fst c + snd c \<le> x" for x
    proof -
      have "x < h \<or> h + z' + 16 \<le> x \<or> ys' = [] \<and> h + z' \<le> x" using that E lt(2) by (cases "ys' = []") auto
      thus ?thesis using hz(4,8) z' by (auto simp: m'_def)
    qed
    ultimately show ?thesis unfolding m' using e ex by (auto simp: blocks_def ys z')
  qed
  thus "only_mem s (kfree_merge_next c h s)" "blocks (mem (kfree_merge_next c h s)) c (xs @ (z', False) # ys')"
    "\<And>x. x < h \<or> h + z' + 16 \<le> x \<or> fst c + snd c \<le> x \<Longrightarrow> mem (kfree_merge_next c h s) x = mem s x" by blast+
qed

text \<open>The block to the left, when it is free: its size, and what is left of it.\<close>

definition merge_left :: "(nat \<times> bool) list \<Rightarrow> nat \<Rightarrow> (nat \<times> bool) list \<times> nat" where
  "merge_left xs z = (if xs \<noteq> [] \<and> \<not> snd (last xs) then (butlast xs, fst (last xs) + z) else (xs, z))"

lemma before_last: "xs \<noteq> [] \<Longrightarrow> before p xs = fst (last xs)"
  by (induction p xs rule: before.induct) auto

lemma prev_at:
  assumes l: "layout (mem s) (fst c) 0 (xs @ (z, u) # ys)" and lt: "fst c + extent xs < 2 ^ 32" and p: "fst c \<noteq> 0"
  shows "mm_prev s c (fst c + extent xs) = (if xs = [] then 0 else fst c + extent (butlast xs))"
proof (cases xs rule: rev_cases)
  case (snoc xs' y)
  obtain v w where y: "y = (v, w)" by (cases y)
  have v: "32 \<le> v" "ld32 (mem s) (fst c + extent xs + 4) = v" using l snoc y by (simp_all add: add.assoc)
  have n: "fst c + extent xs = fst c + extent xs' + v" using snoc y by simp
  have "fst c + extent xs + 2 ^ 32 - v = (fst c + extent xs') + 2 ^ 32" using n by simp
  moreover have "(fst c + extent xs' + 2 ^ 32) mod 2 ^ 32 = fst c + extent xs'" using lt n by (simp only: mod_add_self2) simp
  ultimately have "(fst c + extent xs + 2 ^ 32 - v) mod 2 ^ 32 = fst c + extent xs'" by (simp only:)
  moreover have ne: "fst c + extent xs \<noteq> fst c" using n v by simp
  ultimately have "mm_prev s c (fst c + extent xs) = fst c + extent xs'" unfolding mm_prev_def v(2) if_not_P [OF ne] by blast
  thus ?thesis using snoc by simp
qed (simp add: mm_prev_def)

lemma merge_prev_blocks:
  assumes b: "blocks (mem s) c (xs @ (z, False) # ys)" and h: "h = fst c + extent xs" and r: "merge_left xs z = (xs', z')"
  shows "fst (kfree_merge_prev c h s) = fst c + extent xs'" "only_mem s (snd (kfree_merge_prev c h s))"
    "blocks (mem (snd (kfree_merge_prev c h s))) c (xs' @ (z', False) # ys)"
    "\<And>x. x < fst c + extent xs' \<or> h + z + 16 \<le> x \<or> fst c + snd c \<le> x \<Longrightarrow> mem (snd (kfree_merge_prev c h s)) x = mem s x"
    "ld32 (mem (snd (kfree_merge_prev c h s))) (h + 8) \<noteq> MM_MAGIC_USED"
proof -
  have l: "layout (mem s) (fst c) 0 (xs @ (z, False) # ys)" and ex: "snd c = extent xs + z + extent ys" "fst c + snd c < 2 ^ 32" "fst c \<noteq> 0"
    using b by (simp_all add: blocks_def)
  have pv: "mm_prev s c h = (if xs = [] then 0 else fst c + extent (butlast xs))"
    using prev_at [OF l _ ex(3)] ex by (simp add: h)
  have "fst (kfree_merge_prev c h s) = fst c + extent xs' \<and> only_mem s (snd (kfree_merge_prev c h s)) \<and>
    blocks (mem (snd (kfree_merge_prev c h s))) c (xs' @ (z', False) # ys) \<and>
    (\<forall>x. x < fst c + extent xs' \<or> h + z + 16 \<le> x \<or> fst c + snd c \<le> x \<longrightarrow> mem (snd (kfree_merge_prev c h s)) x = mem s x) \<and>
    ld32 (mem (snd (kfree_merge_prev c h s))) (h + 8) \<noteq> MM_MAGIC_USED"
  proof (cases "xs \<noteq> [] \<and> \<not> snd (last xs)")
    case False
    hence e: "xs' = xs" "z' = z" using r by (auto simp: merge_left_def)
    have "kfree_merge_prev c h s = (h, s)"
    proof (cases xs rule: rev_cases)
      case Nil
      thus ?thesis by (simp add: kfree_merge_prev_def pv)
    next
      case (snoc ws y)
      obtain v where y: "y = (v, True)" using False snoc by (cases y) auto
      have "ld32 (mem s) (fst c + extent ws + 8) = MM_MAGIC_USED" using l snoc y by simp
      thus ?thesis using magic_lt snoc by (simp add: kfree_merge_prev_def pv)
    qed
    moreover have "ld32 (mem s) (h + 8) = MM_MAGIC_FREE" using l h by simp
    ultimately show ?thesis using e b h magic_lt by simp
  next
    case True
    then obtain v where xs: "xs = xs' @ [(v, False)]" and z': "z' = v + z"
      using r by (cases xs rule: rev_cases) (auto simp: merge_left_def)
    let ?p = "fst c + extent xs'"
    have hp: "h = ?p + v" by (simp add: h xs)
    have hz: "ld32 (mem s) ?p = v" "ld32 (mem s) (?p + 4) = before 0 xs'" "ld32 (mem s) (?p + 8) = MM_MAGIC_FREE" "32 \<le> v" "v mod 16 = 0"
      "ld32 (mem s) h = z" "32 \<le> z" "z mod 16 = 0" "layout (mem s) (h + z) z ys"
      using l by (simp_all add: hp xs add.assoc)
    have vz: "v + z < 2 ^ 32" using ex xs by simp
    have sz: "z' mod 16 = 0" using hz(5,8) unfolding z' by (metis add_0 mod_add_eq mod_0)
    let ?s1 = "st32 (h + 8) 0 (st32 ?p z' s)"
    let ?m1 = "mst32 (h + 8) 0 (mst32 ?p z' (mem s))"
    have E: "extent ys = 0 \<longleftrightarrow> ys = []" "ys \<noteq> [] \<Longrightarrow> 32 \<le> extent ys" using layout_extent_pos [OF hz(9)] by (cases ys; auto)+
    have s1: "ld32 (mem ?s1) ?p = z'" using vz hz(4) hp by (simp add: z')
    have lt: "?p + z' + extent ys < 2 ^ 32" "fst c + snd c = ?p + z' + extent ys" using ex by (simp_all add: xs z')
    have nx1: "mm_next ?s1 c ?p = (if ys = [] then 0 else ?p + z')"
      unfolding mm_next_def s1 Let_def lt(2) using lt(1) E by auto
    have A: "mm_prev s c h = ?p" using pv xs by simp
    have C: "(ld32 (mem s) ?p + ld32 (mem s) h) mod 2 ^ 32 = z'" using vz hz by (simp add: z')
    have e: "kfree_merge_prev c h s = (?p, if ys = [] then ?s1 else st32 (?p + z' + 4) z' ?s1)"
      unfolding kfree_merge_prev_def Let_def A C nx1 s1 using hz(3) ex(3) by (simp del: mem_st32)
    define m' where "m' = (if ys = [] then ?m1 else mst32 (?p + z' + 4) z' ?m1)"
    have m': "mem (snd (kfree_merge_prev c h s)) = m'" by (simp add: e m'_def)
    have "layout m' (fst c) 0 (xs' @ [(z', False)] @ ys)"
    proof (rule layout_replace [where mid = "[(v, False), (z, False)]"])
      show "layout (mem s) (fst c) 0 (xs' @ [(v, False), (z, False)] @ ys)" using l xs by simp
      show "layout m' (fst c + extent xs') (before 0 xs') [(z', False)]"
        using hz vz sz hp by (simp add: m'_def z')
      fix x
      show "m' x = mem s x" if "x < fst c + extent xs'" using that by (simp add: m'_def hp)
      assume x: "ys \<noteq> []" "fst c + extent xs' + extent [(v, False), (z, False)] \<le> x"
      have "?m1 x = mem s x" using x(2) hz(4,7) hp by simp
      hence "mst32 (?p + z' + 4) z' ?m1 x = mst32 (?p + z' + 4) z' (mem s) x" by (rule mst32_val)
      thus "m' x = mst32 (fst c + extent xs' + extent [(v, False), (z, False)] + 4) (before 0 [(z', False)]) (mem s) x"
        using x(1) by (simp add: m'_def z')
    qed (simp_all add: z')
    moreover have "m' x = mem s x" if "x < ?p \<or> h + z + 16 \<le> x \<or> fst c + snd c \<le> x" for x
    proof -
      have "x < ?p \<or> ?p + z' + 16 \<le> x \<or> ys = [] \<and> ?p + z' \<le> x" using that E lt(2) hp z' by (cases "ys = []") auto
      thus ?thesis using hz(4,7) z' hp by (auto simp: m'_def)
    qed
    moreover have "ld32 m' (h + 8) = 0" using hz(7) hp by (simp add: m'_def z')
    ultimately show ?thesis unfolding m' using e ex by (simp add: blocks_def xs z' MM_MAGIC_USED_def)
  qed
  thus "fst (kfree_merge_prev c h s) = fst c + extent xs'" "only_mem s (snd (kfree_merge_prev c h s))"
    "blocks (mem (snd (kfree_merge_prev c h s))) c (xs' @ (z', False) # ys)"
    "\<And>x. x < fst c + extent xs' \<or> h + z + 16 \<le> x \<or> fst c + snd c \<le> x \<Longrightarrow> mem (snd (kfree_merge_prev c h s)) x = mem s x"
    "ld32 (mem (snd (kfree_merge_prev c h s))) (h + 8) \<noteq> MM_MAGIC_USED" by blast+
qed

subsection \<open>Live blocks\<close>

text \<open>Payload addresses and sizes of the used blocks.\<close>

fun live :: "nat \<Rightarrow> (nat \<times> bool) list \<Rightarrow> (nat \<times> nat) set" where
  "live a [] = {}"
| "live a ((z, u) # bs) = (if u then {(a + 16, z - 16)} else {}) \<union> live (a + z) bs"

lemma live_append [simp]: "live a (xs @ ys) = live a xs \<union> live (a + extent xs) ys"
  by (induction xs arbitrary: a) (auto simp: add.assoc)

lemma live_bounds: "layout m a p bs \<Longrightarrow> (q, w) \<in> live a bs \<Longrightarrow> a + 16 \<le> q \<and> q + w \<le> a + extent bs \<and> 16 \<le> w"
proof (induction bs arbitrary: a p)
  case (Cons b bs)
  obtain z u where b: "b = (z, u)" by (cases b)
  show ?case
  proof (cases "(q, w) \<in> live (a + z) bs")
    case True
    thus ?thesis using Cons.IH [of "a + z" z] Cons.prems(1) b by auto
  next
    case False
    thus ?thesis using Cons.prems b by (auto split: if_splits)
  qed
qed simp

lemma live_split:
  assumes "layout m a p bs" "(q, w) \<in> live a bs"
  obtains xs ys where "bs = xs @ (w + 16, True) # ys" "q = a + extent xs + 16"
  using assms
proof (induction bs arbitrary: a p thesis)
  case (Cons b bs)
  obtain z u where b: "b = (z, u)" by (cases b)
  show ?case
  proof (cases "(q, w) \<in> live (a + z) bs")
    case True
    have l: "layout m (a + z) z bs" using Cons.prems(2) b by simp
    obtain xs ys where "bs = xs @ (w + 16, True) # ys" "q = a + z + extent xs + 16" using Cons.IH [OF _ l True] by blast
    thus ?thesis using Cons.prems(1) [of "(z, u) # xs" ys] b by simp
  next
    case False
    thus ?thesis using Cons.prems b by (intro Cons.prems(1) [of "[]" bs]) (auto split: if_splits)
  qed
qed simp

lemma live_disjoint:
  assumes "layout m a p bs" "(q, w) \<in> live a bs" "(q', w') \<in> live a bs" "(q, w) \<noteq> (q', w')"
  shows "q + w \<le> q' \<or> q' + w' \<le> q"
proof -
  obtain xs ys where bs: "bs = xs @ (w + 16, True) # ys" "q = a + extent xs + 16" using live_split [OF assms(1,2)] by blast
  have "(q', w') \<in> live a xs \<or> (q', w') \<in> live (a + extent xs + (w + 16)) ys" using assms(3,4) bs by auto
  thus ?thesis
  proof
    assume "(q', w') \<in> live a xs"
    thus ?thesis using live_bounds [of m a p xs q' w'] assms(1) bs by simp
  next
    assume r: "(q', w') \<in> live (a + extent xs + (w + 16)) ys"
    have "layout m (a + extent xs + (w + 16)) (w + 16) ys" using assms(1) bs by simp
    thus ?thesis using live_bounds [OF _ r] bs(2) by fastforce
  qed
qed

subsection \<open>The pages under the heap\<close>

lemma bit_ops_chunks [simp]:
  "mm_chunks (mm_bit_set p s) = mm_chunks s" "mm_chunks (mm_bit_clr p s) = mm_chunks s"
  "mm_chunks (mm_set_range a b s) = mm_chunks s" "mm_chunks (mm_clr_range a b s) = mm_chunks s"
proof -
  show b: "mm_chunks (mm_bit_set p s) = mm_chunks s" "mm_chunks (mm_bit_clr p s) = mm_chunks s" for p s
    by (simp_all add: mm_bit_set_def mm_bit_clr_def Let_def)
  have "mm_chunks (fold mm_bit_set ps s) = mm_chunks s" "mm_chunks (fold mm_bit_clr ps s) = mm_chunks s" for ps
    by (induction ps arbitrary: s) (simp_all add: b)
  thus "mm_chunks (mm_set_range a b s) = mm_chunks s" "mm_chunks (mm_clr_range a b s) = mm_chunks s"
    by (simp_all add: mm_set_range_def mm_clr_range_def)
qed

lemma clr_range_mem:
  "x < mm_base s \<or> mm_base s + (b - 1) div 8 < x \<Longrightarrow> mem (mm_clr_range a b s) x = mem s x"
proof -
  assume x: "x < mm_base s \<or> mm_base s + (b - 1) div 8 < x"
  have "(\<forall>p\<in>set ps. p < b) \<Longrightarrow> x < mm_base s \<or> mm_base s + (b - 1) div 8 < x \<Longrightarrow>
    mem (fold mm_bit_clr ps s) x = mem s x" for ps s
  proof (induction ps arbitrary: s)
    case (Cons p ps)
    have "p div 8 \<le> (b - 1) div 8" using Cons.prems(1) by (intro div_le_mono) auto
    hence "mem (mm_bit_clr p s) x = mem s x" using Cons.prems(2) by (auto simp: mm_bit_clr_def Let_def)
    thus ?case using Cons by simp
  qed simp
  thus ?thesis using x by (simp add: mm_clr_range_def)
qed

text \<open>Where the managed pages behind the bitmap start.\<close>

definition mm_first :: "mm \<Rightarrow> nat" where "mm_first s = mm_base s + mm_bitmap_pages s * MM_PAGE"

lemma below_first: "mm_ok s \<Longrightarrow> p < mm_npages s \<Longrightarrow> mm_base s + p div 8 < mm_first s"
  by (simp add: mm_ok_def mm_first_def less_mult_imp_div_less mult.commute mult.left_commute)

lemma pages_alloc_frame:
  assumes ok: "mm_ok s" and n: "0 < n" and a: "mm_pages_alloc_z n False s = (r, s')"
  shows "mm_chunks s' = mm_chunks s" "x < mm_base s \<or> mm_first s \<le> x \<Longrightarrow> mem s' x = mem s x"
proof -
  have "mm_chunks s' = mm_chunks s \<and> (x < mm_base s \<or> mm_first s \<le> x \<longrightarrow> mem s' x = mem s x)"
    using ok n
  proof (cases rule: alloc_cases [where zero = False])
    case fail
    thus ?thesis using a by auto
  next
    case (found q)
    have s': "s' = snd (mm_take_run n False q s)" using a found(1) by simp
    have "x < mm_base s \<or> mm_base s + (q + 1 - 1) div 8 < x" if "x < mm_base s \<or> mm_first s \<le> x"
      using that below_first [OF ok found(2)] by auto
    thus ?thesis unfolding s' by (auto simp: mm_take_run_def Let_def intro: set_range_mem)
  qed
  thus "mm_chunks s' = mm_chunks s" "x < mm_base s \<or> mm_first s \<le> x \<Longrightarrow> mem s' x = mem s x" by blast+
qed

lemma pages_free_frame:
  assumes ok: "mm_ok s" and p: "p < 2 ^ 32" and n: "n \<le> 2 ^ 31" and a: "mm_pages_free p n s = (r, s')"
  shows "mm_chunks s' = mm_chunks s" "x < mm_base s \<or> mm_first s \<le> x \<Longrightarrow> mem s' x = mem s x"
proof -
  have "mm_chunks s' = mm_chunks s \<and> (x < mm_base s \<or> mm_first s \<le> x \<longrightarrow> mem s' x = mem s x)"
  proof (cases "fst (mm_pages_free p n s)")
    case False
    hence "s' = snd (mm_bad_free s)" using a by (auto simp: mm_pages_free_def mm_bad_free_def Let_def split: if_splits)
    thus ?thesis by (simp add: mm_bad_free_def)
  next
    case True
    then obtain f where f: "p = mm_base s + f * MM_PAGE" "all_used s f n" using free_accepts [OF ok p n] by blast
    have "f < 2 ^ 32" "f + n < 2 ^ 32" using f(2) ok by (auto simp: all_used_def mm_ok_def)
    hence w: "(f + n) mod 2 ^ 32 = f + n" by simp
    have d: "(p - mm_base s) div MM_PAGE = f" by (simp add: f(1) MM_PAGE_def)
    obtain g h where s': "s' = (mm_clr_range f (f + n) s)\<lparr>mm_free_pg := g, mm_hint := h\<rparr> \<or> s' = (mm_clr_range f (f + n) s)\<lparr>mm_free_pg := g\<rparr>"
      using a True unfolding mm_pages_free_def Let_def d w by (auto simp: mm_bad_free_def split: if_splits)
    have "f + n - 1 < mm_npages s" using f(2) by (auto simp: all_used_def)
    hence "x < mm_base s \<or> mm_base s + (f + n - 1) div 8 < x" if "x < mm_base s \<or> mm_first s \<le> x"
      using that below_first [OF ok] by fastforce
    hence "mem (mm_clr_range f (f + n) s) x = mem s x" if "x < mm_base s \<or> mm_first s \<le> x"
      using that clr_range_mem [of x s "f + n" f] by blast
    thus ?thesis using s' by auto
  qed
  thus "mm_chunks s' = mm_chunks s" "x < mm_base s \<or> mm_first s \<le> x \<Longrightarrow> mem s' x = mem s x" by blast+
qed

subsection \<open>The heap's invariant\<close>

definition owned :: "mm \<Rightarrow> chunk \<Rightarrow> bool" where
  "owned s c \<longleftrightarrow> (\<exists>f k. fst c = mm_base s + f * MM_PAGE \<and> snd c = k * MM_PAGE \<and> all_used s f k)"

definition apart :: "chunk \<Rightarrow> chunk \<Rightarrow> bool" where
  "apart c d \<longleftrightarrow> fst c + snd c \<le> fst d \<or> fst d + snd d \<le> fst c"

text \<open>heap_view s H: the page allocator's invariant holds, and for each of the 16 chunk slots H lists the blocks (none for
  an empty slot); the headers in memory are exactly those, free neighbours are merged, the pages of every chunk are
  allocated, and chunks do not overlap.\<close>

definition chunk_view :: "mm \<Rightarrow> nat \<Rightarrow> (nat \<times> bool) list \<Rightarrow> bool" where
  "chunk_view s i bs \<longleftrightarrow>
     (if fst (mm_chunks s ! i) = 0 then bs = []
      else blocks (mem s) (mm_chunks s ! i) bs \<and> merged bs \<and> owned s (mm_chunks s ! i))"

definition heap_view :: "mm \<Rightarrow> (nat \<times> bool) list list \<Rightarrow> bool" where
  "heap_view s H \<longleftrightarrow> mm_ok s \<and> mm_base s + mm_npages s * MM_PAGE < 2 ^ 32 \<and>
     length (mm_chunks s) = MM_CHUNK_MAX \<and> length H = MM_CHUNK_MAX \<and>
     (\<forall>i < MM_CHUNK_MAX. chunk_view s i (H ! i)) \<and>
     (\<forall>i < MM_CHUNK_MAX. \<forall>j < MM_CHUNK_MAX. i \<noteq> j \<longrightarrow> fst (mm_chunks s ! i) \<noteq> 0 \<longrightarrow> fst (mm_chunks s ! j) \<noteq> 0 \<longrightarrow>
        apart (mm_chunks s ! i) (mm_chunks s ! j))"

definition heap_live :: "mm \<Rightarrow> (nat \<times> bool) list list \<Rightarrow> (nat \<times> nat) set" where
  "heap_live s H = (\<Union>i < MM_CHUNK_MAX. live (fst (mm_chunks s ! i)) (H ! i))"

lemma owned_range: "owned s c \<Longrightarrow> mm_first s \<le> fst c \<and> fst c + snd c \<le> mm_base s + mm_npages s * MM_PAGE \<and> 0 < snd c"
proof -
  assume "owned s c"
  then obtain f k where f: "fst c = mm_base s + f * MM_PAGE" "snd c = k * MM_PAGE" "mm_bitmap_pages s \<le> f" "f + k \<le> mm_npages s" "0 < k"
    by (auto simp: owned_def all_used_def)
  have "mm_bitmap_pages s * MM_PAGE \<le> f * MM_PAGE" "(f + k) * MM_PAGE \<le> mm_npages s * MM_PAGE"
    using f(3,4) by (auto intro: mult_le_mono1)
  thus ?thesis using f by (simp add: mm_first_def add_mult_distrib MM_PAGE_def)
qed

text \<open>Changing the memory of one chunk only (and counters).\<close>

definition pages_same :: "mm \<Rightarrow> mm \<Rightarrow> bool" where
  "pages_same s s' \<longleftrightarrow> mm_base s' = mm_base s \<and> mm_npages s' = mm_npages s \<and> mm_bitmap_pages s' = mm_bitmap_pages s \<and>
     mm_hint s' = mm_hint s \<and> mm_free_pg s' = mm_free_pg s"

lemma pages_same_simps [simp]:
  "pages_same s s" "pages_same s (t\<lparr>mm_stat_allocs := a\<rparr>) = pages_same s t" "pages_same s (t\<lparr>mm_stat_frees := a\<rparr>) = pages_same s t"
  "pages_same s (t\<lparr>mm_stat_failed := a\<rparr>) = pages_same s t" "pages_same s (t\<lparr>mm_stat_bad_frees := a\<rparr>) = pages_same s t"
  "pages_same s (t\<lparr>mm_chunks := cs\<rparr>) = pages_same s t" "pages_same s (st32 a v t) = pages_same s t"
  "pages_same s (hdr_write h sz prev magic t) = pages_same s t"
  by (simp_all add: pages_same_def st32_def hdr_write_def)

lemma only_mem_pages: "only_mem s s' \<Longrightarrow> pages_same s s'" "only_mem s s' \<Longrightarrow> mm_chunks s' = mm_chunks s"
  unfolding only_mem_def pages_same_def by (metis mm.select_convs(2-7) mm.surjective mm.update_convs(1))+

lemma pages_same_trans: "pages_same a b \<Longrightarrow> pages_same b d \<Longrightarrow> pages_same a d"
  by (simp add: pages_same_def)

lemma same_bits_ok:
  assumes ok: "mm_ok s" and ps: "pages_same s s'" and m: "\<And>x. mm_base s \<le> x \<Longrightarrow> x < mm_first s \<Longrightarrow> mem s' x = mem s x"
  shows "mm_ok s'" "p < mm_npages s \<Longrightarrow> mm_bit s' p = mm_bit s p"
proof -
  have bit: "mm_bit s' p = mm_bit s p" if "p < mm_npages s" for p
    using ps m [of "mm_base s + p div 8"] below_first [OF ok that] by (simp add: mm_bit_def pages_same_def)
  thus "p < mm_npages s \<Longrightarrow> mm_bit s' p = mm_bit s p" .
  have "free_set s' = free_set s" using ps bit by (auto simp: free_set_def pages_same_def)
  moreover have "\<forall>p < mm_bitmap_pages s. mm_bit s' p" using ok bit by (simp add: mm_ok_def)
  ultimately show "mm_ok s'" using ok ps by (simp add: mm_ok_def pages_same_def)
qed

lemma owned_same:
  "owned s c \<Longrightarrow> mm_base s' = mm_base s \<Longrightarrow> mm_npages s' = mm_npages s \<Longrightarrow> mm_bitmap_pages s' = mm_bitmap_pages s \<Longrightarrow>
   (\<And>p. p < mm_npages s \<Longrightarrow> mm_base s + p * MM_PAGE \<ge> fst c \<Longrightarrow> mm_base s + p * MM_PAGE < fst c + snd c \<Longrightarrow> mm_bit s p \<Longrightarrow> mm_bit s' p) \<Longrightarrow> owned s' c"
proof -
  assume o: "owned s c" and e: "mm_base s' = mm_base s" "mm_npages s' = mm_npages s" "mm_bitmap_pages s' = mm_bitmap_pages s"
    and b: "\<And>p. p < mm_npages s \<Longrightarrow> mm_base s + p * MM_PAGE \<ge> fst c \<Longrightarrow> mm_base s + p * MM_PAGE < fst c + snd c \<Longrightarrow> mm_bit s p \<Longrightarrow> mm_bit s' p"
  obtain f k where f: "fst c = mm_base s + f * MM_PAGE" "snd c = k * MM_PAGE" "all_used s f k" using o by (auto simp: owned_def)
  have "mm_bit s' i" if "f \<le> i" "i < f + k" for i
  proof (rule b)
    show "i < mm_npages s" "mm_bit s i" using f(3) that by (auto simp: all_used_def)
    show "fst c \<le> mm_base s + i * MM_PAGE" using f(1) that(1) by simp
    have "i * MM_PAGE < (f + k) * MM_PAGE" using that(2) by (simp add: MM_PAGE_def)
    thus "mm_base s + i * MM_PAGE < fst c + snd c" using f by (simp add: add_mult_distrib)
  qed
  hence "all_used s' f k" using f(3) e by (simp add: all_used_def)
  thus "owned s' c" using f e unfolding owned_def by metis
qed

lemma heap_update:
  assumes v: "heap_view s H" and i: "i < MM_CHUNK_MAX" "fst (mm_chunks s ! i) \<noteq> 0"
    and ps: "pages_same s s'" and ch: "mm_chunks s' = mm_chunks s"
    and m: "\<And>x. x < fst (mm_chunks s ! i) \<or> fst (mm_chunks s ! i) + snd (mm_chunks s ! i) \<le> x \<Longrightarrow> mem s' x = mem s x"
    and b: "blocks (mem s') (mm_chunks s ! i) bs" "merged bs"
  shows "heap_view s' (H[i := bs])"
proof -
  have ok: "mm_ok s" and len: "length H = MM_CHUNK_MAX" "length (mm_chunks s) = MM_CHUNK_MAX" using v by (simp_all add: heap_view_def)
  have ci: "\<And>j. j < MM_CHUNK_MAX \<Longrightarrow> chunk_view s j (H ! j)" using v by (simp add: heap_view_def)
  have own: "owned s (mm_chunks s ! i)" using ci [OF i(1)] i(2) by (simp add: chunk_view_def)
  note s' = same_bits_ok [OF ok ps m] 
  have ok': "mm_ok s'" and bit: "\<And>p. p < mm_npages s \<Longrightarrow> mm_bit s' p = mm_bit s p"
    using s' owned_range [OF own] by auto
  have own': "owned s' c" if "owned s c" for c
    by (rule owned_same [OF that]) (use ps bit in \<open>simp_all add: pages_same_def\<close>)
  have "chunk_view s' j (H[i := bs] ! j)" if j: "j < MM_CHUNK_MAX" for j
  proof (cases "j = i")
    case True
    thus ?thesis using b i own' [OF own] len by (simp add: chunk_view_def ch)
  next
    case False
    show ?thesis
    proof (cases "fst (mm_chunks s ! j) = 0")
      case True
      thus ?thesis using ci [OF j] False by (simp add: chunk_view_def ch)
    next
      case f: False
      have cj: "blocks (mem s) (mm_chunks s ! j) (H ! j)" "merged (H ! j)" "owned s (mm_chunks s ! j)"
        using ci [OF j] f by (simp_all add: chunk_view_def)
      have "apart (mm_chunks s ! i) (mm_chunks s ! j)" using v i j f False by (auto simp: heap_view_def)
      hence x: "mem s' x = mem s x" if "fst (mm_chunks s ! j) \<le> x" "x < fst (mm_chunks s ! j) + snd (mm_chunks s ! j)" for x
        using that by (intro m) (auto simp: apart_def)
      have l: "layout (mem s) (fst (mm_chunks s ! j)) 0 (H ! j)" "snd (mm_chunks s ! j) = extent (H ! j)"
        using cj(1) by (simp_all add: blocks_def)
      have "layout (mem s') (fst (mm_chunks s ! j)) 0 (H ! j)" by (rule layout_cong [OF l(1)]) (use x l(2) in simp)
      thus ?thesis using cj own' f False by (simp add: chunk_view_def ch blocks_def)
    qed
  qed
  thus ?thesis using v ok' ps len by (simp add: heap_view_def ch pages_same_def)
qed

subsection \<open>Finding a block\<close>

lemma length_blocks: "layout m a p bs \<Longrightarrow> 32 * length bs \<le> extent bs"
proof (induction bs arbitrary: a p)
  case (Cons b bs)
  obtain z u where b: "b = (z, u)" by (cases b)
  thus ?case using Cons.IH [of "a + z" z] Cons.prems by simp
qed simp

lemma find_block:
  assumes "layout (mem s) (fst c) 0 (xs @ ys)" "c = mm_chunks s ! i" "snd c = extent (xs @ ys)" "fst c + snd c < 2 ^ 32"
    and "fst c \<noteq> 0" "length ys < fuel"
  shows "\<exists>r. mm_find_block fuel s need i (if ys = [] then 0 else fst c + extent xs) = Some r \<and>
    (r = Nothing \<and> (\<forall>w. (w, False) \<in> set ys \<longrightarrow> w < need) \<or>
     (\<exists>zs w rest. ys = zs @ (w, False) # rest \<and> need \<le> w \<and> r = Fit i (fst c + extent (xs @ zs))))"
  using assms(1,3,6)
proof (induction ys arbitrary: xs fuel)
  case Nil
  then obtain f where "fuel = Suc f" by (cases fuel) auto
  thus ?case by simp
next
  case (Cons y ys)
  obtain z u where y: "y = (z, u)" by (cases y)
  obtain f where f: "fuel = Suc f" using Cons.prems(3) by (cases fuel) auto
  let ?h = "fst c + extent xs"
  have l: "layout (mem s) (fst c) 0 (xs @ (z, u) # ys)" using Cons.prems(1) y by simp
  have hd: "ld32 (mem s) ?h = z" "ld32 (mem s) (?h + 8) = (if u then MM_MAGIC_USED else MM_MAGIC_FREE)" "32 \<le> z" using l by simp_all
  have nx: "mm_next s c ?h = (if ys = [] then 0 else fst c + extent (xs @ [(z, u)]))"
    using next_at [OF l, of c] Cons.prems(2) y assms(4) by (simp add: add.assoc)
  show ?case
  proof (cases "\<not> u \<and> need \<le> z")
    case True
    hence "mm_find_block fuel s need i ?h = Some (Fit i ?h)" using hd f assms(5) by simp
    thus ?thesis using True y by (intro exI [of _ "Fit i ?h"]) (auto intro: exI [of _ "[]"])
  next
    case False
    obtain r where r: "mm_find_block f s need i (if ys = [] then 0 else fst c + extent (xs @ [(z, u)])) = Some r"
      "r = Nothing \<and> (\<forall>w. (w, False) \<in> set ys \<longrightarrow> w < need) \<or>
       (\<exists>zs w rest. ys = zs @ (w, False) # rest \<and> need \<le> w \<and> r = Fit i (fst c + extent ((xs @ [(z, u)]) @ zs)))"
      using Cons.IH [of "xs @ [(z, u)]" f] Cons.prems y f by auto
    have "mm_find_block fuel s need i ?h = mm_find_block f s need i (mm_next s c ?h)"
      using False hd f assms(2,5) magic_lt(3) by (auto simp: MM_HDR_def)
    hence e: "mm_find_block fuel s need i (if y # ys = [] then 0 else ?h) = Some r" using nx r(1) by simp
    from r(2) show ?thesis
    proof
      assume n: "r = Nothing \<and> (\<forall>w. (w, False) \<in> set ys \<longrightarrow> w < need)"
      hence "\<forall>w. (w, False) \<in> set (y # ys) \<longrightarrow> w < need" using False y by auto
      thus ?thesis using e n by blast
    next
      assume "\<exists>zs w rest. ys = zs @ (w, False) # rest \<and> need \<le> w \<and> r = Fit i (fst c + extent ((xs @ [(z, u)]) @ zs))"
      then obtain zs w rest where "ys = zs @ (w, False) # rest" "need \<le> w" "r = Fit i (fst c + extent ((xs @ [(z, u)]) @ zs))" by blast
      hence "y # ys = (y # zs) @ (w, False) # rest" "need \<le> w" "r = Fit i (fst c + extent (xs @ y # zs))" using y by simp_all
      thus ?thesis using e by blast
    qed
  qed
qed

lemma view_blocks:
  "heap_view s H \<Longrightarrow> i < MM_CHUNK_MAX \<Longrightarrow> fst (mm_chunks s ! i) \<noteq> 0 \<Longrightarrow>
   blocks (mem s) (mm_chunks s ! i) (H ! i) \<and> merged (H ! i) \<and> owned s (mm_chunks s ! i)"
  by (simp add: heap_view_def chunk_view_def)

lemma view_length:
  assumes "heap_view s H" "i < MM_CHUNK_MAX"
  shows "length (H ! i) < 2 ^ 27"
proof (cases "fst (mm_chunks s ! i) = 0")
  case True
  thus ?thesis using assms by (simp add: heap_view_def chunk_view_def)
next
  case False
  hence b: "blocks (mem s) (mm_chunks s ! i) (H ! i)" using view_blocks assms by blast
  hence "32 * length (H ! i) \<le> extent (H ! i)" "extent (H ! i) < 2 ^ 32" using length_blocks by (auto simp: blocks_def)
  thus ?thesis by simp
qed

definition no_fit :: "nat \<Rightarrow> (nat \<times> bool) list \<Rightarrow> bool" where
  "no_fit need bs \<longleftrightarrow> (\<forall>w. (w, False) \<in> set bs \<longrightarrow> w < need)"

definition fit_at :: "mm \<Rightarrow> (nat \<times> bool) list list \<Rightarrow> nat \<Rightarrow> nat \<Rightarrow> find_result \<Rightarrow> bool" where
  "fit_at s H need i r \<longleftrightarrow> fst (mm_chunks s ! i) \<noteq> 0 \<and>
     (\<exists>zs w rest. H ! i = zs @ (w, False) # rest \<and> need \<le> w \<and> r = Fit i (fst (mm_chunks s ! i) + extent zs))"

lemma find_pass:
  assumes v: "heap_view s H" and f: "2 ^ 27 \<le> fuel" and "set is \<subseteq> {..<MM_CHUNK_MAX}"
  shows "\<exists>r. mm_find_pass fuel s need is = Some r \<and>
    (r = Nothing \<and> (\<forall>i \<in> set is. no_fit need (H ! i)) \<or> (\<exists>i \<in> set is. fit_at s H need i r))"
  using assms(3)
proof (induction "is")
  case (Cons i "is")
  have i: "i < MM_CHUNK_MAX" using Cons.prems by simp
  obtain r where r: "mm_find_pass fuel s need is = Some r"
    "r = Nothing \<and> (\<forall>i \<in> set is. no_fit need (H ! i)) \<or> (\<exists>i \<in> set is. fit_at s H need i r)" using Cons.IH Cons.prems by auto
  let ?c = "mm_chunks s ! i"
  show ?case
  proof (cases "fst ?c = 0")
    case True
    hence "no_fit need (H ! i)" using v i by (simp add: heap_view_def chunk_view_def no_fit_def)
    thus ?thesis using True r by auto
  next
    case False
    have b: "blocks (mem s) ?c (H ! i)" using view_blocks [OF v i False] by blast
    hence ne: "H ! i \<noteq> []" using owned_range [of s ?c] view_blocks [OF v i False] by (auto simp: blocks_def)
    obtain q where q: "mm_find_block fuel s need i (fst ?c) = Some q"
      "q = Nothing \<and> no_fit need (H ! i) \<or> fit_at s H need i q"
      using find_block [of s ?c "[]" "H ! i" i fuel need] b ne f view_length [OF v i] False
      by (auto simp: blocks_def no_fit_def fit_at_def)
    from q(2) show ?thesis
    proof
      assume n: "q = Nothing \<and> no_fit need (H ! i)"
      hence "mm_find_pass fuel s need (i # is) = Some r" using False q(1) r(1) by simp
      thus ?thesis using r(2) n by auto
    next
      assume z: "fit_at s H need i q"
      hence "mm_find_pass fuel s need (i # is) = Some q" using False q(1) by (auto simp: fit_at_def)
      thus ?thesis using z by auto
    qed
  qed
qed simp

subsection \<open>Allocating from a block\<close>

lemma live_carved: "live a (carved need z) = {(a + 16, (if z \<ge> need + 32 then need else z) - 16)}"
  by (simp add: carved_def)

lemma merged_carved: "merged (xs @ (z, False) # ys) \<Longrightarrow> merged (xs @ carved need z @ ys)"
  by (auto simp: merged_append carved_def) (cases ys; auto)+

lemma heap_live_update:
  assumes "i < MM_CHUNK_MAX" "length H = MM_CHUNK_MAX" "mm_chunks s' = mm_chunks s"
  shows "heap_live s' (H[i := bs]) = live (fst (mm_chunks s ! i)) bs \<union> (\<Union>j \<in> {..<MM_CHUNK_MAX} - {i}. live (fst (mm_chunks s ! j)) (H ! j))"
  using assms by (auto simp: heap_live_def nth_list_update split: if_splits)

lemma live_in_chunk:
  assumes v: "heap_view s H" and q: "(q, w) \<in> heap_live s H"
  obtains j where "j < MM_CHUNK_MAX" "(q, w) \<in> live (fst (mm_chunks s ! j)) (H ! j)" "fst (mm_chunks s ! j) \<noteq> 0"
    "fst (mm_chunks s ! j) + 16 \<le> q" "q + w \<le> fst (mm_chunks s ! j) + snd (mm_chunks s ! j)" "16 \<le> w"
proof -
  obtain j where j: "j < MM_CHUNK_MAX" "(q, w) \<in> live (fst (mm_chunks s ! j)) (H ! j)" using q by (auto simp: heap_live_def)
  have nz: "fst (mm_chunks s ! j) \<noteq> 0"
  proof
    assume "fst (mm_chunks s ! j) = 0"
    hence "H ! j = []" using v j(1) by (simp add: heap_view_def chunk_view_def)
    thus False using j(2) by simp
  qed
  have "blocks (mem s) (mm_chunks s ! j) (H ! j)" using view_blocks [OF v j(1) nz] by blast
  thus thesis using live_bounds [OF _ j(2)] by (intro that [OF j nz]) (auto simp: blocks_def)
qed

lemma heap_live_disjoint:
  assumes v: "heap_view s H" and a: "(q, w) \<in> heap_live s H" "(q', w') \<in> heap_live s H" "(q, w) \<noteq> (q', w')"
  shows "q + w \<le> q' \<or> q' + w' \<le> q"
proof -
  obtain j where j: "j < MM_CHUNK_MAX" "(q, w) \<in> live (fst (mm_chunks s ! j)) (H ! j)" "fst (mm_chunks s ! j) \<noteq> 0"
    "fst (mm_chunks s ! j) + 16 \<le> q" "q + w \<le> fst (mm_chunks s ! j) + snd (mm_chunks s ! j)"
    using live_in_chunk [OF v a(1)] by metis
  obtain k where k: "k < MM_CHUNK_MAX" "(q', w') \<in> live (fst (mm_chunks s ! k)) (H ! k)" "fst (mm_chunks s ! k) \<noteq> 0"
    "fst (mm_chunks s ! k) + 16 \<le> q'" "q' + w' \<le> fst (mm_chunks s ! k) + snd (mm_chunks s ! k)"
    using live_in_chunk [OF v a(2)] by metis
  show ?thesis
  proof (cases "j = k")
    case True
    have "blocks (mem s) (mm_chunks s ! j) (H ! j)" using view_blocks [OF v j(1,3)] by blast
    thus ?thesis using live_disjoint [of "mem s" "fst (mm_chunks s ! j)" 0 "H ! j" q w q' w'] j(2) k(2) True a(3) by (simp add: blocks_def)
  next
    case False
    hence "apart (mm_chunks s ! j) (mm_chunks s ! k)" using v j(1,3) k(1,3) by (simp add: heap_view_def)
    thus ?thesis using j k by (auto simp: apart_def)
  qed
qed

definition payloads_kept :: "(nat \<times> nat) set \<Rightarrow> mm \<Rightarrow> mm \<Rightarrow> bool" where
  "payloads_kept L s s' \<longleftrightarrow> (\<forall>q w x. (q, w) \<in> L \<longrightarrow> q \<le> x \<longrightarrow> x < q + w \<longrightarrow> mem s' x = mem s x)"

lemma carve_step:
  assumes v: "heap_view s H" and i: "i < MM_CHUNK_MAX" "fst (mm_chunks s ! i) \<noteq> 0" and H: "H ! i = xs @ (w, False) # ys"
    and n: "32 \<le> need" "need \<le> w" "need mod 16 = 0" "need + 32 < 2 ^ 32"
    and e: "mm_carve (mm_chunks s ! i) (fst (mm_chunks s ! i) + extent xs) need (s\<lparr>mm_stat_allocs := a\<rparr>) = (p, s')"
  shows "heap_view s' (H[i := xs @ carved need w @ ys])" "p mod 16 = 0" "0 < p"
    "\<exists>z \<ge> need - 16. heap_live s' (H[i := xs @ carved need w @ ys]) = insert (p, z) (heap_live s H) \<and> (p, z) \<notin> heap_live s H"
    "payloads_kept (heap_live s H) s s'"
proof -
  let ?c = "mm_chunks s ! i" and ?s = "s\<lparr>mm_stat_allocs := a\<rparr>" and ?h = "fst (mm_chunks s ! i) + extent xs"
  have vb: "blocks (mem s) ?c (H ! i)" "merged (H ! i)" "owned s ?c" using view_blocks [OF v i] by blast+
  hence b: "blocks (mem ?s) ?c (xs @ (w, False) # ys)" using H by simp
  note C = mm_carve_blocks [OF b n]
  have s': "s' = snd (mm_carve ?c ?h need ?s)" and p: "p = ?h + 16" using C(1) e by auto
  have om: "pages_same s s'" "mm_chunks s' = mm_chunks s" using only_mem_pages [OF C(2)] unfolding s' by (simp_all add: pages_same_def)
  have hl: "?h + w \<le> fst ?c + snd ?c" using b by (simp add: blocks_def)
  have mem: "mem s' x = mem s x" if "x < ?h \<or> ?h + w + 16 \<le> x \<or> fst ?c + snd ?c \<le> x" for x
    using C(4) [of x] that unfolding s' by auto
  show view: "heap_view s' (H[i := xs @ carved need w @ ys])"
  proof (rule heap_update [OF v i om])
    show "mem s' x = mem s x" if "x < fst ?c \<or> fst ?c + snd ?c \<le> x" for x using that by (intro mem) auto
    show "blocks (mem s') ?c (xs @ carved need w @ ys)" using C(3) s' by simp
    show "merged (xs @ carved need w @ ys)" using merged_carved vb(2) H by simp
  qed
  have "16 dvd fst ?c"
  proof -
    obtain f where "fst ?c = mm_base s + f * MM_PAGE" using vb(3) by (auto simp: owned_def)
    moreover have "MM_PAGE dvd mm_base s" using v by (simp add: heap_view_def mm_ok_def dvd_eq_mod_eq_0)
    ultimately have "MM_PAGE dvd fst ?c" by simp
    thus ?thesis by (rule dvd_trans [rotated]) (simp add: MM_PAGE_def)
  qed
  moreover have "16 dvd extent xs" using layout_extent_16 [of "mem s" "fst ?c" 0 xs] b by (simp add: blocks_def dvd_eq_mod_eq_0)
  ultimately have "16 dvd p" unfolding p by (intro dvd_add) simp_all
  thus "p mod 16 = 0" by (simp add: dvd_eq_mod_eq_0)
  show "0 < p" by (simp add: p)
  have len: "length H = MM_CHUNK_MAX" using v by (simp add: heap_view_def)
  define z where "z = (if w \<ge> need + 32 then need else w) - 16"
  have "live (fst ?c) (xs @ carved need w @ ys) = insert (p, z) (live (fst ?c) (xs @ (w, False) # ys))"
    using n by (auto simp: live_carved p z_def) (auto simp: carved_def add.assoc split: if_splits)
  hence "heap_live s' (H[i := xs @ carved need w @ ys]) = insert (p, z) (heap_live s (H[i := H ! i]))"
    unfolding heap_live_update [OF i(1) len om(2)] heap_live_update [OF i(1) len refl, of s] by (simp add: H)
  moreover have "need - 16 \<le> z" using n by (auto simp: z_def)
  moreover have "(p, z) \<notin> heap_live s H"
  proof
    assume "(p, z) \<in> heap_live s H"
    then obtain j where j: "j < MM_CHUNK_MAX" "(p, z) \<in> live (fst (mm_chunks s ! j)) (H ! j)" "fst (mm_chunks s ! j) \<noteq> 0"
      "fst (mm_chunks s ! j) + 16 \<le> p" "p + z \<le> fst (mm_chunks s ! j) + snd (mm_chunks s ! j)" "16 \<le> z" using live_in_chunk [OF v] by metis
    have "j = i"
    proof (rule ccontr)
      assume "j \<noteq> i"
      hence "apart (mm_chunks s ! j) ?c" using v j(1,3) i by (simp add: heap_view_def)
      thus False using j(4,5,6) hl n unfolding p by (auto simp: apart_def)
    qed
    hence "(p, z) \<in> live (fst ?c) xs \<or> (p, z) \<in> live (?h + w) ys" using j(2) H by simp
    thus False using live_bounds [of "mem s" "fst ?c" 0 xs p z] live_bounds [of "mem s" "?h + w" w ys p z] b n unfolding p by (auto simp: blocks_def)
  qed
  ultimately show "\<exists>z \<ge> need - 16. heap_live s' (H[i := xs @ carved need w @ ys]) = insert (p, z) (heap_live s H) \<and> (p, z) \<notin> heap_live s H"
    by (metis list_update_id)
  show "payloads_kept (heap_live s H) s s'" unfolding payloads_kept_def
  proof (intro allI impI)
    fix q u x assume a: "(q, u) \<in> heap_live s H" "q \<le> x" "x < q + u"
    obtain j where j: "j < MM_CHUNK_MAX" "(q, u) \<in> live (fst (mm_chunks s ! j)) (H ! j)" "fst (mm_chunks s ! j) \<noteq> 0"
      "fst (mm_chunks s ! j) + 16 \<le> q" "q + u \<le> fst (mm_chunks s ! j) + snd (mm_chunks s ! j)" using live_in_chunk [OF v a(1)] by metis
    show "mem s' x = mem s x"
    proof (rule mem, cases "j = i")
      case True
      hence "(q, u) \<in> live (fst ?c) xs \<or> (q, u) \<in> live (?h + w) ys" using j(2) H by simp
      thus "x < ?h \<or> ?h + w + 16 \<le> x \<or> fst ?c + snd ?c \<le> x"
        using live_bounds [of "mem s" "fst ?c" 0 xs q u] live_bounds [of "mem s" "?h + w" w ys q u] b a(2,3) by (auto simp: blocks_def)
    next
      case False
      hence "apart (mm_chunks s ! j) ?c" using v j(1,3) i by (simp add: heap_view_def)
      thus "x < ?h \<or> ?h + w + 16 \<le> x \<or> fst ?c + snd ?c \<le> x" using j(4,5) a(2,3) by (auto simp: apart_def)
    qed
  qed
qed

subsection \<open>Growing the heap\<close>

lemma hdr_write_chunks [simp]: "mm_chunks (hdr_write h sz prev magic s) = mm_chunks s"
  by (simp add: hdr_write_def)

lemma find_slot:
  "case find (\<lambda>i. fst (mm_chunks s ! i) = 0) [0..<MM_CHUNK_MAX] of
     None \<Rightarrow> \<forall>i < MM_CHUNK_MAX. fst (mm_chunks s ! i) \<noteq> 0 | Some i \<Rightarrow> i < MM_CHUNK_MAX \<and> fst (mm_chunks s ! i) = 0"
  by (auto simp: find_None_iff find_Some_iff split: option.split)

text \<open>Pages of two chunks, one of them all used and the other all free, do not overlap.\<close>

lemma free_used_apart:
  assumes o: "owned s c" and f: "free_run s k f" "0 < k"
  shows "apart c (mm_base s + f * MM_PAGE, k * MM_PAGE)"
proof -
  obtain g j where g: "fst c = mm_base s + g * MM_PAGE" "snd c = j * MM_PAGE" "all_used s g j" using o by (auto simp: owned_def)
  have "g + j \<le> f \<or> f + k \<le> g"
  proof (rule ccontr)
    assume "\<not> (g + j \<le> f \<or> f + k \<le> g)"
    moreover define p where "p = max f g"
    ultimately have "g \<le> p" "p < g + j" "f \<le> p" "p < f + k" using f(2) g(3) by (auto simp: all_used_def max_def)
    thus False using f(1) g(3) by (auto simp: free_run_def all_used_def)
  qed
  hence "(g + j) * MM_PAGE \<le> f * MM_PAGE \<or> (f + k) * MM_PAGE \<le> g * MM_PAGE" by auto
  thus ?thesis using g by (auto simp: apart_def add_mult_distrib)
qed

lemma apart_sym: "apart c d = apart d c" by (auto simp: apart_def)

text \<open>The pages asked for to hold a block, and why there may be no new chunk.\<close>

definition chunk_pages :: "nat \<Rightarrow> nat" where
  "chunk_pages need = (let p = (need + MM_PAGE - 1) mod 2 ^ 32 div MM_PAGE in if p < MM_CHUNK_MIN_PG then MM_CHUNK_MIN_PG else p)"

definition no_chunk :: "mm \<Rightarrow> nat \<Rightarrow> bool" where
  "no_chunk s need \<longleftrightarrow> (\<forall>i < MM_CHUNK_MAX. fst (mm_chunks s ! i) \<noteq> 0) \<or> (\<forall>f. \<not> free_run s (chunk_pages need) f)"

lemma chunk_add_pages:
  assumes "0 < need" "need \<le> 2 ^ 30"
  defines "k \<equiv> chunk_pages need"
  shows "0 < k" "need \<le> k * MM_PAGE"
proof -
  have p: "(need + MM_PAGE - 1) mod 2 ^ 32 = need + 4095" using assms(1,2) by (simp add: MM_PAGE_def)
  have "need \<le> (need + 4095) div 4096 * 4096" using mult_div_mod_eq [of 4096 "need + 4095"] mod_less_divisor [of 4096 "need + 4095"] by linarith
  hence "need \<le> (need + 4095) div 4096 * MM_PAGE" by (simp add: MM_PAGE_def)
  moreover have "(need + 4095) div 4096 \<le> k" unfolding k_def chunk_pages_def Let_def p by (simp add: MM_PAGE_def)
  ultimately show "need \<le> k * MM_PAGE" by (meson le_trans mult_le_mono1)
  thus "0 < k" using assms(1) by (cases k) auto
qed

lemma pages_alloc_found:
  assumes ok: "mm_ok s" and n: "0 < n" and a: "mm_pages_alloc_z n False s = (r, s')"
  shows "r = 0 \<and> s' = s\<lparr>mm_stat_failed := (mm_stat_failed s + 1) mod 2 ^ 32\<rparr> \<and> (\<forall>f. \<not> free_run s n f) \<or>
    (\<exists>f. r = mm_base s + f * MM_PAGE \<and> r \<noteq> 0 \<and> free_run s n f \<and> mm_ok s' \<and> mm_base s' = mm_base s \<and> mm_npages s' = mm_npages s \<and>
       mm_bitmap_pages s' = mm_bitmap_pages s \<and> (\<forall>p < mm_npages s. mm_bit s' p = (mm_bit s p \<or> f \<le> p \<and> p < f + n)))"
  using ok n
proof (cases rule: alloc_cases [where zero = False])
  case fail
  thus ?thesis using a by auto
next
  case (found q)
  let ?f = "q + 1 - n"
  note t = take_run_result [OF ok found(2,3,4) n found(5), where zero = False]
  have e: "mm_take_run n False q s = (r, s')" using a found(1) by simp
  have "free_run s n ?f" using found(2-5) by (auto simp: free_run_def)
  thus ?thesis using t ok unfolding e by (intro disjI2 exI [of _ ?f]) (auto simp: mm_ok_def)
qed

lemma chunk_add_view:
  assumes v: "heap_view s H" and need: "0 < need" "need \<le> 2 ^ 30" and e: "mm_chunk_add need s = (r, s')"
  shows "r = None \<and> heap_view s' H \<and> heap_live s' H = heap_live s H \<and> mem s' = mem s \<and> no_chunk s need \<or>
    (\<exists>i k. r = Some i \<and> i < MM_CHUNK_MAX \<and> need \<le> k \<and> heap_view s' (H[i := [(k, False)]]) \<and>
       heap_live s' (H[i := [(k, False)]]) = heap_live s H \<and> payloads_kept (heap_live s H) s s')"
proof (cases "find (\<lambda>i. fst (mm_chunks s ! i) = 0) [0..<MM_CHUNK_MAX]")
  case None
  thus ?thesis using e v find_slot [of s] by (auto simp: mm_chunk_add_def no_chunk_def)
next
  case (Some i)
  have i: "i < MM_CHUNK_MAX" "fst (mm_chunks s ! i) = 0" using find_slot [of s] Some by simp_all
  have ok: "mm_ok s" and len: "length H = MM_CHUNK_MAX" "length (mm_chunks s) = MM_CHUNK_MAX" using v by (simp_all add: heap_view_def)
  have Hi: "H ! i = []" using v i by (simp add: heap_view_def chunk_view_def)
  define k where "k = chunk_pages need"
  have k: "0 < k" "need \<le> k * MM_PAGE" using chunk_add_pages [OF need] by (simp_all add: k_def)
  obtain b s1 where a: "mm_pages_alloc_z k False s = (b, s1)" by fastforce
  have r: "(r, s') = (if b = 0 then (None, s1)
      else (Some i, hdr_write b (k * MM_PAGE mod 2 ^ 32) 0 MM_MAGIC_FREE (s1\<lparr>mm_chunks := (mm_chunks s1)[i := (b, k * MM_PAGE mod 2 ^ 32)]\<rparr>)))"
    using e unfolding mm_chunk_add_def Some option.case Let_def k_def [unfolded chunk_pages_def Let_def, symmetric] a prod.case by simp
  from pages_alloc_found [OF ok k(1) a] show ?thesis
  proof
    assume f: "b = 0 \<and> s1 = s\<lparr>mm_stat_failed := (mm_stat_failed s + 1) mod 2 ^ 32\<rparr> \<and> (\<forall>f. \<not> free_run s k f)"
    hence s': "r = None" "s' = s\<lparr>mm_stat_failed := (mm_stat_failed s + 1) mod 2 ^ 32\<rparr>" using r by simp_all
    have "owned s' c = owned s c" for c unfolding s' by (simp add: owned_def all_used_def)
    hence "heap_view s' H" using v unfolding s' by (simp add: heap_view_def chunk_view_def)
    thus ?thesis using s' f by (simp add: heap_live_def no_chunk_def k_def)
  next
    assume "\<exists>f. b = mm_base s + f * MM_PAGE \<and> b \<noteq> 0 \<and> free_run s k f \<and> mm_ok s1 \<and> mm_base s1 = mm_base s \<and> mm_npages s1 = mm_npages s \<and>
       mm_bitmap_pages s1 = mm_bitmap_pages s \<and> (\<forall>p < mm_npages s. mm_bit s1 p = (mm_bit s p \<or> f \<le> p \<and> p < f + k))"
    then obtain f where f: "b = mm_base s + f * MM_PAGE" "b \<noteq> 0" "free_run s k f" "mm_ok s1" "mm_base s1 = mm_base s" "mm_npages s1 = mm_npages s"
       "mm_bitmap_pages s1 = mm_bitmap_pages s" "\<And>p. p < mm_npages s \<Longrightarrow> mm_bit s1 p = (mm_bit s p \<or> f \<le> p \<and> p < f + k)" by blast
    have fr: "mm_chunks s1 = mm_chunks s" "\<And>x. mm_first s \<le> x \<Longrightarrow> mem s1 x = mem s x" using pages_alloc_frame [OF ok k(1) a] by auto
    have "(f + k) * MM_PAGE \<le> mm_npages s * MM_PAGE" using f(3) by (simp add: free_run_def)
    hence top: "b + k * MM_PAGE < 2 ^ 32" using v f(1) by (simp add: heap_view_def add_mult_distrib)
    have bf: "mm_first s \<le> b" using f(1,3) by (simp add: mm_first_def free_run_def)
    let ?n = "k * MM_PAGE"
    have nw: "?n mod 2 ^ 32 = ?n" using top by simp
    have s': "r = Some i" "s' = hdr_write b ?n 0 MM_MAGIC_FREE (s1\<lparr>mm_chunks := (mm_chunks s)[i := (b, ?n)]\<rparr>)"
      using r f(2) fr(1) unfolding nw by simp_all
    have ps: "pages_same s1 s'" and ch: "mm_chunks s' = (mm_chunks s)[i := (b, ?n)]" by (simp_all add: s')
    have mem: "mem s' x = mem s1 x" if "x < b \<or> b + 16 \<le> x" for x using that by (auto simp: s')
    have F: "mm_first s1 = mm_first s" by (simp add: mm_first_def f)
    note S = same_bits_ok [OF f(4) ps]
    have ok': "mm_ok s'" and bit: "\<And>p. p < mm_npages s \<Longrightarrow> mm_bit s' p = (mm_bit s p \<or> f \<le> p \<and> p < f + k)"
      using S mem bf F f(6,8) by auto
    have fld: "mm_base s' = mm_base s" "mm_npages s' = mm_npages s" "mm_bitmap_pages s' = mm_bitmap_pages s" using ps f by (simp_all add: pages_same_def)
    have old: "owned s' (mm_chunks s ! j)" "apart (mm_chunks s ! j) (b, ?n)"
      "fst (mm_chunks s ! j) \<le> x \<Longrightarrow> x < fst (mm_chunks s ! j) + snd (mm_chunks s ! j) \<Longrightarrow> mem s' x = mem s x"
      if "j < MM_CHUNK_MAX" "fst (mm_chunks s ! j) \<noteq> 0" for j x
    proof -
      have o: "owned s (mm_chunks s ! j)" using view_blocks [OF v that] by blast
      show "owned s' (mm_chunks s ! j)" by (rule owned_same [OF o fld]) (use bit in auto)
      show ap: "apart (mm_chunks s ! j) (b, ?n)" using free_used_apart [OF o f(3) k(1)] f(1) by simp
      assume x: "fst (mm_chunks s ! j) \<le> x" "x < fst (mm_chunks s ! j) + snd (mm_chunks s ! j)"
      have "16 \<le> ?n" using k(1) by (simp add: MM_PAGE_def)
      hence "x < b \<or> b + 16 \<le> x" using ap x by (auto simp: apart_def)
      thus "mem s' x = mem s x" using mem fr(2) owned_range [OF o] x(1) by simp
    qed
    have new: "chunk_view s' i [(?n, False)]"
    proof -
      have "all_used s' f k" using f(3) k(1) bit by (auto simp: all_used_def free_run_def fld)
      hence "owned s' (b, ?n)" using f(1) by (auto simp: owned_def fld)
      moreover have "blocks (mem s') (b, ?n) [(?n, False)]"
        using top f(2) k(1) magic_lt by (simp add: blocks_def s' MM_PAGE_def)
      ultimately show ?thesis using i(1) len(2) f(2) by (simp add: chunk_view_def ch)
    qed
    have "chunk_view s' j (H[i := [(?n, False)]] ! j)" if j: "j < MM_CHUNK_MAX" for j
    proof (cases "j = i")
      case True
      thus ?thesis using new i(1) len by simp
    next
      case False
      show ?thesis
      proof (cases "fst (mm_chunks s ! j) = 0")
        case True
        thus ?thesis using v j False by (simp add: heap_view_def chunk_view_def ch)
      next
        case nz: False
        have cj: "blocks (mem s) (mm_chunks s ! j) (H ! j)" "merged (H ! j)" using view_blocks [OF v j nz] by blast+
        hence l: "layout (mem s) (fst (mm_chunks s ! j)) 0 (H ! j)" "snd (mm_chunks s ! j) = extent (H ! j)" by (simp_all add: blocks_def)
        have "layout (mem s') (fst (mm_chunks s ! j)) 0 (H ! j)" by (rule layout_cong [OF l(1)]) (use old(3) [OF j nz] l(2) in simp)
        thus ?thesis using cj old(1) [OF j nz] nz False by (simp add: chunk_view_def ch blocks_def)
      qed
    qed
    moreover have "apart (mm_chunks s' ! j) (mm_chunks s' ! l)"
      if "j < MM_CHUNK_MAX" "l < MM_CHUNK_MAX" "j \<noteq> l" "fst (mm_chunks s' ! j) \<noteq> 0" "fst (mm_chunks s' ! l) \<noteq> 0" for j l
    proof -
      have at: "mm_chunks s' ! m = (if m = i then (b, ?n) else mm_chunks s ! m)" if "m < MM_CHUNK_MAX" for m
        using that len by (simp add: ch nth_list_update)
      show ?thesis
      proof (cases "j = i \<or> l = i")
        case True
        thus ?thesis using that old(2) [of j] old(2) [of l] apart_sym [of "(b, ?n)" "mm_chunks s ! l"] by (auto simp: at)
      next
        case False
        hence "fst (mm_chunks s ! j) \<noteq> 0" "fst (mm_chunks s ! l) \<noteq> 0" using that by (simp_all add: at)
        thus ?thesis using that False v by (simp add: at heap_view_def)
      qed
    qed
    ultimately have "heap_view s' (H[i := [(?n, False)]])" using v ok' len by (simp add: heap_view_def fld ch)
    moreover have "heap_live s' (H[i := [(?n, False)]]) = heap_live s H"
    proof -
      have "live (fst (mm_chunks s' ! j)) (H[i := [(?n, False)]] ! j) = live (fst (mm_chunks s ! j)) (H ! j)" if "j < MM_CHUNK_MAX" for j
        using that i(1) Hi len by (cases "j = i") (simp_all add: ch)
      thus ?thesis by (simp add: heap_live_def)
    qed
    moreover have "payloads_kept (heap_live s H) s s'" unfolding payloads_kept_def
    proof (intro allI impI)
      fix q u x assume a: "(q, u) \<in> heap_live s H" "q \<le> x" "x < q + u"
      obtain j where "j < MM_CHUNK_MAX" "fst (mm_chunks s ! j) \<noteq> 0" "fst (mm_chunks s ! j) + 16 \<le> q" "q + u \<le> fst (mm_chunks s ! j) + snd (mm_chunks s ! j)"
        using live_in_chunk [OF v a(1)] by metis
      thus "mem s' x = mem s x" using old(3) a(2,3) by simp
    qed
    ultimately show ?thesis using s'(1) i(1) k(2) by blast
  qed
qed

subsection \<open>kmalloc\<close>

lemma mm_round:
  assumes "0 < n" "n \<le> MM_MAX_TOP div 2"
  shows "n \<le> mm_round n" "mm_round n mod 16 = 0" "16 \<le> mm_round n" "mm_round n < 2 ^ 29 + 16"
proof -
  have n: "n \<le> 536870912" using assms(2) by (simp add: MM_MAX_TOP_def)
  hence e: "mm_round n = (n + 15) div 16 * 16" by (simp add: mm_round_def)
  have d: "n + 15 = 16 * ((n + 15) div 16) + (n + 15) mod 16" "(n + 15) mod 16 < 16" by simp_all
  show "mm_round n mod 16 = 0" by (simp add: e)
  show "n \<le> mm_round n" unfolding e using d by linarith
  show "mm_round n < 2 ^ 29 + 16" unfolding e using d n by simp
  have "1 \<le> (n + 15) div 16" using assms(1) by (simp add: less_eq_div_iff_mult_less_eq)
  thus "16 \<le> mm_round n" unfolding e by simp
qed

definition alloc_result :: "nat \<Rightarrow> mm \<Rightarrow> (nat \<times> bool) list list \<Rightarrow> nat \<Rightarrow> mm \<Rightarrow> bool" where
  "alloc_result n s H p s' \<longleftrightarrow> (\<exists>H' z. heap_view s' H' \<and> p mod 16 = 0 \<and> 0 < p \<and> n \<le> z \<and>
     heap_live s' H' = insert (p, z) (heap_live s H) \<and> (p, z) \<notin> heap_live s H \<and> payloads_kept (heap_live s H) s s')"

lemma kmalloc_pass_view:
  assumes v: "heap_view s H" and f: "2 ^ 27 \<le> fuel" and need: "need = mm_round n + MM_HDR" "0 < n" "n \<le> MM_MAX_TOP div 2"
  shows "kmalloc_pass fuel need s = Some None \<and> (\<forall>i < MM_CHUNK_MAX. no_fit need (H ! i)) \<or>
    (\<exists>p s'. kmalloc_pass fuel need s = Some (Some (p, s')) \<and> alloc_result n s H p s')"
proof -
  note R = mm_round [OF need(2,3)]
  obtain r where r: "mm_find_pass fuel s need [0..<MM_CHUNK_MAX] = Some r"
    "r = Nothing \<and> (\<forall>i \<in> set [0..<MM_CHUNK_MAX]. no_fit need (H ! i)) \<or> (\<exists>i \<in> set [0..<MM_CHUNK_MAX]. fit_at s H need i r)"
  proof -
    have "set [0..<MM_CHUNK_MAX] \<subseteq> {..<MM_CHUNK_MAX}" by auto
    from find_pass [OF v f this, of need] show thesis using that by blast
  qed
  from r(2) show ?thesis
  proof
    assume "r = Nothing \<and> (\<forall>i \<in> set [0..<MM_CHUNK_MAX]. no_fit need (H ! i))"
    thus ?thesis using r(1) by (simp add: kmalloc_pass_def)
  next
    assume "\<exists>i \<in> set [0..<MM_CHUNK_MAX]. fit_at s H need i r"
    then obtain i xs w ys where i: "i < MM_CHUNK_MAX" "fst (mm_chunks s ! i) \<noteq> 0" "H ! i = xs @ (w, False) # ys" "need \<le> w"
      "r = Fit i (fst (mm_chunks s ! i) + extent xs)" by (auto simp: fit_at_def)
    have n: "32 \<le> need" "need mod 16 = 0" "need + 32 < 2 ^ 32" using R need(1) by (simp_all add: MM_HDR_def)
    obtain p s' where e: "mm_carve (mm_chunks s ! i) (fst (mm_chunks s ! i) + extent xs) need
        (s\<lparr>mm_stat_allocs := (mm_stat_allocs s + 1) mod 2 ^ 32\<rparr>) = (p, s')" by fastforce
    note C = carve_step [OF v i(1,2,3) n(1) i(4) n(2,3) e]
    have "n \<le> need - 16" using R(1) need(1) by (simp add: MM_HDR_def)
    hence "alloc_result n s H p s'" using C unfolding alloc_result_def by (meson le_trans)
    thus ?thesis using r(1) i(5) e by (simp add: kmalloc_pass_def)
  qed
qed

lemma kmalloc_correct:
  assumes "heap_view s H" "2 ^ 27 \<le> fuel"
  shows "\<exists>p s' H'. kmalloc fuel n s = Some (p, s') \<and> heap_view s' H' \<and> payloads_kept (heap_live s H) s s' \<and>
    (if p = 0 then heap_live s' H' = heap_live s H \<and>
        (n = 0 \<or> n > MM_MAX_TOP div 2 \<or> ((\<forall>i < MM_CHUNK_MAX. no_fit (mm_round n + MM_HDR) (H ! i)) \<and> no_chunk s (mm_round n + MM_HDR)))
     else p mod 16 = 0 \<and> (\<exists>z \<ge> n. heap_live s' H' = insert (p, z) (heap_live s H) \<and>
        (\<forall>q w. (q, w) \<in> heap_live s H \<longrightarrow> q + w \<le> p \<or> p + z \<le> q)))"
proof -
  have fin: ?thesis if k: "kmalloc fuel n s = Some (p, s')" and a: "alloc_result n s H p s'" for p s'
  proof -
    obtain H' z where h: "heap_view s' H'" "p mod 16 = 0" "0 < p" "n \<le> z" "heap_live s' H' = insert (p, z) (heap_live s H)"
      "(p, z) \<notin> heap_live s H" "payloads_kept (heap_live s H) s s'" using a by (auto simp: alloc_result_def)
    have "q + w \<le> p \<or> p + z \<le> q" if "(q, w) \<in> heap_live s H" for q w
      using heap_live_disjoint [OF h(1), of q w p z] that h(5,6) by auto
    thus ?thesis using k h by (intro exI [of _ p] exI [of _ s'] exI [of _ H']) auto
  qed
  have stat: "heap_view (t\<lparr>mm_stat_failed := a\<rparr>) G = heap_view t G" "heap_live (t\<lparr>mm_stat_failed := a\<rparr>) G = heap_live t G" for t a G
    by (simp_all add: heap_view_def chunk_view_def owned_def all_used_def heap_live_def)
  show ?thesis
  proof (cases "n = 0 \<or> n > MM_MAX_TOP div 2")
    case True
    have "kmalloc fuel n s = Some (0, mm_fail s)" unfolding kmalloc_def if_P [OF True] ..
    moreover have "payloads_kept (heap_live s H) s (mm_fail s)" by (simp add: payloads_kept_def mm_fail_def)
    ultimately show ?thesis using assms(1) True by (intro exI [of _ 0] exI [of _ "mm_fail s"] exI [of _ H]) (auto simp: mm_fail_def stat)
  next
    case F: False
    hence n: "0 < n" "n \<le> MM_MAX_TOP div 2" by simp_all
    let ?need = "mm_round n + MM_HDR"
    note R = mm_round [OF n]
    have need: "0 < ?need" "?need \<le> 2 ^ 30" using R by (simp_all add: MM_HDR_def)
    from kmalloc_pass_view [OF assms refl n] show ?thesis
    proof
      assume "\<exists>p s'. kmalloc_pass fuel ?need s = Some (Some (p, s')) \<and> alloc_result n s H p s'"
      then obtain p s' where p: "kmalloc_pass fuel ?need s = Some (Some (p, s'))" "alloc_result n s H p s'" by blast
      have "kmalloc fuel n s = Some (p, s')" unfolding kmalloc_def if_not_P [OF F] Let_def p(1) by simp
      thus ?thesis using fin p(2) by blast
    next
      assume nf: "kmalloc_pass fuel ?need s = Some None \<and> (\<forall>i < MM_CHUNK_MAX. no_fit ?need (H ! i))"
      obtain r s1 where c: "mm_chunk_add ?need s = (r, s1)" by fastforce
      from chunk_add_view [OF assms(1) need c] show ?thesis
      proof
        assume s1: "r = None \<and> heap_view s1 H \<and> heap_live s1 H = heap_live s H \<and> mem s1 = mem s \<and> no_chunk s ?need"
        have "kmalloc fuel n s = Some (0, mm_fail s1)"
          unfolding kmalloc_def if_not_P [OF F] Let_def conjunct1 [OF nf] option.case c using s1 by simp
        moreover have "payloads_kept (heap_live s H) s (mm_fail s1)" using s1 by (simp add: payloads_kept_def mm_fail_def)
        ultimately show ?thesis using s1 nf by (intro exI [of _ 0] exI [of _ "mm_fail s1"] exI [of _ H]) (auto simp: mm_fail_def stat)
      next
        assume "\<exists>i k. r = Some i \<and> i < MM_CHUNK_MAX \<and> ?need \<le> k \<and> heap_view s1 (H[i := [(k, False)]]) \<and>
          heap_live s1 (H[i := [(k, False)]]) = heap_live s H \<and> payloads_kept (heap_live s H) s s1"
        then obtain i k where i: "r = Some i" "i < MM_CHUNK_MAX" "?need \<le> k" "heap_view s1 (H[i := [(k, False)]])"
          "heap_live s1 (H[i := [(k, False)]]) = heap_live s H" "payloads_kept (heap_live s H) s s1" by blast
        have len: "length H = MM_CHUNK_MAX" using assms(1) by (simp add: heap_view_def)
        have "\<not> no_fit ?need (H[i := [(k, False)]] ! i)" using i(2,3) len by (simp add: no_fit_def)
        then obtain p s' where p: "kmalloc_pass fuel ?need s1 = Some (Some (p, s'))" "alloc_result n s1 (H[i := [(k, False)]]) p s'"
          using kmalloc_pass_view [OF i(4) assms(2) refl n] i(2) by blast
        have "kmalloc fuel n s = Some (p, s')"
          unfolding kmalloc_def if_not_P [OF F] Let_def conjunct1 [OF nf] option.case c using i(1) p(1) by simp
        moreover have "alloc_result n s H p s'"
          using p(2) i(5,6) unfolding alloc_result_def payloads_kept_def by metis
        ultimately show ?thesis using fin by blast
      qed
    qed
  qed
qed

text \<open>Claim C26. kmalloc is correct on every well-formed heap: with fuel for the largest chunk it returns; the heap it
  leaves is well-formed; if the pointer is not NULL it is 16-byte aligned and a new live block of at least n bytes,
  disjoint from every block live before, all of which keep their contents; if it is NULL the live blocks are as before and
  either the size was 0 or above 512 MB, or no free block was large enough and no chunk of enough pages could be added.\<close>

theorem kmalloc_exact:
  assumes "heap_view s H" "2 ^ 27 \<le> fuel"
  shows "\<exists>p s' H'. kmalloc fuel n s = Some (p, s') \<and> heap_view s' H' \<and> payloads_kept (heap_live s H) s s' \<and>
    (if p = 0 then heap_live s' H' = heap_live s H \<and>
        (n = 0 \<or> n > MM_MAX_TOP div 2 \<or> ((\<forall>i < MM_CHUNK_MAX. no_fit (mm_round n + MM_HDR) (H ! i)) \<and> no_chunk s (mm_round n + MM_HDR)))
     else p mod 16 = 0 \<and> (\<exists>z \<ge> n. heap_live s' H' = insert (p, z) (heap_live s H) \<and>
        (\<forall>q w. (q, w) \<in> heap_live s H \<longrightarrow> q + w \<le> p \<or> p + z \<le> q)))"
  by (rule kmalloc_correct [OF assms])

subsection \<open>kfree\<close>

definition in_chunk :: "mm \<Rightarrow> nat \<Rightarrow> nat \<Rightarrow> bool" where
  "in_chunk s p i \<longleftrightarrow> fst (mm_chunks s ! i) \<noteq> 0 \<and> fst (mm_chunks s ! i) + 16 \<le> p \<and> p < fst (mm_chunks s ! i) + snd (mm_chunks s ! i)"

lemma mm_chunk_of_eq: "mm_chunk_of s p = find (in_chunk s p) [0..<MM_CHUNK_MAX]"
  unfolding mm_chunk_of_def by (rule arg_cong [where f = "\<lambda>P. find P [0..<MM_CHUNK_MAX]"]) (auto simp: in_chunk_def MM_HDR_def fun_eq_iff case_prod_beta)

lemma chunk_of_Some: "mm_chunk_of s p = Some i \<Longrightarrow> i < MM_CHUNK_MAX \<and> in_chunk s p i"
  by (auto simp: mm_chunk_of_eq find_Some_iff)

lemma chunk_of:
  assumes v: "heap_view s H" and j: "j < MM_CHUNK_MAX" "in_chunk s p j"
  shows "mm_chunk_of s p = Some j"
proof -
  have un: "i = j" if "i < MM_CHUNK_MAX" "in_chunk s p i" for i
  proof (rule ccontr)
    assume "i \<noteq> j"
    hence "apart (mm_chunks s ! i) (mm_chunks s ! j)" using v that j by (simp add: in_chunk_def heap_view_def)
    thus False using that(2) j(2) by (auto simp: apart_def in_chunk_def)
  qed
  have "mm_chunk_of s p \<noteq> None" using j by (auto simp: mm_chunk_of_eq find_None_iff)
  then obtain i where i: "mm_chunk_of s p = Some i" by auto
  thus ?thesis using un chunk_of_Some [OF i] by simp
qed

text \<open>The list of blocks after a block is freed and merged with its free neighbours.\<close>

lemma coalesced:
  assumes m: "merged (xs @ (z, True) # ys)" and r: "merge_right z ys = (z1, ys')" and l: "merge_left xs z1 = (xs', z2)"
  shows "merged (xs' @ (z2, False) # ys')" "extent (xs' @ (z2, False) # ys') = extent (xs @ (z, True) # ys)"
    "\<And>a. live a (xs' @ (z2, False) # ys') = live a xs \<union> live (a + extent xs + z) ys"
    "extent xs' + z2 = extent xs + z1"
proof -
  have mx: "merged xs" and my: "merged ((z, True) # ys)" using m by (simp_all add: merged_append)
  have R: "merged ((z1, False) # ys')" "z1 + extent ys' = z + extent ys" "live (a + z1) ys' = live (a + z) ys" for a
  proof -
    consider "ys = []" | w u ys2 where "ys = (w, u) # ys2" by (metis neq_Nil_conv old.prod.exhaust)
    hence "merged ((z1, False) # ys') \<and> z1 + extent ys' = z + extent ys \<and> live (a + z1) ys' = live (a + z) ys"
    proof cases
      case (2 w u ys2)
      show ?thesis
      proof (cases u)
        case True
        thus ?thesis using r my 2 by (auto simp: merge_right_def)
      next
        case False
        have e: "z1 = z + w" "ys' = ys2" using r 2 False by (simp_all add: merge_right_def)
        have "merged ((w, False) # ys2)" using my 2 False by simp
        hence "merged ((z1, False) # ys2)" by (cases ys2) auto
        thus ?thesis using e 2 False by (simp add: add.assoc)
      qed
    qed (use r in \<open>simp add: merge_right_def\<close>)
    thus "merged ((z1, False) # ys')" "z1 + extent ys' = z + extent ys" "live (a + z1) ys' = live (a + z) ys" by simp_all
  qed
  have "merged (xs' @ (z2, False) # ys') \<and> extent xs' + z2 = extent xs + z1 \<and> (\<forall>a. live a xs' = live a xs)"
  proof (cases "xs \<noteq> [] \<and> \<not> snd (last xs)")
    case False
    hence "xs' = xs" "z2 = z1" using l by (auto simp: merge_left_def)
    thus ?thesis using False mx R(1) by (auto simp: merged_append)
  next
    case True
    then obtain v where xs: "xs = xs' @ [(v, False)]" and z2: "z2 = v + z1"
      using l by (cases xs rule: rev_cases) (auto simp: merge_left_def)
    have "merged ((z2, False) # ys')" using R(1) by (cases ys') auto
    moreover have "merged xs'" "xs' \<noteq> [] \<longrightarrow> snd (last xs')" using mx xs by (auto simp: merged_append)
    ultimately show ?thesis using xs z2 by (simp add: merged_append)
  qed
  hence A: "merged (xs' @ (z2, False) # ys')" "extent xs' + z2 = extent xs + z1" "\<And>a. live a xs' = live a xs" by simp_all
  show "merged (xs' @ (z2, False) # ys')" "extent xs' + z2 = extent xs + z1" by (rule A)+
  show "extent (xs' @ (z2, False) # ys') = extent (xs @ (z, True) # ys)" using R(2) A(2) by simp
  fix a
  have e: "a + extent xs' + z2 = a + extent xs + z1" using A(2) by simp
  have "live a (xs' @ (z2, False) # ys') = live a xs' \<union> live (a + extent xs' + z2) ys'" by simp
  also have "\<dots> = live a xs \<union> live (a + extent xs + z) ys" unfolding e R(3) A(3) ..
  finally show "live a (xs' @ (z2, False) # ys') = live a xs \<union> live (a + extent xs + z) ys" .
qed

text \<open>The part of kfree after its checks and before the chunk is given back.\<close>

definition kfree_merge :: "chunk \<Rightarrow> nat \<Rightarrow> mm \<Rightarrow> nat \<times> mm" where
  "kfree_merge c h s =
     (let s = st32 (h + 8) MM_MAGIC_FREE s;
          s = s\<lparr>mm_stat_frees := (mm_stat_frees s + 1) mod 2 ^ 32\<rparr>;
          s = kfree_merge_next c h s
      in kfree_merge_prev c h s)"

lemma kfree_merge_blocks:
  assumes b: "blocks (mem s) c (xs @ (z, True) # ys)" and h: "h = fst c + extent xs"
    and r: "merge_right z ys = (z1, ys')" and l: "merge_left xs z1 = (xs', z2)" and e: "kfree_merge c h s = (h', s')"
  shows "h' = fst c + extent xs'" "pages_same s s'" "mm_chunks s' = mm_chunks s" "blocks (mem s') c (xs' @ (z2, False) # ys')"
    "\<And>x. x < fst c + extent xs' \<or> h + z1 + 16 \<le> x \<or> fst c + snd c \<le> x \<Longrightarrow> mem s' x = mem s x"
    "ld32 (mem s') (h + 8) \<noteq> MM_MAGIC_USED"
proof -
  let ?s1 = "st32 (h + 8) MM_MAGIC_FREE s"
  let ?s2 = "?s1\<lparr>mm_stat_frees := (mm_stat_frees ?s1 + 1) mod 2 ^ 32\<rparr>"
  let ?s3 = "kfree_merge_next c h ?s2"
  have L: "layout (mem s) (fst c) 0 (xs @ [(z, True)] @ ys)" and ex: "snd c = extent xs + z + extent ys" "fst c + snd c < 2 ^ 32" "fst c \<noteq> 0"
    using b by (simp_all add: blocks_def)
  have hz: "ld32 (mem s) h = z" "ld32 (mem s) (h + 4) = before 0 xs" "32 \<le> z" "z mod 16 = 0" "layout (mem s) (h + z) z ys"
    using L by (simp_all add: h)
  have "layout (mem ?s1) (fst c) 0 (xs @ [(z, False)] @ ys)"
  proof (rule layout_replace [OF L])
    show "layout (mem ?s1) (fst c + extent xs) (before 0 xs) [(z, False)]"
      using hz magic_lt by (simp add: h)
    fix x
    show "mem ?s1 x = mem s x" if "x < fst c + extent xs" using that by (simp add: h)
    assume x: "ys \<noteq> []" "fst c + extent xs + extent [(z, True)] \<le> x"
    obtain w v ws where ys: "ys = (w, v) # ws" using x(1) by (cases ys) auto
    have "ld32 (mem s) (h + z + 4) = z" using hz(5) ys by simp
    thus "mem ?s1 x = mst32 (fst c + extent xs + extent [(z, True)] + 4) (before 0 [(z, False)]) (mem s) x"
      using x(2) hz(3) by (simp add: h [symmetric] add.assoc [symmetric] mst32_id)
  qed simp_all
  hence b2: "blocks (mem ?s2) c (xs @ (z, False) # ys)" using ex by (simp add: blocks_def)
  note N = merge_next_blocks [OF b2 h r]
  note P = merge_prev_blocks [OF N(2) h l]
  have e': "kfree_merge_prev c h ?s3 = (h', s')" using e by (simp add: kfree_merge_def Let_def)
  note P' = P [unfolded e' fst_conv snd_conv]
  show "h' = fst c + extent xs'" "blocks (mem s') c (xs' @ (z2, False) # ys')" "ld32 (mem s') (h + 8) \<noteq> MM_MAGIC_USED"
    using P'(1,3,5) by simp_all
  have s3: "pages_same ?s2 ?s3" "mm_chunks ?s3 = mm_chunks ?s2" using only_mem_pages [OF N(1)] by simp_all
  have s4: "pages_same ?s3 s'" "mm_chunks s' = mm_chunks ?s3" using only_mem_pages [OF P'(2)] by simp_all
  show "pages_same s s'" using pages_same_trans [OF pages_same_trans [OF _ s3(1)] s4(1), of s] by simp
  show "mm_chunks s' = mm_chunks s" using s3(2) s4(2) by simp
  fix x assume x: "x < fst c + extent xs' \<or> h + z1 + 16 \<le> x \<or> fst c + snd c \<le> x"
  have le: "extent xs' \<le> extent xs" using l by (auto simp: merge_left_def split: if_splits) (metis append_butlast_last_id extent_simps(3) le_add1)
  have z1: "z \<le> z1" using r by (auto simp: merge_right_def split: list.splits if_splits)
  have "mem s' x = mem ?s3 x" using P'(4) x by blast
  also have "\<dots> = mem ?s2 x" using N(3) [of x] x le h by linarith
  also have "\<dots> = mem s x"
  proof -
    have "h + 16 \<le> fst c + snd c" using ex hz(3) by (simp add: h)
    hence "x < h + 8 \<or> h + 8 + 4 \<le> x" using x le h z1 by linarith
    thus ?thesis by simp
  qed
  finally show "mem s' x = mem s x" .
qed

text \<open>Giving a chunk's pages back. Page p lies in the chunk c.\<close>

definition in_pages :: "mm \<Rightarrow> chunk \<Rightarrow> nat \<Rightarrow> bool" where
  "in_pages s c p \<longleftrightarrow> fst c \<le> mm_base s + p * MM_PAGE \<and> mm_base s + p * MM_PAGE < fst c + snd c"

lemma release_view:
  assumes v: "heap_view s H" and i: "i < MM_CHUNK_MAX" "fst (mm_chunks s ! i) \<noteq> 0" and H: "H ! i = [(z, False)]"
    and e: "s' = snd (mm_pages_free (fst (mm_chunks s ! i)) (snd (mm_chunks s ! i) div MM_PAGE) (s\<lparr>mm_chunks := (mm_chunks s)[i := (0, 0)]\<rparr>))"
  shows "heap_view s' (H[i := []])" "mm_chunks s' = (mm_chunks s)[i := (0, 0)]" "\<And>x. mm_first s \<le> x \<Longrightarrow> mem s' x = mem s x"
    "\<And>p. mm_bit s' p \<longleftrightarrow> mm_bit s p \<and> \<not> in_pages s (mm_chunks s ! i) p"
proof -
  let ?s = "s\<lparr>mm_chunks := (mm_chunks s)[i := (0, 0)]\<rparr>" and ?c = "mm_chunks s ! i"
  have ok: "mm_ok s" and len: "length H = MM_CHUNK_MAX" "length (mm_chunks s) = MM_CHUNK_MAX" using v by (simp_all add: heap_view_def)
  have own: "owned s ?c" using view_blocks [OF v i] by blast
  obtain f k where f: "fst ?c = mm_base s + f * MM_PAGE" "snd ?c = k * MM_PAGE" "all_used s f k" using own by (auto simp: owned_def)
  have ok': "mm_ok ?s" using ok by (simp add: mm_ok_def free_set_def mm_bit_def)
  have u: "all_used ?s f k" using f(3) by (simp add: all_used_def mm_bit_def)
  have kk: "snd ?c div MM_PAGE = k" using f(2) by (simp add: MM_PAGE_def)
  have fr: "mm_base ?s + f * MM_PAGE = fst ?c" using f(1) by simp
  note F = free_ok_result [OF ok' u, unfolded fr]
  have s': "s' = snd (mm_pages_free (fst ?c) k ?s)" using e kk by simp
  have fp: "fst ?c < 2 ^ 32" "k \<le> 2 ^ 31" using owned_range [OF own] v f ok by (auto simp: heap_view_def all_used_def mm_ok_def)
  obtain r where r: "mm_pages_free (fst ?c) k ?s = (r, s')" using s' by (metis prod.collapse)
  note G = pages_free_frame [OF ok' fp r]
  show ch: "mm_chunks s' = (mm_chunks s)[i := (0, 0)]" using G(1) by simp
  show mem: "\<And>x. mm_first s \<le> x \<Longrightarrow> mem s' x = mem s x" using G(2) by (simp add: mm_first_def)
  have bit: "mm_bit s' p = (mm_bit s p \<and> \<not> (f \<le> p \<and> p < f + k))" for p using F(2) s' by (simp add: mm_bit_def)
  have "in_pages s ?c p \<longleftrightarrow> f \<le> p \<and> p < f + k" for p using f(1,2) by (auto simp: in_pages_def MM_PAGE_def)
  thus "mm_bit s' p \<longleftrightarrow> mm_bit s p \<and> \<not> in_pages s ?c p" for p using bit by simp
  have fld: "mm_base s' = mm_base s" "mm_npages s' = mm_npages s" "mm_bitmap_pages s' = mm_bitmap_pages s" "mm_ok s'"
    using F(3-6) s' by simp_all
  have "chunk_view s' j (H[i := []] ! j)" if j: "j < MM_CHUNK_MAX" for j
  proof (cases "j = i")
    case True
    thus ?thesis using i(1) len by (simp add: chunk_view_def ch)
  next
    case False
    show ?thesis
    proof (cases "fst (mm_chunks s ! j) = 0")
      case True
      thus ?thesis using v j False by (simp add: heap_view_def chunk_view_def ch)
    next
      case nz: False
      have cj: "blocks (mem s) (mm_chunks s ! j) (H ! j)" "merged (H ! j)" "owned s (mm_chunks s ! j)" using view_blocks [OF v j nz] by blast+
      have ap: "apart (mm_chunks s ! j) ?c" using v j i nz False by (simp add: heap_view_def)
      have "owned s' (mm_chunks s ! j)"
      proof (rule owned_same [OF cj(3) fld(1-3)])
        fix p assume p: "mm_base s + p * MM_PAGE \<ge> fst (mm_chunks s ! j)" "mm_base s + p * MM_PAGE < fst (mm_chunks s ! j) + snd (mm_chunks s ! j)" "mm_bit s p"
        have "\<not> (f \<le> p \<and> p < f + k)"
        proof
          assume q: "f \<le> p \<and> p < f + k"
          have "f * MM_PAGE \<le> p * MM_PAGE" "p * MM_PAGE < (f + k) * MM_PAGE" using q by (simp_all add: MM_PAGE_def)
          hence "fst ?c \<le> mm_base s + p * MM_PAGE" "mm_base s + p * MM_PAGE < fst ?c + snd ?c" using f by (simp_all add: add_mult_distrib)
          thus False using ap p by (auto simp: apart_def)
        qed
        thus "mm_bit s' p" using bit p(3) by simp
      qed
      moreover have "layout (mem s') (fst (mm_chunks s ! j)) 0 (H ! j)"
      proof (rule layout_cong [of "mem s"])
        show "layout (mem s) (fst (mm_chunks s ! j)) 0 (H ! j)" using cj(1) by (simp add: blocks_def)
      qed (use mem owned_range [OF cj(3)] in simp)
      ultimately show ?thesis using cj nz False by (simp add: chunk_view_def ch blocks_def)
    qed
  qed
  moreover have "apart (mm_chunks s' ! j) (mm_chunks s' ! l)"
    if "j < MM_CHUNK_MAX" "l < MM_CHUNK_MAX" "j \<noteq> l" "fst (mm_chunks s' ! j) \<noteq> 0" "fst (mm_chunks s' ! l) \<noteq> 0" for j l
  proof -
    have "j \<noteq> i" "l \<noteq> i" using that len i(1) by (auto simp: ch)
    thus ?thesis using that v by (simp add: ch heap_view_def)
  qed
  ultimately show "heap_view s' (H[i := []])" using v fld len by (simp add: heap_view_def ch)
qed

lemma bad_free_simps [simp]: "fst (mm_bad_free s) = False" by (simp add: mm_bad_free_def)

text \<open>A chunk without live blocks is one free block.\<close>

lemma no_live: "merged bs \<Longrightarrow> live a bs = {} \<Longrightarrow> bs = [] \<or> (\<exists>z. bs = [(z, False)])"
proof (induction bs arbitrary: a rule: merged.induct)
  case (1 z u w v bs)
  have "u = False" "v = False" using "1.prems"(2) by (auto split: if_splits)
  thus ?case using "1.prems"(1) by simp
qed (auto split: if_splits)

text \<open>The block at p with z bytes is the only live one of the chunk in slot i, which is not the first.\<close>

definition last_block :: "mm \<Rightarrow> (nat \<times> bool) list list \<Rightarrow> nat \<Rightarrow> nat \<Rightarrow> nat \<Rightarrow> bool" where
  "last_block s H p z i \<longleftrightarrow> i \<noteq> 0 \<and> i < MM_CHUNK_MAX \<and> live (fst (mm_chunks s ! i)) (H ! i) = {(p, z)}"

lemma kfree_correct:
  assumes "heap_view s H" "(p, z) \<in> heap_live s H" "kfree p s = (ok, s')"
  shows "ok \<and> (\<exists>H'. heap_view s' H' \<and> heap_live s' H' = heap_live s H - {(p, z)}) \<and>
    payloads_kept (heap_live s H - {(p, z)}) s s' \<and> \<not> fst (kfree p s') \<and>
    (\<forall>j < MM_CHUNK_MAX. mm_chunks s' ! j = (if last_block s H p z j then (0, 0) else mm_chunks s ! j)) \<and>
    (\<forall>q < mm_npages s. mm_bit s' q \<longleftrightarrow> mm_bit s q \<and> \<not> (\<exists>j. last_block s H p z j \<and> in_pages s (mm_chunks s ! j) q))"
proof -
  obtain i where i: "i < MM_CHUNK_MAX" "(p, z) \<in> live (fst (mm_chunks s ! i)) (H ! i)" "fst (mm_chunks s ! i) \<noteq> 0"
    "fst (mm_chunks s ! i) + 16 \<le> p" "p + z \<le> fst (mm_chunks s ! i) + snd (mm_chunks s ! i)" "16 \<le> z"
    using live_in_chunk [OF assms(1,2)] by metis
  let ?c = "mm_chunks s ! i"
  have b: "blocks (mem s) ?c (H ! i)" "merged (H ! i)" "owned s ?c" using view_blocks [OF assms(1) i(1,3)] by blast+
  hence L: "layout (mem s) (fst ?c) 0 (H ! i)" "snd ?c = extent (H ! i)" "fst ?c + snd ?c < 2 ^ 32" by (simp_all add: blocks_def)
  obtain xs ys where H: "H ! i = xs @ (z + 16, True) # ys" and p: "p = fst ?c + extent xs + 16" using live_split [OF L(1) i(2)] by blast
  define h where "h = fst ?c + extent xs"
  have ph: "p - MM_HDR = h" "p \<noteq> 0" using p by (simp_all add: h_def MM_HDR_def)
  have hz: "ld32 (mem s) h = z + 16" "ld32 (mem s) (h + 8) = MM_MAGIC_USED" using L(1) H by (simp_all add: h_def)
  have co: "mm_chunk_of s p = Some i" using i by (intro chunk_of [OF assms(1)]) (auto simp: in_chunk_def)
  have al: "(p - fst ?c) mod 16 = 0"
  proof -
    have "16 dvd extent xs" using layout_extent_16 [of "mem s" "fst ?c" 0 xs] L(1) H by (simp add: dvd_eq_mod_eq_0)
    moreover have "p - fst ?c = extent xs + 16" using p by simp
    ultimately show ?thesis by (simp add: dvd_eq_mod_eq_0 [symmetric])
  qed
  obtain z1 ys' where R: "merge_right (z + 16) ys = (z1, ys')" by fastforce
  obtain xs' z2 where Lft: "merge_left xs z1 = (xs', z2)" by fastforce
  obtain h' s1 where M: "kfree_merge ?c h s = (h', s1)" by fastforce
  note K = kfree_merge_blocks [OF b(1) [unfolded H] h_def R Lft M]
  note C = coalesced [OF b(2) [unfolded H] R Lft]
  have len: "length H = MM_CHUNK_MAX" "length (mm_chunks s) = MM_CHUNK_MAX" using assms(1) by (simp_all add: heap_view_def)
  have nb: "\<not> (hdr_magic s h \<noteq> MM_MAGIC_USED \<or> hdr_size s h < MM_HDR + 16 \<or> (h + hdr_size s h) mod 2 ^ 32 > fst ?c + snd ?c)"
    using hz i(6) L H by (simp add: MM_HDR_def h_def)
  have e: "kfree p s = (True, kfree_release i h' s1)"
    using M unfolding kfree_def co option.case Let_def ph(1) if_not_P [OF ph(2)] if_not_P [OF nb]
    by (simp add: al kfree_merge_def Let_def)
  let ?bs = "xs' @ (z2, False) # ys'"
  have mem1: "mem s1 x = mem s x" if "x < fst ?c + extent xs' \<or> h + z1 + 16 \<le> x \<or> fst ?c + snd ?c \<le> x" for x using K(5) that by blast
  have v1: "heap_view s1 (H[i := ?bs])"
  proof (rule heap_update [OF assms(1) i(1,3) K(2,3)])
    show "mem s1 x = mem s x" if "x < fst ?c \<or> fst ?c + snd ?c \<le> x" for x using that by (intro mem1) auto
  qed (use K(4) C(1) in auto)
  have lv: "live (fst ?c) ?bs = live (fst ?c) (H ! i) - {(p, z)}"
  proof -
    have l2: "layout (mem s) (fst ?c) 0 xs" "layout (mem s) (fst ?c + extent xs + (z + 16)) (z + 16) ys" using L(1) H by simp_all
    have "(p, z) \<notin> live (fst ?c) xs" "(p, z) \<notin> live (fst ?c + extent xs + (z + 16)) ys"
      using live_bounds [OF l2(1), of p z] live_bounds [OF l2(2), of p z] p by auto
    thus ?thesis unfolding C(3) H using p by auto
  qed
  have lo: "(p, z) \<notin> live (fst (mm_chunks s ! j)) (H ! j)" if j: "j < MM_CHUNK_MAX" "j \<noteq> i" for j
  proof
    assume a: "(p, z) \<in> live (fst (mm_chunks s ! j)) (H ! j)"
    have nz: "fst (mm_chunks s ! j) \<noteq> 0"
    proof
      assume "fst (mm_chunks s ! j) = 0"
      hence "H ! j = []" using assms(1) j(1) by (simp add: heap_view_def chunk_view_def)
      thus False using a by simp
    qed
    have "blocks (mem s) (mm_chunks s ! j) (H ! j)" using view_blocks [OF assms(1) j(1) nz] by blast
    hence "fst (mm_chunks s ! j) + 16 \<le> p \<and> p + z \<le> fst (mm_chunks s ! j) + snd (mm_chunks s ! j)"
      using live_bounds [OF _ a] by (auto simp: blocks_def)
    moreover have "apart (mm_chunks s ! j) ?c" using assms(1) j nz i(1,3) by (simp add: heap_view_def)
    ultimately show False using i(4-6) by (auto simp: apart_def)
  qed
  have live1: "heap_live s1 (H[i := ?bs]) = heap_live s H - {(p, z)}"
  proof -
    have "heap_live s H = live (fst ?c) (H ! i) \<union> (\<Union>j \<in> {..<MM_CHUNK_MAX} - {i}. live (fst (mm_chunks s ! j)) (H ! j))"
      using heap_live_update [OF i(1) len(1) refl, of s "H ! i"] by simp
    thus ?thesis using lo unfolding heap_live_update [OF i(1) len(1) K(3)] lv by auto
  qed
  have keep1: "payloads_kept (heap_live s H - {(p, z)}) s s1" unfolding payloads_kept_def
  proof (intro allI impI)
    fix q u x assume a: "(q, u) \<in> heap_live s H - {(p, z)}" "q \<le> x" "x < q + u"
    have "(q, u) \<in> heap_live s1 (H[i := ?bs])" using a(1) live1 by simp
    then obtain j where j: "j < MM_CHUNK_MAX" "(q, u) \<in> live (fst (mm_chunks s ! j)) (H[i := ?bs] ! j)" "fst (mm_chunks s ! j) \<noteq> 0"
      "fst (mm_chunks s ! j) + 16 \<le> q" "q + u \<le> fst (mm_chunks s ! j) + snd (mm_chunks s ! j)"
      using live_in_chunk [OF v1, of q u] unfolding K(3) by metis
    show "mem s1 x = mem s x"
    proof (rule mem1, cases "j = i")
      case True
      have l1: "layout (mem s1) (fst ?c) 0 ?bs" using K(4) by (simp add: blocks_def)
      have "(q, u) \<in> live (fst ?c) xs' \<or> (q, u) \<in> live (fst ?c + extent xs' + z2) ys'" using j(2) True i(1) len by simp
      moreover have "fst ?c + extent xs' + z2 = h + z1" using C(4) by (simp add: h_def)
      ultimately show "x < fst ?c + extent xs' \<or> h + z1 + 16 \<le> x \<or> fst ?c + snd ?c \<le> x"
        using live_bounds [of "mem s1" "fst ?c" 0 xs' q u] live_bounds [of "mem s1" "fst ?c + extent xs' + z2" z2 ys' q u] l1 a(2,3) by auto
    next
      case False
      hence "apart (mm_chunks s ! j) ?c" using assms(1) j(1,3) i(1,3) by (simp add: heap_view_def)
      thus "x < fst ?c + extent xs' \<or> h + z1 + 16 \<le> x \<or> fst ?c + snd ?c \<le> x" using j(4,5) a(2,3) by (auto simp: apart_def)
    qed
  qed
  have bit1: "mm_bit s1 q = mm_bit s q" if "q < mm_npages s" for q
  proof -
    have ok: "mm_ok s" using assms(1) by (simp add: heap_view_def)
    have "mm_first s \<le> fst ?c" using owned_range [OF b(3)] by blast
    hence "mem s1 (mm_base s + q div 8) = mem s (mm_base s + q div 8)" using below_first [OF ok that] by (intro mem1) auto
    moreover have "mm_base s1 = mm_base s" using K(2) by (simp add: pages_same_def)
    ultimately show ?thesis by (simp add: mm_bit_def)
  qed
  have lb: "last_block s H p z j \<longleftrightarrow> j = i \<and> i \<noteq> 0 \<and> live (fst ?c) ?bs = {}" for j
  proof (cases "j = i")
    case True thus ?thesis using i(1,2) unfolding lv last_block_def by auto
  next
    case False thus ?thesis using lo unfolding last_block_def by blast
  qed
  have z2h: "hdr_size s1 h' = z2" using K(1,4) by (simp add: blocks_def)
  have ex2: "extent ?bs = snd ?c" using C(2) L(2) H by simp
  show ?thesis
  proof (cases "hdr_size s1 h' = snd ?c \<and> i \<noteq> 0")
    case False
    have "\<not> last_block s H p z j" for j
    proof
      assume "last_block s H p z j"
      hence "i \<noteq> 0" "live (fst ?c) ?bs = {}" using lb by blast+
      then obtain y where "?bs = [(y, False)]" using no_live [OF C(1), of "fst ?c"] by blast
      hence "z2 = snd ?c" using ex2 by (cases xs') auto
      thus False using False z2h \<open>i \<noteq> 0\<close> by simp
    qed note nl = this
    have r: "kfree_release i h' s1 = s1" using False by (auto simp: kfree_release_def K(3) case_prod_beta)
    have "\<not> fst (kfree p s1)"
    proof -
      have "mm_chunk_of s1 p = Some i" using i by (intro chunk_of [OF v1]) (auto simp: in_chunk_def K(3))
      thus ?thesis using K(6) ph by (simp add: kfree_def Let_def)
    qed
    thus ?thesis using e r assms(3) v1 live1 keep1 nl bit1 K(3) by auto
  next
    case True
    have z2: "z2 = snd ?c" using True z2h by simp
    hence "extent xs' = 0" "extent ys' = 0" using ex2 by simp_all
    moreover have "layout (mem s1) (fst ?c) 0 xs'" "layout (mem s1) (fst ?c + extent xs' + z2) z2 ys'" using K(4) by (simp_all add: blocks_def)
    ultimately have em: "xs' = []" "ys' = []" using layout_extent_pos by fastforce+
    have Hi: "H[i := ?bs] ! i = [(z2, False)]" using em i(1) len by simp
    have r: "kfree_release i h' s1 =
        snd (mm_pages_free (fst (mm_chunks s1 ! i)) (snd (mm_chunks s1 ! i) div MM_PAGE) (s1\<lparr>mm_chunks := (mm_chunks s1)[i := (0, 0)]\<rparr>))"
      using True by (simp add: kfree_release_def K(3) case_prod_beta Let_def)
    have s': "s' = kfree_release i h' s1" and okT: ok using e assms(3) by auto
    note V = release_view [OF v1 i(1) _ Hi, of s']
    have nz1: "fst (mm_chunks s1 ! i) \<noteq> 0" using i(3) K(3) by simp
    have v2: "heap_view s' (H[i := ?bs, i := []])" and ch: "mm_chunks s' = (mm_chunks s1)[i := (0, 0)]"
      and mem2: "\<And>x. mm_first s1 \<le> x \<Longrightarrow> mem s' x = mem s1 x" and bit2: "\<And>q. mm_bit s' q \<longleftrightarrow> mm_bit s1 q \<and> \<not> in_pages s1 (mm_chunks s1 ! i) q"
      using V nz1 s' r by simp_all
    have live2: "heap_live s' (H[i := ?bs, i := []]) = heap_live s1 (H[i := ?bs])"
    proof -
      have "live (fst (mm_chunks s' ! j)) (H[i := ?bs, i := []] ! j) = live (fst (mm_chunks s1 ! j)) (H[i := ?bs] ! j)" if "j < MM_CHUNK_MAX" for j
        using that i(1) len em by (cases "j = i") (simp_all add: ch)
      thus ?thesis by (simp add: heap_live_def)
    qed
    have keep2: "payloads_kept (heap_live s H - {(p, z)}) s s'" unfolding payloads_kept_def
    proof (intro allI impI)
      fix q u x assume a: "(q, u) \<in> heap_live s H - {(p, z)}" "q \<le> x" "x < q + u"
      have "(q, u) \<in> heap_live s1 (H[i := ?bs])" using a(1) live1 by simp
      then obtain j where j: "j < MM_CHUNK_MAX" "fst (mm_chunks s1 ! j) \<noteq> 0" "fst (mm_chunks s1 ! j) + 16 \<le> q"
        using live_in_chunk [OF v1, of q u] by metis
      have "mm_first s1 \<le> fst (mm_chunks s1 ! j)" using owned_range view_blocks [OF v1 j(1,2)] by blast
      hence "mem s' x = mem s1 x" using mem2 j(3) a(2) by simp
      thus "mem s' x = mem s x" using keep1 a unfolding payloads_kept_def by metis
    qed
    have "\<not> fst (kfree p s')"
    proof -
      have "mm_chunk_of s' p = None"
      proof (rule ccontr)
        assume "mm_chunk_of s' p \<noteq> None"
        then obtain j where j: "j < MM_CHUNK_MAX" "in_chunk s' p j" using chunk_of_Some by blast
        have "j \<noteq> i" using j i(1) len by (auto simp: in_chunk_def ch K(3))
        hence "in_chunk s p j" "apart (mm_chunks s ! j) ?c" using j assms(1) i(1,3) by (auto simp: in_chunk_def ch K(3) heap_view_def)
        thus False using i(4-6) by (auto simp: in_chunk_def apart_def)
      qed
      thus ?thesis using ph(2) by (simp add: kfree_def)
    qed
    moreover have "last_block s H p z j \<longleftrightarrow> j = i" for j using lb [of j] True em by simp
    moreover have "mm_base s1 = mm_base s" using K(2) by (simp add: pages_same_def)
    moreover have "mm_chunks s' ! j = (if j = i then (0, 0) else mm_chunks s ! j)" if "j < MM_CHUNK_MAX" for j
      using that len by (simp add: ch K(3) nth_list_update)
    moreover have "mm_bit s' q \<longleftrightarrow> mm_bit s q \<and> \<not> in_pages s ?c q" if "q < mm_npages s" for q
      using bit2 bit1 [OF that] calculation(3) by (simp add: in_pages_def K(3))
    ultimately show ?thesis using okT v2 live2 live1 keep2 by auto
  qed
qed


text \<open>Claim C27. kfree is correct on every live block of a well-formed heap: it returns 1, the heap it leaves (free neighbours
  merged) is well-formed, exactly that block is gone, every other live block keeps its contents, and freeing the same pointer
  again is refused. When the block was the last live one of a chunk other than the first, the chunk's slot is emptied and exactly
  the pages of that chunk become free; otherwise no slot and no page of the bitmap changes.\<close>

theorem kfree_exact:
  assumes "heap_view s H" "(p, z) \<in> heap_live s H" "kfree p s = (ok, s')"
  shows "ok \<and> (\<exists>H'. heap_view s' H' \<and> heap_live s' H' = heap_live s H - {(p, z)}) \<and>
    payloads_kept (heap_live s H - {(p, z)}) s s' \<and> \<not> fst (kfree p s') \<and>
    (\<forall>j < MM_CHUNK_MAX. mm_chunks s' ! j = (if last_block s H p z j then (0, 0) else mm_chunks s ! j)) \<and>
    (\<forall>q < mm_npages s. mm_bit s' q \<longleftrightarrow> mm_bit s q \<and> \<not> (\<exists>j. last_block s H p z j \<and> in_pages s (mm_chunks s ! j) q))"
  by (rule kfree_correct [OF assms])

subsection \<open>A fresh heap\<close>

lemma init_chunks: "mm_init_region base len s = (True, s') \<Longrightarrow> mm_chunks s' = replicate MM_CHUNK_MAX (0, 0)"
  by (auto simp: mm_init_region_def Let_def split: if_splits)

text \<open>A region the bitmap is large enough for starts as an empty well-formed heap.\<close>

lemma init_heap_view:
  assumes "mm_init_region base len s = (True, s')" "mm_ok s'" "base + len < 2 ^ 32"
  shows "heap_view s' (replicate MM_CHUNK_MAX [])" "heap_live s' (replicate MM_CHUNK_MAX []) = {}"
proof -
  have "mm_npages s' * MM_PAGE \<le> len" "mm_base s' = base" using init_state(1,2) [OF assms(1)] by simp_all
  thus "heap_view s' (replicate MM_CHUNK_MAX [])" using assms(2,3) init_chunks [OF assms(1)] by (simp add: heap_view_def chunk_view_def)
  show "heap_live s' (replicate MM_CHUNK_MAX []) = {}" by (simp add: heap_live_def)
qed

definition heap_demo :: mm where "heap_demo = snd (mm_init_region 4096 262144 mm_zero)"

lemma heap_demo_eq: "mm_init_region 4096 262144 mm_zero = (True, heap_demo)"
  by (simp add: heap_demo_def mm_init_region_def MM_PAGE_def Let_def)

lemma heap_demo_view: "heap_view heap_demo (replicate MM_CHUNK_MAX [])" "heap_live heap_demo (replicate MM_CHUNK_MAX []) = {}"
  using init_heap_view [OF heap_demo_eq] init_ok [OF heap_demo_eq] by (simp_all add: MM_PAGE_def)

lemma heap_demo_run: "free_run heap_demo 16 1"
proof -
  have st: "mm_npages heap_demo = 64" "mm_bitmap_pages heap_demo = 1" using init_state(2,3) [OF heap_demo_eq] by (simp_all add: MM_PAGE_def)
  have "mm_bit heap_demo q = (q < 1)" if "q < 64" for q using init_state(9) [OF heap_demo_eq, of q] that st by (simp add: MM_PAGE_def)
  thus ?thesis using st by (auto simp: free_run_def)
qed

lemma heap_demo_chunk: "n = 100 \<Longrightarrow> \<not> no_chunk heap_demo (mm_round n + MM_HDR)"
proof -
  assume n: "n = 100"
  have "chunk_pages (mm_round n + MM_HDR) = 16" using n by (simp add: chunk_pages_def mm_round_def MM_HDR_def MM_PAGE_def MM_CHUNK_MIN_PG_def)
  moreover have "fst (mm_chunks heap_demo ! 0) = 0" using init_chunks [OF heap_demo_eq] by (simp add: MM_CHUNK_MAX_def)
  moreover have "0 < MM_CHUNK_MAX" by (simp add: MM_CHUNK_MAX_def)
  ultimately show ?thesis using heap_demo_run unfolding no_chunk_def by (metis less_numeral_extra(3))
qed

lemma heap_demo_block:
  "\<exists>p s' z H'. kmalloc (2 ^ 27) 100 heap_demo = Some (p, s') \<and> p \<noteq> 0 \<and> 100 \<le> z \<and> heap_view s' H' \<and> heap_live s' H' = {(p, z)}"
proof -
  obtain p s' H' where k: "kmalloc (2 ^ 27) 100 heap_demo = Some (p, s')" "heap_view s' H'"
    and c: "if p = 0 then heap_live s' H' = heap_live heap_demo (replicate MM_CHUNK_MAX []) \<and>
        (100 = (0::nat) \<or> 100 > MM_MAX_TOP div 2 \<or> ((\<forall>i < MM_CHUNK_MAX. no_fit (mm_round 100 + MM_HDR) (replicate MM_CHUNK_MAX [] ! i)) \<and> no_chunk heap_demo (mm_round 100 + MM_HDR)))
     else p mod 16 = 0 \<and> (\<exists>z \<ge> 100. heap_live s' H' = insert (p, z) (heap_live heap_demo (replicate MM_CHUNK_MAX [])) \<and>
        (\<forall>q w. (q, w) \<in> heap_live heap_demo (replicate MM_CHUNK_MAX []) \<longrightarrow> q + w \<le> p \<or> p + z \<le> q))"
    using kmalloc_correct [OF heap_demo_view(1) order.refl, of 100] by blast
  have "p \<noteq> 0"
  proof
    assume "p = 0"
    thus False using c heap_demo_chunk [OF refl] by (simp add: MM_MAX_TOP_def)
  qed
  thus ?thesis using k c heap_demo_view(2) by auto
qed

lemma kmalloc_exact_witness: "\<exists>p s H. kmalloc (2 ^ 27) 100 heap_demo = Some (p, s) \<and> heap_view s H"
  using kmalloc_exact [OF heap_demo_view(1) order.refl, of 100] by blast

lemma kfree_exact_witness:
  "\<exists>p s1 s2 H. kmalloc (2 ^ 27) 100 heap_demo = Some (p, s1) \<and> kfree p s1 = (True, s2) \<and> heap_view s2 H \<and>
    heap_live s2 H = {} \<and> \<not> fst (kfree p s2)"
proof -
  obtain p s1 z H where k: "kmalloc (2 ^ 27) 100 heap_demo = Some (p, s1)" "heap_view s1 H" "heap_live s1 H = {(p, z)}"
    using heap_demo_block by metis
  obtain ok s2 where f: "kfree p s1 = (ok, s2)" by fastforce
  have m: "(p, z) \<in> heap_live s1 H" using k(3) by simp
  show ?thesis using kfree_exact [OF k(2) m f] k(1,3) f by auto
qed


subsection \<open>krealloc\<close>

text \<open>Writing inside a live block keeps the heap.\<close>

lemma payload_write:
  assumes v: "heap_view s H" and l: "(p, z) \<in> heap_live s H" and o: "pages_same s s'" "mm_chunks s' = mm_chunks s"
    and m: "\<And>x. x < p \<or> p + z \<le> x \<Longrightarrow> mem s' x = mem s x"
  shows "heap_view s' H" "heap_live s' H = heap_live s H"
proof -
  obtain i where i: "i < MM_CHUNK_MAX" "(p, z) \<in> live (fst (mm_chunks s ! i)) (H ! i)" "fst (mm_chunks s ! i) \<noteq> 0"
    "fst (mm_chunks s ! i) + 16 \<le> p" "p + z \<le> fst (mm_chunks s ! i) + snd (mm_chunks s ! i)"
    using live_in_chunk [OF v l] by metis
  let ?c = "mm_chunks s ! i"
  have b: "blocks (mem s) ?c (H ! i)" "merged (H ! i)" using view_blocks [OF v i(1,3)] by blast+
  hence L: "layout (mem s) (fst ?c) 0 (H ! i)" by (simp add: blocks_def)
  obtain xs ys where H: "H ! i = xs @ (z + 16, True) # ys" and p: "p = fst ?c + extent xs + 16" using live_split [OF L i(2)] by blast
  have "layout (mem s') (fst ?c) 0 xs" by (rule layout_cong [of "mem s"]) (use L H m p in auto)
  moreover have "layout (mem s') (fst ?c + extent xs + (z + 16)) (z + 16) ys"
    by (rule layout_cong [of "mem s"]) (use L H m p in auto)
  moreover have "ld32 (mem s') (fst ?c + extent xs + k) = ld32 (mem s) (fst ?c + extent xs + k)" if "k \<le> 8" for k
    using m p that by (simp add: ld32_def)
  from this [of 0] this [of 4] this [of 8]
  have "ld32 (mem s') (fst ?c + extent xs) = ld32 (mem s) (fst ?c + extent xs)"
    "ld32 (mem s') (fst ?c + extent xs + 4) = ld32 (mem s) (fst ?c + extent xs + 4)"
    "ld32 (mem s') (fst ?c + extent xs + 8) = ld32 (mem s) (fst ?c + extent xs + 8)" by simp_all
  ultimately have "layout (mem s') (fst ?c) 0 (H ! i)" using L unfolding H by simp
  hence "blocks (mem s') ?c (H ! i)" using b(1) by (simp add: blocks_def)
  hence "heap_view s' (H[i := H ! i])" using m i by (intro heap_update [OF v i(1,3) o _ _ b(2)]) auto
  thus "heap_view s' H" by simp
  show "heap_live s' H = heap_live s H" using o(2) by (simp add: heap_live_def)
qed

lemma usable_live:
  assumes v: "heap_view s H" and l: "(p, z) \<in> heap_live s H"
  shows "mm_usable s p = z" "0 < z" "p \<noteq> 0"
proof -
  obtain i where i: "i < MM_CHUNK_MAX" "(p, z) \<in> live (fst (mm_chunks s ! i)) (H ! i)" "fst (mm_chunks s ! i) \<noteq> 0"
    "fst (mm_chunks s ! i) + 16 \<le> p" "p + z \<le> fst (mm_chunks s ! i) + snd (mm_chunks s ! i)" "16 \<le> z"
    using live_in_chunk [OF v l] by metis
  let ?c = "mm_chunks s ! i"
  have L: "layout (mem s) (fst ?c) 0 (H ! i)" using view_blocks [OF v i(1,3)] by (simp add: blocks_def)
  obtain xs ys where H: "H ! i = xs @ (z + 16, True) # ys" and p: "p = fst ?c + extent xs + 16" using live_split [OF L i(2)] by blast
  have co: "mm_chunk_of s p = Some i" using i by (intro chunk_of [OF v]) (auto simp: in_chunk_def)
  have "16 dvd extent xs" using layout_extent_16 [of "mem s" "fst ?c" 0 xs] L H by (simp add: dvd_eq_mod_eq_0)
  moreover have "p - fst ?c = extent xs + 16" using p by simp
  ultimately have al: "(p - fst ?c) mod 16 = 0" by (simp add: dvd_eq_mod_eq_0 [symmetric])
  have h: "p - MM_HDR = fst ?c + extent xs" using p by (simp add: MM_HDR_def)
  have lt: "z + 16 < 2 ^ 32" using layout_lt [of "mem s" "fst ?c" 0 xs "z + 16" True ys] L H by simp
  have e: "ld32 (mem s) (fst ?c + extent xs) = z + 16" "ld32 (mem s) (fst ?c + extent xs + 8) = MM_MAGIC_USED" using L H by simp_all
  have "(z + 16 + 2 ^ 32 - MM_HDR) mod 2 ^ 32 = z" using lt by (simp add: MM_HDR_def)
  thus "mm_usable s p = z" unfolding mm_usable_def co option.case Let_def h e using al by simp
  show "0 < z" "p \<noteq> 0" using i by simp_all
qed

text \<open>The byte copy between disjoint blocks.\<close>

definition mem_copy :: "nat \<Rightarrow> nat \<Rightarrow> nat \<Rightarrow> mm \<Rightarrow> mm" where
  "mem_copy q p n s = fold (\<lambda>i s. s\<lparr>mem := (mem s)(q + i := mem s (p + i))\<rparr>) [0..<n] s"

lemma mem_copy:
  "q + n \<le> p \<or> p + n \<le> q \<Longrightarrow>
   mem_copy q p n s = s\<lparr>mem := \<lambda>x. if q \<le> x \<and> x < q + n then mem s (p + (x - q)) else mem s x\<rparr>"
proof (induction n)
  case (Suc n)
  have "mem_copy q p (Suc n) s = (let t = mem_copy q p n s in t\<lparr>mem := (mem t)(q + n := mem t (p + n))\<rparr>)"
    by (simp add: mem_copy_def Let_def)
  also have "\<dots> = s\<lparr>mem := \<lambda>x. if q \<le> x \<and> x < q + Suc n then mem s (p + (x - q)) else mem s x\<rparr>"
    using Suc by (auto simp: Let_def fun_eq_iff less_Suc_eq)
  finally show ?case .
next
  case 0
  have "(\<lambda>x. if q \<le> x \<and> x < q then mem s (p + (x - q)) else mem s x) = mem s" by (rule ext, rule if_not_P) linarith
  thus ?case by (simp add: mem_copy_def)
qed

lemma krealloc_move:
  assumes v: "heap_view s H" and l: "(p, z) \<in> heap_live s H" and f: "2 ^ 27 \<le> fuel" and n: "z < n"
  shows "\<exists>q s' H'. krealloc fuel p n s = Some (q, s') \<and> heap_view s' H' \<and>
    (if q = 0 then heap_live s' H' = heap_live s H \<and> payloads_kept (heap_live s H) s s'
     else (\<exists>w \<ge> n. heap_live s' H' = insert (q, w) (heap_live s H - {(p, z)})) \<and>
       (\<forall>i < z. mem s' (q + i) = mem s (p + i)) \<and> payloads_kept (heap_live s H - {(p, z)}) s s')"
proof -
  note u = usable_live [OF v l]
  obtain q s1 H1 where k: "kmalloc fuel n s = Some (q, s1)" "heap_view s1 H1" "payloads_kept (heap_live s H) s s1"
    and c: "q = 0 \<Longrightarrow> heap_live s1 H1 = heap_live s H"
      "q \<noteq> 0 \<Longrightarrow> \<exists>w \<ge> n. heap_live s1 H1 = insert (q, w) (heap_live s H) \<and> (\<forall>r w'. (r, w') \<in> heap_live s H \<longrightarrow> r + w' \<le> q \<or> q + w \<le> r)"
    using kmalloc_correct [OF v f, of n] by (auto split: if_splits)
  have e: "krealloc fuel p n s = Some (if q = 0 then (0, s1) else (q, snd (kfree p (mem_copy q p z s1))))"
    using u n k(1) by (simp add: krealloc_def Let_def mem_copy_def)
  show ?thesis
  proof (cases "q = 0")
    case True
    thus ?thesis using e k c(1) by (intro exI [of _ 0] exI [of _ s1] exI [of _ H1]) simp
  next
    case False
    obtain w where w: "n \<le> w" "heap_live s1 H1 = insert (q, w) (heap_live s H)"
      and dj: "\<And>r w'. (r, w') \<in> heap_live s H \<Longrightarrow> r + w' \<le> q \<or> q + w \<le> r" using c(2) [OF False] by blast
    have d: "q + z \<le> p \<or> p + z \<le> q" using dj [OF l] w(1) n by auto
    define s2 where "s2 = mem_copy q p z s1"
    have s2: "s2 = s1\<lparr>mem := \<lambda>x. if q \<le> x \<and> x < q + z then mem s1 (p + (x - q)) else mem s1 x\<rparr>"
      unfolding s2_def by (rule mem_copy [OF d])
    have ql: "(q, w) \<in> heap_live s1 H1" using w(2) by simp
    have fr: "mem s2 x = mem s1 x" if "x < q \<or> q + w \<le> x" for x using that s2 w(1) n by auto
    have s2f: "pages_same s1 s2" "mm_chunks s2 = mm_chunks s1" using s2 by (simp_all add: pages_same_def)
    have v2: "heap_view s2 H1" "heap_live s2 H1 = heap_live s1 H1" using payload_write [OF k(2) ql s2f fr] by blast+
    have pl: "(p, z) \<in> heap_live s2 H1" using l w(2) v2(2) by simp
    obtain ok s3 where F: "kfree p s2 = (ok, s3)" by fastforce
    obtain H3 where H3: "heap_view s3 H3" "heap_live s3 H3 = heap_live s2 H1 - {(p, z)}" and kp: "payloads_kept (heap_live s2 H1 - {(p, z)}) s2 s3"
      using kfree_correct [OF v2(1) pl F] by blast
    have npq: "(q, w) \<noteq> (p, z)" using n w(1) by auto
    have "heap_live s3 H3 = insert (q, w) (heap_live s H - {(p, z)})" using H3(2) v2(2) w(2) npq by auto
    moreover have "mem s3 (q + i) = mem s (p + i)" if "i < z" for i
    proof -
      have "(q, w) \<in> heap_live s2 H1 - {(p, z)}" using npq v2(2) w(2) by simp
      moreover have "q \<le> q + i" "q + i < q + w" using w(1) that n by simp_all
      ultimately have "mem s3 (q + i) = mem s2 (q + i)" using kp unfolding payloads_kept_def by blast
      also have "\<dots> = mem s1 (p + i)" using that by (simp add: s2)
      also have "\<dots> = mem s (p + i)" using k(3) l that unfolding payloads_kept_def by auto
      finally show ?thesis .
    qed
    moreover have "payloads_kept (heap_live s H - {(p, z)}) s s3"
      unfolding payloads_kept_def
    proof (intro allI impI)
      fix r w' x assume r: "(r, w') \<in> heap_live s H - {(p, z)}" "r \<le> x" "x < r + w'"
      have "mem s3 x = mem s2 x" using kp r v2(2) w(2) unfolding payloads_kept_def by blast
      also have "\<dots> = mem s1 x" using dj [of r w'] r by (intro fr) auto
      also have "\<dots> = mem s x" using k(3) r unfolding payloads_kept_def by blast
      finally show "mem s3 x = mem s x" .
    qed
    ultimately show ?thesis using e False F H3(1) w(1) by (intro exI [of _ q] exI [of _ s3] exI [of _ H3]) (auto simp: s2_def)
  qed
qed

text \<open>Claim C28. krealloc is correct on every live block p of z bytes of a well-formed heap and every size n > 0: it returns; a
  non-NULL result is a live block of at least n bytes holding the first min(n, z) bytes of the old one, which is gone unless it is
  the same block; a NULL result leaves the old block alive; every other block keeps its contents throughout.\<close>

theorem krealloc_exact:
  assumes "heap_view s H" "(p, z) \<in> heap_live s H" "2 ^ 27 \<le> fuel" "0 < n"
  shows "\<exists>q s' H'. krealloc fuel p n s = Some (q, s') \<and> heap_view s' H' \<and>
    (if q = 0 then heap_live s' H' = heap_live s H \<and> payloads_kept (heap_live s H) s s'
     else (\<exists>w \<ge> n. heap_live s' H' = insert (q, w) (heap_live s H - {(p, z)})) \<and>
       (\<forall>i < min n z. mem s' (q + i) = mem s (p + i)) \<and> payloads_kept (heap_live s H - {(p, z)}) s s')"
proof (cases "n \<le> z")
  case True
  note u = usable_live [OF assms(1,2)]
  have "krealloc fuel p n s = Some (p, s)" using u True assms(4) by (simp add: krealloc_def)
  moreover have "heap_live s H = insert (p, z) (heap_live s H - {(p, z)})" using assms(2) by blast
  ultimately show ?thesis using True u(3) assms(1)
    by (intro exI [of _ p] exI [of _ s] exI [of _ H]) (auto simp: payloads_kept_def)
next
  case False
  then obtain q s' H' where "krealloc fuel p n s = Some (q, s')" "heap_view s' H'"
    "if q = 0 then heap_live s' H' = heap_live s H \<and> payloads_kept (heap_live s H) s s'
     else (\<exists>w \<ge> n. heap_live s' H' = insert (q, w) (heap_live s H - {(p, z)})) \<and>
       (\<forall>i < z. mem s' (q + i) = mem s (p + i)) \<and> payloads_kept (heap_live s H - {(p, z)}) s s'"
    using krealloc_move [OF assms(1-3)] by (meson not_le)
  thus ?thesis by (intro exI [of _ q] exI [of _ s'] exI [of _ H']) (auto split: if_splits)
qed


lemma krealloc_exact_witness:
  "\<exists>p s1 q s2 H. kmalloc (2 ^ 27) 100 heap_demo = Some (p, s1) \<and> p \<noteq> 0 \<and> krealloc (2 ^ 27) p 5000 s1 = Some (q, s2) \<and> heap_view s2 H"
proof -
  obtain p s1 z H where k: "kmalloc (2 ^ 27) 100 heap_demo = Some (p, s1)" "p \<noteq> 0" "heap_view s1 H" "heap_live s1 H = {(p, z)}"
    using heap_demo_block by metis
  have l: "(p, z) \<in> heap_live s1 H" using k(4) by simp
  show ?thesis using krealloc_exact [OF k(3) l order.refl, of 5000] k(1,2) by auto
qed

subsection \<open>The integrity walk\<close>

lemma check_blocks:
  assumes "layout (mem s) h p bs" "h + extent bs = fst c + snd c" "fst c + snd c < 2 ^ 32" "seen + extent bs = snd c" "length bs < fuel"
    "bs \<noteq> []" "h \<noteq> 0" "merged bs" "pf \<longrightarrow> snd (hd bs)"
  shows "mm_check_blocks fuel s c h seen p pf bad = Some (bad, snd c)"
  using assms
proof (induction bs arbitrary: h p seen pf fuel)
  case (Cons b bs)
  obtain z u where b: "b = (z, u)" by (cases b)
  obtain f where f: "fuel = Suc f" using Cons.prems(5) by (cases fuel) auto
  have L: "ld32 (mem s) h = z" "ld32 (mem s) (h + 4) = p" "ld32 (mem s) (h + 8) = (if u then MM_MAGIC_USED else MM_MAGIC_FREE)"
    "32 \<le> z" "z mod 16 = 0" "layout (mem s) (h + z) z bs" using Cons.prems(1) b by auto
  have ne: "MM_MAGIC_USED \<noteq> MM_MAGIC_FREE" by (simp add: MM_MAGIC_USED_def MM_MAGIC_FREE_def)
  have e: "extent (b # bs) = z + extent bs" using b by simp
  have lt: "seen + z < 2 ^ 32" "h + z < 2 ^ 32" using Cons.prems(2-4) e by auto
  have sz: "(seen + z) mod 2 ^ 32 = seen + z" using lt(1) by simp
  have g: "\<not> (z < MM_HDR + 16 \<or> z mod 16 \<noteq> 0 \<or> (seen + z) mod 2 ^ 32 > snd c)"
    using L(4,5) Cons.prems(4) e unfolding sz by (simp add: MM_HDR_def)
  have nf: "\<not> (\<not> u \<and> pf)" using Cons.prems(9) b by auto
  have step: "mm_check_blocks fuel s c h seen p pf bad = mm_check_blocks f s c (mm_next s c h) (seen + z) z (\<not> u) bad"
    using Cons.prems(7) L(2,3) g ne nf lt(1) unfolding f by (auto simp: L(1) Let_def)
  have nx: "mm_next s c h = (if bs = [] then 0 else h + z)"
  proof (cases bs)
    case Nil thus ?thesis using Cons.prems(2) e lt by (simp add: mm_next_def L(1))
  next
    case (Cons b' bs')
    have "32 \<le> extent bs" using layout_extent_pos [OF L(6)] Cons by simp
    thus ?thesis using Cons.prems(2) e lt Cons by (simp add: mm_next_def L(1))
  qed
  show ?case
  proof (cases "bs = []")
    case True
    obtain g where "f = Suc g" using Cons.prems(5) f by (cases f) auto
    thus ?thesis unfolding step nx using True Cons.prems(4) e by simp
  next
    case False
    have "mm_check_blocks f s c (h + z) (seen + z) z (\<not> u) bad = Some (bad, snd c)"
    proof (rule Cons.IH [OF L(6)])
      show "merged bs" "\<not> u \<longrightarrow> snd (hd bs)" using Cons.prems(8) False b by (cases bs; cases u; auto)+
    qed (use Cons.prems f e False L(4) in auto)
    thus ?thesis unfolding step nx using False by simp
  qed
qed simp

lemma check_chunks:
  assumes v: "heap_view s H" and f: "2 ^ 27 \<le> fuel" and "set is \<subseteq> {..<MM_CHUNK_MAX}"
  shows "mm_check_chunks fuel s is bad = Some bad"
  using assms(3)
proof (induction "is")
  case (Cons i "is")
  have i: "i < MM_CHUNK_MAX" using Cons.prems by simp
  show ?case
  proof (cases "fst (mm_chunks s ! i) = 0")
    case True thus ?thesis using Cons by simp
  next
    case False
    let ?c = "mm_chunks s ! i"
    have b: "blocks (mem s) ?c (H ! i)" "merged (H ! i)" "owned s ?c" using view_blocks [OF v i False] by blast+
    have "0 < extent (H ! i)" using owned_range [OF b(3)] b(1) by (simp add: blocks_def)
    hence ne: "H ! i \<noteq> []" by auto
    have "mm_check_blocks fuel s ?c (fst ?c) 0 0 False bad = Some (bad, snd ?c)"
      using b view_length [OF v i] f ne False by (intro check_blocks) (auto simp: blocks_def)
    thus ?thesis using False Cons by (simp add: Let_def)
  qed
qed simp

lemma check_bitmap:
  assumes "mm_ok s"
  shows "length (filter (\<lambda>p. \<not> mm_bit s p) [mm_bitmap_pages s..<mm_npages s]) = mm_free_pg s"
proof -
  have "set (filter (\<lambda>p. \<not> mm_bit s p) [mm_bitmap_pages s..<mm_npages s]) = free_set s"
    using assms by (auto simp: free_set_def mm_ok_def not_less [symmetric])
  thus ?thesis using assms by (metis distinct_card distinct_filter distinct_upt mm_ok_def)
qed

text \<open>mm_check finds nothing wrong with a well-formed heap, and returns.\<close>

lemma mm_check_ok: "heap_view s H \<Longrightarrow> 2 ^ 27 \<le> fuel \<Longrightarrow> mm_check fuel s = Some 0"
proof -
  assume v: "heap_view s H" and f: "2 ^ 27 \<le> fuel"
  have "mm_check_chunks fuel s [0..<MM_CHUNK_MAX] 0 = Some 0" by (rule check_chunks [OF v f]) auto
  moreover have "mm_ok s" using v by (simp add: heap_view_def)
  ultimately show ?thesis using check_bitmap [of s] by (simp add: mm_check_def Let_def)
qed

text \<open>A header overwritten with a size just below 2 ^ 32 is not reported: the u32 sum in the guard wraps, the walk steps back to
  the block before and never ends.\<close>

lemma mm_check_smashed:
  assumes "a \<noteq> 0" "a + snd c < 2 ^ 32" "fst c = a" "32 < snd c" "hdr_size s a = 32" "hdr_size s (a + 32) = 2 ^ 32 - 32"
    "hdr_magic s a = MM_MAGIC_USED" "hdr_magic s (a + 32) = MM_MAGIC_USED"
  shows "mm_check_blocks fuel s c a 0 p pf bad = None" "mm_check_blocks fuel s c (a + 32) 32 p pf bad = None"
proof -
  have ne: "MM_MAGIC_USED \<noteq> MM_MAGIC_FREE" by (simp add: MM_MAGIC_USED_def MM_MAGIC_FREE_def)
  have n: "mm_next s c a = a + 32" "mm_next s c (a + 32) = a" using assms by (simp_all add: mm_next_def)
  have "mm_check_blocks fuel s c a 0 p pf bad = None \<and> mm_check_blocks fuel s c (a + 32) 32 p pf bad = None"
  proof (induction fuel arbitrary: p pf bad)
    case (Suc f)
    show ?case using Suc assms(1,4-8) ne by (simp add: n Let_def MM_HDR_def)
  qed simp
  thus "mm_check_blocks fuel s c a 0 p pf bad = None" "mm_check_blocks fuel s c (a + 32) 32 p pf bad = None" by blast+
qed

lemma mm_check_hangs:
  assumes "mm_chunks s ! 0 = (a, n)" "a \<noteq> 0" "a + n < 2 ^ 32" "32 < n" "hdr_size s a = 32" "hdr_size s (a + 32) = 2 ^ 32 - 32"
    "hdr_magic s a = MM_MAGIC_USED" "hdr_magic s (a + 32) = MM_MAGIC_USED"
  shows "mm_check fuel s = None"
proof -
  have "[0..<MM_CHUNK_MAX] = 0 # [Suc 0..<MM_CHUNK_MAX]" by (rule upt_conv_Cons) (simp add: MM_CHUNK_MAX_def)
  moreover have "mm_check_blocks fuel s (a, n) a 0 0 False 0 = None" using mm_check_smashed(1) [of a "(a, n)" s fuel] assms by simp
  ultimately show ?thesis using assms(1,2) by (simp add: mm_check_def)
qed

end
