(* ===== verification/Lz.thy ===== *)
theory Lz
  imports Prelude
begin

text \<open>
  lz.h, the LZ4 block decoder. The source cursor is the list of the bytes left, the destination cursor the
  list of the bytes written so far; the result is the return value together with what the destination holds.
  The 32-bit length counters are written modulo 2 ^ 32.
\<close>

subsection \<open>The decoder\<close>

text \<open>do { if (s >= send) return 0; b = *s++; n += b; } while (b == 255)\<close>

fun lz_ext :: "nat \<Rightarrow> bytes \<Rightarrow> (nat \<times> bytes) option" where
  "lz_ext n [] = None"
| "lz_ext n (b # s) =
     (let n = (n + unat b) mod 2 ^ 32 in if b = 255 then lz_ext n s else Some (n, s))"

text \<open>while (len--) *d++ = *m++, with m starting off bytes behind d.\<close>

fun lz_copy :: "nat \<Rightarrow> nat \<Rightarrow> bytes \<Rightarrow> bytes" where
  "lz_copy off 0 out = out"
| "lz_copy off (Suc len) out = lz_copy off len (out @ [out ! (length out - off)])"

lemma lz_ext_shorter: "lz_ext n s = Some (m, s') \<Longrightarrow> length s' < length s"
  by (induction n s rule: lz_ext.induct) (auto simp: Let_def less_Suc_eq split: if_splits)

function lz_loop :: "nat \<Rightarrow> bytes \<Rightarrow> bytes \<Rightarrow> nat \<times> bytes" where
  "lz_loop cap [] out = (length out, out)"
| "lz_loop cap (token # s) out =
     (case (if drop_bit 4 token = 15 then lz_ext 15 s else Some (unat (drop_bit 4 token), s)) of
        None \<Rightarrow> (0, out)
      | Some (lit, s) \<Rightarrow>
          if lit > length s \<or> lit > cap - length out then (0, out)
          else
            let out = out @ take lit s; s = drop lit s in
            if s = [] then (length out, out)
            else if length s < 2 then (0, out)
            else
              let off = unat (s ! 0) + 256 * unat (s ! 1); s = drop 2 s in
              if off = 0 \<or> off > length out then (0, out)
              else
                case (if token AND 15 = 15 then lz_ext 19 s else Some (unat (token AND 15) + 4, s)) of
                  None \<Rightarrow> (0, out)
                | Some (len, s) \<Rightarrow>
                    if len > cap - length out then (0, out)
                    else lz_loop cap s (lz_copy off len out))"
  by pat_completeness auto
termination
  by (relation "measure (\<lambda>(_, s, _). length s)")
    (auto dest!: lz_ext_shorter split: if_splits)

declare lz_loop.simps(2) [simp del]

definition lz4_block_decode :: "bytes \<Rightarrow> nat \<Rightarrow> nat \<times> bytes" where
  "lz4_block_decode src dstcap = lz_loop dstcap src []"

subsection \<open>The copy\<close>

text \<open>Overlapping included, the copy repeats the last off bytes.\<close>

definition lz_repeat :: "nat \<Rightarrow> nat \<Rightarrow> bytes \<Rightarrow> bytes" where
  "lz_repeat off len out = out @ map (\<lambda>i. out ! (length out - off + i mod off)) [0..<len]"

lemma lz_copy_snoc: "lz_copy off (Suc len) out = (let o1 = lz_copy off len out in o1 @ [o1 ! (length o1 - off)])"
proof (induction len arbitrary: out)
  case (Suc len)
  show ?case using Suc.IH [of "out @ [out ! (length out - off)]"] by (simp only: lz_copy.simps(2) Let_def)
qed simp

lemma lz_copy_length [simp]: "length (lz_copy off len out) = length out + len"
  by (induction off len out rule: lz_copy.induct) simp_all

lemma lz_copy_repeat:
  assumes "0 < off" "off \<le> length out"
  shows "lz_copy off len out = lz_repeat off len out"
proof (induction len)
  case (Suc len)
  let ?o = "lz_repeat off len out"
  have l: "length ?o = length out + len" by (simp add: lz_repeat_def)
  have "?o ! (length ?o - off) = out ! (length out - off + len mod off)"
  proof (cases "len < off")
    case True
    thus ?thesis using assms unfolding l by (simp add: lz_repeat_def nth_append_left)
  next
    case False
    hence m: "(len - off) mod off = len mod off" by (simp add: le_mod_geq)
    have "?o ! (length out + (len - off)) = out ! (length out - off + (len - off) mod off)"
      using False assms(1) unfolding lz_repeat_def nth_append_length_plus by simp
    moreover have "length ?o - off = length out + (len - off)" using False l by simp
    ultimately show ?thesis by (simp only: m)
  qed
  thus ?case by (simp add: lz_copy_snoc Let_def Suc.IH del: lz_copy.simps) (simp add: lz_repeat_def)
qed (simp add: lz_repeat_def)

subsection \<open>The format\<close>

text \<open>A block is a list of sequences, each literals followed by a match (offset, length), and a last sequence of
  literals only; this is the encoding the format description prescribes.\<close>

datatype lz_seq = LzSeq (lits: bytes) (off: nat) (mlen: nat)

definition lz_nib :: "nat \<Rightarrow> nat" where "lz_nib n = min n 15"

definition lz_len_bytes :: "nat \<Rightarrow> bytes" where
  "lz_len_bytes n = (if n < 15 then [] else replicate ((n - 15) div 255) 255 @ [of_nat ((n - 15) mod 255)])"

definition lz_enc_seq :: "lz_seq \<Rightarrow> bytes" where
  "lz_enc_seq q = of_nat (16 * lz_nib (length (lits q)) + lz_nib (mlen q - 4)) #
     lz_len_bytes (length (lits q)) @ lits q @ [of_nat (off q mod 256), of_nat (off q div 256)] @ lz_len_bytes (mlen q - 4)"

definition lz_encode :: "lz_seq list \<Rightarrow> bytes \<Rightarrow> bytes" where
  "lz_encode qs lastl = concat (map lz_enc_seq qs) @ of_nat (16 * lz_nib (length lastl)) # lz_len_bytes (length lastl) @ lastl"

definition lz_apply :: "bytes \<Rightarrow> lz_seq \<Rightarrow> bytes" where
  "lz_apply out q = lz_repeat (off q) (mlen q) (out @ lits q)"

fun lz_wf :: "bytes \<Rightarrow> lz_seq list \<Rightarrow> bool" where
  "lz_wf out [] = True"
| "lz_wf out (q # qs) = (0 < off q \<and> off q \<le> length out + length (lits q) \<and> off q < 65536 \<and> 4 \<le> mlen q \<and>
     lz_wf (lz_apply out q) qs)"

definition lz_meaning :: "lz_seq list \<Rightarrow> bytes \<Rightarrow> bytes" where
  "lz_meaning qs lastl = foldl lz_apply [] qs @ lastl"

lemma lz_repeat_length [simp]: "length (lz_repeat f n out) = length out + n" by (simp add: lz_repeat_def)
lemma lz_apply_length [simp]: "length (lz_apply out q) = length out + length (lits q) + mlen q" by (simp add: lz_apply_def)

lemma lz_foldl_length: "length out \<le> length (foldl lz_apply out qs)"
  by (induction qs arbitrary: out) (simp, fastforce intro: order_trans [rotated])

lemma lz_ext_run:
  assumes "n + k < 2 ^ 32"
  shows "lz_ext n (replicate (k div 255) 255 @ of_nat (k mod 255) # rest) = Some (n + k, rest)"
  using assms
proof (induction "k div 255" arbitrary: n k)
  case 0
  hence k: "k < 255" by (simp add: div_eq_0_iff)
  hence "(of_nat k :: u8) \<noteq> 255" using of_nat_inverse [of k "of_nat k :: u8"] by (auto simp: unsigned_of_nat take_bit_eq_mod dest: arg_cong [where f = unat])
  thus ?case using 0 k by (simp add: Let_def unat_of_nat take_bit_eq_mod)
next
  case (Suc d)
  hence k: "255 \<le> k" by (metis Suc_neq_Zero div_less not_less)
  have d: "d = (k - 255) div 255" "(k - 255) mod 255 = k mod 255" using Suc(2) k by (simp_all add: le_div_geq le_mod_geq)
  have "lz_ext (n + 255) (replicate ((k - 255) div 255) 255 @ of_nat ((k - 255) mod 255) # rest) = Some (n + 255 + (k - 255), rest)"
    using Suc(3) k by (intro Suc(1) [OF d(1)]) simp
  thus ?case using Suc(3) k unfolding Suc(2) [symmetric] by (simp add: Let_def d)
qed

lemma nib_token:
  assumes "a < 16" "b < 16"
  shows "drop_bit 4 (of_nat (16 * a + b) :: u8) = of_nat a" "(of_nat (16 * a + b) :: u8) AND 15 = of_nat b"
    "unat (of_nat a :: u8) = a"
proof -
  have l: "16 * a + b < 256" using assms by simp
  hence u: "unat (of_nat (16 * a + b) :: u8) = 16 * a + b" by (simp add: unat_of_nat del: of_nat_add of_nat_mult)
  show a: "unat (of_nat a :: u8) = a" using assms by (simp add: unat_of_nat take_bit_eq_mod)
  have b: "unat (of_nat b :: u8) = b" using assms by (simp add: unat_of_nat take_bit_eq_mod)
  define w :: u8 where "w = of_nat (16 * a + b)"
  have w: "unat w = 16 * a + b" unfolding w_def by (rule u)
  have "unat (drop_bit 4 w) = a" using w assms by (simp add: drop_bit_eq_div unat_div)
  thus "drop_bit 4 (of_nat (16 * a + b) :: u8) = of_nat a" using a unfolding w_def by (metis word_unat_eq_iff)
  have "unat (w AND 15) = b"
    using w assms unfolding and_0F_u8 unsigned_take_bit_eq by (simp add: take_bit_eq_mod)
  thus "(of_nat (16 * a + b) :: u8) AND 15 = of_nat b" using b unfolding w_def by (metis word_unat_eq_iff)
qed

subsection \<open>Decoding what the format encodes\<close>

text \<open>What one length field reads: the nibble, extended when it is 15.\<close>

lemma lz_field:
  assumes "n < 2 ^ 31" "e = 15 + m" "m \<le> 4"
  shows "(if lz_nib n = 15 then lz_ext e (lz_len_bytes n @ rest) else Some (lz_nib n + m, lz_len_bytes n @ rest)) =
    Some (n + m, rest)"
proof (cases "n < 15")
  case False
  have "e + (n - 15) = n + m" using False assms(2) by simp
  thus ?thesis using lz_ext_run [of e "n - 15" rest] False assms(1,3) by (simp add: lz_nib_def lz_len_bytes_def)
qed (simp add: lz_nib_def lz_len_bytes_def)

lemma lz_nib_lt: "lz_nib n < 16" by (simp add: lz_nib_def)

lemma nib_eq_15: "(of_nat (lz_nib n) :: u8) = 15 \<longleftrightarrow> lz_nib n = 15"
  using nib_token(3) [OF lz_nib_lt lz_nib_lt, of n] by (auto simp: word_unat_eq_iff)

text \<open>The literals of one sequence.\<close>

lemma lz_loop_lits:
  assumes "length l < 2 ^ 31" "b < 16" "length out + length l \<le> cap"
  shows "lz_loop cap (of_nat (16 * lz_nib (length l) + b) # lz_len_bytes (length l) @ l @ s) out =
    (if s = [] then (length (out @ l), out @ l)
     else if length s < 2 then (0, out @ l)
     else let off = unat (s ! 0) + 256 * unat (s ! 1); s = drop 2 s in
       if off = 0 \<or> off > length (out @ l) then (0, out @ l)
       else case (if b = 15 then lz_ext 19 s else Some (b + 4, s)) of None \<Rightarrow> (0, out @ l)
         | Some (len, s) \<Rightarrow> if len > cap - length (out @ l) then (0, out @ l)
                           else lz_loop cap s (lz_copy off len (out @ l)))"
proof -
  note t = nib_token [OF lz_nib_lt assms(2), of "length l"]
  have b: "(of_nat b :: u8) = 15 \<longleftrightarrow> b = 15" "unat (of_nat b :: u8) = b"
    using nib_token(3) [OF assms(2,2)] by (auto simp: word_unat_eq_iff)
  have f: "(if (of_nat (lz_nib (length l)) :: u8) = 15 then lz_ext 15 (lz_len_bytes (length l) @ l @ s)
      else Some (unat (of_nat (lz_nib (length l)) :: u8), lz_len_bytes (length l) @ l @ s)) = Some (length l, l @ s)"
    using lz_field [OF assms(1), of 15 0 "l @ s"] by (simp only: nib_eq_15 t(3) add_0_right)
  have c: "\<not> (length l > length (l @ s) \<or> length l > cap - length out)" using assms(3) by auto
  have tk: "take (length l) (l @ s) = l" "drop (length l) (l @ s) = s" by simp_all
  show ?thesis
    unfolding lz_loop.simps(2) t(1,2) f b option.case prod.case if_not_P [OF c] Let_def tk by (rule refl)
qed

lemma lz_loop_seq:
  assumes "0 < off q" "off q \<le> length out + length (lits q)" "off q < 65536" "4 \<le> mlen q"
    "length (lz_apply out q) \<le> cap" "cap < 2 ^ 31"
  shows "lz_loop cap (lz_enc_seq q @ s) out = lz_loop cap s (lz_apply out q)"
proof -
  let ?l = "lits q" and ?b = "lz_nib (mlen q - 4)"
  let ?s = "[of_nat (off q mod 256), of_nat (off q div 256)] @ lz_len_bytes (mlen q - 4) @ s"
  have lens: "length ?l < 2 ^ 31" "mlen q - 4 < 2 ^ 31" "length out + length ?l \<le> cap"
    "\<not> mlen q > cap - length (out @ ?l)" using assms(5,6) by auto
  have o: "unat (?s ! 0) + 256 * unat (?s ! 1) = off q" using assms(3)
    by (simp add: unat_of_nat del: of_nat_mod of_nat_div)
  have f: "(if ?b = 15 then lz_ext 19 (lz_len_bytes (mlen q - 4) @ s) else Some (?b + 4, lz_len_bytes (mlen q - 4) @ s)) =
      Some (mlen q, s)"
    using lz_field [OF lens(2), of 19 4 s] assms(4) by simp
  have c: "\<not> (off q = 0 \<or> off q > length (out @ ?l))" using assms(1,2) by simp
  have "lz_enc_seq q @ s = of_nat (16 * lz_nib (length ?l) + ?b) # lz_len_bytes (length ?l) @ ?l @ ?s"
    by (simp add: lz_enc_seq_def)
  also have "lz_loop cap \<dots> out = lz_loop cap s (lz_copy (off q) (mlen q) (out @ ?l))"
    unfolding lz_loop_lits [OF lens(1) lz_nib_lt lens(3)] o
    using c f lens(4) by (simp add: Let_def)
  also have "lz_copy (off q) (mlen q) (out @ ?l) = lz_apply out q"
    unfolding lz_apply_def using assms(1,2) by (intro lz_copy_repeat) simp_all
  finally show ?thesis .
qed

lemma lz_loop_encode:
  assumes "lz_wf out qs" "length (foldl lz_apply out qs @ lastl) \<le> cap" "cap < 2 ^ 31"
  shows "lz_loop cap (lz_encode qs lastl) out = (length (foldl lz_apply out qs @ lastl), foldl lz_apply out qs @ lastl)"
  using assms(1,2)
proof (induction qs arbitrary: out)
  case Nil
  thus ?case using lz_loop_lits [of lastl 0 out cap "[]"] assms(3) by (simp add: lz_encode_def)
next
  case (Cons q qs)
  have "length (lz_apply out q) \<le> cap" using Cons.prems(2) lz_foldl_length [of "lz_apply out q" qs] by simp
  hence "lz_loop cap (lz_enc_seq q @ lz_encode qs lastl) out = lz_loop cap (lz_encode qs lastl) (lz_apply out q)"
    using Cons.prems(1) assms(3) by (intro lz_loop_seq) simp_all
  moreover have "lz_encode (q # qs) lastl = lz_enc_seq q @ lz_encode qs lastl" by (simp add: lz_encode_def)
  ultimately show ?case using Cons by simp
qed

definition lz_good :: "nat \<Rightarrow> nat \<times> bytes \<Rightarrow> bool" where
  "lz_good cap r \<longleftrightarrow> length (snd r) \<le> cap \<and> (fst r = 0 \<or> fst r = length (snd r))"

lemma lz_good_simps [simp]: "lz_good cap (0, out) \<longleftrightarrow> length out \<le> cap" "lz_good cap (length out, out) \<longleftrightarrow> length out \<le> cap"
  by (simp_all add: lz_good_def)

lemma lz_loop_bounds: "length out \<le> cap \<Longrightarrow> lz_good cap (lz_loop cap s out)"
proof (induction cap s out rule: lz_loop.induct)
  case (2 cap token s out)
  show ?case
    unfolding lz_loop.simps(2)
    apply (split option.split, intro conjI allI impI)
    subgoal using 2(2) by simp
    subgoal premises first for p
      apply (split prod.split, intro allI impI)
      subgoal premises pair for lit s1
        apply (split if_split, intro conjI impI)
        subgoal using 2(2) by simp
        subgoal premises fits
          apply (unfold Let_def, split if_split, intro conjI impI)
          subgoal using 2(2) fits by (auto simp: lz_good_def)
          subgoal premises ne
            apply (split if_split, intro conjI impI)
            subgoal using 2(2) fits by auto
            subgoal premises two
              apply (split if_split, intro conjI impI)
              subgoal using 2(2) fits by auto
              subgoal premises off
                apply (split option.split, intro conjI allI impI)
                subgoal using 2(2) fits by auto
                subgoal premises some for q
                  apply (split prod.split, intro allI impI)
                  subgoal premises q
                    apply (split if_split, intro conjI impI)
                    subgoal using 2(2) fits by auto
                    subgoal premises room
                      by (rule 2(1) [OF first pair [symmetric] fits refl refl ne two refl refl off some q [symmetric] room])
                        (use 2(2) fits room in auto)
                    done
                  done
                done
              done
            done
          done
        done
      done
    done
qed simp

subsection \<open>Properties\<close>

text \<open>Claim C31. The decoder inflates every LZ4 block: for any sequences of literals and matches (overlapping
  matches included) encoded as the format prescribes, it returns the length of their meaning and leaves exactly
  those bytes, whenever they fit the destination.\<close>

theorem lz4_decodes:
  assumes "lz_wf [] qs" "length (lz_meaning qs lastl) \<le> dstcap" "dstcap < 2 ^ 31"
  shows "lz4_block_decode (lz_encode qs lastl) dstcap = (length (lz_meaning qs lastl), lz_meaning qs lastl)"
  using lz_loop_encode [OF assms(1)] assms(2,3) by (simp add: lz4_block_decode_def lz_meaning_def)

text \<open>Hostile input is safe: whatever the source bytes, the decoder never writes past the destination's
  capacity, and it returns 0 or the number of bytes it wrote.\<close>

theorem lz4_never_overruns:
  "length (snd (lz4_block_decode src dstcap)) \<le> dstcap \<and>
   (fst (lz4_block_decode src dstcap) = 0 \<or> fst (lz4_block_decode src dstcap) = length (snd (lz4_block_decode src dstcap)))"
  using lz_loop_bounds [of "[]" dstcap src] by (simp add: lz4_block_decode_def lz_good_def)

lemma lz4_decodes_witness:
  "lz4_block_decode (lz_encode [LzSeq [1, 2] 1 20] [3]) 40 = (23, [1] @ replicate 21 2 @ [3])"
proof -
  have r: "lz_meaning [LzSeq [1, 2] 1 20] [3] = [1] @ replicate 21 2 @ [3]"
    by (simp add: lz_meaning_def lz_apply_def lz_repeat_def upt_rec numeral_eq_Suc)
  have w: "lz_wf [] [LzSeq [1, 2] 1 20]" by simp
  show ?thesis using lz4_decodes [OF w, of "[3]" 40, unfolded r] by simp
qed

end
