(* ===== verification/Sha2.thy ===== *)
theory Sha2
  imports Prelude
begin

text \<open>
  sha256.h and sha512.h: SHA-256, SHA-384 and SHA-512 as streaming contexts (init, update, final). A context
  keeps the C layout: a fixed block buffer whose first buf_len bytes are pending, and the byte count.
  The specification is the padded message cut into blocks and folded through the compression function; the theorems
  say that the streaming functions compute it for every way of cutting the message into updates.
\<close>

subsection \<open>SHA-256\<close>

record sha256_ctx =
  h256 :: "u32 list"
  buf256 :: bytes
  buf_len256 :: u32
  total_len256 :: u64

definition sha256_k :: "u32 list" where
  "sha256_k =
    [0x428A2F98, 0x71374491, 0xB5C0FBCF, 0xE9B5DBA5, 0x3956C25B, 0x59F111F1, 0x923F82A4, 0xAB1C5ED5,
     0xD807AA98, 0x12835B01, 0x243185BE, 0x550C7DC3, 0x72BE5D74, 0x80DEB1FE, 0x9BDC06A7, 0xC19BF174,
     0xE49B69C1, 0xEFBE4786, 0x0FC19DC6, 0x240CA1CC, 0x2DE92C6F, 0x4A7484AA, 0x5CB0A9DC, 0x76F988DA,
     0x983E5152, 0xA831C66D, 0xB00327C8, 0xBF597FC7, 0xC6E00BF3, 0xD5A79147, 0x06CA6351, 0x14292967,
     0x27B70A85, 0x2E1B2138, 0x4D2C6DFC, 0x53380D13, 0x650A7354, 0x766A0ABB, 0x81C2C92E, 0x92722C85,
     0xA2BFE8A1, 0xA81A664B, 0xC24B8B70, 0xC76C51A3, 0xD192E819, 0xD6990624, 0xF40E3585, 0x106AA070,
     0x19A4C116, 0x1E376C08, 0x2748774C, 0x34B0BCB5, 0x391C0CB3, 0x4ED8AA4A, 0x5B9CCA4F, 0x682E6FF3,
     0x748F82EE, 0x78A5636F, 0x84C87814, 0x8CC70208, 0x90BEFFFA, 0xA4506CEB, 0xBEF9A3F7, 0xC67178F2]"

definition sha256_rotr :: "u32 \<Rightarrow> nat \<Rightarrow> u32" where
  "sha256_rotr x n = drop_bit n x OR push_bit (32 - n) x"

definition sha256_get32_be :: "bytes \<Rightarrow> nat \<Rightarrow> u32" where
  "sha256_get32_be p i =
     push_bit 24 (ucast (p ! i)) OR push_bit 16 (ucast (p ! (i + 1))) OR push_bit 8 (ucast (p ! (i + 2))) OR
     ucast (p ! (i + 3))"

definition sha256_put32_be :: "u32 \<Rightarrow> bytes" where
  "sha256_put32_be v = [ucast (drop_bit 24 v), ucast (drop_bit 16 v), ucast (drop_bit 8 v), ucast v]"

text \<open>for (i = 16; i < 64; i++) w[i] = ...\<close>

definition sha256_schedule :: "bytes \<Rightarrow> u32 list" where
  "sha256_schedule block =
     fold (\<lambda>i w.
         let s0 = sha256_rotr (w ! (i - 15)) 7 XOR sha256_rotr (w ! (i - 15)) 18 XOR drop_bit 3 (w ! (i - 15));
             s1 = sha256_rotr (w ! (i - 2)) 17 XOR sha256_rotr (w ! (i - 2)) 19 XOR drop_bit 10 (w ! (i - 2))
         in w @ [w ! (i - 16) + s0 + w ! (i - 7) + s1])
       [16..<64] (map (\<lambda>i. sha256_get32_be block (i * 4)) [0..<16])"

type_synonym 'w regs = "'w \<times> 'w \<times> 'w \<times> 'w \<times> 'w \<times> 'w \<times> 'w \<times> 'w"

definition sha256_round :: "u32 \<Rightarrow> u32 \<Rightarrow> u32 regs \<Rightarrow> u32 regs" where
  "sha256_round k w = (\<lambda>(a, b, c, d, e, f, g, h).
     let S1 = sha256_rotr e 6 XOR sha256_rotr e 11 XOR sha256_rotr e 25;
         ch = (e AND f) XOR (NOT e AND g);
         temp1 = h + S1 + ch + k + w;
         S0 = sha256_rotr a 2 XOR sha256_rotr a 13 XOR sha256_rotr a 22;
         maj = (a AND b) XOR (a AND c) XOR (b AND c);
         temp2 = S0 + maj
     in (temp1 + temp2, a, b, c, d + temp1, e, f, g))"

definition regs_of :: "'w list \<Rightarrow> 'w regs" where
  "regs_of h = (h ! 0, h ! 1, h ! 2, h ! 3, h ! 4, h ! 5, h ! 6, h ! 7)"

definition regs_add :: "('w::plus) list \<Rightarrow> 'w regs \<Rightarrow> 'w list" where
  "regs_add h = (\<lambda>(a, b, c, d, e, f, g, x).
     [h ! 0 + a, h ! 1 + b, h ! 2 + c, h ! 3 + d, h ! 4 + e, h ! 5 + f, h ! 6 + g, h ! 7 + x])"

definition sha256_compress :: "u32 list \<Rightarrow> bytes \<Rightarrow> u32 list" where
  "sha256_compress h block =
     (let w = sha256_schedule block
      in regs_add h (fold (\<lambda>i. sha256_round (sha256_k ! i) (w ! i)) [0..<64] (regs_of h)))"

definition sha256_process_block :: "bytes \<Rightarrow> sha256_ctx \<Rightarrow> sha256_ctx" where
  "sha256_process_block block ctx = ctx\<lparr>h256 := sha256_compress (h256 ctx) block\<rparr>"

definition sha256_iv :: "u32 list" where
  "sha256_iv = [0x6A09E667, 0xBB67AE85, 0x3C6EF372, 0xA54FF53A, 0x510E527F, 0x9B05688C, 0x1F83D9AB, 0x5BE0CD19]"

text \<open>The context's buffer is not cleared by the code; buf is what the memory holds.\<close>

definition sha256_init :: "bytes \<Rightarrow> sha256_ctx" where
  "sha256_init buf = \<lparr>h256 = sha256_iv, buf256 = buf, buf_len256 = 0, total_len256 = 0\<rparr>"

text \<open>The loop of sha256_update: fill the buffer up to a block, process it when full.\<close>

function sha256_feed :: "sha256_ctx \<Rightarrow> bytes \<Rightarrow> sha256_ctx" where
  "sha256_feed ctx data =
     (if data = [] then ctx
      else
        let room = unat (64 - buf_len256 ctx);
            n = (if length data < room then length data else room);
            ctx = ctx\<lparr>buf256 := blit (buf256 ctx) (unat (buf_len256 ctx)) (take n data),
                      buf_len256 := buf_len256 ctx + of_nat n\<rparr>;
            ctx = (if buf_len256 ctx = 64 then (sha256_process_block (buf256 ctx) ctx)\<lparr>buf_len256 := 0\<rparr> else ctx)
        in sha256_feed ctx (drop n data))"
  by pat_completeness auto
termination
proof (relation "measures [\<lambda>(c, d). length d, \<lambda>(c, d). if buf_len256 c = 64 then 1 else 0]", goal_cases)
  case (2 ctx data room n ctx1 ctx2)
  have "0 < unat (64 - buf_len256 ctx)" if "buf_len256 ctx \<noteq> 64" using that by (simp add: unat_gt_0)
  thus ?case using 2 by (auto simp: Let_def sha256_process_block_def)
qed simp

declare sha256_feed.simps [simp del]

definition sha256_update :: "sha256_ctx \<Rightarrow> bytes \<Rightarrow> sha256_ctx" where
  "sha256_update ctx data = sha256_feed (ctx\<lparr>total_len256 := total_len256 ctx + of_nat (length data)\<rparr>) data"

text \<open>while (ctx->buf_len != 56) sha256_update(ctx, &zero, 1)\<close>

lemma sha256_feed_one:
  "buf_len256 (sha256_feed ctx [b]) = (if buf_len256 ctx = 63 then 0 else if buf_len256 ctx = 64 then 1 else buf_len256 ctx + 1)"
proof -
  have one: "buf_len256 (sha256_feed ctx [b]) = (if buf_len256 ctx = 63 then 0 else buf_len256 ctx + 1)"
    if "buf_len256 ctx \<noteq> 64" for ctx
  proof -
    have "unat (64 - buf_len256 ctx) \<noteq> 0" using that by (simp add: unat_eq_0)
    hence n: "(if length [b] < unat (64 - buf_len256 ctx) then length [b] else unat (64 - buf_len256 ctx)) = 1" by auto
    have e: "buf_len256 ctx + 1 = 64 \<longleftrightarrow> buf_len256 ctx = 63" by (auto simp: eq_diff_eq [symmetric])
    show ?thesis
      unfolding sha256_feed.simps [of ctx] Let_def n
      by (simp add: e sha256_feed.simps [of _ "[]"])
  qed
  show ?thesis
  proof (cases "buf_len256 ctx = 64")
    case True
    thus ?thesis using one by (subst sha256_feed.simps) (simp add: Let_def sha256_process_block_def)
  qed (use one in simp)
qed

function sha256_zero_fill :: "sha256_ctx \<Rightarrow> sha256_ctx" where
  "sha256_zero_fill ctx = (if buf_len256 ctx = 56 then ctx else sha256_zero_fill (sha256_update ctx [0]))"
  by pat_completeness auto
termination
proof (relation "measure (\<lambda>c. let n = unat (buf_len256 c) in if n < 57 then 56 - n else if n \<le> 64 then 121 - n else 2 ^ 32 + 100 - n)",
    goal_cases)
  case (2 ctx)
  let ?n = "unat (buf_len256 ctx)"
  have ne: "?n \<noteq> 56" using 2 by (simp add: word_unat_eq_iff)
  have e: "unat (buf_len256 (sha256_update ctx [0])) = (if ?n = 63 then 0 else if ?n = 64 then 1 else if ?n = 2 ^ 32 - 1 then 0 else ?n + 1)"
    using unat_u32_lt [of "buf_len256 ctx"]
    by (auto simp: sha256_update_def sha256_feed_one word_unat_eq_iff unat_word_ariths)
  show ?case using unat_u32_lt [of "buf_len256 ctx"] ne by (auto simp: e Let_def)
qed simp

definition sha256_final :: "sha256_ctx \<Rightarrow> bytes \<times> sha256_ctx" where
  "sha256_final ctx =
     (let bit_len = total_len256 ctx * 8;
          ctx = sha256_update ctx [0x80];
          ctx = sha256_zero_fill ctx;
          len_bytes = map (\<lambda>i. ucast (drop_bit (56 - i * 8) bit_len)) [0..<8];
          ctx = ctx\<lparr>buf256 := blit (buf256 ctx) (unat (buf_len256 ctx)) len_bytes, buf_len256 := buf_len256 ctx + 8\<rparr>;
          ctx = sha256_process_block (buf256 ctx) ctx
      in (concat (map (\<lambda>i. sha256_put32_be (h256 ctx ! i)) [0..<8]), ctx))"

definition sha256 :: "bytes \<Rightarrow> bytes \<Rightarrow> bytes" where
  "sha256 buf data = fst (sha256_final (sha256_update (sha256_init buf) data))"

subsection \<open>SHA-512 and SHA-384\<close>

definition SHA512_BLOCK_SIZE :: nat where "SHA512_BLOCK_SIZE = 128"
definition SHA512_DIGEST_SIZE :: nat where "SHA512_DIGEST_SIZE = 64"
definition SHA384_DIGEST_SIZE :: nat where "SHA384_DIGEST_SIZE = 48"

record sha512_ctx =
  state512 :: "u64 list"
  block512 :: bytes
  block_len512 :: u32
  total_len512 :: u64

definition sha512_k :: "u64 list" where
  "sha512_k =
    [0x428A2F98D728AE22, 0x7137449123EF65CD, 0xB5C0FBCFEC4D3B2F, 0xE9B5DBA58189DBBC,
     0x3956C25BF348B538, 0x59F111F1B605D019, 0x923F82A4AF194F9B, 0xAB1C5ED5DA6D8118,
     0xD807AA98A3030242, 0x12835B0145706FBE, 0x243185BE4EE4B28C, 0x550C7DC3D5FFB4E2,
     0x72BE5D74F27B896F, 0x80DEB1FE3B1696B1, 0x9BDC06A725C71235, 0xC19BF174CF692694,
     0xE49B69C19EF14AD2, 0xEFBE4786384F25E3, 0x0FC19DC68B8CD5B5, 0x240CA1CC77AC9C65,
     0x2DE92C6F592B0275, 0x4A7484AA6EA6E483, 0x5CB0A9DCBD41FBD4, 0x76F988DA831153B5,
     0x983E5152EE66DFAB, 0xA831C66D2DB43210, 0xB00327C898FB213F, 0xBF597FC7BEEF0EE4,
     0xC6E00BF33DA88FC2, 0xD5A79147930AA725, 0x06CA6351E003826F, 0x142929670A0E6E70,
     0x27B70A8546D22FFC, 0x2E1B21385C26C926, 0x4D2C6DFC5AC42AED, 0x53380D139D95B3DF,
     0x650A73548BAF63DE, 0x766A0ABB3C77B2A8, 0x81C2C92E47EDAEE6, 0x92722C851482353B,
     0xA2BFE8A14CF10364, 0xA81A664BBC423001, 0xC24B8B70D0F89791, 0xC76C51A30654BE30,
     0xD192E819D6EF5218, 0xD69906245565A910, 0xF40E35855771202A, 0x106AA07032BBD1B8,
     0x19A4C116B8D2D0C8, 0x1E376C085141AB53, 0x2748774CDF8EEB99, 0x34B0BCB5E19B48A8,
     0x391C0CB3C5C95A63, 0x4ED8AA4AE3418ACB, 0x5B9CCA4F7763E373, 0x682E6FF3D6B2B8A3,
     0x748F82EE5DEFB2FC, 0x78A5636F43172F60, 0x84C87814A1F0AB72, 0x8CC702081A6439EC,
     0x90BEFFFA23631E28, 0xA4506CEBDE82BDE9, 0xBEF9A3F7B2C67915, 0xC67178F2E372532B,
     0xCA273ECEEA26619C, 0xD186B8C721C0C207, 0xEADA7DD6CDE0EB1E, 0xF57D4F7FEE6ED178,
     0x06F067AA72176FBA, 0x0A637DC5A2C898A6, 0x113F9804BEF90DAE, 0x1B710B35131C471B,
     0x28DB77F523047D84, 0x32CAAB7B40C72493, 0x3C9EBE0A15C9BEBC, 0x431D67C49C100D4C,
     0x4CC5D4BECB3E42B6, 0x597F299CFC657E2A, 0x5FCB6FAB3AD6FAEC, 0x6C44198C4A475817]"

definition sha512_rotr :: "u64 \<Rightarrow> nat \<Rightarrow> u64" where
  "sha512_rotr x n = drop_bit n x OR push_bit (64 - n) x"

definition sha512_get64_be :: "bytes \<Rightarrow> nat \<Rightarrow> u64" where
  "sha512_get64_be p i =
     push_bit 56 (ucast (p ! i)) OR push_bit 48 (ucast (p ! (i + 1))) OR push_bit 40 (ucast (p ! (i + 2))) OR
     push_bit 32 (ucast (p ! (i + 3))) OR push_bit 24 (ucast (p ! (i + 4))) OR push_bit 16 (ucast (p ! (i + 5))) OR
     push_bit 8 (ucast (p ! (i + 6))) OR ucast (p ! (i + 7))"

definition sha512_put64_be :: "u64 \<Rightarrow> bytes" where
  "sha512_put64_be v = map (\<lambda>i. ucast (drop_bit (56 - 8 * i) v)) [0..<8]"

definition sha512_schedule :: "bytes \<Rightarrow> u64 list" where
  "sha512_schedule block =
     fold (\<lambda>i w.
         let s0 = sha512_rotr (w ! (i - 15)) 1 XOR sha512_rotr (w ! (i - 15)) 8 XOR drop_bit 7 (w ! (i - 15));
             s1 = sha512_rotr (w ! (i - 2)) 19 XOR sha512_rotr (w ! (i - 2)) 61 XOR drop_bit 6 (w ! (i - 2))
         in w @ [w ! (i - 16) + s0 + w ! (i - 7) + s1])
       [16..<80] (map (\<lambda>i. sha512_get64_be block (i * 8)) [0..<16])"

definition sha512_round :: "u64 \<Rightarrow> u64 \<Rightarrow> u64 regs \<Rightarrow> u64 regs" where
  "sha512_round k w = (\<lambda>(a, b, c, d, e, f, g, h).
     let S1 = sha512_rotr e 14 XOR sha512_rotr e 18 XOR sha512_rotr e 41;
         ch = (e AND f) XOR (NOT e AND g);
         t1 = h + S1 + ch + k + w;
         S0 = sha512_rotr a 28 XOR sha512_rotr a 34 XOR sha512_rotr a 39;
         maj = (a AND b) XOR (a AND c) XOR (b AND c);
         t2 = S0 + maj
     in (t1 + t2, a, b, c, d + t1, e, f, g))"

definition sha512_compress :: "u64 list \<Rightarrow> bytes \<Rightarrow> u64 list" where
  "sha512_compress h block =
     (let w = sha512_schedule block
      in regs_add h (fold (\<lambda>i. sha512_round (sha512_k ! i) (w ! i)) [0..<80] (regs_of h)))"

definition sha512_process_block :: "bytes \<Rightarrow> sha512_ctx \<Rightarrow> sha512_ctx" where
  "sha512_process_block block ctx = ctx\<lparr>state512 := sha512_compress (state512 ctx) block\<rparr>"

definition sha512_iv :: "u64 list" where
  "sha512_iv =
    [0x6A09E667F3BCC908, 0xBB67AE8584CAA73B, 0x3C6EF372FE94F82B, 0xA54FF53A5F1D36F1,
     0x510E527FADE682D1, 0x9B05688C2B3E6C1F, 0x1F83D9ABFB41BD6B, 0x5BE0CD19137E2179]"

definition sha384_iv :: "u64 list" where
  "sha384_iv =
    [0xCBBB9D5DC1059ED8, 0x629A292A367CD507, 0x9159015A3070DD17, 0x152FECD8F70E5939,
     0x67332667FFC00B31, 0x8EB44A8768581511, 0xDB0C2E0D64F98FA7, 0x47B5481DBEFA4FA4]"

definition sha512_init :: "bytes \<Rightarrow> sha512_ctx" where
  "sha512_init block = \<lparr>state512 = sha512_iv, block512 = block, block_len512 = 0, total_len512 = 0\<rparr>"

definition sha384_init :: "bytes \<Rightarrow> sha512_ctx" where
  "sha384_init block = \<lparr>state512 = sha384_iv, block512 = block, block_len512 = 0, total_len512 = 0\<rparr>"

function sha512_feed :: "sha512_ctx \<Rightarrow> bytes \<Rightarrow> sha512_ctx" where
  "sha512_feed ctx data =
     (if data = [] then ctx
      else
        let room = unat (of_nat SHA512_BLOCK_SIZE - block_len512 ctx);
            n = (if room > length data then length data else room);
            ctx = ctx\<lparr>block512 := blit (block512 ctx) (unat (block_len512 ctx)) (take n data),
                      block_len512 := block_len512 ctx + of_nat n\<rparr>;
            ctx = (if block_len512 ctx = of_nat SHA512_BLOCK_SIZE
                   then (sha512_process_block (block512 ctx) ctx)\<lparr>block_len512 := 0\<rparr> else ctx)
        in sha512_feed ctx (drop n data))"
  by pat_completeness auto
termination
proof (relation "measures [\<lambda>(c, d). length d, \<lambda>(c, d). if block_len512 c = 128 then 1 else 0]", goal_cases)
  case (2 ctx data room n ctx1 ctx2)
  have "0 < unat (128 - block_len512 ctx)" if "block_len512 ctx \<noteq> 128" using that by (simp add: unat_gt_0)
  thus ?case using 2 by (auto simp: Let_def sha512_process_block_def SHA512_BLOCK_SIZE_def)
qed simp

declare sha512_feed.simps [simp del]

definition sha512_update :: "sha512_ctx \<Rightarrow> bytes \<Rightarrow> sha512_ctx" where
  "sha512_update ctx data = sha512_feed (ctx\<lparr>total_len512 := total_len512 ctx + of_nat (length data)\<rparr>) data"

text \<open>while (ctx->block_len < stop) ctx->block[ctx->block_len++] = 0\<close>

definition sha512_zero_to :: "nat \<Rightarrow> sha512_ctx \<Rightarrow> sha512_ctx" where
  "sha512_zero_to stop ctx =
     (if unat (block_len512 ctx) < stop
      then ctx\<lparr>block512 := blit (block512 ctx) (unat (block_len512 ctx)) (replicate (stop - unat (block_len512 ctx)) 0),
               block_len512 := of_nat stop\<rparr>
      else ctx)"

definition sha512_final_n :: "nat \<Rightarrow> sha512_ctx \<Rightarrow> bytes \<times> sha512_ctx" where
  "sha512_final_n out_len ctx =
     (let bits_hi = drop_bit 61 (total_len512 ctx);
          bits_lo = push_bit 3 (total_len512 ctx);
          ctx = ctx\<lparr>block512 := blit (block512 ctx) (unat (block_len512 ctx)) [0x80], block_len512 := block_len512 ctx + 1\<rparr>;
          ctx = (if unat (block_len512 ctx) > SHA512_BLOCK_SIZE - 16
                 then let ctx = sha512_zero_to SHA512_BLOCK_SIZE ctx
                      in (sha512_process_block (block512 ctx) ctx)\<lparr>block_len512 := 0\<rparr>
                 else ctx);
          ctx = sha512_zero_to (SHA512_BLOCK_SIZE - 16) ctx;
          ctx = ctx\<lparr>block512 := blit (blit (block512 ctx) (SHA512_BLOCK_SIZE - 16) (sha512_put64_be bits_hi))
                                   (SHA512_BLOCK_SIZE - 8) (sha512_put64_be bits_lo)\<rparr>;
          ctx = sha512_process_block (block512 ctx) ctx;
          full = concat (map (\<lambda>i. sha512_put64_be (state512 ctx ! i)) [0..<8])
      in (take out_len full, ctx))"

definition sha512_final :: "sha512_ctx \<Rightarrow> bytes \<times> sha512_ctx" where
  "sha512_final = sha512_final_n SHA512_DIGEST_SIZE"

definition sha384_final :: "sha512_ctx \<Rightarrow> bytes \<times> sha512_ctx" where
  "sha384_final = sha512_final_n SHA384_DIGEST_SIZE"

definition sha512 :: "bytes \<Rightarrow> bytes \<Rightarrow> bytes" where
  "sha512 block data = fst (sha512_final (sha512_update (sha512_init block) data))"

definition sha384 :: "bytes \<Rightarrow> bytes \<Rightarrow> bytes" where
  "sha384 block data = fst (sha384_final (sha512_update (sha384_init block) data))"

subsection \<open>Hashing by blocks\<close>

text \<open>The specification: fold the compression function over the whole blocks of a message, keeping what is left.\<close>

function hash_blocks :: "nat \<Rightarrow> ('s \<Rightarrow> bytes \<Rightarrow> 's) \<Rightarrow> 's \<Rightarrow> bytes \<Rightarrow> 's \<times> bytes" where
  "hash_blocks B f s m =
     (if B = 0 \<or> length m < B then (s, m) else hash_blocks B f (f s (take B m)) (drop B m))"
  by pat_completeness auto
termination by (relation "measure (\<lambda>(_, _, _, m). length m)") auto

declare hash_blocks.simps [simp del]

lemma hash_blocks_short: "length m < B \<Longrightarrow> hash_blocks B f s m = (s, m)"
  by (subst hash_blocks.simps) simp

lemma hash_blocks_step: "0 < B \<Longrightarrow> length b = B \<Longrightarrow> hash_blocks B f s (b @ m) = hash_blocks B f (f s b) m"
  by (subst hash_blocks.simps) simp

lemma hash_blocks_append:
  "hash_blocks B f s m = (s', r) \<Longrightarrow> hash_blocks B f s (m @ n) = hash_blocks B f s' (r @ n)"
proof (induction B f s m rule: hash_blocks.induct)
  case (1 B f s m)
  show ?case
  proof (cases "B = 0 \<or> length m < B")
    case True
    thus ?thesis using 1(2) by (simp add: hash_blocks.simps [of B f s m])
  next
    case False
    have "hash_blocks B f s (m @ n) = hash_blocks B f (f s (take B m)) (drop B m @ n)"
      using False by (subst hash_blocks.simps) simp
    thus ?thesis using 1 False by (simp add: hash_blocks.simps [of B f s m])
  qed
qed

lemma hash_blocks_rest: "0 < B \<Longrightarrow> length (snd (hash_blocks B f s m)) = length m mod B"
proof (induction B f s m rule: hash_blocks.induct)
  case (1 B f s m)
  thus ?case by (subst hash_blocks.simps) (simp add: le_mod_geq)
qed

text \<open>Big-endian bytes and the padding of FIPS 180-4: a one bit, zeros, and the bit length in L bytes.\<close>

definition be_bytes :: "nat \<Rightarrow> nat \<Rightarrow> bytes" where
  "be_bytes k n = map (\<lambda>i. of_nat (n div 256 ^ (k - 1 - i) mod 256)) [0..<k]"

definition sha_padding :: "nat \<Rightarrow> nat \<Rightarrow> nat \<Rightarrow> bytes" where
  "sha_padding B L n = 0x80 # replicate ((2 * B - 1 - L - n mod B) mod B) 0 @ be_bytes L (8 * n)"

subsection \<open>Buffered streams\<close>

text \<open>What the streaming functions of both headers have in common: a context has a chaining state and the pending
  bytes of an unfinished block, and feeding data consumes it a buffer-full at a time.\<close>

locale block_stream =
  fixes B :: nat and compress :: "'s \<Rightarrow> bytes \<Rightarrow> 's"
    and state :: "'c \<Rightarrow> 's" and pending :: "'c \<Rightarrow> bytes" and count :: "'c \<Rightarrow> u64" and ok :: "'c \<Rightarrow> bool"
    and feed :: "'c \<Rightarrow> bytes \<Rightarrow> 'c" and update :: "'c \<Rightarrow> bytes \<Rightarrow> 'c"
  assumes B_pos: "0 < B"
    and ok_pending: "ok c \<Longrightarrow> length (pending c) < B"
    and feed_nil: "feed c [] = c"
    and feed_part: "ok c \<Longrightarrow> data \<noteq> [] \<Longrightarrow> length (pending c) + length data < B \<Longrightarrow>
      \<exists>c'. feed c data = c' \<and> ok c' \<and> count c' = count c \<and> state c' = state c \<and> pending c' = pending c @ data"
    and feed_block: "ok c \<Longrightarrow> data \<noteq> [] \<Longrightarrow> B \<le> length (pending c) + length data \<Longrightarrow>
      \<exists>c'. feed c data = feed c' (drop (B - length (pending c)) data) \<and> ok c' \<and> count c' = count c \<and>
        state c' = compress (state c) (pending c @ take (B - length (pending c)) data) \<and> pending c' = []"
    and update_feed: "\<exists>c'. update c data = feed c' data \<and> state c' = state c \<and> pending c' = pending c \<and>
      ok c' = ok c \<and> count c' = count c + of_nat (length data)"
begin

lemma feed_blocks:
  "ok c \<Longrightarrow> ok (feed c d) \<and> count (feed c d) = count c \<and>
     hash_blocks B compress (state c) (pending c @ d) = (state (feed c d), pending (feed c d))"
proof (induction "length d" arbitrary: c d rule: less_induct)
  case less
  consider "d = []" | "d \<noteq> []" "length (pending c) + length d < B" | "d \<noteq> []" "B \<le> length (pending c) + length d"
    by force
  thus ?case
  proof cases
    case 1
    thus ?thesis using less.prems ok_pending [of c] by (simp add: feed_nil hash_blocks_short)
  next
    case 2
    thus ?thesis using feed_part [OF less.prems 2] by (auto simp: hash_blocks_short)
  next
    case 3
    let ?k = "B - length (pending c)"
    from feed_block [OF less.prems 3] obtain c' where c': "feed c d = feed c' (drop ?k d)" "ok c'" "count c' = count c"
      "state c' = compress (state c) (pending c @ take ?k d)" "pending c' = []" by blast
    have "length (pending c) < B" by (rule ok_pending [OF less.prems])
    hence l: "length (drop ?k d) < length d" "length (pending c @ take ?k d) = B" using 3 by auto
    have "pending c @ d = (pending c @ take ?k d) @ drop ?k d" by simp
    also have "hash_blocks B compress (state c) \<dots> = hash_blocks B compress (compress (state c) (pending c @ take ?k d)) (drop ?k d)"
      by (rule hash_blocks_step [OF B_pos l(2)])
    finally have "hash_blocks B compress (state c) (pending c @ d) = hash_blocks B compress (state c') (pending c' @ drop ?k d)"
      by (simp add: c'(4,5))
    thus ?thesis using less.hyps [OF l(1) c'(2)] by (simp add: c'(1,3))
  qed
qed

lemma update_blocks:
  assumes "ok c"
  shows "ok (update c d)" "count (update c d) = count c + of_nat (length d)"
    "hash_blocks B compress (state c) (pending c @ d) = (state (update c d), pending (update c d))"
proof -
  obtain c' where "update c d = feed c' d" "state c' = state c" "pending c' = pending c" "ok c' = ok c"
    "count c' = count c + of_nat (length d)" using update_feed by blast
  thus "ok (update c d)" "count (update c d) = count c + of_nat (length d)"
    "hash_blocks B compress (state c) (pending c @ d) = (state (update c d), pending (update c d))"
    using feed_blocks [of c' d] assms by simp_all
qed

text \<open>A context has read a message when it holds the chaining state, the rest and the length of it.\<close>

definition read :: "'s \<Rightarrow> bytes \<Rightarrow> 'c \<Rightarrow> bool" where
  "read s m c \<longleftrightarrow> ok c \<and> hash_blocks B compress s m = (state c, pending c) \<and> count c = of_nat (length m)"

lemma read_update: "read s m c \<Longrightarrow> read s (m @ d) (update c d)"
  using update_blocks [of c d] hash_blocks_append [of B compress s m "state c" "pending c" d]
  by (simp add: read_def)

lemma read_updates: "read s m c \<Longrightarrow> read s (m @ concat ds) (fold (\<lambda>d c. update c d) ds c)"
  using read_update by (induction ds arbitrary: m c) fastforce+

end

text \<open>A whole hash: a start and an end that pads.\<close>

locale stream_hash = block_stream B compress state pending count ok feed update
  for B :: nat and compress :: "'s \<Rightarrow> bytes \<Rightarrow> 's" and state :: "'c \<Rightarrow> 's" and pending :: "'c \<Rightarrow> bytes"
    and count :: "'c \<Rightarrow> u64" and ok :: "'c \<Rightarrow> bool" and feed update :: "'c \<Rightarrow> bytes \<Rightarrow> 'c" +
  fixes start :: 'c and finish :: "'c \<Rightarrow> bytes" and L :: nat and digest :: "'s \<Rightarrow> bytes"
  assumes start_ok: "ok start" "pending start = []" "count start = 0"
    and finish_pads: "ok c \<Longrightarrow> count c = of_nat n \<Longrightarrow> n < 2 ^ 61 \<Longrightarrow> length (pending c) = n mod B \<Longrightarrow>
      finish c = digest (fst (hash_blocks B compress (state c) (pending c @ sha_padding B L n)))"
begin

lemma streaming:
  assumes "length (concat ds) < 2 ^ 61"
  shows "finish (fold (\<lambda>d c. update c d) ds start) =
    digest (fst (hash_blocks B compress (state start) (concat ds @ sha_padding B L (length (concat ds)))))"
proof -
  have "read (state start) [] start" using start_ok B_pos by (simp add: read_def hash_blocks_short)
  from read_updates [OF this, of ds]
  have r: "read (state start) (concat ds) (fold (\<lambda>d c. update c d) ds start)" (is "read _ _ ?c") by simp
  have "length (pending ?c) = length (concat ds) mod B"
    using r hash_blocks_rest [OF B_pos, of compress "state start" "concat ds"] by (simp add: read_def)
  with r finish_pads [of ?c "length (concat ds)"] assms
  have "finish ?c = digest (fst (hash_blocks B compress (state ?c) (pending ?c @ sha_padding B L (length (concat ds)))))"
    by (simp add: read_def)
  moreover have "hash_blocks B compress (state start) (concat ds @ p) = hash_blocks B compress (state ?c) (pending ?c @ p)" for p
    using r by (intro hash_blocks_append) (simp add: read_def)
  ultimately show ?thesis by simp
qed

end
subsection \<open>SHA-256 is the padded block hash\<close>

definition pending256 :: "sha256_ctx \<Rightarrow> bytes" where "pending256 c = take (unat (buf_len256 c)) (buf256 c)"
definition sha256_ok :: "sha256_ctx \<Rightarrow> bool" where
  "sha256_ok c \<longleftrightarrow> length (buf256 c) = 64 \<and> unat (buf_len256 c) < 64"

definition digest256 :: "u32 list \<Rightarrow> bytes" where "digest256 h = concat (map (\<lambda>i. sha256_put32_be (h ! i)) [0..<8])"

definition fips_sha256 :: "bytes \<Rightarrow> bytes" where
  "fips_sha256 m = digest256 (fst (hash_blocks 64 sha256_compress sha256_iv (m @ sha_padding 64 8 (length m))))"

lemma blit_append: "k \<le> length b \<Longrightarrow> k + length d \<le> length b \<Longrightarrow> take (k + length d) (blit b k d) = take k b @ d"
  by (simp add: blit_def)

lemma len256_word:
  assumes "sha256_ok c"
  shows "unat (64 - buf_len256 c) = 64 - length (pending256 c)" "length (pending256 c) = unat (buf_len256 c)"
proof -
  show l: "length (pending256 c) = unat (buf_len256 c)" using assms by (simp add: pending256_def sha256_ok_def)
  have "buf_len256 c \<le> 64" using assms by (simp add: sha256_ok_def word_le_nat_alt)
  thus "unat (64 - buf_len256 c) = 64 - length (pending256 c)" unfolding l by (simp add: unat_sub)
qed

lemma add256:
  assumes "sha256_ok c" "n \<le> 64 - unat (buf_len256 c)"
  shows "unat (buf_len256 c + of_nat n) = unat (buf_len256 c) + n" "buf_len256 c + of_nat n = 64 \<longleftrightarrow> unat (buf_len256 c) + n = 64"
proof -
  show u: "unat (buf_len256 c + of_nat n) = unat (buf_len256 c) + n"
    using assms by (auto simp: sha256_ok_def unat_word_ariths unat_of_nat)
  show "buf_len256 c + of_nat n = 64 \<longleftrightarrow> unat (buf_len256 c) + n = 64"
    unfolding word_unat_eq_iff u by simp
qed

lemma feed256_part:
  assumes ok: "sha256_ok c" and d: "data \<noteq> []" "length (pending256 c) + length data < 64"
  shows "\<exists>c'. sha256_feed c data = c' \<and> sha256_ok c' \<and> total_len256 c' = total_len256 c \<and> h256 c' = h256 c \<and>
    pending256 c' = pending256 c @ data"
proof -
  note l = len256_word [OF ok]
  have n: "(if length data < 64 - length (pending256 c) then length data else 64 - length (pending256 c)) = length data" using d by simp
  have m: "length data \<le> 64 - unat (buf_len256 c)" using d l by simp
  have ne: "unat (buf_len256 c) + length data \<noteq> 64" using d l by simp
  have e: "sha256_feed c data = c\<lparr>buf256 := blit (buf256 c) (unat (buf_len256 c)) data, buf_len256 := buf_len256 c + of_nat (length data)\<rparr>"
    unfolding sha256_feed.simps [of c data] Let_def l(1) n
    using d(1) add256(2) [OF ok m] ne by (simp add: sha256_feed.simps [of _ "[]"])
  show ?thesis
    unfolding e using ok d l add256(1) [OF ok m] blit_append [of "unat (buf_len256 c)" "buf256 c" data]
    by (simp add: sha256_ok_def pending256_def)
qed

lemma feed256_block:
  assumes ok: "sha256_ok c" and d: "data \<noteq> []" "64 \<le> length (pending256 c) + length data"
  shows "\<exists>c'. sha256_feed c data = sha256_feed c' (drop (64 - length (pending256 c)) data) \<and> sha256_ok c' \<and>
    total_len256 c' = total_len256 c \<and>
    h256 c' = sha256_compress (h256 c) (pending256 c @ take (64 - length (pending256 c)) data) \<and> pending256 c' = []"
proof -
  note l = len256_word [OF ok]
  let ?k = "64 - length (pending256 c)"
  have n: "(if length data < ?k then length data else ?k) = ?k" using d by simp
  have m: "?k \<le> 64 - unat (buf_len256 c)" "unat (buf_len256 c) + ?k = 64" using ok l by (simp_all add: sha256_ok_def)
  have lt: "length (take ?k data) = ?k" using d by simp
  let ?b = "blit (buf256 c) (unat (buf_len256 c)) (take ?k data)"
  have lb: "length ?b = 64" using ok m lt by (simp add: sha256_ok_def)
  have "take 64 ?b = pending256 c @ take ?k data"
    using blit_append [of "unat (buf_len256 c)" "buf256 c" "take ?k data"] ok m(2) lt by (simp add: sha256_ok_def pending256_def)
  hence b: "?b = pending256 c @ take ?k data" using lb by simp
  let ?c = "c\<lparr>buf256 := ?b, h256 := sha256_compress (h256 c) ?b, buf_len256 := 0\<rparr>"
  have "sha256_feed c data = sha256_feed ?c (drop ?k data)"
    unfolding sha256_feed.simps [of c data] Let_def l(1) n
    using d(1) add256(2) [OF ok m(1)] m(2) by (simp add: sha256_process_block_def)
  moreover have "sha256_ok ?c" "h256 ?c = sha256_compress (h256 c) (pending256 c @ take ?k data)" "pending256 ?c = []"
    using lb b by (simp_all add: sha256_ok_def pending256_def)
  moreover have "total_len256 ?c = total_len256 c" by simp
  ultimately show ?thesis by blast
qed

interpretation feed256: block_stream 64 sha256_compress h256 pending256 total_len256 sha256_ok sha256_feed sha256_update
proof (unfold_locales, goal_cases)
  case (2 c) thus ?case using len256_word(2) [OF 2] by (simp add: sha256_ok_def)
next
  case (3 c) show ?case by (simp add: sha256_feed.simps)
next
  case (4 c data) thus ?case by (rule feed256_part)
next
  case (5 c data) thus ?case by (rule feed256_block)
next
  case (6 c data)
  show ?case by (rule exI [of _ "c\<lparr>total_len256 := total_len256 c + of_nat (length data)\<rparr>"])
    (simp add: sha256_update_def sha256_ok_def pending256_def)
qed simp

lemma fill_count:
  assumes "p < 64" "p \<noteq> 56"
  shows "(120 - p) mod 64 = Suc ((120 - (p + 1) mod 64) mod (64 :: nat))"
proof -
  consider "p < 56" | "56 < p" "p < 63" | "p = 63" using assms by linarith
  thus ?thesis
  proof cases
    case 1
    thus ?thesis by (simp add: le_mod_geq)
  next
    case 2
    thus ?thesis by simp
  qed simp
qed

lemma zero_fill256:
  "sha256_ok c \<Longrightarrow> sha256_ok (sha256_zero_fill c) \<and> length (pending256 (sha256_zero_fill c)) = 56 \<and>
   hash_blocks 64 sha256_compress (h256 c) (pending256 c @ replicate ((120 - length (pending256 c)) mod 64) 0) =
     (h256 (sha256_zero_fill c), pending256 (sha256_zero_fill c))"
proof (induction c rule: sha256_zero_fill.induct)
  case (1 c)
  note l = len256_word [OF 1(2)]
  show ?case
  proof (cases "buf_len256 c = 56")
    case True
    thus ?thesis using 1(2) l by (simp add: sha256_zero_fill.simps [of c] hash_blocks_short)
  next
    case False
    hence ne: "length (pending256 c) \<noteq> 56" by (simp add: l(2) word_unat_eq_iff)
    have lt: "length (pending256 c) < 64" using 1(2) l(2) by (simp add: sha256_ok_def)
    let ?u = "sha256_update c [0]"
    note u = feed256.update_blocks [OF 1(2), of "[0]"]
    have lu: "length (pending256 ?u) = (length (pending256 c) + 1) mod 64"
      using hash_blocks_rest [of 64 sha256_compress "h256 c" "pending256 c @ [0]"] u(3) by simp
    have "(120 - length (pending256 c)) mod 64 = Suc ((120 - length (pending256 ?u)) mod 64)"
      unfolding lu by (rule fill_count [OF lt ne])
    hence "pending256 c @ replicate ((120 - length (pending256 c)) mod 64) 0 =
        (pending256 c @ [0]) @ replicate ((120 - length (pending256 ?u)) mod 64) 0" by simp
    hence "hash_blocks 64 sha256_compress (h256 c) (pending256 c @ replicate ((120 - length (pending256 c)) mod 64) 0) =
        hash_blocks 64 sha256_compress (h256 ?u) (pending256 ?u @ replicate ((120 - length (pending256 ?u)) mod 64) 0)"
      using hash_blocks_append [OF u(3)] by simp
    thus ?thesis using 1(1) [OF False u(1)] False by (simp add: sha256_zero_fill.simps [of c])
  qed
qed

lemma be_byte:
  assumes "m < 2 ^ 64"
  shows "(ucast (drop_bit k (of_nat m :: u64)) :: u8) = of_nat (m div 2 ^ k mod 256)"
proof -
  define x :: u64 where "x = of_nat m"
  have x: "unat x = m" using assms by (simp add: x_def unat_of_nat)
  have "unat (drop_bit k x) = m div 2 ^ k" unfolding unsigned_drop_bit_eq x using assms by (simp add: drop_bit_eq_div take_bit_nat_eq_self)
  hence "unat (ucast (drop_bit k x) :: u8) = m div 2 ^ k mod 256"
    unfolding unsigned_ucast_eq by (simp add: take_bit_eq_mod)
  thus ?thesis unfolding x_def by (simp add: word_unat_eq_iff unat_of_nat)
qed

lemma be_bytes_8:
  assumes "m < 2 ^ 64"
  shows "map (\<lambda>i. ucast (drop_bit (56 - i * 8) (of_nat m :: u64)) :: u8) [0..<8] = be_bytes 8 m"
proof -
  have "(2 :: nat) ^ (56 - i * 8) = 256 ^ (7 - i)" for i
  proof -
    have "56 - i * 8 = 8 * (7 - i)" by simp
    thus ?thesis by (simp add: power_mult)
  qed
  thus ?thesis unfolding be_bytes_def be_byte [OF assms] by simp
qed

lemma finish256:
  assumes ok: "sha256_ok c" and n: "total_len256 c = of_nat n" "n < 2 ^ 61" and p: "length (pending256 c) = n mod 64"
  shows "fst (sha256_final c) =
    digest256 (fst (hash_blocks 64 sha256_compress (h256 c) (pending256 c @ sha_padding 64 8 n)))"
proof -
  define u where "u = sha256_update c [0x80]"
  define z where "z = sha256_zero_fill u"
  note u = feed256.update_blocks [OF ok, of "[0x80]", folded u_def]
  note z = zero_fill256 [OF u(1), folded z_def]
  have lu: "length (pending256 u) = (length (pending256 c) + 1) mod 64"
    using hash_blocks_rest [of 64 sha256_compress "h256 c" "pending256 c @ [0x80]"] u(3) by simp
  have k: "(2 * 64 - 1 - 8 - n mod 64) mod 64 = (120 - length (pending256 u)) mod 64"
    unfolding lu p by (cases "n mod 64 = 63") (auto simp: mod_Suc)
  have "hash_blocks 64 sha256_compress (h256 c) ((pending256 c @ [0x80]) @ replicate ((120 - length (pending256 u)) mod 64) 0)
      = (h256 z, pending256 z)"
    using hash_blocks_append [OF u(3)] z by simp
  from hash_blocks_append [OF this, of "be_bytes 8 (8 * n)"]
  have "hash_blocks 64 sha256_compress (h256 c) (pending256 c @ sha_padding 64 8 n)
      = hash_blocks 64 sha256_compress (h256 z) (pending256 z @ be_bytes 8 (8 * n))"
    unfolding sha_padding_def k by simp
  also have "\<dots> = (sha256_compress (h256 z) (pending256 z @ be_bytes 8 (8 * n)), [])"
    using hash_blocks_step [of 64 "pending256 z @ be_bytes 8 (8 * n)" sha256_compress "h256 z" "[]"] z
    by (simp add: be_bytes_def hash_blocks_short)
  finally have spec: "fst (hash_blocks 64 sha256_compress (h256 c) (pending256 c @ sha_padding 64 8 n)) =
      sha256_compress (h256 z) (pending256 z @ be_bytes 8 (8 * n))" by simp
  have lz: "unat (buf_len256 z) = 56" "length (buf256 z) = 64" using z len256_word(2) [of z] by (simp_all add: sha256_ok_def)
  have "blit (buf256 z) 56 (be_bytes 8 (8 * n)) = take (56 + 8) (blit (buf256 z) 56 (be_bytes 8 (8 * n)))"
    using lz by (simp add: be_bytes_def)
  also have "\<dots> = pending256 z @ be_bytes 8 (8 * n)"
    using blit_append [of 56 "buf256 z" "be_bytes 8 (8 * n)"] lz by (simp add: be_bytes_def pending256_def)
  finally have b: "blit (buf256 z) 56 (be_bytes 8 (8 * n)) = pending256 z @ be_bytes 8 (8 * n)" .
  have len: "map (\<lambda>i. ucast (drop_bit (56 - i * 8) (total_len256 c * 8)) :: u8) [0..<8] = be_bytes 8 (8 * n)"
    using be_bytes_8 [of "8 * n"] n by (simp add: mult.commute)
  show ?thesis
    unfolding sha256_final_def Let_def u_def [symmetric] z_def [symmetric] len spec
    by (simp add: lz b sha256_process_block_def digest256_def)
qed

text \<open>Any block buffer will do to start with.\<close>

definition block_of :: "nat \<Rightarrow> bytes \<Rightarrow> bytes" where "block_of n b = take n (b @ replicate n 0)"

lemma block_of_length [simp]: "length (block_of n b) = n" by (simp add: block_of_def)
lemma block_of_same [simp]: "length b = n \<Longrightarrow> block_of n b = b" by (simp add: block_of_def)

interpretation sha256_stream: stream_hash 64 sha256_compress h256 pending256 total_len256 sha256_ok sha256_feed sha256_update
  "sha256_init (block_of 64 b)" "\<lambda>c. fst (sha256_final c)" 8 digest256 for b
  by unfold_locales (simp_all add: finish256 sha256_init_def sha256_ok_def pending256_def)

lemma sha256_updates:
  assumes "length b = 64" "length (concat ds) < 2 ^ 61"
  shows "fst (sha256_final (fold (\<lambda>d c. sha256_update c d) ds (sha256_init b))) = fips_sha256 (concat ds)"
  using sha256_stream.streaming [OF assms(2), of b] assms(1) by (simp add: fips_sha256_def sha256_init_def)

text \<open>Claim C32. SHA-256 streams: however a message of less than 2 ^ 61 bytes is cut into updates (empty ones
  included) and whatever the block buffer held before, the digest is the FIPS 180-4 hash of the whole message, the
  fold of the compression function over the message with its one bit, zeros and bit length.\<close>

theorem sha256_streaming:
  assumes "length b = 64" "length (concat ds) < 2 ^ 61"
  shows "fst (sha256_final (fold (\<lambda>d c. sha256_update c d) ds (sha256_init b))) = fips_sha256 (concat ds) \<and>
    sha256 b (concat ds) = fips_sha256 (concat ds) \<and> length (fips_sha256 (concat ds)) = 32"
  using sha256_updates [OF assms] sha256_updates [of b "[concat ds]"] assms
  by (simp add: sha256_def fips_sha256_def digest256_def sha256_put32_be_def length_concat comp_def upt_rec)

lemma sha256_streaming_witness:
  "fst (sha256_final (sha256_update (sha256_update (sha256_init (replicate 64 0xFF)) [97]) [98, 99])) = fips_sha256 [97, 98, 99]"
  using sha256_streaming [of "replicate 64 0xFF" "[[97], [98, 99]]"] by simp

subsection \<open>SHA-512 and SHA-384\<close>

definition pending512 :: "sha512_ctx \<Rightarrow> bytes" where "pending512 c = take (unat (block_len512 c)) (block512 c)"
definition sha512_ok :: "sha512_ctx \<Rightarrow> bool" where
  "sha512_ok c \<longleftrightarrow> length (block512 c) = 128 \<and> unat (block_len512 c) < 128"

definition digest512 :: "u64 list \<Rightarrow> bytes" where "digest512 h = concat (map (\<lambda>i. sha512_put64_be (h ! i)) [0..<8])"

definition fips_sha512 :: "bytes \<Rightarrow> bytes" where
  "fips_sha512 m = digest512 (fst (hash_blocks 128 sha512_compress sha512_iv (m @ sha_padding 128 16 (length m))))"

definition fips_sha384 :: "bytes \<Rightarrow> bytes" where
  "fips_sha384 m = take 48 (digest512 (fst (hash_blocks 128 sha512_compress sha384_iv (m @ sha_padding 128 16 (length m)))))"

lemma len512_word:
  assumes "sha512_ok c"
  shows "unat (128 - block_len512 c) = 128 - length (pending512 c)" "length (pending512 c) = unat (block_len512 c)"
proof -
  show l: "length (pending512 c) = unat (block_len512 c)" using assms by (simp add: pending512_def sha512_ok_def)
  have "block_len512 c \<le> 128" using assms by (simp add: sha512_ok_def word_le_nat_alt)
  thus "unat (128 - block_len512 c) = 128 - length (pending512 c)" unfolding l by (simp add: unat_sub)
qed

lemma add512:
  assumes "sha512_ok c" "n \<le> 128 - unat (block_len512 c)"
  shows "unat (block_len512 c + of_nat n) = unat (block_len512 c) + n" "block_len512 c + of_nat n = 128 \<longleftrightarrow> unat (block_len512 c) + n = 128"
proof -
  show u: "unat (block_len512 c + of_nat n) = unat (block_len512 c) + n"
    using assms by (auto simp: sha512_ok_def unat_word_ariths unat_of_nat)
  show "block_len512 c + of_nat n = 128 \<longleftrightarrow> unat (block_len512 c) + n = 128"
    unfolding word_unat_eq_iff u by simp
qed

lemma feed512_part:
  assumes ok: "sha512_ok c" and d: "data \<noteq> []" "length (pending512 c) + length data < 128"
  shows "\<exists>c'. sha512_feed c data = c' \<and> sha512_ok c' \<and> total_len512 c' = total_len512 c \<and> state512 c' = state512 c \<and>
    pending512 c' = pending512 c @ data"
proof -
  note l = len512_word [OF ok]
  have n: "(if 128 - length (pending512 c) > length data then length data else 128 - length (pending512 c)) = length data" using d by simp
  have m: "length data \<le> 128 - unat (block_len512 c)" using d l by simp
  have ne: "unat (block_len512 c) + length data \<noteq> 128" using d l by simp
  have e: "sha512_feed c data = c\<lparr>block512 := blit (block512 c) (unat (block_len512 c)) data, block_len512 := block_len512 c + of_nat (length data)\<rparr>"
    unfolding sha512_feed.simps [of c data] Let_def SHA512_BLOCK_SIZE_def of_nat_numeral l(1) n
    using d(1) add512(2) [OF ok m] ne by (simp add: sha512_feed.simps [of _ "[]"])
  show ?thesis
    unfolding e using ok d l add512(1) [OF ok m] blit_append [of "unat (block_len512 c)" "block512 c" data]
    by (simp add: sha512_ok_def pending512_def)
qed

lemma feed512_block:
  assumes ok: "sha512_ok c" and d: "data \<noteq> []" "128 \<le> length (pending512 c) + length data"
  shows "\<exists>c'. sha512_feed c data = sha512_feed c' (drop (128 - length (pending512 c)) data) \<and> sha512_ok c' \<and>
    total_len512 c' = total_len512 c \<and>
    state512 c' = sha512_compress (state512 c) (pending512 c @ take (128 - length (pending512 c)) data) \<and> pending512 c' = []"
proof -
  note l = len512_word [OF ok]
  let ?k = "128 - length (pending512 c)"
  have n: "(if ?k > length data then length data else ?k) = ?k" using d by simp
  have m: "?k \<le> 128 - unat (block_len512 c)" "unat (block_len512 c) + ?k = 128" using ok l by (simp_all add: sha512_ok_def)
  have lt: "length (take ?k data) = ?k" using d by simp
  let ?b = "blit (block512 c) (unat (block_len512 c)) (take ?k data)"
  have lb: "length ?b = 128" using ok m lt by (simp add: sha512_ok_def)
  have "take 128 ?b = pending512 c @ take ?k data"
    using blit_append [of "unat (block_len512 c)" "block512 c" "take ?k data"] ok m(2) lt by (simp add: sha512_ok_def pending512_def)
  hence b: "?b = pending512 c @ take ?k data" using lb by simp
  let ?c = "c\<lparr>block512 := ?b, state512 := sha512_compress (state512 c) ?b, block_len512 := 0\<rparr>"
  have "sha512_feed c data = sha512_feed ?c (drop ?k data)"
    unfolding sha512_feed.simps [of c data] Let_def SHA512_BLOCK_SIZE_def of_nat_numeral l(1) n
    using d(1) add512(2) [OF ok m(1)] m(2) by (simp add: sha512_process_block_def)
  moreover have "sha512_ok ?c" "state512 ?c = sha512_compress (state512 c) (pending512 c @ take ?k data)" "pending512 ?c = []"
    using lb b by (simp_all add: sha512_ok_def pending512_def)
  moreover have "total_len512 ?c = total_len512 c" by simp
  ultimately show ?thesis by blast
qed

interpretation feed512: block_stream 128 sha512_compress state512 pending512 total_len512 sha512_ok sha512_feed sha512_update
proof (unfold_locales, goal_cases)
  case (2 c) thus ?case using len512_word(2) [OF 2] by (simp add: sha512_ok_def)
next
  case (3 c) show ?case by (simp add: sha512_feed.simps)
next
  case (4 c data) thus ?case by (rule feed512_part)
next
  case (5 c data) thus ?case by (rule feed512_block)
next
  case (6 c data)
  show ?case by (rule exI [of _ "c\<lparr>total_len512 := total_len512 c + of_nat (length data)\<rparr>"])
    (simp add: sha512_update_def sha512_ok_def pending512_def)
qed simp


lemma be_bytes_16: "m < 2 ^ 64 \<Longrightarrow> be_bytes 16 m = replicate 8 0 @ be_bytes 8 m"
proof -
  assume m: "m < 2 ^ 64"
  have "m div 256 ^ (15 - i) = 0" if "i < 8" for i
  proof -
    have "(256 :: nat) ^ 8 \<le> 256 ^ (15 - i)" by (rule power_increasing) (use that in simp_all)
    thus ?thesis using m by (intro div_less) simp
  qed
  moreover have "[0..<16] = [0..<8] @ map ((+) 8) [0..<8]" by (simp add: upt_rec)
  ultimately show ?thesis by (auto simp: be_bytes_def comp_def intro!: nth_equalityI)
qed

lemma zero_to512:
  assumes "length (block512 c) = 128" "unat (block_len512 c) \<le> stop" "stop \<le> 128"
  shows "take stop (block512 (sha512_zero_to stop c)) = take (unat (block_len512 c)) (block512 c) @ replicate (stop - unat (block_len512 c)) 0"
    "length (block512 (sha512_zero_to stop c)) = 128" "unat (block_len512 (sha512_zero_to stop c)) = stop"
    "state512 (sha512_zero_to stop c) = state512 c"
proof -
  have w: "unat (of_nat stop :: u32) = stop" using assms(3) by (simp add: unat_of_nat)
  show "take stop (block512 (sha512_zero_to stop c)) = take (unat (block_len512 c)) (block512 c) @ replicate (stop - unat (block_len512 c)) 0"
  proof (cases "unat (block_len512 c) < stop")
    case True
    thus ?thesis
      using blit_append [of "unat (block_len512 c)" "block512 c" "replicate (stop - unat (block_len512 c)) 0"] assms
      by (simp add: sha512_zero_to_def)
  next
    case False
    thus ?thesis using assms by (simp add: sha512_zero_to_def)
  qed
  show "length (block512 (sha512_zero_to stop c)) = 128" "unat (block_len512 (sha512_zero_to stop c)) = stop"
    "state512 (sha512_zero_to stop c) = state512 c"
    using assms w by (auto simp: sha512_zero_to_def)
qed

text \<open>The end of sha512_final_n: with at most 112 bytes pending, zeros and the length complete the last block.\<close>

lemma last_block512:
  assumes "length (block512 c) = 128" "unat (block_len512 c) \<le> 112"
  shows "blit (blit (block512 (sha512_zero_to 112 c)) 112 (replicate 8 0)) 120 (be_bytes 8 m) =
    pending512 c @ replicate (112 - unat (block_len512 c)) 0 @ replicate 8 0 @ be_bytes 8 m"
proof -
  note z = zero_to512 [OF assms(1), of 112] 
  have "length (be_bytes 8 m) = 8" by (simp add: be_bytes_def)
  hence "blit (blit (block512 (sha512_zero_to 112 c)) 112 (replicate 8 0)) 120 (be_bytes 8 m) =
      take 112 (block512 (sha512_zero_to 112 c)) @ replicate 8 0 @ be_bytes 8 m"
    using z(2) assms(2) by (simp add: blit_def)
  thus ?thesis using z(1) assms(2) by (simp add: pending512_def)
qed

lemma finish512:
  assumes ok: "sha512_ok c" and n: "total_len512 c = of_nat n" "n < 2 ^ 61" and p: "length (pending512 c) = n mod 128"
  shows "fst (sha512_final_n out_len c) =
    take out_len (digest512 (fst (hash_blocks 128 sha512_compress (state512 c) (pending512 c @ sha_padding 128 16 n))))"
proof -
  let ?p = "unat (block_len512 c)"
  have lp: "length (pending512 c) = ?p" "?p < 128" "length (block512 c) = 128"
    using len512_word(2) [OF ok] ok by (simp_all add: sha512_ok_def)
  have hi: "sha512_put64_be (drop_bit 61 (total_len512 c)) = replicate 8 0"
  proof -
    have "unat (drop_bit 61 (of_nat n :: u64)) = 0"
      unfolding unsigned_drop_bit_eq using n(2) by (simp add: drop_bit_eq_div unat_of_nat take_bit_eq_mod)
    hence "drop_bit 61 (total_len512 c) = 0" by (simp add: n(1) unat_eq_0)
    thus ?thesis by (simp add: sha512_put64_be_def map_replicate_const)
  qed
  have lo: "sha512_put64_be (push_bit 3 (total_len512 c)) = be_bytes 8 (8 * n)"
    using be_bytes_8 [of "8 * n"] n by (simp add: sha512_put64_be_def push_bit_eq_mult mult.commute)
  define c1 where "c1 = c\<lparr>block512 := blit (block512 c) ?p [0x80], block_len512 := block_len512 c + 1\<rparr>"
  have l1: "unat (block_len512 c1) = ?p + 1" "length (block512 c1) = 128" "state512 c1 = state512 c"
    using lp by (auto simp: c1_def unat_word_ariths)
  have p1: "take (?p + 1) (block512 c1) = pending512 c @ [0x80]"
    using blit_append [of ?p "block512 c" "[0x80]"] lp by (simp add: c1_def pending512_def)
  have fin: "sha512_compress st (pending512 c2 @ replicate (112 - unat (block_len512 c2)) 0 @ replicate 8 0 @ be_bytes 8 (8 * n)) =
      fst (hash_blocks 128 sha512_compress st (pending512 c2 @ replicate (112 - unat (block_len512 c2)) 0 @ be_bytes 16 (8 * n)))"
    if "unat (block_len512 c2) \<le> 112" "length (block512 c2) = 128" for st c2
  proof -
    have "length (pending512 c2 @ replicate (112 - unat (block_len512 c2)) 0 @ replicate 8 0 @ be_bytes 8 (8 * n)) = 128"
      using that by (simp add: pending512_def be_bytes_def)
    from hash_blocks_step [OF _ this, of sha512_compress st "[]"] show ?thesis
      using be_bytes_16 [of "8 * n"] n(2) by (simp add: hash_blocks_short)
  qed
  define c2 where "c2 = (if unat (block_len512 c1) > SHA512_BLOCK_SIZE - 16
      then let ctx = sha512_zero_to SHA512_BLOCK_SIZE c1 in (sha512_process_block (block512 ctx) ctx)\<lparr>block_len512 := 0\<rparr> else c1)"
  have c2: "unat (block_len512 c2) \<le> 112 \<and> length (block512 c2) = 128 \<and>
    hash_blocks 128 sha512_compress (state512 c) (pending512 c @ sha_padding 128 16 n) =
    hash_blocks 128 sha512_compress (state512 c2) (pending512 c2 @ replicate (112 - unat (block_len512 c2)) 0 @ be_bytes 16 (8 * n))"
  proof (cases "?p + 1 > 112")
    case True
    note z = zero_to512 [OF l1(2), of 128, unfolded l1]
    let ?z = "sha512_zero_to 128 c1"
    have b: "block512 ?z = pending512 c @ [0x80] @ replicate (127 - ?p) 0"
      using z(1,2) lp(2) p1 by simp
    have e: "c2 = (sha512_process_block (block512 ?z) ?z)\<lparr>block_len512 := 0\<rparr>" using True by (simp add: c2_def l1 Let_def SHA512_BLOCK_SIZE_def)
    have k: "(2 * 128 - 1 - 16 - n mod 128) mod 128 = (127 - ?p) + 112"
      using True p lp by simp
    have "pending512 c @ sha_padding 128 16 n = block512 ?z @ replicate 112 0 @ be_bytes 16 (8 * n)"
      unfolding sha_padding_def k b by (simp add: replicate_add)
    moreover have "length (block512 ?z) = 128" using z(2) lp(2) by simp
    moreover have "state512 ?z = state512 c" using z(4) lp(2) by simp
    ultimately show ?thesis
      using hash_blocks_step [of 128 "block512 ?z" sha512_compress "state512 c"]
      by (simp add: e sha512_process_block_def pending512_def)
  next
    case False
    have k: "(2 * 128 - 1 - 16 - n mod 128) mod 128 = 111 - ?p" using False p lp by (simp add: le_mod_geq)
    show ?thesis using False l1 p1 unfolding sha_padding_def k
      by (simp add: c2_def pending512_def SHA512_BLOCK_SIZE_def)
  qed
  have "fst (sha512_final_n out_len c) = take out_len (digest512 (sha512_compress (state512 c2)
      (blit (blit (block512 (sha512_zero_to 112 c2)) 112 (replicate 8 0)) 120 (be_bytes 8 (8 * n)))))"
    using zero_to512(4) [of c2 112] c2
    unfolding sha512_final_n_def Let_def hi lo c1_def [symmetric] c2_def [unfolded Let_def, symmetric]
    by (simp add: SHA512_BLOCK_SIZE_def sha512_process_block_def digest512_def)
  also have "\<dots> = take out_len (digest512 (fst (hash_blocks 128 sha512_compress (state512 c) (pending512 c @ sha_padding 128 16 n))))"
    using last_block512 [of c2 "8 * n"] fin [of c2 "state512 c2"] c2 by simp
  finally show ?thesis .
qed

interpretation sha512_stream: stream_hash 128 sha512_compress state512 pending512 total_len512 sha512_ok sha512_feed sha512_update
  "sha512_init (block_of 128 b)" "\<lambda>c. fst (sha512_final c)" 16 "\<lambda>h. take 64 (digest512 h)" for b
  by unfold_locales
    (simp_all add: finish512 sha512_final_def SHA512_DIGEST_SIZE_def sha512_init_def sha512_ok_def pending512_def)

interpretation sha384_stream: stream_hash 128 sha512_compress state512 pending512 total_len512 sha512_ok sha512_feed sha512_update
  "sha384_init (block_of 128 b)" "\<lambda>c. fst (sha384_final c)" 16 "\<lambda>h. take 48 (digest512 h)" for b
  by unfold_locales
    (simp_all add: finish512 sha384_final_def SHA384_DIGEST_SIZE_def sha384_init_def sha512_ok_def pending512_def)

lemma digest512_length [simp]: "length (digest512 h) = 64"
  by (simp add: digest512_def sha512_put64_be_def length_concat comp_def sum_list_triv)

lemma sha512_updates:
  assumes "length b = 128" "length (concat ds) < 2 ^ 61"
  shows "fst (sha512_final (fold (\<lambda>d c. sha512_update c d) ds (sha512_init b))) = fips_sha512 (concat ds)"
    "fst (sha384_final (fold (\<lambda>d c. sha512_update c d) ds (sha384_init b))) = fips_sha384 (concat ds)"
  using sha512_stream.streaming [OF assms(2), of b] sha384_stream.streaming [OF assms(2), of b] assms(1)
  by (simp_all add: fips_sha512_def fips_sha384_def sha512_init_def sha384_init_def)

text \<open>SHA-512 and SHA-384 stream: for every cutting of a message of less than 2 ^ 61 bytes into updates
  the two digests are the padded block hash of the whole message from the two starting values, 64 bytes and the first 48
  bytes; the two branches of the padding and the 128-bit length field are covered.\<close>

theorem sha512_streaming:
  assumes "length b = 128" "length (concat ds) < 2 ^ 61"
  shows "fst (sha512_final (fold (\<lambda>d c. sha512_update c d) ds (sha512_init b))) = fips_sha512 (concat ds) \<and>
    fst (sha384_final (fold (\<lambda>d c. sha512_update c d) ds (sha384_init b))) = fips_sha384 (concat ds) \<and>
    sha512 b (concat ds) = fips_sha512 (concat ds) \<and> sha384 b (concat ds) = fips_sha384 (concat ds) \<and>
    length (fips_sha512 (concat ds)) = 64 \<and> length (fips_sha384 (concat ds)) = 48"
  using sha512_updates [OF assms] sha512_updates [of b "[concat ds]"] assms
  by (simp add: sha512_def sha384_def fips_sha512_def fips_sha384_def)

lemma sha512_streaming_witness:
  "fst (sha384_final (sha512_update (sha512_update (sha384_init (replicate 128 7)) []) [97, 98, 99])) = fips_sha384 [97, 98, 99]"
  using sha512_streaming [of "replicate 128 7" "[[], [97, 98, 99]]"] by simp

end
