(* ===== verification/Hmac.thy ===== *)
theory Hmac
  imports Sha2
begin

text \<open>
  hmac_sha256.h and hmac_sha384.h over the streaming contexts. The block buffers on the C stack hold anything
  when a context is started, so their contents are arguments (of the length of a block); the second start of a
  context finds what the first use left there.
\<close>

subsection \<open>The two functions\<close>

definition hmac_key_block256 :: "bytes \<Rightarrow> bytes \<Rightarrow> bytes" where
  "hmac_key_block256 stk key =
     (if length key > 64 then sha256 stk key @ replicate 32 0 else key @ replicate (64 - length key) 0)"

definition hmac_sha256 :: "bytes \<Rightarrow> bytes \<Rightarrow> bytes \<Rightarrow> bytes" where
  "hmac_sha256 stk key msg =
     (let key_block = hmac_key_block256 stk key;
          ipad = map (\<lambda>k. k XOR 0x36) key_block;
          opad = map (\<lambda>k. k XOR 0x5c) key_block;
          ctx = sha256_init stk;
          ctx = sha256_update ctx ipad;
          ctx = sha256_update ctx msg;
          (inner, ctx) = sha256_final ctx;
          ctx = sha256_init (buf256 ctx);
          ctx = sha256_update ctx opad;
          ctx = sha256_update ctx inner
      in fst (sha256_final ctx))"

definition hmac_key_block384 :: "bytes \<Rightarrow> bytes \<Rightarrow> bytes" where
  "hmac_key_block384 stk key =
     (if length key > 128 then blit (replicate 128 0) 0 (sha384 stk key) else blit (replicate 128 0) 0 key)"

definition hmac_sha384 :: "bytes \<Rightarrow> bytes \<Rightarrow> bytes \<Rightarrow> bytes" where
  "hmac_sha384 stk key msg =
     (let key_block = hmac_key_block384 stk key;
          ipad = map (\<lambda>k. k XOR 0x36) key_block;
          opad = map (\<lambda>k. k XOR 0x5c) key_block;
          ctx = sha384_init stk;
          ctx = sha512_update ctx ipad;
          ctx = sha512_update ctx msg;
          (inner, ctx) = sha384_final ctx;
          ctx = sha384_init (block512 ctx);
          ctx = sha512_update ctx opad;
          ctx = sha512_update ctx inner
      in fst (sha384_final ctx))"

subsection \<open>RFC 2104 over any hash\<close>

text \<open>What HMAC needs of a hash: digests of a fixed length not above the block size.\<close>

locale hash_function =
  fixes hash :: "bytes \<Rightarrow> bytes" and B D :: nat
  assumes digest_length: "length (hash m) = D" and digest_fits: "D \<le> B"
begin

definition key0 :: "bytes \<Rightarrow> bytes" where
  "key0 key = (let k = (if B < length key then hash key else key) in k @ replicate (B - length k) 0)"

definition hmac :: "bytes \<Rightarrow> bytes \<Rightarrow> bytes" where
  "hmac key msg = hash (map (\<lambda>k. k XOR 0x5c) (key0 key) @ hash (map (\<lambda>k. k XOR 0x36) (key0 key) @ msg))"

lemma key0_length [simp]: "length (key0 key) = B"
  using digest_length digest_fits by (simp add: key0_def Let_def)

lemma hmac_length: "length (hmac key msg) = D"
  by (simp add: hmac_def digest_length)

text \<open>Two keys that are known to collide, as the construction has it.\<close>

lemma hmac_long_key: "B < length key \<Longrightarrow> hmac key msg = hmac (hash key) msg"
  using digest_length digest_fits by (simp add: hmac_def key0_def Let_def)

lemma hmac_zero_key: "length key < B \<Longrightarrow> hmac (key @ [0]) msg = hmac key msg"
proof -
  assume l: "length key < B"
  have "replicate (B - length key) 0 = (0 :: u8) # replicate (B - Suc (length key)) 0"
    using l by (metis Suc_diff_Suc replicate_Suc)
  thus ?thesis using l by (simp add: hmac_def key0_def Let_def)
qed

end

lemma fips_lengths: "length (fips_sha256 m) = 32" "length (fips_sha384 m) = 48"
  by (simp_all add: fips_sha256_def fips_sha384_def digest256_def sha256_put32_be_def length_concat comp_def sum_list_triv)

interpretation hm256: hash_function fips_sha256 64 32
  by unfold_locales (simp_all add: fips_lengths)

interpretation hm384: hash_function fips_sha384 128 48
  by unfold_locales (simp_all add: fips_lengths)

subsection \<open>The code computes it\<close>

lemma final256_buf: "sha256_ok c \<Longrightarrow> length (buf256 (snd (sha256_final c))) = 64"
proof -
  assume ok: "sha256_ok c"
  note z = zero_fill256 [OF feed256.update_blocks(1) [OF ok, of "[0x80]"]]
  have "unat (buf_len256 (sha256_zero_fill (sha256_update c [0x80]))) = 56"
    using z len256_word(2) [of "sha256_zero_fill (sha256_update c [0x80])"] by simp
  thus ?thesis using z by (simp add: sha256_final_def Let_def sha256_process_block_def sha256_ok_def)
qed

lemma final512_block:
  assumes ok: "sha512_ok c"
  shows "length (block512 (snd (sha512_final_n n c))) = 128"
proof -
  have z: "length (block512 (sha512_zero_to k d)) = 128" if "length (block512 d) = 128" "k \<le> 128" for k d
    using that by (auto simp: sha512_zero_to_def)
  have p: "length (sha512_put64_be v) = 8" for v by (simp add: sha512_put64_be_def)
  have "length (blit (block512 c) (unat (block_len512 c)) [0x80]) = 128" using ok by (simp add: sha512_ok_def)
  thus ?thesis
    by (simp add: sha512_final_n_def Let_def sha512_process_block_def SHA512_BLOCK_SIZE_def z p)
qed

lemma sha256_two:
  assumes "length b = 64" "length x + length y < 2 ^ 61"
  shows "fst (sha256_final (sha256_update (sha256_update (sha256_init b) x) y)) = fips_sha256 (x @ y)"
    "length (buf256 (snd (sha256_final (sha256_update (sha256_update (sha256_init b) x) y)))) = 64"
proof -
  show "fst (sha256_final (sha256_update (sha256_update (sha256_init b) x) y)) = fips_sha256 (x @ y)"
    using sha256_updates [of b "[x, y]"] assms by simp
  have "sha256_ok (sha256_init b)" using assms(1) by (simp add: sha256_init_def sha256_ok_def)
  hence "sha256_ok (sha256_update (sha256_update (sha256_init b) x) y)" by (intro feed256.update_blocks)
  thus "length (buf256 (snd (sha256_final (sha256_update (sha256_update (sha256_init b) x) y)))) = 64"
    by (rule final256_buf)
qed

lemma sha384_two:
  assumes "length b = 128" "length x + length y < 2 ^ 61"
  shows "fst (sha384_final (sha512_update (sha512_update (sha384_init b) x) y)) = fips_sha384 (x @ y)"
    "length (block512 (snd (sha384_final (sha512_update (sha512_update (sha384_init b) x) y)))) = 128"
proof -
  show "fst (sha384_final (sha512_update (sha512_update (sha384_init b) x) y)) = fips_sha384 (x @ y)"
    using sha512_updates(2) [of b "[x, y]"] assms by simp
  have "sha512_ok (sha384_init b)" using assms(1) by (simp add: sha384_init_def sha512_ok_def)
  hence "sha512_ok (sha512_update (sha512_update (sha384_init b) x) y)" by (intro feed512.update_blocks)
  thus "length (block512 (snd (sha384_final (sha512_update (sha512_update (sha384_init b) x) y)))) = 128"
    unfolding sha384_final_def by (rule final512_block)
qed

lemma key_block256:
  assumes "length stk = 64" "length key < 2 ^ 32"
  shows "hmac_key_block256 stk key = hm256.key0 key"
proof -
  have "sha256 stk key = fips_sha256 key" using sha256_updates [of stk "[key]"] assms by (simp add: sha256_def)
  thus ?thesis by (simp add: hmac_key_block256_def hm256.key0_def Let_def fips_lengths)
qed

lemma key_block384:
  assumes "length stk = 128" "length key < 2 ^ 32"
  shows "hmac_key_block384 stk key = hm384.key0 key"
proof -
  have "sha384 stk key = fips_sha384 key" using sha512_updates(2) [of stk "[key]"] assms by (simp add: sha384_def)
  thus ?thesis by (simp add: hmac_key_block384_def hm384.key0_def Let_def fips_lengths blit_def)
qed

lemma hmac_sha256_rfc:
  assumes "length stk = 64" "length key < 2 ^ 32" "length msg < 2 ^ 32"
  shows "hmac_sha256 stk key msg = hm256.hmac key msg"
proof -
  note k = key_block256 [OF assms(1,2)]
  let ?i = "map (\<lambda>k. k XOR 0x36) (hm256.key0 key)"
  note a = sha256_two [OF assms(1), of ?i msg]
  show ?thesis
    using a sha256_two(1) [OF a(2), of "map (\<lambda>k. k XOR 0x5c) (hm256.key0 key)" "fips_sha256 (?i @ msg)"] assms(3)
    by (simp add: hmac_sha256_def Let_def k hm256.hmac_def split_beta fips_lengths)
qed

lemma hmac_sha384_rfc:
  assumes "length stk = 128" "length key < 2 ^ 32" "length msg < 2 ^ 32"
  shows "hmac_sha384 stk key msg = hm384.hmac key msg"
proof -
  note k = key_block384 [OF assms(1,2)]
  let ?i = "map (\<lambda>k. k XOR 0x36) (hm384.key0 key)"
  note a = sha384_two [OF assms(1), of ?i msg]
  show ?thesis
    using a sha384_two(1) [OF a(2), of "map (\<lambda>k. k XOR 0x5c) (hm384.key0 key)" "fips_sha384 (?i @ msg)"] assms(3)
    by (simp add: hmac_sha384_def Let_def k hm384.hmac_def split_beta fips_lengths)
qed

text \<open>Both HMAC functions are RFC 2104 over the hash of the whole message, whatever the stack held: with
  K the key (its digest when it is longer than a block) padded with zeros to a block, the result is
  hash ((K xor 0x5c..) @ hash ((K xor 0x36..) @ message)), 32 and 48 bytes long.\<close>

theorem hmac_rfc2104:
  fixes key msg :: bytes
  assumes "length stk = 64" "length stk2 = 128" "length key < 2 ^ 32" "length msg < 2 ^ 32"
  defines "k256 \<equiv> (let k = (if 64 < length key then fips_sha256 key else key) in k @ replicate (64 - length k) 0)"
  defines "k384 \<equiv> (let k = (if 128 < length key then fips_sha384 key else key) in k @ replicate (128 - length k) 0)"
  shows "hmac_sha256 stk key msg =
      fips_sha256 (map (\<lambda>k. k XOR 0x5c) k256 @ fips_sha256 (map (\<lambda>k. k XOR 0x36) k256 @ msg)) \<and>
    hmac_sha384 stk2 key msg =
      fips_sha384 (map (\<lambda>k. k XOR 0x5c) k384 @ fips_sha384 (map (\<lambda>k. k XOR 0x36) k384 @ msg)) \<and>
    length (hmac_sha256 stk key msg) = 32 \<and> length (hmac_sha384 stk2 key msg) = 48"
  using hmac_sha256_rfc [OF assms(1,3,4)] hmac_sha384_rfc [OF assms(2,3,4)] hm256.hmac_length hm384.hmac_length
  unfolding hm256.hmac_def hm384.hmac_def hm256.key0_def hm384.key0_def k256_def k384_def by simp

lemma hmac_rfc2104_witness: "length (hmac_sha256 (replicate 64 1) [0x4a, 0x65] [1, 2, 3]) = 32"
  using hmac_rfc2104 [of "replicate 64 1" "replicate 128 1" "[0x4a, 0x65]" "[1, 2, 3]"] by (simp add: fips_lengths)

end
