(* ===== verification/Aes.thy ===== *)
theory Aes
  imports Prelude
begin

text \<open>
  aes.h: AES-128 and AES-256 with their tables, key schedule, block functions and CBC. The state is the list of
  its 16 bytes, column by column as in the code; in-place steps are list updates. The theorems: decryption
  undoes encryption for every key, and the same for CBC over any block cipher.
\<close>

subsection \<open>Tables\<close>

definition aes_sbox :: "u8 list" where
  "aes_sbox =
    [0x63, 0x7c, 0x77, 0x7b, 0xf2, 0x6b, 0x6f, 0xc5, 0x30, 0x01, 0x67, 0x2b, 0xfe, 0xd7, 0xab, 0x76,
     0xca, 0x82, 0xc9, 0x7d, 0xfa, 0x59, 0x47, 0xf0, 0xad, 0xd4, 0xa2, 0xaf, 0x9c, 0xa4, 0x72, 0xc0,
     0xb7, 0xfd, 0x93, 0x26, 0x36, 0x3f, 0xf7, 0xcc, 0x34, 0xa5, 0xe5, 0xf1, 0x71, 0xd8, 0x31, 0x15,
     0x04, 0xc7, 0x23, 0xc3, 0x18, 0x96, 0x05, 0x9a, 0x07, 0x12, 0x80, 0xe2, 0xeb, 0x27, 0xb2, 0x75,
     0x09, 0x83, 0x2c, 0x1a, 0x1b, 0x6e, 0x5a, 0xa0, 0x52, 0x3b, 0xd6, 0xb3, 0x29, 0xe3, 0x2f, 0x84,
     0x53, 0xd1, 0x00, 0xed, 0x20, 0xfc, 0xb1, 0x5b, 0x6a, 0xcb, 0xbe, 0x39, 0x4a, 0x4c, 0x58, 0xcf,
     0xd0, 0xef, 0xaa, 0xfb, 0x43, 0x4d, 0x33, 0x85, 0x45, 0xf9, 0x02, 0x7f, 0x50, 0x3c, 0x9f, 0xa8,
     0x51, 0xa3, 0x40, 0x8f, 0x92, 0x9d, 0x38, 0xf5, 0xbc, 0xb6, 0xda, 0x21, 0x10, 0xff, 0xf3, 0xd2,
     0xcd, 0x0c, 0x13, 0xec, 0x5f, 0x97, 0x44, 0x17, 0xc4, 0xa7, 0x7e, 0x3d, 0x64, 0x5d, 0x19, 0x73,
     0x60, 0x81, 0x4f, 0xdc, 0x22, 0x2a, 0x90, 0x88, 0x46, 0xee, 0xb8, 0x14, 0xde, 0x5e, 0x0b, 0xdb,
     0xe0, 0x32, 0x3a, 0x0a, 0x49, 0x06, 0x24, 0x5c, 0xc2, 0xd3, 0xac, 0x62, 0x91, 0x95, 0xe4, 0x79,
     0xe7, 0xc8, 0x37, 0x6d, 0x8d, 0xd5, 0x4e, 0xa9, 0x6c, 0x56, 0xf4, 0xea, 0x65, 0x7a, 0xae, 0x08,
     0xba, 0x78, 0x25, 0x2e, 0x1c, 0xa6, 0xb4, 0xc6, 0xe8, 0xdd, 0x74, 0x1f, 0x4b, 0xbd, 0x8b, 0x8a,
     0x70, 0x3e, 0xb5, 0x66, 0x48, 0x03, 0xf6, 0x0e, 0x61, 0x35, 0x57, 0xb9, 0x86, 0xc1, 0x1d, 0x9e,
     0xe1, 0xf8, 0x98, 0x11, 0x69, 0xd9, 0x8e, 0x94, 0x9b, 0x1e, 0x87, 0xe9, 0xce, 0x55, 0x28, 0xdf,
     0x8c, 0xa1, 0x89, 0x0d, 0xbf, 0xe6, 0x42, 0x68, 0x41, 0x99, 0x2d, 0x0f, 0xb0, 0x54, 0xbb, 0x16]"

definition aes_inv_sbox :: "u8 list" where
  "aes_inv_sbox =
    [0x52, 0x09, 0x6a, 0xd5, 0x30, 0x36, 0xa5, 0x38, 0xbf, 0x40, 0xa3, 0x9e, 0x81, 0xf3, 0xd7, 0xfb,
     0x7c, 0xe3, 0x39, 0x82, 0x9b, 0x2f, 0xff, 0x87, 0x34, 0x8e, 0x43, 0x44, 0xc4, 0xde, 0xe9, 0xcb,
     0x54, 0x7b, 0x94, 0x32, 0xa6, 0xc2, 0x23, 0x3d, 0xee, 0x4c, 0x95, 0x0b, 0x42, 0xfa, 0xc3, 0x4e,
     0x08, 0x2e, 0xa1, 0x66, 0x28, 0xd9, 0x24, 0xb2, 0x76, 0x5b, 0xa2, 0x49, 0x6d, 0x8b, 0xd1, 0x25,
     0x72, 0xf8, 0xf6, 0x64, 0x86, 0x68, 0x98, 0x16, 0xd4, 0xa4, 0x5c, 0xcc, 0x5d, 0x65, 0xb6, 0x92,
     0x6c, 0x70, 0x48, 0x50, 0xfd, 0xed, 0xb9, 0xda, 0x5e, 0x15, 0x46, 0x57, 0xa7, 0x8d, 0x9d, 0x84,
     0x90, 0xd8, 0xab, 0x00, 0x8c, 0xbc, 0xd3, 0x0a, 0xf7, 0xe4, 0x58, 0x05, 0xb8, 0xb3, 0x45, 0x06,
     0xd0, 0x2c, 0x1e, 0x8f, 0xca, 0x3f, 0x0f, 0x02, 0xc1, 0xaf, 0xbd, 0x03, 0x01, 0x13, 0x8a, 0x6b,
     0x3a, 0x91, 0x11, 0x41, 0x4f, 0x67, 0xdc, 0xea, 0x97, 0xf2, 0xcf, 0xce, 0xf0, 0xb4, 0xe6, 0x73,
     0x96, 0xac, 0x74, 0x22, 0xe7, 0xad, 0x35, 0x85, 0xe2, 0xf9, 0x37, 0xe8, 0x1c, 0x75, 0xdf, 0x6e,
     0x47, 0xf1, 0x1a, 0x71, 0x1d, 0x29, 0xc5, 0x89, 0x6f, 0xb7, 0x62, 0x0e, 0xaa, 0x18, 0xbe, 0x1b,
     0xfc, 0x56, 0x3e, 0x4b, 0xc6, 0xd2, 0x79, 0x20, 0x9a, 0xdb, 0xc0, 0xfe, 0x78, 0xcd, 0x5a, 0xf4,
     0x1f, 0xdd, 0xa8, 0x33, 0x88, 0x07, 0xc7, 0x31, 0xb1, 0x12, 0x10, 0x59, 0x27, 0x80, 0xec, 0x5f,
     0x60, 0x51, 0x7f, 0xa9, 0x19, 0xb5, 0x4a, 0x0d, 0x2d, 0xe5, 0x7a, 0x9f, 0x93, 0xc9, 0x9c, 0xef,
     0xa0, 0xe0, 0x3b, 0x4d, 0xae, 0x2a, 0xf5, 0xb0, 0xc8, 0xeb, 0xbb, 0x3c, 0x83, 0x53, 0x99, 0x61,
     0x17, 0x2b, 0x04, 0x7e, 0xba, 0x77, 0xd6, 0x26, 0xe1, 0x69, 0x14, 0x63, 0x55, 0x21, 0x0c, 0x7d]"

definition aes_rcon :: "u8 list" where
  "aes_rcon = [0x00, 0x01, 0x02, 0x04, 0x08, 0x10, 0x20, 0x40, 0x80, 0x1b, 0x36]"

record aes_ctx =
  round_key :: "bytes list"
  rounds :: nat

subsection \<open>Arithmetic in GF(2^8)\<close>

definition aes_xtime :: "u8 \<Rightarrow> u8" where
  "aes_xtime x = (let hi = x AND 0x80; shifted = push_bit 1 x in if hi \<noteq> 0 then shifted XOR 0x1b else shifted)"

text \<open>for (i = 0; i < 8; i++) with the running a, b and result.\<close>

definition aes_mul :: "u8 \<Rightarrow> u8 \<Rightarrow> u8" where
  "aes_mul a b =
     (case fold (\<lambda>_ (result, a, b). (if b AND 1 \<noteq> 0 then result XOR a else result, aes_xtime a, drop_bit 1 b))
        [0..<8] (0 :: u8, a, b) of (result, _, _) \<Rightarrow> result)"

subsection \<open>Key schedule\<close>

definition aes_key_word :: "nat \<Rightarrow> nat \<Rightarrow> bytes list \<Rightarrow> bytes" where
  "aes_key_word nk i w =
     (let temp = w ! (i - 1);
          temp = (if i mod nk = 0
                  then [aes_sbox ! unat (temp ! 1) XOR aes_rcon ! (i div nk), aes_sbox ! unat (temp ! 2),
                        aes_sbox ! unat (temp ! 3), aes_sbox ! unat (temp ! 0)]
                  else if nk > 6 \<and> i mod nk = 4 then map (\<lambda>b. aes_sbox ! unat b) temp
                  else temp)
      in map (\<lambda>j. w ! (i - nk) ! j XOR temp ! j) [0..<4])"

definition aes_key_words :: "bytes \<Rightarrow> nat \<Rightarrow> nat \<Rightarrow> bytes list" where
  "aes_key_words key nk total_words =
     fold (\<lambda>i w. w @ [aes_key_word nk i w]) [nk..<total_words] (map (\<lambda>i. slice (i * 4) 4 key) [0..<nk])"

definition aes_set_key :: "aes_ctx \<Rightarrow> bytes \<Rightarrow> nat \<Rightarrow> aes_ctx" where
  "aes_set_key ctx key key_len =
     (let nk = key_len div 4;
          rnds = nk + 6;
          total_words = 4 * (rnds + 1);
          w = aes_key_words key nk total_words
      in ctx\<lparr>rounds := rnds,
             round_key := map (\<lambda>r. if r \<le> rnds then concat (map (\<lambda>c. w ! (r * 4 + c)) [0..<4]) else round_key ctx ! r)
                            [0..<15]\<rparr>)"

definition aes128_set_key :: "aes_ctx \<Rightarrow> bytes \<Rightarrow> aes_ctx" where "aes128_set_key ctx key = aes_set_key ctx key 16"
definition aes256_set_key :: "aes_ctx \<Rightarrow> bytes \<Rightarrow> aes_ctx" where "aes256_set_key ctx key = aes_set_key ctx key 32"

subsection \<open>The steps of a round\<close>

definition aes_add_round_key :: "bytes \<Rightarrow> bytes \<Rightarrow> bytes" where
  "aes_add_round_key rk state = map (\<lambda>i. state ! i XOR rk ! i) [0..<16]"

definition aes_sub_bytes :: "bytes \<Rightarrow> bytes" where
  "aes_sub_bytes state = map (\<lambda>i. aes_sbox ! unat (state ! i)) [0..<16]"

definition aes_inv_sub_bytes :: "bytes \<Rightarrow> bytes" where
  "aes_inv_sub_bytes state = map (\<lambda>i. aes_inv_sbox ! unat (state ! i)) [0..<16]"

definition aes_shift_rows :: "bytes \<Rightarrow> bytes" where
  "aes_shift_rows s =
     (let t = s ! 1; s = s[1 := s ! 5]; s = s[5 := s ! 9]; s = s[9 := s ! 13]; s = s[13 := t];
          t = s ! 2; s = s[2 := s ! 10]; s = s[10 := t];
          t = s ! 6; s = s[6 := s ! 14]; s = s[14 := t];
          t = s ! 15; s = s[15 := s ! 11]; s = s[11 := s ! 7]; s = s[7 := s ! 3]; s = s[3 := t]
      in s)"

definition aes_inv_shift_rows :: "bytes \<Rightarrow> bytes" where
  "aes_inv_shift_rows s =
     (let t = s ! 13; s = s[13 := s ! 9]; s = s[9 := s ! 5]; s = s[5 := s ! 1]; s = s[1 := t];
          t = s ! 2; s = s[2 := s ! 10]; s = s[10 := t];
          t = s ! 6; s = s[6 := s ! 14]; s = s[14 := t];
          t = s ! 3; s = s[3 := s ! 7]; s = s[7 := s ! 11]; s = s[11 := s ! 15]; s = s[15 := t]
      in s)"

definition aes_mix_columns :: "bytes \<Rightarrow> bytes" where
  "aes_mix_columns s =
     concat (map (\<lambda>c. let a0 = s ! (c * 4); a1 = s ! (c * 4 + 1); a2 = s ! (c * 4 + 2); a3 = s ! (c * 4 + 3) in
       [aes_mul a0 2 XOR aes_mul a1 3 XOR a2 XOR a3,
        a0 XOR aes_mul a1 2 XOR aes_mul a2 3 XOR a3,
        a0 XOR a1 XOR aes_mul a2 2 XOR aes_mul a3 3,
        aes_mul a0 3 XOR a1 XOR a2 XOR aes_mul a3 2]) [0..<4])"

definition aes_inv_mix_columns :: "bytes \<Rightarrow> bytes" where
  "aes_inv_mix_columns s =
     concat (map (\<lambda>c. let a0 = s ! (c * 4); a1 = s ! (c * 4 + 1); a2 = s ! (c * 4 + 2); a3 = s ! (c * 4 + 3) in
       [aes_mul a0 14 XOR aes_mul a1 11 XOR aes_mul a2 13 XOR aes_mul a3 9,
        aes_mul a0 9 XOR aes_mul a1 14 XOR aes_mul a2 11 XOR aes_mul a3 13,
        aes_mul a0 13 XOR aes_mul a1 9 XOR aes_mul a2 14 XOR aes_mul a3 11,
        aes_mul a0 11 XOR aes_mul a1 13 XOR aes_mul a2 9 XOR aes_mul a3 14]) [0..<4])"

subsection \<open>Blocks\<close>

definition aes128_encrypt_block :: "aes_ctx \<Rightarrow> bytes \<Rightarrow> bytes" where
  "aes128_encrypt_block ctx block =
     (let block = aes_add_round_key (round_key ctx ! 0) block;
          block = fold (\<lambda>round block.
              aes_add_round_key (round_key ctx ! round) (aes_mix_columns (aes_shift_rows (aes_sub_bytes block))))
            [1..<rounds ctx] block
      in aes_add_round_key (round_key ctx ! rounds ctx) (aes_shift_rows (aes_sub_bytes block)))"

definition aes128_decrypt_block :: "aes_ctx \<Rightarrow> bytes \<Rightarrow> bytes" where
  "aes128_decrypt_block ctx block =
     (let block = aes_add_round_key (round_key ctx ! rounds ctx) block;
          block = aes_inv_sub_bytes (aes_inv_shift_rows block);
          block = fold (\<lambda>round block.
              aes_inv_sub_bytes (aes_inv_shift_rows (aes_inv_mix_columns (aes_add_round_key (round_key ctx ! round) block))))
            (rev [1..<rounds ctx]) block
      in aes_add_round_key (round_key ctx ! 0) block)"

subsection \<open>CBC\<close>

text \<open>One block per step, prev being the previous ciphertext block; the in-place data is returned.\<close>

function aes_cbc_encrypt_from :: "aes_ctx \<Rightarrow> bytes \<Rightarrow> bytes \<Rightarrow> bytes" where
  "aes_cbc_encrypt_from ctx prev data =
     (if data = [] then []
      else let block = aes128_encrypt_block ctx (map (\<lambda>i. data ! i XOR prev ! i) [0..<16])
           in block @ aes_cbc_encrypt_from ctx block (drop 16 data))"
  by pat_completeness auto
termination by (relation "measure (\<lambda>(_, _, d). length d)") auto

function aes_cbc_decrypt_from :: "aes_ctx \<Rightarrow> bytes \<Rightarrow> bytes \<Rightarrow> bytes" where
  "aes_cbc_decrypt_from ctx prev data =
     (if data = [] then []
      else let cur_ct = take 16 data;
               block = aes128_decrypt_block ctx cur_ct
           in map (\<lambda>i. block ! i XOR prev ! i) [0..<16] @ aes_cbc_decrypt_from ctx cur_ct (drop 16 data))"
  by pat_completeness auto
termination by (relation "measure (\<lambda>(_, _, d). length d)") auto

declare aes_cbc_encrypt_from.simps [simp del] aes_cbc_decrypt_from.simps [simp del]

definition aes128_cbc_encrypt :: "aes_ctx \<Rightarrow> bytes \<Rightarrow> bytes \<Rightarrow> bytes" where
  "aes128_cbc_encrypt ctx iv data = aes_cbc_encrypt_from ctx (take 16 iv) data"

definition aes128_cbc_decrypt :: "aes_ctx \<Rightarrow> bytes \<Rightarrow> bytes \<Rightarrow> bytes" where
  "aes128_cbc_decrypt ctx iv data = aes_cbc_decrypt_from ctx (take 16 iv) data"

subsection \<open>The substitution tables are inverse\<close>

lemma sbox_len: "length aes_sbox = 256" "length aes_inv_sbox = 256"
  by (simp_all add: aes_sbox_def aes_inv_sbox_def)

lemma upt_256: "[0..<256] = [0, 1, 2, 3, 4, 5, 6, 7, 8, 9, 10, 11, 12, 13, 14, 15, 16, 17, 18, 19, 20, 21, 22, 23, 24, 25, 26, 27, 28, 29, 30, 31, 32, 33, 34, 35, 36, 37, 38, 39, 40, 41, 42, 43, 44, 45, 46, 47, 48, 49, 50, 51, 52, 53, 54, 55, 56, 57, 58, 59, 60, 61, 62, 63, 64, 65, 66, 67, 68, 69, 70, 71, 72, 73, 74, 75, 76, 77, 78, 79, 80, 81, 82, 83, 84, 85, 86, 87, 88, 89, 90, 91, 92, 93, 94, 95, 96, 97, 98, 99, 100, 101, 102, 103, 104, 105, 106, 107, 108, 109, 110, 111, 112, 113, 114, 115, 116, 117, 118, 119, 120, 121, 122, 123, 124, 125, 126, 127, 128, 129, 130, 131, 132, 133, 134, 135, 136, 137, 138, 139, 140, 141, 142, 143, 144, 145, 146, 147, 148, 149, 150, 151, 152, 153, 154, 155, 156, 157, 158, 159, 160, 161, 162, 163, 164, 165, 166, 167, 168, 169, 170, 171, 172, 173, 174, 175, 176, 177, 178, 179, 180, 181, 182, 183, 184, 185, 186, 187, 188, 189, 190, 191, 192, 193, 194, 195, 196, 197, 198, 199, 200, 201, 202, 203, 204, 205, 206, 207, 208, 209, 210, 211, 212, 213, 214, 215, 216, 217, 218, 219, 220, 221, 222, 223, 224, 225, 226, 227, 228, 229, 230, 231, 232, 233, 234, 235, 236, 237, 238, 239, 240, 241, 242, 243, 244, 245, 246, 247, 248, 249, 250, 251, 252, 253, 254, 255]"
  by (simp add: upt_rec)

lemmas table_nths = map_nth [of aes_sbox, unfolded sbox_len] map_nth [of aes_inv_sbox, unfolded sbox_len]

lemmas inv_nths = trans [OF table_nths(2) aes_inv_sbox_def, unfolded upt_256 list.map list.inject]
lemmas sbox_nths = trans [OF table_nths(1) aes_sbox_def, unfolded upt_256 list.map list.inject]

lemma sbox_inverse_all: "map (\<lambda>v. aes_inv_sbox ! unat v) aes_sbox = map of_nat [0..<256]"
  unfolding upt_256 aes_sbox_def list.map by (intro arg_cong2 [where f = Cons] refl) (simp_all add: inv_nths [unfolded One_nat_def])

lemma inv_sbox_inverse_all: "map (\<lambda>v. aes_sbox ! unat v) aes_inv_sbox = map of_nat [0..<256]"
  unfolding upt_256 aes_inv_sbox_def list.map by (intro arg_cong2 [where f = Cons] refl) (simp_all add: sbox_nths [unfolded One_nat_def])

lemma aes_sbox_inverse: "aes_inv_sbox ! unat (aes_sbox ! unat x) = x"
proof -
  have lt: "unat x < 256" by (rule unat_u8_lt)
  have "map (\<lambda>v. aes_inv_sbox ! unat v) aes_sbox ! unat x = map of_nat [0..<256] ! unat x"
    by (simp only: sbox_inverse_all)
  thus ?thesis using lt by (simp add: sbox_len)
qed

lemma aes_inv_sbox_inverse: "aes_sbox ! unat (aes_inv_sbox ! unat x) = x"
proof -
  have lt: "unat x < 256" by (rule unat_u8_lt)
  have "map (\<lambda>v. aes_sbox ! unat v) aes_inv_sbox ! unat x = map of_nat [0..<256] ! unat x"
    by (simp only: inv_sbox_inverse_all)
  thus ?thesis using lt by (simp add: sbox_len)
qed

subsection \<open>The field and the column mix\<close>

lemma xtime_bits: "aes_xtime x = push_bit 1 x XOR (if bit x 7 then 0x1b else 0)"
proof -
  have "x AND 0x80 \<noteq> 0 \<longleftrightarrow> bit x 7"
  proof -
    have "bit (x AND push_bit 7 1) n \<longleftrightarrow> bit x 7 \<and> n = 7" for n
    proof -
      have "n = 7" if "7 \<le> n" "n < 8" using that by simp
      thus ?thesis by (auto simp: bit_and_iff bit_push_bit_iff bit_1_iff simp del: push_bit_numeral push_bit_of_1)
    qed
    hence "x AND push_bit 7 1 = 0 \<longleftrightarrow> \<not> bit x 7" by (metis bit_0_eq bit_eq_iff bot_apply bot_bool_def)
    thus ?thesis by simp
  qed
  thus ?thesis by (simp add: aes_xtime_def Let_def)
qed

lemma xtime_xor: "aes_xtime (x XOR y) = aes_xtime x XOR aes_xtime y"
  by (cases "bit x 7"; cases "bit y 7") (simp_all add: xtime_bits push_bit_xor bit_xor_iff ac_simps)

lemmas xor_ac = xor.assoc xor.commute xor.left_commute

lemma xor_cancel: "a XOR (a XOR b) = (b :: u8)"
  by (simp add: xor.assoc [symmetric])

lemma aes_mul_consts:
  "aes_mul a 2 = aes_xtime a"
  "aes_mul a 3 = aes_xtime a XOR a"
  "aes_mul a 9 = aes_xtime (aes_xtime (aes_xtime a)) XOR a"
  "aes_mul a 11 = aes_xtime (aes_xtime (aes_xtime a)) XOR aes_xtime a XOR a"
  "aes_mul a 13 = aes_xtime (aes_xtime (aes_xtime a)) XOR aes_xtime (aes_xtime a) XOR a"
  "aes_mul a 14 = aes_xtime (aes_xtime (aes_xtime a)) XOR aes_xtime (aes_xtime a) XOR aes_xtime a"
  by (simp_all add: aes_mul_def upt_rec xor_ac)

lemma mix_column_inverse:
  fixes a0 a1 a2 a3 :: u8
  defines "b0 \<equiv> aes_mul a0 2 XOR aes_mul a1 3 XOR a2 XOR a3"
    and "b1 \<equiv> a0 XOR aes_mul a1 2 XOR aes_mul a2 3 XOR a3"
    and "b2 \<equiv> a0 XOR a1 XOR aes_mul a2 2 XOR aes_mul a3 3"
    and "b3 \<equiv> aes_mul a0 3 XOR a1 XOR a2 XOR aes_mul a3 2"
  shows "aes_mul b0 14 XOR aes_mul b1 11 XOR aes_mul b2 13 XOR aes_mul b3 9 = a0"
    "aes_mul b0 9 XOR aes_mul b1 14 XOR aes_mul b2 11 XOR aes_mul b3 13 = a1"
    "aes_mul b0 13 XOR aes_mul b1 9 XOR aes_mul b2 14 XOR aes_mul b3 11 = a2"
    "aes_mul b0 11 XOR aes_mul b1 13 XOR aes_mul b2 9 XOR aes_mul b3 14 = a3"
  unfolding b0_def b1_def b2_def b3_def aes_mul_consts xtime_xor
  by (simp_all add: xor_ac xor_cancel)

lemma mix_column_inverse2:
  fixes a0 a1 a2 a3 :: u8
  defines "b0 \<equiv> aes_mul a0 14 XOR aes_mul a1 11 XOR aes_mul a2 13 XOR aes_mul a3 9"
    and "b1 \<equiv> aes_mul a0 9 XOR aes_mul a1 14 XOR aes_mul a2 11 XOR aes_mul a3 13"
    and "b2 \<equiv> aes_mul a0 13 XOR aes_mul a1 9 XOR aes_mul a2 14 XOR aes_mul a3 11"
    and "b3 \<equiv> aes_mul a0 11 XOR aes_mul a1 13 XOR aes_mul a2 9 XOR aes_mul a3 14"
  shows "aes_mul b0 2 XOR aes_mul b1 3 XOR b2 XOR b3 = a0"
    "b0 XOR aes_mul b1 2 XOR aes_mul b2 3 XOR b3 = a1"
    "b0 XOR b1 XOR aes_mul b2 2 XOR aes_mul b3 3 = a2"
    "aes_mul b0 3 XOR b1 XOR b2 XOR aes_mul b3 2 = a3"
  unfolding b0_def b1_def b2_def b3_def aes_mul_consts xtime_xor
  by (simp_all add: xor_ac xor_cancel)

subsection \<open>The steps are inverse\<close>

lemma list16:
  assumes "length s = 16"
  obtains s0 s1 s2 s3 s4 s5 s6 s7 s8 s9 s10 s11 s12 s13 s14 s15
  where "s = [s0, s1, s2, s3, s4, s5, s6, s7, s8, s9, s10, s11, s12, s13, s14, s15]"
  using assms by (auto simp: numeral_eq_Suc length_Suc_conv)

lemma shift_rows_inverse:
  assumes "length s = 16"
  shows "aes_inv_shift_rows (aes_shift_rows s) = s" "aes_shift_rows (aes_inv_shift_rows s) = s"
    "length (aes_shift_rows s) = 16" "length (aes_inv_shift_rows s) = 16"
  by (rule list16 [OF assms], simp add: aes_inv_shift_rows_def aes_shift_rows_def Let_def)+

lemma mix_columns_inverse:
  assumes "length s = 16"
  shows "aes_inv_mix_columns (aes_mix_columns s) = s" "aes_mix_columns (aes_inv_mix_columns s) = s"
    "length (aes_mix_columns s) = 16" "length (aes_inv_mix_columns s) = 16"
  by (rule list16 [OF assms], simp add: aes_inv_mix_columns_def aes_mix_columns_def Let_def upt_rec mix_column_inverse mix_column_inverse2)+

lemma add_round_key_inverse:
  assumes "length s = 16"
  shows "aes_add_round_key k (aes_add_round_key k s) = s" "length (aes_add_round_key k s) = 16"
  using assms by (auto simp: aes_add_round_key_def xor.assoc intro: nth_equalityI)

lemma sub_bytes_inverse:
  assumes "length s = 16"
  shows "aes_inv_sub_bytes (aes_sub_bytes s) = s" "aes_sub_bytes (aes_inv_sub_bytes s) = s"
    "length (aes_sub_bytes s) = 16" "length (aes_inv_sub_bytes s) = 16"
  using assms
  by (auto simp: aes_inv_sub_bytes_def aes_sub_bytes_def aes_sbox_inverse aes_inv_sbox_inverse intro: nth_equalityI)

lemmas step_inverses = add_round_key_inverse sub_bytes_inverse shift_rows_inverse mix_columns_inverse

text \<open>A list of steps undone by the inverse steps in reverse.\<close>

lemma fold_undo:
  assumes "\<And>r s. P s \<Longrightarrow> P (f r s) \<and> g r (f r s) = s"
  shows "P s \<Longrightarrow> P (fold f rs s) \<and> fold g (rev rs) (fold f rs s) = s"
proof (induction rs arbitrary: s)
  case (Cons r rs)
  thus ?case using assms [of s r] by simp
qed simp

lemma fold_keep: "(\<And>r s. P s \<Longrightarrow> P (f r s)) \<Longrightarrow> P s \<Longrightarrow> P (fold f rs s)"
  by (induction rs arbitrary: s) simp_all

lemma encrypt_block_length: "length b = 16 \<Longrightarrow> length (aes128_encrypt_block ctx b) = 16"
  by (simp add: aes128_encrypt_block_def Let_def step_inverses fold_keep [where P = "\<lambda>s. length s = 16"])

lemma decrypt_block_length: "length b = 16 \<Longrightarrow> length (aes128_decrypt_block ctx b) = 16"
  by (simp add: aes128_decrypt_block_def Let_def step_inverses fold_keep [where P = "\<lambda>s. length s = 16"])

lemma decrypt_encrypt_block:
  assumes "length b = 16"
  shows "aes128_decrypt_block ctx (aes128_encrypt_block ctx b) = b"
proof -
  let ?f = "\<lambda>round block. aes_add_round_key (round_key ctx ! round) (aes_mix_columns (aes_shift_rows (aes_sub_bytes block)))"
  let ?g = "\<lambda>round block. aes_inv_sub_bytes (aes_inv_shift_rows (aes_inv_mix_columns (aes_add_round_key (round_key ctx ! round) block)))"
  let ?b = "aes_add_round_key (round_key ctx ! 0) b"
  have b: "length ?b = 16" using assms by (rule step_inverses)
  have "length (fold ?f [1..<rounds ctx] ?b) = 16 \<and> fold ?g (rev [1..<rounds ctx]) (fold ?f [1..<rounds ctx] ?b) = ?b"
    by (rule fold_undo [where P = "\<lambda>s. length s = 16", OF _ b]) (simp add: step_inverses)
  thus ?thesis
    using assms by (simp add: aes128_encrypt_block_def aes128_decrypt_block_def Let_def step_inverses)
qed

lemma encrypt_decrypt_block:
  assumes "length b = 16"
  shows "aes128_encrypt_block ctx (aes128_decrypt_block ctx b) = b"
proof -
  let ?f = "\<lambda>round block. aes_add_round_key (round_key ctx ! round) (aes_mix_columns (aes_shift_rows (aes_sub_bytes block)))"
  let ?g = "\<lambda>round block. aes_inv_sub_bytes (aes_inv_shift_rows (aes_inv_mix_columns (aes_add_round_key (round_key ctx ! round) block)))"
  let ?b = "aes_inv_sub_bytes (aes_inv_shift_rows (aes_add_round_key (round_key ctx ! rounds ctx) b))"
  have b: "length ?b = 16" using assms by (simp add: step_inverses)
  have "length (fold ?g (rev [1..<rounds ctx]) ?b) = 16 \<and>
      fold ?f (rev (rev [1..<rounds ctx])) (fold ?g (rev [1..<rounds ctx]) ?b) = ?b"
    by (rule fold_undo [where P = "\<lambda>s. length s = 16", OF _ b]) (simp add: step_inverses)
  thus ?thesis
    using assms by (simp add: aes128_encrypt_block_def aes128_decrypt_block_def Let_def step_inverses)
qed

subsection \<open>The key schedule\<close>

lemma key_words_prefix:
  assumes "nk \<le> i" "i \<le> m"
  shows "\<exists>ws. aes_key_words key nk m = aes_key_words key nk i @ ws"
proof -
  have "\<exists>ws. fold (\<lambda>i w. w @ [aes_key_word nk i w]) is w = w @ ws" for w :: "bytes list" and "is"
  proof (induction "is" arbitrary: w)
    case (Cons a "is")
    from Cons.IH [of "w @ [aes_key_word nk a w]"] show ?case by auto
  qed simp
  moreover have "[nk..<m] = [nk..<i] @ [i..<m]" using assms by (metis le_add_diff_inverse upt_add_eq_append)
  ultimately show ?thesis by (simp add: aes_key_words_def)
qed

lemma key_words_length: "nk \<le> m \<Longrightarrow> length (aes_key_words key nk m) = m"
proof -
  have "length (fold (\<lambda>i w. w @ [aes_key_word nk i w]) is w) = length w + length is" for w :: "bytes list" and "is"
    by (induction "is" arbitrary: w) simp_all
  thus "nk \<le> m \<Longrightarrow> length (aes_key_words key nk m) = m" by (simp add: aes_key_words_def)
qed

text \<open>The recurrence of FIPS-197: every word is the word nk back XORed with the transformed previous word.\<close>

lemma key_words_nth:
  assumes "nk \<le> i" "i < m"
  shows "aes_key_words key nk m ! i = aes_key_word nk i (aes_key_words key nk i)"
proof -
  obtain ws where "aes_key_words key nk m = aes_key_words key nk (Suc i) @ ws"
    using key_words_prefix [of nk "Suc i" m] assms by auto
  moreover have "aes_key_words key nk (Suc i) = aes_key_words key nk i @ [aes_key_word nk i (aes_key_words key nk i)]"
    using assms(1) by (simp add: aes_key_words_def)
  ultimately show ?thesis using assms(1) by (simp add: key_words_length nth_append)
qed

lemma key_words_keep:
  assumes "nk \<le> i" "j < i" "i \<le> m"
  shows "aes_key_words key nk m ! j = aes_key_words key nk i ! j"
  using key_words_prefix [OF assms(1,3), of key] assms by (auto simp: nth_append key_words_length)


lemma aes_key_schedule:
  fixes key :: bytes and nk :: nat
  assumes "nk = 4 \<or> nk = 8" "length key = 4 * nk"
  defines "w \<equiv> aes_key_words key nk (4 * (nk + 7))"
  shows "length w = 4 * (nk + 7)" "rounds (aes_set_key ctx key (4 * nk)) = nk + 6"
    "\<And>i. i < nk \<Longrightarrow> w ! i = slice (i * 4) 4 key"
    "\<And>i. nk \<le> i \<Longrightarrow> i < 4 * (nk + 7) \<Longrightarrow> w ! i = aes_key_word nk i w"
    "\<And>r. r \<le> nk + 6 \<Longrightarrow> round_key (aes_set_key ctx key (4 * nk)) ! r = concat (map (\<lambda>c. w ! (r * 4 + c)) [0..<4])"
proof -
  show "length w = 4 * (nk + 7)" by (simp add: w_def key_words_length)
  show "rounds (aes_set_key ctx key (4 * nk)) = nk + 6" by (simp add: aes_set_key_def Let_def)
  show "w ! i = slice (i * 4) 4 key" if "i < nk" for i
    using key_words_prefix [of nk nk "4 * (nk + 7)" key] that by (auto simp: w_def aes_key_words_def nth_append)
  show "w ! i = aes_key_word nk i w" if i: "nk \<le> i" "i < 4 * (nk + 7)" for i
  proof -
    have "w ! j = aes_key_words key nk i ! j" if "j < i" for j
      unfolding w_def using i that by (intro key_words_keep) simp_all
    hence "aes_key_word nk i w = aes_key_word nk i (aes_key_words key nk i)"
    proof -
      have "i - 1 < i" "i - nk < i" using i assms(1) by auto
      thus ?thesis using \<open>\<And>j. j < i \<Longrightarrow> w ! j = aes_key_words key nk i ! j\<close> unfolding aes_key_word_def by simp
    qed
    thus ?thesis using key_words_nth [OF i, of key] by (simp add: w_def)
  qed
  show "round_key (aes_set_key ctx key (4 * nk)) ! r = concat (map (\<lambda>c. w ! (r * 4 + c)) [0..<4])"
    if "r \<le> nk + 6" for r
    using that assms(1) by (auto simp: aes_set_key_def Let_def w_def ac_simps)
qed

subsection \<open>CBC over any block cipher\<close>

text \<open>What CBC needs of a cipher; the code's two loops are its two functions.\<close>

locale cbc_cipher =
  fixes enc dec :: "bytes \<Rightarrow> bytes" and cbc_enc cbc_dec :: "bytes \<Rightarrow> bytes \<Rightarrow> bytes"
  assumes dec_enc: "length b = 16 \<Longrightarrow> dec (enc b) = b"
    and enc_length: "length b = 16 \<Longrightarrow> length (enc b) = 16"
    and cbc_enc_nil: "cbc_enc p [] = []" and cbc_dec_nil: "cbc_dec p [] = []"
    and cbc_enc_step: "length b = 16 \<Longrightarrow>
      cbc_enc p (b @ d) = (let c = enc (map (\<lambda>i. b ! i XOR p ! i) [0..<16]) in c @ cbc_enc c d)"
    and cbc_dec_step: "length c = 16 \<Longrightarrow>
      cbc_dec p (c @ d) = map (\<lambda>i. dec c ! i XOR p ! i) [0..<16] @ cbc_dec c d"
begin

lemma cbc_roundtrip: "length d = 16 * n \<Longrightarrow> cbc_dec p (cbc_enc p d) = d \<and> length (cbc_enc p d) = length d"
proof (induction n arbitrary: p d)
  case 0
  thus ?case by (simp add: cbc_enc_nil cbc_dec_nil)
next
  case (Suc n)
  define b where "b = take 16 d"
  define x where "x = map (\<lambda>i. b ! i XOR p ! i) [0..<16]"
  have d: "d = b @ drop 16 d" "length b = 16" "length (drop 16 d) = 16 * n" using Suc.prems by (simp_all add: b_def)
  have c: "length (enc x) = 16" "dec (enc x) = x" using enc_length dec_enc by (simp_all add: x_def)
  have e: "cbc_enc p d = enc x @ cbc_enc (enc x) (drop 16 d)"
    by (subst d(1)) (simp add: cbc_enc_step [OF d(2)] x_def Let_def)
  have "map (\<lambda>i. x ! i XOR p ! i) [0..<16] = b"
    using d(2) by (auto simp: x_def xor.assoc intro: nth_equalityI)
  hence "cbc_dec p (cbc_enc p d) = b @ cbc_dec (enc x) (cbc_enc (enc x) (drop 16 d))"
    unfolding e cbc_dec_step [OF c(1)] c(2) by simp
  thus ?case using Suc.IH [OF d(3), of "enc x"] d c(1) by (simp add: e b_def)
qed

end

interpretation aes_cbc: cbc_cipher "aes128_encrypt_block ctx" "aes128_decrypt_block ctx"
  "aes_cbc_encrypt_from ctx" "aes_cbc_decrypt_from ctx" for ctx
proof (unfold_locales, goal_cases)
  case (3 p) show ?case by (simp add: aes_cbc_encrypt_from.simps)
next
  case (4 p) show ?case by (simp add: aes_cbc_decrypt_from.simps)
next
  case (5 b p d)
  have e: "map (\<lambda>i. (b @ d) ! i XOR p ! i) [0..<16] = map (\<lambda>i. b ! i XOR p ! i) [0..<16]"
    using 5 by (simp add: nth_append)
  have ne: "b @ d \<noteq> []" and dr: "drop 16 (b @ d) = d" using 5 by auto
  show ?case
    unfolding aes_cbc_encrypt_from.simps [of ctx p "b @ d"] if_not_P [OF ne] e dr Let_def by (rule refl)
next
  case (6 c p d)
  thus ?case unfolding aes_cbc_decrypt_from.simps [of ctx p "c @ d"] by (auto simp: Let_def)
qed (simp_all add: decrypt_encrypt_block encrypt_block_length)

text \<open>Claim C33. The AES block functions are inverse permutations of 16-byte blocks for every expanded key (any number
  of rounds), and CBC decryption returns the plaintext for every IV and every whole number of blocks, in as many bytes.\<close>

theorem aes_decrypts:
  assumes "length b = 16" "length iv = 16" "length d = 16 * n"
  shows "aes128_decrypt_block ctx (aes128_encrypt_block ctx b) = b \<and>
    aes128_encrypt_block ctx (aes128_decrypt_block ctx b) = b \<and>
    length (aes128_encrypt_block ctx b) = 16 \<and> length (aes128_decrypt_block ctx b) = 16 \<and>
    aes128_cbc_decrypt ctx iv (aes128_cbc_encrypt ctx iv d) = d \<and> length (aes128_cbc_encrypt ctx iv d) = length d"
  using assms(1,2) aes_cbc.cbc_roundtrip [OF assms(3), of ctx iv]
  by (simp add: decrypt_encrypt_block encrypt_decrypt_block encrypt_block_length decrypt_block_length
      aes128_cbc_encrypt_def aes128_cbc_decrypt_def)

lemma aes_decrypts_witness:
  "let ctx = aes128_set_key \<lparr>round_key = replicate 15 (replicate 16 0), rounds = 0\<rparr> (replicate 16 3)
   in aes128_cbc_decrypt ctx (replicate 16 7) (aes128_cbc_encrypt ctx (replicate 16 7) (replicate 48 1)) = replicate 48 1"
  using aes_decrypts [of "replicate 16 0" "replicate 16 7" "replicate 48 1" 3] by (simp add: Let_def)


end
