(* ===== verification/Gcm.thy ===== *)
theory Gcm
  imports Aes
begin

text \<open>
  gcm.h: AES-GCM. GHASH by the 4-bit table of multiples of H, CTR encryption over aes.h's block function, the tag, and
  the two record operations. The reference is the bit-serial product of SP 800-38D on 128-bit words; the tag is
  proved to be GHASH of the padded data under it.
\<close>

type_synonym u128 = "128 word"

definition GCM_IV_SIZE :: nat where "GCM_IV_SIZE = 12"

definition gcm_xor_block :: "bytes \<Rightarrow> bytes \<Rightarrow> bytes" where
  "gcm_xor_block a b = map (\<lambda>i. a ! i XOR b ! i) [0..<16]"

record gcm_table =
  hl :: "u64 list"
  hh :: "u64 list"

definition gcm_get64_be :: "bytes \<Rightarrow> nat \<Rightarrow> u64" where
  "gcm_get64_be p i =
     push_bit 56 (ucast (p ! i)) OR push_bit 48 (ucast (p ! (i + 1))) OR push_bit 40 (ucast (p ! (i + 2))) OR
     push_bit 32 (ucast (p ! (i + 3))) OR push_bit 24 (ucast (p ! (i + 4))) OR push_bit 16 (ucast (p ! (i + 5))) OR
     push_bit 8 (ucast (p ! (i + 6))) OR ucast (p ! (i + 7))"

definition gcm_put64_be :: "u64 \<Rightarrow> bytes" where
  "gcm_put64_be v = map (\<lambda>i. ucast (drop_bit (56 - 8 * i) v)) [0..<8]"

subsection \<open>The table\<close>

text \<open>The body of for (i = 4; i > 0; i >>= 1), on the table and the running vh, vl.\<close>

definition gcm_shift_entry :: "nat \<Rightarrow> gcm_table \<times> u64 \<times> u64 \<Rightarrow> gcm_table \<times> u64 \<times> u64" where
  "gcm_shift_entry i = (\<lambda>(t, vh, vl).
     let carry = (if vl AND 1 \<noteq> 0 then 0xe100000000000000 else 0);
         vl = push_bit 63 vh OR drop_bit 1 vl;
         vh = drop_bit 1 vh XOR carry
     in (t\<lparr>hl := (hl t)[i := vl], hh := (hh t)[i := vh]\<rparr>, vh, vl))"

definition gcm_xor_entry :: "nat \<Rightarrow> nat \<Rightarrow> gcm_table \<Rightarrow> gcm_table" where
  "gcm_xor_entry i j t =
     t\<lparr>hh := (hh t)[i + j := hh t ! i XOR hh t ! j], hl := (hl t)[i + j := hl t ! i XOR hl t ! j]\<rparr>"

definition gcm_build_table :: "gcm_table \<Rightarrow> bytes \<Rightarrow> gcm_table" where
  "gcm_build_table t h =
     (let vh = gcm_get64_be h 0;
          vl = gcm_get64_be h 8;
          t = t\<lparr>hl := (hl t)[0 := 0], hh := (hh t)[0 := 0]\<rparr>;
          t = t\<lparr>hl := (hl t)[8 := vl], hh := (hh t)[8 := vh]\<rparr>;
          (t, _, _) = fold gcm_shift_entry [4, 2, 1] (t, vh, vl)
      in fold (\<lambda>i. fold (gcm_xor_entry i) [1..<i]) [2, 4, 8] t)"

definition last4 :: "u64 list" where
  "last4 =
    [0x0000, 0x1c20, 0x3840, 0x2460, 0x7080, 0x6ca0, 0x48c0, 0x54e0,
     0xe100, 0xfd20, 0xd940, 0xc560, 0x9180, 0x8da0, 0xa9c0, 0xb5e0]"

text \<open>One nibble: shift the result right by 4 with the reduction, then add the table entry.\<close>

definition gcm_nibble :: "gcm_table \<Rightarrow> nat \<Rightarrow> u64 \<times> u64 \<Rightarrow> u64 \<times> u64" where
  "gcm_nibble t n = (\<lambda>(zh, zl).
     let rem = unat (zl AND 0xf);
         zl = push_bit 60 zh OR drop_bit 4 zl;
         zh = drop_bit 4 zh;
         zh = zh XOR push_bit 48 (last4 ! rem);
         zh = zh XOR hh t ! n;
         zl = zl XOR hl t ! n
     in (zh, zl))"

definition gcm_mult_h :: "gcm_table \<Rightarrow> bytes \<Rightarrow> bytes" where
  "gcm_mult_h t y =
     (let lo = unat (y ! 15 AND 0xf);
          z = (hh t ! lo, hl t ! lo);
          (zh, zl) = fold (\<lambda>i z.
              let lo = unat (y ! i AND 0xf);
                  hi = unat (drop_bit 4 (y ! i) AND 0xf);
                  z = (if i \<noteq> 15 then gcm_nibble t lo z else z)
              in gcm_nibble t hi z)
            (rev [0..<16]) z
      in gcm_put64_be zh @ gcm_put64_be zl)"

subsection \<open>Absorbing\<close>

function gcm_absorb :: "gcm_table \<Rightarrow> bytes \<Rightarrow> bytes \<Rightarrow> bytes" where
  "gcm_absorb t y data =
     (if length data \<ge> 16 then gcm_absorb t (gcm_mult_h t (map (\<lambda>i. y ! i XOR data ! i) [0..<16])) (drop 16 data)
      else if length data > 0
      then gcm_mult_h t (map (\<lambda>i. if i < length data then y ! i XOR data ! i else y ! i) [0..<16])
      else y)"
  by pat_completeness auto
termination by (relation "measure (\<lambda>(_, _, d). length d)") auto

declare gcm_absorb.simps [simp del]

definition gcm_absorb_lengths :: "gcm_table \<Rightarrow> bytes \<Rightarrow> nat \<Rightarrow> nat \<Rightarrow> bytes" where
  "gcm_absorb_lengths t y aad_len ct_len =
     (let aad_bits = (of_nat aad_len :: u64) * 8; ct_bits = (of_nat ct_len :: u64) * 8;
          blk = gcm_put64_be aad_bits @ gcm_put64_be ct_bits
      in gcm_mult_h t (map (\<lambda>i. y ! i XOR blk ! i) [0..<16]))"

subsection \<open>The counter\<close>

text \<open>for (i = 15; i >= 12; i--) { counter[i]++; if (counter[i] != 0) break; }\<close>

fun gcm_inc_at :: "nat list \<Rightarrow> bytes \<Rightarrow> bytes" where
  "gcm_inc_at [] counter = counter"
| "gcm_inc_at (i # is) counter =
     (let counter = counter[i := counter ! i + 1] in if counter ! i \<noteq> 0 then counter else gcm_inc_at is counter)"

definition gcm_inc32 :: "bytes \<Rightarrow> bytes" where
  "gcm_inc32 = gcm_inc_at [15, 14, 13, 12]"

function gcm_ctr_apply :: "aes_ctx \<Rightarrow> bytes \<Rightarrow> bytes \<Rightarrow> bytes \<times> bytes" where
  "gcm_ctr_apply aes counter data =
     (if data = [] then ([], counter)
      else
        let keystream = aes128_encrypt_block aes (take 16 counter);
            chunk = (if length data < 16 then length data else 16);
            out = map (\<lambda>i. data ! i XOR keystream ! i) [0..<chunk];
            (rest, counter) = gcm_ctr_apply aes (gcm_inc32 counter) (drop chunk data)
        in (out @ rest, counter))"
  by pat_completeness auto
termination by (relation "measure (\<lambda>(_, _, d). length d)") auto

declare gcm_ctr_apply.simps [simp del]

subsection \<open>Tag, encryption, decryption\<close>

definition gcm_compute_tag :: "aes_ctx \<Rightarrow> gcm_table \<Rightarrow> bytes \<Rightarrow> bytes \<Rightarrow> bytes \<Rightarrow> bytes" where
  "gcm_compute_tag aes stk iv aad ct =
     (let h = aes128_encrypt_block aes (replicate 16 0);
          table = gcm_build_table stk h;
          y = replicate 16 0;
          y = gcm_absorb table y aad;
          y = gcm_absorb table y ct;
          y = gcm_absorb_lengths table y (length aad) (length ct);
          j0 = take 12 iv @ [0, 0, 0, 1];
          j0 = aes128_encrypt_block aes j0
      in gcm_xor_block y j0)"

definition gcm_encrypt :: "aes_ctx \<Rightarrow> gcm_table \<Rightarrow> bytes \<Rightarrow> bytes \<Rightarrow> bytes \<Rightarrow> bytes \<times> bytes" where
  "gcm_encrypt aes stk iv aad plaintext =
     (let counter = take 12 iv @ [0, 0, 0, 1];
          counter = gcm_inc32 counter;
          (ct, _) = gcm_ctr_apply aes counter plaintext
      in (ct, gcm_compute_tag aes stk iv aad ct))"

definition gcm_decrypt :: "aes_ctx \<Rightarrow> gcm_table \<Rightarrow> bytes \<Rightarrow> bytes \<Rightarrow> bytes \<Rightarrow> bytes \<Rightarrow> bool \<times> bytes" where
  "gcm_decrypt aes stk iv aad ciphertext tag_in =
     (let expected = gcm_compute_tag aes stk iv aad ciphertext;
          diff = fold (\<lambda>i diff. diff OR (expected ! i XOR tag_in ! i)) [0..<16] 0
      in if diff \<noteq> 0 then (False, ciphertext)
         else
           let counter = take 12 iv @ [0, 0, 0, 1];
               counter = gcm_inc32 counter
           in (True, fst (gcm_ctr_apply aes counter ciphertext)))"

subsection \<open>Blocks as 128-bit words\<close>

definition be_val :: "bytes \<Rightarrow> u128" where "be_val = foldl (\<lambda>v x. push_bit 8 v OR ucast x) 0"

lemma bit_be_val:
  "bit (be_val b) n \<longleftrightarrow> n < 128 \<and> n div 8 < length b \<and> bit (b ! (length b - 1 - n div 8)) (n mod 8)"
proof (induction b arbitrary: n rule: rev_induct)
  case (snoc x b)
  have s: "be_val (b @ [x]) = push_bit 8 (be_val b) OR ucast x" by (simp add: be_val_def)
  show ?case
  proof (cases "n < 8")
    case True
    thus ?thesis unfolding s by (auto simp: bit_simps nth_append)
  next
    case False
    hence "bit (be_val (b @ [x])) n \<longleftrightarrow> n < 128 \<and> bit (be_val b) (n - 8)"
      unfolding s by (auto simp: bit_simps dest: bit_imp_le_length)
    moreover obtain q where q: "n div 8 = Suc q" using False by (cases "n div 8") auto
    moreover have "(n - 8) div 8 = q" "(n - 8) mod 8 = n mod 8"
      using False q by (simp_all add: le_div_geq le_mod_geq)
    moreover have "(b @ [x]) ! (length b - Suc q) = b ! (length b - Suc q)" if "q < length b"
      using that by (simp add: nth_append_left)
    ultimately show ?thesis using snoc.IH [of "n - 8"] by (cases "q < length b") auto
  qed
qed (simp add: be_val_def)

definition join :: "u64 \<Rightarrow> u64 \<Rightarrow> u128" where "join h l = push_bit 64 (ucast h) OR ucast l"

lemma bit_join: "bit (join h l) n \<longleftrightarrow> (if n < 64 then bit l n else n < 128 \<and> bit h (n - 64))"
  by (auto simp: join_def bit_simps dest: bit_imp_le_length)

lemma join_xor: "join (a XOR b) (c XOR d) = join a c XOR join b d"
  by (rule bit_word_eqI) (auto simp: bit_join bit_simps)

lemma join_0 [simp]: "join 0 0 = 0" by (simp add: join_def)

lemma bit_get64:
  "bit (gcm_get64_be p i) n \<longleftrightarrow> n < 64 \<and> bit (p ! (i + 7 - n div 8)) (n mod 8)"
proof -
  have b: "bit (push_bit k (ucast x :: u64)) n \<longleftrightarrow> k \<le> n \<and> n < k + 8 \<and> bit x (n - k)" if "k \<le> 56" for k and x :: u8
    using that by (auto simp: bit_simps dest: bit_imp_le_length)
  have b0: "bit (ucast x :: u64) n \<longleftrightarrow> n < 8 \<and> bit x n" for x :: u8
    by (auto simp: bit_simps dest: bit_imp_le_length)
  have e: "bit (gcm_get64_be p i) n \<longleftrightarrow>
      (56 \<le> n \<and> n < 56 + 8 \<and> bit (p ! i) (n - 56)) \<or> (48 \<le> n \<and> n < 48 + 8 \<and> bit (p ! (i + 1)) (n - 48)) \<or>
      (40 \<le> n \<and> n < 40 + 8 \<and> bit (p ! (i + 2)) (n - 40)) \<or> (32 \<le> n \<and> n < 32 + 8 \<and> bit (p ! (i + 3)) (n - 32)) \<or>
      (24 \<le> n \<and> n < 24 + 8 \<and> bit (p ! (i + 4)) (n - 24)) \<or> (16 \<le> n \<and> n < 16 + 8 \<and> bit (p ! (i + 5)) (n - 16)) \<or>
      (8 \<le> n \<and> n < 8 + 8 \<and> bit (p ! (i + 6)) (n - 8)) \<or> (n < 8 \<and> bit (p ! (i + 7)) n)"
    unfolding gcm_get64_be_def bit_or_iff disj_assoc
    by (intro arg_cong2 [where f = "(\<or>)"] b b0) simp_all
  show ?thesis
  proof (cases "n < 64")
    case True
    define q r where "q = n div 8" and "r = n mod 8"
    have n: "n = 8 * q + r" "r < 8" "q < 8" using True by (simp_all add: q_def r_def)
    hence "q = 0 \<or> q = 1 \<or> q = 2 \<or> q = 3 \<or> q = 4 \<or> q = 5 \<or> q = 6 \<or> q = 7" by linarith
    thus ?thesis unfolding e q_def [symmetric] r_def [symmetric] using n by (elim disjE) (simp_all add: add.commute)
  next
    case False
    thus ?thesis by (simp add: e)
  qed
qed

lemma join_get64:
  assumes "length b = 16"
  shows "join (gcm_get64_be b 0) (gcm_get64_be b 8) = be_val b"
proof (rule bit_word_eqI)
  fix n :: nat assume "n < LENGTH(128)"
  hence n: "n < 128" by simp
  show "bit (join (gcm_get64_be b 0) (gcm_get64_be b 8)) n = bit (be_val b) n"
  proof (cases "n < 64")
    case True
    hence "8 + 7 - n div 8 = 15 - n div 8" "n div 8 < 16" by simp_all
    thus ?thesis using True assms by (simp add: bit_join bit_get64 bit_be_val)
  next
    case False
    then obtain k where k: "n = 64 + k" by (metis le_Suc_ex not_less)
    have "(8 * 8 + k) mod 8 = k mod 8" by (simp only: mod_mult_self4)
    hence "(n - 64) div 8 = n div 8 - 8" "(n - 64) mod 8 = n mod 8" "n div 8 < 16" "n - 64 < 64" "7 - (n div 8 - 8) = 15 - n div 8" using n by (simp_all add: k)
    thus ?thesis using n False assms by (simp add: bit_join bit_get64 bit_be_val)
  qed
qed

lemma be_val_put64: "be_val (gcm_put64_be h @ gcm_put64_be l) = join h l"
proof (rule bit_word_eqI)
  fix n :: nat assume "n < LENGTH(128)"
  hence n: "n < 128" by simp
  have p: "bit (gcm_put64_be v ! j) k \<longleftrightarrow> bit v (56 - 8 * j + k)" if "j < 8" "k < 8" for v j k
    using that by (simp add: gcm_put64_be_def bit_simps)
  have l: "length (gcm_put64_be v) = 8" for v by (simp add: gcm_put64_be_def)
  show "bit (be_val (gcm_put64_be h @ gcm_put64_be l)) n = bit (join h l) n"
  proof (cases "n < 64")
    case True
    have "n = 8 * (n div 8) + n mod 8" "n div 8 < 8" using True by simp_all
    hence "56 - 8 * (15 - n div 8 - 8) + n mod 8 = n" "n div 8 < 16" "\<not> 15 - n div 8 < 8" by linarith+
    thus ?thesis using True by (simp add: bit_be_val bit_join l nth_append p)
  next
    case False
    have "n = 8 * (n div 8) + n mod 8" "n div 8 < 16" "8 \<le> n div 8" using False n by simp_all
    hence "56 - 8 * (15 - n div 8) + n mod 8 = n - 64" "n div 8 < 16" "15 - n div 8 < 8" by linarith+
    thus ?thesis using n False by (simp add: bit_be_val bit_join l nth_append p)
  qed
qed

subsection \<open>The product of SP 800-38D\<close>

text \<open>Multiplication by x: a shift towards the low end, reduced by R = 11100001 followed by zeros. The product runs over the
  bits of its first argument from the leftmost.\<close>

definition gf_step :: "u128 \<Rightarrow> u128" where
  "gf_step v = (if bit v 0 then drop_bit 1 v XOR push_bit 120 0xe1 else drop_bit 1 v)"

definition gf128_mul :: "u128 \<Rightarrow> u128 \<Rightarrow> u128" where
  "gf128_mul x y = fst (fold (\<lambda>i (z, v). (if bit x (127 - i) then z XOR v else z, gf_step v)) [0..<128] (0, y))"

definition ghash :: "u128 \<Rightarrow> u128 list \<Rightarrow> u128" where
  "ghash H = foldl (\<lambda>z b. gf128_mul (z XOR b) H) 0"

lemma gf_step_xor: "gf_step (a XOR b) = gf_step a XOR gf_step b"
  by (cases "bit a 0"; cases "bit b 0") (simp_all add: gf_step_def drop_bit_xor bit_xor_iff xor_ac)

lemma gf_step_0 [simp]: "gf_step 0 = 0" by (simp add: gf_step_def)

lemma gf_steps_xor: "(gf_step ^^ n) (a XOR b) = (gf_step ^^ n) a XOR (gf_step ^^ n) b"
  by (induction n) (simp_all add: gf_step_xor)

lemma gf_steps_0 [simp]: "(gf_step ^^ n) 0 = 0" by (induction n) simp_all

text \<open>The same product from the other end (Horner).\<close>

definition horner :: "u128 \<Rightarrow> u128 \<Rightarrow> nat \<Rightarrow> u128" where
  "horner x y k = foldr (\<lambda>i z. gf_step z XOR (if bit x (127 - i) then y else 0)) [k..<128] 0"

lemma horner_step: "k < 128 \<Longrightarrow> horner x y k = gf_step (horner x y (Suc k)) XOR (if bit x (127 - k) then y else 0)"
  by (simp add: horner_def upt_conv_Cons)

lemma gf128_mul_horner: "gf128_mul x y = horner x y 0"
proof -
  let ?f = "\<lambda>i (z, v). (if bit x (127 - i) then z XOR v else z, gf_step v)"
  have "fst (fold ?f [0..<n] (0, y)) XOR (gf_step ^^ n) (horner x y n) = horner x y 0 \<and> snd (fold ?f [0..<n] (0, y)) = (gf_step ^^ n) y"
    if "n \<le> 128" for n
    using that
  proof (induction n)
    case (Suc n)
    obtain z v where zv: "fold ?f [0..<n] (0, y) = (z, v)" by fastforce
    have "v = (gf_step ^^ n) y" "z XOR (gf_step ^^ n) (horner x y n) = horner x y 0" using Suc by (simp_all add: zv)
    moreover have "(gf_step ^^ n) (horner x y n) =
        (gf_step ^^ Suc n) (horner x y (Suc n)) XOR (if bit x (127 - n) then (gf_step ^^ n) y else 0)"
      using Suc.prems by (simp add: horner_step gf_steps_xor funpow_swap1)
    ultimately show ?case using Suc.prems by (auto simp: zv xor_ac)
  qed simp
  from this [of 128] show ?thesis by (simp add: gf128_mul_def horner_def)
qed

subsection \<open>Four bits at a time\<close>

lemma gf_step_clear: "\<not> bit z 0 \<Longrightarrow> gf_step z = drop_bit 1 z" by (simp add: gf_step_def)

lemma and_0F_u128: "x AND 15 = take_bit 4 (x :: u128)" by (simp add: take_bit_eq_mask mask_eq_exp_minus_1)

lemma funpow4: "(f ^^ 4) x = f (f (f (f x)))" by (simp add: eval_nat_numeral)

lemma gf_step4_low: "n < 16 \<Longrightarrow> (gf_step ^^ 4) (of_nat n) = push_bit 112 (ucast (last4 ! n))"
  unfolding funpow4
  by (drule less_16, elim disjE) (simp_all add: gf_step_def last4_def)

lemma gf_step4: "(gf_step ^^ 4) z = drop_bit 4 z XOR push_bit 112 (ucast (last4 ! unat (z AND 15)))"
proof -
  define a b where "a = push_bit 4 (drop_bit 4 z)" and "b = z AND 15"
  have z: "z = a XOR b" by (rule bit_word_eqI) (auto simp: a_def b_def and_0F_u128 bit_simps)
  have "\<not> bit a 0" "\<not> bit (drop_bit 1 a) 0" "\<not> bit (drop_bit 2 a) 0" "\<not> bit (drop_bit 3 a) 0"
    by (simp_all add: a_def bit_simps)
  hence "(gf_step ^^ 4) a = drop_bit 4 a"
    unfolding funpow4 by (simp add: gf_step_clear drop_bit_drop_bit eval_nat_numeral)
  also have "drop_bit 4 a = drop_bit 4 z" by (rule bit_word_eqI) (auto simp: a_def bit_simps dest: bit_imp_le_length)
  finally have a: "(gf_step ^^ 4) a = drop_bit 4 z" .
  have "unat b < 16" unfolding b_def and_0F_u128 unsigned_take_bit_eq by (simp add: take_bit_eq_mod)
  from gf_step4_low [OF this] have "(gf_step ^^ 4) b = push_bit 112 (ucast (last4 ! unat b))" by simp
  thus ?thesis using a gf_steps_xor [of 4 a b] by (simp only: z [symmetric] b_def [symmetric])
qed

subsection \<open>The table and the product\<close>

definition gf_nib :: "u128 \<Rightarrow> bool \<Rightarrow> bool \<Rightarrow> bool \<Rightarrow> bool \<Rightarrow> u128" where
  "gf_nib H b0 b1 b2 b3 = (if b0 then H else 0) XOR (if b1 then gf_step H else 0) XOR
     (if b2 then gf_step (gf_step H) else 0) XOR (if b3 then gf_step (gf_step (gf_step H)) else 0)"

lemma horner_nibble:
  assumes "k + 4 \<le> 128"
  shows "horner x H k = (gf_step ^^ 4) (horner x H (k + 4)) XOR
    gf_nib H (bit x (127 - k)) (bit x (127 - (k + 1))) (bit x (127 - (k + 2))) (bit x (127 - (k + 3)))"
  using assms horner_step [of k x H] horner_step [of "k + 1" x H] horner_step [of "k + 2" x H] horner_step [of "k + 3" x H]
  by (simp add: gf_nib_def funpow4 gf_step_xor eval_nat_numeral xor_ac)

lemma shift_entry_join:
  "join (drop_bit 1 vh XOR (if vl AND 1 \<noteq> 0 then 0xe100000000000000 else 0)) (push_bit 63 vh OR drop_bit 1 vl) = gf_step (join vh vl)"
proof -
  have o: "vl AND 1 \<noteq> 0 \<longleftrightarrow> bit vl 0" by (simp add: and_one_eq bit_0 odd_iff_mod_2_eq_one)
  have "(0xe100000000000000 :: u64) = push_bit 56 0xe1" by simp
  hence e: "join 0xe100000000000000 0 = push_bit 120 0xe1" by (simp add: join_def)
  have d: "join (drop_bit 1 vh) (push_bit 63 vh OR drop_bit 1 vl) = drop_bit 1 (join vh vl)"
  proof -
    have "Suc (n - 64) = n - 63" if "\<not> n < 64" for n :: nat using that by simp
    thus ?thesis by (intro bit_word_eqI) (auto simp: bit_join bit_simps dest: bit_imp_le_length)
  qed
  have "join (drop_bit 1 vh XOR c) (push_bit 63 vh OR drop_bit 1 vl) = drop_bit 1 (join vh vl) XOR join c 0" for c
    using join_xor [of "drop_bit 1 vh" c "push_bit 63 vh OR drop_bit 1 vl" 0] unfolding d by simp
  thus ?thesis by (auto simp: o gf_step_def e bit_join)
qed

lemma nibble_join:
  assumes "gcm_nibble t n (zh, zl) = (zh', zl')"
  shows "join zh' zl' = (gf_step ^^ 4) (join zh zl) XOR join (hh t ! n) (hl t ! n)"
proof -
  have u: "unat (zl AND 15) = unat (join zh zl AND 15)"
  proof -
    have "zl AND 15 = take_bit 4 zl" by (simp add: take_bit_eq_mask mask_eq_exp_minus_1)
    hence "join zh zl AND 15 = ucast (zl AND 15)"
      unfolding and_0F_u128 by (simp only:) (rule bit_word_eqI, auto simp: bit_join bit_simps)
    moreover have "unat (ucast (zl AND 15) :: u128) = unat (zl AND 15)"
      using unsigned_less [of "zl AND 15", where 'a = nat] by (simp add: unsigned_ucast_eq take_bit_nat_eq_self)
    ultimately show ?thesis by simp
  qed
  have d: "join (drop_bit 4 zh XOR push_bit 48 w) (push_bit 60 zh OR drop_bit 4 zl) = drop_bit 4 (join zh zl) XOR push_bit 112 (ucast w)" for w
    by (rule bit_word_eqI) (auto simp: bit_join bit_simps dest: bit_imp_le_length)
  show ?thesis using assms d unfolding gf_step4 gcm_nibble_def by (auto simp: Let_def join_xor u)
qed


definition table_ok :: "gcm_table \<Rightarrow> bool" where "table_ok t \<longleftrightarrow> length (hl t) = 16 \<and> length (hh t) = 16"

lemma list16_upd:
  assumes "length s = 16"
  obtains s0 s1 s2 s3 s4 s5 s6 s7 s8 s9 s10 s11 s12 s13 s14 s15
  where "s = [s0, s1, s2, s3, s4, s5, s6, s7, s8, s9, s10, s11, s12, s13, s14, s15]"
  using assms by (auto simp: numeral_eq_Suc length_Suc_conv)

lemma upt_small: "[Suc 0..<2] = [1]" "[Suc 0..<4] = [1, 2, 3]" "[Suc 0..<8] = [1, 2, 3, 4, 5, 6, 7]"
  by (simp_all add: upt_rec)

text \<open>Entry n of the table is the nibble n times H, n's highest bit being the lowest power.\<close>

lemma build_table_entries:
  assumes "table_ok t" "n < 16" "length h = 16"
  shows "join (hh (gcm_build_table t h) ! n) (hl (gcm_build_table t h) ! n) =
    gf_nib (be_val h) (bit n 3) (bit n 2) (bit n 1) (bit n 0)"
proof -
  define vh vl where "vh = gcm_get64_be h 0" and "vl = gcm_get64_be h 8"
  have H: "join vh vl = be_val h" using join_get64 [OF assms(3)] by (simp add: vh_def vl_def)
  define f where "f = (\<lambda>(vh, vl). (drop_bit 1 vh XOR (if vl AND 1 \<noteq> 0 then 0xe100000000000000 else (0 :: u64)),
      push_bit 63 vh OR drop_bit 1 (vl :: u64)))"
  obtain h1 l1 where 1: "f (vh, vl) = (h1, l1)" by fastforce
  obtain h2 l2 where 2: "f (h1, l1) = (h2, l2)" by fastforce
  obtain h3 l3 where 3: "f (h2, l2) = (h3, l3)" by fastforce
  have fj: "f (a, b) = (c, d) \<Longrightarrow> join c d = gf_step (join a b)" for a b c d
    using shift_entry_join [of a b] by (auto simp: f_def)
  have j: "join h1 l1 = gf_step (be_val h)" "join h2 l2 = gf_step (gf_step (be_val h))"
    "join h3 l3 = gf_step (gf_step (gf_step (be_val h)))"
    using fj [OF 1] fj [OF 2] fj [OF 3] H by simp_all
  have se: "gcm_shift_entry i (t, a, b) = (t\<lparr>hl := (hl t)[i := snd (f (a, b))], hh := (hh t)[i := fst (f (a, b))]\<rparr>, f (a, b))"
    for i t a b by (simp add: gcm_shift_entry_def f_def Let_def)
  obtain x where x: "hl t = x" "length x = 16" using assms(1) by (simp add: table_ok_def)
  obtain y where y: "hh t = y" "length y = 16" using assms(1) by (simp add: table_ok_def)
  have "hl (gcm_build_table t h) = [0, l3, l2, l2 XOR l3, l1, l1 XOR l3, l1 XOR l2, l1 XOR (l2 XOR l3),
      vl, vl XOR l3, vl XOR l2, vl XOR (l2 XOR l3), vl XOR l1, vl XOR (l1 XOR l3), vl XOR (l1 XOR l2), vl XOR (l1 XOR (l2 XOR l3))]"
    using x(2) unfolding gcm_build_table_def Let_def vh_def [symmetric] vl_def [symmetric] x(1)
    by (elim list16_upd) (simp add: se 1 2 3 upt_small gcm_xor_entry_def x)
  moreover have "hh (gcm_build_table t h) = [0, h3, h2, h2 XOR h3, h1, h1 XOR h3, h1 XOR h2, h1 XOR (h2 XOR h3),
      vh, vh XOR h3, vh XOR h2, vh XOR (h2 XOR h3), vh XOR h1, vh XOR (h1 XOR h3), vh XOR (h1 XOR h2), vh XOR (h1 XOR (h2 XOR h3))]"
    using y(2) unfolding gcm_build_table_def Let_def vh_def [symmetric] vl_def [symmetric] y(1)
    by (elim list16_upd) (simp add: se 1 2 3 upt_small gcm_xor_entry_def y)
  ultimately show ?thesis
    using less_16 [OF assms(2)]
    by (elim disjE) (simp_all add: gf_nib_def join_xor j H bit_Suc_0_iff)
qed

lemma build_table_ok: "table_ok t \<Longrightarrow> table_ok (gcm_build_table t h)"
  by (simp add: table_ok_def gcm_build_table_def Let_def gcm_shift_entry_def gcm_xor_entry_def upt_small)

text \<open>One multiplication by the table is the product by H.\<close>

lemma gcm_mult_h_value:
  assumes t: "table_ok t0" "t = gcm_build_table t0 h" "length h = 16" and y: "length y = 16"
  shows "be_val (gcm_mult_h t y) = gf128_mul (be_val y) (be_val h) \<and> length (gcm_mult_h t y) = 16"
proof -
  let ?x = "be_val y" and ?H = "be_val h"
  let ?T = "\<lambda>n. join (hh t ! n) (hl t ! n)"
  define lo hi where "lo i = unat (y ! i AND 0xf)" and "hi i = unat (drop_bit 4 (y ! i) AND 0xf)" for i
  define F where "F = (\<lambda>i z. gcm_nibble t (hi i) (if i \<noteq> 15 then gcm_nibble t (lo i) z else z))"
  have xb: "bit ?x (127 - (8 * i + j)) = bit (y ! i) (7 - j)" if "i < 16" "j < 8" for i j
  proof -
    have "127 - (8 * i + j) = 8 * (15 - i) + (7 - j)" using that by simp
    moreover have "(8 * (15 - i) + (7 - j)) div 8 = 15 - i" using that by simp
    moreover have "(8 * (15 - i) + (7 - j)) mod 8 = 7 - j" using that by (simp only: mod_mult_self4) simp
    moreover have "8 * (15 - i) + (7 - j) < 128" "15 - i < 16" using that by simp_all
    ultimately show ?thesis using that y by (simp add: bit_be_val)
  qed
  have T: "?T n = gf_nib ?H (bit n 3) (bit n 2) (bit n 1) (bit n 0)" if "n < 16" for n
    using build_table_entries [OF t(1) that t(3)] t(2) by simp
  have lt: "lo i < 16" "hi i < 16" for i
    by (simp_all only: lo_def hi_def and_0F_u8 unsigned_take_bit_eq) (simp_all add: take_bit_eq_mod)
  have bits: "bit (lo i) k = bit (y ! i) k" "bit (hi i) k = bit (y ! i) (4 + k)" if "k < 4" for i k
    using that by (simp_all only: lo_def hi_def and_0F_u8 bit_unsigned_iff) (simp_all add: bit_simps)
  have hn: "horner ?x ?H (8 * i) = (gf_step ^^ 4) (horner ?x ?H (8 * i + 4)) XOR ?T (hi i)" if "i < 16" for i
    using horner_nibble [of "8 * i" ?x ?H] that xb [of i 0] xb [of i 1] xb [of i 2] xb [of i 3]
    by (simp add: T [OF lt(2)] bits)
  have ln: "horner ?x ?H (8 * i + 4) = (gf_step ^^ 4) (horner ?x ?H (8 * i + 8)) XOR ?T (lo i)" if "i < 16" for i
    using horner_nibble [of "8 * i + 4" ?x ?H] that xb [of i 4] xb [of i 5] xb [of i 6] xb [of i 7]
    by (simp add: T [OF lt(1)] bits add.commute add.left_commute)
  have step: "case_prod join (F i z) = horner ?x ?H (8 * i)"
    if "i < 15" "case_prod join z = horner ?x ?H (8 * i + 8)" for i z
  proof -
    obtain a b where z: "z = (a, b)" by (cases z)
    obtain a1 b1 where 1: "gcm_nibble t (lo i) (a, b) = (a1, b1)" by fastforce
    obtain a2 b2 where 2: "gcm_nibble t (hi i) (a1, b1) = (a2, b2)" by fastforce
    have "join a1 b1 = horner ?x ?H (8 * i + 4)" using nibble_join [OF 1] ln [of i] that by (simp add: z)
    hence "join a2 b2 = horner ?x ?H (8 * i)" using nibble_join [OF 2] hn [of i] that by simp
    thus ?thesis using that(1) by (simp add: F_def z 1 2)
  qed
  have h128: "horner ?x ?H 128 = 0" by (simp add: horner_def)
  define z0 where "z0 = (hh t ! lo 15, hl t ! lo 15)"
  have "case_prod join (fold F (rev [i..<16]) z0) = horner ?x ?H (8 * i)" if "i \<le> 15" for i
    using that
  proof (induction "15 - i" arbitrary: i)
    case 0
    hence i: "i = 15" by simp
    obtain a b where 2: "gcm_nibble t (hi 15) z0 = (a, b)" by fastforce
    have "join (hh t ! lo 15) (hl t ! lo 15) = horner ?x ?H 124" using ln [of 15] h128 by simp
    hence "join a b = horner ?x ?H 120" using nibble_join [OF 2 [unfolded z0_def]] hn [of 15] by simp
    moreover have "rev [15..<16] = [15 :: nat]" by (simp add: upt_rec)
    ultimately show ?case using 2 by (simp add: i F_def)
  next
    case (Suc k)
    have "case_prod join (fold F (rev [Suc i..<16]) z0) = horner ?x ?H (8 * Suc i)" using Suc by (intro Suc(1)) simp_all
    moreover have "rev [i..<16] = rev [Suc i..<16] @ [i]" using Suc by (simp add: upt_conv_Cons)
    ultimately show ?case using step [of i "fold F (rev [Suc i..<16]) z0"] Suc by (simp add: add.commute)
  qed
  from this [of 0] have "case_prod join (fold F (rev [0..<16]) z0) = gf128_mul ?x ?H" by (simp add: gf128_mul_horner)
  moreover have "gcm_mult_h t y = (case fold F (rev [0..<16]) z0 of (zh, zl) \<Rightarrow> gcm_put64_be zh @ gcm_put64_be zl)"
    unfolding gcm_mult_h_def Let_def F_def z0_def lo_def hi_def by (rule refl)
  ultimately show ?thesis by (simp add: be_val_put64 split_beta) (simp add: gcm_put64_be_def)
qed

subsection \<open>GHASH\<close>

text \<open>The 16-byte blocks of a string, the last one padded with zeros.\<close>

function gcm_blocks :: "bytes \<Rightarrow> bytes list" where
  "gcm_blocks d = (if d = [] then [] else take 16 (d @ replicate 16 0) # gcm_blocks (drop 16 d))"
  by pat_completeness auto
termination by (relation "measure length") auto

declare gcm_blocks.simps [simp del]

lemma be_val_xor:
  assumes "length a = 16" "length b = 16"
  shows "be_val (map (\<lambda>i. a ! i XOR b ! i) [0..<16]) = be_val a XOR be_val b"
proof (rule bit_word_eqI)
  fix n :: nat assume "n < LENGTH(128)"
  hence "n div 8 < 16" "n < 128" by simp_all
  moreover have "[0..<16] ! (15 - n div 8) = 15 - n div 8" by (subst nth_upt) simp_all
  ultimately show "bit (be_val (map (\<lambda>i. a ! i XOR b ! i) [0..<16])) n = bit (be_val a XOR be_val b) n"
    using assms by (simp add: bit_be_val bit_simps)
qed

lemma absorb_ghash:
  assumes t: "table_ok t0" "t = gcm_build_table t0 h" "length h = 16"
  shows "length y = 16 \<Longrightarrow> length (gcm_absorb t y data) = 16 \<and>
    be_val (gcm_absorb t y data) = foldl (\<lambda>z b. gf128_mul (z XOR b) (be_val h)) (be_val y) (map be_val (gcm_blocks data))"
proof (induction "length data" arbitrary: y data rule: less_induct)
  case less
  let ?b = "take 16 (data @ replicate 16 0)"
  have lb: "length ?b = 16" by simp
  let ?y = "gcm_mult_h t (map (\<lambda>i. y ! i XOR ?b ! i) [0..<16])"
  have m: "be_val ?y = gf128_mul (be_val y XOR be_val ?b) (be_val h)" "length ?y = 16"
    using gcm_mult_h_value [OF t, of "map (\<lambda>i. y ! i XOR ?b ! i) [0..<16]"] be_val_xor [OF less.prems lb] by simp_all
  consider "data = []" | "data \<noteq> []" "length data < 16" | "16 \<le> length data" by linarith
  thus ?case
  proof cases
    case 1
    thus ?thesis using less.prems by (simp add: gcm_absorb.simps gcm_blocks.simps)
  next
    case 2
    have "map (\<lambda>i. if i < length data then y ! i XOR data ! i else y ! i) [0..<16] = map (\<lambda>i. y ! i XOR ?b ! i) [0..<16]"
      (is "?l = ?r") using 2 by (auto simp: nth_append)
    moreover have "gcm_absorb t y data = gcm_mult_h t ?l" using 2 by (subst gcm_absorb.simps) simp
    ultimately have "gcm_absorb t y data = ?y" by (simp only:)
    moreover have "gcm_blocks data = [?b]" using 2 by (simp add: gcm_blocks.simps [of data] gcm_blocks.simps [of "[]"])
    ultimately show ?thesis using m by simp
  next
    case 3
    have "map (\<lambda>i. y ! i XOR data ! i) [0..<16] = map (\<lambda>i. y ! i XOR ?b ! i) [0..<16]"
      (is "?l = ?r") using 3 by (auto simp: nth_append)
    moreover have "gcm_absorb t y data = gcm_absorb t (gcm_mult_h t ?l) (drop 16 data)"
      using 3 by (subst gcm_absorb.simps) simp
    ultimately have e: "gcm_absorb t y data = gcm_absorb t ?y (drop 16 data)" by (simp only:)
    have "gcm_blocks data = ?b # gcm_blocks (drop 16 data)" using 3 by (subst gcm_blocks.simps) auto
    thus ?thesis using less.hyps [of "drop 16 data" ?y] 3 m by (simp add: e)
  qed
qed

lemma ctr_self_inverse:
  "fst (gcm_ctr_apply aes c (fst (gcm_ctr_apply aes c d))) = d \<and> length (fst (gcm_ctr_apply aes c d)) = length d"
proof (induction aes c d rule: gcm_ctr_apply.induct)
  case (1 aes counter data)
  show ?case
  proof (cases "data = []")
    case True
    thus ?thesis by (simp add: gcm_ctr_apply.simps)
  next
    case False
    let ?k = "aes128_encrypt_block aes (take 16 counter)"
    let ?n = "if length data < 16 then length data else 16"
    let ?o = "map (\<lambda>i. data ! i XOR ?k ! i) [0..<?n]"
    obtain r c where rc: "gcm_ctr_apply aes (gcm_inc32 counter) (drop ?n data) = (r, c)" by fastforce
    note ih = 1 [OF False refl refl refl, unfolded rc fst_conv]
    have e: "fst (gcm_ctr_apply aes counter data) = ?o @ r"
      using False rc by (subst gcm_ctr_apply.simps) (simp add: Let_def)
    have lr: "length r = length data - ?n" using ih by simp
    have n: "(if length (?o @ r) < 16 then length (?o @ r) else 16) = ?n" using lr by auto
    have dr: "drop ?n (?o @ r) = r" by simp
    have ne: "?o @ r \<noteq> []" using False by auto
    have "map (\<lambda>i. (?o @ r) ! i XOR ?k ! i) [0..<?n] = take ?n data"
      by (rule nth_equalityI) (auto simp: nth_append xor.assoc)
    hence "fst (gcm_ctr_apply aes counter (?o @ r)) = take ?n data @ fst (gcm_ctr_apply aes (gcm_inc32 counter) r)"
      unfolding gcm_ctr_apply.simps [of aes counter "?o @ r"] if_not_P [OF ne] Let_def n dr
      by (simp add: split_beta)
    thus ?thesis unfolding e using ih lr by auto
  qed
qed

lemma be_val_lengths:
  assumes "a < 2 ^ 61" "c < 2 ^ 61"
  shows "be_val (gcm_put64_be ((of_nat a :: u64) * 8) @ gcm_put64_be ((of_nat c :: u64) * 8)) =
    push_bit 64 (of_nat (8 * a)) OR of_nat (8 * c)"
proof -
  have u: "(ucast ((of_nat k :: u64) * 8) :: u128) = of_nat (8 * k)" if "k < 2 ^ 61" for k
  proof -
    have "(of_nat k :: u64) * 8 = of_nat (8 * k)" by simp
    moreover have "(ucast (of_nat n :: u64) :: u128) = of_nat n" if "n < 2 ^ 64" for n
      using that by (simp add: word_unat_eq_iff unsigned_ucast_eq unat_of_nat take_bit_nat_eq_self)
    moreover have "8 * k < 2 ^ 64" using that by simp
    ultimately show ?thesis by (simp only:)
  qed
  show ?thesis unfolding be_val_put64 join_def u [OF assms(1)] u [OF assms(2)] by (rule refl)
qed

lemma diff_zero:
  assumes "length a = 16" "length b = 16"
  shows "fold (\<lambda>i diff. diff OR (a ! i XOR b ! i)) [0..<16] 0 = (0 :: u8) \<longleftrightarrow> a = b"
proof -
  have x: "x XOR y = 0 \<longleftrightarrow> x = y" for x y :: u8 by (metis xor.comm_neutral xor.left_commute xor_self_eq)
  have "fold (\<lambda>i d. d OR (a ! i XOR b ! i)) is d = 0 \<longleftrightarrow> d = 0 \<and> (\<forall>i\<in>set is. a ! i = b ! i)" for "is" and d :: u8
    by (induction "is" arbitrary: d) (auto simp: or_eq_0_iff x)
  from this [of "[0..<16]" 0] show ?thesis using assms by (auto simp: list_eq_iff_nth_eq)
qed

subsection \<open>Properties\<close>

text \<open>Claim C34. The optimised tag is the standard's: for any key, 96-bit IV, associated data and ciphertext (below
  2 ^ 32 bytes), and whatever the table's memory held before, the tag read as a 128-bit word is GHASH, with the
  bit-serial product of SP 800-38D under H = E(0), of the zero-padded blocks of both and their bit lengths, XORed with
  E(IV || 1). The 4-bit tables compute that product for every argument.\<close>

theorem gcm_tag_is_ghash:
  fixes aes :: aes_ctx
  assumes "table_ok stk" "length iv = 12" "length aad < 2 ^ 32" "length ct < 2 ^ 32"
  defines "H \<equiv> be_val (aes128_encrypt_block aes (replicate 16 0))"
  shows "be_val (gcm_compute_tag aes stk iv aad ct) =
    ghash H (map be_val (gcm_blocks aad @ gcm_blocks ct) @ [push_bit 64 (of_nat (8 * length aad)) OR of_nat (8 * length ct)])
      XOR be_val (aes128_encrypt_block aes (iv @ [0, 0, 0, 1])) \<and>
    length (gcm_compute_tag aes stk iv aad ct) = 16"
proof -
  define h where "h = aes128_encrypt_block aes (replicate 16 0)"
  define t where "t = gcm_build_table stk h"
  have lh: "length h = 16" by (simp add: h_def encrypt_block_length)
  have H: "H = be_val h" by (simp add: H_def h_def)
  define y1 where "y1 = gcm_absorb t (replicate 16 0) aad"
  define y2 where "y2 = gcm_absorb t y1 ct"
  define len where "len = gcm_put64_be ((of_nat (length aad) :: u64) * 8) @ gcm_put64_be ((of_nat (length ct) :: u64) * 8)"
  define y3 where "y3 = gcm_absorb_lengths t y2 (length aad) (length ct)"
  have z: "be_val (replicate 16 0) = 0" by (rule bit_word_eqI) (simp add: bit_be_val)
  note a1 = absorb_ghash [OF assms(1) t_def lh, of "replicate 16 0" aad, folded y1_def]
  have l1: "length y1 = 16" and v1: "be_val y1 = ghash H (map be_val (gcm_blocks aad))"
    using a1 by (simp_all add: ghash_def z H)
  note a2 = absorb_ghash [OF assms(1) t_def lh l1, of ct, folded y2_def]
  have l2: "length y2 = 16" and v2: "be_val y2 = ghash H (map be_val (gcm_blocks aad @ gcm_blocks ct))"
    using a2 v1 by (simp_all add: ghash_def H)
  have ll: "length len = 16" by (simp add: len_def gcm_put64_be_def)
  have y3: "y3 = gcm_mult_h t (map (\<lambda>i. y2 ! i XOR len ! i) [0..<16])"
    by (simp add: y3_def gcm_absorb_lengths_def len_def Let_def)
  note m = gcm_mult_h_value [OF assms(1) t_def lh, of "map (\<lambda>i. y2 ! i XOR len ! i) [0..<16]"]
  have vl: "be_val len = push_bit 64 (of_nat (8 * length aad)) OR of_nat (8 * length ct)"
    unfolding len_def using assms(3,4) by (intro be_val_lengths) simp_all
  have l3: "length y3 = 16" and v3: "be_val y3 =
      ghash H (map be_val (gcm_blocks aad @ gcm_blocks ct) @ [push_bit 64 (of_nat (8 * length aad)) OR of_nat (8 * length ct)])"
    using m be_val_xor [OF l2 ll] v2 unfolding y3 by (simp_all add: vl ghash_def H)
  have "length (aes128_encrypt_block aes (iv @ [0, 0, 0, 1])) = 16" using assms(2) by (simp add: encrypt_block_length)
  moreover have "gcm_compute_tag aes stk iv aad ct = gcm_xor_block y3 (aes128_encrypt_block aes (iv @ [0, 0, 0, 1]))"
    using assms(2) by (simp add: gcm_compute_tag_def Let_def h_def t_def y1_def y2_def y3_def)
  ultimately show ?thesis using be_val_xor [OF l3] v3 by (simp add: gcm_xor_block_def)
qed

lemma gcm_tag_length: "length (gcm_compute_tag aes stk iv aad ct) = 16"
  by (simp add: gcm_compute_tag_def gcm_xor_block_def Let_def)

text \<open>Claim C35. Decryption accepts a record exactly when all 16 tag bytes are the tag recomputed over the ciphertext; a
  refused record leaves the data as it was, an accepted one is run through the same key stream, and what gcm_encrypt
  produced is accepted and decrypts to the plaintext.\<close>

theorem gcm_decrypts_authentic:
  assumes "length tag = 16"
  shows "gcm_decrypt aes stk iv aad ct tag =
      (if tag = gcm_compute_tag aes stk iv aad ct
       then (True, fst (gcm_ctr_apply aes (gcm_inc32 (take 12 iv @ [0, 0, 0, 1])) ct)) else (False, ct)) \<and>
    (let (c, t) = gcm_encrypt aes stk iv aad pt
     in gcm_decrypt aes stk iv aad c t = (True, pt) \<and> length c = length pt \<and> length t = 16)"
proof -
  have d: "gcm_decrypt aes stk iv aad c t =
      (if t = gcm_compute_tag aes stk iv aad c
       then (True, fst (gcm_ctr_apply aes (gcm_inc32 (take 12 iv @ [0, 0, 0, 1])) c)) else (False, c))"
    if "length t = 16" for c t
    using diff_zero [OF gcm_tag_length that, of aes stk iv aad c] by (auto simp: gcm_decrypt_def Let_def)
  show ?thesis
    using d [OF assms, of ct] d [OF gcm_tag_length] ctr_self_inverse [of aes "gcm_inc32 (take 12 iv @ [0, 0, 0, 1])" pt]
    by (simp add: gcm_encrypt_def Let_def split_beta gcm_tag_length)
qed

definition demo_aes :: aes_ctx where
  "demo_aes = aes128_set_key \<lparr>round_key = replicate 15 (replicate 16 0), rounds = 0\<rparr> (replicate 16 3)"

definition demo_table :: gcm_table where "demo_table = \<lparr>hl = replicate 16 7, hh = replicate 16 9\<rparr>"

lemma gcm_tag_is_ghash_witness:
  "be_val (gcm_compute_tag demo_aes demo_table (replicate 12 1) [] []) =
    ghash (be_val (aes128_encrypt_block demo_aes (replicate 16 0))) [0] XOR
      be_val (aes128_encrypt_block demo_aes (replicate 12 1 @ [0, 0, 0, 1]))"
proof -
  have e: "gcm_blocks [] = []" by (simp add: gcm_blocks.simps)
  show ?thesis
    using gcm_tag_is_ghash [of demo_table "replicate 12 1" "[]" "[]" demo_aes]
    by (simp add: demo_table_def table_ok_def e)
qed

lemma gcm_decrypts_authentic_witness:
  "\<exists>c t. gcm_encrypt demo_aes demo_table (replicate 12 1) [5] [1, 2, 3] = (c, t) \<and>
     gcm_decrypt demo_aes demo_table (replicate 12 1) [5] c t = (True, [1, 2, 3])"
  using gcm_decrypts_authentic [of "replicate 16 0" demo_aes demo_table "replicate 12 1" "[5]" "[]" "[1, 2, 3]"]
  by (auto simp: Let_def split: prod.splits)


end
