(* ===== verification/Bignum.thy ===== *)
theory Bignum
  imports Prelude
begin

text \<open>
  bignum.h: fixed-size multi-precision numbers, a list of 130 32-bit limbs with the least significant first.
  Loops that run over the limbs in order are recursions over the lists; the 64-bit accumulators are u64 words
  and the signed ones int. The theorems relate every operation to arithmetic on the value of the limbs.
\<close>

definition BIGNUM_LIMBS :: nat where "BIGNUM_LIMBS = 130"

type_synonym bignum = "u32 list"

definition bn_zero :: bignum where "bn_zero = replicate BIGNUM_LIMBS 0"

subsection \<open>Bytes\<close>

definition bn_from_bytes_be :: "bytes \<Rightarrow> bignum" where
  "bn_from_bytes_be data =
     fold (\<lambda>i a.
         let byte_index = length data - 1 - i; limb_index = i div 4; shift = (i mod 4) * 8
         in if limb_index < BIGNUM_LIMBS
            then a[limb_index := a ! limb_index OR push_bit shift (ucast (data ! byte_index))] else a)
       [0..<length data] bn_zero"

definition bn_to_bytes_be :: "bignum \<Rightarrow> nat \<Rightarrow> bytes" where
  "bn_to_bytes_be a out_len =
     map (\<lambda>byte_index.
         let i = out_len - 1 - byte_index; limb_index = i div 4; shift = (i mod 4) * 8
         in if limb_index < BIGNUM_LIMBS then ucast (drop_bit shift (a ! limb_index)) else 0)
       [0..<out_len]"

subsection \<open>Lengths and comparison\<close>

text \<open>for (i = n - 1; i >= 0; i--) if (a->limb[i] != 0) return i + 1; return 0\<close>

fun bn_used_from :: "bignum \<Rightarrow> nat \<Rightarrow> nat" where
  "bn_used_from a 0 = 0"
| "bn_used_from a (Suc i) = (if a ! i \<noteq> 0 then i + 1 else bn_used_from a i)"

definition bn_used_limbs :: "bignum \<Rightarrow> nat" where "bn_used_limbs a = bn_used_from a BIGNUM_LIMBS"

fun bn_cmp_from :: "bignum \<Rightarrow> bignum \<Rightarrow> nat \<Rightarrow> int" where
  "bn_cmp_from a b 0 = 0"
| "bn_cmp_from a b (Suc i) = (if a ! i \<noteq> b ! i then (if a ! i < b ! i then - 1 else 1) else bn_cmp_from a b i)"

definition bn_cmp :: "bignum \<Rightarrow> bignum \<Rightarrow> int" where "bn_cmp a b = bn_cmp_from a b BIGNUM_LIMBS"

text \<open>The highest set bit below n, or -1.\<close>

fun bn_top_bit :: "u32 \<Rightarrow> nat \<Rightarrow> int" where
  "bn_top_bit w 0 = - 1"
| "bn_top_bit w (Suc b) = (if w AND push_bit b 1 \<noteq> 0 then int b else bn_top_bit w b)"

fun bn_wide_bit_from :: "u32 list \<Rightarrow> nat \<Rightarrow> int" where
  "bn_wide_bit_from wide 0 = - 1"
| "bn_wide_bit_from wide (Suc limb) =
     (if wide ! limb \<noteq> 0 \<and> bn_top_bit (wide ! limb) 32 \<ge> 0 then int limb * 32 + bn_top_bit (wide ! limb) 32
      else bn_wide_bit_from wide limb)"

definition bn_wide_bit_length :: "u32 list \<Rightarrow> int" where
  "bn_wide_bit_length wide = bn_wide_bit_from wide (2 * BIGNUM_LIMBS)"

definition bn_bit_length :: "bignum \<Rightarrow> int" where
  "bn_bit_length a =
     (let used = bn_used_limbs a in
      if used = 0 then 0 else (int used - 1) * 32 + bn_top_bit (a ! (used - 1)) 32 + 1)"

subsection \<open>Sums and differences\<close>

fun bn_sub_loop :: "int \<Rightarrow> bignum \<Rightarrow> bignum \<Rightarrow> bignum" where
  "bn_sub_loop borrow (a # as) (b # bs) =
     (let diff = int (unat a) - int (unat b) - borrow in
      if diff < 0 then word_of_int (diff + 2 ^ 32) # bn_sub_loop 1 as bs else word_of_int diff # bn_sub_loop 0 as bs)"
| "bn_sub_loop borrow _ _ = []"

definition bn_sub :: "bignum \<Rightarrow> bignum \<Rightarrow> bignum" where "bn_sub a b = bn_sub_loop 0 a b"

fun bn_add_loop :: "u32 \<Rightarrow> bignum \<Rightarrow> bignum \<Rightarrow> bignum" where
  "bn_add_loop carry (a # as) (b # bs) =
     (let sum = (ucast a :: u64) + ucast b + ucast carry in ucast sum # bn_add_loop (ucast (drop_bit 32 sum)) as bs)"
| "bn_add_loop carry _ _ = []"

definition bn_add :: "bignum \<Rightarrow> bignum \<Rightarrow> bignum" where "bn_add a b = bn_add_loop 0 a b"

definition bn_addmod :: "bignum \<Rightarrow> bignum \<Rightarrow> bignum \<Rightarrow> bignum" where
  "bn_addmod a b m = (let sum = bn_add a b in if bn_cmp sum m \<ge> 0 then bn_sub sum m else sum)"

definition bn_submod :: "bignum \<Rightarrow> bignum \<Rightarrow> bignum \<Rightarrow> bignum" where
  "bn_submod a b m = (if bn_cmp a b \<ge> 0 then bn_sub a b else bn_sub m (bn_sub b a))"

subsection \<open>Products\<close>

text \<open>while (carry) ..., from the limbs result[k], result[k + 1], ...; past the end of the array there is nothing to write
  (the callers' values never get there).\<close>

fun bn_carry :: "u64 \<Rightarrow> u32 list \<Rightarrow> u32 list" where
  "bn_carry carry [] = []"
| "bn_carry carry (r # rs) =
     (if carry = 0 then r # rs
      else let sum = (ucast r :: u64) + carry in ucast sum # bn_carry (drop_bit 32 sum) rs)"

text \<open>One row: result[i + j] += a->limb[i] * b->limb[j] with the running carry.\<close>

fun bn_row :: "u32 \<Rightarrow> u32 list \<Rightarrow> u64 \<Rightarrow> u32 list \<Rightarrow> u32 list" where
  "bn_row ai [] carry rs = bn_carry carry rs"
| "bn_row ai (b # bs) carry (r # rs) =
     (let prod = (ucast ai :: u64) * ucast b + ucast r + carry in ucast prod # bn_row ai bs (drop_bit 32 prod) rs)"
| "bn_row ai (b # bs) carry [] = []"

definition bn_mul_wide :: "bignum \<Rightarrow> bignum \<Rightarrow> u32 list" where
  "bn_mul_wide a b =
     (let a_len = bn_used_limbs a; b_len = bn_used_limbs b in
      fold (\<lambda>i result. if a ! i = 0 then result
              else take i result @ bn_row (a ! i) (take b_len b) 0 (drop i result))
        [0..<a_len] (replicate (2 * BIGNUM_LIMBS) 0))"

subsection \<open>Remainders\<close>

fun bn_shl1 :: "u32 \<Rightarrow> u32 list \<Rightarrow> u32 list" where
  "bn_shl1 carry [] = []"
| "bn_shl1 carry (r # rs) = (let new_carry = drop_bit 31 r in (push_bit 1 r OR carry) # bn_shl1 new_carry rs)"

definition bn_mod_step :: "u32 list \<Rightarrow> bignum \<Rightarrow> nat \<Rightarrow> nat \<Rightarrow> bignum \<Rightarrow> bignum" where
  "bn_mod_step wide m work_limbs b r =
     (let r = bn_shl1 0 (take work_limbs r) @ drop work_limbs r;
          word = wide ! (b div 32);
          in_bit = drop_bit (b mod 32) word AND 1;
          r = r[0 := r ! 0 OR in_bit]
      in if bn_cmp r m \<ge> 0 then bn_sub r m else r)"

definition bn_mod_wide :: "u32 list \<Rightarrow> bignum \<Rightarrow> bignum" where
  "bn_mod_wide wide m =
     (let top_bit = bn_wide_bit_length wide;
          work_limbs = bn_used_limbs m + 1;
          work_limbs = (if work_limbs > BIGNUM_LIMBS then BIGNUM_LIMBS else work_limbs)
      in fold (bn_mod_step wide m work_limbs) (rev [0..<nat (top_bit + 1)]) bn_zero)"

definition bn_mulmod :: "bignum \<Rightarrow> bignum \<Rightarrow> bignum \<Rightarrow> bignum" where
  "bn_mulmod a b m = bn_mod_wide (bn_mul_wide a b) m"

subsection \<open>Powers\<close>

text \<open>The start of both functions: the base reduced once.\<close>

definition bn_reduce_base :: "bignum \<Rightarrow> bignum \<Rightarrow> bignum" where
  "bn_reduce_base base m =
     (if bn_cmp base m \<ge> 0 then bn_mod_wide (base @ replicate BIGNUM_LIMBS 0) m else base)"

text \<open>One round of square-and-multiply, the exponent's bit being e.\<close>

definition bn_pow_step :: "bignum \<Rightarrow> bignum \<Rightarrow> bool \<Rightarrow> bignum \<Rightarrow> bignum" where
  "bn_pow_step b m e acc = (let acc = bn_mulmod acc acc m in if e then bn_mulmod acc b m else acc)"

definition bn_modpow_u32exp :: "bignum \<Rightarrow> u32 \<Rightarrow> bignum \<Rightarrow> bignum" where
  "bn_modpow_u32exp base exp m =
     (let acc = bn_zero[0 := 1];
          b = bn_reduce_base base m;
          top_bit = bn_top_bit exp 32
      in fold (\<lambda>i. bn_pow_step b m (exp AND push_bit i 1 \<noteq> 0)) (rev [0..<nat (top_bit + 1)]) acc)"

definition bn_modpow :: "bignum \<Rightarrow> bignum \<Rightarrow> bignum \<Rightarrow> bignum" where
  "bn_modpow base exp m =
     (let acc = bn_zero[0 := 1];
          b = bn_reduce_base base m;
          top_bit = bn_bit_length exp - 1
      in fold (\<lambda>i. bn_pow_step b m (exp ! (i div 32) AND push_bit (i mod 32) 1 \<noteq> 0)) (rev [0..<nat (top_bit + 1)]) acc)"

subsection \<open>The value of the limbs\<close>

fun bn_val :: "u32 list \<Rightarrow> nat" where
  "bn_val [] = 0"
| "bn_val (w # ws) = unat w + 2 ^ 32 * bn_val ws"

lemma bn_val_append: "bn_val (xs @ ys) = bn_val xs + 2 ^ (32 * length xs) * bn_val ys"
  by (induction xs) (simp_all add: power_add algebra_simps)

lemma bn_val_lt: "bn_val ws < 2 ^ (32 * length ws)"
proof (induction ws)
  case (Cons w ws)
  have "unat w < 2 ^ 32" using unat_u32_lt [of w] by simp
  moreover have "2 ^ 32 * bn_val ws + 2 ^ 32 \<le> 2 ^ 32 * (2 ^ (32 * length ws) :: nat)"
    using Cons mult_le_mono2 [of "Suc (bn_val ws)" "2 ^ (32 * length ws)" "2 ^ 32"] by simp
  ultimately show ?case by (simp add: power_add)
qed simp

lemma bn_val_zeros [simp]: "bn_val (replicate n 0) = 0"
  by (induction n) simp_all

lemma bn_val_zero: "bn_val bn_zero = 0" "length bn_zero = BIGNUM_LIMBS"
  by (simp_all add: bn_zero_def)

lemma bn_val_take_Suc: "i < length a \<Longrightarrow> bn_val (take (Suc i) a) = bn_val (take i a) + 2 ^ (32 * i) * unat (a ! i)"
  by (simp add: take_Suc_conv_app_nth bn_val_append)

lemma bn_val_split: "n \<le> length a \<Longrightarrow> bn_val a = bn_val (take n a) + 2 ^ (32 * n) * bn_val (drop n a)"
  using bn_val_append [of "take n a" "drop n a"] by simp

lemma bn_val_mono_take: "bn_val (take n a) \<le> bn_val a"
proof (cases "n \<le> length a")
  case True
  thus ?thesis using bn_val_split [OF True] by simp
qed simp

lemma bn_val_bit: "bit (bn_val ws) k \<longleftrightarrow> k div 32 < length ws \<and> bit (ws ! (k div 32)) (k mod 32)"
proof (induction ws arbitrary: k)
  case (Cons w ws)
  have e: "bn_val (w # ws) = unat w OR push_bit 32 (bn_val ws)"
  proof -
    have "unat w AND push_bit 32 (bn_val ws) = 0"
      by (rule bit_eqI) (auto simp: bit_simps bit_unsigned_iff dest: bit_imp_le_length)
    hence "unat w + push_bit 32 (bn_val ws) = unat w OR push_bit 32 (bn_val ws)" by (rule disjunctive_add_eq_or)
    thus ?thesis by (simp add: push_bit_eq_mult mult.commute)
  qed
  show ?case
  proof (cases "k < 32")
    case True
    thus ?thesis unfolding e by (simp add: bit_simps bit_unsigned_iff)
  next
    case False
    then obtain j where j: "k = 32 + j" by (metis le_Suc_ex not_less)
    have "(32 + j) div 32 = Suc (j div 32)" "(32 + j) mod 32 = j mod 32" by simp_all
    thus ?thesis unfolding e j using Cons [of j]
      by (auto simp: bit_simps bit_unsigned_iff dest: bit_imp_le_length)
  qed
qed simp

lemma bn_val_inj: "length a = length b \<Longrightarrow> bn_val a = bn_val b \<Longrightarrow> a = b"
proof (induction a b rule: list_induct2)
  case (Cons x xs y ys)
  have l: "unat x < 2 ^ 32" "unat y < 2 ^ 32" using unat_u32_lt [of x] unat_u32_lt [of y] by simp_all
  have e: "unat x + 2 ^ 32 * bn_val xs = unat y + 2 ^ 32 * bn_val ys" using Cons(3) by simp
  have "unat x = unat y" using arg_cong [OF e, where f = "\<lambda>n. n mod 2 ^ 32"] l unfolding mod_mult_self2 by simp
  moreover from this have "bn_val xs = bn_val ys" using e by simp
  ultimately have "unat x = unat y" "bn_val xs = bn_val ys" by simp_all
  thus ?case using Cons by (simp add: word_unat_eq_iff)
qed simp

subsection \<open>Comparison and lengths\<close>

lemma bn_cmp_from_val:
  "n \<le> length a \<Longrightarrow> n \<le> length b \<Longrightarrow>
   bn_cmp_from a b n = (if bn_val (take n a) < bn_val (take n b) then - 1 else if bn_val (take n a) = bn_val (take n b) then 0 else 1)"
proof (induction n)
  case (Suc i)
  let ?A = "bn_val (take i a)" and ?B = "bn_val (take i b)"
  have l: "?A < 2 ^ (32 * i)" "?B < 2 ^ (32 * i)" using bn_val_lt [of "take i a"] bn_val_lt [of "take i b"] Suc.prems by simp_all
  have s: "bn_val (take (Suc i) a) = ?A + 2 ^ (32 * i) * unat (a ! i)" "bn_val (take (Suc i) b) = ?B + 2 ^ (32 * i) * unat (b ! i)"
    using Suc.prems by (simp_all add: bn_val_take_Suc)
  have lt: "?A + 2 ^ (32 * i) * x < ?B + 2 ^ (32 * i) * y" "?B + 2 ^ (32 * i) * x < ?A + 2 ^ (32 * i) * y" if "x < y" for x y :: nat
  proof -
    have "2 ^ (32 * i) * x + 2 ^ (32 * i) \<le> 2 ^ (32 * i) * y"
      using that mult_le_mono2 [of "Suc x" y "2 ^ (32 * i)"] by simp
    thus "?A + 2 ^ (32 * i) * x < ?B + 2 ^ (32 * i) * y" "?B + 2 ^ (32 * i) * x < ?A + 2 ^ (32 * i) * y" using l by linarith+
  qed
  consider "a ! i = b ! i" | "unat (a ! i) < unat (b ! i)" | "unat (b ! i) < unat (a ! i)"
    by (metis linorder_neqE_nat word_unat_eq_iff)
  thus ?case
  proof cases
    case 1
    thus ?thesis using Suc by (simp add: s)
  next
    case 2
    thus ?thesis using lt(1) [OF 2] unfolding bn_cmp_from.simps(2) s by (auto simp: word_less_nat_alt)
  next
    case 3
    thus ?thesis using lt(2) [OF 3] unfolding bn_cmp_from.simps(2) s by (auto simp: word_less_nat_alt)
  qed
qed simp

lemma bn_cmp_val:
  assumes "length a = BIGNUM_LIMBS" "length b = BIGNUM_LIMBS"
  shows "bn_cmp a b \<ge> 0 \<longleftrightarrow> bn_val b \<le> bn_val a"
  using bn_cmp_from_val [of BIGNUM_LIMBS a b] assms by (simp add: bn_cmp_def)

lemma bn_used_from: "bn_used_from a n \<le> n" "\<forall>i. bn_used_from a n \<le> i \<and> i < n \<longrightarrow> a ! i = 0"
    "bn_used_from a n \<noteq> 0 \<longrightarrow> a ! (bn_used_from a n - 1) \<noteq> 0"
  by (induction n) (auto simp: less_Suc_eq)

lemma bn_used_take: "n \<le> length a \<Longrightarrow> bn_val (take n a) = bn_val (take (bn_used_from a n) a)"
  by (induction n) (simp_all add: bn_val_take_Suc)

lemma bn_used_val:
  assumes "length a = BIGNUM_LIMBS"
  shows "bn_val a = bn_val (take (bn_used_limbs a) a)" "bn_val a < 2 ^ (32 * bn_used_limbs a)"
    "bn_used_limbs a \<le> BIGNUM_LIMBS" "bn_used_limbs a = 0 \<longleftrightarrow> bn_val a = 0"
    "k \<le> 32 * BIGNUM_LIMBS \<Longrightarrow> bn_val a < 2 ^ (32 * k) \<Longrightarrow> bn_used_limbs a \<le> k"
proof -
  let ?u = "bn_used_limbs a"
  show v: "bn_val a = bn_val (take ?u a)" using bn_used_take [of BIGNUM_LIMBS a] assms by (simp add: bn_used_limbs_def)
  show u: "?u \<le> BIGNUM_LIMBS" unfolding bn_used_limbs_def by (rule bn_used_from)
  show lt: "bn_val a < 2 ^ (32 * ?u)" using bn_val_lt [of "take ?u a"] u assms by (simp add: v [symmetric])
  have ge: "2 ^ (32 * (?u - 1)) \<le> bn_val a" if "?u \<noteq> 0"
  proof -
    have "a ! (?u - 1) \<noteq> 0" using that bn_used_from(3) [of a BIGNUM_LIMBS] by (simp add: bn_used_limbs_def)
    hence "1 \<le> unat (a ! (?u - 1))" by (simp add: unat_gt_0 Suc_leI)
    hence p: "2 ^ (32 * (?u - 1)) * 1 \<le> 2 ^ (32 * (?u - 1)) * unat (a ! (?u - 1))" by (rule mult_le_mono2)
    have "Suc (?u - 1) = ?u" "?u - 1 < length a" using that u assms by simp_all
    hence "bn_val a = bn_val (take (?u - 1) a) + 2 ^ (32 * (?u - 1)) * unat (a ! (?u - 1))"
      using bn_val_take_Suc [of "?u - 1" a] v by metis
    thus ?thesis using p by linarith
  qed
  show "?u = 0 \<longleftrightarrow> bn_val a = 0"
  proof
    assume "bn_val a = 0"
    thus "?u = 0" using ge by (cases "?u = 0") auto
  qed (use lt in simp)
  show "?u \<le> k" if "bn_val a < 2 ^ (32 * k)"
  proof (rule ccontr)
    assume "\<not> ?u \<le> k"
    hence u0: "?u \<noteq> 0" and k: "32 * k \<le> 32 * (?u - 1)" by auto
    have "(2 :: nat) ^ (32 * k) \<le> 2 ^ (32 * (?u - 1))" by (rule power_increasing [OF k]) simp
    thus False using that ge [OF u0] by linarith
  qed
qed

subsection \<open>Sums, differences, shifts\<close>

lemma bn_sub_loop_val:
  assumes "length a = length b"
  shows "length (bn_sub_loop (of_bool c) a b) = length a \<and>
    (\<exists>c'. int (bn_val (bn_sub_loop (of_bool c) a b)) + int (bn_val b) + of_bool c =
       int (bn_val a) + 2 ^ (32 * length a) * of_bool c')"
  using assms
proof (induction a b arbitrary: c rule: list_induct2)
  case (Cons x xs y ys)
  let ?d = "int (unat x) - int (unat y) - of_bool c"
  have b: "0 \<le> uint x" "uint x < 2 ^ 32" "0 \<le> uint y" "uint y < 2 ^ 32"
    using unsigned_less [of x, where 'a = int] unsigned_less [of y, where 'a = int] by simp_all
  have u: "int (unat (word_of_int k :: u32)) = k" if "0 \<le> k" "k < 2 ^ 32" for k
    using that by (simp add: unsigned_of_int take_bit_int_eq_self)
  have r: "?d < 2 ^ 32" "- (2 ^ 32) \<le> ?d"
  proof -
    have "?d = uint x - uint y - of_bool c" by simp
    moreover have "(of_bool c :: int) = 0 \<or> (of_bool c :: int) = 1" by simp
    ultimately show "?d < 2 ^ 32" "- (2 ^ 32) \<le> ?d" using b by linarith+
  qed
  show ?case
  proof (cases "?d < 0")
    case True
    obtain c' where c': "int (bn_val (bn_sub_loop 1 xs ys)) + int (bn_val ys) + 1 = int (bn_val xs) + 2 ^ (32 * length xs) * of_bool c'"
      and l: "length (bn_sub_loop 1 xs ys) = length xs" using Cons.IH [of True] by auto
    have d: "int (unat (word_of_int (?d + 2 ^ 32) :: u32)) = ?d + 2 ^ 32" using True r by (intro u) linarith+
    have e: "bn_sub_loop (of_bool c) (x # xs) (y # ys) = word_of_int (?d + 2 ^ 32) # bn_sub_loop 1 xs ys"
      using True by (simp add: Let_def)
    have "int (bn_val (bn_sub_loop (of_bool c) (x # xs) (y # ys))) + int (bn_val (y # ys)) + of_bool c =
        ?d + 2 ^ 32 + 2 ^ 32 * int (bn_val (bn_sub_loop 1 xs ys)) + int (unat y) + 2 ^ 32 * int (bn_val ys) + of_bool c"
      unfolding e using d by simp
    also have "\<dots> = int (unat x) + 2 ^ 32 * (int (bn_val (bn_sub_loop 1 xs ys)) + int (bn_val ys) + 1)" by simp
    also have "\<dots> = int (bn_val (x # xs)) + 2 ^ (32 * length (x # xs)) * of_bool c'"
      unfolding c' by (simp add: power_add algebra_simps)
    finally show ?thesis using l unfolding e by auto
  next
    case False
    obtain c' where c': "int (bn_val (bn_sub_loop 0 xs ys)) + int (bn_val ys) = int (bn_val xs) + 2 ^ (32 * length xs) * of_bool c'"
      and l: "length (bn_sub_loop 0 xs ys) = length xs" using Cons.IH [of False] by auto
    have d: "int (unat (word_of_int ?d :: u32)) = ?d" using False r by (intro u) linarith+
    have e: "bn_sub_loop (of_bool c) (x # xs) (y # ys) = word_of_int ?d # bn_sub_loop 0 xs ys"
      using False by (simp add: Let_def)
    have "int (bn_val (bn_sub_loop (of_bool c) (x # xs) (y # ys))) + int (bn_val (y # ys)) + of_bool c =
        ?d + 2 ^ 32 * int (bn_val (bn_sub_loop 0 xs ys)) + int (unat y) + 2 ^ 32 * int (bn_val ys) + of_bool c"
      unfolding e using d by simp
    also have "\<dots> = int (unat x) + 2 ^ 32 * (int (bn_val (bn_sub_loop 0 xs ys)) + int (bn_val ys))" by simp
    also have "\<dots> = int (bn_val (x # xs)) + 2 ^ (32 * length (x # xs)) * of_bool c'"
      unfolding c' by (simp add: power_add algebra_simps)
    finally show ?thesis using l unfolding e by auto
  qed
qed auto

lemma bn_sub_val:
  assumes "length a = length b" "bn_val b \<le> bn_val a"
  shows "bn_val (bn_sub a b) = bn_val a - bn_val b" "length (bn_sub a b) = length a"
proof -
  obtain c where c: "int (bn_val (bn_sub a b)) + int (bn_val b) = int (bn_val a) + 2 ^ (32 * length a) * of_bool c"
    and l: "length (bn_sub a b) = length a"
    using bn_sub_loop_val [OF assms(1), of False] by (auto simp: bn_sub_def)
  have lt: "bn_val (bn_sub a b) < 2 ^ (32 * length a)" using bn_val_lt [of "bn_sub a b"] by (simp add: l)
  have "\<not> c"
  proof
    assume c
    hence "int (bn_val (bn_sub a b) + bn_val b) = int (bn_val a + 2 ^ (32 * length a))" using c by simp
    hence "bn_val (bn_sub a b) + bn_val b = bn_val a + 2 ^ (32 * length a)" by (simp only: of_nat_eq_iff)
    thus False using lt assms(2) by linarith
  qed
  thus "bn_val (bn_sub a b) = bn_val a - bn_val b" using c assms(2) by simp
  show "length (bn_sub a b) = length a" by (rule l)
qed

lemma unat_u64_small: "n < 2 ^ 64 \<Longrightarrow> unat (of_nat n :: u64) = n"
  by (simp add: unat_of_nat)

lemma split_u64:
  "unat (ucast (x :: u64) :: u32) = unat x mod 2 ^ 32" "unat (drop_bit 32 x) = unat x div 2 ^ 32"
proof -
  show "unat (ucast x :: u32) = unat x mod 2 ^ 32" by (simp add: unsigned_ucast_eq take_bit_eq_mod)
  have "unat x < 2 ^ 64" using unsigned_less [of x, where 'a = nat] by simp
  thus "unat (drop_bit 32 x) = unat x div 2 ^ 32"
    unfolding unsigned_drop_bit_eq by (simp add: drop_bit_eq_div take_bit_nat_eq_self)
qed

lemma unat_ucast_u64 [simp]: "unat (ucast (x :: u32) :: u64) = unat x"
  using unat_u32_lt [of x] by (simp add: unsigned_ucast_eq take_bit_nat_eq_self)

lemma unat_u64_lt: "unat (x :: u64) < 2 ^ 64" using unsigned_less [of x, where 'a = nat] by simp

lemma bn_add_loop_val:
  assumes "length a = length b" "unat c \<le> 1"
  shows "length (bn_add_loop c a b) = length a \<and>
    (\<exists>c'. bn_val (bn_add_loop c a b) + 2 ^ (32 * length a) * c' = bn_val a + bn_val b + unat c)"
  using assms
proof (induction a b arbitrary: c rule: list_induct2)
  case (Cons x xs y ys)
  define s where "s = (ucast x :: u64) + ucast y + ucast c"
  have "unat s = unat x + unat y + unat c"
    using unat_u32_lt [of x] unat_u32_lt [of y] Cons.prems by (simp add: s_def unat_word_ariths)
  moreover have "unat x + unat y + unat c < 2 * 2 ^ 32"
    using unat_u32_lt [of x] unat_u32_lt [of y] Cons.prems by simp
  ultimately have s: "unat s = unat x + unat y + unat c" "unat s div 2 ^ 32 \<le> 1" by auto
  have h: "unat (ucast (drop_bit 32 s) :: u32) = unat s div 2 ^ 32"
    using s(2) by (simp add: unsigned_ucast_eq split_u64 take_bit_nat_eq_self)
  obtain c' where c': "bn_val (bn_add_loop (ucast (drop_bit 32 s)) xs ys) + 2 ^ (32 * length xs) * c' =
      bn_val xs + bn_val ys + unat s div 2 ^ 32" and l: "length (bn_add_loop (ucast (drop_bit 32 s)) xs ys) = length xs"
    using Cons.IH [of "ucast (drop_bit 32 s)"] s(2) by (auto simp: h)
  have e: "bn_add_loop c (x # xs) (y # ys) = ucast s # bn_add_loop (ucast (drop_bit 32 s)) xs ys"
    by (simp add: s_def Let_def)
  have "bn_val (bn_add_loop c (x # xs) (y # ys)) + 2 ^ (32 * length (x # xs)) * c' =
      unat s mod 2 ^ 32 + 2 ^ 32 * (bn_val (bn_add_loop (ucast (drop_bit 32 s)) xs ys) + 2 ^ (32 * length xs) * c')"
    unfolding e by (simp add: split_u64 power_add algebra_simps)
  also have "\<dots> = unat s mod 2 ^ 32 + 2 ^ 32 * (unat s div 2 ^ 32) + 2 ^ 32 * (bn_val xs + bn_val ys)"
    unfolding c' by (simp add: algebra_simps)
  also have "\<dots> = bn_val (x # xs) + bn_val (y # ys) + unat c" using s(1) by simp
  finally show ?case using l unfolding e by auto
qed simp

lemma bn_add_val:
  assumes "length a = length b" "bn_val a + bn_val b < 2 ^ (32 * length a)"
  shows "bn_val (bn_add a b) = bn_val a + bn_val b" "length (bn_add a b) = length a"
proof -
  obtain c where c: "bn_val (bn_add a b) + 2 ^ (32 * length a) * c = bn_val a + bn_val b" and l: "length (bn_add a b) = length a"
    using bn_add_loop_val [OF assms(1), of 0] by (auto simp: bn_add_def)
  have "c = 0" using c assms(2) by (cases c) auto
  thus "bn_val (bn_add a b) = bn_val a + bn_val b" using c by simp
  show "length (bn_add a b) = length a" by (rule l)
qed

subsection \<open>Products\<close>

lemma bn_carry_val:
  assumes "bn_val rs + unat c < 2 ^ (32 * length rs)" "unat c < 2 ^ 33"
  shows "bn_val (bn_carry c rs) = bn_val rs + unat c \<and> length (bn_carry c rs) = length rs"
  using assms
proof (induction c rs rule: bn_carry.induct)
  case (2 c r rs)
  show ?case
  proof (cases "c = 0")
    case False
    define s where "s = (ucast r :: u64) + c"
    have s: "unat s = unat r + unat c"
      using unat_u32_lt [of r] 2(3) by (simp add: s_def unat_word_ariths)
    have sp: "unat s mod 2 ^ 32 + 2 ^ 32 * (unat s div 2 ^ 32) = unat r + unat c" by (simp add: s)
    have "2 ^ 32 * (bn_val rs + unat s div 2 ^ 32) < 2 ^ 32 * 2 ^ (32 * length rs)"
      using 2(2) sp by (simp add: power_add algebra_simps)
    hence lt: "bn_val rs + unat (drop_bit 32 s) < 2 ^ (32 * length rs)" by (simp add: split_u64)
    have "unat s < 2 ^ 34" using s unat_u32_lt [of r] 2(3) by simp
    hence "unat (drop_bit 32 s) < 2 ^ 33" by (simp add: split_u64 div_less_iff_less_mult)
    with 2(1) [OF False s_def lt] have ih: "bn_val (bn_carry (drop_bit 32 s) rs) = bn_val rs + unat s div 2 ^ 32"
      "length (bn_carry (drop_bit 32 s) rs) = length rs" by (simp_all add: split_u64)
    have e: "bn_carry c (r # rs) = ucast s # bn_carry (drop_bit 32 s) rs" using False by (simp add: s_def Let_def)
    have "bn_val (bn_carry c (r # rs)) = unat s mod 2 ^ 32 + 2 ^ 32 * (unat s div 2 ^ 32) + 2 ^ 32 * bn_val rs"
      unfolding e by (simp add: ih split_u64 algebra_simps)
    thus ?thesis using sp ih(2) unfolding e by simp
  qed simp
qed simp

lemma mul_acc_bound:
  assumes "x < 2 ^ 32" "y < 2 ^ 32" "r < 2 ^ 32" "c < 2 ^ 32"
  shows "x * y + r + c < (2 :: nat) ^ 64"
proof -
  have "x * y \<le> (2 ^ 32 - 1) * (2 ^ 32 - 1)" using assms by (intro mult_le_mono) simp_all
  thus ?thesis using assms by simp
qed

lemma bn_row_val:
  assumes "bn_val rs + unat ai * bn_val bs + unat c < 2 ^ (32 * length rs)" "unat c < 2 ^ 32" "length bs \<le> length rs"
  shows "bn_val (bn_row ai bs c rs) = bn_val rs + unat ai * bn_val bs + unat c \<and> length (bn_row ai bs c rs) = length rs"
  using assms
proof (induction ai bs c rs rule: bn_row.induct)
  case (1 ai c rs)
  thus ?case using bn_carry_val [of rs c] by simp
next
  case (2 ai b bs c r rs)
  define s where "s = (ucast ai :: u64) * ucast b + ucast r + c"
  have lt: "unat ai * unat b + unat r + unat c < 2 ^ 64"
    using mul_acc_bound [of "unat ai" "unat b" "unat r" "unat c"] unat_u32_lt [of ai] unat_u32_lt [of b] unat_u32_lt [of r] 2(3)
    by simp
  hence s: "unat s = unat ai * unat b + unat r + unat c"
    by (simp add: s_def unat_word_ariths mod_simps)
  have sp: "unat s mod 2 ^ 32 + 2 ^ 32 * (unat s div 2 ^ 32) = unat ai * unat b + unat r + unat c" by (simp add: s)
  have "2 ^ 32 * (bn_val rs + unat ai * bn_val bs + unat s div 2 ^ 32) < 2 ^ 32 * 2 ^ (32 * length rs)"
    using 2(2) sp by (simp add: power_add algebra_simps)
  hence a: "bn_val rs + unat ai * bn_val bs + unat (drop_bit 32 s) < 2 ^ (32 * length rs)" by (simp add: split_u64)
  have "unat (drop_bit 32 s) < 2 ^ 32" using unat_u64_lt [of s] by (simp add: split_u64 div_less_iff_less_mult)
  with 2(1) [OF s_def a] 2(4) have ih: "bn_val (bn_row ai bs (drop_bit 32 s) rs) = bn_val rs + unat ai * bn_val bs + unat s div 2 ^ 32"
    "length (bn_row ai bs (drop_bit 32 s) rs) = length rs" by (simp_all add: split_u64)
  have e: "bn_row ai (b # bs) c (r # rs) = ucast s # bn_row ai bs (drop_bit 32 s) rs" by (simp add: s_def Let_def)
  have "bn_val (bn_row ai (b # bs) c (r # rs)) =
      unat s mod 2 ^ 32 + 2 ^ 32 * (unat s div 2 ^ 32) + 2 ^ 32 * (bn_val rs + unat ai * bn_val bs)"
    unfolding e by (simp add: ih split_u64 algebra_simps)
  also have "\<dots> = bn_val (r # rs) + unat ai * bn_val (b # bs) + unat c" unfolding sp by (simp add: algebra_simps)
  finally show ?case using ih(2) unfolding e by simp
qed simp

lemma bn_mul_wide_val:
  assumes a: "length a = BIGNUM_LIMBS" and b: "length b = BIGNUM_LIMBS"
  shows "bn_val (bn_mul_wide a b) = bn_val a * bn_val b \<and> length (bn_mul_wide a b) = 2 * BIGNUM_LIMBS"
proof -
  let ?F = "\<lambda>i result. if a ! i = 0 then result
      else take i result @ bn_row (a ! i) (take (bn_used_limbs b) b) 0 (drop i result)"
  note ub = bn_used_val [OF b] and ua = bn_used_val [OF a]
  let ?b = "take (bn_used_limbs b) b"
  have vb: "bn_val ?b = bn_val b" using ub(1) by simp
  have "bn_val (fold ?F [0..<n] (replicate (2 * BIGNUM_LIMBS) 0)) = bn_val (take n a) * bn_val b \<and>
      length (fold ?F [0..<n] (replicate (2 * BIGNUM_LIMBS) 0)) = 2 * BIGNUM_LIMBS" if "n \<le> BIGNUM_LIMBS" for n
    using that
  proof (induction n)
    case (Suc n)
    define r where "r = fold ?F [0..<n] (replicate (2 * BIGNUM_LIMBS) (0 :: u32))"
    have r: "bn_val r = bn_val (take n a) * bn_val b" "length r = 2 * BIGNUM_LIMBS"
      using Suc by (simp_all add: r_def)
    have f: "fold ?F [0..<Suc n] (replicate (2 * BIGNUM_LIMBS) 0) = ?F n r" by (simp add: r_def)
    have va: "bn_val (take (Suc n) a) = bn_val (take n a) + 2 ^ (32 * n) * unat (a ! n)"
      using Suc.prems a by (intro bn_val_take_Suc) simp
    show ?case
    proof (cases "a ! n = 0")
      case True
      thus ?thesis unfolding f using r va by simp
    next
      case False
      have sp: "bn_val r = bn_val (take n r) + 2 ^ (32 * n) * bn_val (drop n r)"
        using Suc.prems r(2) by (intro bn_val_split) simp
      have tot: "bn_val (take n r) + 2 ^ (32 * n) * (bn_val (drop n r) + unat (a ! n) * bn_val b) = bn_val (take (Suc n) a) * bn_val b"
        using r(1) sp va by (simp add: algebra_simps)
      have "bn_val (take (Suc n) a) * bn_val b < 2 ^ (32 * BIGNUM_LIMBS) * 2 ^ (32 * BIGNUM_LIMBS)"
        using bn_val_lt [of a] bn_val_lt [of b] a b bn_val_mono_take [of "Suc n" a] by (intro mult_strict_mono) auto
      also have "\<dots> = 2 ^ (32 * n) * 2 ^ (32 * length (drop n r))"
        using Suc.prems r(2) by (simp flip: power_add)
      finally have "2 ^ (32 * n) * (bn_val (drop n r) + unat (a ! n) * bn_val b) < 2 ^ (32 * n) * 2 ^ (32 * length (drop n r))"
        using tot by linarith
      hence lt: "bn_val (drop n r) + unat (a ! n) * bn_val ?b + unat (0 :: u64) < 2 ^ (32 * length (drop n r))" by (simp add: vb)
      have "length ?b \<le> length (drop n r)" using r(2) ub(3) Suc.prems b by simp
      note row = bn_row_val [OF lt _ this]
      have "bn_val (?F n r) = bn_val (take n r) + 2 ^ (32 * n) * (bn_val (drop n r) + unat (a ! n) * bn_val b)"
        using False row r(2) Suc.prems by (simp add: bn_val_append vb)
      moreover have "length (?F n r) = 2 * BIGNUM_LIMBS" using False row r(2) Suc.prems by simp
      ultimately show ?thesis unfolding f using tot by simp
    qed
  qed simp
  from this [OF ua(3)] show ?thesis using ua(1) by (simp add: bn_mul_wide_def)
qed


subsection \<open>Highest bits\<close>

lemma test_bit: "w AND push_bit i 1 \<noteq> 0 \<longleftrightarrow> bit w i" for w :: u32
  by (simp add: and_exp_eq_0_iff_not_bit)

lemma bn_top_bit:
  "- 1 \<le> bn_top_bit w n \<and> bn_top_bit w n < int n \<and> (\<forall>k < n. bn_top_bit w n < int k \<longrightarrow> \<not> bit w k)"
  by (induction n) (auto simp: and_exp_eq_0_iff_not_bit less_Suc_eq)

lemma bn_top_bit_nonneg: "w \<noteq> 0 \<Longrightarrow> 0 \<le> bn_top_bit w 32"
proof (rule ccontr)
  assume w: "w \<noteq> 0" "\<not> 0 \<le> bn_top_bit w 32"
  have "\<not> bit w k" if "k < LENGTH(32)" for k using that bn_top_bit [of w 32] w(2) by auto
  hence "w = 0" by (intro bit_word_eqI) simp
  thus False using w(1) by simp
qed

lemma no_high_bits: "(\<And>k. n \<le> k \<Longrightarrow> \<not> bit W k) \<Longrightarrow> W < 2 ^ n" for W :: nat
proof -
  assume a: "\<And>k. n \<le> k \<Longrightarrow> \<not> bit W k"
  have "take_bit n W = W" by (rule bit_eqI) (metis a bit_take_bit_iff not_less)
  thus "W < 2 ^ n" by (simp add: take_bit_nat_eq_self_iff)
qed

lemma bn_wide_bit_from:
  "n \<le> length wide \<Longrightarrow> - 1 \<le> bn_wide_bit_from wide n \<and> bn_wide_bit_from wide n < 32 * int n \<and>
   (\<forall>k < 32 * n. bn_wide_bit_from wide n < int k \<longrightarrow> \<not> bit (bn_val wide) k)"
proof (induction n)
  case (Suc n)
  let ?t = "bn_top_bit (wide ! n) 32"
  have b: "bit (bn_val wide) k \<longleftrightarrow> bit (wide ! n) (k mod 32)" if "32 * n \<le> k" "k < 32 * Suc n" for k
  proof -
    have "k div 32 = n" using that by (intro div_nat_eqI) simp_all
    thus ?thesis using Suc.prems by (simp add: bn_val_bit)
  qed
  show ?case
  proof (cases "wide ! n \<noteq> 0")
    case True
    hence t: "0 \<le> ?t" "?t < 32" using bn_top_bit_nonneg bn_top_bit [of "wide ! n" 32] by auto
    have e: "bn_wide_bit_from wide (Suc n) = int n * 32 + ?t" using True t by simp
    have "\<not> bit (bn_val wide) k" if k: "k < 32 * Suc n" "int n * 32 + ?t < int k" for k
    proof -
      have r: "32 * n \<le> k" using k(2) t by linarith
      then obtain j where j: "k = 32 * n + j" by (metis le_Suc_ex)
      have "k mod 32 = j" "j < 32" "?t < int j" using j k by simp_all
      thus ?thesis using b [OF r k(1)] bn_top_bit [of "wide ! n" 32] by simp
    qed
    thus ?thesis unfolding e using t by auto
  next
    case False
    hence e: "bn_wide_bit_from wide (Suc n) = bn_wide_bit_from wide n" by simp
    show ?thesis
    proof (intro conjI allI impI)
      fix k assume k: "k < 32 * Suc n" "bn_wide_bit_from wide (Suc n) < int k"
      show "\<not> bit (bn_val wide) k" using Suc k False b [of k] e by (cases "32 * n \<le> k") auto
    qed (use Suc e in auto)
  qed
qed simp

lemma bn_val_no_high: "32 * length ws \<le> k \<Longrightarrow> \<not> bit (bn_val ws) k"
  by (auto simp: bn_val_bit less_eq_div_iff_mult_less_eq ac_simps not_less)

lemma bn_wide_bit_length_val:
  assumes "length wide = 2 * BIGNUM_LIMBS"
  defines "n \<equiv> nat (bn_wide_bit_length wide + 1)"
  shows "bn_val wide < 2 ^ n" "n \<le> 32 * (2 * BIGNUM_LIMBS)"
proof -
  note w = bn_wide_bit_from [of "2 * BIGNUM_LIMBS" wide] 
  show "n \<le> 32 * (2 * BIGNUM_LIMBS)" using w assms(1) unfolding n_def bn_wide_bit_length_def by (auto simp: nat_le_iff)
  show "bn_val wide < 2 ^ n"
  proof (rule no_high_bits)
    fix k assume "n \<le> k"
    thus "\<not> bit (bn_val wide) k" using w assms bn_val_no_high [of wide k]
      by (cases "k < 32 * (2 * BIGNUM_LIMBS)") (auto simp: bn_wide_bit_length_def)
  qed
qed

lemma bn_bit_length_val:
  assumes a: "length a = BIGNUM_LIMBS"
  shows "bn_val a < 2 ^ nat (bn_bit_length a)" "nat (bn_bit_length a) \<le> 32 * BIGNUM_LIMBS" "0 \<le> bn_bit_length a"
proof -
  note u = bn_used_val [OF a]
  let ?u = "bn_used_limbs a"
  have "bn_val a < 2 ^ nat (bn_bit_length a) \<and> nat (bn_bit_length a) \<le> 32 * BIGNUM_LIMBS \<and> 0 \<le> bn_bit_length a"
  proof (cases "?u = 0")
    case True
    thus ?thesis using u(4) by (simp add: bn_bit_length_def)
  next
    case False
    let ?t = "bn_top_bit (a ! (?u - 1)) 32"
    have nz: "a ! (?u - 1) \<noteq> 0" using bn_used_from(3) [of a BIGNUM_LIMBS] False by (simp add: bn_used_limbs_def)
    have t: "0 \<le> ?t" "?t < 32" "\<And>k. k < 32 \<Longrightarrow> ?t < int k \<Longrightarrow> \<not> bit (a ! (?u - 1)) k"
      using bn_top_bit_nonneg [OF nz] bn_top_bit [of "a ! (?u - 1)" 32] by auto
    have e: "bn_bit_length a = (int ?u - 1) * 32 + ?t + 1" using False by (simp add: bn_bit_length_def Let_def)
    have n: "nat (bn_bit_length a) = (?u - 1) * 32 + nat ?t + 1" unfolding e using False t(1) by (simp add: nat_add_distrib nat_mult_distrib of_nat_diff)
    have "bn_val a < 2 ^ nat (bn_bit_length a)"
    proof (rule no_high_bits)
      fix k assume k: "nat (bn_bit_length a) \<le> k"
      show "\<not> bit (bn_val a) k"
      proof (cases "k div 32 < ?u")
        case True
        have kk: "k = 32 * (k div 32) + k mod 32" by simp
        have "?u - 1 \<le> k div 32" using k n by (simp add: less_eq_div_iff_mult_less_eq)
        hence d: "k div 32 = ?u - 1" using True by linarith
        hence "nat ?t < k mod 32" using k n kk by linarith
        thus ?thesis using t(3) [of "k mod 32"] d by (auto simp: bn_val_bit)
      next
        case False
        hence "a ! (k div 32) = 0" if "k div 32 < BIGNUM_LIMBS"
          using that bn_used_from(2) [of a BIGNUM_LIMBS] by (simp add: bn_used_limbs_def)
        thus ?thesis using a by (auto simp: bn_val_bit)
      qed
    qed
    moreover have "nat (bn_bit_length a) \<le> 32 * BIGNUM_LIMBS"
    proof -
      have "nat ?t + 1 \<le> 32" using t by linarith
      hence "nat (bn_bit_length a) \<le> (?u - 1) * 32 + 32" using n by linarith
      also have "\<dots> = ?u * 32" using False by (cases ?u) simp_all
      finally show ?thesis using u(3) by linarith
    qed
    ultimately show ?thesis using e t False by simp
  qed
  thus "bn_val a < 2 ^ nat (bn_bit_length a)" "nat (bn_bit_length a) \<le> 32 * BIGNUM_LIMBS" "0 \<le> bn_bit_length a" by blast+
qed

subsection \<open>Remainders\<close>

lemma even_ne_max: "even n \<Longrightarrow> n \<noteq> 2 ^ 32 - 1" for n :: nat
  by auto

lemma or_shift_one: "push_bit 1 r OR 1 = push_bit 1 r + 1" for r :: u32
proof -
  have "push_bit 1 r AND 1 = 0" by (rule bit_word_eqI) (simp only: bit_and_iff bit_push_bit_iff bit_1_iff bit_0_eq bot_apply, auto)
  thus ?thesis using disjunctive_add_eq_or [of "push_bit 1 r" 1] by metis
qed

lemma bn_shl1_val:
  assumes "unat c \<le> 1"
  shows "length (bn_shl1 c rs) = length rs \<and>
    (\<exists>c'. bn_val (bn_shl1 c rs) + 2 ^ (32 * length rs) * c' = 2 * bn_val rs + unat c)"
  using assms
proof (induction c rs rule: bn_shl1.induct)
  case (2 c r rs)
  have hi: "unat (drop_bit 31 r) = unat r div 2 ^ 31"
    unfolding unsigned_drop_bit_eq using unat_u32_lt [of r] by (simp add: drop_bit_eq_div take_bit_nat_eq_self)
  have lo: "unat (push_bit 1 r OR c) = 2 * unat r mod 2 ^ 32 + unat c"
  proof -
    have c01: "c = 0 \<or> c = 1" using 2(2) by (metis One_nat_def le_Suc_eq le_zero_eq unat_1 unat_eq_zero word_unat_eq_iff)
    have p: "unat (push_bit 1 r) = 2 * unat r mod 2 ^ 32" by (simp add: push_bit_eq_mult unat_word_ariths mult.commute)
    have o: "push_bit 1 r OR 1 = push_bit 1 r + 1" by (rule or_shift_one)
    have "even (2 * unat r mod 2 ^ 32)" by (simp add: dvd_mod_iff)
    hence "2 * unat r mod 2 ^ 32 \<noteq> 2 ^ 32 - 1" by (rule even_ne_max)
    moreover have "2 * unat r mod 2 ^ 32 < 2 ^ 32" by simp
    ultimately have "2 * unat r mod 2 ^ 32 + 1 < 2 ^ 32" by linarith
    hence "unat (push_bit 1 r + 1) = 2 * unat r mod 2 ^ 32 + 1" unfolding unat_word_ariths p by simp
    thus ?thesis using c01 p o by (elim disjE) simp_all
  qed
  have d: "unat r div 2 ^ 31 \<le> 1" using unat_u32_lt [of r] by auto
  obtain c' where c': "bn_val (bn_shl1 (drop_bit 31 r) rs) + 2 ^ (32 * length rs) * c' = 2 * bn_val rs + unat r div 2 ^ 31"
    and l: "length (bn_shl1 (drop_bit 31 r) rs) = length rs"
    using 2(1) [OF refl] d by (auto simp: hi)
  have e: "bn_shl1 c (r # rs) = (push_bit 1 r OR c) # bn_shl1 (drop_bit 31 r) rs" by (simp add: Let_def)
  have s: "2 * unat r mod 2 ^ 32 + 2 ^ 32 * (unat r div 2 ^ 31) = 2 * unat r"
  proof -
    have "2 * unat r div 2 ^ 32 = unat r div 2 ^ 31"
      using div_mult2_eq [of "2 * unat r" 2 "2 ^ 31"] by simp
    thus ?thesis using mod_mult_div_eq [of "2 * unat r" "2 ^ 32"] by simp
  qed
  have "bn_val (bn_shl1 c (r # rs)) + 2 ^ (32 * length (r # rs)) * c' =
      2 * unat r mod 2 ^ 32 + unat c + 2 ^ 32 * (bn_val (bn_shl1 (drop_bit 31 r) rs) + 2 ^ (32 * length rs) * c')"
    unfolding e bn_val.simps lo by (simp add: power_add algebra_simps)
  also have "\<dots> = 2 * unat r mod 2 ^ 32 + 2 ^ 32 * (unat r div 2 ^ 31) + unat c + 2 ^ 32 * (2 * bn_val rs)"
    unfolding c' by (simp add: algebra_simps)
  also have "\<dots> = 2 * bn_val (r # rs) + unat c" unfolding s by (simp add: algebra_simps)
  finally show ?case using l unfolding e by auto
qed simp

lemma bn_mod_step_val:
  assumes r: "length r = BIGNUM_LIMBS" "bn_val r < bn_val m" and m: "length m = BIGNUM_LIMBS" "bn_used_limbs m < BIGNUM_LIMBS"
    and b: "b < 32 * length wide"
  shows "bn_val (bn_mod_step wide m (bn_used_limbs m + 1) b r) = (2 * bn_val r + of_bool (bit (bn_val wide) b)) mod bn_val m \<and>
    length (bn_mod_step wide m (bn_used_limbs m + 1) b r) = BIGNUM_LIMBS"
proof -
  let ?w = "bn_used_limbs m + 1"
  have w: "?w \<le> BIGNUM_LIMBS" using m(2) by simp
  have lt: "bn_val r < 2 ^ (32 * bn_used_limbs m)" using r(2) bn_used_val(2) [OF m(1)] by linarith
  have pw: "2 ^ (32 * bn_used_limbs m) * 2 ^ 32 = (2 :: nat) ^ (32 * ?w)" unfolding power_add [symmetric] by (simp only: distrib_left mult_1_right)
  have sp: "bn_val r = bn_val (take ?w r) + 2 ^ (32 * ?w) * bn_val (drop ?w r)" using w r(1) by (intro bn_val_split) simp
  have "bn_val (drop ?w r) = 0"
  proof (rule ccontr)
    assume "bn_val (drop ?w r) \<noteq> 0"
    hence "2 ^ (32 * ?w) * 1 \<le> 2 ^ (32 * ?w) * bn_val (drop ?w r)" by (intro mult_le_mono2) simp
    moreover have "(2 :: nat) ^ (32 * bn_used_limbs m) \<le> 2 ^ (32 * ?w)" by (rule power_increasing) simp_all
    ultimately show False using sp lt by linarith
  qed
  hence t: "bn_val (take ?w r) = bn_val r" "bn_val (drop ?w r) = 0" using sp by simp_all
  let ?s = "bn_shl1 0 (take ?w r)"
  obtain c' where c': "bn_val ?s + 2 ^ (32 * ?w) * c' = 2 * bn_val r" and ls: "length ?s = ?w"
  proof -
    have "length (take ?w r) = ?w" using w r(1) by simp
    thus thesis using bn_shl1_val [of 0 "take ?w r"] t(1) that by auto
  qed
  have "2 * bn_val r < 2 ^ (32 * ?w)"
  proof -
    have "2 * bn_val r < 2 ^ (32 * bn_used_limbs m) * 2 ^ 32" using lt by simp
    thus ?thesis unfolding pw .
  qed
  hence "c' = 0" using c' by (cases c') auto
  hence vs: "bn_val ?s = 2 * bn_val r" using c' by simp
  define x where "x = drop_bit (b mod 32) (wide ! (b div 32)) AND 1"
  have x: "x = of_bool (bit (bn_val wide) b)"
  proof -
    have "b div 32 < length wide" using b by (simp add: less_mult_imp_div_less mult.commute)
    hence "bit (bn_val wide) b = odd (drop_bit (b mod 32) (wide ! (b div 32)))"
      using bn_val_bit [of wide b] bit_iff_odd_drop_bit [of "wide ! (b div 32)" "b mod 32"] by simp
    thus ?thesis by (simp only: x_def and_one_eq mod_2_eq_odd)
  qed
  obtain h hs where hs: "take ?w r = h # hs" using w r(1) by (cases "take ?w r") auto
  let ?r1 = "?s @ drop ?w r"
  have r10: "?r1 ! 0 = push_bit 1 h" "?s = push_bit 1 h # tl ?s" using hs by (simp_all add: Let_def)
  have "?r1[0 := ?r1 ! 0 OR x] = (push_bit 1 h OR x) # tl ?s @ drop ?w r" using r10 by (metis append_Cons list_update_code(2) nth_Cons_0)
  moreover have "unat (push_bit 1 h OR x) = unat (push_bit 1 h) + unat x"
  proof -
    have "push_bit 1 h OR x = push_bit 1 h + x" unfolding x using or_shift_one [of h] by (cases "bit (bn_val wide) b") simp_all
    moreover have "unat (push_bit 1 h) + unat x < 2 ^ 32"
    proof -
      have "even (unat (push_bit 1 h))" by (simp add: push_bit_eq_mult unat_word_ariths dvd_mod_iff)
      hence "unat (push_bit 1 h) \<noteq> 2 ^ 32 - 1" by (rule even_ne_max)
      thus ?thesis using unat_u32_lt [of "push_bit 1 h"] unfolding x by (cases "bit (bn_val wide) b") simp_all
    qed
    ultimately show ?thesis by (simp add: unat_word_ariths)
  qed
  ultimately have v: "bn_val (?r1[0 := ?r1 ! 0 OR x]) = bn_val ?r1 + unat x" using r10(2) proof -
    assume a: "?r1[0 := ?r1 ! 0 OR x] = (push_bit 1 h OR x) # tl ?s @ drop ?w r"
      and u: "unat (push_bit 1 h OR x) = unat (push_bit 1 h) + unat x"
    have "?r1 = push_bit 1 h # tl ?s @ drop ?w r" using r10(2) by (metis append_Cons)
    thus ?thesis unfolding a by (simp only: bn_val.simps u add.commute add.left_commute)
  qed
  have "bn_val ?r1 = 2 * bn_val r" using vs t(2) by (simp add: bn_val_append)
  hence v2: "bn_val (?r1[0 := ?r1 ! 0 OR x]) = 2 * bn_val r + of_bool (bit (bn_val wide) b)" using v x by simp
  have l2: "length (?r1[0 := ?r1 ! 0 OR x]) = BIGNUM_LIMBS" using ls w r(1) by simp
  define z where "z = ?r1[0 := ?r1 ! 0 OR x]"
  have z: "bn_val z = 2 * bn_val r + of_bool (bit (bn_val wide) b)" "length z = BIGNUM_LIMBS" using v2 l2 by (simp_all add: z_def)
  have lt2: "bn_val z < 2 * bn_val m" using r(2) z(1) by (cases "bit (bn_val wide) b") simp_all
  have e: "bn_mod_step wide m ?w b r = (if bn_cmp z m \<ge> 0 then bn_sub z m else z)"
    by (simp add: bn_mod_step_def z_def x_def Let_def)
  show ?thesis
  proof (cases "bn_val m \<le> bn_val z")
    case True
    have "bn_val z mod bn_val m = bn_val z - bn_val m" using True lt2 by (simp add: le_mod_geq)
    thus ?thesis unfolding e using True bn_cmp_val [OF z(2) m(1)] bn_sub_val [of z m] z m(1) by simp
  next
    case False
    thus ?thesis unfolding e using bn_cmp_val [OF z(2) m(1)] z by simp
  qed
qed

lemma bn_val_below_bit: "2 * (W div 2 ^ Suc b) + of_bool (bit W b) = W div 2 ^ b" for W :: nat
proof -
  have "W div 2 ^ Suc b = W div 2 ^ b div 2" unfolding power_Suc2 by (rule div_mult2_eq)
  thus ?thesis by (simp add: bit_iff_odd mod_2_eq_odd [symmetric] del: power_Suc)
qed

lemma bn_mod_fold_val:
  assumes m: "length m = BIGNUM_LIMBS" "bn_used_limbs m < BIGNUM_LIMBS" "0 < bn_val m"
    and w: "bn_val wide < 2 ^ n" "n \<le> 32 * length wide" and k: "k \<le> n"
  shows "bn_val (fold (bn_mod_step wide m (bn_used_limbs m + 1)) (rev [k..<n]) bn_zero) = (bn_val wide div 2 ^ k) mod bn_val m \<and>
    length (fold (bn_mod_step wide m (bn_used_limbs m + 1)) (rev [k..<n]) bn_zero) = BIGNUM_LIMBS"
  using k
proof (induction rule: inc_induct)
  case base
  thus ?case using w by (simp add: bn_val_zero)
next
  case (step k)
  let ?f = "\<lambda>k. fold (bn_mod_step wide m (bn_used_limbs m + 1)) (rev [k..<n]) bn_zero"
  have e: "?f k = bn_mod_step wide m (bn_used_limbs m + 1) k (?f (Suc k))"
    using step(2) by (simp add: upt_conv_Cons)
  have lt: "bn_val (?f (Suc k)) < bn_val m" using step(3) m(3) by simp
  have b: "k < 32 * length wide" using step(2) w(2) by linarith
  note s = bn_mod_step_val [OF conjunct2 [OF step(3)] lt m(1,2) b]
  have "(2 * (bn_val wide div 2 ^ Suc k mod bn_val m) + of_bool (bit (bn_val wide) k)) mod bn_val m =
      (2 * (bn_val wide div 2 ^ Suc k) + of_bool (bit (bn_val wide) k)) mod bn_val m"
    by (metis mod_add_left_eq mod_mult_right_eq)
  thus ?case using s step(3) unfolding e bn_val_below_bit by simp
qed

lemma bn_mod_wide_val:
  assumes m: "length m = BIGNUM_LIMBS" "bn_used_limbs m < BIGNUM_LIMBS" "0 < bn_val m" and w: "length wide = 2 * BIGNUM_LIMBS"
  shows "bn_val (bn_mod_wide wide m) = bn_val wide mod bn_val m" "length (bn_mod_wide wide m) = BIGNUM_LIMBS"
proof -
  have n: "nat (bn_wide_bit_length wide + 1) \<le> 32 * length wide" using bn_wide_bit_length_val(2) [OF w] w by simp
  have "\<not> BIGNUM_LIMBS < bn_used_limbs m + 1" using m(2) by simp
  thus "bn_val (bn_mod_wide wide m) = bn_val wide mod bn_val m" "length (bn_mod_wide wide m) = BIGNUM_LIMBS"
    using bn_mod_fold_val [OF m bn_wide_bit_length_val(1) [OF w] n, of 0] by (simp_all add: bn_mod_wide_def Let_def)
qed

lemma bn_mulmod_val:
  assumes "length a = BIGNUM_LIMBS" "length b = BIGNUM_LIMBS"
    and m: "length m = BIGNUM_LIMBS" "bn_used_limbs m < BIGNUM_LIMBS" "0 < bn_val m"
  shows "bn_val (bn_mulmod a b m) = bn_val a * bn_val b mod bn_val m" "length (bn_mulmod a b m) = BIGNUM_LIMBS"
  using bn_mod_wide_val [OF m, of "bn_mul_wide a b"] bn_mul_wide_val [OF assms(1,2)] by (simp_all add: bn_mulmod_def)

subsection \<open>Powers\<close>

lemma bn_reduce_base_val:
  assumes b: "length base = BIGNUM_LIMBS" and m: "length m = BIGNUM_LIMBS" "bn_used_limbs m < BIGNUM_LIMBS" "0 < bn_val m"
  shows "bn_val (bn_reduce_base base m) = bn_val base mod bn_val m" "length (bn_reduce_base base m) = BIGNUM_LIMBS"
  using bn_mod_wide_val [OF m, of "base @ replicate BIGNUM_LIMBS 0"] bn_cmp_val [OF b m(1)] b
  by (auto simp: bn_reduce_base_def bn_val_append)

lemma bn_pow_step_val:
  assumes "length b = BIGNUM_LIMBS" "length acc = BIGNUM_LIMBS"
    and m: "length m = BIGNUM_LIMBS" "bn_used_limbs m < BIGNUM_LIMBS" "0 < bn_val m"
  shows "bn_val (bn_pow_step b m e acc) = bn_val acc * bn_val acc * bn_val b ^ of_bool e mod bn_val m \<and>
    length (bn_pow_step b m e acc) = BIGNUM_LIMBS"
proof -
  note q = bn_mulmod_val [OF assms(2) assms(2) m]
  show ?thesis using q bn_mulmod_val [OF q(2) assms(1) m]
    by (cases e) (simp_all add: bn_pow_step_def Let_def mod_mult_left_eq)
qed

lemma sq_mod: "(x mod m) * (x mod m) * y mod m = x * x * y mod m" for x :: nat
  by (intro mod_mult_cong) simp_all

lemma bn_val_one: "bn_val (bn_zero[0 := 1]) = 1"
proof -
  have "bn_zero[0 := 1] = 1 # replicate 129 0"
    unfolding bn_zero_def BIGNUM_LIMBS_def using replicate_Suc [of 129 "0 :: u32"] by simp
  thus ?thesis by simp
qed

lemma bn_pow_fold_val:
  assumes b: "length b = BIGNUM_LIMBS" and m: "length m = BIGNUM_LIMBS" "bn_used_limbs m < BIGNUM_LIMBS" "1 < bn_val m"
    and E: "E < 2 ^ n" "\<And>i. i < n \<Longrightarrow> e i = bit E i" and k: "k \<le> n"
  shows "bn_val (fold (\<lambda>i. bn_pow_step b m (e i)) (rev [k..<n]) (bn_zero[0 := 1])) = bn_val b ^ (E div 2 ^ k) mod bn_val m \<and>
    length (fold (\<lambda>i. bn_pow_step b m (e i)) (rev [k..<n]) (bn_zero[0 := 1])) = BIGNUM_LIMBS"
  using k
proof (induction rule: inc_induct)
  case base
  show ?case using E(1) m(3) by (simp add: bn_val_one bn_val_zero)
next
  case (step k)
  let ?f = "\<lambda>k. fold (\<lambda>i. bn_pow_step b m (e i)) (rev [k..<n]) (bn_zero[0 := 1])"
  have m0: "0 < bn_val m" using m(3) by simp
  have u: "rev [k..<n] = rev [Suc k..<n] @ [k]" using step(2) by (simp add: upt_conv_Cons)
  have f: "?f k = bn_pow_step b m (bit E k) (?f (Suc k))" unfolding u fold_append using E(2) [OF step(2)] by simp
  note s = bn_pow_step_val [OF b conjunct2 [OF step(3)] m(1,2) m0, of "bit E k"]
  let ?x = "bn_val b ^ (E div 2 ^ Suc k)"
  have "(?x mod bn_val m) * (?x mod bn_val m) * bn_val b ^ of_bool (bit E k) mod bn_val m =
      ?x * ?x * bn_val b ^ of_bool (bit E k) mod bn_val m" by (rule sq_mod)
  also have "?x * ?x * bn_val b ^ of_bool (bit E k) = bn_val b ^ (2 * (E div 2 ^ Suc k) + of_bool (bit E k))"
    by (simp only: power_add mult_2)
  also have "\<dots> = bn_val b ^ (E div 2 ^ k)" unfolding bn_val_below_bit ..
  finally have r: "(?x mod bn_val m) * (?x mod bn_val m) * bn_val b ^ of_bool (bit E k) mod bn_val m =
    bn_val b ^ (E div 2 ^ k) mod bn_val m" .
  show ?case using s unfolding f conjunct1 [OF step(3)] r .
qed

lemma bn_modpow_val:
  assumes "length base = BIGNUM_LIMBS" "length exp = BIGNUM_LIMBS" "length m = BIGNUM_LIMBS"
    and "bn_used_limbs m < BIGNUM_LIMBS" "1 < bn_val m"
  shows "bn_val (bn_modpow base exp m) = bn_val base ^ bn_val exp mod bn_val m"
proof -
  have m0: "0 < bn_val m" using assms(5) by simp
  note b = bn_reduce_base_val [OF assms(1,3,4) m0] and n = bn_bit_length_val [OF assms(2)]
  have e: "(exp ! (i div 32) AND push_bit (i mod 32) 1 \<noteq> 0) = bit (bn_val exp) i" if "i < nat (bn_bit_length exp)" for i
  proof -
    have "i div 32 < length exp" using that n(2) assms(2) by (simp add: less_mult_imp_div_less mult.commute)
    thus ?thesis by (simp only: test_bit bn_val_bit simp_thms)
  qed
  show ?thesis using bn_pow_fold_val [OF b(2) assms(3,4,5) n(1) e, of 0] n(3) b(1)
    by (simp add: bn_modpow_def Let_def power_mod)
qed

lemma bn_modpow_u32exp_val:
  assumes "length base = BIGNUM_LIMBS" "length m = BIGNUM_LIMBS"
    and "bn_used_limbs m < BIGNUM_LIMBS" "1 < bn_val m"
  shows "bn_val (bn_modpow_u32exp base exp m) = bn_val base ^ unat exp mod bn_val m"
    "length (bn_modpow_u32exp base exp m) = BIGNUM_LIMBS"
proof -
  have m0: "0 < bn_val m" using assms(4) by simp
  note b = bn_reduce_base_val [OF assms(1,2,3) m0] 
  let ?n = "nat (bn_top_bit exp 32 + 1)"
  have e: "(exp AND push_bit i 1 \<noteq> 0) = bit (unat exp) i" for i
    by (simp only: test_bit bit_unsigned_iff) (auto dest: bit_imp_le_length)
  have lt: "unat exp < 2 ^ ?n"
  proof (rule no_high_bits)
    fix k assume "?n \<le> k"
    thus "\<not> bit (unat exp) k" using bn_top_bit [of exp 32] by (cases "k < 32") (auto simp: bit_unsigned_iff dest: bit_imp_le_length)
  qed
  show "bn_val (bn_modpow_u32exp base exp m) = bn_val base ^ unat exp mod bn_val m"
    "length (bn_modpow_u32exp base exp m) = BIGNUM_LIMBS"
    using bn_pow_fold_val [OF b(2) assms(2,3,4) lt e, of 0] b(1)
    by (simp_all add: bn_modpow_u32exp_def Let_def power_mod)
qed



subsection \<open>Octet strings\<close>

text \<open>The number a big-endian octet string stands for (OS2IP of RFC 8017).\<close>

fun le_val :: "bytes \<Rightarrow> nat" where
  "le_val [] = 0"
| "le_val (b # bs) = unat b + 2 ^ 8 * le_val bs"

definition os2ip :: "bytes \<Rightarrow> nat" where "os2ip bs = le_val (rev bs)"

lemma le_val_bit: "bit (le_val bs) k \<longleftrightarrow> k div 8 < length bs \<and> bit (bs ! (k div 8)) (k mod 8)"
proof (induction bs arbitrary: k)
  case (Cons w ws)
  have e: "le_val (w # ws) = unat w OR push_bit 8 (le_val ws)"
  proof -
    have "unat w AND push_bit 8 (le_val ws) = 0"
      by (rule bit_eqI) (auto simp: bit_simps bit_unsigned_iff dest: bit_imp_le_length)
    hence "unat w + push_bit 8 (le_val ws) = unat w OR push_bit 8 (le_val ws)" by (rule disjunctive_add_eq_or)
    thus ?thesis by (simp add: push_bit_eq_mult mult.commute)
  qed
  show ?case
  proof (cases "k < 8")
    case True
    thus ?thesis unfolding e by (simp add: bit_simps bit_unsigned_iff)
  next
    case False
    then obtain j where j: "k = 8 + j" by (metis le_Suc_ex not_less)
    have "(8 + j) div 8 = Suc (j div 8)" "(8 + j) mod 8 = j mod 8" by simp_all
    thus ?thesis unfolding e j using Cons [of j]
      by (auto simp: bit_simps bit_unsigned_iff dest: bit_imp_le_length)
  qed
qed simp

lemma os2ip_bit: "bit (os2ip bs) k \<longleftrightarrow> k div 8 < length bs \<and> bit (bs ! (length bs - Suc (k div 8))) (k mod 8)"
  by (auto simp: os2ip_def le_val_bit rev_nth)

lemma os2ip_lt: "os2ip bs < 2 ^ (8 * length bs)"
  by (rule no_high_bits) (auto simp: os2ip_bit)

lemma os2ip_inj:
  assumes "length xs = length ys" "os2ip xs = os2ip ys"
  shows "xs = ys"
proof (rule nth_equalityI)
  fix i assume i: "i < length xs"
  let ?j = "length xs - Suc i"
  show "xs ! i = ys ! i"
  proof (rule bit_word_eqI)
    fix k assume k: "k < LENGTH(8)"
    have "bit (os2ip xs) (8 * ?j + k) = bit (os2ip ys) (8 * ?j + k)" using assms(2) by simp
    moreover have "length ys - Suc i < length ys" using i assms(1) by linarith
    ultimately show "bit (xs ! i) k = bit (ys ! i) k" using i k assms(1) unfolding os2ip_bit by (simp add: Suc_diff_Suc)
  qed
qed (rule assms(1))

lemma div32_div8: "(4 * (k div 32) + k mod 32 div 8) = k div 8" "k mod 32 mod 8 = k mod 8" for k :: nat
proof -
  have k: "k = k mod 32 + 4 * (k div 32) * 8" using mod_mult_div_eq [of k 32] by linarith
  have "k div 8 = (k mod 32 + 4 * (k div 32) * 8) div 8" by (rule arg_cong [OF k])
  also have "\<dots> = 4 * (k div 32) + k mod 32 div 8" by (rule div_mult_self1) simp
  finally show "4 * (k div 32) + k mod 32 div 8 = k div 8" ..
  show "k mod 32 mod 8 = k mod 8" by (simp add: mod_mod_cancel)
qed

lemma bn_from_bytes_step:
  fixes data :: bytes
  assumes n: "n \<le> length data"
  defines "F \<equiv> \<lambda>i a. let byte_index = length data - 1 - i; limb_index = i div 4; shift = (i mod 4) * 8
         in if limb_index < BIGNUM_LIMBS
            then a[limb_index := a ! limb_index OR push_bit shift (ucast (data ! byte_index))] else a"
  shows "length (fold F [0..<n] bn_zero) = BIGNUM_LIMBS \<and>
    (\<forall>l s. l < BIGNUM_LIMBS \<and> s < 32 \<longrightarrow> bit (fold F [0..<n] bn_zero ! l) s =
      (4 * l + s div 8 < n \<and> bit (data ! (length data - 1 - (4 * l + s div 8))) (s mod 8)))"
  using n
proof (induction n)
  case 0
  show ?case by (simp add: bn_zero_def)
next
  case (Suc n)
  let ?a = "fold F [0..<n] bn_zero" and ?b = "data ! (length data - 1 - n)"
  have l: "length ?a = BIGNUM_LIMBS" and b: "\<And>l s. l < BIGNUM_LIMBS \<Longrightarrow> s < 32 \<Longrightarrow> bit (?a ! l) s =
      (4 * l + s div 8 < n \<and> bit (data ! (length data - 1 - (4 * l + s div 8))) (s mod 8))"
    using Suc by auto
  have e: "fold F [0..<Suc n] bn_zero = F n ?a" by simp
  have "bit (F n ?a ! l) s = (4 * l + s div 8 < Suc n \<and> bit (data ! (length data - 1 - (4 * l + s div 8))) (s mod 8))"
    if ls: "l < BIGNUM_LIMBS" "s < 32" for l s
  proof (cases "l = n div 4")
    case False
    have "s div 8 < 4" using ls(2) by (simp add: div_less_iff_less_mult)
    hence "4 * l + s div 8 \<noteq> n" using False by auto
    thus ?thesis using b [OF ls] False by (auto simp: F_def Let_def)
  next
    case True
    have f: "F n ?a ! l = ?a ! l OR push_bit (n mod 4 * 8) (ucast ?b)" using True ls(1) l by (simp add: F_def Let_def)
    have p: "bit (push_bit (n mod 4 * 8) (ucast ?b :: u32)) s = (s div 8 = n mod 4 \<and> bit ?b (s mod 8))"
    proof (cases "s div 8 = n mod 4")
      case True
      have "s = 8 * (s div 8) + s mod 8" by simp
      hence "s - n mod 4 * 8 = s mod 8" "n mod 4 * 8 \<le> s" using True by linarith+
      moreover have "s mod 8 < 32" using mod_less_divisor [of 8 s] by linarith
      ultimately show ?thesis using True ls(2) by (simp add: bit_simps bit_unsigned_iff)
    next
      case False
      have "\<not> (n mod 4 * 8 \<le> s \<and> s - n mod 4 * 8 < 8)"
      proof
        assume a: "n mod 4 * 8 \<le> s \<and> s - n mod 4 * 8 < 8"
        hence "s div 8 = n mod 4" by (intro div_nat_eqI) auto
        thus False using False by simp
      qed
      thus ?thesis using False bit_imp_le_length [of ?b "s - n mod 4 * 8"] by (auto simp: bit_simps bit_unsigned_iff)
    qed
    have n4: "n = 4 * l + n mod 4" using True by simp
    have "4 * l + s div 8 = n \<longleftrightarrow> s div 8 = n mod 4" using n4 by linarith
    thus ?thesis unfolding f using b [OF ls] p by (auto simp: bit_or_iff less_Suc_eq)
  qed
  moreover have "length (F n ?a) = BIGNUM_LIMBS" using l by (simp add: F_def Let_def)
  ultimately show ?case unfolding e by blast
qed

lemma bn_from_bytes_val:
  assumes "length data \<le> 4 * BIGNUM_LIMBS"
  shows "bn_val (bn_from_bytes_be data) = os2ip data" "length (bn_from_bytes_be data) = BIGNUM_LIMBS"
proof -
  note f = bn_from_bytes_step [OF order_refl, of data, folded bn_from_bytes_be_def]
  show "length (bn_from_bytes_be data) = BIGNUM_LIMBS" using f by blast
  show "bn_val (bn_from_bytes_be data) = os2ip data"
  proof (rule bit_eqI)
    fix k
    have "k div 32 < BIGNUM_LIMBS" if "k div 8 < length data"
    proof -
      have "k div 8 < BIGNUM_LIMBS * 4" using that assms by linarith
      hence "k div 8 div 4 < BIGNUM_LIMBS" by (rule less_mult_imp_div_less)
      thus ?thesis using div_mult2_eq [of k 8 4] by simp
    qed
    thus "bit (bn_val (bn_from_bytes_be data)) k = bit (os2ip data) k"
      using f unfolding bn_val_bit os2ip_bit by (auto simp: div32_div8)
  qed
qed

lemma bn_to_bytes_val:
  assumes "length a = BIGNUM_LIMBS"
  shows "os2ip (bn_to_bytes_be a n) = bn_val a mod 2 ^ (8 * n)" "length (bn_to_bytes_be a n) = n"
proof -
  show l: "length (bn_to_bytes_be a n) = n" by (simp add: bn_to_bytes_be_def)
  have "bit (os2ip (bn_to_bytes_be a n)) k = bit (take_bit (8 * n) (bn_val a)) k" for k
  proof (cases "k div 8 < n")
    case False
    thus ?thesis unfolding os2ip_bit l by (auto simp: bit_take_bit_iff)
  next
    case True
    have k: "k < 8 * n" using True by (simp add: div_less_iff_less_mult mult.commute)
    have i: "n - 1 - (n - Suc (k div 8)) = k div 8" using True by linarith
    have d: "k div 8 div 4 = k div 32" using div_mult2_eq [of k 8 4] by simp
    have m: "k mod 8 + k div 8 mod 4 * 8 = k mod 32" using mod_mult2_eq [of k 8 4] by simp
    have "bit (bn_to_bytes_be a n ! (n - Suc (k div 8))) (k mod 8) = (k div 32 < BIGNUM_LIMBS \<and> bit (a ! (k div 32)) (k mod 32))"
    proof -
      have e: "bn_to_bytes_be a n ! (n - Suc (k div 8)) =
          (if k div 32 < BIGNUM_LIMBS then ucast (drop_bit (k div 8 mod 4 * 8) (a ! (k div 32))) else 0)"
        using True i d by (simp add: bn_to_bytes_be_def Let_def)
      have "k mod 8 < 8" by simp
      hence "bit (ucast (drop_bit (k div 8 mod 4 * 8) x) :: u8) (k mod 8) = bit x (k mod 32)" for x :: u32
        using m by (simp only: bit_ucast_iff bit_drop_bit_eq comp_apply add.commute) simp
      thus ?thesis unfolding e by simp
    qed
    thus ?thesis using True k assms unfolding os2ip_bit l by (simp add: bit_take_bit_iff bn_val_bit)
  qed
  hence "os2ip (bn_to_bytes_be a n) = take_bit (8 * n) (bn_val a)" by (intro bit_eqI)
  thus "os2ip (bn_to_bytes_be a n) = bn_val a mod 2 ^ (8 * n)" by (simp add: take_bit_eq_mod)
qed

lemma bn_addmod_val:
  assumes "length a = BIGNUM_LIMBS" "length b = BIGNUM_LIMBS" "length m = BIGNUM_LIMBS"
    and "bn_val a < bn_val m" "bn_val b < bn_val m" "bn_used_limbs m < BIGNUM_LIMBS"
  shows "bn_val (bn_addmod a b m) = (bn_val a + bn_val b) mod bn_val m" "length (bn_addmod a b m) = BIGNUM_LIMBS"
proof -
  have "bn_val m < 2 ^ (32 * bn_used_limbs m)" using bn_used_val(2) [OF assms(3)] .
  also have "\<dots> \<le> 2 ^ (32 * BIGNUM_LIMBS - 1)" using assms(6) by (intro power_increasing) simp_all
  finally have "2 * bn_val m < 2 * 2 ^ (32 * BIGNUM_LIMBS - 1)" by simp
  also have "\<dots> = 2 ^ (32 * length a)" unfolding assms(1) power_Suc [symmetric] by (simp add: BIGNUM_LIMBS_def)
  finally have s: "bn_val a + bn_val b < 2 ^ (32 * length a)" using assms(4,5) by linarith
  note v = bn_add_val [of a b, OF _ s]
  have l: "length (bn_add a b) = BIGNUM_LIMBS" "bn_val (bn_add a b) = bn_val a + bn_val b" using v assms by simp_all
  show "bn_val (bn_addmod a b m) = (bn_val a + bn_val b) mod bn_val m" "length (bn_addmod a b m) = BIGNUM_LIMBS"
    using bn_cmp_val [OF l(1) assms(3)] bn_sub_val [of "bn_add a b" m] l assms(3,4,5)
    by (auto simp: bn_addmod_def Let_def le_mod_geq not_le)
qed

lemma bn_submod_val:
  assumes "length a = BIGNUM_LIMBS" "length b = BIGNUM_LIMBS" "length m = BIGNUM_LIMBS"
    and "bn_val a < bn_val m" "bn_val b < bn_val m"
  shows "int (bn_val (bn_submod a b m)) = (int (bn_val a) - int (bn_val b)) mod int (bn_val m)" "length (bn_submod a b m) = BIGNUM_LIMBS"
proof -
  have "int (bn_val (bn_submod a b m)) = (int (bn_val a) - int (bn_val b)) mod int (bn_val m) \<and> length (bn_submod a b m) = BIGNUM_LIMBS"
  proof (cases "bn_val b \<le> bn_val a")
    case True
    thus ?thesis using bn_cmp_val [OF assms(1,2)] bn_sub_val [of a b] assms by (simp add: bn_submod_def of_nat_diff)
  next
    case False
    have d: "bn_val (bn_sub b a) = bn_val b - bn_val a" "length (bn_sub b a) = BIGNUM_LIMBS"
      using bn_sub_val [of b a] False assms by simp_all
    have "bn_val (bn_sub m (bn_sub b a)) = bn_val m - (bn_val b - bn_val a)" "length (bn_sub m (bn_sub b a)) = BIGNUM_LIMBS"
      using bn_sub_val [of m "bn_sub b a"] d assms by simp_all
    moreover have "int (bn_val m - (bn_val b - bn_val a)) = (int (bn_val a) - int (bn_val b)) + int (bn_val m)"
      using False assms(5) by (simp add: of_nat_diff)
    moreover have "((int (bn_val a) - int (bn_val b)) + int (bn_val m)) mod int (bn_val m) = (int (bn_val a) - int (bn_val b)) + int (bn_val m)"
      using False assms(4,5) by (intro mod_pos_pos_trivial) linarith+
    ultimately show ?thesis using False bn_cmp_val [OF assms(1,2)] by (simp add: bn_submod_def)
  qed
  thus "int (bn_val (bn_submod a b m)) = (int (bn_val a) - int (bn_val b)) mod int (bn_val m)" "length (bn_submod a b m) = BIGNUM_LIMBS"
    by simp_all
qed


subsection \<open>The property\<close>

lemma bn_val_small: "bn_val (bn_zero[0 := w]) = unat w" "length (bn_zero[0 := w]) = BIGNUM_LIMBS"
proof -
  have "bn_zero[0 := w] = w # replicate 129 0"
    unfolding bn_zero_def BIGNUM_LIMBS_def using replicate_Suc [of 129 "0 :: u32"] by simp
  thus "bn_val (bn_zero[0 := w]) = unat w" by simp
  show "length (bn_zero[0 := w]) = BIGNUM_LIMBS" by (simp add: bn_zero_def)
qed

lemma bn_used_small: "bn_used_limbs (bn_zero[0 := w]) < BIGNUM_LIMBS"
proof -
  have "bn_used_limbs (bn_zero[0 := w]) \<le> 1"
    using bn_used_val(5) [of "bn_zero[0 := w]" 1] bn_val_small unat_u32_lt [of w] by (simp add: BIGNUM_LIMBS_def)
  thus ?thesis by (simp add: BIGNUM_LIMBS_def)
qed

text \<open>Claim C37. Both modular powers are exact: with the modulus above 1 and the top limb of its array zero
  (RSA-4096 and below), bn_modpow and bn_modpow_u32exp return the limbs of base ^ exp mod m, the base not having
  to be reduced, and the result is below the modulus.\<close>

theorem bn_modpow_exact:
  assumes "length base = BIGNUM_LIMBS" "length exp = BIGNUM_LIMBS" "length m = BIGNUM_LIMBS"
    and "bn_used_limbs m < BIGNUM_LIMBS" "1 < bn_val m"
  shows "bn_val (bn_modpow base exp m) = bn_val base ^ bn_val exp mod bn_val m \<and>
    bn_val (bn_modpow_u32exp base e m) = bn_val base ^ unat e mod bn_val m \<and>
    bn_val (bn_modpow base exp m) < bn_val m"
  using assms(5) bn_modpow_val [OF assms] bn_modpow_u32exp_val(1) [OF assms(1,3,4,5), of e] by simp

lemma bn_modpow_exact_witness:
  "bn_val (bn_modpow (bn_zero[0 := 10]) (bn_zero[0 := 5]) (bn_zero[0 := 7])) = 5 \<and>
   bn_val (bn_modpow_u32exp (bn_zero[0 := 10]) 3 (bn_zero[0 := 7])) = 6"
  using bn_modpow_exact [OF bn_val_small(2) bn_val_small(2) bn_val_small(2) bn_used_small, of 7 10 5 3]
  unfolding bn_val_small by simp

end
