(* ===== verification/X25519.thy ===== *)
theory X25519
  imports Bignum
begin

text \<open>
  x25519.h: the Diffie-Hellman function of Curve25519 on the limbs of bignum.h. The loop with its delayed swaps and its
  field arithmetic is translated as it stands; the theorem relates it to the ladder stated by recursion on the scalar,
  over the integers modulo 2^255 - 19.
\<close>

definition X25519_A24_CONSTANT :: u32 where "X25519_A24_CONSTANT = 121665"

definition x25519_prime :: bignum where
  "x25519_prime = bn_from_bytes_be ([0x7f] @ replicate 30 0xff @ [0xed])"

definition x25519_clamp :: "bytes \<Rightarrow> bytes" where
  "x25519_clamp k =
     (let k = k[0 := k ! 0 AND 248]; k = k[31 := k ! 31 AND 127] in k[31 := k ! 31 OR 64])"

text \<open>The points of the ladder: x2, z2, x3, z3 and the pending swap.\<close>

record x25519_lad =
  la_x2 :: bignum
  la_z2 :: bignum
  la_x3 :: bignum
  la_z3 :: bignum
  la_swap :: int

definition x25519_cswap :: "x25519_lad \<Rightarrow> x25519_lad" where
  "x25519_cswap l =
     (if la_swap l \<noteq> 0 then l\<lparr>la_x2 := la_x3 l, la_x3 := la_x2 l, la_z2 := la_z3 l, la_z3 := la_z2 l\<rparr> else l)"

text \<open>The field operations of one turn.\<close>

definition x25519_curve :: "bignum \<Rightarrow> bignum \<Rightarrow> x25519_lad \<Rightarrow> x25519_lad" where
  "x25519_curve p x1 l =
     (let A = bn_addmod (la_x2 l) (la_z2 l) p;
          AA = bn_mulmod A A p;
          B = bn_submod (la_x2 l) (la_z2 l) p;
          BB = bn_mulmod B B p;
          E = bn_submod AA BB p;
          C = bn_addmod (la_x3 l) (la_z3 l) p;
          D = bn_submod (la_x3 l) (la_z3 l) p;
          DA = bn_mulmod D A p;
          CB = bn_mulmod C B p;
          sum_da_cb = bn_addmod DA CB p;
          x3 = bn_mulmod sum_da_cb sum_da_cb p;
          diff_da_cb = bn_submod DA CB p;
          diff_sq = bn_mulmod diff_da_cb diff_da_cb p;
          z3 = bn_mulmod x1 diff_sq p;
          x2 = bn_mulmod AA BB p;
          a24_bn = bn_zero[0 := X25519_A24_CONSTANT];
          a24_e = bn_mulmod a24_bn E p;
          aa_plus_a24e = bn_addmod AA a24_e p;
          z2 = bn_mulmod E aa_plus_a24e p
      in l\<lparr>la_x2 := x2, la_z2 := z2, la_x3 := x3, la_z3 := z3\<rparr>)"

definition x25519_turn :: "bytes \<Rightarrow> bignum \<Rightarrow> bignum \<Rightarrow> nat \<Rightarrow> x25519_lad \<Rightarrow> x25519_lad" where
  "x25519_turn k p x1 t l =
     (let kt = uint (drop_bit (t mod 8) (k ! (t div 8)) AND 1);
          l = x25519_cswap (l\<lparr>la_swap := la_swap l XOR kt\<rparr>)
      in x25519_curve p x1 (l\<lparr>la_swap := kt\<rparr>))"

definition x25519_scalarmult :: "bytes \<Rightarrow> bytes \<Rightarrow> bytes" where
  "x25519_scalarmult scalar u_point =
     (let k = x25519_clamp (take 32 scalar);
          p = x25519_prime;
          u_be = map (\<lambda>i. u_point ! (31 - i)) [0..<32];
          x1 = bn_from_bytes_be u_be;
          l = \<lparr>la_x2 = bn_zero[0 := 1], la_z2 = bn_zero, la_x3 = x1, la_z3 = bn_zero[0 := 1], la_swap = 0\<rparr>;
          l = x25519_cswap (fold (x25519_turn k p x1) (rev [0..<255]) l);
          p_minus_2 = bn_sub p (bn_zero[0 := 2]);
          z2_inv = bn_modpow (la_z2 l) p_minus_2 p;
          result_be = bn_to_bytes_be (bn_mulmod (la_x2 l) z2_inv p) 32
      in map (\<lambda>i. result_be ! (31 - i)) [0..<32])"

definition x25519_derive_public :: "bytes \<Rightarrow> bytes" where
  "x25519_derive_public private_key = x25519_scalarmult private_key (9 # replicate 31 0)"

subsection \<open>The reference ladder\<close>

text \<open>The curve's x-coordinates as fractions X/Z over the integers modulo P: doubling and differential addition, and the
  pair (n times the point, n + 1 times the point) by recursion on n. Nothing is swapped and nothing is pending.\<close>

definition P25519 :: int where "P25519 = 2 ^ 255 - 19"

definition mont_dbl :: "int \<times> int \<Rightarrow> int \<times> int" where
  "mont_dbl p = (case p of (x, z) \<Rightarrow>
     (((x + z) ^ 2 * (x - z) ^ 2) mod P25519,
      (((x + z) ^ 2 - (x - z) ^ 2) * ((x + z) ^ 2 + 121665 * ((x + z) ^ 2 - (x - z) ^ 2))) mod P25519))"

definition mont_add :: "int \<Rightarrow> int \<times> int \<Rightarrow> int \<times> int \<Rightarrow> int \<times> int" where
  "mont_add u p q = (case p of (x2, z2) \<Rightarrow> case q of (x3, z3) \<Rightarrow>
     (((x3 - z3) * (x2 + z2) + (x3 + z3) * (x2 - z2)) ^ 2 mod P25519,
      (u * ((x3 - z3) * (x2 + z2) - (x3 + z3) * (x2 - z2)) ^ 2) mod P25519))"

fun mont :: "int \<Rightarrow> nat \<Rightarrow> (int \<times> int) \<times> (int \<times> int)" where
  "mont u n =
     (if n = 0 then ((1, 0), (u mod P25519, 1))
      else let pq = mont u (n div 2); s = mont_add u (fst pq) (snd pq)
           in if even n then (mont_dbl (fst pq), s) else (s, mont_dbl (snd pq)))"

declare mont.simps [simp del]

lemma mont_add_sym: "mont_add u p q = mont_add u q p"
  by (cases p; cases q; simp add: mont_add_def) (simp add: algebra_simps power2_eq_square)


subsection \<open>The field operations on values\<close>

lemma prime_val: "bn_val x25519_prime = 2 ^ 255 - 19" "length x25519_prime = BIGNUM_LIMBS"
  "bn_used_limbs x25519_prime < BIGNUM_LIMBS" "int (bn_val x25519_prime) = P25519"
proof -
  let ?b = "[0x7f] @ replicate 30 0xff @ [0xed] :: bytes"
  have l: "length ?b \<le> 4 * BIGNUM_LIMBS" by (simp add: BIGNUM_LIMBS_def)
  have ff: "le_val (replicate n 0xff @ ys) + 1 = 2 ^ (8 * n) * (le_val ys + 1)" for n ys
  proof (induction n)
    case (Suc n)
    have "unat (0xff :: u8) = 255" by simp
    thus ?case using Suc by (simp add: power_add algebra_simps del: unat_numeral)
  qed simp
  have "rev ?b = 0xed # replicate 30 0xff @ [0x7f]" by simp
  hence "os2ip ?b = 237 + 256 * le_val (replicate 30 0xff @ [0x7f])" by (simp only: os2ip_def) simp
  hence o: "os2ip ?b = 2 ^ 255 - 19" using ff [of 30 "[0x7f]"] by simp
  show v: "bn_val x25519_prime = 2 ^ 255 - 19" and n: "length x25519_prime = BIGNUM_LIMBS"
    using bn_from_bytes_val [OF l] o by (simp_all only: x25519_prime_def)
  have "bn_used_limbs x25519_prime \<le> 8" by (rule bn_used_val(5) [OF n]) (simp_all add: v BIGNUM_LIMBS_def)
  thus "bn_used_limbs x25519_prime < BIGNUM_LIMBS" by (simp add: BIGNUM_LIMBS_def)
  show "int (bn_val x25519_prime) = P25519" by (simp add: v P25519_def)
qed

text \<open>A field element: the limbs of a number below 2^256, and one that is reduced.\<close>

definition fe :: "bignum \<Rightarrow> int" where "fe a = int (bn_val a)"

definition fe_ok :: "bignum \<Rightarrow> bool" where "fe_ok a \<longleftrightarrow> length a = BIGNUM_LIMBS \<and> fe a < 2 ^ 256"

definition fe_red :: "bignum \<Rightarrow> bool" where "fe_red a \<longleftrightarrow> length a = BIGNUM_LIMBS \<and> fe a < P25519"

lemma fe_redD: "fe_red a \<Longrightarrow> fe_ok a" by (simp add: fe_red_def fe_ok_def P25519_def)

lemma fe_nonneg: "0 \<le> fe a" by (simp add: fe_def)

lemma fe_mul:
  assumes "length a = BIGNUM_LIMBS" "length b = BIGNUM_LIMBS"
  shows "fe (bn_mulmod a b x25519_prime) = fe a * fe b mod P25519" "fe_red (bn_mulmod a b x25519_prime)"
proof -
  note m = bn_mulmod_val [OF assms prime_val(2,3)]
  have z: "0 < bn_val x25519_prime" by (simp add: prime_val(1))
  show e: "fe (bn_mulmod a b x25519_prime) = fe a * fe b mod P25519"
    using m(1) [OF z] prime_val(4) by (simp add: fe_def of_nat_mod)
  show "fe_red (bn_mulmod a b x25519_prime)" using m(2) [OF z] unfolding fe_red_def e by (simp add: P25519_def)
qed

lemma fe_add:
  assumes "fe_ok a" "fe_ok b"
  shows "fe (bn_addmod a b x25519_prime) mod P25519 = (fe a + fe b) mod P25519" "length (bn_addmod a b x25519_prime) = BIGNUM_LIMBS"
proof -
  have la: "length a = BIGNUM_LIMBS" "length b = BIGNUM_LIMBS" using assms by (simp_all add: fe_ok_def)
  have "int (bn_val a + bn_val b) < int (2 ^ 257)" using assms by (simp add: fe_ok_def fe_def)
  hence "bn_val a + bn_val b < 2 ^ 257" by (simp only: of_nat_less_iff)
  also have "(2 :: nat) ^ 257 \<le> 2 ^ (32 * length a)" unfolding la by (intro power_increasing) (simp_all add: BIGNUM_LIMBS_def)
  finally have s: "bn_val a + bn_val b < 2 ^ (32 * length a)" .
  note v = bn_add_val [of a b, OF _ s]
  have l: "length (bn_add a b) = BIGNUM_LIMBS" "bn_val (bn_add a b) = bn_val a + bn_val b" using v la by simp_all
  have "fe (bn_addmod a b x25519_prime) = (if P25519 \<le> fe a + fe b then fe a + fe b - P25519 else fe a + fe b) \<and>
      length (bn_addmod a b x25519_prime) = BIGNUM_LIMBS"
    using bn_cmp_val [OF l(1) prime_val(2)] bn_sub_val [of "bn_add a b" x25519_prime] l prime_val(2,4)
    by (auto simp: bn_addmod_def Let_def fe_def)
  thus "fe (bn_addmod a b x25519_prime) mod P25519 = (fe a + fe b) mod P25519" "length (bn_addmod a b x25519_prime) = BIGNUM_LIMBS"
    by (auto simp: minus_mod_self2)
qed

lemma fe_sub:
  assumes "fe_ok a" "fe_red b"
  shows "fe (bn_submod a b x25519_prime) mod P25519 = (fe a - fe b) mod P25519" "length (bn_submod a b x25519_prime) = BIGNUM_LIMBS"
proof -
  have la: "length a = BIGNUM_LIMBS" "length b = BIGNUM_LIMBS" using assms by (simp_all add: fe_ok_def fe_red_def)
  have lt: "bn_val b < bn_val x25519_prime" using assms(2) prime_val(4) by (simp add: fe_red_def fe_def)
  have "fe (bn_submod a b x25519_prime) = (if bn_val b \<le> bn_val a then fe a - fe b else fe a - fe b + P25519) \<and>
      length (bn_submod a b x25519_prime) = BIGNUM_LIMBS"
  proof (cases "bn_val b \<le> bn_val a")
    case True
    thus ?thesis using bn_cmp_val [OF la] bn_sub_val [of a b] la by (simp add: bn_submod_def fe_def of_nat_diff)
  next
    case False
    have d: "bn_val (bn_sub b a) = bn_val b - bn_val a" "length (bn_sub b a) = BIGNUM_LIMBS"
      using bn_sub_val [of b a] False la by simp_all
    have "bn_val (bn_sub x25519_prime (bn_sub b a)) = bn_val x25519_prime - (bn_val b - bn_val a)"
      "length (bn_sub x25519_prime (bn_sub b a)) = BIGNUM_LIMBS"
      using bn_sub_val [of x25519_prime "bn_sub b a"] d lt prime_val(2) by simp_all
    moreover have "bn_submod a b x25519_prime = bn_sub x25519_prime (bn_sub b a)"
      using False bn_cmp_val [OF la] by (simp add: bn_submod_def)
    ultimately show ?thesis using False lt prime_val(4) by (simp add: fe_def of_nat_diff)
  qed
  thus "fe (bn_submod a b x25519_prime) mod P25519 = (fe a - fe b) mod P25519" "length (bn_submod a b x25519_prime) = BIGNUM_LIMBS"
    by (auto simp: mod_add_self2)
qed


text \<open>The same through residues: what an element stands for is its value modulo P.\<close>

definition fe_is :: "bignum \<Rightarrow> int \<Rightarrow> bool" where "fe_is a x \<longleftrightarrow> fe a mod P25519 = x mod P25519"

lemma fe_is_self: "fe_is a (fe a)" by (simp add: fe_is_def)

lemma fe_mul_is:
  assumes "length a = BIGNUM_LIMBS" "length b = BIGNUM_LIMBS" "fe_is a x" "fe_is b y"
  shows "fe (bn_mulmod a b x25519_prime) = x * y mod P25519" "fe_is (bn_mulmod a b x25519_prime) (x * y)"
    "fe_red (bn_mulmod a b x25519_prime)" "length (bn_mulmod a b x25519_prime) = BIGNUM_LIMBS"
  using fe_mul [OF assms(1,2)] mod_mult_cong [of "fe a" P25519 x "fe b" y] assms(3,4)
  by (simp_all add: fe_is_def fe_red_def)

lemma fe_add_is:
  assumes "fe_ok a" "fe_ok b" "fe_is a x" "fe_is b y"
  shows "fe_is (bn_addmod a b x25519_prime) (x + y)" "length (bn_addmod a b x25519_prime) = BIGNUM_LIMBS"
  using fe_add [OF assms(1,2)] mod_add_cong [of "fe a" P25519 x "fe b" y] assms(3,4) by (simp_all add: fe_is_def)

lemma fe_sub_is:
  assumes "fe_ok a" "fe_red b" "fe_is a x" "fe_is b y"
  shows "fe_is (bn_submod a b x25519_prime) (x - y)" "length (bn_submod a b x25519_prime) = BIGNUM_LIMBS"
  using fe_sub [OF assms(1,2)] mod_diff_cong [of "fe a" P25519 x "fe b" y] assms(3,4) by (simp_all add: fe_is_def)

lemma fe_small: "fe (bn_zero[0 := w]) = int (unat w)" "length (bn_zero[0 := w]) = BIGNUM_LIMBS" "fe_red (bn_zero[0 := w])"
proof -
  show v: "fe (bn_zero[0 := w]) = int (unat w)" and n: "length (bn_zero[0 := w]) = BIGNUM_LIMBS"
    using bn_val_small [of w] by (simp_all add: fe_def)
  have "int (unat w) < 4294967296" using unat_u32_lt [of w] by linarith
  hence "int (unat w) < P25519" unfolding P25519_def by (rule less_trans) simp
  thus "fe_red (bn_zero[0 := w])" using v n by (simp add: fe_red_def)
qed

definition lad_ok :: "x25519_lad \<Rightarrow> bool" where
  "lad_ok l \<longleftrightarrow> fe_ok (la_x2 l) \<and> fe_red (la_z2 l) \<and> fe_ok (la_x3 l) \<and> fe_red (la_z3 l)"

definition pt2 :: "x25519_lad \<Rightarrow> int \<times> int" where "pt2 l = (fe (la_x2 l), fe (la_z2 l))"
definition pt3 :: "x25519_lad \<Rightarrow> int \<times> int" where "pt3 l = (fe (la_x3 l), fe (la_z3 l))"

lemma curve_val:
  assumes ok: "lad_ok l" and x1: "length x1 = BIGNUM_LIMBS"
  shows "lad_ok (x25519_curve x25519_prime x1 l) \<and> pt2 (x25519_curve x25519_prime x1 l) = mont_dbl (pt2 l) \<and>
    pt3 (x25519_curve x25519_prime x1 l) = mont_add (fe x1) (pt2 l) (pt3 l) \<and> la_swap (x25519_curve x25519_prime x1 l) = la_swap l"
proof -
  let ?p = x25519_prime
  define x2 where "x2 = la_x2 l"
  define z2 where "z2 = la_z2 l"
  define x3 where "x3 = la_x3 l"
  define z3 where "z3 = la_z3 l"
  note d = x2_def z2_def x3_def z3_def
  have o: "fe_ok x2" "fe_red z2" "fe_ok x3" "fe_red z3" using ok by (simp_all add: lad_ok_def d)
  note oz = fe_redD [OF o(2)] fe_redD [OF o(4)]
  note A = fe_add_is [OF o(1) oz(1) fe_is_self fe_is_self]
  note B = fe_sub_is [OF o(1,2) fe_is_self fe_is_self]
  note C = fe_add_is [OF o(3) oz(2) fe_is_self fe_is_self]
  note D = fe_sub_is [OF o(3,4) fe_is_self fe_is_self]
  note AA = fe_mul_is [OF A(2) A(2) A(1) A(1)]
  note BB = fe_mul_is [OF B(2) B(2) B(1) B(1)]
  note E = fe_sub_is [OF fe_redD [OF AA(3)] BB(3) AA(2) BB(2)]
  note DA = fe_mul_is [OF D(2) A(2) D(1) A(1)]
  note CB = fe_mul_is [OF C(2) B(2) C(1) B(1)]
  note S = fe_add_is [OF fe_redD [OF DA(3)] fe_redD [OF CB(3)] DA(2) CB(2)]
  note X3 = fe_mul_is [OF S(2) S(2) S(1) S(1)]
  note T = fe_sub_is [OF fe_redD [OF DA(3)] CB(3) DA(2) CB(2)]
  note TT = fe_mul_is [OF T(2) T(2) T(1) T(1)]
  note Z3 = fe_mul_is [OF x1 TT(4) fe_is_self TT(2)]
  note X2 = fe_mul_is [OF AA(4) BB(4) AA(2) BB(2)]
  have a24: "fe_is (bn_zero[0 := X25519_A24_CONSTANT]) 121665" by (simp add: fe_is_def fe_small X25519_A24_CONSTANT_def)
  note G = fe_mul_is [OF fe_small(2) E(2) a24 E(1)]
  note H = fe_add_is [OF fe_redD [OF AA(3)] fe_redD [OF G(3)] AA(2) G(2)]
  note Z2 = fe_mul_is [OF E(2) H(2) E(1) H(1)]
  show ?thesis unfolding x25519_curve_def Let_def d [symmetric] using X2(1,3) Z2(1,3) X3(1,3) Z3(1,3) fe_redD [OF X2(3)] fe_redD [OF X3(3)]
    by (simp add: lad_ok_def pt2_def pt3_def mont_dbl_def mont_add_def power2_eq_square flip: d)
qed


subsection \<open>The turns\<close>

definition prmod :: "int \<times> int \<Rightarrow> int \<times> int" where "prmod p = (fst p mod P25519, snd p mod P25519)"

lemma sub_mod_cong: "(x mod m - y mod m) mod m = (x - y) mod m" for x y m :: int
  by (rule mod_diff_eq)

lemma mont_dbl_mod: "mont_dbl (prmod p) = mont_dbl p"
proof (cases p)
  case (Pair x z)
  let ?x = "x mod P25519" and ?z = "z mod P25519"
  have s: "(?x + ?z) ^ 2 mod P25519 = (x + z) ^ 2 mod P25519" "(?x - ?z) ^ 2 mod P25519 = (x - z) ^ 2 mod P25519"
    using power_mod [of "?x + ?z" P25519 2] power_mod [of "?x - ?z" P25519 2] power_mod [of "x + z" P25519 2] power_mod [of "x - z" P25519 2]
      mod_add_eq [of x P25519 z] mod_diff_eq [of x P25519 z] by metis+
  note e = mod_diff_cong [OF s]
  show ?thesis unfolding Pair prmod_def mont_dbl_def
    using mod_mult_cong [OF s] mod_mult_cong [OF e mod_add_cong [OF s(1) mod_mult_cong [OF refl [of "121665 mod P25519"] e]]]
    by simp
qed

lemma mont_add_mod: "mont_add u (prmod p) (prmod q) = mont_add (u mod P25519) p q" "mont_add (u mod P25519) p q = mont_add u p q"
proof -
  obtain x z x3 z3 where pq: "p = (x, z)" "q = (x3, z3)" by (cases p; cases q)
  let ?m = "\<lambda>x. x mod P25519"
  have a: "(?m x + ?m z) mod P25519 = (x + z) mod P25519" "(?m x - ?m z) mod P25519 = (x - z) mod P25519"
    "(?m x3 + ?m z3) mod P25519 = (x3 + z3) mod P25519" "(?m x3 - ?m z3) mod P25519 = (x3 - z3) mod P25519"
    by (rule mod_add_eq mod_diff_eq)+
  note da = mod_mult_cong [OF a(4) a(1)] and cb = mod_mult_cong [OF a(3) a(2)]
  note su = mod_add_cong [OF da cb] and di = mod_diff_cong [OF da cb]
  show "mont_add (u mod P25519) p q = mont_add u p q" unfolding pq mont_add_def by (simp add: mod_mult_left_eq)
  moreover have "mont_add u (prmod p) (prmod q) = mont_add u p q" unfolding pq prmod_def mont_add_def power2_eq_square
    using mod_mult_cong [OF su su] mod_mult_cong [OF refl [of "u mod P25519"] mod_mult_cong [OF di di]] by simp
  ultimately show "mont_add u (prmod p) (prmod q) = mont_add (u mod P25519) p q" by simp
qed

lemma prmod_mont: "prmod (fst (mont u n)) = fst (mont u n)" "prmod (snd (mont u n)) = snd (mont u n)"
proof -
  have r: "prmod (mont_dbl p) = mont_dbl p" "prmod (mont_add u p q) = mont_add u p q" for p q
    by (cases p; cases q; simp add: prmod_def mont_dbl_def mont_add_def)+
  show "prmod (fst (mont u n)) = fst (mont u n)" "prmod (snd (mont u n)) = snd (mont u n)"
    by (subst (1 2) mont.simps, simp add: r Let_def, simp add: prmod_def P25519_def)+
qed

text \<open>The state of the loop against the pair of the reference: exchanged while a swap is pending.\<close>

definition lad_rel :: "int \<Rightarrow> nat \<Rightarrow> x25519_lad \<Rightarrow> bool" where
  "lad_rel u n l \<longleftrightarrow> lad_ok l \<and>
     (if la_swap l = 0 then (prmod (pt2 l), prmod (pt3 l)) = mont u n
      else la_swap l = 1 \<and> (prmod (pt3 l), prmod (pt2 l)) = mont u n)"

lemma mont_bit: "n \<noteq> 0 \<or> b \<Longrightarrow> mont u (2 * n + of_bool b) = (let (p, q) = mont u n in
    if b then (mont_add u p q, mont_dbl q) else (mont_dbl p, mont_add u p q))"
  by (subst mont.simps) (auto simp: Let_def case_prod_beta)

lemma turn_val:
  assumes r: "lad_rel (fe x1) n l" and x1: "length x1 = BIGNUM_LIMBS" and b: "bit (k ! (t div 8)) (t mod 8) = b"
    and nz: "n \<noteq> 0 \<or> b"
  shows "lad_rel (fe x1) (2 * n + of_bool b) (x25519_turn k x25519_prime x1 t l)"
proof -
  have kt: "uint (drop_bit (t mod 8) (k ! (t div 8)) AND 1) = of_bool b"
    using b by (simp add: and_one_eq mod_2_eq_odd bit_iff_odd_drop_bit)
  define c where "c = (x25519_cswap (l\<lparr>la_swap := la_swap l XOR of_bool b\<rparr>))\<lparr>la_swap := of_bool b\<rparr>"
  have t: "x25519_turn k x25519_prime x1 t l = x25519_curve x25519_prime x1 c" by (simp add: x25519_turn_def Let_def kt c_def)
  have sw: "la_swap l = 0 \<or> la_swap l = 1" and ok: "lad_ok l" using r by (auto simp: lad_rel_def split: if_splits)
  have c: "lad_ok c" "la_swap c = of_bool b"
    "(if b then (prmod (pt3 c), prmod (pt2 c)) else (prmod (pt2 c), prmod (pt3 c))) = mont (fe x1) n"
    using sw ok r by (cases b; auto simp: c_def x25519_cswap_def lad_ok_def lad_rel_def pt2_def pt3_def fe_redD)+
  note v = curve_val [OF c(1) x1]
  have s: "mont_add (fe x1) (prmod p) (prmod q) = mont_add (fe x1) p q" for p q using mont_add_mod by simp
  have d: "prmod (mont_dbl p) = mont_dbl p" "prmod (mont_add u p q) = mont_add u p q" for p q u
    by (cases p; cases q; simp add: prmod_def mont_dbl_def mont_add_def)+
  show ?thesis unfolding t lad_rel_def mont_bit [OF nz] using v c(2) c(3) [symmetric] mont_add_sym [of "fe x1" "pt3 c" "pt2 c"]
    by (cases b) (simp_all add: s d mont_dbl_mod)
qed


subsection \<open>The scalar\<close>

lemma length_clamp [simp]: "length (x25519_clamp k) = length k"
  by (simp add: x25519_clamp_def Let_def)

lemma clamp_bit:
  assumes "length k = 32" "i < 32" "j < 8"
  shows "bit (x25519_clamp k ! i) j \<longleftrightarrow> 8 * i + j = 254 \<or> 3 \<le> 8 * i + j \<and> 8 * i + j < 254 \<and> bit (k ! i) j"
proof -
  have c: "bit (248 :: u8) j = (3 \<le> j)" "bit (127 :: u8) j = (j \<noteq> 7)" "bit (64 :: u8) j = (j = 6)"
    using assms(3) unfolding less_8 by auto
  consider "i = 0" | "i = 31" | "i \<noteq> 0" "i \<noteq> 31" by blast
  thus ?thesis
    by cases (use assms c in \<open>auto simp: x25519_clamp_def Let_def bit_and_iff bit_or_iff\<close>)
qed

lemma clamp_val:
  assumes "length k = 32"
  shows "le_val (x25519_clamp k) = 2 ^ 254 + 8 * (le_val k div 8 mod 2 ^ 251)"
proof -
  let ?r = "push_bit 3 (take_bit 251 (drop_bit 3 (le_val k)))"
  have p: "bit (2 ^ m :: nat) n \<longleftrightarrow> n = m" for m n by (auto simp: bit_exp_iff)
  have "le_val (x25519_clamp k) = 2 ^ 254 OR ?r"
  proof (rule bit_eqI)
    fix n :: nat
    have n: "8 * (n div 8) + n mod 8 = n" by simp
    have m: "n mod 8 < 8" by simp
    show "bit (le_val (x25519_clamp k)) n = bit (2 ^ 254 OR ?r) n"
    proof (cases "n div 8 < 32")
      case True
      thus ?thesis using clamp_bit [OF assms True m] assms unfolding le_val_bit bit_or_iff p n length_clamp
        by (auto simp: le_val_bit bit_push_bit_iff bit_take_bit_iff bit_drop_bit_eq)
    next
      case False
      hence "254 < n" by linarith
      thus ?thesis using False assms unfolding le_val_bit bit_or_iff p length_clamp
        by (auto simp: le_val_bit bit_push_bit_iff bit_take_bit_iff bit_drop_bit_eq)
    qed
  qed
  also have "\<dots> = 2 ^ 254 + ?r"
  proof (rule disjunctive_add_eq_or [symmetric], rule bit_eqI)
    fix n show "bit (2 ^ 254 AND ?r) n = bit 0 n" unfolding bit_and_iff p by (auto simp: bit_push_bit_iff bit_take_bit_iff)
  qed
  finally show ?thesis by (simp add: push_bit_eq_mult take_bit_eq_mod drop_bit_eq_div mult.commute)
qed

lemma bn_modpow_length:
  assumes "length b = BIGNUM_LIMBS" "length e = BIGNUM_LIMBS"
  shows "length (bn_modpow b e x25519_prime) = BIGNUM_LIMBS"
proof -
  have m0: "0 < bn_val x25519_prime" by (simp add: prime_val(1))
  have st: "length (bn_pow_step (bn_reduce_base b x25519_prime) x25519_prime c a) = BIGNUM_LIMBS" if "length a = BIGNUM_LIMBS" for a c
    using bn_pow_step_val [OF bn_reduce_base_val(2) [OF assms(1) prime_val(2,3) m0] that prime_val(2,3) m0] by blast
  have "length (fold (\<lambda>i. bn_pow_step (bn_reduce_base b x25519_prime) x25519_prime (c i)) ns a) = BIGNUM_LIMBS"
    if "length a = BIGNUM_LIMBS" for c ns a
    using that by (induction ns arbitrary: a) (simp_all add: st)
  note g = this [OF bn_val_small(2)]
  show ?thesis unfolding bn_modpow_def Let_def by (rule g)
qed

lemma cswap_rel: "lad_rel u n l \<Longrightarrow> lad_ok (x25519_cswap l) \<and> prmod (pt2 (x25519_cswap l)) = fst (mont u n)"
  by (cases "mont u n") (auto simp: x25519_cswap_def lad_rel_def lad_ok_def pt2_def pt3_def fe_redD split: if_splits)

lemma fold_val:
  assumes k: "length k = 32" "le_val k < 2 ^ 255" "bit (le_val k) 254" and x1: "length x1 = BIGNUM_LIMBS"
    and l: "lad_rel (fe x1) 0 l" and t: "t \<le> 255"
  shows "lad_rel (fe x1) (le_val k div 2 ^ t) (fold (x25519_turn k x25519_prime x1) (rev [t..<255]) l)"
  using t
proof (induction rule: inc_induct)
  case base
  show ?case using k(2) l by simp
next
  case (step t)
  have u: "rev [t..<255] = rev [Suc t..<255] @ [t]" using step(2) by (simp add: upt_conv_Cons)
  have b: "bit (k ! (t div 8)) (t mod 8) = bit (le_val k) t" unfolding le_val_bit using k(1) step(2) by auto
  have nz: "le_val k div 2 ^ Suc t \<noteq> 0 \<or> bit (le_val k) t"
  proof (cases "t = 254")
    case True
    thus ?thesis using k(3) by simp
  next
    case False
    hence "Suc t + (254 - Suc t) = 254" using step(2) by linarith
    hence "bit (drop_bit (Suc t) (le_val k)) (254 - Suc t)" using k(3) by (simp only: bit_drop_bit_eq comp_apply)
    hence "bit (le_val k div 2 ^ Suc t) (254 - Suc t)" by (simp only: drop_bit_eq_div)
    hence "le_val k div 2 ^ Suc t \<noteq> 0" by (metis bit_0_eq bot_apply bot_bool_def)
    thus ?thesis by blast
  qed
  show ?case using turn_val [OF step(3) x1 b nz] unfolding bn_val_below_bit u fold_append by simp
qed

lemma rev_be: "map (\<lambda>i. bs ! (31 - i)) [0..<32] = rev bs" if "length bs = 32"
  using that by (intro nth_equalityI) (simp_all add: rev_nth)

subsection \<open>The property\<close>

text \<open>Claim C36. x25519_scalarmult is the function of RFC 7748 on the decoded scalar, for every scalar and every 32-byte point, also
  a point at or above the prime: with K the clamped scalar (bits 0 to 2 and 255 cleared, bit 254 set), the result is the
  32-byte little-endian form of X / Z mod 2^255 - 19, computed as X times Z to the power P - 2, where (X, Z) is the K-fold
  point that the reference ladder gives. All 256 bits of the point count.\<close>

theorem x25519_exact:
  assumes "length scalar = 32" "length u = 32"
  shows "length (x25519_scalarmult scalar u) = 32 \<and>
    int (le_val (x25519_scalarmult scalar u)) =
      (let K = 2 ^ 254 + 8 * (le_val scalar div 8 mod 2 ^ 251); (X, Z) = fst (mont (int (le_val u)) K)
       in X * Z ^ (2 ^ 255 - 21) mod P25519)"
proof -
  let ?k = "x25519_clamp scalar" and ?p = x25519_prime and ?x1 = "bn_from_bytes_be (rev u)"
  define K where "K = 2 ^ 254 + 8 * (le_val scalar div 8 mod 2 ^ 251)"
  define l0 where "l0 = \<lparr>la_x2 = bn_zero[0 := 1], la_z2 = bn_zero, la_x3 = ?x1, la_z3 = bn_zero[0 := 1], la_swap = 0\<rparr>"
  define l where "l = x25519_cswap (fold (x25519_turn ?k ?p ?x1) (rev [0..<255]) l0)"
  have K: "le_val ?k = K" unfolding K_def by (rule clamp_val [OF assms(1)])
  have "K < 2 ^ 255" unfolding K_def using mod_less_divisor [of "2 ^ 251" "le_val scalar div 8"] by simp
  moreover have "bit (le_val ?k) 254" using clamp_bit [of scalar 31 6] assms(1) by (simp add: le_val_bit)
  ultimately have kk: "length ?k = 32" "le_val ?k < 2 ^ 255" "bit (le_val ?k) 254" using K assms(1) by simp_all
  have lu: "length (rev u) \<le> 4 * BIGNUM_LIMBS" using assms(2) by (simp add: BIGNUM_LIMBS_def)
  have x1: "fe ?x1 = int (le_val u)" "length ?x1 = BIGNUM_LIMBS"
    using bn_from_bytes_val [OF lu] by (simp_all add: fe_def os2ip_def)
  have "os2ip (rev u) < 2 ^ 256" using os2ip_lt [of "rev u"] assms(2) by simp
  hence "int (le_val u) < 2 ^ 256" by (simp add: os2ip_def)
  hence "fe_ok ?x1" using x1 by (simp add: fe_ok_def)
  moreover have z: "fe bn_zero = 0" "fe_red bn_zero" by (simp_all add: fe_def fe_red_def bn_val_zero P25519_def)
  ultimately have "lad_rel (fe ?x1) 0 l0"
    using fe_small(1,3) [of 1] by (simp add: lad_rel_def lad_ok_def l0_def fe_redD pt2_def pt3_def prmod_def mont.simps P25519_def)
  note f = fold_val [OF kk x1(2) this, of 0, simplified, unfolded K]
  have r: "lad_ok l" "prmod (pt2 l) = fst (mont (fe ?x1) K)"
    using cswap_rel [OF f] by (simp_all add: l_def)
  have e: "x25519_scalarmult scalar u = rev (bn_to_bytes_be (bn_mulmod (la_x2 l) (bn_modpow (la_z2 l) (bn_sub ?p (bn_zero[0 := 2])) ?p) ?p) 32)"
    using assms rev_be [OF assms(2)] rev_be [of "bn_to_bytes_be a 32" for a] by (simp add: x25519_scalarmult_def Let_def l_def l0_def bn_to_bytes_be_def)
  let ?m2 = "bn_sub ?p (bn_zero[0 := 2])"
  have two: "bn_val (bn_zero[0 := 2]) = 2" "length (bn_zero[0 := 2] :: bignum) = BIGNUM_LIMBS" using bn_val_small [of 2] by simp_all
  have m2: "bn_val ?m2 = 2 ^ 255 - 21" "length ?m2 = BIGNUM_LIMBS"
    using bn_sub_val [of ?p "bn_zero[0 := 2]"] two prime_val(1,2) by simp_all
  have lz: "length (la_x2 l) = BIGNUM_LIMBS" "length (la_z2 l) = BIGNUM_LIMBS" using r(1) by (simp_all add: lad_ok_def fe_ok_def fe_red_def)
  have p1: "1 < bn_val ?p" by (simp add: prime_val(1))
  have iv: "fe (bn_modpow (la_z2 l) ?m2 ?p) = fe (la_z2 l) ^ (2 ^ 255 - 21) mod P25519"
    using bn_modpow_val [OF lz(2) m2(2) prime_val(2,3) p1] m2(1) prime_val(4) by (simp add: fe_def of_nat_mod)
  let ?res = "bn_mulmod (la_x2 l) (bn_modpow (la_z2 l) ?m2 ?p) ?p"
  note res = fe_mul [OF lz(1) bn_modpow_length [OF lz(2) m2(2)]]
  obtain X Z where XZ: "fst (mont (int (le_val u)) K) = (X, Z)" by fastforce
  have xz: "fe (la_x2 l) mod P25519 = X" "fe (la_z2 l) mod P25519 = Z" using r(2) XZ x1(1) by (simp_all add: prmod_def pt2_def)
  have "fe ?res = X * Z ^ (2 ^ 255 - 21) mod P25519"
    unfolding res(1) iv xz [symmetric] by (intro mod_mult_cong) (simp_all only: mod_mod_trivial power_mod)
  moreover have "bn_val ?res < 2 ^ (8 * 32)" using res(2) by (simp add: fe_red_def fe_def P25519_def)
  ultimately have "int (os2ip (bn_to_bytes_be ?res 32)) = X * Z ^ (2 ^ 255 - 21) mod P25519"
    using bn_to_bytes_val(1) [of ?res 32] res(2) by (simp add: fe_red_def fe_def)
  thus ?thesis unfolding e K_def [symmetric] Let_def XZ prod.case os2ip_def by (simp add: bn_to_bytes_be_def)
qed

lemma x25519_exact_witness:
  "length (x25519_scalarmult (replicate 32 7) (replicate 32 0)) = 32 \<and> le_val (x25519_scalarmult (replicate 32 7) (replicate 32 0)) = 0"
proof -
  have a: "le_val (replicate 32 0) = 0" by (simp add: numeral_eq_Suc)
  have z: "snd (fst (mont 0 n)) = 0" for n
  proof (induction n rule: less_induct)
    case (less n)
    have "snd (fst (mont 0 (n div 2))) = 0" if "n \<noteq> 0" using less [of "n div 2"] that by simp
    thus ?case by (subst mont.simps) (auto simp: Let_def mont_dbl_def mont_add_def split: prod.splits)
  qed
  show ?thesis using x25519_exact [of "replicate 32 7" "replicate 32 0"] z a by (simp add: Let_def case_prod_beta power_0_left)
qed

end
