(* ===== verification/Pkcs1.thy ===== *)
theory Pkcs1
  imports Sha2 Bignum
begin

text \<open>
  pkcs1.h: RSA with PKCS #1 v1.5 padding, the signature check used by the certificate and the handshake code and the
  padding of a secret for the server's key. Buffers are byte lists; what the two block buffers of the hash contexts
  and the scratch block hold before the call is an argument. The caller's source of random bytes is a stream indexed
  by the number of calls made, and the loop that skips zero bytes has a bound on those calls.
\<close>

definition PKCS1_SHA256_DIGESTINFO_PREFIX :: bytes where
  "PKCS1_SHA256_DIGESTINFO_PREFIX =
     [0x30, 0x31] @ [0x30, 0x0d] @ [0x06, 0x09, 0x60, 0x86, 0x48, 0x01, 0x65, 0x03, 0x04, 0x02, 0x01] @ [0x05, 0x00] @ [0x04, 0x20]"

definition PKCS1_SHA384_DIGESTINFO_PREFIX :: bytes where
  "PKCS1_SHA384_DIGESTINFO_PREFIX =
     [0x30, 0x41] @ [0x30, 0x0d] @ [0x06, 0x09, 0x60, 0x86, 0x48, 0x01, 0x65, 0x03, 0x04, 0x02, 0x02] @ [0x05, 0x00] @ [0x04, 0x30]"

definition PKCS1_SHA512_DIGESTINFO_PREFIX :: bytes where
  "PKCS1_SHA512_DIGESTINFO_PREFIX =
     [0x30, 0x51] @ [0x30, 0x0d] @ [0x06, 0x09, 0x60, 0x86, 0x48, 0x01, 0x65, 0x03, 0x04, 0x02, 0x03] @ [0x05, 0x00] @ [0x04, 0x40]"

definition PKCS1_HASH_SHA256 :: int where "PKCS1_HASH_SHA256 = 1"
definition PKCS1_HASH_SHA384 :: int where "PKCS1_HASH_SHA384 = 2"
definition PKCS1_HASH_SHA512 :: int where "PKCS1_HASH_SHA512 = 3"

text \<open>What the stack held where the hash contexts' block buffers are: one of 64 bytes, one of 128.\<close>

type_synonym hash_stk = "bytes \<times> bytes"

text \<open>The bytes written to out; their number is the digest length returned.\<close>

definition pkcs1_hash :: "hash_stk \<Rightarrow> int \<Rightarrow> bytes \<Rightarrow> bytes" where
  "pkcs1_hash stk hash_id data =
     (if hash_id = PKCS1_HASH_SHA256 then sha256 (fst stk) data
      else if hash_id = PKCS1_HASH_SHA384 then sha384 (snd stk) data
      else if hash_id = PKCS1_HASH_SHA512 then sha512 (snd stk) data
      else [])"

subsection \<open>Checking a signature\<close>

text \<open>while (i < mod_bytes && recovered[i] == 0xFF) i++\<close>

fun pkcs1_skip_ff :: "bytes \<Rightarrow> nat" where
  "pkcs1_skip_ff [] = 0"
| "pkcs1_skip_ff (b # bs) = (if b = 0xFF then Suc (pkcs1_skip_ff bs) else 0)"

text \<open>Everything after the public-key operation.\<close>

definition pkcs1_check_block :: "bytes \<Rightarrow> bytes \<Rightarrow> bytes \<Rightarrow> nat \<Rightarrow> bool" where
  "pkcs1_check_block recovered prefix expected_hash mod_bytes =
     (if mod_bytes < 11 then False
      else if recovered ! 0 \<noteq> 0x00 \<or> recovered ! 1 \<noteq> 0x01 then False
      else let i = 2 + pkcs1_skip_ff (drop 2 recovered) in
        if i < 10 then False
        else if i \<ge> mod_bytes \<or> recovered ! i \<noteq> 0x00 then False
        else let i = i + 1; hash_len = length expected_hash; digestinfo_len = mod_bytes - i in
          if digestinfo_len \<noteq> length prefix + hash_len then False
          else if \<exists>j \<in> set [0..<length prefix]. recovered ! (i + j) \<noteq> prefix ! j then False
          else if \<exists>j \<in> set [0..<hash_len]. recovered ! (i + length prefix + j) \<noteq> expected_hash ! j then False
          else True)"

definition pkcs1_prefix :: "int \<Rightarrow> bytes option" where
  "pkcs1_prefix hash_id =
     (if hash_id = PKCS1_HASH_SHA256 then Some PKCS1_SHA256_DIGESTINFO_PREFIX
      else if hash_id = PKCS1_HASH_SHA384 then Some PKCS1_SHA384_DIGESTINFO_PREFIX
      else if hash_id = PKCS1_HASH_SHA512 then Some PKCS1_SHA512_DIGESTINFO_PREFIX
      else None)"

definition pkcs1_mod_bytes :: "bignum \<Rightarrow> nat" where
  "pkcs1_mod_bytes modulus = nat ((bn_bit_length modulus + 7) div 8)"

definition pkcs1_verify :: "hash_stk \<Rightarrow> int \<Rightarrow> bytes \<Rightarrow> bytes \<Rightarrow> bignum \<Rightarrow> u32 \<Rightarrow> bool" where
  "pkcs1_verify stk hash_id data sig modulus exponent =
     (case pkcs1_prefix hash_id of None \<Rightarrow> False
      | Some prefix \<Rightarrow>
        let mod_bytes = pkcs1_mod_bytes modulus in
        if mod_bytes = 0 \<or> mod_bytes > 512 then False
        else if length sig \<noteq> mod_bytes then False
        else let sig_bn = bn_from_bytes_be sig;
                 recovered_bn = bn_modpow_u32exp sig_bn exponent modulus;
                 recovered = bn_to_bytes_be recovered_bn mod_bytes
             in pkcs1_check_block recovered prefix (pkcs1_hash stk hash_id data) mod_bytes)"

definition pkcs1_verify_sha256 :: "hash_stk \<Rightarrow> bytes \<Rightarrow> bytes \<Rightarrow> bignum \<Rightarrow> u32 \<Rightarrow> bool" where
  "pkcs1_verify_sha256 stk data sig modulus exponent = pkcs1_verify stk PKCS1_HASH_SHA256 data sig modulus exponent"

subsection \<open>Padding and encrypting a secret\<close>

text \<open>do { b = rand_byte(); } while (b == 0x00), with at most fuel calls: the byte and the calls made so far.\<close>

fun pkcs1_nonzero :: "nat \<Rightarrow> (nat \<Rightarrow> u8) \<Rightarrow> nat \<Rightarrow> (u8 \<times> nat) option" where
  "pkcs1_nonzero 0 rand_byte k = None"
| "pkcs1_nonzero (Suc fuel) rand_byte k =
     (let b = rand_byte k in if b = 0x00 then pkcs1_nonzero fuel rand_byte (Suc k) else Some (b, Suc k))"

fun pkcs1_pad :: "nat \<Rightarrow> nat \<Rightarrow> (nat \<Rightarrow> u8) \<Rightarrow> nat \<Rightarrow> bytes option" where
  "pkcs1_pad fuel 0 rand_byte k = Some []"
| "pkcs1_pad fuel (Suc n) rand_byte k =
     (case pkcs1_nonzero fuel rand_byte k of None \<Rightarrow> None
      | Some (b, k') \<Rightarrow> map_option (Cons b) (pkcs1_pad fuel n rand_byte k'))"

text \<open>The outer option is the fuel, the inner one the function's 0.\<close>

definition pkcs1_encrypt :: "nat \<Rightarrow> bytes \<Rightarrow> nat \<Rightarrow> bignum \<Rightarrow> u32 \<Rightarrow> (nat \<Rightarrow> u8) \<Rightarrow> bytes option option" where
  "pkcs1_encrypt fuel secret modulus_len modulus exponent rand_byte =
     (if modulus_len < 11 \<or> length secret > modulus_len - 11 then Some None
      else if modulus_len > 512 then Some None
      else let pad_len = modulus_len - length secret - 3 in
        case pkcs1_pad fuel pad_len rand_byte 0 of None \<Rightarrow> None
        | Some pad \<Rightarrow>
          let block = [0x00, 0x02] @ pad @ [0x00] @ secret;
              block_bn = bn_from_bytes_be block;
              result_bn = bn_modpow_u32exp block_bn exponent modulus
          in Some (Some (bn_to_bytes_be result_bn modulus_len)))"

subsection \<open>The padding check\<close>

text \<open>EMSA-PKCS1-v1_5 with k padding bytes (RFC 8017, 9.2).\<close>

definition emsa_pkcs1 :: "nat \<Rightarrow> bytes \<Rightarrow> bytes \<Rightarrow> bytes" where
  "emsa_pkcs1 k prefix h = [0x00, 0x01] @ replicate k 0xFF @ [0x00] @ prefix @ h"

lemma pkcs1_skip_ff: "pkcs1_skip_ff bs = k \<longleftrightarrow>
    k \<le> length bs \<and> take k bs = replicate k 0xFF \<and> (k < length bs \<longrightarrow> bs ! k \<noteq> 0xFF)"
proof (induction bs arbitrary: k)
  case (Cons b bs)
  show ?case
  proof (cases k)
    case (Suc j)
    thus ?thesis using Cons [of j] by simp
  qed auto
qed simp

lemma nth_prefix_eq: "i + length p \<le> length xs \<Longrightarrow> (\<exists>j \<in> set [0..<length p]. xs ! (i + j) \<noteq> p ! j) \<longleftrightarrow> slice i (length p) xs \<noteq> p"
proof -
  assume l: "i + length p \<le> length xs"
  have "slice i (length p) xs = p \<longleftrightarrow> (\<forall>j < length p. xs ! (i + j) = p ! j)"
    using l by (subst list_eq_iff_nth_eq) simp
  thus ?thesis by auto
qed

lemma pkcs1_check_block_iff:
  assumes n: "length r = n"
  shows "pkcs1_check_block r prefix h n \<longleftrightarrow> (\<exists>k \<ge> 8. r = emsa_pkcs1 k prefix h)"
proof
  assume "\<exists>k \<ge> 8. r = emsa_pkcs1 k prefix h"
  then obtain k where k: "8 \<le> k" "r = emsa_pkcs1 k prefix h" by blast
  have l: "n = 3 + k + length prefix + length h" using n k by (simp add: emsa_pkcs1_def)
  have s: "pkcs1_skip_ff (drop 2 r) = k" unfolding pkcs1_skip_ff k(2) by (simp add: emsa_pkcs1_def nth_append)
  have "\<not> (\<exists>j \<in> set [0..<length prefix]. r ! (2 + k + 1 + j) \<noteq> prefix ! j)"
    "\<not> (\<exists>j \<in> set [0..<length h]. r ! (2 + k + 1 + length prefix + j) \<noteq> h ! j)"
    using l by (auto simp: k(2) emsa_pkcs1_def nth_append nth_Cons')
  moreover have "r ! 0 = 0" "r ! 1 = 1" "r ! (2 + k) = 0" by (simp_all add: k(2) emsa_pkcs1_def nth_append)
  ultimately show "pkcs1_check_block r prefix h n" using l k(1) unfolding pkcs1_check_block_def s Let_def by simp
next
  assume c: "pkcs1_check_block r prefix h n"
  define k where "k = pkcs1_skip_ff (drop 2 r)"
  let ?i = "3 + k"
  have a: "11 \<le> n" "r ! 0 = 0" "r ! 1 = 1" "8 \<le> k" "2 + k < n" "r ! (2 + k) = 0" "n - ?i = length prefix + length h"
    "\<not> (\<exists>j \<in> set [0..<length prefix]. r ! (?i + j) \<noteq> prefix ! j)"
    "\<not> (\<exists>j \<in> set [0..<length h]. r ! (?i + length prefix + j) \<noteq> h ! j)"
    using c unfolding pkcs1_check_block_def k_def [symmetric] Let_def by (simp_all split: if_splits add: eval_nat_numeral)
  have s: "take k (drop 2 r) = replicate k 0xFF" using pkcs1_skip_ff [of "drop 2 r" k] k_def by simp
  have l: "length r = ?i + length prefix + length h" using a(5,7) n by linarith
  have p: "slice ?i (length prefix) r = prefix" "slice (?i + length prefix) (length h) r = h"
    using a(8,9) nth_prefix_eq [of ?i prefix r] nth_prefix_eq [of "?i + length prefix" h r] l by auto
  have "r = emsa_pkcs1 k prefix h"
  proof (rule nth_equalityI)
    show "length r = length (emsa_pkcs1 k prefix h)" using l by (simp add: emsa_pkcs1_def)
    fix j assume j: "j < length r"
    consider "j = 0" | "j = 1" | "2 \<le> j \<and> j < 2 + k" | "j = 2 + k" | "?i \<le> j \<and> j < ?i + length prefix" | "?i + length prefix \<le> j"
      by linarith
    thus "r ! j = emsa_pkcs1 k prefix h ! j"
    proof cases
      case 3
      have "take k (drop 2 r) ! (j - 2) = 0xFF" unfolding s using 3 by (subst nth_replicate) auto
      moreover have "take k (drop 2 r) ! (j - 2) = r ! j"
      proof -
        obtain i where i: "j = 2 + i" "i < k" using 3 le_Suc_ex [of 2 j] by auto
        thus ?thesis using l by simp
      qed
      moreover have "emsa_pkcs1 k prefix h ! j = 0xFF" using 3 by (auto simp: emsa_pkcs1_def nth_append nth_Cons')
      ultimately show ?thesis by simp
    next
      case 5
      then obtain i where i: "j = ?i + i" "i < length prefix" using le_Suc_ex [of ?i j] by auto
      have "slice ?i (length prefix) r ! i = r ! (?i + i)" using i l by (intro nth_slice) linarith+
      thus ?thesis using i p(1) by (simp add: emsa_pkcs1_def nth_append eval_nat_numeral)
    next
      case 6
      then obtain i where i: "j = ?i + length prefix + i" "i < length h" using j l le_Suc_ex [of "?i + length prefix" j] by auto
      have "slice (?i + length prefix) (length h) r ! i = r ! (?i + length prefix + i)" using i l by (intro nth_slice) linarith+
      thus ?thesis using i p(2) by (simp add: emsa_pkcs1_def nth_append eval_nat_numeral)
    qed (use a in \<open>simp_all add: emsa_pkcs1_def nth_append\<close>)
  qed
  thus "\<exists>k \<ge> 8. r = emsa_pkcs1 k prefix h" using a(4) by blast
qed

subsection \<open>The modulus\<close>

lemma bn_bit_length_limbs:
  assumes a: "length a = BIGNUM_LIMBS"
  shows "32 * int (bn_used_limbs a) \<le> bn_bit_length a + 31" "bn_bit_length a \<le> 32 * int (bn_used_limbs a)"
proof -
  let ?u = "bn_used_limbs a"
  have "32 * int ?u \<le> bn_bit_length a + 31 \<and> bn_bit_length a \<le> 32 * int ?u"
  proof (cases "?u = 0")
    case True
    thus ?thesis by (simp add: bn_bit_length_def)
  next
    case False
    have nz: "a ! (?u - 1) \<noteq> 0" using bn_used_from(3) [of a BIGNUM_LIMBS] False by (simp add: bn_used_limbs_def)
    thus ?thesis using bn_top_bit_nonneg [OF nz] bn_top_bit [of "a ! (?u - 1)" 32] False by (simp add: bn_bit_length_def Let_def)
  qed
  thus "32 * int (bn_used_limbs a) \<le> bn_bit_length a + 31" "bn_bit_length a \<le> 32 * int (bn_used_limbs a)" by simp_all
qed

lemma pkcs1_modulus:
  assumes m: "length m = BIGNUM_LIMBS" "11 \<le> pkcs1_mod_bytes m" "pkcs1_mod_bytes m \<le> 512"
  shows "1 < bn_val m" "bn_used_limbs m < BIGNUM_LIMBS" "bn_val m < 2 ^ (8 * pkcs1_mod_bytes m)"
proof -
  note l = bn_bit_length_limbs [OF m(1)] and v = bn_bit_length_val [OF m(1)]
  have b: "11 \<le> (bn_bit_length m + 7) div 8" "(bn_bit_length m + 7) div 8 \<le> 512"
    using m(2,3) by (simp_all add: pkcs1_mod_bytes_def)
  have "bn_bit_length m + 7 < 8 * 513" using b(2) by linarith
  thus "bn_used_limbs m < BIGNUM_LIMBS" using l by (simp add: BIGNUM_LIMBS_def)
  have "88 \<le> bn_bit_length m + 7" using b(1) by linarith
  hence u: "1 < bn_used_limbs m" using l by linarith
  show "1 < bn_val m"
  proof (rule ccontr)
    assume "\<not> 1 < bn_val m"
    hence "bn_val m < 2 ^ (32 * 1)" by simp
    hence "bn_used_limbs m \<le> 1" by (intro bn_used_val(5) [OF m(1)]) (simp_all add: BIGNUM_LIMBS_def)
    thus False using u by simp
  qed
  have "nat (bn_bit_length m) \<le> 8 * pkcs1_mod_bytes m" unfolding pkcs1_mod_bytes_def using v(3) by linarith
  hence "(2 :: nat) ^ nat (bn_bit_length m) \<le> 2 ^ (8 * pkcs1_mod_bytes m)" by (intro power_increasing) simp_all
  thus "bn_val m < 2 ^ (8 * pkcs1_mod_bytes m)" using v(1) by linarith
qed

lemma rsa_public_op:
  assumes m: "length m = BIGNUM_LIMBS" "11 \<le> pkcs1_mod_bytes m" "pkcs1_mod_bytes m \<le> 512" and s: "length s \<le> 512"
  shows "os2ip (bn_to_bytes_be (bn_modpow_u32exp (bn_from_bytes_be s) e m) (pkcs1_mod_bytes m)) = os2ip s ^ unat e mod bn_val m"
proof -
  note M = pkcs1_modulus [OF m]
  have "length s \<le> 4 * BIGNUM_LIMBS" using s by (simp add: BIGNUM_LIMBS_def)
  note f = bn_from_bytes_val [OF this]
  note p = bn_modpow_u32exp_val [OF f(2) m(1) M(2,1)]
  have "os2ip s ^ unat e mod bn_val m < 2 ^ (8 * pkcs1_mod_bytes m)"
    using M(1,3) mod_less_divisor [of "bn_val m" "os2ip s ^ unat e"] by linarith
  thus ?thesis by (simp add: bn_to_bytes_val(1) [OF p(2)] p(1) f(1))
qed

lemma pkcs1_hash_fips:
  assumes "length (fst stk) = 64" "length (snd stk) = 128" "length data < 2 ^ 32"
  shows "pkcs1_hash stk PKCS1_HASH_SHA256 data = fips_sha256 data"
    "pkcs1_hash stk PKCS1_HASH_SHA384 data = fips_sha384 data" "pkcs1_hash stk PKCS1_HASH_SHA512 data = fips_sha512 data"
  using sha256_updates [of "fst stk" "[data]"] sha512_updates [of "snd stk" "[data]"] assms
  by (simp_all add: pkcs1_hash_def sha256_def sha384_def sha512_def PKCS1_HASH_SHA256_def PKCS1_HASH_SHA384_def PKCS1_HASH_SHA512_def)

text \<open>The digest algorithms of RFC 8017 by the code's numbers: DigestInfo prefix and hash.\<close>

definition digest_info :: "int \<Rightarrow> (bytes \<times> (bytes \<Rightarrow> bytes)) option" where
  "digest_info hash_id = map_of
     [(1, PKCS1_SHA256_DIGESTINFO_PREFIX, fips_sha256), (2, PKCS1_SHA384_DIGESTINFO_PREFIX, fips_sha384),
      (3, PKCS1_SHA512_DIGESTINFO_PREFIX, fips_sha512)] hash_id"

lemma pkcs1_prefix_digest_info:
  assumes "length (fst stk) = 64" "length (snd stk) = 128" "length data < 2 ^ 32"
  shows "map_option (\<lambda>p. (p, pkcs1_hash stk hash_id data)) (pkcs1_prefix hash_id) =
    map_option (\<lambda>(p, h). (p, h data)) (digest_info hash_id)"
  using pkcs1_hash_fips [OF assms]
  by (simp add: pkcs1_prefix_def digest_info_def PKCS1_HASH_SHA256_def PKCS1_HASH_SHA384_def PKCS1_HASH_SHA512_def)

text \<open>Claim C38. A signature is accepted exactly when the RSA public operation on it gives a well-formed block: for
  every modulus, data of less than 2 ^ 32 bytes and whatever the stack held, pkcs1_verify returns 1 if and only if the
  algorithm is one of the three, the signature has the modulus's byte length (at most 512) and signature ^ exponent
  mod modulus is the number of the block 00 01 FF..FF 00 DigestInfo hash(data) of that length with at least eight FF.\<close>

theorem pkcs1_verify_exact:
  assumes "length modulus = BIGNUM_LIMBS" "length (fst stk) = 64" "length (snd stk) = 128" "length data < 2 ^ 32"
  shows "pkcs1_verify stk hash_id data sig modulus exponent =
    (\<exists>prefix h k. digest_info hash_id = Some (prefix, h) \<and> 8 \<le> k \<and>
       length sig = pkcs1_mod_bytes modulus \<and> length sig \<le> 512 \<and> length (emsa_pkcs1 k prefix (h data)) = length sig \<and>
       os2ip sig ^ unat exponent mod bn_val modulus = os2ip (emsa_pkcs1 k prefix (h data)))"
proof (cases "digest_info hash_id")
  case None
  hence "pkcs1_prefix hash_id = None" using pkcs1_prefix_digest_info [OF assms(2-4), of hash_id] by auto
  thus ?thesis using None by (simp add: pkcs1_verify_def)
next
  case (Some ph)
  obtain p h where ph: "ph = (p, h)" by (cases ph)
  have pre: "pkcs1_prefix hash_id = Some p" "pkcs1_hash stk hash_id data = h data"
    using Some pkcs1_prefix_digest_info [OF assms(2-4), of hash_id] ph by auto
  let ?n = "pkcs1_mod_bytes modulus"
  let ?r = "bn_to_bytes_be (bn_modpow_u32exp (bn_from_bytes_be sig) exponent modulus) ?n"
  have len: "length ?r = ?n" by (simp add: bn_to_bytes_be_def)
  have op: "(?r = em) = (length em = ?n \<and> os2ip sig ^ unat exponent mod bn_val modulus = os2ip em)"
    if "length sig = ?n" "length sig \<le> 512" "11 \<le> length em" for em
    using rsa_public_op [OF assms(1), of sig exponent] os2ip_inj [of ?r em] len that by (cases "length em = ?n") auto
  have em: "11 \<le> length (emsa_pkcs1 k p (h data))" if "8 \<le> k" for k using that by (simp add: emsa_pkcs1_def)
  have "pkcs1_verify stk hash_id data sig modulus exponent =
      (?n \<noteq> 0 \<and> ?n \<le> 512 \<and> length sig = ?n \<and> (\<exists>k \<ge> 8. ?r = emsa_pkcs1 k p (h data)))"
    by (simp add: pkcs1_verify_def pre Let_def pkcs1_check_block_iff [OF len])
  also have "\<dots> = (\<exists>k \<ge> 8. length sig = ?n \<and> length sig \<le> 512 \<and> length (emsa_pkcs1 k p (h data)) = length sig \<and>
      os2ip sig ^ unat exponent mod bn_val modulus = os2ip (emsa_pkcs1 k p (h data)))"
    using op em by (metis (no_types, lifting) le_zero_eq not_numeral_le_zero)
  finally show ?thesis using Some ph by auto
qed

lemma os2ip_Cons: "os2ip (b # bs) = unat b * 2 ^ (8 * length bs) + os2ip bs"
proof -
  have "le_val (xs @ [b]) = le_val xs + unat b * 2 ^ (8 * length xs)" for xs
    by (induction xs) (simp_all add: power_add algebra_simps)
  thus ?thesis by (simp add: os2ip_def)
qed

lemma os2ip_zeros: "os2ip (replicate n 0) = 0"
  by (induction n) (simp_all add: os2ip_Cons, simp add: os2ip_def)

lemma bn_top_bit_set: "0 \<le> bn_top_bit w n \<Longrightarrow> bit w (nat (bn_top_bit w n))"
  by (induction n) (auto simp: and_exp_eq_0_iff_not_bit)

lemma bn_bit_length_ge:
  assumes a: "length a = BIGNUM_LIMBS" and nz: "bn_val a \<noteq> 0"
  shows "2 ^ (nat (bn_bit_length a) - 1) \<le> bn_val a"
proof -
  let ?u = "bn_used_limbs a"
  have u: "?u \<noteq> 0" "?u \<le> BIGNUM_LIMBS" using bn_used_val(3,4) [OF a] nz by auto
  let ?t = "bn_top_bit (a ! (?u - 1)) 32"
  have w: "a ! (?u - 1) \<noteq> 0" using bn_used_from(3) [of a BIGNUM_LIMBS] u by (simp add: bn_used_limbs_def)
  have t: "0 \<le> ?t" "?t < 32" using bn_top_bit_nonneg [OF w] bn_top_bit [of "a ! (?u - 1)" 32] by auto
  have "nat (bn_bit_length a) - 1 = 32 * (?u - 1) + nat ?t"
    using u t by (simp add: bn_bit_length_def Let_def nat_add_distrib nat_mult_distrib nat_diff_distrib)
  moreover have "bit (bn_val a) (32 * (?u - 1) + nat ?t)"
    using bn_top_bit_set [OF t(1)] t u a by (simp add: bn_val_bit nat_less_iff)
  ultimately have "bit (bn_val a) (nat (bn_bit_length a) - 1)" by simp
  show ?thesis
  proof (rule ccontr)
    assume "\<not> ?thesis"
    hence "take_bit (nat (bn_bit_length a) - 1) (bn_val a) = bn_val a" by (intro take_bit_nat_eq_self) simp
    moreover have "\<not> bit (take_bit (nat (bn_bit_length a) - 1) (bn_val a)) (nat (bn_bit_length a) - 1)"
      by (simp add: bit_take_bit_iff)
    ultimately show False using \<open>bit (bn_val a) (nat (bn_bit_length a) - 1)\<close> by simp
  qed
qed

lemma pkcs1_mod_bytes_eq:
  assumes "length bs \<le> 512" "bs \<noteq> []" "hd bs \<noteq> 0"
  shows "pkcs1_mod_bytes (bn_from_bytes_be bs) = length bs"
proof -
  obtain b r where bs: "bs = b # r" using assms(2) by (cases bs) auto
  let ?a = "bn_from_bytes_be bs"
  have "length bs \<le> 4 * BIGNUM_LIMBS" using assms(1) by (simp add: BIGNUM_LIMBS_def)
  note f = bn_from_bytes_val [OF this]
  have "1 \<le> unat b" using assms(3) bs by (simp add: unat_gt_0 Suc_leI)
  hence "1 * 2 ^ (8 * length r) \<le> unat b * 2 ^ (8 * length r)" by (rule mult_le_mono1)
  hence ge: "2 ^ (8 * length r) \<le> bn_val ?a" unfolding f(1) unfolding bs os2ip_Cons by linarith
  have lt: "bn_val ?a < 2 ^ (8 * length bs)" using os2ip_lt [of bs] f(1) by simp
  note n = bn_bit_length_val [OF f(2)]
  have "(2 :: nat) ^ (8 * length r) < 2 ^ nat (bn_bit_length ?a)" using ge n(1) by (rule le_less_trans)
  hence lo: "8 * length r < nat (bn_bit_length ?a)" by simp
  have "bn_val ?a \<noteq> 0" using ge by (metis le_zero_eq power_not_zero zero_neq_numeral)
  hence "2 ^ (nat (bn_bit_length ?a) - 1) \<le> bn_val ?a" by (rule bn_bit_length_ge [OF f(2)])
  hence "(2 :: nat) ^ (nat (bn_bit_length ?a) - 1) < 2 ^ (8 * length bs)" using lt by (rule le_less_trans)
  hence hi: "nat (bn_bit_length ?a) \<le> 8 * length bs" by simp
  have "8 * int (length r) < bn_bit_length ?a" "bn_bit_length ?a \<le> 8 * int (length r) + 8"
    using lo hi n(3) bs by simp_all
  hence "(bn_bit_length ?a + 7) div 8 = int (length r) + 1" by linarith
  thus ?thesis using bs by (simp add: pkcs1_mod_bytes_def nat_add_distrib)
qed

text \<open>A modulus of 62 bytes and the exponent 1: the padded block is its own signature.\<close>

lemma pkcs1_verify_exact_witness:
  "pkcs1_verify (replicate 64 7, replicate 128 9) 1 [1, 2, 3]
     (emsa_pkcs1 8 PKCS1_SHA256_DIGESTINFO_PREFIX (fips_sha256 [1, 2, 3])) (bn_from_bytes_be (0x80 # replicate 61 0)) 1"
proof -
  let ?m = "bn_from_bytes_be (0x80 # replicate 61 0)" and ?em = "emsa_pkcs1 8 PKCS1_SHA256_DIGESTINFO_PREFIX (fips_sha256 [1, 2, 3])"
  have m: "pkcs1_mod_bytes ?m = 62" "length ?m = BIGNUM_LIMBS"
    using pkcs1_mod_bytes_eq [of "0x80 # replicate 61 0"] bn_from_bytes_val(2) [of "0x80 # replicate 61 0"] by (simp_all add: BIGNUM_LIMBS_def)
  have l: "length (fips_sha256 [1, 2, 3]) = 32"
    by (simp add: fips_sha256_def digest256_def sha256_put32_be_def length_concat comp_def sum_list_triv)
  hence em: "length ?em = 62" by (simp add: emsa_pkcs1_def PKCS1_SHA256_DIGESTINFO_PREFIX_def)
  have "bn_val ?m = 128 * 2 ^ (8 * 61)"
    using bn_from_bytes_val(1) [of "0x80 # replicate 61 0"] by (simp add: BIGNUM_LIMBS_def os2ip_Cons os2ip_zeros)
  moreover have "os2ip ?em = os2ip (tl ?em)" by (simp add: emsa_pkcs1_def os2ip_Cons)
  moreover have "os2ip (tl ?em) < 2 ^ (8 * 61)" using os2ip_lt [of "tl ?em"] em by simp
  ultimately have "os2ip ?em ^ unat (1 :: u32) mod bn_val ?m = os2ip ?em" by simp
  moreover have "digest_info 1 = Some (PKCS1_SHA256_DIGESTINFO_PREFIX, fips_sha256)" by (simp add: digest_info_def)
  ultimately have "\<exists>p h k. digest_info 1 = Some (p, h) \<and> 8 \<le> k \<and> length ?em = pkcs1_mod_bytes ?m \<and> length ?em \<le> 512 \<and>
      length (emsa_pkcs1 k p (h [1, 2, 3])) = length ?em \<and>
      os2ip ?em ^ unat (1 :: u32) mod bn_val ?m = os2ip (emsa_pkcs1 k p (h [1, 2, 3]))"
    using em m(1) by (intro exI [of _ PKCS1_SHA256_DIGESTINFO_PREFIX] exI [of _ fips_sha256] exI [of _ 8]) simp
  thus ?thesis
    using pkcs1_verify_exact [of ?m "(replicate 64 7, replicate 128 9)" "[1, 2, 3]" 1 ?em 1] m(2) by simp
qed

subsection \<open>Encryption\<close>

lemma pkcs1_nonzero:
  assumes "pkcs1_nonzero fuel rand k = Some (b, k')"
  shows "b \<noteq> 0" "k < k'" "k' \<le> k + fuel" "b = rand (k' - 1)"
  using assms by (induction fuel rand k rule: pkcs1_nonzero.induct) (auto simp: Let_def split: if_splits)

lemma pkcs1_nonzero_some:
  "\<exists>j < fuel. rand (k + j) \<noteq> 0 \<Longrightarrow> \<exists>r. pkcs1_nonzero fuel rand k = Some r"
proof (induction fuel arbitrary: k)
  case (Suc fuel)
  then obtain j where j: "j < Suc fuel" "rand (k + j) \<noteq> 0" by blast
  show ?case
  proof (cases "rand k = 0")
    case True
    then obtain i where "j = Suc i" using j by (cases j) auto
    thus ?thesis using Suc.IH [of "Suc k"] j True by (auto simp: Let_def)
  qed (simp add: Let_def)
qed simp

text \<open>A source with a nonzero byte among any fuel calls in a row is enough for the padding to be made.\<close>

lemma pkcs1_pad_some:
  assumes "\<And>k. \<exists>j < fuel. rand (k + j) \<noteq> 0"
  shows "\<exists>p. pkcs1_pad fuel n rand k = Some p \<and> length p = n \<and> 0 \<notin> set p"
proof (induction n arbitrary: k)
  case (Suc n)
  obtain b k' where b: "pkcs1_nonzero fuel rand k = Some (b, k')" using pkcs1_nonzero_some [OF assms [of k]] by auto
  thus ?case using Suc [of k'] pkcs1_nonzero(1) [OF b] by auto
qed simp

lemma pkcs1_encrypt_val:
  assumes src: "\<And>k. \<exists>j < fuel. rand (k + j) \<noteq> 0"
    and m: "length modulus = BIGNUM_LIMBS" "pkcs1_mod_bytes modulus = modulus_len" "modulus_len \<le> 512"
    and s: "length secret + 11 \<le> modulus_len"
  shows "\<exists>out pad. pkcs1_encrypt fuel secret modulus_len modulus exponent rand = Some (Some out) \<and>
    8 \<le> length pad \<and> 0 \<notin> set pad \<and> length out = modulus_len \<and>
    os2ip out = os2ip ([0, 2] @ pad @ [0] @ secret) ^ unat exponent mod bn_val modulus"
proof -
  obtain pad where p: "pkcs1_pad fuel (modulus_len - length secret - 3) rand 0 = Some pad"
      "length pad = modulus_len - length secret - 3" "0 \<notin> set pad"
    using pkcs1_pad_some [of fuel rand, OF src] by blast
  let ?b = "[0, 2] @ pad @ [0] @ secret"
  have "length ?b \<le> 512" using p(2) s m(3) by simp
  hence "os2ip (bn_to_bytes_be (bn_modpow_u32exp (bn_from_bytes_be ?b) exponent modulus) modulus_len) =
      os2ip ?b ^ unat exponent mod bn_val modulus"
    using rsa_public_op [OF m(1), of ?b exponent] m(2,3) s by simp
  moreover have "pkcs1_encrypt fuel secret modulus_len modulus exponent rand =
      Some (Some (bn_to_bytes_be (bn_modpow_u32exp (bn_from_bytes_be ?b) exponent modulus) modulus_len))"
    using p(1) s m(3) by (simp add: pkcs1_encrypt_def)
  moreover have "length (bn_to_bytes_be a n) = n" for a n by (simp add: bn_to_bytes_be_def)
  ultimately show ?thesis using p(2,3) s by (intro exI [of _ pad] exI conjI) (assumption | simp)+
qed

end
