(* ===== verification/Asn1.thy ===== *)
theory Asn1
  imports Prelude
begin

text \<open>
  asn1.h: the DER reader of the certificate code. A buffer is the list of bytes from the data pointer on; the value
  and next pointers are 32-bit offsets from that pointer, so their sums wrap as the code's do.
\<close>

record asn1_tlv =
  asn1_tag :: u8
  asn1_len :: u32
  asn1_value :: u32
  asn1_next :: u32

definition ASN1_TAG_INTEGER :: u8 where "ASN1_TAG_INTEGER = 0x02"
definition ASN1_TAG_BIT_STRING :: u8 where "ASN1_TAG_BIT_STRING = 0x03"
definition ASN1_TAG_OCTET_STRING :: u8 where "ASN1_TAG_OCTET_STRING = 0x04"
definition ASN1_TAG_NULL :: u8 where "ASN1_TAG_NULL = 0x05"
definition ASN1_TAG_OID :: u8 where "ASN1_TAG_OID = 0x06"
definition ASN1_TAG_UTF8_STRING :: u8 where "ASN1_TAG_UTF8_STRING = 0x0C"
definition ASN1_TAG_PRINTABLE_STRING :: u8 where "ASN1_TAG_PRINTABLE_STRING = 0x13"
definition ASN1_TAG_IA5_STRING :: u8 where "ASN1_TAG_IA5_STRING = 0x16"
definition ASN1_TAG_UTC_TIME :: u8 where "ASN1_TAG_UTC_TIME = 0x17"
definition ASN1_TAG_GENERALIZED_TIME :: u8 where "ASN1_TAG_GENERALIZED_TIME = 0x18"
definition ASN1_TAG_SEQUENCE :: u8 where "ASN1_TAG_SEQUENCE = 0x30"
definition ASN1_TAG_SET :: u8 where "ASN1_TAG_SET = 0x31"
definition ASN1_TAG_CONTEXT :: "u8 \<Rightarrow> u8" where "ASN1_TAG_CONTEXT n = 0xA0 + n"
definition ASN1_TAG_CONTEXT_PRIMITIVE :: "u8 \<Rightarrow> u8" where "ASN1_TAG_CONTEXT_PRIMITIVE n = 0x80 + n"

text \<open>for (i = 0; i < num_len_bytes; i++) len = (len << 8) | data[pos++]\<close>

definition asn1_long_len :: "bytes \<Rightarrow> nat \<Rightarrow> nat \<Rightarrow> u32" where
  "asn1_long_len data pos n = fold (\<lambda>i len. push_bit 8 len OR ucast (data ! (pos + i))) [0..<n] 0"

text \<open>The check common to both length forms.\<close>

definition asn1_finish :: "u8 \<Rightarrow> u32 \<Rightarrow> u32 \<Rightarrow> u32 \<Rightarrow> asn1_tlv option" where
  "asn1_finish tag pos len max_len =
     (if pos + len > max_len then None
      else Some \<lparr>asn1_tag = tag, asn1_len = len, asn1_value = pos, asn1_next = pos + len\<rparr>)"

definition asn1_parse_tlv :: "bytes \<Rightarrow> u32 \<Rightarrow> asn1_tlv option" where
  "asn1_parse_tlv data max_len =
     (if max_len < 2 then None
      else let tag = data ! 0; len_byte = data ! 1; pos = 2 :: u32 in
        if len_byte < 0x80 then asn1_finish tag pos (ucast len_byte) max_len
        else let num_len_bytes = len_byte AND 0x7F in
          if num_len_bytes = 0 \<or> num_len_bytes > 4 then None
          else if pos + ucast num_len_bytes > max_len then None
          else asn1_finish tag (pos + ucast num_len_bytes) (asn1_long_len data 2 (unat num_len_bytes)) max_len)"

definition asn1_expect :: "bytes \<Rightarrow> u32 \<Rightarrow> u8 \<Rightarrow> asn1_tlv option" where
  "asn1_expect data max_len expect_tag =
     (case asn1_parse_tlv data max_len of None \<Rightarrow> None
      | Some t \<Rightarrow> if asn1_tag t = expect_tag then Some t else None)"

definition asn1_small_int :: "bytes \<Rightarrow> asn1_tlv \<Rightarrow> u32" where
  "asn1_small_int data t =
     (let p = unat (asn1_value t); len = unat (asn1_len t);
          skip = len > 0 \<and> data ! p = 0x00;
          p = (if skip then p + 1 else p); len = (if skip then len - 1 else len)
      in fold (\<lambda>i v. push_bit 8 v OR ucast (data ! (p + i))) [0..<min len 4] 0)"

definition asn1_oid_equals :: "bytes \<Rightarrow> asn1_tlv \<Rightarrow> bytes \<Rightarrow> bool" where
  "asn1_oid_equals data t oid_bytes =
     (if asn1_tag t \<noteq> ASN1_TAG_OID then False
      else if asn1_len t \<noteq> of_nat (length oid_bytes) then False
      else \<not> (\<exists>i \<in> set [0..<length oid_bytes]. data ! (unat (asn1_value t) + i) \<noteq> oid_bytes ! i))"

definition asn1_bit_string_bytes :: "asn1_tlv \<Rightarrow> u32 \<times> u32" where
  "asn1_bit_string_bytes t =
     (if asn1_len t = 0 then (asn1_value t, 0) else (asn1_value t + 1, asn1_len t - 1))"

subsection \<open>The encoding the reader inverts\<close>

text \<open>X.690's length octets: short form below 128, otherwise the fewest big-endian octets.\<close>

definition der_len :: "nat \<Rightarrow> bytes" where
  "der_len n =
     (if n < 128 then [of_nat n]
      else if n < 2 ^ 8 then [0x81, of_nat n]
      else if n < 2 ^ 16 then [0x82, of_nat (n div 2 ^ 8), of_nat n]
      else if n < 2 ^ 24 then [0x83, of_nat (n div 2 ^ 16), of_nat (n div 2 ^ 8), of_nat n]
      else [0x84, of_nat (n div 2 ^ 24), of_nat (n div 2 ^ 16), of_nat (n div 2 ^ 8), of_nat n])"

definition der_tlv :: "u8 \<Rightarrow> bytes \<Rightarrow> bytes" where
  "der_tlv tag content = tag # der_len (length content) @ content"

definition tlv_bytes :: "bytes \<Rightarrow> asn1_tlv \<Rightarrow> bytes" where
  "tlv_bytes data t = slice (unat (asn1_value t)) (unat (asn1_len t)) data"

lemma be_step: "n < 2 ^ 24 \<Longrightarrow> push_bit 8 (of_nat n :: u32) OR ucast (b :: u8) = of_nat (n * 256 + unat b)"
proof -
  have "push_bit 8 (of_nat n :: u32) AND ucast b = 0"
    by (rule bit_word_eqI) (auto simp only: bit_and_iff bit_push_bit_iff bit_ucast_iff bit_0_eq bot_apply dest: bit_imp_le_length, auto dest: bit_imp_le_length)
  hence "push_bit 8 (of_nat n :: u32) + ucast b = push_bit 8 (of_nat n :: u32) OR ucast b" by (rule disjunctive_add_eq_or)
  moreover have "push_bit 8 (of_nat n :: u32) = of_nat (n * 256)" by (simp add: push_bit_eq_mult)
  moreover have "(ucast b :: u32) = of_nat (unat b)" by (rule of_nat_unat [symmetric])
  ultimately show ?thesis by (simp only: of_nat_add)
qed

lemma unat_low_byte: "unat (of_nat n :: u8) = n mod 256"
  by (simp add: unat_of_nat take_bit_eq_mod)

lemma asn1_long_len_1: "asn1_long_len (a # b # c # r) 2 1 = ucast c"
  by (simp add: asn1_long_len_def)

lemma long_len_eqs:
  "asn1_long_len (a # b # [of_nat n] @ r) 2 1 = of_nat (n mod 2 ^ 8)"
  "n < 2 ^ 16 \<Longrightarrow> asn1_long_len (a # b # [of_nat (n div 2 ^ 8), of_nat n] @ r) 2 2 = of_nat n"
  "n < 2 ^ 24 \<Longrightarrow> asn1_long_len (a # b # [of_nat (n div 2 ^ 16), of_nat (n div 2 ^ 8), of_nat n] @ r) 2 3 = of_nat n"
  "n < 2 ^ 32 \<Longrightarrow> asn1_long_len (a # b # [of_nat (n div 2 ^ 24), of_nat (n div 2 ^ 16), of_nat (n div 2 ^ 8), of_nat n] @ r) 2 4 = of_nat n"
proof -
  have s1: "push_bit 8 (0 :: u32) OR ucast (of_nat k :: u8) = of_nat (k mod 256)" for k
    using be_step [of 0 "of_nat k"] by (simp add: unat_low_byte)
  have st: "push_bit 8 (of_nat (n div 2 ^ (8 + j)) :: u32) OR ucast (of_nat (n div 2 ^ j) :: u8) = of_nat (n div 2 ^ j)"
    if "n < 2 ^ 32" for j
  proof -
    have "n div 2 ^ (8 + j) < 2 ^ 24"
    proof -
      have "n div 2 ^ (8 + j) \<le> n div 2 ^ 8" by (intro div_le_mono2) (simp_all add: power_add)
      also have "\<dots> < 2 ^ 24" using that by (simp add: div_less_iff_less_mult)
      finally show ?thesis .
    qed
    moreover have "n div 2 ^ (8 + j) = n div 2 ^ j div 256" by (simp add: power_add div_mult2_eq mult.commute)
    ultimately show ?thesis by (simp add: be_step unat_low_byte div_mod_decomp)
  qed
  have u: "[0..<1] = [0 :: nat]" "[0..<2] = [0 :: nat, 1]" "[0..<3] = [0 :: nat, 1, 2]" "[0..<4] = [0 :: nat, 1, 2, 3]"
    by (simp_all add: upt_rec)
  show "asn1_long_len (a # b # [of_nat n] @ r) 2 1 = of_nat (n mod 2 ^ 8)"
    unfolding asn1_long_len_def u using s1 [of n] by simp
  show "n < 2 ^ 16 \<Longrightarrow> asn1_long_len (a # b # [of_nat (n div 2 ^ 8), of_nat n] @ r) 2 2 = of_nat n"
    unfolding asn1_long_len_def u using s1 [of "n div 2 ^ 8"] st [of 0] by (simp add: div_less_iff_less_mult)
  show "n < 2 ^ 24 \<Longrightarrow> asn1_long_len (a # b # [of_nat (n div 2 ^ 16), of_nat (n div 2 ^ 8), of_nat n] @ r) 2 3 = of_nat n"
    unfolding asn1_long_len_def u using s1 [of "n div 2 ^ 16"] st [of 0] st [of 8] by (simp add: div_less_iff_less_mult)
  show "n < 2 ^ 32 \<Longrightarrow> asn1_long_len (a # b # [of_nat (n div 2 ^ 24), of_nat (n div 2 ^ 16), of_nat (n div 2 ^ 8), of_nat n] @ r) 2 4 = of_nat n"
    unfolding asn1_long_len_def u using s1 [of "n div 2 ^ 24"] st [of 0] st [of 8] st [of 16] by (simp add: div_less_iff_less_mult)
qed

lemma unat_of_nat_eq: "n < 4294967296 \<Longrightarrow> (of_nat n :: u32) = w \<longleftrightarrow> unat w = n"
  by (metis unat_of_nat_u32 word_unat_eq_iff)

text \<open>With the sum below 2 ^ 32 the final check is the check on numbers.\<close>

lemma asn1_finish_nat:
  assumes "p + n < 2 ^ 32"
  shows "asn1_finish tag (of_nat p) (of_nat n) max_len =
    (if p + n \<le> unat max_len
     then Some \<lparr>asn1_tag = tag, asn1_len = of_nat n, asn1_value = of_nat p, asn1_next = of_nat (p + n)\<rparr> else None)"
  using assms by (simp add: asn1_finish_def word_less_nat_alt unat_of_nat_u32 not_less flip: of_nat_add)

lemma der_parse_long:
  assumes k: "0 < k" "k \<le> 4" "m = 0x80 + of_nat k" and n: "2 + k + n < 2 ^ 32"
    and d: "data = tag # m # bs" "asn1_long_len data 2 k = of_nat n"
  shows "asn1_parse_tlv data max_len =
    (if 2 + k + n \<le> unat max_len
     then Some \<lparr>asn1_tag = tag, asn1_len = of_nat n, asn1_value = of_nat (2 + k), asn1_next = of_nat (2 + k + n)\<rparr> else None)"
proof -
  have "k = 1 \<or> k = 2 \<or> k = 3 \<or> k = 4" using k by linarith
  hence w: "\<not> m < 0x80" "m AND 0x7F = of_nat k" "(of_nat k :: u8) \<noteq> 0" "\<not> (4 < (of_nat k :: u8))" "unat (of_nat k :: u8) = k"
    "(2 :: u32) + ucast (of_nat k :: u8) = of_nat (2 + k)"
    by (auto simp: k(3))
  have c: "(of_nat (2 + k) > max_len) = (unat max_len < 2 + k)"
    using k(2) unat_of_nat_u32 [of "2 + k"] by (simp only: word_less_nat_alt)
  have "asn1_parse_tlv data max_len =
      (if max_len < 2 then None else if unat max_len < 2 + k then None else asn1_finish tag (of_nat (2 + k)) (of_nat n) max_len)"
    unfolding asn1_parse_tlv_def Let_def d(1) using w d(2) c unfolding d(1) by (simp del: of_nat_add)
  thus ?thesis using n unfolding asn1_finish_nat [OF n] by (auto simp: word_less_nat_alt)
qed

lemma der_parse:
  assumes "length (der_tlv tag content) < 2 ^ 32"
  shows "asn1_parse_tlv (der_tlv tag content @ rest) max_len =
    (let h = length (der_tlv tag content) - length content; e = length (der_tlv tag content) in
     if e \<le> unat max_len
     then Some \<lparr>asn1_tag = tag, asn1_len = of_nat (length content), asn1_value = of_nat h, asn1_next = of_nat e\<rparr> else None)"
proof -
  let ?n = "length content" and ?d = "der_tlv tag content @ rest"
  have n: "?n < 2 ^ 32" using assms by (simp add: der_tlv_def)
  consider "?n < 128" | "128 \<le> ?n \<and> ?n < 2 ^ 8" | "2 ^ 8 \<le> ?n \<and> ?n < 2 ^ 16" | "2 ^ 16 \<le> ?n \<and> ?n < 2 ^ 24" | "2 ^ 24 \<le> ?n"
    by linarith
  thus ?thesis
  proof cases
    case 1
    have l: "(of_nat ?n :: u8) < 0x80" "(ucast (of_nat ?n :: u8) :: u32) = of_nat ?n"
      using 1 by (simp_all add: word_less_nat_alt unat_of_nat take_bit_nat_eq_self word_unat_eq_iff unsigned_ucast_eq)
    have d: "?d = tag # of_nat ?n # content @ rest" using 1 by (simp add: der_tlv_def der_len_def)
    have "asn1_parse_tlv ?d max_len = (if max_len < 2 then None else asn1_finish tag (of_nat 2) (of_nat ?n) max_len)"
      unfolding d asn1_parse_tlv_def Let_def using l by simp
    moreover have "2 + ?n < 2 ^ 32" using 1 by simp
    note asn1_finish_nat [OF this, of tag max_len]
    ultimately show ?thesis using 1 by (auto simp: der_tlv_def der_len_def word_less_nat_alt Let_def)
  next
    case 2
    let ?b = "[of_nat ?n] @ content @ rest"
    have d: "?d = tag # 0x81 # ?b" and l: "length (der_tlv tag content) = 3 + ?n" using 2 by (simp_all add: der_tlv_def der_len_def)
    have "asn1_parse_tlv ?d max_len = (if 2 + 1 + ?n \<le> unat max_len
     then Some \<lparr>asn1_tag = tag, asn1_len = of_nat ?n, asn1_value = of_nat (2 + 1), asn1_next = of_nat (2 + 1 + ?n)\<rparr> else None)"
      using 2 assms l long_len_eqs(1) [of tag "0x81" ?n "content @ rest"] by (intro der_parse_long [OF _ _ _ _ d]) (simp_all add: d)
    thus ?thesis using l by (simp add: Let_def)
  next
    case 3
    let ?b = "[of_nat (?n div 2 ^ 8), of_nat ?n] @ content @ rest"
    have d: "?d = tag # 0x82 # ?b" and l: "length (der_tlv tag content) = 4 + ?n" using 3 by (simp_all add: der_tlv_def der_len_def)
    have "asn1_parse_tlv ?d max_len = (if 2 + 2 + ?n \<le> unat max_len
     then Some \<lparr>asn1_tag = tag, asn1_len = of_nat ?n, asn1_value = of_nat (2 + 2), asn1_next = of_nat (2 + 2 + ?n)\<rparr> else None)"
      using 3 assms l long_len_eqs(2) [of ?n tag "0x82" "content @ rest"] by (intro der_parse_long [OF _ _ _ _ d]) (simp_all add: d)
    thus ?thesis using l by (simp add: Let_def)
  next
    case 4
    let ?b = "[of_nat (?n div 2 ^ 16), of_nat (?n div 2 ^ 8), of_nat ?n] @ content @ rest"
    have d: "?d = tag # 0x83 # ?b" and l: "length (der_tlv tag content) = 5 + ?n" using 4 by (simp_all add: der_tlv_def der_len_def)
    have "asn1_parse_tlv ?d max_len = (if 2 + 3 + ?n \<le> unat max_len
     then Some \<lparr>asn1_tag = tag, asn1_len = of_nat ?n, asn1_value = of_nat (2 + 3), asn1_next = of_nat (2 + 3 + ?n)\<rparr> else None)"
      using 4 assms l long_len_eqs(3) [of ?n tag "0x83" "content @ rest"] by (intro der_parse_long [OF _ _ _ _ d]) (simp_all add: d)
    thus ?thesis using l by (simp add: Let_def)
  next
    case 5
    let ?b = "[of_nat (?n div 2 ^ 24), of_nat (?n div 2 ^ 16), of_nat (?n div 2 ^ 8), of_nat ?n] @ content @ rest"
    have d: "?d = tag # 0x84 # ?b" and l: "length (der_tlv tag content) = 6 + ?n" using 5 by (simp_all add: der_tlv_def der_len_def)
    have "asn1_parse_tlv ?d max_len = (if 2 + 4 + ?n \<le> unat max_len
     then Some \<lparr>asn1_tag = tag, asn1_len = of_nat ?n, asn1_value = of_nat (2 + 4), asn1_next = of_nat (2 + 4 + ?n)\<rparr> else None)"
      using 5 assms l n long_len_eqs(4) [of ?n tag "0x84" "content @ rest"] by (intro der_parse_long [OF _ _ _ _ d]) (simp_all add: d)
    thus ?thesis using l by (simp add: Let_def)
  qed
qed

text \<open>Claim C39. The reader inverts the encoding, exactly: a DER element of less than 2 ^ 32 bytes followed by
  anything is read back with its tag and its content, the next pointer right behind it, when it fits into the bytes
  available, and refused otherwise.\<close>

theorem asn1_reads_der:
  assumes "length (der_tlv tag content) < 2 ^ 32"
  shows "case asn1_parse_tlv (der_tlv tag content @ rest) max_len of
      None \<Rightarrow> unat max_len < length (der_tlv tag content)
    | Some t \<Rightarrow> length (der_tlv tag content) \<le> unat max_len \<and> asn1_tag t = tag \<and>
        tlv_bytes (der_tlv tag content @ rest) t = content \<and> drop (unat (asn1_next t)) (der_tlv tag content @ rest) = rest"
proof -
  let ?e = "length (der_tlv tag content)" and ?h = "Suc (length (der_len (length content)))"
  have e: "?e = ?h + length content" by (simp add: der_tlv_def)
  have u: "unat (of_nat ?h :: u32) = ?h" "unat (of_nat (length content) :: u32) = length content" "unat (of_nat ?e :: u32) = ?e"
    using assms unfolding e by (simp_all add: unat_of_nat_u32 del: of_nat_Suc)
  have "slice ?h (length content) (der_tlv tag content @ rest) = content" by (simp add: slice_def der_tlv_def)
  thus ?thesis unfolding der_parse [OF assms] Let_def tlv_bytes_def using u e by simp
qed

lemma asn1_reads_der_witness:
  "\<exists>t. asn1_parse_tlv (der_tlv 0x30 [1, 2, 3] @ [9]) 6 = Some t \<and> tlv_bytes (der_tlv 0x30 [1, 2, 3] @ [9]) t = [1, 2, 3]"
  using asn1_reads_der [of "0x30" "[1, 2, 3]" 6 "[9]"] by (cases "asn1_parse_tlv (der_tlv 0x30 [1, 2, 3] @ [9]) 6") (simp_all add: der_tlv_def der_len_def)

text \<open>The length check wraps: an element whose four length octets are FF FF FF and a byte b of FA or
  more is accepted in any buffer of six bytes or more, with a content of almost 4 GB, far past the bytes available,
  and a next pointer that lies before the content.\<close>

theorem asn1_length_wraps:
  assumes "6 \<le> max_len" "0xFA \<le> b"
  shows "\<exists>t. asn1_parse_tlv ([tag, 0x84, 0xFF, 0xFF, 0xFF, b] @ rest) max_len = Some t \<and>
    asn1_len t = 0xFFFFFF00 + ucast b \<and> asn1_next t < asn1_value t"
proof -
  let ?d = "[tag, 0x84, 0xFF, 0xFF, 0xFF, b] @ rest"
  have "asn1_long_len ?d 2 4 = 0xFFFFFF00 OR ucast b" by (simp add: asn1_long_len_def upt_rec)
  moreover have "(0xFFFFFF00 :: u32) OR ucast b = 0xFFFFFF00 + ucast b" using be_step [of "0xFFFFFF" b] by simp
  ultimately have len: "asn1_long_len ?d 2 4 = 0xFFFFFF00 + ucast b" by simp
  have b: "250 \<le> unat b" "unat b < 256" using assms(2) unat_u8_lt [of b] by (simp_all add: word_le_nat_alt)
  have n: "6 + (0xFFFFFF00 + ucast b :: u32) = of_nat (unat b - 250)"
  proof -
    have "6 + (0xFFFFFF00 + ucast b :: u32) = of_nat (6 + 0xFFFFFF00 + unat b)" by simp
    also have "6 + 0xFFFFFF00 + unat b = (unat b - 250) + 2 ^ 32" using b by simp
    finally show ?thesis by simp
  qed
  have lt: "(of_nat (unat b - 250) :: u32) < 6" using b unat_of_nat_u32 [of "unat b - 250"] by (simp only: word_less_nat_alt) simp
  hence "\<not> (6 + (0xFFFFFF00 + ucast b) > max_len)" unfolding n using assms(1) by simp
  moreover have "\<not> max_len < 2" "\<not> (6 > max_len)" using assms(1) by (simp_all add: word_less_nat_alt word_le_nat_alt)
  moreover have "(2 :: u32) + ucast (4 :: u8) = 6" "unat (4 :: u8) = 4" by simp_all
  ultimately show ?thesis using len lt n by (simp add: asn1_parse_tlv_def Let_def asn1_finish_def)
qed

lemma asn1_length_wraps_witness:
  "\<exists>t. asn1_parse_tlv [0x30, 0x84, 0xFF, 0xFF, 0xFF, 0xFC, 0, 0] 8 = Some t \<and> asn1_len t = 0xFFFFFFFC \<and> asn1_next t < asn1_value t"
  using asn1_length_wraps [of 8 "0xFC" "0x30" "[0, 0]"] by simp

end
