(* ===== verification/Httpresp.thy ===== *)
theory Httpresp
  imports Prelude
begin

text \<open>
  httpresp.h: the response both HTTP clients feed. HR_BUF is memory indexed by 32-bit offsets from the buffer's
  start, so that a write past the buffer is a write of the model too; the header parser's pointers into it are the
  list of bytes left before the end. Flags are booleans. The two loops over chunks need not end, so they take fuel
  and give None when it is used up.
\<close>

definition HR_BUF_SIZE :: u32 where "HR_BUF_SIZE = 0x40000"
definition HR_LOCATION_MAX :: nat where "HR_LOCATION_MAX = 400"
definition HR_CTYPE_MAX :: nat where "HR_CTYPE_MAX = 64"
definition HR_POST_MAX :: nat where "HR_POST_MAX = 400"

record hr =
  hr_buf :: "u32 \<Rightarrow> u8"
  hr_len :: u32
  hr_truncated :: bool
  hr_too_big :: bool
  hr_hdr_done :: bool
  hr_body_start :: u32
  hr_status :: u32
  hr_chunked :: bool
  hr_have_clen :: bool
  hr_clen :: u32
  hr_encoded :: bool
  hr_complete :: bool
  hr_chunk_pos :: u32
  hr_finished :: bool
  hr_body_len :: u32
  hr_location :: bytes
  hr_content_type :: bytes

text \<open>Character codes.\<close>

definition ascii :: "string \<Rightarrow> bytes" where "ascii s = map of_char s"

abbreviation (input) CR :: u8 where "CR \<equiv> 13"
abbreviation (input) LF :: u8 where "LF \<equiv> 10"
abbreviation (input) SP :: u8 where "SP \<equiv> 32"
abbreviation (input) TAB :: u8 where "TAB \<equiv> 9"
abbreviation (input) COLON :: u8 where "COLON \<equiv> 58"
abbreviation (input) COMMA :: u8 where "COMMA \<equiv> 44"
abbreviation (input) SEMI :: u8 where "SEMI \<equiv> 59"

definition hr_reset :: "hr \<Rightarrow> hr" where
  "hr_reset h = h\<lparr>hr_len := 0, hr_truncated := False, hr_too_big := False, hr_hdr_done := False, hr_body_start := 0, hr_status := 0,
     hr_chunked := False, hr_have_clen := False, hr_clen := 0, hr_encoded := False, hr_complete := False,
     hr_chunk_pos := 0, hr_finished := False, hr_body_len := 0,
     hr_location := (hr_location h)[0 := 0], hr_content_type := (hr_content_type h)[0 := 0]\<rparr>"

subsection \<open>Header fields\<close>

definition hr_lower :: "u8 \<Rightarrow> u8" where "hr_lower c = (if 65 \<le> c \<and> c \<le> 90 then c + 32 else c)"

definition is_blank :: "u8 \<Rightarrow> bool" where "is_blank c = (c = SP \<or> c = TAB)"
definition is_eol :: "u8 \<Rightarrow> bool" where "is_eol c = (c = CR \<or> c = LF)"
definition is_digit :: "u8 \<Rightarrow> bool" where "is_digit c = (48 \<le> c \<and> c \<le> 57)"

fun hr_header_value :: "bytes \<Rightarrow> bytes \<Rightarrow> bytes option" where
  "hr_header_value p (c # name) =
     (case p of [] \<Rightarrow> None | b # p' \<Rightarrow> if hr_lower b \<noteq> c then None else hr_header_value p' name)"
| "hr_header_value p [] =
     (case p of [] \<Rightarrow> None | b # p' \<Rightarrow> if b \<noteq> COLON then None else Some (dropWhile is_blank p'))"

text \<open>The destination is the whole array: bytes behind the terminator keep what they held.\<close>

definition hr_copy_value :: "bytes \<Rightarrow> bytes \<Rightarrow> bytes" where
  "hr_copy_value dst v =
     (let w = take (length dst - 1) (takeWhile (\<lambda>c. \<not> is_eol c) v);
          n = length (rev (dropWhile is_blank (rev w)))
      in (blit dst 0 w)[n := 0])"

definition HR_TOK_HAS :: u32 where "HR_TOK_HAS = 1"
definition HR_TOK_LAST :: u32 where "HR_TOK_LAST = 2"
definition HR_TOK_OTHER :: u32 where "HR_TOK_OTHER = 4"

definition hr_tok_eq :: "bytes \<Rightarrow> bytes \<Rightarrow> bool" where
  "hr_tok_eq t word = (if length t \<noteq> length word then False else map hr_lower t = word)"

function hr_tokens_loop :: "bytes \<Rightarrow> bytes \<Rightarrow> bytes option \<Rightarrow> u32 \<Rightarrow> bool \<Rightarrow> u32 \<times> bool" where
  "hr_tokens_loop p word word2 flags last_is =
     (let p = dropWhile (\<lambda>c. is_blank c \<or> c = COMMA) p in
      if p = [] \<or> is_eol (hd p) then (flags, last_is)
      else let tok = takeWhile (\<lambda>c. c \<noteq> COMMA \<and> c \<noteq> SEMI \<and> \<not> is_eol c) p;
               p = drop (length tok) p;
               tok = rev (dropWhile is_blank (rev tok));
               p = dropWhile (\<lambda>c. c \<noteq> COMMA \<and> \<not> is_eol c) p
           in if tok = [] then hr_tokens_loop p word word2 flags last_is
              else if hr_tok_eq tok word then hr_tokens_loop p word word2 (flags OR HR_TOK_HAS) True
              else hr_tokens_loop p word word2
                     (if \<not> (\<exists>w2 \<in> set_option word2. hr_tok_eq tok w2) then flags OR HR_TOK_OTHER else flags) False)"
  by pat_completeness auto

lemma hr_tokens_shorter:
  assumes "p = dropWhile (\<lambda>c. is_blank c \<or> c = COMMA) p0" "\<not> (p = [] \<or> is_eol (hd p))"
  shows "length (dropWhile (\<lambda>c. c \<noteq> COMMA \<and> \<not> is_eol c)
      (drop (length (takeWhile (\<lambda>c. c \<noteq> COMMA \<and> c \<noteq> SEMI \<and> \<not> is_eol c) p)) p)) < length p0"
proof -
  obtain c r where p: "p = c # r" using assms(2) by (cases p) auto
  have "dropWhile (\<lambda>c. is_blank c \<or> c = COMMA) p0 \<noteq> []" using p unfolding assms(1) by (rule list.discI)
  hence "\<not> (is_blank (hd p) \<or> hd p = COMMA)" unfolding assms(1) by (rule hd_dropWhile)
  hence c: "c \<noteq> COMMA" "\<not> is_eol c" using assms(2) p by auto
  have "length p \<le> length p0" using assms(1) by (simp add: length_dropWhile_le)
  moreover have "length (dropWhile (\<lambda>c. c \<noteq> COMMA \<and> \<not> is_eol c)
      (drop (length (takeWhile (\<lambda>c. c \<noteq> COMMA \<and> c \<noteq> SEMI \<and> \<not> is_eol c) p)) p)) < length p"
  proof (cases "c = SEMI")
    case True
    thus ?thesis using c p by (simp add: le_imp_less_Suc length_dropWhile_le)
  next
    case False
    thus ?thesis using c p
      by (simp add: dropWhile_eq_drop [symmetric] le_imp_less_Suc order.trans [OF length_dropWhile_le length_dropWhile_le])
  qed
  ultimately show ?thesis by simp
qed

termination hr_tokens_loop
  by (relation "measure (\<lambda>(p, _). length p)", rule wf_measure, unfold in_measure prod.case)
    (hypsubst, rule hr_tokens_shorter [OF refl], assumption)+

declare hr_tokens_loop.simps [simp del]

definition hr_value_tokens :: "bytes \<Rightarrow> bytes \<Rightarrow> bytes option \<Rightarrow> u32" where
  "hr_value_tokens v word word2 =
     (let (flags, last_is) = hr_tokens_loop v word word2 0 False in if last_is then flags OR HR_TOK_LAST else flags)"

text \<open>Decimal digits, wrapping at 32 bits.\<close>

definition hr_decimal :: "bytes \<Rightarrow> u32" where
  "hr_decimal v = fold (\<lambda>c n. n * 10 + ucast (c - 48)) (takeWhile is_digit v) 0"

definition hr_parse_line :: "bytes \<Rightarrow> hr \<Rightarrow> hr" where
  "hr_parse_line line h =
     (case hr_header_value line (ascii ''content-length'') of
        Some v \<Rightarrow> h\<lparr>hr_have_clen := True, hr_clen := hr_decimal v\<rparr>
      | None \<Rightarrow>
     (case hr_header_value line (ascii ''transfer-encoding'') of
        Some v \<Rightarrow>
          let fl = hr_value_tokens v (ascii ''chunked'') (Some (ascii ''identity''));
              h = (if fl AND HR_TOK_HAS \<noteq> 0 \<and> fl AND HR_TOK_LAST \<noteq> 0 then h\<lparr>hr_chunked := True\<rparr> else h);
              h = (if fl AND HR_TOK_OTHER \<noteq> 0 then h\<lparr>hr_encoded := True\<rparr> else h)
          in if fl AND HR_TOK_HAS \<noteq> 0 \<and> \<not> (fl AND HR_TOK_LAST \<noteq> 0) then h\<lparr>hr_encoded := True\<rparr> else h
      | None \<Rightarrow>
     (case hr_header_value line (ascii ''content-encoding'') of
        Some v \<Rightarrow> if hr_value_tokens v (ascii ''identity'') None AND HR_TOK_OTHER \<noteq> 0 then h\<lparr>hr_encoded := True\<rparr> else h
      | None \<Rightarrow>
     (case hr_header_value line (ascii ''location'') of
        Some v \<Rightarrow> h\<lparr>hr_location := hr_copy_value (hr_location h) v\<rparr>
      | None \<Rightarrow>
     (case hr_header_value line (ascii ''content-type'') of
        Some v \<Rightarrow> h\<lparr>hr_content_type := hr_copy_value (hr_content_type h) v\<rparr>
      | None \<Rightarrow> h)))))"

function hr_parse_lines :: "bytes \<Rightarrow> hr \<Rightarrow> hr" where
  "hr_parse_lines p h =
     (if p = [] then h
      else let line = takeWhile (\<lambda>c. c \<noteq> LF) p in hr_parse_lines (drop (length line + 1) p) (hr_parse_line line h))"
  by pat_completeness auto
termination by (relation "measure (\<lambda>(p, _). length p)") simp_all

declare hr_parse_lines.simps [simp del]

definition hr_bytes :: "hr \<Rightarrow> u32 \<Rightarrow> u32 \<Rightarrow> bytes" where
  "hr_bytes h from to = map (\<lambda>i. hr_buf h (of_nat i)) [unat from..<unat to]"

definition hr_parse_headers :: "u32 \<Rightarrow> hr \<Rightarrow> hr" where
  "hr_parse_headers header_end h =
     (let p = hr_bytes h 0 header_end;
          p = dropWhile (\<lambda>c. c \<noteq> SP \<and> c \<noteq> LF) p;
          p = dropWhile (\<lambda>c. c = SP) p;
          code = hr_decimal p;
          p = dropWhile is_digit p;
          h = h\<lparr>hr_status := code\<rparr>;
          p = dropWhile (\<lambda>c. c \<noteq> LF) p
      in hr_parse_lines (drop 1 p) h)"


subsection \<open>Chunks\<close>

definition hr_hexval :: "u8 \<Rightarrow> int" where
  "hr_hexval c =
     (if is_digit c then int (unat (c - 48))
      else if 97 \<le> c \<and> c \<le> 102 then int (unat (c - 97 + 10))
      else if 65 \<le> c \<and> c \<le> 70 then int (unat (c - 65 + 10))
      else - 1)"

text \<open>while (line_end + 1 < hr.len && !(HR_BUF[line_end] == CR && HR_BUF[line_end + 1] == LF)) line_end++\<close>

function hr_line_end :: "hr \<Rightarrow> u32 \<Rightarrow> u32" where
  "hr_line_end h line_end =
     (if line_end + 1 < hr_len h \<and> \<not> (hr_buf h line_end = CR \<and> hr_buf h (line_end + 1) = LF)
      then hr_line_end h (line_end + 1) else line_end)"
  by pat_completeness auto

lemma word_gap: "x < y \<Longrightarrow> unat (y - (x + 1)) < unat (y - x)" for x y :: u32
proof -
  assume l: "x < y"
  have e: "y - (x + 1) = y - x - 1" by (rule diff_diff_eq [symmetric])
  have "y - x \<noteq> 0" using l by auto
  hence g: "1 \<le> unat (y - x)" by (simp add: Suc_le_eq unat_gt_0)
  hence "unat (y - x - 1) = unat (y - x) - 1" by (simp add: unat_sub word_le_nat_alt)
  thus ?thesis unfolding e using g by linarith
qed

termination hr_line_end
proof (relation "measure (\<lambda>(h, le). unat (hr_len h - (le + 1)))")
  fix h le assume "le + 1 < hr_len h \<and> \<not> (hr_buf h le = CR \<and> hr_buf h (le + 1) = LF)"
  thus "((h, le + 1), h, le) \<in> measure (\<lambda>(h, le). unat (hr_len h - (le + 1)))"
    using word_gap [of "le + 1" "hr_len h"] by (simp add: add.commute)
qed simp

declare hr_line_end.simps [simp del]

text \<open>The size line: hex digits up to the first other character; whether there was one.\<close>

fun hr_hex :: "bytes \<Rightarrow> u32 \<times> bool \<Rightarrow> u32 \<times> bool" where
  "hr_hex [] (sz, any) = (sz, any)"
| "hr_hex (c # cs) (sz, any) =
     (let h = hr_hexval c in if h < 0 then (sz, any) else hr_hex cs (push_bit 4 sz OR word_of_int h, True))"

definition hr_size_line :: "hr \<Rightarrow> u32 \<Rightarrow> u32 \<Rightarrow> u32 \<times> bool" where
  "hr_size_line h p line_end = hr_hex (hr_bytes h p line_end) (0, False)"

text \<open>One turn of the walker's loop: Inl is a return, Inr the next turn.\<close>

definition hr_walk_step :: "hr \<Rightarrow> hr + hr" where
  "hr_walk_step h =
     (let p = hr_chunk_pos h; line_end = hr_line_end h p in
      if line_end + 1 \<ge> hr_len h then Inl h
      else let (sz, any) = hr_size_line h p line_end in
        if \<not> any then Inl (h\<lparr>hr_complete := True\<rparr>)
        else if sz = 0 then Inl (h\<lparr>hr_complete := True\<rparr>)
        else let nxt = line_end + 2 + sz + 2 in
          if nxt > hr_len h then Inl h else Inr (h\<lparr>hr_chunk_pos := nxt\<rparr>))"

fun hr_walk_chunks :: "nat \<Rightarrow> hr \<Rightarrow> hr option" where
  "hr_walk_chunks 0 h = None"
| "hr_walk_chunks (Suc fuel) h = (case hr_walk_step h of Inl h' \<Rightarrow> Some h' | Inr h' \<Rightarrow> hr_walk_chunks fuel h')"

subsection \<open>Feeding\<close>

text \<open>for (i = from; i + 3 < hr.len; i++) if (HR_BUF[i..i+3] is CR LF CR LF) ...: the first such i.\<close>

definition hr_find_blank :: "hr \<Rightarrow> u32 \<Rightarrow> u32 option" where
  "hr_find_blank h from =
     map_option of_nat (find (\<lambda>i. hr_buf h (of_nat i) = CR \<and> hr_buf h (of_nat i + 1) = LF \<and>
       hr_buf h (of_nat i + 2) = CR \<and> hr_buf h (of_nat i + 3) = LF) [unat from..<unat (hr_len h) - 3])"

definition hr_write :: "u32 \<Rightarrow> bytes \<Rightarrow> hr \<Rightarrow> hr" where
  "hr_write at0 data h = h\<lparr>hr_buf := fold (\<lambda>i b. b(at0 + of_nat i := data ! i)) [0..<length data] (hr_buf h)\<rparr>"

definition hr_headers_arrived :: "u32 \<Rightarrow> hr \<Rightarrow> hr" where
  "hr_headers_arrived i h =
     (let h = h\<lparr>hr_hdr_done := True, hr_body_start := i + 4\<rparr>;
          h = hr_parse_headers (hr_body_start h) h;
          h = h\<lparr>hr_chunk_pos := hr_body_start h\<rparr>
      in if hr_have_clen h \<and> \<not> hr_chunked h \<and> hr_clen h > HR_BUF_SIZE - hr_body_start h then h\<lparr>hr_too_big := True\<rparr> else h)"

text \<open>The last part of hr_feed: has the body ended? A 1xx, 204 or 304 has none.\<close>

definition hr_no_body :: "hr \<Rightarrow> hr" where
  "hr_no_body h =
     (if hr_status h = 204 \<or> hr_status h = 304 \<or> (hr_status h \<ge> 100 \<and> hr_status h < 200) then h\<lparr>hr_complete := True\<rparr> else h)"

definition hr_progress :: "nat \<Rightarrow> hr \<Rightarrow> hr option" where
  "hr_progress fuel h =
     (if hr_hdr_done h \<and> \<not> hr_complete h
      then map_option hr_no_body
        (if hr_chunked h then hr_walk_chunks fuel h
         else if hr_have_clen h \<and> hr_len h - hr_body_start h \<ge> hr_clen h then Some (h\<lparr>hr_complete := True\<rparr>)
         else Some h)
      else Some h)"

text \<open>The number of bytes stored and the new state; None when the walker does not return within the fuel.\<close>

definition hr_feed :: "nat \<Rightarrow> bytes \<Rightarrow> hr \<Rightarrow> (u32 \<times> hr) option" where
  "hr_feed fuel data h =
     (let n = of_nat (length data); room = HR_BUF_SIZE - hr_len h; takes = (if n < room then n else room);
          h = (if takes < n then h\<lparr>hr_truncated := True\<rparr> else h);
          h = hr_write (hr_len h) (take (unat takes) data) h;
          old = hr_len h;
          h = h\<lparr>hr_len := hr_len h + takes\<rparr>;
          h = (if \<not> hr_hdr_done h
               then (case hr_find_blank h (if old \<ge> 3 then old - 3 else 0) of None \<Rightarrow> h | Some i \<Rightarrow> hr_headers_arrived i h)
               else h)
      in map_option (Pair takes) (hr_progress fuel h))"

subsection \<open>The decoded body\<close>

text \<open>for (i = 0; i < take; i++) HR_BUF[w + i] = HR_BUF[data + i]\<close>

definition hr_copy :: "u32 \<Rightarrow> u32 \<Rightarrow> u32 \<Rightarrow> hr \<Rightarrow> hr" where
  "hr_copy w data n h = h\<lparr>hr_buf := fold (\<lambda>i b. b(w + of_nat i := b (data + of_nat i))) [0..<unat n] (hr_buf h)\<rparr>"

text \<open>while (r < hr.len) ..., from the cursors r and w: the final w.\<close>

fun hr_unchunk :: "nat \<Rightarrow> u32 \<Rightarrow> u32 \<Rightarrow> hr \<Rightarrow> (u32 \<times> hr) option" where
  "hr_unchunk 0 r w h = None"
| "hr_unchunk (Suc fuel) r w h =
     (if \<not> r < hr_len h then Some (w, h)
      else let line_end = hr_line_end h r in
        if line_end + 1 \<ge> hr_len h then Some (w, h)
        else let (sz, any) = hr_size_line h r line_end in
          if \<not> any \<or> sz = 0 then Some (w, h)
          else let data = line_end + 2; avail = hr_len h - data; takes = (if sz < avail then sz else avail)
            in hr_unchunk fuel (data + sz + 2) (w + takes) (hr_copy w data takes h))"

definition hr_finish :: "nat \<Rightarrow> hr \<Rightarrow> hr option" where
  "hr_finish fuel h =
     (if hr_finished h then Some h
      else if \<not> hr_hdr_done h then Some (h\<lparr>hr_body_start := 0, hr_body_len := hr_len h, hr_finished := True\<rparr>)
      else map_option (\<lambda>h. h\<lparr>hr_finished := True\<rparr>)
        (if hr_chunked h
         then map_option (\<lambda>(w, h). h\<lparr>hr_body_len := w - hr_body_start h\<rparr>) (hr_unchunk fuel (hr_body_start h) (hr_body_start h) h)
         else let h = h\<lparr>hr_body_len := hr_len h - hr_body_start h\<rparr>
              in Some (if hr_have_clen h \<and> hr_clen h < hr_body_len h then h\<lparr>hr_body_len := hr_clen h\<rparr> else h)))"

definition hr_is_redirect :: "hr \<Rightarrow> bool" where
  "hr_is_redirect h =
     ((hr_status h = 301 \<or> hr_status h = 302 \<or> hr_status h = 303 \<or> hr_status h = 307 \<or> hr_status h = 308)
      \<and> hr_location h ! 0 \<noteq> 0)"

definition hr_size_fatal :: "hr \<Rightarrow> bool" where
  "hr_size_fatal h = ((hr_truncated h \<or> hr_too_big h) \<and> \<not> hr_is_redirect h)"

subsection \<open>The buffer as a list\<close>

lemma HR_BUF_SIZE_nat: "unat HR_BUF_SIZE = 262144" by (simp add: HR_BUF_SIZE_def)

lemma length_hr_bytes [simp]: "length (hr_bytes h a b) = unat b - unat a"
  by (simp add: hr_bytes_def)

lemma nth_hr_bytes: "i < unat b - unat a \<Longrightarrow> hr_bytes h a b ! i = hr_buf h (a + of_nat i)"
  by (simp add: hr_bytes_def add.commute)

lemma unat_add_small: "unat x + n < 4294967296 \<Longrightarrow> unat (x + of_nat n) = unat x + n" for x :: u32
  using unat_of_nat_u32 [of n] by (simp add: unat_word_ariths)

lemma hr_line_end_at:
  assumes "\<And>i. i < k \<Longrightarrow> hr_buf h (p + of_nat i) \<noteq> CR" "hr_buf h (p + of_nat k) = CR" "hr_buf h (p + of_nat k + 1) = LF"
    and "unat p + k + 1 < unat (hr_len h)"
  shows "hr_line_end h p = p + of_nat k"
  using assms
proof (induction k arbitrary: p)
  case 0
  thus ?case by (subst hr_line_end.simps) simp
next
  case (Suc k)
  have "unat p + 1 < 4294967296" "unat (p + 1) = unat p + 1"
    using Suc.prems(4) unat_u32_lt [of "hr_len h"] unat_add_small [of p 1] by simp_all
  moreover have "hr_buf h p \<noteq> CR" using Suc.prems(1) [of 0] by simp
  ultimately have "hr_line_end h p = hr_line_end h (p + 1)"
    using Suc.prems(4) by (subst hr_line_end.simps) (simp add: word_less_nat_alt)
  also have "\<dots> = p + 1 + of_nat k"
  proof (rule Suc.IH)
    fix i assume "i < k"
    thus "hr_buf h (p + 1 + of_nat i) \<noteq> CR" using Suc.prems(1) [of "Suc i"] by (simp add: add.assoc)
  qed (use Suc.prems \<open>unat (p + 1) = unat p + 1\<close> in \<open>simp_all add: algebra_simps\<close>)
  finally show ?case by (simp add: algebra_simps)
qed

lemma hr_line_end_ge:
  "unat p \<le> unat (hr_len h) \<Longrightarrow> hr_len h \<le> HR_BUF_SIZE \<Longrightarrow>
   unat p \<le> unat (hr_line_end h p) \<and> unat (hr_line_end h p) \<le> unat (hr_len h)"
proof (induction h p rule: hr_line_end.induct)
  case (1 h p)
  have "unat (hr_len h) \<le> 262144" using 1(3) HR_BUF_SIZE_nat by (simp add: word_le_nat_alt)
  hence u: "unat (p + 1) = unat p + 1" using 1(2) unat_add_small [of p 1] by simp
  show ?case
  proof (cases "p + 1 < hr_len h \<and> \<not> (hr_buf h p = CR \<and> hr_buf h (p + 1) = LF)")
    case True
    hence "unat (p + 1) \<le> unat (hr_len h)" by (simp add: word_less_nat_alt)
    thus ?thesis using 1(1) [OF True _ 1(3)] u True by (subst (1 2) hr_line_end.simps) simp
  next
    case False
    thus ?thesis using 1(2) by (subst (1 2) hr_line_end.simps) auto
  qed
qed

subsection \<open>Walking the chunks\<close>

text \<open>No size line of the buffer makes the walker's sum of its end, the size and the four CR LF bytes wrap.\<close>

definition sizes_fit :: "hr \<Rightarrow> bool" where
  "sizes_fit h \<longleftrightarrow> (\<forall>p < hr_len h. let le = hr_line_end h p in unat le + unat (fst (hr_size_line h p le)) + 4 < 4294967296)"

lemma hr_frame:
  "hr_line_end (h\<lparr>hr_chunk_pos := c\<rparr>) p = hr_line_end h p"
  "hr_size_line (h\<lparr>hr_chunk_pos := c\<rparr>) p e = hr_size_line h p e"
proof -
  show "hr_line_end (h\<lparr>hr_chunk_pos := c\<rparr>) p = hr_line_end h p"
  proof (induction h p rule: hr_line_end.induct)
    case (1 h p)
    show ?case
    proof (cases "p + 1 < hr_len h \<and> \<not> (hr_buf h p = CR \<and> hr_buf h (p + 1) = LF)")
      case True
      show ?thesis using 1 [OF True] True by (subst (1 2) hr_line_end.simps) simp
    next
      case False
      thus ?thesis by (subst (1 2) hr_line_end.simps) auto
    qed
  qed
qed (simp add: hr_size_line_def hr_bytes_def)

lemma hr_walk_step_Inr:
  assumes "hr_walk_step h = Inr h'" "unat (hr_chunk_pos h) \<le> unat (hr_len h)" "hr_len h \<le> HR_BUF_SIZE" "sizes_fit h"
  shows "h' = h\<lparr>hr_chunk_pos := hr_chunk_pos h'\<rparr>" "unat (hr_chunk_pos h) < unat (hr_chunk_pos h')"
    "unat (hr_chunk_pos h') \<le> unat (hr_len h')" "hr_len h' \<le> HR_BUF_SIZE" "sizes_fit h'" "hr_len h' = hr_len h"
proof -
  let ?p = "hr_chunk_pos h"
  let ?e = "hr_line_end h ?p"
  obtain sz any where s: "hr_size_line h ?p ?e = (sz, any)" by fastforce
  have n: "h' = h\<lparr>hr_chunk_pos := ?e + 2 + sz + 2\<rparr>" "\<not> (?e + 2 + sz + 2 > hr_len h)" "?e + 1 < hr_len h"
    using assms(1) unfolding hr_walk_step_def Let_def s by (auto split: if_splits simp: not_le)
  have e: "unat ?p \<le> unat ?e" "unat ?e \<le> unat (hr_len h)" using hr_line_end_ge [OF assms(2,3)] by simp_all
  have L: "unat (hr_len h) \<le> 262144" using assms(3) HR_BUF_SIZE_nat by (simp add: word_le_nat_alt)
  have "unat (?e + 1) = unat ?e + 1" using e L unat_add_small [of ?e 1] by simp
  hence "?p < hr_len h" using n(3) e by (simp add: word_less_nat_alt)
  hence f: "unat ?e + unat sz + 4 < 4294967296" 
    using assms(4) [unfolded sizes_fit_def Let_def, rule_format, of ?p] unfolding s by simp
  have "?e + 2 + sz + 2 = ?e + of_nat (unat sz + 4)" by simp
  hence u: "unat (?e + 2 + sz + 2) = unat ?e + unat sz + 4" using f unat_add_small [of ?e "unat sz + 4"] by (metis add.assoc)
  show c: "h' = h\<lparr>hr_chunk_pos := hr_chunk_pos h'\<rparr>" using n(1) by simp
  show "unat ?p < unat (hr_chunk_pos h')" using n(1) u e by simp
  show "unat (hr_chunk_pos h') \<le> unat (hr_len h')" using n(1,2) by (simp add: word_less_nat_alt not_less)
  show "hr_len h' \<le> HR_BUF_SIZE" using n(1) assms(3) by simp
  show "hr_len h' = hr_len h" using n(1) by simp
  show "sizes_fit h'" using assms(4) unfolding n(1) sizes_fit_def hr_frame by simp
qed

lemma hr_walk_some:
  assumes "unat (hr_len h) - unat (hr_chunk_pos h) < fuel" "unat (hr_chunk_pos h) \<le> unat (hr_len h)" "hr_len h \<le> HR_BUF_SIZE" "sizes_fit h"
  shows "\<exists>h'. hr_walk_chunks fuel h = Some h'"
  using assms
proof (induction fuel h rule: hr_walk_chunks.induct)
  case (2 fuel h)
  show ?case
  proof (cases "hr_walk_step h")
    case (Inr h')
    note s = hr_walk_step_Inr [OF Inr 2(3-5)]
    show ?thesis using 2(1) [OF Inr _ s(3-5)] s(2,3,6) 2(2) Inr by simp
  qed simp
qed simp

text \<open>The chunk walker ends: whatever bytes are in the buffer, if no size line in them makes the 32-bit sum
  of the next position wrap, hr_walk_chunks returns after at most one turn for every byte received.\<close>

theorem hr_walk_terminates:
  assumes "hr_chunk_pos h \<le> hr_len h" "hr_len h \<le> HR_BUF_SIZE" "sizes_fit h"
  shows "\<exists>h'. hr_walk_chunks (Suc (unat (hr_len h))) h = Some h'"
  using assms by (intro hr_walk_some) (simp_all add: word_le_nat_alt)

lemma hang_line: "[70, 70, 70, 70, 70, 70, 70, 52] = ascii ''FFFFFFF4''"
  by (simp add: ascii_def)

text \<open>The chunk walker can hang: with the size line FFFFFFF4 at its position, the next position is the same
  one, and hr_walk_chunks returns for no number of turns.\<close>

theorem hr_walk_hangs:
  assumes "\<forall>i < 10. hr_buf h (hr_chunk_pos h + of_nat i) = (ascii ''FFFFFFF4'' @ [CR, LF]) ! i"
    and "unat (hr_chunk_pos h) + 9 < unat (hr_len h)"
  shows "hr_walk_chunks fuel h = None"
proof -
  let ?p = "hr_chunk_pos h"
  have b: "hr_buf h (?p + of_nat i) = ([70, 70, 70, 70, 70, 70, 70, 52, CR, LF] :: bytes) ! i" if "i < 10" for i
    using assms(1) that by (simp add: ascii_def)
  have d: "i < 8 \<Longrightarrow> i = 0 \<or> i = 1 \<or> i = 2 \<or> i = 3 \<or> i = 4 \<or> i = 5 \<or> i = 6 \<or> i = 7" for i :: nat by linarith
  have "hr_buf h (?p + of_nat i) \<noteq> CR" if "i < 8" for i using d [OF that] b [of i] by auto
  moreover have "hr_buf h (?p + of_nat 8) = CR" using b [of 8] by simp
  moreover have "hr_buf h (?p + of_nat 8 + 1) = LF" using b [of 9] by (simp add: add.assoc)
  ultimately have e: "hr_line_end h ?p = ?p + 8" using hr_line_end_at [of 8 h ?p] assms(2) by simp
  have u: "unat (?p + of_nat k) = unat ?p + k" if "k \<le> 9" for k
    using that assms(2) unat_u32_lt [of "hr_len h"] unat_add_small [of ?p k] by linarith
  have "hr_bytes h ?p (?p + 8) = [70, 70, 70, 70, 70, 70, 70, 52]"
  proof (rule nth_equalityI)
    show "length (hr_bytes h ?p (?p + 8)) = length ([70, 70, 70, 70, 70, 70, 70, 52] :: bytes)" using u [of 8] by simp
    fix i assume "i < length (hr_bytes h ?p (?p + 8))"
    hence i: "i < 8" "i < unat (?p + 8) - unat ?p" using u [of 8] by simp_all
    show "hr_bytes h ?p (?p + 8) ! i = [70, 70, 70, 70, 70, 70, 70, 52] ! i"
      unfolding nth_hr_bytes [OF i(2)] using d [OF i(1)] b [of i] by auto
  qed
  hence s: "hr_size_line h ?p (?p + 8) = (0xFFFFFFF4, True)"
    by (simp add: hr_size_line_def hr_hexval_def is_digit_def Let_def)
  have a: "\<not> (?p + 8 + 1 \<ge> hr_len h)" "\<not> ?p > hr_len h" using u [of 9] assms(2) by (simp_all add: word_le_nat_alt word_less_nat_alt add.assoc)
  have n: "?p + 8 + 2 + 0xFFFFFFF4 + 2 = ?p" by simp
  have "hr_walk_step h = Inr h" unfolding hr_walk_step_def Let_def e s prod.case n using a by simp
  thus ?thesis by (induction fuel) simp_all
qed

definition hr_demo :: "bytes \<Rightarrow> hr" where
  "hr_demo bs = \<lparr>hr_buf = (\<lambda>i. if unat i < length bs then bs ! unat i else 0), hr_len = of_nat (length bs),
     hr_truncated = False, hr_too_big = False, hr_hdr_done = True, hr_body_start = 0, hr_status = 200, hr_chunked = True,
     hr_have_clen = False, hr_clen = 0, hr_encoded = False, hr_complete = False, hr_chunk_pos = 0, hr_finished = False,
     hr_body_len = 0, hr_location = replicate 400 0, hr_content_type = replicate 64 0\<rparr>"

lemma less_10: "(i :: nat) < 10 \<Longrightarrow> i = 0 \<or> i = 1 \<or> i = 2 \<or> i = 3 \<or> i = 4 \<or> i = 5 \<or> i = 6 \<or> i = 7 \<or> i = 8 \<or> i = 9"
  by presburger

lemma hr_walk_hangs_witness:
  "hr_walk_chunks 1000 (hr_demo (ascii ''FFFFFFF4'' @ [CR, LF, 104, 105])) = None"
proof (rule hr_walk_hangs)
  show "\<forall>i < 10. hr_buf (hr_demo (ascii ''FFFFFFF4'' @ [CR, LF, 104, 105])) (hr_chunk_pos (hr_demo (ascii ''FFFFFFF4'' @ [CR, LF, 104, 105])) + of_nat i) =
      (ascii ''FFFFFFF4'' @ [CR, LF]) ! i"
    by (auto simp: hr_demo_def ascii_def dest!: less_10)
  show "unat (hr_chunk_pos (hr_demo (ascii ''FFFFFFF4'' @ [CR, LF, 104, 105]))) + 9 < unat (hr_len (hr_demo (ascii ''FFFFFFF4'' @ [CR, LF, 104, 105])))"
    by (simp add: hr_demo_def ascii_def)
qed

lemma hr_walk_terminates_witness:
  "\<exists>h'. hr_walk_chunks 7 (hr_demo [49, CR, LF, 97, CR, LF]) = Some h'"
proof -
  let ?h = "hr_demo [49, CR, LF, 97, CR, LF]"
  have p: "p = 0 \<or> p = 1 \<or> p = 2 \<or> p = 3 \<or> p = 4 \<or> p = 5" if "p < hr_len ?h" for p
  proof -
    have "unat p < 6" using that by (simp add: hr_demo_def word_less_nat_alt)
    hence "unat p = 0 \<or> unat p = 1 \<or> unat p = 2 \<or> unat p = 3 \<or> unat p = 4 \<or> unat p = 5" by presburger
    thus ?thesis by (auto simp: word_unat_eq_iff)
  qed
  have "sizes_fit ?h" unfolding sizes_fit_def Let_def
  proof (intro allI impI)
    fix p assume "p < hr_len ?h"
    from p [OF this] show "unat (hr_line_end ?h p) + unat (fst (hr_size_line ?h p (hr_line_end ?h p))) + 4 < 4294967296"
      by (elim disjE) (simp_all add: hr_demo_def hr_line_end.simps hr_size_line_def hr_bytes_def upt_rec hr_hexval_def is_digit_def)
  qed
  thus ?thesis using hr_walk_terminates [of ?h] by (simp add: hr_demo_def HR_BUF_SIZE_def)
qed

subsection \<open>Decoding in place\<close>

text \<open>The chunked coding of RFC 7230, 4.1: the length in hex, CR LF, the bytes, CR LF, and a last empty chunk.\<close>

definition hex_digit :: "nat \<Rightarrow> u8" where "hex_digit n = (if n < 10 then of_nat (48 + n) else of_nat (87 + n))"

fun hex_line :: "nat \<Rightarrow> bytes" where
  "hex_line n = (if n < 16 then [hex_digit n] else hex_line (n div 16) @ [hex_digit (n mod 16)])"

declare hex_line.simps [simp del]

definition chunk :: "bytes \<Rightarrow> bytes" where "chunk c = hex_line (length c) @ [CR, LF] @ c @ [CR, LF]"

definition chunked_body :: "bytes list \<Rightarrow> bytes" where
  "chunked_body cs = concat (map chunk cs) @ [48, CR, LF, CR, LF]"

lemma hex_digit: "n < 16 \<Longrightarrow> hr_hexval (hex_digit n) = int n" "n < 16 \<Longrightarrow> hex_digit n \<noteq> CR"
proof -
  have "hr_hexval (hex_digit n) = int n \<and> hex_digit n \<noteq> CR" if "n < 16"
    using less_16 [OF that] by (elim disjE) (simp_all add: hr_hexval_def hex_digit_def is_digit_def)
  thus "n < 16 \<Longrightarrow> hr_hexval (hex_digit n) = int n" "n < 16 \<Longrightarrow> hex_digit n \<noteq> CR" by simp_all
qed

lemma hex_line_ne: "hex_line n \<noteq> []" by (simp add: hex_line.simps [of n])

lemma hex_line_CR: "CR \<notin> set (hex_line n)"
proof (induction n rule: hex_line.induct)
  case (1 n)
  show ?case using 1 hex_digit(2) [of n] hex_digit(2) [of "n mod 16"] by (auto simp: hex_line.simps [of n])
qed

lemma hr_hex_append: "\<forall>c \<in> set xs. \<not> hr_hexval c < 0 \<Longrightarrow> hr_hex (xs @ ys) s = hr_hex ys (hr_hex xs s)"
  by (induction xs s rule: hr_hex.induct) (simp_all add: Let_def)

lemma shift4: "n < 2 ^ 28 \<Longrightarrow> d < 16 \<Longrightarrow> push_bit 4 (of_nat n :: u32) OR of_nat d = of_nat (n * 16 + d)"
proof -
  assume n: "n < 2 ^ 28" and d: "d < 16"
  have "push_bit 4 (of_nat n :: u32) AND of_nat d = 0"
  proof (rule bit_word_eqI)
    fix k assume "k < LENGTH(32)"
    have "\<not> bit d k" if "4 \<le> k"
    proof -
      have "take_bit 4 d = d" using d by (simp add: take_bit_nat_eq_self)
      thus ?thesis using that by (metis bit_take_bit_iff not_less)
    qed
    moreover have "bit (of_nat d :: u32) k = bit d k"
      using bit_unsigned_iff [where 'a = nat, of "of_nat d :: u32" k] unat_of_nat_u32 [of d] d by simp
    ultimately show "bit (push_bit 4 (of_nat n :: u32) AND of_nat d) k = bit 0 k"
      unfolding bit_and_iff bit_push_bit_iff by auto
  qed
  hence "push_bit 4 (of_nat n :: u32) + of_nat d = push_bit 4 (of_nat n :: u32) OR of_nat d" by (rule disjunctive_add_eq_or)
  moreover have "push_bit 4 (of_nat n :: u32) = of_nat (n * 16)" by (simp add: push_bit_eq_mult)
  ultimately show ?thesis by (simp only: of_nat_add)
qed

lemma hex_line_digits: "\<forall>c \<in> set (hex_line n). \<not> hr_hexval c < 0"
proof (induction n rule: hex_line.induct)
  case (1 n)
  show ?case using 1 hex_digit(1) [of n] hex_digit(1) [of "n mod 16"] by (auto simp: hex_line.simps [of n])
qed

lemma hr_hex_line: "n < 2 ^ 32 \<Longrightarrow> hr_hex (hex_line n) (0, a) = (of_nat n, True)"
proof (induction n arbitrary: a rule: hex_line.induct)
  case (1 n)
  show ?case
  proof (cases "n < 16")
    case True
    thus ?thesis using hex_digit(1) [OF True] shift4 [of 0 n] by (simp add: hex_line.simps [of n])
  next
    case False
    have "n div 16 < 2 ^ 28" "n div 16 < 2 ^ 32" using 1(2) by (simp_all add: div_less_iff_less_mult)
    thus ?thesis using 1(1) [OF False] False hex_digit(1) [of "n mod 16"] shift4 [of "n div 16" "n mod 16"]
      by (simp add: hex_line.simps [of n] hr_hex_append hex_line_digits)
  qed
qed

lemma hr_copy_buf:
  assumes "unat w \<le> unat d" "unat d + unat n < 4294967296"
  shows "hr_buf (hr_copy w d n h) x =
    (if unat w \<le> unat x \<and> unat x < unat w + unat n then hr_buf h (d + (x - w)) else hr_buf h x)"
proof -
  define F where "F = (\<lambda>i b. b(w + of_nat i := (b :: u32 \<Rightarrow> u8) (d + of_nat i)))"
  have F: "F i b x = (if x = w + of_nat i then b (d + of_nat i) else b x)" for i b x by (simp add: F_def)
  have "fold F [0..<m] b x = (if unat w \<le> unat x \<and> unat x < unat w + m then b (d + (x - w)) else b x)"
    if "m \<le> unat n" for m and b :: "u32 \<Rightarrow> u8"
    using that
  proof (induction m arbitrary: x)
    case (Suc m)
    let ?b = "fold F [0..<m] b"
    have u: "unat (w + of_nat m) = unat w + m" "unat (d + of_nat m) = unat d + m"
      using Suc.prems assms unat_add_small [of w m] unat_add_small [of d m] by linarith+
    have src: "?b (d + of_nat m) = b (d + of_nat m)" using Suc.IH [of "d + of_nat m"] Suc.prems assms(1) u by simp
    show ?case
    proof (cases "x = w + of_nat m")
      case True
      thus ?thesis using src u F [of m "fold F [0..<m] b" x] by simp
    next
      case False
      hence "unat x \<noteq> unat w + m" using u by (metis word_unat_eq_iff)
      thus ?thesis using False Suc F [of m "fold F [0..<m] b" x] by (simp add: less_Suc_eq)
    qed
  qed auto
  thus ?thesis by (simp add: hr_copy_def F_def)
qed

lemma hr_bytes_cong:
  "(\<And>i. unat a \<le> i \<Longrightarrow> i < unat b \<Longrightarrow> hr_buf h (of_nat i) = hr_buf h' (of_nat i)) \<Longrightarrow> hr_bytes h a b = hr_bytes h' a b"
  by (simp add: hr_bytes_def)

lemma hr_bytes_append:
  assumes "unat a \<le> unat b" "unat b \<le> unat c"
  shows "hr_bytes h a c = hr_bytes h a b @ hr_bytes h b c"
  using assms upt_add_eq_append [of "unat a" "unat b" "unat c - unat b"] by (simp add: hr_bytes_def)

lemma hr_bytes_split:
  assumes "hr_bytes h a c = xs @ ys" "ys \<noteq> []"
  shows "hr_bytes h a (a + of_nat (length xs)) = xs" "hr_bytes h (a + of_nat (length xs)) c = ys"
    "unat (a + of_nat (length xs)) = unat a + length xs"
proof -
  have l: "unat c - unat a = length xs + length ys" using arg_cong [OF assms(1), of length] by simp
  hence c: "unat a + length xs \<le> unat c" using assms(2) by (cases ys) auto
  show n: "unat (a + of_nat (length xs)) = unat a + length xs"
    using c unat_add_small [of a "length xs"] unat_u32_lt [of c] by simp
  hence "hr_bytes h a (a + of_nat (length xs)) @ hr_bytes h (a + of_nat (length xs)) c = xs @ ys"
    using hr_bytes_append [of a "a + of_nat (length xs)" c h] c assms(1) by simp
  moreover have "length (hr_bytes h a (a + of_nat (length xs))) = length xs" using n by simp
  ultimately show "hr_bytes h a (a + of_nat (length xs)) = xs" "hr_bytes h (a + of_nat (length xs)) c = ys" by simp_all
qed

text \<open>What the two loops find at a size line.\<close>

lemma size_line_at:
  assumes b: "hr_bytes h r (hr_len h) = hex_line n @ [CR, LF] @ ys" and n: "n < 2 ^ 32"
  shows "hr_line_end h r = r + of_nat (length (hex_line n))"
    "hr_size_line h r (r + of_nat (length (hex_line n))) = (of_nat n, True)"
    "unat (r + of_nat (length (hex_line n))) = unat r + length (hex_line n)"
    "unat r + length (hex_line n) + 2 + length ys = unat (hr_len h)"
proof -
  let ?k = "length (hex_line n)"
  have l: "unat (hr_len h) - unat r = ?k + 2 + length ys" using arg_cong [OF b, of length] by simp
  thus L: "unat r + ?k + 2 + length ys = unat (hr_len h)" by linarith
  have at: "hr_buf h (r + of_nat i) = (hex_line n @ [CR, LF] @ ys) ! i" if "i < ?k + 2 + length ys" for i
    using that l b nth_hr_bytes [of i "hr_len h" r h] by simp
  have "hr_buf h (r + of_nat i) \<noteq> CR" if "i < ?k" for i
    using at [of i] that hex_line_CR [of n] nth_mem [OF that] by (metis nth_append trans_less_add1)
  moreover have "hr_buf h (r + of_nat ?k) = CR" using at [of ?k] by (simp add: nth_append)
  moreover have "hr_buf h (r + of_nat ?k + 1) = LF"
  proof -
    have e: "r + of_nat ?k + 1 = r + of_nat (Suc ?k)" by (simp only: of_nat_Suc ac_simps)
    show ?thesis unfolding e using at [of "Suc ?k"] by (simp add: nth_append del: of_nat_Suc)
  qed
  ultimately show "hr_line_end h r = r + of_nat ?k" using L by (intro hr_line_end_at) simp_all
  note s = hr_bytes_split [OF b]
  show "unat (r + of_nat ?k) = unat r + ?k" using s(3) by simp
  show "hr_size_line h r (r + of_nat ?k) = (of_nat n, True)" using s(1) n by (simp add: hr_size_line_def hr_hex_line)
qed

lemma hr_unchunk_last:
  assumes "hr_bytes h r (hr_len h) = [48, CR, LF, CR, LF]"
  shows "hr_unchunk (Suc fuel) r w h = Some (w, h)"
proof -
  have "hex_line 0 = [48]" by (simp add: hex_line.simps [of 0] hex_digit_def)
  hence "hr_bytes h r (hr_len h) = hex_line 0 @ [CR, LF] @ [CR, LF]" using assms by simp
  note s = size_line_at [OF this]
  have "r < hr_len h" using s(4) by (simp add: word_less_nat_alt)
  thus ?thesis using s(1,2) by (simp add: Let_def)
qed

lemma chunked_body_Cons:
  "chunked_body (c # cs) = hex_line (length c) @ [CR, LF] @ c @ [CR, LF] @ chunked_body cs"
  by (simp add: chunked_body_def chunk_def)

lemma hr_unchunk_Cons:
  assumes b: "hr_bytes h r (hr_len h) = chunked_body (c # cs)" and c: "c \<noteq> []" and w: "unat w \<le> unat r"
  obtains d where "unat d = unat r + length (hex_line (length c)) + 2"
    "hr_unchunk (Suc fuel) r w h = hr_unchunk fuel (d + of_nat (length c + 2)) (w + of_nat (length c)) (hr_copy w d (of_nat (length c)) h)"
    "hr_bytes h d (d + of_nat (length c)) = c" "hr_bytes h (d + of_nat (length c + 2)) (hr_len h) = chunked_body cs"
    "unat (d + of_nat (length c + 2)) = unat d + length c + 2" "unat d + length c + 2 \<le> unat (hr_len h)"
proof -
  let ?k = "length (hex_line (length c))" and ?ys = "c @ [CR, LF] @ chunked_body cs"
  have L: "unat (hr_len h) - unat r = ?k + 2 + length ?ys" using arg_cong [OF b, of length] by (simp add: chunked_body_Cons)
  have n: "length c < 2 ^ 32" using L unat_u32_lt [of "hr_len h"] by simp
  have b1: "hr_bytes h r (hr_len h) = hex_line (length c) @ [CR, LF] @ ?ys" using b by (simp add: chunked_body_Cons)
  note s = size_line_at [OF b1 n]
  have b2: "hr_bytes h r (hr_len h) = (hex_line (length c) @ [CR, LF]) @ ?ys" using b1 by simp
  have ne: "chunked_body cs \<noteq> []" by (simp add: chunked_body_def)
  define d where "d = r + of_nat (?k + 2)"
  have d: "hr_bytes h d (hr_len h) = ?ys" "unat d = unat r + ?k + 2"
    using hr_bytes_split(2,3) [OF b2] ne by (simp_all add: d_def)
  have b3: "hr_bytes h d (hr_len h) = (c @ [CR, LF]) @ chunked_body cs" using d(1) by simp
  note r' = hr_bytes_split(2,3) [OF b3 ne] and cc = hr_bytes_split(1) [OF d(1)]
  have e: "r + of_nat ?k + 1 = r + of_nat (Suc ?k)" by (simp only: of_nat_Suc ac_simps)
  have "unat (r + of_nat ?k + 1) = unat r + ?k + 1"
    unfolding e using s(4) unat_add_small [of r "Suc ?k"] unat_u32_lt [of "hr_len h"] by (simp del: of_nat_Suc)
  hence lt: "r < hr_len h" "\<not> (r + of_nat ?k + 1 \<ge> hr_len h)"
    using s(4) by (simp_all add: word_less_nat_alt word_le_nat_alt)
  have dd: "r + of_nat ?k + 2 = d" by (simp add: d_def)
  have "unat d \<le> unat (hr_len h)" using s(4) d(2) by simp
  hence av: "unat (hr_len h - d) = unat (hr_len h) - unat d" by (simp add: unat_sub word_le_nat_alt)
  have lc: "unat (of_nat (length c) :: u32) = length c" using n by (simp add: unat_of_nat_u32)
  have tk: "(of_nat (length c) :: u32) < hr_len h - d" using av lc s(4) d(2) by (simp add: word_less_nat_alt)
  have nz: "(of_nat (length c) :: u32) \<noteq> 0" using lc c by (metis length_0_conv unat_0)
  have "hr_unchunk (Suc fuel) r w h = hr_unchunk fuel (d + of_nat (length c + 2)) (w + of_nat (length c)) (hr_copy w d (of_nat (length c)) h)"
  proof -
    have n: "d + of_nat (length c) + 2 = d + of_nat (length c + 2)" by (simp only: of_nat_add of_nat_numeral add.assoc)
    show ?thesis unfolding hr_unchunk.simps(2) Let_def s(1,2) prod.case dd n using lt nz tk by simp
  qed
  thus thesis using that [of d] d(2) cc r' s(4) by simp
qed

lemma hr_unchunk_val:
  assumes "hr_bytes h r (hr_len h) = chunked_body cs" "[] \<notin> set cs" "unat w \<le> unat r" "length cs < fuel"
  shows "\<exists>w' h'. hr_unchunk fuel r w h = Some (w', h') \<and> unat w' = unat w + length (concat cs) \<and> hr_bytes h' w w' = concat cs \<and>
    (\<forall>x. unat x < unat w \<longrightarrow> hr_buf h' x = hr_buf h x) \<and> h' = h\<lparr>hr_buf := hr_buf h'\<rparr>"
  using assms
proof (induction cs arbitrary: h r w fuel)
  case Nil
  then obtain f where f: "fuel = Suc f" by (cases fuel) auto
  have "hr_unchunk fuel r w h = Some (w, h)" unfolding f
    using Nil(1) by (intro hr_unchunk_last) (simp add: chunked_body_def)
  thus ?case by (simp add: hr_bytes_def)
next
  case (Cons c cs)
  obtain f where f: "fuel = Suc f" using Cons(5) by (cases fuel) auto
  have "c \<noteq> []" using Cons(3) by auto
  note U = hr_unchunk_Cons [OF Cons(2) this Cons(4), of f]
  obtain d where d: "unat d = unat r + length (hex_line (length c)) + 2"
    "hr_unchunk fuel r w h = hr_unchunk f (d + of_nat (length c + 2)) (w + of_nat (length c)) (hr_copy w d (of_nat (length c)) h)"
    "hr_bytes h d (d + of_nat (length c)) = c" "hr_bytes h (d + of_nat (length c + 2)) (hr_len h) = chunked_body cs"
    "unat (d + of_nat (length c + 2)) = unat d + length c + 2" "unat d + length c + 2 \<le> unat (hr_len h)"
    unfolding f by (rule U) blast
  let ?h = "hr_copy w d (of_nat (length c)) h" and ?w = "w + of_nat (length c)" and ?r = "d + of_nat (length c + 2)"
  have bd: "unat d + length c + 2 < 4294967296" using d(6) unat_u32_lt [of "hr_len h"] by simp
  have lc: "unat (of_nat (length c) :: u32) = length c" using bd by (simp add: unat_of_nat_u32)
  have W: "unat ?w = unat w + length c" using bd d(1) Cons(4) unat_add_small [of w "length c"] by simp
  have buf: "hr_buf ?h x = (if unat w \<le> unat x \<and> unat x < unat w + length c then hr_buf h (d + (x - w)) else hr_buf h x)" for x
    using hr_copy_buf [of w d "of_nat (length c)" h x] bd d(1) Cons(4) lc by simp
  have len: "hr_len ?h = hr_len h" by (simp add: hr_copy_def)
  have "hr_bytes ?h ?r (hr_len ?h) = chunked_body cs"
  proof -
    have "hr_bytes ?h ?r (hr_len h) = hr_bytes h ?r (hr_len h)"
    proof (rule hr_bytes_cong)
      fix i assume i: "unat ?r \<le> i" "i < unat (hr_len h)"
      hence "unat (of_nat i :: u32) = i" using unat_u32_lt [of "hr_len h"] by (simp add: unat_of_nat_u32)
      thus "hr_buf ?h (of_nat i) = hr_buf h (of_nat i)" using i d(1,5) Cons(4) by (simp add: buf)
    qed
    thus ?thesis using d(4) len by simp
  qed
  then obtain w' h' where ih: "hr_unchunk f ?r ?w ?h = Some (w', h')" "unat w' = unat ?w + length (concat cs)" "hr_bytes h' ?w w' = concat cs"
      "\<forall>x. unat x < unat ?w \<longrightarrow> hr_buf h' x = hr_buf ?h x" "h' = ?h\<lparr>hr_buf := hr_buf h'\<rparr>"
    using Cons(1) [of ?h ?r ?w f] Cons(3,4,5) W d(1,5) f by auto
  have "hr_bytes h' w ?w = c"
  proof (rule nth_equalityI)
    show l: "length (hr_bytes h' w ?w) = length c" using W by simp
    fix i assume i: "i < length (hr_bytes h' w ?w)"
    hence "unat (w + of_nat i) = unat w + i" using W unat_u32_lt [of ?w] unat_add_small [of w i] by simp
    hence "hr_buf h' (w + of_nat i) = hr_buf h (d + of_nat i)" using ih(4) W i l by (simp add: buf)
    moreover have "unat (d + of_nat (length c)) = unat d + length c" using bd unat_add_small [of d "length c"] by simp
    ultimately show "hr_bytes h' w ?w ! i = c ! i" using nth_hr_bytes [of i ?w w h'] nth_hr_bytes [of i "d + of_nat (length c)" d h] d(3) i l by simp
  qed
  hence "hr_bytes h' w w' = concat (c # cs)" using hr_bytes_append [of w ?w w' h'] ih(2,3) W by simp
  moreover have "\<forall>x. unat x < unat w \<longrightarrow> hr_buf h' x = hr_buf h x" using ih(4) W by (simp add: buf)
  moreover have "h' = h\<lparr>hr_buf := hr_buf h'\<rparr>" using ih(5) by (simp add: hr_copy_def)
  ultimately show ?case using d(2) ih(1,2) W by (intro exI [of _ w'] exI [of _ h']) simp
qed


text \<open>Claim C40. Chunked bodies are decoded exactly, in place: when the stored body is the chunked coding of any list of
  nonempty chunks, hr_finish returns with one turn per chunk and one more, and the bytes at body_start are the
  concatenation of the chunks, body_len their number; everything before the body is untouched.\<close>

theorem hr_finish_dechunks:
  assumes "hr_hdr_done h" "hr_chunked h" "\<not> hr_finished h" "[] \<notin> set cs"
    and "hr_bytes h (hr_body_start h) (hr_len h) = chunked_body cs"
  shows "\<exists>h'. hr_finish (Suc (length cs)) h = Some h' \<and> hr_finished h' \<and> hr_body_start h' = hr_body_start h \<and>
    unat (hr_body_len h') = length (concat cs) \<and> hr_bytes h' (hr_body_start h') (hr_body_start h' + hr_body_len h') = concat cs \<and>
    (\<forall>x. x < hr_body_start h \<longrightarrow> hr_buf h' x = hr_buf h x)"
proof -
  obtain w' h' where u: "hr_unchunk (Suc (length cs)) (hr_body_start h) (hr_body_start h) h = Some (w', h')"
      "unat w' = unat (hr_body_start h) + length (concat cs)" "hr_bytes h' (hr_body_start h) w' = concat cs"
      "\<forall>x. unat x < unat (hr_body_start h) \<longrightarrow> hr_buf h' x = hr_buf h x" "h' = h\<lparr>hr_buf := hr_buf h'\<rparr>"
    using hr_unchunk_val [OF assms(5,4) order_refl, of "Suc (length cs)"] by auto
  have "hr_body_start h' = hr_body_start h" by (subst u(5)) simp
  moreover have "unat (w' - hr_body_start h) = length (concat cs)" using u(2) by (simp add: unat_sub word_le_nat_alt)
  moreover have "hr_bytes (h'\<lparr>hr_body_len := l, hr_finished := True\<rparr>) a b = hr_bytes h' a b" for l a b by (simp add: hr_bytes_def)
  ultimately show ?thesis using assms(1-3) u(1,3,4) by (simp add: hr_finish_def word_less_nat_alt)
qed

lemma hr_finish_dechunks_witness:
  "\<exists>h'. hr_finish 3 (hr_demo [50, CR, LF, 104, 101, CR, LF, 49, CR, LF, 121, CR, LF, 48, CR, LF, CR, LF]) = Some h' \<and>
    hr_bytes h' (hr_body_start h') (hr_body_start h' + hr_body_len h') = [104, 101, 121]"
proof -
  let ?h = "hr_demo [50, CR, LF, 104, 101, CR, LF, 49, CR, LF, 121, CR, LF, 48, CR, LF, CR, LF]"
  have "hr_bytes ?h (hr_body_start ?h) (hr_len ?h) = chunked_body [[104, 101], [121]]"
    by (simp add: hr_demo_def hr_bytes_def upt_rec chunked_body_def chunk_def hex_line.simps hex_digit_def)
  moreover have "hr_hdr_done ?h" "hr_chunked ?h" "\<not> hr_finished ?h" by (simp_all add: hr_demo_def)
  moreover have "[] \<notin> set [[104, 101], [121 :: u8]]" by simp
  ultimately have "\<exists>h'. hr_finish (Suc (length [[104, 101], [121 :: u8]])) ?h = Some h' \<and>
      hr_bytes h' (hr_body_start h') (hr_body_start h' + hr_body_len h') = concat [[104, 101], [121]]"
    using hr_finish_dechunks [of ?h "[[104, 101], [121]]"] by blast
  moreover have "Suc (length [[104, 101], [121 :: u8]]) = 3" "concat [[104, 101], [121]] = [104, 101, 121 :: u8]" by simp_all
  ultimately show ?thesis by metis
qed

subsection \<open>Requests\<close>

text \<open>The pending form: its body, whether the next request is a POST. hr_post_len is the body's length.\<close>

record hr_post =
  hr_post_body :: bytes
  hr_post_active :: bool

definition hr_set_post :: "bytes \<Rightarrow> hr_post" where
  "hr_set_post body = \<lparr>hr_post_body = take HR_POST_MAX (takeWhile (\<lambda>c. c \<noteq> 0) body), hr_post_active = True\<rparr>"

text \<open>do { d[nd++] = '0' + v % 10; v /= 10; } while (v && nd < 10), read backwards.\<close>

fun hr_digits :: "nat \<Rightarrow> u32 \<Rightarrow> bytes" where
  "hr_digits 0 v = []"
| "hr_digits (Suc k) v = (if v div 10 = 0 then [] else hr_digits k (v div 10)) @ [48 + ucast (v mod 10)]"

definition hr_build_request :: "hr_post \<Rightarrow> bytes \<Rightarrow> bytes \<Rightarrow> bytes" where
  "hr_build_request p host_header path =
     (let post = hr_post_active p;
          clen = (if post then hr_digits 10 (of_nat (length (hr_post_body p))) else []);
          parts =
            [ascii (if post then ''POST '' else ''GET ''), path, ascii '' HTTP/1.1'' @ [CR, LF] @ ascii ''Host: '', host_header,
             [CR, LF] @ ascii ''User-Agent: Mozilla/5.0 (compatible; MiniWin/1.0; +https://github.com/SegFault777/MiniWin)''
             @ [CR, LF] @ ascii ''Accept: text/html,text/plain;q=0.9,*/*;q=0.5''
             @ [CR, LF] @ ascii ''Accept-Language: en-US,en;q=0.9,ko;q=0.8''
             @ [CR, LF] @ ascii ''Accept-Encoding: identity'',
             (if post then [CR, LF] @ ascii ''Content-Type: application/x-www-form-urlencoded'' @ [CR, LF] @ ascii ''Content-Length: '' else []),
             clen,
             [CR, LF] @ ascii ''Connection: close'' @ [CR, LF] @ [CR, LF],
             (if post then hr_post_body p else [])]
      in take 1900 (concat parts))"

subsection \<open>Feeding never overruns\<close>

text \<open>The header parser and the walker leave the stored bytes and their number alone.\<close>

definition same_store :: "hr \<Rightarrow> hr \<Rightarrow> bool" where
  "same_store h h' \<longleftrightarrow> hr_buf h' = hr_buf h \<and> hr_len h' = hr_len h \<and> hr_truncated h' = hr_truncated h"

lemma same_store_refl [simp]: "same_store h h" by (simp add: same_store_def)
lemma same_store_trans: "same_store a b \<Longrightarrow> same_store b c \<Longrightarrow> same_store a c" by (simp add: same_store_def)

lemma hr_parse_line_store: "same_store h (hr_parse_line line h)"
  by (simp add: hr_parse_line_def same_store_def Let_def split: option.split)

lemma hr_parse_lines_store: "same_store h (hr_parse_lines p h)"
proof (induction p h rule: hr_parse_lines.induct)
  case (1 p h)
  show ?case
  proof (cases "p = []")
    case False
    show ?thesis using same_store_trans [OF hr_parse_line_store 1 [OF False refl]] False by (subst hr_parse_lines.simps) (simp add: Let_def)
  qed (simp add: hr_parse_lines.simps)
qed

lemma hr_headers_arrived_store: "same_store h (hr_headers_arrived i h)"
proof -
  have "same_store h (hr_parse_headers e h)" for e h
    using hr_parse_lines_store [of "h\<lparr>hr_status := s\<rparr>" p for s p] by (simp add: hr_parse_headers_def Let_def same_store_def)
  note p = this [of "h\<lparr>hr_hdr_done := True, hr_body_start := i + 4\<rparr>" "i + 4"]
  show ?thesis using p by (simp add: hr_headers_arrived_def Let_def same_store_def)
qed

lemma hr_walk_store: "hr_walk_chunks fuel h = Some h' \<Longrightarrow> same_store h h'"
proof (induction fuel h rule: hr_walk_chunks.induct)
  case (2 fuel h)
  have "same_store h h2" if "hr_walk_step h = Inl h2 \<or> hr_walk_step h = Inr h2" for h2
    using that by (auto simp: hr_walk_step_def Let_def same_store_def split: if_splits prod.splits)
  thus ?case using 2 by (auto split: sum.splits intro: same_store_trans)
qed simp

lemma hr_progress_store:
  assumes "hr_progress fuel h = Some h'"
  shows "same_store h h'"
proof -
  have n: "same_store a (hr_no_body a)" for a by (simp add: hr_no_body_def same_store_def)
  define r where "r = (if hr_chunked h then hr_walk_chunks fuel h
    else if hr_have_clen h \<and> hr_len h - hr_body_start h \<ge> hr_clen h then Some (h\<lparr>hr_complete := True\<rparr>) else Some h)"
  have "same_store h a" if "r = Some a" for a
    using that hr_walk_store [of fuel h a] by (auto simp: r_def same_store_def split: if_splits)
  thus ?thesis using assms n unfolding hr_progress_def r_def [symmetric]
    by (auto split: if_splits intro: same_store_trans)
qed

lemma hr_write_buf:
  assumes "unat a + length d < 4294967296"
  shows "hr_buf (hr_write a d h) x = (if unat a \<le> unat x \<and> unat x < unat a + length d then d ! (unat x - unat a) else hr_buf h x)"
proof -
  have "fold (\<lambda>i b. b(a + of_nat i := d ! i)) [0..<m] b x =
      (if unat a \<le> unat x \<and> unat x < unat a + m then d ! (unat x - unat a) else b x)" if "m \<le> length d" for m and b :: "u32 \<Rightarrow> u8"
    using that
  proof (induction m)
    case (Suc m)
    have u: "unat (a + of_nat m) = unat a + m" using Suc.prems assms unat_add_small [of a m] by linarith
    show ?case
    proof (cases "x = a + of_nat m")
      case False
      hence "unat x \<noteq> unat a + m" using u by (metis word_unat_eq_iff)
      thus ?thesis using False Suc by (auto simp: less_Suc_eq)
    qed (use u in simp)
  qed auto
  thus ?thesis by (simp add: hr_write_def)
qed

text \<open>Feeding stores a prefix and nothing else: hr_feed on any bytes and any state with len at most the buffer's size
  stores exactly the first min(n, room) of them behind what was there, leaves every other byte of memory alone, keeps
  len within the buffer, and reports truncation exactly when some did not fit.\<close>

theorem hr_feed_stores_prefix:
  assumes "hr_feed fuel data h = Some (n, h')" "hr_len h \<le> HR_BUF_SIZE" "length data < 2 ^ 32"
  shows "unat n = min (length data) (262144 - unat (hr_len h)) \<and> unat (hr_len h') = unat (hr_len h) + unat n \<and>
    hr_len h' \<le> HR_BUF_SIZE \<and> hr_truncated h' = (hr_truncated h \<or> unat n < length data) \<and>
    (\<forall>x. hr_buf h' x = (if hr_len h \<le> x \<and> x < hr_len h' then data ! (unat x - unat (hr_len h)) else hr_buf h x))"
proof -
  let ?N = "of_nat (length data) :: u32" and ?room = "HR_BUF_SIZE - hr_len h"
  define t where "t = (if ?N < ?room then ?N else ?room)"
  define h0 where "h0 = (if t < ?N then h\<lparr>hr_truncated := True\<rparr> else h)"
  have l0: "hr_len h0 = hr_len h" "hr_buf h0 = hr_buf h" by (simp_all add: h0_def)
  define h1 where "h1 = hr_write (hr_len h0) (take (unat t) data) h0"
  define h2 where "h2 = h1\<lparr>hr_len := hr_len h1 + t\<rparr>"
  have L: "unat (hr_len h) \<le> 262144" using assms(2) HR_BUF_SIZE_nat by (simp add: word_le_nat_alt)
  have N: "unat ?N = length data" using assms(3) by (simp add: unat_of_nat_u32)
  have R: "unat ?room = 262144 - unat (hr_len h)" using assms(2) HR_BUF_SIZE_nat by (simp add: unat_sub)
  have T: "unat t = min (length data) (262144 - unat (hr_len h))" using N R by (simp add: t_def word_less_nat_alt)
  have l1: "hr_len h1 = hr_len h" by (simp add: h1_def hr_write_def l0)
  have st: "n = t \<and> same_store h2 h'"
  proof -
    have A: "same_store h2 (case hr_find_blank h2 f of None \<Rightarrow> h2 | Some i \<Rightarrow> hr_headers_arrived i h2)" for f
      by (simp add: hr_headers_arrived_store split: option.split)
    define h3 where "h3 = (if \<not> hr_hdr_done h2
       then (case hr_find_blank h2 (if hr_len h1 \<ge> 3 then hr_len h1 - 3 else 0) of None \<Rightarrow> h2 | Some i \<Rightarrow> hr_headers_arrived i h2) else h2)"
    have s3: "same_store h2 h3" using A by (simp add: h3_def)
    have "Some (n, h') = map_option (Pair t) (hr_progress fuel h3)"
      using assms(1) unfolding hr_feed_def Let_def t_def [symmetric] h0_def [symmetric] h1_def [symmetric] h2_def [symmetric] h3_def [symmetric] by simp
    hence "n = t \<and> same_store h3 h'" by (cases "hr_progress fuel h3") (auto intro: hr_progress_store)
    thus ?thesis using same_store_trans [OF s3] by blast
  qed
  have tl: "length (take (unat t) data) = unat t" using T by simp
  have bl: "unat (hr_len h) + unat t \<le> 262144" using T L by simp
  have ln: "unat (hr_len h2) = unat (hr_len h) + unat t"
    using bl l1 by (simp add: h2_def unat_word_ariths)
  have "hr_buf h1 x = (if unat (hr_len h) \<le> unat x \<and> unat x < unat (hr_len h) + unat t then data ! (unat x - unat (hr_len h)) else hr_buf h x)" for x
    unfolding h1_def using bl tl by (auto simp: hr_write_buf l0)
  moreover have "hr_truncated h1 = (hr_truncated h \<or> unat t < length data)" using N by (simp add: h1_def h0_def hr_write_def word_less_nat_alt)
  ultimately show ?thesis using st T ln bl HR_BUF_SIZE_nat
    by (simp add: same_store_def h2_def word_le_nat_alt word_less_nat_alt)
qed

lemma hr_feed_stores_prefix_witness:
  "let h = (hr_demo [72, 84])\<lparr>hr_hdr_done := False\<rparr> in
   \<exists>h'. hr_feed 1 [84, 80] h = Some (2, h') \<and> hr_len h' = 4 \<and> hr_buf h' 2 = 84"
proof -
  let ?h = "(hr_demo [72, 84])\<lparr>hr_hdr_done := False\<rparr>"
  have "hr_feed 1 [84, 80] ?h \<noteq> None"
    by (simp add: hr_feed_def hr_demo_def HR_BUF_SIZE_def hr_write_def hr_find_blank_def hr_progress_def upt_rec Let_def)
  then obtain n h' where f: "hr_feed 1 [84, 80] ?h = Some (n, h')" by auto
  note t = hr_feed_stores_prefix [OF f]
  have l: "unat n = 2" "unat (hr_len h') = 4" "hr_buf h' 2 = 84"
    using t by (simp_all add: hr_demo_def HR_BUF_SIZE_def word_less_nat_alt word_le_nat_alt)
  hence "n = 2" "hr_len h' = 4" by (simp_all add: word_unat_eq_iff)
  thus ?thesis using f l(3) by (simp add: Let_def)
qed

end
