(* ===== verification/Mwfs.thy ===== *)
theory Mwfs
  imports Prelude
begin

text \<open>
  mwfs.h, the MiniWin file system: free-space bitmap, inode table, sector mapping with single and double
  indirect tables, directories of 64-byte entries, whole-file operations, formatting, mounting and the
  checker. A sector is a list of 512 bytes. The block devices under it (blk.h and its drivers) are the record
  blk: the contents of every sector and two predicates saying, after n writes, whether a read of a sector
  works and whether the n-th write does. A write that is reported as failed changes nothing: a hypothesis on
  the devices. The disk drivers do not give it when only the flush of the disk's cache fails, since they
  then report a failure although the sector was written (ata.h, ahci.h). Names are C strings without
  their final 0. Sector and inode numbers are nat: their sums stay below 2 ^ 32 on a volume whose geometry
  was computed by mwfs_geometry; only base + lba is taken modulo 2 ^ 32.
\<close>

subsection \<open>Block devices\<close>

record blk =
  blk_sec :: "int \<Rightarrow> nat \<Rightarrow> bytes"
  blk_rd :: "nat \<Rightarrow> int \<Rightarrow> nat \<Rightarrow> bool"
  blk_wr :: "nat \<Rightarrow> int \<Rightarrow> nat \<Rightarrow> bool"
  blk_n :: nat

definition blk_read :: "int \<Rightarrow> nat \<Rightarrow> blk \<Rightarrow> bytes option" where
  "blk_read d lba s = (if blk_rd s (blk_n s) d lba then Some (blk_sec s d lba) else None)"

definition blk_write :: "int \<Rightarrow> nat \<Rightarrow> bytes \<Rightarrow> blk \<Rightarrow> bool \<times> blk" where
  "blk_write d lba b s =
     (let ok = blk_wr s (blk_n s) d lba; s = s\<lparr>blk_n := blk_n s + 1\<rparr>
      in if ok then (True, s\<lparr>blk_sec := (blk_sec s)(d := (blk_sec s d)(lba := b))\<rparr>) else (False, s))"

subsection \<open>Data\<close>

definition MWFS_MAGIC :: nat where "MWFS_MAGIC = 0x3246574D"
definition MWFS_VERSION :: nat where "MWFS_VERSION = 1"
definition MWFS_INO_SIZE :: nat where "MWFS_INO_SIZE = 64"
definition MWFS_NDIRECT :: nat where "MWFS_NDIRECT = 8"
definition MWFS_PTRS :: nat where "MWFS_PTRS = 128"
definition MWFS_NAME_MAX :: nat where "MWFS_NAME_MAX = 31"
definition MWFS_DENT_SIZE :: nat where "MWFS_DENT_SIZE = 64"
definition MWFS_MAX_INODES :: nat where "MWFS_MAX_INODES = 16384"
definition MWFS_MIN_INODES :: nat where "MWFS_MIN_INODES = 32"
definition MWFS_ROOT_INO :: nat where "MWFS_ROOT_INO = 1"
definition MWFS_T_FREE :: nat where "MWFS_T_FREE = 0"
definition MWFS_T_FILE :: nat where "MWFS_T_FILE = 1"
definition MWFS_T_DIR :: nat where "MWFS_T_DIR = 2"
definition MWFS_SB_CRC_OFF :: nat where "MWFS_SB_CRC_OFF = 44"
definition MWFS_CHK_STACK :: nat where "MWFS_CHK_STACK = 256"

lemmas mwfs_sizes = MWFS_INO_SIZE_def MWFS_NDIRECT_def MWFS_PTRS_def MWFS_NAME_MAX_def MWFS_DENT_SIZE_def
lemmas mwfs_types = MWFS_T_FREE_def MWFS_T_FILE_def MWFS_T_DIR_def

datatype mwfs_e = MWFS_OK | MWFS_E_IO | MWFS_E_FULL | MWFS_E_NOENT | MWFS_E_EXIST | MWFS_E_NOTDIR | MWFS_E_ISDIR |
  MWFS_E_NOTEMPTY | MWFS_E_NAME | MWFS_E_CORRUPT | MWFS_E_TOOBIG | MWFS_E_NOFS | MWFS_E_SMALL | MWFS_E_PERM | MWFS_E_XDEV

record vol =
  v_used :: bool
  v_dev :: int
  v_base :: nat
  v_sectors :: nat
  v_inodes :: nat
  v_bitmap_lba :: nat
  v_bitmap_sectors :: nat
  v_itable_lba :: nat
  v_itable_sectors :: nat
  v_data_lba :: nat
  v_cur_blk :: nat
  v_cur_ino :: nat
  v_id :: bytes
  v_label :: bytes

record ino =
  i_type :: nat
  i_flags :: nat
  i_size :: nat
  i_crc :: u32
  i_aux :: u32
  i_nblocks :: nat
  i_direct :: "nat list"
  i_ind :: nat
  i_dind :: nat
  i_gen :: u32

subsection \<open>Small helpers\<close>

definition mwfs_le :: "bytes \<Rightarrow> nat \<Rightarrow> nat" where
  "mwfs_le p i = unat (p ! i) + 2 ^ 8 * unat (p ! (i + 1)) + 2 ^ 16 * unat (p ! (i + 2)) + 2 ^ 24 * unat (p ! (i + 3))"

definition mwfs_put :: "nat \<Rightarrow> bytes" where
  "mwfs_put v = [of_nat v, of_nat (v div 2 ^ 8), of_nat (v div 2 ^ 16), of_nat (v div 2 ^ 24)]"

definition mwfs_zeros :: "nat \<Rightarrow> bytes" where "mwfs_zeros n = replicate n 0"

definition mwfs_crc32_update :: "u32 \<Rightarrow> bytes \<Rightarrow> u32" where
  "mwfs_crc32_update crc data =
     fold (\<lambda>x crc. ((\<lambda>crc. drop_bit 1 crc XOR (0xEDB88320 AND - (crc AND 1))) ^^ 8) (crc XOR ucast x)) data crc"

definition mwfs_name_char :: "u8 \<Rightarrow> bool" where
  "mwfs_name_char c \<longleftrightarrow> (0x41 \<le> c \<and> c \<le> 0x5A) \<or> (0x61 \<le> c \<and> c \<le> 0x7A) \<or> (0x30 \<le> c \<and> c \<le> 0x39) \<or>
     c \<in> {0x2E, 0x5F, 0x2D, 0x2C, 0x20, 0x28, 0x29}"

definition mwfs_name_ok :: "bytes \<Rightarrow> bool" where
  "mwfs_name_ok name \<longleftrightarrow> (\<forall>c \<in> set name. mwfs_name_char c) \<and> length name \<le> MWFS_NAME_MAX \<and>
     length name > 0 \<and> hd name \<noteq> 0x2E \<and> hd name \<noteq> 0x20 \<and> last name \<noteq> 0x20"

definition mwfs_upper :: "u8 \<Rightarrow> u8" where "mwfs_upper x = (if 0x61 \<le> x \<and> x \<le> 0x7A then x - 32 else x)"

fun mwfs_name_eq :: "bytes \<Rightarrow> bytes \<Rightarrow> bool" where
  "mwfs_name_eq [] [] = True"
| "mwfs_name_eq (a # as) (b # bs) = (if mwfs_upper a \<noteq> mwfs_upper b then False else mwfs_name_eq as bs)"
| "mwfs_name_eq _ _ = False"

definition mwfs_strcpy :: "bytes \<Rightarrow> nat \<Rightarrow> bytes" where
  "mwfs_strcpy src n = (let c = take (n - 1) src in c @ mwfs_zeros (n - length c))"

definition mwfs_rd :: "vol \<Rightarrow> nat \<Rightarrow> blk \<Rightarrow> bytes option" where
  "mwfs_rd v lba s = (if lba < v_sectors v then blk_read (v_dev v) ((v_base v + lba) mod 2 ^ 32) s else None)"

definition mwfs_wr :: "vol \<Rightarrow> nat \<Rightarrow> bytes \<Rightarrow> blk \<Rightarrow> bool \<times> blk" where
  "mwfs_wr v lba b s = (if lba < v_sectors v then blk_write (v_dev v) ((v_base v + lba) mod 2 ^ 32) b s else (False, s))"

subsection \<open>The free-space bitmap\<close>

definition mwfs_bit_get :: "vol \<Rightarrow> nat \<Rightarrow> blk \<Rightarrow> bool option" where
  "mwfs_bit_get v lba s =
     (case mwfs_rd v (v_bitmap_lba v + lba div 4096) s of
        None \<Rightarrow> None | Some b \<Rightarrow> (let off = lba mod 4096 in Some (bit (b ! (off div 8)) (off mod 8))))"

definition mwfs_bit_put :: "bytes \<Rightarrow> nat \<Rightarrow> bool \<Rightarrow> bytes" where
  "mwfs_bit_put b off on =
     b[off div 8 := (if on then b ! (off div 8) OR push_bit (off mod 8) 1 else b ! (off div 8) AND NOT (push_bit (off mod 8) 1))]"

definition mwfs_bit_set :: "vol \<Rightarrow> nat \<Rightarrow> bool \<Rightarrow> blk \<Rightarrow> bool \<times> blk" where
  "mwfs_bit_set v lba on s =
     (case mwfs_rd v (v_bitmap_lba v + lba div 4096) s of
        None \<Rightarrow> (False, s)
      | Some b \<Rightarrow> mwfs_wr v (v_bitmap_lba v + lba div 4096) (mwfs_bit_put b (lba mod 4096) on) s)"

text \<open>The scan of one bitmap sector, bit by bit: Some 0 ends the search (the bits left are past the volume), Some lba is a
  free sector, None goes on with the next bitmap sector.\<close>

fun mwfs_scan :: "vol \<Rightarrow> nat \<Rightarrow> bytes \<Rightarrow> nat list \<Rightarrow> nat option" where
  "mwfs_scan v si b [] = None"
| "mwfs_scan v si b (j # js) =
     (if b ! (j div 8) = 0xFF \<or> bit (b ! (j div 8)) (j mod 8) then mwfs_scan v si b js
      else let lba = si * 4096 + j in
        if lba \<ge> v_sectors v then Some 0
        else if lba < v_data_lba v then mwfs_scan v si b js
        else Some lba)"

fun mwfs_alloc_from :: "vol \<Rightarrow> nat list \<Rightarrow> blk \<Rightarrow> nat \<times> vol \<times> blk" where
  "mwfs_alloc_from v [] s = (0, v, s)"
| "mwfs_alloc_from v (si # sis) s =
     (case mwfs_rd v (v_bitmap_lba v + si) s of
        None \<Rightarrow> (0, v, s)
      | Some b \<Rightarrow>
        (case mwfs_scan v si b [0..<4096] of
           None \<Rightarrow> mwfs_alloc_from v sis s
         | Some lba \<Rightarrow>
           if lba = 0 then (0, v, s)
           else let (ok, s) = mwfs_wr v (v_bitmap_lba v + si) (mwfs_bit_put b (lba mod 4096) True) s
                in if ok then (lba, v\<lparr>v_cur_blk := lba + 1\<rparr>, s) else (0, v, s)))"

definition mwfs_alloc :: "vol \<Rightarrow> blk \<Rightarrow> nat \<times> vol \<times> blk" where
  "mwfs_alloc v s =
     (let nsec = v_bitmap_sectors v;
          start = v_cur_blk v div 4096;
          start = (if start \<ge> nsec then 0 else start)
      in mwfs_alloc_from v (map (\<lambda>pass. (start + pass) mod nsec) [0..<nsec]) s)"

definition mwfs_free_sector :: "vol \<Rightarrow> nat \<Rightarrow> blk \<Rightarrow> blk" where
  "mwfs_free_sector v lba s = (if lba \<ge> v_data_lba v \<and> lba < v_sectors v then snd (mwfs_bit_set v lba False s) else s)"

subsection \<open>Inodes\<close>

definition mwfs_ino_of :: "bytes \<Rightarrow> ino" where
  "mwfs_ino_of p =
     \<lparr>i_type = unat (p ! 0) + 2 ^ 8 * unat (p ! 1), i_flags = unat (p ! 2) + 2 ^ 8 * unat (p ! 3),
      i_size = mwfs_le p 4, i_crc = of_nat (mwfs_le p 8), i_aux = of_nat (mwfs_le p 12), i_nblocks = mwfs_le p 16,
      i_direct = map (\<lambda>k. mwfs_le p (20 + 4 * k)) [0..<MWFS_NDIRECT], i_ind = mwfs_le p 52, i_dind = mwfs_le p 56,
      i_gen = of_nat (mwfs_le p 60)\<rparr>"

definition mwfs_ino_bytes :: "ino \<Rightarrow> bytes" where
  "mwfs_ino_bytes t =
     [of_nat (i_type t), of_nat (i_type t div 2 ^ 8), of_nat (i_flags t), of_nat (i_flags t div 2 ^ 8)] @
     mwfs_put (i_size t) @ mwfs_put (unat (i_crc t)) @ mwfs_put (unat (i_aux t)) @ mwfs_put (i_nblocks t) @
     concat (map mwfs_put (i_direct t)) @ mwfs_put (i_ind t) @ mwfs_put (i_dind t) @ mwfs_put (unat (i_gen t))"

definition mwfs_ino_zero :: ino where
  "mwfs_ino_zero = \<lparr>i_type = 0, i_flags = 0, i_size = 0, i_crc = 0, i_aux = 0, i_nblocks = 0,
     i_direct = replicate MWFS_NDIRECT 0, i_ind = 0, i_dind = 0, i_gen = 0\<rparr>"

definition mwfs_ino_get :: "vol \<Rightarrow> nat \<Rightarrow> blk \<Rightarrow> ino option" where
  "mwfs_ino_get v n s =
     (if n = 0 \<or> n \<ge> v_inodes v then None
      else case mwfs_rd v (v_itable_lba v + n div 8) s of
             None \<Rightarrow> None | Some b \<Rightarrow> Some (mwfs_ino_of (slice (n mod 8 * MWFS_INO_SIZE) MWFS_INO_SIZE b)))"

definition mwfs_ino_put :: "vol \<Rightarrow> nat \<Rightarrow> ino \<Rightarrow> blk \<Rightarrow> bool \<times> blk" where
  "mwfs_ino_put v n t s =
     (if n = 0 \<or> n \<ge> v_inodes v then (False, s)
      else case mwfs_rd v (v_itable_lba v + n div 8) s of
             None \<Rightarrow> (False, s)
           | Some b \<Rightarrow> mwfs_wr v (v_itable_lba v + n div 8) (blit b (n mod 8 * MWFS_INO_SIZE) (mwfs_ino_bytes t)) s)"

fun mwfs_ino_alloc_from :: "vol \<Rightarrow> nat \<Rightarrow> nat list \<Rightarrow> blk \<Rightarrow> nat \<times> vol \<times> blk" where
  "mwfs_ino_alloc_from v ty [] s = (0, v, s)"
| "mwfs_ino_alloc_from v ty (n # ns) s =
     (case mwfs_ino_get v n s of
        None \<Rightarrow> (0, v, s)
      | Some t \<Rightarrow>
        if i_type t = MWFS_T_FREE then
          (let (ok, s) = mwfs_ino_put v n (mwfs_ino_zero\<lparr>i_type := ty\<rparr>) s
           in if ok then (n, v\<lparr>v_cur_ino := n\<rparr>, s) else (0, v, s))
        else mwfs_ino_alloc_from v ty ns s)"

definition mwfs_ino_alloc :: "vol \<Rightarrow> nat \<Rightarrow> blk \<Rightarrow> nat \<times> vol \<times> blk" where
  "mwfs_ino_alloc v ty s =
     mwfs_ino_alloc_from v ty (map (\<lambda>pass. 2 + (v_cur_ino v + pass) mod (v_inodes v - 2)) [0..<v_inodes v]) s"

subsection \<open>Mapping a file's sectors\<close>

definition mwfs_ptrs :: "bytes \<Rightarrow> nat list" where "mwfs_ptrs b = map (\<lambda>k. mwfs_le b (4 * k)) [0..<MWFS_PTRS]"

definition mwfs_ptr_bytes :: "nat list \<Rightarrow> bytes" where "mwfs_ptr_bytes t = concat (map mwfs_put t)"

definition mwfs_new_zeroed :: "vol \<Rightarrow> blk \<Rightarrow> mwfs_e \<times> nat \<times> vol \<times> blk" where
  "mwfs_new_zeroed v s =
     (let (l, v, s) = mwfs_alloc v s in
      if l = 0 then (MWFS_E_FULL, 0, v, s)
      else let (ok, s) = mwfs_wr v l (mwfs_zeros 512) s in if ok then (MWFS_OK, l, v, s) else (MWFS_E_IO, 0, v, s))"

text \<open>A slot that is 0 is filled: with a zeroed sector, or with one the caller overwrites.\<close>

definition mwfs_fill :: "bool \<Rightarrow> vol \<Rightarrow> blk \<Rightarrow> mwfs_e \<times> nat \<times> vol \<times> blk" where
  "mwfs_fill zero_data v s =
     (if zero_data then mwfs_new_zeroed v s
      else let (l, v, s) = mwfs_alloc v s in (if l = 0 then MWFS_E_FULL else MWFS_OK, l, v, s))"

type_synonym bmap_result = "mwfs_e \<times> nat \<times> ino \<times> vol \<times> blk"

text \<open>The slot in a table sector, after the branches have found the table.\<close>

definition mwfs_bmap_leaf :: "vol \<Rightarrow> ino \<Rightarrow> nat \<Rightarrow> nat \<Rightarrow> bool \<Rightarrow> bool \<Rightarrow> blk \<Rightarrow> bmap_result" where
  "mwfs_bmap_leaf v t tlba k create zero_data s =
     (case mwfs_rd v tlba s of
        None \<Rightarrow> (MWFS_E_IO, 0, t, v, s)
      | Some b \<Rightarrow>
        let table = mwfs_ptrs b in
        if table ! k \<noteq> 0 then (MWFS_OK, table ! k, t, v, s)
        else if \<not> create then (MWFS_OK, 0, t, v, s)
        else let (e, l, v, s) = mwfs_fill zero_data v s in
          if e \<noteq> MWFS_OK then (e, 0, t, v, s)
          else let t = t\<lparr>i_nblocks := (i_nblocks t + 1) mod 2 ^ 32\<rparr>;
                   (ok, s) = mwfs_wr v tlba (mwfs_ptr_bytes (table[k := l])) s
               in if ok then (MWFS_OK, l, t, v, s) else (MWFS_E_IO, 0, t, v, s))"

definition mwfs_bmap_direct :: "vol \<Rightarrow> ino \<Rightarrow> nat \<Rightarrow> bool \<Rightarrow> bool \<Rightarrow> blk \<Rightarrow> bmap_result" where
  "mwfs_bmap_direct v t idx create zero_data s =
     (if i_direct t ! idx \<noteq> 0 then (MWFS_OK, i_direct t ! idx, t, v, s)
      else if \<not> create then (MWFS_OK, 0, t, v, s)
      else let (e, l, v, s) = mwfs_fill zero_data v s in
        if e \<noteq> MWFS_OK then (e, 0, t, v, s)
        else (MWFS_OK, l, t\<lparr>i_direct := (i_direct t)[idx := l], i_nblocks := (i_nblocks t + 1) mod 2 ^ 32\<rparr>, v, s))"

definition mwfs_bmap_ind :: "vol \<Rightarrow> ino \<Rightarrow> nat \<Rightarrow> bool \<Rightarrow> bool \<Rightarrow> blk \<Rightarrow> bmap_result" where
  "mwfs_bmap_ind v t k create zero_data s =
     (if i_ind t \<noteq> 0 then mwfs_bmap_leaf v t (i_ind t) k create zero_data s
      else if \<not> create then (MWFS_OK, 0, t, v, s)
      else let (e, l, v, s) = mwfs_new_zeroed v s in
        if e \<noteq> MWFS_OK then (e, 0, t, v, s)
        else mwfs_bmap_leaf v (t\<lparr>i_ind := l\<rparr>) l k create zero_data s)"

text \<open>From the double-indirect sector on.\<close>

definition mwfs_bmap_mid :: "vol \<Rightarrow> ino \<Rightarrow> nat \<Rightarrow> bool \<Rightarrow> bool \<Rightarrow> blk \<Rightarrow> bmap_result" where
  "mwfs_bmap_mid v t j create zero_data s =
     (case mwfs_rd v (i_dind t) s of
        None \<Rightarrow> (MWFS_E_IO, 0, t, v, s)
      | Some b \<Rightarrow>
        let top = mwfs_ptrs b; m = top ! (j div MWFS_PTRS) in
        if m \<noteq> 0 then mwfs_bmap_leaf v t m (j mod MWFS_PTRS) create zero_data s
        else if \<not> create then (MWFS_OK, 0, t, v, s)
        else let (e, m, v, s) = mwfs_new_zeroed v s in
          if e \<noteq> MWFS_OK then (e, 0, t, v, s)
          else let (ok, s) = mwfs_wr v (i_dind t) (mwfs_ptr_bytes (top[j div MWFS_PTRS := m])) s
               in if ok then mwfs_bmap_leaf v t m (j mod MWFS_PTRS) create zero_data s else (MWFS_E_IO, 0, t, v, s))"

definition mwfs_bmap_dind :: "vol \<Rightarrow> ino \<Rightarrow> nat \<Rightarrow> bool \<Rightarrow> bool \<Rightarrow> blk \<Rightarrow> bmap_result" where
  "mwfs_bmap_dind v t j create zero_data s =
     (if j \<ge> MWFS_PTRS * MWFS_PTRS then (MWFS_E_TOOBIG, 0, t, v, s)
      else if i_dind t \<noteq> 0 then mwfs_bmap_mid v t j create zero_data s
      else if \<not> create then (MWFS_OK, 0, t, v, s)
      else let (e, l, v, s) = mwfs_new_zeroed v s in
        if e \<noteq> MWFS_OK then (e, 0, t, v, s)
        else mwfs_bmap_mid v (t\<lparr>i_dind := l\<rparr>) j create zero_data s)"

definition mwfs_bmap :: "vol \<Rightarrow> ino \<Rightarrow> nat \<Rightarrow> bool \<Rightarrow> bool \<Rightarrow> blk \<Rightarrow> bmap_result" where
  "mwfs_bmap v t idx create zero_data s =
     (if idx < MWFS_NDIRECT then mwfs_bmap_direct v t idx create zero_data s
      else if idx - MWFS_NDIRECT < MWFS_PTRS then mwfs_bmap_ind v t (idx - MWFS_NDIRECT) create zero_data s
      else mwfs_bmap_dind v t (idx - MWFS_NDIRECT - MWFS_PTRS) create zero_data s)"

text \<open>A lookup without create changes neither the inode nor the disk: only its result is used.\<close>

definition mwfs_lookup :: "vol \<Rightarrow> ino \<Rightarrow> nat \<Rightarrow> blk \<Rightarrow> nat option" where
  "mwfs_lookup v t idx s = (let (e, l, _) = mwfs_bmap v t idx False False s in if e = MWFS_OK then Some l else None)"

function mwfs_pread_loop :: "vol \<Rightarrow> ino \<Rightarrow> nat \<Rightarrow> nat \<Rightarrow> blk \<Rightarrow> bytes option" where
  "mwfs_pread_loop v t pos rest s =
     (if rest = 0 then Some []
      else let idx = pos div 512; i = pos mod 512; n = min (512 - i) rest in
        case mwfs_lookup v t idx s of
          None \<Rightarrow> None
        | Some lba \<Rightarrow>
          (case (if lba \<noteq> 0 then mwfs_rd v lba s else Some (mwfs_zeros 512)) of
             None \<Rightarrow> None
           | Some b \<Rightarrow> map_option (\<lambda>r. slice i n b @ r) (mwfs_pread_loop v t (pos + n) (rest - n) s)))"
  by pat_completeness auto
termination by (relation "measure (\<lambda>(v, t, pos, rest, s). rest)") auto

declare mwfs_pread_loop.simps [simp del]

definition mwfs_pread :: "vol \<Rightarrow> ino \<Rightarrow> nat \<Rightarrow> nat \<Rightarrow> blk \<Rightarrow> bytes option" where
  "mwfs_pread v t off len s =
     (if off \<ge> i_size t then Some []
      else mwfs_pread_loop v t off (if len > i_size t - off then i_size t - off else len) s)"

function mwfs_pwrite :: "vol \<Rightarrow> ino \<Rightarrow> nat \<Rightarrow> bytes \<Rightarrow> blk \<Rightarrow> mwfs_e \<times> ino \<times> vol \<times> blk" where
  "mwfs_pwrite v t pos data s =
     (if data = [] then (MWFS_OK, t, v, s)
      else let idx = pos div 512; i = pos mod 512; n = min (512 - i) (length data);
               (e, lba, t, v, s) = mwfs_bmap v t idx True (n \<noteq> 512) s in
        if e \<noteq> MWFS_OK then (e, t, v, s)
        else case (if n \<noteq> 512 then mwfs_rd v lba s else Some (mwfs_zeros 512)) of
          None \<Rightarrow> (MWFS_E_IO, t, v, s)
        | Some b \<Rightarrow>
          let (ok, s) = mwfs_wr v lba (blit b i (take n data)) s in
          if \<not> ok then (MWFS_E_IO, t, v, s)
          else mwfs_pwrite v (if pos + n > i_size t then t\<lparr>i_size := pos + n\<rparr> else t) (pos + n) (drop n data) s)"
  by pat_completeness auto
termination by (relation "measure (\<lambda>(v, t, pos, data, s). length data)") auto

declare mwfs_pwrite.simps [simp del]

definition mwfs_free_ptrs :: "vol \<Rightarrow> nat list \<Rightarrow> blk \<Rightarrow> blk" where
  "mwfs_free_ptrs v ls s = fold (\<lambda>l s. if l \<noteq> 0 then mwfs_free_sector v l s else s) ls s"

definition mwfs_free_table :: "vol \<Rightarrow> nat \<Rightarrow> blk \<Rightarrow> blk" where
  "mwfs_free_table v l s = (case mwfs_rd v l s of None \<Rightarrow> s | Some b \<Rightarrow> mwfs_free_ptrs v (mwfs_ptrs b) s)"

definition mwfs_free_blocks :: "vol \<Rightarrow> ino \<Rightarrow> blk \<Rightarrow> ino \<times> blk" where
  "mwfs_free_blocks v t s =
     (let s = mwfs_free_ptrs v (i_direct t) s;
          s = (if i_ind t \<noteq> 0 then mwfs_free_sector v (i_ind t) (mwfs_free_table v (i_ind t) s) else s);
          s = (if i_dind t \<noteq> 0
               then let s = (case mwfs_rd v (i_dind t) s of
                      None \<Rightarrow> s
                    | Some b \<Rightarrow> fold (\<lambda>m s. if m = 0 then s else mwfs_free_sector v m (mwfs_free_table v m s)) (mwfs_ptrs b) s)
                    in mwfs_free_sector v (i_dind t) s
               else s)
      in (t\<lparr>i_direct := replicate MWFS_NDIRECT 0, i_ind := 0, i_dind := 0, i_size := 0, i_nblocks := 0, i_crc := 0\<rparr>, s))"

definition mwfs_ino_release :: "vol \<Rightarrow> nat \<Rightarrow> blk \<Rightarrow> blk" where
  "mwfs_ino_release v n s =
     (case mwfs_ino_get v n s of
        None \<Rightarrow> s
      | Some t \<Rightarrow> let (_, s) = mwfs_free_blocks v t s in snd (mwfs_ino_put v n mwfs_ino_zero s))"

end
