(* ===== verification/Mwfs_Disk.thy ===== *)
theory Mwfs_Disk
  imports Mwfs
begin

text \<open>
  The disk of a MWFS volume seen without the devices: vsec is the contents of its sectors, used its bitmap, and the
  pointers an inode reaches are the values of its slots. The lemmas say what each allocation and mapping operation does to
  that view whatever reads and writes fail.
\<close>

subsection \<open>Bytes\<close>

lemma mwfs_le_put: "n < 2 ^ 32 \<Longrightarrow> mwfs_le (mwfs_put n) 0 = n"
proof -
  assume n: "n < 2 ^ 32"
  have b: "unat (of_nat x :: u8) = x mod 256" for x by (simp add: unat_of_nat take_bit_eq_mod)
  have "n div 16777216 < 256" using n by (simp add: div_less_iff_less_mult)
  hence top: "n div 16777216 mod 256 = n div 16777216" by simp
  moreover have "n div 65536 = 256 * (n div 16777216) + n div 65536 mod 256"
    using div_mult2_eq [of n 65536 256] mult_div_mod_eq [of 256 "n div 65536"] by simp
  moreover have "n div 256 = 256 * (n div 65536) + n div 256 mod 256"
    using div_mult2_eq [of n 256 256] mult_div_mod_eq [of 256 "n div 256"] by simp
  moreover have "n = 256 * (n div 256) + n mod 256" by simp
  ultimately have "n mod 256 + 256 * (n div 256 mod 256) + 65536 * (n div 65536 mod 256) + 16777216 * (n div 16777216 mod 256) = n"
    by linarith
  thus ?thesis by (simp add: mwfs_le_def mwfs_put_def b top)
qed

lemma length_mwfs_put [simp]: "length (mwfs_put n) = 4" by (simp add: mwfs_put_def)

lemma mwfs_le_lt: "mwfs_le p i < 2 ^ 32"
  using unat_u8_lt [of "p ! i"] unat_u8_lt [of "p ! (i + 1)"] unat_u8_lt [of "p ! (i + 2)"] unat_u8_lt [of "p ! (i + 3)"]
  by (simp add: mwfs_le_def)

lemma mwfs_le_slice: "i + 4 \<le> length p \<Longrightarrow> mwfs_le p i = mwfs_le (slice i 4 p) 0"
  by (simp add: mwfs_le_def)

lemma mwfs_le_shift: "mwfs_le (xs @ ys) (length xs + i) = mwfs_le ys i"
  by (simp only: mwfs_le_def add.assoc nth_append_length_plus)

lemma mwfs_le_head: "4 \<le> length xs \<Longrightarrow> mwfs_le (xs @ ys) 0 = mwfs_le xs 0" by (auto simp: mwfs_le_def nth_append)

lemma mwfs_le_append: "i = length xs \<Longrightarrow> n < 2 ^ 32 \<Longrightarrow> mwfs_le (xs @ mwfs_put n @ ys) i = n"
  using mwfs_le_shift [of xs "mwfs_put n @ ys" 0] by (simp add: mwfs_le_head mwfs_le_put)

lemma length_mwfs_zeros [simp]: "length (mwfs_zeros n) = n" by (simp add: mwfs_zeros_def)

lemma mwfs_le_zeros: "i + 4 \<le> n \<Longrightarrow> mwfs_le (mwfs_zeros n) i = 0"
  by (simp add: mwfs_le_def mwfs_zeros_def)

subsection \<open>Tables of pointers\<close>

lemma length_ptrs [simp]: "length (mwfs_ptrs b) = 128" by (simp add: mwfs_ptrs_def MWFS_PTRS_def)

lemma ptrs_lt: "k < 128 \<Longrightarrow> mwfs_ptrs b ! k < 2 ^ 32" using mwfs_le_lt by (simp add: mwfs_ptrs_def MWFS_PTRS_def)

lemma length_concat_put: "length (concat (map mwfs_put t)) = 4 * length t" by (induction t) simp_all

lemma length_ptr_bytes [simp]: "length (mwfs_ptr_bytes t) = 4 * length t"
  by (simp add: mwfs_ptr_bytes_def length_concat_put)

lemma le_concat_put:
  "k < length t \<Longrightarrow> \<forall>x \<in> set t. x < 2 ^ 32 \<Longrightarrow> mwfs_le (concat (map mwfs_put t) @ ys) (4 * k) = t ! k"
proof (induction t arbitrary: k)
  case (Cons a t)
  show ?case
  proof (cases k)
    case 0 thus ?thesis using mwfs_le_append [of 0 "[]" a] Cons.prems by simp
  next
    case (Suc j)
    have "mwfs_le (mwfs_put a @ zs) (4 + m) = mwfs_le zs m" for zs m using mwfs_le_shift [of "mwfs_put a" zs m] by simp
    from this [of "concat (map mwfs_put t) @ ys" "4 * j"] show ?thesis using Suc Cons by simp
  qed
qed simp

lemma ptrs_ptr_bytes: "length t = 128 \<Longrightarrow> \<forall>x \<in> set t. x < 2 ^ 32 \<Longrightarrow> mwfs_ptrs (mwfs_ptr_bytes t) = t"
  using le_concat_put [of _ t "[]"] by (intro nth_equalityI) (simp_all add: mwfs_ptrs_def mwfs_ptr_bytes_def MWFS_PTRS_def)

lemma ptrs_update: "k < 128 \<Longrightarrow> l < 2 ^ 32 \<Longrightarrow> mwfs_ptrs (mwfs_ptr_bytes ((mwfs_ptrs b)[k := l])) = (mwfs_ptrs b)[k := l]"
  using ptrs_lt [of _ b] by (intro ptrs_ptr_bytes) (auto simp: in_set_conv_nth nth_list_update split: if_splits)

lemma ptrs_zeros: "k < 128 \<Longrightarrow> mwfs_ptrs (mwfs_zeros 512) ! k = 0"
  by (simp add: mwfs_ptrs_def MWFS_PTRS_def mwfs_le_zeros)

subsection \<open>Inodes as bytes\<close>

definition ino_ok :: "ino \<Rightarrow> bool" where
  "ino_ok t \<longleftrightarrow> i_type t < 2 ^ 16 \<and> i_flags t < 2 ^ 16 \<and> i_size t < 2 ^ 32 \<and> i_nblocks t < 2 ^ 32 \<and>
     length (i_direct t) = 8 \<and> (\<forall>x \<in> set (i_direct t). x < 2 ^ 32) \<and> i_ind t < 2 ^ 32 \<and> i_dind t < 2 ^ 32"

lemma ino_of_ok: "ino_ok (mwfs_ino_of p)"
proof -
  have "unat (p ! 0) + 256 * unat (p ! 1) < 65536" "unat (p ! 2) + 256 * unat (p ! 3) < 65536"
    using unat_u8_lt [of "p ! 0"] unat_u8_lt [of "p ! 1"] unat_u8_lt [of "p ! 2"] unat_u8_lt [of "p ! 3"] by simp_all
  thus ?thesis using mwfs_le_lt by (simp add: ino_ok_def mwfs_ino_of_def MWFS_NDIRECT_def)
qed

lemma length_ino_bytes [simp]: "length (i_direct t) = 8 \<Longrightarrow> length (mwfs_ino_bytes t) = 64"
  by (simp add: mwfs_ino_bytes_def length_concat_put)

lemma le_put_head: "n < 2 ^ 32 \<Longrightarrow> mwfs_le (mwfs_put n @ ys) 0 = n" using mwfs_le_append [of 0 "[]"] by simp

lemma mwfs_le_past: "length xs \<le> i \<Longrightarrow> mwfs_le (xs @ ys) i = mwfs_le ys (i - length xs)"
  using mwfs_le_shift [of xs ys "i - length xs"] by simp

lemma mwfs_le_Cons: "1 \<le> i \<Longrightarrow> mwfs_le (x # ys) i = mwfs_le ys (i - 1)" using mwfs_le_past [of "[x]" i ys] by simp

lemma split16: "n < 65536 \<Longrightarrow> unat (of_nat n :: u8) + 256 * unat (of_nat (n div 256) :: u8) = n"
proof -
  assume "n < 65536"
  hence "n div 256 < 256" by (simp add: div_less_iff_less_mult)
  hence "unat (of_nat (n div 256) :: u8) = n div 256" by (simp add: unat_of_nat take_bit_eq_mod)
  moreover have "unat (of_nat n :: u8) = n mod 256" by (simp add: unat_of_nat take_bit_eq_mod)
  ultimately show ?thesis by simp
qed

lemma ino_of_bytes:
  assumes "ino_ok t"
  shows "mwfs_ino_of (mwfs_ino_bytes t) = t"
proof -
  let ?d = "concat (map mwfs_put (i_direct t))"
  have ld: "length ?d = 32" using assms by (simp add: ino_ok_def length_concat_put)
  have w: "of_nat (unat x) = x" "unat x < 2 ^ 32" for x :: u32 using unat_u32_lt [of x] by simp_all
  have dir: "map (\<lambda>k. mwfs_le (mwfs_ino_bytes t) (20 + 4 * k)) [0..<8] = i_direct t"
  proof (rule nth_equalityI)
    show "length (map (\<lambda>k. mwfs_le (mwfs_ino_bytes t) (20 + 4 * k)) [0..<8]) = length (i_direct t)" using assms by (simp add: ino_ok_def)
    fix k assume "k < length (map (\<lambda>k. mwfs_le (mwfs_ino_bytes t) (20 + 4 * k)) [0..<8])"
    hence k: "k < 8" by simp
    let ?r = "mwfs_put (i_ind t) @ mwfs_put (i_dind t) @ mwfs_put (unat (i_gen t))"
    have "mwfs_le (mwfs_ino_bytes t) (20 + 4 * k) = mwfs_le (?d @ ?r) (4 * k)"
      by (simp add: mwfs_ino_bytes_def mwfs_le_past mwfs_le_Cons)
    also have "\<dots> = i_direct t ! k" using assms k by (intro le_concat_put) (auto simp: ino_ok_def)
    finally show "map (\<lambda>k. mwfs_le (mwfs_ino_bytes t) (20 + 4 * k)) [0..<8] ! k = i_direct t ! k" using k by simp
  qed
  have sz: "mwfs_le (mwfs_ino_bytes t) 4 = i_size t" "mwfs_le (mwfs_ino_bytes t) 8 = unat (i_crc t)"
    "mwfs_le (mwfs_ino_bytes t) 12 = unat (i_aux t)" "mwfs_le (mwfs_ino_bytes t) 16 = i_nblocks t"
    using assms w by (simp_all add: mwfs_ino_bytes_def mwfs_le_past mwfs_le_Cons le_put_head ino_ok_def)
  have ind: "mwfs_le (mwfs_ino_bytes t) 52 = i_ind t" "mwfs_le (mwfs_ino_bytes t) 56 = i_dind t"
    "mwfs_le (mwfs_ino_bytes t) 60 = unat (i_gen t)"
    using assms w ld le_put_head [of "unat (i_gen t)" "[]"] by (simp_all add: mwfs_ino_bytes_def mwfs_le_past mwfs_le_Cons le_put_head ino_ok_def)
  have ty: "unat (mwfs_ino_bytes t ! 0) + 256 * unat (mwfs_ino_bytes t ! 1) = i_type t"
    "unat (mwfs_ino_bytes t ! 2) + 256 * unat (mwfs_ino_bytes t ! 3) = i_flags t"
    using assms split16 [of "i_type t"] split16 [of "i_flags t"] by (simp_all add: mwfs_ino_bytes_def ino_ok_def)
  show ?thesis
    unfolding mwfs_ino_of_def MWFS_NDIRECT_def dir sz ind w power_one_right using ty by (cases t) simp
qed


subsection \<open>The view\<close>

definition vol_ok :: "vol \<Rightarrow> bool" where
  "vol_ok v \<longleftrightarrow> v_base v + v_sectors v \<le> 2 ^ 32 \<and> v_bitmap_lba v = 1 \<and> v_itable_lba v = 1 + v_bitmap_sectors v \<and>
     v_data_lba v = v_itable_lba v + v_itable_sectors v \<and> v_data_lba v + 8 \<le> v_sectors v \<and>
     v_sectors v \<le> 4096 * v_bitmap_sectors v \<and> v_inodes v = 8 * v_itable_sectors v \<and> 32 \<le> v_inodes v \<and> v_inodes v \<le> 16384"

definition same_geo :: "vol \<Rightarrow> vol \<Rightarrow> bool" where
  "same_geo v v' \<longleftrightarrow> v'\<lparr>v_used := v_used v, v_cur_blk := v_cur_blk v, v_cur_ino := v_cur_ino v, v_id := v_id v\<rparr> = v"

definition vsec :: "vol \<Rightarrow> blk \<Rightarrow> nat \<Rightarrow> bytes" where
  "vsec v s l = (if l < v_sectors v then blk_sec s (v_dev v) ((v_base v + l) mod 2 ^ 32) else [])"

lemma same_geoD:
  assumes "same_geo v v'"
  shows "v_dev v' = v_dev v" "v_base v' = v_base v" "v_sectors v' = v_sectors v" "v_inodes v' = v_inodes v"
    "v_bitmap_lba v' = v_bitmap_lba v" "v_bitmap_sectors v' = v_bitmap_sectors v" "v_itable_lba v' = v_itable_lba v"
    "v_itable_sectors v' = v_itable_sectors v" "v_data_lba v' = v_data_lba v" "vol_ok v' = vol_ok v" "vsec v' = vsec v"
proof -
  have e: "v = v'\<lparr>v_used := v_used v, v_cur_blk := v_cur_blk v, v_cur_ino := v_cur_ino v, v_id := v_id v\<rparr>" using assms by (simp add: same_geo_def)
  show "v_dev v' = v_dev v" "v_base v' = v_base v" "v_sectors v' = v_sectors v" "v_inodes v' = v_inodes v"
    "v_bitmap_lba v' = v_bitmap_lba v" "v_bitmap_sectors v' = v_bitmap_sectors v" "v_itable_lba v' = v_itable_lba v"
    "v_itable_sectors v' = v_itable_sectors v" "v_data_lba v' = v_data_lba v"
    by (subst e; simp)+
  thus "vol_ok v' = vol_ok v" "vsec v' = vsec v" by (simp_all add: vol_ok_def vsec_def fun_eq_iff)
qed

lemma same_geo_refl [simp]: "same_geo v v" by (simp add: same_geo_def)

lemma same_geo_trans: "same_geo v v' \<Longrightarrow> same_geo v' v'' \<Longrightarrow> same_geo v v''"
  by (cases v; cases v'; cases v'') (simp add: same_geo_def)

lemma same_geo_cur [simp]: "same_geo v (v\<lparr>v_cur_blk := a\<rparr>)" "same_geo v (v\<lparr>v_cur_ino := a\<rparr>)" by (simp_all add: same_geo_def)

lemma rd_Some: "mwfs_rd v l s = Some b \<Longrightarrow> l < v_sectors v \<and> b = vsec v s l"
  by (auto simp: mwfs_rd_def blk_read_def vsec_def split: if_splits)

lemma wr_cases:
  assumes "mwfs_wr v l b s = (ok, s')" "vol_ok v"
  shows "vsec v s' = (if ok then (vsec v s)(l := b) else vsec v s)" "ok \<Longrightarrow> l < v_sectors v" "blk_rd s' = blk_rd s" "blk_wr s' = blk_wr s"
proof -
  have inj: "(v_base v + k) mod 2 ^ 32 = v_base v + k" if "k < v_sectors v" for k using that assms(2) by (simp add: vol_ok_def)
  show "vsec v s' = (if ok then (vsec v s)(l := b) else vsec v s)"
    using assms(1) inj by (auto simp: mwfs_wr_def blk_write_def vsec_def fun_eq_iff Let_def split: if_splits)
  show "ok \<Longrightarrow> l < v_sectors v" "blk_rd s' = blk_rd s" "blk_wr s' = blk_wr s"
    using assms(1) by (auto simp: mwfs_wr_def blk_write_def Let_def split: if_splits)
qed

text \<open>Every sector has 512 bytes.\<close>

definition secs_ok :: "vol \<Rightarrow> (nat \<Rightarrow> bytes) \<Rightarrow> bool" where "secs_ok v D \<longleftrightarrow> (\<forall>l < v_sectors v. length (D l) = 512)"

definition used :: "vol \<Rightarrow> (nat \<Rightarrow> bytes) \<Rightarrow> nat \<Rightarrow> bool" where
  "used v D l \<longleftrightarrow> l < v_sectors v \<and> bit (D (1 + l div 4096) ! (l mod 4096 div 8)) (l mod 4096 mod 8)"

definition is_data :: "vol \<Rightarrow> nat \<Rightarrow> bool" where "is_data v l \<longleftrightarrow> v_data_lba v \<le> l \<and> l < v_sectors v"
definition is_bitmap :: "vol \<Rightarrow> nat \<Rightarrow> bool" where "is_bitmap v l \<longleftrightarrow> 1 \<le> l \<and> l < v_itable_lba v"

lemma bitmap_not_data: "vol_ok v \<Longrightarrow> is_bitmap v l \<Longrightarrow> \<not> is_data v l" by (auto simp: vol_ok_def is_bitmap_def is_data_def)

lemma bitmap_of: "vol_ok v \<Longrightarrow> l < v_sectors v \<Longrightarrow> is_bitmap v (1 + l div 4096)"
proof -
  assume "vol_ok v" "l < v_sectors v"
  hence "l < 4096 * v_bitmap_sectors v" "v_itable_lba v = 1 + v_bitmap_sectors v" by (auto simp: vol_ok_def)
  thus ?thesis by (simp add: is_bitmap_def div_less_iff_less_mult mult.commute)
qed

lemma bitmap_in: "vol_ok v \<Longrightarrow> is_bitmap v l \<Longrightarrow> l < v_sectors v" by (auto simp: vol_ok_def is_bitmap_def)

lemma bit_put_length [simp]: "length (mwfs_bit_put b off on) = length b" by (simp add: mwfs_bit_put_def)

lemma bit_put_bit:
  assumes "length b = 512" "off < 4096" "o' < 4096"
  shows "bit (mwfs_bit_put b off on ! (o' div 8)) (o' mod 8) = (if o' = off then on else bit (b ! (o' div 8)) (o' mod 8))"
proof (cases "o' div 8 = off div 8")
  case True
  have i: "off div 8 < length b" using assms(1,2) by (simp add: div_less_iff_less_mult)
  have eq: "o' = off \<longleftrightarrow> o' mod 8 = off mod 8" using True by (metis div_mult_mod_eq)
  have m: "o' mod 8 < 8" "off mod 8 < 8" by simp_all
  have pb: "bit ((2 :: u8) ^ (off mod 8)) (k mod 8) = (k mod 8 = off mod 8)" for k
    using m(2) by (auto simp: bit_exp_iff)
  show ?thesis using i True eq m by (auto simp: mwfs_bit_put_def bit_or_iff bit_and_iff bit_not_iff pb)
next
  case False
  hence "o' \<noteq> off" by auto
  thus ?thesis using False by (simp add: mwfs_bit_put_def)
qed

text \<open>Setting or clearing a bit changes the marking of one sector.\<close>

lemma used_bit_put:
  assumes "vol_ok v" "secs_ok v D" "l < v_sectors v"
    "D' = D(1 + l div 4096 := mwfs_bit_put (D (1 + l div 4096)) (l mod 4096) on)"
  shows "secs_ok v D'" "used v D' k = (if k = l then on else used v D k)" "\<not> is_bitmap v x \<Longrightarrow> D' x = D x"
proof -
  have bm: "is_bitmap v (1 + l div 4096)" by (rule bitmap_of [OF assms(1,3)])
  hence len: "length (D (1 + l div 4096)) = 512" using assms(1,2) bitmap_in by (simp add: secs_ok_def)
  show "secs_ok v D'" using assms(2) len unfolding assms(4) by (simp add: secs_ok_def)
  show "\<not> is_bitmap v x \<Longrightarrow> D' x = D x" using bm unfolding assms(4) by auto
  show "used v D' k = (if k = l then on else used v D k)"
  proof (cases "k div 4096 = l div 4096")
    case True
    have eq: "k = l \<longleftrightarrow> k mod 4096 = l mod 4096" using True by (metis div_mult_mod_eq)
    have "used v D' k = (k < v_sectors v \<and> bit (mwfs_bit_put (D (1 + l div 4096)) (l mod 4096) on ! (k mod 4096 div 8)) (k mod 4096 mod 8))"
      unfolding used_def assms(4) using True by simp
    also have "\<dots> = (k < v_sectors v \<and> (if k mod 4096 = l mod 4096 then on else bit (D (1 + l div 4096) ! (k mod 4096 div 8)) (k mod 4096 mod 8)))"
      by (subst bit_put_bit [OF len]) simp_all
    finally show ?thesis using eq True assms(3) by (auto simp: used_def)
  next
    case False
    hence "k \<noteq> l" by auto
    thus ?thesis using False unfolding used_def assms(4) by simp
  qed
qed

subsection \<open>Allocation\<close>

lemma bitmap_scan_Some:
  assumes "mwfs_scan v si b js = Some l" "l \<noteq> 0"
  shows "\<exists>j \<in> set js. l = si * 4096 + j \<and> \<not> bit (b ! (j div 8)) (j mod 8) \<and> v_data_lba v \<le> l \<and> l < v_sectors v"
  using assms by (induction js) (auto simp: Let_def split: if_splits)

text \<open>What allocation promises: 0 and an unchanged disk, or a free data sector that is now marked.\<close>

definition allocated :: "vol \<Rightarrow> (nat \<Rightarrow> bytes) \<Rightarrow> nat \<Rightarrow> (nat \<Rightarrow> bytes) \<Rightarrow> bool" where
  "allocated v D l D' \<longleftrightarrow> (l = 0 \<and> D' = D) \<or>
     (is_data v l \<and> \<not> used v D l \<and> D' = D(1 + l div 4096 := mwfs_bit_put (D (1 + l div 4096)) (l mod 4096) True))"

lemma alloc_from:
  assumes "vol_ok v" "secs_ok v (vsec v s)" "mwfs_alloc_from v sis s = (l, v', s')"
  shows "allocated v (vsec v s) l (vsec v s') \<and> same_geo v v' \<and> blk_rd s' = blk_rd s \<and> blk_wr s' = blk_wr s"
  using assms(3)
proof (induction sis)
  case (Cons si sis)
  show ?case
  proof (cases "mwfs_rd v (v_bitmap_lba v + si) s")
    case None thus ?thesis using Cons.prems by (simp add: allocated_def)
  next
    case (Some b)
    have b: "b = vsec v s (1 + si)" "v_bitmap_lba v = 1" using rd_Some [OF Some] assms(1) by (simp_all add: vol_ok_def)
    show ?thesis
    proof (cases "mwfs_scan v si b [0..<4096]")
      case None thus ?thesis using Cons Some by simp
    next
      case (Some x)
      show ?thesis
      proof (cases "x = 0")
        case True thus ?thesis using Cons.prems \<open>mwfs_rd v (v_bitmap_lba v + si) s = Some b\<close> Some by (simp add: allocated_def)
      next
        case False
        obtain j where j: "j < 4096" "x = si * 4096 + j" "\<not> bit (b ! (j div 8)) (j mod 8)" "v_data_lba v \<le> x" "x < v_sectors v"
          using bitmap_scan_Some [OF Some False] by auto
        have dm: "x div 4096 = si" "x mod 4096 = j" using j(1,2) by simp_all
        obtain ok s1 where w: "mwfs_wr v (v_bitmap_lba v + si) (mwfs_bit_put b (x mod 4096) True) s = (ok, s1)" by fastforce
        note W = wr_cases [OF w assms(1)]
        have u: "\<not> used v (vsec v s) x" using j(3) dm b(1) by (simp add: used_def)
        show ?thesis
          using Cons.prems \<open>mwfs_rd v (v_bitmap_lba v + si) s = Some b\<close> Some False w W u j b dm
          by (auto simp: allocated_def is_data_def split: if_splits)
      qed
    qed
  qed
qed (simp add: allocated_def)

lemma alloc_ok:
  assumes "vol_ok v" "secs_ok v (vsec v s)" "mwfs_alloc v s = (l, v', s')"
  shows "allocated v (vsec v s) l (vsec v s')" "same_geo v v'" "blk_rd s' = blk_rd s" "blk_wr s' = blk_wr s"
  using alloc_from [OF assms(1,2)] assms(3) by (simp_all add: mwfs_alloc_def Let_def)


subsection \<open>The pointers of an inode\<close>

datatype slot = SDir nat | SInd | SIndE nat | SDind | SMid nat | SLeaf nat nat

definition mid :: "(nat \<Rightarrow> bytes) \<Rightarrow> ino \<Rightarrow> nat \<Rightarrow> nat" where
  "mid D t k = (if i_dind t \<noteq> 0 \<and> k < 128 then mwfs_ptrs (D (i_dind t)) ! k else 0)"

fun val :: "(nat \<Rightarrow> bytes) \<Rightarrow> ino \<Rightarrow> slot \<Rightarrow> nat" where
  "val D t (SDir k) = (if k < 8 then i_direct t ! k else 0)"
| "val D t SInd = i_ind t"
| "val D t (SIndE k) = (if i_ind t \<noteq> 0 \<and> k < 128 then mwfs_ptrs (D (i_ind t)) ! k else 0)"
| "val D t SDind = i_dind t"
| "val D t (SMid k) = mid D t k"
| "val D t (SLeaf i k) = (if mid D t i \<noteq> 0 \<and> k < 128 then mwfs_ptrs (D (mid D t i)) ! k else 0)"

text \<open>The slots whose sectors are tables, and the slot of an entry of a table.\<close>

fun is_table :: "slot \<Rightarrow> bool" where
  "is_table SInd = True" | "is_table SDind = True" | "is_table (SMid i) = True" | "is_table _ = False"

fun child :: "slot \<Rightarrow> nat \<Rightarrow> slot" where
  "child SInd k = SIndE k" | "child SDind k = SMid k" | "child (SMid i) k = SLeaf i k" | "child a k = a"

definition slot_of :: "nat \<Rightarrow> slot" where
  "slot_of idx = (if idx < 8 then SDir idx else if idx - 8 < 128 then SIndE (idx - 8) else SLeaf ((idx - 136) div 128) ((idx - 136) mod 128))"

definition file_max :: nat where "file_max = 16520"

lemma slot_of_inj: "slot_of i = slot_of j \<Longrightarrow> i = j"
proof -
  assume e: "slot_of i = slot_of j"
  have dm: "x = y" if "x div 128 = y div 128" "x mod 128 = y mod 128" for x y :: nat using that by (metis div_mult_mod_eq)
  have "i = j" if "\<not> i < 8" "\<not> i - 8 < 128" "\<not> j < 8" "\<not> j - 8 < 128" "i - 136 = j - 136" using that by linarith
  thus ?thesis using e dm [of "i - 136" "j - 136"] unfolding slot_of_def by (auto split: if_splits)
qed

lemma slot_of_data [simp]: "\<not> is_table (slot_of i)" by (simp add: slot_of_def)

definition own :: "(nat \<Rightarrow> bytes) \<Rightarrow> ino \<Rightarrow> nat set" where "own D t = {l. l \<noteq> 0 \<and> (\<exists>a. val D t a = l)}"

definition ptrs_ok :: "vol \<Rightarrow> (nat \<Rightarrow> bytes) \<Rightarrow> ino \<Rightarrow> bool" where
  "ptrs_ok v D t \<longleftrightarrow> ino_ok t \<and> (\<forall>l \<in> own D t. is_data v l \<and> used v D l) \<and>
     (\<forall>a b. val D t a = val D t b \<longrightarrow> val D t a \<noteq> 0 \<longrightarrow> a = b)"

lemma own_val: "val D t a \<noteq> 0 \<Longrightarrow> val D t a \<in> own D t" by (auto simp: own_def)

lemma ptrs_okD:
  assumes "ptrs_ok v D t"
  shows "ino_ok t" "val D t a \<noteq> 0 \<Longrightarrow> is_data v (val D t a)" "val D t a \<noteq> 0 \<Longrightarrow> used v D (val D t a)"
    "val D t a = val D t b \<Longrightarrow> val D t a \<noteq> 0 \<Longrightarrow> a = b"
  using assms own_val [of D t a] by (auto simp: ptrs_ok_def)

text \<open>The pointers depend only on the tables.\<close>

lemma val_cong:
  assumes "\<And>a. is_table a \<Longrightarrow> val D t a \<noteq> 0 \<Longrightarrow> D' (val D t a) = D (val D t a)"
    and "i_direct t' = i_direct t" "i_ind t' = i_ind t" "i_dind t' = i_dind t"
  shows "val D' t' a = val D t a"
proof -
  have i: "i_ind t \<noteq> 0 \<Longrightarrow> D' (i_ind t) = D (i_ind t)" using assms(1) [of SInd] by simp
  have d: "i_dind t \<noteq> 0 \<Longrightarrow> D' (i_dind t) = D (i_dind t)" using assms(1) [of SDind] by simp
  have m: "val D' t' (SMid k) = val D t (SMid k)" for k using d assms(2-4) by (simp add: mid_def)
  have l: "val D t (SMid k) \<noteq> 0 \<Longrightarrow> D' (val D t (SMid k)) = D (val D t (SMid k))" for k using assms(1) [of "SMid k"] by simp
  show ?thesis
  proof (cases a)
    case (SLeaf x y) thus ?thesis using m [of x] l [of x] by (simp)
  qed (use assms(2-4) i d m in auto)
qed

text \<open>An entry of a table is set to a fresh sector.\<close>

lemma val_set_entry:
  assumes w: "ptrs_ok v D t" and T: "is_table T" "val D t T \<noteq> 0" and k: "k < 128" and z: "val D t (child T k) = 0" and l: "l \<noteq> 0"
    and same: "\<And>x. x \<in> own D t \<Longrightarrow> x \<noteq> val D t T \<Longrightarrow> D' x = D x"
    and new: "mwfs_ptrs (D' (val D t T)) = (mwfs_ptrs (D (val D t T)))[k := l]"
    and zero: "T = SDind \<Longrightarrow> D' l = mwfs_zeros 512"
    and t': "i_direct t' = i_direct t" "i_ind t' = i_ind t" "i_dind t' = i_dind t"
  shows "val D' t' = (val D t)(child T k := l)"
proof
  fix a
  have sm: "D' (val D t b) = D (val D t b)" if "val D t b \<noteq> 0" "b \<noteq> T" for b
    using same [OF own_val [OF that(1)]] ptrs_okD(4) [OF w, of b T] that by blast
  have len: "length (mwfs_ptrs b) = 128" for b by simp
  show "val D' t' a = ((val D t)(child T k := l)) a"
  proof (cases T)
    case SInd
    have d: "i_dind t \<noteq> 0 \<Longrightarrow> D' (i_dind t) = D (i_dind t)" using sm [of SDind] SInd by simp
    have m: "val D' t' (SMid i) = val D t (SMid i)" for i using d t' by (simp add: mid_def)
    have lf: "val D t (SMid i) \<noteq> 0 \<Longrightarrow> D' (val D t (SMid i)) = D (val D t (SMid i))" for i using sm [of "SMid i"] SInd by simp
    have nw: "mwfs_ptrs (D' (i_ind t)) = (mwfs_ptrs (D (i_ind t)))[k := l]" using new SInd by simp
    show ?thesis
    proof (cases a)
      case (SIndE j) thus ?thesis using nw T k t' SInd by (simp add: nth_list_update)
    next
      case (SLeaf x y) thus ?thesis using m [of x] lf [of x] SInd by (simp)
    qed (use t' SInd m in auto)
  next
    case SDind
    have i: "i_ind t \<noteq> 0 \<Longrightarrow> D' (i_ind t) = D (i_ind t)" using sm [of SInd] SDind by simp
    have nw: "mwfs_ptrs (D' (i_dind t)) = (mwfs_ptrs (D (i_dind t)))[k := l]" using new SDind by simp
    have m: "val D' t' (SMid j) = (if j = k then l else val D t (SMid j))" for j
      using nw T k t' SDind by (simp add: nth_list_update mid_def)
    have lf: "val D t (SMid j) \<noteq> 0 \<Longrightarrow> D' (val D t (SMid j)) = D (val D t (SMid j))" for j using sm [of "SMid j"] SDind by simp
    have z': "val D t (SMid k) = 0" using z SDind by simp
    show ?thesis
    proof (cases a)
      case (SLeaf x y)
      show ?thesis
      proof (cases "x = k")
        case True
        thus ?thesis using m [of x] zero SDind SLeaf z' ptrs_zeros [of y] by (simp)
      next
        case False
        thus ?thesis using m [of x] lf [of x] SDind SLeaf by (simp)
      qed
    qed (use t' SDind m i in auto)
  next
    case (SMid q)
    have i: "i_ind t \<noteq> 0 \<Longrightarrow> D' (i_ind t) = D (i_ind t)" using sm [of SInd] SMid by simp
    have d: "i_dind t \<noteq> 0 \<Longrightarrow> D' (i_dind t) = D (i_dind t)" using sm [of SDind] SMid by simp
    have m: "val D' t' (SMid j) = val D t (SMid j)" for j using d t' by (simp add: mid_def)
    have lf: "val D t (SMid j) \<noteq> 0 \<Longrightarrow> j \<noteq> q \<Longrightarrow> D' (val D t (SMid j)) = D (val D t (SMid j))" for j using sm [of "SMid j"] SMid by simp
    have nw: "mwfs_ptrs (D' (val D t (SMid q))) = (mwfs_ptrs (D (val D t (SMid q))))[k := l]" using new SMid by simp
    show ?thesis
    proof (cases a)
      case (SLeaf x y)
      show ?thesis
      proof (cases "x = q")
        case True
        thus ?thesis using m [of x] nw SMid SLeaf T k by (simp add: nth_list_update)
      next
        case False
        thus ?thesis using m [of x] lf [of x] SMid SLeaf by (simp)
      qed
    qed (use t' SMid m i in auto)
  qed (use T in auto)
qed

text \<open>A pointer in the inode itself is set to a fresh sector.\<close>

lemma val_set_root:
  assumes w: "ptrs_ok v D t" and z: "val D t a = 0" and same: "\<And>x. x \<in> own D t \<Longrightarrow> D' x = D x"
    and cases: "(\<exists>k < 8. a = SDir k \<and> t' = t\<lparr>i_direct := (i_direct t)[k := l], i_nblocks := nb\<rparr>) \<or>
      (a = SInd \<and> t' = t\<lparr>i_ind := l\<rparr> \<and> D' l = mwfs_zeros 512) \<or> (a = SDind \<and> t' = t\<lparr>i_dind := l\<rparr> \<and> D' l = mwfs_zeros 512)"
  shows "val D' t' = (val D t)(a := l)"
proof
  fix b
  have len: "length (i_direct t) = 8" using ptrs_okD(1) [OF w] by (simp add: ino_ok_def)
  have old: "val D' t b = val D t b" for b using same own_val by (intro val_cong) auto
  consider (dir) k where "k < 8" "a = SDir k" "t' = t\<lparr>i_direct := (i_direct t)[k := l], i_nblocks := nb\<rparr>"
    | (ind) "a = SInd" "t' = t\<lparr>i_ind := l\<rparr>" "D' l = mwfs_zeros 512" | (dind) "a = SDind" "t' = t\<lparr>i_dind := l\<rparr>" "D' l = mwfs_zeros 512"
    using cases by blast
  thus "val D' t' b = ((val D t)(a := l)) b"
  proof cases
    case dir
    have r: "val D' t' c = val D' t c" if "\<forall>k. c \<noteq> SDir k" for c using that dir(3) by (cases c) (auto simp: mid_def)
    show ?thesis
    proof (cases b)
      case (SDir j) thus ?thesis using dir len by (simp add: nth_list_update)
    qed (use r [of b] old [of b] dir(2) in \<open>simp_all del: val.simps\<close>)
  next
    case ind
    have r: "val D' t' c = val D' t c" if "c \<noteq> SInd" "\<forall>k. c \<noteq> SIndE k" for c using that ind(2) by (cases c) (auto simp: mid_def)
    have e: "val D' t' (SIndE k) = 0" "val D t (SIndE k) = 0" for k using ind z ptrs_zeros by auto
    show ?thesis
    proof (cases b)
      case (SIndE k) thus ?thesis using e ind(1) by simp
    next
      case SInd thus ?thesis using ind by simp
    qed (use r [of b] old [of b] ind(1) in \<open>simp_all del: val.simps\<close>)
  next
    case dind
    have r: "val D' t' c = val D' t c" if "c \<noteq> SDind" "\<forall>k. c \<noteq> SMid k" "\<forall>i k. c \<noteq> SLeaf i k" for c using that dind(2) by (cases c) (auto simp: mid_def)
    have e: "val D' t' (SMid k) = 0" "val D t (SMid k) = 0" for k using dind z ptrs_zeros by (auto simp: mid_def)
    have e2: "val D' t' (SLeaf i k) = 0" "val D t (SLeaf i k) = 0" for i k using e by simp_all
    show ?thesis
    proof (cases b)
      case (SMid k) thus ?thesis using e dind(1) by simp
    next
      case (SLeaf i k) thus ?thesis using e2 dind(1) by simp
    next
      case SDind thus ?thesis using dind by simp
    qed (use r [of b] old [of b] dind(1) in \<open>simp_all del: val.simps\<close>)
  qed
qed


subsection \<open>Growth\<close>

definition same_meta :: "ino \<Rightarrow> ino \<Rightarrow> bool" where
  "same_meta t t' \<longleftrightarrow> i_type t' = i_type t \<and> i_flags t' = i_flags t \<and> i_size t' = i_size t \<and> i_crc t' = i_crc t \<and>
     i_aux t' = i_aux t \<and> i_gen t' = i_gen t"

text \<open>The sectors an operation on the data slots S may overwrite: the tables and the sectors of S.\<close>

definition touch :: "slot set \<Rightarrow> (nat \<Rightarrow> bytes) \<Rightarrow> ino \<Rightarrow> nat set" where
  "touch S D t = {val D t a | a. (is_table a \<or> a \<in> S) \<and> val D t a \<noteq> 0}"

text \<open>The pointers of an inode only grow: sectors marked before stay marked, keep their contents unless they are in
  touch S, no pointer is lost, new ones lead to sectors that were free, and the data slots that change are in S.\<close>

definition grows :: "vol \<Rightarrow> slot set \<Rightarrow> (nat \<Rightarrow> bytes) \<Rightarrow> ino \<Rightarrow> (nat \<Rightarrow> bytes) \<Rightarrow> ino \<Rightarrow> bool" where
  "grows v S D t D' t' \<longleftrightarrow> secs_ok v D' \<and> ptrs_ok v D' t' \<and> (\<forall>x. used v D x \<longrightarrow> used v D' x) \<and>
     (\<forall>x. \<not> is_bitmap v x \<longrightarrow> (is_data v x \<longrightarrow> used v D x) \<longrightarrow> x \<notin> touch S D t \<longrightarrow> D' x = D x) \<and>
     (\<forall>a. val D t a \<noteq> 0 \<longrightarrow> val D' t' a = val D t a) \<and>
     (\<forall>a. val D t a = 0 \<longrightarrow> val D' t' a \<noteq> 0 \<longrightarrow> \<not> used v D (val D' t' a)) \<and>
     (\<forall>a. val D' t' a \<noteq> val D t a \<longrightarrow> is_table a \<or> a \<in> S) \<and> same_meta t t'"

lemma growsD:
  assumes "grows v S D t D' t'"
  shows "secs_ok v D'" "ptrs_ok v D' t'" "used v D x \<Longrightarrow> used v D' x"
    "\<not> is_bitmap v x \<Longrightarrow> (is_data v x \<Longrightarrow> used v D x) \<Longrightarrow> x \<notin> touch S D t \<Longrightarrow> D' x = D x"
    "val D t a \<noteq> 0 \<Longrightarrow> val D' t' a = val D t a" "val D t a = 0 \<Longrightarrow> val D' t' a \<noteq> 0 \<Longrightarrow> \<not> used v D (val D' t' a)"
    "\<not> is_table a \<Longrightarrow> a \<notin> S \<Longrightarrow> val D' t' a = val D t a" "same_meta t t'"
  using assms unfolding grows_def by blast+

lemma used_cong: "vol_ok v \<Longrightarrow> (\<And>x. is_bitmap v x \<Longrightarrow> D' x = D x) \<Longrightarrow> used v D' k = used v D k"
  using bitmap_of [of v k] by (auto simp: used_def)

lemma data_nonzero: "vol_ok v \<Longrightarrow> is_data v l \<Longrightarrow> l \<noteq> 0" by (auto simp: vol_ok_def is_data_def)

lemma touch_own: "touch S D t \<subseteq> own D t" by (auto simp: touch_def own_def)

lemma grows_trans:
  assumes a: "grows v S D t D1 t1" and b: "grows v S D1 t1 D2 t2"
  shows "grows v S D t D2 t2"
  unfolding grows_def
proof (intro conjI allI impI)
  show "secs_ok v D2" "ptrs_ok v D2 t2" using growsD(1,2) [OF b] by blast+
  show "used v D2 x" if "used v D x" for x using growsD(3) [OF b] growsD(3) [OF a] that by blast
  fix x
  assume x: "\<not> is_bitmap v x" "is_data v x \<longrightarrow> used v D x" "x \<notin> touch S D t"
  have d1: "D1 x = D x" using growsD(4) [OF a x(1)] x(2,3) by blast
  have "x \<notin> touch S D1 t1"
  proof
    assume "x \<in> touch S D1 t1"
    then obtain s where s: "is_table s \<or> s \<in> S" "val D1 t1 s = x" "x \<noteq> 0" by (auto simp: touch_def)
    have "val D t s = 0" using growsD(5) [OF a, of s] s x(3) by (auto simp: touch_def)
    hence "\<not> used v D x" using growsD(6) [OF a, of s] s by simp
    moreover have "is_data v x" using ptrs_okD(2) [OF growsD(2) [OF a], of s] s by simp
    ultimately show False using x(2) by blast
  qed
  thus "D2 x = D x" using growsD(4) [OF b x(1)] growsD(3) [OF a] x(2) d1 by metis
next
  show "val D2 t2 s = val D t s" if "val D t s \<noteq> 0" for s using growsD(5) [OF b, of s] growsD(5) [OF a, of s] that by simp
  show "\<not> used v D (val D2 t2 s)" if "val D t s = 0" "val D2 t2 s \<noteq> 0" for s
    using growsD(6) [OF a that(1)] growsD(5,6) [OF b, of s] growsD(3) [OF a] that by metis
  show "is_table s \<or> s \<in> S" if "val D2 t2 s \<noteq> val D t s" for s using growsD(7) [OF a, of s] growsD(7) [OF b, of s] that by metis
  show "same_meta t t2" using growsD(8) [OF a] growsD(8) [OF b] by (simp add: same_meta_def)
qed

lemma grows_refl: "secs_ok v D \<Longrightarrow> ptrs_ok v D t \<Longrightarrow> grows v S D t D t"
  by (simp add: grows_def same_meta_def)

lemma touch_mono: "S \<subseteq> S' \<Longrightarrow> touch S D t \<subseteq> touch S' D t" by (auto simp: touch_def)

lemma grows_mono: "grows v S D t D' t' \<Longrightarrow> S \<subseteq> S' \<Longrightarrow> grows v S' D t D' t'" using touch_mono [of S S' D t] unfolding grows_def by blast

lemma grows_table: "grows v {a} D t D' t' \<Longrightarrow> is_table a \<Longrightarrow> grows v {} D t D' t'"
proof -
  assume "grows v {a} D t D' t'" and a: "is_table a"
  moreover have "touch {a} D t = touch {} D t" using a by (auto simp: touch_def)
  ultimately show ?thesis using a by (auto simp: grows_def)
qed

text \<open>Marking sectors nobody owns.\<close>

definition marked :: "vol \<Rightarrow> (nat \<Rightarrow> bytes) \<Rightarrow> nat set \<Rightarrow> (nat \<Rightarrow> bytes) \<Rightarrow> bool" where
  "marked v D L D' \<longleftrightarrow> secs_ok v D' \<and> (\<forall>k. used v D' k = (used v D k \<or> k \<in> L)) \<and> (\<forall>l \<in> L. is_data v l \<and> \<not> used v D l) \<and>
     (\<forall>x. \<not> is_bitmap v x \<longrightarrow> x \<notin> L \<longrightarrow> D' x = D x)"

lemma marked_own:
  assumes "vol_ok v" "marked v D L D'" "ptrs_ok v D t" "x \<in> own D t"
  shows "D' x = D x" "x \<notin> L"
proof -
  have "is_data v x" "used v D x" using assms(3,4) by (auto simp: ptrs_ok_def)
  thus "D' x = D x" "x \<notin> L" using assms(2) bitmap_not_data [OF assms(1), of x] by (auto simp: marked_def)
qed

lemma grows_marked:
  assumes v: "vol_ok v" and m: "marked v D L D'" and p: "ptrs_ok v D t"
  shows "grows v S D t D' t"
proof -
  have val: "val D' t a = val D t a" for a using marked_own [OF v m p] own_val by (intro val_cong) auto
  have "own D' t = own D t" using val by (simp add: own_def)
  hence "ptrs_ok v D' t" using p m val by (auto simp: ptrs_ok_def marked_def)
  thus ?thesis using m val by (auto simp: grows_def marked_def same_meta_def)
qed

text \<open>Marking a sector and linking it into the slot a.\<close>

lemma grows_link:
  assumes v: "vol_ok v" and p: "ptrs_ok v D t" and s: "secs_ok v D'" and u: "\<And>k. used v D' k = (used v D k \<or> k = l)"
    and l: "is_data v l" "\<not> used v D l" and fr: "\<And>x. \<not> is_bitmap v x \<Longrightarrow> x \<noteq> l \<Longrightarrow> x \<notin> touch S D t \<Longrightarrow> D' x = D x"
    and val: "val D' t' = (val D t)(a := l)" "val D t a = 0" "is_table a \<or> a \<in> S" and t': "ino_ok t'" "same_meta t t'"
  shows "grows v S D t D' t'"
proof -
  have l0: "l \<noteq> 0" using v l(1) by (auto simp: vol_ok_def is_data_def)
  have nl: "val D t b \<noteq> l" for b using ptrs_okD(3) [OF p, of b] l l0 by auto
  have own: "own D' t' = insert l (own D t)" 
  proof
    show "own D' t' \<subseteq> insert l (own D t)" using val(1) by (auto simp: own_def split: if_splits)
    have "val D' t' b = val D t b" if "val D t b \<noteq> 0" for b using that val(1,2) by auto
    moreover have "val D' t' a = l" using val(1) by simp
    ultimately show "insert l (own D t) \<subseteq> own D' t'" using l0 by (auto simp: own_def)
  qed
  have "ptrs_ok v D' t'"
    unfolding ptrs_ok_def
  proof (intro conjI ballI allI impI)
    show "is_data v x" "used v D' x" if "x \<in> own D' t'" for x using that own p l(1) u by (auto simp: ptrs_ok_def)
    fix b c assume e: "val D' t' b = val D' t' c" "val D' t' b \<noteq> 0"
    show "b = c" using e ptrs_okD(4) [OF p, of b c] nl [of b] nl [of c] unfolding val(1) by (auto split: if_splits)
  qed (rule t'(1))
  thus ?thesis using s u l fr val l0 t'(2) unfolding grows_def by (auto split: if_splits)
qed

subsection \<open>Fresh sectors\<close>

lemma allocated_marked:
  assumes "vol_ok v" "secs_ok v D" "allocated v D l D'" "l \<noteq> 0"
  shows "marked v D {l} D'" "is_data v l"
proof -
  have a: "is_data v l" "\<not> used v D l" "D' = D(1 + l div 4096 := mwfs_bit_put (D (1 + l div 4096)) (l mod 4096) True)"
    using assms(3,4) by (auto simp: allocated_def)
  have "l < v_sectors v" using a(1) by (simp add: is_data_def)
  note u = used_bit_put [OF assms(1,2) this a(3)]
  show "marked v D {l} D'" using u a(1,2) by (auto simp: marked_def)
  show "is_data v l" by (rule a(1))
qed

text \<open>The outcome of a fill: on success one marked sector (zeroed if asked for), otherwise perhaps a marked one nobody uses.\<close>

definition filled :: "bool \<Rightarrow> vol \<Rightarrow> (nat \<Rightarrow> bytes) \<Rightarrow> mwfs_e \<Rightarrow> nat \<Rightarrow> (nat \<Rightarrow> bytes) \<Rightarrow> bool" where
  "filled zero v D e l D' \<longleftrightarrow> (\<exists>L. marked v D L D' \<and> (e = MWFS_OK \<longrightarrow> L = {l} \<and> is_data v l \<and> l \<noteq> 0 \<and> (zero \<longrightarrow> D' l = mwfs_zeros 512)))"

lemma marked_refl: "secs_ok v D \<Longrightarrow> marked v D {} D" by (simp add: marked_def)

lemma new_zeroed_ok:
  assumes v: "vol_ok v" and s: "secs_ok v (vsec v s)" and r: "mwfs_new_zeroed v s = (e, l, v', s')"
  shows "filled True v (vsec v s) e l (vsec v s')" "same_geo v v'" "blk_rd s' = blk_rd s" "blk_wr s' = blk_wr s"
proof -
  obtain x v1 s1 where a: "mwfs_alloc v s = (x, v1, s1)" by (cases "mwfs_alloc v s") auto
  note A = alloc_ok [OF v s a]
  note G = same_geoD [OF A(2)]
  have "filled True v (vsec v s) e l (vsec v s') \<and> same_geo v v' \<and> blk_rd s' = blk_rd s \<and> blk_wr s' = blk_wr s"
  proof (cases "x = 0")
    case True
    hence "vsec v s1 = vsec v s" using A(1) data_nonzero [OF v] by (auto simp: allocated_def)
    hence "filled True v (vsec v s) MWFS_E_FULL 0 (vsec v s1)" using marked_refl [OF s] unfolding filled_def by (intro exI [of _ "{}"]) simp
    thus ?thesis using True r a A by (auto simp: mwfs_new_zeroed_def)
  next
    case False
    obtain ok s2 where w: "mwfs_wr v1 x (mwfs_zeros 512) s1 = (ok, s2)" by fastforce
    have v1: "vol_ok v1" using G v by simp
    note W = wr_cases [OF w v1]
    have ws: "vsec v s2 = (if ok then (vsec v s1)(x := mwfs_zeros 512) else vsec v s1)" using W(1) G by simp
    have M: "marked v (vsec v s) {x} (vsec v s1)" "is_data v x" using allocated_marked [OF v s A(1) False] by blast+
    have bmx: "\<not> is_bitmap v x" using bitmap_not_data [OF v] M(2) by blast
    have eq: "(e, l, v', s') = (if ok then MWFS_OK else MWFS_E_IO, if ok then x else 0, v1, s2)"
      using r a w False by (auto simp: mwfs_new_zeroed_def split: if_splits)
    have us: "used v (vsec v s2) k = used v (vsec v s1) k" for k using bmx ws by (intro used_cong [OF v]) auto
    have "marked v (vsec v s) {x} (vsec v s2)" using M(1) us ws by (auto simp: marked_def secs_ok_def)
    hence "filled True v (vsec v s) e l (vsec v s2)" using eq M(2) False ws unfolding filled_def by (intro exI [of _ "{x}"]) auto
    thus ?thesis using eq A(2-4) W(3,4) by simp
  qed
  thus "filled True v (vsec v s) e l (vsec v s')" "same_geo v v'" "blk_rd s' = blk_rd s" "blk_wr s' = blk_wr s" by blast+
qed


lemma fill_ok:
  assumes v: "vol_ok v" and s: "secs_ok v (vsec v s)" and r: "mwfs_fill zero v s = (e, l, v', s')"
  shows "filled zero v (vsec v s) e l (vsec v s')" "same_geo v v'" "blk_rd s' = blk_rd s" "blk_wr s' = blk_wr s"
proof -
  have "filled zero v (vsec v s) e l (vsec v s') \<and> same_geo v v' \<and> blk_rd s' = blk_rd s \<and> blk_wr s' = blk_wr s"
  proof (cases zero)
    case True thus ?thesis using new_zeroed_ok [OF v s] r by (simp add: mwfs_fill_def)
  next
    case False
    obtain x v1 s1 where a: "mwfs_alloc v s = (x, v1, s1)" by (cases "mwfs_alloc v s") auto
    note A = alloc_ok [OF v s a]
    have eq: "e = (if x = 0 then MWFS_E_FULL else MWFS_OK)" "l = x" "v' = v1" "s' = s1" using r a False by (auto simp: mwfs_fill_def)
    have "filled zero v (vsec v s) e l (vsec v s')"
    proof (cases "x = 0")
      case True
      hence "vsec v s1 = vsec v s" using A(1) data_nonzero [OF v] by (auto simp: allocated_def)
      thus ?thesis using marked_refl [OF s] True eq unfolding filled_def by (intro exI [of _ "{}"]) simp
    next
      case nz: False
      show ?thesis using allocated_marked [OF v s A(1) nz] nz eq False unfolding filled_def by (intro exI [of _ "{x}"]) simp
    qed
    thus ?thesis using A eq by simp
  qed
  thus "filled zero v (vsec v s) e l (vsec v s')" "same_geo v v'" "blk_rd s' = blk_rd s" "blk_wr s' = blk_wr s" by blast+
qed

lemma filled_fail: "vol_ok v \<Longrightarrow> filled zero v D e l D' \<Longrightarrow> ptrs_ok v D t \<Longrightarrow> grows v S D t D' t"
  using grows_marked by (auto simp: filled_def)

lemma filledD:
  assumes "filled zero v D MWFS_OK l D'"
  shows "marked v D {l} D'" "is_data v l" "l \<noteq> 0" "zero \<Longrightarrow> D' l = mwfs_zeros 512"
  using assms by (auto simp: filled_def)

lemma markedD:
  assumes "marked v D {l} D'"
  shows "secs_ok v D'" "used v D' k = (used v D k \<or> k = l)" "is_data v l" "\<not> used v D l" "\<not> is_bitmap v x \<Longrightarrow> x \<noteq> l \<Longrightarrow> D' x = D x"
  using assms by (auto simp: marked_def)

subsection \<open>mwfs_bmap\<close>

text \<open>What every branch promises for the slot a: growth, and on success the slot holds the sector returned.\<close>

definition mapped :: "vol \<Rightarrow> slot \<Rightarrow> bool \<Rightarrow> (nat \<Rightarrow> bytes) \<Rightarrow> ino \<Rightarrow> mwfs_e \<Rightarrow> nat \<Rightarrow> (nat \<Rightarrow> bytes) \<Rightarrow> ino \<Rightarrow> bool" where
  "mapped v a zero D t e l D' t' \<longleftrightarrow> grows v {a} D t D' t' \<and>
     (e = MWFS_OK \<longrightarrow> l \<noteq> 0 \<and> val D' t' a = l \<and> (zero \<longrightarrow> val D t a = 0 \<longrightarrow> D' l = mwfs_zeros 512))"

lemma same_meta_blocks [simp]: "same_meta t (t\<lparr>i_nblocks := n\<rparr>)" "same_meta t (t\<lparr>i_direct := d, i_nblocks := n\<rparr>)"
  "same_meta t (t\<lparr>i_ind := l\<rparr>)" "same_meta t (t\<lparr>i_dind := l\<rparr>)" "same_meta t t"
  by (simp_all add: same_meta_def)

lemma ino_ok_upd:
  assumes "ino_ok t"
  shows "n < 2 ^ 32 \<Longrightarrow> ino_ok (t\<lparr>i_nblocks := n\<rparr>)"
    "n < 2 ^ 32 \<Longrightarrow> l < 2 ^ 32 \<Longrightarrow> ino_ok (t\<lparr>i_direct := (i_direct t)[k := l], i_nblocks := n\<rparr>)"
    "l < 2 ^ 32 \<Longrightarrow> ino_ok (t\<lparr>i_ind := l\<rparr>)" "l < 2 ^ 32 \<Longrightarrow> ino_ok (t\<lparr>i_dind := l\<rparr>)"
  using assms set_update_subset_insert [of "i_direct t" k l] by (auto simp: ino_ok_def)

lemma data_lt: "vol_ok v \<Longrightarrow> is_data v l \<Longrightarrow> l < 2 ^ 32" by (auto simp: vol_ok_def is_data_def)

lemma ptrs_ok_nblocks: "ptrs_ok v D t \<Longrightarrow> n < 2 ^ 32 \<Longrightarrow> ptrs_ok v D (t\<lparr>i_nblocks := n\<rparr>)" "val D (t\<lparr>i_nblocks := n\<rparr>) = val D t"
proof -
  show v: "val D (t\<lparr>i_nblocks := n\<rparr>) = val D t" by (rule ext) (rule val_cong; simp)
  show "ptrs_ok v D t \<Longrightarrow> n < 2 ^ 32 \<Longrightarrow> ptrs_ok v D (t\<lparr>i_nblocks := n\<rparr>)" by (simp add: ptrs_ok_def own_def v ino_ok_upd)
qed

lemma val_child: "is_table T \<Longrightarrow> val D t T \<noteq> 0 \<Longrightarrow> k < 128 \<Longrightarrow> val D t (child T k) = mwfs_ptrs (D (val D t T)) ! k"
  by (cases T) (auto simp: mid_def)

text \<open>Marking a sector and writing it into entry k of the table T.\<close>

lemma link_entry:
  assumes v: "vol_ok v" and p: "ptrs_ok v D t" and T: "is_table T" "val D t T = tb" "tb \<noteq> 0" and k: "k < 128" and z: "val D t (child T k) = 0"
    and m: "marked v D {l} D1" and zero: "T = SDind \<Longrightarrow> D1 l = mwfs_zeros 512" and n: "n < 2 ^ 32"
    and D2: "D2 = D1(tb := mwfs_ptr_bytes ((mwfs_ptrs (D1 tb))[k := l]))"
  shows "grows v {child T k} D t D2 (t\<lparr>i_nblocks := n\<rparr>)" "val D2 (t\<lparr>i_nblocks := n\<rparr>) = (val D t)(child T k := l)" "D2 l = D1 l"
proof -
  note M = markedD [OF m]
  have tbo: "tb \<in> own D t" using own_val [of D t T] T by simp
  have tb: "is_data v tb" "used v D tb" "tb \<noteq> l" using ptrs_okD(2,3) [OF p, of T] T M(4) by auto
  have l: "l < 2 ^ 32" "l \<noteq> 0" using data_lt [OF v M(3)] data_nonzero [OF v M(3)] .
  have bm: "\<not> is_bitmap v tb" using bitmap_not_data [OF v] tb(1) by blast
  have D1: "D1 tb = D tb" using marked_own [OF v m p tbo] by blast
  show val: "val D2 (t\<lparr>i_nblocks := n\<rparr>) = (val D t)(child T k := l)"
  proof (rule val_set_entry [OF p T(1) _ k z l(2)])
    show "val D t T \<noteq> 0" using T by simp
    show "D2 x = D x" if "x \<in> own D t" "x \<noteq> val D t T" for x using marked_own [OF v m p that(1)] that(2) T(2) D2 by simp
    show "mwfs_ptrs (D2 (val D t T)) = (mwfs_ptrs (D (val D t T)))[k := l]" using D2 T(2) D1 ptrs_update [OF k l(1)] by simp
    show "T = SDind \<Longrightarrow> D2 l = mwfs_zeros 512" using zero D2 tb(3) by simp
  qed simp_all
  have us: "used v D2 x = used v D1 x" for x using bm D2 by (intro used_cong [OF v]) auto
  show "grows v {child T k} D t D2 (t\<lparr>i_nblocks := n\<rparr>)"
  proof (rule grows_link [OF v p _ _ M(3,4) _ val z])
    show "secs_ok v D2" using M(1) D2 by (simp add: secs_ok_def)
    show "used v D2 x = (used v D x \<or> x = l)" for x using us M(2) by simp
    show "D2 x = D x" if "\<not> is_bitmap v x" "x \<noteq> l" "x \<notin> touch {child T k} D t" for x
    proof -
      have "x \<noteq> tb" using that(3) T by (auto simp: touch_def)
      thus ?thesis using M(5) [OF that(1,2)] D2 by simp
    qed
    show "is_table (child T k) \<or> child T k \<in> {child T k}" by simp
    show "ino_ok (t\<lparr>i_nblocks := n\<rparr>)" by (rule ino_ok_upd(1) [OF ptrs_okD(1) [OF p] n])
  qed simp
  show "D2 l = D1 l" using D2 tb(3) by simp
qed

lemma leaf_ok:
  assumes v: "vol_ok v" and s: "secs_ok v (vsec v s)" and p: "ptrs_ok v (vsec v s) t"
    and T: "T = SInd \<or> (\<exists>i. T = SMid i)" "val (vsec v s) t T = tb" "tb \<noteq> 0" and k: "k < 128"
    and r: "mwfs_bmap_leaf v t tb k True zero s = (e, l, t', v', s')"
  shows "mapped v (child T k) zero (vsec v s) t e l (vsec v s') t'" "same_geo v v'" "blk_rd s' = blk_rd s" "blk_wr s' = blk_wr s"
proof -
  let ?D = "vsec v s"
  have Tt: "is_table T" using T(1) by auto
  have c: "val ?D t (child T k) = mwfs_ptrs (?D tb) ! k" using val_child [OF Tt, of ?D t k] T k by simp
  have "mapped v (child T k) zero ?D t e l (vsec v s') t' \<and> same_geo v v' \<and> blk_rd s' = blk_rd s \<and> blk_wr s' = blk_wr s"
  proof (cases "mwfs_rd v tb s")
    case None
    thus ?thesis using r grows_refl [OF s p] by (simp add: mwfs_bmap_leaf_def mapped_def)
  next
    case (Some b)
    have b: "b = ?D tb" using rd_Some [OF Some] by simp
    show ?thesis
    proof (cases "mwfs_ptrs b ! k = 0")
      case False
      thus ?thesis using r Some grows_refl [OF s p] b c by (auto simp: mwfs_bmap_leaf_def mapped_def Let_def)
    next
      case True
      obtain e1 x v1 s1 where f: "mwfs_fill zero v s = (e1, x, v1, s1)" by (cases "mwfs_fill zero v s") auto
      note F = fill_ok [OF v s f]
      note G = same_geoD [OF F(2)]
      show ?thesis
      proof (cases "e1 = MWFS_OK")
        case e1: False
        hence "(e, l, t', v', s') = (e1, 0, t, v1, s1)" using r Some True f by (simp add: mwfs_bmap_leaf_def Let_def)
        thus ?thesis using e1 filled_fail [OF v F(1) p] F by (simp add: mapped_def)
      next
        case e1: True
        note FD = filledD [OF F(1) [unfolded e1]]
        define t1 where "t1 = t\<lparr>i_nblocks := (i_nblocks t + 1) mod 2 ^ 32\<rparr>"
        obtain ok s2 where w: "mwfs_wr v1 tb (mwfs_ptr_bytes ((mwfs_ptrs b)[k := x])) s1 = (ok, s2)" by fastforce
        have v1: "vol_ok v1" using G v by simp
        note W = wr_cases [OF w v1]
        have eq: "(e, l, t', v', s') = (if ok then MWFS_OK else MWFS_E_IO, if ok then x else 0, t1, v1, s2)"
          using r Some True f e1 w unfolding mwfs_bmap_leaf_def Let_def t1_def by (auto split: if_splits)
        have tbo: "tb \<in> own ?D t" using own_val [of ?D t T] T by simp
        have tbeq: "vsec v s1 tb = ?D tb" using marked_own [OF v FD(1) p tbo] by blast
        have c0: "val ?D t (child T k) = 0" using c b True by simp
        have g: "mapped v (child T k) zero ?D t e l (vsec v s2) t'"
        proof (cases ok)
          case True
          have D2: "vsec v s2 = (vsec v s1)(tb := mwfs_ptr_bytes ((mwfs_ptrs (vsec v s1 tb))[k := x]))" using W(1) True G b tbeq by simp
          have Tn: "T \<noteq> SDind" using T(1) by auto
          note L = link_entry [OF v p Tt T(2,3) k c0 FD(1) _ _ D2, of "(i_nblocks t + 1) mod 2 ^ 32"]
          show ?thesis using L Tn eq True FD(3,4) by (auto simp: mapped_def t1_def)
        next
          case False
          have "vsec v s2 = vsec v s1" using W(1) False G by simp
          moreover have "grows v {child T k} (vsec v s1) t (vsec v s1) t1"
          proof -
            have "ptrs_ok v (vsec v s1) t" using grows_marked [OF v FD(1) p] growsD(2) by blast
            hence "ptrs_ok v (vsec v s1) t1" "val (vsec v s1) t1 = val (vsec v s1) t" unfolding t1_def using ptrs_ok_nblocks by simp_all
            thus ?thesis using markedD(1) [OF FD(1)] by (simp add: grows_def t1_def)
          qed
          ultimately show ?thesis using grows_trans [OF grows_marked [OF v FD(1) p]] eq False by (simp add: mapped_def)
        qed
        thus ?thesis using eq F W by simp
      qed
    qed
  qed
  thus "mapped v (child T k) zero ?D t e l (vsec v s') t'" "same_geo v v'" "blk_rd s' = blk_rd s" "blk_wr s' = blk_wr s" by blast+
qed


text \<open>Setting a pointer in the inode itself.\<close>

lemma link_root:
  assumes v: "vol_ok v" and p: "ptrs_ok v D t" and z: "val D t a = 0" and m: "marked v D {l} D'" and n: "n < 2 ^ 32"
    and cases: "(\<exists>k < 8. a = SDir k \<and> t' = t\<lparr>i_direct := (i_direct t)[k := l], i_nblocks := n\<rparr>) \<or>
      (a = SInd \<and> t' = t\<lparr>i_ind := l\<rparr> \<and> D' l = mwfs_zeros 512) \<or> (a = SDind \<and> t' = t\<lparr>i_dind := l\<rparr> \<and> D' l = mwfs_zeros 512)"
    and S: "is_table a \<or> a \<in> S"
  shows "grows v S D t D' t'" "val D' t' = (val D t)(a := l)"
proof -
  note M = markedD [OF m]
  show val: "val D' t' = (val D t)(a := l)" using marked_own [OF v m p] cases by (intro val_set_root [OF p z]) auto
  have l: "l < 2 ^ 32" by (rule data_lt [OF v M(3)])
  have t': "ino_ok t'" "same_meta t t'" using cases ino_ok_upd [OF ptrs_okD(1) [OF p]] l n by auto
  show "grows v S D t D' t'" by (rule grows_link [OF v p M(1) M(2) M(3,4) M(5) val z S t'])
qed

definition bmap_spec :: "vol \<Rightarrow> slot \<Rightarrow> bool \<Rightarrow> blk \<Rightarrow> ino \<Rightarrow> bmap_result \<Rightarrow> bool" where
  "bmap_spec v a zero s t r \<longleftrightarrow> (case r of (e, l, t', v', s') \<Rightarrow>
     mapped v a zero (vsec v s) t e l (vsec v s') t' \<and> same_geo v v' \<and> blk_rd s' = blk_rd s \<and> blk_wr s' = blk_wr s)"

lemma leaf_spec:
  assumes "vol_ok v" "secs_ok v (vsec v s)" "ptrs_ok v (vsec v s) t"
    "T = SInd \<or> (\<exists>i. T = SMid i)" "val (vsec v s) t T = tb" "tb \<noteq> 0" "k < 128"
  shows "bmap_spec v (child T k) zero s t (mwfs_bmap_leaf v t tb k True zero s)"
  using leaf_ok [OF assms] by (cases "mwfs_bmap_leaf v t tb k True zero s") (simp add: bmap_spec_def)

text \<open>A step that grew the inode's tables, followed by the rest of the mapping.\<close>

lemma bmap_spec_trans:
  assumes g: "grows v {} (vsec v s) t (vsec v s1) t1" "same_geo v v1" "blk_rd s1 = blk_rd s" "blk_wr s1 = blk_wr s"
    and r: "bmap_spec v1 a zero s1 t1 r" and a: "\<not> is_table a"
  shows "bmap_spec v a zero s t r"
proof -
  obtain e l t' v' s' where r': "r = (e, l, t', v', s')" by (cases r) auto
  note G = same_geoD [OF g(2)]
  have gr: "grows v1 S D t D' t' = grows v S D t D' t'" for S D t D' t'
    using G by (simp add: grows_def secs_ok_def ptrs_ok_def is_data_def used_def is_bitmap_def)
  have R: "mapped v1 a zero (vsec v1 s1) t1 e l (vsec v1 s') t'" "same_geo v1 v'" "blk_rd s' = blk_rd s1" "blk_wr s' = blk_wr s1"
    using r r' by (simp_all add: bmap_spec_def)
  have g1: "grows v {a} (vsec v s) t (vsec v s1) t1" by (rule grows_mono [OF g(1)]) simp
  have g2: "grows v {a} (vsec v s1) t1 (vsec v s') t'" using R(1) G gr by (simp add: mapped_def)
  have va: "val (vsec v s1) t1 a = val (vsec v s) t a" using growsD(7) [OF g(1), of a] a by simp
  have "mapped v a zero (vsec v s) t e l (vsec v s') t'" using R(1) grows_trans [OF g1 g2] va G by (simp add: mapped_def)
  thus ?thesis using R g same_geo_trans [OF g(2) R(2)] r' by (simp add: bmap_spec_def)
qed

lemma bmap_spec_fail:
  assumes "grows v {} (vsec v s) t (vsec v s1) t1" "same_geo v v1" "blk_rd s1 = blk_rd s" "blk_wr s1 = blk_wr s" "e \<noteq> MWFS_OK"
  shows "bmap_spec v a zero s t (e, l, t1, v1, s1)"
  using assms grows_mono [OF assms(1), of "{a}"] by (simp add: bmap_spec_def mapped_def)

lemma direct_ok:
  assumes v: "vol_ok v" and s: "secs_ok v (vsec v s)" and p: "ptrs_ok v (vsec v s) t" and i: "idx < 8"
  shows "bmap_spec v (SDir idx) zero s t (mwfs_bmap_direct v t idx True zero s)"
proof (cases "i_direct t ! idx = 0")
  case False
  thus ?thesis using grows_refl [OF s p] i by (simp add: mwfs_bmap_direct_def bmap_spec_def mapped_def)
next
  case True
  obtain e x v1 s1 where f: "mwfs_fill zero v s = (e, x, v1, s1)" by (cases "mwfs_fill zero v s") auto
  note F = fill_ok [OF v s f]
  show ?thesis
  proof (cases "e = MWFS_OK")
    case False
    thus ?thesis using True f bmap_spec_fail [OF filled_fail [OF v F(1) p] F(2-4) False] by (simp add: mwfs_bmap_direct_def)
  next
    case e: True
    note FD = filledD [OF F(1) [unfolded e]]
    let ?t = "t\<lparr>i_direct := (i_direct t)[idx := x], i_nblocks := (i_nblocks t + 1) mod 2 ^ 32\<rparr>"
    have z: "val (vsec v s) t (SDir idx) = 0" using True i by simp
    have c: "(\<exists>k < 8. SDir idx = SDir k \<and> ?t = t\<lparr>i_direct := (i_direct t)[k := x], i_nblocks := (i_nblocks t + 1) mod 2 ^ 32\<rparr>) \<or>
      (SDir idx = SInd \<and> ?t = t\<lparr>i_ind := x\<rparr> \<and> vsec v s1 x = mwfs_zeros 512) \<or> (SDir idx = SDind \<and> ?t = t\<lparr>i_dind := x\<rparr> \<and> vsec v s1 x = mwfs_zeros 512)"
      using i by auto
    have n: "(i_nblocks t + 1) mod 2 ^ 32 < (2 :: nat) ^ 32" by simp
    note L = link_root [OF v p z FD(1) n c, of "{SDir idx}"]
    have "mwfs_bmap_direct v t idx True zero s = (MWFS_OK, x, ?t, v1, s1)" using True f e by (simp add: mwfs_bmap_direct_def Let_def)
    moreover have "val (vsec v s1) ?t (SDir idx) = x" using L(2) by simp
    moreover have "grows v {SDir idx} (vsec v s) t (vsec v s1) ?t" using L(1) by simp
    ultimately show ?thesis using FD F unfolding bmap_spec_def mapped_def by simp
  qed
qed

text \<open>A missing table is created first.\<close>

lemma new_table:
  assumes v: "vol_ok v" and s: "secs_ok v (vsec v s)" and p: "ptrs_ok v (vsec v s) t"
    and a: "(a = SInd \<and> u = (\<lambda>l. t\<lparr>i_ind := l\<rparr>)) \<or> (a = SDind \<and> u = (\<lambda>l. t\<lparr>i_dind := l\<rparr>))" and z: "val (vsec v s) t a = 0"
    and r: "mwfs_new_zeroed v s = (e, l, v1, s1)"
  shows "same_geo v v1" "blk_rd s1 = blk_rd s" "blk_wr s1 = blk_wr s"
    "e \<noteq> MWFS_OK \<Longrightarrow> grows v {} (vsec v s) t (vsec v s1) t"
    "e = MWFS_OK \<Longrightarrow> grows v {} (vsec v s) t (vsec v s1) (u l) \<and> val (vsec v s1) (u l) = (val (vsec v s) t)(a := l) \<and> l \<noteq> 0"
proof -
  note F = new_zeroed_ok [OF v s r]
  show "same_geo v v1" "blk_rd s1 = blk_rd s" "blk_wr s1 = blk_wr s" by (rule F)+
  show "e \<noteq> MWFS_OK \<Longrightarrow> grows v {} (vsec v s) t (vsec v s1) t" using filled_fail [OF v F(1) p] by simp
  assume e: "e = MWFS_OK"
  note FD = filledD [OF F(1) [unfolded e]]
  have T: "is_table a \<or> a \<in> {}" using a by auto
  have c: "(\<exists>k < 8. a = SDir k \<and> u l = t\<lparr>i_direct := (i_direct t)[k := l], i_nblocks := 0\<rparr>) \<or>
      (a = SInd \<and> u l = t\<lparr>i_ind := l\<rparr> \<and> vsec v s1 l = mwfs_zeros 512) \<or> (a = SDind \<and> u l = t\<lparr>i_dind := l\<rparr> \<and> vsec v s1 l = mwfs_zeros 512)"
    using a FD(4) by auto
  show "grows v {} (vsec v s) t (vsec v s1) (u l) \<and> val (vsec v s1) (u l) = (val (vsec v s) t)(a := l) \<and> l \<noteq> 0"
    using link_root [OF v p z FD(1) _ c T] FD(3) by simp
qed

lemma ind_ok:
  assumes v: "vol_ok v" and s: "secs_ok v (vsec v s)" and p: "ptrs_ok v (vsec v s) t" and k: "k < 128"
  shows "bmap_spec v (SIndE k) zero s t (mwfs_bmap_ind v t k True zero s)"
proof (cases "i_ind t = 0")
  case False
  thus ?thesis using leaf_spec [OF v s p, of SInd "i_ind t" k zero] k by (simp add: mwfs_bmap_ind_def)
next
  case True
  obtain e l v1 s1 where r: "mwfs_new_zeroed v s = (e, l, v1, s1)" by (cases "mwfs_new_zeroed v s") auto
  have z: "val (vsec v s) t SInd = 0" using True by simp
  note N = new_table [OF v s p _ z r, where u = "\<lambda>l. t\<lparr>i_ind := l\<rparr>", simplified]
  show ?thesis
  proof (cases "e = MWFS_OK")
    case False
    thus ?thesis using True r bmap_spec_fail [OF N(4) N(1-3)] by (simp add: mwfs_bmap_ind_def)
  next
    case e: True
    let ?t = "t\<lparr>i_ind := l\<rparr>"
    have g: "grows v {} (vsec v s) t (vsec v s1) ?t" and l: "l \<noteq> 0" using N(5) e by auto
    note G = same_geoD [OF N(1)]
    have v1: "vol_ok v1" using G v by simp
    have s1: "secs_ok v1 (vsec v1 s1)" "ptrs_ok v1 (vsec v1 s1) ?t"
      using growsD(1,2) [OF g] G by (simp_all add: secs_ok_def ptrs_ok_def is_data_def used_def)
    have "bmap_spec v1 (SIndE k) zero s1 ?t (mwfs_bmap_leaf v1 ?t l k True zero s1)"
      using leaf_spec [OF v1 s1, of SInd l k zero] k l by simp
    hence "bmap_spec v (SIndE k) zero s t (mwfs_bmap_leaf v1 ?t l k True zero s1)"
      by (rule bmap_spec_trans [OF g N(1-3)]) simp
    thus ?thesis using True r e by (simp add: mwfs_bmap_ind_def)
  qed
qed


lemma view_cong:
  assumes "same_geo v v'"
  shows "secs_ok v' = secs_ok v" "used v' = used v" "is_data v' = is_data v" "ptrs_ok v' = ptrs_ok v" "is_bitmap v' = is_bitmap v" "grows v' = grows v"
proof -
  note G = same_geoD [OF assms]
  show "secs_ok v' = secs_ok v" "used v' = used v" "is_data v' = is_data v" "is_bitmap v' = is_bitmap v"
    using G by (simp_all add: fun_eq_iff secs_ok_def used_def is_data_def is_bitmap_def)
  thus "ptrs_ok v' = ptrs_ok v" by (simp add: fun_eq_iff ptrs_ok_def)
  thus "grows v' = grows v" using \<open>secs_ok v' = secs_ok v\<close> \<open>used v' = used v\<close> \<open>is_data v' = is_data v\<close> \<open>is_bitmap v' = is_bitmap v\<close>
    by (simp add: fun_eq_iff grows_def)
qed

lemma mid_ok:
  assumes v: "vol_ok v" and s: "secs_ok v (vsec v s)" and p: "ptrs_ok v (vsec v s) t" and d: "i_dind t \<noteq> 0" and j: "j < 16384"
  shows "bmap_spec v (SLeaf (j div 128) (j mod 128)) zero s t (mwfs_bmap_mid v t j True zero s)"
proof (cases "mwfs_rd v (i_dind t) s")
  case None
  thus ?thesis using grows_refl [OF s p] by (simp add: mwfs_bmap_mid_def bmap_spec_def mapped_def)
next
  case (Some b)
  have b: "b = vsec v s (i_dind t)" using rd_Some [OF Some] by simp
  let ?i = "j div 128" let ?m = "mwfs_ptrs b ! ?i"
  have i: "?i < 128" using j by (simp add: div_less_iff_less_mult)
  have m: "val (vsec v s) t (SMid ?i) = ?m" using d i b by (simp add: mid_def)
  show ?thesis
  proof (cases "?m = 0")
    case False
    have "bmap_spec v (SLeaf ?i (j mod 128)) zero s t (mwfs_bmap_leaf v t ?m (j mod 128) True zero s)"
      using leaf_spec [OF v s p, of "SMid ?i" ?m "j mod 128" zero] m False by simp
    thus ?thesis using Some False by (simp add: mwfs_bmap_mid_def Let_def MWFS_PTRS_def)
  next
    case True
    obtain e l v1 s1 where r: "mwfs_new_zeroed v s = (e, l, v1, s1)" by (cases "mwfs_new_zeroed v s") auto
    note F = new_zeroed_ok [OF v s r]
    note G = same_geoD [OF F(2)]
    show ?thesis
    proof (cases "e = MWFS_OK")
      case False
      hence "mwfs_bmap_mid v t j True zero s = (e, 0, t, v1, s1)" using Some True r by (simp add: mwfs_bmap_mid_def Let_def MWFS_PTRS_def)
      thus ?thesis using bmap_spec_fail [OF filled_fail [OF v F(1) p] F(2-4) False] by simp
    next
      case e: True
      note FD = filledD [OF F(1) [unfolded e]]
      obtain ok s2 where w: "mwfs_wr v1 (i_dind t) (mwfs_ptr_bytes ((mwfs_ptrs b)[?i := l])) s1 = (ok, s2)" by fastforce
      have v1: "vol_ok v1" using G v by simp
      note W = wr_cases [OF w v1]
      have eq: "mwfs_bmap_mid v t j True zero s =
          (if ok then mwfs_bmap_leaf v1 t l (j mod 128) True zero s2 else (MWFS_E_IO, 0, t, v1, s2))"
        using Some True r e w by (simp add: mwfs_bmap_mid_def Let_def MWFS_PTRS_def)
      have to: "i_dind t \<in> own (vsec v s) t" using own_val [of "vsec v s" t SDind] d by simp
      have teq: "vsec v s1 (i_dind t) = b" using marked_own [OF v FD(1) p to] b by simp
      have rw: "blk_rd s2 = blk_rd s" "blk_wr s2 = blk_wr s" using W(3,4) F(3,4) by simp_all
      show ?thesis
      proof (cases ok)
        case False
        hence "vsec v s2 = vsec v s1" using W(1) G by simp
        hence "grows v {} (vsec v s) t (vsec v s2) t" using grows_marked [OF v FD(1) p] by simp
        from bmap_spec_fail [OF this F(2) rw, of MWFS_E_IO] show ?thesis unfolding eq using False by simp
      next
        case True
        have D2: "vsec v s2 = (vsec v s1)(i_dind t := mwfs_ptr_bytes ((mwfs_ptrs (vsec v s1 (i_dind t)))[?i := l]))"
          using W(1) True G teq by simp
        have c0: "val (vsec v s) t (child SDind ?i) = 0" using m \<open>?m = 0\<close> by simp
        have n: "i_nblocks t < 2 ^ 32" using ptrs_okD(1) [OF p] by (simp add: ino_ok_def)
        note L = link_entry [OF v p _ _ d i c0 FD(1) FD(4) n D2, simplified]
        have g: "grows v {} (vsec v s) t (vsec v s2) t" using grows_table [OF L(1)] by simp
        have s2: "secs_ok v1 (vsec v1 s2)" "ptrs_ok v1 (vsec v1 s2) t" using growsD(1,2) [OF g] G view_cong [OF F(2)] by simp_all
        have "val (vsec v1 s2) t (SMid ?i) = l" using L(2) G by simp
        hence "bmap_spec v1 (SLeaf ?i (j mod 128)) zero s2 t (mwfs_bmap_leaf v1 t l (j mod 128) True zero s2)"
          using leaf_spec [OF v1 s2, of "SMid ?i" l "j mod 128" zero] FD(3) by simp
        hence "bmap_spec v (SLeaf ?i (j mod 128)) zero s t (mwfs_bmap_leaf v1 t l (j mod 128) True zero s2)"
          by (rule bmap_spec_trans [OF g F(2) rw]) simp
        thus ?thesis unfolding eq using True by simp
      qed
    qed
  qed
qed

lemma dind_ok:
  assumes v: "vol_ok v" and s: "secs_ok v (vsec v s)" and p: "ptrs_ok v (vsec v s) t" and j: "j < 16384"
  shows "bmap_spec v (SLeaf (j div 128) (j mod 128)) zero s t (mwfs_bmap_dind v t j True zero s)"
proof (cases "i_dind t = 0")
  case False
  thus ?thesis using mid_ok [OF v s p False j, of zero] j by (simp add: mwfs_bmap_dind_def MWFS_PTRS_def)
next
  case True
  obtain e l v1 s1 where r: "mwfs_new_zeroed v s = (e, l, v1, s1)" by (cases "mwfs_new_zeroed v s") auto
  have z: "val (vsec v s) t SDind = 0" using True by simp
  note N = new_table [OF v s p _ z r, where u = "\<lambda>l. t\<lparr>i_dind := l\<rparr>", simplified]
  show ?thesis
  proof (cases "e = MWFS_OK")
    case False
    thus ?thesis using True r j bmap_spec_fail [OF N(4) N(1-3)] by (simp add: mwfs_bmap_dind_def MWFS_PTRS_def)
  next
    case e: True
    let ?t = "t\<lparr>i_dind := l\<rparr>"
    have g: "grows v {} (vsec v s) t (vsec v s1) ?t" and l: "l \<noteq> 0" using N(5) e by auto
    note G = same_geoD [OF N(1)]
    have v1: "vol_ok v1" using G v by simp
    have s1: "secs_ok v1 (vsec v1 s1)" "ptrs_ok v1 (vsec v1 s1) ?t" using growsD(1,2) [OF g] G view_cong [OF N(1)] by simp_all
    have "bmap_spec v1 (SLeaf (j div 128) (j mod 128)) zero s1 ?t (mwfs_bmap_mid v1 ?t j True zero s1)"
      using mid_ok [OF v1 s1 _ j, of zero] l by simp
    hence "bmap_spec v (SLeaf (j div 128) (j mod 128)) zero s t (mwfs_bmap_mid v1 ?t j True zero s1)"
      by (rule bmap_spec_trans [OF g N(1-3)]) simp
    thus ?thesis using True r e j by (simp add: mwfs_bmap_dind_def MWFS_PTRS_def)
  qed
qed

text \<open>mwfs_bmap with create: every outcome, on every device.\<close>

lemma bmap_ok:
  assumes v: "vol_ok v" and s: "secs_ok v (vsec v s)" and p: "ptrs_ok v (vsec v s) t"
  shows "bmap_spec v (slot_of idx) zero s t (mwfs_bmap v t idx True zero s)"
    "fst (mwfs_bmap v t idx True zero s) = MWFS_OK \<Longrightarrow> idx < file_max"
proof -
  have sl: "slot_of idx = (if idx < 8 then SDir idx else if idx - 8 < 128 then SIndE (idx - 8) else SLeaf ((idx - 136) div 128) ((idx - 136) mod 128))"
    by (simp add: slot_of_def)
  have big: "mwfs_bmap v t idx True zero s = (MWFS_E_TOOBIG, 0, t, v, s)" if "\<not> idx < file_max"
  proof -
    have "\<not> idx < 8" "\<not> idx - 8 < 128" "16384 \<le> idx - 136" using that by (simp_all add: file_max_def)
    thus ?thesis by (simp add: mwfs_bmap_def mwfs_bmap_dind_def MWFS_NDIRECT_def MWFS_PTRS_def)
  qed
  show "fst (mwfs_bmap v t idx True zero s) = MWFS_OK \<Longrightarrow> idx < file_max" using big by (cases "idx < file_max") auto
  show "bmap_spec v (slot_of idx) zero s t (mwfs_bmap v t idx True zero s)"
  proof (cases "idx < file_max")
    case False
    thus ?thesis using big bmap_spec_fail [of v s t s t v MWFS_E_TOOBIG] grows_refl [OF s p] by simp
  next
    case True
    consider "idx < 8" | "\<not> idx < 8" "idx - 8 < 128" | "\<not> idx < 8" "\<not> idx - 8 < 128" by blast
    thus ?thesis
    proof cases
      case 1 thus ?thesis using direct_ok [OF v s p 1, of zero] sl by (simp add: mwfs_bmap_def MWFS_NDIRECT_def)
    next
      case 2 thus ?thesis using ind_ok [OF v s p 2(2), of zero] sl by (simp add: mwfs_bmap_def MWFS_NDIRECT_def MWFS_PTRS_def)
    next
      case 3
      have j: "idx - 136 < 16384" using True by (simp add: file_max_def)
      have "idx - MWFS_NDIRECT - MWFS_PTRS = idx - 136" by (simp add: MWFS_NDIRECT_def MWFS_PTRS_def)
      thus ?thesis using dind_ok [OF v s p j, of zero] sl 3 by (simp add: mwfs_bmap_def MWFS_NDIRECT_def MWFS_PTRS_def)
    qed
  qed
qed

text \<open>Without create it reads the slot, and changes nothing.\<close>

lemma bmap_lookup:
  assumes "mwfs_bmap v t idx False zero s = (e, l, t', v', s')"
  shows "t' = t" "v' = v" "s' = s" "e = MWFS_OK \<Longrightarrow> idx < file_max \<and> l = val (vsec v s) t (slot_of idx)"
proof -
  have leaf: "t' = t \<and> v' = v \<and> s' = s \<and> (e = MWFS_OK \<longrightarrow> l = mwfs_ptrs (vsec v s tb) ! k)"
    if "mwfs_bmap_leaf v t tb k False zero s = (e, l, t', v', s')" for tb k
    using that rd_Some [of v tb s] by (auto simp: mwfs_bmap_leaf_def Let_def split: option.splits if_splits)
  have "t' = t \<and> v' = v \<and> s' = s \<and> (e = MWFS_OK \<longrightarrow> idx < file_max \<and> l = val (vsec v s) t (slot_of idx))"
  proof -
    consider (a) "idx < 8" | (b) "\<not> idx < 8" "idx - 8 < 128" | (c) "\<not> idx < 8" "\<not> idx - 8 < 128" by blast
    thus ?thesis
    proof cases
      case a thus ?thesis using assms by (auto simp: mwfs_bmap_def mwfs_bmap_direct_def MWFS_NDIRECT_def slot_of_def file_max_def split: if_splits)
    next
      case b
      thus ?thesis using assms leaf by (auto simp: mwfs_bmap_def mwfs_bmap_ind_def MWFS_NDIRECT_def MWFS_PTRS_def slot_of_def file_max_def split: if_splits)
    next
      case c
      let ?j = "idx - 136"
      have e: "mwfs_bmap_dind v t ?j False zero s = (e, l, t', v', s')" using assms c by (simp add: mwfs_bmap_def MWFS_NDIRECT_def MWFS_PTRS_def)
      show ?thesis
      proof (cases "?j < 16384")
        case False thus ?thesis using e by (auto simp: mwfs_bmap_dind_def MWFS_PTRS_def)
      next
        case j: True
        have sl: "slot_of idx = SLeaf (?j div 128) (?j mod 128)" "idx < file_max" using c j by (simp_all add: slot_of_def file_max_def)
        have i: "?j div 128 < 128" using j by (simp add: div_less_iff_less_mult)
        show ?thesis
        proof (cases "i_dind t = 0")
          case True thus ?thesis using e j sl by (simp add: mwfs_bmap_dind_def MWFS_PTRS_def mid_def)
        next
          case False
          hence m: "mwfs_bmap_mid v t ?j False zero s = (e, l, t', v', s')" using e j by (simp add: mwfs_bmap_dind_def MWFS_PTRS_def)
          show ?thesis
          proof (cases "mwfs_rd v (i_dind t) s")
            case None thus ?thesis using m by (simp add: mwfs_bmap_mid_def)
          next
            case (Some b)
            have b: "mid (vsec v s) t (?j div 128) = mwfs_ptrs b ! (?j div 128)" using rd_Some [OF Some] False i by (simp add: mid_def)
            thus ?thesis using m Some sl leaf by (auto simp: mwfs_bmap_mid_def Let_def MWFS_PTRS_def split: if_splits)
          qed
        qed
      qed
    qed
  qed
  thus "t' = t" "v' = v" "s' = s" "e = MWFS_OK \<Longrightarrow> idx < file_max \<and> l = val (vsec v s) t (slot_of idx)" by blast+
qed

lemma lookup_Some: "mwfs_lookup v t idx s = Some l \<Longrightarrow> idx < file_max \<and> l = val (vsec v s) t (slot_of idx)"
  using bmap_lookup(4) [of v t idx False s] by (cases "mwfs_bmap v t idx False False s") (auto simp: mwfs_lookup_def split: if_splits)

end
