(* ===== verification/Mwfs_Content.thy ===== *)
theory Mwfs_Content
  imports Mwfs_Disk
begin

text \<open>
  The bytes of a file: what mwfs_pread returns, and what mwfs_pwrite leaves for it to return. Every sector a
  write touches is one the file already owned or a free one, so the other files and directories keep theirs;
  a write that fails half way leaves an inode that is still well formed.
\<close>


subsection \<open>Contents\<close>

definition sec_at :: "(nat \<Rightarrow> bytes) \<Rightarrow> ino \<Rightarrow> nat \<Rightarrow> bytes" where
  "sec_at D t idx = (let l = val D t (slot_of idx) in if l = 0 then mwfs_zeros 512 else D l)"

definition byte_at :: "(nat \<Rightarrow> bytes) \<Rightarrow> ino \<Rightarrow> nat \<Rightarrow> u8" where
  "byte_at D t p = sec_at D t (p div 512) ! (p mod 512)"

text \<open>The file as a list of bytes.\<close>

definition content :: "(nat \<Rightarrow> bytes) \<Rightarrow> ino \<Rightarrow> bytes" where "content D t = map (byte_at D t) [0..<i_size t]"

lemma sec_at_length: "secs_ok v D \<Longrightarrow> ptrs_ok v D t \<Longrightarrow> length (sec_at D t idx) = 512"
  using ptrs_okD(2) [of v D t "slot_of idx"] by (auto simp: sec_at_def Let_def secs_ok_def is_data_def)

lemma slice_bytes:
  assumes "secs_ok v D" "ptrs_ok v D t" "n \<le> 512 - pos mod 512"
  shows "slice (pos mod 512) n (sec_at D t (pos div 512)) = map (byte_at D t) [pos..<pos + n]"
proof (rule nth_equalityI)
  have l: "length (sec_at D t (pos div 512)) = 512" by (rule sec_at_length [OF assms(1,2)])
  have ln: "pos mod 512 + n \<le> length (sec_at D t (pos div 512))" using l assms(3) mod_less_divisor [of 512 pos] by linarith
  thus "length (slice (pos mod 512) n (sec_at D t (pos div 512))) = length (map (byte_at D t) [pos..<pos + n])" by simp
  fix q assume "q < length (slice (pos mod 512) n (sec_at D t (pos div 512)))"
  hence q: "q < n" using ln by simp
  have "pos mod 512 + q < 512" using q ln l by linarith
  moreover have "pos + q = pos div 512 * 512 + (pos mod 512 + q)" by simp
  ultimately have "(pos + q) div 512 = pos div 512" "(pos + q) mod 512 = pos mod 512 + q"
    by (metis add.commute div_mult_self3 div_less add_0 zero_neq_numeral, metis mod_mult_self3 mod_less)
  thus "slice (pos mod 512) n (sec_at D t (pos div 512)) ! q = map (byte_at D t) [pos..<pos + n] ! q"
    using q ln by (simp add: byte_at_def)
qed

lemma pread_loop_ok:
  assumes "secs_ok v (vsec v s)" "ptrs_ok v (vsec v s) t" "mwfs_pread_loop v t pos rest s = Some r"
  shows "r = map (byte_at (vsec v s) t) [pos..<pos + rest]"
  using assms
proof (induction v t pos rest s arbitrary: r rule: mwfs_pread_loop.induct)
  case (1 v t pos rest s)
  show ?case
  proof (cases "rest = 0")
    case True thus ?thesis using "1.prems"(3) by (simp add: mwfs_pread_loop.simps)
  next
    case False
    let ?n = "min (512 - pos mod 512) rest"
    obtain lba b r' where l: "mwfs_lookup v t (pos div 512) s = Some lba" "(if lba \<noteq> 0 then mwfs_rd v lba s else Some (mwfs_zeros 512)) = Some b"
      "mwfs_pread_loop v t (pos + ?n) (rest - ?n) s = Some r'" "r = slice (pos mod 512) ?n b @ r'"
      using "1.prems"(3) False by (subst (asm) mwfs_pread_loop.simps) (auto simp: Let_def split: option.splits)
    have b: "b = sec_at (vsec v s) t (pos div 512)"
      using lookup_Some [OF l(1)] l(2) rd_Some [of v lba s b] by (auto simp: sec_at_def split: if_splits)
    have r': "r' = map (byte_at (vsec v s) t) [pos + ?n..<pos + ?n + (rest - ?n)]"
      using "1.IH" [OF False refl refl refl l(1,2) "1.prems"(1,2) l(3)] .
    have "slice (pos mod 512) ?n b = map (byte_at (vsec v s) t) [pos..<pos + ?n]"
      unfolding b using "1.prems"(1,2) by (intro slice_bytes) simp_all
    moreover have "[pos..<pos + rest] = [pos..<pos + ?n] @ [pos + ?n..<pos + ?n + (rest - ?n)]"
      using upt_add_eq_append [of pos "pos + ?n" "rest - ?n"] by simp
    ultimately show ?thesis using l(4) r' by simp
  qed
qed

lemma pread_content:
  assumes "secs_ok v (vsec v s)" "ptrs_ok v (vsec v s) t" "mwfs_pread v t 0 (i_size t) s = Some r"
  shows "r = content (vsec v s) t"
  using pread_loop_ok [OF assms(1,2), of 0 "i_size t"] assms(3) by (auto simp: mwfs_pread_def content_def split: if_splits)

text \<open>A device whose reads all work.\<close>

definition calm :: "blk \<Rightarrow> bool" where "calm s \<longleftrightarrow> (\<forall>n d l. blk_rd s n d l)"

lemma calm_rd: "calm s \<Longrightarrow> l < v_sectors v \<Longrightarrow> mwfs_rd v l s = Some (vsec v s l)"
  by (simp add: mwfs_rd_def blk_read_def calm_def vsec_def)

lemma calm_lookup:
  assumes c: "calm s" and p: "ptrs_ok v (vsec v s) t" and i: "idx < file_max"
  shows "mwfs_lookup v t idx s = Some (val (vsec v s) t (slot_of idx))"
proof -
  let ?D = "vsec v s"
  have sec: "val ?D t a < v_sectors v" if "val ?D t a \<noteq> 0" for a using ptrs_okD(2) [OF p that] by (simp add: is_data_def)
  have rd: "mwfs_rd v (val ?D t a) s = Some (?D (val ?D t a))" if "val ?D t a \<noteq> 0" for a by (rule calm_rd [OF c sec [OF that]])
  have leaf: "mwfs_bmap_leaf v t tb k False False s = (MWFS_OK, mwfs_ptrs (?D tb) ! k, t, v, s)"
    if "val ?D t a = tb" "tb \<noteq> 0" for a tb k using rd [of a] that by (simp add: mwfs_bmap_leaf_def Let_def)
  obtain l t' v' s' e where r: "mwfs_bmap v t idx False False s = (e, l, t', v', s')" by (cases "mwfs_bmap v t idx False False s") auto
  have "e = MWFS_OK"
  proof -
    consider (a) "idx < 8" | (b) "\<not> idx < 8" "idx - 8 < 128" | (c) "\<not> idx < 8" "\<not> idx - 8 < 128" by blast
    thus ?thesis
    proof cases
      case a thus ?thesis using r by (auto simp: mwfs_bmap_def mwfs_bmap_direct_def MWFS_NDIRECT_def split: if_splits)
    next
      case b thus ?thesis using r leaf [of SInd "i_ind t"] by (auto simp: mwfs_bmap_def mwfs_bmap_ind_def MWFS_NDIRECT_def MWFS_PTRS_def split: if_splits)
    next
      case c
      let ?j = "idx - 136"
      have j: "?j < 16384" using i by (simp add: file_max_def)
      have e: "mwfs_bmap_dind v t ?j False False s = (e, l, t', v', s')" using r c by (simp add: mwfs_bmap_def MWFS_NDIRECT_def MWFS_PTRS_def)
      show ?thesis
      proof (cases "i_dind t = 0")
        case True thus ?thesis using e j by (simp add: mwfs_bmap_dind_def MWFS_PTRS_def)
      next
        case False
        have m: "val ?D t (SMid (?j div 128)) = mwfs_ptrs (?D (i_dind t)) ! (?j div 128)" using False j by (simp add: mid_def div_less_iff_less_mult)
        show ?thesis using e j False rd [of SDind] leaf [OF m] by (auto simp: mwfs_bmap_dind_def mwfs_bmap_mid_def Let_def MWFS_PTRS_def split: if_splits)
      qed
    qed
  qed
  thus ?thesis using bmap_lookup(4) [OF r] r by (simp add: mwfs_lookup_def)
qed

lemma pread_loop_calm:
  assumes "calm s" "ptrs_ok v (vsec v s) t" "pos + rest \<le> 512 * file_max"
  shows "\<exists>r. mwfs_pread_loop v t pos rest s = Some r"
  using assms
proof (induction v t pos rest s rule: mwfs_pread_loop.induct)
  case (1 v t pos rest s)
  show ?case
  proof (cases "rest = 0")
    case True thus ?thesis by (simp add: mwfs_pread_loop.simps)
  next
    case False
    let ?n = "min (512 - pos mod 512) rest"
    have i: "pos div 512 < file_max" using "1.prems"(3) False by (simp add: div_less_iff_less_mult)
    note l = calm_lookup [OF "1.prems"(1,2) i]
    let ?lba = "val (vsec v s) t (slot_of (pos div 512))"
    have "\<exists>b. (if ?lba \<noteq> 0 then mwfs_rd v ?lba s else Some (mwfs_zeros 512)) = Some b"
      using calm_rd [OF "1.prems"(1), of ?lba v] ptrs_okD(2) [OF "1.prems"(2), of "slot_of (pos div 512)"]
      by (cases "?lba = 0") (simp_all add: is_data_def)
    then obtain b where b: "(if ?lba \<noteq> 0 then mwfs_rd v ?lba s else Some (mwfs_zeros 512)) = Some b" ..
    have "\<exists>r. mwfs_pread_loop v t (pos + ?n) (rest - ?n) s = Some r"
      using "1.IH" [OF False refl refl refl l b "1.prems"(1,2)] "1.prems"(3) by simp
    thus ?thesis using False l b by (subst mwfs_pread_loop.simps) (auto simp: Let_def)
  qed
qed

lemma pread_calm:
  assumes "calm s" "secs_ok v (vsec v s)" "ptrs_ok v (vsec v s) t" "i_size t \<le> 512 * file_max"
  shows "mwfs_pread v t 0 (i_size t) s = Some (content (vsec v s) t)"
proof -
  obtain r where "mwfs_pread_loop v t 0 (i_size t) s = Some r" using pread_loop_calm [OF assms(1,3), of 0 "i_size t"] assms(4) by auto
  hence "\<exists>r. mwfs_pread v t 0 (i_size t) s = Some r" by (simp add: mwfs_pread_def)
  then obtain r where "mwfs_pread v t 0 (i_size t) s = Some r" ..
  thus ?thesis using pread_content [OF assms(2,3)] by simp
qed

subsection \<open>Writing\<close>

definition slots_from :: "nat \<Rightarrow> slot set" where "slots_from i = {slot_of j | j. i \<le> j}"

lemma val_size: "val D (t\<lparr>i_size := n\<rparr>) = val D t" by (rule ext) (rule val_cong; simp)

lemma byte_size: "byte_at D (t\<lparr>i_size := n\<rparr>) = byte_at D t" by (simp add: fun_eq_iff byte_at_def sec_at_def val_size)

lemma ptrs_ok_size: "ptrs_ok v D t \<Longrightarrow> n < 2 ^ 32 \<Longrightarrow> ptrs_ok v D (t\<lparr>i_size := n\<rparr>)"
  by (simp add: ptrs_ok_def own_def val_size ino_ok_def)

text \<open>Growth that may also have changed the size.\<close>

definition growz :: "vol \<Rightarrow> slot set \<Rightarrow> (nat \<Rightarrow> bytes) \<Rightarrow> ino \<Rightarrow> (nat \<Rightarrow> bytes) \<Rightarrow> ino \<Rightarrow> bool" where
  "growz v S D t D' t' \<longleftrightarrow> grows v S D t D' (t'\<lparr>i_size := i_size t\<rparr>) \<and> i_size t' < 2 ^ 32"

lemma ino_size_twice [simp]: "t\<lparr>i_size := a, i_size := b\<rparr> = t\<lparr>i_size := b\<rparr>" "t\<lparr>i_size := i_size t\<rparr> = t" by simp_all

lemma growz_trans:
  assumes "growz v S D t D1 t1" "growz v S D1 t1 D2 t2"
  shows "growz v S D t D2 t2"
proof -
  have "grows v S D1 (t1\<lparr>i_size := i_size t\<rparr>) D2 (t2\<lparr>i_size := i_size t\<rparr>)"
  proof -
    have g: "grows v S D1 t1 D2 (t2\<lparr>i_size := i_size t1\<rparr>)" using assms(2) by (simp add: growz_def)
    have lt: "i_size t < 2 ^ 32" using assms(1) ptrs_okD(1) [OF growsD(2), of v S D t D1 "t1\<lparr>i_size := i_size t\<rparr>"] by (simp add: growz_def ino_ok_def)
    have p: "ptrs_ok v D2 (t2\<lparr>i_size := i_size t\<rparr>)" using ptrs_ok_size [OF growsD(2) [OF g] lt] by simp
    show ?thesis using g p by (simp add: grows_def val_size touch_def same_meta_def)
  qed
  thus ?thesis using assms grows_trans unfolding growz_def by blast
qed

lemma growz_mono: "growz v S D t D' t' \<Longrightarrow> S \<subseteq> S' \<Longrightarrow> growz v S' D t D' t'" using grows_mono by (auto simp: growz_def)

lemma grows_growz: "grows v S D t D' t' \<Longrightarrow> growz v S D t D' t'"
proof -
  assume g: "grows v S D t D' t'"
  hence "i_size t' = i_size t" by (simp add: grows_def same_meta_def)
  hence e: "t'\<lparr>i_size := i_size t\<rparr> = t'" by simp
  have "i_size t' < 2 ^ 32" using ptrs_okD(1) [OF growsD(2) [OF g]] by (simp add: ino_ok_def)
  thus ?thesis using g e by (simp add: growz_def)
qed

lemma growzD:
  assumes "growz v S D t D' t'"
  shows "secs_ok v D'" "ptrs_ok v D' t'" "used v D x \<Longrightarrow> used v D' x"
    "\<not> is_bitmap v x \<Longrightarrow> (is_data v x \<Longrightarrow> used v D x) \<Longrightarrow> x \<notin> touch S D t \<Longrightarrow> D' x = D x"
    "val D t a \<noteq> 0 \<Longrightarrow> val D' t' a = val D t a" "val D t a = 0 \<Longrightarrow> val D' t' a \<noteq> 0 \<Longrightarrow> \<not> used v D (val D' t' a)"
    "\<not> is_table a \<Longrightarrow> a \<notin> S \<Longrightarrow> val D' t' a = val D t a" "same_meta t (t'\<lparr>i_size := i_size t\<rparr>)"
proof -
  have g: "grows v S D t D' (t'\<lparr>i_size := i_size t\<rparr>)" and s: "i_size t' < 2 ^ 32" using assms by (simp_all add: growz_def)
  note G = growsD [OF g]
  show "ptrs_ok v D' t'" using ptrs_ok_size [OF G(2) s] by simp
  show "secs_ok v D'" "used v D x \<Longrightarrow> used v D' x"
    "\<not> is_bitmap v x \<Longrightarrow> (is_data v x \<Longrightarrow> used v D x) \<Longrightarrow> x \<notin> touch S D t \<Longrightarrow> D' x = D x"
    "val D t a \<noteq> 0 \<Longrightarrow> val D' t' a = val D t a" "val D t a = 0 \<Longrightarrow> val D' t' a \<noteq> 0 \<Longrightarrow> \<not> used v D (val D' t' a)"
    "\<not> is_table a \<Longrightarrow> a \<notin> S \<Longrightarrow> val D' t' a = val D t a" "same_meta t (t'\<lparr>i_size := i_size t\<rparr>)"
    using G by (simp_all add: val_size)
qed

text \<open>The sectors of slots outside S keep their contents.\<close>

lemma growz_sec:
  assumes v: "vol_ok v" and g: "growz v S D t D' t'" and p: "ptrs_ok v D t" and i: "slot_of i \<notin> S"
  shows "sec_at D' t' i = sec_at D t i"
proof -
  have e: "val D' t' (slot_of i) = val D t (slot_of i)" using growzD(7) [OF g, of "slot_of i"] i by simp
  show ?thesis
  proof (cases "val D t (slot_of i) = 0")
    case False
    let ?l = "val D t (slot_of i)"
    have l: "is_data v ?l" "used v D ?l" using ptrs_okD(2,3) [OF p False] by blast+
    have "?l \<notin> touch S D t"
    proof
      assume "?l \<in> touch S D t"
      then obtain a where a: "is_table a \<or> a \<in> S" "val D t a = ?l" unfolding touch_def by force
      have "a = slot_of i" using ptrs_okD(4) [OF p a(2)] a(2) False by simp
      thus False using a(1) i by simp
    qed
    hence "D' ?l = D ?l" using growzD(4) [OF g, of ?l] l bitmap_not_data [OF v, of ?l] by blast
    thus ?thesis by (simp add: sec_at_def e Let_def)
  qed (simp add: sec_at_def e)
qed


text \<open>Overwriting the sector of a data slot.\<close>

lemma write_slot:
  assumes v: "vol_ok v" and s: "secs_ok v D" and p: "ptrs_ok v D t" and l: "val D t (slot_of i) = l" "l \<noteq> 0" and b: "length b = 512"
    and sz: "n < 2 ^ 32" and S: "slot_of i \<in> S"
  shows "growz v S D t (D(l := b)) (t\<lparr>i_size := n\<rparr>)" "sec_at (D(l := b)) (t\<lparr>i_size := n\<rparr>) i = b"
proof -
  let ?D = "D(l := b)"
  have dl: "is_data v l" using ptrs_okD(2) [OF p, of "slot_of i"] l by simp
  have bm: "\<not> is_bitmap v l" using bitmap_not_data [OF v] dl by blast
  have nt: "val D t a \<noteq> l" if "is_table a" for a using ptrs_okD(4) [OF p, of a "slot_of i"] l that by auto
  have val: "val ?D t a = val D t a" for a using nt by (intro val_cong) auto
  have us: "used v ?D k = used v D k" for k using bm by (intro used_cong [OF v]) auto
  have so: "secs_ok v ?D" using s b by (simp add: secs_ok_def)
  have po: "ptrs_ok v ?D t" using p val us by (simp add: ptrs_ok_def own_def)
  have "l \<in> touch S D t" unfolding touch_def using S l by blast
  hence "?D x = D x" if "x \<notin> touch S D t" for x using that by auto
  hence "grows v S D t ?D t" using so po val us by (simp add: grows_def)
  thus "growz v S D t ?D (t\<lparr>i_size := n\<rparr>)" using sz by (simp add: growz_def)
  show "sec_at ?D (t\<lparr>i_size := n\<rparr>) i = b" using val l by (simp add: sec_at_def Let_def val_size)
qed

lemma sector_end: "pos + (512 - pos mod 512) = (pos div 512 + 1) * (512 :: nat)"
proof -
  have m: "pos mod 512 < (512 :: nat)" by simp
  have "pos div 512 * 512 + pos mod 512 = pos" by (rule div_mult_mod_eq)
  hence "pos + (512 - pos mod 512) = pos div 512 * 512 + (pos mod 512 + (512 - pos mod 512))" by (metis add.assoc)
  also have "pos mod 512 + (512 - pos mod 512) = 512" using m by (metis le_add_diff_inverse less_imp_le)
  finally show ?thesis by simp
qed

lemma next_sector: "(pos + (512 - pos mod 512)) div 512 = pos div 512 + (1 :: nat)"
  by (simp only: sector_end) simp

lemma this_sector: "q < 512 - pos mod 512 \<Longrightarrow> (pos + q) div 512 < pos div 512 + (1 :: nat)"
  by (rule less_mult_imp_div_less) (simp only: sector_end [symmetric] add_less_cancel_left)

lemma slots_from_mono: "i \<le> j \<Longrightarrow> slots_from j \<subseteq> slots_from i" by (auto simp: slots_from_def)

lemma slot_not_from: "j < i \<Longrightarrow> slot_of j \<notin> slots_from i" using slot_of_inj by (auto simp: slots_from_def) fastforce

lemma growz_byte:
  "vol_ok v \<Longrightarrow> growz v (slots_from i) D t D' t' \<Longrightarrow> ptrs_ok v D t \<Longrightarrow> p div 512 < i \<Longrightarrow> byte_at D' t' p = byte_at D t p"
  using growz_sec slot_not_from by (simp add: byte_at_def)

definition pwrite_spec :: "vol \<Rightarrow> nat \<Rightarrow> bytes \<Rightarrow> blk \<Rightarrow> ino \<Rightarrow> mwfs_e \<times> ino \<times> vol \<times> blk \<Rightarrow> bool" where
  "pwrite_spec v pos data s t r \<longleftrightarrow> (case r of (e, t', v', s') \<Rightarrow>
     growz v (slots_from (pos div 512)) (vsec v s) t (vsec v s') t' \<and> same_geo v v' \<and> blk_rd s' = blk_rd s \<and> blk_wr s' = blk_wr s \<and>
     (e = MWFS_OK \<longrightarrow> i_size t' = (if data = [] then i_size t else max (i_size t) (pos + length data)) \<and>
        (data \<noteq> [] \<longrightarrow> pos + length data \<le> 512 * file_max) \<and> (\<forall>q < length data. byte_at (vsec v s') t' (pos + q) = data ! q)) \<and>
     (e \<noteq> MWFS_OK \<longrightarrow> length data \<le> 512 - pos mod 512 \<longrightarrow> i_size t' = i_size t) \<and>
     (i_size t \<le> 512 * file_max \<longrightarrow> i_size t' \<le> 512 * file_max))"

text \<open>One sector of the loop.\<close>

lemma pwrite_step:
  assumes v: "vol_ok v" and s: "secs_ok v (vsec v s)" and p: "ptrs_ok v (vsec v s) t" and n: "n = min (512 - pos mod 512) (length data)" "data \<noteq> []"
    and b: "mwfs_bmap v t (pos div 512) True (n \<noteq> 512) s = (MWFS_OK, l, t1, v1, s1)"
    and c: "(if n \<noteq> 512 then mwfs_rd v1 l s1 else Some (mwfs_zeros 512)) = Some old"
    and w: "mwfs_wr v1 l (blit old (pos mod 512) (take n data)) s1 = (True, s2)"
  defines "t2 \<equiv> (if pos + n > i_size t1 then t1\<lparr>i_size := pos + n\<rparr> else t1)"
  shows "growz v (slots_from (pos div 512)) (vsec v s) t (vsec v s2) t2" "same_geo v v1" "blk_rd s2 = blk_rd s" "blk_wr s2 = blk_wr s"
    "i_size t2 = max (i_size t) (pos + n)" "\<And>q. q < n \<Longrightarrow> byte_at (vsec v s2) t2 (pos + q) = data ! q" "pos + n \<le> 512 * file_max"
proof -
  let ?i = "pos div 512" let ?S = "slots_from ?i"
  have m: "pos mod 512 < 512" by simp
  have n512: "pos mod 512 + n \<le> 512" "n \<le> length data" "0 < n" using n m by (auto simp: min_def)
  note B = bmap_ok [OF v s p, of ?i "n \<noteq> 512"]
  have B1: "mapped v (slot_of ?i) (n \<noteq> 512) (vsec v s) t MWFS_OK l (vsec v s1) t1" "same_geo v v1" "blk_rd s1 = blk_rd s" "blk_wr s1 = blk_wr s"
    using B(1) b by (simp_all add: bmap_spec_def)
  have i: "?i < file_max" using B(2) b by simp
  have "pos < 512 * file_max" using i by (simp add: div_less_iff_less_mult mult.commute)
  moreover have "pos = ?i * 512 + pos mod 512" by simp
  ultimately show mx: "pos + n \<le> 512 * file_max" using n512(1) i by linarith
  show "same_geo v v1" by (rule B1(2))
  note G = same_geoD [OF B1(2)]
  have g1: "grows v {slot_of ?i} (vsec v s) t (vsec v s1) t1" and l: "l \<noteq> 0" "val (vsec v s1) t1 (slot_of ?i) = l"
    using B1(1) by (simp_all add: mapped_def)
  have g1': "growz v ?S (vsec v s) t (vsec v s1) t1" by (rule growz_mono [OF grows_growz [OF g1]]) (auto simp: slots_from_def)
  have p1: "ptrs_ok v (vsec v s1) t1" "secs_ok v (vsec v s1)" using growsD(1,2) [OF g1] by blast+
  have ld: "l < v_sectors v" using ptrs_okD(2) [OF p1(1), of "slot_of ?i"] l by (simp add: is_data_def)
  have old: "length old = 512"
  proof (cases "n = 512")
    case False
    hence "old = vsec v s1 l" using c rd_Some [of v1 l s1 old] G by simp
    thus ?thesis using p1(2) ld by (simp add: secs_ok_def)
  qed (use c in auto)
  let ?b = "blit old (pos mod 512) (take n data)"
  have lb: "length ?b = 512" using old n512 by simp
  have v1: "vol_ok v1" using G v by simp
  note W = wr_cases [OF w v1]
  have D2: "vsec v s2 = (vsec v s1)(l := ?b)" using W(1) G by simp
  have sz1: "i_size t1 = i_size t" using growsD(8) [OF g1] by (simp add: same_meta_def)
  have t2: "t2 = t1\<lparr>i_size := max (i_size t1) (pos + n)\<rparr>" by (simp add: t2_def max_def)
  have lt: "max (i_size t1) (pos + n) < 2 ^ 32" using mx ptrs_okD(1) [OF p1(1)] by (simp add: ino_ok_def file_max_def)
  have Si: "slot_of ?i \<in> ?S" by (auto simp: slots_from_def)
  note ws = write_slot [OF v p1(2,1) l(2,1) lb lt Si]
  show "growz v ?S (vsec v s) t (vsec v s2) t2" using growz_trans [OF g1' ws(1)] D2 t2 by simp
  show "blk_rd s2 = blk_rd s" "blk_wr s2 = blk_wr s" using W(3,4) B1(3,4) by simp_all
  show "i_size t2 = max (i_size t) (pos + n)" using t2 sz1 by simp
  show "byte_at (vsec v s2) t2 (pos + q) = data ! q" if "q < n" for q
  proof -
    have r: "pos mod 512 + q < 512" using that n512 by linarith
    have e: "pos + q = ?i * 512 + (pos mod 512 + q)" by simp
    have dm: "(pos + q) div 512 = ?i" "(pos + q) mod 512 = pos mod 512 + q"
      using r e by (metis add.commute div_mult_self3 div_less add_0 zero_neq_numeral, metis r e mod_mult_self3 mod_less)
    have "byte_at (vsec v s2) t2 (pos + q) = ?b ! (pos mod 512 + q)" using ws(2) D2 t2 dm by (simp add: byte_at_def)
    also have "\<dots> = data ! q" using that n512 old r by (subst nth_blit) auto
    finally show ?thesis .
  qed
qed

text \<open>A sector and the sectors after it.\<close>

lemma pwrite_specD:
  assumes "pwrite_spec v pos data s t (e, t', v', s')"
  shows "growz v (slots_from (pos div 512)) (vsec v s) t (vsec v s') t'" "same_geo v v'" "blk_rd s' = blk_rd s" "blk_wr s' = blk_wr s"
    "e = MWFS_OK \<Longrightarrow> data \<noteq> [] \<Longrightarrow> i_size t' = max (i_size t) (pos + length data) \<and> pos + length data \<le> 512 * file_max \<and>
       (\<forall>q < length data. byte_at (vsec v s') t' (pos + q) = data ! q)"
    "i_size t \<le> 512 * file_max \<Longrightarrow> i_size t' \<le> 512 * file_max"
  using assms by (simp_all add: pwrite_spec_def)

lemma pwrite_join:
  assumes v: "vol_ok v" and n: "n = 512 - pos mod 512" "n < length data"
    and g: "growz v (slots_from (pos div 512)) (vsec v s) t (vsec v s2) t2" and v1: "same_geo v v1"
    and rw: "blk_rd s2 = blk_rd s" "blk_wr s2 = blk_wr s" and sz: "i_size t2 = max (i_size t) (pos + n)" "pos + n \<le> 512 * file_max"
    and bt: "\<And>q. q < n \<Longrightarrow> byte_at (vsec v s2) t2 (pos + q) = data ! q"
    and r: "pwrite_spec v1 (pos + n) (drop n data) s2 t2 r"
  shows "pwrite_spec v pos data s t r"
proof -
  obtain e' t' v' s' where re: "r = (e', t', v', s')" by (cases r) auto
  have i2: "(pos + n) div 512 = pos div 512 + 1" unfolding n(1) by (rule next_sector)
  have qn: "(pos + q) div 512 < pos div 512 + 1" if "q < n" for q using this_sector that n(1) by blast
  have ne: "drop n data \<noteq> []" "data \<noteq> []" using n(2) by auto
  note G = view_cong [OF v1] same_geoD [OF v1]
  have R: "e' = MWFS_OK \<Longrightarrow> i_size t' = max (i_size t2) (pos + n + length (drop n data)) \<and> pos + n + length (drop n data) \<le> 512 * file_max \<and>
       (\<forall>q < length (drop n data). byte_at (vsec v1 s') t' (pos + n + q) = drop n data ! q)"
    using pwrite_specD(5) [OF r [unfolded re] _ ne(1)] .
  have I: "growz v (slots_from (pos div 512 + 1)) (vsec v s2) t2 (vsec v s') t'" "same_geo v1 v'" "blk_rd s' = blk_rd s2" "blk_wr s' = blk_wr s2"
    using pwrite_specD(1-4) [OF r [unfolded re]] G unfolding i2 growz_def by simp_all
  have gg: "growz v (slots_from (pos div 512)) (vsec v s) t (vsec v s') t'"
    by (rule growz_trans [OF g growz_mono [OF I(1) slots_from_mono]]) simp
  have len: "length (drop n data) = length data - n" "pos + n + (length data - n) = pos + length data" using n(2) by simp_all
  have ok: "i_size t' = max (i_size t) (pos + length data) \<and> pos + length data \<le> 512 * file_max \<and>
      (\<forall>q < length data. byte_at (vsec v s') t' (pos + q) = data ! q)" if e: "e' = MWFS_OK"
  proof (intro conjI allI impI)
    note E = R [OF e, unfolded len]
    show "i_size t' = max (i_size t) (pos + length data)" using E sz(1) n(2) by (simp add: max_def)
    show "pos + length data \<le> 512 * file_max" using E by blast
    fix q assume q: "q < length data"
    show "byte_at (vsec v s') t' (pos + q) = data ! q"
    proof (cases "q < n")
      case True
      hence "byte_at (vsec v s') t' (pos + q) = byte_at (vsec v s2) t2 (pos + q)"
        using growz_byte [OF v I(1) growzD(2) [OF g]] qn by blast
      thus ?thesis using bt [OF True] by simp
    next
      case False
      hence d: "n + (q - n) = q" "q - n < length data - n" using q by simp_all
      have "byte_at (vsec v1 s') t' (pos + n + (q - n)) = drop n data ! (q - n)" using E d(2) by blast
      moreover have "vsec v1 s' = vsec v s'" using G by simp
      moreover have "pos + n + (q - n) = pos + q" using d(1) by simp
      moreover have "drop n data ! (q - n) = data ! q" using d n(2) by simp
      ultimately show ?thesis by simp
    qed
  qed
  have "\<not> length data \<le> 512 - pos mod 512" using n by simp
  thus ?thesis unfolding re pwrite_spec_def prod.case using gg I same_geo_trans [OF v1 I(2)] rw ok ne pwrite_specD(6) [OF r [unfolded re]] sz by simp
qed

lemma pwrite_ok:
  assumes "vol_ok v" "secs_ok v (vsec v s)" "ptrs_ok v (vsec v s) t"
  shows "pwrite_spec v pos data s t (mwfs_pwrite v t pos data s)"
  using assms
proof (induction v t pos data s rule: mwfs_pwrite.induct)
  case (1 v t pos data s)
  note v = "1.prems"(1) and s = "1.prems"(2) and p = "1.prems"(3)
  show ?case
  proof (cases "data = []")
    case True
    thus ?thesis using grows_growz [OF grows_refl [OF s p]] by (subst mwfs_pwrite.simps) (simp add: pwrite_spec_def)
  next
    case ne: False
    let ?i = "pos div 512" let ?n = "min (512 - pos mod 512) (length data)"
    obtain e l t1 v1 s1 where b: "mwfs_bmap v t ?i True (?n \<noteq> 512) s = (e, l, t1, v1, s1)"
      by (cases "mwfs_bmap v t ?i True (?n \<noteq> 512) s") auto
    have B: "mapped v (slot_of ?i) (?n \<noteq> 512) (vsec v s) t e l (vsec v s1) t1" "same_geo v v1" "blk_rd s1 = blk_rd s" "blk_wr s1 = blk_wr s"
      using bmap_ok(1) [OF v s p, of ?i "?n \<noteq> 512"] b by (simp_all add: bmap_spec_def)
    have g1: "grows v {slot_of ?i} (vsec v s) t (vsec v s1) t1" using B(1) by (simp add: mapped_def)
    have g1': "growz v (slots_from ?i) (vsec v s) t (vsec v s1) t1" by (rule growz_mono [OF grows_growz [OF g1]]) (auto simp: slots_from_def)
    have sz1: "i_size t1 = i_size t" using growsD(8) [OF g1] by (simp add: same_meta_def)
    have fail: "pwrite_spec v pos data s t (e', t1, v1, s2)" if "e' \<noteq> MWFS_OK" "vsec v s2 = vsec v s1" "blk_rd s2 = blk_rd s1" "blk_wr s2 = blk_wr s1" for e' s2
      using that B g1' sz1 by (simp add: pwrite_spec_def)
    show ?thesis
    proof (cases "e = MWFS_OK")
      case False
      hence "mwfs_pwrite v t pos data s = (e, t1, v1, s1)" using ne b by (subst mwfs_pwrite.simps) (simp add: Let_def)
      thus ?thesis using fail [OF False refl refl refl] by simp
    next
      case e: True
      show ?thesis
      proof (cases "if ?n \<noteq> 512 then mwfs_rd v1 l s1 else Some (mwfs_zeros 512)")
        case None
        hence "mwfs_pwrite v t pos data s = (MWFS_E_IO, t1, v1, s1)" using ne b e by (subst mwfs_pwrite.simps) (auto simp: Let_def split: if_splits)
        thus ?thesis using fail [of MWFS_E_IO s1] by simp
      next
        case (Some old)
        obtain ok s2 where w: "mwfs_wr v1 l (blit old (pos mod 512) (take ?n data)) s1 = (ok, s2)" by fastforce
        have v1: "vol_ok v1" using same_geoD(10) [OF B(2)] v by simp
        let ?t2 = "if pos + ?n > i_size t1 then t1\<lparr>i_size := pos + ?n\<rparr> else t1"
        have eq: "mwfs_pwrite v t pos data s =
            (if \<not> ok then (MWFS_E_IO, t1, v1, s2) else mwfs_pwrite v1 ?t2 (pos + ?n) (drop ?n data) s2)"
          using ne b e Some w by (subst mwfs_pwrite.simps) (auto simp: Let_def split: if_splits)
        show ?thesis
        proof (cases ok)
          case False
          have "vsec v s2 = vsec v s1" "blk_rd s2 = blk_rd s1" "blk_wr s2 = blk_wr s1"
            using wr_cases [OF w v1] same_geoD(11) [OF B(2)] False by simp_all
          thus ?thesis unfolding eq using False fail [of MWFS_E_IO s2] by simp
        next
          case True
          have w1: "mwfs_wr v1 l (blit old (pos mod 512) (take ?n data)) s1 = (True, s2)" using w True by simp
          note P = pwrite_step [OF v s p refl ne b [unfolded e] Some w1]
          note G = view_cong [OF P(2)] same_geoD [OF P(2)]
          have pre: "vol_ok v1" "secs_ok v1 (vsec v1 s2)" "ptrs_ok v1 (vsec v1 s2) ?t2"
            using v1 growzD(1,2) [OF P(1)] G by simp_all
          have IH: "pwrite_spec v1 (pos + ?n) (drop ?n data) s2 ?t2 (mwfs_pwrite v1 ?t2 (pos + ?n) (drop ?n data) s2)"
            by (rule "1.IH" [OF ne refl refl refl b [symmetric] refl refl refl refl _ Some w [symmetric] refl _ pre]) (simp_all add: e True)
          show ?thesis
          proof (cases "drop ?n data = []")
            case True
            hence "mwfs_pwrite v1 ?t2 (pos + ?n) (drop ?n data) s2 = (MWFS_OK, ?t2, v1, s2)" by (subst mwfs_pwrite.simps) simp
            moreover have "length data \<le> ?n" using True by simp
            hence "?n = length data" by linarith
            ultimately show ?thesis unfolding eq using P \<open>ok\<close> ne by (simp add: pwrite_spec_def)
          next
            case False
            have n: "?n = 512 - pos mod 512" "512 - pos mod 512 < length data" using False by (auto simp: min_def split: if_splits)
            have "pwrite_spec v pos data s t (mwfs_pwrite v1 ?t2 (pos + ?n) (drop ?n data) s2)"
              by (rule pwrite_join [OF v n(1) _ P(1-5,7,6) IH]) (use False in simp_all)
            thus ?thesis unfolding eq using \<open>ok\<close> by simp
          qed
        qed
      qed
    qed
  qed
qed

end
