(* ===== verification/Mwfs_Inode.thy ===== *)
theory Mwfs_Inode
  imports Mwfs_Content
begin

text \<open>
  The inode table and what leaves an inode alone. live_ok is the invariant of a set of inodes: each is a file or a directory,
  every sector it points to is a marked data sector, and no sector belongs to two of them.
\<close>

subsection \<open>The inode table\<close>

definition inode :: "vol \<Rightarrow> (nat \<Rightarrow> bytes) \<Rightarrow> nat \<Rightarrow> ino" where
  "inode v D n = mwfs_ino_of (slice (n mod 8 * 64) 64 (D (v_itable_lba v + n div 8)))"

definition is_itable :: "vol \<Rightarrow> nat \<Rightarrow> bool" where "is_itable v x \<longleftrightarrow> v_itable_lba v \<le> x \<and> x < v_data_lba v"

lemma itable_disj: "is_itable v x \<Longrightarrow> \<not> is_bitmap v x \<and> \<not> is_data v x" by (auto simp: is_itable_def is_bitmap_def is_data_def)

lemma itable_of: "vol_ok v \<Longrightarrow> n < v_inodes v \<Longrightarrow> is_itable v (v_itable_lba v + n div 8)"
  by (auto simp: vol_ok_def is_itable_def)

lemma itable_in: "vol_ok v \<Longrightarrow> is_itable v x \<Longrightarrow> x < v_sectors v" by (auto simp: vol_ok_def is_itable_def)

lemma ino_get_Some: "mwfs_ino_get v n s = Some t \<Longrightarrow> n \<noteq> 0 \<and> n < v_inodes v \<and> t = inode v (vsec v s) n"
  by (auto simp: mwfs_ino_get_def inode_def MWFS_INO_SIZE_def split: if_splits option.splits dest!: rd_Some)

lemma calm_ino_get: "vol_ok v \<Longrightarrow> calm s \<Longrightarrow> n \<noteq> 0 \<Longrightarrow> n < v_inodes v \<Longrightarrow> mwfs_ino_get v n s = Some (inode v (vsec v s) n)"
  using calm_rd [of s "v_itable_lba v + n div 8" v] itable_in [OF _ itable_of] by (auto simp: mwfs_ino_get_def inode_def MWFS_INO_SIZE_def)

lemma inode_ok: "ino_ok (inode v D n)" by (simp add: inode_def ino_of_ok)

text \<open>The disk after inode n was written.\<close>

definition ino_set :: "vol \<Rightarrow> nat \<Rightarrow> ino \<Rightarrow> (nat \<Rightarrow> bytes) \<Rightarrow> nat \<Rightarrow> bytes" where
  "ino_set v n t D = D(v_itable_lba v + n div 8 := blit (D (v_itable_lba v + n div 8)) (n mod 8 * 64) (mwfs_ino_bytes t))"

lemma ino_put_cases:
  assumes "mwfs_ino_put v n t s = (ok, s')" "vol_ok v"
  shows "vsec v s' = (if ok then ino_set v n t (vsec v s) else vsec v s)" "ok \<Longrightarrow> n \<noteq> 0 \<and> n < v_inodes v"
    "blk_rd s' = blk_rd s" "blk_wr s' = blk_wr s"
  using assms wr_cases [of v "v_itable_lba v + n div 8" _ s ok s'] rd_Some [of v "v_itable_lba v + n div 8" s]
  by (auto simp: mwfs_ino_put_def ino_set_def MWFS_INO_SIZE_def split: if_splits option.splits)

lemma ino_setD:
  assumes v: "vol_ok v" and s: "secs_ok v D" and n: "n < v_inodes v" and t: "ino_ok t"
  shows "secs_ok v (ino_set v n t D)" "inode v (ino_set v n t D) k = (if k = n then t else inode v D k)"
    "\<not> is_itable v x \<Longrightarrow> ino_set v n t D x = D x" "used v (ino_set v n t D) = used v D"
proof -
  let ?x = "v_itable_lba v + n div 8"
  have it: "is_itable v ?x" by (rule itable_of [OF v n])
  have l: "length (D ?x) = 512" using s itable_in [OF v it] by (simp add: secs_ok_def)
  have lt: "length (mwfs_ino_bytes t) = 64" using t by (simp add: ino_ok_def)
  have r: "n mod 8 * 64 + 64 \<le> 512" using mod_less_divisor [of 8 n] by linarith
  show "secs_ok v (ino_set v n t D)" using s l lt r by (auto simp: secs_ok_def ino_set_def)
  show f: "\<not> is_itable v x \<Longrightarrow> ino_set v n t D x = D x" for x using it by (auto simp: ino_set_def)
  show "used v (ino_set v n t D) = used v D"
    by (intro ext used_cong [OF v] f) (use itable_disj in blast)
  show "inode v (ino_set v n t D) k = (if k = n then t else inode v D k)"
  proof (cases "k div 8 = n div 8")
    case False thus ?thesis by (auto simp: inode_def ino_set_def)
  next
    case d: True
    show ?thesis
    proof (cases "k = n")
      case True thus ?thesis using l lt r ino_of_bytes [OF t] by (simp add: inode_def ino_set_def)
    next
      case False
      hence m: "k mod 8 \<noteq> n mod 8" using d by (metis div_mult_mod_eq)
      have "k mod 8 * 64 + 64 \<le> 512" using mod_less_divisor [of 8 k] by linarith
      moreover have "k mod 8 * 64 + 64 \<le> n mod 8 * 64 \<or> n mod 8 * 64 + 64 \<le> k mod 8 * 64" using m by linarith
      ultimately show ?thesis using d False l lt r by (simp add: inode_def ino_set_def slice_blit_other)
    qed
  qed
qed

text \<open>Allocating an inode: 0, or a free one that now holds an empty file or directory.\<close>

definition ino_blank :: "nat \<Rightarrow> ino" where "ino_blank ty = mwfs_ino_zero\<lparr>i_type := ty\<rparr>"

lemma ino_blank_ok: "ty < 2 ^ 16 \<Longrightarrow> ino_ok (ino_blank ty)" by (simp add: ino_blank_def mwfs_ino_zero_def ino_ok_def MWFS_NDIRECT_def)

lemma blank_val [simp]: "val D (ino_blank ty) a = 0"
  by (cases a) (simp_all add: ino_blank_def mwfs_ino_zero_def mid_def MWFS_NDIRECT_def)

lemma ino_alloc_from:
  assumes "vol_ok v" "mwfs_ino_alloc_from v ty ns s = (n, v', s')" "n \<noteq> 0"
  shows "n \<in> set ns \<and> n < v_inodes v \<and> i_type (inode v (vsec v s) n) = MWFS_T_FREE \<and> vsec v s' = ino_set v n (ino_blank ty) (vsec v s) \<and>
    same_geo v v' \<and> blk_rd s' = blk_rd s \<and> blk_wr s' = blk_wr s"
  using assms(2)
proof (induction ns)
  case (Cons m ns)
  then obtain t where t: "mwfs_ino_get v m s = Some t" using assms(3) by (auto split: option.splits)
  show ?case
  proof (cases "i_type t = MWFS_T_FREE")
    case True
    obtain ok s1 where p: "mwfs_ino_put v m (mwfs_ino_zero\<lparr>i_type := ty\<rparr>) s = (ok, s1)" by fastforce
    thus ?thesis using Cons.prems t True assms(3) ino_get_Some [OF t] ino_put_cases [OF p assms(1)]
      by (auto simp: ino_blank_def split: if_splits)
  next
    case False thus ?thesis using Cons t by simp
  qed
qed (use assms(3) in simp)

lemma ino_alloc_ok:
  assumes "vol_ok v" "mwfs_ino_alloc v ty s = (n, v', s')" "n \<noteq> 0"
  shows "2 \<le> n" "n < v_inodes v" "i_type (inode v (vsec v s) n) = MWFS_T_FREE" "vsec v s' = ino_set v n (ino_blank ty) (vsec v s)"
    "same_geo v v'" "blk_rd s' = blk_rd s" "blk_wr s' = blk_wr s"
  using ino_alloc_from [OF assms(1) assms(2) [unfolded mwfs_ino_alloc_def] assms(3)] by auto

lemma ino_alloc_none:
  assumes "vol_ok v" "mwfs_ino_alloc v ty s = (0, v', s')"
  shows "vsec v s' = vsec v s \<and> v' = v \<and> blk_rd s' = blk_rd s \<and> blk_wr s' = blk_wr s"
proof -
  have "mwfs_ino_alloc_from v ty ns s = (0, v', s') \<Longrightarrow> vsec v s' = vsec v s \<and> v' = v \<and> blk_rd s' = blk_rd s \<and> blk_wr s' = blk_wr s" for ns
  proof (induction ns)
    case (Cons m ns)
    show ?case
    proof (cases "mwfs_ino_get v m s")
      case (Some t)
      obtain ok s1 where p: "mwfs_ino_put v m (mwfs_ino_zero\<lparr>i_type := ty\<rparr>) s = (ok, s1)" by fastforce
      show ?thesis using Cons Some p ino_get_Some [OF Some] ino_put_cases [OF p assms(1)] by (auto split: if_splits)
    qed (use Cons in simp)
  qed simp
  thus ?thesis using assms(2) unfolding mwfs_ino_alloc_def by blast
qed


subsection \<open>What is left alone\<close>

text \<open>The sectors of an inode kept their contents and marks.\<close>

definition keeps :: "vol \<Rightarrow> (nat \<Rightarrow> bytes) \<Rightarrow> (nat \<Rightarrow> bytes) \<Rightarrow> nat set \<Rightarrow> bool" where
  "keeps v D D' L \<longleftrightarrow> secs_ok v D' \<and> (\<forall>x \<in> L. D' x = D x \<and> (used v D x \<longrightarrow> used v D' x))"

lemma keeps_trans: "keeps v D D1 L \<Longrightarrow> keeps v D1 D2 L \<Longrightarrow> keeps v D D2 L" by (simp add: keeps_def)

lemma keeps_val:
  assumes "keeps v D D' (own D t)" "ptrs_ok v D t"
  shows "val D' t = val D t" "own D' t = own D t" "ptrs_ok v D' t" "sec_at D' t = sec_at D t" "content D' t = content D t"
proof -
  have same: "D' (val D t a) = D (val D t a)" if "val D t a \<noteq> 0" for a using assms(1) own_val [OF that] by (simp add: keeps_def)
  show val: "val D' t = val D t" by (rule ext, rule val_cong) (use same in auto)
  show own: "own D' t = own D t" by (simp add: own_def val)
  show "ptrs_ok v D' t" using assms by (auto simp: ptrs_ok_def own val keeps_def)
  show sec: "sec_at D' t = sec_at D t" using same by (auto simp: fun_eq_iff sec_at_def val Let_def)
  show "content D' t = content D t" by (simp add: content_def byte_at_def sec)
qed

lemma own_data: "ptrs_ok v D t \<Longrightarrow> x \<in> own D t \<Longrightarrow> is_data v x \<and> used v D x" by (auto simp: ptrs_ok_def)

text \<open>Writing an inode, and growing another inode, leave it alone.\<close>

lemma ino_set_keeps:
  assumes "vol_ok v" "secs_ok v D" "n < v_inodes v" "ino_ok t" "ptrs_ok v D r"
  shows "keeps v D (ino_set v n t D) (own D r)"
  using ino_setD [OF assms(1-4)] own_data [OF assms(5)] itable_disj by (fastforce simp: keeps_def)

lemma growz_keeps:
  assumes v: "vol_ok v" and g: "growz v S D t D' t'" and r: "ptrs_ok v D r" and d: "own D r \<inter> own D t = {}"
  shows "keeps v D D' (own D r)" "own D' t' \<inter> own D r = {}"
proof -
  have "D' x = D x \<and> used v D' x" if x: "x \<in> own D r" for x
  proof -
    have "is_data v x" "used v D x" using own_data [OF r x] by blast+
    moreover have "x \<notin> touch S D t" using touch_own d x by blast
    ultimately show ?thesis using growzD(3,4) [OF g] bitmap_not_data [OF v, of x] by blast
  qed
  thus "keeps v D D' (own D r)" using growzD(1) [OF g] by (simp add: keeps_def)
  show "own D' t' \<inter> own D r = {}"
  proof (rule ccontr)
    assume "\<not> ?thesis"
    then obtain a where a: "val D' t' a \<noteq> 0" "val D' t' a \<in> own D r" by (auto simp: own_def)
    show False
    proof (cases "val D t a = 0")
      case True thus ?thesis using growzD(6) [OF g True a(1)] own_data [OF r a(2)] by blast
    next
      case False thus ?thesis using growzD(5) [OF g False] own_val [OF False] a(2) d by fastforce
    qed
  qed
qed

lemma growz_itable:
  assumes "vol_ok v" "growz v S D t D' t'" "ptrs_ok v D t" "is_itable v x"
  shows "D' x = D x"
  using growzD(4) [OF assms(2), of x] itable_disj [OF assms(4)] touch_own own_data [OF assms(3)] by blast

lemma growz_inode:
  assumes "vol_ok v" "growz v S D t D' t'" "ptrs_ok v D t" "n < v_inodes v"
  shows "inode v D' n = inode v D n"
  using growz_itable [OF assms(1-3) itable_of [OF assms(1,4)]] by (simp add: inode_def)

text \<open>The old root of a grown inode: it reaches a part of what the new one does.\<close>

lemma growz_old_root:
  assumes v: "vol_ok v" and g: "growz v S D t D' t'" and p: "ptrs_ok v D t"
  shows "ptrs_ok v D' t" "\<And>a. val D' t a = 0 \<or> val D' t a = val D' t' a" "\<And>a. val D t a \<noteq> 0 \<Longrightarrow> val D' t a = val D t a"
proof -
  have lt: "length (i_direct t) = 8" "length (i_direct t') = 8"
    using ptrs_okD(1) [OF p] ptrs_okD(1) [OF growzD(2) [OF g]] by (simp_all add: ino_ok_def)
  have r: "val D' t' b = val D t b" if "val D t b \<noteq> 0" for b by (rule growzD(5) [OF g that])
  have dir: "i_direct t ! k = 0 \<or> i_direct t ! k = i_direct t' ! k" if "k < 8" for k
  proof (cases "i_direct t ! k = 0")
    case False thus ?thesis using r [of "SDir k"] that by simp
  qed simp
  have ind: "i_ind t = 0 \<or> i_ind t = i_ind t'" using r [of SInd] by (cases "i_ind t = 0") simp_all
  have dind: "i_dind t = 0 \<or> i_dind t = i_dind t'" using r [of SDind] by (cases "i_dind t = 0") simp_all
  have md: "mid D' t k = 0 \<or> mid D' t k = mid D' t' k" for k using dind by (auto simp: mid_def)
  show v0: "val D' t a = 0 \<or> val D' t a = val D' t' a" for a
  proof (cases a)
    case (SDir k) thus ?thesis using dir by auto
  next
    case (SIndE k) thus ?thesis using ind by auto
  next
    case (SLeaf i k) thus ?thesis using md [of i] by auto
  qed (use ind dind md in auto)
  show "ptrs_ok v D' t"
    unfolding ptrs_ok_def own_def
  proof (intro conjI ballI allI impI)
    show "ino_ok t" by (rule ptrs_okD(1) [OF p])
    note G = ptrs_okD [OF growzD(2) [OF g]]
    fix l assume "l \<in> {l. l \<noteq> 0 \<and> (\<exists>a. val D' t a = l)}"
    then obtain a where a: "val D' t a = l" "l \<noteq> 0" by blast
    hence e: "val D' t' a = l" using v0 [of a] by simp
    show "is_data v l" "used v D' l" using G(2,3) [of a] e a(2) by simp_all
  next
    fix a b assume ab: "val D' t a = val D' t b" "val D' t a \<noteq> 0"
    hence "val D' t' a = val D' t' b" "val D' t' a \<noteq> 0" using v0 [of a] v0 [of b] by simp_all
    thus "a = b" by (rule ptrs_okD(4) [OF growzD(2) [OF g]])
  qed
  have tab: "val D' t a \<noteq> 0" if "val D t a \<noteq> 0" for a
  proof -
    have e: "val D' t' a = val D t a" by (rule r [OF that])
    have m: "mid D' t k = mid D t k" if "mid D t k \<noteq> 0" for k
    proof -
      have "i_dind t \<noteq> 0" using that by (auto simp: mid_def split: if_splits)
      moreover have "mid D' t' k = mid D t k" using r [of "SMid k"] that by simp
      ultimately show ?thesis using dind by (auto simp: mid_def)
    qed
    show ?thesis
    proof (cases a)
      case (SIndE k) thus ?thesis using that e ind by (auto split: if_splits)
    next
      case (SLeaf i k)
      hence "mid D t i \<noteq> 0" "k < 128" using that by (auto split: if_splits)
      moreover have "mid D' t' i = mid D t i" using r [of "SMid i"] calculation(1) by simp
      ultimately show ?thesis using SLeaf e that m [of i] by simp
    next
      case (SMid k) thus ?thesis using m that by simp
    qed (use that in auto)
  qed
  show "val D' t a = val D t a" if "val D t a \<noteq> 0" for a using v0 [of a] tab [OF that] r [OF that] by simp
qed

subsection \<open>Freeing\<close>

text \<open>Some of the sectors L lost their mark; nothing else changed.\<close>

definition cleared :: "vol \<Rightarrow> nat set \<Rightarrow> (nat \<Rightarrow> bytes) \<Rightarrow> (nat \<Rightarrow> bytes) \<Rightarrow> bool" where
  "cleared v L D D' \<longleftrightarrow> secs_ok v D' \<and> (\<forall>k. used v D' k \<longrightarrow> used v D k) \<and> (\<forall>k. used v D k \<longrightarrow> k \<notin> L \<longrightarrow> used v D' k) \<and>
     (\<forall>x. \<not> is_bitmap v x \<longrightarrow> D' x = D x)"

lemma cleared_refl: "secs_ok v D \<Longrightarrow> cleared v L D D" by (simp add: cleared_def)

lemma cleared_trans: "cleared v L D D1 \<Longrightarrow> cleared v L D1 D2 \<Longrightarrow> cleared v L D D2"
  unfolding cleared_def by (elim conjE, intro conjI) (assumption | metis)+

lemma clearedD:
  assumes "cleared v L D D'"
  shows "secs_ok v D'" "used v D' k \<Longrightarrow> used v D k" "used v D k \<Longrightarrow> k \<notin> L \<Longrightarrow> used v D' k" "\<not> is_bitmap v x \<Longrightarrow> D' x = D x"
  using assms unfolding cleared_def by blast+

lemma cleared_keeps: "vol_ok v \<Longrightarrow> cleared v L D D' \<Longrightarrow> ptrs_ok v D r \<Longrightarrow> own D r \<inter> L = {} \<Longrightarrow> keeps v D D' (own D r)"
proof -
  assume v: "vol_ok v" and c: "cleared v L D D'" and r: "ptrs_ok v D r" and d: "own D r \<inter> L = {}"
  have "D' x = D x \<and> (used v D x \<longrightarrow> used v D' x)" if x: "x \<in> own D r" for x
  proof -
    have "is_data v x" "x \<notin> L" using own_data [OF r x] d x by blast+
    moreover have "\<not> is_bitmap v x" using bitmap_not_data [OF v] calculation(1) by blast
    ultimately show ?thesis using clearedD(3,4) [OF c] by blast
  qed
  thus ?thesis using clearedD(1) [OF c] by (simp add: keeps_def)
qed

definition clears :: "vol \<Rightarrow> nat set \<Rightarrow> blk \<Rightarrow> blk \<Rightarrow> bool" where
  "clears v L s s' \<longleftrightarrow> cleared v L (vsec v s) (vsec v s') \<and> blk_rd s' = blk_rd s \<and> blk_wr s' = blk_wr s"

lemma clears_trans: "clears v L s s1 \<Longrightarrow> clears v L s1 s2 \<Longrightarrow> clears v L s s2" using cleared_trans by (auto simp: clears_def)

lemma clears_refl: "secs_ok v (vsec v s) \<Longrightarrow> clears v L s s" by (simp add: clears_def cleared_refl)

lemma clears_secs: "clears v L s s' \<Longrightarrow> secs_ok v (vsec v s')" by (simp add: clears_def cleared_def)

lemma bit_set_cases:
  assumes v: "vol_ok v" and s: "secs_ok v (vsec v s)" and l: "l < v_sectors v" and r: "mwfs_bit_set v l on s = (ok, s')"
  shows "secs_ok v (vsec v s')" "used v (vsec v s') k = (if ok \<and> k = l then on else used v (vsec v s) k)"
    "\<not> is_bitmap v x \<Longrightarrow> vsec v s' x = vsec v s x" "blk_rd s' = blk_rd s" "blk_wr s' = blk_wr s"
proof -
  have b1: "v_bitmap_lba v = 1" using v by (simp add: vol_ok_def)
  have c: "(s' = s \<and> \<not> ok) \<or> mwfs_wr v (1 + l div 4096) (mwfs_bit_put (vsec v s (1 + l div 4096)) (l mod 4096) on) s = (ok, s')"
    using r b1 rd_Some [of v "1 + l div 4096" s] by (auto simp: mwfs_bit_set_def split: option.splits)
  have d: "vsec v s' = (if ok then (vsec v s)(1 + l div 4096 := mwfs_bit_put (vsec v s (1 + l div 4096)) (l mod 4096) on) else vsec v s)"
    using c wr_cases(1) [OF _ v] by (metis (full_types))
  show "blk_rd s' = blk_rd s" "blk_wr s' = blk_wr s" using c wr_cases(3,4) [OF _ v] by metis+
  show "secs_ok v (vsec v s')" "used v (vsec v s') k = (if ok \<and> k = l then on else used v (vsec v s) k)"
    "\<not> is_bitmap v x \<Longrightarrow> vsec v s' x = vsec v s x"
    using used_bit_put [OF v s l refl, where on = on] s unfolding d by (cases ok; simp)+
qed

lemma free_sector_clears:
  assumes v: "vol_ok v" and s: "secs_ok v (vsec v s)" and l: "l \<in> L"
  shows "clears v L s (mwfs_free_sector v l s)"
proof (cases "v_data_lba v \<le> l \<and> l < v_sectors v")
  case True
  obtain ok s' where r: "mwfs_bit_set v l False s = (ok, s')" by fastforce
  have "l < v_sectors v" using True by blast
  note b = bit_set_cases [OF v s this r]
  have "cleared v L (vsec v s) (vsec v s')" unfolding cleared_def
  proof (intro conjI allI impI)
    fix k assume "used v (vsec v s') k" thus "used v (vsec v s) k" using b(2) [of k] by (simp split: if_splits)
  next
    fix k assume "used v (vsec v s) k" "k \<notin> L" thus "used v (vsec v s') k" using b(2) [of k] l by auto
  qed (use b in auto)
  thus ?thesis using True r b(4,5) by (simp add: mwfs_free_sector_def clears_def)
qed (use s in \<open>auto simp: mwfs_free_sector_def clears_refl\<close>)

lemma free_ptrs_clears:
  assumes v: "vol_ok v"
  shows "secs_ok v (vsec v s) \<Longrightarrow> set ls - {0} \<subseteq> L \<Longrightarrow> clears v L s (mwfs_free_ptrs v ls s)"
  unfolding mwfs_free_ptrs_def
proof (induction ls arbitrary: s)
  case (Cons l ls)
  show ?case
  proof (cases "l = 0")
    case False
    have "l \<in> L" using Cons.prems(2) False by auto
    note c = free_sector_clears [OF v Cons.prems(1) this]
    have "set ls - {0} \<subseteq> L" using Cons.prems(2) by auto
    from clears_trans [OF c Cons.IH [OF clears_secs [OF c] this]] show ?thesis using False by simp
  qed (use Cons in simp)
qed (simp add: clears_refl)


text \<open>The pointers in a table are sectors of the inode.\<close>

lemma table_own:
  assumes "is_table T" "val D t T \<noteq> 0"
  shows "set (mwfs_ptrs (D (val D t T))) - {0} \<subseteq> own D t"
proof
  fix x assume x: "x \<in> set (mwfs_ptrs (D (val D t T))) - {0}"
  then obtain k where k: "k < 128" "mwfs_ptrs (D (val D t T)) ! k = x" by (auto simp: in_set_conv_nth)
  have "val D t (child T k) = x" using val_child [OF assms k(1)] k(2) by simp
  thus "x \<in> own D t" using x own_def by blast
qed

lemma free_table_clears:
  assumes v: "vol_ok v" and s: "secs_ok v (vsec v s)" and T: "set (mwfs_ptrs (vsec v s l)) - {0} \<subseteq> L"
  shows "clears v L s (mwfs_free_table v l s)"
proof (cases "mwfs_rd v l s")
  case (Some b)
  thus ?thesis using rd_Some [OF Some] free_ptrs_clears [OF v s, of "mwfs_ptrs (vsec v s l)" L] T by (simp add: mwfs_free_table_def)
qed (use s in \<open>simp add: mwfs_free_table_def clears_refl\<close>)

lemma clears_data: "vol_ok v \<Longrightarrow> clears v L s s' \<Longrightarrow> is_data v x \<Longrightarrow> vsec v s' x = vsec v s x"
  using clearedD(4) [of v L "vsec v s" "vsec v s'" x] bitmap_not_data [of v x] by (auto simp: clears_def)

lemma free_mids_clears:
  assumes v: "vol_ok v"
  shows "secs_ok v (vsec v s) \<Longrightarrow> (\<And>m. m \<in> set ms \<Longrightarrow> m \<noteq> 0 \<Longrightarrow> is_data v m \<and> m \<in> L \<and> set (mwfs_ptrs (vsec v s m)) - {0} \<subseteq> L) \<Longrightarrow>
    clears v L s (fold (\<lambda>m s. if m = 0 then s else mwfs_free_sector v m (mwfs_free_table v m s)) ms s)"
proof (induction ms arbitrary: s)
  case (Cons m ms)
  show ?case
  proof (cases "m = 0")
    case False
    have m: "is_data v m" "m \<in> L" "set (mwfs_ptrs (vsec v s m)) - {0} \<subseteq> L" using Cons.prems(2) [of m] False by simp_all
    note c1 = free_table_clears [OF v Cons.prems(1) m(3)]
    note c2 = clears_trans [OF c1 free_sector_clears [OF v clears_secs [OF c1] m(2)]]
    let ?s = "mwfs_free_sector v m (mwfs_free_table v m s)"
    have "is_data v k \<and> k \<in> L \<and> set (mwfs_ptrs (vsec v ?s k)) - {0} \<subseteq> L" if "k \<in> set ms" "k \<noteq> 0" for k
      using Cons.prems(2) [of k] that clears_data [OF v c2, of k] by simp
    from clears_trans [OF c2 Cons.IH [OF clears_secs [OF c2] this]] show ?thesis using False by simp
  qed (use Cons in simp)
qed (simp add: clears_refl)

lemma free_blocks_clears:
  assumes v: "vol_ok v" and s: "secs_ok v (vsec v s)" and p: "ptrs_ok v (vsec v s) t" and r: "mwfs_free_blocks v t s = (t', s')"
  shows "clears v (own (vsec v s) t) s s'"
proof -
  let ?D = "vsec v s" let ?L = "own ?D t"
  have len: "length (i_direct t) = 8" using ptrs_okD(1) [OF p] by (simp add: ino_ok_def)
  have "set (i_direct t) - {0} \<subseteq> ?L"
  proof
    fix x assume "x \<in> set (i_direct t) - {0}"
    then obtain k where "k < 8" "i_direct t ! k = x" "x \<noteq> 0" using len by (auto simp: in_set_conv_nth)
    hence "val ?D t (SDir k) = x" by simp
    thus "x \<in> ?L" using \<open>x \<noteq> 0\<close> own_def by blast
  qed
  note c1 = free_ptrs_clears [OF v s this]
  define s1 where "s1 = mwfs_free_ptrs v (i_direct t) s"
  note c1 = c1 [folded s1_def]
  define s2 where "s2 = (if i_ind t \<noteq> 0 then mwfs_free_sector v (i_ind t) (mwfs_free_table v (i_ind t) s1) else s1)"
  have c2: "clears v ?L s s2"
  proof (cases "i_ind t = 0")
    case False
    have T: "set (mwfs_ptrs (?D (i_ind t))) - {0} \<subseteq> ?L" using table_own [of SInd ?D t] False by simp
    have "vsec v s1 (i_ind t) = ?D (i_ind t)" using clears_data [OF v c1] ptrs_okD(2) [OF p, of SInd] False by simp
    hence "clears v ?L s1 (mwfs_free_table v (i_ind t) s1)" by (intro free_table_clears [OF v clears_secs [OF c1]]) (simp add: T)
    note c = clears_trans [OF c1 this]
    have "i_ind t \<in> ?L" using own_val [of ?D t SInd] False by simp
    from clears_trans [OF c free_sector_clears [OF v clears_secs [OF c] this]] show ?thesis using False by (simp add: s2_def)
  qed (simp add: s2_def c1)
  define s3 where "s3 = (if i_dind t \<noteq> 0
               then let s = (case mwfs_rd v (i_dind t) s2 of
                      None \<Rightarrow> s2
                    | Some b \<Rightarrow> fold (\<lambda>m s. if m = 0 then s else mwfs_free_sector v m (mwfs_free_table v m s)) (mwfs_ptrs b) s2)
                    in mwfs_free_sector v (i_dind t) s
               else s2)"
  have "clears v ?L s s3"
  proof (cases "i_dind t = 0")
    case False
    have d: "vsec v s2 (i_dind t) = ?D (i_dind t)" using clears_data [OF v c2] ptrs_okD(2) [OF p, of SDind] False by simp
    have dl: "i_dind t \<in> ?L" using own_val [of ?D t SDind] False by simp
    have ms: "is_data v m \<and> m \<in> ?L \<and> set (mwfs_ptrs (vsec v s2 m)) - {0} \<subseteq> ?L" if m: "m \<in> set (mwfs_ptrs (?D (i_dind t)))" "m \<noteq> 0" for m
    proof -
      obtain k where k: "k < 128" "mwfs_ptrs (?D (i_dind t)) ! k = m" using m(1) by (auto simp: in_set_conv_nth)
      have e: "val ?D t (SMid k) = m" using k False by (simp add: mid_def)
      have "is_data v m" "m \<in> ?L" using ptrs_okD(2) [OF p, of "SMid k"] own_val [of ?D t "SMid k"] e m(2) by simp_all
      moreover have "set (mwfs_ptrs (?D m)) - {0} \<subseteq> ?L" using table_own [of "SMid k" ?D t] e m(2) by simp
      ultimately show ?thesis using clears_data [OF v c2, of m] by simp
    qed
    have "clears v ?L s2 (case mwfs_rd v (i_dind t) s2 of
                      None \<Rightarrow> s2
                    | Some b \<Rightarrow> fold (\<lambda>m s. if m = 0 then s else mwfs_free_sector v m (mwfs_free_table v m s)) (mwfs_ptrs b) s2)"
    proof (cases "mwfs_rd v (i_dind t) s2")
      case (Some b)
      hence "b = ?D (i_dind t)" using rd_Some d by metis
      thus ?thesis using Some free_mids_clears [OF v clears_secs [OF c2] ms] by simp
    qed (simp add: clears_refl clears_secs [OF c2])
    note c = clears_trans [OF c2 this]
    from clears_trans [OF c free_sector_clears [OF v clears_secs [OF c] dl]] show ?thesis using False by (simp add: s3_def)
  qed (simp add: s3_def c2)
  moreover have "s' = s3" using r unfolding mwfs_free_blocks_def s3_def s2_def s1_def Let_def prod.inject by (elim conjE, simp only:)
  ultimately show ?thesis by simp
qed

subsection \<open>Live inodes\<close>

text \<open>The inodes R are files and directories whose sectors are marked and belong to one inode each.\<close>

definition live_ok :: "vol \<Rightarrow> (nat \<Rightarrow> bytes) \<Rightarrow> nat set \<Rightarrow> bool" where
  "live_ok v D R \<longleftrightarrow> vol_ok v \<and> secs_ok v D \<and> R \<subseteq> {0<..<v_inodes v} \<and>
     (\<forall>n \<in> R. (i_type (inode v D n) = MWFS_T_FILE \<or> i_type (inode v D n) = MWFS_T_DIR) \<and> i_size (inode v D n) \<le> 512 * file_max \<and>
        ptrs_ok v D (inode v D n)) \<and>
     (\<forall>n \<in> R. \<forall>m \<in> R. n \<noteq> m \<longrightarrow> own D (inode v D n) \<inter> own D (inode v D m) = {})"

lemma live_okD:
  assumes "live_ok v D R"
  shows "vol_ok v" "secs_ok v D" "n \<in> R \<Longrightarrow> 0 < n \<and> n < v_inodes v"
    "n \<in> R \<Longrightarrow> i_type (inode v D n) = MWFS_T_FILE \<or> i_type (inode v D n) = MWFS_T_DIR" "n \<in> R \<Longrightarrow> i_size (inode v D n) \<le> 512 * file_max"
    "n \<in> R \<Longrightarrow> ptrs_ok v D (inode v D n)" "n \<in> R \<Longrightarrow> m \<in> R \<Longrightarrow> n \<noteq> m \<Longrightarrow> own D (inode v D n) \<inter> own D (inode v D m) = {}"
  using assms unfolding live_ok_def by auto

text \<open>D' has the inodes R of D, with the same sectors and contents.\<close>

definition same_inodes :: "vol \<Rightarrow> (nat \<Rightarrow> bytes) \<Rightarrow> (nat \<Rightarrow> bytes) \<Rightarrow> nat set \<Rightarrow> bool" where
  "same_inodes v D D' R \<longleftrightarrow> secs_ok v D' \<and> (\<forall>n \<in> R. inode v D' n = inode v D n \<and> keeps v D D' (own D (inode v D n)))"

lemma live_same:
  assumes l: "live_ok v D R" and s: "same_inodes v D D' R"
  shows "live_ok v D' R"
proof -
  have k: "inode v D' n = inode v D n" "own D' (inode v D n) = own D (inode v D n)" "ptrs_ok v D' (inode v D n)" if "n \<in> R" for n
    using s keeps_val(2,3) live_okD(6) [OF l that] that unfolding same_inodes_def by blast+
  have "secs_ok v D'" using s by (simp add: same_inodes_def)
  thus ?thesis using l k unfolding live_ok_def by simp
qed

lemma same_inodes_refl: "live_ok v D R \<Longrightarrow> same_inodes v D D R" by (simp add: same_inodes_def keeps_def live_ok_def)

lemma same_inodes_trans:
  assumes l: "live_ok v D R" and a: "same_inodes v D D1 R" and b: "same_inodes v D1 D2 R"
  shows "same_inodes v D D2 R"
proof -
  have "keeps v D D2 (own D (inode v D n)) \<and> inode v D2 n = inode v D n" if n: "n \<in> R" for n
  proof -
    have k1: "keeps v D D1 (own D (inode v D n))" "inode v D1 n = inode v D n" using a n by (simp_all add: same_inodes_def)
    have "own D1 (inode v D1 n) = own D (inode v D n)" using keeps_val(2) [OF k1(1) live_okD(6) [OF l n]] k1(2) by simp
    moreover have "inode v D2 n = inode v D1 n" "keeps v D1 D2 (own D1 (inode v D1 n))" using b n by (simp_all add: same_inodes_def)
    ultimately show ?thesis using keeps_trans [OF k1(1)] k1(2) by metis
  qed
  thus ?thesis using b by (simp add: same_inodes_def)
qed

lemma same_inodes_subset: "same_inodes v D D' R \<Longrightarrow> R' \<subseteq> R \<Longrightarrow> same_inodes v D D' R'" by (auto simp: same_inodes_def)

lemma live_subset: "live_ok v D R \<Longrightarrow> R' \<subseteq> R \<Longrightarrow> live_ok v D R'" unfolding live_ok_def by blast

text \<open>Writing inode n leaves the others alone.\<close>

lemma ino_set_same:
  assumes l: "live_ok v D R" and n: "n < v_inodes v" "n \<notin> R" "ino_ok t"
  shows "same_inodes v D (ino_set v n t D) R"
proof -
  note I = ino_setD [OF live_okD(1,2) [OF l] n(1,3)]
  have "inode v (ino_set v n t D) m = inode v D m \<and> keeps v D (ino_set v n t D) (own D (inode v D m))" if "m \<in> R" for m
    using I(2) [of m] n(2) that ino_set_keeps [OF live_okD(1,2) [OF l] n(1,3) live_okD(6) [OF l that]] by auto
  thus ?thesis using I(1) by (simp add: same_inodes_def)
qed

text \<open>A live set gets a new member: its inode's sectors belong to nobody else.\<close>

lemma live_insert:
  assumes l: "live_ok v D R" and n: "0 < n" "n < v_inodes v" and t: "inode v D n = t" "i_type t = MWFS_T_FILE \<or> i_type t = MWFS_T_DIR"
      "i_size t \<le> 512 * file_max" "ptrs_ok v D t" and d: "\<And>m. m \<in> R \<Longrightarrow> m \<noteq> n \<Longrightarrow> own D t \<inter> own D (inode v D m) = {}"
  shows "live_ok v D (insert n R)"
proof -
  have "own D (inode v D a) \<inter> own D (inode v D b) = {}" if ab: "a \<in> insert n R" "b \<in> insert n R" "a \<noteq> b" for a b
  proof -
    consider "a = n" "b \<in> R" "b \<noteq> n" | "b = n" "a \<in> R" "a \<noteq> n" | "a \<in> R" "b \<in> R" "a \<noteq> n" "b \<noteq> n" using ab by fastforce
    thus ?thesis using d [of a] d [of b] t(1) live_okD(7) [OF l _ _ ab(3)] by cases (simp, blast, blast)
  qed
  moreover have "R \<subseteq> {0<..<v_inodes v}" using l by (simp add: live_ok_def)
  ultimately show ?thesis using l n t unfolding live_ok_def by simp
qed

text \<open>mwfs_ino_release of an inode outside R: the inodes of R do not notice.\<close>

lemma release_ok:
  assumes l: "live_ok v (vsec v s) (insert n R)" and n: "n \<notin> R"
  shows "same_inodes v (vsec v s) (vsec v (mwfs_ino_release v n s)) R" "live_ok v (vsec v (mwfs_ino_release v n s)) R"
    "blk_rd (mwfs_ino_release v n s) = blk_rd s" "blk_wr (mwfs_ino_release v n s) = blk_wr s"
proof -
  let ?D = "vsec v s" let ?s = "mwfs_ino_release v n s"
  note v = live_okD(1) [OF l] and so = live_okD(2) [OF l]
  have lR: "live_ok v ?D R" using live_subset [OF l] by blast
  have "same_inodes v ?D (vsec v ?s) R \<and> blk_rd ?s = blk_rd s \<and> blk_wr ?s = blk_wr s"
  proof (cases "mwfs_ino_get v n s")
    case None thus ?thesis by (simp add: mwfs_ino_release_def same_inodes_refl [OF lR])
  next
    case (Some t)
    have t: "t = inode v ?D n" and nv: "n < v_inodes v" using ino_get_Some [OF Some] by blast+
    obtain t' s1 where f: "mwfs_free_blocks v t s = (t', s1)" by fastforce
    obtain ok s2 where p: "mwfs_ino_put v n mwfs_ino_zero s1 = (ok, s2)" by fastforce
    have pt: "ptrs_ok v ?D t" using live_okD(6) [OF l, of n] t by simp
    have c: "clears v (own ?D t) s s1" by (rule free_blocks_clears [OF v so pt f])
    have C: "cleared v (own ?D t) ?D (vsec v s1)" using c by (simp add: clears_def)
    have "inode v (vsec v s1) m = inode v ?D m \<and> keeps v ?D (vsec v s1) (own ?D (inode v ?D m))" if m: "m \<in> R" for m
    proof
      have "is_itable v (v_itable_lba v + m div 8)" using itable_of [OF v] live_okD(3) [OF lR m] by blast
      thus "inode v (vsec v s1) m = inode v ?D m" using clearedD(4) [OF C] itable_disj by (simp add: inode_def)
      have "own ?D (inode v ?D m) \<inter> own ?D t = {}" using live_okD(7) [OF l, of m n] m n t by auto
      thus "keeps v ?D (vsec v s1) (own ?D (inode v ?D m))" by (rule cleared_keeps [OF v C live_okD(6) [OF lR m]])
    qed
    hence s1: "same_inodes v ?D (vsec v s1) R" using clearedD(1) [OF C] by (simp add: same_inodes_def)
    have zo: "ino_ok mwfs_ino_zero" by (simp add: mwfs_ino_zero_def ino_ok_def MWFS_NDIRECT_def)
    have "same_inodes v (vsec v s1) (vsec v s2) R"
      using ino_put_cases(1) [OF p v] ino_set_same [OF live_same [OF lR s1] nv n zo] same_inodes_refl [OF live_same [OF lR s1]] by simp
    hence "same_inodes v ?D (vsec v s2) R" by (rule same_inodes_trans [OF lR s1])
    moreover have "?s = s2" using Some f p by (simp add: mwfs_ino_release_def)
    ultimately show ?thesis using ino_put_cases(3,4) [OF p v] c by (simp add: clears_def)
  qed
  thus "same_inodes v ?D (vsec v ?s) R" "blk_rd ?s = blk_rd s" "blk_wr ?s = blk_wr s" by blast+
  thus "live_ok v (vsec v ?s) R" using live_same [OF lR] by blast
qed

end
