(* ===== verification/Mwfs_Dir.thy ===== *)
theory Mwfs_Dir
  imports Mwfs
begin

text \<open>
  mwfs.h, directories and whole files: entries, lookups, adding, removing and retargeting a name, and the
  operations built on them. The clock behind mwfs_now is an argument, the stamp it returns.
\<close>

subsection \<open>Entries\<close>

record dirent =
  de_ino :: nat
  de_type :: nat
  de_name :: bytes

text \<open>Entry e of a directory sector; the name ends at its length or at the first 0.\<close>

definition dent_ino :: "bytes \<Rightarrow> nat \<Rightarrow> nat" where "dent_ino b e = mwfs_le b (e * MWFS_DENT_SIZE)"

definition dent_type :: "bytes \<Rightarrow> nat \<Rightarrow> nat" where "dent_type b e = unat (b ! (e * MWFS_DENT_SIZE + 4))"

definition dent_name :: "bytes \<Rightarrow> nat \<Rightarrow> bytes" where
  "dent_name b e =
     (let nl = unat (b ! (e * MWFS_DENT_SIZE + 5)); nl = (if nl > MWFS_NAME_MAX then MWFS_NAME_MAX else nl)
      in takeWhile (\<lambda>c. c \<noteq> 0) (slice (e * MWFS_DENT_SIZE + 6) nl b))"

definition dent_of :: "bytes \<Rightarrow> nat \<Rightarrow> dirent" where
  "dent_of b e = \<lparr>de_ino = dent_ino b e, de_type = dent_type b e, de_name = dent_name b e\<rparr>"

text \<open>for (s = 0; s * 512 < d.size; s++): the sector numbers, and the sector read for one of them; Inl is the error.\<close>

definition dir_range :: "ino \<Rightarrow> nat list" where "dir_range d = [0..<(i_size d + 511) div 512]"

definition dir_sector :: "vol \<Rightarrow> ino \<Rightarrow> nat \<Rightarrow> blk \<Rightarrow> mwfs_e + nat \<times> bytes" where
  "dir_sector v d sn s =
     (case mwfs_lookup v d sn s of
        None \<Rightarrow> Inl MWFS_E_CORRUPT
      | Some lba \<Rightarrow>
        if lba = 0 then Inl MWFS_E_CORRUPT
        else case mwfs_rd v lba s of None \<Rightarrow> Inl MWFS_E_IO | Some b \<Rightarrow> Inr (lba, b))"

definition dir_inode :: "vol \<Rightarrow> nat \<Rightarrow> blk \<Rightarrow> mwfs_e + ino" where
  "dir_inode v dino s =
     (case mwfs_ino_get v dino s of
        None \<Rightarrow> Inl MWFS_E_IO
      | Some d \<Rightarrow> if i_type d \<noteq> MWFS_T_DIR then Inl MWFS_E_NOTDIR else Inr d)"

subsection \<open>Walking\<close>

text \<open>The loop over the 8 entries of a sector in mwfs_dir_nth: Inl the entry, Inr the used entries seen.\<close>

fun dir_nth_sector :: "bytes \<Rightarrow> nat list \<Rightarrow> nat \<Rightarrow> nat \<Rightarrow> dirent + nat" where
  "dir_nth_sector b [] idx seen = Inr seen"
| "dir_nth_sector b (e # es) idx seen =
     (if dent_ino b e = 0 then dir_nth_sector b es idx seen
      else if seen = idx then Inl (dent_of b e)
      else dir_nth_sector b es idx (seen + 1))"

fun dir_nth_from :: "vol \<Rightarrow> ino \<Rightarrow> nat list \<Rightarrow> nat \<Rightarrow> nat \<Rightarrow> blk \<Rightarrow> int \<times> dirent option" where
  "dir_nth_from v d [] idx seen s = (0, None)"
| "dir_nth_from v d (sn # sns) idx seen s =
     (case dir_sector v d sn s of
        Inl _ \<Rightarrow> (-1, None)
      | Inr (_, b) \<Rightarrow>
        (case dir_nth_sector b [0..<8] idx seen of
           Inl e \<Rightarrow> (1, Some e)
         | Inr seen \<Rightarrow> dir_nth_from v d sns idx seen s))"

definition mwfs_dir_nth :: "vol \<Rightarrow> nat \<Rightarrow> nat \<Rightarrow> blk \<Rightarrow> int \<times> dirent option" where
  "mwfs_dir_nth v dino idx s =
     (case dir_inode v dino s of Inl _ \<Rightarrow> (-1, None) | Inr d \<Rightarrow> dir_nth_from v d (dir_range d) idx 0 s)"

text \<open>mwfs_dir_each: the callback is a function of the entry and its context; False stops.\<close>

fun dir_each_sector :: "bytes \<Rightarrow> nat list \<Rightarrow> (dirent \<Rightarrow> 'c \<Rightarrow> bool \<times> 'c) \<Rightarrow> 'c \<Rightarrow> bool \<times> 'c" where
  "dir_each_sector b [] fn ctx = (True, ctx)"
| "dir_each_sector b (e # es) fn ctx =
     (if dent_ino b e = 0 then dir_each_sector b es fn ctx
      else let (go, ctx) = fn (dent_of b e) ctx in if \<not> go then (False, ctx) else dir_each_sector b es fn ctx)"

fun dir_each_from :: "vol \<Rightarrow> ino \<Rightarrow> nat list \<Rightarrow> (dirent \<Rightarrow> 'c \<Rightarrow> bool \<times> 'c) \<Rightarrow> 'c \<Rightarrow> blk \<Rightarrow> int \<times> 'c" where
  "dir_each_from v d [] fn ctx s = (0, ctx)"
| "dir_each_from v d (sn # sns) fn ctx s =
     (case dir_sector v d sn s of
        Inl _ \<Rightarrow> (-1, ctx)
      | Inr (_, b) \<Rightarrow> let (go, ctx) = dir_each_sector b [0..<8] fn ctx
                      in if \<not> go then (0, ctx) else dir_each_from v d sns fn ctx s)"

definition mwfs_dir_each :: "vol \<Rightarrow> nat \<Rightarrow> (dirent \<Rightarrow> 'c \<Rightarrow> bool \<times> 'c) \<Rightarrow> 'c \<Rightarrow> blk \<Rightarrow> int \<times> 'c" where
  "mwfs_dir_each v dino fn ctx s =
     (case dir_inode v dino s of Inl _ \<Rightarrow> (-1, ctx) | Inr d \<Rightarrow> dir_each_from v d (dir_range d) fn ctx s)"

subsection \<open>Finding\<close>

definition dir_find_sector :: "bytes \<Rightarrow> bytes \<Rightarrow> nat option" where
  "dir_find_sector name b = find (\<lambda>e. dent_ino b e \<noteq> 0 \<and> mwfs_name_eq (dent_name b e) name) [0..<8]"

type_synonym found = "nat \<times> nat \<times> nat \<times> nat"

text \<open>What mwfs_dir_find stores through its pointers: inode, type, sector and entry.\<close>

fun dir_find_from :: "vol \<Rightarrow> ino \<Rightarrow> nat list \<Rightarrow> bytes \<Rightarrow> blk \<Rightarrow> mwfs_e + found" where
  "dir_find_from v d [] name s = Inl MWFS_E_NOENT"
| "dir_find_from v d (sn # sns) name s =
     (case dir_sector v d sn s of
        Inl e \<Rightarrow> Inl e
      | Inr (lba, b) \<Rightarrow>
        (case dir_find_sector name b of
           Some e \<Rightarrow> Inr (dent_ino b e, dent_type b e, lba, e)
         | None \<Rightarrow> dir_find_from v d sns name s))"

definition mwfs_dir_find :: "vol \<Rightarrow> nat \<Rightarrow> bytes \<Rightarrow> blk \<Rightarrow> mwfs_e + found" where
  "mwfs_dir_find v dino name s =
     (case dir_inode v dino s of Inl e \<Rightarrow> Inl e | Inr d \<Rightarrow> dir_find_from v d (dir_range d) name s)"

definition mwfs_dir_lookup :: "vol \<Rightarrow> nat \<Rightarrow> bytes \<Rightarrow> blk \<Rightarrow> mwfs_e + nat \<times> nat" where
  "mwfs_dir_lookup v dino name s =
     (case mwfs_dir_find v dino name s of Inl e \<Rightarrow> Inl e | Inr (n, ty, _) \<Rightarrow> Inr (n, ty))"

subsection \<open>Changing entries\<close>

definition mwfs_dent_fill :: "nat \<Rightarrow> nat \<Rightarrow> bytes \<Rightarrow> bytes" where
  "mwfs_dent_fill n ty name =
     (let name = take MWFS_NAME_MAX name
      in mwfs_put n @ [of_nat ty, of_nat (length name)] @ name @ mwfs_zeros (MWFS_DENT_SIZE - 6 - length name))"

definition wr_result :: "bool \<times> blk \<Rightarrow> mwfs_e \<times> blk" where
  "wr_result r = (if fst r then MWFS_OK else MWFS_E_IO, snd r)"

text \<open>A free entry of an existing sector is filled; Inr (when there is none) the directory grows.\<close>

fun dir_add_from :: "vol \<Rightarrow> ino \<Rightarrow> nat list \<Rightarrow> bytes \<Rightarrow> blk \<Rightarrow> (mwfs_e \<times> blk) option" where
  "dir_add_from v d [] ent s = None"
| "dir_add_from v d (sn # sns) ent s =
     (case dir_sector v d sn s of
        Inl e \<Rightarrow> Some (e, s)
      | Inr (lba, b) \<Rightarrow>
        (case find (\<lambda>e. dent_ino b e = 0) [0..<8] of
           Some e \<Rightarrow> Some (wr_result (mwfs_wr v lba (blit b (e * MWFS_DENT_SIZE) ent) s))
         | None \<Rightarrow> dir_add_from v d sns ent s))"

definition mwfs_dir_add :: "vol \<Rightarrow> nat \<Rightarrow> bytes \<Rightarrow> nat \<Rightarrow> nat \<Rightarrow> blk \<Rightarrow> mwfs_e \<times> vol \<times> blk" where
  "mwfs_dir_add v dino name n ty s =
     (if \<not> mwfs_name_ok name then (MWFS_E_NAME, v, s)
      else case dir_inode v dino s of
        Inl e \<Rightarrow> (e, v, s)
      | Inr d \<Rightarrow>
        (case mwfs_dir_find v dino name s of
           Inr _ \<Rightarrow> (MWFS_E_EXIST, v, s)
         | Inl f \<Rightarrow>
           if f \<noteq> MWFS_E_NOENT then (f, v, s)
           else let ent = mwfs_dent_fill n ty name in
             case dir_add_from v d (dir_range d) ent s of
               Some (e, s) \<Rightarrow> (e, v, s)
             | None \<Rightarrow>
               let (e, d, v, s) = mwfs_pwrite v d (i_size d) (ent @ mwfs_zeros (512 - MWFS_DENT_SIZE)) s;
                   (ok, s) = mwfs_ino_put v dino d s
               in (if \<not> ok \<and> e = MWFS_OK then MWFS_E_IO else e, v, s)))"

definition dir_edit :: "vol \<Rightarrow> nat \<Rightarrow> bytes \<Rightarrow> (bytes \<Rightarrow> nat \<Rightarrow> bytes) \<Rightarrow> blk \<Rightarrow> mwfs_e \<times> blk" where
  "dir_edit v dino name upd s =
     (case mwfs_dir_find v dino name s of
        Inl e \<Rightarrow> (e, s)
      | Inr (_, _, sec, ent) \<Rightarrow>
        (case mwfs_rd v sec s of
           None \<Rightarrow> (MWFS_E_IO, s)
         | Some b \<Rightarrow> wr_result (mwfs_wr v sec (upd b ent) s)))"

definition mwfs_dir_remove :: "vol \<Rightarrow> nat \<Rightarrow> bytes \<Rightarrow> blk \<Rightarrow> mwfs_e \<times> blk" where
  "mwfs_dir_remove v dino name s =
     dir_edit v dino name (\<lambda>b ent. blit b (ent * MWFS_DENT_SIZE) (mwfs_zeros MWFS_DENT_SIZE)) s"

definition mwfs_dir_retarget :: "vol \<Rightarrow> nat \<Rightarrow> bytes \<Rightarrow> nat \<Rightarrow> blk \<Rightarrow> mwfs_e \<times> blk" where
  "mwfs_dir_retarget v dino name n s =
     dir_edit v dino name (\<lambda>b ent. blit b (ent * MWFS_DENT_SIZE) (mwfs_put n)) s"

definition mwfs_dir_is_empty :: "vol \<Rightarrow> nat \<Rightarrow> blk \<Rightarrow> bool" where
  "mwfs_dir_is_empty v dino s \<longleftrightarrow> fst (mwfs_dir_nth v dino 0 s) = 0"

subsection \<open>Whole files\<close>

definition mwfs_file_install :: "vol \<Rightarrow> nat \<Rightarrow> bytes \<Rightarrow> nat \<Rightarrow> ino \<Rightarrow> mwfs_e \<Rightarrow> blk \<Rightarrow> mwfs_e \<times> vol \<times> blk" where
  "mwfs_file_install v dino name n t err s =
     (let f = mwfs_dir_lookup v dino name s;
          e = err;
          (ok, s) = mwfs_ino_put v n t s;
          e = (if \<not> ok \<and> e = MWFS_OK then MWFS_E_IO else e);
          e = (case f of Inl g \<Rightarrow> if e = MWFS_OK \<and> g \<noteq> MWFS_E_NOENT then g else e
                | Inr (_, ty) \<Rightarrow> if e = MWFS_OK \<and> ty = MWFS_T_DIR then MWFS_E_ISDIR else e);
          (e, v, s) =
            (if e = MWFS_OK
             then (case f of Inr _ \<Rightarrow> let (e, s) = mwfs_dir_retarget v dino name n s in (e, v, s)
                    | Inl _ \<Rightarrow> mwfs_dir_add v dino name n MWFS_T_FILE s)
             else (e, v, s))
      in if e \<noteq> MWFS_OK then (e, v, mwfs_ino_release v n s)
         else (MWFS_OK, v, case f of Inr (old, _) \<Rightarrow> mwfs_ino_release v old s | Inl _ \<Rightarrow> s))"

text \<open>The checks both callers make before they allocate an inode: Some is the error returned.\<close>

definition put_refused :: "vol \<Rightarrow> nat \<Rightarrow> bytes \<Rightarrow> blk \<Rightarrow> mwfs_e option" where
  "put_refused v dino name s =
     (case mwfs_dir_lookup v dino name s of
        Inl f \<Rightarrow> if f \<noteq> MWFS_E_NOENT then Some f else None
      | Inr (_, ty) \<Rightarrow> if ty = MWFS_T_DIR then Some MWFS_E_ISDIR else None)"

definition mwfs_file_put :: "u32 \<Rightarrow> vol \<Rightarrow> nat \<Rightarrow> bytes \<Rightarrow> bytes \<Rightarrow> u32 \<Rightarrow> blk \<Rightarrow> mwfs_e \<times> vol \<times> blk" where
  "mwfs_file_put now v dino name data aux s =
     (if \<not> mwfs_name_ok name then (MWFS_E_NAME, v, s)
      else case put_refused v dino name s of
        Some e \<Rightarrow> (e, v, s)
      | None \<Rightarrow>
        let (n, v, s) = mwfs_ino_alloc v MWFS_T_FILE s in
        if n = 0 then (MWFS_E_FULL, v, s)
        else case mwfs_ino_get v n s of
          None \<Rightarrow> (MWFS_E_IO, v, s)
        | Some t \<Rightarrow>
          let t = t\<lparr>i_aux := aux, i_gen := now\<rparr>;
              (e, t, v, s) = (if length data \<noteq> 0 then mwfs_pwrite v t 0 data s else (MWFS_OK, t, v, s));
              t = (if e = MWFS_OK then t\<lparr>i_crc := NOT (mwfs_crc32_update 0xFFFFFFFF data)\<rparr> else t)
          in mwfs_file_install v dino name n t e s)"

text \<open>The copy loop, 512 bytes at a time; the two volumes share the devices.\<close>

function mwfs_copy_loop :: "vol \<Rightarrow> ino \<Rightarrow> nat \<Rightarrow> u32 \<Rightarrow> vol \<Rightarrow> ino \<Rightarrow> blk \<Rightarrow> mwfs_e \<times> u32 \<times> ino \<times> vol \<times> blk" where
  "mwfs_copy_loop sv src off crc dv t s =
     (if off \<ge> i_size src then (MWFS_OK, crc, t, dv, s)
      else let n = min (i_size src - off) 512 in
        case mwfs_pread sv src off n s of
          None \<Rightarrow> (MWFS_E_IO, crc, t, dv, s)
        | Some b \<Rightarrow>
          if length b \<noteq> n then (MWFS_E_IO, crc, t, dv, s)
          else let crc = mwfs_crc32_update crc b; (e, t, dv, s) = mwfs_pwrite dv t off b s
               in if e \<noteq> MWFS_OK then (e, crc, t, dv, s) else mwfs_copy_loop sv src (off + 512) crc dv t s)"
  by pat_completeness auto
termination by (relation "measure (\<lambda>(sv, src, off, _). i_size src - off)") auto

declare mwfs_copy_loop.simps [simp del]

definition mwfs_file_copy :: "u32 \<Rightarrow> vol \<Rightarrow> nat \<Rightarrow> vol \<Rightarrow> nat \<Rightarrow> bytes \<Rightarrow> blk \<Rightarrow> mwfs_e \<times> vol \<times> blk" where
  "mwfs_file_copy now sv src_ino dv ddir name s =
     (if \<not> mwfs_name_ok name then (MWFS_E_NAME, dv, s)
      else case mwfs_ino_get sv src_ino s of
        None \<Rightarrow> (MWFS_E_IO, dv, s)
      | Some src \<Rightarrow>
        if i_type src \<noteq> MWFS_T_FILE then (MWFS_E_ISDIR, dv, s)
        else case put_refused dv ddir name s of
          Some e \<Rightarrow> (e, dv, s)
        | None \<Rightarrow>
          let (n, dv, s) = mwfs_ino_alloc dv MWFS_T_FILE s in
          if n = 0 then (MWFS_E_FULL, dv, s)
          else case mwfs_ino_get dv n s of
            None \<Rightarrow> (MWFS_E_IO, dv, s)
          | Some t \<Rightarrow>
            let t = t\<lparr>i_aux := i_aux src, i_gen := now\<rparr>;
                (e, crc, t, dv, s) = mwfs_copy_loop sv src 0 0xFFFFFFFF dv t s
            in mwfs_file_install dv ddir name n (t\<lparr>i_crc := NOT crc\<rparr>) e s)"

text \<open>The bytes and the size (when the inode could be read); dst has room for max bytes.\<close>

definition mwfs_file_get :: "vol \<Rightarrow> nat \<Rightarrow> nat \<Rightarrow> blk \<Rightarrow> mwfs_e \<times> nat option \<times> bytes" where
  "mwfs_file_get v n max_len s =
     (case mwfs_ino_get v n s of
        None \<Rightarrow> (MWFS_E_IO, None, [])
      | Some t \<Rightarrow>
        if i_type t \<noteq> MWFS_T_FILE then (MWFS_E_ISDIR, None, [])
        else if i_size t > max_len then (MWFS_E_TOOBIG, Some (i_size t), [])
        else case (if i_size t \<noteq> 0 then mwfs_pread v t 0 (i_size t) s else Some []) of
          None \<Rightarrow> (MWFS_E_IO, Some (i_size t), [])
        | Some b \<Rightarrow> (if length b \<noteq> i_size t then MWFS_E_IO else MWFS_OK, Some (i_size t), b))"

function mwfs_verify_loop :: "vol \<Rightarrow> ino \<Rightarrow> nat \<Rightarrow> u32 \<Rightarrow> blk \<Rightarrow> u32 option" where
  "mwfs_verify_loop v t off crc s =
     (if off \<ge> i_size t then Some crc
      else let n = min (i_size t - off) 512 in
        case mwfs_pread v t off n s of
          None \<Rightarrow> None
        | Some b \<Rightarrow> if length b \<noteq> n then None else mwfs_verify_loop v t (off + n) (mwfs_crc32_update crc b) s)"
  by pat_completeness auto
termination by (relation "measure (\<lambda>(v, t, off, _). i_size t - off)") auto

declare mwfs_verify_loop.simps [simp del]

definition mwfs_file_verify :: "vol \<Rightarrow> nat \<Rightarrow> blk \<Rightarrow> bool" where
  "mwfs_file_verify v n s =
     (case mwfs_ino_get v n s of
        None \<Rightarrow> False
      | Some t \<Rightarrow>
        if i_type t \<noteq> MWFS_T_FILE then False
        else case mwfs_verify_loop v t 0 0xFFFFFFFF s of None \<Rightarrow> False | Some crc \<Rightarrow> NOT crc = i_crc t)"

text \<open>The new inode number is the second result.\<close>

definition mwfs_mkdir :: "u32 \<Rightarrow> vol \<Rightarrow> nat \<Rightarrow> bytes \<Rightarrow> blk \<Rightarrow> mwfs_e \<times> nat \<times> vol \<times> blk" where
  "mwfs_mkdir now v dino name s =
     (if \<not> mwfs_name_ok name then (MWFS_E_NAME, 0, v, s)
      else case mwfs_dir_lookup v dino name s of
        Inr _ \<Rightarrow> (MWFS_E_EXIST, 0, v, s)
      | Inl f \<Rightarrow>
        if f \<noteq> MWFS_E_NOENT then (f, 0, v, s)
        else let (n, v, s) = mwfs_ino_alloc v MWFS_T_DIR s in
          if n = 0 then (MWFS_E_FULL, 0, v, s)
          else let s = (case mwfs_ino_get v n s of None \<Rightarrow> s | Some dt \<Rightarrow> snd (mwfs_ino_put v n (dt\<lparr>i_gen := now\<rparr>) s));
                   (e, v, s) = mwfs_dir_add v dino name n MWFS_T_DIR s
               in if e \<noteq> MWFS_OK then (e, 0, v, mwfs_ino_release v n s) else (MWFS_OK, n, v, s))"

definition mwfs_unlink :: "vol \<Rightarrow> nat \<Rightarrow> bytes \<Rightarrow> blk \<Rightarrow> mwfs_e \<times> blk" where
  "mwfs_unlink v dino name s =
     (case mwfs_dir_lookup v dino name s of
        Inl e \<Rightarrow> (e, s)
      | Inr (n, ty) \<Rightarrow>
        if ty = MWFS_T_DIR \<and> \<not> mwfs_dir_is_empty v n s then (MWFS_E_NOTEMPTY, s)
        else let (e, s) = mwfs_dir_remove v dino name s in
          if e \<noteq> MWFS_OK then (e, s) else (MWFS_OK, mwfs_ino_release v n s))"

definition mwfs_rename :: "vol \<Rightarrow> nat \<Rightarrow> bytes \<Rightarrow> nat \<Rightarrow> bytes \<Rightarrow> blk \<Rightarrow> mwfs_e \<times> vol \<times> blk" where
  "mwfs_rename v from_dir from_name to_dir to_name s =
     (case mwfs_dir_lookup v from_dir from_name s of
        Inl e \<Rightarrow> (e, v, s)
      | Inr (n, ty) \<Rightarrow>
        if \<not> mwfs_name_ok to_name then (MWFS_E_NAME, v, s)
        else case mwfs_dir_lookup v to_dir to_name s of
          Inr (dst, dty) \<Rightarrow>
            if dst = n then (MWFS_OK, v, s)
            else if dty = MWFS_T_DIR \<or> ty = MWFS_T_DIR then (MWFS_E_EXIST, v, s)
            else let (e, s) = mwfs_dir_retarget v to_dir to_name n s in
              if e \<noteq> MWFS_OK then (e, v, s)
              else let (e, s) = mwfs_dir_remove v from_dir from_name s
                   in (e, v, if e = MWFS_OK then mwfs_ino_release v dst s else s)
        | Inl f \<Rightarrow>
            if f \<noteq> MWFS_E_NOENT then (f, v, s)
            else let (e, v, s) = mwfs_dir_add v to_dir to_name n ty s in
              if e \<noteq> MWFS_OK then (e, v, s)
              else let (e, s) = mwfs_dir_remove v from_dir from_name s in (e, v, s))"

end
