(* ===== verification/Mwfs_Tree.thy ===== *)
theory Mwfs_Tree
  imports Mwfs_Inode Mwfs_Dir
begin

text \<open>
  Directories and the tree of names. A directory is the list of its entries; the tree is stated first without the disk, then
  fs_ok ties it to the sectors. Each operation on a directory is shown to change one entry, or nothing, whatever fails.
\<close>

subsection \<open>Names and entries as bytes\<close>

lemma name_eq_upper: "mwfs_name_eq as bs \<longleftrightarrow> map mwfs_upper as = map mwfs_upper bs"
  by (induction as bs rule: mwfs_name_eq.induct) auto

definition de_is :: "bytes \<Rightarrow> dirent \<Rightarrow> bool" where "de_is name e \<longleftrightarrow> de_ino e \<noteq> 0 \<and> mwfs_name_eq (de_name e) name"

lemma de_is_other: "\<not> mwfs_name_eq name' name \<Longrightarrow> mwfs_name_eq (de_name e) name \<Longrightarrow> \<not> de_is name' e"
  by (auto simp: de_is_def name_eq_upper)

lemma dent_name_min: "dent_name b e = takeWhile (\<lambda>c. c \<noteq> 0) (slice (e * 64 + 6) (min (unat (b ! (e * 64 + 5))) 31) b)"
  by (simp add: dent_name_def Let_def mwfs_sizes min_def)

lemma dent_of_cong:
  assumes "slice (e * 64) 64 b = slice (e' * 64) 64 b'" "e * 64 + 64 \<le> length b" "e' * 64 + 64 \<le> length b'"
  shows "dent_of b e = dent_of b' e'"
proof -
  have n: "b ! (e * 64 + i) = b' ! (e' * 64 + i)" if "i < 64" for i
    using arg_cong [OF assms(1), of "\<lambda>xs. xs ! i"] that assms(2,3) by simp
  have le: "mwfs_le b (e * 64) = mwfs_le b' (e' * 64)"
    using n [of 0] n [of 1] n [of 2] n [of 3] by (simp add: mwfs_le_def)
  have sl: "slice (e * 64 + 6) m b = slice (e' * 64 + 6) m b'" if m: "m \<le> 31" for m
  proof (rule nth_equalityI)
    fix i assume "i < length (slice (e * 64 + 6) m b)"
    hence "i < m" using assms(2) m by simp
    thus "slice (e * 64 + 6) m b ! i = slice (e' * 64 + 6) m b' ! i"
      using n [of "6 + i"] m assms(2,3) by (simp add: add.assoc)
  qed (use assms(2,3) m in simp)
  have nm: "dent_name b e = dent_name b' e'"
    using n [of 5] sl [OF min.cobounded2] by (simp add: dent_name_min)
  show ?thesis using le n [of 4] nm by (simp add: dent_of_def dent_ino_def dent_type_def mwfs_sizes)
qed

text \<open>Replacing entry e of a sector by 64 bytes.\<close>

lemma dent_blit:
  assumes "length b = 512" "length ent = 64" "e < 8" "e' < 8"
  shows "dent_of (blit b (e * 64) ent) e' = (if e' = e then dent_of ent 0 else dent_of b e')"
proof -
  have r: "e * 64 + 64 \<le> 512" "e' * 64 + 64 \<le> 512" using assms(3,4) by linarith+
  show ?thesis
  proof (cases "e' = e")
    case True thus ?thesis using assms r by (simp, intro dent_of_cong) simp_all
  next
    case False
    hence "e' * 64 + 64 \<le> e * 64 \<or> e * 64 + 64 \<le> e' * 64" by linarith
    thus ?thesis using assms r False by (simp, intro dent_of_cong) (simp_all add: slice_blit_other)
  qed
qed

lemma name_ok_nz: "mwfs_name_ok name \<Longrightarrow> takeWhile (\<lambda>c. c \<noteq> 0) name = name"
  by (auto simp: mwfs_name_ok_def mwfs_name_char_def takeWhile_eq_all_conv)

lemma length_dent_fill [simp]: "length (mwfs_dent_fill n ty name) = 64"
  by (auto simp: mwfs_dent_fill_def Let_def mwfs_sizes)

lemma dent_fill:
  assumes n: "n < 2 ^ 32" and ty: "ty < 256" and name: "mwfs_name_ok name"
  shows "dent_of (mwfs_dent_fill n ty name) 0 = \<lparr>de_ino = n, de_type = ty, de_name = name\<rparr>"
proof -
  have l: "length name \<le> 31" using name by (simp add: mwfs_name_ok_def MWFS_NAME_MAX_def)
  let ?rest = "[of_nat ty, of_nat (length name)] @ name @ mwfs_zeros (58 - length name)"
  have f: "mwfs_dent_fill n ty name = mwfs_put n @ ?rest" using l by (simp add: mwfs_dent_fill_def Let_def mwfs_sizes)
  have i: "dent_ino (mwfs_dent_fill n ty name) 0 = n" unfolding f dent_ino_def using le_put_head [OF n, of ?rest] by simp
  have t: "dent_type (mwfs_dent_fill n ty name) 0 = ty" unfolding f dent_type_def using ty by (simp add: nth_append unat_of_nat)
  have nl: "unat (mwfs_dent_fill n ty name ! 5) = length name" unfolding f using l by (simp add: nth_append unat_of_nat)
  have "slice 6 (length name) (mwfs_put n @ ?rest) = name" by (simp add: slice_def)
  hence "dent_name (mwfs_dent_fill n ty name) 0 = name" unfolding dent_name_def using nl l name_ok_nz [OF name] f
    by (simp add: Let_def MWFS_NAME_MAX_def)
  thus ?thesis using i t by (simp add: dent_of_def)
qed

lemma dent_zeros: "de_ino (dent_of (mwfs_zeros 64) 0) = 0"
  by (simp add: dent_of_def dent_ino_def mwfs_le_zeros)

lemma dent_retarget:
  assumes "length b = 512" "e < 8" "e' < 8" "n < 2 ^ 32"
  shows "dent_of (blit b (e * 64) (mwfs_put n)) e' = (if e' = e then (dent_of b e)\<lparr>de_ino := n\<rparr> else dent_of b e')"
proof -
  have r: "e * 64 + 64 \<le> 512" using assms(2) by linarith
  let ?b = "blit b (e * 64) (mwfs_put n)"
  let ?ent = "mwfs_put n @ slice (e * 64 + 4) 60 b"
  have "?b = blit b (e * 64) ?ent"
  proof (rule nth_equalityI)
    show "length ?b = length (blit b (e * 64) ?ent)" using assms(1) r by simp
    fix i assume "i < length ?b"
    hence "i < 512" using assms(1) r by simp
    thus "?b ! i = blit b (e * 64) ?ent ! i" using assms(1) r by (simp add: nth_blit nth_append) auto
  qed
  moreover have "dent_of ?ent 0 = (dent_of b e)\<lparr>de_ino := n\<rparr>"
  proof -
    have i: "dent_ino ?ent 0 = n" unfolding dent_ino_def using le_put_head [OF assms(4)] by simp
    have nth: "?ent ! k = b ! (e * 64 + k)" if "4 \<le> k" "k < 64" for k using that r assms(1) by (simp add: nth_append)
    have sl: "slice 6 m ?ent = slice (e * 64 + 6) m b" if "m \<le> 31" for m
    proof (rule nth_equalityI)
      fix i assume "i < length (slice 6 m ?ent)"
      hence "i < m" using that r assms(1) by simp
      thus "slice 6 m ?ent ! i = slice (e * 64 + 6) m b ! i"
        using nth [of "6 + i"] that r assms(1) by (simp add: add.assoc)
    qed (use that r assms(1) in simp)
    have "dent_name ?ent 0 = dent_name b e"
      using nth [of 5] sl [OF min.cobounded2] by (simp add: dent_name_min)
    thus ?thesis using i nth [of 4] by (simp add: dent_of_def dent_type_def mwfs_sizes)
  qed
  ultimately show ?thesis using dent_blit [OF assms(1) _ assms(2,3), of ?ent] r assms(1) by simp
qed


subsection \<open>A directory as a list of entries\<close>

definition entry :: "(nat \<Rightarrow> bytes) \<Rightarrow> ino \<Rightarrow> nat \<Rightarrow> dirent" where "entry D d k = dent_of (sec_at D d (k div 8)) (k mod 8)"

definition ents :: "(nat \<Rightarrow> bytes) \<Rightarrow> ino \<Rightarrow> dirent list" where "ents D d = map (entry D d) [0..<8 * (i_size d div 512)]"

definition dir_ok :: "(nat \<Rightarrow> bytes) \<Rightarrow> ino \<Rightarrow> bool" where
  "dir_ok D d \<longleftrightarrow> i_size d mod 512 = 0 \<and> (\<forall>i < i_size d div 512. val D d (slot_of i) \<noteq> 0)"

lemma dir_range: "dir_ok D d \<Longrightarrow> dir_range d = [0..<i_size d div 512]"
proof -
  assume "dir_ok D d"
  then obtain q where "i_size d = 512 * q" by (auto simp: dir_ok_def)
  thus ?thesis by (simp add: dir_range_def)
qed

lemma length_ents [simp]: "length (ents D d) = 8 * (i_size d div 512)" by (simp add: ents_def)

lemma nth_ents: "k < 8 * (i_size d div 512) \<Longrightarrow> ents D d ! k = entry D d k" by (simp add: ents_def)

lemma entry_split: "e < 8 \<Longrightarrow> entry D d (8 * j + e) = dent_of (sec_at D d j) e" by (simp add: entry_def)

lemma dir_sector_Inr:
  "dir_sector v d sn s = Inr (lba, b) \<Longrightarrow> lba = val (vsec v s) d (slot_of sn) \<and> lba \<noteq> 0 \<and> b = sec_at (vsec v s) d sn \<and> b = vsec v s lba"
  by (auto simp: dir_sector_def sec_at_def split: option.splits if_splits dest!: lookup_Some rd_Some)

lemma dir_sector_Inl: "dir_sector v d sn s = Inl e \<Longrightarrow> e = MWFS_E_CORRUPT \<or> e = MWFS_E_IO"
  by (auto simp: dir_sector_def split: option.splits if_splits)

lemma find_first:
  "find P [0..<8] = Some e \<Longrightarrow> e < (8::nat) \<and> P e \<and> (\<forall>e' < e. \<not> P e')" "find P [0..<8] = None \<Longrightarrow> \<forall>e < (8::nat). \<not> P e"
  by (auto simp: find_Some_iff find_None_iff)

text \<open>dir_find_from: the first entry that matches, among the entries of the sectors searched.\<close>

lemma dir_find_from_Inr:
  "dir_find_from v d [i..<m] name s = Inr (n, ty, lba, e) \<Longrightarrow>
   \<exists>j. i \<le> j \<and> j < m \<and> e < 8 \<and> lba = val (vsec v s) d (slot_of j) \<and> lba \<noteq> 0 \<and>
     de_is name (entry (vsec v s) d (8 * j + e)) \<and> de_ino (entry (vsec v s) d (8 * j + e)) = n \<and> de_type (entry (vsec v s) d (8 * j + e)) = ty \<and>
     (\<forall>k. 8 * i \<le> k \<longrightarrow> k < 8 * j + e \<longrightarrow> \<not> de_is name (entry (vsec v s) d k))"
proof (induction "m - i" arbitrary: i)
  case (Suc q)
  let ?D = "vsec v s"
  have im: "i < m" "q = m - Suc i" using Suc.hyps(2) by simp_all
  obtain l b where sec: "dir_sector v d i s = Inr (l, b)"
    using Suc.prems by (auto simp: upt_conv_Cons [OF im(1)] split: sum.splits)
  note S = dir_sector_Inr [OF sec]
  have E: "entry ?D d (8 * i + e') = dent_of b e'" if "e' < 8" for e' using entry_split [OF that] S by simp
  have P: "de_is name (dent_of b e') = (dent_ino b e' \<noteq> 0 \<and> mwfs_name_eq (dent_name b e') name)" for e' by (simp add: de_is_def dent_of_def)
  show ?case
  proof (cases "dir_find_sector name b")
    case None
    hence none: "\<forall>e' < 8. \<not> de_is name (dent_of b e')" using find_first(2) [OF None [unfolded dir_find_sector_def]] P by simp
    have "dir_find_from v d [Suc i..<m] name s = Inr (n, ty, lba, e)" using Suc.prems sec None by (simp add: upt_conv_Cons [OF im(1)])
    from Suc.hyps(1) [OF im(2) this] obtain j where j: "Suc i \<le> j" "j < m" "e < 8" "lba = val ?D d (slot_of j)" "lba \<noteq> 0"
      "de_is name (entry ?D d (8 * j + e))" "de_ino (entry ?D d (8 * j + e)) = n" "de_type (entry ?D d (8 * j + e)) = ty"
      "\<And>k. 8 * Suc i \<le> k \<Longrightarrow> k < 8 * j + e \<Longrightarrow> \<not> de_is name (entry ?D d k)" by blast
    have "\<not> de_is name (entry ?D d k)" if "8 * i \<le> k" "k < 8 * j + e" for k
    proof (cases "8 * Suc i \<le> k")
      case False
      hence "k = 8 * i + (k - 8 * i)" "k - 8 * i < 8" using that(1) by simp_all
      thus ?thesis using E none by metis
    qed (use j(9) that(2) in blast)
    thus ?thesis using j Suc_leD by blast
  next
    case (Some e0)
    have f: "e0 < 8" "de_is name (dent_of b e0)" "\<And>e'. e' < e0 \<Longrightarrow> \<not> de_is name (dent_of b e')"
      using find_first(1) [OF Some [unfolded dir_find_sector_def]] P by auto
    have r: "e = e0" "lba = l" "n = dent_ino b e0" "ty = dent_type b e0" using Suc.prems sec Some by (auto simp: upt_conv_Cons [OF im(1)])
    have "\<not> de_is name (entry ?D d k)" if "8 * i \<le> k" "k < 8 * i + e0" for k
    proof -
      have "k = 8 * i + (k - 8 * i)" "k - 8 * i < e0" using that by simp_all
      thus ?thesis using E [of "k - 8 * i"] f by (metis less_trans)
    qed
    thus ?thesis using S r f(1,2) E [OF f(1)] im(1) by (intro exI [of _ i]) (simp add: dent_of_def)
  qed
qed simp

lemma dir_find_from_NOENT:
  "dir_find_from v d [i..<m] name s = Inl MWFS_E_NOENT \<Longrightarrow> 8 * i \<le> k \<Longrightarrow> k < 8 * m \<Longrightarrow> \<not> de_is name (entry (vsec v s) d k)"
proof (induction "m - i" arbitrary: i)
  case (Suc q)
  let ?D = "vsec v s"
  have im: "i < m" "q = m - Suc i" using Suc.hyps(2) by simp_all
  have "\<exists>l b. dir_sector v d i s = Inr (l, b)"
    using Suc.prems(1) by (auto simp: upt_conv_Cons [OF im(1)] split: sum.splits dest: dir_sector_Inl)
  then obtain l b where sec: "dir_sector v d i s = Inr (l, b)" by blast
  note S = dir_sector_Inr [OF sec]
  have n: "dir_find_sector name b = None" "dir_find_from v d [Suc i..<m] name s = Inl MWFS_E_NOENT"
    using Suc.prems(1) sec by (auto simp: upt_conv_Cons [OF im(1)] split: option.splits)
  show ?case
  proof (cases "8 * Suc i \<le> k")
    case True thus ?thesis using Suc.hyps(1) [OF im(2) n(2)] Suc.prems(3) by simp
  next
    case False
    hence k: "k = 8 * i + (k - 8 * i)" "k - 8 * i < 8" using Suc.prems(2) by simp_all
    have "\<not> de_is name (dent_of b (k - 8 * i))" using find_first(2) n(1) k(2) by (auto simp: dir_find_sector_def de_is_def dent_of_def)
    moreover have "entry ?D d k = dent_of b (k - 8 * i)" using entry_split [OF k(2), of ?D d i] S k(1) by simp
    ultimately show ?thesis by simp
  qed
qed simp

text \<open>The first entry of a directory that has a name.\<close>

definition hit :: "dirent list \<Rightarrow> bytes \<Rightarrow> nat \<Rightarrow> bool" where
  "hit L name k \<longleftrightarrow> k < length L \<and> de_is name (L ! k) \<and> (\<forall>k' < k. \<not> de_is name (L ! k'))"

lemma hit_find: "hit L name k \<Longrightarrow> find (de_is name) L = Some (L ! k)" by (auto simp: hit_def find_Some_iff)

lemma dir_find_hit:
  assumes d: "dir_ok (vsec v s) d" and f: "dir_find_from v d (dir_range d) name s = Inr (n, ty, lba, e)"
  shows "\<exists>j. j < i_size d div 512 \<and> e < 8 \<and> lba = val (vsec v s) d (slot_of j) \<and> lba \<noteq> 0 \<and> hit (ents (vsec v s) d) name (8 * j + e) \<and>
    de_ino (ents (vsec v s) d ! (8 * j + e)) = n \<and> de_type (ents (vsec v s) d ! (8 * j + e)) = ty"
proof -
  let ?D = "vsec v s"
  obtain j where j: "j < i_size d div 512" "e < 8" "lba = val ?D d (slot_of j)" "lba \<noteq> 0"
      "de_is name (entry ?D d (8 * j + e))" "de_ino (entry ?D d (8 * j + e)) = n" "de_type (entry ?D d (8 * j + e)) = ty"
      "\<And>k. k < 8 * j + e \<Longrightarrow> \<not> de_is name (entry ?D d k)"
    using dir_find_from_Inr [OF f [unfolded dir_range [OF d]]] by auto
  have k: "8 * j + e < 8 * (i_size d div 512)" using j(1,2) by linarith
  have "hit (ents ?D d) name (8 * j + e)" unfolding hit_def
  proof (intro conjI allI impI)
    fix k' assume "k' < 8 * j + e"
    thus "\<not> de_is name (ents ?D d ! k')" using j(8) nth_ents [of k' d ?D] k by simp
  qed (use k j(5) nth_ents [OF k] in simp_all)
  thus ?thesis using j(1-4,6,7) nth_ents [OF k, of ?D] by (intro exI [of _ j]) simp
qed

lemma dir_find_absent:
  assumes d: "dir_ok (vsec v s) d" and f: "dir_find_from v d (dir_range d) name s = Inl MWFS_E_NOENT"
  shows "find (de_is name) (ents (vsec v s) d) = None"
proof -
  have "\<not> de_is name (ents (vsec v s) d ! k)" if "k < 8 * (i_size d div 512)" for k
    using dir_find_from_NOENT [OF f [unfolded dir_range [OF d]], of k] that nth_ents [OF that] by simp
  thus ?thesis by (auto simp: find_None_iff in_set_conv_nth)
qed

text \<open>On a device that works every lookup succeeds or says there is no such name.\<close>

lemma calm_sector:
  assumes c: "calm s" and p: "ptrs_ok v (vsec v s) d" and i: "i < file_max" "val (vsec v s) d (slot_of i) \<noteq> 0"
  shows "dir_sector v d i s = Inr (val (vsec v s) d (slot_of i), sec_at (vsec v s) d i)"
  using calm_lookup [OF c p i(1)] calm_rd [OF c, of "val (vsec v s) d (slot_of i)" v] ptrs_okD(2) [OF p i(2)] i(2)
  by (simp add: dir_sector_def sec_at_def is_data_def Let_def)

lemma calm_find_from:
  assumes "calm s" "ptrs_ok v (vsec v s) d" "\<forall>i \<in> set is. i < file_max \<and> val (vsec v s) d (slot_of i) \<noteq> 0"
    "dir_find_from v d is name s = Inl e"
  shows "e = MWFS_E_NOENT"
  using assms(3,4) by (induction "is") (auto simp: calm_sector [OF assms(1,2)] split: option.splits)

lemma calm_lookup_name:
  assumes c: "calm s" and v: "vol_ok v" and n: "dino \<noteq> 0" "dino < v_inodes v" and t: "d = inode v (vsec v s) dino" "i_type d = MWFS_T_DIR"
    and p: "ptrs_ok v (vsec v s) d" and d: "dir_ok (vsec v s) d" and sz: "i_size d \<le> 512 * file_max"
  shows "mwfs_dir_lookup v dino name s =
    (case find (de_is name) (ents (vsec v s) d) of None \<Rightarrow> Inl MWFS_E_NOENT | Some e \<Rightarrow> Inr (de_ino e, de_type e))"
proof -
  have f: "mwfs_dir_find v dino name s = dir_find_from v d (dir_range d) name s"
    using calm_ino_get [OF v c n] t by (simp add: mwfs_dir_find_def dir_inode_def)
  have r: "\<forall>i \<in> set (dir_range d). i < file_max \<and> val (vsec v s) d (slot_of i) \<noteq> 0"
    using d sz by (auto simp: dir_range [OF d] dir_ok_def less_eq_div_iff_mult_less_eq)
  show ?thesis
  proof (cases "dir_find_from v d (dir_range d) name s")
    case (Inl e)
    have "e = MWFS_E_NOENT" by (rule calm_find_from [OF c p r Inl])
    thus ?thesis using Inl f dir_find_absent [OF d] by (simp add: mwfs_dir_lookup_def)
  next
    case (Inr q)
    obtain n ty lba e where q: "q = (n, ty, lba, e)" by (cases q) auto
    show ?thesis using Inr dir_find_hit [OF d Inr [unfolded q]] hit_find f q by (fastforce simp: mwfs_dir_lookup_def)
  qed
qed


subsection \<open>The tree of names\<close>

text \<open>
  The tree without its disk: the live inodes R, their types T and the entries E of the directories. Every entry names a live
  inode of its type, and no inode has two names.
\<close>

definition link :: "nat set \<Rightarrow> (nat \<Rightarrow> nat) \<Rightarrow> (nat \<Rightarrow> dirent list) \<Rightarrow> nat \<Rightarrow> nat \<Rightarrow> nat \<Rightarrow> bool" where
  "link R T E d k n \<longleftrightarrow> d \<in> R \<and> T d = MWFS_T_DIR \<and> k < length (E d) \<and> de_ino (E d ! k) = n \<and> n \<noteq> 0"

definition tree_ok :: "nat set \<Rightarrow> (nat \<Rightarrow> nat) \<Rightarrow> (nat \<Rightarrow> dirent list) \<Rightarrow> bool" where
  "tree_ok R T E \<longleftrightarrow> 1 \<in> R \<and> 0 \<notin> R \<and> T 1 = MWFS_T_DIR \<and>
     (\<forall>d k n. link R T E d k n \<longrightarrow> n \<in> R \<and> n \<noteq> 1 \<and> de_type (E d ! k) = T n) \<and>
     (\<forall>d k d' k' n. link R T E d k n \<longrightarrow> link R T E d' k' n \<longrightarrow> d = d' \<and> k = k') \<and>
     (\<forall>d k k' n n'. link R T E d k n \<longrightarrow> link R T E d k' n' \<longrightarrow> mwfs_name_eq (de_name (E d ! k)) (de_name (E d ! k')) \<longrightarrow> k = k')"

lemma tree_okD:
  assumes "tree_ok R T E"
  shows "1 \<in> R" "0 \<notin> R" "T 1 = MWFS_T_DIR" "link R T E d k n \<Longrightarrow> n \<in> R" "link R T E d k n \<Longrightarrow> n \<noteq> 1"
    "link R T E d k n \<Longrightarrow> de_type (E d ! k) = T n" "link R T E d k n \<Longrightarrow> link R T E d' k' n \<Longrightarrow> d = d' \<and> k = k'"
    "link R T E d k n \<Longrightarrow> link R T E d k' n' \<Longrightarrow> mwfs_name_eq (de_name (E d ! k)) (de_name (E d ! k')) \<Longrightarrow> k = k'"
  using assms unfolding tree_ok_def by blast+

lemma tree_weaken:
  assumes t: "tree_ok R T E" and R: "R' \<subseteq> R" "1 \<in> R'" and T: "\<And>n. n \<in> R' \<Longrightarrow> T' n = T n"
    and l: "\<And>d k n. link R' T' E' d k n \<Longrightarrow> link R T E d k n \<and> n \<in> R' \<and> E' d ! k = E d ! k"
  shows "tree_ok R' T' E'"
  unfolding tree_ok_def
proof (intro conjI allI impI)
  show "0 \<notin> R'" using tree_okD(2) [OF t] R by blast
  show "T' 1 = MWFS_T_DIR" using T [OF R(2)] tree_okD(3) [OF t] by simp
  show "1 \<in> R'" by (rule R(2))
next
  fix d k n assume a: "link R' T' E' d k n"
  show "n \<in> R'" using l [OF a] by blast
  thus "de_type (E' d ! k) = T' n" using l [OF a] tree_okD(6) [OF t, of d k n] T by simp
  show "n \<noteq> 1" using l [OF a] tree_okD(5) [OF t] by blast
next
  fix d k d' k' n assume "link R' T' E' d k n" "link R' T' E' d' k' n"
  hence "link R T E d k n" "link R T E d' k' n" using l by blast+
  thus "d = d'" "k = k'" using tree_okD(7) [OF t] by blast+
next
  fix d k k' n n' assume a: "link R' T' E' d k n" "link R' T' E' d k' n'" "mwfs_name_eq (de_name (E' d ! k)) (de_name (E' d ! k'))"
  thus "k = k'" using tree_okD(8) [OF t, of d k n k' n'] l [OF a(1)] l [OF a(2)] by simp
qed

text \<open>No names inside: a file, or an empty directory.\<close>

definition childless :: "(nat \<Rightarrow> nat) \<Rightarrow> (nat \<Rightarrow> dirent list) \<Rightarrow> nat \<Rightarrow> bool" where
  "childless T E n \<longleftrightarrow> (T n = MWFS_T_DIR \<longrightarrow> (\<forall>e \<in> set (E n). de_ino e = 0))"

lemma childless_link: "childless T E n \<Longrightarrow> \<not> link R T E n k m" by (auto simp: childless_def link_def)

text \<open>One entry is replaced: what it named leaves the tree, what it names now enters it.\<close>

lemma tree_set:
  assumes t: "tree_ok R T E" and d: "d \<in> R" "T d = MWFS_T_DIR" "k < length (E d)"
    and old: "de_ino (E d ! k) \<noteq> 0 \<Longrightarrow> childless T E (de_ino (E d ! k))"
    and new: "de_ino x \<noteq> 0 \<Longrightarrow> de_ino x \<notin> R \<and> de_type x = T' (de_ino x) \<and> childless T' E' (de_ino x)"
    and name: "\<And>k' n. de_ino x \<noteq> 0 \<Longrightarrow> link R T E d k' n \<Longrightarrow> k' \<noteq> k \<Longrightarrow> \<not> mwfs_name_eq (de_name (E d ! k')) (de_name x)"
    and T: "\<And>n. n \<in> R \<Longrightarrow> T' n = T n" and E: "E' d = (E d)[k := x]" "\<And>n. n \<in> R \<Longrightarrow> n \<noteq> d \<Longrightarrow> E' n = E n"
  shows "tree_ok ((R - {de_ino (E d ! k)}) \<union> ({de_ino x} - {0})) T' E'"
proof -
  let ?o = "de_ino (E d ! k)" let ?n = "de_ino x" let ?R = "(R - {?o}) \<union> ({?n} - {0})"
  note t1 = tree_okD(1-3) [OF t]
  have lo: "?o \<noteq> 0 \<Longrightarrow> link R T E d k ?o" using d by (simp add: link_def)
  have o1: "?o \<noteq> 1"
  proof (cases "?o = 0")
    case False thus ?thesis using tree_okD(5) [OF t lo] by simp
  qed simp
  have od: "?o \<noteq> d"
  proof
    assume e: "?o = d"
    hence "?o \<noteq> 0" using t1(2) d(1) by metis
    thus False using childless_link [OF old] lo e by metis
  qed
  have c: "(d' = d \<and> k' = k \<and> m = ?n \<and> ?n \<noteq> 0) \<or> (link R T E d' k' m \<and> (d' \<noteq> d \<or> k' \<noteq> k) \<and> m \<noteq> ?o \<and> m \<noteq> ?n \<and> E' d' ! k' = E d' ! k')"
    if l: "link ?R T' E' d' k' m" for d' k' m
  proof (cases "d' = d \<and> k' = k")
    case True thus ?thesis using l d(3) E(1) by (auto simp: link_def)
  next
    case False
    have "d' \<noteq> ?n"
    proof
      assume e: "d' = ?n"
      hence "?n \<noteq> 0 \<or> ?n \<in> R" using l by (auto simp: link_def)
      hence "?n \<noteq> 0" using t1(2) by metis
      thus False using childless_link [of T' E' ?n] new l e by blast
    qed
    hence dR: "d' \<in> R" using l by (auto simp: link_def)
    have e: "length (E' d') = length (E d')" "E' d' ! k' = E d' ! k'"
      using E(1) E(2) [OF dR] False by (cases "d' = d"; simp)+
    have l1: "link R T E d' k' m" using l dR e T [OF dR] by (simp add: link_def)
    have "m \<noteq> 0" using l by (simp add: link_def)
    have "m \<noteq> ?o"
    proof
      assume "m = ?o"
      thus False using tree_okD(7) [OF t l1, of d k] lo \<open>m \<noteq> 0\<close> False by metis
    qed
    moreover have "m \<noteq> ?n" using tree_okD(4) [OF t l1] new \<open>m \<noteq> 0\<close> by metis
    ultimately show ?thesis using l1 e(2) False by blast
  qed
  show ?thesis unfolding tree_ok_def
  proof (intro conjI allI impI)
    show "1 \<in> ?R" using t1(1) o1 by simp
    show "0 \<notin> ?R" using t1(2) by simp
    show "T' 1 = MWFS_T_DIR" using T [OF t1(1)] t1(3) by simp
  next
    fix d' k' m assume l: "link ?R T' E' d' k' m"
    have n1: "?n \<noteq> 0 \<Longrightarrow> ?n \<noteq> 1" using new t1(1) by metis
    show "m \<in> ?R" using c [OF l] tree_okD(4) [OF t, of d' k' m] by auto
    show "m \<noteq> 1" using c [OF l] tree_okD(5) [OF t, of d' k' m] n1 by metis
    show "de_type (E' d' ! k') = T' m"
      using c [OF l]
    proof
      assume a: "d' = d \<and> k' = k \<and> m = ?n \<and> ?n \<noteq> 0"
      thus ?thesis using E(1) d(3) new by simp
    next
      assume a: "link R T E d' k' m \<and> (d' \<noteq> d \<or> k' \<noteq> k) \<and> m \<noteq> ?o \<and> m \<noteq> ?n \<and> E' d' ! k' = E d' ! k'"
      hence "m \<in> R" "de_type (E d' ! k') = T m" using tree_okD(4,6) [OF t, of d' k' m] by blast+
      thus ?thesis using a T by simp
    qed
  next
    fix d1 k1 d2 k2 m assume l: "link ?R T' E' d1 k1 m" "link ?R T' E' d2 k2 m"
    have "d1 = d2 \<and> k1 = k2" using c [OF l(1)] c [OF l(2)] tree_okD(7) [OF t, of d1 k1 m d2 k2] by blast
    thus "d1 = d2" "k1 = k2" by blast+
  next
    have x: "E' d ! k = x" using E(1) d(3) by simp
    have sym: "mwfs_name_eq a b \<longleftrightarrow> mwfs_name_eq b a" for a b by (auto simp: name_eq_upper)
    fix d1 k1 k2 m1 m2
    assume l: "link ?R T' E' d1 k1 m1" "link ?R T' E' d1 k2 m2" and e: "mwfs_name_eq (de_name (E' d1 ! k1)) (de_name (E' d1 ! k2))"
    show "k1 = k2"
    proof (cases "d1 = d \<and> (k1 = k \<or> k2 = k)")
      case True
      show ?thesis
      proof (rule ccontr)
        assume ne: "k1 \<noteq> k2"
        show False
        proof (cases "k1 = k")
          case k1: True
          have "de_ino x \<noteq> 0" using l(1) x True k1 by (simp add: link_def)
          moreover have "link R T E d k2 m2" "E' d ! k2 = E d ! k2" using c [OF l(2)] True k1 ne by auto
          ultimately show False using name [of k2 m2] e x sym True k1 ne by metis
        next
          case k1: False
          hence k2: "k2 = k" using True by blast
          have "de_ino x \<noteq> 0" using l(2) x True k2 by (simp add: link_def)
          moreover have "link R T E d k1 m1" "E' d ! k1 = E d ! k1" using c [OF l(1)] True k1 by auto
          ultimately show False using name [of k1 m1] e x True k1 k2 by metis
        qed
      qed
    next
      case False
      hence "link R T E d1 k1 m1" "link R T E d1 k2 m2" "E' d1 ! k1 = E d1 ! k1" "E' d1 ! k2 = E d1 ! k2" using c [OF l(1)] c [OF l(2)] by blast+
      thus ?thesis using tree_okD(8) [OF t, of d1 k1 m1 k2 m2] e by simp
    qed
  qed
qed

text \<open>Free entries at the end of a directory change nothing.\<close>

lemma tree_append:
  assumes t: "tree_ok R T E" and E: "E' d = E d @ xs" "\<forall>e \<in> set xs. de_ino e = 0" "\<And>n. n \<in> R \<Longrightarrow> n \<noteq> d \<Longrightarrow> E' n = E n"
  shows "tree_ok R T E'"
proof (rule tree_weaken [OF t order_refl tree_okD(1) [OF t] refl])
  fix d' k n assume l: "link R T E' d' k n"
  show "link R T E d' k n \<and> n \<in> R \<and> E' d' ! k = E d' ! k"
  proof (cases "d' = d")
    case True
    have "k < length (E d)"
    proof (rule ccontr)
      assume "\<not> k < length (E d)"
      hence "E' d ! k \<in> set xs" using l E(1) True by (auto simp: link_def nth_append intro!: nth_mem)
      thus False using E(2) l True by (auto simp: link_def)
    qed
    hence "link R T E d' k n" using l E(1) True by (simp add: link_def nth_append)
    thus ?thesis using tree_okD(4) [OF t] E(1) True \<open>k < length (E d)\<close> by (simp add: nth_append)
  next
    case False
    hence "link R T E d' k n" using l E(3) [of d'] by (simp add: link_def)
    thus ?thesis using tree_okD(4) [OF t] E(3) [of d'] l False by (auto simp: link_def)
  qed
qed

text \<open>Searching a list of entries after one of them changed.\<close>

lemma find_update_other:
  assumes "k < length L" "\<not> P (L ! k)" "\<not> P x"
  shows "find P (L[k := x]) = find P L"
proof -
  have "find P (xs @ y # ys) = find P (xs @ z # ys)" if "\<not> P y" "\<not> P z" for xs ys y z using that by (induction xs) auto
  thus ?thesis using assms id_take_nth_drop [OF assms(1)] upd_conv_take_nth_drop [OF assms(1), of x] by metis
qed

lemma find_update_first:
  assumes "k < length L" "P x" "\<forall>k' < k. \<not> P (L ! k')"
  shows "find P (L[k := x]) = Some x"
proof -
  have "\<forall>k' < k. \<not> P (L[k := x] ! k')" using assms(3) by simp
  thus ?thesis using assms(1,2) by (auto simp: find_Some_iff intro!: exI [of _ k])
qed

lemma find_none_nth: "find P L = None \<Longrightarrow> k < length L \<Longrightarrow> \<not> P (L ! k)" by (auto simp: find_None_iff)

lemma find_append_none: "\<forall>x \<in> set ys. \<not> P x \<Longrightarrow> find P (xs @ ys) = find P xs" by (induction xs) (auto simp: find_None_iff)


subsection \<open>The file system on the disk\<close>

abbreviation types :: "vol \<Rightarrow> (nat \<Rightarrow> bytes) \<Rightarrow> nat \<Rightarrow> nat" where "types v D n \<equiv> i_type (inode v D n)"
abbreviation dirents :: "vol \<Rightarrow> (nat \<Rightarrow> bytes) \<Rightarrow> nat \<Rightarrow> dirent list" where "dirents v D n \<equiv> ents D (inode v D n)"

definition fs_ok :: "vol \<Rightarrow> (nat \<Rightarrow> bytes) \<Rightarrow> nat set \<Rightarrow> bool" where
  "fs_ok v D R \<longleftrightarrow> live_ok v D R \<and> (\<forall>d \<in> R. types v D d = MWFS_T_DIR \<longrightarrow> dir_ok D (inode v D d)) \<and> tree_ok R (types v D) (dirents v D)"

text \<open>An inode whose sectors were kept has the same entries.\<close>

lemma keeps_dir:
  assumes "keeps v D D' (own D t)" "ptrs_ok v D t"
  shows "ents D' t = ents D t" "dir_ok D' t = dir_ok D t"
  using keeps_val(1,4) [OF assms] by (auto simp: ents_def entry_def dir_ok_def)

lemma same_inodesD:
  assumes l: "live_ok v D R" and s: "same_inodes v D D' R" and n: "n \<in> R"
  shows "inode v D' n = inode v D n" "dirents v D' n = dirents v D n" "dir_ok D' (inode v D n) = dir_ok D (inode v D n)"
    "content D' (inode v D n) = content D (inode v D n)" "own D' (inode v D n) = own D (inode v D n)"
proof -
  have k: "keeps v D D' (own D (inode v D n))" and i: "inode v D' n = inode v D n" using s n by (simp_all add: same_inodes_def)
  note p = live_okD(6) [OF l n]
  show "inode v D' n = inode v D n" by (rule i)
  show "dirents v D' n = dirents v D n" "dir_ok D' (inode v D n) = dir_ok D (inode v D n)" using keeps_dir [OF k p] i by simp_all
  show "content D' (inode v D n) = content D (inode v D n)" "own D' (inode v D n) = own D (inode v D n)" using keeps_val(2,5) [OF k p] by simp_all
qed

lemma tree_cong:
  assumes "\<And>n. n \<in> R \<Longrightarrow> T' n = T n" "\<And>n. n \<in> R \<Longrightarrow> E' n = E n" "tree_ok R T E"
  shows "tree_ok R T' E'"
  by (rule tree_weaken [OF assms(3) order_refl tree_okD(1) [OF assms(3)] assms(1)])
    (use assms tree_okD(4) [OF assms(3)] in \<open>auto simp: link_def\<close>)

lemma fs_same:
  assumes f: "fs_ok v D R" and s: "same_inodes v D D' R"
  shows "fs_ok v D' R"
proof -
  have l: "live_ok v D R" using f by (simp add: fs_ok_def)
  note S = same_inodesD [OF l s]
  have "tree_ok R (types v D') (dirents v D')" by (rule tree_cong [where T = "types v D" and E = "dirents v D"]) (use S f in \<open>simp_all add: fs_ok_def\<close>)
  thus ?thesis using f live_same [OF l s] S by (simp add: fs_ok_def)
qed

subsection \<open>Changing a directory on the disk\<close>

text \<open>The inode d grew in place, its record unchanged.\<close>

lemma growz_live:
  assumes l: "live_ok v D R" and d: "d \<in> R" and g: "growz v S D (inode v D d) D' t'"
  shows "same_inodes v D D' (R - {d})" "inode v D' d = inode v D d" "live_ok v D' R"
proof -
  let ?t = "inode v D d"
  note v = live_okD(1) [OF l] and p = live_okD(6) [OF l d]
  have iv: "n < v_inodes v" if "n \<in> R" for n using live_okD(3) [OF l that] by blast
  have i: "inode v D' n = inode v D n" if "n \<in> R" for n by (rule growz_inode [OF v g p iv [OF that]])
  show "inode v D' d = ?t" by (rule i [OF d])
  have k: "keeps v D D' (own D (inode v D n))" "own D' t' \<inter> own D (inode v D n) = {}" if "n \<in> R - {d}" for n
  proof -
    have "own D (inode v D n) \<inter> own D ?t = {}" using live_okD(7) [OF l, of n d] that d by auto
    from growz_keeps [OF v g live_okD(6) [OF l] this] that show "keeps v D D' (own D (inode v D n))" "own D' t' \<inter> own D (inode v D n) = {}" by auto
  qed
  show s: "same_inodes v D D' (R - {d})" using k i growzD(1) [OF g] by (simp add: same_inodes_def)
  have l': "live_ok v D' (R - {d})" by (rule live_same [OF live_subset [OF l] s]) blast
  note old = growz_old_root [OF v g p]
  have sub: "own D' ?t \<subseteq> own D' t'"
  proof
    fix x assume "x \<in> own D' ?t"
    then obtain a where "val D' ?t a = x" "x \<noteq> 0" by (auto simp: own_def)
    thus "x \<in> own D' t'" using old(2) [of a] own_val [of D' t' a] by auto
  qed
  have "live_ok v D' (insert d (R - {d}))"
  proof (rule live_insert [OF l' _ _ i [OF d]])
    show "own D' ?t \<inter> own D' (inode v D' m) = {}" if "m \<in> R - {d}" "m \<noteq> d" for m
      using sub k(2) [OF that(1)] same_inodesD(1,5) [OF live_subset [OF l] s that(1)] by auto
  qed (use live_okD [OF l] d old(1) in auto)
  moreover have "insert d (R - {d}) = R" using d by auto
  ultimately show "live_ok v D' R" by simp
qed

text \<open>Then its new record is written.\<close>

lemma growz_live_set:
  assumes l: "live_ok v D R" and d: "d \<in> R" and g: "growz v S D (inode v D d) D' t'" and sz: "i_size t' \<le> 512 * file_max"
  shows "same_inodes v D (ino_set v d t' D') (R - {d})" "inode v (ino_set v d t' D') d = t'" "live_ok v (ino_set v d t' D') R"
    "i_type t' = i_type (inode v D d)" "keeps v D' (ino_set v d t' D') (own D' t')"
proof -
  let ?t = "inode v D d" let ?D = "ino_set v d t' D'"
  note v = live_okD(1) [OF l] and p = live_okD(6) [OF l d]
  note G = growz_live [OF l d g]
  have dv: "0 < d" "d < v_inodes v" using live_okD(3) [OF l d] by blast+
  have t': "ptrs_ok v D' t'" by (rule growzD(2) [OF g])
  note I = ino_setD [OF v growzD(1) [OF g] dv(2) ptrs_okD(1) [OF t']]
  show i: "inode v ?D d = t'" using I(2) by simp
  show ty: "i_type t' = i_type ?t" using growzD(8) [OF g] by (simp add: same_meta_def)
  show k: "keeps v D' ?D (own D' t')" by (rule ino_set_keeps [OF v growzD(1) [OF g] dv(2) ptrs_okD(1) [OF t'] t'])
  have l1: "live_ok v D' (R - {d})" using live_subset [OF G(3)] by blast
  have s1: "same_inodes v D' ?D (R - {d})" by (rule ino_set_same [OF l1 dv(2) _ ptrs_okD(1) [OF t']]) simp
  show s: "same_inodes v D ?D (R - {d})" by (rule same_inodes_trans [OF live_subset [OF l] G(1) s1]) blast
  have l2: "live_ok v ?D (R - {d})" by (rule live_same [OF l1 s1])
  have "live_ok v ?D (insert d (R - {d}))"
  proof (rule live_insert [OF l2 dv i])
    show "i_type t' = MWFS_T_FILE \<or> i_type t' = MWFS_T_DIR" using ty live_okD(4) [OF l d] by simp
    show "ptrs_ok v ?D t'" by (rule keeps_val(3) [OF k t'])
    show "own ?D t' \<inter> own ?D (inode v ?D m) = {}" if m: "m \<in> R - {d}" for m
    proof -
      have "own D (inode v D m) \<inter> own D ?t = {}" using live_okD(7) [OF l, of m d] m d by auto
      from growz_keeps(2) [OF v g live_okD(6) [OF l] this] m have "own D' t' \<inter> own D (inode v D m) = {}" by blast
      moreover have "own ?D (inode v ?D m) = own D (inode v D m)" using same_inodesD(1,5) [OF live_subset [OF l] s m] by auto
      ultimately show ?thesis using keeps_val(2) [OF k t'] by simp
    qed
  qed (rule sz)
  moreover have "insert d (R - {d}) = R" using d by auto
  ultimately show "live_ok v ?D R" by simp
qed

text \<open>A step that changed the directory d only: its entries are now L.\<close>

definition dir_step :: "vol \<Rightarrow> (nat \<Rightarrow> bytes) \<Rightarrow> (nat \<Rightarrow> bytes) \<Rightarrow> nat set \<Rightarrow> nat \<Rightarrow> dirent list \<Rightarrow> bool" where
  "dir_step v D D' R d L \<longleftrightarrow> live_ok v D' R \<and> same_inodes v D D' (R - {d}) \<and> types v D' d = MWFS_T_DIR \<and> dir_ok D' (inode v D' d) \<and> dirents v D' d = L"

definition dir_at :: "vol \<Rightarrow> (nat \<Rightarrow> bytes) \<Rightarrow> nat set \<Rightarrow> nat \<Rightarrow> bool" where
  "dir_at v D R d \<longleftrightarrow> live_ok v D R \<and> d \<in> R \<and> types v D d = MWFS_T_DIR \<and> dir_ok D (inode v D d)"

lemma dir_atD:
  assumes "dir_at v D R d"
  shows "live_ok v D R" "d \<in> R" "types v D d = MWFS_T_DIR" "dir_ok D (inode v D d)"
  using assms by (simp_all add: dir_at_def)

lemma dir_step_refl: "dir_at v D R d \<Longrightarrow> dir_step v D D R d (dirents v D d)"
  using same_inodes_subset [OF same_inodes_refl] by (auto simp: dir_step_def dir_at_def)

text \<open>One entry is overwritten.\<close>

lemma entry_write:
  assumes a: "dir_at v D R d" and j: "j < i_size (inode v D d) div 512" "e < 8" and l: "l = val D (inode v D d) (slot_of j)"
    and b: "length b = 512" "\<And>e'. e' < 8 \<Longrightarrow> dent_of b e' = (if e' = e then x else dent_of (D l) e')"
  shows "dir_step v D (D(l := b)) R d ((dirents v D d)[8 * j + e := x])"
proof -
  let ?t = "inode v D d" let ?D = "D(l := b)"
  note A = dir_atD [OF a]
  note v = live_okD(1) [OF A(1)] and s = live_okD(2) [OF A(1)] and p = live_okD(6) [OF A(1,2)]
  have l0: "l \<noteq> 0" using A(4) j(1) l by (simp add: dir_ok_def)
  have sz: "i_size ?t < 2 ^ 32" using ptrs_okD(1) [OF p] by (simp add: ino_ok_def)
  note w = write_slot [OF v s p l [symmetric] l0 b(1) sz singletonI, unfolded ino_size_twice]
  note G = growz_live [OF A(1,2) w(1)]
  have val: "val ?D ?t (slot_of i) = val D ?t (slot_of i)" if "i < i_size ?t div 512" for i
    using growzD(5) [OF w(1), of "slot_of i"] A(4) that by (simp add: dir_ok_def)
  have sec: "sec_at ?D ?t i = (if i = j then b else sec_at D ?t i)" for i
    using w(2) growz_sec [OF v w(1) p, of i] slot_of_inj [of i j] by auto
  have Dl: "D l = sec_at D ?t j" using l l0 by (simp add: sec_at_def)
  have "ents ?D ?t = (ents D ?t)[8 * j + e := x]"
  proof (rule nth_equalityI)
    fix k assume "k < length (ents ?D ?t)"
    hence k: "k < 8 * (i_size ?t div 512)" by simp
    have eq: "k = 8 * j + e \<longleftrightarrow> k div 8 = j \<and> k mod 8 = e" using j(2) by auto
    show "ents ?D ?t ! k = (ents D ?t)[8 * j + e := x] ! k"
      using k sec [of "k div 8"] b(2) [of "k mod 8"] Dl eq by (auto simp: nth_list_update nth_ents entry_def)
  qed simp
  thus ?thesis using G A val by (simp add: dir_step_def dir_ok_def)
qed


lemma dir_inode_Inr: "dir_inode v dino s = Inr d \<Longrightarrow> d = inode v (vsec v s) dino \<and> i_type d = MWFS_T_DIR"
  by (auto simp: dir_inode_def split: option.splits if_splits dest: ino_get_Some)

lemma find_Inr:
  assumes d: "dir_ok (vsec v s) (inode v (vsec v s) dino)" and f: "mwfs_dir_find v dino name s = Inr (n, ty, lba, e)"
  shows "\<exists>j. j < i_size (inode v (vsec v s) dino) div 512 \<and> e < 8 \<and> lba = val (vsec v s) (inode v (vsec v s) dino) (slot_of j) \<and> lba \<noteq> 0 \<and>
    hit (dirents v (vsec v s) dino) name (8 * j + e) \<and> de_ino (dirents v (vsec v s) dino ! (8 * j + e)) = n \<and>
    de_type (dirents v (vsec v s) dino ! (8 * j + e)) = ty"
proof -
  obtain t where t: "dir_inode v dino s = Inr t" using f by (auto simp: mwfs_dir_find_def split: sum.splits)
  have "t = inode v (vsec v s) dino" using dir_inode_Inr [OF t] by blast
  thus ?thesis using dir_find_hit [OF d] f t by (simp add: mwfs_dir_find_def)
qed

lemma find_NOENT:
  assumes d: "dir_ok (vsec v s) (inode v (vsec v s) dino)" and f: "mwfs_dir_find v dino name s = Inl MWFS_E_NOENT"
  shows "find (de_is name) (dirents v (vsec v s) dino) = None"
proof -
  obtain t where t: "dir_inode v dino s = Inr t"
    using f by (auto simp: mwfs_dir_find_def dir_inode_def split: sum.splits option.splits if_splits)
  have "t = inode v (vsec v s) dino" using dir_inode_Inr [OF t] by blast
  thus ?thesis using dir_find_absent [OF d] f t by (simp add: mwfs_dir_find_def)
qed

lemma find_Inl: "mwfs_dir_find v d name s = Inl x \<Longrightarrow> x \<noteq> MWFS_OK"
proof -
  have "dir_find_from v t is name s = Inl x \<Longrightarrow> x \<noteq> MWFS_OK" for t "is"
    by (induction "is") (auto split: sum.splits option.splits dest: dir_sector_Inl)
  thus "mwfs_dir_find v d name s = Inl x \<Longrightarrow> x \<noteq> MWFS_OK"
    by (auto simp: mwfs_dir_find_def dir_inode_def split: sum.splits option.splits if_splits)
qed

text \<open>Rewriting the entry a name was found in.\<close>

lemma dir_edit_ok:
  assumes a: "dir_at v (vsec v s) R d" and r: "dir_edit v d name upd s = (e, s')"
    and u: "\<And>b x. length b = 512 \<Longrightarrow> x < 8 \<Longrightarrow> length (upd b x) = 512 \<and> (\<forall>y < 8. dent_of (upd b x) y = (if y = x then f (dent_of b x) else dent_of b y))"
  shows "blk_rd s' = blk_rd s" "blk_wr s' = blk_wr s" "e \<noteq> MWFS_OK \<Longrightarrow> vsec v s' = vsec v s"
    "e = MWFS_OK \<Longrightarrow> \<exists>k. hit (dirents v (vsec v s) d) name k \<and>
       dir_step v (vsec v s) (vsec v s') R d ((dirents v (vsec v s) d)[k := f (dirents v (vsec v s) d ! k)])"
proof -
  let ?D = "vsec v s"
  note A = dir_atD [OF a]
  note v = live_okD(1) [OF A(1)] and so = live_okD(2) [OF A(1)]
  have "blk_rd s' = blk_rd s \<and> blk_wr s' = blk_wr s \<and> (e \<noteq> MWFS_OK \<longrightarrow> vsec v s' = vsec v s) \<and>
    (e = MWFS_OK \<longrightarrow> (\<exists>k. hit (dirents v ?D d) name k \<and> dir_step v ?D (vsec v s') R d ((dirents v ?D d)[k := f (dirents v ?D d ! k)])))"
  proof (cases "mwfs_dir_find v d name s")
    case (Inl x)
    have "x \<noteq> MWFS_OK" by (rule find_Inl [OF Inl])
    thus ?thesis using r Inl by (auto simp: dir_edit_def)
  next
    case (Inr q)
    obtain n ty lba en where q: "q = (n, ty, lba, en)" by (cases q) auto
    obtain j where j: "j < i_size (inode v ?D d) div 512" "en < 8" "lba = val ?D (inode v ?D d) (slot_of j)" "hit (dirents v ?D d) name (8 * j + en)"
      using find_Inr [OF A(4) Inr [unfolded q]] by blast
    show ?thesis
    proof (cases "mwfs_rd v lba s")
      case None thus ?thesis using r Inr q by (auto simp: dir_edit_def)
    next
      case (Some b)
      have b: "b = ?D lba" "length b = 512" using rd_Some [OF Some] so by (auto simp: secs_ok_def)
      obtain ok s1 where w: "mwfs_wr v lba (upd b en) s = (ok, s1)" by fastforce
      have es: "e = (if ok then MWFS_OK else MWFS_E_IO)" "s' = s1" using r Inr q Some w by (auto simp: dir_edit_def wr_result_def)
      note W = wr_cases [OF w v]
      note U = u [OF b(2) j(2)]
      have k: "8 * j + en < 8 * (i_size (inode v ?D d) div 512)" using j(1,2) by linarith
      have D: "?D lba = sec_at ?D (inode v ?D d) j"
        using j(1,3) A(4) by (auto simp: sec_at_def dir_ok_def Let_def)
      have "dirents v ?D d ! (8 * j + en) = dent_of b en" using nth_ents [OF k, of ?D] entry_split [OF j(2), of ?D _ j] D b(1) by simp
      hence "dir_step v ?D (?D(lba := upd b en)) R d ((dirents v ?D d)[8 * j + en := f (dirents v ?D d ! (8 * j + en))])"
        using entry_write [OF a j(1-3), of "upd b en"] U b(1) by simp
      hence "ok \<Longrightarrow> dir_step v ?D (vsec v s') R d ((dirents v ?D d)[8 * j + en := f (dirents v ?D d ! (8 * j + en))])"
        using W(1) es(2) by simp
      thus ?thesis using W es j(4) by auto
    qed
  qed
  thus "blk_rd s' = blk_rd s" "blk_wr s' = blk_wr s" "e \<noteq> MWFS_OK \<Longrightarrow> vsec v s' = vsec v s"
    "e = MWFS_OK \<Longrightarrow> \<exists>k. hit (dirents v ?D d) name k \<and> dir_step v ?D (vsec v s') R d ((dirents v ?D d)[k := f (dirents v ?D d ! k)])" by blast+
qed

lemma retarget_upd:
  assumes "n < 2 ^ 32" "length b = 512" "x < 8"
  shows "length (blit b (x * MWFS_DENT_SIZE) (mwfs_put n)) = 512 \<and>
    (\<forall>y < 8. dent_of (blit b (x * MWFS_DENT_SIZE) (mwfs_put n)) y = (if y = x then (dent_of b x)\<lparr>de_ino := n\<rparr> else dent_of b y))"
  using dent_retarget [OF assms(2,3) _ assms(1)] assms(2,3) by (simp add: MWFS_DENT_SIZE_def)

lemma remove_upd:
  assumes "length b = 512" "x < 8"
  shows "length (blit b (x * MWFS_DENT_SIZE) (mwfs_zeros MWFS_DENT_SIZE)) = 512 \<and>
    (\<forall>y < 8. dent_of (blit b (x * MWFS_DENT_SIZE) (mwfs_zeros MWFS_DENT_SIZE)) y =
      (if y = x then dent_of (mwfs_zeros 64) 0 else dent_of b y))"
  using dent_blit [OF assms(1) _ assms(2), of "mwfs_zeros 64"] assms by (simp add: MWFS_DENT_SIZE_def)

lemma retarget_ok:
  assumes "dir_at v (vsec v s) R d" "mwfs_dir_retarget v d name n s = (e, s')" "n < 2 ^ 32"
  shows "blk_rd s' = blk_rd s" "blk_wr s' = blk_wr s" "e \<noteq> MWFS_OK \<Longrightarrow> vsec v s' = vsec v s"
    "e = MWFS_OK \<Longrightarrow> \<exists>k. hit (dirents v (vsec v s) d) name k \<and>
       dir_step v (vsec v s) (vsec v s') R d ((dirents v (vsec v s) d)[k := (dirents v (vsec v s) d ! k)\<lparr>de_ino := n\<rparr>])"
  by (rule dir_edit_ok [OF assms(1) assms(2) [unfolded mwfs_dir_retarget_def]], erule (1) retarget_upd [OF assms(3)], assumption?)+

lemma remove_ok:
  assumes "dir_at v (vsec v s) R d" "mwfs_dir_remove v d name s = (e, s')"
  shows "blk_rd s' = blk_rd s" "blk_wr s' = blk_wr s" "e \<noteq> MWFS_OK \<Longrightarrow> vsec v s' = vsec v s"
    "e = MWFS_OK \<Longrightarrow> \<exists>k. hit (dirents v (vsec v s) d) name k \<and>
       dir_step v (vsec v s) (vsec v s') R d ((dirents v (vsec v s) d)[k := dent_of (mwfs_zeros 64) 0])"
  by (rule dir_edit_ok [OF assms(1) assms(2) [unfolded mwfs_dir_remove_def], where f = "\<lambda>_. dent_of (mwfs_zeros 64) 0"],
    erule (1) remove_upd, assumption?)+

text \<open>Filling a free entry of a sector the directory has.\<close>

lemma add_from_ok:
  assumes a: "dir_at v (vsec v s) R d" and ent: "length ent = 64"
  shows "i \<le> i_size (inode v (vsec v s) d) div 512 \<Longrightarrow> m = i_size (inode v (vsec v s) d) div 512 \<Longrightarrow>
    dir_add_from v (inode v (vsec v s) d) [i..<m] ent s = Some (e, s') \<Longrightarrow>
    blk_rd s' = blk_rd s \<and> blk_wr s' = blk_wr s \<and> (e \<noteq> MWFS_OK \<longrightarrow> vsec v s' = vsec v s) \<and>
    (e = MWFS_OK \<longrightarrow> (\<exists>k < 8 * m. de_ino (dirents v (vsec v s) d ! k) = 0 \<and>
       dir_step v (vsec v s) (vsec v s') R d ((dirents v (vsec v s) d)[k := dent_of ent 0])))"
proof (induction "m - i" arbitrary: i)
  case (Suc q)
  let ?D = "vsec v s" let ?t = "inode v ?D d"
  note A = dir_atD [OF a]
  note v = live_okD(1) [OF A(1)] and so = live_okD(2) [OF A(1)]
  have im: "i < m" "q = m - Suc i" using Suc.hyps(2) by simp_all
  show ?case
  proof (cases "dir_sector v ?t i s")
    case (Inl x)
    thus ?thesis using Suc.prems(3) dir_sector_Inl [OF Inl] by (auto simp: upt_conv_Cons [OF im(1)])
  next
    case (Inr y)
    obtain lba b where y: "y = (lba, b)" by (cases y) auto
    note S = dir_sector_Inr [OF Inr [unfolded y]]
    show ?thesis
    proof (cases "find (\<lambda>e. dent_ino b e = 0) [0..<8]")
      case None
      hence "dir_add_from v ?t [Suc i..<m] ent s = Some (e, s')" using Suc.prems(3) Inr y by (simp add: upt_conv_Cons [OF im(1)])
      thus ?thesis using Suc.hyps(1) [OF im(2)] Suc.prems(2) im(1) by simp
    next
      case (Some en)
      note F = find_first(1) [OF Some]
      have en: "en < 8" "dent_ino b en = 0" using F by blast+
      obtain ok s1 where w: "mwfs_wr v lba (blit b (en * MWFS_DENT_SIZE) ent) s = (ok, s1)" by fastforce
      have es: "e = (if ok then MWFS_OK else MWFS_E_IO)" "s' = s1"
        using Suc.prems(3) Inr y Some w by (auto simp: upt_conv_Cons [OF im(1)] wr_result_def)
      note W = wr_cases [OF w v]
      have bl: "?D lba = b" using S by metis
      have lb: "length b = 512" using sec_at_length [OF so live_okD(6) [OF A(1,2)]] S by simp
      have j: "i < i_size ?t div 512" using im(1) Suc.prems(2) by simp
      have k: "8 * i + en < 8 * (i_size ?t div 512)" using j en(1) by linarith
      have z: "de_ino (dirents v ?D d ! (8 * i + en)) = 0"
        using nth_ents [OF k, of ?D] entry_split [OF en(1), of ?D ?t i] S en(2) by (simp add: dent_of_def)
      have "dir_step v ?D (?D(lba := blit b (en * MWFS_DENT_SIZE) ent)) R d ((dirents v ?D d)[8 * i + en := dent_of ent 0])"
      proof (rule entry_write [OF a j en(1)])
        show "lba = val ?D ?t (slot_of i)" using S by blast
        show "length (blit b (en * MWFS_DENT_SIZE) ent) = 512" using lb ent en(1) by (simp add: MWFS_DENT_SIZE_def)
        show "dent_of (blit b (en * MWFS_DENT_SIZE) ent) x = (if x = en then dent_of ent 0 else dent_of (?D lba) x)" if "x < 8" for x
          using dent_blit [OF lb ent en(1) that] bl by (simp add: MWFS_DENT_SIZE_def)
      qed
      hence "ok \<Longrightarrow> dir_step v ?D (vsec v s') R d ((dirents v ?D d)[8 * i + en := dent_of ent 0])" using W(1) es(2) by simp
      thus ?thesis using W es z k Suc.prems(2) by auto
    qed
  qed
qed simp


text \<open>The sectors a directory had before it grew, read through its old and its new record.\<close>

lemma growz_dir:
  assumes v: "vol_ok v" and p: "ptrs_ok v D t" and g: "growz v (slots_from (i_size t div 512)) D t D' t'" and d: "dir_ok D t"
    and i: "i < i_size t div 512"
  shows "val D' t' (slot_of i) \<noteq> 0" "sec_at D' t' i = sec_at D t i" "val D' t (slot_of i) \<noteq> 0" "sec_at D' t i = sec_at D t i"
proof -
  have n: "val D t (slot_of i) \<noteq> 0" using d i by (simp add: dir_ok_def)
  have e: "val D' t' (slot_of i) = val D t (slot_of i)" "val D' t (slot_of i) = val D t (slot_of i)"
    using growzD(5) [OF g n] growz_old_root(3) [OF v g p n] by blast+
  show "val D' t' (slot_of i) \<noteq> 0" "val D' t (slot_of i) \<noteq> 0" using n e by simp_all
  show s: "sec_at D' t' i = sec_at D t i" by (rule growz_sec [OF v g p slot_not_from [OF i]])
  thus "sec_at D' t i = sec_at D t i" using e by (simp add: sec_at_def)
qed

lemma growz_ents:
  assumes v: "vol_ok v" and p: "ptrs_ok v D t" and g: "growz v (slots_from (i_size t div 512)) D t D' t'" and d: "dir_ok D t"
  shows "ents D' t = ents D t" "dir_ok D' t" "i_size t' = i_size t \<Longrightarrow> ents D' t' = ents D t" "i_size t' = i_size t \<Longrightarrow> dir_ok D' t'"
proof -
  note G = growz_dir [OF v p g d]
  have k: "k div 8 < i_size t div 512" if "k < 8 * (i_size t div 512)" for k using that by (simp add: div_less_iff_less_mult mult.commute)
  show "ents D' t = ents D t" using G(4) k by (simp add: ents_def entry_def)
  show "dir_ok D' t" using G(3) d by (simp add: dir_ok_def)
  show "i_size t' = i_size t \<Longrightarrow> ents D' t' = ents D t" using G(2) k by (simp add: ents_def entry_def)
  show "i_size t' = i_size t \<Longrightarrow> dir_ok D' t'" using G(1) d by (simp add: dir_ok_def)
qed

text \<open>The new sector of a directory: one entry, then free ones.\<close>

lemma new_sector_ents:
  assumes "length ent = 64" "e < 8"
  shows "dent_of (ent @ mwfs_zeros 448) e = (if e = 0 then dent_of ent 0 else dent_of (mwfs_zeros 64) 0)"
proof -
  have "slice (e * 64) 64 (ent @ mwfs_zeros 448) = mwfs_zeros 64" if "e \<noteq> 0"
  proof -
    have "64 \<le> e * 64" "e * 64 - 64 + 64 \<le> 448" using that assms(2) by linarith+
    thus ?thesis using assms(1) by (simp add: slice_def mwfs_zeros_def)
  qed
  moreover have "e * 64 + 64 \<le> 512" using assms(2) by linarith
  ultimately show ?thesis using assms(1) by (auto intro!: dent_of_cong)
qed

lemma sec_from_bytes:
  assumes "secs_ok v D" "ptrs_ok v D t" "pos mod 512 = 0" "length b = 512" "\<forall>q < 512. byte_at D t (pos + q) = b ! q"
  shows "sec_at D t (pos div 512) = b"
proof (rule nth_equalityI)
  show l: "length (sec_at D t (pos div 512)) = length b" using sec_at_length [OF assms(1,2)] assms(4) by simp
  fix q assume "q < length (sec_at D t (pos div 512))"
  hence q: "q < 512" using l assms(4) by simp
  have "(pos + q) div 512 = pos div 512" "(pos + q) mod 512 = q" using assms(3) q by auto
  thus "sec_at D t (pos div 512) ! q = b ! q" using assms(5) q by (auto simp: byte_at_def)
qed

lemma grown_ents:
  assumes v: "vol_ok v" and p: "ptrs_ok v D t" and g: "growz v (slots_from (i_size t div 512)) D t D' t'" and d: "dir_ok D t"
    and sz: "i_size t' = i_size t + 512" and ent: "length ent = 64" "de_ino (dent_of ent 0) \<noteq> 0"
    and bt: "\<forall>q < 512. byte_at D' t' (i_size t + q) = (ent @ mwfs_zeros 448) ! q"
  shows "ents D' t' = (ents D t @ replicate 8 (dent_of (mwfs_zeros 64) 0))[length (ents D t) := dent_of ent 0]" "dir_ok D' t'"
proof -
  let ?m = "i_size t div 512"
  have m0: "i_size t mod 512 = 0" using d by (simp add: dir_ok_def)
  have sec: "sec_at D' t' ?m = ent @ mwfs_zeros 448"
    by (rule sec_from_bytes [OF growzD(1,2) [OF g] m0]) (use ent(1) bt in simp_all)
  note N = new_sector_ents [OF ent(1)]
  note G = growz_dir [OF v p g d]
  have m': "i_size t' div 512 = ?m + 1" "i_size t' mod 512 = 0" using sz m0 by simp_all
  have "val D' t' (slot_of ?m) \<noteq> 0"
  proof
    assume "val D' t' (slot_of ?m) = 0"
    hence "sec_at D' t' ?m = mwfs_zeros 512" by (simp add: sec_at_def)
    hence "de_ino (dent_of ent 0) = de_ino (dent_of (mwfs_zeros 512) 0)" using N [of 0] sec by simp
    thus False using ent(2) by (simp add: dent_of_def dent_ino_def mwfs_le_zeros)
  qed
  thus "dir_ok D' t'" using G(1) m' by (auto simp: dir_ok_def less_Suc_eq)
  show "ents D' t' = (ents D t @ replicate 8 (dent_of (mwfs_zeros 64) 0))[length (ents D t) := dent_of ent 0]"
  proof (rule nth_equalityI)
    fix k assume "k < length (ents D' t')"
    hence k: "k < 8 * (?m + 1)" using m' by simp
    show "ents D' t' ! k = (ents D t @ replicate 8 (dent_of (mwfs_zeros 64) 0))[length (ents D t) := dent_of ent 0] ! k"
    proof (cases "k < 8 * ?m")
      case True
      hence "k div 8 < ?m" by (simp add: div_less_iff_less_mult mult.commute)
      thus ?thesis using True k m' G(2) [of "k div 8"] by (simp add: nth_ents nth_append entry_def)
    next
      case False
      hence e: "k = 8 * ?m + (k - 8 * ?m)" "k - 8 * ?m < 8" using k by simp_all
      have "ents D' t' ! k = dent_of (sec_at D' t' ?m) (k - 8 * ?m)"
        using nth_ents [of k t' D'] k m' entry_split [OF e(2), of D' t' ?m] e(1) by simp
      also have "\<dots> = (if k - 8 * ?m = 0 then dent_of ent 0 else dent_of (mwfs_zeros 64) 0)" unfolding sec by (rule N [OF e(2)])
      finally show ?thesis using False k e(2) by (auto simp: nth_append nth_list_update)
    qed
  qed (simp add: m')
qed


text \<open>The directory grows by a sector.\<close>

lemma dir_grow_ok:
  assumes a: "dir_at v (vsec v s) R d" and ent: "length ent = 64" "de_ino (dent_of ent 0) \<noteq> 0"
    and w: "mwfs_pwrite v (inode v (vsec v s) d) (i_size (inode v (vsec v s) d)) (ent @ mwfs_zeros 448) s = (e, t', v', s1)"
    and p: "mwfs_ino_put v' d t' s1 = (ok, s')"
  shows "same_geo v v'" "blk_rd s' = blk_rd s" "blk_wr s' = blk_wr s"
    "\<not> ok \<or> e \<noteq> MWFS_OK \<Longrightarrow> dir_step v (vsec v s) (vsec v s') R d (dirents v (vsec v s) d)"
    "ok \<Longrightarrow> e = MWFS_OK \<Longrightarrow> dir_step v (vsec v s) (vsec v s') R d
       ((dirents v (vsec v s) d @ replicate 8 (dent_of (mwfs_zeros 64) 0))[length (dirents v (vsec v s) d) := dent_of ent 0])"
proof -
  let ?D = "vsec v s" let ?t = "inode v ?D d" let ?D1 = "vsec v s1" let ?data = "ent @ mwfs_zeros 448"
  note A = dir_atD [OF a]
  note v = live_okD(1) [OF A(1)] and so = live_okD(2) [OF A(1)] and pt = live_okD(6) [OF A(1,2)]
  have ne: "?data \<noteq> []" and ld: "length ?data = 512" using ent(1) by auto
  have m0: "i_size ?t mod 512 = 0" using A(4) by (simp add: dir_ok_def)
  have W: "pwrite_spec v (i_size ?t) ?data s ?t (e, t', v', s1)" using pwrite_ok [OF v so pt, of "i_size ?t" ?data] w by simp
  note P = pwrite_specD [OF W]
  note g = P(1)
  have fail: "e \<noteq> MWFS_OK \<Longrightarrow> i_size t' = i_size ?t" using W m0 ld by (simp add: pwrite_spec_def)
  have sok: "e = MWFS_OK \<Longrightarrow> i_size t' = i_size ?t + 512 \<and> i_size ?t + 512 \<le> 512 * file_max \<and>
      (\<forall>q < 512. byte_at ?D1 t' (i_size ?t + q) = ?data ! q)" using P(5) ne ld by simp
  have sz: "i_size t' \<le> 512 * file_max"
  proof (cases "e = MWFS_OK")
    case True thus ?thesis using sok by simp
  next
    case False thus ?thesis using fail live_okD(5) [OF A(1,2)] by simp
  qed
  note sg = same_geoD [OF P(2)] and vc = view_cong [OF P(2)]
  have v': "vol_ok v'" using sg v by simp
  note IP = ino_put_cases [OF p v']
  have D': "vsec v s' = (if ok then ino_set v d t' ?D1 else ?D1)" using IP(1) sg by (simp add: ino_set_def)
  show "same_geo v v'" "blk_rd s' = blk_rd s" "blk_wr s' = blk_wr s" using P IP by simp_all
  note E = growz_ents [OF v pt g A(4)]
  note L = growz_live [OF A(1,2) g] and LS = growz_live_set [OF A(1,2) g sz]
  note K = keeps_dir [OF LS(5) growzD(2) [OF g]]
  show "dir_step v ?D (vsec v s') R d (dirents v ?D d)" if "\<not> ok \<or> e \<noteq> MWFS_OK"
  proof (cases ok)
    case False thus ?thesis using D' L E(1,2) A(3) by (simp add: dir_step_def)
  next
    case True
    hence "i_size t' = i_size ?t" using that fail by simp
    thus ?thesis using True D' LS E(3,4) K A(3) by (simp add: dir_step_def)
  qed
  show "dir_step v ?D (vsec v s') R d ((dirents v ?D d @ replicate 8 (dent_of (mwfs_zeros 64) 0))[length (dirents v ?D d) := dent_of ent 0])"
    if "ok" "e = MWFS_OK"
  proof -
    have "i_size t' = i_size ?t + 512" "\<forall>q < 512. byte_at ?D1 t' (i_size ?t + q) = ?data ! q" using sok [OF that(2)] by blast+
    note N = grown_ents [OF v pt g A(4) this(1) ent this(2)]
    show ?thesis using that D' LS N K A(3) by (simp add: dir_step_def)
  qed
qed

text \<open>mwfs_dir_add: nothing, or the name's entry in a place that was free.\<close>

lemma dir_add_ok:
  assumes a: "dir_at v (vsec v s) R d" and n: "n \<noteq> 0" "n < 2 ^ 32" "ty < 256" and r: "mwfs_dir_add v d name n ty s = (e, v', s')"
  shows "same_geo v v'" "blk_rd s' = blk_rd s" "blk_wr s' = blk_wr s"
    "e \<noteq> MWFS_OK \<Longrightarrow> dir_step v (vsec v s) (vsec v s') R d (dirents v (vsec v s) d)"
    "e = MWFS_OK \<Longrightarrow> find (de_is name) (dirents v (vsec v s) d) = None \<and> mwfs_name_ok name \<and>
       (\<exists>k xs. (\<forall>x \<in> set xs. de_ino x = 0) \<and> k < length (dirents v (vsec v s) d @ xs) \<and> de_ino ((dirents v (vsec v s) d @ xs) ! k) = 0 \<and>
          dir_step v (vsec v s) (vsec v s') R d ((dirents v (vsec v s) d @ xs)[k := \<lparr>de_ino = n, de_type = ty, de_name = name\<rparr>]))"
proof -
  let ?D = "vsec v s" let ?t = "inode v ?D d" let ?ent = "mwfs_dent_fill n ty name"
  note A = dir_atD [OF a]
  note quiet = dir_step_refl [OF a]
  have "same_geo v v' \<and> blk_rd s' = blk_rd s \<and> blk_wr s' = blk_wr s \<and> (e \<noteq> MWFS_OK \<longrightarrow> dir_step v ?D (vsec v s') R d (dirents v ?D d)) \<and>
    (e = MWFS_OK \<longrightarrow> find (de_is name) (dirents v ?D d) = None \<and> mwfs_name_ok name \<and>
       (\<exists>k xs. (\<forall>x \<in> set xs. de_ino x = 0) \<and> k < length (dirents v ?D d @ xs) \<and> de_ino ((dirents v ?D d @ xs) ! k) = 0 \<and>
          dir_step v ?D (vsec v s') R d ((dirents v ?D d @ xs)[k := \<lparr>de_ino = n, de_type = ty, de_name = name\<rparr>])))"
  proof (cases "mwfs_name_ok name")
    case False thus ?thesis using r quiet by (auto simp: mwfs_dir_add_def)
  next
    case nm: True
    show ?thesis
    proof (cases "dir_inode v d s")
      case (Inl x)
      hence "x = MWFS_E_IO \<or> x = MWFS_E_NOTDIR" by (auto simp: dir_inode_def split: option.splits if_splits)
      thus ?thesis using r quiet Inl nm by (auto simp: mwfs_dir_add_def)
    next
      case (Inr t)
      have t: "t = ?t" using dir_inode_Inr [OF Inr] by blast
      show ?thesis
      proof (cases "mwfs_dir_find v d name s = Inl MWFS_E_NOENT")
        case False
        have "e \<noteq> MWFS_OK \<and> v' = v \<and> s' = s"
        proof (cases "mwfs_dir_find v d name s")
          case (Inl x)
          have "x \<noteq> MWFS_OK" by (rule find_Inl [OF Inl])
          thus ?thesis using r nm Inr Inl False by (auto simp: mwfs_dir_add_def)
        qed (use r nm Inr in \<open>auto simp: mwfs_dir_add_def\<close>)
        thus ?thesis using quiet by simp
      next
        case abs: True
        have none: "find (de_is name) (dirents v ?D d) = None" by (rule find_NOENT [OF A(4) abs])
        have fill: "dent_of ?ent 0 = \<lparr>de_ino = n, de_type = ty, de_name = name\<rparr>" by (rule dent_fill [OF n(2,3) nm])
        show ?thesis
        proof (cases "dir_add_from v ?t (dir_range ?t) ?ent s")
          case (Some q)
          obtain e1 s1 where q: "q = (e1, s1)" by (cases q) auto
          have es: "e1 = e" "s1 = s'" "v' = v" using r nm Inr t abs Some q by (simp_all add: mwfs_dir_add_def Let_def)
          note F = add_from_ok [OF a length_dent_fill le0 refl Some [unfolded q dir_range [OF A(4)]], unfolded es fill]
          show ?thesis
          proof (cases "e = MWFS_OK")
            case True
            then obtain k where "k < 8 * (i_size ?t div 512)" "de_ino (dirents v ?D d ! k) = 0"
              "dir_step v ?D (vsec v s') R d ((dirents v ?D d)[k := \<lparr>de_ino = n, de_type = ty, de_name = name\<rparr>])" using F by blast
            thus ?thesis using F True none nm es(3) by (auto intro!: exI [of _ k] exI [of _ "[]"])
          next
            case False thus ?thesis using F quiet es(3) by simp
          qed
        next
          case None
          obtain e1 t' v1 s1 where w: "mwfs_pwrite v ?t (i_size ?t) (?ent @ mwfs_zeros 448) s = (e1, t', v1, s1)"
            by (cases "mwfs_pwrite v ?t (i_size ?t) (?ent @ mwfs_zeros 448) s") auto
          obtain ok s2 where p: "mwfs_ino_put v1 d t' s1 = (ok, s2)" by fastforce
          have es: "e = (if \<not> ok \<and> e1 = MWFS_OK then MWFS_E_IO else e1)" "v' = v1" "s' = s2"
            using r nm Inr t abs None w p by (simp_all add: mwfs_dir_add_def Let_def MWFS_DENT_SIZE_def)
          have "de_ino (dent_of ?ent 0) \<noteq> 0" using fill n(1) by simp
          note G = dir_grow_ok [OF a length_dent_fill this w p, unfolded fill]
          show ?thesis
          proof (cases "e = MWFS_OK")
            case True
            hence o: "ok" "e1 = MWFS_OK" using es(1) by (auto split: if_splits)
            let ?xs = "replicate 8 (dent_of (mwfs_zeros 64) 0)"
            have "\<forall>x \<in> set ?xs. de_ino x = 0" using dent_zeros by simp
            moreover have "(dirents v ?D d @ ?xs) ! length (dirents v ?D d) = dent_of (mwfs_zeros 64) 0" by (simp add: nth_append)
            ultimately show ?thesis using G(1-3) G(5) [OF o] True none nm es(2,3) dent_zeros
              by (intro conjI impI exI [of _ "length (dirents v ?D d)"] exI [of _ ?xs]) simp_all
          next
            case False
            hence "\<not> ok \<or> e1 \<noteq> MWFS_OK" using es(1) by (auto split: if_splits)
            thus ?thesis using G False es(2,3) by simp
          qed
        qed
      qed
    qed
  qed
  thus "same_geo v v'" "blk_rd s' = blk_rd s" "blk_wr s' = blk_wr s"
    "e \<noteq> MWFS_OK \<Longrightarrow> dir_step v ?D (vsec v s') R d (dirents v ?D d)"
    "e = MWFS_OK \<Longrightarrow> find (de_is name) (dirents v ?D d) = None \<and> mwfs_name_ok name \<and>
       (\<exists>k xs. (\<forall>x \<in> set xs. de_ino x = 0) \<and> k < length (dirents v ?D d @ xs) \<and> de_ino ((dirents v ?D d @ xs) ! k) = 0 \<and>
          dir_step v ?D (vsec v s') R d ((dirents v ?D d @ xs)[k := \<lparr>de_ino = n, de_type = ty, de_name = name\<rparr>]))" by blast+
qed


subsection \<open>What a reader finds\<close>

datatype node = File bytes | Dir nat

definition look :: "vol \<Rightarrow> (nat \<Rightarrow> bytes) \<Rightarrow> nat \<Rightarrow> bytes \<Rightarrow> node option" where
  "look v D d name = (if types v D d \<noteq> MWFS_T_DIR then None
     else map_option (\<lambda>x. if de_type x = MWFS_T_DIR then Dir (de_ino x) else File (content D (inode v D (de_ino x)))) (find (de_is name) (dirents v D d)))"

text \<open>The same through the code, on a device that works again.\<close>

definition working :: "blk \<Rightarrow> blk" where "working s = s\<lparr>blk_rd := \<lambda>_ _ _. True\<rparr>"

definition saved :: "vol \<Rightarrow> blk \<Rightarrow> nat \<Rightarrow> bytes \<Rightarrow> node option" where
  "saved v s d name =
     (case mwfs_dir_lookup v d name (working s) of
        Inl _ \<Rightarrow> None
      | Inr (n, ty) \<Rightarrow>
        if ty = MWFS_T_DIR then Some (Dir n)
        else let (e, _, b) = mwfs_file_get v n (512 * file_max) (working s) in if e = MWFS_OK then Some (File b) else None)"

lemma working [simp]: "calm (working s)" "vsec v (working s) = vsec v s"
  by (simp_all add: working_def calm_def vsec_def fun_eq_iff)

lemma length_content [simp]: "length (content D t) = i_size t" by (simp add: content_def)

lemma fs_okD:
  assumes "fs_ok v D R"
  shows "live_ok v D R" "d \<in> R \<Longrightarrow> types v D d = MWFS_T_DIR \<Longrightarrow> dir_ok D (inode v D d)" "tree_ok R (types v D) (dirents v D)"
  using assms by (simp_all add: fs_ok_def)

lemma find_link:
  assumes "find (de_is name) (dirents v D d) = Some x" "d \<in> R" "types v D d = MWFS_T_DIR"
  shows "\<exists>k. link R (types v D) (dirents v D) d k (de_ino x) \<and> dirents v D d ! k = x"
proof -
  obtain k where "k < length (dirents v D d)" "dirents v D d ! k = x" "de_is name x" using assms(1) by (auto simp: find_Some_iff)
  thus ?thesis using assms(2,3) by (auto simp: link_def de_is_def)
qed

lemma file_get_calm:
  assumes l: "live_ok v D R" and n: "n \<in> R" and t: "types v D n = MWFS_T_FILE" and s: "vsec v s = D" "calm s"
  shows "mwfs_file_get v n (512 * file_max) s = (MWFS_OK, Some (i_size (inode v D n)), content D (inode v D n))"
proof -
  have g: "mwfs_ino_get v n s = Some (inode v D n)" using calm_ino_get [OF live_okD(1) [OF l] s(2)] live_okD(3) [OF l n] s(1) by simp
  have z: "i_size (inode v D n) = 0 \<Longrightarrow> content D (inode v D n) = []" by (simp add: content_def)
  have "mwfs_pread v (inode v D n) 0 (i_size (inode v D n)) s = Some (content D (inode v D n))"
    using pread_calm [OF s(2), of v "inode v D n"] live_okD(2,5,6) [OF l] n s(1) by simp
  thus ?thesis using g t z live_okD(5) [OF l n] by (simp add: mwfs_file_get_def)
qed

lemma saved_look:
  assumes f: "fs_ok v (vsec v s) R" and d: "d \<in> R"
  shows "saved v s d name = look v (vsec v s) d name"
proof -
  let ?D = "vsec v s"
  note F = fs_okD [OF f]
  note v = live_okD(1) [OF F(1)]
  have dv: "0 < d" "d < v_inodes v" using live_okD(3) [OF F(1) d] by blast+
  show ?thesis
  proof (cases "types v ?D d = MWFS_T_DIR")
    case False
    have "dir_inode v d (working s) = Inl MWFS_E_NOTDIR" using calm_ino_get [OF v, of "working s" d] dv False by (simp add: dir_inode_def)
    thus ?thesis using False by (simp add: saved_def look_def mwfs_dir_lookup_def mwfs_dir_find_def)
  next
    case True
    have L: "mwfs_dir_lookup v d name (working s) =
        (case find (de_is name) (dirents v ?D d) of None \<Rightarrow> Inl MWFS_E_NOENT | Some e \<Rightarrow> Inr (de_ino e, de_type e))"
      using calm_lookup_name [OF working(1) v _ dv(2), of "inode v ?D d" s] dv True live_okD(5,6) [OF F(1) d] F(2) [OF d True] by simp
    show ?thesis
    proof (cases "find (de_is name) (dirents v ?D d)")
      case None thus ?thesis using L True by (simp add: saved_def look_def)
    next
      case (Some x)
      obtain k where k: "link R (types v ?D) (dirents v ?D) d k (de_ino x)" "dirents v ?D d ! k = x" using find_link [OF Some d True] by blast
      have x: "de_ino x \<in> R" "de_type x = types v ?D (de_ino x)" using tree_okD(4,6) [OF F(3) k(1)] k(2) by simp_all
      show ?thesis
      proof (cases "de_type x = MWFS_T_DIR")
        case False
        hence "types v ?D (de_ino x) = MWFS_T_FILE" using live_okD(4) [OF F(1) x(1)] x(2) by simp
        thus ?thesis using file_get_calm [OF F(1) x(1), of "working s"] L Some True False by (simp add: saved_def look_def)
      qed (use L Some True in \<open>simp add: saved_def look_def\<close>)
    qed
  qed
qed

text \<open>A search that stays within inodes that did not change finds the same.\<close>

lemma look_same:
  assumes f: "fs_ok v D R" and s: "same_inodes v D D' R" and d: "d \<in> R"
  shows "look v D' d name = look v D d name"
proof -
  note F = fs_okD [OF f]
  note S = same_inodesD [OF F(1) s]
  show ?thesis
  proof (cases "types v D d = MWFS_T_DIR \<and> find (de_is name) (dirents v D d) \<noteq> None")
    case True
    then obtain x where x: "find (de_is name) (dirents v D d) = Some x" by blast
    obtain k where "link R (types v D) (dirents v D) d k (de_ino x)" using find_link [OF x d] True by blast
    hence "de_ino x \<in> R" by (rule tree_okD(4) [OF F(3)])
    thus ?thesis using S d x by (simp add: look_def)
  qed (use S d in \<open>auto simp: look_def\<close>)
qed

text \<open>One entry of the directory d changed, perhaps after it grew.\<close>

lemma fs_dir_step:
  assumes f: "fs_ok v D R" and q: "live_ok v D Q" "R \<subseteq> Q" and d: "d \<in> R" "types v D d = MWFS_T_DIR"
    and s: "dir_step v D D' Q d ((dirents v D d @ xs)[k := x])" and k: "k < length (dirents v D d @ xs)" and xs: "\<forall>y \<in> set xs. de_ino y = 0"
    and old: "de_ino ((dirents v D d @ xs) ! k) \<noteq> 0 \<Longrightarrow> childless (types v D) (dirents v D) (de_ino ((dirents v D d @ xs) ! k))"
    and new: "de_ino x \<noteq> 0 \<Longrightarrow> de_ino x \<in> Q - R \<and> de_type x = types v D (de_ino x) \<and>
      childless (types v D) (dirents v D) (de_ino x) \<and> (types v D (de_ino x) = MWFS_T_DIR \<longrightarrow> dir_ok D (inode v D (de_ino x)))"
    and name: "\<And>k'. de_ino x \<noteq> 0 \<Longrightarrow> k' < length (dirents v D d @ xs) \<Longrightarrow> k' \<noteq> k \<Longrightarrow> \<not> de_is (de_name x) ((dirents v D d @ xs) ! k')"
  shows "fs_ok v D' ((R - {de_ino ((dirents v D d @ xs) ! k)}) \<union> ({de_ino x} - {0}))"
proof -
  let ?L = "dirents v D d @ xs" let ?R = "(R - {de_ino (?L ! k)}) \<union> ({de_ino x} - {0})"
  note F = fs_okD [OF f]
  have st: "live_ok v D' Q" "same_inodes v D D' (Q - {d})" "types v D' d = MWFS_T_DIR" "dir_ok D' (inode v D' d)" "dirents v D' d = ?L[k := x]"
    using s by (simp_all add: dir_step_def)
  have lq: "live_ok v D (Q - {d})" using live_subset [OF q(1)] by blast
  note S = same_inodesD [OF lq st(2)]
  let ?E = "(dirents v D)(d := ?L)"
  have t1: "tree_ok R (types v D) ?E"
  proof (rule tree_append [where d = d and E = "dirents v D" and xs = xs, OF F(3)])
    show "?E d = dirents v D d @ xs" by (rule fun_upd_same)
    show "?E n = dirents v D n" if "n \<noteq> d" for n using that by (rule fun_upd_other)
  qed (rule xs)
  have xd: "de_ino x \<noteq> 0 \<Longrightarrow> de_ino x \<noteq> d" using new d(1) by blast
  have ty: "types v D' n = types v D n" if "n \<in> Q" for n using S(1) [of n] st(3) d(2) that by (cases "n = d") simp_all
  have "tree_ok ((R - {de_ino (?E d ! k)}) \<union> ({de_ino x} - {0})) (types v D') (dirents v D')"
  proof (rule tree_set [OF t1 d])
    show "childless (types v D) ?E (de_ino (?E d ! k))" if "de_ino (?E d ! k) \<noteq> 0"
    proof (cases "de_ino (?L ! k) = d")
      case True
      have "childless (types v D) (dirents v D) d" using old that unfolding fun_upd_same True by blast
      hence "childless (types v D) ?E d" using xs by (simp add: childless_def ball_Un)
      thus ?thesis unfolding fun_upd_same True .
    next
      case False
      have "childless (types v D) (dirents v D) (de_ino (?L ! k))" using old that unfolding fun_upd_same .
      thus ?thesis unfolding fun_upd_same childless_def fun_upd_other [OF False] .
    qed
    show "de_ino x \<notin> R \<and> de_type x = types v D' (de_ino x) \<and> childless (types v D') (dirents v D') (de_ino x)" if "de_ino x \<noteq> 0"
    proof -
      note N = new [OF that]
      have xq: "de_ino x \<in> Q - {d}" using N xd [OF that] by blast
      have e: "inode v D' (de_ino x) = inode v D (de_ino x)" "dirents v D' (de_ino x) = dirents v D (de_ino x)" using S(1,2) [OF xq] by blast+
      note e2 = e(2) [unfolded e(1)]
      have "childless (types v D') (dirents v D') (de_ino x)" using N unfolding childless_def e(1) e2 by blast
      thus ?thesis using N unfolding e(1) by blast
    qed
    show "\<not> mwfs_name_eq (de_name (?E d ! k')) (de_name x)" if "de_ino x \<noteq> 0" "link R (types v D) ?E d k' n" "k' \<noteq> k" for k' n
      using name [OF that(1) _ that(3)] that(2) unfolding link_def fun_upd_same de_is_def by blast
    show "types v D' n = types v D n" if "n \<in> R" for n using ty that q(2) by blast
    show "dirents v D' n = ?E n" if "n \<in> R" "n \<noteq> d" for n using S(2) that q(2) by auto
  qed (use k st(5) in simp_all)
  hence tr: "tree_ok ?R (types v D') (dirents v D')" by simp
  have sub: "?R \<subseteq> Q" using q(2) new by auto
  have "dir_ok D' (inode v D' n)" if n: "n \<in> ?R" "types v D' n = MWFS_T_DIR" for n
  proof (cases "n = d")
    case False
    have nq: "n \<in> Q - {d}" using n(1) sub False by blast
    have "dir_ok D (inode v D n)" using F(2) new ty n nq by auto
    thus ?thesis using S(1,3) [OF nq] by simp
  qed (use st(4) in simp)
  thus ?thesis using live_subset [OF st(1) sub] tr by (simp add: fs_ok_def)
qed

text \<open>No entry changed.\<close>

lemma fs_dir_quiet:
  assumes f: "fs_ok v D R" and q: "live_ok v D Q" "R \<subseteq> Q" and d: "d \<in> R" "types v D d = MWFS_T_DIR" and s: "dir_step v D D' Q d (dirents v D d)"
  shows "fs_ok v D' R"
proof -
  note F = fs_okD [OF f]
  have st: "live_ok v D' Q" "same_inodes v D D' (Q - {d})" "types v D' d = MWFS_T_DIR" "dir_ok D' (inode v D' d)" "dirents v D' d = dirents v D d"
    using s by (simp_all add: dir_step_def)
  note S = same_inodesD [OF live_subset [OF q(1) Diff_subset] st(2)]
  have ty: "types v D' n = types v D n \<and> dirents v D' n = dirents v D n" if "n \<in> R" for n
    using S(1,2) [of n] st(3,5) d(2) that q(2) by (cases "n = d") auto
  have "dir_ok D' (inode v D' n)" if n: "n \<in> R" "types v D' n = MWFS_T_DIR" for n
  proof (cases "n = d")
    case False
    hence "n \<in> Q - {d}" using n(1) q(2) by blast
    thus ?thesis using S(1,3) [of n] F(2) [OF n(1)] ty [OF n(1)] n(2) by simp
  qed (use st(4) in simp)
  moreover have "tree_ok R (types v D') (dirents v D')" by (rule tree_cong [OF _ _ F(3)]) (use ty in simp_all)
  ultimately show ?thesis using live_subset [OF st(1) q(2)] by (simp add: fs_ok_def)
qed

text \<open>After a step on d a search that ends at the same entry finds the same.\<close>

lemma look_step:
  assumes f: "fs_ok v D R" and q: "live_ok v D Q" "R \<subseteq> Q" and t: "types v D d = MWFS_T_DIR" and s: "dir_step v D D' Q d L"
    and d': "d' \<in> R" and e: "d' = d \<Longrightarrow> find (de_is name) L = find (de_is name) (dirents v D d)"
  shows "look v D' d' name = look v D d' name"
proof -
  note F = fs_okD [OF f]
  have st: "same_inodes v D D' (Q - {d})" "types v D' d = MWFS_T_DIR" "dirents v D' d = L" using s by (simp_all add: dir_step_def)
  note S = same_inodesD [OF live_subset [OF q(1) Diff_subset] st(1)]
  have td: "types v D' d' = types v D d'" "find (de_is name) (dirents v D' d') = find (de_is name) (dirents v D d')"
    using S(1,2) [of d'] d' q(2) st(2,3) t e by (cases "d' = d"; auto)+
  show ?thesis
  proof (cases "types v D d' = MWFS_T_DIR \<and> find (de_is name) (dirents v D d') \<noteq> None")
    case True
    then obtain x where x: "find (de_is name) (dirents v D d') = Some x" by blast
    obtain k where k: "link R (types v D) (dirents v D) d' k (de_ino x)" "dirents v D d' ! k = x" using find_link [OF x d'] True by blast
    have xr: "de_ino x \<in> R" "de_type x = types v D (de_ino x)" using tree_okD(4,6) [OF F(3) k(1)] k(2) by simp_all
    show ?thesis
    proof (cases "de_type x = MWFS_T_DIR")
      case False
      hence "de_ino x \<noteq> d" using xr(2) t by auto
      hence "de_ino x \<in> Q - {d}" using xr(1) q(2) by blast
      thus ?thesis using S(1,4) td x False by (simp add: look_def)
    qed (use td x in \<open>simp add: look_def\<close>)
  qed (use td in \<open>auto simp: look_def\<close>)
qed

end
