(* ===== verification/Mwfs_Save.thy ===== *)
theory Mwfs_Save
  imports Mwfs_Tree
begin

text \<open>
  The operations on whole files and names: each is done completely or leaves every file and directory as it was, when any read
  or write of the device may fail. A power cut is the case where every write from some point on fails.
\<close>

subsection \<open>Saving a file\<close>

lemma geo_cong:
  assumes "same_geo v v'"
  shows "inode v' = inode v" "live_ok v' = live_ok v" "same_inodes v' = same_inodes v" "fs_ok v' = fs_ok v" "look v' = look v"
    "vsec v' = vsec v" "vol_ok v' = vol_ok v"
proof -
  note G = same_geoD [OF assms] view_cong [OF assms]
  show i: "inode v' = inode v" using G by (simp add: fun_eq_iff inode_def)
  have k: "keeps v' = keeps v" using G by (simp add: fun_eq_iff keeps_def)
  show l: "live_ok v' = live_ok v" using G i by (simp add: fun_eq_iff live_ok_def)
  show "same_inodes v' = same_inodes v" using G i k by (simp add: fun_eq_iff same_inodes_def)
  show "fs_ok v' = fs_ok v" using i l by (simp add: fun_eq_iff fs_ok_def)
  show "look v' = look v" by (intro ext) (simp only: look_def i)
  show "vsec v' = vsec v" "vol_ok v' = vol_ok v" using G by blast+
qed

text \<open>What a step that should make name in d the node nd promises: all of it or nothing, and every other name in every
  other directory stays; only the directory that was at that name may go. A directory that is new has no names.\<close>

definition put_spec :: "vol \<Rightarrow> (nat \<Rightarrow> bytes) \<Rightarrow> nat set \<Rightarrow> nat \<Rightarrow> bytes \<Rightarrow> node option \<Rightarrow> bool \<Rightarrow> (nat \<Rightarrow> bytes) \<Rightarrow> bool" where
  "put_spec v D R d name nd ok D' \<longleftrightarrow> (\<exists>R'. fs_ok v D' R' \<and>
     (\<forall>d' \<in> R. types v D d' = MWFS_T_DIR \<longrightarrow> \<not> (ok \<and> look v D d name = Some (Dir d')) \<longrightarrow> d' \<in> R' \<and> types v D' d' = MWFS_T_DIR \<and>
       (\<forall>name'. look v D' d' name' = (if ok \<and> d' = d \<and> mwfs_name_eq name' name then nd else look v D d' name'))) \<and>
     (\<forall>m. ok \<longrightarrow> nd = Some (Dir m) \<longrightarrow> m \<in> R' \<and> types v D' m = MWFS_T_DIR \<and> (\<forall>name'. look v D' m name' = None)))"

lemma put_specI:
  assumes "fs_ok v D' R'" "\<And>d'. d' \<in> R \<Longrightarrow> types v D d' = MWFS_T_DIR \<Longrightarrow> \<not> (ok \<and> look v D d name = Some (Dir d')) \<Longrightarrow> d' \<in> R' \<and> types v D' d' = MWFS_T_DIR"
    "\<And>d' name'. d' \<in> R \<Longrightarrow> types v D d' = MWFS_T_DIR \<Longrightarrow> \<not> (ok \<and> look v D d name = Some (Dir d')) \<Longrightarrow>
       look v D' d' name' = (if ok \<and> d' = d \<and> mwfs_name_eq name' name then nd else look v D d' name')"
    "\<And>m. ok \<Longrightarrow> nd = Some (Dir m) \<Longrightarrow> m \<in> R' \<and> types v D' m = MWFS_T_DIR \<and> (\<forall>name'. look v D' m name' = None)"
  shows "put_spec v D R d name nd ok D'"
  unfolding put_spec_def using assms(1,2,4) by (intro exI [of _ R'] conjI ballI allI impI) (blast | rule assms(3))+

text \<open>Nothing.\<close>

lemma put_none:
  assumes f: "fs_ok v D R" and s: "same_inodes v D D' R"
  shows "put_spec v D R d name nd False D'"
  by (rule put_specI [OF fs_same [OF f s]]) (use look_same [OF f s] same_inodesD(1) [OF fs_okD(1) [OF f] s] in simp_all)

lemma put_spec_cong:
  assumes p: "put_spec v D1 R d name nd ok D'" and S: "\<And>n. n \<in> R \<Longrightarrow> types v D1 n = types v D n"
    and L: "\<And>n name'. n \<in> R \<Longrightarrow> look v D1 n name' = look v D n name'" and d: "d \<in> R"
  shows "put_spec v D R d name nd ok D'"
proof -
  obtain R' where R: "fs_ok v D' R'" "\<And>d'. d' \<in> R \<Longrightarrow> types v D1 d' = MWFS_T_DIR \<Longrightarrow> \<not> (ok \<and> look v D1 d name = Some (Dir d')) \<Longrightarrow>
      d' \<in> R' \<and> types v D' d' = MWFS_T_DIR \<and>
      (\<forall>name'. look v D' d' name' = (if ok \<and> d' = d \<and> mwfs_name_eq name' name then nd else look v D1 d' name'))"
    "\<And>m. ok \<Longrightarrow> nd = Some (Dir m) \<Longrightarrow> m \<in> R' \<and> types v D' m = MWFS_T_DIR \<and> (\<forall>name'. look v D' m name' = None)"
    using p unfolding put_spec_def by blast
  have P: "d' \<in> R' \<and> types v D' d' = MWFS_T_DIR \<and>
      (\<forall>name'. look v D' d' name' = (if ok \<and> d' = d \<and> mwfs_name_eq name' name then nd else look v D d' name'))"
    if "d' \<in> R" "types v D d' = MWFS_T_DIR" "\<not> (ok \<and> look v D d name = Some (Dir d'))" for d'
    using R(2) [OF that(1), unfolded S [OF that(1)] L [OF d], OF that(2,3)] L [OF that(1)] by simp
  show ?thesis by (rule put_specI [OF R(1)]) (use P R(3) in blast)+
qed

lemma put_spec_same:
  assumes f: "fs_ok v D R" and s: "same_inodes v D D1 R" and d: "d \<in> R" and p: "put_spec v D1 R d name nd ok D'"
  shows "put_spec v D R d name nd ok D'"
  by (rule put_spec_cong [OF p _ look_same [OF f s] d]) (use same_inodesD(1) [OF fs_okD(1) [OF f] s] in simp_all)

lemma de_is_eq: "mwfs_name_eq name' name \<Longrightarrow> de_is name' = de_is name" by (auto simp: fun_eq_iff de_is_def name_eq_upper)

lemma not_named: "\<not> mwfs_name_eq name' name \<Longrightarrow> de_is name x \<Longrightarrow> \<not> de_is name' (x\<lparr>de_ino := m\<rparr>)"
  by (auto simp: de_is_def name_eq_upper)

lemma hit_unique: "hit L name k \<Longrightarrow> hit L name k' \<Longrightarrow> k = k'" by (metis hit_def linorder_neqE_nat)

text \<open>The name is retargeted to the inode n, and the inode it had is released.\<close>

lemma install_retarget:
  assumes f: "fs_ok v (vsec v s) R" and n: "n \<notin> R" "live_ok v (vsec v s) (insert n R)" "types v (vsec v s) n = MWFS_T_FILE"
    and d: "d \<in> R" "types v (vsec v s) d = MWFS_T_DIR"
    and k: "hit (dirents v (vsec v s) d) name k" "de_ino (dirents v (vsec v s) d ! k) = old" "de_type (dirents v (vsec v s) d ! k) \<noteq> MWFS_T_DIR"
    and r: "mwfs_dir_retarget v d name n s = (e, s1)"
  shows "e = MWFS_OK \<Longrightarrow> put_spec v (vsec v s) R d name (Some (File (content (vsec v s) (inode v (vsec v s) n)))) True (vsec v (mwfs_ino_release v old s1))"
    "e \<noteq> MWFS_OK \<Longrightarrow> vsec v s1 = vsec v s"
proof -
  let ?D = "vsec v s" let ?L = "dirents v ?D d" let ?x = "(?L ! k)\<lparr>de_ino := n\<rparr>" let ?Q = "insert n R"
  note F = fs_okD [OF f]
  note v = live_okD(1) [OF F(1)]
  have nv: "n < v_inodes v" "0 < n" using live_okD(3) [OF n(2)] by blast+
  have n32: "n < 2 ^ 32" using nv v by (auto simp: vol_ok_def)
  have a: "dir_at v ?D ?Q d" using n(2) d F(2) by (simp add: dir_at_def)
  note E = retarget_ok [OF a r n32]
  show "e \<noteq> MWFS_OK \<Longrightarrow> vsec v s1 = ?D" by (rule E(3))
  assume ok: "e = MWFS_OK"
  have st: "dir_step v ?D (vsec v s1) ?Q d (?L[k := ?x])" using E(4) [OF ok] hit_unique [OF k(1)] by blast
  have kl: "k < length ?L" "de_is name (?L ! k)" "\<forall>k' < k. \<not> de_is name (?L ! k')" using k(1) unfolding hit_def by blast+
  have lk: "link R (types v ?D) (dirents v ?D) d k old" using d k(2) kl by (auto simp: link_def de_is_def)
  have o: "old \<in> R" "de_type (?L ! k) = types v ?D old" "old \<noteq> 1" using tree_okD(4-6) [OF F(3) lk] by blast+
  have of: "types v ?D old = MWFS_T_FILE" using live_okD(4) [OF F(1) o(1)] o(2) k(3) by auto
  have FD: "MWFS_T_FILE \<noteq> MWFS_T_DIR" by (simp add: mwfs_types)
  let ?R = "(R - {old}) \<union> ({n} - {0})"
  have "fs_ok v (vsec v s1) ((R - {de_ino ((?L @ []) ! k)}) \<union> ({de_ino ?x} - {0}))"
  proof (rule fs_dir_step [OF f n(2) subset_insertI d])
    show "dir_step v ?D (vsec v s1) ?Q d ((?L @ [])[k := ?x])" using st by simp
    show "childless (types v ?D) (dirents v ?D) (de_ino ((?L @ []) ! k))" using of FD k(2) by (simp add: childless_def)
    have x: "de_ino ?x = n" "de_type ?x = MWFS_T_FILE" using o(2) of by simp_all
    have "types v ?D n \<noteq> MWFS_T_DIR" using n(3) FD by argo
    thus "de_ino ?x \<in> ?Q - R \<and> de_type ?x = types v ?D (de_ino ?x) \<and> childless (types v ?D) (dirents v ?D) (de_ino ?x) \<and>
        (types v ?D (de_ino ?x) = MWFS_T_DIR \<longrightarrow> dir_ok ?D (inode v ?D (de_ino ?x)))"
      unfolding x childless_def n(3) using n(1) by blast
    show "k < length (?L @ [])" unfolding append_Nil2 by (rule kl(1))
    show "\<not> de_is (de_name ?x) ((?L @ []) ! k')" if "k' < length (?L @ [])" "k' \<noteq> k" for k'
    proof
      assume "de_is (de_name ?x) ((?L @ []) ! k')"
      hence "de_ino (?L ! k') \<noteq> 0" "mwfs_name_eq (de_name (?L ! k')) (de_name (?L ! k))" by (simp_all add: de_is_def)
      moreover have "link R (types v ?D) (dirents v ?D) d k' (de_ino (?L ! k'))"
        using that(1) d calculation(1) unfolding link_def append_Nil2 by blast
      ultimately show False using tree_okD(8) [OF F(3) _ lk] that(2) by blast
    qed
  qed simp
  hence fs1: "fs_ok v (vsec v s1) ?R" unfolding append_Nil2 k(2) by simp
  have R: "?R = insert n (R - {old})" using nv by auto
  note st' = st [unfolded dir_step_def]
  have od: "old \<noteq> d" using of d(2) FD by auto
  have lq: "live_ok v ?D (?Q - {d})" by (rule live_subset [OF n(2) Diff_subset])
  have nd: "n \<noteq> d" using n(1) d(1) by blast
  note S = same_inodesD [OF lq, of "vsec v s1"]
  have sm: "same_inodes v ?D (vsec v s1) (?Q - {d})" and l1: "live_ok v (vsec v s1) ?Q" using st' by blast+
  have n1: "inode v (vsec v s1) n = inode v ?D n" "content (vsec v s1) (inode v ?D n) = content ?D (inode v ?D n)" using S(1,4) [OF sm, of n] nd by auto
  have look1: "look v (vsec v s1) d' name' = (if d' = d \<and> mwfs_name_eq name' name then Some (File (content ?D (inode v ?D n))) else look v ?D d' name')"
    if d': "d' \<in> R" for d' name'
  proof (cases "d' = d \<and> mwfs_name_eq name' name")
    case True
    have "find (de_is name) (?L[k := ?x]) = Some ?x" by (rule find_update_first) (use kl nv in \<open>simp_all add: de_is_def\<close>)
    thus ?thesis using True st' de_is_eq [of name' name] n1 o(2) of FD by (simp add: look_def)
  next
    case False
    have "find (de_is name') (?L[k := ?x]) = find (de_is name') ?L" if "d' = d"
    proof -
      have nn: "\<not> mwfs_name_eq name' name" using False that by blast
      have "mwfs_name_eq (de_name (?L ! k)) name" using kl(2) by (simp add: de_is_def)
      hence "\<not> de_is name' (?L ! k)" by (rule de_is_other [OF nn])
      thus ?thesis using find_update_other [OF kl(1)] not_named [OF nn kl(2)] by blast
    qed
    thus ?thesis using look_step [OF f n(2) _ d(2) st d', of name'] False by auto
  qed
  have old_live: "live_ok v (vsec v s1) (insert old ?R)" by (rule live_subset [OF l1]) (use o(1) in blast)
  have "old \<notin> ?R" using n(1) o(1) by auto
  note rel = release_ok [OF old_live this]
  have in_R: "d' \<in> ?R" "types v (vsec v s1) d' = MWFS_T_DIR" if "d' \<in> R" "types v ?D d' = MWFS_T_DIR" for d'
  proof -
    have "d' \<noteq> old" using that(2) of FD by auto
    thus "d' \<in> ?R" using that(1) by blast
    show "types v (vsec v s1) d' = MWFS_T_DIR" using S(1) [OF sm, of d'] that st' by (cases "d' = d") auto
  qed
  show "put_spec v ?D R d name (Some (File (content ?D (inode v ?D n)))) True (vsec v (mwfs_ino_release v old s1))"
  proof (rule put_specI [OF fs_same [OF fs1 rel(1)]])
    fix d' assume d': "d' \<in> R" "types v ?D d' = MWFS_T_DIR"
    note I = in_R [OF d']
    show "d' \<in> ?R \<and> types v (vsec v (mwfs_ino_release v old s1)) d' = MWFS_T_DIR"
      using I same_inodesD(1) [OF fs_okD(1) [OF fs1] rel(1) I(1)] by simp
    show "look v (vsec v (mwfs_ino_release v old s1)) d' name' =
        (if True \<and> d' = d \<and> mwfs_name_eq name' name then Some (File (content ?D (inode v ?D n))) else look v ?D d' name')" for name'
      using look1 [OF d'(1), of name'] look_same [OF fs1 rel(1) I(1), of name'] by simp
  qed simp
qed

text \<open>The name is added to the directory.\<close>

lemma install_add:
  assumes f: "fs_ok v (vsec v s) R" and n: "n \<notin> R" "live_ok v (vsec v s) (insert n R)" "types v (vsec v s) n = ty"
    and ty: "ty = MWFS_T_FILE \<or> ty = MWFS_T_DIR \<and> i_size (inode v (vsec v s) n) = 0"
    and d: "d \<in> R" "types v (vsec v s) d = MWFS_T_DIR" and r: "mwfs_dir_add v d name n ty s = (e, v', s1)"
  shows "same_geo v v'" "blk_rd s1 = blk_rd s" "blk_wr s1 = blk_wr s"
    "e = MWFS_OK \<Longrightarrow> put_spec v (vsec v s) R d name
       (Some (if ty = MWFS_T_DIR then Dir n else File (content (vsec v s) (inode v (vsec v s) n)))) True (vsec v s1)"
    "e \<noteq> MWFS_OK \<Longrightarrow> put_spec v (vsec v s) R d name nd False (vsec v (mwfs_ino_release v n s1))"
proof -
  let ?D = "vsec v s" let ?L = "dirents v ?D d" let ?Q = "insert n R" let ?x = "\<lparr>de_ino = n, de_type = ty, de_name = name\<rparr>"
  note F = fs_okD [OF f]
  note v = live_okD(1) [OF F(1)]
  have nv: "n < v_inodes v" "0 < n" "n \<noteq> 0" using live_okD(3) [OF n(2)] by blast+
  have n32: "n < 2 ^ 32" using nv v by (auto simp: vol_ok_def)
  have a: "dir_at v ?D ?Q d" using n(2) d F(2) by (simp add: dir_at_def)
  have f256: "ty < 256" using ty by (auto simp: mwfs_types)
  have empty: "ty = MWFS_T_DIR \<Longrightarrow> dirents v ?D n = [] \<and> dir_ok ?D (inode v ?D n)" using ty by (auto simp: ents_def dir_ok_def mwfs_types)
  note A = dir_add_ok [OF a nv(3) n32 f256 r]
  show "same_geo v v'" "blk_rd s1 = blk_rd s" "blk_wr s1 = blk_wr s" by (rule A)+
  have nd: "n \<noteq> d" using n(1) d(1) by blast
  have lq: "live_ok v ?D (?Q - {d})" by (rule live_subset [OF n(2) Diff_subset])
  have tyd: "types v (vsec v s1) d' = types v ?D d'" if "dir_step v ?D (vsec v s1) ?Q d L" "d' \<in> R" for d' L
    using that same_inodesD(1) [OF lq, of "vsec v s1" d'] d(2) by (cases "d' = d") (auto simp: dir_step_def)
  show "put_spec v ?D R d name nd False (vsec v (mwfs_ino_release v n s1))" if "e \<noteq> MWFS_OK"
  proof -
    note st = A(4) [OF that]
    have fs1: "fs_ok v (vsec v s1) R" by (rule fs_dir_quiet [OF f n(2) subset_insertI d st])
    have l1: "live_ok v (vsec v s1) ?Q" using st by (simp add: dir_step_def)
    have q: "put_spec v (vsec v s1) R d name nd False (vsec v (mwfs_ino_release v n s1))"
      by (rule put_none [OF fs1 release_ok(1) [OF l1 n(1)]])
    show ?thesis
    proof (rule put_spec_cong [OF q _ _ d(1)])
      show "look v (vsec v s1) d' name' = look v ?D d' name'" if "d' \<in> R" for d' name'
        by (rule look_step [OF f n(2) subset_insertI d(2) st that refl])
    qed (rule tyd [OF st])
  qed
  assume ok: "e = MWFS_OK"
  obtain k xs where none: "find (de_is name) ?L = None" and xs: "\<forall>x \<in> set xs. de_ino x = 0" and k: "k < length (?L @ xs)"
    "de_ino ((?L @ xs) ! k) = 0" and st: "dir_step v ?D (vsec v s1) ?Q d ((?L @ xs)[k := ?x])"
    using A(5) [OF ok] by blast
  have pre: "\<not> de_is name ((?L @ xs) ! k')" if "k' < length (?L @ xs)" for k'
  proof -
    have "find (de_is name) (?L @ xs) = None" using none xs by (auto simp: find_None_iff de_is_def)
    thus ?thesis using find_none_nth that by blast
  qed
  have "fs_ok v (vsec v s1) ((R - {de_ino ((?L @ xs) ! k)}) \<union> ({de_ino ?x} - {0}))"
  proof (rule fs_dir_step [OF f n(2) subset_insertI d st k(1) xs])
    show "childless (types v ?D) (dirents v ?D) (de_ino ((?L @ xs) ! k))" if "de_ino ((?L @ xs) ! k) \<noteq> 0" using that k(2) by blast
    have x: "de_ino ?x = n" "de_type ?x = ty" by simp_all
    show "de_ino ?x \<in> ?Q - R \<and> de_type ?x = types v ?D (de_ino ?x) \<and> childless (types v ?D) (dirents v ?D) (de_ino ?x) \<and>
        (types v ?D (de_ino ?x) = MWFS_T_DIR \<longrightarrow> dir_ok ?D (inode v ?D (de_ino ?x)))"
      unfolding x childless_def n(3) using n(1) empty by auto
    show "\<not> de_is (de_name ?x) ((?L @ xs) ! k')" if "k' < length (?L @ xs)" for k' using pre [OF that] by simp
  qed
  moreover have "(R - {de_ino ((?L @ xs) ! k)}) \<union> ({de_ino ?x} - {0}) = ?Q" using k(2) nv(3) tree_okD(2) [OF F(3)] by auto
  ultimately have fs1: "fs_ok v (vsec v s1) ?Q" by simp
  have sm: "same_inodes v ?D (vsec v s1) (?Q - {d})" and dd: "dirents v (vsec v s1) d = (?L @ xs)[k := ?x]" "types v (vsec v s1) d = MWFS_T_DIR"
    using st by (simp_all add: dir_step_def)
  note S = same_inodesD [OF lq sm]
  have n1: "inode v (vsec v s1) n = inode v ?D n" "content (vsec v s1) (inode v ?D n) = content ?D (inode v ?D n)" using S(1,4) [of n] nd by auto
  let ?nd = "if ty = MWFS_T_DIR then Dir n else File (content ?D (inode v ?D n))"
  show "put_spec v ?D R d name (Some ?nd) True (vsec v s1)"
  proof (rule put_specI [OF fs1])
    show "m \<in> ?Q \<and> types v (vsec v s1) m = MWFS_T_DIR \<and> (\<forall>name'. look v (vsec v s1) m name' = None)" if "Some ?nd = Some (Dir m)" for m
    proof -
      have m: "m = n" "ty = MWFS_T_DIR" using that by (simp_all split: if_splits)
      thus ?thesis using n1(1) n(3) S(2) [of n] nd empty by (simp add: look_def)
    qed
  next
    fix d' assume d': "d' \<in> R" "types v ?D d' = MWFS_T_DIR"
    show "d' \<in> ?Q \<and> types v (vsec v s1) d' = MWFS_T_DIR" using d' tyd [OF st] by auto
    fix name'
    show "look v (vsec v s1) d' name' = (if True \<and> d' = d \<and> mwfs_name_eq name' name then Some ?nd else look v ?D d' name')"
    proof (cases "d' = d \<and> mwfs_name_eq name' name")
      case True
      have "de_is name ?x" using nv(3) by (simp add: de_is_def name_eq_upper)
      moreover have "\<forall>k' < k. \<not> de_is name ((?L @ xs) ! k')" using pre k(1) by simp
      ultimately have "find (de_is name) ((?L @ xs)[k := ?x]) = Some ?x" using find_update_first [OF k(1)] by blast
      thus ?thesis using True dd de_is_eq [of name' name] n1 by (simp add: look_def)
    next
      case False
      have "find (de_is name') ((?L @ xs)[k := ?x]) = find (de_is name') ?L" if "d' = d"
      proof -
        have "\<not> mwfs_name_eq name' name" using False that by blast
        hence "\<not> de_is name' ?x" using de_is_other [of name' name ?x] by (simp add: name_eq_upper)
        moreover have "\<not> de_is name' ((?L @ xs) ! k)" using k(2) by (simp add: de_is_def)
        ultimately have "find (de_is name') ((?L @ xs)[k := ?x]) = find (de_is name') (?L @ xs)" using find_update_other [OF k(1)] by blast
        thus ?thesis using find_append_none [of xs "de_is name'" ?L] xs by (auto simp: de_is_def)
      qed
      thus ?thesis using look_step [OF f n(2) subset_insertI d(2) st d'(1), of name'] False by auto
    qed
  qed
qed


lemma put_spec_any: "put_spec v D R d name nd False D' \<Longrightarrow> put_spec v D R d name nd' False D'" by (simp add: put_spec_def)

text \<open>Releasing looks only at the geometry, and leaves the devices as they are.\<close>

lemma release_geo:
  assumes "same_geo v v'"
  shows "mwfs_ino_release v' n s = mwfs_ino_release v n s"
proof -
  note G = same_geoD [OF assms]
  have rd: "mwfs_rd v' = mwfs_rd v" and wr: "mwfs_wr v' = mwfs_wr v" using G by (simp_all add: fun_eq_iff mwfs_rd_def mwfs_wr_def)
  have "mwfs_free_sector v' = mwfs_free_sector v" using G by (intro ext) (simp only: mwfs_free_sector_def mwfs_bit_set_def rd wr)
  moreover from this have "mwfs_free_ptrs v' = mwfs_free_ptrs v" by (intro ext) (simp only: mwfs_free_ptrs_def)
  ultimately have fp: "mwfs_free_ptrs v' = mwfs_free_ptrs v" "mwfs_free_sector v' = mwfs_free_sector v" by blast+
  have "mwfs_free_table v' = mwfs_free_table v" by (intro ext) (simp only: mwfs_free_table_def fp rd)
  hence "mwfs_free_blocks v' = mwfs_free_blocks v" using fp rd by (intro ext) (simp only: mwfs_free_blocks_def)
  thus ?thesis using G by (simp only: mwfs_ino_release_def mwfs_ino_get_def mwfs_ino_put_def rd wr)
qed

definition dev :: "blk \<Rightarrow> (nat \<Rightarrow> int \<Rightarrow> nat \<Rightarrow> bool) \<times> (nat \<Rightarrow> int \<Rightarrow> nat \<Rightarrow> bool)" where "dev s = (blk_rd s, blk_wr s)"

lemma dev_wr [simp]: "dev (snd (mwfs_wr v l b s)) = dev s"
  by (simp add: dev_def mwfs_wr_def blk_write_def Let_def)

lemma dev_free_sector [simp]: "dev (mwfs_free_sector v l s) = dev s"
  by (simp add: mwfs_free_sector_def mwfs_bit_set_def split: option.splits)

lemma dev_free_ptrs [simp]: "dev (mwfs_free_ptrs v ls s) = dev s"
  unfolding mwfs_free_ptrs_def by (induction ls arbitrary: s) simp_all

lemma dev_free_table [simp]: "dev (mwfs_free_table v l s) = dev s"
  by (simp add: mwfs_free_table_def split: option.splits)

lemma dev_free_mids [simp]: "dev (fold (\<lambda>m s. if m = 0 then s else mwfs_free_sector v m (mwfs_free_table v m s)) ms s) = dev s"
  by (induction ms arbitrary: s) simp_all

lemma dev_free_blocks [simp]: "dev (snd (mwfs_free_blocks v t s)) = dev s"
  by (simp add: mwfs_free_blocks_def Let_def split: option.splits)

lemma release_dev: "blk_rd (mwfs_ino_release v n s) = blk_rd s" "blk_wr (mwfs_ino_release v n s) = blk_wr s"
proof -
  have "dev (mwfs_ino_release v n s) = dev s"
  proof (cases "mwfs_ino_get v n s")
    case (Some t)
    obtain t' s1 where f: "mwfs_free_blocks v t s = (t', s1)" by fastforce
    hence "dev s1 = dev s" using dev_free_blocks [of v t s] by simp
    thus ?thesis using Some f by (simp add: mwfs_ino_release_def mwfs_ino_put_def split: option.splits)
  qed (simp add: mwfs_ino_release_def)
  thus "blk_rd (mwfs_ino_release v n s) = blk_rd s" "blk_wr (mwfs_ino_release v n s) = blk_wr s" by (simp_all add: dev_def)
qed

text \<open>mwfs_file_install: the new inode is written, then the name leads to it; or it is released.\<close>

lemma install_ok:
  assumes f: "fs_ok v (vsec v s) R" and n: "n \<notin> R" "live_ok v (vsec v s) (insert n R)" "types v (vsec v s) n = MWFS_T_FILE"
    and d: "d \<in> R" "types v (vsec v s) d = MWFS_T_DIR"
    and t: "i_type t = MWFS_T_FILE" "i_size t \<le> 512 * file_max" "ptrs_ok v (vsec v s) t"
      "\<And>m. m \<in> R \<Longrightarrow> own (vsec v s) t \<inter> own (vsec v s) (inode v (vsec v s) m) = {}"
    and r: "mwfs_file_install v d name n t err s = (e, v', s')"
  shows "same_geo v v' \<and> blk_rd s' = blk_rd s \<and> blk_wr s' = blk_wr s \<and> put_spec v (vsec v s) R d name (Some (File (content (vsec v s) t))) (e = MWFS_OK) (vsec v s') \<and>
    (e = MWFS_OK \<longrightarrow> err = MWFS_OK)"
proof -
  let ?D = "vsec v s" let ?Q = "insert n R"
  note F = fs_okD [OF f]
  note v = live_okD(1) [OF F(1)] and so = live_okD(2) [OF F(1)]
  have nv: "n < v_inodes v" "0 < n" using live_okD(3) [OF n(2)] by blast+
  note to = ptrs_okD(1) [OF t(3)]
  obtain ok s1 where p: "mwfs_ino_put v n t s = (ok, s1)" by fastforce
  note P = ino_put_cases [OF p v]
  have s1: "same_inodes v ?D (vsec v s1) R"
    using P(1) ino_set_same [OF F(1) nv(1) n(1) to] same_inodes_refl [OF F(1)] by simp
  have f1: "fs_ok v (vsec v s1) R" by (rule fs_same [OF f s1])
  note S = same_inodesD [OF F(1) s1]
  have d1: "types v (vsec v s1) d = MWFS_T_DIR" "dirents v (vsec v s1) d = dirents v ?D d" using S(1,2) d by simp_all
  have t1: "inode v (vsec v s1) n = t" "content (vsec v s1) t = content ?D t" "ptrs_ok v (vsec v s1) t" "own (vsec v s1) t = own ?D t" if "ok"
  proof -
    have D1: "vsec v s1 = ino_set v n t ?D" using P(1) that by simp
    show "inode v (vsec v s1) n = t" unfolding D1 using ino_setD(2) [OF v so nv(1) to] by simp
    note k = ino_set_keeps [OF v so nv(1) to t(3)]
    show "content (vsec v s1) t = content ?D t" "ptrs_ok v (vsec v s1) t" "own (vsec v s1) t = own ?D t" unfolding D1
      using keeps_val [OF k t(3)] by blast+
  qed
  have n1: "live_ok v (vsec v s1) ?Q" "types v (vsec v s1) n = MWFS_T_FILE"
  proof -
    have "live_ok v (vsec v s1) ?Q \<and> types v (vsec v s1) n = MWFS_T_FILE"
    proof (cases ok)
      case False thus ?thesis using P(1) n(2,3) by simp
    next
      case True
      note T = t1 [OF True]
      have "live_ok v (vsec v s1) ?Q"
      proof (rule live_insert [OF fs_okD(1) [OF f1] nv(2,1) T(1) _ t(2) T(3)])
        show "own (vsec v s1) t \<inter> own (vsec v s1) (inode v (vsec v s1) m) = {}" if "m \<in> R" for m
          using t(4) [OF that] T(4) S(1,5) [OF that] by simp
      qed (use t(1) in simp)
      thus ?thesis using T(1) t(1) by simp
    qed
    thus "live_ok v (vsec v s1) ?Q" "types v (vsec v s1) n = MWFS_T_FILE" by blast+
  qed
  note rel = release_ok [OF n1(1) n(1)]
  have quiet: "put_spec v ?D R d name nd False (vsec v (mwfs_ino_release v n s1))" for nd
    by (rule put_spec_same [OF f s1 d(1) put_none [OF f1 rel(1)]])
  have q: ?thesis if "e \<noteq> MWFS_OK" "v' = v" "s' = mwfs_ino_release v n s1"
    using that quiet rel(3,4) P(3,4) by simp
  let ?e1 = "if \<not> ok \<and> err = MWFS_OK then MWFS_E_IO else err"
  have e1: "?e1 = MWFS_OK \<longleftrightarrow> err = MWFS_OK \<and> ok" by simp
  show ?thesis
  proof (cases "mwfs_dir_find v d name s")
    case (Inl g)
    hence lk: "mwfs_dir_lookup v d name s = Inl g" by (simp add: mwfs_dir_lookup_def)
    show ?thesis
    proof (cases "err = MWFS_OK \<and> ok \<and> g = MWFS_E_NOENT")
      case False
      thus ?thesis using r lk p find_Inl [OF Inl] by (intro q) (auto simp: mwfs_file_install_def Let_def split: if_splits)
    next
      case True
      obtain e2 v2 s2 where ad: "mwfs_dir_add v d name n MWFS_T_FILE s1 = (e2, v2, s2)" by (cases "mwfs_dir_add v d name n MWFS_T_FILE s1") auto
      note A = install_add [OF f1 n(1) n1 disjI1 [OF refl] d(1) d1(1) ad]
      have res: "e = e2" "v' = v2" "s' = (if e2 = MWFS_OK then s2 else mwfs_ino_release v2 n s2)"
        using r lk p True ad by (auto simp: mwfs_file_install_def Let_def split: if_splits)
      note G = geo_cong [OF A(1)]
      show ?thesis
      proof (cases "e2 = MWFS_OK")
        case e2: True
        have "put_spec v (vsec v s1) R d name (Some (File (content ?D t))) True (vsec v s2)" using A(4) [OF e2] t1(1,2) True by (simp add: mwfs_types)
        thus ?thesis using put_spec_same [OF f s1 d(1)] res e2 A(1-3) P(3,4) True by simp
      next
        case e2: False
        have g: "mwfs_ino_release v2 n s2 = mwfs_ino_release v n s2" by (rule release_geo [OF A(1)])
        have pt: "put_spec v (vsec v s1) R d name (Some (File (content ?D t))) False (vsec v (mwfs_ino_release v n s2))" by (rule A(5) [OF e2])
        thus ?thesis using put_spec_same [OF f s1 d(1) pt] res e2 A(1-3) P(3,4) g release_dev by simp
      qed
    qed
  next
    case (Inr y)
    obtain old ty lba en where y: "y = (old, ty, lba, en)" by (cases y) auto
    have lk: "mwfs_dir_lookup v d name s = Inr (old, ty)" using Inr y by (simp add: mwfs_dir_lookup_def)
    obtain j where j: "hit (dirents v ?D d) name (8 * j + en)" "de_ino (dirents v ?D d ! (8 * j + en)) = old"
        "de_type (dirents v ?D d ! (8 * j + en)) = ty"
      using find_Inr [OF F(2) [OF d] Inr [unfolded y]] by blast
    show ?thesis
    proof (cases "err = MWFS_OK \<and> ok \<and> ty \<noteq> MWFS_T_DIR")
      case False
      thus ?thesis using r lk p by (intro q) (auto simp: mwfs_file_install_def Let_def split: if_splits)
    next
      case True
      obtain e2 s2 where rt: "mwfs_dir_retarget v d name n s1 = (e2, s2)" by fastforce
      have res: "e = e2" "v' = v" "s' = (if e2 = MWFS_OK then mwfs_ino_release v old s2 else mwfs_ino_release v n s2)"
        using r lk p True rt by (auto simp: mwfs_file_install_def Let_def split: if_splits)
      have n32: "n < 2 ^ 32" using nv v by (auto simp: vol_ok_def)
      have a: "dir_at v (vsec v s1) ?Q d" using n1(1) d(1) d1(1) fs_okD(2) [OF f1 d(1) d1(1)] by (simp add: dir_at_def)
      note E = retarget_ok(1,2) [OF a rt n32]
      have nd: "de_type (dirents v (vsec v s1) d ! (8 * j + en)) \<noteq> MWFS_T_DIR" using True j(3) d1(2) by simp
      note I = install_retarget [OF f1 n(1) n1 d(1) d1(1) j(1,2) [folded d1(2)] nd rt]
      show ?thesis
      proof (cases "e2 = MWFS_OK")
        case e2: True
        have "put_spec v (vsec v s1) R d name (Some (File (content ?D t))) True (vsec v (mwfs_ino_release v old s2))"
          using I(1) e2 t1(1,2) True by simp
        thus ?thesis using put_spec_same [OF f s1 d(1)] res e2 E P(3,4) True release_dev by simp
      next
        case e2: False
        have D2: "vsec v s2 = vsec v s1" by (rule retarget_ok(3) [OF a rt n32 e2])
        have rel2: "same_inodes v (vsec v s1) (vsec v (mwfs_ino_release v n s2)) R"
          using release_ok(1) [OF n1(1) [folded D2] n(1)] D2 by simp
        have "put_spec v (vsec v s1) R d name (Some (File (content ?D t))) False (vsec v (mwfs_ino_release v n s2))" by (rule put_none [OF f1 rel2])
        thus ?thesis using put_spec_same [OF f s1 d(1)] res e2 E P(3,4) release_dev by simp
      qed
    qed
  qed
qed


text \<open>A new inode, live but not yet named.\<close>

lemma own_none: "(\<And>a. val D t a = 0) \<Longrightarrow> own D t = {}" unfolding own_def by auto

lemma blank_own [simp]: "own D (ino_blank ty) = {}" by (simp add: own_none)

lemma blank_ptrs: "ty < 2 ^ 16 \<Longrightarrow> ptrs_ok v D (ino_blank ty)" using ino_blank_ok by (simp add: ptrs_ok_def)

lemma fresh_ok:
  assumes l: "live_ok v (vsec v s) R" and ty: "ty = MWFS_T_FILE \<or> ty = MWFS_T_DIR" and r: "mwfs_ino_alloc v ty s = (n, v1, s1)" "n \<noteq> 0"
  shows "n \<notin> R" "same_inodes v (vsec v s) (vsec v s1) R" "live_ok v (vsec v s1) (insert n R)" "inode v (vsec v s1) n = ino_blank ty"
proof -
  note v = live_okD(1) [OF l] and so = live_okD(2) [OF l]
  note A = ino_alloc_ok [OF v r]
  have bo: "ino_ok (ino_blank ty)" and p: "ptrs_ok v D (ino_blank ty)" for D using ty ino_blank_ok [of ty] blank_ptrs [of ty] by (auto simp: mwfs_types)
  show n: "n \<notin> R" using live_okD(4) [OF l, of n] A(3) by (auto simp: mwfs_types)
  show s: "same_inodes v (vsec v s) (vsec v s1) R" unfolding A(4) by (rule ino_set_same [OF l A(2) n bo])
  show i: "inode v (vsec v s1) n = ino_blank ty" unfolding A(4) using ino_setD(2) [OF v so A(2) bo] by simp
  show "live_ok v (vsec v s1) (insert n R)"
  proof (rule live_insert [OF live_same [OF l s] _ A(2) i _ _ p])
    show "0 < n" using A(1) by simp
    show "i_type (ino_blank ty) = MWFS_T_FILE \<or> i_type (ino_blank ty) = MWFS_T_DIR" using ty by (simp add: ino_blank_def)
    show "i_size (ino_blank ty) \<le> 512 * file_max" by (simp add: ino_blank_def mwfs_ino_zero_def)
  qed simp
qed

text \<open>Its sectors are added while the inode on the disk stays blank: the record t is written last.\<close>

lemma fresh_grow:
  assumes l: "live_ok v D Q" and t: "own D t = {}" "ptrs_ok v D t" and g: "growz v S D t D' t'"
  shows "same_inodes v D D' Q" "\<And>m. m \<in> Q \<Longrightarrow> own D' t' \<inter> own D' (inode v D' m) = {}" "ptrs_ok v D' t'"
proof -
  note v = live_okD(1) [OF l]
  have k: "keeps v D D' (own D (inode v D m))" "own D' t' \<inter> own D (inode v D m) = {}" if "m \<in> Q" for m
    using growz_keeps [OF v g live_okD(6) [OF l that]] t(1) by blast+
  have "inode v D' m = inode v D m" if "m \<in> Q" for m using growz_inode [OF v g t(2)] live_okD(3) [OF l that] by blast
  thus s: "same_inodes v D D' Q" using k(1) growzD(1) [OF g] by (simp add: same_inodes_def)
  show "own D' t' \<inter> own D' (inode v D' m) = {}" if "m \<in> Q" for m using k(2) [OF that] same_inodesD(1,5) [OF l s that] by simp
  show "ptrs_ok v D' t'" by (rule growzD(2) [OF g])
qed

text \<open>The record both operations start from.\<close>

lemma same_geo_sym: "same_geo v v' \<Longrightarrow> same_geo v' v" by (cases v, cases v') (simp add: same_geo_def)

lemma fresh_record:
  assumes "inode v D n = ino_blank MWFS_T_FILE" "t = inode v D n"
  shows "own D' (t\<lparr>i_aux := a, i_gen := g\<rparr>) = {}" "ptrs_ok v D' (t\<lparr>i_aux := a, i_gen := g\<rparr>)"
    "i_type (t\<lparr>i_aux := a, i_gen := g\<rparr>) = MWFS_T_FILE" "i_size (t\<lparr>i_aux := a, i_gen := g\<rparr>) = 0"
proof -
  let ?t = "t\<lparr>i_aux := a, i_gen := g\<rparr>"
  have t: "t = ino_blank MWFS_T_FILE" using assms by simp
  have val: "val D' ?t x = 0" for x using val_cong [of D' t D' ?t x] blank_val [of D' MWFS_T_FILE x] t by simp
  show o: "own D' ?t = {}" by (rule own_none [OF val])
  have "ino_ok ?t" using ino_blank_ok [of MWFS_T_FILE] by (simp add: t ino_ok_def mwfs_types)
  thus "ptrs_ok v D' ?t" by (simp add: ptrs_ok_def val o)
  show "i_type ?t = MWFS_T_FILE" "i_size ?t = 0" by (simp_all add: t ino_blank_def mwfs_ino_zero_def)
qed

text \<open>The name was refused before anything was allocated, or it is not a directory's.\<close>

lemma file_put_none:
  assumes "fs_ok v (vsec v s) R" "e \<noteq> MWFS_OK" "same_inodes v (vsec v s) (vsec v s') R"
  shows "put_spec v (vsec v s) R d name nd (e = MWFS_OK) (vsec v s')"
  using put_none [OF assms(1,3)] assms(2) by simp

lemma refused_err: "put_refused v d name s = Some e \<Longrightarrow> e \<noteq> MWFS_OK"
  by (auto simp: put_refused_def mwfs_dir_lookup_def split: sum.splits if_splits dest: find_Inl)

text \<open>The end of both mwfs_file_put and mwfs_file_copy: a grown record, installed.\<close>

lemma fresh_install:
  assumes f: "fs_ok v (vsec v s) R" and d: "d \<in> R" "types v (vsec v s) d = MWFS_T_DIR"
    and al: "mwfs_ino_alloc v MWFS_T_FILE s = (n, v1, s1)" "n \<noteq> 0"
    and t: "own (vsec v s1) t = {}" "ptrs_ok v (vsec v s1) t" "i_type t = MWFS_T_FILE"
    and g: "growz v S (vsec v s1) t (vsec v s2) t2" "i_size t2 \<le> 512 * file_max" "same_geo v1 v2" "dev s2 = dev s1"
    and r: "mwfs_file_install v2 d name n (t2\<lparr>i_crc := c\<rparr>) err s2 = (e, v', s')"
  shows "same_geo v v' \<and> dev s' = dev s \<and> put_spec v (vsec v s) R d name (Some (File (content (vsec v s2) t2))) (e = MWFS_OK) (vsec v s') \<and>
    (e = MWFS_OK \<longrightarrow> err = MWFS_OK)"
proof -
  let ?t = "t2\<lparr>i_crc := c\<rparr>"
  note F = fs_okD [OF f]
  note v = live_okD(1) [OF F(1)]
  note A = ino_alloc_ok [OF v al]
  note N = fresh_ok [OF F(1) disjI1 [OF refl] al]
  note G = fresh_grow [OF N(3) t(1,2) g(1)]
  have geo: "same_geo v v2" by (rule same_geo_trans [OF A(5) g(3)])
  note C = geo_cong [OF geo]
  have sR: "same_inodes v (vsec v s) (vsec v s2) R"
    by (rule same_inodes_trans [OF F(1) N(2) same_inodes_subset [OF G(1) subset_insertI]])
  have f2: "fs_ok v (vsec v s2) R" by (rule fs_same [OF f sR])
  have l2: "live_ok v (vsec v s2) (insert n R)" by (rule live_same [OF N(3) G(1)])
  have "inode v (vsec v s2) n = ino_blank MWFS_T_FILE" using same_inodesD(1) [OF N(3) G(1), of n] N(4) by simp
  hence tn: "types v (vsec v s2) n = MWFS_T_FILE" by (simp add: ino_blank_def)
  have td: "types v (vsec v s2) d = MWFS_T_DIR" using same_inodesD(1) [OF F(1) sR d(1)] d(2) by simp
  have val: "val D ?t = val D t2" for D by (rule ext, rule val_cong) simp_all
  have own: "own D ?t = own D t2" and sec: "sec_at D ?t = sec_at D t2" for D by (simp_all add: own_def sec_at_def val fun_eq_iff)
  have p: "ptrs_ok v (vsec v s2) ?t" using G(3) by (simp add: ptrs_ok_def own val ino_ok_def)
  have c: "content (vsec v s2) ?t = content (vsec v s2) t2" by (simp add: content_def byte_at_def sec)
  have ty: "i_type ?t = MWFS_T_FILE" using growzD(8) [OF g(1)] t(3) by (simp add: same_meta_def)
  have disj: "own (vsec v s2) ?t \<inter> own (vsec v s2) (inode v (vsec v s2) m) = {}" if "m \<in> R" for m using G(2) [of m] that own by simp
  note I = install_ok [of v2 s2 R n d ?t name err e v' s', unfolded C, OF f2 N(1) l2 tn d(1) td ty _ _ disj r]
  have "same_geo v2 v' \<and> blk_rd s' = blk_rd s2 \<and> blk_wr s' = blk_wr s2 \<and>
      put_spec v2 (vsec v s2) R d name (Some (File (content (vsec v s2) t2))) (e = MWFS_OK) (vsec v s') \<and> (e = MWFS_OK \<longrightarrow> err = MWFS_OK)"
    using I p g(2) c view_cong(4) [OF geo] by simp
  moreover have "put_spec v2 = put_spec v" by (intro ext) (simp only: put_spec_def C)
  ultimately show ?thesis using put_spec_same [OF f sR d(1)] same_geo_trans [OF geo] g(4) A(6,7) by (simp add: dev_def)
qed

lemma put_size: "pwrite_spec v 0 data s t (e, t', v', s') \<Longrightarrow> i_size t = 0 \<Longrightarrow> i_size t' \<le> 512 * file_max"
  using pwrite_specD(6) [of v 0 data s t e t' v' s'] by simp

lemma put_content:
  assumes "pwrite_spec v 0 data s t (e, t', v', s')" "e = MWFS_OK" "i_size t = 0"
  shows "content (vsec v s') t' = data"
proof -
  have sz: "i_size t' = length data" using assms by (auto simp: pwrite_spec_def)
  moreover have "byte_at (vsec v s') t' q = data ! q" if "q < length data" for q
    using pwrite_specD(5) [OF assms(1,2)] that by (cases "data = []") auto
  ultimately show ?thesis by (intro nth_equalityI) (simp_all add: content_def)
qed

lemma file_put_ok:
  assumes f: "fs_ok v (vsec v s) R" and d: "d \<in> R" "types v (vsec v s) d = MWFS_T_DIR"
    and r: "mwfs_file_put now v d name data aux s = (e, v', s')"
  shows "same_geo v v' \<and> dev s' = dev s \<and> put_spec v (vsec v s) R d name (Some (File data)) (e = MWFS_OK) (vsec v s')"
proof -
  note F = fs_okD [OF f]
  note v = live_okD(1) [OF F(1)]
  have same: ?thesis if "e \<noteq> MWFS_OK" "v' = v" "s' = s"
    using file_put_none [OF f that(1), of s] same_inodes_refl [OF F(1)] that by simp
  show ?thesis
  proof (cases "\<not> mwfs_name_ok name \<or> put_refused v d name s \<noteq> None")
    case True
    show ?thesis by (rule same) (use r True in \<open>auto simp: mwfs_file_put_def dest: refused_err split: if_splits\<close>)
  next
    case False
    hence nm: "mwfs_name_ok name" "put_refused v d name s = None" by auto
    obtain n v1 s1 where al: "mwfs_ino_alloc v MWFS_T_FILE s = (n, v1, s1)" by (cases "mwfs_ino_alloc v MWFS_T_FILE s") auto
    show ?thesis
    proof (cases "n = 0")
      case True
      note A0 = ino_alloc_none [OF v al [unfolded True]]
      have "e \<noteq> MWFS_OK" "v' = v1" "s' = s1" using r nm al True by (auto simp: mwfs_file_put_def)
      thus ?thesis using A0 file_put_none [OF f, of e s'] same_inodes_refl [OF F(1)] by (simp add: dev_def)
    next
      case n0: False
      note A = ino_alloc_ok [OF v al n0]
      note N = fresh_ok [OF F(1) disjI1 [OF refl] al n0]
      show ?thesis
      proof (cases "mwfs_ino_get v1 n s1")
        case None
        have "e \<noteq> MWFS_OK" "v' = v1" "s' = s1" using r nm al n0 None by (auto simp: mwfs_file_put_def)
        thus ?thesis using A(5-7) file_put_none [OF f, of e s'] N(2) by (simp add: dev_def)
      next
        case (Some t0)
        note C = geo_cong [OF A(5)]
        have t0: "t0 = inode v (vsec v s1) n" using ino_get_Some [OF Some] C by simp
        let ?t = "t0\<lparr>i_aux := aux, i_gen := now\<rparr>"
        note T = fresh_record [OF N(4) t0, where a = aux and g = now]
        note p = T(2,1) and ty = T(3,4)
        have so: "secs_ok v (vsec v s1)" using live_okD(2) [OF N(3)] .
        obtain e2 t2 v2 s2 where w: "(if length data \<noteq> 0 then mwfs_pwrite v1 ?t 0 data s1 else (MWFS_OK, ?t, v1, s1)) = (e2, t2, v2, s2)"
          by (cases "if length data \<noteq> 0 then mwfs_pwrite v1 ?t 0 data s1 else (MWFS_OK, ?t, v1, s1)") auto
        note V = view_cong [OF A(5)]
        have pw: "pwrite_spec v1 0 data s1 ?t (e2, t2, v2, s2)"
        proof (cases "data = []")
          case True
          have "pwrite_spec v1 0 data s1 ?t (mwfs_pwrite v1 ?t 0 data s1)"
            by (rule pwrite_ok) (use C V v so p in simp_all)
          thus ?thesis using w True by (subst (asm) mwfs_pwrite.simps) simp
        next
          case False
          have "pwrite_spec v1 0 data s1 ?t (mwfs_pwrite v1 ?t 0 data s1)"
            by (rule pwrite_ok) (use C V v so p in simp_all)
          thus ?thesis using w False by simp
        qed
        let ?t3 = "t2\<lparr>i_crc := if e2 = MWFS_OK then NOT (mwfs_crc32_update 0xFFFFFFFF data) else i_crc t2\<rparr>"
        have t3: "?t3 = (if e2 = MWFS_OK then t2\<lparr>i_crc := NOT (mwfs_crc32_update 0xFFFFFFFF data)\<rparr> else t2)" by simp
        have inst: "mwfs_file_install v2 d name n ?t3 e2 s2 = (e, v', s')"
          using r nm al n0 Some w unfolding t3 by (simp add: mwfs_file_put_def Let_def split del: if_split)
        note P = pwrite_specD [OF pw]
        have g: "growz v (slots_from 0) (vsec v s1) ?t (vsec v s2) t2" using P(1) C V by (simp add: growz_def)
        have sz: "i_size t2 \<le> 512 * file_max" by (rule put_size [OF pw ty(2)])
        have I: "same_geo v v' \<and> dev s' = dev s \<and> put_spec v (vsec v s) R d name (Some (File (content (vsec v s2) t2))) (e = MWFS_OK) (vsec v s') \<and>
            (e = MWFS_OK \<longrightarrow> e2 = MWFS_OK)"
          by (rule fresh_install [OF f d al n0 p(2,1) ty(1) g sz P(2) _ inst]) (use P(3,4) in \<open>simp add: dev_def\<close>)
        show ?thesis
        proof (cases "e = MWFS_OK")
          case True
          hence "e2 = MWFS_OK" using I by blast
          hence "content (vsec v s2) t2 = data" by (intro put_content [OF pw _ ty(2), unfolded C])
          thus ?thesis using I by simp
        next
          case False thus ?thesis using I put_spec_any by fastforce
        qed
      qed
    qed
  qed
qed


subsection \<open>Copying a file within a volume\<close>

lemma pread_slice:
  assumes "secs_ok v (vsec v s)" "ptrs_ok v (vsec v s) t" "off + n \<le> i_size t" "mwfs_pread v t off n s = Some b" "0 < n"
  shows "b = take n (drop off (content (vsec v s) t))"
proof -
  have "mwfs_pread_loop v t off n s = Some b" using assms(3-5) by (simp add: mwfs_pread_def split: if_splits)
  hence "b = map (byte_at (vsec v s) t) [off..<off + n]" by (rule pread_loop_ok [OF assms(1,2)])
  also have "\<dots> = take n (drop off (content (vsec v s) t))" using assms(3)
    by (simp add: content_def take_map drop_map min_def)
  finally show ?thesis .
qed

lemma aligned_div: "q < m \<Longrightarrow> m mod 512 = 0 \<Longrightarrow> q div 512 < m div (512 :: nat)"
  by (metis div_mult_mod_eq add.right_neutral less_mult_imp_div_less)

lemma append_content:
  assumes v: "vol_ok v" and p: "ptrs_ok v (vsec v s) t" and w: "pwrite_spec v (i_size t) b s t (MWFS_OK, t', v', s')" and m: "i_size t mod 512 = 0"
  shows "content (vsec v s') t' = content (vsec v s) t @ b"
proof (cases "b = []")
  case True
  note g = pwrite_specD(1) [OF w]
  have sz: "i_size t' = i_size t" using w True by (simp add: pwrite_spec_def)
  have "byte_at (vsec v s') t' q = byte_at (vsec v s) t q" if "q < i_size t" for q
    by (rule growz_byte [OF v g p]) (rule aligned_div [OF that m])
  thus ?thesis using sz True by (simp add: content_def)
next
  case False
  note g = pwrite_specD(1) [OF w] and D = pwrite_specD(5) [OF w refl False]
  have sz: "i_size t' = i_size t + length b" using D by simp
  have old: "byte_at (vsec v s') t' q = byte_at (vsec v s) t q" if "q < i_size t" for q
    by (rule growz_byte [OF v g p]) (rule aligned_div [OF that m])
  show ?thesis
  proof (rule nth_equalityI)
    fix q assume "q < length (content (vsec v s') t')"
    hence q: "q < i_size t + length b" using sz by simp
    show "content (vsec v s') t' ! q = (content (vsec v s) t @ b) ! q"
    proof (cases "q < i_size t")
      case True thus ?thesis using old q sz by (simp add: content_def nth_append)
    next
      case False
      hence i: "i_size t + (q - i_size t) = q" "q - i_size t < length b" using q by simp_all
      have "byte_at (vsec v s') t' (i_size t + (q - i_size t)) = b ! (q - i_size t)" using D i(2) by blast
      hence "byte_at (vsec v s') t' q = b ! (q - i_size t)" unfolding i(1) .
      thus ?thesis using False q sz by (simp add: content_def nth_append)
    qed
  qed (simp add: sz)
qed

lemma copy_loop_ok:
  assumes "vol_ok v" "same_geo v sv" "same_geo v dv" "secs_ok v (vsec v s)" "ptrs_ok v (vsec v s) t" "ptrs_ok v (vsec v s) src"
    "own (vsec v s) src \<inter> own (vsec v s) t = {}" "i_size t \<le> 512 * file_max" "i_size t mod 512 = 0 \<and> i_size t = off \<or> i_size src \<le> off"
    "mwfs_copy_loop sv src off crc dv t s = (e, crc', t', dv', s')"
  shows "growz v (slots_from 0) (vsec v s) t (vsec v s') t' \<and> same_geo v dv' \<and> dev s' = dev s \<and> i_size t' \<le> 512 * file_max \<and>
    (e = MWFS_OK \<longrightarrow> content (vsec v s') t' = content (vsec v s) t @ drop off (content (vsec v s) src))"
  using assms
proof (induction sv src off crc dv t s arbitrary: e crc' t' dv' s' rule: mwfs_copy_loop.induct)
  case (1 sv src off crc dv t s)
  note v = "1.prems"(1) and gs = "1.prems"(2) and gd = "1.prems"(3) and so = "1.prems"(4) and pt = "1.prems"(5) and ps = "1.prems"(6)
  have g0: "growz v (slots_from 0) (vsec v s) t (vsec v s) t" by (rule grows_growz [OF grows_refl [OF so pt]])
  show ?case
  proof (cases "off \<ge> i_size src")
    case True
    thus ?thesis using "1.prems"(3,8,10) g0 by (subst (asm) mwfs_copy_loop.simps) simp
  next
    case lt: False
    hence off: "i_size t = off" "i_size t mod 512 = 0" using "1.prems"(9) by auto
    let ?n = "min (i_size src - off) 512"
    have n: "0 < ?n" "off + ?n \<le> i_size src" "?n \<le> 512" using lt by auto
    have fail: ?thesis if "e = MWFS_E_IO" "t' = t" "dv' = dv" "s' = s" using that g0 gd "1.prems"(8) by simp
    show ?thesis
    proof (cases "mwfs_pread sv src off ?n s")
      case None thus ?thesis using "1.prems"(10) lt by (intro fail) (subst (asm) mwfs_copy_loop.simps, simp)+
    next
      case (Some b)
      show ?thesis
      proof (cases "length b = ?n")
        case False thus ?thesis using "1.prems"(10) lt Some by (intro fail) (subst (asm) mwfs_copy_loop.simps, simp)+
      next
        case lb: True
        have b: "b = take ?n (drop off (content (vsec v s) src))"
          using pread_slice [of sv s src off ?n b] n Some so ps same_geoD(11) [OF gs] view_cong(1,4) [OF gs] by simp
        obtain e1 t1 v1 s1 where w: "mwfs_pwrite dv t off b s = (e1, t1, v1, s1)" by (cases "mwfs_pwrite dv t off b s") auto
        note Vd = view_cong [OF gd] same_geoD(10,11) [OF gd]
        have W': "pwrite_spec dv off b s t (e1, t1, v1, s1)" using pwrite_ok [of dv s t off b] v so pt Vd w by simp
        have W: "pwrite_spec v off b s t (e1, t1, v1, s1)"
          using W' Vd same_geo_trans [OF gd pwrite_specD(2) [OF W']] unfolding pwrite_spec_def growz_def by simp
        note P = pwrite_specD [OF W]
        have g1: "growz v (slots_from 0) (vsec v s) t (vsec v s1) t1" by (rule growz_mono [OF P(1) slots_from_mono]) simp
        have dv1: "same_geo v v1" by (rule P(2))
        have d1: "dev s1 = dev s" using P(3,4) by (simp add: dev_def)
        have sz1: "i_size t1 \<le> 512 * file_max" by (rule P(6) [OF "1.prems"(8)])
        show ?thesis
        proof (cases "e1 = MWFS_OK")
          case False
          hence "e = e1" "t' = t1" "dv' = v1" "s' = s1" using "1.prems"(10) lt Some lb w by (subst (asm) mwfs_copy_loop.simps, simp add: Let_def)+
          thus ?thesis using False g1 dv1 d1 sz1 by simp
        next
          case e1: True
          have r: "mwfs_copy_loop sv src (off + 512) (mwfs_crc32_update crc b) v1 t1 s1 = (e, crc', t', dv', s')"
            using "1.prems"(10) lt Some lb w e1 by (subst (asm) mwfs_copy_loop.simps) (simp add: Let_def)
          have bn: "b \<noteq> []" using lb n(1) by auto
          have K: "keeps v (vsec v s) (vsec v s1) (own (vsec v s) src)" "own (vsec v s1) t1 \<inter> own (vsec v s) src = {}"
            using growz_keeps [OF v g1 ps "1.prems"(7)] by blast+
          note KV = keeps_val [OF K(1) ps]
          have C1: "content (vsec v s1) t1 = content (vsec v s) t @ b"
            by (rule append_content [OF v pt _ off(2)]) (use W off(1) e1 in simp)
          have s1: "i_size t1 = off + ?n" using arg_cong [OF C1, of length] off(1) lb by simp
          have nxt: "i_size t1 mod 512 = 0 \<and> i_size t1 = off + 512 \<or> i_size src \<le> off + 512"
            using s1 off by (cases "i_size src - off \<le> 512") auto
          have dj: "own (vsec v s1) src \<inter> own (vsec v s1) t1 = {}" using K(2) KV(2) by auto
          have I: "growz v (slots_from 0) (vsec v s1) t1 (vsec v s') t' \<and> same_geo v dv' \<and> dev s' = dev s1 \<and> i_size t' \<le> 512 * file_max \<and>
              (e = MWFS_OK \<longrightarrow> content (vsec v s') t' = content (vsec v s1) t1 @ drop (off + 512) (content (vsec v s1) src))"
            by (rule "1.IH" [OF lt refl Some _ refl w [symmetric] refl refl refl _ v gs dv1 growzD(1) [OF g1] growzD(2) [OF g1] KV(3) dj sz1 nxt r])
              (simp_all add: lb e1)
          have "content (vsec v s1) t1 @ drop (off + 512) (content (vsec v s1) src) = content (vsec v s) t @ drop off (content (vsec v s) src)"
          proof -
            have "drop (off + 512) (content (vsec v s) src) = drop ?n (drop off (content (vsec v s) src))"
              by (cases "i_size src - off \<le> 512") (simp_all add: add.commute)
            thus ?thesis unfolding C1 KV(5) b append_assoc by (simp only: append_take_drop_id)
          qed
          thus ?thesis using I growz_trans [OF g1] d1 by simp
        qed
      qed
    qed
  qed
qed


text \<open>The copy becomes a file of its own; the clock value and the volume's cursors are all that differ from mwfs_file_put.\<close>

lemma file_copy_ok:
  assumes f: "fs_ok v (vsec v s) R" and d: "d \<in> R" "types v (vsec v s) d = MWFS_T_DIR" and src: "src \<in> R"
    and r: "mwfs_file_copy now v src v d name s = (e, v', s')"
  shows "same_geo v v' \<and> dev s' = dev s \<and> put_spec v (vsec v s) R d name (Some (File (content (vsec v s) (inode v (vsec v s) src)))) (e = MWFS_OK) (vsec v s')"
proof -
  note F = fs_okD [OF f]
  note v = live_okD(1) [OF F(1)]
  let ?src = "inode v (vsec v s) src"
  have same: ?thesis if "e \<noteq> MWFS_OK" "v' = v" "s' = s"
    using file_put_none [OF f that(1), of s] same_inodes_refl [OF F(1)] that by simp
  show ?thesis
  proof (cases "\<not> mwfs_name_ok name \<or> mwfs_ino_get v src s = None \<or> i_type ?src \<noteq> MWFS_T_FILE \<or> put_refused v d name s \<noteq> None")
    case True
    show ?thesis by (rule same) (use r True in \<open>auto simp: mwfs_file_copy_def dest: refused_err ino_get_Some split: if_splits option.splits\<close>)
  next
    case False
    hence nm: "mwfs_name_ok name" "put_refused v d name s = None" "i_type ?src = MWFS_T_FILE" "mwfs_ino_get v src s = Some ?src"
      using ino_get_Some by auto
    obtain n v1 s1 where al: "mwfs_ino_alloc v MWFS_T_FILE s = (n, v1, s1)" by (cases "mwfs_ino_alloc v MWFS_T_FILE s") auto
    show ?thesis
    proof (cases "n = 0")
      case True
      note A0 = ino_alloc_none [OF v al [unfolded True]]
      have "e \<noteq> MWFS_OK" "v' = v1" "s' = s1" using r nm al True by (auto simp: mwfs_file_copy_def)
      thus ?thesis using A0 file_put_none [OF f, of e s'] same_inodes_refl [OF F(1)] by (simp add: dev_def)
    next
      case n0: False
      note A = ino_alloc_ok [OF v al n0]
      note N = fresh_ok [OF F(1) disjI1 [OF refl] al n0]
      show ?thesis
      proof (cases "mwfs_ino_get v1 n s1")
        case None
        have "e \<noteq> MWFS_OK" "v' = v1" "s' = s1" using r nm al n0 None by (auto simp: mwfs_file_copy_def)
        thus ?thesis using A(5-7) file_put_none [OF f, of e s'] N(2) by (simp add: dev_def)
      next
        case (Some t0)
        note C = geo_cong [OF A(5)]
        have t0: "t0 = inode v (vsec v s1) n" using ino_get_Some [OF Some] C by simp
        let ?t = "t0\<lparr>i_aux := i_aux ?src, i_gen := now\<rparr>"
        note T = fresh_record [OF N(4) t0, where a = "i_aux ?src" and g = now]
        obtain e2 crc t2 v2 s2 where w: "mwfs_copy_loop v ?src 0 0xFFFFFFFF v1 ?t s1 = (e2, crc, t2, v2, s2)"
          by (cases "mwfs_copy_loop v ?src 0 0xFFFFFFFF v1 ?t s1") auto
        note S = same_inodesD [OF F(1) N(2) src]
        have so: "secs_ok v (vsec v s1)" and ps: "ptrs_ok v (vsec v s1) ?src"
          using live_okD(2) [OF N(3)] live_okD(6) [OF N(3), of src] src S(1) by auto
        have L: "growz v (slots_from 0) (vsec v s1) ?t (vsec v s2) t2 \<and> same_geo v v2 \<and> dev s2 = dev s1 \<and> i_size t2 \<le> 512 * file_max \<and>
            (e2 = MWFS_OK \<longrightarrow> content (vsec v s2) t2 = content (vsec v s1) ?t @ drop 0 (content (vsec v s1) ?src))"
          by (rule copy_loop_ok [OF v same_geo_refl A(5) so T(2) ps _ _ _ w]) (simp_all add: T(1,4))
        have ct: "content (vsec v s1) ?t = []" using T(4) by (simp add: content_def)
        have inst: "mwfs_file_install v2 d name n (t2\<lparr>i_crc := NOT crc\<rparr>) e2 s2 = (e, v', s')"
          using r nm al n0 Some w by (simp add: mwfs_file_copy_def Let_def)
        have g12: "same_geo v1 v2" using same_geo_trans [OF same_geo_sym [OF A(5)]] L by blast
        have I: "same_geo v v' \<and> dev s' = dev s \<and> put_spec v (vsec v s) R d name (Some (File (content (vsec v s2) t2))) (e = MWFS_OK) (vsec v s') \<and>
            (e = MWFS_OK \<longrightarrow> e2 = MWFS_OK)"
          by (rule fresh_install [OF f d al n0 T(1-3) _ _ g12 _ inst]) (use L in auto)
        show ?thesis
        proof (cases "e = MWFS_OK")
          case True
          hence "content (vsec v s2) t2 = content (vsec v s) ?src" using I L ct S(4) by simp
          thus ?thesis using I by simp
        next
          case False thus ?thesis using I put_spec_any by fastforce
        qed
      qed
    qed
  qed
qed


subsection \<open>Making a directory\<close>

lemma mkdir_ok:
  assumes f: "fs_ok v (vsec v s) R" and d: "d \<in> R" "types v (vsec v s) d = MWFS_T_DIR"
    and r: "mwfs_mkdir now v d name s = (e, m, v', s')"
  shows "same_geo v v' \<and> dev s' = dev s \<and> put_spec v (vsec v s) R d name (Some (Dir m)) (e = MWFS_OK) (vsec v s')"
proof -
  note F = fs_okD [OF f]
  note v = live_okD(1) [OF F(1)]
  have same: ?thesis if "e \<noteq> MWFS_OK" "v' = v" "s' = s"
    using file_put_none [OF f that(1), of s] same_inodes_refl [OF F(1)] that by simp
  show ?thesis
  proof (cases "mwfs_name_ok name \<and> mwfs_dir_lookup v d name s = Inl MWFS_E_NOENT")
    case False
    show ?thesis by (rule same) (use r False find_Inl [of v d name s] in
        \<open>auto simp: mwfs_mkdir_def mwfs_dir_lookup_def split: if_splits sum.splits\<close>)
  next
    case nm: True
    obtain n v1 s1 where al: "mwfs_ino_alloc v MWFS_T_DIR s = (n, v1, s1)" by (cases "mwfs_ino_alloc v MWFS_T_DIR s") auto
    show ?thesis
    proof (cases "n = 0")
      case True
      note A0 = ino_alloc_none [OF v al [unfolded True]]
      have "e \<noteq> MWFS_OK" "v' = v1" "s' = s1" using r nm al True by (auto simp: mwfs_mkdir_def)
      thus ?thesis using A0 file_put_none [OF f, of e s'] same_inodes_refl [OF F(1)] by (simp add: dev_def)
    next
      case n0: False
      note A = ino_alloc_ok [OF v al n0]
      note N = fresh_ok [OF F(1) disjI2 [OF refl] al n0]
      note C = geo_cong [OF A(5)]
      define s2 where "s2 = (case mwfs_ino_get v1 n s1 of None \<Rightarrow> s1 | Some dt \<Rightarrow> snd (mwfs_ino_put v1 n (dt\<lparr>i_gen := now\<rparr>) s1))"
      have st: "same_inodes v (vsec v s) (vsec v s2) R \<and> live_ok v (vsec v s2) (insert n R) \<and> types v (vsec v s2) n = MWFS_T_DIR \<and>
          i_size (inode v (vsec v s2) n) = 0 \<and> dev s2 = dev s"
      proof (cases "vsec v s2 = vsec v s1 \<and> dev s2 = dev s1")
        case True thus ?thesis using N A(6,7) by (simp add: ino_blank_def mwfs_ino_zero_def dev_def)
      next
        case False
        then obtain dt where g: "mwfs_ino_get v1 n s1 = Some dt" by (auto simp: s2_def split: option.splits)
        obtain ok where p: "mwfs_ino_put v1 n (dt\<lparr>i_gen := now\<rparr>) s1 = (ok, s2)"
          using g by (cases "mwfs_ino_put v1 n (dt\<lparr>i_gen := now\<rparr>) s1") (simp add: s2_def)
        note P = ino_put_cases [OF p, unfolded C, OF v]
        let ?dt = "dt\<lparr>i_gen := now\<rparr>"
        have dt: "dt = ino_blank MWFS_T_DIR" using ino_get_Some [OF g] C N(4) by simp
        have io: "ino_ok ?dt" using ino_blank_ok [of MWFS_T_DIR] dt by (simp add: ino_ok_def mwfs_types)
        have val: "val D ?dt a = 0" for D a using val_cong [of D dt D ?dt a] blank_val [of D MWFS_T_DIR a] dt by simp
        have pt: "ptrs_ok v D ?dt" "own D ?dt = {}" for D using io own_none [of D ?dt, OF val] by (simp_all add: ptrs_ok_def val)
        have iset: "ino_set v1 n ?dt = ino_set v n ?dt" using same_geoD [OF A(5)] by (simp add: fun_eq_iff ino_set_def)
        have ok: "ok" "vsec v s2 = ino_set v n ?dt (vsec v s1)" using P(1,3,4) False iset by (auto simp: dev_def split: if_splits)
        have lR: "live_ok v (vsec v s1) R" by (rule live_subset [OF N(3) subset_insertI])
        have s12: "same_inodes v (vsec v s1) (vsec v s2) R" unfolding ok(2) by (rule ino_set_same [OF lR A(2) N(1) io])
        have i: "inode v (vsec v s2) n = ?dt" unfolding ok(2) using ino_setD(2) [OF v live_okD(2) [OF N(3)] A(2) io] by simp
        have ty: "i_type ?dt = MWFS_T_DIR" "i_size ?dt = 0" by (simp_all add: dt ino_blank_def mwfs_ino_zero_def)
        have "live_ok v (vsec v s2) (insert n R)"
          by (rule live_insert [OF live_same [OF lR s12] _ A(2) i _ _ pt(1)]) (use A(1) ty pt(2) in auto)
        thus ?thesis using i ty same_inodes_trans [OF F(1) N(2) s12] P(3,4) A(6,7) by (simp add: dev_def)
      qed
      obtain e3 v3 s3 where ad: "mwfs_dir_add v1 d name n MWFS_T_DIR s2 = (e3, v3, s3)" by (cases "mwfs_dir_add v1 d name n MWFS_T_DIR s2") auto
      have res: "e = e3 \<and> v' = v3 \<and> s' = (if e3 = MWFS_OK then s3 else mwfs_ino_release v3 n s3) \<and> (e3 = MWFS_OK \<longrightarrow> m = n)"
        using r nm al n0 ad by (auto simp: mwfs_mkdir_def Let_def s2_def [symmetric] split: if_splits)
      have sR: "same_inodes v (vsec v s) (vsec v s2) R" using st by blast
      have f2: "fs_ok v (vsec v s2) R" by (rule fs_same [OF f sR])
      have td: "types v (vsec v s2) d = MWFS_T_DIR" using same_inodesD(1) [OF F(1) sR d(1)] d(2) by simp
      have st': "live_ok v (vsec v s2) (insert n R)" "types v (vsec v s2) n = MWFS_T_DIR"
        "MWFS_T_DIR = MWFS_T_FILE \<or> MWFS_T_DIR = MWFS_T_DIR \<and> i_size (inode v (vsec v s2) n) = 0" using st by simp_all
      note I = install_add [of v1 s2 R n _ d name, unfolded C, OF f2 N(1) st' d(1) td ad]
      have ps: "put_spec v1 = put_spec v" by (intro ext) (simp only: put_spec_def C)
      note rg = release_geo [OF same_geo_trans [OF A(5) I(1)]]
      show ?thesis
      proof (cases "e3 = MWFS_OK")
        case True
        hence "put_spec v (vsec v s2) R d name (Some (Dir n)) True (vsec v s3)" using I(4) ps by simp
        from put_spec_same [OF f sR d(1) this] show ?thesis
          using res True same_geo_trans [OF A(5) I(1)] I(2,3) st by (simp add: dev_def)
      next
        case False
        hence "put_spec v (vsec v s2) R d name (Some (Dir m)) False (vsec v (mwfs_ino_release v n s3))"
          using I(5) ps release_geo [OF A(5)] by simp
        from put_spec_same [OF f sR d(1) this] show ?thesis
          using res False same_geo_trans [OF A(5) I(1)] I(2,3) st release_dev rg by (simp add: dev_def)
      qed
    qed
  qed
qed

subsection \<open>Removing a name\<close>

lemma dir_nth_sector_none: "dir_nth_sector b es 0 0 = Inr k \<Longrightarrow> \<forall>e \<in> set es. dent_ino b e = 0"
  by (induction es) (auto split: if_splits)

lemma dir_nth_sector_seen: "dir_nth_sector b es 0 0 = Inr k \<Longrightarrow> k = 0"
  by (induction es) (auto split: if_splits)

lemma dir_nth_none:
  "fst (dir_nth_from v d [i..<m] 0 0 s) = 0 \<Longrightarrow> 8 * i \<le> k \<Longrightarrow> k < 8 * m \<Longrightarrow> de_ino (entry (vsec v s) d k) = 0"
proof (induction "m - i" arbitrary: i)
  case (Suc q)
  have im: "i < m" "q = m - Suc i" using Suc.hyps(2) by simp_all
  show ?case
  proof (cases "dir_sector v d i s")
    case (Inl e) thus ?thesis using Suc.prems(1) by (simp add: upt_conv_Cons [OF im(1)])
  next
    case (Inr y)
    obtain lba b where y: "y = (lba, b)" by (cases y) auto
    note S = dir_sector_Inr [OF Inr [unfolded y]]
    show ?thesis
    proof (cases "dir_nth_sector b [0..<8] 0 0")
      case (Inl e) thus ?thesis using Suc.prems(1) Inr y by (simp add: upt_conv_Cons [OF im(1)])
    next
      case seen: (Inr n)
      have n: "n = 0" by (rule dir_nth_sector_seen [OF seen])
      show ?thesis
      proof (cases "8 * Suc i \<le> k")
        case True
        have "fst (dir_nth_from v d [Suc i..<m] 0 0 s) = 0" using Suc.prems(1) Inr y seen n by (simp add: upt_conv_Cons [OF im(1)])
        thus ?thesis using Suc.hyps(1) [OF im(2)] True Suc.prems(3) by blast
      next
        case False
        hence k: "k = 8 * i + (k - 8 * i)" "k - 8 * i < 8" using Suc.prems(2) by simp_all
        have "dent_ino b (k - 8 * i) = 0" using dir_nth_sector_none [OF seen] k(2) by simp
        thus ?thesis using entry_split [OF k(2), of "vsec v s" d i] S k(1) by (simp add: dent_of_def)
      qed
    qed
  qed
qed simp

lemma is_empty_childless:
  assumes "mwfs_dir_is_empty v n s" "dir_ok (vsec v s) (inode v (vsec v s) n)"
  shows "childless (types v (vsec v s)) (dirents v (vsec v s)) n"
proof -
  let ?t = "inode v (vsec v s) n"
  obtain t where t: "dir_inode v n s = Inr t" using assms(1) by (auto simp: mwfs_dir_is_empty_def mwfs_dir_nth_def split: sum.splits)
  have "t = ?t" using dir_inode_Inr [OF t] by blast
  hence z: "fst (dir_nth_from v ?t [0..<i_size ?t div 512] 0 0 s) = 0"
    using assms(1) t dir_range [OF assms(2)] by (simp add: mwfs_dir_is_empty_def mwfs_dir_nth_def)
  have "de_ino (ents (vsec v s) ?t ! k) = 0" if "k < 8 * (i_size ?t div 512)" for k
    using dir_nth_none [OF z, of k] that nth_ents [OF that, of "vsec v s"] by simp
  thus ?thesis by (auto simp: childless_def in_set_conv_nth)
qed


lemma unlink_ok:
  assumes f: "fs_ok v (vsec v s) R" and d: "d \<in> R" "types v (vsec v s) d = MWFS_T_DIR"
    and r: "mwfs_unlink v d name s = (e, s')"
  shows "dev s' = dev s \<and> put_spec v (vsec v s) R d name None (e = MWFS_OK) (vsec v s')"
proof -
  let ?D = "vsec v s" let ?L = "dirents v ?D d" let ?z = "dent_of (mwfs_zeros 64) 0"
  note F = fs_okD [OF f]
  have same: ?thesis if "e \<noteq> MWFS_OK" "vsec v s' = vsec v s" "dev s' = dev s"
    using file_put_none [OF f that(1), of s'] same_inodes_refl [OF F(1)] that by simp
  show ?thesis
  proof (cases "mwfs_dir_find v d name s")
    case (Inl g)
    thus ?thesis using r find_Inl [OF Inl] by (intro same) (auto simp: mwfs_unlink_def mwfs_dir_lookup_def)
  next
    case (Inr y)
    obtain old ty lba en where y: "y = (old, ty, lba, en)" by (cases y) auto
    have lk: "mwfs_dir_lookup v d name s = Inr (old, ty)" using Inr y by (simp add: mwfs_dir_lookup_def)
    obtain k where k: "hit ?L name k" "de_ino (?L ! k) = old" "de_type (?L ! k) = ty"
      using find_Inr [OF F(2) [OF d] Inr [unfolded y]] by blast
    have kl: "k < length ?L" "de_is name (?L ! k)" "\<forall>k' < k. \<not> de_is name (?L ! k')" using k(1) unfolding hit_def by blast+
    have old0: "old \<noteq> 0" using kl(2) k(2) by (simp add: de_is_def)
    have lnk: "link R (types v ?D) (dirents v ?D) d k old" using d k(2) kl(1) old0 by (simp add: link_def)
    have o: "old \<in> R" "ty = types v ?D old" "old \<noteq> 1" using tree_okD(4-6) [OF F(3) lnk] k(3) by simp_all
    show ?thesis
    proof (cases "ty = MWFS_T_DIR \<and> \<not> mwfs_dir_is_empty v old s")
      case True thus ?thesis using r lk by (intro same) (simp_all add: mwfs_unlink_def)
    next
      case False
      have ch: "childless (types v ?D) (dirents v ?D) old"
      proof (cases "ty = MWFS_T_DIR")
        case True
        hence "mwfs_dir_is_empty v old s" "dir_ok ?D (inode v ?D old)" using False F(2) [OF o(1)] o(2) by simp_all
        thus ?thesis by (rule is_empty_childless)
      qed (use o(2) in \<open>simp add: childless_def\<close>)
      obtain e1 s1 where rm: "mwfs_dir_remove v d name s = (e1, s1)" by fastforce
      have res: "e = e1" "s' = (if e1 = MWFS_OK then mwfs_ino_release v old s1 else s1)"
        using r lk False rm by (auto simp: mwfs_unlink_def split: if_splits)
      have a: "dir_at v ?D R d" using F(1) d F(2) by (simp add: dir_at_def)
      note E = remove_ok [OF a rm]
      show ?thesis
      proof (cases "e1 = MWFS_OK")
        case False thus ?thesis using res E(1-3) by (intro same) (simp_all add: dev_def)
      next
        case True
        have st: "dir_step v ?D (vsec v s1) R d (?L[k := ?z])" using E(4) [OF True] hit_unique [OF k(1)] by blast
        have z0: "de_ino ?z = 0" by (rule dent_zeros)
        have "fs_ok v (vsec v s1) ((R - {de_ino ((?L @ []) ! k)}) \<union> ({de_ino ?z} - {0}))"
        proof (rule fs_dir_step [OF f F(1) order_refl d])
          show "dir_step v ?D (vsec v s1) R d ((?L @ [])[k := ?z])" using st by simp
          show "k < length (?L @ [])" unfolding append_Nil2 by (rule kl(1))
          show "childless (types v ?D) (dirents v ?D) (de_ino ((?L @ []) ! k))" unfolding append_Nil2 k(2) by (rule ch)
        qed (use z0 in simp_all)
        hence fs1: "fs_ok v (vsec v s1) (R - {old})" unfolding append_Nil2 k(2) z0 by simp
        have l1: "live_ok v (vsec v s1) R" and sm: "same_inodes v ?D (vsec v s1) (R - {d})" and dd: "types v (vsec v s1) d = MWFS_T_DIR" "dirents v (vsec v s1) d = ?L[k := ?z]"
          using st by (simp_all add: dir_step_def)
        have "live_ok v (vsec v s1) (insert old (R - {old}))" using l1 o(1) by (simp add: insert_absorb)
        note rel = release_ok [OF this, simplified]
        have lookd: "look v ?D d name = Some (if ty = MWFS_T_DIR then Dir old else File (content ?D (inode v ?D old)))"
          using hit_find [OF k(1)] d(2) k(2,3) by (simp add: look_def)
        have lq: "live_ok v ?D (R - {d})" by (rule live_subset [OF F(1) Diff_subset])
        have look1: "look v (vsec v s1) d' name' = (if d' = d \<and> mwfs_name_eq name' name then None else look v ?D d' name')"
          if d': "d' \<in> R" for d' name'
        proof (cases "d' = d \<and> mwfs_name_eq name' name")
          case True
          have "\<not> de_is name (?L[k := ?z] ! k')" if k': "k' < length (?L[k := ?z])" for k'
          proof (cases "k' = k")
            case True thus ?thesis using k' z0 by (simp add: de_is_def)
          next
            case False
            show ?thesis
            proof
              assume "de_is name (?L[k := ?z] ! k')"
              hence e: "de_ino (?L ! k') \<noteq> 0" "mwfs_name_eq (de_name (?L ! k')) name" using False by (simp_all add: de_is_def)
              have "link R (types v ?D) (dirents v ?D) d k' (de_ino (?L ! k'))" using d k' e(1) unfolding link_def length_list_update by blast
              moreover have "mwfs_name_eq (de_name (?L ! k')) (de_name (?L ! k))" using e(2) kl(2) by (simp add: de_is_def name_eq_upper)
              ultimately show False using tree_okD(8) [OF F(3) _ lnk] False by blast
            qed
          qed
          hence "find (de_is name) (?L[k := ?z]) = None" by (auto simp: find_None_iff in_set_conv_nth)
          thus ?thesis using True dd de_is_eq [of name' name] by (simp add: look_def)
        next
          case False
          have "find (de_is name') (?L[k := ?z]) = find (de_is name') ?L" if "d' = d"
          proof -
            have nn: "\<not> mwfs_name_eq name' name" using False that by blast
            have "mwfs_name_eq (de_name (?L ! k)) name" using kl(2) by (simp add: de_is_def)
            hence "\<not> de_is name' (?L ! k)" by (rule de_is_other [OF nn])
            moreover have "\<not> de_is name' ?z" using z0 by (simp add: de_is_def)
            ultimately show ?thesis using find_update_other [OF kl(1)] by blast
          qed
          thus ?thesis using look_step [OF f F(1) order_refl d(2) st d', of name'] False by auto
        qed
        have in_R: "d' \<in> R - {old}" "types v (vsec v s1) d' = MWFS_T_DIR" if "d' \<in> R" "types v ?D d' = MWFS_T_DIR" "look v ?D d name \<noteq> Some (Dir d')" for d'
        proof -
          have "d' \<noteq> old" using that(2,3) lookd o(2) by auto
          thus "d' \<in> R - {old}" using that(1) by blast
          show "types v (vsec v s1) d' = MWFS_T_DIR" using same_inodesD(1) [OF lq sm, of d'] that dd by (cases "d' = d") auto
        qed
        have "put_spec v ?D R d name None True (vsec v (mwfs_ino_release v old s1))"
        proof (rule put_specI [OF fs_same [OF fs1 rel(1)]])
          fix d' assume d': "d' \<in> R" "types v ?D d' = MWFS_T_DIR" "\<not> (True \<and> look v ?D d name = Some (Dir d'))"
          have I: "d' \<in> R - {old}" "types v (vsec v s1) d' = MWFS_T_DIR" using in_R [of d'] d' by simp_all
          show "d' \<in> R - {old} \<and> types v (vsec v (mwfs_ino_release v old s1)) d' = MWFS_T_DIR"
            using I same_inodesD(1) [OF fs_okD(1) [OF fs1] rel(1) I(1)] by simp
          show "look v (vsec v (mwfs_ino_release v old s1)) d' name' = (if True \<and> d' = d \<and> mwfs_name_eq name' name then None else look v ?D d' name')" for name'
            using look1 [OF d'(1), of name'] look_same [OF fs1 rel(1) I(1), of name'] by simp
        qed simp
        thus ?thesis using res True E(1,2) release_dev by (simp add: dev_def)
      qed
    qed
  qed
qed

end
