(* ===== verification/Mwfs_Chk.thy ===== *)
theory Mwfs_Chk
  imports Mwfs_Dir
begin

text \<open>
  mwfs.h, formatting, mounting and the checker. The volume handed to mwfs_mkfs and mwfs_open has its device, first
  sector and length set. The walk of the checker takes fuel for its two open-ended loops.
\<close>

subsection \<open>Formatting and mounting\<close>

definition mwfs_geometry :: "vol \<Rightarrow> bool \<times> vol" where
  "mwfs_geometry v =
     (let n = v_sectors v in
      if n < 64 then (False, v)
      else
        let inodes = n div 8;
            inodes = (if inodes < MWFS_MIN_INODES then MWFS_MIN_INODES else inodes);
            inodes = (if inodes > MWFS_MAX_INODES then MWFS_MAX_INODES else inodes);
            inodes = (inodes + 7) div 8 * 8;
            bitmap_sectors = (n + 4095) mod 2 ^ 32 div 4096;
            itable_lba = 1 + bitmap_sectors;
            itable_sectors = inodes div 8;
            data_lba = itable_lba + itable_sectors;
            v = v\<lparr>v_inodes := inodes, v_bitmap_lba := 1, v_bitmap_sectors := bitmap_sectors, v_itable_lba := itable_lba,
                  v_itable_sectors := itable_sectors, v_data_lba := data_lba\<rparr>
        in (data_lba + 8 \<le> n, v))"

definition mwfs_sb_head :: "vol \<Rightarrow> bytes" where
  "mwfs_sb_head v =
     mwfs_put MWFS_MAGIC @ mwfs_put MWFS_VERSION @ mwfs_put (v_sectors v) @ mwfs_put (v_inodes v) @
     mwfs_put (v_bitmap_lba v) @ mwfs_put (v_bitmap_sectors v) @ mwfs_put (v_itable_lba v) @
     mwfs_put (v_itable_sectors v) @ mwfs_put (v_data_lba v) @ mwfs_put MWFS_ROOT_INO @ mwfs_zeros 4"

definition mwfs_sb_write :: "vol \<Rightarrow> blk \<Rightarrow> bool \<times> blk" where
  "mwfs_sb_write v s =
     (let b = mwfs_sb_head v;
          b = b @ mwfs_put (unat (NOT (mwfs_crc32_update 0xFFFFFFFF (take MWFS_SB_CRC_OFF b)))) @
              map (\<lambda>i. v_label v ! i) [0..<16] @ mwfs_zeros 448
      in mwfs_wr v 0 b s)"

text \<open>Sector si of the bitmap mkfs writes: metadata and the bits past the end are marked.\<close>

definition mkfs_bitmap :: "vol \<Rightarrow> nat \<Rightarrow> bytes" where
  "mkfs_bitmap v si =
     fold (\<lambda>j b. let lba = si * 4096 + j
                 in if lba < v_data_lba v \<or> lba \<ge> v_sectors v then mwfs_bit_put b j True else b) [0..<4096] (mwfs_zeros 512)"

text \<open>A loop of writes that stops at the first failure.\<close>

fun wr_all :: "vol \<Rightarrow> (nat \<times> bytes) list \<Rightarrow> blk \<Rightarrow> bool \<times> blk" where
  "wr_all v [] s = (True, s)"
| "wr_all v ((lba, b) # ws) s = (let (ok, s) = mwfs_wr v lba b s in if ok then wr_all v ws s else (False, s))"

definition mwfs_mkfs :: "vol \<Rightarrow> bytes \<Rightarrow> blk \<Rightarrow> mwfs_e \<times> vol \<times> blk" where
  "mwfs_mkfs v label s =
     (let (ok, v) = mwfs_geometry v in
      if \<not> ok then (MWFS_E_SMALL, v, s)
      else let (ok, s) = mwfs_wr v 0 (mwfs_zeros 512) s in
        if \<not> ok then (MWFS_E_IO, v, s)
        else let (ok, s) = wr_all v (map (\<lambda>si. (v_bitmap_lba v + si, mkfs_bitmap v si)) [0..<v_bitmap_sectors v]) s in
          if \<not> ok then (MWFS_E_IO, v, s)
          else let (ok, s) = wr_all v (map (\<lambda>si. (v_itable_lba v + si, mwfs_zeros 512)) [0..<v_itable_sectors v]) s in
            if \<not> ok then (MWFS_E_IO, v, s)
            else let (ok, s) = mwfs_ino_put v MWFS_ROOT_INO (mwfs_ino_zero\<lparr>i_type := MWFS_T_DIR\<rparr>) s in
              if \<not> ok then (MWFS_E_IO, v, s)
              else let v = v\<lparr>v_label := mwfs_strcpy label 16, v_cur_blk := v_data_lba v, v_cur_ino := 1\<rparr>;
                       (ok, s) = mwfs_sb_write v s
                   in (if ok then MWFS_OK else MWFS_E_IO, v, s))"

definition mwfs_open :: "vol \<Rightarrow> blk \<Rightarrow> mwfs_e \<times> vol" where
  "mwfs_open v s =
     (case blk_read (v_dev v) (v_base v) s of
        None \<Rightarrow> (MWFS_E_IO, v)
      | Some b \<Rightarrow>
        if mwfs_le b 0 \<noteq> MWFS_MAGIC then (MWFS_E_NOFS, v)
        else if mwfs_le b 4 \<noteq> MWFS_VERSION then (MWFS_E_CORRUPT, v)
        else if mwfs_le b MWFS_SB_CRC_OFF \<noteq> unat (NOT (mwfs_crc32_update 0xFFFFFFFF (take MWFS_SB_CRC_OFF b)))
          then (MWFS_E_CORRUPT, v)
        else let total_secs = mwfs_le b 8 in
          if total_secs > v_sectors v \<or> total_secs < 64 then (MWFS_E_CORRUPT, v)
          else
            let v = v\<lparr>v_sectors := total_secs, v_inodes := mwfs_le b 12, v_bitmap_lba := mwfs_le b 16,
                      v_bitmap_sectors := mwfs_le b 20, v_itable_lba := mwfs_le b 24, v_itable_sectors := mwfs_le b 28,
                      v_data_lba := mwfs_le b 32\<rparr>;
                (ok, g) = mwfs_geometry v
            in if \<not> ok \<or> v_inodes g \<noteq> v_inodes v \<or> v_bitmap_lba g \<noteq> v_bitmap_lba v \<or>
                  v_bitmap_sectors g \<noteq> v_bitmap_sectors v \<or> v_itable_lba g \<noteq> v_itable_lba v \<or>
                  v_itable_sectors g \<noteq> v_itable_sectors v \<or> v_data_lba g \<noteq> v_data_lba v then (MWFS_E_CORRUPT, v)
               else
                 let v = v\<lparr>v_label := (map (\<lambda>i. b ! (48 + i)) [0..<16])[15 := 0], v_cur_blk := v_data_lba v, v_cur_ino := 1\<rparr>
                 in case mwfs_ino_get v MWFS_ROOT_INO s of
                      None \<Rightarrow> (MWFS_E_IO, v)
                    | Some r \<Rightarrow> (if i_type r \<noteq> MWFS_T_DIR then MWFS_E_CORRUPT else MWFS_OK, v))"

text \<open>The zero bits of a bitmap sector, and their sum until a sector cannot be read.\<close>

definition zero_bits :: "bytes \<Rightarrow> nat" where
  "zero_bits b = sum_list (map (\<lambda>i. sum_list (map (\<lambda>k. of_bool (bit (NOT (b ! i)) k)) [0..<8])) [0..<512])"

fun mwfs_free_from :: "vol \<Rightarrow> nat list \<Rightarrow> nat \<Rightarrow> blk \<Rightarrow> nat" where
  "mwfs_free_from v [] n s = n"
| "mwfs_free_from v (si # sis) n s =
     (case mwfs_rd v (v_bitmap_lba v + si) s of
        None \<Rightarrow> n | Some b \<Rightarrow> mwfs_free_from v sis (n + zero_bits b) s)"

definition mwfs_free_count :: "vol \<Rightarrow> blk \<Rightarrow> nat" where
  "mwfs_free_count v s = mwfs_free_from v [0..<v_bitmap_sectors v] 0 s"

subsection \<open>The checker\<close>

record report =
  r_files :: nat
  r_dirs :: nat
  r_orphans :: nat
  r_bad_entries :: nat
  r_bad_blocks :: nat
  r_unmarked :: nat
  r_leaked :: nat
  r_damaged :: nat
  r_dup_links :: nat
  r_fixed :: nat
  r_skipped :: bool
  r_incomplete :: bool

definition report_zero :: report where
  "report_zero = \<lparr>r_files = 0, r_dirs = 0, r_orphans = 0, r_bad_entries = 0, r_bad_blocks = 0, r_unmarked = 0, r_leaked = 0,
     r_damaged = 0, r_dup_links = 0, r_fixed = 0, r_skipped = False, r_incomplete = False\<rparr>"

text \<open>mwfs_each_block: the callback gets the sector and its context, which holds the device state the tables are read
  from; False stops.\<close>

type_synonym 'c walker = "nat \<Rightarrow> 'c \<times> blk \<Rightarrow> bool \<times> 'c \<times> blk"

fun each_ptr :: "'c walker \<Rightarrow> nat list \<Rightarrow> 'c \<times> blk \<Rightarrow> bool \<times> 'c \<times> blk" where
  "each_ptr fn [] cs = (True, cs)"
| "each_ptr fn (l # ls) cs =
     (if l = 0 then each_ptr fn ls cs else let (go, cs) = fn l cs in if go then each_ptr fn ls cs else (False, cs))"

fun each_mid :: "vol \<Rightarrow> 'c walker \<Rightarrow> nat list \<Rightarrow> 'c \<times> blk \<Rightarrow> bool \<times> 'c \<times> blk" where
  "each_mid v fn [] cs = (True, cs)"
| "each_mid v fn (m # ms) cs =
     (if m = 0 then each_mid v fn ms cs
      else let (go, cs) = fn m cs in
        if \<not> go then (False, cs)
        else case mwfs_rd v m (snd cs) of
          None \<Rightarrow> each_mid v fn ms cs
        | Some b \<Rightarrow> let (go, cs) = each_ptr fn (mwfs_ptrs b) cs in if go then each_mid v fn ms cs else (False, cs))"

definition each_dind :: "vol \<Rightarrow> 'c walker \<Rightarrow> ino \<Rightarrow> 'c \<times> blk \<Rightarrow> bool \<times> 'c \<times> blk" where
  "each_dind v fn t cs =
     (if i_dind t = 0 then (True, cs)
      else let (go, cs) = fn (i_dind t) cs in
        if \<not> go then (False, cs)
        else case mwfs_rd v (i_dind t) (snd cs) of None \<Rightarrow> (True, cs) | Some b \<Rightarrow> each_mid v fn (mwfs_ptrs b) cs)"

definition mwfs_each_block :: "vol \<Rightarrow> ino \<Rightarrow> 'c walker \<Rightarrow> 'c \<times> blk \<Rightarrow> bool \<times> 'c \<times> blk" where
  "mwfs_each_block v t fn cs =
     (let (go, cs) = each_ptr fn (i_direct t) cs in
      if \<not> go then (False, cs)
      else if i_ind t = 0 then each_dind v fn t cs
      else let (go, cs) = fn (i_ind t) cs in
        if \<not> go then (False, cs)
        else case mwfs_rd v (i_ind t) (snd cs) of
          None \<Rightarrow> (True, cs)
        | Some b \<Rightarrow> let (go, cs) = each_ptr fn (mwfs_ptrs b) cs in if go then each_dind v fn t cs else (False, cs))"

definition mwfs_chk_block :: "vol \<Rightarrow> bool \<Rightarrow> report walker" where
  "mwfs_chk_block v fix lba cs =
     (let (r, s) = cs in
      if lba < v_data_lba v \<or> lba \<ge> v_sectors v then (True, r\<lparr>r_bad_blocks := r_bad_blocks r + 1\<rparr>, s)
      else if mwfs_bit_get v lba s = Some False
        then let r = r\<lparr>r_unmarked := r_unmarked r + 1\<rparr>
             in if fix then let (ok, s) = mwfs_bit_set v lba True s
                            in (True, if ok then r\<lparr>r_fixed := r_fixed r + 1\<rparr> else r, s)
                else (True, r, s)
      else (True, r, s))"

text \<open>The state of the walk: report, inodes reached, directory stack (its top first), devices.\<close>

record walk =
  w_r :: report
  w_reach :: "nat set"
  w_stack :: "nat list"
  w_s :: blk

definition chk_blocks :: "vol \<Rightarrow> bool \<Rightarrow> ino \<Rightarrow> walk \<Rightarrow> walk" where
  "chk_blocks v fix t w =
     (let (_, r, s) = mwfs_each_block v t (mwfs_chk_block v fix) (w_r w, w_s w) in w\<lparr>w_r := r, w_s := s\<rparr>)"

text \<open>if (fix && mwfs_dir_remove(v, dino, e.name) == MWFS_OK) { r->fixed++; idx--; }, with the index of the next turn.\<close>

definition chk_drop :: "vol \<Rightarrow> bool \<Rightarrow> nat \<Rightarrow> bytes \<Rightarrow> nat \<Rightarrow> walk \<Rightarrow> nat \<times> walk" where
  "chk_drop v fix dino name idx w =
     (if fix then let (e, s) = mwfs_dir_remove v dino name (w_s w); w = w\<lparr>w_s := s\<rparr>
                  in if e = MWFS_OK then (idx, w\<lparr>w_r := (w_r w)\<lparr>r_fixed := r_fixed (w_r w) + 1\<rparr>\<rparr>) else (idx + 1, w)
      else (idx + 1, w))"

definition chk_entry :: "vol \<Rightarrow> bool \<Rightarrow> nat \<Rightarrow> dirent \<Rightarrow> nat \<Rightarrow> walk \<Rightarrow> nat \<times> walk" where
  "chk_entry v fix dino e idx w =
     (case (if de_ino e \<ge> v_inodes v then None else mwfs_ino_get v (de_ino e) (w_s w)) of
        None \<Rightarrow> chk_drop v fix dino (de_name e) idx (w\<lparr>w_r := (w_r w)\<lparr>r_bad_entries := r_bad_entries (w_r w) + 1\<rparr>\<rparr>)
      | Some t \<Rightarrow>
        if i_type t = MWFS_T_FREE \<or> i_type t \<noteq> de_type e
        then chk_drop v fix dino (de_name e) idx (w\<lparr>w_r := (w_r w)\<lparr>r_bad_entries := r_bad_entries (w_r w) + 1\<rparr>\<rparr>)
        else if de_ino e \<in> w_reach w
        then chk_drop v fix dino (de_name e) idx (w\<lparr>w_r := (w_r w)\<lparr>r_dup_links := r_dup_links (w_r w) + 1\<rparr>\<rparr>)
        else let w = w\<lparr>w_reach := insert (de_ino e) (w_reach w)\<rparr> in
          if i_type t = MWFS_T_DIR
          then (idx + 1, if length (w_stack w) < MWFS_CHK_STACK then w\<lparr>w_stack := de_ino e # w_stack w\<rparr>
                         else w\<lparr>w_r := (w_r w)\<lparr>r_incomplete := True\<rparr>\<rparr>)
          else let w = chk_blocks v fix t (w\<lparr>w_r := (w_r w)\<lparr>r_files := r_files (w_r w) + 1\<rparr>\<rparr>)
               in (idx + 1, if \<not> mwfs_file_verify v (de_ino e) (w_s w)
                            then w\<lparr>w_r := (w_r w)\<lparr>r_damaged := r_damaged (w_r w) + 1\<rparr>\<rparr> else w))"

fun chk_entries :: "nat \<Rightarrow> vol \<Rightarrow> bool \<Rightarrow> nat \<Rightarrow> nat \<Rightarrow> walk \<Rightarrow> walk option" where
  "chk_entries 0 v fix dino idx w = None"
| "chk_entries (Suc fuel) v fix dino idx w =
     (case mwfs_dir_nth v dino idx (w_s w) of
        (n, Some e) \<Rightarrow> let (idx, w) = chk_entry v fix dino e idx w in chk_entries fuel v fix dino idx w
      | (n, None) \<Rightarrow> Some w)"

fun mwfs_chk_walk :: "nat \<Rightarrow> vol \<Rightarrow> bool \<Rightarrow> walk \<Rightarrow> walk option" where
  "mwfs_chk_walk 0 v fix w = None"
| "mwfs_chk_walk (Suc fuel) v fix w =
     (case w_stack w of
        [] \<Rightarrow> Some w
      | dino # st \<Rightarrow>
        let w = w\<lparr>w_stack := st\<rparr> in
        case mwfs_ino_get v dino (w_s w) of
          None \<Rightarrow> mwfs_chk_walk fuel v fix w
        | Some d \<Rightarrow>
          let w = chk_blocks v fix d (w\<lparr>w_r := (w_r w)\<lparr>r_dirs := r_dirs (w_r w) + 1\<rparr>\<rparr>)
          in case chk_entries fuel v fix dino 0 w of None \<Rightarrow> None | Some w \<Rightarrow> mwfs_chk_walk fuel v fix w)"

text \<open>The inodes nobody points at; False when one could not be read.\<close>

fun chk_orphans :: "vol \<Rightarrow> bool \<Rightarrow> nat set \<Rightarrow> nat list \<Rightarrow> report \<times> blk \<Rightarrow> bool \<times> report \<times> blk" where
  "chk_orphans v fix reach [] rs = (True, rs)"
| "chk_orphans v fix reach (n # ns) (r, s) =
     (case mwfs_ino_get v n s of
        None \<Rightarrow> (False, r, s)
      | Some t \<Rightarrow>
        if i_type t = MWFS_T_FREE \<or> n \<in> reach then chk_orphans v fix reach ns (r, s)
        else let r = r\<lparr>r_orphans := r_orphans r + 1\<rparr>
             in if fix then chk_orphans v fix reach ns (r\<lparr>r_fixed := r_fixed r + 1\<rparr>, mwfs_ino_release v n s)
                else chk_orphans v fix reach ns (r, s))"

definition mwfs_leak_mark :: "nat \<Rightarrow> nat \<Rightarrow> (nat \<Rightarrow> bool) walker" where
  "mwfs_leak_mark lo hi lba cs = (True, if lba \<ge> lo \<and> lba < hi then (fst cs)(lba - lo := True) else fst cs, snd cs)"

fun leak_shadow :: "vol \<Rightarrow> nat set \<Rightarrow> nat \<Rightarrow> nat \<Rightarrow> nat list \<Rightarrow> (nat \<Rightarrow> bool) \<Rightarrow> blk \<Rightarrow> (nat \<Rightarrow> bool) option" where
  "leak_shadow v reach lo hi [] shadow s = Some shadow"
| "leak_shadow v reach lo hi (n # ns) shadow s =
     (if n \<notin> reach then leak_shadow v reach lo hi ns shadow s
      else case mwfs_ino_get v n s of
        None \<Rightarrow> None
      | Some t \<Rightarrow> leak_shadow v reach lo hi ns (fst (snd (mwfs_each_block v t (mwfs_leak_mark lo hi) (shadow, s)))) s)"

definition leak_sector :: "vol \<Rightarrow> bool \<Rightarrow> (nat \<Rightarrow> bool) \<Rightarrow> nat \<Rightarrow> nat \<Rightarrow> report \<times> blk \<Rightarrow> report \<times> blk" where
  "leak_sector v fix shadow lo lba rs =
     (let (r, s) = rs in
      if mwfs_bit_get v lba s = Some True \<and> \<not> shadow (lba - lo)
      then let r = r\<lparr>r_leaked := r_leaked r + 1\<rparr>
           in if fix then let (ok, s) = mwfs_bit_set v lba False s in (if ok then r\<lparr>r_fixed := r_fixed r + 1\<rparr> else r, s)
              else (r, s)
      else (r, s))"

fun leak_windows :: "vol \<Rightarrow> bool \<Rightarrow> nat set \<Rightarrow> nat list \<Rightarrow> report \<times> blk \<Rightarrow> mwfs_e \<times> report \<times> blk" where
  "leak_windows v fix reach [] rs = (MWFS_OK, rs)"
| "leak_windows v fix reach (lo # los) rs =
     (let hi = min (lo + 32768) (v_sectors v) in
      case leak_shadow v reach lo hi [1..<v_inodes v] (\<lambda>_. False) (snd rs) of
        None \<Rightarrow> (MWFS_E_IO, rs)
      | Some shadow \<Rightarrow> leak_windows v fix reach los (fold (leak_sector v fix shadow lo) [lo..<hi] rs))"

definition mwfs_check :: "nat \<Rightarrow> vol \<Rightarrow> bool \<Rightarrow> blk \<Rightarrow> (mwfs_e \<times> report \<times> blk) option" where
  "mwfs_check fuel v fix s =
     (case mwfs_chk_walk fuel v fix
             \<lparr>w_r = report_zero, w_reach = {MWFS_ROOT_INO}, w_stack = [MWFS_ROOT_INO], w_s = s\<rparr> of
        None \<Rightarrow> None
      | Some w \<Rightarrow>
        Some (if r_incomplete (w_r w) then (MWFS_OK, w_r w, w_s w)
              else let (ok, r, s) = chk_orphans v fix (w_reach w) [2..<v_inodes v] (w_r w, w_s w) in
                if \<not> ok then (MWFS_E_IO, r, s)
                else if v_sectors v > 16 * 1024 * 1024 then (MWFS_OK, r\<lparr>r_skipped := True\<rparr>, s)
                else leak_windows v fix (w_reach w)
                       (map (\<lambda>i. v_data_lba v + i * 32768) [0..<(v_sectors v - v_data_lba v + 32767) div 32768]) (r, s)))"

end
