(* ===== verification/Mwfs_Format.thy ===== *)
theory Mwfs_Format
  imports Mwfs_Save Mwfs_Chk
begin

text \<open>
  Formatting and mounting: mwfs_mkfs leaves an empty file system that mwfs_open accepts with the geometry, label and cursors
  mwfs_mkfs left in the volume.
\<close>


subsection \<open>Formatting\<close>

text \<open>What mwfs_geometry computes is a volume the other operations can work on.\<close>

definition geo_inodes :: "nat \<Rightarrow> nat" where "geo_inodes n = (min 16384 (max 32 (n div 8)) + 7) div 8"
definition geo_bitmap :: "nat \<Rightarrow> nat" where "geo_bitmap n = (n + 4095) mod 2 ^ 32 div 4096"

definition geo_set :: "vol \<Rightarrow> vol" where
  "geo_set v = (let n = v_sectors v in v\<lparr>v_inodes := geo_inodes n * 8, v_bitmap_lba := 1, v_bitmap_sectors := geo_bitmap n,
     v_itable_lba := 1 + geo_bitmap n, v_itable_sectors := geo_inodes n, v_data_lba := 1 + geo_bitmap n + geo_inodes n\<rparr>)"

lemma geometry_form:
  "mwfs_geometry v = (if v_sectors v < 64 then (False, v) else (v_data_lba (geo_set v) + 8 \<le> v_sectors v, geo_set v))"
  by (simp add: mwfs_geometry_def geo_set_def geo_inodes_def geo_bitmap_def Let_def MWFS_MIN_INODES_def MWFS_MAX_INODES_def max_def min_def)

lemma geometry_ok:
  assumes "mwfs_geometry v = (True, v')" "v_base v + v_sectors v \<le> 2 ^ 32" "v_sectors v \<le> 2 ^ 32 - 4096"
  shows "vol_ok v'" "v_dev v' = v_dev v" "v_base v' = v_base v" "v_sectors v' = v_sectors v" "64 \<le> v_sectors v"
proof -
  let ?n = "v_sectors v" let ?i = "min 16384 (max 32 (?n div 8))"
  have r: "v' = geo_set v" and n: "64 \<le> ?n" and d: "v_data_lba (geo_set v) + 8 \<le> ?n"
    using assms(1) by (auto simp: geometry_form split: if_splits)
  have m: "(?n + 4095) mod 2 ^ 32 = ?n + 4095" by (rule mod_less) (use assms(3) in simp)
  have b: "?n \<le> 4096 * ((?n + 4095) div 4096)" using div_mult_mod_eq [of "?n + 4095" 4096] mod_less_divisor [of 4096 "?n + 4095"] by linarith
  have i: "32 \<le> ?i" "?i \<le> 16384" by simp_all
  have "32 \<le> (?i + 7) div 8 * 8" using i(1) by linarith
  moreover have "(?i + 7) div 8 < 2049" by (rule less_mult_imp_div_less) (use i(2) in linarith)
  ultimately have i2: "32 \<le> (?i + 7) div 8 * 8" "(?i + 7) div 8 * 8 \<le> 16384" by linarith+
  have bs: "geo_bitmap ?n = (?n + 4095) div 4096" unfolding geo_bitmap_def m ..
  have is8: "geo_inodes ?n = (?i + 7) div 8" by (simp add: geo_inodes_def)
  have r': "v' = v\<lparr>v_inodes := geo_inodes ?n * 8, v_bitmap_lba := 1, v_bitmap_sectors := geo_bitmap ?n, v_itable_lba := 1 + geo_bitmap ?n,
      v_itable_sectors := geo_inodes ?n, v_data_lba := 1 + geo_bitmap ?n + geo_inodes ?n\<rparr>" unfolding r geo_set_def Let_def ..
  have d': "1 + geo_bitmap ?n + geo_inodes ?n + 8 \<le> ?n" using d by (simp add: geo_set_def Let_def)
  show "v_dev v' = v_dev v" "v_base v' = v_base v" "v_sectors v' = v_sectors v" "64 \<le> v_sectors v" using r' n by simp_all
  show "vol_ok v'" unfolding vol_ok_def r' using assms(2) b [folded bs] d' i2 [folded is8] by simp
qed

text \<open>A run of writes.\<close>

lemma wr_all_run:
  assumes v: "vol_ok v"
  shows "wr_all v (map (\<lambda>i. (a + i, f i)) [k..<n]) s = (True, s') \<Longrightarrow>
    (\<forall>x. vsec v s' x = (if a + k \<le> x \<and> x < a + n then f (x - a) else vsec v s x)) \<and> dev s' = dev s"
proof (induction "n - k" arbitrary: k s)
  case (Suc q)
  have kn: "k < n" "q = n - Suc k" using Suc.hyps(2) by simp_all
  obtain ok s1 where w: "mwfs_wr v (a + k) (f k) s = (ok, s1)" by fastforce
  have o: "ok" and r: "wr_all v (map (\<lambda>i. (a + i, f i)) [Suc k..<n]) s1 = (True, s')"
    using Suc.prems w by (auto simp: upt_conv_Cons [OF kn(1)] split: if_splits)
  note I = Suc.hyps(1) [OF kn(2) r]
  note W = wr_cases [OF w v]
  have "vsec v s' x = (if a + k \<le> x \<and> x < a + n then f (x - a) else vsec v s x)" for x
  proof (cases "x = a + k")
    case True thus ?thesis using I W(1) o kn(1) by simp
  next
    case False
    hence "(a + Suc k \<le> x \<and> x < a + n) = (a + k \<le> x \<and> x < a + n)" by linarith
    thus ?thesis using I W(1) o False by simp
  qed
  thus ?case using I W(3,4) by (simp add: dev_def)
qed auto

text \<open>The bitmap written marks the sectors that hold no data.\<close>

lemma mkfs_bitmap_bit:
  assumes "j < 4096"
  shows "bit (mkfs_bitmap v si ! (j div 8)) (j mod 8) \<longleftrightarrow> si * 4096 + j < v_data_lba v \<or> v_sectors v \<le> si * 4096 + j"
proof -
  let ?f = "\<lambda>j b. let lba = si * 4096 + j in if lba < v_data_lba v \<or> lba \<ge> v_sectors v then mwfs_bit_put b j True else b"
  have "length (fold ?f [0..<k] (mwfs_zeros 512)) = 512 \<and>
    (bit (fold ?f [0..<k] (mwfs_zeros 512) ! (j div 8)) (j mod 8) \<longleftrightarrow> j < k \<and> (si * 4096 + j < v_data_lba v \<or> v_sectors v \<le> si * 4096 + j))"
    if "k \<le> 4096" for k
    using that
  proof (induction k)
    case 0
    have "j div 8 < 512" using assms by (simp add: div_less_iff_less_mult)
    thus ?case by (simp add: mwfs_zeros_def)
  next
    case (Suc k)
    let ?b = "fold ?f [0..<k] (mwfs_zeros 512)"
    have I: "length ?b = 512" "bit (?b ! (j div 8)) (j mod 8) \<longleftrightarrow> j < k \<and> (si * 4096 + j < v_data_lba v \<or> v_sectors v \<le> si * 4096 + j)"
      using Suc by simp_all
    have "bit (mwfs_bit_put ?b k True ! (j div 8)) (j mod 8) = (if j = k then True else bit (?b ! (j div 8)) (j mod 8))"
      by (rule bit_put_bit [OF I(1) _ assms]) (use Suc.prems in simp)
    thus ?case using I by (auto simp: Let_def)
  qed
  from this [of 4096] show ?thesis using assms by (simp add: mkfs_bitmap_def)
qed

lemma length_mkfs_bitmap [simp]: "length (mkfs_bitmap v si) = 512"
proof -
  have "length (fold (\<lambda>j b. let lba = si * 4096 + j in if lba < v_data_lba v \<or> lba \<ge> v_sectors v then mwfs_bit_put b j True else b) js b) = length b" for js b
    by (induction js arbitrary: b) (simp_all add: Let_def)
  thus ?thesis by (simp add: mkfs_bitmap_def)
qed

text \<open>The superblock, and what mwfs_open reads in it.\<close>

definition sb_bytes :: "vol \<Rightarrow> bytes" where
  "sb_bytes v = mwfs_sb_head v @ mwfs_put (unat (NOT (mwfs_crc32_update 0xFFFFFFFF (take MWFS_SB_CRC_OFF (mwfs_sb_head v))))) @
     map (\<lambda>i. v_label v ! i) [0..<16] @ mwfs_zeros 448"

lemma sb_write: "mwfs_sb_write v s = mwfs_wr v 0 (sb_bytes v) s"
  by (simp add: mwfs_sb_write_def sb_bytes_def Let_def)

lemma length_sb_head [simp]: "length (mwfs_sb_head v) = 44" by (simp add: mwfs_sb_head_def)

lemma length_sb [simp]: "length (sb_bytes v) = 512" by (simp add: sb_bytes_def)

lemma sb_fields:
  assumes v: "vol_ok v" and n: "v_sectors v < 2 ^ 32"
  shows "mwfs_le (sb_bytes v) 0 = MWFS_MAGIC" "mwfs_le (sb_bytes v) 4 = MWFS_VERSION" "mwfs_le (sb_bytes v) 8 = v_sectors v"
    "mwfs_le (sb_bytes v) 12 = v_inodes v" "mwfs_le (sb_bytes v) 16 = v_bitmap_lba v" "mwfs_le (sb_bytes v) 20 = v_bitmap_sectors v"
    "mwfs_le (sb_bytes v) 24 = v_itable_lba v" "mwfs_le (sb_bytes v) 28 = v_itable_sectors v" "mwfs_le (sb_bytes v) 32 = v_data_lba v"
    "mwfs_le (sb_bytes v) MWFS_SB_CRC_OFF = unat (NOT (mwfs_crc32_update 0xFFFFFFFF (take MWFS_SB_CRC_OFF (sb_bytes v))))"
    "i < 16 \<Longrightarrow> sb_bytes v ! (48 + i) = v_label v ! i"
proof -
  have lt: "v_inodes v < 2 ^ 32" "v_bitmap_lba v < 2 ^ 32" "v_bitmap_sectors v < 2 ^ 32" "v_itable_lba v < 2 ^ 32" "v_itable_sectors v < 2 ^ 32"
    "v_data_lba v < 2 ^ 32" using v n by (auto simp: vol_ok_def)
  have k: "MWFS_MAGIC < 2 ^ 32" "MWFS_VERSION < 2 ^ 32" by (simp_all add: MWFS_MAGIC_def MWFS_VERSION_def)
  note S = sb_bytes_def mwfs_sb_head_def append_assoc
  show "mwfs_le (sb_bytes v) 0 = MWFS_MAGIC" unfolding S using k by (simp add: le_put_head)
  show "mwfs_le (sb_bytes v) 4 = MWFS_VERSION" unfolding S using k by (simp add: mwfs_le_past le_put_head)
  show "mwfs_le (sb_bytes v) 8 = v_sectors v" unfolding S using n by (simp add: mwfs_le_past le_put_head)
  show "mwfs_le (sb_bytes v) 12 = v_inodes v" "mwfs_le (sb_bytes v) 16 = v_bitmap_lba v" "mwfs_le (sb_bytes v) 20 = v_bitmap_sectors v"
    "mwfs_le (sb_bytes v) 24 = v_itable_lba v" "mwfs_le (sb_bytes v) 28 = v_itable_sectors v" "mwfs_le (sb_bytes v) 32 = v_data_lba v"
    unfolding S using lt by (simp_all add: mwfs_le_past le_put_head)
  have t: "take 44 (sb_bytes v) = mwfs_sb_head v" by (simp add: sb_bytes_def)
  have "mwfs_le (sb_bytes v) 44 = unat (NOT (mwfs_crc32_update 0xFFFFFFFF (mwfs_sb_head v)))"
  proof -
    let ?c = "NOT (mwfs_crc32_update 0xFFFFFFFF (mwfs_sb_head v))"
    have c: "unat ?c < 2 ^ 32" using unat_u32_lt [of ?c] by simp
    have "take MWFS_SB_CRC_OFF (mwfs_sb_head v) = mwfs_sb_head v" by (simp add: MWFS_SB_CRC_OFF_def)
    thus ?thesis unfolding sb_bytes_def using mwfs_le_append [of 44 "mwfs_sb_head v" "unat ?c", OF _ c] by simp
  qed
  thus "mwfs_le (sb_bytes v) MWFS_SB_CRC_OFF = unat (NOT (mwfs_crc32_update 0xFFFFFFFF (take MWFS_SB_CRC_OFF (sb_bytes v))))"
    by (simp add: MWFS_SB_CRC_OFF_def t)
  show "i < 16 \<Longrightarrow> sb_bytes v ! (48 + i) = v_label v ! i" by (simp add: sb_bytes_def nth_append)
qed


text \<open>The disk mwfs_mkfs leaves when it succeeds.\<close>

lemma mkfs_disk:
  assumes r: "mwfs_mkfs v label s = (MWFS_OK, v', s')" and v: "v_base v + v_sectors v \<le> 2 ^ 32" "v_sectors v \<le> 2 ^ 32 - 4096"
    and s: "secs_ok v (vsec v s)"
  shows "vol_ok v'" "secs_ok v' (vsec v' s')" "\<exists>g. mwfs_geometry v = (True, g) \<and> v' = g\<lparr>v_label := mwfs_strcpy label 16, v_cur_blk := v_data_lba g, v_cur_ino := 1\<rparr>"
    "inode v' (vsec v' s') 1 = ino_blank MWFS_T_DIR" "used v' (vsec v' s') l \<longleftrightarrow> l < v_data_lba v'" "vsec v' s' 0 = sb_bytes v'" "dev s' = dev s"
    "1 < n \<Longrightarrow> n < v_inodes v' \<Longrightarrow> inode v' (vsec v' s') n = ino_blank MWFS_T_FREE"
proof -
  obtain g where g: "mwfs_geometry v = (True, g)" using r by (cases "mwfs_geometry v") (auto simp: mwfs_mkfs_def split: if_splits)
  note G = geometry_ok [OF g v]
  have vs: "vsec g = vsec v" using G by (simp add: fun_eq_iff vsec_def)
  obtain ok0 s0 where w0: "mwfs_wr g 0 (mwfs_zeros 512) s = (ok0, s0)" by fastforce
  obtain ok1 s1 where w1: "wr_all g (map (\<lambda>si. (v_bitmap_lba g + si, mkfs_bitmap g si)) [0..<v_bitmap_sectors g]) s0 = (ok1, s1)" by fastforce
  obtain ok2 s2 where w2: "wr_all g (map (\<lambda>si. (v_itable_lba g + si, mwfs_zeros 512)) [0..<v_itable_sectors g]) s1 = (ok2, s2)" by fastforce
  obtain ok3 s3 where w3: "mwfs_ino_put g MWFS_ROOT_INO (mwfs_ino_zero\<lparr>i_type := MWFS_T_DIR\<rparr>) s2 = (ok3, s3)" by fastforce
  let ?v = "g\<lparr>v_label := mwfs_strcpy label 16, v_cur_blk := v_data_lba g, v_cur_ino := 1\<rparr>"
  obtain ok4 s4 where w4: "mwfs_sb_write ?v s3 = (ok4, s4)" by fastforce
  have o: "ok0" "ok1" "ok2" "ok3" "ok4" "v' = ?v" "s' = s4"
    using r w4 by (simp_all add: mwfs_mkfs_def g w0 w1 w2 w3 Let_def split: if_splits prod.splits)
  show "\<exists>g. mwfs_geometry v = (True, g) \<and> v' = g\<lparr>v_label := mwfs_strcpy label 16, v_cur_blk := v_data_lba g, v_cur_ino := 1\<rparr>" using g o(6) by blast
  have vo: "vol_ok ?v" "vol_ok g" using G(1) by (simp_all add: vol_ok_def)
  show "vol_ok v'" using vo o(6) by simp
  have same: "vsec ?v = vsec g" "inode ?v = inode g" "used ?v = used g" by (simp_all add: fun_eq_iff vsec_def inode_def used_def)
  have lay: "v_bitmap_lba g = 1" "v_itable_lba g = 1 + v_bitmap_sectors g" "v_data_lba g = v_itable_lba g + v_itable_sectors g"
    "v_data_lba g < v_sectors g" "v_sectors g \<le> 4096 * v_bitmap_sectors g" using vo(2) by (auto simp: vol_ok_def)
  note W0 = wr_cases [OF w0 vo(2)]
  note W1 = wr_all_run [OF vo(2) w1 [unfolded o(2) [THEN eqTrueI]]]
  note W2 = wr_all_run [OF vo(2) w2 [unfolded o(3) [THEN eqTrueI]]]
  have D2: "vsec g s2 x = (if x = 0 then mwfs_zeros 512 else if x < v_itable_lba g then mkfs_bitmap g (x - 1) else if x < v_data_lba g then mwfs_zeros 512
      else vsec g s x)" for x
    using W0(1) W1 W2 o(1) lay by auto
  have so2: "secs_ok g (vsec g s2)" using s D2 G(4) vs by (simp add: secs_ok_def)
  have bo: "ino_ok (ino_blank MWFS_T_DIR)" by (rule ino_blank_ok) (simp add: mwfs_types)
  note W3 = ino_put_cases [OF w3 [folded ino_blank_def] vo(2)]
  have n1: "1 < v_inodes g" using vo(2) by (simp add: vol_ok_def)
  have D3: "vsec g s3 = ino_set g 1 (ino_blank MWFS_T_DIR) (vsec g s2)" using W3(1) o(4) by (simp add: MWFS_ROOT_INO_def)
  note I = ino_setD [OF vo(2) so2 n1 bo]
  note W4 = wr_cases [OF w4 [unfolded sb_write] vo(1)]
  have D4: "vsec g s4 = (vsec g s3)(0 := sb_bytes ?v)" using W4(1) o(5) same by simp
  have D: "vsec v' s' = (vsec g s3)(0 := sb_bytes ?v)" using D4 o(6,7) same by simp
  have it0: "v_itable_lba g \<noteq> 0" using lay by simp
  show "secs_ok v' (vsec v' s')" using I(1) D D3 o(6) by (simp add: secs_ok_def)
  show "inode v' (vsec v' s') 1 = ino_blank MWFS_T_DIR" using I(2) [of 1] D D3 o(6) same it0 by (simp add: inode_def)
  show "vsec v' s' 0 = sb_bytes v'" using D o(6) by simp
  show "inode v' (vsec v' s') n = ino_blank MWFS_T_FREE" if n: "1 < n" "n < v_inodes v'"
  proof -
    have "v_inodes g = 8 * v_itable_sectors g" using vo(2) by (simp add: vol_ok_def)
    hence "n div 8 < v_itable_sectors g" using n(2) o(6) by (simp add: div_less_iff_less_mult mult.commute)
    hence z: "vsec g s2 (v_itable_lba g + n div 8) = mwfs_zeros 512" using D2 lay it0 by simp
    have "inode v' (vsec v' s') n = inode g (vsec g s2) n" using I(2) [of n] D D3 o(6) same it0 n(1) by (simp add: inode_def)
    also have "\<dots> = mwfs_ino_of (slice (n mod 8 * 64) 64 (mwfs_zeros 512))" by (simp add: inode_def z)
    also have "slice (n mod 8 * 64) 64 (mwfs_zeros 512) = mwfs_zeros 64"
    proof -
      have "n mod 8 * 64 + 64 \<le> 512" using mod_less_divisor [of 8 n] by linarith
      thus ?thesis by (simp add: slice_def mwfs_zeros_def)
    qed
    also have "mwfs_ino_of (mwfs_zeros 64) = ino_blank MWFS_T_FREE"
    proof -
      have "mwfs_zeros 64 ! k = 0" if "k < 64" for k using that by (simp add: mwfs_zeros_def)
      moreover have "map (\<lambda>k. mwfs_le (mwfs_zeros 64) (20 + 4 * k)) [0..<8] = replicate 8 0"
        by (rule nth_equalityI) (simp_all add: mwfs_le_zeros)
      ultimately show ?thesis by (simp add: mwfs_ino_of_def ino_blank_def mwfs_ino_zero_def MWFS_T_FREE_def MWFS_NDIRECT_def mwfs_le_zeros)
    qed
    finally show ?thesis .
  qed
  show "dev s' = dev s" using W0(3,4) W1 W2 W3(3,4) W4(3,4) o(7) by (simp add: dev_def)
  have "used v' (vsec v' s') l = used g (vsec g s2) l"
  proof -
    have "used v' (vsec v' s') l = used g (vsec g s3) l" unfolding D using o(6) same by (simp add: used_def)
    thus ?thesis using I(4) D3 by simp
  qed
  also have "\<dots> \<longleftrightarrow> l < v_data_lba g"
  proof (cases "l < v_sectors g")
    case True
    have b: "l div 4096 < v_bitmap_sectors g" using True lay(5) by (simp add: div_less_iff_less_mult mult.commute)
    have "vsec g s2 (1 + l div 4096) = mkfs_bitmap g (l div 4096)" using D2 b lay(2) by simp
    moreover have "l div 4096 * 4096 + l mod 4096 = l" by simp
    ultimately show ?thesis using True mkfs_bitmap_bit [of "l mod 4096" g "l div 4096"] by (simp add: used_def)
  next
    case False thus ?thesis using lay(4) by (simp add: used_def)
  qed
  finally show "used v' (vsec v' s') l \<longleftrightarrow> l < v_data_lba v'" using o(6) by simp
qed

lemma mkfs_fs:
  assumes r: "mwfs_mkfs v label s = (MWFS_OK, v', s')" and v: "v_base v + v_sectors v \<le> 2 ^ 32" "v_sectors v \<le> 2 ^ 32 - 4096"
    and s: "secs_ok v (vsec v s)"
  shows "fs_ok v' (vsec v' s') {1}" "look v' (vsec v' s') 1 name = None"
proof -
  note M = mkfs_disk [OF r v s]
  have t: "types v' (vsec v' s') 1 = MWFS_T_DIR" "i_size (inode v' (vsec v' s') 1) = 0" using M(4) by (simp_all add: ino_blank_def mwfs_ino_zero_def)
  have "live_ok v' (vsec v' s') {}" using M(1,2) by (simp add: live_ok_def)
  hence l: "live_ok v' (vsec v' s') {1}"
  proof (rule live_insert [OF _ _ _ M(4)])
    show "ptrs_ok v' (vsec v' s') (ino_blank MWFS_T_DIR)" by (rule blank_ptrs) (simp add: mwfs_types)
  qed (use M(1) in \<open>simp_all add: vol_ok_def ino_blank_def mwfs_ino_zero_def\<close>)
  have e: "dirents v' (vsec v' s') 1 = []" using t(2) by (simp add: ents_def)
  have "tree_ok {1} (types v' (vsec v' s')) (dirents v' (vsec v' s'))" using t by (auto simp: tree_ok_def link_def)
  moreover have "dir_ok (vsec v' s') (inode v' (vsec v' s') 1)" using t(2) by (simp add: dir_ok_def)
  ultimately show "fs_ok v' (vsec v' s') {1}" using l by (simp add: fs_ok_def)
  show "look v' (vsec v' s') 1 name = None" using e by (simp add: look_def)
qed

text \<open>Mounting what was formatted gives back the volume.\<close>

lemma open_mkfs:
  assumes r: "mwfs_mkfs v label s = (MWFS_OK, v', s')" and v: "v_base v + v_sectors v \<le> 2 ^ 32" "v_sectors v \<le> 2 ^ 32 - 4096"
    and s: "secs_ok v (vsec v s)"
  shows "mwfs_open v (working s') = (MWFS_OK, v')"
proof -
  note M = mkfs_disk [OF r v s]
  obtain g where g: "mwfs_geometry v = (True, g)" and v': "v' = g\<lparr>v_label := mwfs_strcpy label 16, v_cur_blk := v_data_lba g, v_cur_ino := 1\<rparr>"
    using M(3) by blast
  note G = geometry_ok [OF g v]
  have n: "v_sectors v' < 2 ^ 32" "v_sectors v' = v_sectors v" using G v(2) v' by simp_all
  let ?b = "sb_bytes v'"
  note S = sb_fields [OF M(1) n(1)]
  have "0 < v_sectors v'" using M(1) by (auto simp: vol_ok_def)
  hence rd: "blk_read (v_dev v) (v_base v) (working s') = Some ?b"
    using M(6) G v' v(1) by (simp add: blk_read_def working_def vsec_def)
  have lab: "(map (\<lambda>i. ?b ! (48 + i)) [0..<16])[15 := 0] = v_label v'"
  proof -
    have l: "length (v_label v') = 16" "v_label v' ! 15 = 0" by (simp_all add: v' mwfs_strcpy_def Let_def nth_append mwfs_zeros_def min_def)
    have m: "map (\<lambda>i. ?b ! (48 + i)) [0..<16] = v_label v'" by (rule nth_equalityI) (simp_all add: S(11) l)
    show ?thesis unfolding m using l(2) by (metis list_update_id)
  qed
  have gs: "g = geo_set v" "v_data_lba (geo_set v) + 8 \<le> v_sectors v" using g by (auto simp: geometry_form split: if_splits)
  let ?g = "v\<lparr>v_sectors := v_sectors v', v_inodes := v_inodes v', v_bitmap_lba := v_bitmap_lba v',
      v_bitmap_sectors := v_bitmap_sectors v', v_itable_lba := v_itable_lba v', v_itable_sectors := v_itable_sectors v', v_data_lba := v_data_lba v'\<rparr>"
  have gg: "?g = g" using gs(1) v' by (simp add: geo_set_def Let_def)
  have gi: "geo_set g = g" "v_data_lba g + 8 \<le> v_sectors g" "v_sectors g = v_sectors v" using gs by (simp_all add: geo_set_def Let_def)
  have idem: "mwfs_geometry ?g = (True, ?g)" unfolding gg using gi G(5) by (simp add: geometry_form)
  have fin: "?g\<lparr>v_label := v_label v', v_cur_blk := v_data_lba v', v_cur_ino := 1\<rparr> = v'" unfolding gg using v' by simp
  have root: "mwfs_ino_get v' MWFS_ROOT_INO (working s') = Some (ino_blank MWFS_T_DIR)"
    using calm_ino_get [OF M(1), of "working s'" 1] M(1,4) by (simp add: MWFS_ROOT_INO_def vol_ok_def)
  have g64: "64 \<le> v_sectors v" by (rule G(5))
  show ?thesis unfolding mwfs_open_def rd option.case S(1-10) lab
    using root idem fin n(2) g64 by (simp add: ino_blank_def)
qed

end
