(* ===== verification/Mwfs_Rename.thy ===== *)
theory Mwfs_Rename
  imports Mwfs_Save
begin

text \<open>
  mwfs_rename moves a name: two writes, the new entry first. A call that gets through both moves the object and nothing else; a
  call that fails at the first changes no name. Between the two the object has two names, and the tree is not well formed.
\<close>

subsection \<open>Moving a name in the tree\<close>

lemma name_eq_sym: "mwfs_name_eq as bs \<longleftrightarrow> mwfs_name_eq bs as" by (auto simp: name_eq_upper)

lemma name_eq_trans: "mwfs_name_eq as bs \<Longrightarrow> mwfs_name_eq bs cs \<Longrightarrow> mwfs_name_eq as cs" by (auto simp: name_eq_upper)

text \<open>The entries after the move: x at place k of the directory t, z at place j of the directory f.\<close>

definition moved :: "(nat \<Rightarrow> dirent list) \<Rightarrow> nat \<Rightarrow> nat \<Rightarrow> dirent \<Rightarrow> nat \<Rightarrow> nat \<Rightarrow> dirent \<Rightarrow> nat \<Rightarrow> dirent list" where
  "moved E t k x f j z = (let E1 = E(t := (E t)[k := x]) in E1(f := (E1 f)[j := z]))"

lemma moved_nth:
  assumes "k < length (E t)" "j < length (E f)" "(t, k) \<noteq> (f, j)"
  shows "length (moved E t k x f j z d) = length (E d)"
    "i < length (E d) \<Longrightarrow> moved E t k x f j z d ! i = (if d = f \<and> i = j then z else if d = t \<and> i = k then x else E d ! i)"
  using assms by (auto simp: moved_def Let_def nth_list_update)

lemma tree_move:
  assumes t: "tree_ok R T E" and n: "link R T E f j n" and to: "t \<in> R" "T t = MWFS_T_DIR" "k < length (E t)"
    and old: "de_ino (E t ! k) \<noteq> n" "de_ino (E t ! k) \<noteq> 0 \<Longrightarrow> T (de_ino (E t ! k)) \<noteq> MWFS_T_DIR"
    and x: "de_ino x = n" "de_type x = T n" and z: "de_ino z = 0"
    and name: "\<And>i m. link R T E t i m \<Longrightarrow> i \<noteq> k \<Longrightarrow> \<not> mwfs_name_eq (de_name (E t ! i)) (de_name x)"
    and T: "\<And>m. m \<in> R \<Longrightarrow> T' m = T m" and E: "\<And>m. m \<in> R \<Longrightarrow> E' m = moved E t k x f j z m"
  shows "tree_ok (R - {de_ino (E t ! k)}) T' E'"
proof -
  let ?o = "de_ino (E t ! k)" let ?R = "R - {?o}"
  note t1 = tree_okD(1-3) [OF t]
  have jf: "f \<in> R" "T f = MWFS_T_DIR" "j < length (E f)" "de_ino (E f ! j) = n" "n \<noteq> 0" using n by (simp_all add: link_def)
  have ne: "(t, k) \<noteq> (f, j)" using old(1) jf(4) by blast
  note M = moved_nth [where E = E and x = x and z = z, OF to(3) jf(3) ne]
  have lo: "?o \<noteq> 0 \<Longrightarrow> link R T E t k ?o" using to by (simp add: link_def)
  have o1: "?o \<noteq> 1"
  proof (cases "?o = 0")
    case False thus ?thesis using tree_okD(5) [OF t lo] by simp
  qed simp
  have c: "(d = t \<and> i = k \<and> m = n \<and> E' d ! i = x) \<or>
      (link R T E d i m \<and> (d, i) \<noteq> (t, k) \<and> m \<noteq> n \<and> m \<noteq> ?o \<and> E' d ! i = E d ! i)" if l: "link ?R T' E' d i m" for d i m
  proof -
    have d: "d \<in> R" "T d = MWFS_T_DIR" "i < length (E d)" "de_ino (E' d ! i) = m" "m \<noteq> 0"
      using l E M(1) T by (auto simp: link_def)
    have e: "E' d ! i = (if d = f \<and> i = j then z else if d = t \<and> i = k then x else E d ! i)" using E [OF d(1)] M(2) [OF d(3)] by simp
    show ?thesis
    proof (cases "(d, i) = (t, k)")
      case True thus ?thesis using e ne d(4) x(1) by auto
    next
      case False
      have nf: "(d, i) \<noteq> (f, j)" using e d(4,5) z by auto
      hence ed: "E' d ! i = E d ! i" using e False by auto
      hence l1: "link R T E d i m" using d by (simp add: link_def)
      have "m \<noteq> n" using tree_okD(7) [OF t l1, of f j] n nf by auto
      moreover have "m \<noteq> ?o" using tree_okD(7) [OF t l1, of t k] lo False d(5) by auto
      ultimately show ?thesis using l1 ed False by blast
    qed
  qed
  have nR: "n \<in> ?R" "n \<noteq> 1" using tree_okD(4,5) [OF t n] old(1) by auto
  show ?thesis unfolding tree_ok_def
  proof (intro conjI allI impI)
    show "1 \<in> ?R" "0 \<notin> ?R" "T' 1 = MWFS_T_DIR" using t1 o1 T by auto
  next
    fix d i m assume l: "link ?R T' E' d i m"
    show "m \<in> ?R" using c [OF l] nR(1) tree_okD(4) [OF t, of d i m] by blast
    show "m \<noteq> 1" using c [OF l] nR(2) tree_okD(5) [OF t, of d i m] by blast
    show "de_type (E' d ! i) = T' m"
      using c [OF l]
    proof
      assume a: "link R T E d i m \<and> (d, i) \<noteq> (t, k) \<and> m \<noteq> n \<and> m \<noteq> ?o \<and> E' d ! i = E d ! i"
      hence "m \<in> R" "de_type (E d ! i) = T m" using tree_okD(4,6) [OF t, of d i m] by blast+
      thus ?thesis using a T by simp
    qed (use x(2) T nR(1) in auto)
  next
    fix d1 i1 d2 i2 m assume l: "link ?R T' E' d1 i1 m" "link ?R T' E' d2 i2 m"
    have "d1 = d2 \<and> i1 = i2" using c [OF l(1)] c [OF l(2)] tree_okD(7) [OF t, of d1 i1 m d2 i2] by blast
    thus "d1 = d2" "i1 = i2" by blast+
  next
    fix d i1 i2 m1 m2
    assume l: "link ?R T' E' d i1 m1" "link ?R T' E' d i2 m2" and e: "mwfs_name_eq (de_name (E' d ! i1)) (de_name (E' d ! i2))"
    show "i1 = i2" using c [OF l(1)] c [OF l(2)]
    proof (elim disjE conjE, goal_cases)
      case 2 thus ?case using name [of i2 m2] e name_eq_sym by metis
    next
      case 3 thus ?case using name [of i1 m1] e by auto
    next
      case 4 thus ?case using tree_okD(8) [OF t, of d i1 m1 i2 m2] e by simp
    qed simp
  qed
qed


subsection \<open>What a reader finds after the move\<close>

lemma find_only:
  assumes "k < length L" "P (L ! k)" "\<And>i. i < length L \<Longrightarrow> i \<noteq> k \<Longrightarrow> \<not> P (L ! i)"
  shows "find P L = Some (L ! k)"
  using assms by (auto simp: find_Some_iff intro!: exI [of _ k])

text \<open>The search for a name, by the entries of the tree: the first that matches is the only one.\<close>

lemma find_moved:
  assumes t: "tree_ok R T E" and n: "link R T E f j n" and to: "t \<in> R" "T t = MWFS_T_DIR" "k < length (E t)"
    and old: "de_ino (E t ! k) \<noteq> n" "de_ino (E t ! k) \<noteq> 0 \<Longrightarrow> mwfs_name_eq (de_name (E t ! k)) to_name"
    and x: "de_ino x = n" "mwfs_name_eq (de_name x) to_name" and z: "de_ino z = 0"
    and name: "\<And>i m. link R T E t i m \<Longrightarrow> i \<noteq> k \<Longrightarrow> \<not> mwfs_name_eq (de_name (E t ! i)) (de_name x)"
    and src: "mwfs_name_eq (de_name (E f ! j)) from_name" and d: "d \<in> R" "T d = MWFS_T_DIR"
  shows "find (de_is name') (moved E t k x f j z d) =
    (if d = t \<and> mwfs_name_eq name' to_name then Some x else if d = f \<and> mwfs_name_eq name' from_name then None else find (de_is name') (E d))"
proof -
  have jf: "f \<in> R" "T f = MWFS_T_DIR" "j < length (E f)" "de_ino (E f ! j) = n" "n \<noteq> 0" using n by (simp_all add: link_def)
  have ne: "(t, k) \<noteq> (f, j)" using old(1) jf(4) by blast
  note M = moved_nth [where E = E and x = x and z = z, OF to(3) jf(3) ne]
  let ?L = "moved E t k x f j z d"
  have xn: "de_is name' x \<longleftrightarrow> mwfs_name_eq name' to_name" using x jf(5) name_eq_sym name_eq_trans by (metis de_is_def)
  have zn: "\<not> de_is name' z" using z by (simp add: de_is_def)
  have lk: "link R T E d i (de_ino (E d ! i))" if "i < length (E d)" "de_is name' (E d ! i)" for i using that d by (simp add: link_def de_is_def)
  consider "d = t \<and> mwfs_name_eq name' to_name" | "d \<noteq> t \<or> \<not> mwfs_name_eq name' to_name" "d = f \<and> mwfs_name_eq name' from_name"
    | "d \<noteq> t \<or> \<not> mwfs_name_eq name' to_name" "d \<noteq> f \<or> \<not> mwfs_name_eq name' from_name" by blast
  thus ?thesis
  proof cases
    case 1
    have xk: "?L ! k = x" using M(2) [of k d] 1 to(3) ne by auto
    have "find (de_is name') ?L = Some (?L ! k)"
    proof (rule find_only)
      show "k < length ?L" "de_is name' (?L ! k)" using 1 to(3) M(1) xk xn by simp_all
      fix i assume i: "i < length ?L" "i \<noteq> k"
      show "\<not> de_is name' (?L ! i)"
      proof
        assume a: "de_is name' (?L ! i)"
        hence e: "?L ! i = E d ! i" using M(2) [of i d] M(1) [of d] i zn by auto
        have "link R T E t i (de_ino (E t ! i))" using lk [of i] a e i M(1) 1 by auto
        hence "\<not> mwfs_name_eq (de_name (E t ! i)) (de_name x)" using name i(2) by blast
        thus False using a e 1 x(2) name_eq_sym name_eq_trans unfolding de_is_def by metis
      qed
    qed
    thus ?thesis using 1 xk by simp
  next
    case 2
    have "\<not> de_is name' (?L ! i)" if i: "i < length ?L" for i
    proof
      assume a: "de_is name' (?L ! i)"
      hence nj: "i \<noteq> j" using M(2) [of i d] M(1) [of d] i zn 2 by auto
      have nx: "?L ! i = E d ! i"
      proof (cases "d = t \<and> i = k")
        case True
        hence "?L ! i = x" using M(2) [of i d] M(1) [of d] i nj 2 by auto
        thus ?thesis using a xn 2 True by simp
      qed (use M(2) [of i d] M(1) [of d] i nj in auto)
      have "link R T E f i (de_ino (E f ! i))" using lk [of i] a nx i M(1) 2 by auto
      moreover have "mwfs_name_eq (de_name (E f ! i)) (de_name (E f ! j))"
        using a nx 2 src name_eq_sym name_eq_trans unfolding de_is_def by metis
      ultimately show False using tree_okD(8) [OF t _ n] nj by blast
    qed
    hence "find (de_is name') ?L = None" by (auto simp: find_None_iff in_set_conv_nth)
    thus ?thesis using 2 by auto
  next
    case 3
    have "find (de_is name') (if d = t then (E t)[k := x] else E d) = find (de_is name') (E d)"
    proof (cases "d = t")
      case True
      have "\<not> de_is name' (E t ! k)" using old(2) 3(1) True name_eq_sym name_eq_trans by (metis de_is_def)
      thus ?thesis using find_update_other [OF to(3)] xn 3(1) True by simp
    qed simp
    moreover have "find (de_is name') ?L = find (de_is name') (if d = t then (E t)[k := x] else E d)"
    proof (cases "d = f")
      case True
      have "(if d = t then (E t)[k := x] else E d) ! j = E f ! j" using ne True by (auto simp: nth_list_update)
      moreover have "\<not> de_is name' (E f ! j)" using src 3(2) True name_eq_sym name_eq_trans by (metis de_is_def)
      ultimately have "find (de_is name') ((if d = t then (E t)[k := x] else E d)[j := z]) = find (de_is name') (if d = t then (E t)[k := x] else E d)"
        by (intro find_update_other) (use jf(3) True zn in auto)
      thus ?thesis using True by (auto simp: moved_def Let_def)
    qed (simp add: moved_def Let_def)
    ultimately show ?thesis using 3 by auto
  qed
qed


subsection \<open>Moving a name on the disk\<close>

text \<open>The two steps of a move, the first on the directory t and the second on the directory f, with the inodes R live throughout.\<close>

lemma fs_move:
  assumes f: "fs_ok v D R" and a: "dir_step v D D1 R t ((dirents v D t @ xs)[k := x])" and b: "dir_step v D1 D2 R f ((dirents v D1 f)[j := z])"
    and n: "link R (types v D) (dirents v D) f j n" and to: "t \<in> R" "types v D t = MWFS_T_DIR" "k < length (dirents v D t @ xs)"
    and xs: "\<forall>y \<in> set xs. de_ino y = 0"
    and old: "de_ino ((dirents v D t @ xs) ! k) \<noteq> n" "de_ino ((dirents v D t @ xs) ! k) \<noteq> 0 \<Longrightarrow>
      types v D (de_ino ((dirents v D t @ xs) ! k)) \<noteq> MWFS_T_DIR \<and> mwfs_name_eq (de_name ((dirents v D t @ xs) ! k)) to_name"
    and x: "de_ino x = n" "de_type x = types v D n" "mwfs_name_eq (de_name x) to_name" and z: "de_ino z = 0"
    and name: "\<And>i. i < length (dirents v D t) \<Longrightarrow> i \<noteq> k \<Longrightarrow> \<not> de_is (de_name x) (dirents v D t ! i)"
    and src: "mwfs_name_eq (de_name (dirents v D f ! j)) from_name"
  shows "fs_ok v D2 (R - {de_ino ((dirents v D t @ xs) ! k)})" "live_ok v D2 R"
    "d \<in> R \<Longrightarrow> types v D2 d = types v D d"
    "d \<in> R \<Longrightarrow> types v D d = MWFS_T_DIR \<Longrightarrow> look v D2 d name' = (if d = t \<and> mwfs_name_eq name' to_name then look v D f (de_name (dirents v D f ! j))
       else if d = f \<and> mwfs_name_eq name' from_name then None else look v D d name')"
    "d \<in> R \<Longrightarrow> types v D d = MWFS_T_DIR \<Longrightarrow> find (de_is name') (dirents v D2 d) = (if d = t \<and> mwfs_name_eq name' to_name then Some x
       else if d = f \<and> mwfs_name_eq name' from_name then None else find (de_is name') (dirents v D d))"
proof -
  let ?E = "(dirents v D)(t := dirents v D t @ xs)" let ?T = "types v D"
  note F = fs_okD [OF f]
  have A: "live_ok v D1 R" "same_inodes v D D1 (R - {t})" "types v D1 t = MWFS_T_DIR" "dir_ok D1 (inode v D1 t)" "dirents v D1 t = (dirents v D t @ xs)[k := x]"
    using a by (simp_all add: dir_step_def)
  have B: "live_ok v D2 R" "same_inodes v D1 D2 (R - {f})" "types v D2 f = MWFS_T_DIR" "dir_ok D2 (inode v D2 f)" "dirents v D2 f = (dirents v D1 f)[j := z]"
    using b by (simp_all add: dir_step_def)
  note S1 = same_inodesD [OF live_subset [OF F(1) Diff_subset] A(2)]
  note S2 = same_inodesD [OF live_subset [OF A(1) Diff_subset] B(2)]
  have ff: "f \<in> R" "?T f = MWFS_T_DIR" "j < length (dirents v D f)" "n \<noteq> 0" "n \<in> R" using n tree_okD(4) [OF F(3) n] by (simp_all add: link_def)
  have ty1: "types v D1 m = ?T m" if "m \<in> R" for m using S1(1) [of m] A(3) to(2) that by (cases "m = t") simp_all
  have ty: "types v D2 m = ?T m" if "m \<in> R" for m using S2(1) [of m] B(3) ff(2) ty1 [OF that] that by (cases "m = f") simp_all
  have t1: "tree_ok R ?T ?E"
  proof (rule tree_append [where d = t and E = "dirents v D" and xs = xs, OF F(3)])
    show "?E t = dirents v D t @ xs" by (rule fun_upd_same)
    show "?E m = dirents v D m" if "m \<noteq> t" for m using that by (rule fun_upd_other)
  qed (rule xs)
  have Ej: "?E f ! j = dirents v D f ! j" "link R ?T ?E f j n" using ff(3) n by (auto simp: nth_append link_def)
  have E1: "dirents v D1 m = (?E(t := (?E t)[k := x])) m" if "m \<in> R" for m using A(5) S1(2) [of m] that by simp
  have E2: "dirents v D2 m = moved ?E t k x f j z m" if "m \<in> R" for m
  proof (cases "m = f")
    case True thus ?thesis using B(5) E1 [OF ff(1)] by (simp only: moved_def Let_def fun_upd_same)
  next
    case False thus ?thesis using S2(2) [of m] E1 [OF that] that by (simp add: moved_def Let_def)
  qed
  have nm: "\<not> mwfs_name_eq (de_name (?E t ! i)) (de_name x)" if l: "link R ?T ?E t i m" and i: "i \<noteq> k" for i m
  proof -
    have "i < length (dirents v D t)"
    proof (rule ccontr)
      assume "\<not> i < length (dirents v D t)"
      hence "?E t ! i \<in> set xs" using l by (auto simp: link_def nth_append intro!: nth_mem)
      thus False using xs l by (auto simp: link_def)
    qed
    thus ?thesis using name [OF _ i] l by (auto simp: link_def de_is_def nth_append)
  qed
  have tree: "tree_ok (R - {de_ino (?E t ! k)}) (types v D2) (dirents v D2)"
    by (rule tree_move [OF t1 Ej(2) to(1,2) _ _ _ x(1,2) z nm ty E2]) (use to(3) old in simp_all)
  have dk1: "dir_ok D1 (inode v D1 m)" if "m \<in> R" "?T m = MWFS_T_DIR" for m
    using A(4) F(2) [OF that] S1(1,3) [of m] that(1) by (cases "m = t") simp_all
  have dk2: "dir_ok D2 (inode v D2 m)" if "m \<in> R" "?T m = MWFS_T_DIR" for m
    using B(4) dk1 [OF that] S2(1,3) [of m] that(1) by (cases "m = f") simp_all
  show "fs_ok v D2 (R - {de_ino ((dirents v D t @ xs) ! k)})"
    using tree live_subset [OF B(1) Diff_subset] dk2 ty by (simp add: fs_ok_def)
  show "live_ok v D2 R" by (rule B(1))
  show "d \<in> R \<Longrightarrow> types v D2 d = ?T d" by (rule ty)
  have fm: "find (de_is nm) (dirents v D2 d) = (if d = t \<and> mwfs_name_eq nm to_name then Some x
      else if d = f \<and> mwfs_name_eq nm from_name then None else find (de_is nm) (dirents v D d))" if d: "d \<in> R" "?T d = MWFS_T_DIR" for d nm
  proof -
    have "find (de_is nm) (dirents v D2 d) = (if d = t \<and> mwfs_name_eq nm to_name then Some x
      else if d = f \<and> mwfs_name_eq nm from_name then None else find (de_is nm) (?E d))"
      unfolding E2 [OF d(1)]
    proof (rule find_moved [OF t1 Ej(2) to(1,2) _ _ _ x(1,3) z _ _ d])
      show "\<not> mwfs_name_eq (de_name (?E t ! i)) (de_name x)" if "link R ?T ?E t i m" "i \<noteq> k" for i m by (rule nm [OF that])
    qed (use to(3) old src Ej(1) in simp_all)
    moreover have "find (de_is nm) (?E d) = find (de_is nm) (dirents v D d)"
      using find_append_none [of xs "de_is nm" "dirents v D t"] xs by (simp add: de_is_def)
    ultimately show ?thesis by argo
  qed
  thus "d \<in> R \<Longrightarrow> ?T d = MWFS_T_DIR \<Longrightarrow> find (de_is name') (dirents v D2 d) = (if d = t \<and> mwfs_name_eq name' to_name then Some x
       else if d = f \<and> mwfs_name_eq name' from_name then None else find (de_is name') (dirents v D d))" .
  have ct: "content D2 (inode v D2 m) = content D (inode v D m)" if "m \<in> R" "?T m \<noteq> MWFS_T_DIR" for m
  proof -
    have "m \<in> R - {t}" "m \<in> R - {f}" using that to(2) ff(2) by auto
    thus ?thesis using S1(1,4) [of m] S2(1,4) [of m] by auto
  qed
  let ?nd = "\<lambda>D y. if de_type y = MWFS_T_DIR then Dir (de_ino y) else File (content D (inode v D (de_ino y)))"
  have nd: "?nd D2 y = ?nd D y" if "de_ino y \<in> R" "de_type y = ?T (de_ino y)" for y using ct [OF that(1)] that(2) by simp
  have hf: "find (de_is (de_name (dirents v D f ! j))) (dirents v D f) = Some (dirents v D f ! j)"
  proof (rule find_only [OF ff(3)])
    show "de_is (de_name (dirents v D f ! j)) (dirents v D f ! j)" using n by (simp add: link_def de_is_def name_eq_upper)
    fix i assume i: "i < length (dirents v D f)" "i \<noteq> j"
    show "\<not> de_is (de_name (dirents v D f ! j)) (dirents v D f ! i)"
    proof
      assume q: "de_is (de_name (dirents v D f ! j)) (dirents v D f ! i)"
      hence "link R ?T (dirents v D) f i (de_ino (dirents v D f ! i))" using i(1) ff by (simp add: link_def de_is_def)
      thus False using tree_okD(8) [OF F(3) _ n] q i(2) by (auto simp: de_is_def)
    qed
  qed
  have jn: "de_ino (dirents v D f ! j) = n" "de_type (dirents v D f ! j) = ?T n" using n tree_okD(6) [OF F(3) n] by (simp_all add: link_def)
  show "look v D2 d name' = (if d = t \<and> mwfs_name_eq name' to_name then look v D f (de_name (dirents v D f ! j))
       else if d = f \<and> mwfs_name_eq name' from_name then None else look v D d name')" if d: "d \<in> R" "?T d = MWFS_T_DIR"
  proof -
    consider "d = t \<and> mwfs_name_eq name' to_name" | "\<not> (d = t \<and> mwfs_name_eq name' to_name)" "d = f \<and> mwfs_name_eq name' from_name"
      | "\<not> (d = t \<and> mwfs_name_eq name' to_name)" "\<not> (d = f \<and> mwfs_name_eq name' from_name)" by blast
    thus ?thesis
    proof cases
      case 1 
      have "look v D2 d name' = Some (?nd D2 x)" using fm [OF d, of name'] 1 ty [OF d(1)] d(2) by (simp add: look_def)
      also have "\<dots> = Some (?nd D x)" using nd [of x] x(1,2) ff(5) by simp
      also have "\<dots> = look v D f (de_name (dirents v D f ! j))" using hf ff(2) jn x(1,2) by (simp add: look_def)
      finally show ?thesis using 1 by simp
    next
      case 2
      have "find (de_is name') (dirents v D2 d) = None" using fm [OF d, of name'] unfolding if_not_P [OF 2(1)] if_P [OF 2(2)] .
      hence "look v D2 d name' = None" by (simp add: look_def)
      thus ?thesis unfolding if_not_P [OF 2(1)] if_P [OF 2(2)] .
    next
      case 3
      have e: "find (de_is name') (dirents v D2 d) = find (de_is name') (dirents v D d)" using fm [OF d, of name'] unfolding if_not_P [OF 3(1)] if_not_P [OF 3(2)] .
      have "look v D2 d name' = look v D d name'"
      proof (cases "find (de_is name') (dirents v D d)")
        case None thus ?thesis using e by (simp add: look_def)
      next
        case (Some y)
        obtain i where i: "link R ?T (dirents v D) d i (de_ino y)" "dirents v D d ! i = y" using find_link [OF Some d] by blast
        have "?nd D2 y = ?nd D y" using nd [of y] tree_okD(4,6) [OF F(3) i(1)] i(2) by simp
        thus ?thesis using e Some ty [OF d(1)] by (simp add: look_def)
      qed
      thus ?thesis unfolding if_not_P [OF 3(1)] if_not_P [OF 3(2)] .
    qed
  qed
qed


subsection \<open>mwfs_rename\<close>

text \<open>The name moved: the new name reads as the old one did, the old one is gone, and every other name stays.\<close>

definition move_look :: "vol \<Rightarrow> (nat \<Rightarrow> bytes) \<Rightarrow> nat set \<Rightarrow> nat \<Rightarrow> bytes \<Rightarrow> nat \<Rightarrow> bytes \<Rightarrow> (nat \<Rightarrow> bytes) \<Rightarrow> bool" where
  "move_look v D R f from_name t to_name D' \<longleftrightarrow> (\<forall>d \<in> R. types v D d = MWFS_T_DIR \<longrightarrow> types v D' d = MWFS_T_DIR \<and>
     (\<forall>name'. look v D' d name' = (if d = t \<and> mwfs_name_eq name' to_name then look v D f from_name
        else if d = f \<and> mwfs_name_eq name' from_name then None else look v D d name')))"

text \<open>After the first write, x in place k of the directory t; the second either clears place j of f, or fails and leaves both.\<close>

lemma second_write:
  assumes f: "fs_ok v D R" and a: "dir_step v D (vsec v s1) R t ((dirents v D t @ xs)[k := x])"
    and fd: "f \<in> R" "types v D f = MWFS_T_DIR" and h: "hit (dirents v D f) from_name j" "de_ino (dirents v D f ! j) = n"
    and to: "t \<in> R" "types v D t = MWFS_T_DIR" "k < length (dirents v D t @ xs)"
    and xs: "\<forall>y \<in> set xs. de_ino y = 0"
    and old: "de_ino ((dirents v D t @ xs) ! k) \<noteq> n" "de_ino ((dirents v D t @ xs) ! k) \<noteq> 0 \<Longrightarrow>
      types v D (de_ino ((dirents v D t @ xs) ! k)) \<noteq> MWFS_T_DIR \<and> mwfs_name_eq (de_name ((dirents v D t @ xs) ! k)) to_name"
    and x: "de_ino x = n" "de_type x = types v D n" "mwfs_name_eq (de_name x) to_name"
    and name: "\<And>i. i < length (dirents v D t) \<Longrightarrow> i \<noteq> k \<Longrightarrow> \<not> de_is (de_name x) (dirents v D t ! i)"
    and r: "mwfs_dir_remove v f from_name s1 = (e, s2)"
  shows "dev s2 = dev s1"
    "e = MWFS_OK \<Longrightarrow> fs_ok v (vsec v s2) (R - {de_ino ((dirents v D t @ xs) ! k)}) \<and> live_ok v (vsec v s2) R \<and>
       move_look v D R f from_name t to_name (vsec v s2)"
    "e \<noteq> MWFS_OK \<Longrightarrow> vsec v s2 = vsec v s1 \<and> dir_at v (vsec v s1) R t \<and> find (de_is to_name) (dirents v (vsec v s1) t) = Some x"
proof -
  let ?D = "vsec v s1" let ?L = "dirents v D t @ xs"
  note F = fs_okD [OF f]
  have A: "live_ok v ?D R" "same_inodes v D ?D (R - {t})" "types v ?D t = MWFS_T_DIR" "dir_ok ?D (inode v ?D t)" "dirents v ?D t = ?L[k := x]"
    using a by (simp_all add: dir_step_def)
  note S = same_inodesD [OF live_subset [OF F(1) Diff_subset] A(2)]
  have hj: "j < length (dirents v D f)" "de_is from_name (dirents v D f ! j)" "\<And>i. i < j \<Longrightarrow> \<not> de_is from_name (dirents v D f ! i)"
    using h(1) by (auto simp: hit_def)
  have n0: "n \<noteq> 0" "mwfs_name_eq (de_name (dirents v D f ! j)) from_name" using hj(2) h(2) by (simp_all add: de_is_def)
  have lk: "link R (types v D) (dirents v D) f j n" using fd hj(1) h(2) n0 by (simp add: link_def)
  have xe: "de_is nm x \<longleftrightarrow> mwfs_name_eq nm to_name" for nm using x n0(1) name_eq_sym name_eq_trans by (metis de_is_def)
  have nx: "\<not> de_is from_name x" if "t = f"
  proof
    assume q: "de_is from_name x"
    have "j \<noteq> k" using old(1) that hj(1) h(2) by (auto simp: nth_append)
    hence "\<not> de_is (de_name x) (dirents v D f ! j)" using name [of j] hj(1) that by simp
    thus False using q hj(2) name_eq_sym name_eq_trans unfolding de_is_def by metis
  qed
  have a1: "dir_at v ?D R f"
    using A(1,3,4) S(1,3) [of f] fd F(2) [OF fd] by (cases "f = t") (simp_all add: dir_at_def)
  have len: "length (dirents v D f) \<le> length (dirents v ?D f)" using A(5) S(2) [of f] fd(1) by (cases "f = t") auto
  have ent: "dirents v ?D f ! i = (if f = t \<and> i = k then x else dirents v D f ! i)" if "i < length (dirents v D f)" for i
    using A(5) S(2) [of f] fd(1) that to(3) by (cases "f = t") (auto simp: nth_list_update nth_append)
  have "hit (dirents v ?D f) from_name j"
    unfolding hit_def
  proof (intro conjI allI impI)
    show "j < length (dirents v ?D f)" using hj(1) len by simp
    have "\<not> (f = t \<and> j = k)" using old(1) hj(1) h(2) by (auto simp: nth_append)
    thus "de_is from_name (dirents v ?D f ! j)" using ent [OF hj(1)] hj(2) by auto
    fix i assume i: "i < j"
    thus "\<not> de_is from_name (dirents v ?D f ! i)" using ent [of i] hj(1,3) nx by auto
  qed
  note hu = hit_unique [OF this]
  note E = remove_ok [OF a1 r]
  show "dev s2 = dev s1" using E(1,2) by (simp add: dev_def)
  show "vsec v s2 = ?D \<and> dir_at v ?D R t \<and> find (de_is to_name) (dirents v ?D t) = Some x" if "e \<noteq> MWFS_OK"
  proof (intro conjI)
    show "vsec v s2 = ?D" by (rule E(3) [OF that])
    show "dir_at v ?D R t" using A to(1) by (simp add: dir_at_def)
    have "find (de_is to_name) (?L[k := x]) = Some (?L[k := x] ! k)"
    proof (rule find_only)
      show "k < length (?L[k := x])" "de_is to_name (?L[k := x] ! k)" using to(3) xe [of to_name] by (simp_all add: name_eq_upper)
      fix i assume i: "i < length (?L[k := x])" "i \<noteq> k"
      show "\<not> de_is to_name (?L[k := x] ! i)"
      proof (cases "i < length (dirents v D t)")
        case True
        hence "\<not> de_is (de_name x) (dirents v D t ! i)" using name i(2) by blast
        thus ?thesis using True i(2) de_is_eq [OF x(3)] by (simp add: nth_append)
      next
        case False
        hence "?L ! i \<in> set xs" using i(1) by (auto simp: nth_append)
        thus ?thesis using xs i(2) by (auto simp: de_is_def)
      qed
    qed
    thus "find (de_is to_name) (dirents v ?D t) = Some x" using A(5) to(3) by simp
  qed
  show "fs_ok v (vsec v s2) (R - {de_ino (?L ! k)}) \<and> live_ok v (vsec v s2) R \<and> move_look v D R f from_name t to_name (vsec v s2)" if "e = MWFS_OK"
  proof -
    have b: "dir_step v ?D (vsec v s2) R f ((dirents v ?D f)[j := dent_of (mwfs_zeros 64) 0])" using E(4) [OF that] hu by blast
    note M = fs_move [OF f a b lk to xs old x dent_zeros name n0(2)]
    have "look v D f (de_name (dirents v D f ! j)) = look v D f from_name" using de_is_eq [OF n0(2)] by (simp add: look_def)
    thus ?thesis using M(1,2) M(3,4) fd(2) by (simp add: move_look_def)
  qed
qed


text \<open>Removing a name looks only at the geometry.\<close>

lemma remove_geo:
  assumes "same_geo v v'"
  shows "mwfs_dir_remove v' d name s = mwfs_dir_remove v d name s"
proof -
  note G = same_geoD [OF assms]
  have rd: "mwfs_rd v' = mwfs_rd v" and wr: "mwfs_wr v' = mwfs_wr v" using G by (simp_all add: fun_eq_iff mwfs_rd_def mwfs_wr_def)
  have lu: "mwfs_lookup v' t i s = mwfs_lookup v t i s" for t i s
    by (simp add: mwfs_lookup_def mwfs_bmap_def mwfs_bmap_direct_def mwfs_bmap_ind_def mwfs_bmap_dind_def mwfs_bmap_mid_def mwfs_bmap_leaf_def
        rd Let_def split: option.splits)
  have ds: "dir_sector v' = dir_sector v" by (intro ext) (simp only: dir_sector_def lu rd)
  have df: "dir_find_from v' t is name s = dir_find_from v t is name s" for t "is" name s by (induction "is") (simp_all only: dir_find_from.simps ds)
  have di: "dir_inode v' = dir_inode v" using G by (intro ext) (simp only: dir_inode_def mwfs_ino_get_def rd)
  have fi: "mwfs_dir_find v' = mwfs_dir_find v" by (intro ext) (simp only: mwfs_dir_find_def di df)
  show ?thesis by (simp only: mwfs_dir_remove_def dir_edit_def fi rd wr)
qed

lemma dir_lookup_calm:
  assumes a: "dir_at v (vsec v s) R d" and g: "same_geo v v'"
  shows "mwfs_dir_lookup v' d name (working s) =
    (case find (de_is name) (dirents v (vsec v s) d) of None \<Rightarrow> Inl MWFS_E_NOENT | Some x \<Rightarrow> Inr (de_ino x, de_type x))"
proof -
  note G = geo_cong [OF g]
  note A = dir_atD [OF a]
  have l: "live_ok v' (vsec v' s) R" using A(1) G(2,6) by simp
  note L = live_okD(3,5,6) [OF l A(2)]
  have "dir_ok (vsec v' s) (inode v' (vsec v' s) d)" "types v' (vsec v' s) d = MWFS_T_DIR" using A(3,4) G(1,6) by simp_all
  thus ?thesis using calm_lookup_name [OF working(1) live_okD(1) [OF l], of d "inode v' (vsec v' s) d" s name] L G(1,6) by simp
qed

lemma fs_dir_at: "fs_ok v D R \<Longrightarrow> d \<in> R \<Longrightarrow> types v D d = MWFS_T_DIR \<Longrightarrow> dir_at v D R d"
  using fs_okD(1,2) by (simp add: dir_at_def)

lemma lookup_hit:
  assumes f: "fs_ok v (vsec v s) R" and d: "d \<in> R" "types v (vsec v s) d = MWFS_T_DIR" and l: "mwfs_dir_lookup v d name s = Inr (n, ty)"
  obtains j where "hit (dirents v (vsec v s) d) name j" "de_ino (dirents v (vsec v s) d ! j) = n" "de_type (dirents v (vsec v s) d ! j) = ty"
    "link R (types v (vsec v s)) (dirents v (vsec v s)) d j n" "n \<in> R" "types v (vsec v s) n = ty" "n \<noteq> 1" "n \<noteq> 0"
proof -
  note F = fs_okD [OF f]
  obtain lba e where q: "mwfs_dir_find v d name s = Inr (n, ty, lba, e)" using l by (auto simp: mwfs_dir_lookup_def split: sum.splits)
  obtain j where j: "hit (dirents v (vsec v s) d) name (8 * j + e)" "de_ino (dirents v (vsec v s) d ! (8 * j + e)) = n"
      "de_type (dirents v (vsec v s) d ! (8 * j + e)) = ty" using find_Inr [OF F(2) [OF d] q] by blast
  have k: "link R (types v (vsec v s)) (dirents v (vsec v s)) d (8 * j + e) n" using j d unfolding link_def hit_def de_is_def by blast
  have "n \<noteq> 0" using k by (simp add: link_def)
  thus ?thesis using that [OF j k] tree_okD(4-6) [OF F(3) k] j(3) by simp
qed

text \<open>What mwfs_rename leaves: everything when it returns MWFS_OK; otherwise no name changed, or the new name already leads
  where the old one does.\<close>

definition move_result :: "vol \<Rightarrow> blk \<Rightarrow> nat set \<Rightarrow> nat \<Rightarrow> bytes \<Rightarrow> nat \<Rightarrow> bytes \<Rightarrow> mwfs_e \<times> vol \<times> blk \<Rightarrow> bool" where
  "move_result v s R f from_name t to_name r \<longleftrightarrow> (case r of (e, v', s') \<Rightarrow> same_geo v v' \<and> dev s' = dev s \<and>
    (e = MWFS_OK \<longrightarrow> (\<exists>R'. fs_ok v (vsec v s') R' \<and> (\<forall>d \<in> R. types v (vsec v s) d = MWFS_T_DIR \<longrightarrow> d \<in> R')) \<and>
       move_look v (vsec v s) R f from_name t to_name (vsec v s')) \<and>
    (e \<noteq> MWFS_OK \<longrightarrow> put_spec v (vsec v s) R t to_name None False (vsec v s') \<or>
       mwfs_dir_lookup v' t to_name (working s') \<noteq> mwfs_dir_lookup v t to_name (working s)))"

text \<open>Nothing was done.\<close>

lemma move_quiet:
  assumes f: "fs_ok v (vsec v s) R" and e: "e \<noteq> MWFS_OK" "vsec v s' = vsec v s" "dev s' = dev s"
  shows "move_result v s R f from_name t to_name (e, v, s')"
  using e put_none [OF f same_inodes_refl [OF fs_okD(1) [OF f]]] by (simp add: move_result_def)

text \<open>The two names are one.\<close>

lemma move_self:
  assumes f: "fs_ok v (vsec v s) R" and j: "hit (dirents v (vsec v s) f) from_name j" "link R (types v (vsec v s)) (dirents v (vsec v s)) f j n"
    and k: "hit (dirents v (vsec v s) t) to_name k" "link R (types v (vsec v s)) (dirents v (vsec v s)) t k n"
  shows "move_result v s R f from_name t to_name (MWFS_OK, v, s)"
proof -
  let ?D = "vsec v s"
  note F = fs_okD [OF f]
  have nk: "mwfs_name_eq (de_name (dirents v ?D t ! k)) to_name" "mwfs_name_eq (de_name (dirents v ?D f ! j)) from_name"
    using k(1) j(1) by (auto simp: hit_def de_is_def)
  have same: "t = f" "k = j" using tree_okD(7) [OF F(3) k(2) j(2)] by blast+
  have "de_is nm = de_is from_name" if "mwfs_name_eq nm to_name \<or> mwfs_name_eq nm from_name" for nm
    using de_is_eq [of nm] nk same that name_eq_sym name_eq_trans by metis
  hence "look v ?D t nm = look v ?D f from_name" if "mwfs_name_eq nm to_name \<or> mwfs_name_eq nm from_name" for nm
    using that same by (simp add: look_def)
  moreover have "mwfs_name_eq nm from_name \<longleftrightarrow> mwfs_name_eq nm to_name" for nm using nk same name_eq_sym name_eq_trans by metis
  ultimately have "move_look v ?D R f from_name t to_name ?D" using same by (simp add: move_look_def)
  thus ?thesis using f by (auto simp: move_result_def)
qed

text \<open>The new name has a file, which the call replaces.\<close>

lemma move_over:
  assumes f: "fs_ok v (vsec v s) R" and fd: "f \<in> R" "types v (vsec v s) f = MWFS_T_DIR" and td: "t \<in> R" "types v (vsec v s) t = MWFS_T_DIR"
    and j: "hit (dirents v (vsec v s) f) from_name j" "de_ino (dirents v (vsec v s) f ! j) = n" "n \<in> R" "types v (vsec v s) n = MWFS_T_FILE"
    and k: "hit (dirents v (vsec v s) t) to_name k" "de_ino (dirents v (vsec v s) t ! k) = dst" "de_type (dirents v (vsec v s) t ! k) = MWFS_T_FILE"
      "link R (types v (vsec v s)) (dirents v (vsec v s)) t k dst" "types v (vsec v s) dst = MWFS_T_FILE"
    and ne: "dst \<noteq> n"
    and r: "(let (e, s) = mwfs_dir_retarget v t to_name n s in
              if e \<noteq> MWFS_OK then (e, v, s)
              else let (e, s) = mwfs_dir_remove v f from_name s in (e, v, if e = MWFS_OK then mwfs_ino_release v dst s else s)) = r"
  shows "move_result v s R f from_name t to_name r"
proof -
  let ?D = "vsec v s"
  note F = fs_okD [OF f]
  note at = fs_dir_at [OF f td]
  have FD: "MWFS_T_FILE \<noteq> MWFS_T_DIR" by (simp add: mwfs_types)
  have n32: "n < 2 ^ 32" using live_okD(1) [OF F(1)] live_okD(3) [OF F(1) j(3)] by (auto simp: vol_ok_def)
  have dR: "dst \<in> R" by (rule tree_okD(4) [OF F(3) k(4)])
  have nk: "mwfs_name_eq (de_name (dirents v ?D t ! k)) to_name" using k(1) by (auto simp: hit_def de_is_def)
  obtain e1 s1 where rt: "mwfs_dir_retarget v t to_name n s = (e1, s1)" by fastforce
  note E = retarget_ok [OF at rt n32]
  show ?thesis
  proof (cases "e1 = MWFS_OK")
    case False
    have res: "r = (e1, v, s1)" using r rt False by simp
    show ?thesis unfolding res by (rule move_quiet [OF f False E(3) [OF False]]) (use E(1,2) in \<open>simp add: dev_def\<close>)
  next
    case ok: True
    let ?x = "(dirents v ?D t ! k)\<lparr>de_ino := n\<rparr>"
    have st: "dir_step v ?D (vsec v s1) R t ((dirents v ?D t @ [])[k := ?x])"
      using E(4) [OF ok] hit_unique [OF k(1)] by auto
    obtain e2 s2 where rm: "mwfs_dir_remove v f from_name s1 = (e2, s2)" by fastforce
    have res: "r = (e2, v, if e2 = MWFS_OK then mwfs_ino_release v dst s2 else s2)" using r rt rm ok by simp
    have kl: "k < length (dirents v ?D t)" using k(1) by (simp add: hit_def)
    have W: "dev s2 = dev s1"
      "e2 = MWFS_OK \<Longrightarrow> fs_ok v (vsec v s2) (R - {dst}) \<and> live_ok v (vsec v s2) R \<and> move_look v ?D R f from_name t to_name (vsec v s2)"
      "e2 \<noteq> MWFS_OK \<Longrightarrow> vsec v s2 = vsec v s1 \<and> dir_at v (vsec v s1) R t \<and> find (de_is to_name) (dirents v (vsec v s1) t) = Some ?x"
    proof -
      have nmx: "\<not> de_is (de_name ?x) (dirents v ?D t ! i)" if i: "i < length (dirents v ?D t)" "i \<noteq> k" for i
      proof
        assume z: "de_is (de_name ?x) (dirents v ?D t ! i)"
        hence "link R (types v ?D) (dirents v ?D) t i (de_ino (dirents v ?D t ! i))" using i(1) td by (simp add: link_def de_is_def)
        thus False using tree_okD(8) [OF F(3) _ k(4)] z i(2) by (auto simp: de_is_def)
      qed
      let ?L = "dirents v ?D t @ []"
      have p1: "k < length ?L" "\<forall>y \<in> set []. de_ino y = 0" "de_ino (?L ! k) \<noteq> n" using kl k(2) ne by simp_all
      have p2: "types v ?D (de_ino (?L ! k)) \<noteq> MWFS_T_DIR \<and> mwfs_name_eq (de_name (?L ! k)) to_name" if "de_ino (?L ! k) \<noteq> 0"
        using k(2,5) FD nk by simp
      have p3: "de_ino ?x = n" "de_type ?x = types v ?D n" "mwfs_name_eq (de_name ?x) to_name" using k(3) j(4) nk by simp_all
      note SW = second_write [OF f st fd j(1,2) td p1 p2 p3 nmx rm]
      show "dev s2 = dev s1" by (rule SW(1))
      show "e2 = MWFS_OK \<Longrightarrow> fs_ok v (vsec v s2) (R - {dst}) \<and> live_ok v (vsec v s2) R \<and> move_look v ?D R f from_name t to_name (vsec v s2)"
        using SW(2) unfolding append_Nil2 k(2) .
      show "e2 \<noteq> MWFS_OK \<Longrightarrow> vsec v s2 = vsec v s1 \<and> dir_at v (vsec v s1) R t \<and> find (de_is to_name) (dirents v (vsec v s1) t) = Some ?x"
        by (rule SW(3))
    qed
    show ?thesis
    proof (cases "e2 = MWFS_OK")
      case False
      have "mwfs_dir_lookup v t to_name (working s2) = Inr (n, MWFS_T_FILE)"
        using dir_lookup_calm [of v s2 R t v to_name] W(3) [OF False] k(3) by simp
      moreover have "mwfs_dir_lookup v t to_name (working s) = Inr (dst, MWFS_T_FILE)"
        using dir_lookup_calm [OF at same_geo_refl, of to_name] hit_find [OF k(1)] k(2,3) by simp
      ultimately show ?thesis unfolding res using ne False W(1) E(1,2) by (simp add: dev_def move_result_def)
    next
      case True
      note W2 = W(2) [OF True]
      have "live_ok v (vsec v s2) (insert dst (R - {dst}))" using W2 dR by (simp add: insert_absorb)
      note rel = release_ok [OF this, simplified]
      have D3: "d \<in> R - {dst} \<and> d \<in> R" if "d \<in> R" "types v ?D d = MWFS_T_DIR" for d using that k(5) FD by auto
      have ml: "move_look v ?D R f from_name t to_name (vsec v (mwfs_ino_release v dst s2))"
        unfolding move_look_def
      proof (intro ballI impI)
        fix d assume d: "d \<in> R" "types v ?D d = MWFS_T_DIR"
        have fs2: "fs_ok v (vsec v s2) (R - {dst})" using W2 by blast
        show "types v (vsec v (mwfs_ino_release v dst s2)) d = MWFS_T_DIR \<and>
           (\<forall>name'. look v (vsec v (mwfs_ino_release v dst s2)) d name' = (if d = t \<and> mwfs_name_eq name' to_name then look v ?D f from_name
             else if d = f \<and> mwfs_name_eq name' from_name then None else look v ?D d name'))"
          using W2 d look_same [OF fs2 rel(1), of d] D3 [OF d] same_inodesD(1) [OF fs_okD(1) [OF fs2] rel(1), of d]
          by (simp add: move_look_def)
      qed
      have fs3: "fs_ok v (vsec v (mwfs_ino_release v dst s2)) (R - {dst})" using fs_same [OF _ rel(1)] W2 by blast
      have "dev (mwfs_ino_release v dst s2) = dev s" using W(1) E(1,2) release_dev by (simp add: dev_def)
      thus ?thesis unfolding res using ml fs3 D3 True by (auto simp: move_result_def)
    qed
  qed
qed

text \<open>The new name was free.\<close>

lemma move_new:
  assumes f: "fs_ok v (vsec v s) R" and fd: "f \<in> R" "types v (vsec v s) f = MWFS_T_DIR" and td: "t \<in> R" "types v (vsec v s) t = MWFS_T_DIR"
    and j: "hit (dirents v (vsec v s) f) from_name j" "de_ino (dirents v (vsec v s) f ! j) = n" "n \<in> R" "types v (vsec v s) n = ty" "n \<noteq> 0"
    and r: "(let (e, v, s) = mwfs_dir_add v t to_name n ty s in
              if e \<noteq> MWFS_OK then (e, v, s) else let (e, s) = mwfs_dir_remove v f from_name s in (e, v, s)) = r"
  shows "move_result v s R f from_name t to_name r"
proof -
  let ?D = "vsec v s"
  note F = fs_okD [OF f]
  note at = fs_dir_at [OF f td]
  have n32: "n < 2 ^ 32" using live_okD(1) [OF F(1)] live_okD(3) [OF F(1) j(3)] by (auto simp: vol_ok_def)
  obtain e1 v1 s1 where ad: "mwfs_dir_add v t to_name n ty s = (e1, v1, s1)" by (cases "mwfs_dir_add v t to_name n ty s") auto
  have t256: "ty < 256" using live_okD(4) [OF F(1) j(3)] j(4) by (auto simp: mwfs_types)
  note A = dir_add_ok [OF at j(5) n32 t256 ad]
  show ?thesis
  proof (cases "e1 = MWFS_OK")
    case False
    have res: "r = (e1, v1, s1)" using r ad False by simp
    note st = A(4) [OF False]
    have fs1: "fs_ok v (vsec v s1) R" by (rule fs_dir_quiet [OF f F(1) order_refl td st])
    have "put_spec v ?D R t to_name None False (vsec v s1)"
    proof (rule put_specI [OF fs1])
      fix d assume d: "d \<in> R" "types v ?D d = MWFS_T_DIR"
      show "d \<in> R \<and> types v (vsec v s1) d = MWFS_T_DIR"
        using st d same_inodesD(1) [OF live_subset [OF F(1) Diff_subset], of "vsec v s1" "{t}" d] by (cases "d = t") (auto simp: dir_step_def)
      show "look v (vsec v s1) d name' = (if False \<and> d = t \<and> mwfs_name_eq name' to_name then None else look v ?D d name')" for name'
        using look_step [OF f F(1) order_refl td(2) st d(1) refl] by simp
    qed simp
    thus ?thesis unfolding res using A(1-3) False by (simp add: dev_def move_result_def)
  next
    case ok: True
    let ?x = "\<lparr>de_ino = n, de_type = ty, de_name = to_name\<rparr>"
    obtain k xs where none: "find (de_is to_name) (dirents v ?D t) = None" and xs: "\<forall>x \<in> set xs. de_ino x = 0" and k: "k < length (dirents v ?D t @ xs)"
      "de_ino ((dirents v ?D t @ xs) ! k) = 0" and st: "dir_step v ?D (vsec v s1) R t ((dirents v ?D t @ xs)[k := ?x])"
      using A(5) [OF ok] by blast
    obtain e2 s2 where rm: "mwfs_dir_remove v1 f from_name s1 = (e2, s2)" by fastforce
    have res: "r = (e2, v1, s2)" using r ad ok rm by simp
    have rm': "mwfs_dir_remove v f from_name s1 = (e2, s2)" using rm remove_geo [OF A(1)] by simp
    have W: "dev s2 = dev s1"
      "e2 = MWFS_OK \<Longrightarrow> fs_ok v (vsec v s2) (R - {0}) \<and> live_ok v (vsec v s2) R \<and> move_look v ?D R f from_name t to_name (vsec v s2)"
      "e2 \<noteq> MWFS_OK \<Longrightarrow> vsec v s2 = vsec v s1 \<and> dir_at v (vsec v s1) R t \<and> find (de_is to_name) (dirents v (vsec v s1) t) = Some ?x"
    proof -
      let ?L = "dirents v ?D t @ xs"
      have p1: "de_ino (?L ! k) \<noteq> n" using k(2) j(5) by simp
      have p2: "types v ?D (de_ino (?L ! k)) \<noteq> MWFS_T_DIR \<and> mwfs_name_eq (de_name (?L ! k)) to_name" if "de_ino (?L ! k) \<noteq> 0"
        using k(2) that by simp
      have p3: "de_ino ?x = n" "de_type ?x = types v ?D n" "mwfs_name_eq (de_name ?x) to_name" using j(4) by (simp_all add: name_eq_upper)
      have p4: "\<not> de_is (de_name ?x) (dirents v ?D t ! i)" if "i < length (dirents v ?D t)" for i using find_none_nth [OF none that] by simp
      note SW = second_write [OF f st fd j(1,2) td k(1) xs p1 p2 p3 p4 rm']
      show "dev s2 = dev s1" by (rule SW(1))
      show "e2 = MWFS_OK \<Longrightarrow> fs_ok v (vsec v s2) (R - {0}) \<and> live_ok v (vsec v s2) R \<and> move_look v ?D R f from_name t to_name (vsec v s2)"
        using SW(2) unfolding k(2) .
      show "e2 \<noteq> MWFS_OK \<Longrightarrow> vsec v s2 = vsec v s1 \<and> dir_at v (vsec v s1) R t \<and> find (de_is to_name) (dirents v (vsec v s1) t) = Some ?x"
        by (rule SW(3))
    qed
    show ?thesis
    proof (cases "e2 = MWFS_OK")
      case False
      have "mwfs_dir_lookup v1 t to_name (working s2) = Inr (n, ty)"
        using dir_lookup_calm [of v s2 R t v1 to_name] A(1) W(3) [OF False] by simp
      moreover have "mwfs_dir_lookup v t to_name (working s) = Inl MWFS_E_NOENT"
        using dir_lookup_calm [OF at same_geo_refl, of to_name] none by simp
      ultimately show ?thesis unfolding res using False W(1) A(1-3) by (simp add: dev_def move_result_def)
    next
      case True
      have "0 \<notin> R" by (rule tree_okD(2) [OF F(3)])
      thus ?thesis unfolding res using W(1) W(2) [OF True] True A(1-3) by (auto simp: dev_def move_result_def)
    qed
  qed
qed

lemma rename_ok:
  assumes f: "fs_ok v (vsec v s) R" and fd: "f \<in> R" "types v (vsec v s) f = MWFS_T_DIR" and td: "t \<in> R" "types v (vsec v s) t = MWFS_T_DIR"
  shows "move_result v s R f from_name t to_name (mwfs_rename v f from_name t to_name s)"
proof (cases "mwfs_dir_lookup v f from_name s")
  case (Inl g)
  have "g \<noteq> MWFS_OK" using Inl find_Inl by (auto simp: mwfs_dir_lookup_def split: sum.splits)
  thus ?thesis using Inl move_quiet [OF f] by (simp add: mwfs_rename_def)
next
  case (Inr y)
  obtain n ty where y: "y = (n, ty)" by (cases y) auto
  obtain j where j: "hit (dirents v (vsec v s) f) from_name j" "de_ino (dirents v (vsec v s) f ! j) = n" "de_type (dirents v (vsec v s) f ! j) = ty"
    "link R (types v (vsec v s)) (dirents v (vsec v s)) f j n" "n \<in> R" "types v (vsec v s) n = ty" "n \<noteq> 1" "n \<noteq> 0"
    by (rule lookup_hit [OF f fd Inr [unfolded y]])
  note F = fs_okD [OF f]
  show ?thesis
  proof (cases "mwfs_name_ok to_name")
    case False thus ?thesis using Inr y move_quiet [OF f] by (simp add: mwfs_rename_def)
  next
    case nm: True
    show ?thesis
    proof (cases "mwfs_dir_lookup v t to_name s")
      case lt: (Inr q)
      obtain dst dty where q: "q = (dst, dty)" by (cases q) auto
      obtain k where k: "hit (dirents v (vsec v s) t) to_name k" "de_ino (dirents v (vsec v s) t ! k) = dst" "de_type (dirents v (vsec v s) t ! k) = dty"
        "link R (types v (vsec v s)) (dirents v (vsec v s)) t k dst" "dst \<in> R" "types v (vsec v s) dst = dty" "dst \<noteq> 1" "dst \<noteq> 0"
        by (rule lookup_hit [OF f td lt [unfolded q]])
      have tys: "ty \<noteq> MWFS_T_DIR \<Longrightarrow> ty = MWFS_T_FILE" "dty \<noteq> MWFS_T_DIR \<Longrightarrow> dty = MWFS_T_FILE"
        using live_okD(4) [OF F(1)] j(5,6) k(5,6) by metis+
      consider "dst = n" | "dst \<noteq> n" "dty = MWFS_T_DIR \<or> ty = MWFS_T_DIR" | "dst \<noteq> n" "dty \<noteq> MWFS_T_DIR" "ty \<noteq> MWFS_T_DIR" by blast
      thus ?thesis
      proof cases
        case 1 thus ?thesis using move_self [OF f j(1,4) k(1)] k(4) Inr lt y q nm by (simp add: mwfs_rename_def)
      next
        case 2 thus ?thesis using Inr lt y q nm move_quiet [OF f] by (simp add: mwfs_rename_def)
      next
        case 3
        thus ?thesis
          by (intro move_over [OF f fd td j(1,2,5) _ k(1,2) _ k(4) _ 3(1)]) (use Inr lt y q nm j(6) k(3,6) tys in \<open>simp_all add: mwfs_rename_def\<close>)
      qed
    next
      case (Inl g)
      have gn: "g \<noteq> MWFS_OK" using Inl find_Inl by (auto simp: mwfs_dir_lookup_def split: sum.splits)
      show ?thesis
      proof (cases "g = MWFS_E_NOENT")
        case False thus ?thesis using Inr y nm Inl gn move_quiet [OF f] by (simp add: mwfs_rename_def)
      next
        case True
        thus ?thesis by (intro move_new [OF f fd td j(1,2,5,6,8)]) (use Inr Inl y nm in \<open>simp add: mwfs_rename_def\<close>)
      qed
    qed
  qed
qed

end
