(* ===== verification/Mwfs_Run.thy ===== *)
theory Mwfs_Run
  imports Mwfs_Format Mwfs_Rename
begin

text \<open>
  The histories of a volume: from mwfs_mkfs on, files saved and copied, directories made, names removed and moved, in any order,
  on devices that may fail at any read or write. The properties say what every operation leaves for a reader, through the code's
  own mwfs_dir_lookup and mwfs_file_get. Two things the program can do are not part of a history: mwfs_check with fix, and a
  mwfs_rename that failed between its two writes, after which one object has two names.
\<close>

subsection \<open>Histories\<close>

text \<open>The directories a path leads to.\<close>

inductive mw_dir :: "vol \<Rightarrow> blk \<Rightarrow> nat \<Rightarrow> bool" for v s where
  root: "mw_dir v s MWFS_ROOT_INO"
| sub: "mw_dir v s d \<Longrightarrow> saved v s d name = Some (Dir d') \<Longrightarrow> mw_dir v s d'"

text \<open>
  The states a volume can be in: formatted, then changed by the operations on directories a path leads to, whatever they
  return; at any moment the devices may start or stop failing (a power cut and the next start are two such moments), and the
  volume may be mounted anew, which resets its cursors and may give it another name. A mwfs_rename that fails is part of a history
  when the new name leads where it led before: it failed at its first write or earlier. A write reported as failed changed
  nothing (blk_write of theory Mwfs): a disk that reports a failed cache flush after the sector was written is outside.
\<close>

inductive mw_run :: "vol \<Rightarrow> blk \<Rightarrow> bool" where
  mkfs: "mwfs_mkfs v label s = (MWFS_OK, v', s') \<Longrightarrow> v_base v + v_sectors v \<le> 2 ^ 32 \<Longrightarrow> v_sectors v \<le> 2 ^ 32 - 4096 \<Longrightarrow>
    secs_ok v (vsec v s) \<Longrightarrow> mw_run v' s'"
| put: "mw_run v s \<Longrightarrow> mw_dir v s d \<Longrightarrow> mwfs_file_put now v d name data aux s = (e, v', s') \<Longrightarrow> mw_run v' s'"
| copy: "mw_run v s \<Longrightarrow> mw_dir v s d \<Longrightarrow> mw_dir v s d' \<Longrightarrow> mwfs_dir_lookup v d' from_name (working s) = Inr (n, MWFS_T_FILE) \<Longrightarrow>
    mwfs_file_copy now v n v d name s = (e, v', s') \<Longrightarrow> mw_run v' s'"
| mkdir: "mw_run v s \<Longrightarrow> mw_dir v s d \<Longrightarrow> mwfs_mkdir now v d name s = (e, n, v', s') \<Longrightarrow> mw_run v' s'"
| unlink: "mw_run v s \<Longrightarrow> mw_dir v s d \<Longrightarrow> mwfs_unlink v d name s = (e, s') \<Longrightarrow> mw_run v s'"
| rename: "mw_run v s \<Longrightarrow> mw_dir v s d \<Longrightarrow> mw_dir v s d' \<Longrightarrow> mwfs_rename v d from_name d' to_name s = (e, v', s') \<Longrightarrow>
    e = MWFS_OK \<or> mwfs_dir_lookup v' d' to_name (working s') = mwfs_dir_lookup v d' to_name (working s) \<Longrightarrow> mw_run v' s'"
| power: "mw_run v s \<Longrightarrow> mw_run v (s\<lparr>blk_rd := r, blk_wr := w\<rparr>)"
| mount: "mw_run v s \<Longrightarrow> mw_run (v\<lparr>v_used := u, v_cur_blk := a, v_cur_ino := b, v_id := i\<rparr>) s"

lemma mw_dir_in:
  assumes f: "fs_ok v (vsec v s) R" and d: "mw_dir v s d"
  shows "d \<in> R \<and> types v (vsec v s) d = MWFS_T_DIR"
  using d
proof induction
  case root thus ?case using tree_okD(1,3) [OF fs_okD(3) [OF f]] by (simp add: MWFS_ROOT_INO_def)
next
  case (sub d name d')
  have l: "look v (vsec v s) d name = Some (Dir d')" using sub saved_look [OF f] by simp
  then obtain x where x: "find (de_is name) (dirents v (vsec v s) d) = Some x" "de_ino x = d'" "de_type x = MWFS_T_DIR"
    using sub.IH by (auto simp: look_def split: if_splits)
  obtain k where k: "link R (types v (vsec v s)) (dirents v (vsec v s)) d k d'" "dirents v (vsec v s) d ! k = x"
    using find_link [OF x(1)] sub.IH x(2) by blast
  thus ?case using tree_okD(4,6) [OF fs_okD(3) [OF f] k(1)] x(3) by simp
qed

lemma found_in:
  assumes f: "fs_ok v (vsec v s) R" and d: "mw_dir v s d" and l: "mwfs_dir_lookup v d name (working s) = Inr (n, ty)"
  shows "n \<in> R" "types v (vsec v s) n = ty"
proof -
  have dR: "d \<in> R" "types v (vsec v s) d = MWFS_T_DIR" using mw_dir_in [OF f d] by blast+
  note F = fs_okD [OF f]
  obtain lba e where q: "mwfs_dir_find v d name (working s) = Inr (n, ty, lba, e)"
    using l by (auto simp: mwfs_dir_lookup_def split: sum.splits)
  obtain j where j: "hit (dirents v (vsec v s) d) name (8 * j + e)" "de_ino (dirents v (vsec v s) d ! (8 * j + e)) = n"
      "de_type (dirents v (vsec v s) d ! (8 * j + e)) = ty"
    using find_Inr [of v "working s" d name n ty lba e] F(2) [OF dR] q by auto
  have k: "link R (types v (vsec v s)) (dirents v (vsec v s)) d (8 * j + e) n"
    using j dR unfolding link_def hit_def de_is_def by blast
  show "n \<in> R" by (rule tree_okD(4) [OF F(3) k])
  show "types v (vsec v s) n = ty" using tree_okD(6) [OF F(3) k] j(3) by simp
qed

text \<open>From one state to the next, with what each operation promised.\<close>

lemma put_spec_fs: "put_spec v D R d name nd ok D' \<Longrightarrow> \<exists>R'. fs_ok v D' R'" by (auto simp: put_spec_def)

lemma geo_fs: "same_geo v v' \<Longrightarrow> \<exists>R. fs_ok v (vsec v s) R \<Longrightarrow> \<exists>R. fs_ok v' (vsec v' s) R" using geo_cong(4,6) by metis

text \<open>What put_spec says through the code.\<close>

lemma put_spec_saved:
  assumes f: "fs_ok v (vsec v s) R" and g: "same_geo v v'" and p: "put_spec v (vsec v s) R d name nd ok (vsec v s')"
    and d': "mw_dir v s d'" "\<not> (ok \<and> saved v s d name = Some (Dir d'))" and d: "mw_dir v s d"
  shows "saved v' s' d' name' = (if ok \<and> d' = d \<and> mwfs_name_eq name' name then nd else saved v s d' name')"
proof -
  have R: "d' \<in> R" "types v (vsec v s) d' = MWFS_T_DIR" "d \<in> R" using mw_dir_in [OF f d'(1)] mw_dir_in [OF f d] by blast+
  note S = saved_look [OF f]
  obtain R' where R': "fs_ok v (vsec v s') R'" "d' \<in> R'"
    "look v (vsec v s') d' name' = (if ok \<and> d' = d \<and> mwfs_name_eq name' name then nd else look v (vsec v s) d' name')"
    using p R d'(2) S [OF R(3)] unfolding put_spec_def by metis
  have "saved v' s' d' name' = look v (vsec v s') d' name'" using saved_look [of v' s' R' d'] R'(1,2) geo_cong [OF g] by simp
  thus ?thesis using R'(3) S [OF R(1)] by simp
qed

lemma put_spec_dirs:
  assumes f: "fs_ok v (vsec v s) R" and g: "same_geo v v'" and p: "put_spec v (vsec v s) R d name nd ok (vsec v s')" and d: "mw_dir v s d"
    and no: "\<And>m. ok \<Longrightarrow> saved v s d name \<noteq> Some (Dir m)" and d': "mw_dir v s d'"
  shows "mw_dir v' s' d'"
  using d'
proof induction
  case root show ?case by (rule mw_dir.root)
next
  case (sub d1 name1 d2)
  have "saved v' s' d1 name1 = (if ok \<and> d1 = d \<and> mwfs_name_eq name1 name then nd else saved v s d1 name1)"
    by (rule put_spec_saved [OF f g p sub(1) _ d]) (use no in blast)
  moreover have "\<not> (ok \<and> d1 = d \<and> mwfs_name_eq name1 name)"
  proof
    assume a: "ok \<and> d1 = d \<and> mwfs_name_eq name1 name"
    have dR: "d \<in> R" using mw_dir_in [OF f d] by blast
    have "look v (vsec v s) d name1 = look v (vsec v s) d name" using de_is_eq [of name1 name] a by (simp add: look_def)
    thus False using no a sub(2) saved_look [OF f dR] by simp
  qed
  ultimately show ?case using mw_dir.sub [OF sub.IH] sub(2) by simp
qed

text \<open>
  The contract the operations on a name share: from a consistent volume, whatever the devices do, the operation leaves a
  consistent one in which its name reads as the node it reports, or nothing changed.
\<close>

locale name_op =
  fixes op :: "vol \<Rightarrow> blk \<Rightarrow> nat \<Rightarrow> bytes \<Rightarrow> mwfs_e \<times> node option \<times> vol \<times> blk"
    and pre :: "vol \<Rightarrow> blk \<Rightarrow> bool"
  assumes contract: "fs_ok v (vsec v s) R \<Longrightarrow> mw_dir v s d \<Longrightarrow> pre v s \<Longrightarrow> op v s d name = (e, nd, v', s') \<Longrightarrow>
    same_geo v v' \<and> put_spec v (vsec v s) R d name nd (e = MWFS_OK) (vsec v s')"
begin

lemma keeps_fs:
  assumes "\<exists>R. fs_ok v (vsec v s) R" "mw_dir v s d" "pre v s" "op v s d name = (e, nd, v', s')"
  shows "\<exists>R. fs_ok v' (vsec v' s') R"
  using assms(1) contract [OF _ assms(2-4)] geo_fs put_spec_fs by blast

lemma reads:
  assumes "fs_ok v (vsec v s) R" "mw_dir v s d" "pre v s" "op v s d name = (e, nd, v', s')" "mw_dir v s d'"
    "\<not> (e = MWFS_OK \<and> saved v s d name = Some (Dir d'))"
  shows "saved v' s' d' name' = (if e = MWFS_OK \<and> d' = d \<and> mwfs_name_eq name' name then nd else saved v s d' name')"
  using put_spec_saved [OF assms(1) _ _ assms(5,6,2)] contract [OF assms(1-4)] by blast

lemma dirs:
  assumes "fs_ok v (vsec v s) R" "mw_dir v s d" "pre v s" "op v s d name = (e, nd, v', s')"
    "\<And>m. e = MWFS_OK \<Longrightarrow> saved v s d name \<noteq> Some (Dir m)" "mw_dir v s d'"
  shows "mw_dir v' s' d'"
  using put_spec_dirs [OF assms(1) _ _ assms(2,5,6)] contract [OF assms(1-4)] by blast

text \<open>An operation that never replaces a directory.\<close>

lemma reads_dirs:
  assumes "fs_ok v (vsec v s) R" "mw_dir v s d" "pre v s" "op v s d name = (e, nd, v', s')"
    "\<And>m. e = MWFS_OK \<Longrightarrow> saved v s d name \<noteq> Some (Dir m)" "mw_dir v s d'"
  shows "mw_dir v' s' d' \<and> saved v' s' d' name' = (if e = MWFS_OK \<and> d' = d \<and> mwfs_name_eq name' name then nd else saved v s d' name')"
  using dirs [OF assms(1-5,6)] reads [OF assms(1-4,6)] assms(5) by blast

end

interpretation put_op: name_op "\<lambda>v s d name. case mwfs_file_put now v d name data aux s of (e, v', s') \<Rightarrow> (e, Some (File data), v', s')" "\<lambda>_ _. True"
  for now data aux
proof unfold_locales
  fix v s R d name e nd v' s'
  assume f: "fs_ok v (vsec v s) R" and d: "mw_dir v s d"
    and r: "(case mwfs_file_put now v d name data aux s of (e, v', s') \<Rightarrow> (e, Some (File data), v', s')) = (e, nd, v', s')"
  have "mwfs_file_put now v d name data aux s = (e, v', s')" "nd = Some (File data)" using r by (auto split: prod.splits)
  thus "same_geo v v' \<and> put_spec v (vsec v s) R d name nd (e = MWFS_OK) (vsec v s')" using file_put_ok [OF f] mw_dir_in [OF f d] by blast
qed

interpretation copy_op: name_op
  "\<lambda>v s d name. case mwfs_file_copy now v n v d name s of (e, v', s') \<Rightarrow> (e, Some (File (content (vsec v s) (inode v (vsec v s) n))), v', s')"
  "\<lambda>v s. \<exists>d' from_name. mw_dir v s d' \<and> mwfs_dir_lookup v d' from_name (working s) = Inr (n, MWFS_T_FILE)" for now n
proof unfold_locales
  fix v s R d name e nd v' s'
  assume f: "fs_ok v (vsec v s) R" and d: "mw_dir v s d"
    and src: "\<exists>d' from_name. mw_dir v s d' \<and> mwfs_dir_lookup v d' from_name (working s) = Inr (n, MWFS_T_FILE)"
    and r: "(case mwfs_file_copy now v n v d name s of (e, v', s') \<Rightarrow> (e, Some (File (content (vsec v s) (inode v (vsec v s) n))), v', s')) = (e, nd, v', s')"
  have c: "mwfs_file_copy now v n v d name s = (e, v', s')" "nd = Some (File (content (vsec v s) (inode v (vsec v s) n)))"
    using r by (auto split: prod.splits)
  have "n \<in> R" using src found_in(1) [OF f] by blast
  thus "same_geo v v' \<and> put_spec v (vsec v s) R d name nd (e = MWFS_OK) (vsec v s')"
    using file_copy_ok [OF f _ _ _ c(1)] mw_dir_in [OF f d] c(2) by blast
qed

interpretation mkdir_op: name_op "\<lambda>v s d name. case mwfs_mkdir now v d name s of (e, n, v', s') \<Rightarrow> (e, Some (Dir n), v', s')" "\<lambda>_ _. True" for now
proof unfold_locales
  fix v s R d name e nd v' s'
  assume f: "fs_ok v (vsec v s) R" and d: "mw_dir v s d"
    and r: "(case mwfs_mkdir now v d name s of (e, n, v', s') \<Rightarrow> (e, Some (Dir n), v', s')) = (e, nd, v', s')"
  obtain n where "mwfs_mkdir now v d name s = (e, n, v', s')" "nd = Some (Dir n)" using r by (auto split: prod.splits)
  thus "same_geo v v' \<and> put_spec v (vsec v s) R d name nd (e = MWFS_OK) (vsec v s')" using mkdir_ok [OF f] mw_dir_in [OF f d] by blast
qed

interpretation unlink_op: name_op "\<lambda>v s d name. case mwfs_unlink v d name s of (e, s') \<Rightarrow> (e, None, v, s')" "\<lambda>_ _. True"
proof unfold_locales
  fix v s R d name e s' v' and nd :: "node option"
  assume f: "fs_ok v (vsec v s) R" and d: "mw_dir v s d" and r: "(case mwfs_unlink v d name s of (e, s') \<Rightarrow> (e, None, v, s')) = (e, nd, v', s')"
  have u: "mwfs_unlink v d name s = (e, s')" "nd = None" "v' = v" using r by (auto split: prod.splits)
  show "same_geo v v' \<and> put_spec v (vsec v s) R d name nd (e = MWFS_OK) (vsec v s')"
    unfolding u(2,3) using unlink_ok [OF f _ _ u(1)] mw_dir_in [OF f d] by simp
qed

text \<open>A move that went through, or failed before the new name led to the object.\<close>

lemma rename_reads:
  assumes f: "fs_ok v (vsec v s) R" and d: "mw_dir v s d" "mw_dir v s d'" and r: "mwfs_rename v d from_name d' to_name s = (e, v', s')"
    and ok: "e = MWFS_OK \<or> mwfs_dir_lookup v' d' to_name (working s') = mwfs_dir_lookup v d' to_name (working s)"
  shows "\<exists>R'. fs_ok v' (vsec v' s') R'" and "mw_dir v s m \<Longrightarrow> saved v' s' m name =
    (if e = MWFS_OK \<and> m = d' \<and> mwfs_name_eq name to_name then saved v s d from_name
     else if e = MWFS_OK \<and> m = d \<and> mwfs_name_eq name from_name then None else saved v s m name)"
proof -
  let ?D = "vsec v s"
  have dR: "d \<in> R" "types v ?D d = MWFS_T_DIR" "d' \<in> R" "types v ?D d' = MWFS_T_DIR" using mw_dir_in [OF f d(1)] mw_dir_in [OF f d(2)] by blast+
  have M: "move_result v s R d from_name d' to_name (e, v', s')" using rename_ok [OF f dR] r by metis
  hence g: "same_geo v v'" by (simp add: move_result_def)
  note G = geo_cong [OF g]
  have "\<exists>R'. fs_ok v (vsec v s') R' \<and> (mw_dir v s m \<longrightarrow> m \<in> R' \<and> look v (vsec v s') m name =
    (if e = MWFS_OK \<and> m = d' \<and> mwfs_name_eq name to_name then saved v s d from_name
     else if e = MWFS_OK \<and> m = d \<and> mwfs_name_eq name from_name then None else saved v s m name))" for m name
  proof (cases "e = MWFS_OK")
    case True
    then obtain R' where R': "fs_ok v (vsec v s') R'" "\<And>m. m \<in> R \<Longrightarrow> types v ?D m = MWFS_T_DIR \<Longrightarrow> m \<in> R'"
      "move_look v ?D R d from_name d' to_name (vsec v s')" using M by (auto simp: move_result_def)
    have "m \<in> R' \<and> look v (vsec v s') m name = (if m = d' \<and> mwfs_name_eq name to_name then saved v s d from_name
      else if m = d \<and> mwfs_name_eq name from_name then None else saved v s m name)" if "mw_dir v s m"
      unfolding saved_look [OF f dR(1)] saved_look [OF f conjunct1 [OF mw_dir_in [OF f that]]]
      using R'(2,3) mw_dir_in [OF f that] unfolding move_look_def by blast
    thus ?thesis unfolding True simp_thms using R'(1) by blast
  next
    case False
    hence p: "put_spec v ?D R d' to_name None False (vsec v s')" using M ok by (simp add: move_result_def)
    then obtain R' where "fs_ok v (vsec v s') R'" "\<And>m. m \<in> R \<Longrightarrow> types v ?D m = MWFS_T_DIR \<Longrightarrow> m \<in> R' \<and> (\<forall>name. look v (vsec v s') m name = look v ?D m name)"
      by (auto simp: put_spec_def)
    thus ?thesis using False mw_dir_in [OF f, of m] saved_look [OF f] by (intro exI [of _ R']) simp
  qed
  note all = this
  show "\<exists>R'. fs_ok v' (vsec v' s') R'" using all G(4,6) by metis
  show "mw_dir v s m \<Longrightarrow> saved v' s' m name =
    (if e = MWFS_OK \<and> m = d' \<and> mwfs_name_eq name to_name then saved v s d from_name
     else if e = MWFS_OK \<and> m = d \<and> mwfs_name_eq name from_name then None else saved v s m name)"
    using all [of m name] saved_look [of v' s' _ m name] G by metis
qed

lemma mw_run_fs: "mw_run v s \<Longrightarrow> \<exists>R. fs_ok v (vsec v s) R"
proof (induction rule: mw_run.induct)
  case (mkfs v label s v' s') thus ?case using mkfs_fs(1) by blast
next
  case (put v s d now name data aux e v' s') 
  have "(case mwfs_file_put now v d name data aux s of (e, v', s') \<Rightarrow> (e, Some (File data), v', s')) = (e, Some (File data), v', s')"
    using put.hyps(3) by simp
  thus ?case by (rule put_op.keeps_fs [OF put.IH put.hyps(2) TrueI])
next
  case (copy v s d d' from_name n now name e v' s')
  have "\<exists>d' from_name. mw_dir v s d' \<and> mwfs_dir_lookup v d' from_name (working s) = Inr (n, MWFS_T_FILE)" using copy.hyps(3,4) by blast
  moreover have "(case mwfs_file_copy now v n v d name s of (e, v', s') \<Rightarrow> (e, Some (File (content (vsec v s) (inode v (vsec v s) n))), v', s')) =
      (e, Some (File (content (vsec v s) (inode v (vsec v s) n))), v', s')" using copy.hyps(5) by simp
  ultimately show ?case by (rule copy_op.keeps_fs [OF copy.IH copy.hyps(2)])
next
  case (mkdir v s d now name e n v' s') 
  have "(case mwfs_mkdir now v d name s of (e, n, v', s') \<Rightarrow> (e, Some (Dir n), v', s')) = (e, Some (Dir n), v', s')" using mkdir.hyps(3) by simp
  thus ?case by (rule mkdir_op.keeps_fs [OF mkdir.IH mkdir.hyps(2) TrueI])
next
  case (unlink v s d name e s') 
  have "(case mwfs_unlink v d name s of (e, s') \<Rightarrow> (e, None :: node option, v, s')) = (e, None, v, s')" using unlink.hyps(3) by simp
  thus ?case by (rule unlink_op.keeps_fs [OF unlink.IH unlink.hyps(2) TrueI])
next
  case (rename v s d d' from_name to_name e v' s')
  thus ?case using rename_reads(1) by blast
next
  case (power v s r w)
  have "vsec v (s\<lparr>blk_rd := a, blk_wr := b\<rparr>) = vsec v s" for a b by (simp add: fun_eq_iff vsec_def)
  thus ?case using power by simp
next
  case (mount v s u a b i)
  have "same_geo v (v\<lparr>v_used := x, v_cur_blk := y, v_cur_ino := z, v_id := w\<rparr>)" for x y z w by (simp add: same_geo_def)
  thus ?case using geo_fs mount by blast
qed

text \<open>mwfs_file_install never replaces a directory.\<close>

lemma not_refused:
  assumes f: "fs_ok v (vsec v s) R" and d: "mw_dir v s d" and r: "put_refused v d name s = None"
  shows "saved v s d name \<noteq> Some (Dir m)"
proof -
  have dR: "d \<in> R" "types v (vsec v s) d = MWFS_T_DIR" using mw_dir_in [OF f d] by blast+
  have dk: "dir_ok (vsec v s) (inode v (vsec v s) d)" using fs_okD(2) [OF f dR] .
  have "look v (vsec v s) d name \<noteq> Some (Dir m)"
  proof (cases "mwfs_dir_find v d name s")
    case (Inl g)
    hence "g = MWFS_E_NOENT" using r by (simp add: put_refused_def mwfs_dir_lookup_def split: if_splits)
    hence "find (de_is name) (dirents v (vsec v s) d) = None" using find_NOENT [OF dk] Inl by simp
    thus ?thesis by (simp add: look_def)
  next
    case (Inr y)
    obtain n ty lba e where y: "y = (n, ty, lba, e)" by (cases y) auto
    have ty: "ty \<noteq> MWFS_T_DIR" using r Inr y by (simp add: put_refused_def mwfs_dir_lookup_def split: if_splits)
    obtain j where j: "hit (dirents v (vsec v s) d) name (8 * j + e)" "de_type (dirents v (vsec v s) d ! (8 * j + e)) = ty"
      using find_Inr [OF dk Inr [unfolded y]] by blast
    show ?thesis using hit_find [OF j(1)] j(2) ty by (simp add: look_def)
  qed
  thus ?thesis using saved_look [OF f dR(1)] by simp
qed

lemma put_accepted: "mwfs_file_put now v d name data aux s = (MWFS_OK, v', s') \<Longrightarrow> put_refused v d name s = None"
  by (auto simp: mwfs_file_put_def split: if_splits option.splits dest: refused_err)

lemma copy_accepted: "mwfs_file_copy now v n v d name s = (MWFS_OK, v', s') \<Longrightarrow> put_refused v d name s = None"
  by (auto simp: mwfs_file_copy_def split: if_splits option.splits dest: refused_err)


lemma mkdir_accepted:
  assumes f: "fs_ok v (vsec v s) R" and d: "mw_dir v s d" and r: "mwfs_mkdir now v d name s = (MWFS_OK, n, v', s')"
  shows "saved v s d name = None"
proof -
  have dR: "d \<in> R" "types v (vsec v s) d = MWFS_T_DIR" using mw_dir_in [OF f d] by blast+
  have "mwfs_dir_find v d name s = Inl MWFS_E_NOENT"
    using r find_Inl [of v d name s] by (auto simp: mwfs_mkdir_def mwfs_dir_lookup_def split: if_splits sum.splits)
  hence "find (de_is name) (dirents v (vsec v s) d) = None" by (rule find_NOENT [OF fs_okD(2) [OF f dR]])
  thus ?thesis using saved_look [OF f dR(1)] by (simp add: look_def)
qed

text \<open>What a reader finds after mwfs_mkdir.\<close>

lemma mkdir_reads:
  assumes f: "fs_ok v (vsec v s) R" and d: "mw_dir v s d" and r: "mwfs_mkdir now v d name s = (e, n, v', s')" and d': "mw_dir v s d'"
  shows "mw_dir v' s' d' \<and> saved v' s' d' name' = (if e = MWFS_OK \<and> d' = d \<and> mwfs_name_eq name' name then Some (Dir n) else saved v s d' name')"
proof -
  have c: "(case mwfs_mkdir now v d name s of (e, n, v', s') \<Rightarrow> (e, Some (Dir n), v', s')) = (e, Some (Dir n), v', s')" using r by simp
  have no: "saved v s d name \<noteq> Some (Dir m)" if "e = MWFS_OK" for m using mkdir_accepted [OF f d] r that by simp
  show ?thesis by (rule mkdir_op.reads_dirs [OF f d TrueI c no d'])
qed

lemma mkdir_new:
  assumes f: "fs_ok v (vsec v s) R" and d: "mw_dir v s d" and r: "mwfs_mkdir now v d name s = (MWFS_OK, n, v', s')"
  shows "mw_dir v' s' n \<and> (\<forall>name'. saved v' s' n name' = None)"
proof
  have "saved v' s' d name = Some (Dir n)" using mkdir_reads [OF f d r d, of name] by (simp add: name_eq_upper)
  thus "mw_dir v' s' n" using mw_dir.sub mkdir_reads [OF f d r d] by blast
  have c: "(case mwfs_mkdir now v d name s of (e, n, v', s') \<Rightarrow> (e, Some (Dir n), v', s')) = (MWFS_OK, Some (Dir n), v', s')" using r by simp
  have P: "same_geo v v'" "put_spec v (vsec v s) R d name (Some (Dir n)) (MWFS_OK = MWFS_OK) (vsec v s')"
    using mkdir_op.contract [OF f d TrueI c] by blast+
  obtain R' where R': "fs_ok v (vsec v s') R'" "n \<in> R'" "\<forall>name'. look v (vsec v s') n name' = None" using P(2) unfolding put_spec_def by blast
  thus "\<forall>name'. saved v' s' n name' = None" using saved_look [of v' s' R' n] geo_cong [OF P(1)] by simp
qed

text \<open>A device on which everything works.\<close>

lemma wr_works: "\<forall>n d l. blk_wr s n d l \<Longrightarrow> l < v_sectors v \<Longrightarrow> \<exists>s'. mwfs_wr v l b s = (True, s')"
  by (simp add: mwfs_wr_def blk_write_def)

lemma wr_all_works: "\<forall>n d l. blk_wr s n d l \<Longrightarrow> \<forall>x \<in> set ws. fst x < v_sectors v \<Longrightarrow> vol_ok v \<Longrightarrow> \<exists>s'. wr_all v ws s = (True, s') \<and> dev s' = dev s"
proof (induction ws arbitrary: s)
  case (Cons x ws)
  obtain l b where x: "x = (l, b)" by fastforce
  obtain s1 where w: "mwfs_wr v l b s = (True, s1)" using wr_works [OF Cons.prems(1), of l v b] Cons.prems(2) x by auto
  note W = wr_cases(3,4) [OF w Cons.prems(3)]
  have "\<exists>s'. wr_all v ws s1 = (True, s') \<and> dev s' = dev s1" by (rule Cons.IH) (use Cons.prems W in auto)
  thus ?case using w x W by (simp add: dev_def)
qed simp

lemma mkfs_works:
  assumes g: "mwfs_geometry v = (True, g)" and v: "v_base v + v_sectors v \<le> 2 ^ 32" "v_sectors v \<le> 2 ^ 32 - 4096"
    and w: "\<forall>n d l. blk_wr s n d l" and c: "calm s"
  shows "\<exists>v' s'. mwfs_mkfs v label s = (MWFS_OK, v', s')"
proof -
  note G = geometry_ok(1) [OF g v]
  have lay: "v_bitmap_lba g = 1" "v_itable_lba g = 1 + v_bitmap_sectors g" "v_data_lba g = v_itable_lba g + v_itable_sectors g"
    "v_data_lba g + 8 \<le> v_sectors g" "1 < v_inodes g" using G by (auto simp: vol_ok_def)
  have wr: "\<forall>n d l. blk_wr s' n d l" if "dev s' = dev s" for s' using w that by (simp add: dev_def)
  obtain s0 where w0: "mwfs_wr g 0 (mwfs_zeros 512) s = (True, s0)" using wr_works [OF w, of 0 g] lay by auto
  have d0: "dev s0 = dev s" using wr_cases(3,4) [OF w0 G] by (simp add: dev_def)
  obtain s1 where w1: "wr_all g (map (\<lambda>si. (v_bitmap_lba g + si, mkfs_bitmap g si)) [0..<v_bitmap_sectors g]) s0 = (True, s1)" and d1: "dev s1 = dev s0"
    using wr_all_works [OF wr [OF d0], of "map (\<lambda>si. (v_bitmap_lba g + si, mkfs_bitmap g si)) [0..<v_bitmap_sectors g]" g] lay G by auto
  obtain s2 where w2: "wr_all g (map (\<lambda>si. (v_itable_lba g + si, mwfs_zeros 512)) [0..<v_itable_sectors g]) s1 = (True, s2)" and d2: "dev s2 = dev s1"
    using wr_all_works [OF wr, of s1 "map (\<lambda>si. (v_itable_lba g + si, mwfs_zeros 512)) [0..<v_itable_sectors g]" g] lay G d0 d1 by auto
  have it: "v_itable_lba g + 1 div 8 < v_sectors g" using lay by simp
  have c2: "calm s2" using c d0 d1 d2 by (simp add: calm_def dev_def)
  obtain s3 where w3: "mwfs_ino_put g MWFS_ROOT_INO (mwfs_ino_zero\<lparr>i_type := MWFS_T_DIR\<rparr>) s2 = (True, s3)"
    using wr_works [OF wr, of s2 _ g] calm_rd [OF c2 it] it lay(5) d0 d1 d2
    by (auto simp: mwfs_ino_put_def MWFS_ROOT_INO_def)
  have d3: "dev s3 = dev s2" using ino_put_cases(3,4) [OF w3 G] by (simp add: dev_def)
  let ?v = "g\<lparr>v_label := mwfs_strcpy label 16, v_cur_blk := v_data_lba g, v_cur_ino := 1\<rparr>"
  obtain s4 where w4: "mwfs_sb_write ?v s3 = (True, s4)"
    unfolding sb_write using wr_works [OF wr, of s3 0 ?v] lay d0 d1 d2 d3 by auto
  show ?thesis using w4 by (simp add: mwfs_mkfs_def g w0 w1 w2 w3)
qed

lemma ino_put_works:
  assumes "\<forall>n d l. blk_wr s n d l" "calm s" "vol_ok v" "0 < n" "n < v_inodes v"
  shows "\<exists>s'. mwfs_ino_put v n t s = (True, s')"
proof -
  have it: "v_itable_lba v + n div 8 < v_sectors v" using itable_in [OF assms(3) itable_of [OF assms(3,5)]] .
  thus ?thesis using wr_works [OF assms(1) it] calm_rd [OF assms(2) it] assms(4,5) by (simp add: mwfs_ino_put_def)
qed

text \<open>The search of the bitmap finds the first free sector.\<close>

lemma scan_first:
  assumes "\<And>k. k \<in> set js \<Longrightarrow> bit (b ! (k div 8)) (k mod 8)" "\<not> bit (b ! (j div 8)) (j mod 8)" "v_data_lba v \<le> si * 4096 + j"
    "si * 4096 + j < v_sectors v"
  shows "mwfs_scan v si b (js @ j # ks) = Some (si * 4096 + j)"
  using assms(1)
proof (induction js)
  case Nil
  have "b ! (j div 8) \<noteq> 0xFF"
  proof
    assume e: "b ! (j div 8) = 0xFF"
    have "bit (255 :: u8) k" if "k < 8" for k
    proof -
      have "k \<in> {0, 1, 2, 3, 4, 5, 6, 7}" using that by auto
      thus ?thesis by auto
    qed
    thus False using assms(2) e by simp
  qed
  thus ?case using assms(2-4) by (simp add: Let_def)
qed simp

lemma upt_split: "j < m \<Longrightarrow> [0..<m] = [0..<j] @ j # [Suc j..<m]"
  using upt_add_eq_append [of 0 j "m - j"] by (simp add: upt_conv_Cons)

lemma alloc_fresh:
  assumes v: "vol_ok v" "calm s" "\<forall>n d l. blk_wr s n d l" "v_cur_blk v < 4096" "v_data_lba v < 4096"
    and u: "\<And>l. used v (vsec v s) l \<longleftrightarrow> l < v_data_lba v"
  shows "\<exists>v' s'. mwfs_alloc v s = (v_data_lba v, v', s')"
proof -
  let ?j = "v_data_lba v" let ?b = "vsec v s 1"
  have lay: "v_bitmap_lba v = 1" "v_data_lba v < v_sectors v" "0 < v_bitmap_sectors v" "1 < v_sectors v" "v_data_lba v \<noteq> 0"
    using v(1) by (auto simp: vol_ok_def)
  have rd: "mwfs_rd v 1 s = Some ?b" by (rule calm_rd [OF v(2) lay(4)])
  have b: "bit (?b ! (k div 8)) (k mod 8) \<longleftrightarrow> k < ?j" if "k \<le> ?j" for k
    using u [of k] that lay(2) v(5) by (simp add: used_def)
  have sc: "mwfs_scan v 0 ?b [0..<4096] = Some ?j" unfolding upt_split [OF v(5)]
    using scan_first [of "[0..<?j]" ?b ?j v 0 "[Suc ?j..<4096]"] b lay(2) by (simp del: upt_rec_numeral upt_Suc)
  obtain s' where w: "mwfs_wr v 1 (mwfs_bit_put ?b (?j mod 4096) True) s = (True, s')" using wr_works [OF v(3) lay(4)] by blast
  have "map (\<lambda>pass. (0 + pass) mod v_bitmap_sectors v) [0..<v_bitmap_sectors v] = 0 # map (\<lambda>pass. pass mod v_bitmap_sectors v) [Suc 0..<v_bitmap_sectors v]"
    using lay(3) by (simp add: upt_conv_Cons)
  thus ?thesis using v(4) lay(1,3,5) rd sc w by (simp add: mwfs_alloc_def Let_def)
qed


text \<open>On a freshly formatted volume that works, an empty file is saved in the root.\<close>

lemma empty_dir_find:
  assumes "calm s" "vol_ok v" "0 < d" "d < v_inodes v" "inode v (vsec v s) d = ino_blank MWFS_T_DIR"
  shows "dir_inode v d s = Inr (ino_blank MWFS_T_DIR)" "mwfs_dir_find v d name s = Inl MWFS_E_NOENT"
proof -
  have g: "mwfs_ino_get v d s = Some (ino_blank MWFS_T_DIR)" using calm_ino_get [OF assms(2,1)] assms(3-5) by simp
  show i: "dir_inode v d s = Inr (ino_blank MWFS_T_DIR)" using g by (simp add: dir_inode_def ino_blank_def)
  have "dir_range (ino_blank MWFS_T_DIR) = []" by (simp add: dir_range_def ino_blank_def mwfs_ino_zero_def)
  thus "mwfs_dir_find v d name s = Inl MWFS_E_NOENT" using i by (simp add: mwfs_dir_find_def)
qed

lemma pwrite_sector:
  assumes "length b = 512" "mwfs_bmap v t 0 True False s = (MWFS_OK, l, t1, v1, s1)" "mwfs_wr v1 l b s1 = (True, s2)" "i_size t1 = 0"
  shows "mwfs_pwrite v t 0 b s = (MWFS_OK, t1\<lparr>i_size := 512\<rparr>, v1, s2)"
proof -
  have nil: "mwfs_pwrite v t p [] s = (MWFS_OK, t, v, s)" for v t p s by (subst mwfs_pwrite.simps) simp
  have "b \<noteq> []" "blit (mwfs_zeros 512) 0 b = b" using assms(1) by (auto simp: blit_def)
  thus ?thesis using assms nil by (subst mwfs_pwrite.simps) (simp add: Let_def)
qed

text \<open>A volume as mwfs_mkfs leaves it.\<close>

definition blank :: "vol \<Rightarrow> blk \<Rightarrow> bool" where
  "blank v s \<longleftrightarrow> vol_ok v \<and> secs_ok v (vsec v s) \<and> inode v (vsec v s) 1 = ino_blank MWFS_T_DIR \<and> (\<forall>l. used v (vsec v s) l \<longleftrightarrow> l < v_data_lba v) \<and>
     (\<forall>n. 1 < n \<longrightarrow> n < v_inodes v \<longrightarrow> inode v (vsec v s) n = ino_blank MWFS_T_FREE) \<and> v_cur_ino v = 1 \<and> v_cur_blk v = v_data_lba v"

lemma mkfs_blank:
  assumes r: "mwfs_mkfs v label s = (MWFS_OK, v', s')" and v: "v_base v + v_sectors v \<le> 2 ^ 32" "v_sectors v \<le> 2 ^ 32 - 4096"
    and s: "secs_ok v (vsec v s)"
  shows "blank v' s'"
proof -
  note M = mkfs_disk [OF r v s]
  have "v_cur_ino v' = 1" "v_cur_blk v' = v_data_lba v'" using M(3) by (auto simp: geometry_form split: if_splits)
  thus ?thesis using M(1,2,4,5,8) by (simp add: blank_def)
qed

lemma blank_put:
  assumes b: "blank v' s'" and w: "\<forall>n d l. blk_wr s' n d l" "calm s'" and dl: "v_data_lba v' < 4096" and nm: "mwfs_name_ok name"
  shows "\<exists>v'' s''. mwfs_file_put now v' MWFS_ROOT_INO name [] aux s' = (MWFS_OK, v'', s'')"
proof -
  have M: "vol_ok v'" "secs_ok v' (vsec v' s')" "inode v' (vsec v' s') 1 = ino_blank MWFS_T_DIR" "\<And>l. used v' (vsec v' s') l \<longleftrightarrow> l < v_data_lba v'"
    "\<And>n. 1 < n \<Longrightarrow> n < v_inodes v' \<Longrightarrow> inode v' (vsec v' s') n = ino_blank MWFS_T_FREE" using b by (simp_all add: blank_def)
  note vo = M(1)
  have good: "\<forall>n d l. blk_wr x n d l" "calm x" if "dev x = dev s'" for x using that w by (auto simp: dev_def calm_def)
  have i32: "32 \<le> v_inodes v'" using vo by (simp add: vol_ok_def)
  have cur: "v_cur_ino v' = 1" "v_cur_blk v' = v_data_lba v'" using b by (simp_all add: blank_def)
  have root: "0 < (1 :: nat)" "1 < v_inodes v'" using i32 by simp_all
  note E = empty_dir_find [OF good(2) [OF refl] vo root M(3)]
  have ref: "put_refused v' 1 name s' = None" using E(2) by (simp add: put_refused_def mwfs_dir_lookup_def)
  have n3: "2 + (1 + 0) mod (v_inodes v' - 2) = 3" using i32 by simp
  have three: "1 < (3 :: nat)" "3 < v_inodes v'" "0 < (3 :: nat)" using i32 by simp_all
  obtain ns where ns: "map (\<lambda>pass. 2 + (v_cur_ino v' + pass) mod (v_inodes v' - 2)) [0..<v_inodes v'] = 3 # ns"
    using cur(1) n3 i32 by (simp add: upt_conv_Cons)
  have g3: "mwfs_ino_get v' 3 s' = Some (ino_blank MWFS_T_FREE)"
    using calm_ino_get [OF vo good(2) [OF refl], of 3] M(5) [OF three(1,2)] three by simp
  obtain s1 where p1: "mwfs_ino_put v' 3 (ino_blank MWFS_T_FILE) s' = (True, s1)"
    using ino_put_works [OF good(1) [OF refl] good(2) [OF refl] vo three(3,2)] by blast
  let ?v = "v'\<lparr>v_cur_ino := 3\<rparr>"
  have al: "mwfs_ino_alloc v' MWFS_T_FILE s' = (3, ?v, s1)"
    unfolding mwfs_ino_alloc_def ns using g3 p1 by (simp add: ino_blank_def)
  note A = ino_alloc_ok [OF vo al]
  have d1: "dev s1 = dev s'" using A(6,7) by (simp add: dev_def)
  have vo': "vol_ok ?v" using vo by (simp add: vol_ok_def)
  have sg: "same_geo v' ?v" by simp
  note C = geo_cong [OF sg]
  have bo: "ino_ok (ino_blank MWFS_T_FILE)" by (rule ino_blank_ok) (simp add: mwfs_types)
  have D1: "vsec v' s1 = ino_set v' 3 (ino_blank MWFS_T_FILE) (vsec v' s')" using A(4) by simp
  note I1 = ino_setD [OF vo M(2) three(2) bo]
  have g1: "mwfs_ino_get ?v 3 s1 = Some (ino_blank MWFS_T_FILE)"
    using calm_ino_get [OF vo' good(2) [OF d1], of 3] three C D1 I1(2) by simp
  let ?t = "(ino_blank MWFS_T_FILE)\<lparr>i_aux := aux, i_gen := now\<rparr>"
  let ?t3 = "?t\<lparr>i_crc := NOT (mwfs_crc32_update 0xFFFFFFFF [])\<rparr>"
  have to: "ino_ok ?t3" using bo by (simp add: ino_ok_def)
  obtain s2 where p2: "mwfs_ino_put ?v 3 ?t3 s1 = (True, s2)"
    using ino_put_works [OF good(1) [OF d1] good(2) [OF d1] vo' three(3)] three by fastforce
  note P2 = ino_put_cases [OF p2 vo']
  have d2: "dev s2 = dev s'" using P2(3,4) d1 by (simp add: dev_def)
  have r1: "inode v' (vsec v' s1) 1 = ino_blank MWFS_T_DIR" unfolding D1 using I1(2) M(3) by simp
  have iset: "ino_set ?v = ino_set v'" by (simp add: fun_eq_iff ino_set_def)
  have D2: "vsec v' s2 = ino_set v' 3 ?t3 (vsec v' s1)" using P2(1) C iset by simp
  have so1: "secs_ok v' (vsec v' s1)" unfolding D1 by (rule I1(1))
  note I2 = ino_setD [OF vo so1 three(2) to]
  have r2: "inode v' (vsec v' s2) 1 = ino_blank MWFS_T_DIR" unfolding D2 using I2(2) r1 by simp
  have u2: "used v' (vsec v' s2) l \<longleftrightarrow> l < v_data_lba v'" for l unfolding D2 I2(4) unfolding D1 I1(4) by (rule M(4))
  note E1 = empty_dir_find [OF good(2) [OF d1] vo' root(1) root(2) [folded same_geoD(4) [OF sg]] r1 [folded C(1,6)]]
  note E2 = empty_dir_find [OF good(2) [OF d2] vo' root(1) root(2) [folded same_geoD(4) [OF sg]] r2 [folded C(1,6)]]
  have u2': "used ?v (vsec ?v s2) l \<longleftrightarrow> l < v_data_lba ?v" for l using u2 [of l] view_cong(2) [OF sg] C(6) by simp
  obtain v3 s3 where al3: "mwfs_alloc ?v s2 = (v_data_lba v', v3, s3)"
    using alloc_fresh [OF vo' good(2) [OF d2] good(1) [OF d2] _ _ u2'] cur(2) dl by auto
  have so2: "secs_ok ?v (vsec ?v s2)" using I2(1) D2 C(6) view_cong(1) [OF sg] by simp
  note A3 = alloc_ok [OF vo' so2 al3]
  have d3: "dev s3 = dev s'" using A3(3,4) d2 by (simp add: dev_def)
  have sg3: "same_geo v' v3" by (rule same_geo_trans [OF sg A3(2)])
  note C3 = geo_cong [OF sg3]
  have l3: "v_data_lba v' < v_sectors v3" "v_data_lba v' \<noteq> 0" using vo same_geoD(3) [OF sg3] by (auto simp: vol_ok_def)
  let ?ent = "mwfs_dent_fill 3 MWFS_T_FILE name @ mwfs_zeros 448"
  have le: "length ?ent = 512" by simp
  obtain s4 where w4: "mwfs_wr v3 (v_data_lba v') ?ent s3 = (True, s4)" using wr_works [OF good(1) [OF d3] l3(1)] by blast
  have vo3: "vol_ok v3" using C3(7) vo by simp
  have d4: "dev s4 = dev s'" using wr_cases(3,4) [OF w4 vo3] d3 by (simp add: dev_def)
  let ?d = "ino_blank MWFS_T_DIR"
  let ?d1 = "?d\<lparr>i_direct := (i_direct ?d)[0 := v_data_lba v'], i_nblocks := (i_nblocks ?d + 1) mod 2 ^ 32\<rparr>"
  have bm: "mwfs_bmap ?v ?d 0 True False s2 = (MWFS_OK, v_data_lba v', ?d1, v3, s3)"
    using al3 l3(2) by (simp add: mwfs_bmap_def mwfs_bmap_direct_def mwfs_fill_def MWFS_NDIRECT_def ino_blank_def mwfs_ino_zero_def)
  have sz0: "i_size ?d = 0" "i_size ?d1 = 0" by (simp_all add: ino_blank_def mwfs_ino_zero_def)
  have pw: "mwfs_pwrite ?v ?d (i_size ?d) ?ent s2 = (MWFS_OK, ?d1\<lparr>i_size := 512\<rparr>, v3, s4)"
    unfolding sz0 by (rule pwrite_sector [OF le bm w4 sz0(2)])
  obtain s5 where p5: "mwfs_ino_put v3 1 (?d1\<lparr>i_size := 512\<rparr>) s4 = (True, s5)"
    using ino_put_works [OF good(1) [OF d4] good(2) [OF d4] vo3 root(1)] root(2) same_geoD(4) [OF sg3] by fastforce
  have rng: "dir_range ?d = []" using sz0 by (simp add: dir_range_def)
  have add: "mwfs_dir_add ?v 1 name 3 MWFS_T_FILE s2 = (MWFS_OK, v3, s5)"
    using nm E2 rng pw p5 by (simp add: mwfs_dir_add_def Let_def MWFS_DENT_SIZE_def)
  have inst: "mwfs_file_install ?v 1 name 3 ?t3 MWFS_OK s1 = (MWFS_OK, v3, s5)"
    using E1(2) p2 add by (simp add: mwfs_file_install_def mwfs_dir_lookup_def Let_def)
  show ?thesis using nm ref al g1 inst by (simp add: mwfs_file_put_def MWFS_ROOT_INO_def Let_def)
qed

text \<open>Such a volume exists: 64 sectors.\<close>

lemma fresh_volume:
  "\<exists>v s v' s'. mwfs_mkfs v [77, 87] s = (MWFS_OK, v', s') \<and> v_base v + v_sectors v \<le> 2 ^ 32 \<and> v_sectors v \<le> 2 ^ 32 - 4096 \<and>
     secs_ok v (vsec v s) \<and> (\<forall>n d l. blk_wr s n d l) \<and> calm s \<and> v_data_lba v' < 4096"
proof -
  let ?v = "\<lparr>v_used = True, v_dev = 0, v_base = 0, v_sectors = 64, v_inodes = 0, v_bitmap_lba = 0, v_bitmap_sectors = 0, v_itable_lba = 0,
    v_itable_sectors = 0, v_data_lba = 0, v_cur_blk = 0, v_cur_ino = 0, v_id = [], v_label = []\<rparr>"
  let ?s = "\<lparr>blk_sec = \<lambda>_ _. mwfs_zeros 512, blk_rd = \<lambda>_ _ _. True, blk_wr = \<lambda>_ _ _. True, blk_n = 0\<rparr>"
  have g: "mwfs_geometry ?v = (True, geo_set ?v)" by (simp add: geometry_form geo_set_def geo_inodes_def geo_bitmap_def Let_def)
  have so: "secs_ok ?v (vsec ?v ?s)" by (simp add: secs_ok_def vsec_def)
  obtain v' s' where m: "mwfs_mkfs ?v [77, 87] ?s = (MWFS_OK, v', s')" using mkfs_works [OF g, of ?s "[77, 87]"] by (auto simp: calm_def)
  have "v_data_lba v' < 4096"
    using mkfs_disk(3) [OF m _ _ so] g by (auto simp: geo_set_def geo_inodes_def geo_bitmap_def Let_def)
  thus ?thesis using m so by (intro exI [of _ ?v] exI [of _ ?s] exI [of _ v'] exI [of _ s']) (simp add: calm_def)
qed

lemma fresh_run:
  "\<exists>v s v' s'. mw_run v s \<and> mwfs_file_put 7 v MWFS_ROOT_INO [65] [] 0 s = (MWFS_OK, v', s')"
proof -
  obtain v s v' s' where m: "mwfs_mkfs v [77, 87] s = (MWFS_OK, v', s')" "v_base v + v_sectors v \<le> 2 ^ 32" "v_sectors v \<le> 2 ^ 32 - 4096"
    "secs_ok v (vsec v s)" "\<forall>n d l. blk_wr s n d l" "calm s" "v_data_lba v' < 4096" using fresh_volume by blast
  have "mwfs_name_ok [65]" by (simp add: mwfs_name_ok_def mwfs_name_char_def MWFS_NAME_MAX_def)
  moreover have "dev s' = dev s" by (rule mkfs_disk(7) [OF m(1-4)])
  ultimately show ?thesis using blank_put [OF mkfs_blank [OF m(1-4)]] m(5-7) mw_run.mkfs [OF m(1-4)] by (metis calm_def dev_def prod.inject)
qed

text \<open>A volume with a file.\<close>

lemma file_run:
  "\<exists>v s n. mw_run v s \<and> mwfs_dir_lookup v MWFS_ROOT_INO [65] (working s) = Inr (n, MWFS_T_FILE) \<and> saved v s MWFS_ROOT_INO [65] = Some (File [])"
proof -
  obtain v s v' s' where r: "mw_run v s" and p: "mwfs_file_put 7 v MWFS_ROOT_INO [65] [] 0 s = (MWFS_OK, v', s')" using fresh_run by blast
  obtain R where f: "fs_ok v (vsec v s) R" using mw_run_fs [OF r] by blast
  have "saved v' s' MWFS_ROOT_INO [65] = (if MWFS_OK = MWFS_OK \<and> MWFS_ROOT_INO = MWFS_ROOT_INO \<and> mwfs_name_eq [65] [65] then Some (File [])
      else saved v s MWFS_ROOT_INO [65])"
    by (rule put_op.reads [where now = 7 and data = "[]" and aux = 0, OF f mw_dir.root TrueI _ mw_dir.root]) (use p not_refused [OF f mw_dir.root put_accepted [OF p]] in simp_all)
  hence sv: "saved v' s' MWFS_ROOT_INO [65] = Some (File [])" by simp
  have r': "mw_run v' s'" by (rule mw_run.put [OF r mw_dir.root p])
  obtain R' where f': "fs_ok v' (vsec v' s') R'" using mw_run_fs [OF r'] by blast
  obtain n ty where l: "mwfs_dir_lookup v' MWFS_ROOT_INO [65] (working s') = Inr (n, ty)" and ty: "ty \<noteq> MWFS_T_DIR"
    using sv by (auto simp: saved_def split: sum.splits if_splits)
  note N = found_in [OF f' mw_dir.root l]
  have "ty = MWFS_T_FILE" using live_okD(4) [OF fs_okD(1) [OF f'] N(1)] N(2) ty by simp
  thus ?thesis using r' l sv by blast
qed

subsection \<open>Properties\<close>

text \<open>Claim C4. After any history mw_run describes - files saved and copied, directories made, names removed and moved, remounts,
  failing devices; not mwfs_check with fix, nor a move interrupted between its two writes - and whatever reads and writes fail
  during the call, a power cut at any write included, mwfs_file_put is all or nothing: afterwards the name reads as exactly the new
  bytes when the call returned MWFS_OK and as it did before otherwise, and every other name in every directory a path leads to
  reads as before. A write that fails is taken to leave its sector as it was (blk_write of theory Mwfs).\<close>

theorem mwfs_put_atomic:
  assumes "mw_run v s" "mw_dir v s d" "mwfs_file_put now v d name data aux s = (e, v', s')" "mw_dir v s d'"
  shows "mw_dir v' s' d' \<and>
    saved v' s' d' name' = (if e = MWFS_OK \<and> d' = d \<and> mwfs_name_eq name' name then Some (File data) else saved v s d' name')"
proof -
  obtain R where f: "fs_ok v (vsec v s) R" using mw_run_fs [OF assms(1)] by blast
  show ?thesis
    by (rule put_op.reads_dirs [where now = now and data = data and aux = aux, OF f assms(2) TrueI _ _ assms(4)])
      (use assms(3) put_accepted not_refused [OF f assms(2)] in auto)
qed

lemma mwfs_put_atomic_witness:
  "\<exists>v s v' s'. mwfs_file_put 7 v MWFS_ROOT_INO [65] [] 0 s = (MWFS_OK, v', s') \<and> saved v' s' MWFS_ROOT_INO [97] = Some (File [])"
proof -
  obtain v s v' s' where r: "mw_run v s" and p: "mwfs_file_put 7 v MWFS_ROOT_INO [65] [] 0 s = (MWFS_OK, v', s')" using fresh_run by blast
  show ?thesis using mwfs_put_atomic [OF r mw_dir.root p mw_dir.root, of "[97]"] p by (auto simp: mwfs_upper_def)
qed

text \<open>Claim C7. After the same histories, with the same failures, mwfs_file_copy within a volume is all or nothing in the same way,
  and a copy that returns MWFS_OK reads as exactly the bytes of its source.\<close>

theorem mwfs_copy_exact:
  assumes "mw_run v s" "mw_dir v s d" "mw_dir v s d1" "mwfs_dir_lookup v d1 from_name (working s) = Inr (n, MWFS_T_FILE)"
    "mwfs_file_copy now v n v d name s = (e, v', s')" "mw_dir v s d'"
  shows "mw_dir v' s' d' \<and>
    saved v' s' d' name' = (if e = MWFS_OK \<and> d' = d \<and> mwfs_name_eq name' name then saved v s d1 from_name else saved v s d' name')"
proof -
  obtain R where f: "fs_ok v (vsec v s) R" using mw_run_fs [OF assms(1)] by blast
  have src: "saved v s d1 from_name = Some (File (content (vsec v s) (inode v (vsec v s) n)))"
    using assms(4) file_get_calm [OF fs_okD(1) [OF f] found_in [OF f assms(3,4)], of "working s"] by (simp add: saved_def mwfs_types)
  have "\<exists>d' from_name. mw_dir v s d' \<and> mwfs_dir_lookup v d' from_name (working s) = Inr (n, MWFS_T_FILE)" using assms(3,4) by blast
  thus ?thesis unfolding src
    by (rule copy_op.reads_dirs [where now = now and n = n, OF f assms(2) _ _ _ assms(6)])
      (use assms(5) copy_accepted not_refused [OF f assms(2)] in auto)
qed

lemma mwfs_copy_exact_witness:
  "\<exists>v s n. mwfs_dir_lookup v MWFS_ROOT_INO [65] (working s) = Inr (n, MWFS_T_FILE) \<and> (case mwfs_file_copy 7 v n v MWFS_ROOT_INO [66] s of (e, v', s') \<Rightarrow>
     e = MWFS_OK \<longrightarrow> saved v' s' MWFS_ROOT_INO [66] = Some (File []))"
proof -
  obtain v s n where r: "mw_run v s" and l: "mwfs_dir_lookup v MWFS_ROOT_INO [65] (working s) = Inr (n, MWFS_T_FILE)"
    and sv: "saved v s MWFS_ROOT_INO [65] = Some (File [])" using file_run by blast
  obtain e v' s' where p: "mwfs_file_copy 7 v n v MWFS_ROOT_INO [66] s = (e, v', s')" by (cases "mwfs_file_copy 7 v n v MWFS_ROOT_INO [66] s") auto
  show ?thesis using mwfs_copy_exact [OF r mw_dir.root mw_dir.root l p mw_dir.root, of "[66]"] p l sv
    by (intro exI [of _ v] exI [of _ s] exI [of _ n]) simp
qed

text \<open>mwfs_rename: when it returns MWFS_OK the new name reads as the old one did, the old one is gone, and every other name in
  every directory reads as before; when it fails before its second write every name reads as before.\<close>

theorem mwfs_rename_exact:
  assumes "mw_run v s" "mw_dir v s d" "mw_dir v s d'" "mwfs_rename v d from_name d' to_name s = (e, v', s')"
    "e = MWFS_OK \<or> mwfs_dir_lookup v' d' to_name (working s') = mwfs_dir_lookup v d' to_name (working s)" "mw_dir v s m"
  shows "saved v' s' m name =
    (if e = MWFS_OK \<and> m = d' \<and> mwfs_name_eq name to_name then saved v s d from_name
     else if e = MWFS_OK \<and> m = d \<and> mwfs_name_eq name from_name then None else saved v s m name)"
proof -
  obtain R where f: "fs_ok v (vsec v s) R" using mw_run_fs [OF assms(1)] by blast
  show ?thesis by (rule rename_reads(2) [OF f assms(2-6)])
qed

lemma mwfs_rename_exact_witness:
  "\<exists>v s. saved v s MWFS_ROOT_INO [65] = Some (File []) \<and> (case mwfs_rename v MWFS_ROOT_INO [65] MWFS_ROOT_INO [66] s of (e, v', s') \<Rightarrow>
     e = MWFS_OK \<longrightarrow> saved v' s' MWFS_ROOT_INO [66] = Some (File []) \<and> saved v' s' MWFS_ROOT_INO [65] = None)"
proof -
  obtain v s where r: "mw_run v s" and sv: "saved v s MWFS_ROOT_INO [65] = Some (File [])" using file_run by blast
  obtain e v' s' where p: "mwfs_rename v MWFS_ROOT_INO [65] MWFS_ROOT_INO [66] s = (e, v', s')"
    by (cases "mwfs_rename v MWFS_ROOT_INO [65] MWFS_ROOT_INO [66] s") auto
  note X = mwfs_rename_exact [OF r mw_dir.root mw_dir.root p _ mw_dir.root]
  show ?thesis using X [of "[66]"] X [of "[65]"] p sv by (intro exI [of _ v] exI [of _ s]) (simp add: mwfs_upper_def)
qed

text \<open>mwfs_mkdir is all or nothing: when it returns MWFS_OK the name leads to a new directory without names, and every
  other name reads as before; otherwise nothing changed.\<close>

theorem mwfs_mkdir_atomic:
  assumes "mw_run v s" "mw_dir v s d" "mwfs_mkdir now v d name s = (e, n, v', s')" "mw_dir v s d'"
  shows "mw_dir v' s' d' \<and> (e = MWFS_OK \<longrightarrow> mw_dir v' s' n \<and> (\<forall>name'. saved v' s' n name' = None)) \<and>
    saved v' s' d' name' = (if e = MWFS_OK \<and> d' = d \<and> mwfs_name_eq name' name then Some (Dir n) else saved v s d' name')"
proof -
  obtain R where f: "fs_ok v (vsec v s) R" using mw_run_fs [OF assms(1)] by blast
  have "e = MWFS_OK \<Longrightarrow> mw_dir v' s' n \<and> (\<forall>name'. saved v' s' n name' = None)" using mkdir_new [OF f assms(2)] assms(3) by blast
  thus ?thesis using mkdir_reads [OF f assms(2-4)] by blast
qed

lemma mwfs_mkdir_atomic_witness:
  "\<exists>v s. case mwfs_mkdir 7 v MWFS_ROOT_INO [66] s of (e, n, v', s') \<Rightarrow>
     saved v' s' MWFS_ROOT_INO [66] = (if e = MWFS_OK then Some (Dir n) else saved v s MWFS_ROOT_INO [66])"
proof -
  obtain v s where r: "mw_run v s" using file_run by blast
  obtain e n v' s' where p: "mwfs_mkdir 7 v MWFS_ROOT_INO [66] s = (e, n, v', s')" by (cases "mwfs_mkdir 7 v MWFS_ROOT_INO [66] s") auto
  thus ?thesis using mwfs_mkdir_atomic [OF r mw_dir.root p mw_dir.root, of "[66]"] by (intro exI [of _ v] exI [of _ s]) simp
qed

text \<open>mwfs_unlink is all or nothing: when it returns MWFS_OK the name is gone and nothing else is, otherwise nothing
  changed.\<close>

theorem mwfs_unlink_atomic:
  assumes "mw_run v s" "mw_dir v s d" "mwfs_unlink v d name s = (e, s')" "mw_dir v s d'" "e = MWFS_OK \<Longrightarrow> saved v s d name \<noteq> Some (Dir d')"
  shows "saved v s' d' name' = (if e = MWFS_OK \<and> d' = d \<and> mwfs_name_eq name' name then None else saved v s d' name')"
proof -
  obtain R where f: "fs_ok v (vsec v s) R" using mw_run_fs [OF assms(1)] by blast
  show ?thesis by (rule unlink_op.reads [OF f assms(2) TrueI _ assms(4)]) (use assms(3,5) in auto)
qed

lemma mwfs_unlink_atomic_witness:
  "\<exists>v s. saved v s MWFS_ROOT_INO [65] = Some (File []) \<and> (case mwfs_unlink v MWFS_ROOT_INO [65] s of (e, s') \<Rightarrow>
     saved v s' MWFS_ROOT_INO [65] = (if e = MWFS_OK then None else Some (File [])))"
proof -
  obtain v s where r: "mw_run v s" and sv: "saved v s MWFS_ROOT_INO [65] = Some (File [])" using file_run by blast
  obtain e s' where p: "mwfs_unlink v MWFS_ROOT_INO [65] s = (e, s')" by fastforce
  show ?thesis using mwfs_unlink_atomic [OF r mw_dir.root p mw_dir.root, of "[65]"] p sv by (intro exI [of _ v] exI [of _ s]) simp
qed

text \<open>Claim C8. A volume that mwfs_mkfs formatted with MWFS_OK is empty, and mwfs_open mounts it: geometry, label and cursors are
  those mwfs_mkfs left, and the bitmap marks exactly the sectors before the data area.\<close>

theorem mwfs_open_mkfs:
  assumes "mwfs_mkfs v label s = (MWFS_OK, v', s')" "v_base v + v_sectors v \<le> 2 ^ 32" "v_sectors v \<le> 2 ^ 32 - 4096" "secs_ok v (vsec v s)"
  shows "mwfs_open v (working s') = (MWFS_OK, v') \<and> saved v' s' MWFS_ROOT_INO name = None \<and> (\<forall>l. used v' (vsec v' s') l \<longleftrightarrow> l < v_data_lba v')"
proof -
  have "saved v' s' MWFS_ROOT_INO name = None"
    using saved_look [OF mkfs_fs(1) [OF assms]] mkfs_fs(2) [OF assms] by (simp add: MWFS_ROOT_INO_def)
  thus ?thesis using open_mkfs [OF assms] mkfs_disk(5) [OF assms] by blast
qed

lemma mwfs_open_mkfs_witness: "\<exists>v s v' s'. mwfs_mkfs v [77, 87] s = (MWFS_OK, v', s') \<and> mwfs_open v (working s') = (MWFS_OK, v')"
  using fresh_volume mwfs_open_mkfs by blast

text \<open>Claim C9. After the same histories the type in a directory entry is the type of a live inode: on a device that answers, a
  name found in a directory a path leads to leads to an inode that is a file or a directory and says so, and a file found can be
  read in full.\<close>

theorem mwfs_entries_typed:
  assumes "mw_run v s" "mw_dir v s d" "mwfs_dir_lookup v d name (working s) = Inr (n, ty)"
  shows "(ty = MWFS_T_FILE \<or> ty = MWFS_T_DIR) \<and> (\<exists>t. mwfs_ino_get v n (working s) = Some t \<and> i_type t = ty \<and>
    (ty = MWFS_T_DIR \<or> (\<exists>b. length b = i_size t \<and> mwfs_file_get v n (512 * file_max) (working s) = (MWFS_OK, Some (i_size t), b))))"
proof -
  obtain R where f: "fs_ok v (vsec v s) R" using mw_run_fs [OF assms(1)] by blast
  note l = fs_okD(1) [OF f]
  note N = found_in [OF f assms(2,3)]
  have "ty = MWFS_T_FILE \<or> ty = MWFS_T_DIR" using live_okD(4) [OF l N(1)] N(2) by simp
  moreover have "mwfs_ino_get v n (working s) = Some (inode v (vsec v s) n)"
    using calm_ino_get [OF live_okD(1) [OF l], of "working s" n] live_okD(3) [OF l N(1)] by simp
  ultimately show ?thesis using N file_get_calm [OF l N(1) _ working(2,1)] length_content by blast
qed

lemma mwfs_entries_typed_witness:
  "\<exists>v s n t. mwfs_dir_lookup v MWFS_ROOT_INO [65] (working s) = Inr (n, MWFS_T_FILE) \<and> mwfs_ino_get v n (working s) = Some t \<and> i_type t = MWFS_T_FILE"
proof -
  obtain v s n where "mw_run v s" "mwfs_dir_lookup v MWFS_ROOT_INO [65] (working s) = Inr (n, MWFS_T_FILE)" using file_run by blast
  thus ?thesis using mwfs_entries_typed [OF _ mw_dir.root] by blast
qed

end
