(* ===== verification/Vfs.thy ===== *)
theory Vfs
  imports Mwfs_Run
begin

text \<open>
  vfs.h: one namespace over the volumes. The state is the volume table (entry 0 is the root volume), the error of mounting the
  root, the current directory and the inode of the directory /mnt; the devices under the volumes are a second argument, the clock
  behind mwfs_now a third. Paths and names are C strings without their final 0.
\<close>

definition VFS_PATH_MAX :: nat where "VFS_PATH_MAX = 96"
definition VFS_MAX_VOLS :: nat where "VFS_MAX_VOLS = 6"
definition VFS_MAX_DEPTH :: nat where "VFS_MAX_DEPTH = 40"
definition SLASH :: u8 where "SLASH = 0x2F"
definition DOT :: u8 where "DOT = 0x2E"
definition vfs_mnt_name :: bytes where "vfs_mnt_name = [0x6D, 0x6E, 0x74]"

record vfs =
  vf_vols :: "vol list"
  vf_root_err :: mwfs_e
  vf_cwd :: bytes
  vf_mnt :: nat

definition vfs_is_root_ok :: "vfs \<Rightarrow> bool" where "vfs_is_root_ok f \<longleftrightarrow> vf_root_err f = MWFS_OK"

subsection \<open>Paths\<close>

text \<open>The buffer tmp: the current directory in front of a relative path, cut to the size of the buffer.\<close>

definition norm_tmp :: "bytes \<Rightarrow> bytes \<Rightarrow> bytes" where
  "norm_tmp cwd inp =
     (let pre = (if inp = [] \<or> hd inp \<noteq> SLASH
                 then (let c = take (VFS_PATH_MAX * 2) cwd in if c \<noteq> [] \<and> last c \<noteq> SLASH then c @ [SLASH] else c)
                 else [])
      in pre @ take (VFS_PATH_MAX * 2 + 1 - length pre) inp)"

lemma drop_nonslash_less: "t = dropWhile (\<lambda>c. c = SLASH) u \<Longrightarrow> t \<noteq> [] \<Longrightarrow> length (dropWhile (\<lambda>c. c \<noteq> SLASH) t) < length u"
proof -
  assume t: "t = dropWhile (\<lambda>c. c = SLASH) u" "t \<noteq> []"
  obtain a b where ab: "t = a # b" using t(2) by (meson neq_Nil_conv)
  have "a \<noteq> SLASH" using hd_dropWhile [of "\<lambda>c. c = SLASH" u] t ab by (metis list.sel(1))
  hence "length (dropWhile (\<lambda>c. c \<noteq> SLASH) t) \<le> length b" using ab by (simp add: length_dropWhile_le)
  moreover have "length t \<le> length u" unfolding t(1) by (rule length_dropWhile_le)
  ultimately show ?thesis using ab by simp
qed

text \<open>The components both vfs_norm and vfs_resolve cut a path into, one turn of their loops each: slashes are skipped, then
  everything up to the next slash is taken.\<close>

function path_comps :: "bytes \<Rightarrow> bytes list" where
  "path_comps t =
     (let t = dropWhile (\<lambda>c. c = SLASH) t in
      if t = [] then [] else takeWhile (\<lambda>c. c \<noteq> SLASH) t # path_comps (dropWhile (\<lambda>c. c \<noteq> SLASH) t))"
  by pat_completeness auto

termination by (relation "measure length") (simp_all add: drop_nonslash_less)

declare path_comps.simps [simp del]

text \<open>The loop over the components: the bytes of out so far, and where the components kept start in it, the last one
  first.\<close>

fun norm_loop :: "nat \<Rightarrow> bytes list \<Rightarrow> bytes \<Rightarrow> nat list \<Rightarrow> mwfs_e + bytes" where
  "norm_loop outmax [] out starts = Inr (if length out > 1 \<and> last out = SLASH then butlast out else out)"
| "norm_loop outmax (c # comps) out starts =
     (if c = [DOT] then norm_loop outmax comps out starts
      else if c = [DOT, DOT]
        then (case starts of [] \<Rightarrow> norm_loop outmax comps out [] | o' # st \<Rightarrow> norm_loop outmax comps (take o' out) st)
      else if length c > MWFS_NAME_MAX then Inl MWFS_E_NAME
      else if length starts \<ge> VFS_MAX_DEPTH then Inl MWFS_E_NAME
      else if length out + length c + 2 > outmax then Inl MWFS_E_NAME
      else let out = (if length out > 1 then out @ [SLASH] else out);
               start = (if length out > 1 \<and> last out = SLASH then length out - 1 else length out)
           in norm_loop outmax comps (out @ c) (start # starts))"

definition vfs_norm :: "vfs \<Rightarrow> bytes \<Rightarrow> nat \<Rightarrow> mwfs_e + bytes" where
  "vfs_norm f inp outmax = norm_loop outmax (path_comps (norm_tmp (vf_cwd f) inp)) [SLASH] []"

definition vfs_find_mount :: "vfs \<Rightarrow> bytes \<Rightarrow> nat option" where
  "vfs_find_mount f name = find (\<lambda>i. v_used (vf_vols f ! i) \<and> mwfs_name_eq (v_id (vf_vols f ! i)) name) [1..<VFS_MAX_VOLS]"

record vnode =
  nd_vol :: nat
  nd_ino :: nat
  nd_type :: nat
  nd_pvol :: nat
  nd_pino :: nat
  nd_leaf :: bytes
  nd_exists :: bool
  nd_is_mnt_dir :: bool
  nd_is_mountpoint :: bool

text \<open>What a lookup did to the node, after the name tok was looked for; vfs_mnt_ino is set the first time /mnt is passed.\<close>

definition walk_step :: "nat \<Rightarrow> bytes \<Rightarrow> vnode \<Rightarrow> vfs \<Rightarrow> bool \<times> vnode \<times> vfs" where
  "walk_step depth tok n f =
     (let is_mnt = (nd_vol n = 0 \<and> depth = 0 \<and> mwfs_name_eq tok vfs_mnt_name) in
      if is_mnt \<and> nd_exists n
      then (is_mnt, n\<lparr>nd_is_mnt_dir := True\<rparr>, if vf_mnt f = 0 then f\<lparr>vf_mnt := nd_ino n\<rparr> else f)
      else (is_mnt, n, f))"

fun vfs_walk :: "bytes list \<Rightarrow> nat \<Rightarrow> bool \<Rightarrow> vnode \<Rightarrow> vfs \<Rightarrow> blk \<Rightarrow> (mwfs_e + vnode) \<times> vfs" where
  "vfs_walk [] depth prev_is_mnt n f s = (Inr n, f)"
| "vfs_walk (tok # toks) depth prev_is_mnt n f s =
     (if length tok > MWFS_NAME_MAX then (Inl MWFS_E_NAME, f)
      else if nd_type n \<noteq> MWFS_T_DIR then (Inl MWFS_E_NOTDIR, f)
      else
        let n = n\<lparr>nd_pvol := nd_vol n, nd_pino := nd_ino n, nd_leaf := tok, nd_is_mnt_dir := False, nd_is_mountpoint := False\<rparr> in
        case (if nd_vol n = 0 \<and> depth = 1 \<and> prev_is_mnt then vfs_find_mount f tok else None) of
          Some m \<Rightarrow> vfs_walk toks (depth + 1) False
            (n\<lparr>nd_vol := m, nd_ino := MWFS_ROOT_INO, nd_type := MWFS_T_DIR, nd_exists := True, nd_is_mountpoint := True\<rparr>) f s
        | None \<Rightarrow>
          (case mwfs_dir_lookup (vf_vols f ! nd_vol n) (nd_ino n) tok s of
             Inr (cino, ctype) \<Rightarrow>
               let (mnt, n, f) = walk_step depth tok (n\<lparr>nd_ino := cino, nd_type := ctype, nd_exists := True\<rparr>) f
               in vfs_walk toks (depth + 1) mnt n f s
           | Inl r \<Rightarrow>
               if r \<noteq> MWFS_E_NOENT then (Inl r, f)
               else if toks \<noteq> [] then (Inl MWFS_E_NOENT, f)
               else let (mnt, n, f) = walk_step depth tok (n\<lparr>nd_ino := 0, nd_type := 0, nd_exists := False\<rparr>) f
                    in vfs_walk toks (depth + 1) mnt n f s))"

definition vfs_root_node :: vnode where
  "vfs_root_node = \<lparr>nd_vol = 0, nd_ino = MWFS_ROOT_INO, nd_type = MWFS_T_DIR, nd_pvol = 0, nd_pino = 0, nd_leaf = [], nd_exists = True,
     nd_is_mnt_dir = False, nd_is_mountpoint = False\<rparr>"

definition vfs_resolve :: "bytes \<Rightarrow> vfs \<Rightarrow> blk \<Rightarrow> (mwfs_e + vnode) \<times> vfs" where
  "vfs_resolve path f s =
     (if \<not> vfs_is_root_ok f then (Inl MWFS_E_NOFS, f)
      else vfs_walk (path_comps path) 0 False vfs_root_node f s)"

definition vfs_lookup :: "bytes \<Rightarrow> vfs \<Rightarrow> blk \<Rightarrow> (mwfs_e + vnode) \<times> vfs" where
  "vfs_lookup path f s =
     (case vfs_norm f path VFS_PATH_MAX of Inl e \<Rightarrow> (Inl e, f) | Inr p \<Rightarrow> vfs_resolve p f s)"

subsection \<open>Operations\<close>

definition vfs_stat :: "bytes \<Rightarrow> vfs \<Rightarrow> blk \<Rightarrow> (mwfs_e + vnode) \<times> vfs" where
  "vfs_stat path f s =
     (case vfs_lookup path f s of
        (Inl e, f) \<Rightarrow> (Inl e, f)
      | (Inr n, f) \<Rightarrow> (if nd_exists n then Inr n else Inl MWFS_E_NOENT, f))"

definition vfs_size :: "vnode \<Rightarrow> vfs \<Rightarrow> blk \<Rightarrow> nat" where
  "vfs_size n f s =
     (if nd_ino n = 0 then 0
      else case mwfs_ino_get (vf_vols f ! nd_vol n) (nd_ino n) s of None \<Rightarrow> 0 | Some t \<Rightarrow> i_size t)"

text \<open>The entries of /mnt: one for every volume mounted.\<close>

definition mount_entries :: "vfs \<Rightarrow> dirent list" where
  "mount_entries f =
     map (\<lambda>i. \<lparr>de_ino = MWFS_ROOT_INO, de_type = MWFS_T_DIR, de_name = take MWFS_NAME_MAX (v_id (vf_vols f ! i))\<rparr>)
       (filter (\<lambda>i. v_used (vf_vols f ! i)) [1..<VFS_MAX_VOLS])"

definition vfs_ls_nth :: "vnode \<Rightarrow> nat \<Rightarrow> vfs \<Rightarrow> blk \<Rightarrow> int \<times> dirent option" where
  "vfs_ls_nth dir idx f s =
     (if nd_is_mnt_dir dir
      then if idx < length (mount_entries f) then (1, Some (mount_entries f ! idx)) else (0, None)
      else mwfs_dir_nth (vf_vols f ! nd_vol dir) (nd_ino dir) idx s)"

fun each_entry :: "(dirent \<Rightarrow> 'c \<Rightarrow> bool \<times> 'c) \<Rightarrow> dirent list \<Rightarrow> 'c \<Rightarrow> 'c" where
  "each_entry fn [] ctx = ctx"
| "each_entry fn (e # es) ctx = (let (go, ctx) = fn e ctx in if \<not> go then ctx else each_entry fn es ctx)"

definition vfs_ls_each :: "vnode \<Rightarrow> (dirent \<Rightarrow> 'c \<Rightarrow> bool \<times> 'c) \<Rightarrow> 'c \<Rightarrow> vfs \<Rightarrow> blk \<Rightarrow> int \<times> 'c" where
  "vfs_ls_each dir fn ctx f s =
     (if nd_is_mnt_dir dir then (0, each_entry fn (mount_entries f) ctx)
      else mwfs_dir_each (vf_vols f ! nd_vol dir) (nd_ino dir) fn ctx s)"

text \<open>n.pvol == 0 && n.pino == vfs_mnt_ino && vfs_mnt_ino: the place is directly under /mnt.\<close>

definition under_mnt :: "vnode \<Rightarrow> vfs \<Rightarrow> bool" where
  "under_mnt n f \<longleftrightarrow> nd_pvol n = 0 \<and> nd_pino n = vf_mnt f \<and> vf_mnt f \<noteq> 0"

definition set_vol :: "nat \<Rightarrow> vol \<Rightarrow> vfs \<Rightarrow> vfs" where
  "set_vol i v f = f\<lparr>vf_vols := (vf_vols f)[i := v]\<rparr>"

definition vfs_mkdir :: "u32 \<Rightarrow> bytes \<Rightarrow> vfs \<Rightarrow> blk \<Rightarrow> mwfs_e \<times> vfs \<times> blk" where
  "vfs_mkdir now path f s =
     (case vfs_lookup path f s of
        (Inl e, f) \<Rightarrow> (e, f, s)
      | (Inr n, f) \<Rightarrow>
        if nd_exists n then (MWFS_E_EXIST, f, s)
        else if under_mnt n f then (MWFS_E_PERM, f, s)
        else let (e, _, v, s) = mwfs_mkdir now (vf_vols f ! nd_pvol n) (nd_pino n) (nd_leaf n) s in (e, set_vol (nd_pvol n) v f, s))"

definition vfs_write :: "u32 \<Rightarrow> bytes \<Rightarrow> bytes \<Rightarrow> u32 \<Rightarrow> vfs \<Rightarrow> blk \<Rightarrow> mwfs_e \<times> vfs \<times> blk" where
  "vfs_write now path data aux f s =
     (case vfs_lookup path f s of
        (Inl e, f) \<Rightarrow> (e, f, s)
      | (Inr n, f) \<Rightarrow>
        if nd_exists n \<and> nd_type n = MWFS_T_DIR then (MWFS_E_ISDIR, f, s)
        else if under_mnt n f then (MWFS_E_PERM, f, s)
        else let (e, v, s) = mwfs_file_put now (vf_vols f ! nd_pvol n) (nd_pino n) (nd_leaf n) data aux s
             in (e, set_vol (nd_pvol n) v f, s))"

text \<open>The error, *len, the bytes and *aux.\<close>

definition vfs_read :: "bytes \<Rightarrow> nat \<Rightarrow> vfs \<Rightarrow> blk \<Rightarrow> (mwfs_e \<times> nat option \<times> bytes \<times> u32 option) \<times> vfs" where
  "vfs_read path max_len f s =
     (case vfs_stat path f s of
        (Inl e, f) \<Rightarrow> ((e, None, [], None), f)
      | (Inr n, f) \<Rightarrow>
        if nd_type n \<noteq> MWFS_T_FILE then ((MWFS_E_ISDIR, None, [], None), f)
        else let aux = map_option i_aux (mwfs_ino_get (vf_vols f ! nd_vol n) (nd_ino n) s);
                 (e, len, data) = mwfs_file_get (vf_vols f ! nd_vol n) (nd_ino n) max_len s
             in ((e, len, data, aux), f))"

definition vfs_rm :: "bytes \<Rightarrow> vfs \<Rightarrow> blk \<Rightarrow> mwfs_e \<times> vfs \<times> blk" where
  "vfs_rm path f s =
     (case vfs_stat path f s of
        (Inl e, f) \<Rightarrow> (e, f, s)
      | (Inr n, f) \<Rightarrow>
        if nd_is_mnt_dir n \<or> nd_is_mountpoint n \<or> nd_ino n = MWFS_ROOT_INO then (MWFS_E_PERM, f, s)
        else let (e, s) = mwfs_unlink (vf_vols f ! nd_pvol n) (nd_pino n) (nd_leaf n) s in (e, f, s))"

text \<open>The path vfs_cp makes when the destination is a directory.\<close>

definition cp_full :: "bytes \<Rightarrow> bytes \<Rightarrow> bytes" where
  "cp_full dir leaf =
     (let full = take (VFS_PATH_MAX - 2) dir; full = (if length full > 1 then full @ [SLASH] else full)
      in full @ take (VFS_PATH_MAX - 1 - length full) leaf)"

text \<open>vfs_cp calls itself, so it takes fuel: None when that is used up.\<close>

fun vfs_cp :: "nat \<Rightarrow> u32 \<Rightarrow> bytes \<Rightarrow> bytes \<Rightarrow> vfs \<Rightarrow> blk \<Rightarrow> (mwfs_e \<times> vfs \<times> blk) option" where
  "vfs_cp 0 now src dst f s = None"
| "vfs_cp (Suc fuel) now src dst f s =
     (case vfs_stat src f s of
        (Inl e, f) \<Rightarrow> Some (e, f, s)
      | (Inr a, f) \<Rightarrow>
        if nd_type a \<noteq> MWFS_T_FILE then Some (MWFS_E_ISDIR, f, s)
        else case vfs_lookup dst f s of
          (Inl e, f) \<Rightarrow> Some (e, f, s)
        | (Inr b, f) \<Rightarrow>
          if nd_exists b \<and> nd_type b = MWFS_T_DIR
          then (case vfs_norm f dst VFS_PATH_MAX of
                  Inl e \<Rightarrow> Some (e, f, s)
                | Inr dir \<Rightarrow> vfs_cp fuel now src (cp_full dir (nd_leaf a)) f s)
          else if under_mnt b f then Some (MWFS_E_PERM, f, s)
          else if nd_exists b \<and> nd_vol b = nd_vol a \<and> nd_ino b = nd_ino a then Some (MWFS_E_EXIST, f, s)
          else let (e, v, s) = mwfs_file_copy now (vf_vols f ! nd_vol a) (nd_ino a) (vf_vols f ! nd_pvol b) (nd_pino b) (nd_leaf b) s
               in Some (e, set_vol (nd_pvol b) v f, s))"

text \<open>The path vfs_mv makes.\<close>

definition mv_full :: "bytes \<Rightarrow> bytes \<Rightarrow> bytes" where
  "mv_full dir leaf =
     (let dest = (if length dir > 1 \<and> length dir < VFS_PATH_MAX - 2 then dir @ [SLASH] else dir)
      in dest @ take (VFS_PATH_MAX - 1 - length dest) leaf)"

text \<open>The second half of vfs_mv, with the nodes of both ends.\<close>

definition vfs_mv_to :: "u32 \<Rightarrow> vnode \<Rightarrow> vnode \<Rightarrow> vfs \<Rightarrow> blk \<Rightarrow> mwfs_e \<times> vfs \<times> blk" where
  "vfs_mv_to now a b f s =
     (if under_mnt b f then (MWFS_E_PERM, f, s)
      else if nd_pvol b = nd_pvol a
      then let (e, v, s) = mwfs_rename (vf_vols f ! nd_pvol a) (nd_pino a) (nd_leaf a) (nd_pino b) (nd_leaf b) s
           in (e, set_vol (nd_pvol a) v f, s)
      else if nd_type a \<noteq> MWFS_T_FILE then (MWFS_E_XDEV, f, s)
      else let (e, v, s) = mwfs_file_copy now (vf_vols f ! nd_vol a) (nd_ino a) (vf_vols f ! nd_pvol b) (nd_pino b) (nd_leaf b) s;
               f = set_vol (nd_pvol b) v f
           in if e \<noteq> MWFS_OK then (e, f, s)
              else let (e, s) = mwfs_unlink (vf_vols f ! nd_pvol a) (nd_pino a) (nd_leaf a) s in (e, f, s))"

definition vfs_mv :: "u32 \<Rightarrow> bytes \<Rightarrow> bytes \<Rightarrow> vfs \<Rightarrow> blk \<Rightarrow> mwfs_e \<times> vfs \<times> blk" where
  "vfs_mv now src dst f s =
     (case vfs_stat src f s of
        (Inl e, f) \<Rightarrow> (e, f, s)
      | (Inr a, f) \<Rightarrow>
        if nd_is_mnt_dir a \<or> nd_is_mountpoint a \<or> nd_ino a = MWFS_ROOT_INO then (MWFS_E_PERM, f, s)
        else case vfs_lookup dst f s of
          (Inl e, f) \<Rightarrow> (e, f, s)
        | (Inr b, f) \<Rightarrow>
          if nd_exists b \<and> nd_type b = MWFS_T_DIR
          then (case vfs_norm f dst VFS_PATH_MAX of
                  Inl e \<Rightarrow> (e, f, s)
                | Inr dir \<Rightarrow>
                  (case vfs_lookup (mv_full dir (nd_leaf a)) f s of
                     (Inl e, f) \<Rightarrow> (e, f, s)
                   | (Inr b, f) \<Rightarrow> vfs_mv_to now a b f s))
          else vfs_mv_to now a b f s)"

definition vfs_chdir :: "bytes \<Rightarrow> vfs \<Rightarrow> blk \<Rightarrow> mwfs_e \<times> vfs" where
  "vfs_chdir path f s =
     (case vfs_norm f path VFS_PATH_MAX of
        Inl e \<Rightarrow> (e, f)
      | Inr p \<Rightarrow>
        (case vfs_resolve p f s of
           (Inl e, f) \<Rightarrow> (e, f)
         | (Inr n, f) \<Rightarrow>
           if \<not> nd_exists n then (MWFS_E_NOENT, f)
           else if nd_type n \<noteq> MWFS_T_DIR then (MWFS_E_NOTDIR, f)
           else (MWFS_OK, f\<lparr>vf_cwd := take (VFS_PATH_MAX - 1) p\<rparr>)))"

subsection \<open>Mounting\<close>

definition vol_zero :: vol where
  "vol_zero = \<lparr>v_used = False, v_dev = 0, v_base = 0, v_sectors = 0, v_inodes = 0, v_bitmap_lba = 0, v_bitmap_sectors = 0, v_itable_lba = 0,
     v_itable_sectors = 0, v_data_lba = 0, v_cur_blk = 0, v_cur_ino = 0, v_id = [], v_label = mwfs_zeros 16\<rparr>"

text \<open>The error and the slot the volume got.\<close>

definition vfs_mount_region :: "bytes \<Rightarrow> int \<Rightarrow> nat \<Rightarrow> nat \<Rightarrow> vfs \<Rightarrow> blk \<Rightarrow> mwfs_e \<times> nat option \<times> vfs" where
  "vfs_mount_region name dv base region f s =
     (if \<not> vfs_is_root_ok f then (MWFS_E_NOFS, None, f)
      else if vfs_find_mount f name \<noteq> None then (MWFS_E_EXIST, None, f)
      else case find (\<lambda>i. \<not> v_used (vf_vols f ! i)) [1..<VFS_MAX_VOLS] of
        None \<Rightarrow> (MWFS_E_FULL, None, f)
      | Some slot \<Rightarrow>
        let (e, v) = mwfs_open (vol_zero\<lparr>v_dev := dv, v_base := base, v_sectors := region\<rparr>) s in
        if e \<noteq> MWFS_OK then (e, None, f)
        else (MWFS_OK, Some slot, set_vol slot (v\<lparr>v_used := True, v_id := take 15 name\<rparr>) f))"

text \<open>Lower case as vfs_unmount compares with; the current directory is inside the mount point.\<close>

definition vfs_lower :: "u8 \<Rightarrow> u8" where "vfs_lower c = (if 0x41 \<le> c \<and> c \<le> 0x5A then c + 32 else c)"

definition inside_mount :: "bytes \<Rightarrow> bytes \<Rightarrow> bool" where
  "inside_mount name cwd =
     (let pre = SLASH # vfs_mnt_name @ [SLASH]; pre = pre @ take (VFS_PATH_MAX - 1 - length pre) name; n = length pre
      in length cwd \<ge> n \<and> map vfs_lower (take n cwd) = map vfs_lower pre \<and> (length cwd = n \<or> cwd ! n = SLASH))"

definition vfs_unmount :: "bytes \<Rightarrow> vfs \<Rightarrow> mwfs_e \<times> vfs" where
  "vfs_unmount name f =
     (case vfs_find_mount f name of
        None \<Rightarrow> (MWFS_E_NOENT, f)
      | Some m \<Rightarrow>
        let f = (if inside_mount (v_id (vf_vols f ! m)) (vf_cwd f) then f\<lparr>vf_cwd := [SLASH]\<rparr> else f)
        in (MWFS_OK, set_vol m vol_zero f))"

definition vfs_root_dirs :: "bytes list" where
  "vfs_root_dirs = [[0x64, 0x6F, 0x63, 0x73], [0x70, 0x72, 0x6F, 0x67, 0x73], vfs_mnt_name, [0x73, 0x79, 0x73]]"

fun vfs_make_dirs :: "u32 \<Rightarrow> bytes list \<Rightarrow> vol \<Rightarrow> blk \<Rightarrow> mwfs_e \<times> vol \<times> blk" where
  "vfs_make_dirs now [] v s = (MWFS_OK, v, s)"
| "vfs_make_dirs now (d # ds) v s =
     (let (e, _, v, s) = mwfs_mkdir now v MWFS_ROOT_INO d s
      in if e \<noteq> MWFS_OK \<and> e \<noteq> MWFS_E_EXIST then (e, v, s) else vfs_make_dirs now ds v s)"

definition vfs_make_root_layout :: "u32 \<Rightarrow> vol \<Rightarrow> blk \<Rightarrow> mwfs_e \<times> vol \<times> blk" where
  "vfs_make_root_layout now v s = vfs_make_dirs now vfs_root_dirs v s"

definition vfs_mount_root :: "u32 \<Rightarrow> int \<Rightarrow> nat \<Rightarrow> nat \<Rightarrow> vfs \<Rightarrow> blk \<Rightarrow> mwfs_e \<times> vfs \<times> blk" where
  "vfs_mount_root now dv base region f s =
     (let (e, v) = mwfs_open (vol_zero\<lparr>v_dev := dv, v_base := base, v_sectors := region\<rparr>) s in
      if e \<noteq> MWFS_OK then (e, set_vol 0 (v\<lparr>v_used := False\<rparr>) (f\<lparr>vf_root_err := e\<rparr>), s)
      else let v = v\<lparr>v_used := True, v_id := [0x72, 0x6F, 0x6F, 0x74]\<rparr>;
               (_, v, s) = vfs_make_root_layout now v s;
               f = set_vol 0 v (f\<lparr>vf_root_err := MWFS_OK, vf_mnt := 0, vf_cwd := [SLASH]\<rparr>)
           in (MWFS_OK,
               case mwfs_dir_lookup v MWFS_ROOT_INO vfs_mnt_name s of Inr (i, _) \<Rightarrow> f\<lparr>vf_mnt := i\<rparr> | Inl _ \<Rightarrow> f,
               s))"

end
