(* ===== verification/Vfs_Path.thy ===== *)
theory Vfs_Path
  imports Vfs
begin

text \<open>
  Paths as lists of components: what vfs_norm computes, on the abstract side of the bytes. path_of prints a list of
  components, path_comps reads it back; walk_comps is the meaning of a path with . and .. in it.
\<close>

subsection \<open>Components\<close>

definition plain :: "bytes \<Rightarrow> bool" where "plain c \<longleftrightarrow> c \<noteq> [] \<and> SLASH \<notin> set c"

definition path_of :: "bytes list \<Rightarrow> bytes" where
  "path_of cs = (if cs = [] then [SLASH] else concat (map (\<lambda>c. SLASH # c) cs))"

lemma comps_Nil [simp]: "path_comps [] = []" by (simp add: path_comps.simps [of "[]"])

lemma comps_step: "p \<noteq> [] \<Longrightarrow> hd p \<noteq> SLASH \<Longrightarrow> path_comps p = takeWhile (\<lambda>c. c \<noteq> SLASH) p # path_comps (dropWhile (\<lambda>c. c \<noteq> SLASH) p)"
  by (cases p) (simp_all add: path_comps.simps [of "_ # _"])

lemma comps_slash [simp]: "path_comps (SLASH # p) = path_comps p"
proof (cases "dropWhile (\<lambda>c. c = SLASH) p = []")
  case True thus ?thesis by (simp only: path_comps.simps [of "SLASH # p"] path_comps.simps [of p] dropWhile.simps Let_def if_True simp_thms)
next
  case False thus ?thesis by (simp only: path_comps.simps [of "SLASH # p"] path_comps.simps [of p] dropWhile.simps Let_def if_True simp_thms)
qed

lemma comps_plain: "plain c \<Longrightarrow> p = [] \<or> hd p = SLASH \<Longrightarrow> path_comps (c @ p) = c # path_comps p"
proof -
  assume c: "plain c" and p: "p = [] \<or> hd p = SLASH"
  have "takeWhile (\<lambda>c. c \<noteq> SLASH) (c @ p) = c @ takeWhile (\<lambda>c. c \<noteq> SLASH) p" "dropWhile (\<lambda>c. c \<noteq> SLASH) (c @ p) = dropWhile (\<lambda>c. c \<noteq> SLASH) p"
    using c by (auto simp: plain_def intro!: takeWhile_append2 dropWhile_append2)
  moreover have "takeWhile (\<lambda>c. c \<noteq> SLASH) p = [] \<and> dropWhile (\<lambda>c. c \<noteq> SLASH) p = p" using p by (cases p) auto
  moreover have "c @ p \<noteq> [] \<and> hd (c @ p) \<noteq> SLASH" using c by (cases c) (auto simp: plain_def)
  ultimately show ?thesis using comps_step [of "c @ p"] by simp
qed

text \<open>A path is a slash in front of the rest, or a component in front of it.\<close>

lemma path_cases:
  obtains "p = []" | q where "p = SLASH # q" | c q where "p = c @ q" "plain c" "q = [] \<or> hd q = SLASH" "length q < length p"
proof (cases p)
  case (Cons a q)
  show thesis
  proof (cases "a = SLASH")
    case False
    let ?c = "takeWhile (\<lambda>c. c \<noteq> SLASH) p" let ?q = "dropWhile (\<lambda>c. c \<noteq> SLASH) p"
    have "?c \<noteq> []" using False Cons by simp
    hence c: "plain ?c" using set_takeWhileD [of SLASH "\<lambda>c. c \<noteq> SLASH" p] unfolding plain_def by blast
    have q: "?q = [] \<or> hd ?q = SLASH" using hd_dropWhile [of "\<lambda>c. c \<noteq> SLASH" p] by (cases "?q = []") auto
    have "length p = length ?c + length ?q" by (metis length_append takeWhile_dropWhile_id)
    hence "length ?q < length p" using c by (cases ?c) (auto simp: plain_def)
    thus thesis using that(3) [OF _ c q] by simp
  qed (use that(2) Cons in blast)
qed (use that(1) in blast)

lemma comps_plain_comps: "c \<in> set (path_comps p) \<Longrightarrow> plain c"
proof (induction "length p" arbitrary: p rule: less_induct)
  case less
  show ?case
  proof (rule path_cases [of p])
    fix b q assume q: "p = b @ q" "plain b" "q = [] \<or> hd q = SLASH" "length q < length p"
    show ?thesis using less(1) [OF q(4)] less(2) comps_plain [OF q(2,3)] q(1,2) by auto
  qed (use less in auto)
qed

lemma comps_append: "path_comps (a @ SLASH # b) = path_comps a @ path_comps b"
proof (induction "length a" arbitrary: a rule: less_induct)
  case less
  show ?case
  proof (rule path_cases [of a])
    fix c q assume q: "a = c @ q" "plain c" "q = [] \<or> hd q = SLASH" "length q < length a"
    have "hd (q @ SLASH # b) = SLASH" using q(3) by (cases q) auto
    thus ?thesis using less(1) [OF q(4)] comps_plain [OF q(2), of "q @ SLASH # b"] comps_plain [OF q(2,3)] q(1) by simp
  qed (use less in auto)
qed

lemma comps_path_of: "\<forall>c \<in> set cs. plain c \<Longrightarrow> path_comps (path_of cs) = cs"
proof -
  have "\<forall>c \<in> set cs. plain c \<Longrightarrow> path_comps (concat (map (\<lambda>c. SLASH # c) cs)) = cs"
  proof (induction cs)
    case (Cons c cs)
    have "concat (map (\<lambda>c. SLASH # c) cs) = [] \<or> hd (concat (map (\<lambda>c. SLASH # c) cs)) = SLASH" by (cases cs) auto
    thus ?case using Cons comps_plain [of c "concat (map (\<lambda>c. SLASH # c) cs)"] by simp
  qed simp
  thus "\<forall>c \<in> set cs. plain c \<Longrightarrow> ?thesis" by (simp add: path_of_def)
qed

lemma path_of_snoc: "path_of (cs @ [c]) = (if cs = [] then [] else path_of cs) @ SLASH # c"
  by (simp add: path_of_def)

lemma path_of_neq [simp]: "path_of cs \<noteq> []" by (cases cs) (simp_all add: path_of_def)

lemma hd_path_of [simp]: "hd (path_of cs) = SLASH" by (cases cs) (simp_all add: path_of_def)

subsection \<open>The meaning of a path\<close>

definition comp_step :: "bytes list \<Rightarrow> bytes \<Rightarrow> bytes list" where
  "comp_step cs c = (if c = [DOT] then cs else if c = [DOT, DOT] then butlast cs else cs @ [c])"

definition walk_comps :: "bytes list \<Rightarrow> bytes list" where "walk_comps w = foldl comp_step [] w"

text \<open>The limits of the code: components of 31 bytes, 40 of them, and 95 bytes in all.\<close>

definition fits :: "bytes list \<Rightarrow> bool" where
  "fits cs \<longleftrightarrow> (\<forall>c \<in> set cs. length c \<le> MWFS_NAME_MAX) \<and> length cs \<le> VFS_MAX_DEPTH \<and> length (path_of cs) < VFS_PATH_MAX"

definition normal :: "bytes list \<Rightarrow> bool" where "normal cs \<longleftrightarrow> (\<forall>c \<in> set cs. plain c \<and> c \<noteq> [DOT] \<and> c \<noteq> [DOT, DOT])"

definition canonical :: "bytes \<Rightarrow> bool" where "canonical p \<longleftrightarrow> (\<exists>cs. p = path_of cs \<and> normal cs \<and> fits cs)"

fun starts :: "bytes list \<Rightarrow> nat list" where
  "starts cs = rev (map (\<lambda>i. length (path_of (take i cs))) [0..<length cs])"

declare starts.simps [simp del]

lemma starts_Nil [simp]: "starts [] = []" by (simp add: starts.simps)

lemma starts_snoc [simp]: "starts (cs @ [c]) = length (path_of cs) # starts cs"
  by (simp add: starts.simps)

lemma length_starts [simp]: "length (starts cs) = length cs" by (simp add: starts.simps)

lemma path_of_take: "take (length (path_of cs)) (path_of (cs @ [c])) = path_of cs"
  by (simp add: path_of_snoc) (simp add: path_of_def)

lemma last_path_of: "normal cs \<Longrightarrow> cs \<noteq> [] \<Longrightarrow> last (path_of cs) \<noteq> SLASH"
proof (cases cs rule: rev_cases)
  case (snoc ds c)
  assume "normal cs"
  hence "plain c" using snoc by (simp add: normal_def)
  hence "c \<noteq> []" "SLASH \<notin> set c" by (simp_all add: plain_def)
  hence "c \<noteq> []" "last c \<noteq> SLASH" using last_in_set [of c] by metis+
  thus ?thesis using snoc by (simp add: path_of_snoc)
qed simp

lemma path_of_long: "normal cs \<Longrightarrow> (length (path_of cs) > 1) = (cs \<noteq> [])"
proof (cases cs)
  case (Cons c ds)
  assume "normal cs"
  hence "c \<noteq> []" using Cons by (simp add: normal_def plain_def)
  thus ?thesis using Cons by (cases c) (simp_all add: path_of_def)
qed (simp add: path_of_def)

lemma normal_step: "normal cs \<Longrightarrow> plain c \<Longrightarrow> normal (comp_step cs c)"
  by (auto simp: normal_def comp_step_def dest: in_set_butlastD)

lemma normal_foldl: "normal cs \<Longrightarrow> \<forall>c \<in> set w. plain c \<Longrightarrow> normal (foldl comp_step cs w)"
  by (induction w arbitrary: cs) (simp_all add: normal_step)

lemma fits_snoc:
  "fits cs \<Longrightarrow> normal cs \<Longrightarrow> fits (cs @ [c]) \<longleftrightarrow>
     length c \<le> MWFS_NAME_MAX \<and> length cs < VFS_MAX_DEPTH \<and> length (path_of cs) + length c + 2 \<le> VFS_PATH_MAX"
  using path_of_long [of cs]
  by (auto simp: fits_def path_of_snoc path_of_def VFS_PATH_MAX_def MWFS_NAME_MAX_def split: if_splits)

lemma norm_loop_one:
  assumes "normal cs" "plain c" "fits cs"
  shows "norm_loop VFS_PATH_MAX (c # w) (path_of cs) (starts cs) =
    (if fits (comp_step cs c) then norm_loop VFS_PATH_MAX w (path_of (comp_step cs c)) (starts (comp_step cs c)) else Inl MWFS_E_NAME)"
proof -
  have up: ?thesis if c: "c = [DOT, DOT]"
  proof (cases cs rule: rev_cases)
    case (snoc ds d)
    have "fits ds" using assms(3) unfolding snoc fits_def by (auto simp: path_of_snoc path_of_def VFS_PATH_MAX_def split: if_splits)
    thus ?thesis using c snoc by (simp add: comp_step_def path_of_take)
  qed (use c assms(3) in \<open>simp add: comp_step_def\<close>)
  show ?thesis
  proof (cases "c = [DOT] \<or> c = [DOT, DOT]")
    case True thus ?thesis using up assms(3) by (auto simp: comp_step_def)
  next
    case False
    hence st: "comp_step cs c = cs @ [c]" by (simp add: comp_step_def)
    let ?o = "if length (path_of cs) > 1 then path_of cs @ [SLASH] else path_of cs"
    have o: "?o @ c = path_of (cs @ [c])" "(if length ?o > 1 \<and> last ?o = SLASH then length ?o - 1 else length ?o) = length (path_of cs)"
      using path_of_long [OF assms(1)] by (auto simp: path_of_snoc path_of_def)
    have "norm_loop VFS_PATH_MAX (c # w) (path_of cs) (starts cs) =
      (if length c > MWFS_NAME_MAX \<or> length (starts cs) \<ge> VFS_MAX_DEPTH \<or> length (path_of cs) + length c + 2 > VFS_PATH_MAX then Inl MWFS_E_NAME
       else norm_loop VFS_PATH_MAX w (?o @ c) ((if length ?o > 1 \<and> last ?o = SLASH then length ?o - 1 else length ?o) # starts cs))"
      using False by (simp only: norm_loop.simps Let_def) simp
    thus ?thesis unfolding o st by (simp add: fits_snoc [OF assms(3,1)] not_le not_less)
  qed
qed

lemma norm_loop_walk:
  assumes "normal cs" "\<forall>c \<in> set w. plain c" "fits cs"
  shows "norm_loop VFS_PATH_MAX w (path_of cs) (starts cs) =
    (if \<forall>k \<le> length w. fits (foldl comp_step cs (take k w)) then Inr (path_of (foldl comp_step cs w)) else Inl MWFS_E_NAME)"
  using assms
proof (induction w arbitrary: cs)
  case Nil thus ?case using last_path_of [of cs] path_of_long [of cs] by auto
next
  case (Cons c w)
  have all: "(\<forall>k \<le> length (c # w). fits (foldl comp_step cs (take k (c # w)))) \<longleftrightarrow>
      (\<forall>k \<le> length w. fits (foldl comp_step (comp_step cs c) (take k w)))"
    using Cons.prems(3) by (auto simp: less_Suc_eq_le [symmetric] all_conj_distrib) (metis Suc_le_mono less_Suc_eq_le foldl_Cons take_Suc_Cons not0_implies_Suc foldl_Nil take_0)+
  have n: "normal (comp_step cs c)" using normal_step Cons.prems by simp
  show ?case
  proof (cases "fits (comp_step cs c)")
    case True thus ?thesis using norm_loop_one [OF Cons.prems(1) _ Cons.prems(3), of c w] Cons.IH [OF n _ True] Cons.prems(2) all by simp
  next
    case False
    have "\<not> (\<forall>k \<le> length w. fits (foldl comp_step (comp_step cs c) (take k w)))"
    proof
      assume "\<forall>k \<le> length w. fits (foldl comp_step (comp_step cs c) (take k w))"
      from this [rule_format, of 0] show False using False by simp
    qed
    thus ?thesis using norm_loop_one [OF Cons.prems(1) _ Cons.prems(3), of c w] Cons.prems(2) False all by simp
  qed
qed

lemma norm_walk:
  "vfs_norm f inp VFS_PATH_MAX =
     (let w = path_comps (norm_tmp (vf_cwd f) inp) in
      if \<forall>k \<le> length w. fits (walk_comps (take k w)) then Inr (path_of (walk_comps w)) else Inl MWFS_E_NAME)"
proof -
  have "fits []" by (simp add: fits_def path_of_def VFS_PATH_MAX_def)
  moreover have "normal []" by (simp add: normal_def)
  ultimately have "norm_loop VFS_PATH_MAX w (path_of []) (starts []) =
      (if \<forall>k \<le> length w. fits (walk_comps (take k w)) then Inr (path_of (walk_comps w)) else Inl MWFS_E_NAME)"
    if "\<forall>c \<in> set w. plain c" for w unfolding walk_comps_def by (intro norm_loop_walk that)
  thus ?thesis using comps_plain_comps by (simp add: vfs_norm_def path_of_def Let_def)
qed

lemma norm_canonical: "vfs_norm f inp VFS_PATH_MAX = Inr p \<Longrightarrow> canonical p"
proof -
  assume r: "vfs_norm f inp VFS_PATH_MAX = Inr p"
  let ?w = "path_comps (norm_tmp (vf_cwd f) inp)"
  have p: "p = path_of (walk_comps ?w)" and a: "\<forall>k \<le> length ?w. fits (walk_comps (take k ?w))"
    using r by (auto simp: norm_walk Let_def split: if_splits)
  have "normal (walk_comps ?w)" unfolding walk_comps_def
    by (rule normal_foldl) (use comps_plain_comps in \<open>auto simp: normal_def\<close>)
  thus ?thesis using p a [rule_format, of "length ?w"] by (auto simp: canonical_def)
qed

lemma walk_normal: "normal cs \<Longrightarrow> walk_comps cs = cs"
proof (induction cs rule: rev_induct)
  case (snoc c cs) thus ?case by (simp add: walk_comps_def normal_def comp_step_def)
qed (simp add: walk_comps_def)

lemma fits_take: "fits cs \<Longrightarrow> fits (take k cs)"
proof (induction cs rule: rev_induct)
  case (snoc c cs)
  have "fits cs" using snoc.prems by (auto simp: fits_def path_of_snoc path_of_def VFS_PATH_MAX_def split: if_splits)
  thus ?case using snoc by (cases "k \<le> length cs") auto
qed simp

lemma norm_of_canonical: "canonical p \<Longrightarrow> vfs_norm f p VFS_PATH_MAX = Inr p"
proof -
  assume "canonical p"
  then obtain cs where cs: "p = path_of cs" "normal cs" "fits cs" by (auto simp: canonical_def)
  have "length p < 96" using cs by (simp add: fits_def VFS_PATH_MAX_def)
  hence "norm_tmp (vf_cwd f) p = p" using cs(1) by (simp add: norm_tmp_def VFS_PATH_MAX_def)
  hence w: "path_comps (norm_tmp (vf_cwd f) p) = cs" using cs comps_path_of by (simp add: normal_def)
  have "normal (take k cs)" for k using cs(2) by (auto simp: normal_def dest: in_set_takeD)
  thus ?thesis unfolding norm_walk w using cs fits_take walk_normal by simp
qed

text \<open>The part of a path that vfs_norm looks at: its buffer has room for 193 bytes, the current directory and a slash come
  first for a relative path. Whatever the current directory, these are at least the first 97 bytes.\<close>

definition norm_seen :: "bytes \<Rightarrow> bytes \<Rightarrow> bytes" where
  "norm_seen cwd inp =
     take (VFS_PATH_MAX * 2 + 1 - (if inp \<noteq> [] \<and> hd inp = SLASH then 0 else if cwd = [SLASH] then 1 else length cwd + 1)) inp"

lemma canonical_length: "canonical cwd \<Longrightarrow> length cwd < VFS_PATH_MAX" by (auto simp: canonical_def fits_def)

lemma norm_seen_all: "canonical cwd \<Longrightarrow> length inp \<le> VFS_PATH_MAX + 1 \<Longrightarrow> norm_seen cwd inp = inp"
  using canonical_length [of cwd] by (auto simp: norm_seen_def VFS_PATH_MAX_def)

lemma norm_tmp_seen:
  assumes "canonical cwd"
  shows "path_comps (norm_tmp cwd inp) = (if inp \<noteq> [] \<and> hd inp = SLASH then [] else path_comps cwd) @ path_comps (norm_seen cwd inp)"
proof -
  obtain cs where cs: "cwd = path_of cs" "normal cs" "fits cs" using assms(1) by (auto simp: canonical_def)
  have len: "length cwd < 96" using canonical_length [OF assms] by (simp add: VFS_PATH_MAX_def)
  show ?thesis
  proof (cases "inp \<noteq> [] \<and> hd inp = SLASH")
    case True thus ?thesis by (auto simp: norm_tmp_def norm_seen_def)
  next
    case False
    show ?thesis
    proof (cases "cs = []")
      case True
      hence c: "cwd = [SLASH]" using cs(1) by (simp add: path_of_def)
      have "norm_tmp cwd inp = SLASH # norm_seen cwd inp" using False c by (auto simp: norm_tmp_def norm_seen_def VFS_PATH_MAX_def Let_def)
      thus ?thesis using False c by simp
    next
      case ne: False
      have l: "cwd \<noteq> []" "last cwd \<noteq> SLASH" using cs last_path_of ne by simp_all
      hence "norm_tmp cwd inp = cwd @ SLASH # norm_seen cwd inp"
        using False len by (auto simp: norm_tmp_def norm_seen_def VFS_PATH_MAX_def Let_def)
      thus ?thesis using False by (auto simp: comps_append)
    qed
  qed
qed

subsection \<open>Properties\<close>

text \<open>Claim C11. For every path and every canonical current directory, vfs_norm computes the meaning of the bytes it looks at
  (all of a path of up to 97 bytes; of a longer one what fits into its buffer of 193 bytes behind the current directory): the
  components of the current directory, unless the path starts with a slash, followed by those of the path, where . is dropped
  and .. takes the component before it away. It fails with MWFS_E_NAME exactly when some prefix of that walk goes past a limit
  (a name of 31 bytes, 40 levels, 95 bytes in all); that bytes were cut off is not an error.\<close>

theorem vfs_norm_exact:
  assumes "canonical (vf_cwd f)"
  shows "vfs_norm f inp VFS_PATH_MAX =
    (let w = (if inp \<noteq> [] \<and> hd inp = SLASH then [] else path_comps (vf_cwd f)) @ path_comps (norm_seen (vf_cwd f) inp) in
     if \<forall>k \<le> length w. fits (walk_comps (take k w)) then Inr (path_of (walk_comps w)) else Inl MWFS_E_NAME)"
  unfolding norm_walk norm_tmp_seen [OF assms] by (rule refl)

lemma vfs_norm_exact_witness:
  "vfs_norm \<lparr>vf_vols = [], vf_root_err = MWFS_OK, vf_cwd = [SLASH, 97], vf_mnt = 0\<rparr> [98, SLASH, DOT, DOT, SLASH, SLASH, 99] VFS_PATH_MAX =
     Inr [SLASH, 97, SLASH, 99]"
proof -
  let ?f = "\<lparr>vf_vols = [], vf_root_err = MWFS_OK, vf_cwd = [SLASH, 97], vf_mnt = 0\<rparr>" let ?i = "[98, SLASH, DOT, DOT, SLASH, SLASH, 99]"
  have "[SLASH, 97] = path_of [[97]]" "normal [[97]]" "fits [[97]]"
    by (simp_all add: path_of_def normal_def plain_def fits_def SLASH_def DOT_def MWFS_NAME_MAX_def VFS_MAX_DEPTH_def VFS_PATH_MAX_def)
  hence c: "canonical (vf_cwd ?f)" unfolding canonical_def by (simp, blast)
  have p: "path_comps [SLASH, 97] = [[97]]" "path_comps ?i = [[98], [DOT, DOT], [99]]"
    by (simp_all add: path_comps.simps SLASH_def DOT_def)
  have seen: "norm_seen (vf_cwd ?f) ?i = ?i" by (rule norm_seen_all [OF c]) (simp add: VFS_PATH_MAX_def)
  have h: "(if ?i \<noteq> [] \<and> hd ?i = SLASH then [] else path_comps (vf_cwd ?f)) @ path_comps (norm_seen (vf_cwd ?f) ?i) = [[97], [98], [DOT, DOT], [99]]"
    unfolding seen p(2) using p(1) by (simp add: SLASH_def)
  have "fits (walk_comps (take k [[97], [98], [DOT, DOT], [99]]))" if "k \<le> 4" for k
  proof -
    have "k \<in> {0, 1, 2, 3, 4}" using that by auto
    thus ?thesis by (auto simp: walk_comps_def comp_step_def fits_def path_of_def DOT_def MWFS_NAME_MAX_def VFS_MAX_DEPTH_def VFS_PATH_MAX_def)
  qed
  thus ?thesis using vfs_norm_exact [OF c, of ?i] unfolding h by (simp add: walk_comps_def comp_step_def path_of_def DOT_def)
qed

text \<open>What vfs_norm returns is canonical (no empty, . or .. component, within the limits), and a canonical path
  names itself from any current directory.\<close>

theorem vfs_norm_settles:
  assumes "vfs_norm f inp VFS_PATH_MAX = Inr p"
  shows "canonical p \<and> vfs_norm g p VFS_PATH_MAX = Inr p"
  using norm_canonical [OF assms] norm_of_canonical by blast

lemma vfs_norm_settles_witness:
  "canonical [SLASH, 99] \<and> vfs_norm \<lparr>vf_vols = [], vf_root_err = MWFS_OK, vf_cwd = [SLASH, 97], vf_mnt = 0\<rparr> [SLASH, 99] VFS_PATH_MAX = Inr [SLASH, 99]"
proof -
  have "vfs_norm \<lparr>vf_vols = [], vf_root_err = MWFS_OK, vf_cwd = [], vf_mnt = 0\<rparr> [SLASH, 98, SLASH, DOT, DOT, SLASH, SLASH, 99] VFS_PATH_MAX = Inr [SLASH, 99]"
    by (simp add: vfs_norm_def norm_tmp_def path_comps.simps SLASH_def DOT_def VFS_PATH_MAX_def MWFS_NAME_MAX_def VFS_MAX_DEPTH_def)
  thus ?thesis by (rule vfs_norm_settles)
qed

text \<open>Only the first 193 bytes of an absolute path count: what follows is dropped without an error, although the canonical
  form of the whole may be short.\<close>

lemma vfs_norm_truncates: "hd inp = SLASH \<Longrightarrow> inp \<noteq> [] \<Longrightarrow> vfs_norm f inp m = vfs_norm f (take (2 * VFS_PATH_MAX + 1) inp) m"
  by (cases inp) (simp_all add: vfs_norm_def norm_tmp_def VFS_PATH_MAX_def)

end
