(* ===== verification/Vfs_Run.thy ===== *)
theory Vfs_Run
  imports Vfs_Path
begin

text \<open>
  What a path leads to on the root volume, and what the operations of vfs.h do to it. The properties are stated through
  vfs_read itself, with a device that answers again. They are about a namespace with nothing mounted under /mnt.
\<close>

subsection \<open>Names and paths\<close>

lemma lookup_calm:
  assumes f: "fs_ok v (vsec v s) R" and d: "mw_dir v s d" and c: "calm s"
  shows "mwfs_dir_lookup v d name s =
    (case find (de_is name) (dirents v (vsec v s) d) of None \<Rightarrow> Inl MWFS_E_NOENT | Some e \<Rightarrow> Inr (de_ino e, de_type e))"
proof -
  note F = fs_okD [OF f] and D = mw_dir_in [OF f d]
  note v = live_okD(1) [OF F(1)]
  show ?thesis using calm_lookup_name [OF c v _ _, of d "inode v (vsec v s) d"] D live_okD(3,5,6) [OF F(1)] F(2) by simp
qed

lemma working_idem [simp]: "working (working s) = working s" by (simp add: working_def)

lemma saved_working [simp]: "saved v (working s) = saved v s" by (intro ext) (simp only: saved_def working_idem)

lemma mw_dir_working: "mw_dir v s d \<Longrightarrow> mw_dir v (working s) d"
  by (induction rule: mw_dir.induct) (auto intro: mw_dir.intros)

text \<open>What a lookup on any device says is what a reader finds.\<close>

lemma lookup_Inr:
  assumes f: "fs_ok v (vsec v s) R" and d: "mw_dir v s d" and l: "mwfs_dir_lookup v d name s = Inr (n, ty)"
  shows "mwfs_dir_lookup v d name (working s) = Inr (n, ty)"
    "ty = MWFS_T_DIR \<and> saved v s d name = Some (Dir n) \<or> ty = MWFS_T_FILE \<and> (\<exists>b. saved v s d name = Some (File b))"
proof -
  have D: "d \<in> R" "types v (vsec v s) d = MWFS_T_DIR" using mw_dir_in [OF f d] by blast+
  note F = fs_okD [OF f]
  obtain lba e where q: "mwfs_dir_find v d name s = Inr (n, ty, lba, e)" using l by (auto simp: mwfs_dir_lookup_def split: sum.splits)
  obtain j where j: "hit (dirents v (vsec v s) d) name (8 * j + e)" "de_ino (dirents v (vsec v s) d ! (8 * j + e)) = n"
      "de_type (dirents v (vsec v s) d ! (8 * j + e)) = ty" using find_Inr [OF F(2) [OF D] q] by blast
  have f': "fs_ok v (vsec v (working s)) R" using f by simp
  from lookup_calm [OF f' mw_dir_working [OF d] working(1), of name] hit_find [OF j(1)] j
  show w: "mwfs_dir_lookup v d name (working s) = Inr (n, ty)" by simp
  note N = found_in [OF f d w]
  have ty: "ty = MWFS_T_FILE \<or> ty = MWFS_T_DIR" using live_okD(4) [OF F(1) N(1)] N(2) by simp
  have "ty = MWFS_T_FILE \<Longrightarrow> mwfs_file_get v n (512 * file_max) (working s) =
      (MWFS_OK, Some (i_size (inode v (vsec v s) n)), content (vsec v s) (inode v (vsec v s) n))"
    using file_get_calm [OF F(1) N(1) _ working(2,1)] N(2) by simp
  thus "ty = MWFS_T_DIR \<and> saved v s d name = Some (Dir n) \<or> ty = MWFS_T_FILE \<and> (\<exists>b. saved v s d name = Some (File b))"
    using ty w by (auto simp: saved_def mwfs_types)
qed

lemma lookup_NOENT:
  assumes f: "fs_ok v (vsec v s) R" and d: "mw_dir v s d" and l: "mwfs_dir_lookup v d name s = Inl MWFS_E_NOENT"
  shows "saved v s d name = None"
proof -
  have D: "d \<in> R" "types v (vsec v s) d = MWFS_T_DIR" using mw_dir_in [OF f d] by blast+
  have "mwfs_dir_find v d name s = Inl MWFS_E_NOENT" using l by (auto simp: mwfs_dir_lookup_def split: sum.splits)
  thus ?thesis using find_NOENT [OF fs_okD(2) [OF f D]] saved_look [OF f D(1)] by (simp add: look_def)
qed

text \<open>The node under a list of components, from the directory d.\<close>

fun node_at :: "vol \<Rightarrow> blk \<Rightarrow> nat \<Rightarrow> bytes list \<Rightarrow> node option" where
  "node_at v s d [] = Some (Dir d)"
| "node_at v s d (c # cs) =
     (case saved v s d c of
        None \<Rightarrow> None
      | Some (File b) \<Rightarrow> if cs = [] then Some (File b) else None
      | Some (Dir d') \<Rightarrow> node_at v s d' cs)"

lemma node_at_snoc:
  "node_at v s d (cs @ [c]) = (case node_at v s d cs of Some (Dir d') \<Rightarrow> saved v s d' c | _ \<Rightarrow> None)"
  by (induction cs arbitrary: d) (auto split: option.splits node.splits)

lemma node_at_dir: "mw_dir v s d \<Longrightarrow> node_at v s d cs = Some (Dir d') \<Longrightarrow> mw_dir v s d'"
  by (induction cs arbitrary: d) (auto split: option.splits node.splits if_splits intro: mw_dir.sub)

subsection \<open>Resolving\<close>

text \<open>A namespace with only its root volume, v.\<close>

definition lone :: "vfs \<Rightarrow> vol \<Rightarrow> bool" where
  "lone f v \<longleftrightarrow> vfs_is_root_ok f \<and> length (vf_vols f) = VFS_MAX_VOLS \<and> vf_vols f ! 0 = v \<and> (\<forall>i \<in> {1..<VFS_MAX_VOLS}. \<not> v_used (vf_vols f ! i))"

lemma lone_mnt [simp]: "lone (f\<lparr>vf_mnt := m\<rparr>) v = lone f v" by (simp add: lone_def vfs_is_root_ok_def)

lemma lone_find_mount: "lone f v \<Longrightarrow> vfs_find_mount f name = None"
  by (auto simp: lone_def vfs_find_mount_def find_None_iff)

definition node_says :: "vol \<Rightarrow> blk \<Rightarrow> vnode \<Rightarrow> bool" where
  "node_says v s n \<longleftrightarrow>
     (case saved v s (nd_pino n) (nd_leaf n) of
        None \<Rightarrow> \<not> nd_exists n
      | Some (Dir d) \<Rightarrow> nd_exists n \<and> nd_type n = MWFS_T_DIR \<and> nd_ino n = d
      | Some (File b) \<Rightarrow> nd_exists n \<and> nd_type n = MWFS_T_FILE \<and>
          mwfs_dir_lookup v (nd_pino n) (nd_leaf n) (working s) = Inr (nd_ino n, MWFS_T_FILE))"

text \<open>The same namespace but for vfs_mnt_ino, which a walk may set.\<close>

definition same_ns :: "vfs \<Rightarrow> vfs \<Rightarrow> bool" where "same_ns f g \<longleftrightarrow> g = f\<lparr>vf_mnt := vf_mnt g\<rparr>"

lemma same_ns_iff: "same_ns f g \<longleftrightarrow> vf_vols g = vf_vols f \<and> vf_root_err g = vf_root_err f \<and> vf_cwd g = vf_cwd f"
  by (cases f; cases g) (auto simp: same_ns_def)

lemma same_ns_refl [simp]: "same_ns f f" by (simp add: same_ns_iff)

lemma same_ns_trans: "same_ns f g \<Longrightarrow> same_ns g h \<Longrightarrow> same_ns f h" by (simp add: same_ns_iff)

lemma same_ns_set: "same_ns f g \<Longrightarrow> same_ns (set_vol i v f) (set_vol i v g)" by (simp add: same_ns_iff set_vol_def)

lemma same_ns_lone: "same_ns f g \<Longrightarrow> lone g v = lone f v" by (simp add: same_ns_iff lone_def vfs_is_root_ok_def)

lemma walk_step_shape:
  assumes "walk_step k tok n f = (a, n', f')"
  shows "(\<exists>b. n' = n\<lparr>nd_is_mnt_dir := b\<rparr>) \<or> n' = n" "same_ns f f'"
  using assms by (auto simp: walk_step_def Let_def same_ns_iff split: if_splits)

lemma walk_mnt: "vfs_walk cs k pm n f s = (x, f') \<Longrightarrow> same_ns f f'"
proof (induction cs arbitrary: k pm n f)
  case (Cons c cs)
  have st: "same_ns f f'" if "walk_step k' t n' f = (a, n1, f1)" "vfs_walk cs k1 a n1 f1 s = (x, f')" for k' t n' a n1 f1 k1
    by (rule same_ns_trans [OF walk_step_shape(2) [OF that(1)] Cons.IH [OF that(2)]])
  show ?case using Cons.prems
    by (auto simp: Let_def split: if_splits option.splits sum.splits prod.splits intro: st Cons.IH)
qed simp

lemma lookup_mnt: "vfs_lookup p f s = (x, f') \<Longrightarrow> same_ns f f'"
  by (auto simp: vfs_lookup_def vfs_resolve_def split: sum.splits if_splits dest: walk_mnt)

text \<open>A walk that ends is right, whatever the device did.\<close>

lemma walk_sound:
  assumes fs: "fs_ok v (vsec v s) R"
  shows "lone f v \<Longrightarrow> mw_dir v s d \<Longrightarrow> nd_vol n = 0 \<Longrightarrow> nd_ino n = d \<Longrightarrow> nd_type n = MWFS_T_DIR \<Longrightarrow> nd_exists n \<Longrightarrow>
    vfs_walk cs k pm n f s = (Inr n', f') \<Longrightarrow> cs \<noteq> [] \<Longrightarrow>
    same_ns f f' \<and> nd_vol n' = 0 \<and> nd_pvol n' = 0 \<and> nd_leaf n' = last cs \<and> \<not> nd_is_mountpoint n' \<and>
    node_at v s d (butlast cs) = Some (Dir (nd_pino n')) \<and> mw_dir v s (nd_pino n') \<and> node_says v s n'"
proof (induction cs arbitrary: d n k pm f)
  case (Cons c cs)
  let ?n = "n\<lparr>nd_pvol := nd_vol n, nd_pino := nd_ino n, nd_leaf := c, nd_is_mnt_dir := False, nd_is_mountpoint := False\<rparr>"
  have len: "length c \<le> MWFS_NAME_MAX" and ty: "nd_type n = MWFS_T_DIR" and v: "vf_vols f ! 0 = v"
    using Cons.prems by (auto simp: lone_def split: if_splits)
  have nm: "(if nd_vol ?n = 0 \<and> k = 1 \<and> pm then vfs_find_mount f c else None) = None"
    using lone_find_mount [OF Cons.prems(1)] by simp
  have here: "mw_dir v s (nd_ino n)" using Cons.prems(2,4) by simp
  show ?case
  proof (cases "mwfs_dir_lookup v (nd_ino n) c s")
    case (Inl r)
    hence r: "r = MWFS_E_NOENT" "cs = []" using Cons.prems(7) len ty nm v Cons.prems(3) by (auto simp: Let_def split: if_splits)
    obtain a n1 f1 where w: "walk_step k c (?n\<lparr>nd_ino := 0, nd_type := 0, nd_exists := False\<rparr>) f = (a, n1, f1)"
      by (metis prod_cases3)
    have e: "n' = n1" "f' = f1" using Cons.prems(3,7) len ty nm v r Inl w by (auto simp: Let_def split: if_splits)
    have "saved v s d c = None" using lookup_NOENT [OF fs here] Inl r Cons.prems(4) by simp
    thus ?thesis using walk_step_shape [OF w] e r(2) Cons.prems(2-4) by (auto simp: node_says_def)
  next
    case (Inr x)
    obtain n0 ty0 where x: "x = (n0, ty0)" by (cases x)
    obtain a n1 f1 where w: "walk_step k c (?n\<lparr>nd_ino := n0, nd_type := ty0, nd_exists := True\<rparr>) f = (a, n1, f1)"
      by (metis prod_cases3)
    have go: "vfs_walk cs (k + 1) a n1 f1 s = (Inr n', f')" using Cons.prems(3,7) len ty nm v Inr x w by (auto simp: Let_def)
    note L = lookup_Inr [OF fs here Inr [unfolded x]]
    note W = walk_step_shape [OF w]
    show ?thesis
    proof (cases "cs = []")
      case True
      hence e: "n' = n1" "f' = f1" using go by auto
      show ?thesis using W e L True Cons.prems(2-4) by (auto simp: node_says_def mwfs_types)
    next
      case False
      have "nd_type n1 = MWFS_T_DIR" using go False by (cases cs) (auto split: if_splits)
      hence t: "ty0 = MWFS_T_DIR" using W(1) by auto
      hence sv: "saved v s d c = Some (Dir n0)" using L(2) Cons.prems(4) by (auto simp: mwfs_types)
      have l1: "lone f1 v" using W(2) Cons.prems(1) same_ns_lone by blast
      have d1: "mw_dir v s n0" by (rule mw_dir.sub [OF Cons.prems(2) sv])
      have "same_ns f1 f' \<and> nd_vol n' = 0 \<and> nd_pvol n' = 0 \<and> nd_leaf n' = last cs \<and> \<not> nd_is_mountpoint n' \<and>
          node_at v s n0 (butlast cs) = Some (Dir (nd_pino n')) \<and> mw_dir v s (nd_pino n') \<and> node_says v s n'"
        by (rule Cons.IH [OF l1 d1 _ _ _ _ go False]) (use W(1) Cons.prems(3) t in auto)
      thus ?thesis using sv False same_ns_trans [OF W(2)] by simp
    qed
  qed
qed simp

text \<open>On a device that answers, a walk ends for every path whose directories exist.\<close>

lemma walk_ends:
  assumes fs: "fs_ok v (vsec v s) R" and c: "calm s"
  shows "lone f v \<Longrightarrow> mw_dir v s d \<Longrightarrow> nd_vol n = 0 \<Longrightarrow> nd_ino n = d \<Longrightarrow> nd_type n = MWFS_T_DIR \<Longrightarrow> \<forall>x \<in> set cs. length x \<le> MWFS_NAME_MAX \<Longrightarrow>
    node_at v s d (butlast cs) = Some (Dir d') \<Longrightarrow> \<exists>n' f'. vfs_walk cs k pm n f s = (Inr n', f')"
proof (induction cs arbitrary: d n k pm f)
  case (Cons c cs)
  let ?n = "n\<lparr>nd_pvol := nd_vol n, nd_pino := nd_ino n, nd_leaf := c, nd_is_mnt_dir := False, nd_is_mountpoint := False\<rparr>"
  have v: "vf_vols f ! 0 = v" using Cons.prems by (auto simp: lone_def)
  have nm: "(if nd_vol ?n = 0 \<and> k = 1 \<and> pm then vfs_find_mount f c else None) = None"
    using lone_find_mount [OF Cons.prems(1)] by simp
  have here: "mw_dir v s (nd_ino n)" using Cons.prems(2,4) by simp
  show ?case
  proof (cases "mwfs_dir_lookup v (nd_ino n) c s")
    case (Inl r)
    hence r: "r = MWFS_E_NOENT" using lookup_calm [OF fs here c] by (auto split: option.splits)
    have "saved v s d c = None" using lookup_NOENT [OF fs here] Inl r Cons.prems(4) by simp
    hence "cs = []" using Cons.prems(7) by (auto split: if_splits)
    thus ?thesis using Cons.prems(3,5,6) nm v r Inl by (auto simp: Let_def split: prod.splits)
  next
    case (Inr x)
    obtain n0 ty0 where x: "x = (n0, ty0)" by (cases x)
    obtain a n1 f1 where w: "walk_step k c (?n\<lparr>nd_ino := n0, nd_type := ty0, nd_exists := True\<rparr>) f = (a, n1, f1)"
      by (metis prod_cases3)
    have go: "vfs_walk (c # cs) k pm n f s = vfs_walk cs (k + 1) a n1 f1 s" using Cons.prems(3,5,6) nm v Inr x w by (auto simp: Let_def)
    note L = lookup_Inr [OF fs here Inr [unfolded x]] and W = walk_step_shape [OF w]
    show ?thesis
    proof (cases "cs = []")
      case True thus ?thesis using go by simp
    next
      case False
      have sv: "saved v s d c = Some (Dir n0)" "ty0 = MWFS_T_DIR" using L(2) Cons.prems(4,7) False by (auto simp: mwfs_types split: if_splits)
      have l1: "lone f1 v" using W(2) Cons.prems(1) same_ns_lone by blast
      have "\<exists>n' f'. vfs_walk cs (k + 1) a n1 f1 s = (Inr n', f')"
        by (rule Cons.IH [OF l1 mw_dir.sub [OF Cons.prems(2) sv(1)]]) (use W(1) Cons.prems(3,6,7) sv False in auto)
      thus ?thesis using go by simp
    qed
  qed
qed simp

text \<open>A directory is under one name only, so two paths that lead to it are the same up to case.\<close>

lemma dir_entry:
  assumes f: "fs_ok v (vsec v s) R" and d: "mw_dir v s d" and e: "saved v s d name = Some (Dir x)"
  obtains k where "link R (types v (vsec v s)) (dirents v (vsec v s)) d k x" "de_is name (dirents v (vsec v s) d ! k)"
proof -
  have D: "d \<in> R" "types v (vsec v s) d = MWFS_T_DIR" using mw_dir_in [OF f d] by blast+
  obtain y where y: "find (de_is name) (dirents v (vsec v s) d) = Some y" "de_ino y = x"
    using e saved_look [OF f D(1)] by (auto simp: look_def split: if_splits)
  from find_link [OF y(1) D] obtain k where
    "link R (types v (vsec v s)) (dirents v (vsec v s)) d k x" "dirents v (vsec v s) d ! k = y" using y(2) by blast
  thus thesis using that y(1) by (auto simp: find_Some_iff)
qed

lemma one_name:
  assumes f: "fs_ok v (vsec v s) R" and d: "mw_dir v s d" "saved v s d name = Some (Dir x)" and d': "mw_dir v s d'" "saved v s d' name' = Some (Dir x)"
  shows "d = d' \<and> mwfs_name_eq name name'" "x \<noteq> MWFS_ROOT_INO"
proof -
  note T = fs_okD(3) [OF f]
  obtain k where k: "link R (types v (vsec v s)) (dirents v (vsec v s)) d k x" "de_is name (dirents v (vsec v s) d ! k)"
    by (rule dir_entry [OF f d])
  obtain k' where k': "link R (types v (vsec v s)) (dirents v (vsec v s)) d' k' x" "de_is name' (dirents v (vsec v s) d' ! k')"
    by (rule dir_entry [OF f d'])
  show "x \<noteq> MWFS_ROOT_INO" using tree_okD(5) [OF T k(1)] by (simp add: MWFS_ROOT_INO_def)
  show "d = d' \<and> mwfs_name_eq name name'" using tree_okD(7) [OF T k(1) k'(1)] k(2) k'(2) by (auto simp: de_is_def name_eq_upper)
qed

lemma saved_case: "fs_ok v (vsec v s) R \<Longrightarrow> mw_dir v s d \<Longrightarrow> mwfs_name_eq a b \<Longrightarrow> saved v s d a = saved v s d b"
  using mw_dir_in saved_look de_is_eq [of a b] by (simp add: look_def)

abbreviation same_comps :: "bytes list \<Rightarrow> bytes list \<Rightarrow> bool" where "same_comps \<equiv> list_all2 mwfs_name_eq"

lemma node_at_case:
  assumes f: "fs_ok v (vsec v s) R"
  shows "same_comps a b \<Longrightarrow> mw_dir v s d \<Longrightarrow> node_at v s d a = node_at v s d b"
proof (induction a b arbitrary: d rule: list_all2_induct)
  case (Cons x xs y ys)
  have "(xs = []) = (ys = [])" using Cons(2) by (auto dest: list_all2_lengthD)
  thus ?case using saved_case [OF f Cons.prems Cons(1)] Cons.IH mw_dir.sub [OF Cons.prems] by (auto split: option.splits node.splits)
qed simp

lemma dir_path_unique:
  assumes f: "fs_ok v (vsec v s) R"
  shows "node_at v s MWFS_ROOT_INO a = Some (Dir d) \<Longrightarrow> node_at v s MWFS_ROOT_INO b = Some (Dir d) \<Longrightarrow> same_comps a b"
proof (induction a arbitrary: b d rule: rev_induct)
  case Nil
  show ?case
  proof (cases b rule: rev_cases)
    case (snoc b' y)
    obtain d1 where d1: "node_at v s MWFS_ROOT_INO b' = Some (Dir d1)" "saved v s d1 y = Some (Dir d)"
      using Nil(2) snoc by (auto simp: node_at_snoc split: option.splits node.splits)
    have m: "mw_dir v s d1" by (rule node_at_dir [OF mw_dir.root d1(1)])
    show ?thesis using one_name(2) [OF f m d1(2) m d1(2)] Nil(1) by simp
  qed simp
next
  case (snoc x a)
  obtain d1 where d1: "node_at v s MWFS_ROOT_INO a = Some (Dir d1)" "saved v s d1 x = Some (Dir d)"
    using snoc.prems(1) by (auto simp: node_at_snoc split: option.splits node.splits)
  have m1: "mw_dir v s d1" by (rule node_at_dir [OF mw_dir.root d1(1)])
  show ?case
  proof (cases b rule: rev_cases)
    case Nil
    thus ?thesis using one_name(2) [OF f m1 d1(2) m1 d1(2)] snoc.prems(2) by simp
  next
    case (snoc b' y)
    obtain d2 where d2: "node_at v s MWFS_ROOT_INO b' = Some (Dir d2)" "saved v s d2 y = Some (Dir d)"
      using snoc.prems(2) snoc by (auto simp: node_at_snoc split: option.splits node.splits)
    have m2: "mw_dir v s d2" by (rule node_at_dir [OF mw_dir.root d2(1)])
    note o = one_name(1) [OF f m1 d1(2) m2 d2(2)]
    show ?thesis using snoc.IH [OF d1(1), of b'] d2(1) o snoc by (simp add: list_all2_appendI)
  qed
qed

text \<open>Changing one name of the directory d changes exactly the paths that lead to it.\<close>

lemma node_at_change:
  assumes f: "fs_ok v (vsec v s) R" and at: "node_at v s MWFS_ROOT_INO cs = Some (Dir d)"
    and ch: "\<And>d' name'. mw_dir v s d' \<Longrightarrow> saved v s d leaf \<noteq> Some (Dir d') \<Longrightarrow>
      saved v' s' d' name' = (if d' = d \<and> mwfs_name_eq name' leaf then nd else saved v s d' name')"
    and old: "\<And>x c. saved v s d leaf = Some (Dir x) \<Longrightarrow> saved v s x c = None"
    and new: "\<And>x c. nd = Some (Dir x) \<Longrightarrow> saved v' s' x c = None"
  shows "node_at v' s' MWFS_ROOT_INO qs = (if same_comps qs (cs @ [leaf]) then nd else node_at v s MWFS_ROOT_INO qs)"
proof (induction qs rule: rev_induct)
  case Nil thus ?case by (simp add: list_all2_Cons2 list_all2_append2)
next
  case (snoc c qs)
  note IH = snoc
  have d: "mw_dir v s d" by (rule node_at_dir [OF mw_dir.root at])
  show ?case
  proof (cases "same_comps qs (cs @ [leaf])")
    case True
    have "length qs = length cs + 1" using list_all2_lengthD [OF True] by simp
    hence no: "\<not> same_comps (qs @ [c]) (cs @ [leaf])" using list_all2_lengthD [of mwfs_name_eq "qs @ [c]" "cs @ [leaf]"] by auto
    have "node_at v s MWFS_ROOT_INO qs = saved v s d leaf" using node_at_case [OF f True mw_dir.root] at by (simp add: node_at_snoc)
    thus ?thesis using IH True no old new by (auto simp: node_at_snoc split: option.splits node.splits)
  next
    case False
    have pre: "same_comps (qs @ [c]) (cs @ [leaf]) \<longleftrightarrow> same_comps qs cs \<and> mwfs_name_eq c leaf"
      using list_all2_rev [of mwfs_name_eq "qs @ [c]" "cs @ [leaf]"] by (auto simp: list_all2_rev)
    have to_d: "same_comps qs cs \<longleftrightarrow> node_at v s MWFS_ROOT_INO qs = Some (Dir d)"
      using node_at_case [OF f _ mw_dir.root] dir_path_unique [OF f _ at] at by metis
    show ?thesis
    proof (cases "\<exists>d1. node_at v s MWFS_ROOT_INO qs = Some (Dir d1)")
      case True
      then obtain d1 where d1: "node_at v s MWFS_ROOT_INO qs = Some (Dir d1)" by blast
      have m1: "mw_dir v s d1" by (rule node_at_dir [OF mw_dir.root d1])
      have "saved v s d leaf \<noteq> Some (Dir d1)"
      proof
        assume "saved v s d leaf = Some (Dir d1)"
        hence "node_at v s MWFS_ROOT_INO (cs @ [leaf]) = Some (Dir d1)" using at by (simp add: node_at_snoc)
        thus False using dir_path_unique [OF f d1] False by blast
      qed
      from ch [OF m1 this, of c] show ?thesis using IH False d1 pre to_d by (simp add: node_at_snoc)
    next
      case False
      hence "node_at v s MWFS_ROOT_INO (qs @ [c]) = None" by (auto simp: node_at_snoc split: option.splits node.splits)
      thus ?thesis using IH \<open>\<not> same_comps qs (cs @ [leaf])\<close> False pre to_d by (auto simp: node_at_snoc split: option.splits node.splits)
    qed
  qed
qed

subsection \<open>Files by path\<close>

text \<open>What vfs_read gives for a path once the device answers again.\<close>

definition vf_file :: "vfs \<Rightarrow> blk \<Rightarrow> bytes \<Rightarrow> bytes option" where
  "vf_file f s path =
     (case vfs_read path (512 * file_max) f (working s) of ((e, _, data, _), _) \<Rightarrow> if e = MWFS_OK then Some data else None)"

definition same_path :: "vfs \<Rightarrow> bytes \<Rightarrow> bytes \<Rightarrow> bool" where
  "same_path f p q \<longleftrightarrow> (case (vfs_norm f p VFS_PATH_MAX, vfs_norm f q VFS_PATH_MAX) of (Inr a, Inr b) \<Rightarrow> mwfs_name_eq b a | _ \<Rightarrow> False)"

lemma node_at_working [simp]: "node_at v (working s) d cs = node_at v s d cs"
  by (induction cs arbitrary: d) (auto split: option.splits node.splits)

lemma root_node: "nd_vol vfs_root_node = 0" "nd_ino vfs_root_node = MWFS_ROOT_INO" "nd_type vfs_root_node = MWFS_T_DIR" "nd_exists vfs_root_node"
  "nd_pvol vfs_root_node = 0"
  by (simp_all add: vfs_root_node_def)

lemma lookup_sound:
  assumes fs: "fs_ok v (vsec v s) R" and l: "lone f v" and r: "vfs_lookup p f s = (Inr n, f')"
  shows "same_ns f f'" "nd_vol n = 0" "nd_pvol n = 0"
    "\<exists>q. vfs_norm f p VFS_PATH_MAX = Inr q \<and>
      (path_comps q = [] \<and> n = vfs_root_node \<or>
       (\<exists>cs. path_comps q = cs @ [nd_leaf n] \<and> node_at v s MWFS_ROOT_INO cs = Some (Dir (nd_pino n)) \<and> mw_dir v s (nd_pino n) \<and> node_says v s n))"
proof -
  obtain q where q: "vfs_norm f p VFS_PATH_MAX = Inr q" "vfs_walk (path_comps q) 0 False vfs_root_node f s = (Inr n, f')"
    using r l by (auto simp: vfs_lookup_def vfs_resolve_def lone_def split: sum.splits)
  have g: "same_ns f f' \<and> nd_vol n = 0 \<and> nd_pvol n = 0 \<and>
      (path_comps q = [] \<and> n = vfs_root_node \<or>
       (\<exists>cs. path_comps q = cs @ [nd_leaf n] \<and> node_at v s MWFS_ROOT_INO cs = Some (Dir (nd_pino n)) \<and> mw_dir v s (nd_pino n) \<and> node_says v s n))"
  proof (cases "path_comps q = []")
    case True thus ?thesis using q(2) root_node by auto
  next
    case False
    note W = walk_sound [OF fs l mw_dir.root root_node(1-4) q(2) False]
    have "path_comps q = butlast (path_comps q) @ [nd_leaf n]" using W False by simp
    thus ?thesis using W by blast
  qed
  show "same_ns f f'" "nd_vol n = 0" "nd_pvol n = 0" using g by blast+
  show "\<exists>q. vfs_norm f p VFS_PATH_MAX = Inr q \<and>
      (path_comps q = [] \<and> n = vfs_root_node \<or>
       (\<exists>cs. path_comps q = cs @ [nd_leaf n] \<and> node_at v s MWFS_ROOT_INO cs = Some (Dir (nd_pino n)) \<and> mw_dir v s (nd_pino n) \<and> node_says v s n))"
    using g q(1) by blast
qed

lemma norm_comps_short: "vfs_norm f p VFS_PATH_MAX = Inr q \<Longrightarrow> \<forall>c \<in> set (path_comps q). length c \<le> MWFS_NAME_MAX"
proof -
  assume "vfs_norm f p VFS_PATH_MAX = Inr q"
  hence "canonical q" by (rule norm_canonical)
  then obtain cs where "q = path_of cs" "normal cs" "fits cs" unfolding canonical_def by blast
  thus ?thesis using comps_path_of [of cs] by (simp add: normal_def fits_def)
qed

lemma walk_Inl: "vfs_walk cs k pm n f s = (Inl e, f') \<Longrightarrow> e \<noteq> MWFS_OK"
proof (induction cs arbitrary: k pm n f)
  case (Cons c cs)
  have "mwfs_dir_lookup v d c s = Inl MWFS_OK \<Longrightarrow> False" for v d using find_Inl [of v d c s] by (auto simp: mwfs_dir_lookup_def split: sum.splits)
  thus ?case using Cons.prems Cons.IH by (auto simp: Let_def split: if_splits option.splits sum.splits prod.splits)
qed simp

lemma lookup_Inl: "vfs_lookup p f s = (Inl e, f') \<Longrightarrow> e \<noteq> MWFS_OK"
  by (auto simp: vfs_lookup_def vfs_resolve_def norm_walk Let_def split: sum.splits if_splits dest: walk_Inl)

lemma vf_file_at:
  assumes fs: "fs_ok v (vsec v s) R" and l: "lone f v"
  shows "vf_file f s p = (case vfs_norm f p VFS_PATH_MAX of
     Inl _ \<Rightarrow> None
   | Inr q \<Rightarrow> (case node_at v s MWFS_ROOT_INO (path_comps q) of Some (File b) \<Rightarrow> Some b | _ \<Rightarrow> None))"
proof (cases "vfs_norm f p VFS_PATH_MAX")
  case (Inl e) 
  have "e \<noteq> MWFS_OK" using Inl by (auto simp: norm_walk Let_def split: if_splits)
  thus ?thesis using Inl by (simp add: vf_file_def vfs_read_def vfs_stat_def vfs_lookup_def)
next
  case (Inr q)
  let ?w = "working s"
  have fs': "fs_ok v (vsec v ?w) R" using fs by simp
  obtain r f' where r: "vfs_lookup p f ?w = (r, f')" by fastforce
  show ?thesis
  proof (cases r)
    case (Inr n)
    note L = lookup_sound [OF fs' l r [unfolded Inr]]
    have v: "vf_vols f' ! 0 = v" using L(1) l by (simp add: same_ns_iff lone_def)
    from L(4) consider "path_comps q = []" "n = vfs_root_node"
      | cs where "path_comps q = cs @ [nd_leaf n]" "node_at v s MWFS_ROOT_INO cs = Some (Dir (nd_pino n))" "node_says v ?w n"
      using \<open>vfs_norm f p VFS_PATH_MAX = Inr q\<close> by auto
    thus ?thesis
    proof cases
      case 1 thus ?thesis using r Inr \<open>vfs_norm f p VFS_PATH_MAX = Inr q\<close> root_node
        by (simp add: vf_file_def vfs_read_def vfs_stat_def mwfs_types)
    next
      case 2
      have at: "node_at v s MWFS_ROOT_INO (path_comps q) = saved v s (nd_pino n) (nd_leaf n)" using 2 by (simp add: node_at_snoc)
      show ?thesis
      proof (cases "saved v s (nd_pino n) (nd_leaf n)")
        case None
        thus ?thesis using at 2(3) r Inr \<open>vfs_norm f p VFS_PATH_MAX = Inr q\<close>
          by (simp add: vf_file_def vfs_read_def vfs_stat_def node_says_def)
      next
        case (Some x)
        show ?thesis
        proof (cases x)
          case (Dir d)
          thus ?thesis using at 2(3) r Inr Some \<open>vfs_norm f p VFS_PATH_MAX = Inr q\<close>
            by (simp add: vf_file_def vfs_read_def vfs_stat_def node_says_def mwfs_types)
        next
          case (File b)
          have n: "nd_exists n" "nd_type n = MWFS_T_FILE" "mwfs_dir_lookup v (nd_pino n) (nd_leaf n) ?w = Inr (nd_ino n, MWFS_T_FILE)"
            using 2(3) Some File by (auto simp: node_says_def)
          obtain ln where "mwfs_file_get v (nd_ino n) (512 * file_max) ?w = (MWFS_OK, ln, b)"
            using Some File n(3) by (auto simp: saved_def mwfs_types split: prod.splits if_splits)
          thus ?thesis using n at Some File r Inr L(2) v \<open>vfs_norm f p VFS_PATH_MAX = Inr q\<close>
            by (simp add: vf_file_def vfs_read_def vfs_stat_def)
        qed
      qed
    qed
  next
    case (Inl e)
    have "node_at v s MWFS_ROOT_INO (path_comps q) \<noteq> Some (File b)" for b
    proof
      assume b: "node_at v s MWFS_ROOT_INO (path_comps q) = Some (File b)"
      have ne: "path_comps q \<noteq> []" using b by auto
      then obtain d' where "node_at v ?w MWFS_ROOT_INO (butlast (path_comps q)) = Some (Dir d')"
        using b node_at_snoc [of v s MWFS_ROOT_INO "butlast (path_comps q)" "last (path_comps q)"] by (auto split: option.splits node.splits)
      then obtain n' f1 where "vfs_walk (path_comps q) 0 False vfs_root_node f ?w = (Inr n', f1)"
        using walk_ends [OF fs' working(1) l mw_dir.root root_node(1-3) norm_comps_short [OF Inr], of d' 0 False] by blast
      thus False using r Inl Inr l by (auto simp: vfs_lookup_def vfs_resolve_def lone_def)
    qed
    moreover have "vf_file f s p = None"
    proof -
      have "e \<noteq> MWFS_OK" using lookup_Inl r Inl by blast
      thus ?thesis using r Inl by (simp add: vf_file_def vfs_read_def vfs_stat_def)
    qed
    ultimately show ?thesis using Inr by (auto split: option.splits node.splits)
  qed
qed

text \<open>Two paths are the same up to case when their components are.\<close>

lemma upper_SLASH: "mwfs_upper x = SLASH \<longleftrightarrow> x = SLASH"
proof
  assume u: "mwfs_upper x = SLASH"
  show "x = SLASH"
  proof (cases "0x61 \<le> x \<and> x \<le> 0x7A")
    case True
    hence "x = SLASH + 32" using u by (auto simp: mwfs_upper_def algebra_simps)
    thus ?thesis using True by (simp add: SLASH_def)
  qed (use u in \<open>auto simp: mwfs_upper_def split: if_splits\<close>)
qed (simp add: mwfs_upper_def SLASH_def)

lemma upper_of_SLASH: "mwfs_upper SLASH = SLASH" by (simp add: upper_SLASH)

lemma plain_upper: "plain c \<Longrightarrow> plain (map mwfs_upper c)"
proof -
  assume c: "plain c"
  have "SLASH \<notin> mwfs_upper ` set c"
  proof
    assume "SLASH \<in> mwfs_upper ` set c"
    then obtain x where "x \<in> set c" "mwfs_upper x = SLASH" by force
    thus False using c upper_SLASH [of x] by (simp add: plain_def)
  qed
  thus ?thesis using c by (simp add: plain_def)
qed

lemma same_comps_upper: "same_comps a b \<longleftrightarrow> map (map mwfs_upper) a = map (map mwfs_upper) b"
  by (induction a arbitrary: b) (auto simp: list_all2_Cons1 name_eq_upper map_eq_Cons_conv Cons_eq_map_conv)

lemma upper_path_of: "map mwfs_upper (path_of cs) = path_of (map (map mwfs_upper) cs)"
  by (simp add: path_of_def map_concat comp_def upper_of_SLASH)

lemma same_path_comps:
  assumes "vfs_norm f p VFS_PATH_MAX = Inr a" "vfs_norm f q VFS_PATH_MAX = Inr b"
  shows "mwfs_name_eq b a \<longleftrightarrow> same_comps (path_comps b) (path_comps a)"
proof -
  have "canonical a" "canonical b" using assms norm_canonical by blast+
  then obtain cs ds where cs: "a = path_of cs" "normal cs" and ds: "b = path_of ds" "normal ds" unfolding canonical_def by blast
  have pl: "\<forall>c \<in> set (map (map mwfs_upper) xs). plain c" if "normal xs" for xs
    using that plain_upper by (simp add: normal_def)
  have "path_of (map (map mwfs_upper) ds) = path_of (map (map mwfs_upper) cs) \<longleftrightarrow> map (map mwfs_upper) ds = map (map mwfs_upper) cs"
    using comps_path_of [OF pl [OF cs(2)]] comps_path_of [OF pl [OF ds(2)]] by metis
  moreover have "path_comps a = cs" "path_comps b = ds" using cs ds comps_path_of by (simp_all add: normal_def)
  ultimately show ?thesis using cs(1) ds(1) by (simp add: name_eq_upper same_comps_upper upper_path_of)
qed

lemma node_at_same:
  "(\<And>d' c. mw_dir v s d' \<Longrightarrow> saved v' s' d' c = saved v s d' c) \<Longrightarrow> mw_dir v s d \<Longrightarrow> node_at v' s' d cs = node_at v s d cs"
proof (induction cs arbitrary: d)
  case (Cons c cs)
  have "saved v s d c = Some (Dir x) \<Longrightarrow> node_at v' s' x cs = node_at v s x cs" for x
    using Cons.IH [OF Cons.prems(1)] mw_dir.sub [OF Cons.prems(2)] by blast
  thus ?case using Cons.prems by (auto split: option.splits node.splits)
qed simp

text \<open>What an operation on a name does to the paths.\<close>

context name_op
begin

lemma paths:
  assumes f: "fs_ok v (vsec v s) R" and at: "node_at v s MWFS_ROOT_INO cs = Some (Dir d)" and p: "pre v s"
    and r: "op v s d name = (e, nd, v', s')"
    and old: "\<And>x c. e = MWFS_OK \<Longrightarrow> saved v s d name = Some (Dir x) \<Longrightarrow> saved v s x c = None"
    and new: "\<And>x c. e = MWFS_OK \<Longrightarrow> nd = Some (Dir x) \<Longrightarrow> saved v' s' x c = None"
  shows "node_at v' s' MWFS_ROOT_INO qs = (if e = MWFS_OK \<and> same_comps qs (cs @ [name]) then nd else node_at v s MWFS_ROOT_INO qs)"
proof -
  have d: "mw_dir v s d" by (rule node_at_dir [OF mw_dir.root at])
  note rd = reads [OF f d p r]
  show ?thesis
  proof (cases "e = MWFS_OK")
    case True
    have "node_at v' s' MWFS_ROOT_INO qs = (if same_comps qs (cs @ [name]) then nd else node_at v s MWFS_ROOT_INO qs)"
      by (rule node_at_change [OF f at]) (use rd old new True in auto)
    thus ?thesis using True by simp
  next
    case False
    have "node_at v' s' MWFS_ROOT_INO qs = node_at v s MWFS_ROOT_INO qs" by (rule node_at_same) (use rd False in \<open>auto intro: mw_dir.root\<close>)
    thus ?thesis using False by simp
  qed
qed

end

text \<open>The place vfs_mkdir and vfs_write work on.\<close>

lemma vols_mnt [simp]: "set_vol i v (f\<lparr>vf_mnt := m\<rparr>) = (set_vol i v f)\<lparr>vf_mnt := m\<rparr>" by (simp add: set_vol_def)

lemma lone_set [simp]: "lone f v \<Longrightarrow> lone (set_vol 0 v' f) v'"
  by (auto simp: lone_def set_vol_def vfs_is_root_ok_def VFS_MAX_VOLS_def)

lemma norm_cong: "vf_cwd f' = vf_cwd f \<Longrightarrow> vfs_norm f' p n = vfs_norm f p n" by (simp add: vfs_norm_def)

lemma cwd_set [simp]: "vf_cwd (set_vol i v f) = vf_cwd f" by (simp add: set_vol_def)

lemma lookup_place:
  assumes fs: "fs_ok v (vsec v s) R" and l: "lone f v" and r: "vfs_lookup p f s = (Inr n, f')" and nr: "\<not> (nd_exists n \<and> nd_type n = MWFS_T_DIR)"
  obtains q cs where "vfs_norm f p VFS_PATH_MAX = Inr q" "path_comps q = cs @ [nd_leaf n]" "node_at v s MWFS_ROOT_INO cs = Some (Dir (nd_pino n))"
    "mw_dir v s (nd_pino n)" "node_says v s n" "nd_pvol n = 0" "nd_vol n = 0" "same_ns f f'" "vf_vols f' = vf_vols f"
proof -
  note L = lookup_sound [OF fs l r]
  have "vf_vols f' = vf_vols f" using L(1) by (simp add: same_ns_iff)
  thus thesis using that L nr root_node by auto
qed

lemma write_cases:
  assumes fs: "fs_ok v (vsec v s) R" and l: "lone f v" and r: "vfs_write now p data aux f s = (e, f', s')"
  obtains "e \<noteq> MWFS_OK" "s' = s" "same_ns f f'"
  | q cs leaf d v' where "vfs_norm f p VFS_PATH_MAX = Inr q" "path_comps q = cs @ [leaf]" "node_at v s MWFS_ROOT_INO cs = Some (Dir d)"
      "mwfs_file_put now v d leaf data aux s = (e, v', s')" "same_ns (set_vol 0 v' f) f'"
proof -
  obtain x f1 where x: "vfs_lookup p f s = (x, f1)" by fastforce
  show thesis
  proof (cases x)
    case (Inl g)
    have "same_ns f f1" by (rule lookup_mnt [OF x])
    thus thesis using that(1) lookup_Inl x Inl r by (auto simp: vfs_write_def)
  next
    case (Inr n)
    show thesis
    proof (cases "nd_exists n \<and> nd_type n = MWFS_T_DIR \<or> under_mnt n f1")
      case True
      thus thesis using that(1) lookup_sound(1) [OF fs l x [unfolded Inr]] x Inr r by (auto simp: vfs_write_def split: if_splits)
    next
      case False
      hence nr: "\<not> (nd_exists n \<and> nd_type n = MWFS_T_DIR)" by simp
      obtain q cs where q: "vfs_norm f p VFS_PATH_MAX = Inr q" "path_comps q = cs @ [nd_leaf n]" "node_at v s MWFS_ROOT_INO cs = Some (Dir (nd_pino n))"
        and w: "nd_pvol n = 0" "same_ns f f1" "vf_vols f1 = vf_vols f"
        by (rule lookup_place [OF fs l x [unfolded Inr] nr])
      obtain e1 v' s1 where p: "mwfs_file_put now v (nd_pino n) (nd_leaf n) data aux s = (e1, v', s1)" by (metis prod_cases3)
      have g: "vf_vols f1 ! 0 = v" using l w(3) by (simp add: lone_def)
      have "e = e1" "s' = s1" "f' = set_vol 0 v' f1" using r x Inr False w(1) p g by (auto simp: vfs_write_def)
      thus thesis using that(2) [OF q, of v'] p same_ns_set [OF w(2), of 0 v'] by simp
    qed
  qed
qed

lemma mkdir_cases:
  assumes fs: "fs_ok v (vsec v s) R" and l: "lone f v" and r: "vfs_mkdir now p f s = (e, f', s')"
  obtains "e \<noteq> MWFS_OK" "s' = s" "same_ns f f'"
  | q cs leaf d m v' where "vfs_norm f p VFS_PATH_MAX = Inr q" "path_comps q = cs @ [leaf]" "node_at v s MWFS_ROOT_INO cs = Some (Dir d)"
      "mwfs_mkdir now v d leaf s = (e, m, v', s')" "same_ns (set_vol 0 v' f) f'"
proof -
  obtain x f1 where x: "vfs_lookup p f s = (x, f1)" by fastforce
  show thesis
  proof (cases x)
    case (Inl g) thus thesis using that(1) lookup_mnt [OF x] lookup_Inl x r by (auto simp: vfs_mkdir_def)
  next
    case (Inr n)
    show thesis
    proof (cases "nd_exists n \<or> under_mnt n f1")
      case True thus thesis using that(1) lookup_mnt [OF x] x Inr r by (auto simp: vfs_mkdir_def split: if_splits)
    next
      case False
      hence nr: "\<not> (nd_exists n \<and> nd_type n = MWFS_T_DIR)" by simp
      obtain q cs where q: "vfs_norm f p VFS_PATH_MAX = Inr q" "path_comps q = cs @ [nd_leaf n]" "node_at v s MWFS_ROOT_INO cs = Some (Dir (nd_pino n))"
        and w: "nd_pvol n = 0" "same_ns f f1" "vf_vols f1 = vf_vols f"
        by (rule lookup_place [OF fs l x [unfolded Inr] nr])
      obtain e1 m v' s1 where p: "mwfs_mkdir now v (nd_pino n) (nd_leaf n) s = (e1, m, v', s1)" by (metis prod_cases4)
      have g: "vf_vols f1 ! 0 = v" using l w(3) by (simp add: lone_def)
      have "e = e1" "s' = s1" "f' = set_vol 0 v' f1" using r x Inr False w(1) p g by (auto simp: vfs_mkdir_def)
      thus thesis using that(2) [OF q, of m v'] p same_ns_set [OF w(2), of 0 v'] by simp
    qed
  qed
qed

text \<open>A name that exists and is not the root has a place too.\<close>

lemma stat_place:
  assumes fs: "fs_ok v (vsec v s) R" and l: "lone f v" and r: "vfs_stat p f s = (Inr n, f')" and nr: "nd_ino n \<noteq> MWFS_ROOT_INO"
  obtains q cs where "vfs_norm f p VFS_PATH_MAX = Inr q" "path_comps q = cs @ [nd_leaf n]" "node_at v s MWFS_ROOT_INO cs = Some (Dir (nd_pino n))"
    "mw_dir v s (nd_pino n)" "node_says v s n" "nd_exists n" "nd_pvol n = 0" "nd_vol n = 0" "same_ns f f'" "vf_vols f' = vf_vols f"
proof -
  have k: "vfs_lookup p f s = (Inr n, f')" "nd_exists n" using r by (auto simp: vfs_stat_def split: prod.splits sum.splits if_splits)
  note L = lookup_sound [OF fs l k(1)]
  have "vf_vols f' = vf_vols f" using L(1) by (simp add: same_ns_iff)
  thus thesis using that L nr root_node(2) k(2) by auto
qed

lemma stat_mnt: "vfs_stat p f s = (x, f') \<Longrightarrow> same_ns f f'"
  by (auto simp: vfs_stat_def split: prod.splits sum.splits dest: lookup_mnt)

lemma stat_Inl: "vfs_stat p f s = (Inl e, f') \<Longrightarrow> e \<noteq> MWFS_OK"
  by (auto simp: vfs_stat_def split: prod.splits sum.splits if_splits dest: lookup_Inl)

lemma rm_cases:
  assumes fs: "fs_ok v (vsec v s) R" and l: "lone f v" and r: "vfs_rm p f s = (e, f', s')"
  obtains "e \<noteq> MWFS_OK" "s' = s" "same_ns f f'"
  | q cs leaf d where "vfs_norm f p VFS_PATH_MAX = Inr q" "path_comps q = cs @ [leaf]" "node_at v s MWFS_ROOT_INO cs = Some (Dir d)"
      "mwfs_unlink v d leaf s = (e, s')" "same_ns f f'"
proof -
  obtain x f1 where x: "vfs_stat p f s = (x, f1)" by fastforce
  show thesis
  proof (cases x)
    case (Inl g) thus thesis using that(1) stat_mnt [OF x] stat_Inl x r by (auto simp: vfs_rm_def)
  next
    case (Inr n)
    show thesis
    proof (cases "nd_is_mnt_dir n \<or> nd_is_mountpoint n \<or> nd_ino n = MWFS_ROOT_INO")
      case True thus thesis using that(1) stat_mnt [OF x] x Inr r by (auto simp: vfs_rm_def split: if_splits)
    next
      case False
      hence nr: "nd_ino n \<noteq> MWFS_ROOT_INO" by simp
      obtain q cs where q: "vfs_norm f p VFS_PATH_MAX = Inr q" "path_comps q = cs @ [nd_leaf n]" "node_at v s MWFS_ROOT_INO cs = Some (Dir (nd_pino n))"
        and w: "nd_pvol n = 0" "same_ns f f1" "vf_vols f1 = vf_vols f"
        by (rule stat_place [OF fs l x [unfolded Inr] nr])
      obtain e1 s1 where p: "mwfs_unlink v (nd_pino n) (nd_leaf n) s = (e1, s1)" by fastforce
      have g: "vf_vols f1 ! 0 = v" using l w(3) by (simp add: lone_def)
      have "e = e1" "s' = s1" "f' = f1" using r x Inr False w(1) p g by (auto simp: vfs_rm_def)
      thus thesis using that(2) [OF q] p w(2) by simp
    qed
  qed
qed

text \<open>The directory mwfs_unlink removes had no names.\<close>

lemma unlink_empty:
  assumes f: "fs_ok v (vsec v s) R" and d: "mw_dir v s d" and r: "mwfs_unlink v d name s = (MWFS_OK, s')" and x: "saved v s d name = Some (Dir x)"
  shows "saved v s x c = None"
proof -
  obtain n ty where l: "mwfs_dir_lookup v d name s = Inr (n, ty)" "ty = MWFS_T_DIR \<longrightarrow> mwfs_dir_is_empty v n s"
    using r find_Inl [of v d name s] by (auto simp: mwfs_unlink_def mwfs_dir_lookup_def split: sum.splits if_splits)
  have n: "n = x" "ty = MWFS_T_DIR" using lookup_Inr(2) [OF f d l(1)] x by (auto simp: mwfs_types)
  have X: "x \<in> R" "types v (vsec v s) x = MWFS_T_DIR" using mw_dir_in [OF f mw_dir.sub [OF d x]] by blast+
  have "childless (types v (vsec v s)) (dirents v (vsec v s)) x"
    by (rule is_empty_childless) (use l(2) n fs_okD(2) [OF f X] in auto)
  hence "find (de_is c) (dirents v (vsec v s) x) = None" using X by (auto simp: childless_def find_None_iff de_is_def)
  thus ?thesis using saved_look [OF f X(1)] by (simp add: look_def)
qed

text \<open>vfs_cp either changes nothing or copies once, however deep it calls itself.\<close>

lemma cp_cases:
  assumes fs: "fs_ok v (vsec v s) R"
  shows "lone f v \<Longrightarrow> vfs_cp fuel now p q f s = Some (e, f', s') \<Longrightarrow>
    e \<noteq> MWFS_OK \<and> s' = s \<and> same_ns f f' \<or>
    (\<exists>n d d1 leaf nm v'. mw_dir v s d \<and> mw_dir v s d1 \<and> mwfs_dir_lookup v d1 nm (working s) = Inr (n, MWFS_T_FILE) \<and>
       mwfs_file_copy now v n v d leaf s = (e, v', s') \<and> same_ns (set_vol 0 v' f) f')"
proof (induction fuel arbitrary: q f)
  case (Suc fuel)
  obtain x f1 where x: "vfs_stat p f s = (x, f1)" by fastforce
  note m1 = stat_mnt [OF x]
  have l1: "lone f1 v" using same_ns_lone [OF m1] Suc.prems(1) by simp
  show ?case
  proof (cases x)
    case (Inl g) thus ?thesis using m1 stat_Inl x Suc.prems(2) by auto
  next
    case (Inr a)
    show ?thesis
    proof (cases "nd_type a = MWFS_T_FILE")
      case False thus ?thesis using m1 x Inr Suc.prems(2) by auto
    next
      case a: True
      obtain y f2 where y: "vfs_lookup q f1 s = (y, f2)" by fastforce
      note m2 = lookup_mnt [OF y]
      note m = same_ns_trans [OF m1 m2]
      have l2: "lone f2 v" using same_ns_lone [OF m2] l1 by simp
      show ?thesis
      proof (cases y)
        case (Inl g) thus ?thesis using m lookup_Inl y x Inr a Suc.prems(2) by auto
      next
        case b: (Inr b)
        show ?thesis
        proof (cases "nd_exists b \<and> nd_type b = MWFS_T_DIR")
          case True
          show ?thesis
          proof (cases "vfs_norm f2 q VFS_PATH_MAX")
            case (Inl g)
            have "g \<noteq> MWFS_OK" using Inl by (auto simp: norm_walk Let_def split: if_splits)
            thus ?thesis using m y x Inr a b True Inl Suc.prems(2) by auto
          next
            case n: (Inr dir)
            have c: "vfs_cp fuel now p (cp_full dir (nd_leaf a)) f2 s = Some (e, f', s')" using y x Inr a b True n Suc.prems(2) by simp
            show ?thesis using Suc.IH [OF l2 c] same_ns_trans [OF m] same_ns_trans [OF same_ns_set [OF m]] by metis
          qed
        next
          case nd: False
          show ?thesis
          proof (cases "under_mnt b f2 \<or> nd_exists b \<and> nd_vol b = nd_vol a \<and> nd_ino b = nd_ino a")
            case True
            hence "e \<noteq> MWFS_OK \<and> s' = s \<and> f' = f2" using y x Inr a b nd Suc.prems(2) by (auto split: if_splits)
            thus ?thesis using m by simp
          next
            case go: False
            have xa: "vfs_lookup p f s = (Inr a, f1)" "nd_exists a" using x Inr by (auto simp: vfs_stat_def split: prod.splits sum.splits if_splits)
            have na: "\<not> (nd_exists a \<and> nd_type a = MWFS_T_DIR)" using a by (simp add: mwfs_types)
            obtain A: "mw_dir v s (nd_pino a)" "node_says v s a" "nd_vol a = 0" by (rule lookup_place [OF fs Suc.prems(1) xa(1) na])
            obtain B: "mw_dir v s (nd_pino b)" "nd_pvol b = 0" by (rule lookup_place [OF fs l1 y [unfolded b] nd])
            have src: "mwfs_dir_lookup v (nd_pino a) (nd_leaf a) (working s) = Inr (nd_ino a, MWFS_T_FILE)"
              using A(2) xa(2) a by (auto simp: node_says_def mwfs_types split: option.splits node.splits)
            obtain e1 v' s1 where c: "mwfs_file_copy now v (nd_ino a) v (nd_pino b) (nd_leaf b) s = (e1, v', s1)" by (metis prod_cases3)
            have g: "vf_vols f2 ! 0 = v" using l2 by (simp add: lone_def)
            have "e = e1" "s' = s1" "f' = set_vol 0 v' f2" using y x Inr a b nd go Suc.prems(2) c g A(3) B(2) by auto
            thus ?thesis using A(1) B(1) src c same_ns_set [OF m, of 0 v'] by blast
          qed
        qed
      qed
    qed
  qed
qed simp

text \<open>vfs_mv either changes nothing or moves one name.\<close>

lemma mv_to_cases:
  assumes fs: "fs_ok v (vsec v s) R" and m: "same_ns f f2" "lone f2 v" and a: "mw_dir v s (nd_pino a)" "nd_pvol a = 0"
    and y: "vfs_lookup q f1 s = (Inr b, f2)" "lone f1 v" and r: "vfs_mv_to now a b f2 s = (e, f', s')"
  obtains "e \<noteq> MWFS_OK" "s' = s" "same_ns f f'"
  | d d1 nm leaf v' where "mw_dir v s d" "mw_dir v s d1" "mwfs_rename v d nm d1 leaf s = (e, v', s')" "same_ns (set_vol 0 v' f) f'"
proof -
  note L = lookup_sound [OF fs y(2,1)]
  have g: "vf_vols f2 ! 0 = v" using m(2) by (simp add: lone_def)
  show thesis
  proof (cases "under_mnt b f2")
    case True thus thesis using that(1) r m(1) by (auto simp: vfs_mv_to_def)
  next
    case False
    obtain e1 v1 s1 where p: "mwfs_rename v (nd_pino a) (nd_leaf a) (nd_pino b) (nd_leaf b) s = (e1, v1, s1)" by (metis prod_cases3)
    have res: "e = e1" "s' = s1" "f' = set_vol 0 v1 f2" using r False a(2) L(3) g p by (auto simp: vfs_mv_to_def)
    from L(4) consider "b = vfs_root_node" | "mw_dir v s (nd_pino b)" by blast
    thus thesis
    proof cases
      case 1
      have "\<not> mwfs_name_ok []" by (simp add: mwfs_name_ok_def)
      hence "e1 \<noteq> MWFS_OK \<and> v1 = v \<and> s1 = s" using p 1 find_Inl [of v "nd_pino a" "nd_leaf a" s]
        by (auto simp: mwfs_rename_def vfs_root_node_def mwfs_dir_lookup_def split: sum.splits)
      moreover have "set_vol 0 v f2 = f2" using g list_update_id [of "vf_vols f2" 0] by (simp add: set_vol_def)
      ultimately show thesis using that(1) res m(1) by simp
    next
      case 2 thus thesis using that(2) [OF a(1) 2] p res same_ns_set [OF m(1)] by simp
    qed
  qed
qed

lemma mv_cases:
  assumes fs: "fs_ok v (vsec v s) R" and l: "lone f v" and r: "vfs_mv now p q f s = (e, f', s')"
  obtains "e \<noteq> MWFS_OK" "s' = s" "same_ns f f'"
  | d d1 nm leaf v' where "mw_dir v s d" "mw_dir v s d1" "mwfs_rename v d nm d1 leaf s = (e, v', s')" "same_ns (set_vol 0 v' f) f'"
proof -
  obtain x f1 where x: "vfs_stat p f s = (x, f1)" by fastforce
  note m1 = stat_mnt [OF x]
  have l1: "lone f1 v" using same_ns_lone [OF m1] l by simp
  show thesis
  proof (cases x)
    case (Inl g) thus thesis using that(1) m1 stat_Inl x r by (auto simp: vfs_mv_def)
  next
    case (Inr a)
    show thesis
    proof (cases "nd_is_mnt_dir a \<or> nd_is_mountpoint a \<or> nd_ino a = MWFS_ROOT_INO")
      case True thus thesis using that(1) m1 x Inr r by (auto simp: vfs_mv_def split: if_splits)
    next
      case ok: False
      hence nr: "nd_ino a \<noteq> MWFS_ROOT_INO" by simp
      obtain A: "mw_dir v s (nd_pino a)" "nd_pvol a = 0" by (rule stat_place [OF fs l x [unfolded Inr] nr])
      obtain y f2 where y: "vfs_lookup q f1 s = (y, f2)" by fastforce
      note m2 = same_ns_trans [OF m1 lookup_mnt [OF y]]
      have l2: "lone f2 v" using same_ns_lone [OF m2] l by simp
      show thesis
      proof (cases y)
        case (Inl g) thus thesis using that(1) m2 lookup_Inl y x Inr ok r by (auto simp: vfs_mv_def)
      next
        case b: (Inr b)
        show thesis
        proof (cases "nd_exists b \<and> nd_type b = MWFS_T_DIR")
          case False
          hence "vfs_mv_to now a b f2 s = (e, f', s')" using r x Inr ok y b by (auto simp: vfs_mv_def)
          from mv_to_cases [OF fs m2 l2 A y [unfolded b] l1 this] that show thesis by blast
        next
          case dir: True
          show thesis
          proof (cases "vfs_norm f2 q VFS_PATH_MAX")
            case (Inl g)
            have "g \<noteq> MWFS_OK" using Inl by (auto simp: norm_walk Let_def split: if_splits)
            thus thesis using that(1) m2 r x Inr ok y b dir Inl by (auto simp: vfs_mv_def)
          next
            case n: (Inr w)
            obtain z f3 where z: "vfs_lookup (mv_full w (nd_leaf a)) f2 s = (z, f3)" by fastforce
            note m3 = same_ns_trans [OF m2 lookup_mnt [OF z]]
            have l3: "lone f3 v" using same_ns_lone [OF m3] l by simp
            show thesis
            proof (cases z)
              case (Inl g) thus thesis using that(1) m3 lookup_Inl z r x Inr ok y b dir n by (auto simp: vfs_mv_def)
            next
              case c: (Inr c)
              hence "vfs_mv_to now a c f3 s = (e, f', s')" using r x Inr ok y b dir n z by (simp add: vfs_mv_def)
              from mv_to_cases [OF fs m3 l3 A z [unfolded c] l2 this] that show thesis by blast
            qed
          qed
        qed
      qed
    qed
  qed
qed

subsection \<open>Histories\<close>

text \<open>No name leads elsewhere than before: of a vfs_mv that failed, this says that it failed before its new name led to the object.\<close>

definition names_kept :: "vol \<Rightarrow> blk \<Rightarrow> vol \<Rightarrow> blk \<Rightarrow> bool" where
  "names_kept v s v' s' \<longleftrightarrow> (\<forall>d name. mw_dir v s d \<longrightarrow> mwfs_dir_lookup v' d name (working s') = mwfs_dir_lookup v d name (working s))"

text \<open>
  The states of a namespace with only its root volume: formatted, mounted by vfs_mount_root, then files read, saved, copied, moved
  and removed, directories made and entered, in any order, with the devices failing or recovering at any moment. After a restart
  the cursors, the current directory and vfs_mnt_ino are new. Nothing is mounted under /mnt; a vfs_mv that failed between the two
  writes of mwfs_rename is outside, as is a disk whose failed write did change the sector (blk_write of theory Mwfs).
\<close>

inductive vfs_run :: "vfs \<Rightarrow> blk \<Rightarrow> bool" where
  boot: "mwfs_mkfs (vol_zero\<lparr>v_dev := d, v_base := b, v_sectors := n\<rparr>) label s0 = (MWFS_OK, v, s) \<Longrightarrow> b + n \<le> 2 ^ 32 \<Longrightarrow> n \<le> 2 ^ 32 - 4096 \<Longrightarrow>
    secs_ok (vol_zero\<lparr>v_dev := d, v_base := b, v_sectors := n\<rparr>) (vsec (vol_zero\<lparr>v_dev := d, v_base := b, v_sectors := n\<rparr>) s0) \<Longrightarrow>
    length (vf_vols f) = VFS_MAX_VOLS \<Longrightarrow> (\<forall>i \<in> {1..<VFS_MAX_VOLS}. \<not> v_used (vf_vols f ! i)) \<Longrightarrow>
    vfs_mount_root now d b n f (s\<lparr>blk_rd := rd, blk_wr := wr\<rparr>) = (MWFS_OK, f', s') \<Longrightarrow> vfs_run f' s'"
| read: "vfs_run f s \<Longrightarrow> vfs_read p m f s = (r, f') \<Longrightarrow> vfs_run f' s"
| chdir: "vfs_run f s \<Longrightarrow> vfs_chdir p f s = (e, f') \<Longrightarrow> vfs_run f' s"
| mkdir: "vfs_run f s \<Longrightarrow> vfs_mkdir now p f s = (e, f', s') \<Longrightarrow> vfs_run f' s'"
| save: "vfs_run f s \<Longrightarrow> vfs_write now p data aux f s = (e, f', s') \<Longrightarrow> vfs_run f' s'"
| rm: "vfs_run f s \<Longrightarrow> vfs_rm p f s = (e, f', s') \<Longrightarrow> vfs_run f' s'"
| cp: "vfs_run f s \<Longrightarrow> vfs_cp fuel now p q f s = Some (e, f', s') \<Longrightarrow> vfs_run f' s'"
| mv: "vfs_run f s \<Longrightarrow> vfs_mv now p q f s = (e, f', s') \<Longrightarrow> e = MWFS_OK \<or> names_kept (vf_vols f ! 0) s (vf_vols f' ! 0) s' \<Longrightarrow> vfs_run f' s'"
| power: "vfs_run f s \<Longrightarrow> vfs_run f (s\<lparr>blk_rd := rd, blk_wr := wr\<rparr>)"
| restart: "vfs_run f s \<Longrightarrow> vfs_run (set_vol 0 ((vf_vols f ! 0)\<lparr>v_cur_blk := a, v_cur_ino := b\<rparr>) (f\<lparr>vf_cwd := [SLASH], vf_mnt := m\<rparr>)) s"

definition vfs_inv :: "vfs \<Rightarrow> blk \<Rightarrow> bool" where
  "vfs_inv f s \<longleftrightarrow> (\<exists>v. lone f v \<and> mw_run v s) \<and> canonical (vf_cwd f)"

lemma canonical_root: "canonical [SLASH]"
proof -
  have "[SLASH] = path_of []" "normal []" "fits []" by (simp_all add: path_of_def normal_def fits_def VFS_PATH_MAX_def)
  thus ?thesis unfolding canonical_def by blast
qed

lemma make_dirs_run: "mw_run v s \<Longrightarrow> vfs_make_dirs now ds v s = (e, v', s') \<Longrightarrow> mw_run v' s'"
proof (induction ds arbitrary: v s)
  case (Cons d ds)
  obtain e1 n v1 s1 where m: "mwfs_mkdir now v MWFS_ROOT_INO d s = (e1, n, v1, s1)" by (metis prod_cases4)
  have "mw_run v1 s1" by (rule mw_run.mkdir [OF Cons.prems(1) mw_dir.root m])
  thus ?case using Cons m by (auto split: if_splits)
qed simp

text \<open>A volume that mounts on a failing device mounts the same on a working one.\<close>

lemma open_working: "mwfs_open v s = (MWFS_OK, w) \<Longrightarrow> mwfs_open v (working s) = (MWFS_OK, w)"
proof -
  assume o: "mwfs_open v s = (MWFS_OK, w)"
  obtain b where b: "blk_read (v_dev v) (v_base v) s = Some b" using o by (auto simp: mwfs_open_def split: option.splits)
  hence b': "blk_read (v_dev v) (v_base v) (working s) = Some b" by (auto simp: blk_read_def working_def split: if_splits)
  have g: "mwfs_ino_get u k s = Some r \<Longrightarrow> mwfs_ino_get u k (working s) = Some r" for u k r
    by (auto simp: mwfs_ino_get_def mwfs_rd_def blk_read_def working_def split: if_splits)
  show ?thesis using o unfolding mwfs_open_def b b' by (auto simp: Let_def g split: if_splits option.splits prod.splits)
qed

lemma open_wr: "mwfs_open v (s\<lparr>blk_wr := w\<rparr>) = mwfs_open v s"
proof -
  have r: "blk_read d l (s\<lparr>blk_wr := w\<rparr>) = blk_read d l s" for d l by (simp add: blk_read_def)
  have "mwfs_ino_get v n (s\<lparr>blk_wr := w\<rparr>) = mwfs_ino_get v n s" for v n by (simp only: mwfs_ino_get_def mwfs_rd_def r)
  thus ?thesis by (simp only: mwfs_open_def r)
qed

lemma boot_inv:
  assumes m: "mwfs_mkfs (vol_zero\<lparr>v_dev := d, v_base := b, v_sectors := n\<rparr>) label s0 = (MWFS_OK, v, s)" and bn: "b + n \<le> 2 ^ 32" "n \<le> 2 ^ 32 - 4096"
    and so: "secs_ok (vol_zero\<lparr>v_dev := d, v_base := b, v_sectors := n\<rparr>) (vsec (vol_zero\<lparr>v_dev := d, v_base := b, v_sectors := n\<rparr>) s0)"
    and f: "length (vf_vols f) = VFS_MAX_VOLS" "\<forall>i \<in> {1..<VFS_MAX_VOLS}. \<not> v_used (vf_vols f ! i)"
    and r: "vfs_mount_root now d b n f (s\<lparr>blk_rd := rd, blk_wr := wr\<rparr>) = (MWFS_OK, f', s')"
  shows "vfs_inv f' s'"
proof -
  let ?v0 = "vol_zero\<lparr>v_dev := d, v_base := b, v_sectors := n\<rparr>" let ?s = "s\<lparr>blk_rd := rd, blk_wr := wr\<rparr>"
  obtain e w where o: "mwfs_open ?v0 ?s = (e, w)" by fastforce
  have e: "e = MWFS_OK" using r o by (auto simp: vfs_mount_root_def split: if_splits)
  have "working ?s = (working s)\<lparr>blk_wr := wr\<rparr>" by (simp add: working_def)
  hence w: "w = v" using open_working [of ?v0 ?s w] open_wr [where v = ?v0 and s = "working s" and w = wr] o e open_mkfs [OF m _ _ so] bn by (simp add: vol_zero_def)
  have v: "mw_run v s" by (rule mw_run.mkfs [OF m _ _ so]) (use bn in \<open>simp_all add: vol_zero_def\<close>)
  let ?v1 = "v\<lparr>v_used := True, v_id := [0x72, 0x6F, 0x6F, 0x74]\<rparr>"
  have "mw_run (v\<lparr>v_used := True, v_cur_blk := v_cur_blk v, v_cur_ino := v_cur_ino v, v_id := [0x72, 0x6F, 0x6F, 0x74]\<rparr>) ?s"
    by (rule mw_run.mount [OF mw_run.power [OF v]])
  moreover have "v\<lparr>v_used := True, v_cur_blk := v_cur_blk v, v_cur_ino := v_cur_ino v, v_id := [0x72, 0x6F, 0x6F, 0x74]\<rparr> = ?v1" by simp
  ultimately have v1: "mw_run ?v1 ?s" by simp
  obtain e2 v2 s2 where l: "vfs_make_root_layout now ?v1 ?s = (e2, v2, s2)" by (metis prod_cases3)
  have v2: "mw_run v2 s2" using make_dirs_run [OF v1] l by (simp add: vfs_make_root_layout_def)
  have r2: "s' = s2" "same_ns (set_vol 0 v2 (f\<lparr>vf_root_err := MWFS_OK, vf_cwd := [SLASH]\<rparr>)) f'"
    using r o e w l by (auto simp: vfs_mount_root_def same_ns_iff set_vol_def Let_def split: sum.splits)
  have "lone f' v2" using f same_ns_lone [OF r2(2)] by (auto simp: lone_def set_vol_def vfs_is_root_ok_def VFS_MAX_VOLS_def)
  moreover have "vf_cwd f' = [SLASH]" using r2(2) by (simp add: same_ns_iff set_vol_def)
  ultimately show ?thesis using v2 r2(1) canonical_root unfolding vfs_inv_def by auto
qed

lemma read_mnt: "vfs_read p m f s = (r, f') \<Longrightarrow> same_ns f f'"
  by (auto simp: vfs_read_def split: prod.splits sum.splits if_splits dest: stat_mnt)

lemma chdir_inv: "vfs_chdir p f s = (e, f') \<Longrightarrow> lone f v \<Longrightarrow> canonical (vf_cwd f) \<Longrightarrow> lone f' v \<and> canonical (vf_cwd f')"
proof -
  assume c: "vfs_chdir p f s = (e, f')" "lone f v" "canonical (vf_cwd f)"
  have same: ?thesis if "same_ns f f'" using that c(2,3) same_ns_lone [OF that] by (simp add: same_ns_iff)
  show ?thesis
  proof (cases "vfs_norm f p VFS_PATH_MAX")
    case (Inl g) thus ?thesis using c by (simp add: vfs_chdir_def)
  next
    case (Inr q)
    obtain x f1 where x: "vfs_resolve q f s = (x, f1)" by fastforce
    have m: "same_ns f f1" using x by (auto simp: vfs_resolve_def split: if_splits dest: walk_mnt)
    have q: "canonical q" by (rule norm_canonical [OF Inr])
    hence "length q < VFS_PATH_MAX" by (auto simp: canonical_def fits_def)
    hence t: "take (VFS_PATH_MAX - 1) q = q" by simp
    have "f' = f1 \<or> f' = f1\<lparr>vf_cwd := q\<rparr>" using c(1) Inr x t by (auto simp: vfs_chdir_def split: sum.splits if_splits)
    thus ?thesis
    proof
      assume "f' = f1\<lparr>vf_cwd := q\<rparr>"
      thus ?thesis using q same_ns_lone [OF m, of v] c(2) by (simp add: lone_def vfs_is_root_ok_def)
    qed (use same m in simp)
  qed
qed

lemma inv_same: "vfs_inv f s \<Longrightarrow> same_ns f f' \<Longrightarrow> vfs_inv f' s"
  using same_ns_lone [of f f'] by (simp add: vfs_inv_def) (simp add: same_ns_iff)

lemma inv_set:
  assumes "vfs_inv f s" "same_ns (set_vol 0 v' f) f'" "mw_run v' s'"
  shows "vfs_inv f' s'"
proof -
  obtain v where "lone f v" using assms(1) by (auto simp: vfs_inv_def)
  hence "lone f' v'" using same_ns_lone [OF assms(2)] by simp
  thus ?thesis using assms by (auto simp: vfs_inv_def same_ns_iff)
qed

lemma vfs_run_inv: "vfs_run f s \<Longrightarrow> vfs_inv f s"
proof (induction rule: vfs_run.induct)
  case (boot d b n label s0 v s f now rd wr f' s') thus ?case by (intro boot_inv)
next
  case (read f s p m r f') thus ?case using inv_same read_mnt by blast
next
  case (chdir f s p e f') thus ?case using chdir_inv unfolding vfs_inv_def by blast
next
  case (mkdir f s now p e f' s')
  obtain v R where v: "lone f v" "mw_run v s" "fs_ok v (vsec v s) R" using mkdir.IH mw_run_fs unfolding vfs_inv_def by blast
  show ?case
    by (rule mkdir_cases [OF v(3,1) mkdir.hyps(2)])
      (use mkdir.IH inv_same inv_set mw_run.mkdir [OF v(2) node_at_dir [OF mw_dir.root]] in blast)+
next
  case (save f s now p data aux e f' s')
  obtain v R where v: "lone f v" "mw_run v s" "fs_ok v (vsec v s) R" using save.IH mw_run_fs unfolding vfs_inv_def by blast
  show ?case
    by (rule write_cases [OF v(3,1) save.hyps(2)])
      (use save.IH inv_same inv_set mw_run.put [OF v(2) node_at_dir [OF mw_dir.root]] in blast)+
next
  case (rm f s p e f' s')
  obtain v R where v: "lone f v" "mw_run v s" "fs_ok v (vsec v s) R" using rm.IH mw_run_fs unfolding vfs_inv_def by blast
  show ?case
  proof (rule rm_cases [OF v(3,1) rm.hyps(2)])
    fix q cs leaf d assume c: "node_at v s MWFS_ROOT_INO cs = Some (Dir d)" "mwfs_unlink v d leaf s = (e, s')" "same_ns f f'"
    have "mw_run v s'" by (rule mw_run.unlink [OF v(2) node_at_dir [OF mw_dir.root c(1)] c(2)])
    thus ?thesis using v(1) rm.IH c(3) same_ns_lone [OF c(3)] by (auto simp: vfs_inv_def same_ns_iff)
  qed (use rm.IH inv_same in blast)
next
  case (cp f s fuel now p q e f' s')
  obtain v R where v: "lone f v" "mw_run v s" "fs_ok v (vsec v s) R" using cp.IH mw_run_fs unfolding vfs_inv_def by blast
  show ?case using cp_cases [OF v(3,1) cp.hyps(2)] cp.IH inv_same inv_set mw_run.copy [OF v(2)] by blast
next
  case (mv f s now p q e f' s')
  obtain v R where v: "lone f v" "mw_run v s" "fs_ok v (vsec v s) R" using mv.IH mw_run_fs unfolding vfs_inv_def by blast
  show ?case
  proof (rule mv_cases [OF v(3,1) mv.hyps(2)])
    fix d d1 nm leaf v'
    assume c: "mw_dir v s d" "mw_dir v s d1" "mwfs_rename v d nm d1 leaf s = (e, v', s')" "same_ns (set_vol 0 v' f) f'"
    have "lone f' v'" using same_ns_lone [OF c(4)] v(1) by simp
    hence "vf_vols f ! 0 = v" "vf_vols f' ! 0 = v'" using v(1) by (simp_all add: lone_def)
    hence "mw_run v' s'" using mw_run.rename [OF v(2) c(1-3)] mv.hyps(3) c(2) unfolding names_kept_def by blast
    thus ?thesis using inv_set [OF mv.IH c(4)] by blast
  qed (use mv.IH inv_same in blast)
next
  case (power f s rd wr) thus ?case using mw_run.power unfolding vfs_inv_def by blast
next
  case (restart f s b a m)
  obtain v where v: "lone f v" "mw_run v s" using restart.IH unfolding vfs_inv_def by blast
  have "mw_run (v\<lparr>v_used := v_used v, v_cur_blk := a, v_cur_ino := b, v_id := v_id v\<rparr>) s" by (rule mw_run.mount [OF v(2)])
  hence "mw_run (v\<lparr>v_cur_blk := a, v_cur_ino := b\<rparr>) s" by simp
  moreover have "lone (set_vol 0 ((vf_vols f ! 0)\<lparr>v_cur_blk := a, v_cur_ino := b\<rparr>) (f\<lparr>vf_cwd := [SLASH], vf_mnt := m\<rparr>)) (v\<lparr>v_cur_blk := a, v_cur_ino := b\<rparr>)"
    using v(1) by (auto simp: lone_def set_vol_def vfs_is_root_ok_def VFS_MAX_VOLS_def)
  ultimately show ?case using canonical_root by (auto simp: vfs_inv_def set_vol_def)
qed

lemma vf_file_same:
  assumes "same_ns f f'" "lone f v" "fs_ok v (vsec v s) R"
  shows "vf_file f' s q = vf_file f s q"
proof -
  have l: "lone f' v" using same_ns_lone [OF assms(1)] assms(2) by simp
  have n: "vfs_norm f' q m = vfs_norm f q m" for m by (rule norm_cong) (use assms(1) in \<open>simp add: same_ns_iff\<close>)
  show ?thesis by (simp only: vf_file_at [OF assms(3,2)] vf_file_at [OF assms(3) l] n)
qed

subsection \<open>A namespace to show the properties on\<close>

text \<open>A device that refuses every write: an operation that needs a new inode does nothing.\<close>

lemma alloc_dead: "\<forall>n d l. \<not> blk_wr s n d l \<Longrightarrow> fst (mwfs_ino_alloc_from v ty ns s) = 0"
  by (induction ns) (auto simp: mwfs_ino_put_def mwfs_wr_def blk_write_def Let_def split: option.splits)

lemma mkdir_dead:
  assumes w: "\<forall>n d l. \<not> blk_wr s n d l" and v: "vol_ok v" and r: "mwfs_mkdir now v d name s = (e, n, v', s')"
  shows "v' = v \<and> vsec v s' = vsec v s \<and> dev s' = dev s"
proof -
  obtain m v1 s1 where a: "mwfs_ino_alloc v MWFS_T_DIR s = (m, v1, s1)" by (metis prod_cases3)
  have m: "m = 0" using alloc_dead [OF w, of v MWFS_T_DIR] a by (simp add: mwfs_ino_alloc_def) (metis fst_conv)
  have "v' = v \<and> s' = s \<or> v' = v1 \<and> s' = s1" using r a m by (auto simp: mwfs_mkdir_def Let_def split: sum.splits if_splits)
  thus ?thesis using ino_alloc_none [OF v a [unfolded m]] by (auto simp: dev_def)
qed

lemma make_dirs_dead:
  "\<forall>n d l. \<not> blk_wr s n d l \<Longrightarrow> vol_ok v \<Longrightarrow> vfs_make_dirs now ds v s = (e, v', s') \<Longrightarrow> v' = v \<and> vsec v s' = vsec v s \<and> dev s' = dev s"
proof (induction ds arbitrary: s)
  case (Cons d ds)
  obtain e1 n v1 s1 where m: "mwfs_mkdir now v MWFS_ROOT_INO d s = (e1, n, v1, s1)" by (metis prod_cases4)
  note D = mkdir_dead [OF Cons.prems(1,2) m]
  have w: "\<forall>n d l. \<not> blk_wr s1 n d l" using D Cons.prems(1) by (simp add: dev_def)
  show ?case
  proof (cases "e1 \<noteq> MWFS_OK \<and> e1 \<noteq> MWFS_E_EXIST")
    case True thus ?thesis using D m Cons.prems(3) by simp
  next
    case False
    hence "vfs_make_dirs now ds v s1 = (e, v', s')" using D m Cons.prems(3) by (auto split: if_splits)
    from Cons.IH [OF w Cons.prems(2) this] show ?thesis using D by simp
  qed
qed simp

text \<open>
  A volume of 64 sectors, formatted, mounted while every write fails, so that the directories vfs_mount_root makes are missing, and
  working from then on.
\<close>

lemma blank_space:
  "\<exists>f v s. vfs_run f s \<and> lone f v \<and> mw_run v s \<and> vf_cwd f = [SLASH] \<and> vf_mnt f = 0 \<and> blank v s \<and> v_data_lba v < 4096 \<and> calm s \<and>
     (\<forall>n d l. blk_wr s n d l)"
proof -
  let ?v = "vol_zero\<lparr>v_dev := 0, v_base := 0, v_sectors := 64\<rparr>"
  let ?s = "\<lparr>blk_sec = \<lambda>_ _. mwfs_zeros 512, blk_rd = \<lambda>_ _ _. True, blk_wr = \<lambda>_ _ _. True, blk_n = 0\<rparr>"
  let ?f = "\<lparr>vf_vols = replicate 6 vol_zero, vf_root_err = MWFS_E_NOFS, vf_cwd = [SLASH], vf_mnt = 0\<rparr>"
  have g: "mwfs_geometry ?v = (True, geo_set ?v)" by (simp add: geometry_form geo_set_def geo_inodes_def geo_bitmap_def Let_def vol_zero_def)
  have so: "secs_ok ?v (vsec ?v ?s)" by (simp add: secs_ok_def vsec_def)
  obtain v s where m: "mwfs_mkfs ?v [77, 87] ?s = (MWFS_OK, v, s)" using mkfs_works [OF g, of ?s "[77, 87]"] by (auto simp: calm_def)
  let ?d = "s\<lparr>blk_rd := \<lambda>_ _ _. True, blk_wr := \<lambda>_ _ _. False\<rparr>"
  have bl: "blank v s" by (rule mkfs_blank [OF m _ _ so]) simp_all
  have dl: "v_data_lba v < 4096" using mkfs_disk(3) [OF m _ _ so] g by (auto simp: geo_set_def geo_inodes_def geo_bitmap_def Let_def)
  have "mwfs_open ?v (working s) = (MWFS_OK, v)" by (rule open_mkfs [OF m _ _ so]) simp_all
  hence o: "mwfs_open ?v ?d = (MWFS_OK, v)" using open_wr [where v = ?v and s = "working s" and w = "\<lambda>_ _ _. False"] by (simp add: working_def)
  let ?v1 = "v\<lparr>v_used := True, v_id := [0x72, 0x6F, 0x6F, 0x74]\<rparr>"
  have sg: "same_geo v ?v1" by (simp add: same_geo_def)
  note C = geo_cong [OF sg]
  have vo: "vol_ok ?v1" using bl C(7) by (simp add: blank_def)
  obtain e2 v2 s2 where l: "vfs_make_root_layout 0 ?v1 ?d = (e2, v2, s2)" by (metis prod_cases3)
  have dead: "v2 = ?v1" "vsec ?v1 s2 = vsec ?v1 ?d" "dev s2 = dev ?d"
    using make_dirs_dead [OF _ vo l [unfolded vfs_make_root_layout_def]] by simp_all
  have vs: "vsec v x = vsec v s" if "blk_sec x = blk_sec s" for x using that by (simp add: vsec_def fun_eq_iff)
  have D: "vsec ?v1 s2 = vsec v s" using dead(2) C(6) vs [of ?d] by simp
  let ?s3 = "s2\<lparr>blk_rd := \<lambda>_ _ _. True, blk_wr := \<lambda>_ _ _. True\<rparr>"
  have "vsec ?v1 ?s3 = vsec ?v1 s2" by (simp add: vsec_def fun_eq_iff)
  hence D3: "vsec ?v1 ?s3 = vsec v s" using D by simp
  have bl3: "blank ?v1 ?s3" using bl C D3 view_cong [OF sg] by (simp add: blank_def)
  have c2: "calm s2" using dead(3) by (simp add: calm_def dev_def)
  have i32: "32 \<le> v_inodes ?v1" using vo by (simp add: vol_ok_def)
  have "mwfs_dir_find ?v1 MWFS_ROOT_INO vfs_mnt_name s2 = Inl MWFS_E_NOENT"
    using empty_dir_find(2) [OF c2 vo, of 1 vfs_mnt_name] i32 bl C D by (simp add: blank_def MWFS_ROOT_INO_def)
  then obtain f' where r: "vfs_mount_root 0 0 0 64 ?f ?d = (MWFS_OK, f', s2)" and f': "f' = set_vol 0 ?v1 (?f\<lparr>vf_root_err := MWFS_OK, vf_mnt := 0, vf_cwd := [SLASH]\<rparr>)"
    using o l dead(1) by (simp add: vfs_mount_root_def Let_def mwfs_dir_lookup_def)
  have u: "\<forall>i \<in> {1..<VFS_MAX_VOLS}. \<not> v_used (vf_vols ?f ! i)" by (auto simp: VFS_MAX_VOLS_def vol_zero_def nth_Cons split: nat.splits)
  have run: "vfs_run f' s2" by (rule vfs_run.boot [OF m _ _ so _ u r]) (simp_all add: VFS_MAX_VOLS_def)
  obtain w where w: "lone f' w" "mw_run w s2" using vfs_run_inv [OF run] unfolding vfs_inv_def by blast
  have "w = ?v1" using w(1) f' by (simp add: lone_def set_vol_def)
  thus ?thesis using vfs_run.power [OF run, of "\<lambda>_ _ _. True" "\<lambda>_ _ _. True"] mw_run.power [OF w(2), of "\<lambda>_ _ _. True" "\<lambda>_ _ _. True"] w(1) bl3 dl f'
    by (intro exI [of _ f'] exI [of _ ?v1] exI [of _ ?s3]) (simp add: calm_def set_vol_def)
qed

lemma blank_empty:
  assumes "blank v s"
  shows "saved v s MWFS_ROOT_INO name = None"
proof -
  have v: "vol_ok v" "inode v (vsec v s) 1 = ino_blank MWFS_T_DIR" using assms by (simp_all add: blank_def)
  hence "32 \<le> v_inodes v" by (simp add: vol_ok_def)
  thus ?thesis using empty_dir_find(2) [OF working(1) v(1), of 1 s name] v(2) by (simp add: saved_def mwfs_dir_lookup_def MWFS_ROOT_INO_def)
qed

text \<open>The path /A there, and the operations on it.\<close>

lemma norm_A: "vf_cwd f = [SLASH] \<Longrightarrow> vfs_norm f [SLASH, 65] VFS_PATH_MAX = Inr [SLASH, 65]"
proof -
  assume "vf_cwd f = [SLASH]"
  hence "vfs_norm f [SLASH, 65] VFS_PATH_MAX = vfs_norm \<lparr>vf_vols = [], vf_root_err = MWFS_OK, vf_cwd = [SLASH], vf_mnt = 0\<rparr> [SLASH, 65] VFS_PATH_MAX"
    by (intro norm_cong) simp
  also have "\<dots> = Inr [SLASH, 65]" by code_simp
  finally show ?thesis .
qed

lemma comps_A: "path_comps [SLASH, 65] = [[65]]" by code_simp

lemma mnt_A: "\<not> mwfs_name_eq [65] vfs_mnt_name" by code_simp

lemma lookup_A:
  assumes l: "lone f v" "vf_cwd f = [SLASH]"
  shows "vfs_lookup [SLASH, 65] f s = (case mwfs_dir_lookup v MWFS_ROOT_INO [65] s of
     Inl r \<Rightarrow> if r \<noteq> MWFS_E_NOENT then (Inl r, f)
       else (Inr (vfs_root_node\<lparr>nd_pino := MWFS_ROOT_INO, nd_leaf := [65], nd_ino := 0, nd_type := 0, nd_exists := False\<rparr>), f)
   | Inr (n, ty) \<Rightarrow> (Inr (vfs_root_node\<lparr>nd_pino := MWFS_ROOT_INO, nd_leaf := [65], nd_ino := n, nd_type := ty\<rparr>), f))"
proof -
  have ok: "vfs_is_root_ok f" "vf_vols f ! 0 = v" using l(1) by (simp_all add: lone_def)
  have "vfs_lookup [SLASH, 65] f s = vfs_walk [[65]] 0 False vfs_root_node f s"
    unfolding vfs_lookup_def norm_A [OF l(2)] sum.case vfs_resolve_def comps_A using ok(1) by simp
  thus ?thesis using ok(2) mnt_A by (auto simp: walk_step_def Let_def vfs_root_node_def MWFS_NAME_MAX_def split: sum.splits)
qed

text \<open>An edit of an entry that can be found ends well when writes do.\<close>

lemma find_from_rd: "dir_find_from v d is name s = Inr (n, ty, lba, e) \<Longrightarrow> \<exists>b. mwfs_rd v lba s = Some b"
  by (induction "is") (auto simp: dir_sector_def split: sum.splits option.splits if_splits)

lemma unlink_works:
  assumes l: "mwfs_dir_lookup v d name s = Inr (n, MWFS_T_FILE)" and w: "\<forall>n d l. blk_wr s n d l"
  shows "\<exists>s'. mwfs_unlink v d name s = (MWFS_OK, s')"
proof -
  obtain lba e where q: "mwfs_dir_find v d name s = Inr (n, MWFS_T_FILE, lba, e)" using l by (auto simp: mwfs_dir_lookup_def split: sum.splits)
  then obtain t where "dir_find_from v t (dir_range t) name s = Inr (n, MWFS_T_FILE, lba, e)" by (auto simp: mwfs_dir_find_def split: sum.splits)
  then obtain b where b: "mwfs_rd v lba s = Some b" using find_from_rd by blast
  hence "lba < v_sectors v" by (simp add: mwfs_rd_def split: if_splits)
  then obtain s' where "mwfs_wr v lba (blit b (e * MWFS_DENT_SIZE) (mwfs_zeros MWFS_DENT_SIZE)) s = (True, s')" using wr_works [OF w] by blast
  hence "\<exists>s'. mwfs_dir_remove v d name s = (MWFS_OK, s')" using q b by (simp add: mwfs_dir_remove_def dir_edit_def wr_result_def)
  thus ?thesis using l by (auto simp: mwfs_unlink_def mwfs_types)
qed

lemma blank_write:
  assumes f: "lone f v" "mw_run v s" "vf_cwd f = [SLASH]" "vf_mnt f = 0" and b: "blank v s" "v_data_lba v < 4096" and s: "calm s" "\<forall>n d l. blk_wr s n d l"
  shows "\<exists>v' s'. vfs_write 7 [SLASH, 65] [] 0 f s = (MWFS_OK, set_vol 0 v' f, s') \<and> mw_run v' s' \<and> lone (set_vol 0 v' f) v' \<and>
    mwfs_file_put 7 v MWFS_ROOT_INO [65] [] 0 s = (MWFS_OK, v', s') \<and> dev s' = dev s"
proof -
  have "mwfs_name_ok [65]" by (simp add: mwfs_name_ok_def mwfs_name_char_def MWFS_NAME_MAX_def)
  then obtain v' s' where p: "mwfs_file_put 7 v MWFS_ROOT_INO [65] [] 0 s = (MWFS_OK, v', s')" using blank_put [OF b(1) s(2,1) b(2)] by blast
  have vo: "vol_ok v" "inode v (vsec v s) 1 = ino_blank MWFS_T_DIR" using b(1) by (simp_all add: blank_def)
  have i: "32 \<le> v_inodes v" using vo by (simp add: vol_ok_def)
  have no: "mwfs_dir_lookup v MWFS_ROOT_INO [65] s = Inl MWFS_E_NOENT"
    using empty_dir_find(2) [OF s(1) vo(1), of 1 "[65]"] i vo(2) by (simp add: mwfs_dir_lookup_def MWFS_ROOT_INO_def)
  have v: "vf_vols f ! 0 = v" using f(1) by (simp add: lone_def)
  have w: "vfs_write 7 [SLASH, 65] [] 0 f s = (MWFS_OK, set_vol 0 v' f, s')"
    using lookup_A [OF f(1,3)] no p v f(4) by (simp add: vfs_write_def under_mnt_def vfs_root_node_def)
  obtain R where fs: "fs_ok v (vsec v s) R" using mw_run_fs [OF f(2)] by blast
  have "dev s' = dev s" using file_put_ok [OF fs _ _ p] mw_dir_in [OF fs mw_dir.root] by blast
  thus ?thesis using w mw_run.put [OF f(2) mw_dir.root p] lone_set [OF f(1)] p by blast
qed

text \<open>The file just written can be removed.\<close>

lemma blank_rm:
  assumes f: "lone f v" "mw_run v s" "vf_cwd f = [SLASH]" and s: "calm s" "\<forall>n d l. blk_wr s n d l" and sv: "vf_file f s [SLASH, 65] = Some b"
  shows "\<exists>s'. vfs_rm [SLASH, 65] f s = (MWFS_OK, f, s')"
proof -
  obtain R where fs: "fs_ok v (vsec v s) R" using mw_run_fs [OF f(2)] by blast
  have "node_at v s MWFS_ROOT_INO [[65]] = Some (File b)"
    using sv unfolding vf_file_at [OF fs f(1), of "[SLASH, 65]"] norm_A [OF f(3)] sum.case comps_A by (cases "node_at v s MWFS_ROOT_INO [[65]]") (auto split: node.splits)
  hence "saved v s MWFS_ROOT_INO [65] = Some (File b)" by (simp split: option.splits node.splits)
  then obtain n ty where l: "mwfs_dir_lookup v MWFS_ROOT_INO [65] (working s) = Inr (n, ty)" "ty \<noteq> MWFS_T_DIR"
    by (auto simp: saved_def split: sum.splits if_splits)
  have l': "mwfs_dir_lookup v MWFS_ROOT_INO [65] s = Inr (n, ty)"
    using l(1) lookup_calm [OF fs mw_dir.root s(1), of "[65]"] lookup_calm [where s = "working s" and v = v and R = R and d = MWFS_ROOT_INO and name = "[65]"]
      fs mw_dir.root by simp
  note N = found_in [OF fs mw_dir.root l(1)]
  have ty: "ty = MWFS_T_FILE" using live_okD(4) [OF fs_okD(1) [OF fs] N(1)] N(2) l(2) by simp
  have n1: "n \<noteq> MWFS_ROOT_INO" using N(2) l(2) tree_okD(3) [OF fs_okD(3) [OF fs]] by (auto simp: MWFS_ROOT_INO_def)
  obtain s' where u: "mwfs_unlink v MWFS_ROOT_INO [65] s = (MWFS_OK, s')" using unlink_works [OF l' [unfolded ty] s(2)] by blast
  have "vf_vols f ! 0 = v" using f(1) by (simp add: lone_def)
  thus ?thesis using lookup_A [where s = s, OF f(1,3)] l' u n1 by (simp add: vfs_rm_def vfs_stat_def vfs_root_node_def)
qed

subsection \<open>Properties\<close>

text \<open>Claim C2. With nothing mounted under /mnt, after any history vfs_run describes - files saved, copied, moved and removed,
  directories made and entered, restarts, failing devices; not a move interrupted between its two writes - and whatever reads and
  writes fail during the call, a failed write leaving its sector as it was, vfs_write is all or nothing for every path: when it returns MWFS_OK the paths that name the same place (up to case, dots, doubled slashes and the
  current directory) read as exactly the new bytes, and every other path of the namespace reads as before; otherwise
  every path reads as before.\<close>

theorem vfs_write_atomic:
  assumes "vfs_run f s" "vfs_write now p data aux f s = (e, f', s')"
  shows "vf_file f' s' q = (if e = MWFS_OK \<and> same_path f p q then Some data else vf_file f s q)"
proof -
  obtain v R where v: "lone f v" "fs_ok v (vsec v s) R" using vfs_run_inv [OF assms(1)] mw_run_fs unfolding vfs_inv_def by blast
  obtain v' R' where v': "lone f' v'" "fs_ok v' (vsec v' s') R'"
    using vfs_run_inv [OF vfs_run.save [OF assms]] mw_run_fs unfolding vfs_inv_def by blast
  note A = vf_file_at [OF v(2,1), of q] and B = vf_file_at [OF v'(2,1), of q]
  show ?thesis
  proof (rule write_cases [OF v(2,1) assms(2)])
    assume "e \<noteq> MWFS_OK" "s' = s" "same_ns f f'"
    thus ?thesis using vf_file_same [OF \<open>same_ns f f'\<close> v] by simp
  next
    fix a cs leaf d w
    assume a: "vfs_norm f p VFS_PATH_MAX = Inr a" "path_comps a = cs @ [leaf]" "node_at v s MWFS_ROOT_INO cs = Some (Dir d)"
      "mwfs_file_put now v d leaf data aux s = (e, w, s')" "same_ns (set_vol 0 w f) f'"
    have w: "v' = w" "vf_cwd f' = vf_cwd f" using a(5) v(1) v'(1) by (auto simp: same_ns_iff lone_def set_vol_def VFS_MAX_VOLS_def)
    have d: "mw_dir v s d" by (rule node_at_dir [OF mw_dir.root a(3)])
    have no: "e = MWFS_OK \<Longrightarrow> saved v s d leaf \<noteq> Some (Dir x)" for x using not_refused [OF v(2) d put_accepted] a(4) by blast
    have "node_at w s' MWFS_ROOT_INO qs = (if e = MWFS_OK \<and> same_comps qs (cs @ [leaf]) then Some (File data) else node_at v s MWFS_ROOT_INO qs)" for qs
      by (rule put_op.paths [where now = now and data = data and aux = aux, OF v(2) a(3) TrueI]) (use a(4) no in auto)
    thus ?thesis using A B w norm_cong [of f' f q] same_path_comps [OF a(1)] a(1,2) by (auto simp: same_path_def split: sum.splits)
  qed
qed

lemma vfs_write_atomic_witness:
  "\<exists>f s f' s'. vfs_run f s \<and> vfs_write 7 [SLASH, 65] [] 0 f s = (MWFS_OK, f', s') \<and> vf_file f s [SLASH, DOT, SLASH, 97] = None \<and>
     vf_file f' s' [SLASH, DOT, SLASH, 97] = Some []"
proof -
  obtain f v s where r: "vfs_run f s" "lone f v" "mw_run v s" "vf_cwd f = [SLASH]" "vf_mnt f = 0" "blank v s" "v_data_lba v < 4096" "calm s"
    "\<forall>n d l. blk_wr s n d l" using blank_space by blast
  obtain f' s' where w: "vfs_write 7 [SLASH, 65] [] 0 f s = (MWFS_OK, f', s')" using blank_write [OF r(2-9)] by blast
  have n: "vfs_norm f [SLASH, DOT, SLASH, 97] VFS_PATH_MAX = Inr [SLASH, 97]"
  proof -
    have "vfs_norm f [SLASH, DOT, SLASH, 97] VFS_PATH_MAX =
        vfs_norm \<lparr>vf_vols = [], vf_root_err = MWFS_OK, vf_cwd = [SLASH], vf_mnt = 0\<rparr> [SLASH, DOT, SLASH, 97] VFS_PATH_MAX"
      by (rule norm_cong) (simp add: r(4))
    also have "\<dots> = Inr [SLASH, 97]" by code_simp
    finally show ?thesis .
  qed
  have "same_path f [SLASH, 65] [SLASH, DOT, SLASH, 97]" using norm_A [OF r(4)] n by (simp add: same_path_def mwfs_upper_def SLASH_def)
  hence new: "vf_file f' s' [SLASH, DOT, SLASH, 97] = Some []" using vfs_write_atomic [OF r(1) w, of "[SLASH, DOT, SLASH, 97]"] by simp
  obtain R where fs: "fs_ok v (vsec v s) R" using mw_run_fs [OF r(3)] by blast
  have "path_comps [SLASH, 97] = [[97]]" by code_simp
  moreover have "saved v s MWFS_ROOT_INO [97] = None" using blank_empty [OF r(6)] .
  ultimately have "vf_file f s [SLASH, DOT, SLASH, 97] = None" using vf_file_at [OF fs r(2), of "[SLASH, DOT, SLASH, 97]"] n by simp
  thus ?thesis using r(1) w new by blast
qed

text \<open>Claim C10. After the same histories, with the same failures, vfs_rm is all or nothing in the same way: when it returns
  MWFS_OK the paths that name the same place read as nothing, and every other path of the namespace reads as before; otherwise
  every path reads as before.\<close>

theorem vfs_rm_atomic:
  assumes "vfs_run f s" "vfs_rm p f s = (e, f', s')"
  shows "vf_file f' s' q = (if e = MWFS_OK \<and> same_path f p q then None else vf_file f s q)"
proof -
  obtain v R where v: "lone f v" "fs_ok v (vsec v s) R" using vfs_run_inv [OF assms(1)] mw_run_fs unfolding vfs_inv_def by blast
  obtain v' R' where v': "lone f' v'" "fs_ok v' (vsec v' s') R'"
    using vfs_run_inv [OF vfs_run.rm [OF assms]] mw_run_fs unfolding vfs_inv_def by blast
  note A = vf_file_at [OF v(2,1), of q] and B = vf_file_at [OF v'(2,1), of q]
  show ?thesis
  proof (rule rm_cases [OF v(2,1) assms(2)])
    assume "e \<noteq> MWFS_OK" "s' = s" "same_ns f f'"
    thus ?thesis using vf_file_same [OF \<open>same_ns f f'\<close> v] by simp
  next
    fix a cs leaf d
    assume a: "vfs_norm f p VFS_PATH_MAX = Inr a" "path_comps a = cs @ [leaf]" "node_at v s MWFS_ROOT_INO cs = Some (Dir d)"
      "mwfs_unlink v d leaf s = (e, s')" "same_ns f f'"
    have w: "v' = v" "vf_cwd f' = vf_cwd f" using a(5) v(1) v'(1) by (auto simp: same_ns_iff lone_def)
    have d: "mw_dir v s d" by (rule node_at_dir [OF mw_dir.root a(3)])
    have "node_at v s' MWFS_ROOT_INO qs = (if e = MWFS_OK \<and> same_comps qs (cs @ [leaf]) then None else node_at v s MWFS_ROOT_INO qs)" for qs
      by (rule unlink_op.paths [OF v(2) a(3) TrueI]) (use a(4) unlink_empty [OF v(2) d] in auto)
    thus ?thesis using A B w norm_cong [of f' f q] same_path_comps [OF a(1)] a(1,2) by (auto simp: same_path_def split: sum.splits)
  qed
qed

lemma vfs_rm_atomic_witness:
  "\<exists>f s f' s'. vfs_run f s \<and> vf_file f s [SLASH, 65] = Some [] \<and> vfs_rm [SLASH, 65] f s = (MWFS_OK, f', s') \<and> vf_file f' s' [SLASH, 65] = None"
proof -
  obtain f v s where r: "vfs_run f s" "lone f v" "mw_run v s" "vf_cwd f = [SLASH]" "vf_mnt f = 0" "blank v s" "v_data_lba v < 4096" "calm s"
    "\<forall>n d l. blk_wr s n d l" using blank_space by blast
  obtain v1 s1 where w: "vfs_write 7 [SLASH, 65] [] 0 f s = (MWFS_OK, set_vol 0 v1 f, s1)" "mw_run v1 s1" "lone (set_vol 0 v1 f) v1"
    "mwfs_file_put 7 v MWFS_ROOT_INO [65] [] 0 s = (MWFS_OK, v1, s1)" "dev s1 = dev s" using blank_write [OF r(2-9)] by blast
  let ?f = "set_vol 0 v1 f"
  have c: "vf_cwd ?f = [SLASH]" using r(4) by simp
  obtain R where fs: "fs_ok v (vsec v s) R" using mw_run_fs [OF r(3)] by blast
  obtain R1 where fs1: "fs_ok v1 (vsec v1 s1) R1" using mw_run_fs [OF w(2)] by blast
  have "saved v1 s1 MWFS_ROOT_INO [65] = (if MWFS_OK = MWFS_OK \<and> MWFS_ROOT_INO = MWFS_ROOT_INO \<and> mwfs_name_eq [65] [65] then Some (File [])
      else saved v s MWFS_ROOT_INO [65])"
    by (rule put_op.reads [where now = 7 and data = "[]" and aux = 0, OF fs mw_dir.root TrueI _ mw_dir.root])
      (use w(4) not_refused [OF fs mw_dir.root put_accepted [OF w(4)]] in simp_all)
  hence sv: "vf_file ?f s1 [SLASH, 65] = Some []" using vf_file_at [OF fs1 w(3), of "[SLASH, 65]"] norm_A [OF c] comps_A by simp
  have good: "calm s1" "\<forall>n d l. blk_wr s1 n d l" using w(5) r(8,9) by (simp_all add: dev_def calm_def)
  obtain s' where rm: "vfs_rm [SLASH, 65] ?f s1 = (MWFS_OK, ?f, s')" using blank_rm [OF w(3,2) c good sv] by blast
  have run: "vfs_run ?f s1" by (rule vfs_run.save [OF r(1) w(1)])
  have "same_path ?f [SLASH, 65] [SLASH, 65]" using norm_A [OF c] by (simp add: same_path_def)
  thus ?thesis using vfs_rm_atomic [OF run rm, of "[SLASH, 65]"] run sv rm by auto
qed

end
