(* ===== verification/Vfs_Cp.thy ===== *)
theory Vfs_Cp
  imports Vfs_Run
begin

text \<open>
  vfs_cp into a directory: what the fixed path buffer does to the call vfs_cp makes to itself.
\<close>

subsection \<open>Copying into a directory\<close>

text \<open>A walk depends on the namespace only through its volumes.\<close>

lemma walk_step_cong:
  "same_ns f g \<Longrightarrow> walk_step k tok n f = (a, n', f') \<Longrightarrow> \<exists>g'. walk_step k tok n g = (a, n', g') \<and> same_ns f' g'"
proof -
  assume f: "same_ns f g" "walk_step k tok n f = (a, n', f')"
  obtain a2 n2 g' where g: "walk_step k tok n g = (a2, n2, g')" by (metis prod_cases3)
  have "a2 = a \<and> n2 = n'" using f(2) g by (auto simp: walk_step_def Let_def split: if_splits)
  moreover have "same_ns f' g'" using f(1) walk_step_shape(2) [OF f(2)] walk_step_shape(2) [OF g] by (simp add: same_ns_iff)
  ultimately show ?thesis using g by blast
qed

lemma walk_cong:
  "same_ns f g \<Longrightarrow> vfs_walk cs k pm n f s = (x, f') \<Longrightarrow> \<exists>g'. vfs_walk cs k pm n g s = (x, g') \<and> same_ns f' g'"
proof (induction cs arbitrary: k pm n f g)
  case (Cons c cs)
  let ?n = "n\<lparr>nd_pvol := nd_vol n, nd_pino := nd_ino n, nd_leaf := c, nd_is_mnt_dir := False, nd_is_mountpoint := False\<rparr>"
  have vm: "vfs_find_mount g = vfs_find_mount f" "vf_vols g = vf_vols f" using Cons.prems(1) by (simp_all add: same_ns_iff vfs_find_mount_def fun_eq_iff)
  have st: "\<exists>g'. (case walk_step k c m g of (mnt, n, f) \<Rightarrow> vfs_walk cs (k + 1) mnt n f s) = (x, g') \<and> same_ns f' g'"
    if "(case walk_step k c m f of (mnt, n, f) \<Rightarrow> vfs_walk cs (k + 1) mnt n f s) = (x, f')" for m
  proof -
    obtain a n1 f1 where w: "walk_step k c m f = (a, n1, f1)" by (metis prod_cases3)
    obtain g1 where g: "walk_step k c m g = (a, n1, g1)" "same_ns f1 g1" using walk_step_cong [OF Cons.prems(1) w] by blast
    show ?thesis using Cons.IH [OF g(2)] that w g(1) by simp
  qed
  have same: "\<exists>g'. (y, g) = (x, g') \<and> same_ns f' g'" if "(y, f) = (x, f')" for y using that Cons.prems(1) by simp
  show ?case
  proof (cases "length c > MWFS_NAME_MAX \<or> nd_type n \<noteq> MWFS_T_DIR")
    case True thus ?thesis using Cons.prems by (auto split: if_splits)
  next
    case False
    show ?thesis
    proof (cases "nd_vol n = 0 \<and> k = Suc 0 \<and> pm \<and> vfs_find_mount f c \<noteq> None")
      case True
      then obtain i where "vfs_find_mount f c = Some i" by auto
      thus ?thesis using Cons.IH [OF Cons.prems(1)] Cons.prems(2) False True vm by (simp add: Let_def)
    next
      case None: False
      have m: "(if nd_vol ?n = 0 \<and> k = 1 \<and> pm then vfs_find_mount h c else None) = None" if "vfs_find_mount h = vfs_find_mount f" for h
        using None that by auto
      have w: "vfs_walk (c # cs) k pm n h s =
          (case mwfs_dir_lookup (vf_vols f ! nd_vol ?n) (nd_ino ?n) c s of
             Inr (n0, ty0) \<Rightarrow> (case walk_step k c (?n\<lparr>nd_ino := n0, nd_type := ty0, nd_exists := True\<rparr>) h of (a, n, h) \<Rightarrow> vfs_walk cs (k + 1) a n h s)
           | Inl r \<Rightarrow> if r \<noteq> MWFS_E_NOENT \<or> cs \<noteq> [] then (Inl r, h)
               else (case walk_step k c (?n\<lparr>nd_ino := 0, nd_type := 0, nd_exists := False\<rparr>) h of (a, n, h) \<Rightarrow> vfs_walk cs (k + 1) a n h s))"
        if "vfs_find_mount h = vfs_find_mount f" "vf_vols h = vf_vols f" for h
        using False m [OF that(1)] that(2) unfolding vfs_walk.simps Let_def by (simp only: if_False option.case) (auto split: sum.splits)
      show ?thesis
      proof (cases "mwfs_dir_lookup (vf_vols f ! nd_vol ?n) (nd_ino ?n) c s")
        case (Inl r)
        show ?thesis
        proof (cases "r \<noteq> MWFS_E_NOENT \<or> cs \<noteq> []")
          case True thus ?thesis using same [of "Inl r"] Cons.prems(2) unfolding w [OF refl refl] w [OF vm] Inl by simp
        next
          case ends: False
          thus ?thesis using st [of "?n\<lparr>nd_ino := 0, nd_type := 0, nd_exists := False\<rparr>"] Cons.prems(2)
            unfolding w [OF refl refl] w [OF vm] Inl sum.case if_not_P [OF ends] by blast
        qed
      next
        case (Inr y)
        obtain n0 ty0 where y: "y = (n0, ty0)" by (cases y)
        show ?thesis using st [of "?n\<lparr>nd_ino := n0, nd_type := ty0, nd_exists := True\<rparr>"] Cons.prems(2)
          unfolding w [OF refl refl] w [OF vm] Inr y sum.case prod.case by blast
      qed
    qed
  qed
qed simp

lemma lookup_cong:
  assumes "same_ns f g" "vfs_lookup p f s = (x, f')"
  shows "\<exists>g'. vfs_lookup p g s = (x, g') \<and> same_ns f' g'"
proof -
  have n: "vfs_norm g p m = vfs_norm f p m" for m by (rule norm_cong) (use assms(1) in \<open>simp add: same_ns_iff\<close>)
  have o: "vfs_is_root_ok g = vfs_is_root_ok f" using assms(1) by (simp add: same_ns_iff vfs_is_root_ok_def)
  show ?thesis using walk_cong [OF assms(1)] assms by (auto simp: vfs_lookup_def vfs_resolve_def n o split: sum.splits)
qed

lemma stat_cong:
  assumes "same_ns f g" "vfs_stat p f s = (x, f')"
  shows "\<exists>g'. vfs_stat p g s = (x, g') \<and> same_ns f' g'"
proof -
  obtain y f1 where y: "vfs_lookup p f s = (y, f1)" by fastforce
  obtain g1 where g: "vfs_lookup p g s = (y, g1)" "same_ns f1 g1" using lookup_cong [OF assms(1) y] by blast
  show ?thesis using assms(2) y g by (auto simp: vfs_stat_def split: sum.splits if_splits)
qed

text \<open>A volume to show it on: its root directory holds a file and two names that lead back to the root.\<close>

definition loop_dir :: bytes where
  "loop_dir = blit (blit (blit (mwfs_zeros 512) (0 * 64) (mwfs_dent_fill 1 MWFS_T_DIR (replicate 31 0x41)))
     (1 * 64) (mwfs_dent_fill 1 MWFS_T_DIR (replicate 29 0x42))) (2 * 64) (mwfs_dent_fill 2 MWFS_T_FILE [0x46])"

definition loop_root :: ino where
  "loop_root = mwfs_ino_zero\<lparr>i_type := MWFS_T_DIR, i_size := 512, i_direct := [2, 0, 0, 0, 0, 0, 0, 0]\<rparr>"

definition loop_blk :: blk where
  "loop_blk = \<lparr>blk_sec = \<lambda>_ l. if l = 1 then blit (mwfs_zeros 512) 64 (mwfs_ino_bytes loop_root) else if l = 2 then loop_dir else mwfs_zeros 512,
     blk_rd = \<lambda>_ _ _. True, blk_wr = \<lambda>_ _ _. True, blk_n = 0\<rparr>"

definition loop_vol :: vol where
  "loop_vol = vol_zero\<lparr>v_used := True, v_sectors := 4, v_inodes := 8, v_itable_lba := 1, v_data_lba := 2\<rparr>"

definition loop_vfs :: vfs where
  "loop_vfs = \<lparr>vf_vols = [loop_vol], vf_root_err = MWFS_OK, vf_cwd = [SLASH], vf_mnt = 0\<rparr>"

lemma loop_dir_entries:
  "length loop_dir = 512" "dent_of loop_dir 0 = \<lparr>de_ino = 1, de_type = MWFS_T_DIR, de_name = replicate 31 0x41\<rparr>"
  "dent_of loop_dir 1 = \<lparr>de_ino = 1, de_type = MWFS_T_DIR, de_name = replicate 29 0x42\<rparr>"
  "dent_of loop_dir 2 = \<lparr>de_ino = 2, de_type = MWFS_T_FILE, de_name = [0x46]\<rparr>"
proof -
  have z: "length (mwfs_zeros 512) = 512" by simp
  have ok: "mwfs_name_ok (replicate 31 0x41)" "mwfs_name_ok (replicate 29 0x42)" "mwfs_name_ok [0x46]"
    by (simp_all add: mwfs_name_ok_def mwfs_name_char_def MWFS_NAME_MAX_def)
  note f = dent_fill [OF _ _ ok(1), of 1 MWFS_T_DIR] dent_fill [OF _ _ ok(2), of 1 MWFS_T_DIR] dent_fill [OF _ _ ok(3), of 2 MWFS_T_FILE]
  let ?b0 = "blit (mwfs_zeros 512) (0 * 64) (mwfs_dent_fill 1 MWFS_T_DIR (replicate 31 0x41))"
  let ?b1 = "blit ?b0 (1 * 64) (mwfs_dent_fill 1 MWFS_T_DIR (replicate 29 0x42))"
  have l: "length ?b0 = 512" "length ?b1 = 512" by simp_all
  show "length loop_dir = 512" using l(2) by (simp add: loop_dir_def)
  show "dent_of loop_dir 0 = \<lparr>de_ino = 1, de_type = MWFS_T_DIR, de_name = replicate 31 0x41\<rparr>"
    using f(1) dent_blit [OF l(2) length_dent_fill, of 2 0] dent_blit [OF l(1) length_dent_fill, of 1 0] dent_blit [OF z length_dent_fill, of 0 0]
    unfolding loop_dir_def by (simp add: mwfs_types)
  show "dent_of loop_dir 1 = \<lparr>de_ino = 1, de_type = MWFS_T_DIR, de_name = replicate 29 0x42\<rparr>"
    using f(2) dent_blit [OF l(2) length_dent_fill, of 2 1] dent_blit [OF l(1) length_dent_fill, of 1 1] unfolding loop_dir_def by (simp add: mwfs_types)
  show "dent_of loop_dir 2 = \<lparr>de_ino = 2, de_type = MWFS_T_FILE, de_name = [0x46]\<rparr>"
    using f(3) dent_blit [OF l(2) length_dent_fill, of 2 2] unfolding loop_dir_def by (simp add: mwfs_types)
qed

lemma loop_lookup:
  "mwfs_dir_lookup loop_vol 1 (replicate 31 0x41) loop_blk = Inr (1, MWFS_T_DIR)"
  "mwfs_dir_lookup loop_vol 1 (replicate 29 0x42) loop_blk = Inr (1, MWFS_T_DIR)"
  "mwfs_dir_lookup loop_vol 1 [0x46] loop_blk = Inr (2, MWFS_T_FILE)"
proof -
  have r: "mwfs_rd loop_vol 1 loop_blk = Some (blit (mwfs_zeros 512) 64 (mwfs_ino_bytes loop_root))" "mwfs_rd loop_vol 2 loop_blk = Some loop_dir"
    by (simp_all add: mwfs_rd_def blk_read_def loop_blk_def loop_vol_def vol_zero_def)
  have io: "ino_ok loop_root" by (simp add: ino_ok_def loop_root_def mwfs_ino_zero_def mwfs_types)
  have sl: "slice 64 64 (blit (mwfs_zeros 512) 64 (mwfs_ino_bytes loop_root)) = mwfs_ino_bytes loop_root"
    by (rule slice_blit_same) (simp_all add: loop_root_def)
  have "mwfs_ino_get loop_vol 1 loop_blk = Some loop_root"
    using r(1) sl ino_of_bytes [OF io] by (simp add: mwfs_ino_get_def loop_vol_def vol_zero_def MWFS_INO_SIZE_def)
  hence d: "dir_inode loop_vol 1 loop_blk = Inr loop_root" by (simp add: dir_inode_def loop_root_def)
  have rg: "dir_range loop_root = [0]" by (simp add: dir_range_def loop_root_def)
  have "mwfs_lookup loop_vol loop_root 0 loop_blk = Some 2"
    by (simp add: mwfs_lookup_def mwfs_bmap_def mwfs_bmap_direct_def loop_root_def MWFS_NDIRECT_def Let_def)
  hence sec: "dir_sector loop_vol loop_root 0 loop_blk = Inr (2, loop_dir)" using r(2) by (simp add: dir_sector_def)
  have e: "dent_ino loop_dir k = de_ino (dent_of loop_dir k)" "dent_type loop_dir k = de_type (dent_of loop_dir k)"
    "dent_name loop_dir k = de_name (dent_of loop_dir k)" for k by (simp_all add: dent_of_def)
  have up: "[0..<8] = [0, 1, 2, 3, 4, 5, 6, 7 :: nat]" by (simp add: upt_rec)
  have nq: "\<not> mwfs_name_eq a b" if "length a \<noteq> length b" for a b using that by (metis length_map name_eq_upper)
  have rf: "mwfs_name_eq a a" for a by (simp add: name_eq_upper)
  have f: "dir_find_sector (replicate 31 0x41) loop_dir = Some 0" "dir_find_sector (replicate 29 0x42) loop_dir = Some 1" "dir_find_sector [0x46] loop_dir = Some 2"
    by (simp_all add: dir_find_sector_def up e loop_dir_entries loop_dir_entries(3) [unfolded One_nat_def] nq rf)
  show "mwfs_dir_lookup loop_vol 1 (replicate 31 0x41) loop_blk = Inr (1, MWFS_T_DIR)"
    "mwfs_dir_lookup loop_vol 1 (replicate 29 0x42) loop_blk = Inr (1, MWFS_T_DIR)"
    "mwfs_dir_lookup loop_vol 1 [0x46] loop_blk = Inr (2, MWFS_T_FILE)"
    using d rg sec f by (simp_all add: mwfs_dir_lookup_def mwfs_dir_find_def e loop_dir_entries loop_dir_entries(3) [unfolded One_nat_def])
qed

text \<open>Claim C12. Copying into a directory whose canonical path has 94 bytes never ends: the path vfs_cp builds for the
  recursive call has no room for the name, so it is the directory again. No fuel gives a result.\<close>

theorem vfs_cp_recurses:
  assumes "vfs_stat p f s = (Inr a, f1)" "nd_type a = MWFS_T_FILE" "vfs_norm f q VFS_PATH_MAX = Inr dir" "length dir = VFS_PATH_MAX - 2"
    "vfs_lookup q f s = (Inr b, f2)" "nd_exists b" "nd_type b = MWFS_T_DIR"
  shows "vfs_cp fuel now p q f s = None"
proof -
  have canon: "canonical dir" by (rule norm_canonical [OF assms(3)])
  obtain cs where cs: "dir = path_of cs" "normal cs" "fits cs" using canon by (auto simp: canonical_def)
  have full: "cp_full dir leaf = dir @ [SLASH]" for leaf using assms(4) by (simp add: cp_full_def VFS_PATH_MAX_def Let_def)
  have again: "vfs_norm g (dir @ [SLASH]) VFS_PATH_MAX = Inr dir" for g
  proof -
    have "norm_tmp (vf_cwd g) (dir @ [SLASH]) = dir @ [SLASH]" using cs(1) assms(4) by (simp add: norm_tmp_def VFS_PATH_MAX_def)
    moreover have "norm_tmp (vf_cwd g) dir = dir" using cs(1) assms(4) by (simp add: norm_tmp_def VFS_PATH_MAX_def)
    ultimately have "path_comps (norm_tmp (vf_cwd g) (dir @ [SLASH])) = path_comps (norm_tmp (vf_cwd g) dir)" by (simp add: comps_append)
    thus ?thesis using norm_of_canonical [OF canon, of g] by (simp add: norm_walk)
  qed
  have "same_ns f g \<Longrightarrow> vfs_norm f t VFS_PATH_MAX = Inr dir \<Longrightarrow> vfs_cp fuel now p t g s = None" for t g
  proof (induction fuel arbitrary: t g)
    case (Suc fuel)
    obtain g1 where g1: "vfs_stat p g s = (Inr a, g1)" "same_ns f1 g1" using stat_cong [OF Suc.prems(1) assms(1)] by blast
    have n: "same_ns f g1" using stat_mnt [OF assms(1)] g1(2) by (rule same_ns_trans)
    have "vfs_lookup t f s = (Inr b, f2)" using Suc.prems(2) assms(3,5) by (simp add: vfs_lookup_def)
    then obtain g2 where g2: "vfs_lookup t g1 s = (Inr b, g2)" "same_ns f2 g2" using lookup_cong [OF n] by blast
    have m: "same_ns f g2" using lookup_mnt [OF assms(5)] g2(2) by (rule same_ns_trans)
    have "vfs_norm g2 t VFS_PATH_MAX = Inr dir" using Suc.prems(2) norm_cong [of g2 f t VFS_PATH_MAX] m by (simp add: same_ns_iff)
    thus ?case using g1(1) g2(1) assms(2,6,7) Suc.IH [OF m again] by (simp add: full)
  qed simp
  thus ?thesis using assms(3) by simp
qed

lemma vfs_cp_recurses_witness:
  "vfs_cp 1000 0 [SLASH, 0x46] (path_of [replicate 31 0x41, replicate 31 0x41, replicate 29 0x42]) loop_vfs loop_blk = None"
proof -
  let ?cs = "[replicate 31 0x41, replicate 31 0x41, replicate 29 0x42] :: bytes list"
  have pl: "plain (replicate 31 0x41)" "plain (replicate 29 0x42)" "plain [0x46]" by (simp_all add: plain_def SLASH_def)
  have cs: "path_comps (path_of ?cs) = ?cs" "path_comps (path_of [[0x46]]) = [[0x46]]" using pl by (simp_all add: comps_path_of)
  have canon: "canonical (path_of ?cs)" "canonical (path_of [[0x46]])"
  proof -
    have nd: "c \<noteq> [DOT] \<and> c \<noteq> [DOT, DOT]" if "length c > 2" for c using that by auto
    have "normal ?cs" "normal [[0x46]]" using pl nd [of "replicate 31 0x41"] nd [of "replicate 29 0x42"] by (simp_all add: normal_def DOT_def)
    moreover have "fits ?cs" "fits [[0x46]]" by (simp_all add: fits_def path_of_def MWFS_NAME_MAX_def VFS_MAX_DEPTH_def VFS_PATH_MAX_def)
    ultimately have "normal ?cs" "fits ?cs" "normal [[0x46]]" "fits [[0x46]]" by blast+
    thus "canonical (path_of ?cs)" "canonical (path_of [[0x46]])" unfolding canonical_def by blast+
  qed
  note n = norm_of_canonical [OF canon(1), of loop_vfs] norm_of_canonical [OF canon(2), of loop_vfs]
  have v: "vf_vols loop_vfs ! 0 = loop_vol" "vfs_is_root_ok loop_vfs" by (simp_all add: loop_vfs_def vfs_is_root_ok_def)
  have nm: "\<not> mwfs_name_eq (replicate 31 0x41) vfs_mnt_name" "\<not> mwfs_name_eq [0x46] vfs_mnt_name"
    using map_eq_imp_length_eq [of mwfs_upper "replicate 31 0x41" mwfs_upper vfs_mnt_name] map_eq_imp_length_eq [of mwfs_upper "[0x46]" mwfs_upper vfs_mnt_name]
    by (auto simp: name_eq_upper vfs_mnt_name_def)
  obtain b where b: "vfs_lookup (path_of ?cs) loop_vfs loop_blk = (Inr b, loop_vfs)" "nd_exists b" "nd_type b = MWFS_T_DIR"
    using n(1) cs(1) v nm(1) loop_lookup
    by (auto simp: vfs_lookup_def vfs_resolve_def vfs_root_node_def MWFS_NAME_MAX_def MWFS_ROOT_INO_def walk_step_def Let_def)
  obtain a where a: "vfs_stat (path_of [[0x46]]) loop_vfs loop_blk = (Inr a, loop_vfs)" "nd_type a = MWFS_T_FILE"
    using n(2) cs(2) v nm(2) loop_lookup
    by (auto simp: vfs_stat_def vfs_lookup_def vfs_resolve_def vfs_root_node_def MWFS_NAME_MAX_def MWFS_ROOT_INO_def walk_step_def Let_def)
  have "length (path_of ?cs) = VFS_PATH_MAX - 2" by (simp add: path_of_def VFS_PATH_MAX_def)
  from vfs_cp_recurses [OF a n(1) this b, of 1000 0] show ?thesis by (simp add: path_of_def)
qed

end
